(* ===== verification/JOS_Prelude.thy ===== *)
theory JOS_Prelude
  imports Main "HOL-Library.Word" "HOL-Library.Monad_Syntax"
begin

text \<open>
  Shared vocabulary of the development: machine types, the error codes of
  \<^verbatim>\<open>inc/error.h\<close>, the rounding macros of \<^verbatim>\<open>inc/types.h\<close>, a flat byte memory with
  32-bit little-endian accesses, C strings in that memory, singly linked lists threaded
  through an array, and the generic lemmas the component theories share.

  Conventions used by every theory.  A function of the C code that may panic (or loop for
  ever) returns an \<open>option\<close>, \<open>None\<close> being "does not return to its caller".  A function that
  returns an error code returns an \<open>int\<close>, negative on error as in the code.  Pointers into
  an array of structures are indices of type \<open>nat\<close>, and the null pointer is \<open>None\<close>.
\<close>

unbundle bit_operations_syntax

named_theorems cmem_simps \<open>reads over writes of the flat byte memory\<close>
named_theorems chain_intros \<open>building linked lists in an array\<close>

section \<open>Machine types and constants\<close>

type_synonym u8 = "8 word"
type_synonym u16 = "16 word"
type_synonym u32 = "32 word"
type_synonym u64 = "64 word"

text \<open>A flat byte memory; addresses are unbounded naturals, so address arithmetic never
  wraps in the model.\<close>

type_synonym cmem = "nat \<Rightarrow> u8"

abbreviation PGSIZE :: nat where "PGSIZE \<equiv> 4096"
abbreviation PGSHIFT :: nat where "PGSHIFT \<equiv> 12"

text \<open>The error codes of \<^verbatim>\<open>inc/error.h\<close>; the code returns their negations.\<close>

abbreviation E_UNSPECIFIED :: int where "E_UNSPECIFIED \<equiv> 1"
abbreviation E_BAD_ENV :: int where "E_BAD_ENV \<equiv> 2"
abbreviation E_INVAL :: int where "E_INVAL \<equiv> 3"
abbreviation E_NO_MEM :: int where "E_NO_MEM \<equiv> 4"
abbreviation E_NO_FREE_ENV :: int where "E_NO_FREE_ENV \<equiv> 5"
abbreviation E_FAULT :: int where "E_FAULT \<equiv> 6"
abbreviation E_NO_SYS :: int where "E_NO_SYS \<equiv> 7"
abbreviation E_IPC_NOT_RECV :: int where "E_IPC_NOT_RECV \<equiv> 8"
abbreviation E_EOF :: int where "E_EOF \<equiv> 9"
abbreviation E_NO_DISK :: int where "E_NO_DISK \<equiv> 10"
abbreviation E_MAX_OPEN :: int where "E_MAX_OPEN \<equiv> 11"
abbreviation E_NOT_FOUND :: int where "E_NOT_FOUND \<equiv> 12"
abbreviation E_BAD_PATH :: int where "E_BAD_PATH \<equiv> 13"
abbreviation E_FILE_EXISTS :: int where "E_FILE_EXISTS \<equiv> 14"
abbreviation E_NOT_EXEC :: int where "E_NOT_EXEC \<equiv> 15"
abbreviation E_NOT_SUPP :: int where "E_NOT_SUPP \<equiv> 16"
abbreviation MAXERROR :: int where "MAXERROR \<equiv> 22"

text \<open>\<open>ROUNDDOWN\<close> and \<open>ROUNDUP\<close> of \<^verbatim>\<open>inc/types.h\<close>, on naturals (no 64-bit wrap-around) and,
  as \<open>ROUNDUP64\<close>, on the 64-bit words the macro computes with.\<close>

definition ROUNDDOWN :: "nat \<Rightarrow> nat \<Rightarrow> nat" where
  "ROUNDDOWN a n = a - a mod n"

definition ROUNDUP :: "nat \<Rightarrow> nat \<Rightarrow> nat" where
  "ROUNDUP a n = ROUNDDOWN (a + n - 1) n"

definition ROUNDDOWN64 :: "u64 \<Rightarrow> u64 \<Rightarrow> u64" where
  "ROUNDDOWN64 a n = a - a mod n"

definition ROUNDUP64 :: "u64 \<Rightarrow> u64 \<Rightarrow> u64" where
  "ROUNDUP64 a n = ROUNDDOWN64 (a + n - 1) n"

lemma ROUNDDOWN_le: "ROUNDDOWN a n \<le> a"
  by (simp add: ROUNDDOWN_def)

lemma ROUNDDOWN_dvd: "n dvd ROUNDDOWN a n"
  by (simp add: ROUNDDOWN_def minus_mod_eq_mult_div)

lemma ROUNDDOWN_eq_div: "ROUNDDOWN a n = a div n * n"
  by (simp add: ROUNDDOWN_def minus_mod_eq_div_mult)

lemma ROUNDUP_dvd: "n dvd ROUNDUP a n"
  by (simp add: ROUNDUP_def ROUNDDOWN_dvd)

lemma ROUNDUP_ge: "0 < n \<Longrightarrow> a \<le> ROUNDUP a n"
proof -
  assume n: "0 < n"
  then have "(a + n - 1) mod n < n" by simp
  then have "a + n - 1 - (n - 1) \<le> a + n - 1 - (a + n - 1) mod n"
    by (intro diff_le_mono2) linarith
  with n show ?thesis by (simp add: ROUNDUP_def ROUNDDOWN_def)
qed

lemma ROUNDUP_less: "0 < n \<Longrightarrow> ROUNDUP a n < a + n"
  by (simp add: ROUNDUP_def ROUNDDOWN_def)

lemma ROUNDUP_id: "0 < n \<Longrightarrow> n dvd a \<Longrightarrow> ROUNDUP a n = a"
proof -
  assume n: "0 < n" and d: "n dvd a"
  from d obtain k where k: "a = n * k" by (elim dvdE)
  have "((n - 1) + n * k) mod n = n - 1"
    using n by (simp only: mod_mult_self2) simp
  then have "(a + (n - 1)) mod n = n - 1"
    by (simp only: k add.commute)
  with n show ?thesis by (simp add: ROUNDUP_def ROUNDDOWN_def)
qed

section \<open>32-bit little-endian accesses\<close>

definition rd32 :: "cmem \<Rightarrow> nat \<Rightarrow> u32" where
  "rd32 m a = ucast (m a) OR push_bit 8 (ucast (m (a + 1)))
     OR push_bit 16 (ucast (m (a + 2))) OR push_bit 24 (ucast (m (a + 3)))"

definition wr32 :: "cmem \<Rightarrow> nat \<Rightarrow> u32 \<Rightarrow> cmem" where
  "wr32 m a w = m(a := ucast w, a + 1 := ucast (drop_bit 8 w),
     a + 2 := ucast (drop_bit 16 w), a + 3 := ucast (drop_bit 24 w))"

lemma wr32_other [cmem_simps]: "b < a \<or> a + 4 \<le> b \<Longrightarrow> wr32 m a w b = m b"
  by (auto simp: wr32_def)

lemma rd32_wr32_same [simp, cmem_simps]: "rd32 (wr32 m a w) a = w"
proof -
  have "bit (rd32 (wr32 m a w) a) n = bit w n" if "n < 32" for n
  proof -
    consider "n < 8" | "8 \<le> n" "n < 16" | "16 \<le> n" "n < 24" | "24 \<le> n" "n < 32"
      using \<open>n < 32\<close> by linarith
    then show ?thesis
      by cases (auto simp: rd32_def wr32_def bit_simps)
  qed
  then show ?thesis by (intro bit_word_eqI) simp
qed

lemma rd32_cong: "(\<And>i. i < 4 \<Longrightarrow> m (a + i) = m' (a + i)) \<Longrightarrow> rd32 m a = rd32 m' a"
proof -
  assume eq: "\<And>i. i < 4 \<Longrightarrow> m (a + i) = m' (a + i)"
  show ?thesis
    using eq [of 0] eq [of 1] eq [of 2] eq [of 3] by (simp add: rd32_def)
qed

lemma rd32_wr32_other [cmem_simps]: "b + 4 \<le> a \<or> a + 4 \<le> b \<Longrightarrow> rd32 (wr32 m a w) b = rd32 m b"
  by (rule rd32_cong) (auto simp: wr32_other)

section \<open>Byte sequences and C strings in memory\<close>

text \<open>\<open>bytes_at m p xs\<close>: the bytes \<open>xs\<close> lie at address \<open>p\<close>.  \<open>cstr m p xs\<close>: the bytes \<open>xs\<close>,
  none of them zero, lie at \<open>p\<close> and a zero byte follows.\<close>

fun bytes_at :: "cmem \<Rightarrow> nat \<Rightarrow> u8 list \<Rightarrow> bool" where
  "bytes_at m p [] = True"
| "bytes_at m p (x # xs) = (m p = x \<and> bytes_at m (Suc p) xs)"

fun cstr :: "cmem \<Rightarrow> nat \<Rightarrow> u8 list \<Rightarrow> bool" where
  "cstr m p [] = (m p = 0)"
| "cstr m p (x # xs) = (m p = x \<and> x \<noteq> 0 \<and> cstr m (Suc p) xs)"

lemma bytes_at_nth: "bytes_at m p xs \<longleftrightarrow> (\<forall>i < length xs. m (p + i) = xs ! i)"
proof (induction xs arbitrary: p)
  case Nil
  show ?case by simp
next
  case (Cons x xs)
  show ?case
    by (auto simp: Cons.IH nth_Cons' less_Suc_eq_0_disj)
qed

lemma bytes_at_append:
  "bytes_at m p (xs @ ys) \<longleftrightarrow> bytes_at m p xs \<and> bytes_at m (p + length xs) ys"
  by (induction xs arbitrary: p) auto

lemma cstr_bytes:
  "cstr m p xs \<longleftrightarrow> bytes_at m p xs \<and> m (p + length xs) = 0 \<and> 0 \<notin> set xs"
  by (induction xs arbitrary: p) auto

lemma cstr_unique: "cstr m p xs \<Longrightarrow> cstr m p ys \<Longrightarrow> xs = ys"
proof (induction xs arbitrary: p ys)
  case Nil
  then show ?case by (cases ys) auto
next
  case (Cons x xs)
  then show ?case by (cases ys) auto
qed

lemma bytes_at_cong:
  "(\<And>a. p \<le> a \<Longrightarrow> a < p + length xs \<Longrightarrow> m a = m' a) \<Longrightarrow> bytes_at m p xs = bytes_at m' p xs"
  by (auto simp: bytes_at_nth)

lemma cstr_cong:
  "(\<And>a. p \<le> a \<Longrightarrow> a \<le> p + length xs \<Longrightarrow> m a = m' a) \<Longrightarrow> cstr m p xs = cstr m' p xs"
  unfolding cstr_bytes using bytes_at_cong [of p xs m m'] by simp

lemma cstr_nth: "cstr m p xs \<Longrightarrow> i < length xs \<Longrightarrow> m (p + i) = xs ! i"
  by (simp add: cstr_bytes bytes_at_nth)

lemma cstr_end: "cstr m p xs \<Longrightarrow> m (p + length xs) = 0"
  by (simp add: cstr_bytes)

section \<open>Linked lists threaded through an array\<close>

text \<open>\<open>chain link h xs\<close>: following the links from the head \<open>h\<close> visits exactly the indices
  \<open>xs\<close> and ends in the null link.  Both free lists of the kernel (pages, environments) have
  this shape.\<close>

fun chain :: "(nat \<Rightarrow> nat option) \<Rightarrow> nat option \<Rightarrow> nat list \<Rightarrow> bool" where
  "chain link h [] = (h = None)"
| "chain link h (x # xs) = (h = Some x \<and> chain link (link x) xs)"

lemma chain_None [simp]: "chain link None xs \<longleftrightarrow> xs = []"
  by (cases xs) auto

lemma chain_Some: "chain link (Some x) xs \<longleftrightarrow> (\<exists>ys. xs = x # ys \<and> chain link (link x) ys)"
  by (cases xs) auto

lemma chain_unique: "chain link h xs \<Longrightarrow> chain link h ys \<Longrightarrow> xs = ys"
proof (induction xs arbitrary: h ys)
  case Nil
  then show ?case by simp
next
  case (Cons x xs)
  then show ?case by (cases ys) auto
qed

lemma chain_cong: "(\<And>x. x \<in> set xs \<Longrightarrow> link x = link' x) \<Longrightarrow> chain link h xs = chain link' h xs"
  by (induction xs arbitrary: h) auto

lemma chain_upd [simp]: "x \<notin> set xs \<Longrightarrow> chain (link(x := v)) h xs = chain link h xs"
  by (rule chain_cong) auto

text \<open>A chain is finite, so it never visits an index twice: otherwise the links from the two
  visits would give two chains of different length.\<close>

lemma chain_drop: "chain link h xs \<Longrightarrow> i < length xs \<Longrightarrow> chain link (Some (xs ! i)) (drop i xs)"
proof (induction xs arbitrary: h i)
  case Nil
  then show ?case by simp
next
  case (Cons x xs)
  then show ?case by (cases i) auto
qed

lemma chain_distinct: "chain link h xs \<Longrightarrow> distinct xs"
proof (unfold distinct_conv_nth, intro allI impI)
  fix i j
  assume c: "chain link h xs" and i: "i < length xs" and j: "j < length xs" and ij: "i \<noteq> j"
  show "xs ! i \<noteq> xs ! j"
  proof
    assume "xs ! i = xs ! j"
    with chain_drop [OF c i] chain_drop [OF c j] have "drop i xs = drop j xs"
      by (metis chain_unique)
    then have "length xs - i = length xs - j" by (metis length_drop)
    with i j ij show False by linarith
  qed
qed

lemma chain_push [chain_intros]:
  "chain link h xs \<Longrightarrow> x \<notin> set xs \<Longrightarrow> chain (link(x := h)) (Some x) (x # xs)"
  by simp

lemma chain_append:
  "chain link h (xs @ ys) \<Longrightarrow> \<exists>h'. chain link h' ys \<and> (ys \<noteq> [] \<longrightarrow> h' = Some (hd ys))"
proof (induction xs arbitrary: h)
  case Nil
  then show ?case by (cases ys) auto
next
  case (Cons x xs)
  then show ?case by auto
qed

lemma takeWhile_Some: "takeWhile (\<lambda>b. b \<noteq> None) (map (\<lambda>k. Some (g k)) xs) = map (\<lambda>k. Some (g k)) xs"
  by (induction xs) auto

text \<open>A memory with a list of bytes stored at an address.\<close>

definition overlay :: "nat \<Rightarrow> u8 list \<Rightarrow> cmem \<Rightarrow> cmem" where
  "overlay k bs g = (\<lambda>a. if k \<le> a \<and> a < k + length bs then bs ! (a - k) else g a)"

lemma overlay_Nil: "overlay k [] g = g"
  by (auto simp: overlay_def fun_eq_iff)

lemma overlay_Cons: "overlay (Suc k) bs (g(k := b)) = overlay k (b # bs) g"
  by (auto simp: overlay_def fun_eq_iff nth_Cons' Suc_le_eq)

end
