(* ===== verification/Kern_Page.thy ===== *)
theory Kern_Page
  imports JOS_Prelude
begin

text \<open>
  The physical page allocator of \<^verbatim>\<open>kern/pmap.c\<close>: the boot-time bump allocator
  \<open>boot_alloc\<close>, the \<open>pages\<close> array with its free list, \<open>page_init\<close>, \<open>page_alloc\<close>,
  \<open>page_free\<close>, \<open>page_decref\<close>, and the address conversions of \<^verbatim>\<open>kern/pmap.h\<close>.

  State: \<open>pages\<close> is the array of \<open>struct PageInfo\<close> (a \<open>struct PageInfo *\<close> is an index, null
  is \<open>None\<close>), \<open>page_free_list\<close> the head of the free list, \<open>nextfree\<close> the static pointer of
  \<open>boot_alloc\<close> (0 before the first call), \<open>kmem\<close> the contents of the physical page frames
  as 512 64-bit words each.  The record is extensible: the page-table, environment and
  system-call theories extend it, and every operation here works on the extended state.
  A kernel panic is the result \<open>None\<close>.
\<close>

record page_info =
  pp_link :: "nat option"
  pp_ref :: u16

record pstate =
  npages :: nat
  pages :: "nat \<Rightarrow> page_info"
  page_free_list :: "nat option"
  nextfree :: u64
  kmem :: "nat \<Rightarrow> nat \<Rightarrow> u64"

abbreviation KERNBASE :: u64 where "KERNBASE \<equiv> 0x8004000000"
abbreviation IOPHYSMEM :: nat where "IOPHYSMEM \<equiv> 0x0A0000"
abbreviation MPENTRY_PADDR :: nat where "MPENTRY_PADDR \<equiv> 0x7000"
abbreviation ALLOC_ZERO :: int where "ALLOC_ZERO \<equiv> 1"

section \<open>Address conversions\<close>

text \<open>\<open>PPN\<close> is the page number of an address, as a 64-bit shift.\<close>

definition PPN :: "u64 \<Rightarrow> nat" where
  "PPN pa = unat (drop_bit 12 pa)"

definition PADDR :: "u64 \<Rightarrow> u64 option" where
  "PADDR kva = (if kva < KERNBASE then None else Some (kva - KERNBASE))"

text \<open>\<open>KADDR\<close> checks the page number truncated to 32 bits, as the macro's \<open>uint32_t\<close> does.\<close>

definition KADDR :: "'a pstate_scheme \<Rightarrow> u64 \<Rightarrow> u64 option" where
  "KADDR s pa =
     (if unat (ucast (drop_bit 12 pa) :: u32) \<ge> npages s then None else Some (pa + KERNBASE))"

definition page2pa :: "nat \<Rightarrow> u64" where
  "page2pa pp = push_bit 12 (of_nat pp)"

definition pa2page :: "'a pstate_scheme \<Rightarrow> u64 \<Rightarrow> nat option" where
  "pa2page s pa = (if PPN pa \<ge> npages s then None else Some (PPN pa))"

definition page2kva :: "'a pstate_scheme \<Rightarrow> nat \<Rightarrow> u64 option" where
  "page2kva s pp = KADDR s (page2pa pp)"

section \<open>The boot-time allocator\<close>

text \<open>\<open>end_sym\<close> is the address of the linker symbol \<open>end\<close>; \<open>n\<close> is the \<open>uint32_t\<close> argument.\<close>

definition boot_alloc :: "u64 \<Rightarrow> u32 \<Rightarrow> 'a pstate_scheme \<Rightarrow> (u64 \<times> 'a pstate_scheme) option" where
  "boot_alloc end_sym n s =
     (let s1 = (if nextfree s = 0 then s\<lparr>nextfree := ROUNDUP64 end_sym 4096\<rparr> else s) in
      if n = 0 then Some (nextfree s1, s1)
      else
        let result = nextfree s1;
            s2 = s1\<lparr>nextfree := ROUNDUP64 (nextfree s1 + ucast n) 4096\<rparr>
        in if nextfree s2 < end_sym then None else Some (result, s2))"

section \<open>Reference counts and the free list\<close>

definition set_link :: "nat \<Rightarrow> nat option \<Rightarrow> 'a pstate_scheme \<Rightarrow> 'a pstate_scheme" where
  "set_link p l s = s\<lparr>pages := (pages s)(p := (pages s p)\<lparr>pp_link := l\<rparr>)\<rparr>"

definition set_ref :: "nat \<Rightarrow> u16 \<Rightarrow> 'a pstate_scheme \<Rightarrow> 'a pstate_scheme" where
  "set_ref p r s = s\<lparr>pages := (pages s)(p := (pages s p)\<lparr>pp_ref := r\<rparr>)\<rparr>"

definition incref :: "nat \<Rightarrow> 'a pstate_scheme \<Rightarrow> 'a pstate_scheme" where
  "incref p s = set_ref p (pp_ref (pages s p) + 1) s"

definition zero_frame :: "nat \<Rightarrow> 'a pstate_scheme \<Rightarrow> 'a pstate_scheme" where
  "zero_frame f s = s\<lparr>kmem := (kmem s)(f := (\<lambda>_. 0))\<rparr>"

text \<open>The first loop of \<open>page_init\<close>: \<open>last\<close> is the previously linked page.\<close>

fun page_init_loop :: "nat list \<Rightarrow> nat option \<Rightarrow> 'a pstate_scheme \<Rightarrow> 'a pstate_scheme" where
  "page_init_loop [] lst s = s"
| "page_init_loop (i # is) lst s =
     (let s1 = s\<lparr>pages := (pages s)(i := \<lparr>pp_link = None, pp_ref = 0\<rparr>)\<rparr>;
          s2 = (case lst of Some l \<Rightarrow> set_link l (Some i) s1
                          | None \<Rightarrow> s1\<lparr>page_free_list := Some i\<rparr>)
      in page_init_loop is (Some i) s2)"

text \<open>\<open>pml4phys\<close> is the physical address of the boot page tables (a linker symbol).  Reading
  \<open>page_free_list->pp_link\<close> of an empty list is a null dereference: \<open>None\<close>.\<close>

definition page_init :: "u64 \<Rightarrow> u64 \<Rightarrow> 'a pstate_scheme \<Rightarrow> 'a pstate_scheme option" where
  "page_init end_sym pml4phys s = do {
     let s1 = page_init_loop [0..<npages s] None s;
     h \<leftarrow> page_free_list s1;
     let s2 = s1\<lparr>page_free_list := pp_link (pages s1 h)\<rparr>;
     let holeS = IOPHYSMEM div PGSIZE;
     (brk, s3) \<leftarrow> boot_alloc end_sym 0 s2;
     brk_pa \<leftarrow> PADDR brk;
     let kernE = PPN brk_pa;
     let s4 = set_link (holeS - 1) (Some kernE) s3;
     bpt_start \<leftarrow> KADDR s4 pml4phys;
     bpt_start_pa \<leftarrow> PADDR bpt_start;
     let bootPTS = PPN bpt_start_pa;
     bpt_end \<leftarrow> KADDR s4 (pml4phys + 5 * 4096);
     bpt_last_pa \<leftarrow> PADDR (bpt_end - 1);
     let bootPTE = PPN bpt_last_pa;
     let s5 = set_link (bootPTS - 1) (Some (bootPTE + 1)) s4;
     Some (set_link (MPENTRY_PADDR div PGSIZE - 1) (Some (MPENTRY_PADDR div PGSIZE + 1)) s5)
   }"

definition page_alloc :: "int \<Rightarrow> 'a pstate_scheme \<Rightarrow> (nat option \<times> 'a pstate_scheme) option" where
  "page_alloc alloc_flags s =
     (case page_free_list s of
        None \<Rightarrow> Some (None, s)
      | Some page \<Rightarrow>
          let s1 = s\<lparr>page_free_list := pp_link (pages s page)\<rparr>;
              s2 = set_link page None s1
          in if alloc_flags AND ALLOC_ZERO \<noteq> 0
             then do { kva \<leftarrow> page2kva s2 page; Some (Some page, zero_frame page s2) }
             else Some (Some page, s2))"

definition insertAtBegining :: "nat option \<Rightarrow> 'a pstate_scheme \<Rightarrow> 'a pstate_scheme" where
  "insertAtBegining node s =
     (case page_free_list s of
        None \<Rightarrow> s\<lparr>page_free_list := node\<rparr>
      | Some h \<Rightarrow>
          (case node of
             None \<Rightarrow> s
           | Some n \<Rightarrow> (set_link n (Some h) s)\<lparr>page_free_list := Some n\<rparr>))"

definition page_free :: "nat \<Rightarrow> 'a pstate_scheme \<Rightarrow> 'a pstate_scheme option" where
  "page_free pp s =
     (if pp_ref (pages s pp) \<noteq> 0 then None
      else if pp_link (pages s pp) \<noteq> None then None
      else Some (insertAtBegining (Some pp) s))"

definition page_decref :: "nat \<Rightarrow> 'a pstate_scheme \<Rightarrow> 'a pstate_scheme option" where
  "page_decref pp s =
     (let s1 = set_ref pp (pp_ref (pages s pp) - 1) s
      in if pp_ref (pages s1 pp) = 0 then page_free pp s1 else Some s1)"

section \<open>The allocator's invariant\<close>

text \<open>\<open>page_inv s xs\<close>: the free list is the chain \<open>xs\<close>, every free page exists and has no
  reference.\<close>

abbreviation free_link :: "'a pstate_scheme \<Rightarrow> nat \<Rightarrow> nat option" where
  "free_link s \<equiv> (\<lambda>p. pp_link (pages s p))"

definition page_inv :: "'a pstate_scheme \<Rightarrow> nat list \<Rightarrow> bool" where
  "page_inv s xs \<longleftrightarrow> chain (free_link s) (page_free_list s) xs \<and>
     (\<forall>p \<in> set xs. p < npages s \<and> pp_ref (pages s p) = 0) \<and> npages s \<le> 2 ^ 32"

text \<open>The contract of a free list threaded through an array, shared by the page allocator and
  the environment table: taking pops the head and leaves the other links alone, giving pushes.\<close>

locale linked_free_list =
  fixes head :: "'s \<Rightarrow> nat option"
    and link :: "'s \<Rightarrow> nat \<Rightarrow> nat option"
    and takes :: "'s \<Rightarrow> nat \<Rightarrow> 's \<Rightarrow> bool"
    and gives :: "nat \<Rightarrow> 's \<Rightarrow> 's \<Rightarrow> bool"
  assumes takes_head: "takes s x s' \<Longrightarrow> head s = Some x \<and> head s' = link s x"
    and takes_link: "takes s x s' \<Longrightarrow> y \<noteq> x \<Longrightarrow> link s' y = link s y"
    and gives_head: "gives x s s' \<Longrightarrow> head s' = Some x \<and> link s' x = head s"
    and gives_link: "gives x s s' \<Longrightarrow> y \<noteq> x \<Longrightarrow> link s' y = link s y"
begin

lemma chain_takes:
  assumes "takes s x s'" "chain (link s) (head s) xs"
  shows "xs = x # tl xs \<and> chain (link s') (head s') (tl xs) \<and> x \<notin> set (tl xs)"
proof -
  obtain ys where ys: "xs = x # ys" "chain (link s) (link s x) ys"
    using assms takes_head by (cases xs) auto
  then have x: "x \<notin> set ys" using chain_distinct [OF assms(2)] by simp
  have "chain (link s') (link s x) ys = chain (link s) (link s x) ys"
    by (rule chain_cong) (use x takes_link [OF assms(1)] in metis)
  with ys x takes_head [OF assms(1)] show ?thesis by simp
qed

lemma chain_gives:
  assumes "gives x s s'" "chain (link s) (head s) xs" "x \<notin> set xs"
  shows "chain (link s') (head s') (x # xs)"
proof -
  have "chain (link s') (head s) xs = chain (link s) (head s) xs"
    by (rule chain_cong) (use assms(3) gives_link [OF assms(1)] in metis)
  with assms(2) gives_head [OF assms(1)] show ?thesis by simp
qed

text \<open>What was just given back is what the next take returns.\<close>

lemma gives_then_takes: "gives x s s1 \<Longrightarrow> takes s1 y s2 \<Longrightarrow> y = x \<and> head s2 = head s"
  using gives_head takes_head by (metis option.inject)

end

section \<open>Field lemmas\<close>

lemma set_link_simps [simp]:
  "page_free_list (set_link p l s) = page_free_list s" "npages (set_link p l s) = npages s"
  "kmem (set_link p l s) = kmem s" "nextfree (set_link p l s) = nextfree s"
  "pages (set_link p l s) q = (if q = p then (pages s p)\<lparr>pp_link := l\<rparr> else pages s q)"
  by (simp_all add: set_link_def)

lemma set_ref_simps [simp]:
  "page_free_list (set_ref p r s) = page_free_list s" "npages (set_ref p r s) = npages s"
  "kmem (set_ref p r s) = kmem s" "nextfree (set_ref p r s) = nextfree s"
  "pages (set_ref p r s) q = (if q = p then (pages s p)\<lparr>pp_ref := r\<rparr> else pages s q)"
  by (simp_all add: set_ref_def)

lemma incref_simps [simp]:
  "page_free_list (incref p s) = page_free_list s" "npages (incref p s) = npages s"
  "kmem (incref p s) = kmem s" "nextfree (incref p s) = nextfree s"
  "pages (incref p s) q = (if q = p then (pages s p)\<lparr>pp_ref := pp_ref (pages s p) + 1\<rparr> else pages s q)"
  by (simp_all add: incref_def)

lemma zero_frame_simps [simp]:
  "page_free_list (zero_frame f s) = page_free_list s" "npages (zero_frame f s) = npages s"
  "pages (zero_frame f s) = pages s" "nextfree (zero_frame f s) = nextfree s"
  "kmem (zero_frame f s) g = (if g = f then (\<lambda>_. 0) else kmem s g)"
  by (simp_all add: zero_frame_def)

section \<open>Allocation and release\<close>

lemma drop_push_12: "p < 2 ^ 52 \<Longrightarrow> drop_bit 12 (push_bit 12 (of_nat p :: u64)) = of_nat p"
proof (rule bit_word_eqI)
  fix n :: nat
  assume p: "p < 2 ^ 52"
  have "bit p n \<Longrightarrow> n < 52"
    using p by (metis bit_take_bit_iff take_bit_nat_eq_self)
  then show "bit (drop_bit 12 (push_bit 12 (of_nat p :: u64))) n = bit (of_nat p :: u64) n"
    if "n < LENGTH(64)"
    by (auto simp: bit_simps)
qed

lemma PPN_page2pa: "p < 2 ^ 52 \<Longrightarrow> PPN (page2pa p) = p"
  by (simp add: PPN_def page2pa_def drop_push_12 unsigned_of_nat take_bit_nat_eq_self)

lemma KADDR_page2pa:
  "p < npages s \<Longrightarrow> npages s \<le> 2 ^ 32 \<Longrightarrow> KADDR s (page2pa p) = Some (page2pa p + KERNBASE)"
proof -
  assume p: "p < npages s" "npages s \<le> 2 ^ 32"
  then have "unat (ucast (of_nat p :: u64) :: u32) = p"
    by (simp add: unsigned_ucast_eq unsigned_of_nat take_bit_nat_eq_self)
  with p show ?thesis by (simp add: KADDR_def page2pa_def drop_push_12)
qed

lemma pa2page_page2pa: "p < npages s \<Longrightarrow> npages s \<le> 2 ^ 32 \<Longrightarrow> pa2page s (page2pa p) = Some p"
  by (simp add: pa2page_def PPN_page2pa)

lemma page_alloc_cases:
  "page_alloc fl s = Some (r, s') \<Longrightarrow>
     (case page_free_list s of
        None \<Rightarrow> r = None \<and> s' = s
      | Some p \<Rightarrow> r = Some p \<and>
          s' = (if fl AND 1 \<noteq> 0 then zero_frame p else (\<lambda>x. x))
                 (set_link p None (s\<lparr>page_free_list := pp_link (pages s p)\<rparr>)))"
  by (auto simp: page_alloc_def Let_def split: option.splits if_splits bind_splits)

interpretation page_list: linked_free_list page_free_list free_link
  "\<lambda>s x s'. \<exists>fl. page_alloc fl s = Some (Some x, s')" "\<lambda>x s s'. page_free x s = Some s'"
proof (unfold_locales, goal_cases)
  case (1 s x s')
  then show ?case by (auto dest!: page_alloc_cases split: option.splits if_splits)
next
  case (2 s x s' y)
  then show ?case by (auto dest!: page_alloc_cases split: option.splits if_splits)
next
  case (3 x s s')
  then show ?case
    by (auto simp: page_free_def insertAtBegining_def split: if_splits option.splits)
next
  case (4 x s s' y)
  then show ?case
    by (auto simp: page_free_def insertAtBegining_def split: if_splits option.splits)
qed

text \<open>Under the invariant \<open>page_alloc\<close> never panics: it fails exactly when no page is free, and
  otherwise hands out the head of the list.\<close>

lemma page_alloc_None: "page_inv s [] \<Longrightarrow> page_alloc fl s = Some (None, s)"
  by (simp add: page_inv_def page_alloc_def)

lemma page_alloc_Some:
  assumes "page_inv s (p # xs)"
  shows "\<exists>s'. page_alloc fl s = Some (Some p, s') \<and> page_inv s' xs \<and>
    pages s' = (pages s)(p := (pages s p)\<lparr>pp_link := None\<rparr>) \<and>
    kmem s' = (if fl AND 1 \<noteq> 0 then (kmem s)(p := (\<lambda>_. 0)) else kmem s) \<and>
    npages s' = npages s"
proof -
  have p: "page_free_list s = Some p" "p < npages s" "npages s \<le> 2 ^ 32"
    using assms by (auto simp: page_inv_def)
  then obtain s' where s': "page_alloc fl s = Some (Some p, s')"
    by (cases "fl AND 1 = 0") (simp_all add: page_alloc_def page2kva_def KADDR_page2pa)
  then have eq: "s' = (if fl AND 1 \<noteq> 0 then zero_frame p else (\<lambda>x. x))
      (set_link p None (s\<lparr>page_free_list := pp_link (pages s p)\<rparr>))"
    using p(1) by (auto dest!: page_alloc_cases)
  have "chain (free_link s') (page_free_list s') xs \<and> p \<notin> set xs"
    using page_list.chain_takes [of s p s' "p # xs"] s' assms by (auto simp: page_inv_def)
  with assms eq have "page_inv s' xs" by (auto simp: page_inv_def)
  with s' eq show ?thesis by (auto simp: fun_eq_iff)
qed

lemma page_alloc_inv:
  assumes "page_inv s xs" "page_alloc fl s = Some (r, s')"
  shows "(xs = [] \<and> r = None \<and> s' = s) \<or>
    (\<exists>p ys. xs = p # ys \<and> r = Some p \<and> page_inv s' ys \<and> npages s' = npages s \<and>
       pages s' = (pages s)(p := (pages s p)\<lparr>pp_link := None\<rparr>) \<and>
       kmem s' = (if fl AND 1 \<noteq> 0 then (kmem s)(p := (\<lambda>_. 0)) else kmem s))"
proof (cases xs)
  case Nil
  with assms page_alloc_None show ?thesis by fastforce
next
  case (Cons p ys)
  with assms page_alloc_Some [of s p ys fl] show ?thesis by fastforce
qed

lemma page_free_inv:
  assumes "page_inv s xs" "page_free p s = Some s'" "p \<notin> set xs" "p < npages s"
  shows "page_inv s' (p # xs) \<and> pp_ref (pages s' p) = 0 \<and> kmem s' = kmem s \<and> npages s' = npages s \<and>
    (\<forall>q. q \<noteq> p \<longrightarrow> pages s' q = pages s q)"
proof -
  have "chain (free_link s') (page_free_list s') (p # xs)"
    using page_list.chain_gives [OF assms(2) _ assms(3)] assms(1) by (simp add: page_inv_def)
  moreover have "pp_ref (pages s' q) = (if q = p then 0 else pp_ref (pages s q))" for q
    using assms(2) by (auto simp: page_free_def insertAtBegining_def split: if_splits option.splits)
  moreover have "npages s' = npages s \<and> kmem s' = kmem s \<and> (\<forall>q. q \<noteq> p \<longrightarrow> pages s' q = pages s q)"
    using assms(2) by (auto simp: page_free_def insertAtBegining_def split: if_splits option.splits)
  ultimately show ?thesis using assms(1,4) by (auto simp: page_inv_def)
qed

lemma page_inv_set_ref: "page_inv s xs \<Longrightarrow> p \<notin> set xs \<Longrightarrow> page_inv (set_ref p r s) xs"
  unfolding page_inv_def
  by (auto elim!: chain_cong [THEN iffD1, rotated])

lemma page_inv_incref: "page_inv s xs \<Longrightarrow> p \<notin> set xs \<Longrightarrow> page_inv (incref p s) xs"
  by (simp add: incref_def page_inv_set_ref)

text \<open>Dropping a reference: the page is freed exactly when the count was one.\<close>

lemma page_decref_inv:
  assumes "page_inv s xs" "p \<notin> set xs" "p < npages s" "pp_link (pages s p) = None"
    "pp_ref (pages s p) \<noteq> 0"
  shows "\<exists>s'. page_decref p s = Some s' \<and>
    page_inv s' (if pp_ref (pages s p) = 1 then p # xs else xs) \<and>
    pp_ref (pages s' p) = pp_ref (pages s p) - 1 \<and> kmem s' = kmem s \<and> npages s' = npages s \<and>
    (\<forall>q. q \<noteq> p \<longrightarrow> pages s' q = pages s q)"
proof -
  let ?s = "set_ref p (pp_ref (pages s p) - 1) s"
  have inv: "page_inv ?s xs" using assms(1,2) by (rule page_inv_set_ref)
  show ?thesis
  proof (cases "pp_ref (pages s p) = 1")
    case True
    then have "page_free p ?s = Some (insertAtBegining (Some p) ?s)"
      using assms(4) by (simp add: page_free_def)
    with True page_free_inv [OF inv this assms(2)] assms(3) show ?thesis
      by (auto simp: page_decref_def Let_def)
  next
    case False
    then have "pp_ref (pages s p) - 1 \<noteq> 0" by simp
    with inv False show ?thesis by (auto simp: page_decref_def Let_def)
  qed
qed

section \<open>Initialisation\<close>

lemma page_init_loop_frame:
  "npages (page_init_loop is lst s) = npages s \<and> nextfree (page_init_loop is lst s) = nextfree s \<and>
   kmem (page_init_loop is lst s) = kmem s"
  by (induction "is" arbitrary: lst s) (auto simp: Let_def split: option.splits)

lemma page_init_loop_list:
  "page_free_list (page_init_loop [a..<a + k] lst s) =
     (if lst = None \<and> 0 < k then Some a else page_free_list s)"
proof (induction k arbitrary: a lst s)
  case 0
  show ?case by simp
next
  case (Suc k)
  have "[a..<a + Suc k] = a # [Suc a..<Suc a + k]" by (simp add: upt_conv_Cons)
  then show ?case
    using Suc.IH [of "Suc a" "Some a"]
    by (auto simp: Let_def simp del: upt_Suc split: option.splits)
qed

lemma page_init_loop_pages:
  "(\<forall>l. lst = Some l \<longrightarrow> l < a) \<Longrightarrow>
   pages (page_init_loop [a..<a + k] lst s) q =
     (if a \<le> q \<and> q < a + k
      then \<lparr>pp_link = (if Suc q < a + k then Some (Suc q) else None), pp_ref = 0\<rparr>
      else if lst = Some q \<and> 0 < k then (pages s q)\<lparr>pp_link := Some a\<rparr> else pages s q)"
proof (induction k arbitrary: a lst s)
  case 0
  show ?case by auto
next
  case (Suc k)
  have "[a..<a + Suc k] = a # [Suc a..<Suc a + k]" by (simp add: upt_conv_Cons)
  moreover have "\<forall>l. Some a = Some l \<longrightarrow> l < Suc a" by simp
  ultimately show ?case
    using Suc.IH [of "Some a" "Suc a"] Suc.prems
    by (auto simp: Let_def simp del: upt_Suc split: option.splits)
qed

lemma chain_upt:
  "a < b \<Longrightarrow> (\<And>i. a \<le> i \<Longrightarrow> Suc i < b \<Longrightarrow> link i = Some (Suc i)) \<Longrightarrow>
   chain link (Some a) ([a..<b] @ ys) = chain link (link (b - 1)) ys"
proof (induction "b - a" arbitrary: a)
  case 0
  then show ?case by simp
next
  case (Suc k)
  show ?case
  proof (cases "Suc a < b")
    case True
    have "chain link (Some (Suc a)) ([Suc a..<b] @ ys) = chain link (link (b - 1)) ys"
      using Suc.hyps(2) True Suc.prems by (intro Suc.hyps(1)) auto
    with True Suc.prems show ?thesis by (simp add: upt_conv_Cons)
  next
    case False
    with Suc.prems(1) have "b = Suc a" by simp
    then show ?thesis by simp
  qed
qed

text \<open>The free list after \<open>page_init\<close>: base memory without page 0 and without the page of the
  AP entry code, then everything from the first page above the kernel's boot allocations, as
  long as the boot page tables lie inside the excluded region.\<close>

lemma page_init_inv:
  assumes n: "npages s \<le> 2 ^ 32"
    and brk: "PADDR (if nextfree s = 0 then ROUNDUP64 end_sym 4096 else nextfree s) = Some brk_pa"
    and kE: "PPN brk_pa = kernE" "160 \<le> kernE" "kernE < npages s"
    and bS: "KADDR s pml4phys = Some b0" "PADDR b0 = Some b0_pa" "160 < PPN b0_pa" "PPN b0_pa \<le> kernE"
    and bE: "KADDR s (pml4phys + 5 * 4096) = Some b1" "PADDR (b1 - 1) = Some b1_pa"
  shows "\<exists>s'. page_init end_sym pml4phys s = Some s' \<and>
    page_inv s' ([1..<7] @ [8..<160] @ [kernE..<npages s]) \<and> kmem s' = kmem s \<and> npages s' = npages s"
proof -
  let ?s1 = "page_init_loop [0..<npages s] None s"
  have s1: "page_free_list ?s1 = Some 0" "npages ?s1 = npages s" "nextfree ?s1 = nextfree s"
    "kmem ?s1 = kmem s"
    "\<And>q. pages ?s1 q = (if q < npages s
       then \<lparr>pp_link = (if Suc q < npages s then Some (Suc q) else None), pp_ref = 0\<rparr> else pages s q)"
    using page_init_loop_list [of 0 "npages s" None s] page_init_loop_frame [of "[0..<npages s]" None s]
      page_init_loop_pages [of None 0 "npages s" s] kE
    by auto
  let ?s2 = "?s1\<lparr>page_free_list := Some 1\<rparr>"
  have l0: "pp_link (pages ?s1 0) = Some 1" using s1(5) [of 0] kE by simp
  obtain s3 where s3: "boot_alloc end_sym 0 ?s2 = Some (if nextfree s = 0 then ROUNDUP64 end_sym 4096 else nextfree s, s3)"
    and s3': "pages s3 = pages ?s2" "page_free_list s3 = Some 1" "npages s3 = npages s" "kmem s3 = kmem s"
    by (auto simp: boot_alloc_def Let_def s1)
  define s5 where "s5 = set_link (PPN b0_pa - 1) (Some (PPN b1_pa + 1)) (set_link 159 (Some kernE) s3)"
  define s6 where "s6 = set_link 6 (Some 8) s5"
  have K: "KADDR (set_link 159 (Some kernE) s3) x = KADDR s x" for x
    by (simp add: KADDR_def s3')
  have "page_init end_sym pml4phys s = Some s6"
    using s1(1) l0 s3 brk kE(1) bS bE
    by (simp add: page_init_def K s5_def s6_def del: One_nat_def)
  moreover have link: "free_link s6 q = (if q = 6 then Some 8 else if q = PPN b0_pa - 1 then Some (PPN b1_pa + 1)
      else if q = 159 then Some kernE else free_link ?s1 q)" for q
    by (simp add: s6_def s5_def s3')
  have "chain (free_link s6) (Some 1) ([1..<7] @ [8..<160] @ [kernE..<npages s])"
  proof -
    have "chain (free_link s6) (Some 1) ([1..<7] @ [8..<160] @ [kernE..<npages s]) =
      chain (free_link s6) (free_link s6 (7 - 1)) ([8..<160] @ [kernE..<npages s])"
      using kE bS by (intro chain_upt) (auto simp: link s1(5))
    also have "free_link s6 (7 - 1) = Some 8" by (simp add: link)
    also have "chain (free_link s6) (Some 8) ([8..<160] @ [kernE..<npages s]) =
      chain (free_link s6) (free_link s6 (160 - 1)) ([kernE..<npages s])"
      using kE bS by (intro chain_upt) (auto simp: link s1(5))
    also have "free_link s6 (160 - 1) = Some kernE" using bS by (auto simp: link)
    also have "chain (free_link s6) (Some kernE) [kernE..<npages s] =
      chain (free_link s6) (free_link s6 (npages s - 1)) []"
    proof -
      have "free_link s6 i = Some (Suc i)" if "kernE \<le> i" "Suc i < npages s" for i
        using that kE bS by (auto simp: link s1(5))
      then show ?thesis using chain_upt [of kernE "npages s" "free_link s6" "[]"] kE(3) by simp
    qed
    also have "free_link s6 (npages s - 1) = None"
      using kE bS by (auto simp: link s1(5))
    finally show ?thesis by simp
  qed
  moreover have "pp_ref (pages s6 q) = 0" if "q < npages s" for q
    using that by (simp add: s6_def s5_def s3' s1(5))
  moreover have "page_free_list s6 = Some 1" "npages s6 = npages s" "kmem s6 = kmem s"
    by (simp_all add: s6_def s5_def s3')
  ultimately show ?thesis using n kE by (auto simp: page_inv_def)
qed

section \<open>Properties\<close>

text \<open>A machine with eight page frames, of which 2 to 5 are free.\<close>

definition small_machine :: pstate where
  "small_machine = \<lparr>npages = 8,
     pages = (\<lambda>p. \<lparr>pp_link = (if p \<in> {2, 3, 4} then Some (Suc p) else None), pp_ref = (if p = 7 then 1 else 0)\<rparr>),
     page_free_list = Some 2, nextfree = 0, kmem = (\<lambda>_ _. 0)\<rparr>"

lemma small_machine_inv: "page_inv small_machine [2, 3, 4, 5]"
  by (simp add: page_inv_def small_machine_def)

text \<open>\<open>page_alloc\<close> hands out the first free page, removed from the free list, with no
  references and no link, zeroed when asked for, and touches no other page; with an empty free list
  it returns null and changes nothing.\<close>

theorem page_alloc_returns_free:
  assumes "page_inv s xs"
  shows "case xs of
      [] \<Rightarrow> page_alloc fl s = Some (None, s)
    | p # ys \<Rightarrow> \<exists>s'. page_alloc fl s = Some (Some p, s') \<and> page_inv s' ys \<and> p \<notin> set ys \<and>
        pages s' p = \<lparr>pp_link = None, pp_ref = 0\<rparr> \<and> (\<forall>q. q \<noteq> p \<longrightarrow> pages s' q = pages s q) \<and>
        (\<forall>f. f \<noteq> p \<longrightarrow> kmem s' f = kmem s f) \<and>
        kmem s' p = (if fl AND ALLOC_ZERO \<noteq> 0 then (\<lambda>_. 0) else kmem s p)"
proof (cases xs)
  case Nil
  then show ?thesis using assms by (simp add: page_alloc_None)
next
  case (Cons p ys)
  have "p \<notin> set ys" "pp_ref (pages s p) = 0"
    using assms Cons chain_distinct [of "free_link s" "page_free_list s" xs] by (auto simp: page_inv_def)
  moreover have "page_inv s (p # ys)" using assms Cons by simp
  ultimately show ?thesis using page_alloc_Some [of s p ys fl] Cons by (cases "pages s p") auto
qed

theorem page_alloc_returns_free_witness:
  "\<exists>s'. page_alloc 1 small_machine = Some (Some 2, s') \<and> page_inv s' [3, 4, 5] \<and>
     pages s' 2 = \<lparr>pp_link = None, pp_ref = 0\<rparr> \<and> kmem s' 2 = (\<lambda>_. 0)"
  using page_alloc_returns_free [OF small_machine_inv, of 1] by auto

text \<open>\<open>page_decref\<close> of a page in use lowers its reference count by one, keeps the allocator's
  invariant, and puts the page on the free list exactly when the count reaches zero.\<close>

theorem page_decref_frees_at_zero:
  assumes "page_inv s xs" "p \<notin> set xs" "p < npages s" "pp_link (pages s p) = None" "pp_ref (pages s p) \<noteq> 0"
  shows "\<exists>s'. page_decref p s = Some s' \<and>
    page_inv s' (if pp_ref (pages s p) = 1 then p # xs else xs) \<and>
    pp_ref (pages s' p) = pp_ref (pages s p) - 1 \<and> kmem s' = kmem s \<and>
    (\<forall>q. q \<noteq> p \<longrightarrow> pages s' q = pages s q)"
  using page_decref_inv [OF assms] by blast

theorem page_decref_frees_at_zero_witness:
  "\<exists>s'. page_decref 7 small_machine = Some s' \<and> page_inv s' [7, 2, 3, 4, 5] \<and> pp_ref (pages s' 7) = 0"
  using page_decref_frees_at_zero [OF small_machine_inv, of 7] by (auto simp: small_machine_def)

text \<open>\<open>page_init\<close> establishes the allocator's invariant, with exactly these pages free: base
  memory except page zero and the start-up code of the other processors, and everything from the
  end of what the boot-time allocator has used; so never the I/O hole, the kernel or its page
  tables.\<close>

theorem page_init_reserves:
  assumes "npages s \<le> 2 ^ 32"
    and "PADDR (if nextfree s = 0 then ROUNDUP64 end_sym 4096 else nextfree s) = Some brk_pa"
    and "PPN brk_pa = kernE" "160 \<le> kernE" "kernE < npages s"
    and "KADDR s pml4phys = Some b0" "PADDR b0 = Some b0_pa" "160 < PPN b0_pa" "PPN b0_pa \<le> kernE"
    and "KADDR s (pml4phys + 5 * 4096) = Some b1" "PADDR (b1 - 1) = Some b1_pa"
  shows "\<exists>s'. page_init end_sym pml4phys s = Some s' \<and>
    page_inv s' ([1..<7] @ [8..<160] @ [kernE..<npages s]) \<and> kmem s' = kmem s \<and> npages s' = npages s"
  by (rule page_init_inv [OF assms])

theorem page_init_reserves_witness:
  "\<exists>s'. page_init 0x8004200000 0x1F0000 (small_machine\<lparr>npages := 1024\<rparr>) = Some s' \<and>
     page_inv s' ([1..<7] @ [8..<160] @ [512..<1024])"
proof -
  let ?s = "small_machine\<lparr>npages := 1024\<rparr>"
  have b: "PADDR (if nextfree ?s = 0 then ROUNDUP64 0x8004200000 4096 else nextfree ?s) = Some 0x200000"
    by (simp add: PADDR_def ROUNDUP64_def ROUNDDOWN64_def small_machine_def)
  have k0: "KADDR ?s 0x1F0000 = Some 0x80041F0000" "KADDR ?s (0x1F0000 + 5 * 4096) = Some 0x80041F5000"
    by (simp_all add: KADDR_def small_machine_def drop_bit_eq_div unsigned_ucast_eq)
  have pa: "PADDR 0x80041F0000 = Some 0x1F0000" "PADDR (0x80041F5000 - 1) = Some 0x1F4FFF" by (simp_all add: PADDR_def)
  have p: "PPN 0x200000 = 512" "PPN 0x1F0000 = 496" by (simp_all add: PPN_def drop_bit_eq_div)
  show ?thesis
    using page_init_reserves [OF _ b p(1) _ _ k0(1) pa(1) _ _ k0(2) pa(2)] p(2)
    by (auto simp: small_machine_def)
qed

end
