(* ===== verification/Kern_Pgtbl.thy ===== *)
theory Kern_Pgtbl
  imports Kern_Page
begin

text \<open>
  The four-level page tables of \<^verbatim>\<open>kern/pmap.c\<close>: the walkers \<open>pml4e_walk\<close>, \<open>pdpe_walk\<close>,
  \<open>pgdir_walk\<close>, the mapping operations \<open>page_insert\<close>, \<open>page_lookup\<close>, \<open>page_remove\<close>,
  \<open>boot_map_region\<close>, \<open>mmio_map_region\<close>, and the user-memory check \<open>user_mem_check\<close>.

  A page table is a physical frame; a kernel pointer to one is the frame number (null is
  \<open>None\<close>), and a \<open>pte_t *\<close> is a pair of a frame and an index.  Entries are 64-bit words.
  The state extends that of the page allocator by the static variables \<open>base\<close> of
  \<open>mmio_map_region\<close> and \<open>user_mem_check_addr\<close>.  The TLB is not modelled:
  \<open>tlb_invalidate\<close> has no effect on the tables.
\<close>

record vstate = pstate +
  mmio_base :: u64
  user_mem_check_addr :: u64

type_synonym pte_ptr = "nat \<times> nat"

abbreviation PTE_P :: u64 where "PTE_P \<equiv> 0x001"
abbreviation PTE_W :: u64 where "PTE_W \<equiv> 0x002"
abbreviation PTE_U :: u64 where "PTE_U \<equiv> 0x004"
abbreviation PTE_PWT :: u64 where "PTE_PWT \<equiv> 0x008"
abbreviation PTE_PCD :: u64 where "PTE_PCD \<equiv> 0x010"
abbreviation PTE_D :: u64 where "PTE_D \<equiv> 0x040"
abbreviation PTE_AVAIL :: u64 where "PTE_AVAIL \<equiv> 0xE00"
abbreviation PTE_SYSCALL :: u64 where "PTE_SYSCALL \<equiv> 0xE07"

abbreviation PTSIZE :: u64 where "PTSIZE \<equiv> 0x200000"
abbreviation KSTACKTOP :: u64 where "KSTACKTOP \<equiv> KERNBASE"
abbreviation MMIOLIM :: u64 where "MMIOLIM \<equiv> 0x8003E00000"
abbreviation MMIOBASE :: u64 where "MMIOBASE \<equiv> 0x8003C00000"
abbreviation ULIM :: u64 where "ULIM \<equiv> 0x8003C00000"
abbreviation UPAGES :: u64 where "UPAGES \<equiv> 0x8000A00000"
abbreviation UENVS :: u64 where "UENVS \<equiv> 0x8000800000"
abbreviation UTOP :: u64 where "UTOP \<equiv> 0x8000800000"
abbreviation UVPT :: u64 where "UVPT \<equiv> 0x10000000000"

section \<open>Address splitting\<close>

definition PML4 :: "u64 \<Rightarrow> nat" where "PML4 la = unat (drop_bit 39 la AND 0x1FF)"
definition PDPE :: "u64 \<Rightarrow> nat" where "PDPE la = unat (drop_bit 30 la AND 0x1FF)"
definition PDX :: "u64 \<Rightarrow> nat" where "PDX la = unat (drop_bit 21 la AND 0x1FF)"
definition PTX :: "u64 \<Rightarrow> nat" where "PTX la = unat (drop_bit 12 la AND 0x1FF)"

definition PTE_ADDR :: "u64 \<Rightarrow> u64" where
  "PTE_ADDR pte = pte AND NOT 0xFFF"

text \<open>The frame a kernel pointer \<open>KADDR(PTE_ADDR(e))\<close> points to; \<open>None\<close> when \<open>KADDR\<close> panics.\<close>

definition table_of :: "'a pstate_scheme \<Rightarrow> u64 \<Rightarrow> nat option" where
  "table_of s e = do { kva \<leftarrow> KADDR s (PTE_ADDR e); Some (PPN (kva - KERNBASE)) }"

definition write_pte :: "pte_ptr \<Rightarrow> u64 \<Rightarrow> 'a pstate_scheme \<Rightarrow> 'a pstate_scheme" where
  "write_pte p e s = s\<lparr>kmem := (kmem s)(fst p := (kmem s (fst p))(snd p := e))\<rparr>"

abbreviation read_pte :: "'a pstate_scheme \<Rightarrow> pte_ptr \<Rightarrow> u64" where
  "read_pte s p \<equiv> kmem s (fst p) (snd p)"

section \<open>The walkers\<close>

text \<open>Each walker returns the pointer to the final entry, or null.  A missing table is allocated
  when \<open>create\<close> is set; the first branch of each function is the null test on its table.\<close>

definition pgdir_walk ::
  "nat option \<Rightarrow> u64 \<Rightarrow> bool \<Rightarrow> 'a pstate_scheme \<Rightarrow> (pte_ptr option \<times> 'a pstate_scheme) option" where
  "pgdir_walk pgdir va create s =
     (case pgdir of
        None \<Rightarrow> Some (None, s)
      | Some d \<Rightarrow>
          let dirIndex = PDX va;
              pgTblIndex = PTX va;
              finish = (\<lambda>s'. do {
                t \<leftarrow> table_of s' (kmem s' d dirIndex);
                Some (Some (t, pgTblIndex), s') })
          in if kmem s d dirIndex = 0 \<and> \<not> create then Some (None, s)
             else if kmem s d dirIndex = 0 \<and> create then do {
               (pg, s1) \<leftarrow> page_alloc ALLOC_ZERO s;
               (case pg of
                  None \<Rightarrow> Some (None, s1)
                | Some page \<Rightarrow>
                    finish (write_pte (d, dirIndex) (page2pa page OR (PTE_W OR PTE_U OR PTE_P))
                              (incref page s1))) }
             else finish s)"

text \<open>In \<open>pdpe_walk\<close> the page allocated inside the branch is held by a second variable that
  shadows the outer \<open>page\<close>; the outer one stays null, so the release after a failed
  \<open>pgdir_walk\<close> is never executed.  The model keeps the outer variable and its test.\<close>

definition pdpe_walk ::
  "nat option \<Rightarrow> u64 \<Rightarrow> bool \<Rightarrow> 'a pstate_scheme \<Rightarrow> (pte_ptr option \<times> 'a pstate_scheme) option" where
  "pdpe_walk pdpe va create s =
     (case pdpe of
        None \<Rightarrow> Some (None, s)
      | Some d \<Rightarrow>
          let pdpeIndex = PDPE va;
              outer_page = (None :: nat option);
              finish = (\<lambda>s'. do {
                t \<leftarrow> table_of s' (kmem s' d pdpeIndex);
                (r, s2) \<leftarrow> pgdir_walk (Some t) va create s';
                (case (r, outer_page) of
                   (None, Some page) \<Rightarrow> do {
                     s3 \<leftarrow> page_decref page s2;
                     Some (r, write_pte (d, pdpeIndex) 0 s3) }
                 | _ \<Rightarrow> Some (r, s2)) })
          in if kmem s d pdpeIndex = 0 \<and> \<not> create then Some (None, s)
             else if kmem s d pdpeIndex = 0 \<and> create then do {
               (pg, s1) \<leftarrow> page_alloc ALLOC_ZERO s;
               (case pg of
                  None \<Rightarrow> Some (None, s1)
                | Some page \<Rightarrow>
                    finish (write_pte (d, pdpeIndex) (page2pa page OR (PTE_W OR PTE_U OR PTE_P))
                              (incref page s1))) }
             else finish s)"

definition pml4e_walk ::
  "nat option \<Rightarrow> u64 \<Rightarrow> bool \<Rightarrow> 'a pstate_scheme \<Rightarrow> (pte_ptr option \<times> 'a pstate_scheme) option" where
  "pml4e_walk pml4e va create s =
     (case pml4e of
        None \<Rightarrow> Some (None, s)
      | Some d \<Rightarrow>
          let pml4eIndex = PML4 va;
              finish = (\<lambda>page s'. do {
                t \<leftarrow> table_of s' (kmem s' d pml4eIndex);
                (r, s2) \<leftarrow> pdpe_walk (Some t) va create s';
                (case (r, page) of
                   (None, Some pg) \<Rightarrow> do {
                     s3 \<leftarrow> page_decref pg s2;
                     Some (r, write_pte (d, pml4eIndex) 0 s3) }
                 | _ \<Rightarrow> Some (r, s2)) })
          in if kmem s d pml4eIndex = 0 \<and> \<not> create then Some (None, s)
             else if kmem s d pml4eIndex = 0 \<and> create then do {
               (pg, s1) \<leftarrow> page_alloc ALLOC_ZERO s;
               (case pg of
                  None \<Rightarrow> Some (None, s1)
                | Some page \<Rightarrow>
                    finish (Some page)
                      (write_pte (d, pml4eIndex) (page2pa page OR (PTE_W OR PTE_U OR PTE_P))
                        (incref page s1))) }
             else finish None s)"

section \<open>Mapping operations\<close>

text \<open>\<open>page_lookup\<close> walks with \<open>create\<close> set.  Its result is the page, the pointer stored
  through \<open>pte_store\<close> (\<open>None\<close>: left as it was), and the state.\<close>

definition page_lookup ::
  "nat option \<Rightarrow> u64 \<Rightarrow> 'a pstate_scheme \<Rightarrow> (nat option \<times> pte_ptr option \<times> 'a pstate_scheme) option" where
  "page_lookup pml4e va s =
     (if pml4e = None then Some (None, None, s)
      else do {
        (r, s1) \<leftarrow> pml4e_walk pml4e va True s;
        (case r of
           None \<Rightarrow> Some (None, None, s1)
         | Some p \<Rightarrow>
             if read_pte s1 p AND PTE_P \<noteq> 0 then do {
               page \<leftarrow> pa2page s1 (read_pte s1 p);
               Some (Some page, Some p, s1) }
             else Some (None, None, s1)) })"

definition page_remove :: "nat option \<Rightarrow> u64 \<Rightarrow> 'a pstate_scheme \<Rightarrow> 'a pstate_scheme option" where
  "page_remove pml4e va s =
     (if pml4e = None then Some s
      else do {
        (pg, pte_store, s1) \<leftarrow> page_lookup pml4e va s;
        (case (pg, pte_store) of
           (Some page, Some p) \<Rightarrow> do {
             s2 \<leftarrow> page_decref page s1;
             Some (write_pte p 0 s2) }
         | _ \<Rightarrow> Some s1) })"

definition page_insert ::
  "nat option \<Rightarrow> nat option \<Rightarrow> u64 \<Rightarrow> u64 \<Rightarrow> 'a pstate_scheme \<Rightarrow> (int \<times> 'a pstate_scheme) option" where
  "page_insert pml4e pp va perm s =
     (case (pml4e, pp) of
        (Some _, Some page) \<Rightarrow> do {
          (r, s1) \<leftarrow> pml4e_walk pml4e va True s;
          (case r of
             None \<Rightarrow> Some (- E_NO_MEM, s1)
           | Some p \<Rightarrow>
               let perm' = perm OR PTE_P;
                   present = (read_pte s1 p AND PTE_P \<noteq> 0) in
               if present then do {
                 old \<leftarrow> pa2page s1 (PTE_ADDR (read_pte s1 p));
                 if old = page then Some (0, write_pte p (page2pa page OR perm') s1)
                 else do {
                   s2 \<leftarrow> page_remove pml4e va s1;
                   Some (0, incref page (write_pte p (page2pa page OR perm') s2)) } }
               else Some (0, incref page (write_pte p (page2pa page OR perm') s1))) }
      | _ \<Rightarrow> Some (0, s))"

text \<open>The loop of \<open>boot_map_region\<close>: a failed walk prints a message and continues without
  advancing either address.\<close>

fun boot_map_loop ::
  "nat \<Rightarrow> nat option \<Rightarrow> u64 \<Rightarrow> u64 \<Rightarrow> u64 \<Rightarrow> 'a pstate_scheme \<Rightarrow> 'a pstate_scheme option" where
  "boot_map_loop 0 pml4e la pa perm s = Some s"
| "boot_map_loop (Suc n) pml4e la pa perm s = do {
     (r, s1) \<leftarrow> pml4e_walk pml4e la True s;
     (case r of
        None \<Rightarrow> boot_map_loop n pml4e la pa perm s1
      | Some p \<Rightarrow>
          boot_map_loop n pml4e (la + 4096) (pa + 4096) perm (write_pte p (pa OR perm) s1)) }"

definition boot_map_region ::
  "nat option \<Rightarrow> u64 \<Rightarrow> u64 \<Rightarrow> u64 \<Rightarrow> u64 \<Rightarrow> 'a pstate_scheme \<Rightarrow> 'a pstate_scheme option" where
  "boot_map_region pml4e la sz pa perm s =
     (if pml4e = None then Some s else boot_map_loop (unat (sz div 4096)) pml4e la pa perm s)"

definition mmio_map_region ::
  "nat option \<Rightarrow> u64 \<Rightarrow> u64 \<Rightarrow> 'a vstate_scheme \<Rightarrow> (u64 \<times> 'a vstate_scheme) option" where
  "mmio_map_region boot_pml4e pa sz s =
     (let base_prev = mmio_base s in
      if mmio_base s + sz \<ge> MMIOLIM then None
      else
        let size' = ROUNDUP64 sz 4096 in do {
          s1 \<leftarrow> boot_map_region boot_pml4e (mmio_base s) size' pa
                  (PTE_PCD OR PTE_PWT OR PTE_W OR PTE_P) s;
          Some (base_prev, s1\<lparr>mmio_base := mmio_base s1 + size'\<rparr>) })"

text \<open>The loop of \<open>user_mem_check\<close> from \<open>vaT\<close> to \<open>vaE\<close>, with the number of pages still to
  visit as its first argument; \<open>va\<close> is the address reported for a fault in the first page.
  \<open>pte_store\<close> is set whenever \<open>page_lookup\<close> finds a page.\<close>

fun user_mem_loop ::
  "nat \<Rightarrow> nat option \<Rightarrow> u64 \<Rightarrow> u64 \<Rightarrow> u64 \<Rightarrow> 'a vstate_scheme \<Rightarrow> (int \<times> 'a vstate_scheme) option" where
  "user_mem_loop 0 pml4e vaT va perm s = Some (0, s)"
| "user_mem_loop (Suc n) pml4e vaT va perm s =
     (let fault = (\<lambda>s'. (- E_FAULT, s'\<lparr>user_mem_check_addr := (if vaT < va then va else vaT)\<rparr>)) in
      if vaT \<ge> ULIM then Some (fault s)
      else do {
        (pg, pte_store, s1) \<leftarrow> page_lookup pml4e vaT s;
        (case (pg, pte_store) of
           (Some _, Some p) \<Rightarrow>
             if read_pte s1 p AND perm = 0 then Some (fault s1)
             else user_mem_loop n pml4e (vaT + 4096) va perm s1
         | _ \<Rightarrow> Some (fault s1)) })"

definition user_mem_check ::
  "nat option \<Rightarrow> u64 \<Rightarrow> u64 \<Rightarrow> u64 \<Rightarrow> 'a vstate_scheme \<Rightarrow> (int \<times> 'a vstate_scheme) option" where
  "user_mem_check pml4e va len perm s =
     (let vaT = ROUNDDOWN64 va 4096;
          vaE = ROUNDUP64 (vaT + len) 4096
      in user_mem_loop (if vaT < vaE then unat ((vaE - vaT) div 4096) else 0) pml4e vaT va perm s)"

section \<open>The address space as a map\<close>

text \<open>The frame an entry points to, the index used at each level, the tables met along the walk
  of an address (level 0 is the root, level 3 the page table), and the final entry: 0 when a
  table on the way is missing.  This is what the hardware reads.\<close>

definition fr :: "u64 \<Rightarrow> nat" where
  "fr e = PPN (PTE_ADDR e)"

fun pidx :: "nat \<Rightarrow> u64 \<Rightarrow> nat" where
  "pidx 0 va = PML4 va"
| "pidx (Suc 0) va = PDPE va"
| "pidx (Suc (Suc 0)) va = PDX va"
| "pidx _ va = PTX va"

primrec path :: "(nat \<Rightarrow> nat \<Rightarrow> u64) \<Rightarrow> nat \<Rightarrow> u64 \<Rightarrow> nat \<Rightarrow> nat option" where
  "path m root va 0 = Some root"
| "path m root va (Suc k) =
     (case path m root va k of
        None \<Rightarrow> None
      | Some t \<Rightarrow> if m t (pidx k va) = 0 then None else Some (fr (m t (pidx k va))))"

definition pte_at :: "(nat \<Rightarrow> nat \<Rightarrow> u64) \<Rightarrow> nat \<Rightarrow> u64 \<Rightarrow> u64" where
  "pte_at m root va = (case path m root va 3 of None \<Rightarrow> 0 | Some t \<Rightarrow> m t (PTX va))"

text \<open>The tables of level \<open>k\<close>, looking only at the slots \<open>S\<close> of the root: every address space
  also has a slot shared with the kernel and one that maps the root to itself.\<close>

primrec ptab :: "(nat \<Rightarrow> nat \<Rightarrow> u64) \<Rightarrow> nat set \<Rightarrow> nat \<Rightarrow> nat \<Rightarrow> nat set" where
  "ptab m S root 0 = {root}"
| "ptab m S root (Suc k) =
     {fr (m t i) | t i. t \<in> ptab m S root k \<and> i < 512 \<and> (k = 0 \<longrightarrow> i \<in> S) \<and> m t i \<noteq> 0}"

definition slot :: "nat set \<Rightarrow> nat \<Rightarrow> nat \<Rightarrow> bool" where
  "slot S k i \<longleftrightarrow> i < 512 \<and> (k = 0 \<longrightarrow> i \<in> S)"

text \<open>The tables form a tree: levels are disjoint, no table is the target of two entries, and
  no table is on the free list.\<close>

definition pt_wf :: "'a pstate_scheme \<Rightarrow> nat set \<Rightarrow> nat \<Rightarrow> nat list \<Rightarrow> bool" where
  "pt_wf s S root xs \<longleftrightarrow>
     (\<forall>k \<le> 3. \<forall>t \<in> ptab (kmem s) S root k. t < npages s \<and> t \<notin> set xs) \<and>
     (\<forall>j \<le> 3. \<forall>k \<le> 3. \<forall>t \<in> ptab (kmem s) S root j. t \<in> ptab (kmem s) S root k \<longrightarrow> j = k) \<and>
     (\<forall>k < 3. \<forall>t \<in> ptab (kmem s) S root k. \<forall>t' \<in> ptab (kmem s) S root k. \<forall>i i'.
        slot S k i \<longrightarrow> slot S k i' \<longrightarrow> kmem s t i \<noteq> 0 \<longrightarrow> kmem s t' i' \<noteq> 0 \<longrightarrow>
        fr (kmem s t i) = fr (kmem s t' i') \<longrightarrow> t = t' \<and> i = i')"

section \<open>Indices and frames\<close>

lemma and_1FF_less: "unat (x AND 0x1FF :: u64) < 512"
proof -
  have "x AND 0x1FF = take_bit 9 x" by (simp add: take_bit_eq_mask mask_eq_exp_minus_1)
  then have "unat (x AND 0x1FF) = take_bit 9 (unat x)" by (simp add: unsigned_take_bit_eq)
  then show ?thesis using take_bit_nat_less_exp [of 9 "unat x"] by simp
qed

lemma pidx_less [simp]: "pidx k va < 512"
  by (cases "(k, va)" rule: pidx.cases)
    (auto simp: PML4_def PDPE_def PDX_def PTX_def and_1FF_less)

lemma pidx_numerals [simp]: "pidx 1 va = PDPE va" "pidx 2 va = PDX va" "pidx 3 va = PTX va"
  by (simp_all add: numeral_2_eq_2 numeral_3_eq_3)

lemma slot_pidx: "PML4 va \<in> S \<Longrightarrow> slot S k (pidx k va)"
  using pidx_less [of k va] by (cases k) (auto simp: slot_def simp del: pidx_less)

lemma PPN_PTE_ADDR: "PPN (PTE_ADDR e) = PPN e"
proof -
  have "drop_bit 12 (e AND NOT 0xFFF) = drop_bit 12 e"
  proof (rule bit_word_eqI)
    fix n :: nat
    have m: "(0xFFF :: u64) = mask 12" by (simp add: mask_eq_exp_minus_1)
    show "bit (drop_bit 12 (e AND NOT 0xFFF)) n = bit (drop_bit 12 e) n" if "n < LENGTH(64)"
      using that unfolding m by (auto simp: bit_simps simp del: mask_numeral dest: bit_imp_le_length)
  qed
  then show ?thesis by (simp add: PPN_def PTE_ADDR_def)
qed

lemma fr_eq_PPN: "fr e = PPN e"
  by (simp add: fr_def PPN_PTE_ADDR)

lemma PPN_or_low: "p < 2 ^ 52 \<Longrightarrow> w < 0x1000 \<Longrightarrow> PPN (page2pa p OR w) = p"
proof -
  assume p: "p < 2 ^ 52" and w: "w < 0x1000"
  have "unat w < 4096" using w by (simp add: word_less_nat_alt)
  then have "unat (drop_bit 12 w) = 0"
    by (simp add: drop_bit_eq_div unat_div)
  then have "drop_bit 12 w = 0" by (simp add: unat_eq_0)
  then have "drop_bit 12 (page2pa p OR w) = drop_bit 12 (page2pa p)"
    by (simp add: drop_bit_or)
  then show ?thesis using PPN_page2pa [OF p] by (simp add: PPN_def)
qed

lemma table_of_fr: "fr e < npages s \<Longrightarrow> npages s \<le> 2 ^ 32 \<Longrightarrow> table_of s e = Some (fr e)"
proof -
  assume f: "fr e < npages s" "npages s \<le> 2 ^ 32"
  have "unat (ucast (drop_bit 12 (PTE_ADDR e)) :: u32) = take_bit 32 (fr e)"
    by (simp add: fr_def PPN_def unsigned_ucast_eq)
  with f have "KADDR s (PTE_ADDR e) = Some (PTE_ADDR e + KERNBASE)"
    by (simp add: KADDR_def take_bit_nat_eq_self)
  then show ?thesis by (simp add: table_of_def fr_def)
qed

section \<open>Trees of page tables\<close>

lemma ptab_SucI:
  "t \<in> ptab m S root k \<Longrightarrow> slot S k i \<Longrightarrow> m t i \<noteq> 0 \<Longrightarrow> fr (m t i) \<in> ptab m S root (Suc k)"
  by (auto simp: slot_def)

lemma ptab_SucE:
  assumes "u \<in> ptab m S root (Suc k)"
  obtains t i where "t \<in> ptab m S root k" "slot S k i" "m t i \<noteq> 0" "u = fr (m t i)"
  using assms by (auto simp: slot_def)

lemma path_in_ptab: "PML4 va \<in> S \<Longrightarrow> path m root va k = Some t \<Longrightarrow> t \<in> ptab m S root k"
proof (induction k arbitrary: t)
  case 0
  then show ?case by simp
next
  case (Suc k)
  then obtain u where u: "path m root va k = Some u" "m u (pidx k va) \<noteq> 0" "t = fr (m u (pidx k va))"
    by (auto split: option.splits if_splits)
  with Suc have "u \<in> ptab m S root k" by blast
  with u Suc.prems(1) show ?case by (metis ptab_SucI slot_pidx)
qed

text \<open>\<open>agree n m m'\<close>: the memories hold the same entries in all tables above level \<open>n\<close>.\<close>

definition agree :: "nat \<Rightarrow> nat set \<Rightarrow> nat \<Rightarrow> (nat \<Rightarrow> nat \<Rightarrow> u64) \<Rightarrow> (nat \<Rightarrow> nat \<Rightarrow> u64) \<Rightarrow> bool" where
  "agree n S root m m' \<longleftrightarrow>
     (\<forall>j < n. \<forall>t \<in> ptab m S root j. \<forall>i. slot S j i \<longrightarrow> m' t i = m t i)"

lemma agreeD: "agree n S root m m' \<Longrightarrow> j < n \<Longrightarrow> t \<in> ptab m S root j \<Longrightarrow> slot S j i \<Longrightarrow> m' t i = m t i"
  by (auto simp: agree_def)

lemma agree_mono: "agree n S root m m' \<Longrightarrow> k \<le> n \<Longrightarrow> agree k S root m m'"
  unfolding agree_def by (meson order_less_le_trans)

lemma ptab_cong: "agree k S root m m' \<Longrightarrow> ptab m' S root k = ptab m S root k"
proof (induction k)
  case 0
  show ?case by simp
next
  case (Suc k)
  then have "ptab m' S root k = ptab m S root k" using agree_mono [of "Suc k" S root m m' k] by simp
  moreover have "m' t i = m t i" if "t \<in> ptab m S root k" "i < 512 \<and> (k = 0 \<longrightarrow> i \<in> S)" for t i
    using agreeD [OF Suc.prems, of k t i] that by (simp add: slot_def)
  ultimately show ?case by (auto simp: set_eq_iff) metis+
qed

lemma path_cong:
  assumes "PML4 va \<in> S"
  shows "agree k S root m m' \<Longrightarrow> path m' root va k = path m root va k"
proof (induction k)
  case 0
  show ?case by simp
next
  case (Suc k)
  then have "path m' root va k = path m root va k"
    using agree_mono [of "Suc k" S root m m' k] by simp
  moreover have "m' t (pidx k va) = m t (pidx k va)" if "path m root va k = Some t" for t
    using agreeD [OF Suc.prems, of k t "pidx k va"] path_in_ptab [OF assms that] slot_pidx [OF assms]
    by simp
  ultimately show ?case by (auto split: option.split)
qed

text \<open>Memories that agree on all tables give the same translations and the same tree.\<close>

lemma agree_pte_at:
  assumes ag: "agree 4 S root m m'" and va: "PML4 va \<in> S"
  shows "pte_at m' root va = pte_at m root va"
proof -
  have p: "path m' root va 3 = path m root va 3"
    using agree_mono [OF ag, of 3] by (intro path_cong [OF va]) simp
  have "m' t (PTX va) = m t (PTX va)" if "path m root va 3 = Some t" for t
    using agreeD [OF ag, of 3 t "pidx 3 va"] path_in_ptab [OF va that] slot_pidx [OF va, of 3] by simp
  with p show ?thesis by (auto simp: pte_at_def split: option.split)
qed

lemma pt_wfD:
  assumes "pt_wf s S root xs"
  shows "k \<le> 3 \<Longrightarrow> t \<in> ptab (kmem s) S root k \<Longrightarrow> t < npages s"
    and "k \<le> 3 \<Longrightarrow> t \<in> ptab (kmem s) S root k \<Longrightarrow> t \<notin> set xs"
    and "j \<le> 3 \<Longrightarrow> k \<le> 3 \<Longrightarrow> t \<in> ptab (kmem s) S root j \<Longrightarrow> t \<in> ptab (kmem s) S root k \<Longrightarrow> j = k"
    and "k < 3 \<Longrightarrow> t \<in> ptab (kmem s) S root k \<Longrightarrow> t' \<in> ptab (kmem s) S root k \<Longrightarrow>
      slot S k i \<Longrightarrow> slot S k i' \<Longrightarrow> kmem s t i \<noteq> 0 \<Longrightarrow> kmem s t' i' \<noteq> 0 \<Longrightarrow>
      fr (kmem s t i) = fr (kmem s t' i') \<Longrightarrow> t = t' \<and> i = i'"
  using assms unfolding pt_wf_def by blast+

lemma pt_wf_agree:
  assumes wf: "pt_wf s S root xs" and n: "npages s' = npages s"
    and ag: "agree 3 S root (kmem s) (kmem s')"
    and ys: "\<forall>k \<le> 3. \<forall>t \<in> ptab (kmem s) S root k. t \<notin> set ys"
  shows "pt_wf s' S root ys"
proof -
  have eq: "ptab (kmem s') S root k = ptab (kmem s) S root k" if "k \<le> 3" for k
    using agree_mono [OF ag that] by (rule ptab_cong)
  show ?thesis
    unfolding pt_wf_def
  proof (intro conjI allI impI ballI)
    fix k t assume k: "k \<le> 3" and t: "t \<in> ptab (kmem s') S root k"
    show "t < npages s'" using pt_wfD(1) [OF wf k] t eq [OF k] n by simp
    show "t \<notin> set ys" using ys k t eq [OF k] by simp
  next
    fix j k t assume "j \<le> 3" "k \<le> 3" "t \<in> ptab (kmem s') S root j" "t \<in> ptab (kmem s') S root k"
    then show "j = k" using pt_wfD(3) [OF wf, of j k t] eq by simp
  next
    fix k t t' i i'
    assume k: "k < 3" and t: "t \<in> ptab (kmem s') S root k" "t' \<in> ptab (kmem s') S root k"
      and i: "slot S k i" "slot S k i'"
      and e: "kmem s' t i \<noteq> 0" "kmem s' t' i' \<noteq> 0" "fr (kmem s' t i) = fr (kmem s' t' i')"
    have "kmem s' t i = kmem s t i" "kmem s' t' i' = kmem s t' i'"
      using agreeD [OF ag k] t i eq [of k] k by auto
    then show "t = t'" "i = i'"
      using pt_wfD(4) [OF wf k, of t t' i i'] t i e eq [of k] k by auto
  qed
qed

text \<open>Two addresses whose walks meet in a table use the same indices above it.\<close>

lemma path_inj:
  assumes wf: "pt_wf s S root xs" and va: "PML4 va \<in> S" "PML4 va' \<in> S"
  shows "k \<le> 3 \<Longrightarrow> path (kmem s) root va k = Some t \<Longrightarrow> path (kmem s) root va' k = Some t \<Longrightarrow>
    \<forall>j < k. pidx j va = pidx j va'"
proof (induction k arbitrary: t)
  case 0
  show ?case by simp
next
  case (Suc k)
  let ?m = "kmem s"
  obtain u where u: "path ?m root va k = Some u" "?m u (pidx k va) \<noteq> 0" "t = fr (?m u (pidx k va))"
    using Suc.prems by (auto split: option.splits if_splits)
  obtain u' where u': "path ?m root va' k = Some u'" "?m u' (pidx k va') \<noteq> 0" "t = fr (?m u' (pidx k va'))"
    using Suc.prems by (auto split: option.splits if_splits)
  have "u \<in> ptab ?m S root k" "u' \<in> ptab ?m S root k"
    using path_in_ptab va u u' by blast+
  then have "u = u' \<and> pidx k va = pidx k va'"
    using pt_wfD(4) [OF wf, of k u u' "pidx k va" "pidx k va'"] u u'
      slot_pidx [OF va(1)] slot_pidx [OF va(2)] Suc.prems(1) by simp
  moreover have "\<forall>j < k. pidx j va = pidx j va'"
    using Suc.IH [OF _ u(1)] u'(1) calculation Suc.prems(1) by auto
  ultimately show ?case by (auto simp: less_Suc_eq)
qed

text \<open>Writing a final entry changes the translation of exactly the addresses of that page.\<close>

definition same_page :: "u64 \<Rightarrow> u64 \<Rightarrow> bool" where
  "same_page va va' \<longleftrightarrow> (\<forall>j \<le> 3. pidx j va = pidx j va')"

lemma leaf_write:
  assumes wf: "pt_wf s S root xs" and va: "PML4 va \<in> S"
    and t: "path (kmem s) root va 3 = Some t"
    and m': "kmem s' = (kmem s)(t := (kmem s t)(PTX va := e))" and n: "npages s' = npages s"
  shows "pt_wf s' S root xs \<and>
    (\<forall>j \<le> 3. ptab (kmem s') S root j = ptab (kmem s) S root j) \<and>
    path (kmem s') root va 3 = Some t \<and>
    (\<forall>va'. PML4 va' \<in> S \<longrightarrow>
       pte_at (kmem s') root va' = (if same_page va va' then e else pte_at (kmem s) root va'))"
proof -
  have t3: "t \<in> ptab (kmem s) S root 3" by (rule path_in_ptab [OF va t])
  have ag: "agree 3 S root (kmem s) (kmem s')"
    unfolding agree_def
  proof (intro allI impI ballI)
    fix j u i
    assume "j < 3" "u \<in> ptab (kmem s) S root j"
    then have "u \<noteq> t" using pt_wfD(3) [OF wf, of j 3 u] t3 by auto
    then show "kmem s' u i = kmem s u i" using m' by simp
  qed
  have tab: "ptab (kmem s') S root j = ptab (kmem s) S root j" if "j \<le> 3" for j
    using agree_mono [OF ag that] by (rule ptab_cong)
  have pth: "path (kmem s') root va' 3 = path (kmem s) root va' 3" if "PML4 va' \<in> S" for va'
    using ag by (rule path_cong [OF that])
  have "pte_at (kmem s') root va' = (if same_page va va' then e else pte_at (kmem s) root va')"
    if va': "PML4 va' \<in> S" for va'
  proof (cases "path (kmem s) root va' 3 = Some t")
    case True
    then have "\<forall>j < 3. pidx j va = pidx j va'"
      using path_inj [OF wf va va' _ t True] by simp
    then have "same_page va va' \<longleftrightarrow> PTX va = PTX va'"
      by (auto simp: same_page_def le_less)
    with True pth [OF va'] m' show ?thesis by (auto simp: pte_at_def)
  next
    case False
    have "\<not> same_page va va'"
    proof
      assume sp: "same_page va va'"
      have "path (kmem s) root va k = path (kmem s) root va' k" if "k \<le> 3" for k
        using that
      proof (induction k)
        case (Suc k)
        then have "pidx k va = pidx k va'" using sp by (simp add: same_page_def)
        with Suc show ?case by (simp split: option.split)
      qed simp
      with t False show False by simp
    qed
    with False pth [OF va'] m' show ?thesis by (auto simp: pte_at_def split: option.split)
  qed
  moreover have "pt_wf s' S root xs"
    using pt_wfD(2) [OF wf] by (intro pt_wf_agree [OF wf n ag]) blast
  ultimately show ?thesis using tab pth [OF va] t by simp
qed

text \<open>Installing a fresh zeroed table \<open>p\<close> in an empty entry of a table of level \<open>k\<close>.\<close>

definition install :: "nat \<Rightarrow> nat \<Rightarrow> nat \<Rightarrow> u64 \<Rightarrow> (nat \<Rightarrow> nat \<Rightarrow> u64) \<Rightarrow> (nat \<Rightarrow> nat \<Rightarrow> u64)" where
  "install p t i e m = (let m1 = m(p := (\<lambda>_. 0)) in m1(t := (m1 t)(i := e)))"

lemma install_at: "p \<noteq> t \<Longrightarrow> install p t i e m u j =
    (if u = p then 0 else if u = t \<and> j = i then e else m u j)"
  by (auto simp: install_def Let_def)

lemma ptab_install:
  assumes wf: "pt_wf s S root xs" and k: "k < 3" and t: "t \<in> ptab (kmem s) S root k"
    and i: "slot S k i" "kmem s t i = 0" and e: "e \<noteq> 0" "fr e = p"
    and p: "\<forall>j \<le> 3. p \<notin> ptab (kmem s) S root j"
  shows "j \<le> 3 \<Longrightarrow> ptab (install p t i e (kmem s)) S root j =
    ptab (kmem s) S root j \<union> (if j = Suc k then {p} else {})"
proof (induction j)
  case 0
  show ?case by simp
next
  case (Suc j)
  let ?m = "install p t i e (kmem s)"
  have pt: "p \<noteq> t" using p t k by auto
  have IH: "ptab ?m S root j = ptab (kmem s) S root j \<union> (if j = Suc k then {p} else {})"
    using Suc by simp
  have tj: "j = k" if "t \<in> ptab (kmem s) S root j"
    using pt_wfD(3) [OF wf, of j k t] that t k Suc.prems by simp
  show ?case
  proof (intro set_eqI iffI)
    fix u assume "u \<in> ptab ?m S root (Suc j)"
    then obtain v l where v: "v \<in> ptab ?m S root j" "slot S j l" "?m v l \<noteq> 0" "u = fr (?m v l)"
      by (rule ptab_SucE)
    then have vp: "v \<noteq> p" using pt by (auto simp: install_at)
    with v(1) IH have vj: "v \<in> ptab (kmem s) S root j" by (auto split: if_splits)
    show "u \<in> ptab (kmem s) S root (Suc j) \<union> (if Suc j = Suc k then {p} else {})"
    proof (cases "v = t \<and> l = i")
      case True
      with vj tj v(4) e vp pt show ?thesis by (simp add: install_at)
    next
      case False
      with vp pt have "?m v l = kmem s v l" by (auto simp: install_at)
      with vj v have "u \<in> ptab (kmem s) S root (Suc j)" by (metis ptab_SucI)
      then show ?thesis by blast
    qed
  next
    fix u assume u: "u \<in> ptab (kmem s) S root (Suc j) \<union> (if Suc j = Suc k then {p} else {})"
    show "u \<in> ptab ?m S root (Suc j)"
    proof (cases "u = p \<and> j = k")
      case True
      have "t \<in> ptab ?m S root k" using IH True t by simp
      with True i(1) e pt show ?thesis
        using ptab_SucI [of t ?m S root k i] by (simp add: install_at)
    next
      case False
      with u have "u \<in> ptab (kmem s) S root (Suc j)" by (auto split: if_splits)
      then obtain v l where v: "v \<in> ptab (kmem s) S root j" "slot S j l" "kmem s v l \<noteq> 0"
        "u = fr (kmem s v l)" by (rule ptab_SucE)
      have "v \<noteq> p" using v(1) p Suc.prems by auto
      moreover have "\<not> (v = t \<and> l = i)" using v(3) i(2) by auto
      ultimately have "?m v l = kmem s v l" using pt by (auto simp: install_at)
      moreover have "v \<in> ptab ?m S root j" using IH v(1) by simp
      ultimately show ?thesis using v by (metis ptab_SucI)
    qed
  qed
qed

lemma path_install:
  assumes wf: "pt_wf s S root xs" and k: "k < 3" and t: "t \<in> ptab (kmem s) S root k"
    and i: "kmem s t i = 0" and e: "e \<noteq> 0" "fr e = p"
    and p: "\<forall>j \<le> 3. p \<notin> ptab (kmem s) S root j" and va: "PML4 va \<in> S"
  shows "j \<le> 3 \<Longrightarrow> path (install p t i e (kmem s)) root va j =
    (if k < j \<and> path (kmem s) root va k = Some t \<and> pidx k va = i
     then (if j = Suc k then Some p else None) else path (kmem s) root va j)"
proof (induction j)
  case 0
  show ?case by simp
next
  case (Suc j)
  let ?m = "install p t i e (kmem s)"
  have pt: "p \<noteq> t" using p t k by auto
  have old: "?m u (pidx j va) = (if u = t \<and> pidx j va = i then e else kmem s u (pidx j va))"
    if "path (kmem s) root va j = Some u" for u
    using path_in_ptab [OF va that] p Suc.prems pt by (auto simp: install_at)
  have tj: "j = k" if "path (kmem s) root va j = Some t"
    using pt_wfD(3) [OF wf, of j k t] path_in_ptab [OF va that] t k Suc.prems by simp
  show ?case
  proof (cases "k < j \<and> path (kmem s) root va k = Some t \<and> pidx k va = i")
    case True
    with Suc have "path ?m root va j = (if j = Suc k then Some p else None)" by simp
    moreover have "?m p l = 0" for l using pt by (simp add: install_at)
    ultimately show ?thesis using True by (cases "j = Suc k") auto
  next
    case False
    with Suc have IH: "path ?m root va j = path (kmem s) root va j" by simp
    show ?thesis
    proof (cases "path (kmem s) root va j")
      case None
      with IH False show ?thesis by (cases "j = k") auto
    next
      case (Some u)
      show ?thesis
      proof (cases "u = t \<and> pidx j va = i")
        case True
        then have "j = k" using tj Some by simp
        moreover have "?m t (pidx j va) = e" using old [OF Some] True by simp
        ultimately show ?thesis using IH Some True e by simp
      next
        case False
        then have "?m u (pidx j va) = kmem s u (pidx j va)" using old [OF Some] by auto
        then have "path ?m root va (Suc j) = path (kmem s) root va (Suc j)"
          using IH Some by simp
        moreover have "\<not> (k < Suc j \<and> path (kmem s) root va k = Some t \<and> pidx k va = i)"
          using False \<open>\<not> (k < j \<and> path (kmem s) root va k = Some t \<and> pidx k va = i)\<close> Some
          by (cases "k = j") auto
        ultimately show ?thesis by (simp only: if_False)
      qed
    qed
  qed
qed

lemma install_wf:
  assumes wf: "pt_wf s S root xs" and k: "k < 3" and t: "t \<in> ptab (kmem s) S root k"
    and i: "slot S k i" "kmem s t i = 0" and e: "e \<noteq> 0" "fr e = p"
    and p: "\<forall>j \<le> 3. p \<notin> ptab (kmem s) S root j" "p < npages s"
    and s': "kmem s' = install p t i e (kmem s)" "npages s' = npages s"
    and ys: "set ys \<subseteq> set xs" "p \<notin> set ys"
  shows "pt_wf s' S root ys"
proof -
  have pt: "p \<noteq> t" using p t k by auto
  have tab: "ptab (kmem s') S root j = ptab (kmem s) S root j \<union> (if j = Suc k then {p} else {})"
    if "j \<le> 3" for j
    unfolding s'(1) using that by (rule ptab_install [OF wf k t i e p(1)])
  have ent: "kmem s' v l = (if v = p then 0 else if v = t \<and> l = i then e else kmem s v l)" for v l
    using pt by (simp add: s'(1) install_at)
  show ?thesis
    unfolding pt_wf_def
  proof (intro conjI allI impI ballI)
    fix j u assume j: "j \<le> 3" and u: "u \<in> ptab (kmem s') S root j"
    then show "u < npages s'" "u \<notin> set ys"
      using pt_wfD(1,2) [OF wf j] p(2) ys s'(2) tab [OF j] by (auto split: if_splits)
  next
    fix j l u assume j: "j \<le> 3" "l \<le> 3" and u: "u \<in> ptab (kmem s') S root j" "u \<in> ptab (kmem s') S root l"
    then show "j = l"
      using pt_wfD(3) [OF wf j] p(1) tab j by (auto split: if_splits)
  next
    fix j v v' l l'
    assume j: "j < 3" and v: "v \<in> ptab (kmem s') S root j" "v' \<in> ptab (kmem s') S root j"
      and l: "slot S j l" "slot S j l'"
      and e': "kmem s' v l \<noteq> 0" "kmem s' v' l' \<noteq> 0" "fr (kmem s' v l) = fr (kmem s' v' l')"
    have old: "w \<in> ptab (kmem s) S root j" if "w \<in> ptab (kmem s') S root j" "kmem s' w h \<noteq> 0" for w h
      using that tab [of j] j by (auto simp: ent split: if_splits)
    have vold: "v \<in> ptab (kmem s) S root j" "v' \<in> ptab (kmem s) S root j"
      using old v e' by blast+
    have np: "fr (kmem s w h) \<noteq> p" if "w \<in> ptab (kmem s) S root j" "slot S j h" "kmem s w h \<noteq> 0" for w h
      using ptab_SucI [OF that] p(1) j by (metis Suc_le_eq)
    have "v = v' \<and> l = l'"
    proof (cases "(v = t \<and> l = i) \<or> (v' = t \<and> l' = i)")
      case True
      then show ?thesis
        using np [OF vold(1) l(1)] np [OF vold(2) l(2)] e e' by (auto simp: ent split: if_splits)
    next
      case False
      then show ?thesis
        using pt_wfD(4) [OF wf j vold l] e' by (auto simp: ent split: if_splits)
    qed
    then show "v = v'" "l = l'" by simp_all
  qed
qed

lemma install_pte_at:
  assumes wf: "pt_wf s S root xs" and k: "k < 3" and t: "t \<in> ptab (kmem s) S root k"
    and i: "kmem s t i = 0" and e: "e \<noteq> 0" "fr e = p"
    and p: "\<forall>j \<le> 3. p \<notin> ptab (kmem s) S root j" and va: "PML4 va \<in> S"
  shows "pte_at (install p t i e (kmem s)) root va = pte_at (kmem s) root va"
proof -
  have pt: "p \<noteq> t" using p t k by auto
  have none: "path (kmem s) root va j = None" if "path (kmem s) root va k = Some t" "pidx k va = i" "k < j" for j
    using that(3,1,2) i by (induction j) (auto simp: less_Suc_eq)
  note new = path_install [OF wf k t i e p va, of 3]
  show ?thesis
  proof (cases "path (kmem s) root va k = Some t \<and> pidx k va = i")
    case True
    with none [of 3] k have "pte_at (kmem s) root va = 0" by (simp add: pte_at_def)
    moreover have "pte_at (install p t i e (kmem s)) root va = 0"
      using new True k pt by (simp add: pte_at_def install_at)
    ultimately show ?thesis by simp
  next
    case False
    then have new': "path (install p t i e (kmem s)) root va 3 = path (kmem s) root va 3"
      using new by auto
    have "install p t i e (kmem s) u (PTX va) = kmem s u (PTX va)" if u: "path (kmem s) root va 3 = Some u" for u
    proof -
      have "u \<in> ptab (kmem s) S root 3" by (rule path_in_ptab [OF va u])
      then have "u \<noteq> p" "u \<noteq> t" using p t k pt_wfD(3) [OF wf, of 3 k u] by auto
      then show ?thesis using pt by (simp add: install_at)
    qed
    with new' show ?thesis by (auto simp: pte_at_def split: option.split)
  qed
qed

section \<open>The walkers build the tree\<close>

abbreviation "PT_FLAGS \<equiv> (PTE_W OR PTE_U OR PTE_P)"

lemma table_entry:
  assumes "p < npages s" "npages s \<le> 2 ^ 32"
  shows "fr (page2pa p OR PT_FLAGS) = p" "page2pa p OR PT_FLAGS \<noteq> 0"
proof -
  show "fr (page2pa p OR PT_FLAGS) = p"
    using assms PPN_or_low [of p "PT_FLAGS"] by (simp add: fr_eq_PPN)
  have "bit (page2pa p OR PT_FLAGS) 0" by (simp add: bit_or_iff)
  then show "page2pa p OR PT_FLAGS \<noteq> 0" by force
qed

lemma write_pte_simps [simp]:
  "page_free_list (write_pte p e s) = page_free_list s" "npages (write_pte p e s) = npages s"
  "pages (write_pte p e s) = pages s"
  "kmem (write_pte p e s) = (kmem s)(fst p := (kmem s (fst p))(snd p := e))"
  by (simp_all add: write_pte_def)

lemma page_inv_write_pte [simp]: "page_inv (write_pte p e s) xs = page_inv s xs"
  by (simp add: page_inv_def)

lemma path_fr:
  "path (kmem s) root va (Suc k) = Some u \<Longrightarrow> path (kmem s) root va k = Some t \<Longrightarrow>
     kmem s t (pidx k va) \<noteq> 0 \<and> u = fr (kmem s t (pidx k va))"
  by (auto split: if_splits)

lemma path_table_of:
  assumes "page_inv s xs" "pt_wf s S root xs" "PML4 va \<in> S" "k < 3"
    "path (kmem s) root va k = Some t" "kmem s t (pidx k va) \<noteq> 0"
  obtains u where "path (kmem s) root va (Suc k) = Some u" "table_of s (kmem s t (pidx k va)) = Some u"
proof -
  have p: "path (kmem s) root va (Suc k) = Some (fr (kmem s t (pidx k va)))"
    using assms by simp
  then have "fr (kmem s t (pidx k va)) < npages s"
    using pt_wfD(1) [OF assms(2) _ path_in_ptab [OF assms(3) p]] assms(4) by simp
  then have "table_of s (kmem s t (pidx k va)) = Some (fr (kmem s t (pidx k va)))"
    using assms(1) by (intro table_of_fr) (simp_all add: page_inv_def)
  with p that show thesis by blast
qed

text \<open>The branch of each walker that allocates a table.\<close>

lemma walk_grow:
  assumes inv: "page_inv s (p # xs)" and wf: "pt_wf s S root (p # xs)" and va: "PML4 va \<in> S"
    and k: "k < 3" and t: "path (kmem s) root va k = Some t" and z: "kmem s t (pidx k va) = 0"
  shows "\<exists>s1 s2. page_alloc ALLOC_ZERO s = Some (Some p, s1) \<and>
     s2 = write_pte (t, pidx k va) (page2pa p OR PT_FLAGS) (incref p s1) \<and>
     page_inv s2 xs \<and> pt_wf s2 S root xs \<and> npages s2 = npages s \<and>
     path (kmem s2) root va k = Some t \<and> path (kmem s2) root va (Suc k) = Some p \<and>
     (\<forall>j > Suc k. j \<le> 3 \<longrightarrow> path (kmem s2) root va j = None) \<and>
     pages s2 p = \<lparr>pp_link = None, pp_ref = 1\<rparr> \<and> (\<forall>q. q \<noteq> p \<longrightarrow> pages s2 q = pages s q) \<and>
     (\<forall>u. u \<noteq> p \<longrightarrow> u \<noteq> t \<longrightarrow> kmem s2 u = kmem s u) \<and> t \<noteq> p \<and>
     kmem s2 t = (kmem s t)(pidx k va := page2pa p OR PT_FLAGS) \<and>
     (\<forall>va'. PML4 va' \<in> S \<longrightarrow> pte_at (kmem s2) root va' = pte_at (kmem s) root va')"
proof -
  obtain s1 where s1: "page_alloc ALLOC_ZERO s = Some (Some p, s1)" "page_inv s1 xs"
    "pages s1 = (pages s)(p := (pages s p)\<lparr>pp_link := None\<rparr>)"
    "kmem s1 = (kmem s)(p := (\<lambda>_. 0))" "npages s1 = npages s"
    using page_alloc_Some [OF inv, of ALLOC_ZERO] by auto
  have p: "p < npages s" "npages s \<le> 2 ^ 32" "pp_ref (pages s p) = 0" "p \<notin> set xs"
    using inv chain_distinct [of _ _ "p # xs"] by (fastforce simp: page_inv_def simp del: chain.simps)+
  define e where "e = page2pa p OR PT_FLAGS"
  have e: "fr e = p" "e \<noteq> 0" unfolding e_def using table_entry [OF p(1,2)] by auto
  have tt: "t \<in> ptab (kmem s) S root k" by (rule path_in_ptab [OF va t])
  have pn: "\<forall>j \<le> 3. p \<notin> ptab (kmem s) S root j" using pt_wfD(2) [OF wf] by auto
  then have tp: "t \<noteq> p" using tt k by auto
  define s2 where "s2 = write_pte (t, pidx k va) e (incref p s1)"
  have m2: "kmem s2 = install p t (pidx k va) e (kmem s)"
    using tp by (simp add: s2_def s1 install_def fun_upd_def fun_eq_iff)
  have n2: "npages s2 = npages s" by (simp add: s2_def s1)
  have "page_inv s2 xs" unfolding s2_def using s1(2) p(4) by (simp add: page_inv_incref)
  moreover have "pt_wf s2 S root xs"
    by (rule install_wf [OF wf k tt slot_pidx [OF va] z e(2,1) pn p(1) m2 n2]) (use p(4) in auto)
  moreover have "path (kmem s2) root va j = (if k < j then (if j = Suc k then Some p else None)
      else path (kmem s) root va j)" if "j \<le> 3" for j
    using path_install [OF wf k tt z e(2,1) pn va that] t m2 by simp
  moreover have "pages s2 p = \<lparr>pp_link = None, pp_ref = 1\<rparr>" "\<forall>q. q \<noteq> p \<longrightarrow> pages s2 q = pages s q"
    using p(3) by (simp_all add: s2_def s1)
  moreover have "\<forall>u. u \<noteq> p \<longrightarrow> u \<noteq> t \<longrightarrow> kmem s2 u = kmem s u"
    "kmem s2 t = (kmem s t)(pidx k va := e)"
    using tp by (auto simp: m2 install_def Let_def)
  moreover have "pte_at (kmem s2) root va' = pte_at (kmem s) root va'" if "PML4 va' \<in> S" for va'
    using install_pte_at [OF wf k tt z e(2,1) pn that] m2 by simp
  ultimately show ?thesis
    using s1(1) n2 k t tp unfolding e_def [symmetric]
    by (intro exI [of _ s1] exI [of _ s2]) (simp del: path.simps(2) add: s2_def [symmetric])
qed

text \<open>What a walker of level \<open>k\<close> leaves behind: the tree is still a tree and translates every
  address as before, only free pages and tables on the walk of \<open>va\<close> were written, and the result
  is the address of the final entry; it fails only when the free pages run out.\<close>

definition walk_post where
  "walk_post k s xs S root va r s' ys \<longleftrightarrow>
     page_inv s' ys \<and> set ys \<subseteq> set xs \<and> pt_wf s' S root ys \<and> npages s' = npages s \<and>
     (\<forall>q. q \<notin> set xs \<longrightarrow> pages s' q = pages s q) \<and>
     (\<forall>u. u \<notin> set xs \<longrightarrow> (\<forall>j \<ge> k. j \<le> 3 \<longrightarrow> path (kmem s) root va j \<noteq> Some u) \<longrightarrow> kmem s' u = kmem s u) \<and>
     (\<forall>va'. PML4 va' \<in> S \<longrightarrow> pte_at (kmem s') root va' = pte_at (kmem s) root va') \<and>
     (case r of None \<Rightarrow> length xs < 3 - k
      | Some p \<Rightarrow> p = (fst p, PTX va) \<and> path (kmem s') root va 3 = Some (fst p))"

lemma walk_post_refl:
  "page_inv s xs \<Longrightarrow> pt_wf s S root xs \<Longrightarrow>
   (case r of None \<Rightarrow> length xs < 3 - k
      | Some p \<Rightarrow> p = (fst p, PTX va) \<and> path (kmem s) root va 3 = Some (fst p)) \<Longrightarrow>
   walk_post k s xs S root va r s xs"
  by (simp add: walk_post_def)

lemma walk_post_down:
  assumes "walk_post (Suc k) s xs S root va r s' ys"
  shows "walk_post k s xs S root va r s' ys"
  using assms by (auto simp: walk_post_def Suc_le_eq split: option.splits)

text \<open>After growing the tree at level \<open>k\<close>, the walk of level \<open>k + 1\<close> completes the one of level \<open>k\<close>.\<close>

lemma walk_post_grow:
  assumes "walk_post (Suc k) s2 xs S root va r s' ys"
    and "\<forall>q. q \<noteq> p \<longrightarrow> pages s2 q = pages s q" "\<forall>u. u \<noteq> p \<longrightarrow> u \<noteq> t \<longrightarrow> kmem s2 u = kmem s u"
    and "path (kmem s) root va k = Some t" "k < 3" "npages s2 = npages s"
    and "path (kmem s2) root va (Suc k) = Some p" "\<forall>j > Suc k. j \<le> 3 \<longrightarrow> path (kmem s2) root va j = None"
    and "\<forall>va'. PML4 va' \<in> S \<longrightarrow> pte_at (kmem s2) root va' = pte_at (kmem s) root va'"
  shows "walk_post k s (p # xs) S root va r s' ys"
proof -
  have "kmem s' u = kmem s u"
    if "u \<notin> set (p # xs)" "\<forall>j \<ge> k. j \<le> 3 \<longrightarrow> path (kmem s) root va j \<noteq> Some u" for u
  proof -
    have "u \<noteq> t" using that(2) assms(4,5) by auto
    moreover have "path (kmem s2) root va j \<noteq> Some u" if "Suc k \<le> j" "j \<le> 3" for j
      using that assms(7,8) \<open>u \<notin> set (p # xs)\<close> by (cases "j = Suc k") (auto simp del: path.simps(2))
    ultimately show ?thesis using assms(1,3) that(1) by (simp add: walk_post_def del: path.simps(2))
  qed
  then show ?thesis
    using assms(1,2,6,9) by (auto simp: walk_post_def split: option.splits)
qed

lemma pgdir_walk_post:
  assumes inv: "page_inv s xs" and wf: "pt_wf s S root xs" and va: "PML4 va \<in> S"
    and d: "path (kmem s) root va 2 = Some d"
  shows "\<exists>r s' ys. pgdir_walk (Some d) va True s = Some (r, s') \<and> walk_post 2 s xs S root va r s' ys"
proof (cases "kmem s d (PDX va) = 0")
  case False
  obtain u where u: "path (kmem s) root va 3 = Some u" "table_of s (kmem s d (PDX va)) = Some u"
    using path_table_of [OF inv wf va _ d] False by (auto simp: eval_nat_numeral)
  have "pgdir_walk (Some d) va True s = Some (Some (u, PTX va), s)"
    using False u(2) by (simp add: pgdir_walk_def Let_def)
  moreover have "walk_post 2 s xs S root va (Some (u, PTX va)) s xs"
    using u(1) by (intro walk_post_refl [OF inv wf]) simp
  ultimately show ?thesis by blast
next
  case True
  show ?thesis
  proof (cases xs)
    case Nil
    then have "pgdir_walk (Some d) va True s = Some (None, s)"
      using True inv by (simp add: pgdir_walk_def page_alloc_None)
    moreover have "walk_post 2 s xs S root va None s xs"
      using Nil by (intro walk_post_refl [OF inv wf]) simp
    ultimately show ?thesis by blast
  next
    case (Cons p ps)
    obtain s1 s2 where g: "page_alloc ALLOC_ZERO s = Some (Some p, s1)"
      "s2 = write_pte (d, pidx 2 va) (page2pa p OR PT_FLAGS) (incref p s1)"
      "page_inv s2 ps" "pt_wf s2 S root ps" "npages s2 = npages s" "path (kmem s2) root va 2 = Some d"
      "path (kmem s2) root va (Suc 2) = Some p"
      "\<forall>j > Suc 2. j \<le> 3 \<longrightarrow> path (kmem s2) root va j = None"
      "\<forall>q. q \<noteq> p \<longrightarrow> pages s2 q = pages s q" "\<forall>u. u \<noteq> p \<longrightarrow> u \<noteq> d \<longrightarrow> kmem s2 u = kmem s u"
      "\<forall>va'. PML4 va' \<in> S \<longrightarrow> pte_at (kmem s2) root va' = pte_at (kmem s) root va'"
      using walk_grow [of s p ps S root va 2 d] inv wf va d True unfolding Cons
      by (auto simp del: path.simps(2))
    have "kmem s2 d (PDX va) \<noteq> 0" using path_fr [OF g(7,6)] by simp
    then obtain u where "path (kmem s2) root va (Suc 2) = Some u" "table_of s2 (kmem s2 d (PDX va)) = Some u"
      using path_table_of [OF g(3,4) va _ g(6)] by auto
    with g(7) have t: "table_of s2 (kmem s2 d (PDX va)) = Some p" by simp
    have "pgdir_walk (Some d) va True s = Some (Some (p, PTX va), s2)"
      using True g(1) t unfolding g(2) by (simp add: pgdir_walk_def Let_def)
    moreover have "walk_post (Suc 2) s2 ps S root va (Some (p, PTX va)) s2 ps"
      using g(7) by (intro walk_post_refl [OF g(3,4)]) (simp add: eval_nat_numeral)
    then have "walk_post 2 s (p # ps) S root va (Some (p, PTX va)) s2 ps"
      by (rule walk_post_grow) (use g d in \<open>simp_all del: path.simps(2)\<close>)
    ultimately show ?thesis unfolding Cons by blast
  qed
qed

lemma pdpe_walk_post:
  assumes inv: "page_inv s xs" and wf: "pt_wf s S root xs" and va: "PML4 va \<in> S"
    and d: "path (kmem s) root va 1 = Some d"
  shows "\<exists>r s' ys. pdpe_walk (Some d) va True s = Some (r, s') \<and> walk_post 1 s xs S root va r s' ys"
proof (cases "kmem s d (PDPE va) = 0")
  case False
  obtain u where u: "path (kmem s) root va 2 = Some u" "table_of s (kmem s d (PDPE va)) = Some u"
    using path_table_of [OF inv wf va _ d] False by (auto simp: eval_nat_numeral)
  obtain r s' ys where r: "pgdir_walk (Some u) va True s = Some (r, s')" "walk_post 2 s xs S root va r s' ys"
    using pgdir_walk_post [OF inv wf va u(1)] by blast
  have "pdpe_walk (Some d) va True s = Some (r, s')"
    using False u(2) r(1) by (simp add: pdpe_walk_def Let_def split: option.split)
  moreover have "walk_post 1 s xs S root va r s' ys"
    using walk_post_down [of 1] r(2) by (simp add: numeral_2_eq_2)
  ultimately show ?thesis by blast
next
  case True
  show ?thesis
  proof (cases xs)
    case Nil
    then have "pdpe_walk (Some d) va True s = Some (None, s)"
      using True inv by (simp add: pdpe_walk_def page_alloc_None)
    moreover have "walk_post 1 s xs S root va None s xs"
      using Nil by (intro walk_post_refl [OF inv wf]) simp
    ultimately show ?thesis by blast
  next
    case (Cons p ps)
    obtain s1 s2 where g: "page_alloc ALLOC_ZERO s = Some (Some p, s1)"
      "s2 = write_pte (d, pidx 1 va) (page2pa p OR PT_FLAGS) (incref p s1)"
      "page_inv s2 ps" "pt_wf s2 S root ps" "npages s2 = npages s" "path (kmem s2) root va 1 = Some d"
      "path (kmem s2) root va (Suc 1) = Some p"
      "\<forall>j > Suc 1. j \<le> 3 \<longrightarrow> path (kmem s2) root va j = None"
      "\<forall>q. q \<noteq> p \<longrightarrow> pages s2 q = pages s q" "\<forall>u. u \<noteq> p \<longrightarrow> u \<noteq> d \<longrightarrow> kmem s2 u = kmem s u"
      "\<forall>va'. PML4 va' \<in> S \<longrightarrow> pte_at (kmem s2) root va' = pte_at (kmem s) root va'"
      using walk_grow [of s p ps S root va 1 d] inv wf va d True unfolding Cons
      by (auto simp del: path.simps(2) One_nat_def)
    have "kmem s2 d (PDPE va) \<noteq> 0" using path_fr [OF g(7,6)] by (simp del: One_nat_def)
    then obtain u where "path (kmem s2) root va (Suc 1) = Some u" "table_of s2 (kmem s2 d (PDPE va)) = Some u"
      using path_table_of [OF g(3,4) va _ g(6)] by (auto simp del: One_nat_def path.simps(2))
    with g(7) have t: "table_of s2 (kmem s2 d (PDPE va)) = Some p" by simp
    have p2: "path (kmem s2) root va 2 = Some p" using g(7) by (simp add: numeral_2_eq_2 del: path.simps(2))
    obtain r s' ys where r: "pgdir_walk (Some p) va True s2 = Some (r, s')" "walk_post 2 s2 ps S root va r s' ys"
      using pgdir_walk_post [OF g(3,4) va p2] by blast
    have "pdpe_walk (Some d) va True s = Some (r, s')"
      using True g(1) t r(1) unfolding g(2)
      by (simp add: pdpe_walk_def Let_def del: One_nat_def split: option.split)
    moreover have "walk_post (Suc 1) s2 ps S root va r s' ys"
      using r(2) by (simp add: numeral_2_eq_2)
    then have "walk_post 1 s (p # ps) S root va r s' ys"
      by (rule walk_post_grow) (use g d in \<open>simp_all del: path.simps(2) One_nat_def\<close>)
    ultimately show ?thesis unfolding Cons by blast
  qed
qed

text \<open>The failure branch of \<open>pml4e_walk\<close> gives its table back: memory is as it was, up to free
  pages, although a table allocated further down stays lost.\<close>

lemma pml4e_walk_undo:
  assumes inv: "page_inv s (p # xs)" and wf: "pt_wf s S root (p # xs)" and va: "PML4 va \<in> S"
    and z: "kmem s root (PML4 va) = 0"
    and g: "npages s2 = npages s" "path (kmem s2) root va 1 = Some p" "p \<noteq> root"
      "\<forall>j > 1. j \<le> 3 \<longrightarrow> path (kmem s2) root va j = None"
      "pages s2 p = \<lparr>pp_link = None, pp_ref = 1\<rparr>" "\<forall>q. q \<noteq> p \<longrightarrow> pages s2 q = pages s q"
      "\<forall>u. u \<noteq> p \<longrightarrow> u \<noteq> root \<longrightarrow> kmem s2 u = kmem s u" "kmem s2 root = (kmem s root)(PML4 va := e)"
    and w: "walk_post 1 s2 xs S root va None s' ys"
  shows "\<exists>s3. page_decref p s' = Some s3 \<and>
    walk_post 0 s (p # xs) S root va None (write_pte (root, PML4 va) 0 s3) (p # ys)"
proof -
  have pxs: "p \<notin> set xs" "p < npages s"
    using inv chain_distinct [of _ _ "p # xs"] by (fastforce simp: page_inv_def simp del: chain.simps)+
  have w': "page_inv s' ys" "set ys \<subseteq> set xs" "npages s' = npages s"
    "\<forall>q. q \<notin> set xs \<longrightarrow> pages s' q = pages s2 q" "length xs < 2"
    "\<And>u. u \<notin> set xs \<Longrightarrow> u \<noteq> p \<Longrightarrow> kmem s' u = kmem s2 u"
  proof -
    show "kmem s' u = kmem s2 u" if "u \<notin> set xs" "u \<noteq> p" for u
    proof -
      have "path (kmem s2) root va j \<noteq> Some u" if "1 \<le> j" "j \<le> 3" for j
        using that g(2,4) \<open>u \<noteq> p\<close> by (cases "j = 1") auto
      with w \<open>u \<notin> set xs\<close> show ?thesis by (simp add: walk_post_def)
    qed
  qed (use w g(1) in \<open>auto simp: walk_post_def\<close>)
  have "pages s' p = \<lparr>pp_link = None, pp_ref = 1\<rparr>" using w'(4) pxs g(5) by simp
  moreover have "p \<notin> set ys" using w'(2) pxs by auto
  ultimately obtain s3 where s3: "page_decref p s' = Some s3" "page_inv s3 (p # ys)" "kmem s3 = kmem s'"
    "npages s3 = npages s'" "\<forall>q. q \<noteq> p \<longrightarrow> pages s3 q = pages s' q"
    using page_decref_inv [OF w'(1), of p] pxs w'(3) by auto
  let ?s = "write_pte (root, PML4 va) 0 s3"
  have r: "root \<notin> set (p # xs)" using pt_wfD(2) [OF wf, of 0 root] by simp
  have mem: "kmem ?s u = kmem s u" if "u \<notin> set (p # xs)" for u
    using that w'(6) [of u] g(7,8) z s3(3) by (cases "u = root") (auto simp: fun_eq_iff)
  have ag: "agree 4 S root (kmem s) (kmem ?s)"
    unfolding agree_def
  proof (intro allI impI ballI)
    fix j t i assume "j < 4" "t \<in> ptab (kmem s) S root j"
    then have "t \<notin> set (p # xs)" using pt_wfD(2) [OF wf, of j t] by simp
    then show "kmem ?s t i = kmem s t i" using mem by (metis)
  qed
  have "pt_wf ?s S root (p # ys)"
    using pt_wfD(2) [OF wf] w'(2,3) s3(4)
    by (intro pt_wf_agree [OF wf _ agree_mono [OF ag]]) (auto; blast)+
  moreover have "pages s3 q = pages s q" if "q \<notin> set (p # xs)" for q
    using that s3(5) w'(4) g(6) by simp
  ultimately show ?thesis
    using s3 w' mem agree_pte_at [OF ag]
    by (auto simp: walk_post_def simp del: write_pte_simps(4))
qed

lemma pml4e_walk_post:
  assumes inv: "page_inv s xs" and wf: "pt_wf s S root xs" and va: "PML4 va \<in> S"
  shows "\<exists>r s' ys. pml4e_walk (Some root) va True s = Some (r, s') \<and> walk_post 0 s xs S root va r s' ys"
proof (cases "kmem s root (PML4 va) = 0")
  case False
  obtain u where u: "path (kmem s) root va 1 = Some u" "table_of s (kmem s root (PML4 va)) = Some u"
    using path_table_of [OF inv wf va, of 0 root] False by auto
  obtain r s' ys where r: "pdpe_walk (Some u) va True s = Some (r, s')" "walk_post 1 s xs S root va r s' ys"
    using pdpe_walk_post [OF inv wf va u(1)] by blast
  have "pml4e_walk (Some root) va True s = Some (r, s')"
    using False u(2) r(1) by (simp add: pml4e_walk_def Let_def split: option.split)
  moreover have "walk_post 0 s xs S root va r s' ys"
    using walk_post_down [of 0] r(2) by simp
  ultimately show ?thesis by blast
next
  case True
  show ?thesis
  proof (cases xs)
    case Nil
    then have "pml4e_walk (Some root) va True s = Some (None, s)"
      using True inv by (simp add: pml4e_walk_def page_alloc_None)
    moreover have "walk_post 0 s xs S root va None s xs"
      using Nil by (intro walk_post_refl [OF inv wf]) simp
    ultimately show ?thesis by blast
  next
    case (Cons p ps)
    obtain s1 s2 where g: "page_alloc ALLOC_ZERO s = Some (Some p, s1)"
      "s2 = write_pte (root, pidx 0 va) (page2pa p OR PT_FLAGS) (incref p s1)"
      "page_inv s2 ps" "pt_wf s2 S root ps" "npages s2 = npages s"
      "path (kmem s2) root va (Suc 0) = Some p"
      "\<forall>j > Suc 0. j \<le> 3 \<longrightarrow> path (kmem s2) root va j = None"
      "\<forall>q. q \<noteq> p \<longrightarrow> pages s2 q = pages s q" "\<forall>u. u \<noteq> p \<longrightarrow> u \<noteq> root \<longrightarrow> kmem s2 u = kmem s u"
      "\<forall>va'. PML4 va' \<in> S \<longrightarrow> pte_at (kmem s2) root va' = pte_at (kmem s) root va'"
      "pages s2 p = \<lparr>pp_link = None, pp_ref = 1\<rparr>" "root \<noteq> p"
      "kmem s2 root = (kmem s root)(PML4 va := page2pa p OR PT_FLAGS)"
      using walk_grow [of s p ps S root va 0 root] inv wf va True unfolding Cons
      by (auto simp del: path.simps(2))
    have "kmem s2 root (PML4 va) \<noteq> 0" using path_fr [OF g(6), of root] by simp
    then obtain u where "path (kmem s2) root va (Suc 0) = Some u" "table_of s2 (kmem s2 root (PML4 va)) = Some u"
      using path_table_of [OF g(3,4) va, of 0 root] by (auto simp del: path.simps(2))
    with g(6) have t: "table_of s2 (kmem s2 root (PML4 va)) = Some p" by simp
    have p1: "path (kmem s2) root va 1 = Some p" using g(6) by (simp del: path.simps(2))
    obtain r s' ys where r: "pdpe_walk (Some p) va True s2 = Some (r, s')" "walk_post 1 s2 ps S root va r s' ys"
      using pdpe_walk_post [OF g(3,4) va p1] by blast
    show ?thesis
    proof (cases r)
      case (Some q)
      have "pml4e_walk (Some root) va True s = Some (r, s')"
        using True g(1) t r(1) Some unfolding g(2) by (simp add: pml4e_walk_def Let_def)
      moreover have "walk_post (Suc 0) s2 ps S root va r s' ys" using r(2) by simp
      then have "walk_post 0 s (p # ps) S root va r s' ys"
        by (rule walk_post_grow) (use g in \<open>simp_all del: path.simps(2)\<close>)
      ultimately show ?thesis unfolding Cons by blast
    next
      case None
      obtain s3 where s3: "page_decref p s' = Some s3"
        "walk_post 0 s (p # ps) S root va None (write_pte (root, PML4 va) 0 s3) (p # ys)"
        using pml4e_walk_undo [OF inv [unfolded Cons] wf [unfolded Cons] va True g(5) p1
            g(12) [symmetric] _ g(11,8,9,13) r(2) [unfolded None]] g(7)
        unfolding One_nat_def by blast
      have "pml4e_walk (Some root) va True s = Some (None, write_pte (root, PML4 va) 0 s3)"
        using True g(1) t r(1) s3(1) None unfolding g(2) by (simp add: pml4e_walk_def Let_def)
      with s3(2) show ?thesis unfolding Cons by blast
    qed
  qed
qed

text \<open>When all tables exist, a walk changes nothing.\<close>

lemma pml4e_walk_exists:
  assumes inv: "page_inv s xs" and wf: "pt_wf s S root xs" and va: "PML4 va \<in> S"
    and u: "path (kmem s) root va 3 = Some u"
  shows "pml4e_walk (Some root) va create s = Some (Some (u, PTX va), s)"
proof -
  obtain b where b: "path (kmem s) root va 2 = Some b"
    using u by (auto simp: numeral_3_eq_3 numeral_2_eq_2 split: option.splits if_splits)
  obtain a where a: "path (kmem s) root va 1 = Some a"
    using b by (auto simp: numeral_2_eq_2 split: option.splits if_splits)
  have step: "kmem s t (pidx k va) \<noteq> 0 \<and> table_of s (kmem s t (pidx k va)) = Some v"
    if "path (kmem s) root va k = Some t" "path (kmem s) root va (Suc k) = Some v" "k < 3" for k t v
    using path_table_of [OF inv wf va that(3,1)] path_fr [OF that(2,1)] that(2) by fastforce
  have "kmem s root (PML4 va) \<noteq> 0 \<and> table_of s (kmem s root (PML4 va)) = Some a"
    using step [of 0 root a] a by simp
  moreover have "kmem s a (PDPE va) \<noteq> 0 \<and> table_of s (kmem s a (PDPE va)) = Some b"
    using step [of 1 a b] a b by (simp add: numeral_2_eq_2)
  moreover have "kmem s b (PDX va) \<noteq> 0 \<and> table_of s (kmem s b (PDX va)) = Some u"
    using step [of 2 b u] b u by (simp add: numeral_3_eq_3)
  ultimately show ?thesis
    by (simp add: pml4e_walk_def pdpe_walk_def pgdir_walk_def Let_def)
qed

section \<open>Lookup, insertion, removal\<close>

text \<open>The page an entry maps is live: it exists, is referenced, is on no list and is not a table.\<close>

definition live_page :: "'a pstate_scheme \<Rightarrow> nat set \<Rightarrow> nat \<Rightarrow> nat list \<Rightarrow> nat \<Rightarrow> bool" where
  "live_page s S root xs q \<longleftrightarrow> q < npages s \<and> q \<notin> set xs \<and> pp_ref (pages s q) \<noteq> 0 \<and>
     pp_link (pages s q) = None \<and> (\<forall>k \<le> 3. q \<notin> ptab (kmem s) S root k)"

lemma pte_at_path: "path m root va 3 = Some u \<Longrightarrow> pte_at m root va = m u (PTX va)"
  by (simp add: pte_at_def)

lemma page_lookup_present:
  assumes "page_inv s xs" "pt_wf s S root xs" "PML4 va \<in> S"
    "pte_at (kmem s) root va AND PTE_P \<noteq> 0" "fr (pte_at (kmem s) root va) < npages s"
  shows "\<exists>u. page_lookup (Some root) va s = Some (Some (fr (pte_at (kmem s) root va)), Some (u, PTX va), s) \<and>
    path (kmem s) root va 3 = Some u"
proof -
  obtain u where u: "path (kmem s) root va 3 = Some u"
    using assms(4) by (cases "path (kmem s) root va 3") (auto simp: pte_at_def)
  then show ?thesis
    using pml4e_walk_exists [OF assms(1-3) u] assms(4,5) pte_at_path [OF u]
    by (simp add: page_lookup_def pa2page_def fr_eq_PPN)
qed

lemma page_lookup_absent:
  assumes "page_inv s xs" "pt_wf s S root xs" "PML4 va \<in> S" "pte_at (kmem s) root va AND PTE_P = 0"
  shows "\<exists>s' ys r. page_lookup (Some root) va s = Some (None, None, s') \<and>
    walk_post 0 s xs S root va r s' ys"
proof -
  obtain r s' ys where w: "pml4e_walk (Some root) va True s = Some (r, s')"
    "walk_post 0 s xs S root va r s' ys"
    using pml4e_walk_post [OF assms(1-3)] by blast
  show ?thesis
  proof (cases r)
    case None
    with w show ?thesis by (auto simp: page_lookup_def)
  next
    case (Some p)
    with w(2) have "path (kmem s') root va 3 = Some (fst p)" "snd p = PTX va"
      "pte_at (kmem s') root va = pte_at (kmem s) root va"
      using assms(3) by (auto simp: walk_post_def prod_eq_iff)
    then have "read_pte s' p AND PTE_P = 0" using assms(4) by (simp add: pte_at_path)
    with w Some show ?thesis by (auto simp: page_lookup_def)
  qed
qed

lemma page_remove_present:
  assumes inv: "page_inv s xs" and wf: "pt_wf s S root xs" and va: "PML4 va \<in> S"
    and e: "e = pte_at (kmem s) root va" "e AND PTE_P \<noteq> 0" "live_page s S root xs (fr e)"
  shows "\<exists>s' ys. page_remove (Some root) va s = Some s' \<and> page_inv s' ys \<and> pt_wf s' S root ys \<and>
    ys = (if pp_ref (pages s (fr e)) = 1 then fr e # xs else xs) \<and>
    npages s' = npages s \<and> path (kmem s') root va 3 = path (kmem s) root va 3 \<and>
    pp_ref (pages s' (fr e)) = pp_ref (pages s (fr e)) - 1 \<and>
    (\<forall>q. q \<noteq> fr e \<longrightarrow> pages s' q = pages s q) \<and>
    (\<forall>va'. PML4 va' \<in> S \<longrightarrow>
       pte_at (kmem s') root va' = (if same_page va va' then 0 else pte_at (kmem s) root va'))"
proof -
  note live = e(3) [unfolded live_page_def]
  obtain u where u: "page_lookup (Some root) va s = Some (Some (fr e), Some (u, PTX va), s)"
    "path (kmem s) root va 3 = Some u"
    using page_lookup_present [OF inv wf va] e(1,2) live by auto
  obtain s1 where s1: "page_decref (fr e) s = Some s1"
    "page_inv s1 (if pp_ref (pages s (fr e)) = 1 then fr e # xs else xs)"
    "pp_ref (pages s1 (fr e)) = pp_ref (pages s (fr e)) - 1" "kmem s1 = kmem s" "npages s1 = npages s"
    "\<forall>q. q \<noteq> fr e \<longrightarrow> pages s1 q = pages s q"
    using page_decref_inv [OF inv, of "fr e"] live by auto
  let ?ys = "if pp_ref (pages s (fr e)) = 1 then fr e # xs else xs"
  have "pt_wf s1 S root ?ys"
    using pt_wfD(2) [OF wf] live s1(4,5)
    by (intro pt_wf_agree [OF wf]) (auto simp: agree_def)
  note lw = leaf_write [OF this va, of u "write_pte (u, PTX va) 0 s1" 0]
  have "page_remove (Some root) va s = Some (write_pte (u, PTX va) 0 s1)"
    using u(1) s1(1) by (simp add: page_remove_def)
  moreover have "page_inv (write_pte (u, PTX va) 0 s1) ?ys" using s1(2) by simp
  ultimately show ?thesis using lw u(2) s1(3-6)
    by (intro exI [of _ "write_pte (u, PTX va) 0 s1"] exI [of _ ?ys]) auto
qed

text \<open>The leaf write and the reference that end \<open>page_insert\<close>.\<close>

lemma insert_leaf:
  assumes inv: "page_inv s xs" and wf: "pt_wf s S root xs" and va: "PML4 va \<in> S"
    and u: "path (kmem s) root va 3 = Some u" and pp: "pp \<notin> set xs"
  shows "page_inv (incref pp (write_pte (u, PTX va) e s)) xs \<and>
    page_inv (write_pte (u, PTX va) e s) xs \<and>
    pt_wf (incref pp (write_pte (u, PTX va) e s)) S root xs \<and> pt_wf (write_pte (u, PTX va) e s) S root xs \<and>
    (\<forall>va'. PML4 va' \<in> S \<longrightarrow>
       pte_at ((kmem s)(u := (kmem s u)(PTX va := e))) root va' =
         (if same_page va va' then e else pte_at (kmem s) root va'))"
proof -
  note lw1 = leaf_write [OF wf va u, of "write_pte (u, PTX va) e s" e]
  note lw2 = leaf_write [OF wf va u, of "incref pp (write_pte (u, PTX va) e s)" e]
  have i: "page_inv (write_pte (u, PTX va) e s) xs" using inv by simp
  show ?thesis using lw1 lw2 page_inv_incref [OF i pp] inv by auto
qed

definition insert_post where
  "insert_post s xs S root pp va perm r s' ys \<longleftrightarrow>
     page_inv s' ys \<and> pt_wf s' S root ys \<and> npages s' = npages s \<and>
     (if r = 0 then
        (\<forall>va'. PML4 va' \<in> S \<longrightarrow> pte_at (kmem s') root va' =
           (if same_page va va' then page2pa pp OR (perm OR PTE_P) else pte_at (kmem s) root va')) \<and>
        pp_ref (pages s' pp) =
          (if pte_at (kmem s) root va AND PTE_P \<noteq> 0 \<and> fr (pte_at (kmem s) root va) = pp
           then pp_ref (pages s pp) else pp_ref (pages s pp) + 1)
      else r = - E_NO_MEM \<and> length xs < 3 \<and> pages s' pp = pages s pp \<and>
        (\<forall>va'. PML4 va' \<in> S \<longrightarrow> pte_at (kmem s') root va' = pte_at (kmem s) root va'))"

lemma page_insert_post:
  assumes inv: "page_inv s xs" and wf: "pt_wf s S root xs" and va: "PML4 va \<in> S"
    and pp: "pp \<notin> set xs"
    and old: "pte_at (kmem s) root va AND PTE_P \<noteq> 0 \<longrightarrow> live_page s S root xs (fr (pte_at (kmem s) root va))"
  shows "\<exists>r s' ys. page_insert (Some root) (Some pp) va perm s = Some (r, s') \<and>
    insert_post s xs S root pp va perm r s' ys"
proof (cases "path (kmem s) root va 3")
  case None
  then have z: "pte_at (kmem s) root va = 0" by (simp add: pte_at_def)
  obtain r s1 ys where w: "pml4e_walk (Some root) va True s = Some (r, s1)"
    "walk_post 0 s xs S root va r s1 ys"
    using pml4e_walk_post [OF inv wf va] by blast
  have w': "page_inv s1 ys" "set ys \<subseteq> set xs" "pt_wf s1 S root ys" "npages s1 = npages s"
    "pages s1 pp = pages s pp"
    "\<forall>va'. PML4 va' \<in> S \<longrightarrow> pte_at (kmem s1) root va' = pte_at (kmem s) root va'"
    using w(2) pp by (auto simp: walk_post_def)
  show ?thesis
  proof (cases r)
    case None
    with w(1) have "page_insert (Some root) (Some pp) va perm s = Some (- E_NO_MEM, s1)"
      by (simp add: page_insert_def)
    moreover have "length xs < 3" using w(2) None by (simp add: walk_post_def)
    ultimately show ?thesis using w' by (auto simp: insert_post_def)
  next
    case (Some p)
    with w(2) obtain u where p: "p = (u, PTX va)" "path (kmem s1) root va 3 = Some u"
      by (auto simp: walk_post_def prod_eq_iff)
    then have "read_pte s1 p = 0" using w'(6) va z pte_at_path [OF p(2)] by simp
    then have "page_insert (Some root) (Some pp) va perm s =
        Some (0, incref pp (write_pte p (page2pa pp OR (perm OR PTE_P)) s1))"
      using w(1) Some by (simp add: page_insert_def Let_def)
    moreover have "pp \<notin> set ys" using pp w'(2) by auto
    ultimately show ?thesis
      using insert_leaf [OF w'(1,3) va p(2), of pp "page2pa pp OR (perm OR PTE_P)"] w' z p(1)
      by (auto simp: insert_post_def)
  qed
next
  case (Some u)
  let ?e = "pte_at (kmem s) root va" and ?w = "page2pa pp OR (perm OR PTE_P)"
  note walk = pml4e_walk_exists [OF inv wf va Some]
  note leaf = insert_leaf [OF inv wf va Some pp, of ?w]
  have e: "kmem s u (PTX va) = ?e" using pte_at_path [OF Some] by simp
  consider (absent) "?e AND PTE_P = 0" | (again) "?e AND PTE_P \<noteq> 0" "fr ?e = pp"
    | (other) "?e AND PTE_P \<noteq> 0" "fr ?e \<noteq> pp" by blast
  then show ?thesis
  proof cases
    case absent
    then have "page_insert (Some root) (Some pp) va perm s = Some (0, incref pp (write_pte (u, PTX va) ?w s))"
      using walk e by (simp add: page_insert_def Let_def)
    with leaf absent show ?thesis by (auto simp: insert_post_def)
  next
    case again
    then have "page_insert (Some root) (Some pp) va perm s = Some (0, write_pte (u, PTX va) ?w s)"
      using walk e old
      by (simp add: page_insert_def Let_def live_page_def pa2page_def PPN_PTE_ADDR fr_eq_PPN)
    with leaf again show ?thesis by (auto simp: insert_post_def)
  next
    case other
    obtain s2 ys where s2: "page_remove (Some root) va s = Some s2" "page_inv s2 ys" "pt_wf s2 S root ys"
      "ys = (if pp_ref (pages s (fr ?e)) = 1 then fr ?e # xs else xs)"
      "npages s2 = npages s" "path (kmem s2) root va 3 = Some u" "pages s2 pp = pages s pp"
      "\<forall>va'. PML4 va' \<in> S \<longrightarrow> pte_at (kmem s2) root va' = (if same_page va va' then 0 else pte_at (kmem s) root va')"
      using page_remove_present [OF inv wf va refl other(1)] old other Some by auto
    have "page_insert (Some root) (Some pp) va perm s = Some (0, incref pp (write_pte (u, PTX va) ?w s2))"
      using walk e old other s2(1)
      by (simp add: page_insert_def Let_def live_page_def pa2page_def PPN_PTE_ADDR fr_eq_PPN)
    moreover have "pp \<notin> set ys" using pp other(2) s2(4) by auto
    ultimately show ?thesis
      using insert_leaf [OF s2(2,3) va s2(6), of pp ?w] s2 other by (auto simp: insert_post_def)
  qed
qed

section \<open>Properties\<close>

lemma perm_entry:
  assumes "p < npages s" "npages s \<le> 2 ^ 32" "perm < 0x1000"
  shows "fr (page2pa p OR (perm OR PTE_P)) = p" "(page2pa p OR (perm OR PTE_P)) AND PTE_P \<noteq> 0"
proof -
  have "unat perm < 2 ^ 12" using assms(3) by (simp add: word_less_nat_alt)
  then have "take_bit 12 (unat perm OR 1) = unat perm OR 1"
    by (simp only: take_bit_or take_bit_nat_eq_self_iff [THEN iffD2]) simp
  then have "unat perm OR 1 < 2 ^ 12" by (simp only: take_bit_nat_eq_self_iff)
  then have "perm OR PTE_P < 0x1000" by (simp add: word_less_nat_alt unsigned_or_eq)
  then show "fr (page2pa p OR (perm OR PTE_P)) = p"
    using assms PPN_or_low [of p "perm OR PTE_P"] by (simp add: fr_eq_PPN)
  have "bit ((page2pa p OR (perm OR PTE_P)) AND PTE_P) 0" by (simp add: bit_simps)
  then show "(page2pa p OR (perm OR PTE_P)) AND PTE_P \<noteq> 0" by force
qed

text \<open>The empty address space of the small machine: page 1 is its root.\<close>

lemma small_machine_wf: "pt_wf small_machine S 1 [2, 3, 4, 5]"
proof -
  have e: "ptab (kmem small_machine) S 1 (Suc k) = {}" for k by (auto simp: small_machine_def)
  have "ptab (kmem small_machine) S 1 k = (if k = 0 then {1} else {})" for k using e by (cases k) auto
  then show ?thesis unfolding pt_wf_def by (auto simp: small_machine_def)
qed

lemma pte_at_empty [simp]: "pte_at (\<lambda>_ _. 0) root va = 0"
  by (simp add: pte_at_def eval_nat_numeral)

text \<open>C3: \<open>page_insert\<close> either maps the page or runs out of pages for tables (possible only with
  fewer than three free pages).  After success \<open>page_lookup\<close> at the same address returns the page,
  every other address is mapped as before, and the reference count of the page grew by one unless
  the page was already mapped there; after failure no mapping has changed.  The allocator and page
  table invariants hold in both cases.\<close>

theorem page_insert_then_lookup:
  assumes "page_inv s xs" "pt_wf s S root xs" "PML4 va \<in> S" "pp \<notin> set xs" "pp < npages s" "perm < 0x1000"
    and "pte_at (kmem s) root va AND PTE_P \<noteq> 0 \<longrightarrow> live_page s S root xs (fr (pte_at (kmem s) root va))"
  shows "\<exists>r s' ys. page_insert (Some root) (Some pp) va perm s = Some (r, s') \<and>
    page_inv s' ys \<and> pt_wf s' S root ys \<and>
    (if r = 0 then
       (\<exists>pte. page_lookup (Some root) va s' = Some (Some pp, pte, s')) \<and>
       (\<forall>va'. PML4 va' \<in> S \<longrightarrow> pte_at (kmem s') root va' =
          (if same_page va va' then page2pa pp OR (perm OR PTE_P) else pte_at (kmem s) root va')) \<and>
       pp_ref (pages s' pp) =
         (if pte_at (kmem s) root va AND PTE_P \<noteq> 0 \<and> fr (pte_at (kmem s) root va) = pp
          then pp_ref (pages s pp) else pp_ref (pages s pp) + 1)
     else r = - E_NO_MEM \<and> length xs < 3 \<and>
       (\<forall>va'. PML4 va' \<in> S \<longrightarrow> pte_at (kmem s') root va' = pte_at (kmem s) root va'))"
proof -
  obtain r s' ys where ins: "page_insert (Some root) (Some pp) va perm s = Some (r, s')"
    and post: "insert_post s xs S root pp va perm r s' ys"
    using page_insert_post [OF assms(1-4,7)] by blast
  note p = post [unfolded insert_post_def]
  have n: "npages s' = npages s" "npages s \<le> 2 ^ 32" using p assms(1) by (auto simp: page_inv_def)
  note pe = perm_entry [OF assms(5) n(2) assms(6)]
  have "\<exists>pte. page_lookup (Some root) va s' = Some (Some pp, pte, s')" if "r = 0"
  proof -
    have e: "pte_at (kmem s') root va = page2pa pp OR (perm OR PTE_P)"
      using p that assms(3) by (simp add: same_page_def)
    have "page_inv s' ys" "pt_wf s' S root ys" using p by auto
    from page_lookup_present [OF this assms(3)] show ?thesis unfolding e using pe n assms(5) by auto
  qed
  with ins p show ?thesis by (auto split: if_splits)
qed

theorem page_insert_then_lookup_witness:
  "\<exists>s' ys pte. page_insert (Some 1) (Some 6) 0x800000 6 small_machine = Some (0, s') \<and> page_inv s' ys \<and>
     page_lookup (Some 1) 0x800000 s' = Some (Some 6, pte, s') \<and> pp_ref (pages s' 6) = 1"
proof -
  let ?s = small_machine
  have "\<exists>r s' ys. page_insert (Some 1) (Some 6) 0x800000 6 ?s = Some (r, s') \<and>
    page_inv s' ys \<and> pt_wf s' UNIV 1 ys \<and>
    (if r = 0 then
       (\<exists>pte. page_lookup (Some 1) 0x800000 s' = Some (Some 6, pte, s')) \<and>
       (\<forall>va'. PML4 va' \<in> UNIV \<longrightarrow> pte_at (kmem s') 1 va' =
          (if same_page 0x800000 va' then page2pa 6 OR (6 OR PTE_P) else pte_at (kmem ?s) 1 va')) \<and>
       pp_ref (pages s' 6) =
         (if pte_at (kmem ?s) 1 0x800000 AND PTE_P \<noteq> 0 \<and> fr (pte_at (kmem ?s) 1 0x800000) = 6
          then pp_ref (pages ?s 6) else pp_ref (pages ?s 6) + 1)
     else r = - E_NO_MEM \<and> length [2 :: nat, 3, 4, 5] < 3 \<and>
       (\<forall>va'. PML4 va' \<in> UNIV \<longrightarrow> pte_at (kmem s') 1 va' = pte_at (kmem ?s) 1 va'))"
    by (rule page_insert_then_lookup [OF small_machine_inv small_machine_wf])
      (simp_all add: small_machine_def)
  then show ?thesis by (auto simp: small_machine_def split: if_splits)
qed

text \<open>Page tables with one mapping: page 6 at 0x800000 through the tables 2, 3, 4 and 5.\<close>

definition one_mapping :: "nat \<Rightarrow> nat \<Rightarrow> u64" where
  "one_mapping f i =
     (if f = 2 \<and> i = 0 then 0x3007 else if f = 3 \<and> i = 0 then 0x4007
      else if f = 4 \<and> i = 4 then 0x5007 else if f = 5 \<and> i = 0 then 0x6007 else 0)"

lemma fr_num: "fr 0x3007 = 3" "fr 0x4007 = 4" "fr 0x5007 = 5" "fr 0x6007 = 6"
  by (simp_all add: fr_eq_PPN PPN_def drop_bit_eq_div)

lemma one_mapping_ptab:
  assumes "0 \<in> S"
  shows "ptab one_mapping S 2 0 = {2}" "ptab one_mapping S 2 (Suc 0) = {3}"
    "ptab one_mapping S 2 (Suc (Suc 0)) = {4}" "ptab one_mapping S 2 (Suc (Suc (Suc 0))) = {5}"
proof -
  show t0: "ptab one_mapping S 2 0 = {2}" by simp
  show t1: "ptab one_mapping S 2 (Suc 0) = {3}"
    unfolding ptab.simps(2) t0 using assms by (auto simp: one_mapping_def fr_num)
  show t2: "ptab one_mapping S 2 (Suc (Suc 0)) = {4}"
    unfolding ptab.simps(2) [of _ _ _ "Suc 0"] t1 by (auto simp: one_mapping_def fr_num)
  show "ptab one_mapping S 2 (Suc (Suc (Suc 0))) = {5}"
    unfolding ptab.simps(2) [of _ _ _ "Suc (Suc 0)"] t2 by (auto simp: one_mapping_def fr_num)
qed

lemma le_3: "k \<le> 3 \<longleftrightarrow> k = 0 \<or> k = Suc 0 \<or> k = Suc (Suc 0) \<or> k = Suc (Suc (Suc 0))"
    "k < 3 \<longleftrightarrow> k = 0 \<or> k = Suc 0 \<or> k = Suc (Suc 0)"
  by auto

lemma one_mapping_tables:
  assumes "0 \<in> S" "k \<le> 3"
  shows "ptab one_mapping S 2 k = {k + 2}"
  using assms(2) one_mapping_ptab [OF assms(1)] unfolding le_3 by auto

lemma one_mapping_slot: "one_mapping t i \<noteq> 0 \<Longrightarrow> i = (if t = 4 then 4 else 0)"
  unfolding one_mapping_def by (simp split: if_splits)

lemma one_mapping_wf:
  assumes "0 \<in> S" "kmem s = one_mapping" "8 \<le> npages s" "set xs \<inter> {2..5} = {}"
  shows "pt_wf s S 2 xs"
proof -
  note pt = one_mapping_tables [OF assms(1)]
  have "t = t' \<and> i = i'" if "k < 3" "t \<in> ptab one_mapping S 2 k" "t' \<in> ptab one_mapping S 2 k"
      "one_mapping t i \<noteq> 0" "one_mapping t' i' \<noteq> 0" for k t t' i i'
    using that pt [of k] one_mapping_slot [of t i] one_mapping_slot [of t' i'] by simp
  moreover have "t < npages s \<and> t \<notin> set xs" if "k \<le> 3" "t \<in> ptab one_mapping S 2 k" for k t
    using that assms(3,4) pt [of k] by auto
  moreover have "j = k" if "j \<le> 3" "k \<le> 3" "t \<in> ptab one_mapping S 2 j" "t \<in> ptab one_mapping S 2 k" for j k t
    using that pt [of k] pt [of j] by simp
  ultimately show ?thesis unfolding pt_wf_def assms(2) by blast
qed

lemma one_mapping_wf_empty:
  assumes "kmem s = one_mapping" "8 \<le> npages s" "1 \<notin> set xs"
  shows "pt_wf s S 1 xs"
proof -
  have "one_mapping 1 i = 0" for i by (simp add: one_mapping_def)
  then have "ptab one_mapping S 1 (Suc k) = {}" for k by (induction k) auto
  then have "ptab one_mapping S 1 k = (if k = 0 then {1} else {})" for k by (cases k) auto
  then show ?thesis unfolding pt_wf_def assms(1) using assms(2,3) \<open>\<And>i. one_mapping 1 i = 0\<close> by auto
qed

lemma index_num:
  "PML4 0x800000 = 0" "PDPE 0x800000 = 0" "PDX 0x800000 = 4" "PTX 0x800000 = 0"
  by (simp_all add: PML4_def PDPE_def PDX_def PTX_def drop_bit_eq_div)

lemma one_mapping_path: "path one_mapping 2 0x800000 3 = Some 5"
  unfolding numeral_3_eq_3 path.simps by (simp add: one_mapping_def fr_num index_num)

lemma one_mapping_pte: "pte_at one_mapping 2 0x800000 = 0x6007"
  by (simp add: pte_at_def one_mapping_path) (simp add: one_mapping_def index_num)

text \<open>\<open>page_remove\<close> of a mapped page removes that mapping and no other, drops the page's
  reference count by one, and returns the page to the free list exactly when this was the last
  reference.\<close>

theorem page_remove_unmaps:
  assumes "page_inv s xs" "pt_wf s S root xs" "PML4 va \<in> S"
    and "e = pte_at (kmem s) root va" "e AND PTE_P \<noteq> 0" "live_page s S root xs (fr e)"
  shows "\<exists>s' ys. page_remove (Some root) va s = Some s' \<and> page_inv s' ys \<and> pt_wf s' S root ys \<and>
    ys = (if pp_ref (pages s (fr e)) = 1 then fr e # xs else xs) \<and>
    pp_ref (pages s' (fr e)) = pp_ref (pages s (fr e)) - 1 \<and>
    (\<forall>q. q \<noteq> fr e \<longrightarrow> pages s' q = pages s q) \<and>
    (\<forall>va'. PML4 va' \<in> S \<longrightarrow>
       pte_at (kmem s') root va' = (if same_page va va' then 0 else pte_at (kmem s) root va'))"
  using page_remove_present [OF assms] by blast

definition mapped_machine :: pstate where
  "mapped_machine = \<lparr>npages = 8, pages = (\<lambda>p. \<lparr>pp_link = None, pp_ref = (if p = 6 then 1 else 0)\<rparr>),
     page_free_list = Some 7, nextfree = 0, kmem = one_mapping\<rparr>"

theorem page_remove_unmaps_witness:
  "\<exists>s'. page_remove (Some 2) 0x800000 mapped_machine = Some s' \<and> page_inv s' [6, 7] \<and>
     pte_at (kmem s') 2 0x800000 = 0"
proof -
  let ?s = mapped_machine
  have inv: "page_inv ?s [7]" by (simp add: mapped_machine_def page_inv_def)
  have wf: "pt_wf ?s {0} 2 [7]" by (rule one_mapping_wf) (simp_all add: mapped_machine_def)
  have k: "kmem ?s = one_mapping" by (simp add: mapped_machine_def)
  have "\<forall>k \<le> 3. 6 \<notin> ptab one_mapping {0} 2 k" using one_mapping_tables [of "{0}"] by auto
  then have live: "live_page ?s {0} 2 [7] (fr 0x6007)"
    by (simp add: live_page_def fr_num k) (simp add: mapped_machine_def)
  show ?thesis
    using page_remove_unmaps [where va = "0x800000", OF inv wf _ _ _ live]
    by (auto simp: index_num one_mapping_pte k fr_num same_page_def) (auto simp: mapped_machine_def fr_num)
qed

end
