(* ===== verification/Kern_Env.thy ===== *)
theory Kern_Env
  imports Kern_Pgtbl
begin

text \<open>
  Environments (processes) of \<^verbatim>\<open>kern/env.c\<close>: the \<open>envs\<close> table with its free list,
  \<open>envid2env\<close>, \<open>env_init\<close>, \<open>env_setup_vm\<close>, \<open>env_alloc\<close>, \<open>region_alloc\<close>, \<open>load_icode\<close>,
  \<open>env_create\<close>, \<open>env_free\<close>, \<open>env_pop_tf\<close>, \<open>env_run\<close>.

  The state extends that of the page tables by the table of environments (an index is a
  \<open>struct Env *\<close>), the per-CPU fields used here (\<open>cpu_env\<close>, that is \<open>curenv\<close>, and
  \<open>cpu_status\<close>), the CPU the code runs on, its \<open>cr3\<close> register and the big kernel lock
  (\<open>kernel_lock\<close> is the CPU that holds it).  The field \<open>elf\<close> of \<open>struct Env\<close> is only read by the
  debugger and is left out.
  A kernel pointer to a top-level page table is its frame number.  Loading the GDT and the
  segment registers (\<open>env_init_percpu\<close>) has no effect on this state.
\<close>

section \<open>Data\<close>

record push_regs =
  reg_r15 :: u64
  reg_r14 :: u64
  reg_r13 :: u64
  reg_r12 :: u64
  reg_r11 :: u64
  reg_r10 :: u64
  reg_r9 :: u64
  reg_r8 :: u64
  reg_rsi :: u64
  reg_rdi :: u64
  reg_rbp :: u64
  reg_rdx :: u64
  reg_rcx :: u64
  reg_rbx :: u64
  reg_rax :: u64

record trapframe =
  tf_regs :: push_regs
  tf_es :: u16
  tf_ds :: u16
  tf_trapno :: u64
  tf_err :: u64
  tf_rip :: u64
  tf_cs :: u16
  tf_eflags :: u64
  tf_rsp :: u64
  tf_ss :: u16

datatype env_kind = ENV_TYPE_USER | ENV_TYPE_FS | ENV_TYPE_NS

text \<open>Environment identifiers are 32-bit words, read as signed numbers where the code
  compares them; \<open>env_status\<close> is the \<open>unsigned\<close> of the structure.\<close>

type_synonym envid = u32

record env =
  env_tf :: trapframe
  env_link :: "nat option"
  env_id :: envid
  env_parent_id :: envid
  env_type :: env_kind
  env_status :: u32
  env_runs :: u32
  env_cpunum :: nat
  env_pml4e :: "nat option"
  env_cr3 :: u64
  env_pgfault_upcall :: u64
  env_ipc_recving :: bool
  env_ipc_dstva :: u64
  env_ipc_value :: u32
  env_ipc_from :: envid
  env_ipc_perm :: u32

record kstate = vstate +
  envs :: "nat \<Rightarrow> env"
  env_free_list :: "nat option"
  cpu_env :: "nat \<Rightarrow> nat option"
  cpu_status :: "nat \<Rightarrow> nat"
  cpunum :: nat
  cr3 :: u64
  kernel_lock :: "nat option"
  boot_pml4e :: nat
  boot_cr3 :: u64
  env_counter :: u32

abbreviation ENV_FREE :: u32 where "ENV_FREE \<equiv> 0"
abbreviation ENV_DYING :: u32 where "ENV_DYING \<equiv> 1"
abbreviation ENV_RUNNABLE :: u32 where "ENV_RUNNABLE \<equiv> 2"
abbreviation ENV_RUNNING :: u32 where "ENV_RUNNING \<equiv> 3"
abbreviation ENV_NOT_RUNNABLE :: u32 where "ENV_NOT_RUNNABLE \<equiv> 4"

abbreviation NENV :: nat where "NENV \<equiv> 1024"
abbreviation GD_UT :: u16 where "GD_UT \<equiv> 0x18"
abbreviation GD_UD :: u16 where "GD_UD \<equiv> 0x20"
abbreviation UXSTACKTOP :: u64 where "UXSTACKTOP \<equiv> 0xEF800000"
abbreviation USTACKTOP :: u64 where "USTACKTOP \<equiv> 0xEF7FE000"
abbreviation FL_IF :: u64 where "FL_IF \<equiv> 0x200"
abbreviation FL_IOPL_MASK :: u64 where "FL_IOPL_MASK \<equiv> 0x3000"
abbreviation ELF_MAGIC :: u32 where "ELF_MAGIC \<equiv> 0x464C457F"
abbreviation ELF_PROG_LOAD :: u32 where "ELF_PROG_LOAD \<equiv> 1"

definition zero_regs :: push_regs where
  "zero_regs = \<lparr>reg_r15 = 0, reg_r14 = 0, reg_r13 = 0, reg_r12 = 0, reg_r11 = 0, reg_r10 = 0,
     reg_r9 = 0, reg_r8 = 0, reg_rsi = 0, reg_rdi = 0, reg_rbp = 0, reg_rdx = 0, reg_rcx = 0,
     reg_rbx = 0, reg_rax = 0\<rparr>"

definition zero_tf :: trapframe where
  "zero_tf = \<lparr>tf_regs = zero_regs, tf_es = 0, tf_ds = 0, tf_trapno = 0, tf_err = 0, tf_rip = 0,
     tf_cs = 0, tf_eflags = 0, tf_rsp = 0, tf_ss = 0\<rparr>"

definition zero_env :: env where
  "zero_env = \<lparr>env_tf = zero_tf, env_link = None, env_id = 0, env_parent_id = 0,
     env_type = ENV_TYPE_USER, env_status = ENV_FREE, env_runs = 0, env_cpunum = 0,
     env_pml4e = None, env_cr3 = 0, env_pgfault_upcall = 0, env_ipc_recving = False,
     env_ipc_dstva = 0, env_ipc_value = 0, env_ipc_from = 0, env_ipc_perm = 0\<rparr>"

definition upd_env :: "nat \<Rightarrow> (env \<Rightarrow> env) \<Rightarrow> 'a kstate_scheme \<Rightarrow> 'a kstate_scheme" where
  "upd_env e f s = s\<lparr>envs := (envs s)(e := f (envs s e))\<rparr>"

abbreviation curenv :: "'a kstate_scheme \<Rightarrow> nat option" where
  "curenv s \<equiv> cpu_env s (cpunum s)"

definition set_curenv :: "nat option \<Rightarrow> 'a kstate_scheme \<Rightarrow> 'a kstate_scheme" where
  "set_curenv e s = s\<lparr>cpu_env := (cpu_env s)(cpunum s := e)\<rparr>"

definition ENVX :: "envid \<Rightarrow> nat" where
  "ENVX envid = unat (envid AND 0x3FF)"

section \<open>Looking up and initialising\<close>

text \<open>The result is the return code and \<open>*env_store\<close>.  Checking the permission without a
  current environment dereferences the null pointer: \<open>None\<close>.\<close>

definition envid2env :: "envid \<Rightarrow> bool \<Rightarrow> 'a kstate_scheme \<Rightarrow> (int \<times> nat option) option" where
  "envid2env envid checkperm s =
     (if envid = 0 then Some (0, curenv s)
      else
        let e = ENVX envid in
        if env_status (envs s e) = ENV_FREE \<or> env_id (envs s e) \<noteq> envid
        then Some (- E_BAD_ENV, None)
        else if checkperm \<and> Some e \<noteq> curenv s then do {
          c \<leftarrow> curenv s;
          if env_parent_id (envs s e) \<noteq> env_id (envs s c) then Some (- E_BAD_ENV, None)
          else Some (0, Some e) }
        else Some (0, Some e))"

fun env_init_loop :: "nat list \<Rightarrow> nat option \<Rightarrow> 'a kstate_scheme \<Rightarrow> 'a kstate_scheme" where
  "env_init_loop [] lst s = s"
| "env_init_loop (i # is) lst s =
     env_init_loop is (Some i)
       (case lst of Some l \<Rightarrow> upd_env l (env_link_update (\<lambda>_. Some i)) s
                  | None \<Rightarrow> s\<lparr>env_free_list := Some i\<rparr>)"

definition env_init :: "'a kstate_scheme \<Rightarrow> 'a kstate_scheme" where
  "env_init s = env_init_loop [0..<NENV] None
     (s\<lparr>envs := (\<lambda>i. if i < NENV then zero_env else envs s i)\<rparr>)"

definition env_setup_vm :: "nat \<Rightarrow> 'a kstate_scheme \<Rightarrow> (int \<times> 'a kstate_scheme) option" where
  "env_setup_vm e s = do {
     (pg, s1) \<leftarrow> page_alloc ALLOC_ZERO s;
     (case pg of
        None \<Rightarrow> Some (- E_NO_MEM, s1)
      | Some p \<Rightarrow> do {
          let s2 = incref p s1;
          kva \<leftarrow> page2kva s2 p;
          let s3 = upd_env e (\<lambda>v. v\<lparr>env_pml4e := Some (PPN (kva - KERNBASE)), env_cr3 := page2pa p\<rparr>) s2;
          let s4 = write_pte (p, 1) (kmem s3 (boot_pml4e s3) 1) s3;
          Some (0, write_pte (p, PML4 UVPT) (env_cr3 (envs s4 e) OR PTE_P OR PTE_W OR PTE_U) s4) }) }"

text \<open>\<open>new_envid\<close> is the computation of the identifier from the one last used in the slot.\<close>

definition new_envid :: "envid \<Rightarrow> nat \<Rightarrow> envid" where
  "new_envid old e =
     (let generation = (old + push_bit 12 1) AND NOT 0x3FF;
          generation' = (if sint generation \<le> 0 then push_bit 12 1 else generation)
      in generation' OR of_nat e)"

definition env_alloc ::
  "envid \<Rightarrow> 'a kstate_scheme \<Rightarrow> (int \<times> nat option \<times> 'a kstate_scheme) option" where
  "env_alloc parent_id s =
     (case env_free_list s of
        None \<Rightarrow> Some (- E_NO_FREE_ENV, None, s)
      | Some e \<Rightarrow> do {
          (r, s1) \<leftarrow> env_setup_vm e s;
          if r < 0 then Some (r, None, s1)
          else
            let tf = zero_tf\<lparr>tf_ds := GD_UD OR 3, tf_es := GD_UD OR 3, tf_ss := GD_UD OR 3,
                       tf_rsp := USTACKTOP, tf_cs := GD_UT OR 3\<rparr>;
                s2 = upd_env e (\<lambda>v. v\<lparr>
                       env_id := new_envid (env_id v) e,
                       env_parent_id := parent_id,
                       env_type := ENV_TYPE_USER,
                       env_status := ENV_RUNNABLE,
                       env_runs := 0,
                       env_tf := tf\<lparr>tf_eflags := tf_eflags tf OR FL_IF\<rparr>,
                       env_pgfault_upcall := 0,
                       env_ipc_recving := False\<rparr>) s1
            in Some (0, Some e, s2\<lparr>env_free_list := env_link (envs s2 e)\<rparr>) })"

section \<open>Loading a program\<close>

text \<open>The loop of \<open>region_alloc\<close>; the result of \<open>page_insert\<close> is not looked at.\<close>

fun region_alloc_loop :: "nat \<Rightarrow> nat option \<Rightarrow> u64 \<Rightarrow> 'a pstate_scheme \<Rightarrow> 'a pstate_scheme option" where
  "region_alloc_loop 0 pml4e temp s = Some s"
| "region_alloc_loop (Suc n) pml4e temp s = do {
     (pg, s1) \<leftarrow> page_alloc ALLOC_ZERO s;
     p \<leftarrow> pg;
     (r, s2) \<leftarrow> page_insert pml4e (Some p) temp (PTE_U OR PTE_P OR PTE_W) s1;
     region_alloc_loop n pml4e (temp + 4096) s2 }"

definition region_alloc :: "nat \<Rightarrow> u64 \<Rightarrow> u64 \<Rightarrow> 'a kstate_scheme \<Rightarrow> 'a kstate_scheme option" where
  "region_alloc e va len s =
     (let temp = va;
          lenDown = va - temp;
          temp' = (temp div 4096) * 4096;
          len' = len + lenDown;
          len'' = ((len' + 4096) div 4096) * 4096
      in region_alloc_loop (unat (len'' div 4096)) (env_pml4e (envs s e)) temp' s)"

text \<open>A store through a virtual address with the page table \<open>root\<close> in \<open>cr3\<close>: the frame and
  the byte of the final entry, or a page fault (\<open>None\<close>).  The kernel runs with write protection
  (\<open>CR0_WP\<close>), so the page must be writable.\<close>

definition set_byte :: "nat \<Rightarrow> u8 \<Rightarrow> u64 \<Rightarrow> u64" where
  "set_byte i b w = (w AND NOT (push_bit (8 * i) 0xFF)) OR push_bit (8 * i) (ucast b)"

definition user_store :: "nat \<Rightarrow> u64 \<Rightarrow> u8 \<Rightarrow> 'a pstate_scheme \<Rightarrow> 'a pstate_scheme option" where
  "user_store root va b s =
     (let pte = pte_at (kmem s) root va;
          f = fr pte;
          off = unat (va AND 0xFFF)
      in if pte AND PTE_P = 0 \<or> pte AND PTE_W = 0 \<or> f \<ge> npages s then None
         else Some (s\<lparr>kmem := (kmem s)(f := (kmem s f)(off div 8 := set_byte (off mod 8) b (kmem s f (off div 8))))\<rparr>))"

fun user_copy :: "nat \<Rightarrow> nat \<Rightarrow> u64 \<Rightarrow> (nat \<Rightarrow> u8) \<Rightarrow> 'a pstate_scheme \<Rightarrow> 'a pstate_scheme option" where
  "user_copy 0 root va src s = Some s"
| "user_copy (Suc n) root va src s = do {
     s1 \<leftarrow> user_store root va (src 0) s;
     user_copy n root (va + 1) (\<lambda>i. src (Suc i)) s1 }"

text \<open>The ELF image is a byte memory; the header and program header fields at their offsets.\<close>

definition rd16 :: "cmem \<Rightarrow> nat \<Rightarrow> u16" where
  "rd16 m a = ucast (m a) OR push_bit 8 (ucast (m (a + 1)))"

definition rd64 :: "cmem \<Rightarrow> nat \<Rightarrow> u64" where
  "rd64 m a = ucast (rd32 m a) OR push_bit 32 (ucast (rd32 m (a + 4)))"

fun load_segments :: "nat \<Rightarrow> nat \<Rightarrow> cmem \<Rightarrow> nat \<Rightarrow> 'a kstate_scheme \<Rightarrow> 'a kstate_scheme option" where
  "load_segments 0 e binary ph s = Some s"
| "load_segments (Suc n) e binary ph s = do {
     let p_offset = unat (rd64 binary (ph + 8));
     let p_va = rd64 binary (ph + 16);
     let p_filesz = rd64 binary (ph + 32);
     let p_memsz = rd64 binary (ph + 40);
     s' \<leftarrow> (if rd32 binary ph = ELF_PROG_LOAD \<and> p_filesz \<le> p_memsz then do {
              s1 \<leftarrow> region_alloc e p_va p_memsz s;
              root \<leftarrow> env_pml4e (envs s1 e);
              s2 \<leftarrow> user_copy (unat p_filesz) root p_va (\<lambda>i. binary (p_offset + i)) s1;
              user_copy (unat (p_memsz - p_filesz)) root (p_va + p_filesz) (\<lambda>_. 0) s2 }
            else Some s);
     load_segments n e binary (ph + 56) s' }"

definition load_icode :: "nat \<Rightarrow> cmem \<Rightarrow> 'a kstate_scheme \<Rightarrow> 'a kstate_scheme option" where
  "load_icode e binary s =
     (if rd32 binary 0 \<noteq> ELF_MAGIC then None
      else do {
        let ph = unat (rd64 binary 32);
        let phnum = unat (rd16 binary 56);
        let s1 = s\<lparr>cr3 := env_cr3 (envs s e)\<rparr>;
        s2 \<leftarrow> load_segments phnum e binary ph s1;
        s3 \<leftarrow> region_alloc e (USTACKTOP - 4096) 4096 s2;
        Some (upd_env e (\<lambda>v. v\<lparr>env_tf := (env_tf v)\<lparr>tf_rip := rd64 binary 24\<rparr>\<rparr>) s3) })"

definition env_create :: "cmem \<Rightarrow> env_kind \<Rightarrow> 'a kstate_scheme \<Rightarrow> 'a kstate_scheme option" where
  "env_create binary type s = do {
     (r, ne, s1) \<leftarrow> env_alloc 0 s;
     if r \<noteq> 0 then None
     else do {
       e \<leftarrow> ne;
       let s2 = upd_env e (\<lambda>v. v\<lparr>env_type := type\<rparr>) s1;
       let s3 = (if type = ENV_TYPE_FS
                 then upd_env e (\<lambda>v. v\<lparr>env_tf := (env_tf v)\<lparr>tf_eflags := tf_eflags (env_tf v) OR FL_IOPL_MASK\<rparr>\<rparr>) s2
                 else s2);
       load_icode e binary s3 } }"

section \<open>Freeing and running\<close>

definition PGADDR :: "u64 \<Rightarrow> u64 \<Rightarrow> u64 \<Rightarrow> u64 \<Rightarrow> u64 \<Rightarrow> u64" where
  "PGADDR m p d t off = push_bit 39 m OR push_bit 30 p OR push_bit 21 d OR push_bit 12 t OR off"

text \<open>The three nested loops of \<open>env_free\<close>: entries of a page table, page tables of a page
  directory, page directories.  \<open>pml4\<close> is \<open>e->env_pml4e\<close>.\<close>

fun free_ptes :: "nat list \<Rightarrow> nat \<Rightarrow> nat \<Rightarrow> nat \<Rightarrow> nat \<Rightarrow> 'a pstate_scheme \<Rightarrow> 'a pstate_scheme option" where
  "free_ptes [] pml4 pdpe_index pdeno pt s = Some s"
| "free_ptes (pteno # ns) pml4 pdpe_index pdeno pt s = do {
     s1 \<leftarrow> (if kmem s pt pteno AND PTE_P \<noteq> 0
            then page_remove (Some pml4) (PGADDR 0 (of_nat pdpe_index) (of_nat pdeno) (of_nat pteno) 0) s
            else Some s);
     free_ptes ns pml4 pdpe_index pdeno pt s1 }"

fun free_pdes :: "nat list \<Rightarrow> nat \<Rightarrow> nat \<Rightarrow> nat \<Rightarrow> 'a pstate_scheme \<Rightarrow> 'a pstate_scheme option" where
  "free_pdes [] pml4 pdpe_index pgdir s = Some s"
| "free_pdes (pdeno # ns) pml4 pdpe_index pgdir s =
     (if kmem s pgdir pdeno AND PTE_P = 0 then free_pdes ns pml4 pdpe_index pgdir s
      else do {
        let pa = PTE_ADDR (kmem s pgdir pdeno);
        pt \<leftarrow> table_of s (kmem s pgdir pdeno);
        s1 \<leftarrow> free_ptes [0..<511] pml4 pdpe_index pdeno pt s;
        let s2 = write_pte (pgdir, pdeno) 0 s1;
        pg \<leftarrow> pa2page s2 pa;
        s3 \<leftarrow> page_decref pg s2;
        free_pdes ns pml4 pdpe_index pgdir s3 })"

definition pdeno_limit :: "nat \<Rightarrow> nat" where
  "pdeno_limit pdpe_index = (if pdpe_index = 3 then PDX UTOP else PDX 0xFFFFFFFF)"

fun free_pdpes :: "nat list \<Rightarrow> nat \<Rightarrow> nat \<Rightarrow> 'a pstate_scheme \<Rightarrow> 'a pstate_scheme option" where
  "free_pdpes [] pml4 pdpe s = Some s"
| "free_pdpes (i # ns) pml4 pdpe s =
     (if kmem s pdpe i AND PTE_P = 0 then free_pdpes ns pml4 pdpe s
      else do {
        pgdir \<leftarrow> table_of s (kmem s pdpe i);
        s1 \<leftarrow> free_pdes [0..<pdeno_limit i] pml4 i pgdir s;
        let pa = PTE_ADDR (kmem s1 pdpe i);
        let s2 = write_pte (pdpe, i) 0 s1;
        pg \<leftarrow> pa2page s2 pa;
        s3 \<leftarrow> page_decref pg s2;
        free_pdpes ns pml4 pdpe s3 })"

definition env_free_vm :: "nat \<Rightarrow> u64 \<Rightarrow> 'a pstate_scheme \<Rightarrow> 'a pstate_scheme option" where
  "env_free_vm pml4 root_pa s = do {
     pdpe \<leftarrow> table_of s (kmem s pml4 0);
     s1 \<leftarrow> free_pdpes [0, 1, 2, 3] pml4 pdpe s;
     pg \<leftarrow> pa2page s1 (PTE_ADDR (kmem s1 pml4 0));
     s2 \<leftarrow> page_decref pg s1;
     let s3 = write_pte (pml4, 0) 0 s2;
     root \<leftarrow> pa2page s3 root_pa;
     page_decref root s3 }"

definition env_free :: "nat \<Rightarrow> 'a kstate_scheme \<Rightarrow> 'a kstate_scheme option" where
  "env_free e s = do {
     let s1 = (if Some e = curenv s then s\<lparr>cr3 := boot_cr3 s\<rparr> else s);
     pml4 \<leftarrow> env_pml4e (envs s1 e);
     s2 \<leftarrow> env_free_vm pml4 (env_cr3 (envs s1 e)) s1;
     let s3 = upd_env e (\<lambda>v. v\<lparr>env_pml4e := None, env_cr3 := 0, env_status := ENV_FREE,
                env_link := env_free_list s2\<rparr>) s2;
     Some (s3\<lparr>env_free_list := Some e\<rparr>) }"

text \<open>\<open>env_pop_tf\<close> leaves the kernel: the state is the one at the \<open>iretq\<close> that enters user
  mode with the registers of \<open>curenv\<close>.\<close>

definition env_pop_tf :: "'a kstate_scheme \<Rightarrow> 'a kstate_scheme option" where
  "env_pop_tf s = do { c \<leftarrow> curenv s; Some (upd_env c (\<lambda>v. v\<lparr>env_cpunum := cpunum s\<rparr>) s) }"

text \<open>\<open>spin_unlock\<close> panics when the lock is not held by this CPU.\<close>

definition unlock_kernel :: "'a kstate_scheme \<Rightarrow> 'a kstate_scheme option" where
  "unlock_kernel s = (if kernel_lock s = Some (cpunum s) then Some (s\<lparr>kernel_lock := None\<rparr>) else None)"

definition env_run :: "nat \<Rightarrow> 'a kstate_scheme \<Rightarrow> 'a kstate_scheme option" where
  "env_run e s =
     (if curenv s = Some e then do {
        s1 \<leftarrow> unlock_kernel (upd_env e (\<lambda>v. v\<lparr>env_runs := env_runs v + 1\<rparr>) s);
        env_pop_tf s1 }
      else do {
        let s1 = (case curenv s of
                    None \<Rightarrow> s
                  | Some c \<Rightarrow> if env_status (envs s c) = ENV_RUNNING
                              then upd_env c (\<lambda>v. v\<lparr>env_status := ENV_RUNNABLE\<rparr>) s else s);
        let s2 = set_curenv (Some e) s1;
        let s3 = upd_env e (\<lambda>v. v\<lparr>env_status := ENV_RUNNING, env_runs := env_runs v + 1\<rparr>) s2;
        s4 \<leftarrow> unlock_kernel s3;
        env_pop_tf (s4\<lparr>cr3 := env_cr3 (envs s4 e)\<rparr>) })"

section \<open>Identifiers\<close>

lemma unat_u32_less: "unat (x :: u32) < 2 ^ 32"
  using unsigned_less [of x, where ?'a = nat] by simp

lemma and_not_3FF: "unat (x AND NOT 0x3FF :: u32) = unat x div 1024 * 1024"
proof -
  have "x AND NOT 0x3FF = x AND NOT (mask 10)" by (simp add: mask_eq_exp_minus_1)
  also have "\<dots> = push_bit 10 (drop_bit 10 x)"
    by (rule bit_word_eqI) (auto simp: bit_simps)
  finally have "x AND NOT 0x3FF = push_bit 10 (drop_bit 10 x)" .
  moreover have "unat x div 1024 * 1024 < 2 ^ 32"
    using unat_u32_less [of x] by (rule order_le_less_trans [OF div_times_less_eq_dividend])
  moreover have "unat (push_bit 10 (drop_bit 10 x)) = take_bit 32 (push_bit 10 (drop_bit 10 (unat x)))"
    by (simp only: unsigned_push_bit_eq unsigned_drop_bit_eq) (simp add: take_bit_nat_eq_self unat_u32_less [simplified])
  ultimately show ?thesis
    by (simp only: push_bit_eq_mult drop_bit_eq_div) (simp add: take_bit_nat_eq_self)
qed

lemma and_3FF: "unat (x AND 0x3FF :: u32) = unat x mod 1024"
proof -
  have "x AND 0x3FF = take_bit 10 x" by (simp add: take_bit_eq_mask mask_eq_exp_minus_1)
  then have "unat (x AND 0x3FF) = take_bit 10 (unat x)" by (simp only: unsigned_take_bit_eq)
  then show ?thesis by (simp add: take_bit_eq_mod)
qed

lemma ENVX_eq: "ENVX i = unat i mod 1024"
  by (simp add: ENVX_def and_3FF)

lemma sint_pos_iff: "0 < sint (x :: u32) \<longleftrightarrow> 0 < unat x \<and> unat x < 2 ^ 31"
proof -
  have r: "0 \<le> uint x" "uint x < 2 ^ 32" using uint_range_size [of x] by (simp_all add: word_size)
  have s: "sint x = (uint x + 2 ^ 31) mod 2 ^ 32 - 2 ^ 31"
    using signed_take_bit_eq_take_bit_shift [of 31 "uint x"] sint_uint [of x]
    by (simp only: take_bit_eq_mod) simp
  define n where "n = unat x"
  have u: "uint x = int n" by (simp add: n_def)
  have "(int n + 2 ^ 31) mod 2 ^ 32 = (if n < 2 ^ 31 then int n + 2 ^ 31 else int n - 2 ^ 31)"
    using r(2) mod_pos_geq [of "2 ^ 32" "int n + 2 ^ 31"] unfolding u by simp
  then have "0 < sint x \<longleftrightarrow> 0 < n \<and> n < 2 ^ 31" using r s unfolding u by auto
  then show ?thesis by (simp only: n_def)
qed

text \<open>An identifier is the generation, a multiple of \<open>NENV\<close>, plus the index.\<close>

lemma or_index: "g mod 1024 = 0 \<Longrightarrow> g < 2 ^ 32 \<Longrightarrow> e < 1024 \<Longrightarrow>
   unat ((of_nat g :: u32) OR of_nat e) = g + e"
proof -
  assume g: "g mod 1024 = 0" "g < 2 ^ 32" and e: "e < 1024"
  then obtain k where k: "g = push_bit 10 k"
    by (auto simp: push_bit_eq_mult mult.commute elim!: dvdE simp: mod_eq_0_iff_dvd)
  have "g OR e = g + e"
  proof (rule disjunctive_add [symmetric])
    fix n show "\<not> bit g n \<or> \<not> bit e n"
    proof (cases "n < 10")
      case True then show ?thesis by (simp add: k bit_push_bit_iff)
    next
      case False
      have "e = take_bit 10 e" using e by (simp add: take_bit_nat_eq_self)
      then have "\<not> bit e n" using False by (metis bit_take_bit_iff)
      then show ?thesis ..
    qed
  qed
  moreover have "g + e < 2 ^ 32"
  proof -
    have "g div 1024 < 2 ^ 22" using g(2) by (simp add: less_mult_imp_div_less)
    then have "g div 1024 * 1024 \<le> (2 ^ 22 - 1) * 1024" by (intro mult_right_mono) simp_all
    moreover have "g = g div 1024 * 1024" using g(1) by auto
    ultimately show ?thesis using e by simp
  qed
  ultimately show ?thesis
    using g e by (simp add: unsigned_or_eq unsigned_of_nat take_bit_nat_eq_self)
qed

definition gen_of :: "nat \<Rightarrow> nat" where
  "gen_of old = (let g = ((old + 4096) mod 2 ^ 32) div 1024 * 1024
     in if 0 < g \<and> g < 2 ^ 31 then g else 4096)"

lemma gen_of_props: "gen_of old mod 1024 = 0" "0 < gen_of old" "gen_of old < 2 ^ 31"
  by (simp_all add: gen_of_def Let_def)

lemma unat_new_envid: "e < NENV \<Longrightarrow> unat (new_envid old e) = gen_of (unat old) + e"
proof -
  assume e: "e < NENV"
  let ?g = "(old + push_bit 12 1) AND NOT 0x3FF"
  have p: "push_bit 12 1 = (4096 :: u32)" by simp
  have g: "unat ?g = ((unat old + 4096) mod 2 ^ 32) div 1024 * 1024"
    unfolding p and_not_3FF by (simp add: unat_word_ariths)
  have "(if sint ?g \<le> 0 then push_bit 12 1 else ?g) = of_nat (gen_of (unat old))"
  proof (cases "0 < sint ?g")
    case True
    then have "gen_of (unat old) = unat ?g" using g by (simp add: sint_pos_iff gen_of_def Let_def)
    then have "of_nat (gen_of (unat old)) = ?g" by simp
    with True show ?thesis by simp
  next
    case False
    then have "gen_of (unat old) = 4096" using g by (auto simp: sint_pos_iff gen_of_def Let_def)
    with False show ?thesis by simp
  qed
  then have "new_envid old e = of_nat (gen_of (unat old)) OR of_nat e"
    by (simp only: new_envid_def Let_def)
  with or_index [of "gen_of (unat old)" e] gen_of_props [of "unat old"] e show ?thesis by simp
qed

lemma gen_of_fresh: "e < 1024 \<Longrightarrow> gen_of old + e \<noteq> old"
proof
  assume e: "e < 1024" and eq: "gen_of old + e = old"
  have g: "gen_of old mod 1024 = 0" "gen_of old < 2 ^ 31" by (rule gen_of_props)+
  then obtain k where k: "gen_of old = 1024 * k" by auto
  define X where "X = ((old + 4096) mod 2 ^ 32) div 1024 * 1024"
  have "old + 4096 < 2 ^ 32" using eq e g by simp
  then have "X = (old + 4096) div 1024 * 1024" by (simp add: X_def)
  moreover have "old + 4096 = 1024 * (k + 4) + e" using eq k by simp
  moreover have "(1024 * (k + 4) + e) div 1024 = k + 4" using e by (simp only: div_mult_self4 div_less)
  ultimately have X: "X = gen_of old + 4096" using k by simp
  have "gen_of old = (if 0 < X \<and> X < 2 ^ 31 then X else 4096)" by (simp add: gen_of_def X_def Let_def)
  with X show False by (auto split: if_splits)
qed

lemma new_envid_pos: "e < NENV \<Longrightarrow> 0 < sint (new_envid old e)"
proof -
  assume e: "e < NENV"
  obtain k where k: "gen_of (unat old) = 1024 * k" using gen_of_props(1) by auto
  have "1024 * k < 1024 * 2 ^ 21" using gen_of_props(3) [of "unat old"] k by simp
  then have "k + 1 \<le> 2 ^ 21" by simp
  then have "gen_of (unat old) + e < 2 ^ 31" using k e by simp
  with unat_new_envid [OF e] gen_of_props(2) show ?thesis by (simp add: sint_pos_iff)
qed

lemma new_envid_index: "e < NENV \<Longrightarrow> ENVX (new_envid old e) = e"
proof -
  assume e: "e < NENV"
  obtain k where "gen_of (unat old) = 1024 * k" using gen_of_props(1) by auto
  with e show ?thesis by (simp add: ENVX_eq unat_new_envid)
qed

lemma new_envid_fresh: "e < NENV \<Longrightarrow> new_envid old e \<noteq> old"
  using unat_new_envid [of e old] gen_of_fresh [of e "unat old"] by auto

lemma new_envid_nonzero: "e < NENV \<Longrightarrow> new_envid old e \<noteq> 0"
  using new_envid_pos [of e old] by auto

section \<open>What page operations leave alone\<close>

text \<open>Page and page-table operations are defined on every extension of the allocator's state and
  change none of its further fields.\<close>

named_theorems more_frame

lemma more_updates [simp]:
  "pstate.more (set_link p l s) = pstate.more s" "pstate.more (set_ref p r s) = pstate.more s"
  "pstate.more (incref p s) = pstate.more s" "pstate.more (zero_frame f s) = pstate.more s"
  "pstate.more (write_pte pt e s) = pstate.more s"
  by (simp_all add: set_link_def set_ref_def incref_def zero_frame_def write_pte_def)

lemma page_alloc_more [more_frame]: "page_alloc fl s = Some (r, s') \<Longrightarrow> pstate.more s' = pstate.more s"
  by (auto dest!: page_alloc_cases split: option.splits if_splits)

lemma page_free_more [more_frame]: "page_free p s = Some s' \<Longrightarrow> pstate.more s' = pstate.more s"
  by (auto simp: page_free_def insertAtBegining_def split: if_splits option.splits)

lemma page_decref_more [more_frame]: "page_decref p s = Some s' \<Longrightarrow> pstate.more s' = pstate.more s"
  by (auto simp: page_decref_def Let_def split: if_splits dest: page_free_more)

lemma pgdir_walk_more [more_frame]: "pgdir_walk d va c s = Some (r, s') \<Longrightarrow> pstate.more s' = pstate.more s"
  by (auto simp: pgdir_walk_def Let_def split: option.splits if_splits bind_splits dest!: page_alloc_more)

lemma pdpe_walk_more [more_frame]: "pdpe_walk d va c s = Some (r, s') \<Longrightarrow> pstate.more s' = pstate.more s"
  by (auto simp: pdpe_walk_def Let_def split: option.splits if_splits bind_splits
      dest!: page_alloc_more pgdir_walk_more page_decref_more)

lemma pml4e_walk_more [more_frame]: "pml4e_walk d va c s = Some (r, s') \<Longrightarrow> pstate.more s' = pstate.more s"
  by (auto simp: pml4e_walk_def Let_def split: option.splits if_splits bind_splits
      dest!: page_alloc_more pdpe_walk_more page_decref_more)

lemma page_lookup_more [more_frame]: "page_lookup d va s = Some (pg, p, s') \<Longrightarrow> pstate.more s' = pstate.more s"
  by (auto simp: page_lookup_def split: option.splits if_splits bind_splits dest!: pml4e_walk_more)

lemma page_remove_more [more_frame]: "page_remove d va s = Some s' \<Longrightarrow> pstate.more s' = pstate.more s"
  by (auto simp: page_remove_def split: option.splits if_splits bind_splits
      dest!: page_lookup_more page_decref_more)

lemma page_insert_more [more_frame]:
  "page_insert d p va perm s = Some (r, s') \<Longrightarrow> pstate.more s' = pstate.more s"
  by (auto simp: page_insert_def Let_def split: option.splits if_splits bind_splits
      dest!: pml4e_walk_more page_remove_more)

lemma free_ptes_more [more_frame]: "free_ptes ns m i d pt s = Some s' \<Longrightarrow> pstate.more s' = pstate.more s"
  by (induction ns arbitrary: s) (auto split: if_splits bind_splits dest!: page_remove_more)

lemma free_pdes_more [more_frame]: "free_pdes ns m i d s = Some s' \<Longrightarrow> pstate.more s' = pstate.more s"
proof (induction ns arbitrary: s)
  case (Cons n ns)
  from Cons.prems show ?case
    by (auto simp: Let_def simp del: upt_Suc split: if_splits bind_splits
        dest!: Cons.IH free_ptes_more page_decref_more)
qed simp

lemma free_pdpes_more [more_frame]: "free_pdpes ns m d s = Some s' \<Longrightarrow> pstate.more s' = pstate.more s"
proof (induction ns arbitrary: s)
  case (Cons n ns)
  from Cons.prems show ?case
    by (auto simp: Let_def simp del: upt_Suc split: if_splits bind_splits
        dest!: Cons.IH free_pdes_more page_decref_more)
qed simp

lemma env_free_vm_more [more_frame]: "env_free_vm m pa s = Some s' \<Longrightarrow> pstate.more s' = pstate.more s"
  by (auto simp: env_free_vm_def Let_def simp del: free_pdpes.simps split: bind_splits dest!: free_pdpes_more page_decref_more)

lemma more_kstate:
  assumes "pstate.more s' = pstate.more s"
  shows "envs s' = envs s" "env_free_list s' = env_free_list s" "cpu_env s' = cpu_env s"
    "cpu_status s' = cpu_status s" "cpunum s' = cpunum s" "cr3 s' = cr3 s"
    "kernel_lock s' = kernel_lock s" "boot_pml4e s' = boot_pml4e s" "boot_cr3 s' = boot_cr3 s"
    "env_counter s' = env_counter s"
  using assms by (cases s, cases s', simp)+

section \<open>The table of environments\<close>

abbreviation env_next :: "'a kstate_scheme \<Rightarrow> nat \<Rightarrow> nat option" where
  "env_next s \<equiv> (\<lambda>e. env_link (envs s e))"

text \<open>\<open>env_inv s fs\<close>: the free list is \<open>fs\<close>, it holds exactly the free entries of the table, and
  an entry in use has an identifier of its slot.\<close>

definition env_inv :: "'a kstate_scheme \<Rightarrow> nat list \<Rightarrow> bool" where
  "env_inv s fs \<longleftrightarrow> chain (env_next s) (env_free_list s) fs \<and>
     (\<forall>e < NENV. e \<in> set fs \<longleftrightarrow> env_status (envs s e) = ENV_FREE) \<and> (\<forall>e \<in> set fs. e < NENV) \<and>
     (\<forall>e < NENV. env_status (envs s e) \<noteq> ENV_FREE \<longrightarrow>
        ENVX (env_id (envs s e)) = e \<and> 0 < sint (env_id (envs s e)))"

lemma upd_env_simps [simp]:
  "envs (upd_env e f s) i = (if i = e then f (envs s e) else envs s i)"
  "env_free_list (upd_env e f s) = env_free_list s" "cpu_env (upd_env e f s) = cpu_env s"
  "cpunum (upd_env e f s) = cpunum s" "cr3 (upd_env e f s) = cr3 s"
  "kernel_lock (upd_env e f s) = kernel_lock s" "cpu_status (upd_env e f s) = cpu_status s"
  "boot_pml4e (upd_env e f s) = boot_pml4e s" "boot_cr3 (upd_env e f s) = boot_cr3 s"
  "env_counter (upd_env e f s) = env_counter s"
  by (simp_all add: upd_env_def)

lemma upd_env_pstate [simp]:
  "page_free_list (upd_env e f s) = page_free_list s" "npages (upd_env e f s) = npages s"
  "pages (upd_env e f s) = pages s" "kmem (upd_env e f s) = kmem s"
  "page_inv (upd_env e f s) xs = page_inv s xs"
  by (simp_all add: upd_env_def page_inv_def)

lemmas write_pte_kstate [simp] = more_kstate [OF more_updates(5)]
lemmas incref_kstate [simp] = more_kstate [OF more_updates(3)]
lemmas set_ref_kstate [simp] = more_kstate [OF more_updates(2)]

lemma kstate_pstate [simp]:
  "page_inv (s\<lparr>env_free_list := x\<rparr>) xs = page_inv s xs"
  "page_inv (s\<lparr>cr3 := c\<rparr>) xs = page_inv s xs"
  by (simp_all add: page_inv_def)

lemma env_init_loop_list:
  "env_free_list (env_init_loop [a..<a + k] lst s) =
     (if lst = None \<and> 0 < k then Some a else env_free_list s)"
proof (induction k arbitrary: a lst s)
  case (Suc k)
  have "[a..<a + Suc k] = a # [Suc a..<Suc a + k]" by (simp add: upt_conv_Cons)
  then show ?case
    using Suc.IH [of "Suc a" "Some a"] by (auto simp del: upt_Suc split: option.splits)
qed simp

lemma env_init_loop_envs:
  "(\<forall>l. lst = Some l \<longrightarrow> l < a) \<Longrightarrow>
   envs (env_init_loop [a..<a + k] lst s) q =
     (if a \<le> q \<and> Suc q < a + k then (envs s q)\<lparr>env_link := Some (Suc q)\<rparr>
      else if lst = Some q \<and> 0 < k then (envs s q)\<lparr>env_link := Some a\<rparr> else envs s q)"
proof (induction k arbitrary: a lst s)
  case (Suc k)
  define s1 where "s1 = (case lst of Some l \<Rightarrow> upd_env l (env_link_update (\<lambda>_. Some a)) s
                  | None \<Rightarrow> s\<lparr>env_free_list := Some a\<rparr>)"
  have s1: "envs s1 q = (if lst = Some q then (envs s q)\<lparr>env_link := Some a\<rparr> else envs s q)"
    by (simp add: s1_def split: option.split)
  have "[a..<a + Suc k] = a # [Suc a..<Suc a + k]" by (simp add: upt_conv_Cons)
  then have "envs (env_init_loop [a..<a + Suc k] lst s) q = envs (env_init_loop [Suc a..<Suc a + k] (Some a) s1) q"
    by (simp add: s1_def del: upt_Suc)
  also have "\<dots> = (if Suc a \<le> q \<and> Suc q < Suc a + k then (envs s1 q)\<lparr>env_link := Some (Suc q)\<rparr>
      else if Some a = Some q \<and> 0 < k then (envs s1 q)\<lparr>env_link := Some (Suc a)\<rparr> else envs s1 q)"
    by (rule Suc.IH) simp
  finally show ?case
    using Suc.prems unfolding s1
    by (cases "lst = Some q"; cases "q = a"; cases "Suc a \<le> q \<and> Suc q < Suc a + k") auto
qed auto

text \<open>\<open>env_init\<close> frees every slot, in order.\<close>

lemma env_init_inv: "env_inv (env_init s) [0..<NENV]"
proof -
  let ?s = "s\<lparr>envs := (\<lambda>i. if i < NENV then zero_env else envs s i)\<rparr>"
  have l: "env_free_list (env_init s) = Some 0"
    using env_init_loop_list [of 0 NENV None ?s] by (simp add: env_init_def del: upt_Suc upt_rec_numeral)
  have v: "envs (env_init s) q = (if Suc q < NENV then zero_env\<lparr>env_link := Some (Suc q)\<rparr>
      else if q < NENV then zero_env else envs s q)" for q
    using env_init_loop_envs [of None 0 NENV ?s q] by (simp add: env_init_def del: upt_Suc upt_rec_numeral)
  have "chain (env_next (env_init s)) (Some 0) ([0..<NENV] @ []) = chain (env_next (env_init s)) (env_next (env_init s) (NENV - 1)) []"
    by (rule chain_upt) (simp_all add: v)
  then have "chain (env_next (env_init s)) (Some 0) [0..<NENV]"
    by (simp add: v zero_env_def del: upt_Suc upt_rec_numeral)
  with l show ?thesis by (auto simp: env_inv_def v zero_env_def simp del: upt_Suc upt_rec_numeral)
qed

lemma env_setup_vm_spec:
  assumes "page_inv s (p # xs)"
  shows "\<exists>s'. env_setup_vm e s = Some (0, s') \<and> page_inv s' xs \<and> npages s' = npages s \<and>
    pages s' p = \<lparr>pp_link = None, pp_ref = 1\<rparr> \<and> (\<forall>q. q \<noteq> p \<longrightarrow> pages s' q = pages s q) \<and>
    (\<forall>f. f \<noteq> p \<longrightarrow> kmem s' f = kmem s f) \<and>
    kmem s' p = (\<lambda>i. if i = PML4 UVPT then page2pa p OR PTE_P OR PTE_W OR PTE_U
                     else if i = 1 then (if boot_pml4e s = p then 0 else kmem s (boot_pml4e s) 1) else 0) \<and>
    envs s' = (envs s)(e := (envs s e)\<lparr>env_pml4e := Some p, env_cr3 := page2pa p\<rparr>) \<and>
    env_free_list s' = env_free_list s \<and> cpu_env s' = cpu_env s \<and> cpunum s' = cpunum s"
proof -
  have p: "p \<notin> set xs" "p < npages s" "npages s \<le> 2 ^ 32" "pp_ref (pages s p) = 0"
    using assms chain_distinct [of _ _ "p # xs"] by (fastforce simp: page_inv_def simp del: chain.simps)+
  obtain s1 where s1: "page_alloc ALLOC_ZERO s = Some (Some p, s1)" "page_inv s1 xs"
    "pages s1 = (pages s)(p := (pages s p)\<lparr>pp_link := None\<rparr>)" "kmem s1 = (kmem s)(p := (\<lambda>_. 0))"
    "npages s1 = npages s"
    using page_alloc_Some [OF assms, of ALLOC_ZERO] by auto
  note m = more_kstate [OF page_alloc_more [OF s1(1)]]
  have k: "page2kva (incref p s1) p = Some (page2pa p + KERNBASE)"
    using p s1(5) by (simp add: page2kva_def KADDR_page2pa)
  have pp: "PPN (page2pa p) = p" using p by (intro PPN_page2pa) simp
  have i: "page_inv (incref p s1) xs" using s1(2) p(1) by (rule page_inv_incref)
  have U: "PML4 UVPT = 2" by (simp add: PML4_def)
  define s3 where "s3 = upd_env e (\<lambda>v. v\<lparr>env_pml4e := Some p, env_cr3 := page2pa p\<rparr>) (incref p s1)"
  define s5 where "s5 = write_pte (p, 2) (page2pa p OR PTE_P OR PTE_W OR PTE_U)
    (write_pte (p, 1) (kmem s3 (boot_pml4e s3) 1) s3)"
  have "env_setup_vm e s = Some (0, s5)"
    using s1(1) k pp by (simp add: env_setup_vm_def Let_def U s5_def s3_def)
  moreover have "page_inv s5 xs" using i by (simp add: s5_def s3_def)
  ultimately show ?thesis
    using s1(3-5) p(4) m unfolding s5_def U by (auto simp: s3_def fun_eq_iff)
qed

section \<open>Allocation and release of environments\<close>

lemma env_alloc_spec:
  assumes "env_free_list s = Some e" "page_inv s (p # xs)"
  shows "\<exists>s'. env_alloc parent s = Some (0, Some e, s') \<and> page_inv s' xs \<and> npages s' = npages s \<and>
    env_free_list s' = env_link (envs s e) \<and> cpu_env s' = cpu_env s \<and> cpunum s' = cpunum s \<and>
    (\<forall>i. i \<noteq> e \<longrightarrow> envs s' i = envs s i) \<and>
    env_link (envs s' e) = env_link (envs s e) \<and> env_id (envs s' e) = new_envid (env_id (envs s e)) e \<and>
    env_parent_id (envs s' e) = parent \<and> env_status (envs s' e) = ENV_RUNNABLE \<and>
    env_runs (envs s' e) = 0 \<and> env_type (envs s' e) = ENV_TYPE_USER \<and>
    env_pml4e (envs s' e) = Some p \<and> env_cr3 (envs s' e) = page2pa p \<and>
    env_pgfault_upcall (envs s' e) = 0 \<and> \<not> env_ipc_recving (envs s' e) \<and>
    env_tf (envs s' e) = zero_tf\<lparr>tf_ds := 0x23, tf_es := 0x23, tf_ss := 0x23, tf_rsp := USTACKTOP,
      tf_cs := 0x1B, tf_eflags := FL_IF\<rparr>"
proof -
  obtain s1 where s1: "env_setup_vm e s = Some (0, s1)" "page_inv s1 xs" "npages s1 = npages s"
    "envs s1 = (envs s)(e := (envs s e)\<lparr>env_pml4e := Some p, env_cr3 := page2pa p\<rparr>)"
    "env_free_list s1 = env_free_list s" "cpu_env s1 = cpu_env s" "cpunum s1 = cpunum s"
    using env_setup_vm_spec [OF assms(2), of e] by blast
  then show ?thesis
    using assms(1) by (simp add: env_alloc_def Let_def zero_tf_def)
qed

lemma env_alloc_no_env: "env_free_list s = None \<Longrightarrow> env_alloc parent s = Some (- E_NO_FREE_ENV, None, s)"
  by (simp add: env_alloc_def)

lemma env_alloc_no_mem:
  "env_free_list s = Some e \<Longrightarrow> page_inv s [] \<Longrightarrow> env_alloc parent s = Some (- E_NO_MEM, None, s)"
  by (simp add: env_alloc_def env_setup_vm_def page_alloc_None)

lemma env_setup_vm_frame:
  assumes "env_setup_vm e s = Some (r, s')"
  shows "(\<forall>i. env_link (envs s' i) = env_link (envs s i)) \<and> env_free_list s' = env_free_list s"
proof -
  obtain pg s1 where s1: "page_alloc ALLOC_ZERO s = Some (pg, s1)"
    using assms by (cases "page_alloc ALLOC_ZERO s") (auto simp: env_setup_vm_def)
  note m = more_kstate [OF page_alloc_more [OF s1]]
  show ?thesis
    using assms s1 m(1,2) by (cases pg) (auto simp: env_setup_vm_def Let_def split: bind_splits)
qed

lemma env_alloc_frame:
  assumes "env_alloc parent s = Some (0, Some e, s')"
  shows "env_free_list s = Some e \<and> env_free_list s' = env_link (envs s e) \<and>
    (\<forall>i. env_link (envs s' i) = env_link (envs s i))"
proof -
  obtain x where x: "env_free_list s = Some x"
    using assms by (cases "env_free_list s") (auto simp: env_alloc_def)
  obtain r s1 where s1: "env_setup_vm x s = Some (r, s1)"
    using assms x by (cases "env_setup_vm x s") (auto simp: env_alloc_def)
  show ?thesis
    using assms x s1 env_setup_vm_frame [OF s1]
    by (cases "r < 0") (auto simp: env_alloc_def Let_def)
qed

lemma env_free_frame:
  assumes "env_free e s = Some s'"
  shows "env_free_list s' = Some e \<and> env_link (envs s' e) = env_free_list s \<and>
    (\<forall>i. i \<noteq> e \<longrightarrow> envs s' i = envs s i) \<and> env_status (envs s' e) = ENV_FREE \<and>
    env_id (envs s' e) = env_id (envs s e) \<and> env_pml4e (envs s' e) = None \<and>
    cpu_env s' = cpu_env s \<and> cpunum s' = cpunum s"
proof -
  define s1 where "s1 = (if Some e = curenv s then s\<lparr>cr3 := boot_cr3 s\<rparr> else s)"
  have s1: "envs s1 = envs s" "env_free_list s1 = env_free_list s" "cpu_env s1 = cpu_env s"
    "cpunum s1 = cpunum s" by (simp_all add: s1_def)
  obtain pml4 s2 where s2: "env_free_vm pml4 (env_cr3 (envs s1 e)) s1 = Some s2"
    "s' = (upd_env e (\<lambda>v. v\<lparr>env_pml4e := None, env_cr3 := 0, env_status := ENV_FREE,
                env_link := env_free_list s2\<rparr>) s2)\<lparr>env_free_list := Some e\<rparr>"
    using assms unfolding env_free_def s1_def [symmetric] by (auto simp: Let_def split: bind_splits)
  from more_kstate [OF env_free_vm_more [OF s2(1)]] s1 show ?thesis by (simp add: s2(2))
qed

interpretation env_list: linked_free_list env_free_list env_next
  "\<lambda>s e s'. \<exists>parent. env_alloc parent s = Some (0, Some e, s')" "\<lambda>e s s'. env_free e s = Some s'"
proof (unfold_locales, goal_cases)
  case (1 s x s')
  then show ?case using env_alloc_frame by blast
next
  case (2 s x s' y)
  then show ?case using env_alloc_frame by blast
next
  case (3 x s s')
  then show ?case using env_free_frame by blast
next
  case (4 x s s' y)
  then show ?case using env_free_frame [of x s s'] by simp
qed

text \<open>Allocation hands out the head of the list and keeps the table well formed.\<close>

lemma env_alloc_inv:
  assumes inv: "env_inv s (e # fs)" and pg: "page_inv s (p # xs)"
    and s': "env_alloc parent s = Some (0, Some e, s')"
  shows "env_inv s' fs"
proof -
  have h: "env_free_list s = Some e" "e < NENV" using inv by (auto simp: env_inv_def)
  have c: "chain (env_next s') (env_free_list s') fs" "e \<notin> set fs"
    using env_list.chain_takes [of s e s' "e # fs"] s' inv by (auto simp: env_inv_def)
  have f: "\<forall>i. i \<noteq> e \<longrightarrow> envs s' i = envs s i" "env_id (envs s' e) = new_envid (env_id (envs s e)) e"
    "env_status (envs s' e) = ENV_RUNNABLE"
    using env_alloc_spec [OF h(1) pg, of parent] s' by auto
  have "i \<in> set fs \<longleftrightarrow> env_status (envs s' i) = ENV_FREE" if "i < NENV" for i
    using inv f c(2) that by (cases "i = e") (auto simp: env_inv_def)
  moreover have "ENVX (env_id (envs s' i)) = i \<and> 0 < sint (env_id (envs s' i))"
    if "i < NENV" "env_status (envs s' i) \<noteq> ENV_FREE" for i
    using inv f that new_envid_pos [OF h(2)] new_envid_index [OF h(2)]
    by (cases "i = e") (auto simp: env_inv_def)
  moreover have "\<forall>i \<in> set fs. i < NENV" using inv by (auto simp: env_inv_def)
  ultimately show ?thesis using c(1) by (simp add: env_inv_def)
qed

lemma env_free_inv:
  assumes inv: "env_inv s fs" and e: "e < NENV" "env_status (envs s e) \<noteq> ENV_FREE"
    and s': "env_free e s = Some s'"
  shows "env_inv s' (e # fs)"
proof -
  have nin: "e \<notin> set fs" using inv e by (simp add: env_inv_def)
  then have c: "chain (env_next s') (env_free_list s') (e # fs)"
    using env_list.chain_gives [OF s', of fs] inv by (simp add: env_inv_def)
  note f = env_free_frame [OF s']
  have "i \<in> set (e # fs) \<longleftrightarrow> env_status (envs s' i) = ENV_FREE" if "i < NENV" for i
    using inv f that by (cases "i = e") (auto simp: env_inv_def)
  moreover have "ENVX (env_id (envs s' i)) = i \<and> 0 < sint (env_id (envs s' i))"
    if "i < NENV" "env_status (envs s' i) \<noteq> ENV_FREE" for i
    using inv f that by (cases "i = e") (auto simp: env_inv_def)
  moreover have "\<forall>i \<in> set (e # fs). i < NENV" using inv e(1) by (auto simp: env_inv_def)
  ultimately show ?thesis using c by (simp add: env_inv_def)
qed

text \<open>A lookup by identifier finds exactly the entry in use that carries it.\<close>

lemma ENVX_less: "ENVX i < NENV"
  by (simp add: ENVX_eq)

lemma envid2env_iff:
  assumes "env_inv s fs" "i \<noteq> 0"
  shows "envid2env i False s = Some (0, Some e) \<longleftrightarrow>
     e < NENV \<and> env_status (envs s e) \<noteq> ENV_FREE \<and> env_id (envs s e) = i"
  using assms ENVX_less [of i] by (auto simp: envid2env_def Let_def env_inv_def)

section \<open>Running\<close>

lemma env_run_spec:
  assumes "curenv s \<noteq> Some e \<or> env_status (envs s e) = ENV_RUNNING"
    and "kernel_lock s = Some (cpunum s)"
  shows "\<exists>s'. env_run e s = Some s' \<and> curenv s' = Some e \<and> env_status (envs s' e) = ENV_RUNNING \<and>
    env_runs (envs s' e) = env_runs (envs s e) + 1 \<and> env_cpunum (envs s' e) = cpunum s \<and>
    kernel_lock s' = None \<and> cpunum s' = cpunum s \<and>
    (curenv s \<noteq> Some e \<longrightarrow> cr3 s' = env_cr3 (envs s e)) \<and>
    env_tf (envs s' e) = env_tf (envs s e) \<and>
    (\<forall>c. curenv s = Some c \<and> c \<noteq> e \<and> env_status (envs s c) = ENV_RUNNING \<longrightarrow>
       env_status (envs s' c) = ENV_RUNNABLE) \<and>
    (\<forall>i. i \<noteq> e \<and> (curenv s = Some i \<longrightarrow> env_status (envs s i) \<noteq> ENV_RUNNING) \<longrightarrow> envs s' i = envs s i)"
  using assms
  by (cases "curenv s") (auto simp: env_run_def unlock_kernel_def env_pop_tf_def set_curenv_def Let_def upd_env_def)

section \<open>Properties\<close>

text \<open>A small kernel: environment 0 runs on processor 0 with page 6 mapped at 0x800000, and
  environment 1 is its child with an empty address space; pages 7 to 15 are free.\<close>

definition small_env :: "nat \<Rightarrow> env" where
  "small_env e =
     (if e = 0 then zero_env\<lparr>env_id := 0x1000, env_status := ENV_RUNNING, env_pml4e := Some 2, env_cr3 := 0x2000\<rparr>
      else if e = 1 then zero_env\<lparr>env_id := 0x1001, env_parent_id := 0x1000, env_status := ENV_RUNNABLE,
        env_pml4e := Some 1, env_cr3 := 0x1000\<rparr>
      else zero_env\<lparr>env_link := if Suc e < NENV then Some (Suc e) else None\<rparr>)"

definition small_kernel :: kstate where
  "small_kernel = \<lparr>npages = 16,
     pages = (\<lambda>p. \<lparr>pp_link = (if 7 \<le> p \<and> p < 15 then Some (Suc p) else None), pp_ref = (if p \<in> {1..6} then 1 else 0)\<rparr>),
     page_free_list = Some 7, nextfree = 0, kmem = one_mapping, mmio_base = 0, user_mem_check_addr = 0,
     envs = small_env, env_free_list = Some 2, cpu_env = (\<lambda>c. if c = 0 then Some 0 else None),
     cpu_status = (\<lambda>_. 1), cpunum = 0, cr3 = 0x2000, kernel_lock = Some 0, boot_pml4e = 0, boot_cr3 = 0,
     env_counter = 0\<rparr>"

lemma chain_interval:
  "a < b \<Longrightarrow> (\<And>i. a \<le> i \<Longrightarrow> i < b \<Longrightarrow> link i = (if Suc i < b then Some (Suc i) else None)) \<Longrightarrow>
   chain link (Some a) [a..<b]"
proof (induction "b - a" arbitrary: a)
  case (Suc n)
  then show ?case by (cases "Suc a < b") (simp_all add: upt_conv_Cons)
qed simp

lemma small_kernel_inv: "env_inv small_kernel [2..<NENV]" "page_inv small_kernel [7..<16]"
proof -
  have id: "ENVX 0x1000 = 0" "ENVX 0x1001 = 1" by (simp_all add: ENVX_def)
  have "chain (env_next small_kernel) (Some 2) [2..<NENV]"
    by (rule chain_interval) (simp_all add: small_kernel_def small_env_def)
  then show "env_inv small_kernel [2..<NENV]"
    by (auto simp: env_inv_def small_kernel_def small_env_def zero_env_def id simp del: upt_rec_numeral)
  have "chain (free_link small_kernel) (Some 7) [7..<16]"
    by (rule chain_interval) (auto simp: small_kernel_def)
  then show "page_inv small_kernel [7..<16]"
    by (auto simp: page_inv_def small_kernel_def simp del: upt_rec_numeral)
qed

lemma small_kernel_wf: "pt_wf small_kernel {0} 2 [7..<16]" "pt_wf small_kernel {0} 1 [7..<16]"
proof -
  show "pt_wf small_kernel {0} 2 [7..<16]"
    by (rule one_mapping_wf) (auto simp: small_kernel_def simp del: upt_rec_numeral)
  show "pt_wf small_kernel {0} 1 [7..<16]"
    by (rule one_mapping_wf_empty) (auto simp: small_kernel_def simp del: upt_rec_numeral)
qed



text \<open>C24: freeing an environment that is in use puts its slot at the head of the free list, keeps the
  table's invariant and changes no other environment; afterwards no identifier names the slot.\<close>

theorem env_free_releases:
  assumes "env_inv s fs" "e < NENV" "env_status (envs s e) \<noteq> ENV_FREE" "env_free e s = Some s'"
  shows "env_inv s' (e # fs) \<and> (\<forall>i. i \<noteq> e \<longrightarrow> envs s' i = envs s i) \<and>
    (\<forall>i. i \<noteq> 0 \<longrightarrow> envid2env i False s' \<noteq> Some (0, Some e))"
proof -
  have inv: "env_inv s' (e # fs)" by (rule env_free_inv [OF assms])
  then show ?thesis using env_free_frame [OF assms(4)] by (auto simp: envid2env_iff [OF inv])
qed

theorem env_free_releases_witness:
  "\<exists>s'. env_free 1 small_kernel = Some s' \<and> env_inv s' (1 # [2..<NENV]) \<and>
     envid2env 0x1001 False s' \<noteq> Some (0, Some 1)"
proof -
  let ?s = small_kernel
  let ?s1 = "set_ref 0 (- 1) ?s"
  let ?s2 = "write_pte (1, 0) 0 ?s1"
  have z: "kmem ?s 0 i = 0" "kmem ?s 1 i = 0" for i by (simp_all add: one_mapping_def small_kernel_def)
  have n: "npages ?s = 16" by (simp add: small_kernel_def)
  have t: "table_of ?s 0 = Some 0" "pa2page ?s (PTE_ADDR 0) = Some 0"
    by (simp_all add: table_of_def KADDR_def PTE_ADDR_def PPN_def pa2page_def n)
  have f: "free_pdpes [0, 1, 2, 3] 1 0 ?s = Some ?s" by (simp add: z)
  have d0: "page_decref 0 ?s = Some ?s1" by (simp add: page_decref_def Let_def set_ref_def small_kernel_def)
  have r: "pa2page ?s2 0x1000 = Some 1"
    by (simp add: pa2page_def PPN_def drop_bit_eq_div n)
  have "pp_ref (pages ?s2 1) = 1" "pp_link (pages ?s2 1) = None" by (simp_all add: small_kernel_def)
  then obtain s3 where d1: "page_decref 1 ?s2 = Some s3"
    by (auto simp: page_decref_def Let_def page_free_def set_ref_def)
  have vm: "env_free_vm 1 0x1000 ?s = Some s3"
    using t f d0 r d1 by (simp add: env_free_vm_def z Let_def del: One_nat_def free_pdpes.simps)
  have "env_pml4e (envs ?s 1) = Some 1" "env_cr3 (envs ?s 1) = 0x1000" "curenv ?s \<noteq> Some 1"
    by (simp_all add: small_kernel_def small_env_def)
  then obtain s' where s': "env_free 1 ?s = Some s'"
    using vm by (auto simp: env_free_def Let_def)
  have "env_status (envs small_kernel 1) \<noteq> ENV_FREE" by (simp add: small_kernel_def small_env_def)
  from env_free_releases [OF small_kernel_inv(1) _ this s'] s' show ?thesis by auto
qed

text \<open>\<open>env_run\<close> returns to user mode in the given environment with the kernel lock released: the
  environment is current and running, its run count grew by one, its address space is loaded, the
  registers it resumes with are its saved ones, and the environment that ran before is runnable
  again; no other environment changes.\<close>

theorem env_run_switches:
  assumes "curenv s \<noteq> Some e \<or> env_status (envs s e) = ENV_RUNNING" "kernel_lock s = Some (cpunum s)"
  shows "\<exists>s'. env_run e s = Some s' \<and> curenv s' = Some e \<and> env_status (envs s' e) = ENV_RUNNING \<and>
    env_runs (envs s' e) = env_runs (envs s e) + 1 \<and> kernel_lock s' = None \<and>
    (curenv s \<noteq> Some e \<longrightarrow> cr3 s' = env_cr3 (envs s e)) \<and> env_tf (envs s' e) = env_tf (envs s e) \<and>
    (\<forall>c. curenv s = Some c \<and> c \<noteq> e \<and> env_status (envs s c) = ENV_RUNNING \<longrightarrow>
       env_status (envs s' c) = ENV_RUNNABLE) \<and>
    (\<forall>i. i \<noteq> e \<and> (curenv s = Some i \<longrightarrow> env_status (envs s i) \<noteq> ENV_RUNNING) \<longrightarrow> envs s' i = envs s i)"
  using env_run_spec [OF assms] by blast

theorem env_run_switches_witness:
  "\<exists>s'. env_run 1 small_kernel = Some s' \<and> curenv s' = Some 1 \<and> kernel_lock s' = None \<and>
     cr3 s' = 0x1000 \<and> env_status (envs s' 0) = ENV_RUNNABLE"
proof -
  have c: "curenv small_kernel \<noteq> Some 1 \<or> env_status (envs small_kernel 1) = ENV_RUNNING"
    "kernel_lock small_kernel = Some (cpunum small_kernel)" by (simp_all add: small_kernel_def)
  have e: "curenv small_kernel = Some 0" "env_status (envs small_kernel 0) = ENV_RUNNING"
    "env_cr3 (envs small_kernel 1) = 0x1000" by (simp_all add: small_kernel_def small_env_def)
  from env_run_switches [OF c] show ?thesis using e by auto
qed

end
