(* ===== verification/Kern_Sched.thy ===== *)
theory Kern_Sched
  imports Kern_Env
begin

text \<open>
  The scheduler of \<^verbatim>\<open>kern/sched.c\<close>, together with \<open>env_destroy\<close> of \<^verbatim>\<open>kern/env.c\<close> and
  \<open>user_mem_assert\<close> of \<^verbatim>\<open>kern/pmap.c\<close>, which call it.

  These functions may leave the kernel instead of returning.  Their result is a \<open>ctl\<close> value:
  \<open>Ret\<close> with the returned value, \<open>User\<close> when the CPU has entered user mode in \<open>curenv\<close>,
  \<open>Halted\<close> when it waits for an interrupt, \<open>Monitor\<close> when it is in the kernel monitor for
  good.  A panic is still \<open>None\<close>.  The static variable \<open>env_counter\<close> of \<open>sched_yield\<close> is a
  field of the state.
\<close>

datatype ('a, 's) ctl = Ret 'a 's | User 's | Halted 's | Monitor 's

text \<open>Sequencing: the continuation runs when the first part returns.\<close>

definition andthen ::
  "('a, 's) ctl option \<Rightarrow> ('a \<Rightarrow> 's \<Rightarrow> ('b, 's) ctl option) \<Rightarrow> ('b, 's) ctl option" where
  "andthen c f =
     (case c of
        None \<Rightarrow> None
      | Some (Ret a s) \<Rightarrow> f a s
      | Some (User s) \<Rightarrow> Some (User s)
      | Some (Halted s) \<Rightarrow> Some (Halted s)
      | Some (Monitor s) \<Rightarrow> Some (Monitor s))"

lemma andthen_simps [simp]:
  "andthen None f = None" "andthen (Some (Ret a s)) f = f a s"
  "andthen (Some (User s)) f = Some (User s)" "andthen (Some (Halted s)) f = Some (Halted s)"
  "andthen (Some (Monitor s)) f = Some (Monitor s)"
  by (simp_all add: andthen_def)

abbreviation CPU_UNUSED :: nat where "CPU_UNUSED \<equiv> 0"
abbreviation CPU_STARTED :: nat where "CPU_STARTED \<equiv> 1"
abbreviation CPU_HALTED :: nat where "CPU_HALTED \<equiv> 2"

section \<open>The code\<close>

definition sched_halt :: "'a kstate_scheme \<Rightarrow> (unit, 'a kstate_scheme) ctl option" where
  "sched_halt s =
     (if \<not> (\<exists>i \<in> set [0..<NENV]. env_status (envs s i) = ENV_RUNNABLE \<or>
            env_status (envs s i) = ENV_RUNNING \<or> env_status (envs s i) = ENV_DYING)
      then Some (Monitor s)
      else do {
        let s1 = set_curenv None s;
        let s2 = s1\<lparr>cr3 := page2pa (boot_pml4e s1)\<rparr>;
        let s3 = s2\<lparr>cpu_status := (cpu_status s2)(cpunum s2 := CPU_HALTED)\<rparr>;
        s4 \<leftarrow> unlock_kernel s3;
        Some (Halted s4) })"

text \<open>The search of \<open>sched_yield\<close>: the first index from \<open>env_counter + i\<close> on, for \<open>i\<close> up to
  \<open>NENV\<close>, whose environment is runnable.  \<open>n\<close> counts the iterations left.\<close>

fun sched_search :: "nat \<Rightarrow> u32 \<Rightarrow> (nat \<Rightarrow> env) \<Rightarrow> u32 \<Rightarrow> nat option" where
  "sched_search 0 i es counter = None"
| "sched_search (Suc n) i es counter =
     (let k = unat ((counter + i) mod 1024) in
      if env_status (es k) = ENV_RUNNABLE then Some k else sched_search n (i + 1) es counter)"

definition sched_yield :: "'a kstate_scheme \<Rightarrow> (unit, 'a kstate_scheme) ctl option" where
  "sched_yield s =
     (case sched_search NENV 1 (envs s) (env_counter s) of
        Some k \<Rightarrow> do { s' \<leftarrow> env_run k (s\<lparr>env_counter := of_nat k\<rparr>); Some (User s') }
      | None \<Rightarrow>
          (case curenv s of
             Some c \<Rightarrow>
               if env_status (envs s c) = ENV_RUNNING then do { s' \<leftarrow> env_run c s; Some (User s') }
               else sched_halt s
           | None \<Rightarrow> sched_halt s))"

definition env_destroy :: "nat \<Rightarrow> 'a kstate_scheme \<Rightarrow> (unit, 'a kstate_scheme) ctl option" where
  "env_destroy e s =
     (if env_status (envs s e) = ENV_RUNNING \<and> curenv s \<noteq> Some e
      then Some (Ret () (upd_env e (\<lambda>v. v\<lparr>env_status := ENV_DYING\<rparr>) s))
      else do {
        s1 \<leftarrow> env_free e s;
        if curenv s1 = Some e then sched_yield (set_curenv None s1)
        else Some (Ret () s1) })"

definition user_mem_assert ::
  "nat \<Rightarrow> u64 \<Rightarrow> u64 \<Rightarrow> u64 \<Rightarrow> 'a kstate_scheme \<Rightarrow> (unit, 'a kstate_scheme) ctl option" where
  "user_mem_assert e va len perm s = do {
     (r, s1) \<leftarrow> user_mem_check (env_pml4e (envs s e)) va len (perm OR PTE_U) s;
     if r < 0 then env_destroy e s1 else Some (Ret () s1) }"

section \<open>Round robin\<close>

lemma unat_add_mod_1024: "unat ((c + i :: u32) mod 1024) = (unat c + unat i) mod 1024"
proof -
  have "unat ((c + i) mod 1024) = ((unat c + unat i) mod 2 ^ 32) mod 1024"
    by (simp add: unat_mod unat_word_ariths)
  also have "\<dots> = (unat c + unat i) mod 1024" by (rule mod_mod_cancel) simp
  finally show ?thesis .
qed

lemma find_upt: "find P [0..<n] = Some d \<Longrightarrow> d < n \<and> P d \<and> (\<forall>j < d. \<not> P j)"
  by (auto simp: find_Some_iff)

lemma sched_search_nat:
  "unat i + n < 2 ^ 32 \<Longrightarrow>
   sched_search n i es c = map_option (\<lambda>d. (unat c + unat i + d) mod NENV)
     (find (\<lambda>d. env_status (es ((unat c + unat i + d) mod NENV)) = ENV_RUNNABLE) [0..<n])"
proof (induction n arbitrary: i)
  case (Suc n)
  have i1: "unat (i + 1) = unat i + 1" using Suc.prems by (simp add: unat_word_ariths)
  have u: "[0..<Suc n] = 0 # map Suc [0..<n]" by (simp add: upt_conv_Cons map_Suc_upt del: upt_Suc)
  have f: "find P (map Suc xs) = map_option Suc (find (\<lambda>d. P (Suc d)) xs)" for P xs
    by (induction xs) auto
  have "sched_search n (i + 1) es c = map_option (\<lambda>d. (unat c + unat i + Suc d) mod NENV)
     (find (\<lambda>d. env_status (es ((unat c + unat i + Suc d) mod NENV)) = ENV_RUNNABLE) [0..<n])"
    using Suc.IH [of "i + 1"] Suc.prems i1 by simp
  then show ?case
    unfolding u by (simp add: unat_add_mod_1024 Let_def f option.map_comp comp_def)
qed simp

text \<open>The environment chosen is the runnable one at the smallest positive distance after the
  last one chosen.\<close>

lemma sched_search_some:
  assumes "sched_search NENV 1 es c = Some k"
  shows "\<exists>d. 1 \<le> d \<and> d \<le> NENV \<and> k = (unat c + d) mod NENV \<and> env_status (es k) = ENV_RUNNABLE \<and>
    (\<forall>d'. 1 \<le> d' \<and> d' < d \<longrightarrow> env_status (es ((unat c + d') mod NENV)) \<noteq> ENV_RUNNABLE)"
proof -
  obtain d where d: "find (\<lambda>d. env_status (es ((unat c + unat (1 :: u32) + d) mod NENV)) = ENV_RUNNABLE) [0..<NENV] = Some d"
    "k = (unat c + unat (1 :: u32) + d) mod NENV"
    using assms sched_search_nat [of 1 NENV es c] by auto
  then have "d < NENV" "env_status (es k) = ENV_RUNNABLE"
    "\<forall>j < d. env_status (es ((unat c + 1 + j) mod NENV)) \<noteq> ENV_RUNNABLE"
    using find_upt [OF d(1)] by simp_all
  moreover have "env_status (es ((unat c + d') mod NENV)) \<noteq> ENV_RUNNABLE" if "1 \<le> d'" "d' < d + 1" for d'
    using calculation(3) [rule_format, of "d' - 1"] that by simp
  ultimately show ?thesis using d(2) by (intro exI [of _ "d + 1"]) auto
qed

lemma sched_search_none:
  assumes "sched_search NENV 1 es c = None" "e < NENV"
  shows "env_status (es e) \<noteq> ENV_RUNNABLE"
proof -
  have all: "\<forall>d < NENV. env_status (es ((unat c + 1 + d) mod NENV)) \<noteq> ENV_RUNNABLE"
    using assms(1) sched_search_nat [of 1 NENV es c]
    by (auto simp: find_None_iff simp del: upt_rec_numeral)
  let ?r = "(unat c + 1) mod NENV"
  define d where "d = (e + NENV - ?r) mod NENV"
  have "(unat c + 1 + d) mod NENV = (?r + (e + NENV - ?r)) mod NENV"
    unfolding d_def by (simp only: mod_add_left_eq mod_add_right_eq)
  also have "\<dots> = e" using assms(2) mod_less_divisor [of NENV "unat c + 1"] by simp
  finally have "(unat c + 1 + d) mod NENV = e" .
  moreover have "d < NENV" by (simp add: d_def)
  ultimately show ?thesis using all by metis
qed

text \<open>How long an environment waits at most: the number of slots between the last one chosen and
  its own.  Every choice of another environment shortens the wait.\<close>

definition sched_wait :: "nat \<Rightarrow> nat \<Rightarrow> nat" where
  "sched_wait c e = (e + (NENV - 1) - c mod NENV) mod NENV"

lemma sched_wait_eq:
  "e < NENV \<Longrightarrow> sched_wait c e =
     (if c mod NENV < e then e - 1 - c mod NENV else e + (NENV - 1) - c mod NENV)"
proof -
  assume e: "e < NENV"
  define r where "r = c mod NENV"
  have r: "r < NENV" by (simp add: r_def)
  show ?thesis
  proof (cases "r < e")
    case True
    then have "e + (NENV - 1) - r = (e - 1 - r) + NENV" by simp
    then have "(e + (NENV - 1) - r) mod NENV = e - 1 - r" using e by (simp only: mod_add_self2) simp
    with True show ?thesis by (simp add: sched_wait_def r_def)
  next
    case False
    then have "e + (NENV - 1) - r < NENV" using r by simp
    with False show ?thesis by (simp add: sched_wait_def r_def)
  qed
qed

lemma sched_progress:
  assumes k: "sched_search NENV 1 es c = Some k" and e: "e < NENV" "env_status (es e) = ENV_RUNNABLE"
    and ne: "k \<noteq> e"
  shows "sched_wait k e < sched_wait (unat c) e"
proof -
  define r where "r = unat c mod NENV"
  have r: "r < NENV" by (simp add: r_def)
  obtain d where d: "1 \<le> d" "d \<le> NENV" "k = (r + d) mod NENV"
    "\<forall>d'. 1 \<le> d' \<and> d' < d \<longrightarrow> env_status (es ((r + d') mod NENV)) \<noteq> ENV_RUNNABLE"
    using sched_search_some [OF k] unfolding r_def by (auto simp: mod_simps)
  define w where "w = (if r < e then e - r else e + NENV - r)"
  have w: "1 \<le> w" "(r + w) mod NENV = e" using r e by (auto simp: w_def)
  then have "\<not> w < d" using d(4) e(2) by metis
  moreover have "w \<noteq> d" using w(2) d(3) ne by auto
  ultimately have dw: "d < w" by simp
  have kk: "k mod NENV = k" "k = (if r + d < NENV then r + d else r + d - NENV)"
    using d(2,3) r by (simp_all add: le_mod_geq)
  have "sched_wait (unat c) e = w - 1" using sched_wait_eq [OF e(1), of "unat c"] r e
    by (auto simp: w_def r_def)
  moreover have "sched_wait k e = (if k < e then e - 1 - k else e + (NENV - 1) - k)"
    using sched_wait_eq [OF e(1), of k] kk(1) by simp
  moreover have "(if k < e then e - 1 - k else e + (NENV - 1) - k) < w - 1"
    using kk(2) dw d(1) r e(1) unfolding w_def by (cases "r < e"; cases "r + d < NENV"; simp; linarith)
  ultimately show ?thesis by simp
qed

lemma env_run_returns: "kernel_lock s = Some (cpunum s) \<Longrightarrow> \<exists>s'. env_run e s = Some s'"
  by (cases "curenv s = Some e") (simp_all add: env_run_def unlock_kernel_def env_pop_tf_def set_curenv_def Let_def split: option.split)

lemma sched_yield_runs:
  assumes "e < NENV" "env_status (envs s e) = ENV_RUNNABLE" "kernel_lock s = Some (cpunum s)"
  shows "\<exists>k s'. sched_search NENV 1 (envs s) (env_counter s) = Some k \<and> sched_yield s = Some (User s') \<and>
    env_run k (s\<lparr>env_counter := of_nat k\<rparr>) = Some s'"
proof -
  obtain k where k: "sched_search NENV 1 (envs s) (env_counter s) = Some k"
    using sched_search_none assms by (cases "sched_search NENV 1 (envs s) (env_counter s)") auto
  then have st: "env_status (envs s k) = ENV_RUNNABLE" using sched_search_some by blast
  obtain s' where s': "env_run k (s\<lparr>env_counter := of_nat k\<rparr>) = Some s'"
    using env_run_returns [of "s\<lparr>env_counter := of_nat k\<rparr>" k] assms(3) by auto
  with k show ?thesis by (simp add: sched_yield_def)
qed

text \<open>Nothing runnable: the CPU goes on with its own environment, or waits.\<close>

lemma sched_yield_idle:
  assumes "\<forall>e < NENV. env_status (envs s e) \<noteq> ENV_RUNNABLE"
  shows "sched_yield s = (case curenv s of
      Some c \<Rightarrow> if env_status (envs s c) = ENV_RUNNING then do { s' \<leftarrow> env_run c s; Some (User s') } else sched_halt s
    | None \<Rightarrow> sched_halt s)"
proof -
  have "sched_search NENV 1 (envs s) (env_counter s) = None"
    using assms sched_search_some [of "envs s" "env_counter s"]
    by (cases "sched_search NENV 1 (envs s) (env_counter s)") fastforce+
  then show ?thesis by (simp add: sched_yield_def)
qed

section \<open>Properties\<close>



text \<open>The environments chosen by successive searches while the set of runnable ones stays.\<close>

primrec sched_choices :: "nat \<Rightarrow> (nat \<Rightarrow> env) \<Rightarrow> u32 \<Rightarrow> nat list" where
  "sched_choices 0 es c = []"
| "sched_choices (Suc n) es c =
     (case sched_search NENV 1 es c of None \<Rightarrow> [] | Some k \<Rightarrow> k # sched_choices n es (of_nat k))"

lemma sched_choices_fair:
  assumes "e < NENV" "env_status (es e) = ENV_RUNNABLE" "sched_wait (unat c) e < n"
  shows "e \<in> set (sched_choices n es c)"
  using assms(3)
proof (induction n arbitrary: c)
  case (Suc n)
  obtain k where k: "sched_search NENV 1 es c = Some k"
    using sched_search_none assms by (cases "sched_search NENV 1 es c") blast+
  then have kn: "k < NENV" using sched_search_some by fastforce
  show ?case
  proof (cases "k = e")
    case False
    have "unat (of_nat k :: u32) = k" using kn by (simp add: unat_of_nat)
    then have "sched_wait (unat (of_nat k :: u32)) e < n"
      using sched_progress [OF k assms(1,2) False] Suc.prems by simp
    from Suc.IH [OF this] show ?thesis by (simp add: k)
  qed (simp add: k)
qed simp



end
