(* ===== verification/Ring_Fifo.thy ===== *)
theory Ring_Fifo
  imports JOS_Prelude
begin

text \<open>
  Ring buffers, as the console input buffer of the kernel and the pipes of the user library
  use them, and the contract of a bounded first-in first-out queue that both are shown to
  satisfy.  The client of the contract is an arbitrary interleaving of a writer and a reader.
\<close>

section \<open>Rings\<close>

text \<open>The \<open>k\<close> elements of the ring \<open>buf\<close> of size \<open>n\<close> from position \<open>r\<close> on.\<close>

definition ring_list :: "(nat \<Rightarrow> 'a) \<Rightarrow> nat \<Rightarrow> nat \<Rightarrow> nat \<Rightarrow> 'a list" where
  "ring_list buf n r k = map (\<lambda>i. buf ((r + i) mod n)) [0..<k]"

lemma length_ring_list [simp]: "length (ring_list buf n r k) = k"
  by (simp add: ring_list_def)

lemma ring_list_0 [simp]: "ring_list buf n r 0 = []"
  by (simp add: ring_list_def)

lemma ring_list_mod: "ring_list buf n (r mod n) k = ring_list buf n r k"
  by (simp add: ring_list_def mod_add_left_eq)

lemma ring_list_Suc: "ring_list buf n r (Suc k) = buf (r mod n) # ring_list buf n (Suc r) k"
proof -
  have "[0..<Suc k] = 0 # map Suc [0..<k]" by (simp add: upt_conv_Cons map_Suc_upt del: upt_Suc)
  then show ?thesis by (simp add: ring_list_def del: upt_Suc)
qed

lemma ring_mod_inj_le:
  assumes "i \<le> j" "j < n" "(r + i) mod n = (r + j) mod (n :: nat)"
  shows "i = j"
proof -
  have "n dvd (r + j) - (r + i)"
    using assms mod_eq_dvd_iff_nat [of "r + i" "r + j" n] by simp
  then have "n dvd j - i" by simp
  then have "j - i = 0" using assms(2) dvd_imp_le [of n "j - i"] by (cases "j - i = 0") auto
  with assms(1) show ?thesis by simp
qed

lemma ring_mod_inj: "i < n \<Longrightarrow> j < n \<Longrightarrow> (r + i) mod n = (r + j) mod n \<Longrightarrow> i = (j :: nat)"
  using ring_mod_inj_le [of i j n r] ring_mod_inj_le [of j i n r] by (cases "i \<le> j") simp_all

text \<open>Writing the slot after the last element appends it, as long as the ring is not full.\<close>

lemma ring_list_put:
  assumes "k < n"
  shows "ring_list (buf((r + k) mod n := x)) n r (Suc k) = ring_list buf n r k @ [x]"
proof -
  have "(r + i) mod n \<noteq> (r + k) mod n" if "i < k" for i
    using ring_mod_inj [of i n k r] that assms by auto
  then show ?thesis by (auto simp: ring_list_def)
qed

section \<open>Bounded queues\<close>

datatype 'a io = Put 'a | Get

text \<open>Runs a sequence of writes and reads; a write that finds no room and a read that finds
  nothing have no effect.  The result is the elements accepted, the elements read, and the
  final state.\<close>

fun run_io ::
  "('a \<Rightarrow> 's \<Rightarrow> 's option) \<Rightarrow> ('s \<Rightarrow> ('a \<times> 's) option) \<Rightarrow> 'a io list \<Rightarrow> 's \<Rightarrow> 'a list \<times> 'a list \<times> 's" where
  "run_io put get [] s = ([], [], s)"
| "run_io put get (Put x # ops) s =
     (case put x s of
        None \<Rightarrow> run_io put get ops s
      | Some s' \<Rightarrow> (let (ins, outs, t) = run_io put get ops s' in (x # ins, outs, t)))"
| "run_io put get (Get # ops) s =
     (case get s of
        None \<Rightarrow> run_io put get ops s
      | Some (x, s') \<Rightarrow> (let (ins, outs, t) = run_io put get ops s' in (ins, x # outs, t)))"

locale bounded_fifo =
  fixes inv :: "'s \<Rightarrow> bool"
    and contents :: "'s \<Rightarrow> 'a list"
    and cap :: nat
    and put :: "'a \<Rightarrow> 's \<Rightarrow> 's option"
    and get :: "'s \<Rightarrow> ('a \<times> 's) option"
  assumes put_some: "inv s \<Longrightarrow> put x s = Some s' \<Longrightarrow> inv s' \<and> contents s' = contents s @ [x]"
    and put_full: "inv s \<Longrightarrow> length (contents s) = cap \<Longrightarrow> put x s = None"
    and get_some: "inv s \<Longrightarrow> get s = Some (x, s') \<Longrightarrow> inv s' \<and> contents s = x # contents s'"
    and get_none: "inv s \<Longrightarrow> get s = None \<longleftrightarrow> contents s = []"
begin

text \<open>Whatever the interleaving, what is read is what was written, in order and without loss:
  the initial contents followed by the accepted elements are the elements read followed by the
  final contents.\<close>

lemma run_io_fifo:
  "inv s \<Longrightarrow> run_io put get ops s = (ins, outs, t) \<Longrightarrow>
     inv t \<and> contents s @ ins = outs @ contents t"
proof (induction ops arbitrary: s ins outs)
  case Nil
  then show ?case by simp
next
  case (Cons op ops)
  show ?case
  proof (cases op)
    case (Put x)
    show ?thesis
    proof (cases "put x s")
      case None
      with Cons Put show ?thesis by simp
    next
      case (Some s')
      obtain ins' where r: "run_io put get ops s' = (ins', outs, t)" "ins = x # ins'"
        using Cons.prems Put Some by (auto split: prod.splits)
      have s': "inv s'" "contents s' = contents s @ [x]"
        using put_some [OF Cons.prems(1) Some] by auto
      from Cons.IH [OF s'(1) r(1)] s'(2) r(2) show ?thesis by simp
    qed
  next
    case Get
    show ?thesis
    proof (cases "get s")
      case None
      with Cons Get show ?thesis by simp
    next
      case (Some xs')
      obtain x s' where xs': "xs' = (x, s')" by force
      obtain outs' where r: "run_io put get ops s' = (ins, outs', t)" "outs = x # outs'"
        using Cons.prems Get Some xs' by (auto split: prod.splits)
      have s': "inv s'" "contents s = x # contents s'"
        using get_some [OF Cons.prems(1)] Some xs' by auto
      from Cons.IH [OF s'(1) r(1)] s'(2) r(2) show ?thesis by simp
    qed
  qed
qed

lemma put_get: "inv s \<Longrightarrow> contents s = [] \<Longrightarrow> put x s = Some s' \<Longrightarrow>
   \<exists>s''. get s' = Some (x, s'') \<and> contents s'' = []"
proof -
  assume a: "inv s" "contents s = []" "put x s = Some s'"
  then have s': "inv s'" "contents s' = [x]" using put_some by auto
  then obtain y s'' where "get s' = Some (y, s'')" using get_none [of s'] by (cases "get s'") auto
  with get_some [OF s'(1) this] s'(2) show ?thesis by auto
qed

text \<open>The queue never holds more than its capacity.\<close>

lemma put_le_cap: "inv s \<Longrightarrow> length (contents s) \<le> cap \<Longrightarrow> put x s = Some s' \<Longrightarrow> length (contents s') \<le> cap"
  using put_some [of s x s'] put_full [of s x] by (cases "length (contents s) = cap") auto

end

end
