(* ===== verification/Kern_Console.thy ===== *)
theory Kern_Console
  imports Ring_Fifo
begin

text \<open>
  The console of \<^verbatim>\<open>kern/console.c\<close> (keyboard translation \<open>kbd_proc_data\<close>, the circular input
  buffer with \<open>cons_intr\<close> and \<open>cons_getc\<close>, the text display \<open>cga_putc\<close>) and the clock of
  \<^verbatim>\<open>kern/time.c\<close>.

  Port input is explicit: the bytes a device has pending are a list, and \<open>(*proc)()\<close> returns
  \<open>-1\<close> exactly when it is empty.  Bytes written to the serial and parallel port are appended
  to a list.  The display buffer \<open>crt_buf\<close> is a function from positions to character cells.
\<close>

record console =
  cons_buf :: "nat \<Rightarrow> u8"
  cons_rpos :: u32
  cons_wpos :: u32
  kbd_shift :: u32
  serial_exists :: bool
  crt_buf :: "nat \<Rightarrow> u16"
  crt_pos :: u16
  port_out :: "u8 list"

abbreviation CONSBUFSIZE :: nat where "CONSBUFSIZE \<equiv> 512"
abbreviation CRT_COLS :: nat where "CRT_COLS \<equiv> 80"
abbreviation CRT_SIZE :: nat where "CRT_SIZE \<equiv> 2000"

abbreviation KBD_SHIFT :: u32 where "KBD_SHIFT \<equiv> 1"
abbreviation KBD_CTL :: u32 where "KBD_CTL \<equiv> 2"
abbreviation KBD_ALT :: u32 where "KBD_ALT \<equiv> 4"
abbreviation CAPSLOCK :: u32 where "CAPSLOCK \<equiv> 8"
abbreviation NUMLOCK :: u32 where "NUMLOCK \<equiv> 16"
abbreviation SCROLLLOCK :: u32 where "SCROLLLOCK \<equiv> 32"
abbreviation E0ESC :: u32 where "E0ESC \<equiv> 64"

section \<open>Keyboard\<close>

definition shiftcode :: "nat \<Rightarrow> u32" where
  "shiftcode i = (case map_of [(0x1D, KBD_CTL), (0x2A, KBD_SHIFT), (0x36, KBD_SHIFT),
     (0x38, KBD_ALT), (0x9D, KBD_CTL), (0xB8, KBD_ALT)] i of None \<Rightarrow> 0 | Some c \<Rightarrow> c)"

definition togglecode :: "nat \<Rightarrow> u32" where
  "togglecode i = (case map_of [(0x3A, CAPSLOCK), (0x45, NUMLOCK), (0x46, SCROLLLOCK)] i of
     None \<Rightarrow> 0 | Some c \<Rightarrow> c)"

definition normalmap_tab :: "u8 list" where
  "normalmap_tab = [
     0, 0x1B, 0x31, 0x32, 0x33, 0x34, 0x35, 0x36,
     0x37, 0x38, 0x39, 0x30, 0x2D, 0x3D, 8, 9,
     0x71, 0x77, 0x65, 0x72, 0x74, 0x79, 0x75, 0x69,
     0x6F, 0x70, 0x5B, 0x5D, 0xA, 0, 0x61, 0x73,
     0x64, 0x66, 0x67, 0x68, 0x6A, 0x6B, 0x6C, 0x3B,
     0x27, 0x60, 0, 0x5C, 0x7A, 0x78, 0x63, 0x76,
     0x62, 0x6E, 0x6D, 0x2C, 0x2E, 0x2F, 0, 0x2A,
     0, 0x20, 0, 0, 0, 0, 0, 0,
     0, 0, 0, 0, 0, 0, 0, 0x37,
     0x38, 0x39, 0x2D, 0x34, 0x35, 0x36, 0x2B, 0x31,
     0x32, 0x33, 0x30, 0x2E, 0, 0, 0, 0]"

definition normalmap :: "nat \<Rightarrow> u8" where
  "normalmap i =
     (if i < 88 then normalmap_tab ! i
      else case map_of [(0xC7, 0xE0), (0x9C, 0xA), (0xB5, 0x2F), (0xC8, 0xE2), (0xC9, 0xE6),
            (0xCB, 0xE4), (0xCD, 0xE5), (0xCF, 0xE1),
            (0xD0, 0xE3), (0xD1, 0xE7), (0xD2, 0xE8), (0xD3, 0xE9)] i of
          None \<Rightarrow> 0 | Some c \<Rightarrow> c)"

definition shiftmap_tab :: "u8 list" where
  "shiftmap_tab = [
     0, 0x1B, 0x21, 0x40, 0x23, 0x24, 0x25, 0x5E,
     0x26, 0x2A, 0x28, 0x29, 0x5F, 0x2B, 8, 9,
     0x51, 0x57, 0x45, 0x52, 0x54, 0x59, 0x55, 0x49,
     0x4F, 0x50, 0x7B, 0x7D, 0xA, 0, 0x41, 0x53,
     0x44, 0x46, 0x47, 0x48, 0x4A, 0x4B, 0x4C, 0x3A,
     0x22, 0x7E, 0, 0x7C, 0x5A, 0x58, 0x43, 0x56,
     0x42, 0x4E, 0x4D, 0x3C, 0x3E, 0x3F, 0, 0x2A,
     0, 0x20, 0, 0, 0, 0, 0, 0,
     0, 0, 0, 0, 0, 0, 0, 0x37,
     0x38, 0x39, 0x2D, 0x34, 0x35, 0x36, 0x2B, 0x31,
     0x32, 0x33, 0x30, 0x2E, 0, 0, 0, 0]"

definition shiftmap :: "nat \<Rightarrow> u8" where
  "shiftmap i =
     (if i < 88 then shiftmap_tab ! i
      else case map_of [(0xC7, 0xE0), (0x9C, 0xA), (0xB5, 0x2F), (0xC8, 0xE2), (0xC9, 0xE6),
            (0xCB, 0xE4), (0xCD, 0xE5), (0xCF, 0xE1),
            (0xD0, 0xE3), (0xD1, 0xE7), (0xD2, 0xE8), (0xD3, 0xE9)] i of
          None \<Rightarrow> 0 | Some c \<Rightarrow> c)"

definition ctlmap_tab :: "u8 list" where
  "ctlmap_tab = [
     0, 0, 0, 0, 0, 0, 0, 0,
     0, 0, 0, 0, 0, 0, 0, 0,
     0x11, 0x17, 5, 0x12, 0x14, 0x19, 0x15, 9,
     0xF, 0x10, 0, 0, 0xD, 0, 1, 0x13,
     4, 6, 7, 8, 0xA, 0xB, 0xC, 0,
     0, 0, 0, 0x1C, 0x1A, 0x18, 3, 0x16,
     2, 0xE, 0xD, 0, 0, 0xEF, 0, 0]"

definition ctlmap :: "nat \<Rightarrow> u8" where
  "ctlmap i =
     (if i < 56 then ctlmap_tab ! i
      else case map_of [(0x97, 0xE0), (0xB5, 0xEF), (0xC8, 0xE2), (0xC9, 0xE6),
            (0xCB, 0xE4), (0xCD, 0xE5), (0xCF, 0xE1),
            (0xD0, 0xE3), (0xD1, 0xE7), (0xD2, 0xE8), (0xD3, 0xE9)] i of
          None \<Rightarrow> 0 | Some c \<Rightarrow> c)"

definition charcode :: "nat \<Rightarrow> nat \<Rightarrow> u8" where
  "charcode k = (if k = 0 then normalmap else if k = 1 then shiftmap else ctlmap)"

text \<open>One byte from the keyboard.  The result is the character, or 0; the request to reboot on
  Ctrl-Alt-Del has no effect on the console.\<close>

definition kbd_proc_data :: "u8 \<Rightarrow> console \<Rightarrow> int \<times> console" where
  "kbd_proc_data data s =
     (let shift = kbd_shift s in
      if data = 0xE0 then (0, s\<lparr>kbd_shift := shift OR E0ESC\<rparr>)
      else if data AND 0x80 \<noteq> 0 then
        let data' = (if shift AND E0ESC \<noteq> 0 then data else data AND 0x7F)
        in (0, s\<lparr>kbd_shift := shift AND NOT (shiftcode (unat data') OR E0ESC)\<rparr>)
      else
        let data1 = (if shift AND E0ESC \<noteq> 0 then data OR 0x80 else data);
            shift1 = (if shift AND E0ESC \<noteq> 0 then shift AND NOT E0ESC else shift);
            shift2 = shift1 OR shiftcode (unat data1);
            shift3 = shift2 XOR togglecode (unat data1);
            c = uint (charcode (unat (shift3 AND (KBD_CTL OR KBD_SHIFT))) (unat data1));
            c' = (if shift3 AND CAPSLOCK \<noteq> 0 then
                    if 97 \<le> c \<and> c \<le> 122 then c - 32
                    else if 65 \<le> c \<and> c \<le> 90 then c + 32 else c
                  else c)
        in (c', s\<lparr>kbd_shift := shift3\<rparr>))"

definition serial_proc_data :: "u8 \<Rightarrow> console \<Rightarrow> int \<times> console" where
  "serial_proc_data data s = (uint data, s)"

section \<open>Input buffer\<close>

definition cons_put :: "u8 \<Rightarrow> console \<Rightarrow> console" where
  "cons_put c s =
     (let s1 = s\<lparr>cons_buf := (cons_buf s)(unat (cons_wpos s) := c), cons_wpos := cons_wpos s + 1\<rparr>
      in if unat (cons_wpos s1) = CONSBUFSIZE then s1\<lparr>cons_wpos := 0\<rparr> else s1)"

fun cons_intr :: "(u8 \<Rightarrow> console \<Rightarrow> int \<times> console) \<Rightarrow> u8 list \<Rightarrow> console \<Rightarrow> console" where
  "cons_intr proc [] s = s"
| "cons_intr proc (d # ds) s =
     (let (c, s1) = proc d s in
      if c = 0 then cons_intr proc ds s1
      else cons_intr proc ds (cons_put (word_of_int c) s1))"

definition serial_intr :: "u8 list \<Rightarrow> console \<Rightarrow> console" where
  "serial_intr ds s = (if serial_exists s then cons_intr serial_proc_data ds s else s)"

definition kbd_intr :: "u8 list \<Rightarrow> console \<Rightarrow> console" where
  "kbd_intr ds s = cons_intr kbd_proc_data ds s"

definition cons_take :: "console \<Rightarrow> int \<times> console" where
  "cons_take s =
     (if cons_rpos s \<noteq> cons_wpos s then
        let c = uint (cons_buf s (unat (cons_rpos s)));
            s1 = s\<lparr>cons_rpos := cons_rpos s + 1\<rparr>
        in (c, if unat (cons_rpos s1) = CONSBUFSIZE then s1\<lparr>cons_rpos := 0\<rparr> else s1)
      else (0, s))"

definition cons_getc :: "u8 list \<Rightarrow> u8 list \<Rightarrow> console \<Rightarrow> int \<times> console" where
  "cons_getc serial_data kbd_data s = cons_take (kbd_intr kbd_data (serial_intr serial_data s))"

section \<open>Output\<close>

definition serial_lpt_putc :: "u32 \<Rightarrow> console \<Rightarrow> console" where
  "serial_lpt_putc c s = s\<lparr>port_out := port_out s @ [ucast c]\<rparr>"

text \<open>The switch of \<open>cga_putc\<close> for all characters but the tab, and the code after it.\<close>

definition cga_char :: "u32 \<Rightarrow> console \<Rightarrow> console" where
  "cga_char c s =
     (let c1 = (if c AND NOT 0xFF = 0 then c OR 0x0700 else c);
          k = c1 AND 0xFF;
          col0 = (\<lambda>t. t\<lparr>crt_pos := crt_pos t - crt_pos t mod 80\<rparr>) in
      if k = 8 then
        if 0 < crt_pos s then
          let p = crt_pos s - 1
          in s\<lparr>crt_pos := p, crt_buf := (crt_buf s)(unat p := ucast ((c1 AND NOT 0xFF) OR 0x20))\<rparr>
        else s
      else if k = 10 then col0 (s\<lparr>crt_pos := crt_pos s + 80\<rparr>)
      else if k = 13 then col0 s
      else s\<lparr>crt_buf := (crt_buf s)(unat (crt_pos s) := ucast c1), crt_pos := crt_pos s + 1\<rparr>)"

definition cga_scroll :: "console \<Rightarrow> console" where
  "cga_scroll s =
     (if CRT_SIZE \<le> unat (crt_pos s) then
        s\<lparr>crt_buf := (\<lambda>i. if i < CRT_SIZE - CRT_COLS then crt_buf s (i + CRT_COLS)
                          else if i < CRT_SIZE then 0x0720 else crt_buf s i),
          crt_pos := crt_pos s - 80\<rparr>
      else s)"

text \<open>A tab is five calls of \<open>cons_putc\<close> with a space, each of which goes to all devices.\<close>

definition cga_putc :: "u32 \<Rightarrow> console \<Rightarrow> console" where
  "cga_putc c s =
     (if c AND 0xFF = 9
      then cga_scroll (((\<lambda>t. cga_scroll (cga_char 32 (serial_lpt_putc 32 t))) ^^ 5) s)
      else cga_scroll (cga_char c s))"

definition cons_putc :: "u32 \<Rightarrow> console \<Rightarrow> console" where
  "cons_putc c s = cga_putc c (serial_lpt_putc c s)"

section \<open>The clock\<close>

definition time_tick :: "u32 \<Rightarrow> u32 option" where
  "time_tick ticks = (let t = ticks + 1 in if t * 10 < t then None else Some t)"

definition time_msec :: "u32 \<Rightarrow> u32" where
  "time_msec ticks = ticks * 10"

text \<open>The overflow test of \<open>time_tick\<close> panics before the first wrap-around of \<open>ticks * 10\<close>: as long
  as the kernel runs, \<open>time_msec\<close> is exactly ten times the number of ticks.\<close>

lemma unat_times_10: "unat (x :: u32) \<le> 429496729 \<Longrightarrow> unat (x * 10) = unat x * 10"
  by (simp add: unat_word_ariths)

lemma time_tick_exact:
  assumes "unat t \<le> 429496729"
  shows "time_tick t = (if unat t = 429496729 then None else Some (t + 1))"
proof (cases "unat t = 429496729")
  case True
  have "t = of_nat (unat t)" by simp
  also have "\<dots> = 429496729" unfolding True by simp
  finally have "t = 429496729" .
  then show ?thesis by (simp add: time_tick_def)
next
  case False
  with assms have t: "unat t + 1 \<le> 429496729" by simp
  then have u: "unat (t + 1) = unat t + 1" by (simp add: unat_word_ariths)
  then have "unat ((t + 1) * 10) = (unat t + 1) * 10"
    using t unat_times_10 [of "t + 1"] by simp
  then have "\<not> (t + 1) * 10 < t + 1" using u by (simp add: word_less_nat_alt)
  with False show ?thesis by (simp add: time_tick_def Let_def)
qed

lemma time_msec_exact: "unat t \<le> 429496729 \<Longrightarrow> unat (time_msec t) = 10 * unat t"
  by (simp add: time_msec_def unat_times_10)

section \<open>The input buffer is a queue\<close>

definition cons_pending :: "console \<Rightarrow> u8 list" where
  "cons_pending s = ring_list (cons_buf s) CONSBUFSIZE (unat (cons_rpos s))
     ((unat (cons_wpos s) + CONSBUFSIZE - unat (cons_rpos s)) mod CONSBUFSIZE)"

definition cons_ok :: "console \<Rightarrow> bool" where
  "cons_ok s \<longleftrightarrow> unat (cons_rpos s) < CONSBUFSIZE \<and> unat (cons_wpos s) < CONSBUFSIZE"

lemma unat_inc: "unat (w :: u32) < 512 \<Longrightarrow> unat (w + 1) = unat w + 1"
  by (simp add: unat_word_ariths)

lemma cons_put_wpos:
  "cons_ok s \<Longrightarrow> unat (cons_wpos (cons_put c s)) = (unat (cons_wpos s) + 1) mod CONSBUFSIZE"
  using unat_inc [of "cons_wpos s"] by (auto simp: cons_put_def cons_ok_def Let_def)

lemma cons_put_rest: "cons_rpos (cons_put c s) = cons_rpos s"
  "cons_buf (cons_put c s) = (cons_buf s)(unat (cons_wpos s) := c)"
  by (simp_all add: cons_put_def Let_def)

lemma cons_put_ok: "cons_ok s \<Longrightarrow> cons_ok (cons_put c s)"
  using cons_put_wpos [of s c] by (simp add: cons_ok_def cons_put_rest)

definition cons_count :: "nat \<Rightarrow> nat \<Rightarrow> nat" where
  "cons_count w r = (w + CONSBUFSIZE - r) mod CONSBUFSIZE"

lemma cons_count_eq:
  "r < CONSBUFSIZE \<Longrightarrow> w < CONSBUFSIZE \<Longrightarrow>
   cons_count w r = (if r \<le> w then w - r else w + CONSBUFSIZE - r)"
  by (auto simp: cons_count_def le_mod_geq)

lemma cons_put_pending:
  assumes "cons_ok s"
  shows "cons_pending (cons_put c s) =
    (if length (cons_pending s) = CONSBUFSIZE - 1 then [] else cons_pending s @ [c])"
proof -
  let ?r = "unat (cons_rpos s)" and ?w = "unat (cons_wpos s)"
  have rw: "?r < CONSBUFSIZE" "?w < CONSBUFSIZE" using assms by (auto simp: cons_ok_def)
  define k where "k = cons_count ?w ?r"
  have k: "k < CONSBUFSIZE" "(?r + k) mod CONSBUFSIZE = ?w"
    using rw by (auto simp: k_def cons_count_eq)
  have k': "cons_count ((?w + 1) mod CONSBUFSIZE) ?r = (if k = CONSBUFSIZE - 1 then 0 else Suc k)"
    using rw unfolding k_def by (cases "?w = 511") (auto simp: cons_count_eq)
  have p: "cons_pending (cons_put c s) =
      ring_list ((cons_buf s)(?w := c)) CONSBUFSIZE ?r (if k = CONSBUFSIZE - 1 then 0 else Suc k)"
    using k' cons_put_wpos [OF assms, of c] by (simp add: cons_pending_def cons_put_rest cons_count_def)
  have q: "cons_pending s = ring_list (cons_buf s) CONSBUFSIZE ?r k"
    by (simp add: cons_pending_def k_def cons_count_def)
  show ?thesis
    using ring_list_put [OF k(1), of "cons_buf s" ?r c] k p q by simp
qed

lemma cons_take_pending:
  assumes "cons_ok s"
  shows "cons_ok (snd (cons_take s)) \<and>
    (case cons_pending s of [] \<Rightarrow> cons_take s = (0, s)
     | c # cs \<Rightarrow> fst (cons_take s) = uint c \<and> cons_pending (snd (cons_take s)) = cs)"
proof -
  let ?r = "unat (cons_rpos s)" and ?w = "unat (cons_wpos s)"
  have rw: "?r < CONSBUFSIZE" "?w < CONSBUFSIZE" using assms by (auto simp: cons_ok_def)
  have q: "cons_pending s = ring_list (cons_buf s) CONSBUFSIZE ?r (cons_count ?w ?r)"
    by (simp add: cons_pending_def cons_count_def)
  show ?thesis
  proof (cases "?r = ?w")
    case True
    then have "cons_take s = (0, s)" by (simp add: cons_take_def word_unat_eq_iff)
    moreover have "cons_pending s = []" using True rw q by (simp add: cons_count_eq)
    ultimately show ?thesis using assms by simp
  next
    case False
    define r' where "r' = (?r + 1) mod CONSBUFSIZE"
    have t: "fst (cons_take s) = uint (cons_buf s ?r)" "cons_buf (snd (cons_take s)) = cons_buf s"
      "cons_wpos (snd (cons_take s)) = cons_wpos s" "unat (cons_rpos (snd (cons_take s))) = r'"
      using False unat_inc [OF rw(1)] rw(1) unfolding r'_def
      by (auto simp: cons_take_def Let_def word_unat_eq_iff)
    have r': "r' < CONSBUFSIZE" by (simp add: r'_def)
    have "cons_count ?w ?r = Suc (cons_count ?w r')"
      using rw False r' by (cases "?r = 511") (auto simp: cons_count_eq r'_def)
    then have "cons_pending s = cons_buf s ?r # ring_list (cons_buf s) CONSBUFSIZE (Suc ?r) (cons_count ?w r')"
      using rw q by (simp add: ring_list_Suc)
    moreover have "ring_list (cons_buf s) CONSBUFSIZE (Suc ?r) (cons_count ?w r') = cons_pending (snd (cons_take s))"
      using t ring_list_mod [of "cons_buf s" CONSBUFSIZE "Suc ?r" "cons_count ?w r'"]
      by (simp add: cons_pending_def cons_count_def r'_def)
    ultimately show ?thesis using t(1,3,4) rw r' by (simp add: cons_ok_def)
  qed
qed

interpretation cons_fifo: bounded_fifo cons_ok cons_pending "CONSBUFSIZE - 1"
  "\<lambda>c s. if length (cons_pending s) = CONSBUFSIZE - 1 then None else Some (cons_put c s)"
  "\<lambda>s. if cons_pending s = [] then None else Some (word_of_int (fst (cons_take s)), snd (cons_take s))"
proof (unfold_locales, goal_cases)
  case (1 s x s')
  then show ?case using cons_put_pending [of s x] cons_put_ok [of s x] by (auto split: if_splits)
next
  case (2 s x)
  then show ?case by simp
next
  case (3 s x s')
  then show ?case using cons_take_pending [of s] by (cases "cons_pending s") auto
next
  case (4 s)
  then show ?case by simp
qed

section \<open>The cursor stays on the screen\<close>

lemma cga_scroll_pos: "unat (crt_pos s) < CRT_SIZE + CRT_COLS \<Longrightarrow> unat (crt_pos (cga_scroll s)) < CRT_SIZE"
  by (auto simp: cga_scroll_def unat_sub_if' word_le_nat_alt)

lemma cga_char_pos: "unat (crt_pos s) < CRT_SIZE \<Longrightarrow> unat (crt_pos (cga_char c s)) < CRT_SIZE + CRT_COLS"
proof -
  assume p: "unat (crt_pos s) < CRT_SIZE"
  have m: "unat (w - w mod 80 :: u16) \<le> unat w" for w
    by (simp add: unat_sub_if' unat_mod)
  have a: "unat (crt_pos s + 80) = unat (crt_pos s) + 80" "unat (crt_pos s + 1) = unat (crt_pos s) + 1"
    using p by (simp_all add: unat_word_ariths)
  have b: "unat (crt_pos s - 1) \<le> unat (crt_pos s)" if "0 < crt_pos s"
    using that by (simp add: unat_sub_if' word_less_nat_alt)
  show ?thesis
    using p a b m [of "crt_pos s + 80"] m [of "crt_pos s"]
    by (auto simp: cga_char_def Let_def)
qed

lemma cga_step_pos: "unat (crt_pos s) < CRT_SIZE \<Longrightarrow> unat (crt_pos (cga_scroll (cga_char c s))) < CRT_SIZE"
  by (rule cga_scroll_pos [OF cga_char_pos])

lemma cons_putc_pos:
  assumes "unat (crt_pos s) < CRT_SIZE"
  shows "unat (crt_pos (cons_putc c s)) < CRT_SIZE"
proof -
  have port: "crt_pos (serial_lpt_putc c' t) = crt_pos t" for c' t by (simp add: serial_lpt_putc_def)
  have tab: "unat (crt_pos (((\<lambda>t. cga_scroll (cga_char 32 (serial_lpt_putc 32 t))) ^^ n) t)) < CRT_SIZE"
    if "unat (crt_pos t) < CRT_SIZE" for n t
    using that by (induction n) (auto intro!: cga_step_pos simp: port)
  have "unat (crt_pos (cga_scroll t)) < CRT_SIZE" if "unat (crt_pos t) < CRT_SIZE" for t
    by (rule cga_scroll_pos) (use that in simp)
  then show ?thesis
    using assms tab cga_step_pos by (auto simp: cons_putc_def cga_putc_def port)
qed

section \<open>Properties\<close>

text \<open>An idle console.\<close>

definition idle_console :: console where
  "idle_console = \<lparr>cons_buf = (\<lambda>_. 0), cons_rpos = 0, cons_wpos = 0, kbd_shift = 0, serial_exists = True,
     crt_buf = (\<lambda>_. 0), crt_pos = 1999, port_out = []\<rparr>"

lemma idle_console_ok: "cons_ok idle_console" "cons_pending idle_console = []"
  by (simp_all add: cons_ok_def cons_pending_def idle_console_def ring_list_def)

text \<open>The console input buffer is a queue: for any sequence of characters put by the interrupt
  handlers while fewer than 511 are pending and characters taken by \<open>cons_getc\<close>, what is taken is
  what was put, in order, without loss or duplication.\<close>

theorem cons_input_queue:
  assumes "cons_ok s"
    and "run_io (\<lambda>c s. if length (cons_pending s) = CONSBUFSIZE - 1 then None else Some (cons_put c s))
      (\<lambda>s. if cons_pending s = [] then None else Some (word_of_int (fst (cons_take s)), snd (cons_take s)))
      ops s = (ins, outs, t)"
  shows "cons_ok t \<and> cons_pending s @ ins = outs @ cons_pending t"
  by (rule cons_fifo.run_io_fifo [OF assms])

theorem cons_input_queue_witness:
  "\<exists>outs t. run_io (\<lambda>c s. if length (cons_pending s) = CONSBUFSIZE - 1 then None else Some (cons_put c s))
      (\<lambda>s. if cons_pending s = [] then None else Some (word_of_int (fst (cons_take s)), snd (cons_take s)))
      [Put 65, Put 66, Get] idle_console = ([65, 66], outs, t) \<and> [65, 66] = outs @ cons_pending t"
proof -
  let ?put = "\<lambda>c s. if length (cons_pending s) = CONSBUFSIZE - 1 then None else Some (cons_put c s)"
  let ?get = "\<lambda>s. if cons_pending s = [] then None else Some (word_of_int (fst (cons_take s)) :: u8, snd (cons_take s))"
  have p1: "cons_pending (cons_put 65 idle_console) = [65]" "cons_ok (cons_put 65 idle_console)"
    using cons_put_pending [OF idle_console_ok(1), of 65] cons_put_ok [OF idle_console_ok(1), of 65]
    by (simp_all add: idle_console_ok)
  have p2: "cons_pending (cons_put 66 (cons_put 65 idle_console)) = [65, 66]"
    using cons_put_pending [OF p1(2), of 66] by (simp add: p1)
  obtain outs t where r: "run_io ?put ?get [Put 65, Put 66, Get] idle_console = ([65, 66], outs, t)"
    by (simp add: idle_console_ok p1 p2)
  with cons_input_queue [OF idle_console_ok(1) r] show ?thesis by (auto simp: idle_console_ok)
qed

text \<open>A character that arrives when 511 are pending makes the buffer look empty: all 512
  characters are lost.\<close>

theorem cons_overflow_empties:
  assumes "cons_ok s" "length (cons_pending s) = CONSBUFSIZE - 1"
  shows "cons_pending (cons_put c s) = [] \<and> cons_take (cons_put c s) = (0, cons_put c s)"
proof -
  have e: "cons_pending (cons_put c s) = []" using cons_put_pending [OF assms(1)] assms(2) by simp
  have "cons_ok (cons_put c s)" by (rule cons_put_ok [OF assms(1)])
  from cons_take_pending [OF this] e show ?thesis by simp
qed

theorem cons_overflow_empties_witness:
  "cons_pending (cons_put 65 (idle_console\<lparr>cons_wpos := 511\<rparr>)) = []"
proof -
  let ?s = "idle_console\<lparr>cons_wpos := 511\<rparr>"
  have "cons_ok ?s" "length (cons_pending ?s) = CONSBUFSIZE - 1"
    by (simp_all add: cons_ok_def cons_pending_def idle_console_def ring_list_def)
  from cons_overflow_empties [OF this] show ?thesis by blast
qed

text \<open>Writing a character of any value, tabs, newlines and backspaces included, leaves the cursor
  on the screen.\<close>

theorem cons_putc_in_bounds:
  assumes "unat (crt_pos s) < CRT_SIZE"
  shows "unat (crt_pos (cons_putc c s)) < CRT_SIZE"
  by (rule cons_putc_pos [OF assms])

theorem cons_putc_in_bounds_witness: "unat (crt_pos (cons_putc 9 idle_console)) < CRT_SIZE"
  by (rule cons_putc_in_bounds) (simp add: idle_console_def)

text \<open>After any number of timer interrupts from the start, either the kernel has panicked, which
  happens exactly at tick 429496730, or \<open>time_msec\<close> is exactly ten times the number of ticks: the
  panic comes before the clock wraps around.\<close>

theorem clock_never_wraps:
  "((\<lambda>t. Option.bind t time_tick) ^^ n) (Some 0) =
     (if n \<le> 429496729 then Some (of_nat n) else None) \<and>
   (if n \<le> 429496729 then unat (time_msec (of_nat n)) = 10 * n else True)"
proof (induction n)
  case 0
  show ?case by (simp add: time_msec_def)
next
  case (Suc n)
  have u: "unat (of_nat k :: u32) = k" if "k \<le> 429496729" for k using that by (simp add: unat_of_nat)
  have "time_tick (of_nat n) = (if n = 429496729 then None else Some (of_nat (Suc n)))" if "n \<le> 429496729"
    using time_tick_exact [of "of_nat n"] u [OF that] that by (simp add: add.commute)
  moreover have "unat (time_msec (of_nat (Suc n))) = 10 * Suc n" if "Suc n \<le> 429496729"
    using time_msec_exact [of "of_nat (Suc n)"] u [OF that] that by simp
  ultimately show ?case using Suc by (auto split: if_splits)
qed

end
