(* ===== verification/Kern_E1000.thy ===== *)
theory Kern_E1000
  imports Kern_Env
begin

text \<open>
  The driver of the E1000 network card, \<^verbatim>\<open>kern/e1000.c\<close>: the transmit and receive descriptor
  rings, \<open>initializeTxDescriptors\<close>, \<open>initializeRxDescriptors\<close>, \<open>pci_transmit_packet\<close>,
  \<open>pci_receive_packet\<close> and the register setup of \<open>pci_func_attach_E1000\<close>.

  The packet buffers are physical page frames of the kernel state; packets come from and go to
  user memory, through the page table in \<open>cr3\<close>.  The card itself is not modelled: it is the
  environment that sets the descriptor-done bits and fills receive buffers between calls.  The
  debugging output is left out.
\<close>

record tx_desc =
  tx_addr :: u64
  tx_length :: u16
  tx_cso :: u8
  tx_cmd :: u8
  tx_status :: u8
  tx_css :: u8
  tx_special :: u16

record rx_desc =
  rx_addr :: u64
  rx_length :: u16
  rx_chcksum :: u16
  rx_status :: u8
  rx_errors :: u8
  rx_special :: u16

record nstate = kstate +
  txDescArr :: "nat \<Rightarrow> tx_desc"
  rxDescArr :: "nat \<Rightarrow> rx_desc"
  tx_desc_tail :: nat
  rx_desc_tail :: nat
  map_region :: "nat \<Rightarrow> u32"

abbreviation NUM_TX_DESC :: nat where "NUM_TX_DESC \<equiv> 64"
abbreviation NUM_RX_DESC :: nat where "NUM_RX_DESC \<equiv> 64"
abbreviation E1000_TXD_BUFFER_LENGTH :: nat where "E1000_TXD_BUFFER_LENGTH \<equiv> 0x5EE"

section \<open>Bytes of page frames and of user memory\<close>

definition get_byte :: "nat \<Rightarrow> u64 \<Rightarrow> u8" where
  "get_byte i w = ucast (drop_bit (8 * i) w)"

definition frame_byte :: "(nat \<Rightarrow> nat \<Rightarrow> u64) \<Rightarrow> nat \<Rightarrow> nat \<Rightarrow> u8" where
  "frame_byte m f i = get_byte (i mod 8) (m f (i div 8))"

definition frame_store :: "nat \<Rightarrow> nat \<Rightarrow> u8 \<Rightarrow> (nat \<Rightarrow> nat \<Rightarrow> u64) \<Rightarrow> (nat \<Rightarrow> nat \<Rightarrow> u64)" where
  "frame_store f i b m = m(f := (m f)(i div 8 := set_byte (i mod 8) b (m f (i div 8))))"

definition user_load :: "nat \<Rightarrow> u64 \<Rightarrow> 'a pstate_scheme \<Rightarrow> u8 option" where
  "user_load root va s =
     (let pte = pte_at (kmem s) root va
      in if pte AND PTE_P = 0 \<or> fr pte \<ge> npages s then None
         else Some (frame_byte (kmem s) (fr pte) (unat (va AND 0xFFF))))"

text \<open>\<open>memmove\<close> from user memory into a frame, and from a frame to user memory.  The regions
  do not overlap, so the direction of the copy does not matter.\<close>

fun copy_in :: "nat \<Rightarrow> nat \<Rightarrow> nat \<Rightarrow> nat \<Rightarrow> u64 \<Rightarrow> 'a pstate_scheme \<Rightarrow> 'a pstate_scheme option" where
  "copy_in 0 f off root va s = Some s"
| "copy_in (Suc n) f off root va s = do {
     b \<leftarrow> user_load root va s;
     copy_in n f (Suc off) root (va + 1) (s\<lparr>kmem := frame_store f off b (kmem s)\<rparr>) }"

fun copy_out :: "nat \<Rightarrow> nat \<Rightarrow> nat \<Rightarrow> nat \<Rightarrow> u64 \<Rightarrow> 'a pstate_scheme \<Rightarrow> 'a pstate_scheme option" where
  "copy_out 0 f off root va s = Some s"
| "copy_out (Suc n) f off root va s = do {
     s1 \<leftarrow> user_store root va (frame_byte (kmem s) f off) s;
     copy_out n f (Suc off) root (va + 1) s1 }"

definition cur_root :: "'a kstate_scheme \<Rightarrow> nat" where
  "cur_root s = PPN (cr3 s)"

section \<open>The driver\<close>

definition upd_tx :: "nat \<Rightarrow> (tx_desc \<Rightarrow> tx_desc) \<Rightarrow> 'a nstate_scheme \<Rightarrow> 'a nstate_scheme" where
  "upd_tx i f s = s\<lparr>txDescArr := (txDescArr s)(i := f (txDescArr s i))\<rparr>"

definition upd_rx :: "nat \<Rightarrow> (rx_desc \<Rightarrow> rx_desc) \<Rightarrow> 'a nstate_scheme \<Rightarrow> 'a nstate_scheme" where
  "upd_rx i f s = s\<lparr>rxDescArr := (rxDescArr s)(i := f (rxDescArr s i))\<rparr>"

definition set_reg :: "nat \<Rightarrow> u32 \<Rightarrow> 'a nstate_scheme \<Rightarrow> 'a nstate_scheme" where
  "set_reg off v s = s\<lparr>map_region := (map_region s)(off div 4 := v)\<rparr>"

text \<open>The result of \<open>page_alloc\<close> is not tested: \<open>page2pa\<close> of a null page is not a page
  (\<open>None\<close>).\<close>

fun initializeTxDescriptors_loop :: "nat list \<Rightarrow> 'a nstate_scheme \<Rightarrow> 'a nstate_scheme option" where
  "initializeTxDescriptors_loop [] s = Some s"
| "initializeTxDescriptors_loop (i # is) s = do {
     (pg, s1) \<leftarrow> page_alloc 1 s;
     p \<leftarrow> pg;
     initializeTxDescriptors_loop is
       (upd_tx i (\<lambda>d. d\<lparr>tx_addr := page2pa p, tx_cmd := 0x09,
          tx_length := of_nat E1000_TXD_BUFFER_LENGTH, tx_status := 1\<rparr>) s1) }"

definition initializeTxDescriptors :: "'a nstate_scheme \<Rightarrow> 'a nstate_scheme option" where
  "initializeTxDescriptors s = initializeTxDescriptors_loop [0..<NUM_TX_DESC] s"

fun initializeRxDescriptors_loop :: "nat list \<Rightarrow> 'a nstate_scheme \<Rightarrow> 'a nstate_scheme option" where
  "initializeRxDescriptors_loop [] s = Some s"
| "initializeRxDescriptors_loop (i # is) s = do {
     (pg, s1) \<leftarrow> page_alloc 1 s;
     p \<leftarrow> pg;
     initializeRxDescriptors_loop is (upd_rx i (\<lambda>d. d\<lparr>rx_addr := page2pa p\<rparr>) s1) }"

definition initializeRxDescriptors :: "'a nstate_scheme \<Rightarrow> 'a nstate_scheme option" where
  "initializeRxDescriptors s = initializeRxDescriptors_loop [0..<NUM_RX_DESC] s"

definition pci_transmit_packet :: "u64 \<Rightarrow> nat \<Rightarrow> 'a nstate_scheme \<Rightarrow> (int \<times> 'a nstate_scheme) option" where
  "pci_transmit_packet src n s =
     (let tail = tx_desc_tail s in
      if n > E1000_TXD_BUFFER_LENGTH then Some (- 1, s)
      else if tx_status (txDescArr s tail) AND 1 = 0 then Some (- 1, s)
      else do {
        p \<leftarrow> pa2page s (tx_addr (txDescArr s tail));
        kva \<leftarrow> page2kva s p;
        s1 \<leftarrow> copy_in n p 0 (cur_root s) src s;
        let s2 = upd_tx tail (\<lambda>d. d\<lparr>tx_length := of_nat n, tx_status := 0\<rparr>) s1;
        let s3 = s2\<lparr>tx_desc_tail := (tail + 1) mod NUM_TX_DESC\<rparr>;
        Some (0, set_reg 0x3818 (of_nat (tx_desc_tail s3)) s3) })"

definition pci_receive_packet :: "u64 \<Rightarrow> 'a nstate_scheme \<Rightarrow> (int \<times> 'a nstate_scheme) option" where
  "pci_receive_packet dst s =
     (let temp_rx_desc_tail = rx_desc_tail s;
          tail = (rx_desc_tail s + 1) mod NUM_RX_DESC;
          s1 = s\<lparr>rx_desc_tail := tail\<rparr> in
      if rx_status (rxDescArr s tail) AND 1 = 0
      then Some (- 1, s1\<lparr>rx_desc_tail := temp_rx_desc_tail\<rparr>)
      else if rx_status (rxDescArr s tail) AND 2 = 0 then None
      else do {
        let n = unat (rx_length (rxDescArr s tail));
        p \<leftarrow> pa2page s1 (rx_addr (rxDescArr s tail));
        kva \<leftarrow> page2kva s1 p;
        s2 \<leftarrow> copy_out n p 0 (cur_root s) dst s1;
        let s3 = upd_rx tail (\<lambda>d. d\<lparr>rx_status := rx_status d AND 0xFC\<rparr>) s2;
        Some (int n, set_reg 0x2818 (of_nat tail) s3) })"

text \<open>\<open>pci_func_enable\<close> (\<^verbatim>\<open>kern/pci.c\<close>) programs the base registers of the device; \<open>reg_base\<close>
  and \<open>reg_size\<close> are the values it leaves in \<open>f\<close>.  \<open>tx_pa\<close> and \<open>rx_pa\<close> are the physical
  addresses of the two descriptor arrays.\<close>

definition pci_func_attach_E1000 ::
  "u32 \<Rightarrow> u32 \<Rightarrow> u32 \<Rightarrow> u32 \<Rightarrow> 'a nstate_scheme \<Rightarrow> (int \<times> 'a nstate_scheme) option" where
  "pci_func_attach_E1000 reg_base reg_size tx_pa rx_pa s = do {
     (base, s1) \<leftarrow> mmio_map_region (Some (boot_pml4e s)) (ucast reg_base) (ucast reg_size) s;
     let s2 = set_reg 0x3818 0 (set_reg 0x3810 0 s1);
     let s3 = set_reg 0x410 0x60200A (set_reg 0x400 0x4008A s2);
     let s4 = set_reg 0x3808 (of_nat (NUM_TX_DESC * 16)) (set_reg 0x3800 tx_pa s3);
     let s5 = set_reg 0x2818 0 (set_reg 0x2810 1 s4);
     let s6 = set_reg 0x100 0x4008002 s5;
     let s7 = set_reg 0x2808 (of_nat (NUM_RX_DESC * 16)) (set_reg 0x2800 rx_pa s6);
     let s8 = set_reg 0x5200 0 s7;
     let s9 = set_reg 0x5404 (0x5634 OR 0x80000000) (set_reg 0x5400 0x12005452 s8);
     s10 \<leftarrow> initializeTxDescriptors s9;
     s11 \<leftarrow> initializeRxDescriptors s10;
     Some (0, s11) }"

section \<open>Bytes\<close>

lemma get_set_byte:
  assumes "i < 8" "j < 8"
  shows "get_byte j (set_byte i b w) = (if i = j then b else get_byte j w)"
proof (rule bit_word_eqI)
  fix n assume "n < LENGTH(8)"
  then have n: "n < 8" by simp
  have F: "(0xFF :: u64) = mask 8" by (simp add: mask_eq_exp_minus_1)
  have "8 * j + n < 64" using assms n by simp
  moreover have "8 * i \<le> 8 * j + n \<and> 8 * j + n - 8 * i < 8 \<longleftrightarrow> i = j" using n by auto
  moreover have "bit b k \<Longrightarrow> k < 8" for k using bit_imp_le_length [of b k] by simp
  ultimately show "bit (get_byte j (set_byte i b w)) n = bit (if i = j then b else get_byte j w) n"
    using n unfolding get_byte_def set_byte_def F
    by (auto simp: bit_simps simp del: mask_numeral)
qed

lemma frame_byte_store:
  "frame_byte (frame_store f i b m) g j = (if g = f \<and> j = i then b else frame_byte m g j)"
proof -
  have "i div 8 = j div 8 \<Longrightarrow> i mod 8 = j mod 8 \<Longrightarrow> i = j" by (metis div_mult_mod_eq)
  then show ?thesis
    by (auto simp: frame_byte_def frame_store_def get_set_byte)
qed

lemma frame_store_other: "g \<noteq> f \<Longrightarrow> frame_store f i b m g = m g"
  by (simp add: frame_store_def)

text \<open>Writing a frame that no walk of an address uses does not change what the address
  translates to.\<close>

lemma path_frame:
  "(\<forall>j < k. path m root va j \<noteq> Some p) \<Longrightarrow> (\<forall>f. f \<noteq> p \<longrightarrow> m' f = m f) \<Longrightarrow>
   path m' root va k = path m root va k"
proof (induction k)
  case (Suc k)
  then have IH: "path m' root va k = path m root va k" by simp
  show ?case
  proof (cases "path m root va k")
    case (Some t)
    with Suc.prems have "t \<noteq> p" by auto
    with Suc.prems(2) IH Some show ?thesis by simp
  qed (simp add: IH)
qed simp

lemma pte_at_frame:
  assumes "\<forall>j \<le> 3. path m root va j \<noteq> Some p" "\<forall>f. f \<noteq> p \<longrightarrow> m' f = m f"
  shows "pte_at m' root va = pte_at m root va"
proof -
  have "path m' root va 3 = path m root va 3" using assms by (intro path_frame) auto
  moreover have "m' t = m t" if "path m root va 3 = Some t" for t using assms that by auto
  ultimately show ?thesis by (simp add: pte_at_def split: option.split)
qed

section \<open>Copies\<close>

text \<open>The bytes at \<open>va\<close> are readable and neither they nor the tables that map them lie in
  frame \<open>p\<close>.\<close>

definition reads_avoiding :: "'a pstate_scheme \<Rightarrow> nat \<Rightarrow> nat \<Rightarrow> u64 \<Rightarrow> u8 \<Rightarrow> bool" where
  "reads_avoiding s p root va b \<longleftrightarrow> user_load root va s = Some b \<and>
     (\<forall>j \<le> 3. path (kmem s) root va j \<noteq> Some p) \<and> fr (pte_at (kmem s) root va) \<noteq> p"

lemma reads_avoiding_frame:
  assumes "reads_avoiding s p root va b"
  shows "reads_avoiding (s\<lparr>kmem := frame_store p i c (kmem s)\<rparr>) p root va b"
proof -
  let ?m = "frame_store p i c (kmem s)"
  have o: "\<forall>f. f \<noteq> p \<longrightarrow> ?m f = kmem s f" by (simp add: frame_store_other)
  have a: "\<forall>j \<le> 3. path (kmem s) root va j \<noteq> Some p" using assms by (simp add: reads_avoiding_def)
  have "path ?m root va j = path (kmem s) root va j" if "j \<le> 3" for j
    using a that by (intro path_frame [OF _ o]) auto
  moreover have "pte_at ?m root va = pte_at (kmem s) root va" by (rule pte_at_frame [OF a o])
  moreover have "?m (fr (pte_at (kmem s) root va)) = kmem s (fr (pte_at (kmem s) root va))"
    using o assms by (simp add: reads_avoiding_def)
  ultimately show ?thesis
    using assms by (auto simp: reads_avoiding_def user_load_def Let_def frame_byte_def split: if_splits)
qed

lemma copy_in_spec:
  assumes "\<forall>i < length bs. reads_avoiding s p root (va + of_nat i) (bs ! i)"
  shows "\<exists>m. copy_in (length bs) p off root va s = Some (s\<lparr>kmem := m\<rparr>) \<and>
    (\<forall>f. f \<noteq> p \<longrightarrow> m f = kmem s f) \<and>
    (\<forall>j. frame_byte m p j = (if off \<le> j \<and> j < off + length bs then bs ! (j - off) else frame_byte (kmem s) p j))"
  using assms
proof (induction bs arbitrary: s va off)
  case Nil
  then show ?case by (intro exI [of _ "kmem s"]) auto
next
  case (Cons b bs)
  let ?s = "s\<lparr>kmem := frame_store p off b (kmem s)\<rparr>"
  have b: "user_load root va s = Some b" using Cons.prems by (auto simp: reads_avoiding_def)
  have "reads_avoiding ?s p root (va + 1 + of_nat i) (bs ! i)" if "i < length bs" for i
    using Cons.prems [rule_format, of "Suc i"] that by (intro reads_avoiding_frame) (simp add: add.assoc)
  then obtain m where m: "copy_in (length bs) p (Suc off) root (va + 1) ?s = Some (?s\<lparr>kmem := m\<rparr>)"
    "\<forall>f. f \<noteq> p \<longrightarrow> m f = frame_store p off b (kmem s) f"
    "\<forall>j. frame_byte m p j = (if Suc off \<le> j \<and> j < Suc off + length bs then bs ! (j - Suc off)
       else frame_byte (frame_store p off b (kmem s)) p j)"
    using Cons.IH [of ?s "va + 1" "Suc off"] by auto
  have "frame_byte m p j = (if off \<le> j \<and> j < off + length (b # bs) then (b # bs) ! (j - off)
      else frame_byte (kmem s) p j)" for j
    using m(3) [rule_format, of j] by (cases "j = off") (auto simp: frame_byte_store nth_Cons')
  with m b show ?case by (intro exI [of _ m]) (auto simp: frame_store_other)
qed

section \<open>Transmission\<close>

text \<open>The transmit ring: the next slot is inside the ring and every descriptor has a page.\<close>

definition tx_ok :: "'a nstate_scheme \<Rightarrow> bool" where
  "tx_ok s \<longleftrightarrow> tx_desc_tail s < NUM_TX_DESC \<and> npages s \<le> 2 ^ 32 \<and>
     (\<forall>i < NUM_TX_DESC. \<exists>p < npages s. tx_addr (txDescArr s i) = page2pa p)"

lemma transmit_spec:
  assumes ok: "tx_ok s" and free: "tx_status (txDescArr s (tx_desc_tail s)) AND 1 \<noteq> 0"
    and p: "tx_addr (txDescArr s (tx_desc_tail s)) = page2pa p" "p < npages s"
    and n: "length bs \<le> E1000_TXD_BUFFER_LENGTH"
    and src: "\<forall>i < length bs. reads_avoiding s p (cur_root s) (src + of_nat i) (bs ! i)"
  shows "\<exists>s'. pci_transmit_packet src (length bs) s = Some (0, s') \<and> tx_ok s' \<and>
    (\<forall>j < length bs. frame_byte (kmem s') p j = bs ! j) \<and>
    txDescArr s' = (txDescArr s)(tx_desc_tail s := (txDescArr s (tx_desc_tail s))
        \<lparr>tx_length := of_nat (length bs), tx_status := 0\<rparr>) \<and>
    tx_desc_tail s' = (tx_desc_tail s + 1) mod NUM_TX_DESC \<and>
    map_region s' (0x3818 div 4) = of_nat (tx_desc_tail s')"
proof -
  have np: "npages s \<le> 2 ^ 32" using ok by (simp add: tx_ok_def)
  obtain m where m: "copy_in (length bs) p 0 (cur_root s) src s = Some (s\<lparr>kmem := m\<rparr>)"
    "\<forall>j. frame_byte m p j = (if j < length bs then bs ! j else frame_byte (kmem s) p j)"
    using copy_in_spec [OF src, of 0] by auto
  define t where "t = tx_desc_tail s"
  define s' where "s' = set_reg 0x3818 (of_nat ((t + 1) mod NUM_TX_DESC))
    ((upd_tx t (\<lambda>d. d\<lparr>tx_length := of_nat (length bs), tx_status := 0\<rparr>) (s\<lparr>kmem := m\<rparr>))
       \<lparr>tx_desc_tail := (t + 1) mod NUM_TX_DESC\<rparr>)"
  have "pci_transmit_packet src (length bs) s = Some (0, s')"
    using m(1) free n pa2page_page2pa [OF p(2) np] KADDR_page2pa [OF p(2) np] p(1)
    by (simp add: pci_transmit_packet_def Let_def page2kva_def s'_def t_def)
  moreover have "tx_ok s'"
    using ok by (auto simp: tx_ok_def s'_def set_reg_def upd_tx_def)
  ultimately show ?thesis
    using m(2) by (auto simp: s'_def set_reg_def upd_tx_def t_def)
qed

text \<open>A packet is refused, and nothing changes, exactly when it is too long or the ring is full.\<close>

lemma transmit_refused:
  "E1000_TXD_BUFFER_LENGTH < n \<or> tx_status (txDescArr s (tx_desc_tail s)) AND 1 = 0 \<Longrightarrow>
   pci_transmit_packet src n s = Some (- 1, s)"
  by (auto simp: pci_transmit_packet_def Let_def)

section \<open>Reception\<close>

definition rx_ok :: "'a nstate_scheme \<Rightarrow> bool" where
  "rx_ok s \<longleftrightarrow> rx_desc_tail s < NUM_RX_DESC \<and> npages s \<le> 2 ^ 32 \<and>
     (\<forall>i < NUM_RX_DESC. \<exists>p < npages s. rx_addr (rxDescArr s i) = page2pa p)"

lemma copy_out_more: "copy_out n f off root va s = Some s' \<Longrightarrow>
   \<exists>m. s' = s\<lparr>kmem := m\<rparr>"
proof (induction n arbitrary: off va s)
  case 0
  then show ?case by (intro exI [of _ "kmem s"]) simp
next
  case (Suc n)
  then obtain s1 where s1: "user_store root va (frame_byte (kmem s) f off) s = Some s1"
    "copy_out n f (Suc off) root (va + 1) s1 = Some s'" by (auto split: bind_splits)
  moreover obtain m1 where "s1 = s\<lparr>kmem := m1\<rparr>"
    using s1(1) by (auto simp: user_store_def Let_def split: if_splits)
  ultimately show ?case using Suc.IH [OF s1(2)] by auto
qed

text \<open>Receiving hands over the descriptor after the tail, gives it back to the card and moves
  the tail by one; when it is not filled, nothing changes.\<close>

lemma receive_none:
  "rx_status (rxDescArr s ((rx_desc_tail s + 1) mod NUM_RX_DESC)) AND 1 = 0 \<Longrightarrow>
   pci_receive_packet dst s = Some (- 1, s)"
  by (simp add: pci_receive_packet_def Let_def)

lemma receive_spec:
  assumes ok: "rx_ok s" and r: "pci_receive_packet dst s = Some (r, s')"
    and full: "rx_status (rxDescArr s t) AND 1 \<noteq> 0" and t: "t = (rx_desc_tail s + 1) mod NUM_RX_DESC"
  shows "r = int (unat (rx_length (rxDescArr s t))) \<and> rx_ok s' \<and> rx_desc_tail s' = t \<and>
    rxDescArr s' = (rxDescArr s)(t := (rxDescArr s t)\<lparr>rx_status := rx_status (rxDescArr s t) AND 0xFC\<rparr>) \<and>
    map_region s' (0x2818 div 4) = of_nat t"
proof -
  obtain p s2 where p: "copy_out (unat (rx_length (rxDescArr s t))) p 0 (cur_root s) dst (s\<lparr>rx_desc_tail := t\<rparr>) = Some s2"
    "r = int (unat (rx_length (rxDescArr s t)))"
    "s' = set_reg 0x2818 (of_nat t) (upd_rx t (\<lambda>d. d\<lparr>rx_status := rx_status d AND 0xFC\<rparr>) s2)"
    using r full unfolding pci_receive_packet_def Let_def t [symmetric]
    by (auto split: if_splits bind_splits)
  obtain m where m: "s2 = s\<lparr>rx_desc_tail := t, kmem := m\<rparr>" using copy_out_more [OF p(1)] by auto
  have "t < NUM_RX_DESC" by (simp add: t)
  then show ?thesis using ok p(2) unfolding p(3) m by (auto simp: set_reg_def upd_rx_def rx_ok_def)
qed

section \<open>Properties\<close>

text \<open>The small kernel with a network card: all transmit buffers are page 8 and free, receive buffers
  are page 9 and the next one holds a packet of one byte.\<close>

definition small_nic :: nstate where
  "small_nic = kstate.extend small_kernel
     (nstate.fields (\<lambda>_. \<lparr>tx_addr = 0x8000, tx_length = 0, tx_cso = 0, tx_cmd = 9, tx_status = 1, tx_css = 0, tx_special = 0\<rparr>)
        (\<lambda>i. \<lparr>rx_addr = 0x9000, rx_length = 1, rx_chcksum = 0, rx_status = (if i = 0 then 3 else 0), rx_errors = 0, rx_special = 0\<rparr>)
        5 63 (\<lambda>_. 0))"

lemma small_nic_simps:
  "kmem small_nic = one_mapping" "npages small_nic = 16" "cr3 small_nic = 0x2000" "tx_desc_tail small_nic = 5"
  "rx_desc_tail small_nic = 63" "tx_addr (txDescArr small_nic i) = 0x8000" "tx_status (txDescArr small_nic i) = 1"
  "rx_addr (rxDescArr small_nic i) = 0x9000" "rx_length (rxDescArr small_nic i) = 1"
  "rx_status (rxDescArr small_nic 0) = 3"
  by (simp_all add: small_nic_def nstate.defs kstate.defs small_kernel_def)

lemma page_num: "page2pa 8 = 0x8000" "page2pa 9 = 0x9000"
  by (simp_all add: page2pa_def)

lemma small_nic_ok: "tx_ok small_nic" "rx_ok small_nic"
  using page_num by (auto simp: tx_ok_def rx_ok_def small_nic_simps intro: exI [of _ 8] exI [of _ 9])



text \<open>A packet longer than a buffer, or one for which the ring has no free descriptor, is refused
  and nothing changes.\<close>

theorem transmit_refuses:
  assumes "E1000_TXD_BUFFER_LENGTH < n \<or> tx_status (txDescArr s (tx_desc_tail s)) AND 1 = 0"
  shows "pci_transmit_packet src n s = Some (- 1, s)"
  by (rule transmit_refused [OF assms])

theorem transmit_refuses_witness: "pci_transmit_packet 0x800000 1519 small_nic = Some (- 1, small_nic)"
  by (rule transmit_refuses) simp

text \<open>Receiving takes the packet from the descriptor after the tail: it returns the packet's length,
  hands the descriptor back to the device by clearing its status bits, moves the tail to it, in the
  ring and in the device register, and keeps the ring well-formed.\<close>

theorem receive_takes_packet:
  assumes "rx_ok s" "pci_receive_packet dst s = Some (r, s')"
    and "rx_status (rxDescArr s t) AND 1 \<noteq> 0" "t = (rx_desc_tail s + 1) mod NUM_RX_DESC"
  shows "r = int (unat (rx_length (rxDescArr s t))) \<and> rx_ok s' \<and> rx_desc_tail s' = t \<and>
    rxDescArr s' = (rxDescArr s)(t := (rxDescArr s t)\<lparr>rx_status := rx_status (rxDescArr s t) AND 0xFC\<rparr>) \<and>
    map_region s' (0x2818 div 4) = of_nat t"
  by (rule receive_spec [OF assms])

theorem receive_takes_packet_witness:
  "\<exists>s'. pci_receive_packet 0x800000 small_nic = Some (1, s') \<and> rx_desc_tail s' = 0 \<and>
     rx_status (rxDescArr s' 0) = 0"
proof -
  let ?s = small_nic
  have root: "cur_root ?s = 2" by (simp add: cur_root_def small_nic_simps PPN_def drop_bit_eq_div)
  let ?s1 = "?s\<lparr>rx_desc_tail := 0\<rparr>"
  have pg: "pa2page ?s1 0x9000 = Some 9" "page2kva ?s1 9 = Some 0x8004009000"
    using page_num by (simp_all add: pa2page_def PPN_def drop_bit_eq_div small_nic_simps page2kva_def KADDR_def
        unsigned_ucast_eq)
  obtain s2 where c: "copy_out 1 9 0 2 0x800000 ?s1 = Some s2"
    by (simp add: user_store_def small_nic_simps one_mapping_pte fr_num Let_def)
  have "\<exists>r s'. pci_receive_packet 0x800000 ?s = Some (r, s')"
    using pg c unfolding pci_receive_packet_def Let_def
    by (simp add: small_nic_simps root del: copy_out.simps One_nat_def)
  then obtain r s' where r: "pci_receive_packet 0x800000 ?s = Some (r, s')" by blast
  have f: "rx_status (rxDescArr ?s 0) AND 1 \<noteq> 0" "0 = (rx_desc_tail ?s + 1) mod NUM_RX_DESC"
    by (simp_all add: small_nic_simps)
  from receive_takes_packet [OF small_nic_ok(2) r f] r show ?thesis
    by (auto simp: small_nic_simps)
qed

end
