(* ===== verification/Kern_Syscall.thy ===== *)
theory Kern_Syscall
  imports Kern_Sched Kern_Console Kern_E1000
begin

text \<open>
  The system calls of \<^verbatim>\<open>kern/syscall.c\<close>: every \<open>sys_*\<close> function and the dispatcher \<open>syscall\<close>.

  The state adds the console, the clock and the input pending at the two console devices to
  the state of the network driver.  A call returns its error code or value as an integer inside
  \<open>Ret\<close>; calls that give up the CPU end in another constructor of \<open>ctl\<close>.  System-call arguments
  are 64-bit registers, truncated to the parameter types as the C calls truncate them.
\<close>

record sstate = nstate +
  console :: console
  ticks :: u32
  serial_in :: "u8 list"
  kbd_in :: "u8 list"

type_synonym 'a scall = "(int, 'a) ctl option"

abbreviation SYS_cputs :: u64 where "SYS_cputs \<equiv> 0"
abbreviation SYS_cgetc :: u64 where "SYS_cgetc \<equiv> 1"
abbreviation SYS_getenvid :: u64 where "SYS_getenvid \<equiv> 2"
abbreviation SYS_env_destroy :: u64 where "SYS_env_destroy \<equiv> 3"
abbreviation SYS_page_alloc :: u64 where "SYS_page_alloc \<equiv> 4"
abbreviation SYS_page_map :: u64 where "SYS_page_map \<equiv> 5"
abbreviation SYS_page_unmap :: u64 where "SYS_page_unmap \<equiv> 6"
abbreviation SYS_exofork :: u64 where "SYS_exofork \<equiv> 7"
abbreviation SYS_env_set_status :: u64 where "SYS_env_set_status \<equiv> 8"
abbreviation SYS_env_set_trapframe :: u64 where "SYS_env_set_trapframe \<equiv> 9"
abbreviation SYS_env_set_pgfault_upcall :: u64 where "SYS_env_set_pgfault_upcall \<equiv> 10"
abbreviation SYS_yield :: u64 where "SYS_yield \<equiv> 11"
abbreviation SYS_ipc_try_send :: u64 where "SYS_ipc_try_send \<equiv> 12"
abbreviation SYS_ipc_recv :: u64 where "SYS_ipc_recv \<equiv> 13"
abbreviation SYS_time_msec :: u64 where "SYS_time_msec \<equiv> 14"
abbreviation SYS_net_tx :: u64 where "SYS_net_tx \<equiv> 15"
abbreviation SYS_net_rx :: u64 where "SYS_net_rx \<equiv> 16"

section \<open>Console calls\<close>

text \<open>The loop that \<open>cprintf("%.*s", len, s)\<close> runs: the byte is read before the precision is
  tested.  A negative precision prints up to the zero byte; \<open>2 ^ 64\<close> iterations are more than
  the address space allows.\<close>

fun cputs_loop :: "nat \<Rightarrow> u64 \<Rightarrow> 'a sstate_scheme \<Rightarrow> 'a sstate_scheme option" where
  "cputs_loop prec va s = do {
     b \<leftarrow> user_load (cur_root s) va s;
     if b = 0 then Some s
     else (case prec of
        0 \<Rightarrow> Some s
      | Suc n \<Rightarrow> cputs_loop n (va + 1) (s\<lparr>console := cons_putc (ucast b) (console s)\<rparr>)) }"

definition putc_all :: "u8 list \<Rightarrow> 'a sstate_scheme \<Rightarrow> 'a sstate_scheme" where
  "putc_all cs s = s\<lparr>console := fold (\<lambda>c t. cons_putc (ucast c) t) cs (console s)\<rparr>"

definition sys_cputs :: "u64 \<Rightarrow> u64 \<Rightarrow> 'a sstate_scheme \<Rightarrow> (unit, 'a sstate_scheme) ctl option" where
  "sys_cputs str len s = do {
     c \<leftarrow> curenv s;
     andthen (user_mem_assert c str len PTE_U s) (\<lambda>_ s1. do {
       let precision = sint (ucast len :: u32);
       let prec = (if precision < 0 then 2 ^ 64 else nat precision);
       if str = 0 then Some (Ret () (putc_all (take prec [0x28, 0x6E, 0x75, 0x6C, 0x6C, 0x29]) s1))
       else do { s2 \<leftarrow> cputs_loop prec str s1; Some (Ret () s2) } }) }"

definition sys_cgetc :: "'a sstate_scheme \<Rightarrow> 'a sstate_scheme scall" where
  "sys_cgetc s =
     (let (c, con) = cons_getc (serial_in s) (kbd_in s) (console s)
      in Some (Ret c (s\<lparr>console := con, serial_in := (if serial_exists (console s) then [] else serial_in s),
                       kbd_in := []\<rparr>)))"

section \<open>Environment calls\<close>

definition sys_getenvid :: "'a kstate_scheme \<Rightarrow> 'a kstate_scheme scall" where
  "sys_getenvid s = do { c \<leftarrow> curenv s; Some (Ret (sint (env_id (envs s c))) s) }"

definition sys_env_destroy :: "envid \<Rightarrow> 'a kstate_scheme \<Rightarrow> 'a kstate_scheme scall" where
  "sys_env_destroy envid s = do {
     (r, es) \<leftarrow> envid2env envid True s;
     if r < 0 then Some (Ret r s)
     else do {
       e \<leftarrow> es;
       andthen (env_destroy e s) (\<lambda>_ s1. Some (Ret 0 s1)) } }"

definition sys_yield :: "'a kstate_scheme \<Rightarrow> (unit, 'a kstate_scheme) ctl option" where
  "sys_yield s = sched_yield s"

definition sys_exofork :: "'a kstate_scheme \<Rightarrow> 'a kstate_scheme scall" where
  "sys_exofork s = do {
     c \<leftarrow> curenv s;
     (r, ne, s1) \<leftarrow> env_alloc (env_id (envs s c)) s;
     if r \<noteq> 0 then Some (Ret r s1)
     else do {
       e \<leftarrow> ne;
       let s2 = upd_env e (\<lambda>v. v\<lparr>env_status := ENV_NOT_RUNNABLE\<rparr>) s1;
       let s3 = upd_env e (\<lambda>v. v\<lparr>env_tf := env_tf (envs s2 c)\<rparr>) s2;
       let s4 = upd_env e (\<lambda>v. v\<lparr>env_tf := (env_tf v)\<lparr>tf_regs := (tf_regs (env_tf v))\<lparr>reg_rax := 0\<rparr>\<rparr>\<rparr>) s3;
       Some (Ret (sint (env_id (envs s4 e))) s4) } }"

definition sys_env_set_status :: "envid \<Rightarrow> int \<Rightarrow> 'a kstate_scheme \<Rightarrow> 'a kstate_scheme scall" where
  "sys_env_set_status envid status s = do {
     (r, es) \<leftarrow> envid2env envid True s;
     if r \<noteq> 0 then Some (Ret r s)
     else if status < 0 \<or> status > 4 then Some (Ret (- E_INVAL) s)
     else do {
       e \<leftarrow> es;
       Some (Ret r (upd_env e (\<lambda>v. v\<lparr>env_status := word_of_int status\<rparr>) s)) } }"

text \<open>A \<open>struct Trapframe\<close> in user memory, field by field at its offset.\<close>

definition user_load16 :: "nat \<Rightarrow> u64 \<Rightarrow> 'a pstate_scheme \<Rightarrow> u16 option" where
  "user_load16 root va s = do {
     a \<leftarrow> user_load root va s;
     b \<leftarrow> user_load root (va + 1) s;
     Some (ucast a OR push_bit 8 (ucast b)) }"

definition user_load64 :: "nat \<Rightarrow> u64 \<Rightarrow> 'a pstate_scheme \<Rightarrow> u64 option" where
  "user_load64 root va s = do {
     b0 \<leftarrow> user_load16 root va s;
     b1 \<leftarrow> user_load16 root (va + 2) s;
     b2 \<leftarrow> user_load16 root (va + 4) s;
     b3 \<leftarrow> user_load16 root (va + 6) s;
     Some (ucast b0 OR push_bit 16 (ucast b1) OR push_bit 32 (ucast b2) OR push_bit 48 (ucast b3)) }"

fun user_store_n :: "nat \<Rightarrow> nat \<Rightarrow> u64 \<Rightarrow> u64 \<Rightarrow> 'a pstate_scheme \<Rightarrow> 'a pstate_scheme option" where
  "user_store_n 0 root va w s = Some s"
| "user_store_n (Suc n) root va w s = do {
     s1 \<leftarrow> user_store root va (ucast w) s;
     user_store_n n root (va + 1) (drop_bit 8 w) s1 }"

definition user_load_regs :: "nat \<Rightarrow> u64 \<Rightarrow> 'a pstate_scheme \<Rightarrow> push_regs option" where
  "user_load_regs root va s = do {
     r15 \<leftarrow> user_load64 root va s;
     r14 \<leftarrow> user_load64 root (va + 8) s;
     r13 \<leftarrow> user_load64 root (va + 16) s;
     r12 \<leftarrow> user_load64 root (va + 24) s;
     r11 \<leftarrow> user_load64 root (va + 32) s;
     r10 \<leftarrow> user_load64 root (va + 40) s;
     r9 \<leftarrow> user_load64 root (va + 48) s;
     r8 \<leftarrow> user_load64 root (va + 56) s;
     rsi \<leftarrow> user_load64 root (va + 64) s;
     rdi \<leftarrow> user_load64 root (va + 72) s;
     rbp \<leftarrow> user_load64 root (va + 80) s;
     rdx \<leftarrow> user_load64 root (va + 88) s;
     rcx \<leftarrow> user_load64 root (va + 96) s;
     rbx \<leftarrow> user_load64 root (va + 104) s;
     rax \<leftarrow> user_load64 root (va + 112) s;
     Some \<lparr>reg_r15 = r15, reg_r14 = r14, reg_r13 = r13, reg_r12 = r12, reg_r11 = r11, reg_r10 = r10,
       reg_r9 = r9, reg_r8 = r8, reg_rsi = rsi, reg_rdi = rdi, reg_rbp = rbp, reg_rdx = rdx,
       reg_rcx = rcx, reg_rbx = rbx, reg_rax = rax\<rparr> }"

definition user_load_tf :: "nat \<Rightarrow> u64 \<Rightarrow> 'a pstate_scheme \<Rightarrow> trapframe option" where
  "user_load_tf root va s = do {
     regs \<leftarrow> user_load_regs root va s;
     es \<leftarrow> user_load16 root (va + 120) s;
     ds \<leftarrow> user_load16 root (va + 128) s;
     trapno \<leftarrow> user_load64 root (va + 136) s;
     err \<leftarrow> user_load64 root (va + 144) s;
     rip \<leftarrow> user_load64 root (va + 152) s;
     cs \<leftarrow> user_load16 root (va + 160) s;
     eflags \<leftarrow> user_load64 root (va + 168) s;
     rsp \<leftarrow> user_load64 root (va + 176) s;
     ss \<leftarrow> user_load16 root (va + 184) s;
     Some \<lparr>tf_regs = regs, tf_es = es, tf_ds = ds, tf_trapno = trapno, tf_err = err, tf_rip = rip,
       tf_cs = cs, tf_eflags = eflags, tf_rsp = rsp, tf_ss = ss\<rparr> }"

text \<open>\<open>result\<close> is unsigned, so the test \<open>result < 0\<close> never holds; a failed lookup goes on with
  the null pointer (\<open>None\<close>).\<close>

definition sys_env_set_trapframe :: "envid \<Rightarrow> u64 \<Rightarrow> 'a kstate_scheme \<Rightarrow> 'a kstate_scheme scall" where
  "sys_env_set_trapframe envid tf s =
     (if tf = 0 then Some (Ret (- E_BAD_ENV) s)
      else do {
        (r, es) \<leftarrow> envid2env envid True s;
        let result = (word_of_int r :: u32);
        if uint result < 0 then Some (Ret r s)
        else do {
          cs \<leftarrow> user_load16 (cur_root s) (tf + 160) s;
          s1 \<leftarrow> user_store_n 2 (cur_root s) (tf + 160) (ucast (cs OR 3)) s;
          fl \<leftarrow> user_load64 (cur_root s1) (tf + 168) s1;
          s2 \<leftarrow> user_store_n 8 (cur_root s1) (tf + 168) (fl OR FL_IF) s1;
          frame \<leftarrow> user_load_tf (cur_root s2) tf s2;
          e \<leftarrow> es;
          Some (Ret r (upd_env e (\<lambda>v. v\<lparr>env_tf := frame\<rparr>) s2)) } })"

definition sys_env_set_pgfault_upcall :: "envid \<Rightarrow> u64 \<Rightarrow> 'a kstate_scheme \<Rightarrow> 'a kstate_scheme scall" where
  "sys_env_set_pgfault_upcall envid func s = do {
     (r, es) \<leftarrow> envid2env envid True s;
     if r \<noteq> 0 then Some (Ret r s)
     else do {
       e \<leftarrow> es;
       Some (Ret 0 (upd_env e (\<lambda>v. v\<lparr>env_pgfault_upcall := func\<rparr>) s)) } }"

section \<open>Memory calls\<close>

text \<open>The test of the permission bits shared by the mapping calls.\<close>

definition perm_bad :: "u32 \<Rightarrow> bool" where
  "perm_bad perm \<longleftrightarrow> perm AND 4 = 0 \<or> perm AND 1 = 0 \<or> perm AND NOT 0xE07 \<noteq> 0"

definition sys_page_alloc :: "envid \<Rightarrow> u64 \<Rightarrow> u32 \<Rightarrow> 'a kstate_scheme \<Rightarrow> 'a kstate_scheme scall" where
  "sys_page_alloc envid va perm s = do {
     (r, es) \<leftarrow> envid2env envid True s;
     if r \<noteq> 0 then Some (Ret r s)
     else if perm_bad perm then Some (Ret (- E_INVAL) s)
     else if va mod 4096 \<noteq> 0 \<or> va > UTOP then Some (Ret (- E_INVAL) s)
     else do {
       (pg, s1) \<leftarrow> page_alloc 0 s;
       (case pg of
          None \<Rightarrow> Some (Ret (- E_NO_MEM) s1)
        | Some pp \<Rightarrow> do {
            e \<leftarrow> es;
            (r2, s2) \<leftarrow> page_insert (env_pml4e (envs s1 e)) (Some pp) va (ucast perm OR PTE_P) s1;
            Some (Ret r2 s2) }) } }"

definition sys_page_map ::
  "envid \<Rightarrow> u64 \<Rightarrow> envid \<Rightarrow> u64 \<Rightarrow> u32 \<Rightarrow> 'a kstate_scheme \<Rightarrow> 'a kstate_scheme scall" where
  "sys_page_map srcenvid srcva dstenvid dstva perm s = do {
     (r, es) \<leftarrow> envid2env srcenvid True s;
     if r \<noteq> 0 then Some (Ret r s)
     else do {
       (r', ed) \<leftarrow> envid2env dstenvid False s;
       if r' \<noteq> 0 then Some (Ret r' s)
       else if perm_bad perm then Some (Ret (- E_INVAL) s)
       else if (dstva mod 4096 \<noteq> 0 \<or> dstva > UTOP) \<or> (srcva mod 4096 \<noteq> 0 \<or> srcva > UTOP)
       then Some (Ret (- E_INVAL) s)
       else do {
         src \<leftarrow> es;
         (pg, pte_store, s1) \<leftarrow> page_lookup (env_pml4e (envs s src)) srcva s;
         (case (pg, pte_store) of
            (Some pp, Some p) \<Rightarrow>
              if read_pte s1 p AND PTE_W = 0 \<and> perm AND 2 \<noteq> 0 then Some (Ret (- E_INVAL) s1)
              else do {
                dst \<leftarrow> ed;
                (r2, s2) \<leftarrow> page_insert (env_pml4e (envs s1 dst)) (Some pp) dstva (ucast perm) s1;
                Some (Ret r2 s2) }
          | _ \<Rightarrow> Some (Ret (- E_INVAL) s1)) } } }"

definition sys_page_unmap :: "envid \<Rightarrow> u64 \<Rightarrow> 'a kstate_scheme \<Rightarrow> 'a kstate_scheme scall" where
  "sys_page_unmap envid va s = do {
     (r, es) \<leftarrow> envid2env envid True s;
     if r \<noteq> 0 then Some (Ret (- E_BAD_ENV) s)
     else if va = 0 \<or> va \<ge> UTOP \<or> va mod 4096 \<noteq> 0 then Some (Ret (- E_INVAL) s)
     else do {
       e \<leftarrow> es;
       s1 \<leftarrow> page_remove (env_pml4e (envs s e)) va s;
       Some (Ret 0 s1) } }"

section \<open>IPC\<close>

text \<open>When \<open>page_lookup\<close> finds no page and \<open>srcva >= UTOP\<close>, the code still reads through the
  uninitialised pointer \<open>pte_store\<close>, and does not use the value; \<open>stale\<close> says whether that
  read goes through.  The test \<open>0 < sys_page_map(...)\<close> never holds, so its error is dropped.\<close>

definition sys_ipc_try_send ::
  "bool \<Rightarrow> envid \<Rightarrow> u32 \<Rightarrow> u64 \<Rightarrow> u32 \<Rightarrow> 'a kstate_scheme \<Rightarrow> 'a kstate_scheme scall" where
  "sys_ipc_try_send stale envid value srcva perm0 s = do {
     let perm = perm0 OR 1;
     (r, ed) \<leftarrow> envid2env envid False s;
     if r \<noteq> 0 then Some (Ret (- E_BAD_ENV) s)
     else do {
       dst \<leftarrow> ed;
       (r', es) \<leftarrow> envid2env 0 False s;
       if r' \<noteq> 0 then Some (Ret (- E_BAD_ENV) s)
       else if \<not> env_ipc_recving (envs s dst) then Some (Ret (- E_IPC_NOT_RECV) s)
       else do {
         src \<leftarrow> es;
         (pg, pte_store, s1) \<leftarrow> page_lookup (env_pml4e (envs s src)) srcva s;
         if pg = None \<and> srcva < UTOP then Some (Ret (- E_INVAL) s1)
         else do {
           pte \<leftarrow> (case pte_store of Some p \<Rightarrow> Some (read_pte s1 p)
                  | None \<Rightarrow> if stale then Some 0 else None);
           let srcperm = pte AND PTE_SYSCALL;
           if srcva < UTOP \<and> (srcva mod 4096 \<noteq> 0 \<or> srcperm AND (PTE_U OR PTE_P) \<noteq> (PTE_U OR PTE_P))
           then Some (Ret (- E_INVAL) s1)
           else if srcva < UTOP \<and> perm AND 2 \<noteq> 0 \<and> srcperm AND PTE_W = 0 then Some (Ret (- E_INVAL) s1)
           else if envid = env_id (envs s1 src) then None
           else
             let s2 = upd_env dst (\<lambda>v. v\<lparr>env_ipc_recving := False, env_ipc_from := env_id (envs s1 src),
                        env_ipc_value := value\<rparr>) s1;
                 finish = (\<lambda>s'. Some (Ret 0 (upd_env dst (\<lambda>v. v\<lparr>env_status := ENV_RUNNABLE\<rparr>) s')))
             in if srcva < UTOP \<and> env_ipc_dstva (envs s2 dst) < UTOP then
                  let s3 = upd_env dst (\<lambda>v. v\<lparr>env_ipc_perm := perm\<rparr>) s2
                  in andthen (sys_page_map (env_id (envs s3 src)) srcva (env_id (envs s3 dst))
                               (env_ipc_dstva (envs s3 dst)) perm s3)
                       (\<lambda>m s4. if 0 < m then Some (Ret (- E_NO_MEM) s4) else finish s4)
                else finish s2 } } } }"

definition sys_ipc_recv :: "u64 \<Rightarrow> 'a kstate_scheme \<Rightarrow> 'a kstate_scheme scall" where
  "sys_ipc_recv dstva s = do {
     (r, es) \<leftarrow> envid2env 0 False s;
     if r \<noteq> 0 then Some (Ret (- E_BAD_ENV) s)
     else if dstva < UTOP \<and> dstva mod 4096 \<noteq> 0 then Some (Ret (- E_INVAL) s)
     else do {
       e \<leftarrow> es;
       let s1 = (if dstva < UTOP then upd_env e (\<lambda>v. v\<lparr>env_ipc_dstva := dstva\<rparr>) s else s);
       let s2 = upd_env e (\<lambda>v. v\<lparr>env_ipc_recving := True, env_status := ENV_NOT_RUNNABLE,
                  env_tf := (env_tf v)\<lparr>tf_regs := (tf_regs (env_tf v))\<lparr>reg_rax := 0\<rparr>\<rparr>\<rparr>) s1;
       andthen (sys_yield s2) (\<lambda>_ s3. Some (Ret 0 s3)) } }"

section \<open>Time and network\<close>

definition sys_time_msec :: "'a sstate_scheme \<Rightarrow> 'a sstate_scheme scall" where
  "sys_time_msec s = Some (Ret (sint (time_msec (ticks s))) s)"

definition sys_net_rx :: "u64 \<Rightarrow> 'a nstate_scheme \<Rightarrow> 'a nstate_scheme scall" where
  "sys_net_rx buf s = do {
     c \<leftarrow> curenv s;
     andthen (user_mem_assert c buf 4096 PTE_U s) (\<lambda>_ s1. do {
       (r, s2) \<leftarrow> pci_receive_packet buf s1;
       Some (Ret r s2) }) }"

definition sys_net_tx :: "u64 \<Rightarrow> u64 \<Rightarrow> 'a nstate_scheme \<Rightarrow> 'a nstate_scheme scall" where
  "sys_net_tx buf len s = do {
     c \<leftarrow> curenv s;
     andthen (user_mem_assert c buf len PTE_U s) (\<lambda>_ s1. do {
       (r, s2) \<leftarrow> pci_transmit_packet buf (unat len) s1;
       Some (Ret r s2) }) }"

section \<open>Dispatch\<close>

definition syscall ::
  "bool \<Rightarrow> u64 \<Rightarrow> u64 \<Rightarrow> u64 \<Rightarrow> u64 \<Rightarrow> u64 \<Rightarrow> u64 \<Rightarrow> 'a sstate_scheme \<Rightarrow> 'a sstate_scheme scall" where
  "syscall stale syscallno a1 a2 a3 a4 a5 s =
     (if syscallno = SYS_cputs then andthen (sys_cputs a1 a2 s) (\<lambda>_ s1. Some (Ret 0 s1))
      else if syscallno = SYS_cgetc then sys_cgetc s
      else if syscallno = SYS_getenvid then sys_getenvid s
      else if syscallno = SYS_env_destroy then sys_env_destroy (ucast a1) s
      else if syscallno = SYS_yield then andthen (sys_yield s) (\<lambda>_ s1. Some (Ret 0 s1))
      else if syscallno = SYS_exofork then sys_exofork s
      else if syscallno = SYS_env_set_status then sys_env_set_status (ucast a1) (sint (ucast a2 :: u32)) s
      else if syscallno = SYS_env_set_pgfault_upcall then sys_env_set_pgfault_upcall (ucast a1) a2 s
      else if syscallno = SYS_ipc_try_send then sys_ipc_try_send stale (ucast a1) (ucast a2) a3 (ucast a4) s
      else if syscallno = SYS_ipc_recv then sys_ipc_recv a1 s
      else if syscallno = SYS_page_alloc then sys_page_alloc (ucast a1) a2 (ucast a3) s
      else if syscallno = SYS_page_map then sys_page_map (ucast a1) a2 (ucast a3) a4 (ucast a5) s
      else if syscallno = SYS_page_unmap then sys_page_unmap (ucast a1) a2 s
      else if syscallno = SYS_env_set_trapframe then sys_env_set_trapframe (ucast a1) a2 s
      else if syscallno = SYS_net_rx then sys_net_rx a1 s
      else if syscallno = SYS_net_tx then sys_net_tx a1 a2 s
      else if syscallno = SYS_time_msec then sys_time_msec s
      else Some (Ret (- E_NO_SYS) s))"

section \<open>Permissions\<close>

text \<open>A lookup with the permission check only yields the caller or one of its children.\<close>

lemma envid2env_perm:
  assumes "envid2env i True s = Some (0, Some e)"
  shows "\<exists>c. curenv s = Some c \<and> (e = c \<or> env_parent_id (envs s e) = env_id (envs s c))"
  using assms by (auto simp: envid2env_def Let_def split: if_splits bind_splits)

lemma envid2env_error:
  "envid2env i p s = Some (r, es) \<Longrightarrow> r \<noteq> 0 \<Longrightarrow> r = - E_BAD_ENV \<and> es = None"
  by (auto simp: envid2env_def Let_def split: if_splits bind_splits)

lemma envid2env_cases:
  assumes "envid2env i p s = Some (r, es)"
  obtains (bad) "r = - E_BAD_ENV" "es = None" | (self) "r = 0" "i = 0" "es = curenv s"
  | (found) "r = 0" "i \<noteq> 0" "es = Some (ENVX i)" "env_id (envs s (ENVX i)) = i" "env_status (envs s (ENVX i)) \<noteq> ENV_FREE"
  using assms by (auto simp: envid2env_def Let_def split: if_splits bind_splits)

section \<open>Creating environments\<close>

lemma sys_exofork_spec:
  assumes inv: "env_inv s (e # fs)" and pg: "page_inv s (p # xs)" and c: "curenv s = Some c" "c \<notin> set (e # fs)"
  shows "\<exists>s'. sys_exofork s = Some (Ret (sint (new_envid (env_id (envs s e)) e)) s') \<and>
    env_inv s' fs \<and> page_inv s' xs \<and> curenv s' = Some c \<and> (\<forall>i. i \<noteq> e \<longrightarrow> envs s' i = envs s i) \<and>
    env_status (envs s' e) = ENV_NOT_RUNNABLE \<and> env_parent_id (envs s' e) = env_id (envs s c) \<and>
    env_id (envs s' e) = new_envid (env_id (envs s e)) e \<and>
    env_tf (envs s' e) = (env_tf (envs s c))\<lparr>tf_regs := (tf_regs (env_tf (envs s c)))\<lparr>reg_rax := 0\<rparr>\<rparr> \<and>
    env_pml4e (envs s' e) = Some p"
proof -
  have h: "env_free_list s = Some e" "e < NENV" using inv by (auto simp: env_inv_def)
  obtain s1 where s1: "env_alloc (env_id (envs s c)) s = Some (0, Some e, s1)" "page_inv s1 xs"
    "cpu_env s1 = cpu_env s" "cpunum s1 = cpunum s" "\<forall>i. i \<noteq> e \<longrightarrow> envs s1 i = envs s i"
    "env_id (envs s1 e) = new_envid (env_id (envs s e)) e" "env_parent_id (envs s1 e) = env_id (envs s c)"
    "env_pml4e (envs s1 e) = Some p" "env_status (envs s1 e) = ENV_RUNNABLE"
    using env_alloc_spec [OF h(1) pg, of "env_id (envs s c)"] by auto
  have i1: "env_inv s1 fs" by (rule env_alloc_inv [OF inv pg s1(1)])
  have ce: "c \<noteq> e" using c by auto
  define s4 where "s4 = upd_env e (\<lambda>v. v\<lparr>env_status := ENV_NOT_RUNNABLE,
     env_tf := (env_tf (envs s c))\<lparr>tf_regs := (tf_regs (env_tf (envs s c)))\<lparr>reg_rax := 0\<rparr>\<rparr>\<rparr>) s1"
  have "sys_exofork s = Some (Ret (sint (new_envid (env_id (envs s e)) e)) s4)"
    using s1(1,5,6) c(1) ce by (simp add: sys_exofork_def Let_def s4_def upd_env_def)
  moreover have "env_inv s4 fs"
  proof -
    have "chain (env_next s4) (env_free_list s4) fs = chain (env_next s1) (env_free_list s1) fs"
      unfolding s4_def by (simp, rule chain_cong) simp
    moreover have "env_status (envs s4 i) = ENV_FREE \<longleftrightarrow> env_status (envs s1 i) = ENV_FREE" for i
      using s1(9) by (simp add: s4_def)
    moreover have "env_id (envs s4 i) = env_id (envs s1 i)" for i by (simp add: s4_def)
    ultimately show ?thesis using i1 by (simp add: env_inv_def)
  qed
  ultimately show ?thesis using s1 c by (auto simp: s4_def)
qed

section \<open>Memory calls\<close>

lemma insert_post_more: "page_insert d p va perm s = Some (r, s') \<Longrightarrow> envs s' = envs s"
  by (rule more_kstate(1) [OF page_insert_more])

text \<open>\<open>sys_page_map\<close> maps the page of the source at the destination; write access is only passed
  on when the source has it.\<close>

lemma sys_page_map_spec:
  assumes src: "envid2env srcid True s = Some (0, Some es)" "env_pml4e (envs s es) = Some rs"
    and dst: "envid2env dstid False s = Some (0, Some ed)" "env_pml4e (envs s ed) = Some rd"
    and args: "\<not> perm_bad perm" "srcva mod 4096 = 0" "srcva \<le> UTOP" "dstva mod 4096 = 0" "dstva \<le> UTOP"
    and inv: "page_inv s xs" and wfs: "pt_wf s S rs xs" "PML4 srcva \<in> S" and wfd: "pt_wf s T rd xs" "PML4 dstva \<in> T"
    and e: "e = pte_at (kmem s) rs srcva" "e AND PTE_P \<noteq> 0" "fr e < npages s" "fr e \<notin> set xs"
    and old: "pte_at (kmem s) rd dstva AND PTE_P \<noteq> 0 \<longrightarrow> live_page s T rd xs (fr (pte_at (kmem s) rd dstva))"
  shows "if e AND PTE_W = 0 \<and> perm AND 2 \<noteq> 0
    then sys_page_map srcid srcva dstid dstva perm s = Some (Ret (- E_INVAL) s)
    else \<exists>r s' ys. sys_page_map srcid srcva dstid dstva perm s = Some (Ret r s') \<and>
      insert_post s xs T rd (fr e) dstva (ucast perm) r s' ys \<and> envs s' = envs s"
proof -
  obtain u where u: "page_lookup (Some rs) srcva s = Some (Some (fr e), Some (u, PTX srcva), s)"
    "path (kmem s) rs srcva 3 = Some u"
    using page_lookup_present [OF inv wfs] e by auto
  have eu: "kmem s u (PTX srcva) = e" using pte_at_path [OF u(2)] e(1) by simp
  show ?thesis
  proof (cases "e AND PTE_W = 0 \<and> perm AND 2 \<noteq> 0")
    case True
    then show ?thesis using src dst args u(1) eu leD [OF args(3)] leD [OF args(5)]
      by (auto simp: sys_page_map_def)
  next
    case False
    obtain r s' ys where r: "page_insert (Some rd) (Some (fr e)) dstva (ucast perm) s = Some (r, s')"
      "insert_post s xs T rd (fr e) dstva (ucast perm) r s' ys"
      using page_insert_post [OF inv wfd e(4) old] by blast
    have "sys_page_map srcid srcva dstid dstva perm s = Some (Ret r s')"
      using src dst args u(1) eu False r(1) leD [OF args(3)] leD [OF args(5)]
      by (auto simp: sys_page_map_def)
    then show ?thesis using False r(2) insert_post_more [OF r(1)] by (simp del: de_Morgan_conj) blast
  qed
qed

lemma sys_page_alloc_spec:
  assumes env: "envid2env i True s = Some (0, Some e)" "env_pml4e (envs s e) = Some root"
    and args: "\<not> perm_bad perm" "va mod 4096 = 0" "va \<le> UTOP"
    and inv: "page_inv s (pp # xs)" and wf: "pt_wf s S root (pp # xs)" "PML4 va \<in> S"
    and old: "pte_at (kmem s) root va AND PTE_P \<noteq> 0 \<longrightarrow> live_page s S root (pp # xs) (fr (pte_at (kmem s) root va))"
  shows "\<exists>r s1 s' ys. page_alloc 0 s = Some (Some pp, s1) \<and> kmem s1 = kmem s \<and>
    sys_page_alloc i va perm s = Some (Ret r s') \<and>
    insert_post s1 xs S root pp va (ucast perm OR PTE_P) r s' ys \<and> envs s' = envs s"
proof -
  obtain s1 where s1: "page_alloc 0 s = Some (Some pp, s1)" "page_inv s1 xs"
    "pages s1 = (pages s)(pp := (pages s pp)\<lparr>pp_link := None\<rparr>)" "kmem s1 = kmem s" "npages s1 = npages s"
    using page_alloc_Some [OF inv, of 0] by auto
  have pp: "pp \<notin> set xs" using inv chain_distinct [of _ _ "pp # xs"] by (fastforce simp: page_inv_def simp del: chain.simps)
  have wf1: "pt_wf s1 S root xs"
    using pt_wfD(2) [OF wf(1)] s1(4,5) by (intro pt_wf_agree [OF wf(1)]) (auto simp: agree_def)
  have "pte_at (kmem s1) root va AND PTE_P \<noteq> 0 \<longrightarrow> live_page s1 S root xs (fr (pte_at (kmem s1) root va))"
    using old s1(3-5) by (auto simp: live_page_def)
  then obtain r s' ys where r: "page_insert (Some root) (Some pp) va (ucast perm OR PTE_P) s1 = Some (r, s')"
    "insert_post s1 xs S root pp va (ucast perm OR PTE_P) r s' ys"
    using page_insert_post [OF s1(2) wf1 wf(2) pp] by blast
  have m: "envs s1 = envs s" by (rule more_kstate(1) [OF page_alloc_more [OF s1(1)]])
  have "sys_page_alloc i va perm s = Some (Ret r s')"
    using env args s1(1) r(1) m leD [OF args(3)] by (simp add: sys_page_alloc_def)
  then show ?thesis using s1(1,4) r(2) insert_post_more [OF r(1)] m by auto
qed

section \<open>IPC\<close>

lemma ipc_not_recv:
  assumes "envid2env i False s = Some (0, Some d)" "curenv s = Some c" "\<not> env_ipc_recving (envs s d)"
  shows "sys_ipc_try_send stale i v srcva perm s = Some (Ret (- E_IPC_NOT_RECV) s)"
  using assms by (simp add: sys_ipc_try_send_def envid2env_def [of 0] Let_def)

lemma ipc_send_value:
  assumes d: "envid2env i False s = Some (0, Some d)" and c: "curenv s = Some c"
    and recv: "env_ipc_recving (envs s d)" and ne: "i \<noteq> env_id (envs s c)"
    and va: "UTOP \<le> srcva" and look: "page_lookup (env_pml4e (envs s c)) srcva s = Some (pg, ps, s1)"
    and ok: "ps \<noteq> None \<or> stale"
  shows "\<exists>s'. sys_ipc_try_send stale i v srcva perm s = Some (Ret 0 s') \<and>
    envs s' = (envs s)(d := (envs s d)\<lparr>env_ipc_recving := False, env_ipc_from := env_id (envs s c),
      env_ipc_value := v, env_status := ENV_RUNNABLE\<rparr>) \<and>
    kmem s' = kmem s1 \<and> pages s' = pages s1 \<and> curenv s' = Some c"
proof -
  note m = more_kstate [OF page_lookup_more [OF look]]
  have "\<not> srcva < UTOP" using va by (simp add: not_less)
  then show ?thesis
    using assms m(1,3,5)
    by (cases ps) (auto simp: sys_ipc_try_send_def envid2env_def [of 0] Let_def upd_env_def fun_eq_iff)
qed

text \<open>The receiver blocks with its result register set to 0.\<close>

lemma ipc_recv_blocks:
  assumes c: "curenv s = Some c" and va: "dstva < UTOP \<longrightarrow> dstva mod 4096 = 0"
  shows "\<exists>s2. sys_ipc_recv dstva s = andthen (sched_yield s2) (\<lambda>_ s3. Some (Ret 0 s3)) \<and>
    (\<forall>e. e \<noteq> c \<longrightarrow> envs s2 e = envs s e) \<and> env_ipc_recving (envs s2 c) \<and>
    env_status (envs s2 c) = ENV_NOT_RUNNABLE \<and> reg_rax (tf_regs (env_tf (envs s2 c))) = 0 \<and>
    (dstva < UTOP \<longrightarrow> env_ipc_dstva (envs s2 c) = dstva) \<and> curenv s2 = Some c"
  using assms
  by (simp add: sys_ipc_recv_def envid2env_def Let_def sys_yield_def)
    (auto intro!: exI simp: upd_env_def)

section \<open>Dispatch\<close>

lemma syscall_unknown: "16 < n \<Longrightarrow> syscall stale n a1 a2 a3 a4 a5 s = Some (Ret (- E_NO_SYS) s)"
proof -
  assume "16 < n"
  then have "n \<noteq> 0" "n \<noteq> 1" "n \<noteq> 2" "n \<noteq> 3" "n \<noteq> 4" "n \<noteq> 5" "n \<noteq> 6" "n \<noteq> 7" "n \<noteq> 8" "n \<noteq> 9" "n \<noteq> 10"
    "n \<noteq> 11" "n \<noteq> 12" "n \<noteq> 13" "n \<noteq> 14" "n \<noteq> 15" "n \<noteq> 16" by auto
  then show ?thesis by (simp add: syscall_def)
qed

section \<open>Properties\<close>

lemma small_kernel_envs:
  "curenv small_kernel = Some 0" "env_pml4e (envs small_kernel 0) = Some 2" "env_pml4e (envs small_kernel 1) = Some 1"
  "kmem small_kernel = one_mapping" "npages small_kernel = 16" "env_id (envs small_kernel 0) = 0x1000"
  by (simp_all add: small_kernel_def small_env_def)

lemma small_kernel_lookup:
  "envid2env 0 b small_kernel = Some (0, Some 0)" "envid2env 0x1001 b small_kernel = Some (0, Some 1)"
  by (simp_all add: envid2env_def small_kernel_def small_env_def ENVX_def)

lemma one_mapping_empty_pte: "pte_at one_mapping 1 va = 0"
  by (simp add: pte_at_def numeral_3_eq_3 one_mapping_def)

text \<open>A system call that checks permissions acts only on the calling environment or on one of its
  children.\<close>

theorem syscall_env_permission:
  assumes "envid2env i True s = Some (0, Some e)"
  shows "\<exists>c. curenv s = Some c \<and> (e = c \<or> env_parent_id (envs s e) = env_id (envs s c))"
  by (rule envid2env_perm [OF assms])

theorem syscall_env_permission_witness:
  "\<exists>c. curenv small_kernel = Some c \<and> (1 = c \<or> env_parent_id (envs small_kernel 1) = env_id (envs small_kernel c))"
  by (rule syscall_env_permission [OF small_kernel_lookup(2)])

text \<open>C27: \<open>sys_exofork\<close> creates a child of the caller with the caller's registers except that its
  system call result is zero, not yet runnable, and returns the child's identifier; no other
  environment changes, and both invariants hold again.\<close>

theorem sys_exofork_creates_child:
  assumes "env_inv s (e # fs)" "page_inv s (p # xs)" "curenv s = Some c" "c \<notin> set (e # fs)"
  shows "\<exists>s'. sys_exofork s = Some (Ret (sint (env_id (envs s' e))) s') \<and> 0 < sint (env_id (envs s' e)) \<and>
    env_inv s' fs \<and> page_inv s' xs \<and> (\<forall>i. i \<noteq> e \<longrightarrow> envs s' i = envs s i) \<and>
    env_status (envs s' e) = ENV_NOT_RUNNABLE \<and> env_parent_id (envs s' e) = env_id (envs s c) \<and>
    env_tf (envs s' e) = (env_tf (envs s c))\<lparr>tf_regs := (tf_regs (env_tf (envs s c)))\<lparr>reg_rax := 0\<rparr>\<rparr> \<and>
    env_pml4e (envs s' e) = Some p"
proof -
  have "e < NENV" using assms(1) by (auto simp: env_inv_def)
  from new_envid_pos [OF this] sys_exofork_spec [OF assms] show ?thesis by (auto; metis)
qed

theorem sys_exofork_creates_child_witness:
  "\<exists>s'. sys_exofork small_kernel = Some (Ret (sint (env_id (envs s' 2))) s') \<and>
     env_parent_id (envs s' 2) = 0x1000 \<and> env_status (envs s' 2) = ENV_NOT_RUNNABLE"
proof -
  have h: "env_inv small_kernel (2 # [3..<NENV])" "page_inv small_kernel (7 # [8..<16])" "0 \<notin> set (2 # [3..<NENV])"
    using small_kernel_inv by (simp_all add: upt_conv_Cons del: upt_rec_numeral)
  from sys_exofork_creates_child [OF h(1,2) small_kernel_envs(1) h(3)] show ?thesis
    unfolding small_kernel_envs by blast
qed



text \<open>The small kernel with its child waiting for a message.\<close>

definition waiting_kernel :: kstate where
  "waiting_kernel = upd_env 1 (\<lambda>v. v\<lparr>env_ipc_recving := True, env_status := ENV_NOT_RUNNABLE\<rparr>) small_kernel"

text \<open>\<open>sys_ipc_try_send\<close> to an environment that is not receiving fails without any effect.\<close>

theorem ipc_refused_unless_receiving:
  assumes "envid2env i False s = Some (0, Some d)" "curenv s = Some c" "\<not> env_ipc_recving (envs s d)"
  shows "sys_ipc_try_send stale i v srcva perm s = Some (Ret (- E_IPC_NOT_RECV) s)"
  by (rule ipc_not_recv [OF assms])

theorem ipc_refused_unless_receiving_witness:
  "sys_ipc_try_send False 0x1001 42 0x800000 7 small_kernel = Some (Ret (- E_IPC_NOT_RECV) small_kernel)"
  by (rule ipc_refused_unless_receiving [OF small_kernel_lookup(2) small_kernel_envs(1)])
    (simp add: small_kernel_def small_env_def zero_env_def)

text \<open>A value sent to a waiting environment is delivered exactly once: the receiver gets the value
  and the sender's identifier, is runnable and no longer receiving, so that a second send is refused;
  no other environment changes.\<close>

theorem ipc_delivers_once:
  assumes "envid2env i False s = Some (0, Some d)" "curenv s = Some c" "env_ipc_recving (envs s d)"
    and "i \<noteq> env_id (envs s c)" "i \<noteq> 0" "UTOP \<le> srcva"
    and "page_lookup (env_pml4e (envs s c)) srcva s = Some (pg, ps, s1)" "ps \<noteq> None \<or> stale"
  shows "\<exists>s'. sys_ipc_try_send stale i v srcva perm s = Some (Ret 0 s') \<and>
    env_ipc_value (envs s' d) = v \<and> env_ipc_from (envs s' d) = env_id (envs s c) \<and>
    env_status (envs s' d) = ENV_RUNNABLE \<and> (\<forall>e. e \<noteq> d \<longrightarrow> envs s' e = envs s e) \<and>
    sys_ipc_try_send stale i w srcva perm s' = Some (Ret (- E_IPC_NOT_RECV) s')"
proof -
  obtain s' where s': "sys_ipc_try_send stale i v srcva perm s = Some (Ret 0 s')"
    and e: "envs s' = (envs s)(d := (envs s d)\<lparr>env_ipc_recving := False, env_ipc_from := env_id (envs s c),
      env_ipc_value := v, env_status := ENV_RUNNABLE\<rparr>)" and c: "curenv s' = Some c"
    using ipc_send_value [OF assms(1-4,6-8)] by blast
  have "env_status (envs s' d) = ENV_RUNNABLE" "env_id (envs s' x) = env_id (envs s x)" for x by (simp_all add: e)
  then have l: "envid2env i False s' = Some (0, Some d)"
    using assms(1,5) by (auto simp: envid2env_def Let_def e split: if_splits)
  have "\<not> env_ipc_recving (envs s' d)" by (simp add: e)
  from ipc_not_recv [OF l c this] s' show ?thesis by (auto simp: e)
qed

lemma waiting_kernel_same:
  "kmem waiting_kernel = one_mapping" "npages waiting_kernel = 16" "curenv waiting_kernel = Some 0"
  "env_pml4e (envs waiting_kernel 0) = Some 2" "env_id (envs waiting_kernel 0) = 0x1000"
  "env_ipc_recving (envs waiting_kernel 1)"
  by (simp_all add: waiting_kernel_def small_kernel_def small_env_def)

theorem ipc_delivers_once_witness:
  "\<exists>s'. sys_ipc_try_send True 0x1001 42 UTOP 7 waiting_kernel = Some (Ret 0 s') \<and>
     env_ipc_value (envs s' 1) = 42 \<and> env_ipc_from (envs s' 1) = 0x1000 \<and>
     sys_ipc_try_send True 0x1001 43 UTOP 7 s' = Some (Ret (- E_IPC_NOT_RECV) s')"
proof -
  let ?s = waiting_kernel
  have l: "envid2env 0x1001 False ?s = Some (0, Some 1)"
    by (simp add: envid2env_def waiting_kernel_def small_kernel_def small_env_def ENVX_def)
  have inv: "page_inv ?s [7..<16]" using small_kernel_inv(2)
    by (simp add: page_inv_def waiting_kernel_def upd_env_def del: upt_rec_numeral)
  have wf: "pt_wf ?s {0, 1} 2 [7..<16]"
    by (rule one_mapping_wf) (auto simp: waiting_kernel_same simp del: upt_rec_numeral)
  have x: "PML4 UTOP = 1" by (simp add: PML4_def drop_bit_eq_div)
  then have p: "pte_at one_mapping 2 UTOP = 0"
    by (simp add: pte_at_def numeral_3_eq_3 one_mapping_def)
  obtain s1 where "page_lookup (Some 2) UTOP ?s = Some (None, None, s1)"
    using page_lookup_absent [where va = UTOP, OF inv wf] x p by (auto simp: waiting_kernel_same)
  then have lk: "page_lookup (env_pml4e (envs ?s 0)) UTOP ?s = Some (None, None, s1)" by (simp add: waiting_kernel_same)
  from ipc_delivers_once [where w = "43" and v = "42" and stale = True and perm = "7",
      OF l waiting_kernel_same(3,6) _ _ _ lk]
  show ?thesis by (auto simp: waiting_kernel_same)
qed

end
