(* ===== verification/Kern_Trap.thy ===== *)
theory Kern_Trap
  imports Kern_Syscall
begin

text \<open>
  Traps, \<^verbatim>\<open>kern/trap.c\<close>: \<open>trap\<close>, \<open>trap_dispatch\<close> and \<open>page_fault_handler\<close>, from the entry
  with a trap frame to the state in which the CPU is back in user mode, halted or in the
  monitor.

  \<open>fault_va\<close> is the register \<open>cr2\<close>.  Acquiring the kernel lock waits until it is free; a CPU
  that already holds it panics.  \<open>monitor\<close> stands for the kernel monitor of
  \<^verbatim>\<open>kern/monitor.c\<close>: what the operator's commands do to the state, \<open>None\<close> if they never leave
  it.  Printing a trap frame, the acknowledgement \<open>lapic_eoi\<close> and the check of \<open>panicstr\<close> do
  not touch the state.
\<close>

abbreviation T_BRKPT :: u64 where "T_BRKPT \<equiv> 3"
abbreviation T_PGFLT :: u64 where "T_PGFLT \<equiv> 14"
abbreviation T_SYSCALL :: u64 where "T_SYSCALL \<equiv> 48"
abbreviation IRQ_OFFSET :: u64 where "IRQ_OFFSET \<equiv> 32"
abbreviation IRQ_TIMER :: u64 where "IRQ_TIMER \<equiv> 0"
abbreviation IRQ_KBD :: u64 where "IRQ_KBD \<equiv> 1"
abbreviation IRQ_SERIAL :: u64 where "IRQ_SERIAL \<equiv> 4"
abbreviation IRQ_SPURIOUS :: u64 where "IRQ_SPURIOUS \<equiv> 7"
abbreviation GD_KT :: u16 where "GD_KT \<equiv> 8"
abbreviation UTF_SIZE :: u64 where "UTF_SIZE \<equiv> 160"

definition lock_kernel :: "'a kstate_scheme \<Rightarrow> 'a kstate_scheme option" where
  "lock_kernel s = (if kernel_lock s = None then Some (s\<lparr>kernel_lock := Some (cpunum s)\<rparr>) else None)"

text \<open>\<open>utf->utf_regs = tf->tf_regs\<close>: the fifteen registers in the order of \<open>struct PushRegs\<close>.\<close>

definition regs_list :: "push_regs \<Rightarrow> u64 list" where
  "regs_list r = [reg_r15 r, reg_r14 r, reg_r13 r, reg_r12 r, reg_r11 r, reg_r10 r, reg_r9 r, reg_r8 r,
     reg_rsi r, reg_rdi r, reg_rbp r, reg_rdx r, reg_rcx r, reg_rbx r, reg_rax r]"

fun store_words :: "u64 list \<Rightarrow> nat \<Rightarrow> u64 \<Rightarrow> 'a pstate_scheme \<Rightarrow> 'a pstate_scheme option" where
  "store_words [] root va s = Some s"
| "store_words (w # ws) root va s = do {
     s1 \<leftarrow> user_store_n 8 root va w s;
     store_words ws root (va + 8) s1 }"

text \<open>The address of the fault record: at the top of the exception stack, or below the trap-time
  stack pointer, one word apart, when the fault happened on the exception stack.  \<open>None\<close> when
  the stack overflows.\<close>

definition utf_addr :: "u64 \<Rightarrow> u64 option" where
  "utf_addr rsp =
     (if \<not> (rsp < UXSTACKTOP \<and> rsp > UXSTACKTOP - 4096) then Some (UXSTACKTOP - UTF_SIZE)
      else if rsp - UTF_SIZE - 8 < UXSTACKTOP - 4096 then None
      else Some (rsp - UTF_SIZE - 8))"

text \<open>\<open>tf\<close> points at the trap frame of \<open>curenv\<close> for a fault in user mode.\<close>

definition push_utf :: "nat \<Rightarrow> u64 \<Rightarrow> u64 \<Rightarrow> 'a kstate_scheme \<Rightarrow> 'a kstate_scheme option" where
  "push_utf c utf fault_va s = do {
     let tf = env_tf (envs s c);
     let root = cur_root s;
     s1 \<leftarrow> user_store_n 8 root (utf + 144) (tf_eflags tf) s;
     s2 \<leftarrow> user_store_n 8 root (utf + 8) (tf_err tf) s1;
     s3 \<leftarrow> user_store_n 8 root utf fault_va s2;
     s4 \<leftarrow> store_words (regs_list (tf_regs tf)) root (utf + 16) s3;
     s5 \<leftarrow> user_store_n 8 root (utf + 136) (tf_rip tf) s4;
     s6 \<leftarrow> user_store_n 8 root (utf + 152) (tf_rsp tf) s5;
     Some (upd_env c (\<lambda>v. v\<lparr>env_tf := (env_tf v)\<lparr>tf_rip := env_pgfault_upcall v, tf_rsp := utf\<rparr>\<rparr>) s6) }"

definition page_fault_handler :: "u64 \<Rightarrow> trapframe \<Rightarrow> 'a kstate_scheme \<Rightarrow> (unit, 'a kstate_scheme) ctl option" where
  "page_fault_handler fault_va tf s =
     (if tf_cs tf AND 3 = 0 then None
      else do {
        c \<leftarrow> curenv s;
        if env_pgfault_upcall (envs s c) \<noteq> 0 then
          andthen (user_mem_assert c (UXSTACKTOP - 4096) 4096 (PTE_W OR PTE_U OR PTE_P) s) (\<lambda>_ s1.
            case utf_addr (tf_rsp (env_tf (envs s1 c))) of
              None \<Rightarrow> env_destroy c s1
            | Some utf \<Rightarrow> do {
                s2 \<leftarrow> push_utf c utf fault_va s1;
                s3 \<leftarrow> env_run c s2;
                Some (User s3) })
        else env_destroy c s })"

text \<open>A handler that returns after \<open>sched_yield\<close> or \<open>page_fault_handler\<close> falls through to the
  unexpected-trap code; only the breakpoint does so.\<close>

definition unexpected_trap :: "trapframe \<Rightarrow> 'a kstate_scheme \<Rightarrow> (unit, 'a kstate_scheme) ctl option" where
  "unexpected_trap tf s =
     (if tf_cs tf = GD_KT then None else do { c \<leftarrow> curenv s; env_destroy c s })"

definition trap_dispatch ::
  "('a sstate_scheme \<Rightarrow> 'a sstate_scheme option) \<Rightarrow> bool \<Rightarrow> u64 \<Rightarrow> trapframe \<Rightarrow>
     'a sstate_scheme \<Rightarrow> (unit, 'a sstate_scheme) ctl option" where
  "trap_dispatch monitor stale fault_va tf s =
     (let trapno = tf_trapno tf; regs = tf_regs tf;
          fallthrough = (\<lambda>_ s'. unexpected_trap tf s') in
      if trapno = T_SYSCALL then
        andthen (syscall stale (reg_rax regs) (reg_rdx regs) (reg_rcx regs) (reg_rbx regs)
                   (reg_rdi regs) (reg_rsi regs) s) (\<lambda>r s1.
          Some (Ret () (case curenv s of
              Some c \<Rightarrow> if tf_cs tf AND 3 = 3
                        then upd_env c (\<lambda>v. v\<lparr>env_tf := (env_tf v)\<lparr>tf_regs :=
                               (tf_regs (env_tf v))\<lparr>reg_rax := word_of_int r\<rparr>\<rparr>\<rparr>) s1
                        else s1
            | None \<Rightarrow> s1)))
      else if trapno = T_PGFLT then andthen (page_fault_handler fault_va tf s) fallthrough
      else if trapno = T_BRKPT then do { s1 \<leftarrow> monitor s; unexpected_trap tf s1 }
      else if trapno = IRQ_OFFSET + IRQ_SPURIOUS then Some (Ret () s)
      else if trapno = IRQ_OFFSET + IRQ_TIMER then do {
        t \<leftarrow> time_tick (ticks s);
        andthen (sched_yield (s\<lparr>ticks := t\<rparr>)) fallthrough }
      else if trapno = IRQ_OFFSET + IRQ_KBD then
        andthen (sched_yield (s\<lparr>console := kbd_intr (kbd_in s) (console s), kbd_in := []\<rparr>)) fallthrough
      else if trapno = IRQ_OFFSET + IRQ_SERIAL then
        andthen (sched_yield (s\<lparr>console := serial_intr (serial_in s) (console s),
            serial_in := (if serial_exists (console s) then [] else serial_in s)\<rparr>)) fallthrough
      else unexpected_trap tf s)"

definition trap ::
  "('a sstate_scheme \<Rightarrow> 'a sstate_scheme option) \<Rightarrow> bool \<Rightarrow> u64 \<Rightarrow> trapframe \<Rightarrow>
     'a sstate_scheme \<Rightarrow> (unit, 'a sstate_scheme) ctl option" where
  "trap monitor stale fault_va tf s = do {
     s1 \<leftarrow> (let s0 = s\<lparr>cpu_status := (cpu_status s)(cpunum s := CPU_STARTED)\<rparr>
           in if cpu_status s (cpunum s) = CPU_HALTED then lock_kernel s0 else Some s0);
     let dispatch = (\<lambda>s'. andthen (trap_dispatch monitor stale fault_va tf s') (\<lambda>_ s2.
           case curenv s2 of
             Some c \<Rightarrow> if env_status (envs s2 c) = ENV_RUNNING
                       then do { s3 \<leftarrow> env_run c s2; Some (User s3) } else sched_yield s2
           | None \<Rightarrow> sched_yield s2));
     if tf_cs tf AND 3 = 3 then do {
       s2 \<leftarrow> lock_kernel s1;
       c \<leftarrow> curenv s2;
       if env_status (envs s2 c) = ENV_DYING then do {
         s3 \<leftarrow> env_free c s2;
         sched_yield (set_curenv None s3) }
       else dispatch (upd_env c (\<lambda>v. v\<lparr>env_tf := tf\<rparr>) s2) }
     else dispatch s1 }"

section \<open>Leaving the kernel\<close>

text \<open>Whenever a CPU leaves the kernel for user mode or halts, it has released the kernel lock.\<close>

definition released :: "('a, 'b kstate_scheme) ctl option \<Rightarrow> bool" where
  "released c = (case c of Some (User s) \<Rightarrow> kernel_lock s = None \<and> curenv s \<noteq> None
     | Some (Halted s) \<Rightarrow> kernel_lock s = None \<and> curenv s = None | _ \<Rightarrow> True)"

lemma released_simps [simp]:
  "released None" "released (Some (Ret a s))" "released (Some (Monitor s))"
  "released (Some (User s)) \<longleftrightarrow> kernel_lock s = None \<and> curenv s \<noteq> None"
  "released (Some (Halted s)) \<longleftrightarrow> kernel_lock s = None \<and> curenv s = None"
  by (simp_all add: released_def)

lemma released_andthen [intro!]:
  "released c \<Longrightarrow> (\<And>a s. c = Some (Ret a s) \<Longrightarrow> released (f a s)) \<Longrightarrow> released (andthen c f)"
  by (auto simp: andthen_def split: option.splits ctl.splits)

lemma released_bind [intro!]:
  "(\<And>x. c = Some x \<Longrightarrow> released (f x)) \<Longrightarrow> released (c \<bind> f)"
  by (cases c) auto

lemma env_pop_tf_released: "env_pop_tf s = Some s' \<Longrightarrow> kernel_lock s' = kernel_lock s \<and> curenv s' = curenv s \<and> curenv s \<noteq> None"
  by (auto simp: env_pop_tf_def split: bind_splits)

lemma unlock_kernel_released: "unlock_kernel s = Some s' \<Longrightarrow> s' = s\<lparr>kernel_lock := None\<rparr>"
  by (auto simp: unlock_kernel_def split: if_splits)

lemma env_run_released: "env_run e s = Some s' \<Longrightarrow> kernel_lock s' = None \<and> curenv s' \<noteq> None"
  by (auto simp: env_run_def Let_def split: if_splits bind_splits
      dest!: env_pop_tf_released unlock_kernel_released)

lemma env_run_user [intro!]: "released (do { s' \<leftarrow> env_run e s; Some (User s') })"
  by (auto dest: env_run_released)

lemma sched_halt_released [intro!]: "released (sched_halt s)"
  by (auto simp: sched_halt_def Let_def set_curenv_def dest!: unlock_kernel_released)

lemma sched_yield_released [intro!]: "released (sched_yield s)"
  by (auto simp: sched_yield_def split: option.split dest: env_run_released)

lemma env_destroy_released [intro!]: "released (env_destroy e s)"
  by (auto simp: env_destroy_def)

lemma user_mem_assert_released [intro!]: "released (user_mem_assert e va len perm s)"
  by (auto simp: user_mem_assert_def)

lemma sys_page_map_released [intro!]: "released (sys_page_map a b c d e s)"
  by (auto simp: sys_page_map_def split: option.splits)

lemma sys_ipc_try_send_released [intro!]: "released (sys_ipc_try_send st i v va p s)"
  unfolding sys_ipc_try_send_def by (auto simp: Let_def split: option.splits)

lemma sys_env_set_trapframe_released [intro!]: "released (sys_env_set_trapframe i tf s)"
  unfolding sys_env_set_trapframe_def by (auto simp: Let_def)

lemma syscall_released [intro!]: "released (syscall st n a1 a2 a3 a4 a5 s)"
proof -
  have "released (sys_cputs a1 a2 s)" unfolding sys_cputs_def by (auto simp: Let_def)
  moreover have "released (sys_cgetc s)" by (auto simp: sys_cgetc_def split: prod.split)
  moreover have "released (sys_getenvid s)" by (auto simp: sys_getenvid_def)
  moreover have "released (sys_env_destroy (ucast a1) s)" by (auto simp: sys_env_destroy_def)
  moreover have "released (sys_yield s)" by (auto simp: sys_yield_def)
  moreover have "released (sys_exofork s)" unfolding sys_exofork_def by (auto simp: Let_def)
  moreover have "released (sys_env_set_status (ucast a1) (sint (ucast a2 :: u32)) s)"
    by (auto simp: sys_env_set_status_def)
  moreover have "released (sys_env_set_pgfault_upcall (ucast a1) a2 s)"
    by (auto simp: sys_env_set_pgfault_upcall_def)
  moreover have "released (sys_ipc_recv a1 s)" unfolding sys_ipc_recv_def by (auto simp: Let_def sys_yield_def)
  moreover have "released (sys_page_alloc (ucast a1) a2 (ucast a3) s)"
    by (auto simp: sys_page_alloc_def split: option.split)
  moreover have "released (sys_page_unmap (ucast a1) a2 s)" by (auto simp: sys_page_unmap_def)
  moreover have "released (sys_net_rx a1 s)" by (auto simp: sys_net_rx_def)
  moreover have "released (sys_net_tx a1 a2 s)" by (auto simp: sys_net_tx_def)
  moreover have "released (sys_time_msec s)" by (auto simp: sys_time_msec_def)
  ultimately show ?thesis unfolding syscall_def by (auto simp del: released_simps intro: released_simps)
qed

lemma page_fault_handler_released [intro!]: "released (page_fault_handler va tf s)"
  unfolding page_fault_handler_def
  by (auto split: option.split dest: env_run_released)

lemma unexpected_trap_released [intro!]: "released (unexpected_trap tf s)"
  by (auto simp: unexpected_trap_def)

lemma trap_dispatch_released [intro!]: "released (trap_dispatch mon st va tf s)"
  unfolding trap_dispatch_def by (auto simp: Let_def)

lemma trap_never_returns_locked: "released (trap mon st va tf s)"
  unfolding trap_def Let_def
  by (auto split: option.split dest: env_run_released)

text \<open>\<open>trap\<close> does not return.\<close>

lemma sched_yield_no_ret: "sched_yield s \<noteq> Some (Ret a t)"
  by (auto simp: sched_yield_def sched_halt_def Let_def split: option.splits bind_splits if_splits)

section \<open>The fault record\<close>

lemma utf_addr_bounds:
  assumes "utf_addr rsp = Some u"
  shows "UXSTACKTOP - 4096 \<le> u \<and> unat u + 160 \<le> unat UXSTACKTOP \<and>
    (rsp < UXSTACKTOP \<and> rsp > UXSTACKTOP - 4096 \<longrightarrow> unat u + 168 = unat rsp)"
proof (cases "rsp < UXSTACKTOP \<and> rsp > UXSTACKTOP - 4096")
  case False
  with assms have "u = UXSTACKTOP - UTF_SIZE" by (auto simp: utf_addr_def split: if_splits)
  with False show ?thesis by auto
next
  case True
  with assms have u: "u = rsp - UTF_SIZE - 8" "\<not> rsp - UTF_SIZE - 8 < UXSTACKTOP - 4096"
    by (auto simp: utf_addr_def split: if_splits)
  have r: "unat rsp < 0xEF800000" "0xEF7FF000 < unat rsp"
    using True by (simp_all add: word_less_nat_alt)
  have "unat (rsp - 168) = unat rsp - 168" using r by (simp add: unat_sub_if' word_le_nat_alt)
  then have "unat u = unat rsp - 168" using u(1) by simp
  with r u(2) True show ?thesis by (simp add: u(1) [symmetric] word_le_nat_alt not_less)
qed

section \<open>Properties\<close>

text \<open>C1: whatever the trap, when a processor leaves the kernel for user mode it has released the kernel
  lock and has a current environment, and when it halts it has released the lock and has none.\<close>

theorem trap_releases_lock:
  "case trap monitor stale fault_va tf s of
     Some (User s') \<Rightarrow> kernel_lock s' = None \<and> curenv s' \<noteq> None
   | Some (Halted s') \<Rightarrow> kernel_lock s' = None \<and> curenv s' = None
   | _ \<Rightarrow> True"
  using trap_never_returns_locked [of monitor stale fault_va tf s] unfolding released_def .

lemma env_run_keeps_tf: "env_run e s = Some s' \<Longrightarrow> env_tf (envs s' i) = env_tf (envs s i)"
  by (auto simp: env_run_def env_pop_tf_def unlock_kernel_def set_curenv_def Let_def
      split: if_splits option.splits bind_splits)

text \<open>A system of the small kernel, its card, an idle console and no input.\<close>

definition small_system :: sstate where
  "small_system = nstate.extend (small_nic\<lparr>kernel_lock := None\<rparr>) (sstate.fields idle_console 41 [] [])"

lemma small_system_simps:
  "kernel_lock small_system = None" "curenv small_system = Some 0" "cpunum small_system = 0"
  "envs small_system = small_env" "ticks small_system = 41" "cpu_status small_system c = 1"
  by (simp_all add: small_system_def small_nic_def nstate.defs kstate.defs sstate.defs small_kernel_def)

text \<open>C10: a clock interrupt preempts the running environment: when another environment is runnable, the
  processor counts the tick, saves the registers of the interrupted environment, makes it runnable
  and enters a runnable environment with the kernel lock released.\<close>

theorem timer_preempts:
  fixes s :: "'a sstate_scheme"
  assumes "tf_cs tf AND 3 = 3" "tf_trapno tf = IRQ_OFFSET + IRQ_TIMER"
    and "kernel_lock s = None" "cpu_status s (cpunum s) \<noteq> CPU_HALTED"
    and "curenv s = Some c" "env_status (envs s c) = ENV_RUNNING"
    and "time_tick (ticks s) = Some t"
    and "e < NENV" "env_status (envs s e) = ENV_RUNNABLE"
  shows "\<exists>k s'. trap monitor stale fault_va tf s = Some (User s') \<and> env_status (envs s k) = ENV_RUNNABLE \<and>
    curenv s' = Some k \<and> env_status (envs s' k) = ENV_RUNNING \<and> kernel_lock s' = None \<and>
    env_status (envs s' c) = ENV_RUNNABLE \<and> env_tf (envs s' c) = tf"
proof -
  let ?s1 = "s\<lparr>cpu_status := (cpu_status s)(cpunum s := CPU_STARTED), kernel_lock := Some (cpunum s)\<rparr>"
  let ?s2 = "(upd_env c (\<lambda>v. v\<lparr>env_tf := tf\<rparr>) ?s1)\<lparr>ticks := t\<rparr>"
  have st: "env_status (envs ?s2 i) = env_status (envs s i)" for i by simp
  have "env_status (envs ?s2 e) = ENV_RUNNABLE" "kernel_lock ?s2 = Some (cpunum ?s2)"
    using assms(9) by (simp_all only: st) simp
  from sched_yield_runs [OF assms(8) this] obtain k s'
    where k: "sched_search NENV 1 (envs ?s2) (env_counter ?s2) = Some k" "sched_yield ?s2 = Some (User s')"
      "env_run k (?s2\<lparr>env_counter := of_nat k\<rparr>) = Some s'" by blast
  have rk: "env_status (envs s k) = ENV_RUNNABLE" using sched_search_some [OF k(1)] st by auto
  then have kc: "k \<noteq> c" using assms(6) by auto
  let ?s3 = "?s2\<lparr>env_counter := of_nat k\<rparr>"
  have h: "curenv ?s3 \<noteq> Some k \<or> env_status (envs ?s3 k) = ENV_RUNNING" "kernel_lock ?s3 = Some (cpunum ?s3)"
    using assms(5) kc by simp_all
  from env_run_spec [OF h] k(3) have post: "curenv s' = Some k" "env_status (envs s' k) = ENV_RUNNING" "kernel_lock s' = None"
    "\<forall>c. curenv ?s3 = Some c \<and> c \<noteq> k \<and> env_status (envs ?s3 c) = ENV_RUNNING \<longrightarrow> env_status (envs s' c) = ENV_RUNNABLE"
    by auto
  have c: "env_status (envs s' c) = ENV_RUNNABLE" using post(4) assms(5,6) kc by simp
  have tf: "env_tf (envs s' c) = tf" using env_run_keeps_tf [OF k(3), of c] by simp
  have tk: "ticks (upd_env c f r) = ticks r" for f and r :: "'a sstate_scheme" by (simp add: upd_env_def)
  have "trap monitor stale fault_va tf s = Some (User s')"
    using assms k(2) unfolding trap_def trap_dispatch_def Let_def lock_kernel_def
    by (simp add: andthen_def tk)
  with rk post c tf show ?thesis by blast
qed

theorem timer_preempts_witness:
  "\<exists>k s'. trap Some False 0 (zero_tf\<lparr>tf_cs := 0x1B, tf_trapno := 32\<rparr>) small_system = Some (User s') \<and>
     env_status (small_env k) = ENV_RUNNABLE \<and> curenv s' = Some k \<and> kernel_lock s' = None"
proof -
  have h: "env_status (envs small_system 0) = ENV_RUNNING" "time_tick (ticks small_system) = Some 42"
    "env_status (envs small_system 1) = ENV_RUNNABLE"
    by (simp_all add: small_system_simps small_env_def time_tick_def Let_def)
  from timer_preempts [where tf = "zero_tf\<lparr>tf_cs := 0x1B, tf_trapno := 32\<rparr>" and stale = False and fault_va = "0" and monitor = Some,
      OF _ _ small_system_simps(1) _ small_system_simps(2) h(1,2) _ h(3)]
  show ?thesis by (auto simp: small_system_simps)
qed

text \<open>The record of a page fault is pushed inside the page of the exception stack; for a fault on
  the exception stack itself it lies directly below the trap-time stack pointer, leaving one word
  between them.\<close>

theorem fault_record_on_exception_stack:
  assumes "utf_addr rsp = Some u"
  shows "UXSTACKTOP - 4096 \<le> u \<and> unat u + 160 \<le> unat UXSTACKTOP \<and>
    (rsp < UXSTACKTOP \<and> rsp > UXSTACKTOP - 4096 \<longrightarrow> unat u + 168 = unat rsp)"
  by (rule utf_addr_bounds [OF assms])

theorem fault_record_on_exception_stack_witness:
  "utf_addr 0xEF7FFF60 = Some 0xEF7FFEB8 \<and> unat (0xEF7FFEB8 :: u64) + 168 = unat (0xEF7FFF60 :: u64)"
proof -
  have u: "utf_addr 0xEF7FFF60 = Some 0xEF7FFEB8" by (simp add: utf_addr_def)
  from fault_record_on_exception_stack [OF u] u show ?thesis by simp
qed

end
