(* ===== verification/Kern_Spinlock.thy ===== *)
theory Kern_Spinlock
  imports JOS_Prelude
begin

text \<open>
  The spin lock of \<^verbatim>\<open>kern/spinlock.c\<close>, with the debugging checks compiled in as the header
  selects them.  Several CPUs run \<open>spin_lock\<close> and \<open>spin_unlock\<close> concurrently; a step of one
  CPU is one access to the shared lock: the check of \<open>holding\<close>, the atomic \<open>xchg\<close>, the write of
  \<open>lk->cpu\<close>.  The recorded call stack \<open>pcs\<close> and the name are not modelled.
\<close>

record spinlock =
  locked :: u32
  lk_cpu :: "nat option"

definition spin_initlock :: "spinlock \<Rightarrow> spinlock" where
  "spin_initlock lk = lk\<lparr>locked := 0, lk_cpu := None\<rparr>"

definition holding :: "nat \<Rightarrow> spinlock \<Rightarrow> bool" where
  "holding c lk \<longleftrightarrow> locked lk \<noteq> 0 \<and> lk_cpu lk = Some c"

text \<open>Atomic exchange of the lock word: the old value and the new lock.\<close>

definition xchg_locked :: "u32 \<Rightarrow> spinlock \<Rightarrow> u32 \<times> spinlock" where
  "xchg_locked v lk = (locked lk, lk\<lparr>locked := v\<rparr>)"

text \<open>Where a CPU is: outside, spinning, owning the lock word but not yet recorded, in the
  critical section, about to clear the lock word, stopped by one of the two panics.\<close>

datatype lock_pc = Outside | Spinning | Acquired | Critical | Releasing | Panicked

type_synonym lstate = "spinlock \<times> (nat \<Rightarrow> lock_pc)"

text \<open>One step of CPU \<open>c\<close> through \<open>spin_lock\<close> and \<open>spin_unlock\<close>.\<close>

definition lock_step :: "nat \<Rightarrow> lstate \<Rightarrow> lstate" where
  "lock_step c = (\<lambda>(lk, pc).
     case pc c of
       Outside \<Rightarrow> (lk, pc(c := if holding c lk then Panicked else Spinning))
     | Spinning \<Rightarrow>
         let (old, lk') = xchg_locked 1 lk
         in (lk', if old \<noteq> 0 then pc else pc(c := Acquired))
     | Acquired \<Rightarrow> (lk\<lparr>lk_cpu := Some c\<rparr>, pc(c := Critical))
     | Critical \<Rightarrow>
         if \<not> holding c lk then (lk, pc(c := Panicked))
         else (lk\<lparr>lk_cpu := None\<rparr>, pc(c := Releasing))
     | Releasing \<Rightarrow> (snd (xchg_locked 0 lk), pc(c := Outside))
     | Panicked \<Rightarrow> (lk, pc))"

text \<open>Any interleaving of the CPUs.\<close>

inductive lock_reach :: "lstate \<Rightarrow> lstate \<Rightarrow> bool" for s0 :: lstate where
  start: "lock_reach s0 s0"
| step: "lock_reach s0 s \<Longrightarrow> lock_reach s0 (lock_step c s)"

definition owns :: "lock_pc \<Rightarrow> bool" where
  "owns p \<longleftrightarrow> p = Acquired \<or> p = Critical \<or> p = Releasing"

definition lock_inv :: "lstate \<Rightarrow> bool" where
  "lock_inv s \<longleftrightarrow>
     (locked (fst s) = 0 \<longleftrightarrow> (\<forall>c. \<not> owns (snd s c))) \<and>
     (\<forall>c d. owns (snd s c) \<longrightarrow> owns (snd s d) \<longrightarrow> c = d) \<and>
     (\<forall>c. lk_cpu (fst s) = Some c \<longleftrightarrow> snd s c = Critical) \<and>
     (\<forall>c. snd s c \<noteq> Panicked)"

lemma lock_inv_init: "lock_inv (spin_initlock lk, \<lambda>_. Outside)"
  by (simp add: lock_inv_def spin_initlock_def owns_def)

lemma lock_inv_step: "lock_inv s \<Longrightarrow> lock_inv (lock_step c s)"
proof -
  assume inv: "lock_inv s"
  obtain lk pc where s: "s = (lk, pc)" by force
  from inv have i: "locked lk = 0 \<longleftrightarrow> (\<forall>c. \<not> owns (pc c))"
    "\<And>c d. owns (pc c) \<Longrightarrow> owns (pc d) \<Longrightarrow> c = d"
    "\<And>c. lk_cpu lk = Some c \<longleftrightarrow> pc c = Critical" "\<And>c. pc c \<noteq> Panicked"
    by (auto simp: lock_inv_def s)
  show ?thesis
  proof (cases "pc c")
    case Outside
    then have "\<not> holding c lk" using i(3) [of c] by (simp add: holding_def)
    then have st: "lock_step c s = (lk, pc(c := Spinning))" using Outside by (simp add: lock_step_def s)
    have o: "owns ((pc(c := Spinning)) d) = owns (pc d)" for d using Outside by (simp add: owns_def)
    have "pc d = Critical \<longleftrightarrow> (pc(c := Spinning)) d = Critical" for d using Outside by simp
    then show ?thesis unfolding st lock_inv_def using i o by auto
  next
    case Spinning
    show ?thesis
    proof (cases "locked lk = 0")
      case True
      then have st: "lock_step c s = (lk\<lparr>locked := 1\<rparr>, pc(c := Acquired))"
        using Spinning by (simp add: lock_step_def s xchg_locked_def)
      have no: "\<not> owns (pc d)" for d using True i(1) by simp
      then have "pc d \<noteq> Critical" for d by (metis owns_def)
      then show ?thesis unfolding st lock_inv_def using i no by (auto simp: owns_def)
    next
      case False
      then have st: "lock_step c s = (lk\<lparr>locked := 1\<rparr>, pc)"
        using Spinning by (simp add: lock_step_def s xchg_locked_def)
      show ?thesis unfolding st lock_inv_def using i False by auto
    qed
  next
    case Acquired
    then have st: "lock_step c s = (lk\<lparr>lk_cpu := Some c\<rparr>, pc(c := Critical))" by (simp add: lock_step_def s)
    have o: "owns ((pc(c := Critical)) d) = owns (pc d)" for d using Acquired by (simp add: owns_def)
    have "pc d \<noteq> Critical" if "d \<noteq> c" for d using i(2) [of c d] Acquired that by (auto simp: owns_def)
    then show ?thesis unfolding st lock_inv_def using i o by auto
  next
    case Critical
    then have "holding c lk" using i(1) i(3) [of c] by (auto simp: holding_def owns_def)
    then have st: "lock_step c s = (lk\<lparr>lk_cpu := None\<rparr>, pc(c := Releasing))"
      using Critical by (simp add: lock_step_def s)
    have o: "owns ((pc(c := Releasing)) d) = owns (pc d)" for d using Critical by (simp add: owns_def)
    have "pc d \<noteq> Critical" if "d \<noteq> c" for d using i(2) [of c d] Critical that by (auto simp: owns_def)
    then show ?thesis unfolding st lock_inv_def using i o by auto
  next
    case Releasing
    then have st: "lock_step c s = (lk\<lparr>locked := 0\<rparr>, pc(c := Outside))"
      by (simp add: lock_step_def s xchg_locked_def)
    have no: "\<not> owns (pc d)" if "d \<noteq> c" for d using i(2) [of c d] Releasing that by (auto simp: owns_def)
    have free: "\<not> owns ((pc(c := Outside)) d)" for d using no by (cases "d = c") (auto simp: owns_def)
    have "pc d \<noteq> Critical" for d using no [of d] Releasing by (cases "d = c") (auto simp: owns_def)
    then have "lk_cpu lk \<noteq> Some d" for d using i(3) by simp
    moreover have "(pc(c := Outside)) d \<noteq> Critical" "(pc(c := Outside)) d \<noteq> Panicked" for d
      using free [of d] i(4) [of d] by (auto simp: owns_def)
    ultimately show ?thesis unfolding st lock_inv_def using free by simp
  next
    case Panicked
    then show ?thesis using i(4) by simp
  qed
qed

lemma lock_reach_inv: "lock_reach (spin_initlock lk, \<lambda>_. Outside) s \<Longrightarrow> lock_inv s"
  by (induction rule: lock_reach.induct) (simp_all add: lock_inv_init lock_inv_step)

text \<open>A free lock is acquired by the first CPU that tries.\<close>

lemma lock_acquire:
  "locked lk = 0 \<Longrightarrow> pc c = Outside \<Longrightarrow>
   snd ((lock_step c ^^ 3) (lk, pc)) c = Critical"
  by (simp add: numeral_3_eq_3 lock_step_def holding_def xchg_locked_def)

section \<open>Properties\<close>

text \<open>C9: mutual exclusion of the spin lock: in every interleaving of any number of processors, at most
  one is between acquiring and releasing the lock, the lock records the one in the critical
  section, and neither panic of \<open>spin_lock\<close> and \<open>spin_unlock\<close> happens.\<close>

theorem spin_lock_mutual_exclusion:
  assumes "lock_reach (spin_initlock lk, \<lambda>_. Outside) (lk', pc)"
  shows "(owns (pc c) \<and> owns (pc d) \<longrightarrow> c = d) \<and> (pc c = Critical \<longrightarrow> holding c lk') \<and> pc c \<noteq> Panicked"
  using lock_reach_inv [OF assms] by (auto simp: lock_inv_def holding_def owns_def)

theorem spin_lock_mutual_exclusion_witness:
  "\<exists>lk' pc. lock_reach (spin_initlock \<lparr>locked = 7, lk_cpu = None\<rparr>, \<lambda>_. Outside) (lk', pc) \<and>
     pc 0 = Critical \<and> holding 0 lk' \<and> pc 1 = Spinning"
proof -
  let ?ini = "(spin_initlock \<lparr>locked = 7, lk_cpu = None\<rparr>, \<lambda>_. Outside)"
  let ?s = "lock_step 1 (lock_step 0 (lock_step 0 (lock_step 0 (lock_step 1 ?ini))))"
  have r: "lock_reach ?ini (fst ?s, snd ?s)"
    unfolding prod.collapse by (intro lock_reach.step lock_reach.start)
  have "snd ?s 0 = Critical" "snd ?s 1 = Spinning"
    by (simp_all add: lock_step_def holding_def xchg_locked_def spin_initlock_def)
  with spin_lock_mutual_exclusion [OF r, of 0] r show ?thesis by blast
qed

text \<open>Once it owns the lock, a processor frees it in at most three of its own steps.\<close>

lemma owner_releases:
  assumes "lock_inv (lk, pc)" "owns (pc d)"
  shows "\<exists>m lk'. (lock_step d ^^ m) (lk, pc) = (lk', pc(d := Outside)) \<and> locked lk' = 0"
proof -
  note st = lock_step_def holding_def xchg_locked_def
  have l: "locked lk \<noteq> 0" using assms by (auto simp: lock_inv_def)
  consider "pc d = Acquired" | "pc d = Critical" | "pc d = Releasing" using assms(2) by (auto simp: owns_def)
  then show ?thesis
  proof cases
    case 1
    then show ?thesis using l by (intro exI [of _ 3]) (simp add: numeral_3_eq_3 st)
  next
    case 2
    then have "lk_cpu lk = Some d" using assms(1) by (auto simp: lock_inv_def)
    with 2 show ?thesis using l by (intro exI [of _ 2]) (simp add: numeral_2_eq_2 st)
  next
    case 3
    then show ?thesis by (intro exI [of _ 1]) (simp add: st)
  qed
qed

lemma free_lock_acquired:
  assumes "locked lk = 0" "pc c = Outside \<or> pc c = Spinning"
  shows "\<exists>n. snd ((lock_step c ^^ n) (lk, pc)) c = Critical"
  using assms(2)
proof
  assume "pc c = Outside"
  then show ?thesis using lock_acquire [OF assms(1)] by blast
next
  assume "pc c = Spinning"
  then show ?thesis using assms(1)
    by (intro exI [of _ 2]) (simp add: numeral_2_eq_2 lock_step_def xchg_locked_def)
qed

text \<open>C21: the spin lock cannot deadlock: from every reachable state each processor can still enter the
  critical section, after finitely many steps of the current owner followed by its own.\<close>

theorem spin_lock_no_deadlock:
  assumes "lock_reach (spin_initlock lk, \<lambda>_. Outside) s"
  shows "\<exists>d m n. snd ((lock_step c ^^ n) ((lock_step d ^^ m) s)) c = Critical"
proof -
  obtain lk' pc where s: "s = (lk', pc)" by force
  have inv: "lock_inv (lk', pc)" using lock_reach_inv [OF assms] by (simp add: s)
  have cases_c: "pc c = Outside \<or> pc c = Spinning" if "\<not> owns (pc c)"
    using that inv by (cases "pc c") (auto simp: owns_def lock_inv_def)
  show ?thesis
  proof (cases "locked lk' = 0")
    case True
    then have "\<not> owns (pc c)" using inv by (auto simp: lock_inv_def)
    from free_lock_acquired [where pc = pc and c = c, OF True cases_c [OF this]] s show ?thesis
      by (metis funpow_0)
  next
    case False
    then obtain d where d: "owns (pc d)" using inv by (auto simp: lock_inv_def)
    obtain m lk2 where m: "(lock_step d ^^ m) (lk', pc) = (lk2, pc(d := Outside))" "locked lk2 = 0"
      using owner_releases [OF inv d] by blast
    have "(pc(d := Outside)) c = Outside \<or> (pc(d := Outside)) c = Spinning"
      using cases_c inv d by (auto simp: lock_inv_def)
    from free_lock_acquired [where pc = "pc(d := Outside)" and c = c, OF m(2) this] m(1) s show ?thesis by metis
  qed
qed

theorem spin_lock_no_deadlock_witness:
  "\<exists>d m n. snd ((lock_step 3 ^^ n) ((lock_step d ^^ m)
     (lock_step 0 (spin_initlock \<lparr>locked = 0, lk_cpu = None\<rparr>, \<lambda>_. Outside)))) 3 = Critical"
  by (rule spin_lock_no_deadlock [of "\<lparr>locked = 0, lk_cpu = None\<rparr>"]) (intro lock_reach.step lock_reach.start)

end
