(* ===== verification/Kern_Mp.thy ===== *)
theory Kern_Mp
  imports JOS_Prelude
begin

text \<open>
  Finding the processors and starting them: \<^verbatim>\<open>kern/mpconfig.c\<close>, \<^verbatim>\<open>kern/lapic.c\<close> and \<open>boot_aps\<close> of
  \<^verbatim>\<open>kern/init.c\<close>.

  Physical memory is a byte memory, and a kernel pointer \<open>KADDR(pa)\<close> is the physical address \<open>pa\<close> itself;
  \<open>np\<close> is the number of physical pages, above which \<open>KADDR\<close> panics.  The structures \<open>mp\<close>, \<open>mpconf\<close> and \<open>mpproc\<close> are
  packed and read at the offsets of their fields.  \<open>cpus[NCPU]\<close> is a list, \<open>bootcpu\<close> an index into it, and
  a write outside of it is \<open>None\<close>.
\<close>

section \<open>The configuration table\<close>

abbreviation NCPU :: nat where "NCPU \<equiv> 8"
abbreviation MP_SIZE :: nat where "MP_SIZE \<equiv> 16"
abbreviation MPPROC_SIZE :: nat where "MPPROC_SIZE \<equiv> 20"
abbreviation MPROC_EN :: u8 where "MPROC_EN \<equiv> 1"
abbreviation MPPROC_BOOT :: u8 where "MPPROC_BOOT \<equiv> 2"

record mpcpu =
  mc_id :: u8
  mc_status :: nat

record mpstate =
  mcpus :: "mpcpu list"
  bootcpu :: nat
  ismp :: bool
  ncpu :: nat
  lapicaddr :: u32
  outbs :: "(u16 \<times> u8) list"

definition mp_rd16 :: "cmem \<Rightarrow> nat \<Rightarrow> u16" where
  "mp_rd16 m a = ucast (m a) OR push_bit 8 (ucast (m (a + 1)))"

definition kaddr :: "nat \<Rightarrow> nat \<Rightarrow> nat option" where
  "kaddr np pa = (if pa div PGSIZE mod 2 ^ 32 \<ge> np then None else Some pa)"

fun sum_loop :: "cmem \<Rightarrow> nat \<Rightarrow> nat \<Rightarrow> u32 \<Rightarrow> u32" where
  "sum_loop m a 0 acc = acc"
| "sum_loop m a (Suc n) acc = sum_loop m (a + 1) n (acc + ucast (m a))"

definition sum8 :: "cmem \<Rightarrow> nat \<Rightarrow> nat \<Rightarrow> u8" where
  "sum8 m a len = ucast (sum_loop m a len 0)"

definition mp_sig :: "cmem \<Rightarrow> nat \<Rightarrow> bool" where
  "mp_sig m a \<longleftrightarrow> bytes_at m a [0x5F, 0x4D, 0x50, 0x5F] \<and> sum8 m a MP_SIZE = 0"

function mpsearch1_loop :: "cmem \<Rightarrow> nat \<Rightarrow> nat \<Rightarrow> nat option" where
  "mpsearch1_loop m mp e =
     (if mp < e then if mp_sig m mp then Some mp else mpsearch1_loop m (mp + MP_SIZE) e else None)"
  by pat_completeness auto
termination by (relation "measure (\<lambda>(m, mp, e). e - mp)") auto

declare mpsearch1_loop.simps [simp del]

definition mpsearch1 :: "nat \<Rightarrow> cmem \<Rightarrow> nat \<Rightarrow> nat \<Rightarrow> nat option option" where
  "mpsearch1 np m a len = do {
     mp \<leftarrow> kaddr np a;
     e \<leftarrow> kaddr np (a + len);
     Some (mpsearch1_loop m mp e) }"

definition mpsearch :: "nat \<Rightarrow> cmem \<Rightarrow> nat option option" where
  "mpsearch np m = do {
     bda \<leftarrow> kaddr np 0x400;
     let seg = mp_rd16 m (bda + 0x0E);
     r \<leftarrow> (if seg \<noteq> 0 then mpsearch1 np m (unat (push_bit 4 (ucast seg :: u32))) 1024
           else let p = (ucast (mp_rd16 m (bda + 0x13)) :: u32) * 1024
                in mpsearch1 np m (unat (p - 1024)) 1024);
     case r of Some mp \<Rightarrow> Some (Some mp) | None \<Rightarrow> mpsearch1 np m 0xF0000 0x10000 }"

definition mpconfig :: "nat \<Rightarrow> cmem \<Rightarrow> (nat \<times> nat) option option" where
  "mpconfig np m = do {
     r \<leftarrow> mpsearch np m;
     case r of
       None \<Rightarrow> Some None
     | Some mp \<Rightarrow>
         if rd32 m (mp + 4) = 0 \<or> m (mp + 11) \<noteq> 0 then Some None
         else do {
           conf \<leftarrow> kaddr np (unat (rd32 m (mp + 4)));
           let len = unat (mp_rd16 m (conf + 4));
           if \<not> bytes_at m conf [0x50, 0x43, 0x4D, 0x50] then Some None
           else if sum8 m conf len \<noteq> 0 then Some None
           else if m (conf + 6) \<noteq> 1 \<and> m (conf + 6) \<noteq> 4 then Some None
           else if sum8 m (conf + len) (unat (mp_rd16 m (conf + 40))) \<noteq> m (conf + 42) then Some None
           else Some (Some (mp, conf)) } }"

section \<open>Reading the processors\<close>

text \<open>One processor entry.\<close>

definition mp_proc :: "cmem \<Rightarrow> nat \<Rightarrow> mpstate \<Rightarrow> mpstate" where
  "mp_proc m p s =
     (let s1 = (if m (p + 3) AND MPPROC_BOOT \<noteq> 0 then s\<lparr>bootcpu := ncpu s\<rparr> else s) in
      if ncpu s1 < NCPU \<and> m (p + 3) AND MPROC_EN \<noteq> 0
      then s1\<lparr>mcpus := (mcpus s1)[ncpu s1 := (mcpus s1 ! ncpu s1)\<lparr>mc_id := of_nat (ncpu s1)\<rparr>], ncpu := ncpu s1 + 1\<rparr>
      else s1)"

text \<open>The loop over the \<open>n\<close> entries that are left; an unknown entry ends it.\<close>

fun mp_entries :: "cmem \<Rightarrow> nat \<Rightarrow> nat \<Rightarrow> mpstate \<Rightarrow> mpstate" where
  "mp_entries m 0 p s = s"
| "mp_entries m (Suc n) p s =
     (if m p = 0 then mp_entries m n (p + MPPROC_SIZE) (mp_proc m p s)
      else if m p \<in> {1, 2, 3, 4} then mp_entries m n (p + 8) s
      else s\<lparr>ismp := False\<rparr>)"

definition mp_init :: "nat \<Rightarrow> cmem \<Rightarrow> u8 \<Rightarrow> mpstate \<Rightarrow> mpstate option" where
  "mp_init np m imcr s = do {
     let s1 = s\<lparr>bootcpu := 0\<rparr>;
     r \<leftarrow> mpconfig np m;
     case r of
       None \<Rightarrow> Some s1
     | Some (mp, conf) \<Rightarrow> do {
         let s2 = mp_entries m (unat (mp_rd16 m (conf + 34))) (conf + 44) (s1\<lparr>ismp := True, lapicaddr := rd32 m (conf + 36)\<rparr>);
         if bootcpu s2 \<ge> length (mcpus s2) then None
         else do {
           let s3 = s2\<lparr>mcpus := (mcpus s2)[bootcpu s2 := (mcpus s2 ! bootcpu s2)\<lparr>mc_status := 1\<rparr>]\<rparr>;
           if \<not> ismp s3 then Some (s3\<lparr>ncpu := 1, lapicaddr := 0\<rparr>)
           else if m (mp + 12) \<noteq> 0 then Some (s3\<lparr>outbs := outbs s3 @ [(0x22, 0x70), (0x23, imcr OR 1)]\<rparr>)
           else Some s3 } } }"

section \<open>The search\<close>

lemma mpsearch1_loop_spec:
  "mpsearch1_loop m a e = Some mp \<longleftrightarrow>
     (\<exists>k. mp = a + k * MP_SIZE \<and> mp < e \<and> mp_sig m mp \<and> (\<forall>j < k. \<not> mp_sig m (a + j * MP_SIZE)))"
  (is "?l = ?r")
proof (induction m a e rule: mpsearch1_loop.induct)
  case (1 m a e)
  show ?case
  proof (cases "a < e \<and> \<not> mp_sig m a")
    case True
    have "(\<exists>k. mp = a + k * MP_SIZE \<and> mp < e \<and> mp_sig m mp \<and> (\<forall>j < k. \<not> mp_sig m (a + j * MP_SIZE))) \<longleftrightarrow>
      (\<exists>k. mp = a + MP_SIZE + k * MP_SIZE \<and> mp < e \<and> mp_sig m mp \<and> (\<forall>j < k. \<not> mp_sig m (a + MP_SIZE + j * MP_SIZE)))" (is "?A = ?B")
    proof
      assume ?A
      then obtain k where k: "mp = a + k * MP_SIZE" "mp < e" "mp_sig m mp" "\<forall>j < k. \<not> mp_sig m (a + j * MP_SIZE)" by blast
      then obtain k' where "k = Suc k'" using True by (cases k) auto
      with k have "\<forall>j < k'. \<not> mp_sig m (a + MP_SIZE + j * MP_SIZE)" by (auto simp: algebra_simps dest: spec [of _ "Suc _"])
      with k \<open>k = Suc k'\<close> show ?B by (intro exI [of _ k']) simp
    next
      assume ?B
      then obtain k where k: "mp = a + MP_SIZE + k * MP_SIZE" "mp < e" "mp_sig m mp" "\<forall>j < k. \<not> mp_sig m (a + MP_SIZE + j * MP_SIZE)" by blast
      have "\<not> mp_sig m (a + j * MP_SIZE)" if "j < Suc k" for j
        using that k(4) True by (cases j) (auto simp: algebra_simps)
      with k show ?A by (intro exI [of _ "Suc k"]) simp
    qed
    then show ?thesis using 1 True by (subst mpsearch1_loop.simps) simp
  next
    case False
    then show ?thesis by (subst mpsearch1_loop.simps) (auto intro: exI [of _ 0] dest: spec [of _ 0] gr0I)
  qed
qed

section \<open>What the table says\<close>

text \<open>The checksum is the sum of the bytes modulo 256.\<close>

lemma sum_loop_eq: "sum_loop m a n acc = acc + of_nat (\<Sum>i<n. unat (m (a + i)))"
proof (induction n arbitrary: a acc)
  case (Suc n)
  have "(\<Sum>i<Suc n. unat (m (a + i))) = unat (m a) + (\<Sum>i<n. unat (m (a + 1 + i)))"
    by (simp add: sum.lessThan_Suc_shift del: sum.lessThan_Suc)
  moreover have "ucast (m a) = (of_nat (unat (m a)) :: u32)" by simp
  ultimately show ?case using Suc [of "a + 1"] by (simp add: add.assoc)
qed simp

lemma sum8_eq: "unat (sum8 m a n) = (\<Sum>i<n. unat (m (a + i))) mod 256"
proof -
  have "(ucast (of_nat k :: u32) :: u8) = of_nat k" for k by (simp add: unsigned_of_nat take_bit_eq_mod word_of_nat_eq_iff mod_mod_cancel)
  then show ?thesis unfolding sum8_def sum_loop_eq by (simp add: unat_of_nat del: of_nat_sum)
qed

lemma unat_sum_list: "unat (sum_list xs :: u8) = sum_list (map unat xs) mod 256"
proof (induction xs)
  case (Cons x xs)
  have "unat (x + sum_list xs) = (unat x + unat (sum_list xs)) mod 256" by (simp add: unat_word_ariths)
  then show ?case unfolding Cons.IH by (simp add: mod_add_right_eq)
qed simp

lemma sum8_bytes: "bytes_at m a xs \<Longrightarrow> sum8 m a (length xs) = sum_list xs"
proof -
  assume b: "bytes_at m a xs"
  have "(\<Sum>i<length xs. unat (m (a + i))) = sum_list (map unat xs)"
    using b by (simp add: bytes_at_nth sum_list_sum_nth atLeast0LessThan)
  then have "unat (sum8 m a (length xs)) = sum_list (map unat xs) mod 256" by (simp add: sum8_eq)
  then show ?thesis unfolding unat_sum_list [symmetric] by (rule word_unat_eq_iff [THEN iffD2])
qed

datatype mpentry = Proc u8 | Dev u8

fun entries_at :: "cmem \<Rightarrow> nat \<Rightarrow> mpentry list \<Rightarrow> bool" where
  "entries_at m p [] \<longleftrightarrow> True"
| "entries_at m p (Proc fl # es) \<longleftrightarrow> m p = 0 \<and> m (p + 3) = fl \<and> entries_at m (p + MPPROC_SIZE) es"
| "entries_at m p (Dev t # es) \<longleftrightarrow> m p = t \<and> t \<in> {1, 2, 3, 4} \<and> entries_at m (p + 8) es"

fun is_enabled :: "mpentry \<Rightarrow> bool" where
  "is_enabled (Proc fl) \<longleftrightarrow> fl AND MPROC_EN \<noteq> 0"
| "is_enabled (Dev t) \<longleftrightarrow> False"

fun is_boot :: "mpentry \<Rightarrow> bool" where
  "is_boot (Proc fl) \<longleftrightarrow> fl AND MPPROC_BOOT \<noteq> 0"
| "is_boot (Dev t) \<longleftrightarrow> False"

definition enabled :: "mpentry list \<Rightarrow> nat" where
  "enabled es = length (filter is_enabled es)"

definition ids_ok :: "mpstate \<Rightarrow> bool" where
  "ids_ok s \<longleftrightarrow> length (mcpus s) = NCPU \<and> ncpu s \<le> NCPU \<and> (\<forall>i < ncpu s. mc_id (mcpus s ! i) = of_nat i)"

lemma mp_entries_spec:
  assumes "entries_at m p es" "ids_ok s"
  shows "ids_ok (mp_entries m (length es) p s) \<and> ncpu (mp_entries m (length es) p s) = min NCPU (ncpu s + enabled es) \<and>
    ismp (mp_entries m (length es) p s) = ismp s \<and> lapicaddr (mp_entries m (length es) p s) = lapicaddr s \<and>
    outbs (mp_entries m (length es) p s) = outbs s"
  using assms
proof (induction es arbitrary: p s)
  case Nil
  then show ?case by (simp add: ids_ok_def enabled_def)
next
  case (Cons e es)
  show ?case
  proof (cases e)
    case (Proc fl)
    have "ids_ok (mp_proc m p s)" "ncpu (mp_proc m p s) = min NCPU (ncpu s + enabled [Proc fl])" "ismp (mp_proc m p s) = ismp s"
      "lapicaddr (mp_proc m p s) = lapicaddr s" "outbs (mp_proc m p s) = outbs s"
      using Cons.prems Proc by (auto simp: mp_proc_def Let_def ids_ok_def enabled_def nth_list_update less_Suc_eq)
    then show ?thesis using Cons Proc by (auto simp: enabled_def)
  next
    case (Dev t)
    then show ?thesis using Cons by (auto simp: enabled_def)
  qed
qed

text \<open>The boot processor: the place of the last entry that is marked, counting the enabled ones before it.\<close>

fun boot_index :: "nat \<Rightarrow> nat \<Rightarrow> mpentry list \<Rightarrow> nat" where
  "boot_index n b [] = b"
| "boot_index n b (e # es) = boot_index (if is_enabled e then min NCPU (n + 1) else n) (if is_boot e then n else b) es"

lemma mp_entries_boot:
  "entries_at m p es \<Longrightarrow> ncpu s \<le> NCPU \<Longrightarrow> bootcpu (mp_entries m (length es) p s) = boot_index (ncpu s) (bootcpu s) es"
proof (induction es arbitrary: p s)
  case (Cons e es)
  show ?case
  proof (cases e)
    case (Proc fl)
    have "ncpu (mp_proc m p s) = (if is_enabled e then min NCPU (ncpu s + 1) else ncpu s)" "bootcpu (mp_proc m p s) = (if is_boot e then ncpu s else bootcpu s)"
      using Cons.prems Proc by (auto simp: mp_proc_def Let_def)
    then show ?thesis using Cons Proc by (auto simp del: is_enabled.simps is_boot.simps)
  next
    case (Dev t)
    then show ?thesis using Cons by auto
  qed
qed simp

lemma boot_index_split:
  assumes "is_boot e" "\<forall>x \<in> set ys. \<not> is_boot x" "n \<le> NCPU"
  shows "boot_index n b (xs @ e # ys) = min NCPU (n + enabled xs)"
proof -
  have ys: "boot_index k b' ys = b'" for k b' using assms(2) by (induction ys arbitrary: k) auto
  show ?thesis using assms(3)
  proof (induction xs arbitrary: n b)
    case Nil
    then show ?case using assms(1) ys by (simp add: enabled_def)
  next
    case (Cons x xs)
    then show ?case by (auto simp: enabled_def)
  qed
qed

text \<open>With a valid table whose entries are all known and one entry marked as the boot processor, \<open>mp_init\<close> counts the
  enabled processors, at most \<open>NCPU\<close> of them, numbers them from 0, and marks the boot processor as started.  When \<open>NCPU\<close>
  enabled processors come before the boot processor, it writes past the end of \<open>cpus\<close> instead.\<close>

theorem mp_init_counts_processors:
  assumes conf: "mpconfig np m = Some (Some (mp, conf))"
    and tab: "unat (mp_rd16 m (conf + 34)) = length es" "entries_at m (conf + 44) es"
    and boot: "es = xs @ e # ys" "is_boot e" "\<forall>x \<in> set ys. \<not> is_boot x"
    and init: "length (mcpus s) = NCPU" "ncpu s = 0"
  shows "if enabled xs < NCPU
    then \<exists>s'. mp_init np m imcr s = Some s' \<and> ismp s' \<and> ncpu s' = min NCPU (enabled es) \<and> bootcpu s' = enabled xs \<and>
      mc_status (mcpus s' ! bootcpu s') = 1 \<and> (\<forall>i < ncpu s'. mc_id (mcpus s' ! i) = of_nat i) \<and> lapicaddr s' = rd32 m (conf + 36)
    else mp_init np m imcr s = None"
proof -
  define s1 where "s1 = s\<lparr>bootcpu := 0, ismp := True, lapicaddr := rd32 m (conf + 36)\<rparr>"
  define s2 where "s2 = mp_entries m (length es) (conf + 44) s1"
  have i: "ids_ok s1" using init by (simp add: s1_def ids_ok_def)
  note sp = mp_entries_spec [OF tab(2) i, folded s2_def]
  have b: "bootcpu s2 = min NCPU (enabled xs)"
    using mp_entries_boot [OF tab(2), of s1] boot_index_split [OF boot(2,3), of 0] init boot(1) by (simp add: s2_def s1_def)
  have run: "mp_init np m imcr s = (if bootcpu s2 \<ge> length (mcpus s2) then None
      else if m (mp + 12) \<noteq> 0 then Some (s2\<lparr>mcpus := (mcpus s2)[bootcpu s2 := (mcpus s2 ! bootcpu s2)\<lparr>mc_status := 1\<rparr>], outbs := outbs s2 @ [(0x22, 0x70), (0x23, imcr OR 1)]\<rparr>)
      else Some (s2\<lparr>mcpus := (mcpus s2)[bootcpu s2 := (mcpus s2 ! bootcpu s2)\<lparr>mc_status := 1\<rparr>]\<rparr>))"
    unfolding mp_init_def conf using sp tab(1) by (simp add: s2_def s1_def Let_def)
  have l: "length (mcpus s2) = NCPU" "ncpu s1 = 0" "lapicaddr s1 = rd32 m (conf + 36)" "ismp s1" using sp init by (simp_all add: ids_ok_def s1_def)
  show ?thesis
  proof (cases "enabled xs < NCPU")
    case True
    then have b': "bootcpu s2 = enabled xs" "\<not> bootcpu s2 \<ge> length (mcpus s2)" using b l by simp_all
    show ?thesis using True run b' sp l by (auto simp: ids_ok_def nth_list_update)
  next
    case False
    then show ?thesis using run b l by simp
  qed
qed

section \<open>The local APIC\<close>

text \<open>
  The registers of the local APIC are seen through the writes made to them (the trace \<open>ltrace\<close>, with the port
  writes and the warm reset vector) and through the values it shows: its identifier, its version, and the successive
  values of \<open>ICRLO\<close> while the code waits for a delivery; \<open>None\<close> is a wait that has not ended.
\<close>

datatype lev = LapicW nat u32 | Outb u16 u8 | Wrv u16 u16

record lstate =
  lapic :: bool
  lapic_id :: u32
  lapic_ver :: u32
  icr_reads :: "u32 list"
  ltrace :: "lev list"

abbreviation TPR :: nat where "TPR \<equiv> 0x20"
abbreviation EOI :: nat where "EOI \<equiv> 0x2C"
abbreviation SVR :: nat where "SVR \<equiv> 0x3C"
abbreviation ESR :: nat where "ESR \<equiv> 0xA0"
abbreviation ICRLO :: nat where "ICRLO \<equiv> 0xC0"
abbreviation ICRHI :: nat where "ICRHI \<equiv> 0xC4"
abbreviation TIMER :: nat where "TIMER \<equiv> 0xC8"
abbreviation PCINT :: nat where "PCINT \<equiv> 0xD0"
abbreviation LINT0 :: nat where "LINT0 \<equiv> 0xD4"
abbreviation LINT1 :: nat where "LINT1 \<equiv> 0xD8"
abbreviation ERRORR :: nat where "ERRORR \<equiv> 0xDC"
abbreviation TICR :: nat where "TICR \<equiv> 0xE0"
abbreviation TDCR :: nat where "TDCR \<equiv> 0xF8"
abbreviation ICR_INIT :: u32 where "ICR_INIT \<equiv> 0x500"
abbreviation STARTUP :: u32 where "STARTUP \<equiv> 0x600"
abbreviation DELIVS :: u32 where "DELIVS \<equiv> 0x1000"
abbreviation ASSERT_BIT :: u32 where "ASSERT_BIT \<equiv> 0x4000"
abbreviation LEVEL :: u32 where "LEVEL \<equiv> 0x8000"
abbreviation BCAST :: u32 where "BCAST \<equiv> 0x80000"
abbreviation OTHERS :: u32 where "OTHERS \<equiv> 0xC0000"
abbreviation MASKED :: u32 where "MASKED \<equiv> 0x10000"

definition lapicw :: "nat \<Rightarrow> u32 \<Rightarrow> lstate \<Rightarrow> lstate" where
  "lapicw i v s = s\<lparr>ltrace := ltrace s @ [LapicW i v]\<rparr>"

fun icr_wait :: "u32 list \<Rightarrow> u32 list option" where
  "icr_wait [] = None"
| "icr_wait (v # vs) = (if v AND DELIVS \<noteq> 0 then icr_wait vs else Some vs)"

definition icr_deliver :: "lstate \<Rightarrow> lstate option" where
  "icr_deliver s = map_option (\<lambda>vs. s\<lparr>icr_reads := vs\<rparr>) (icr_wait (icr_reads s))"

definition this_cpu :: "lstate \<Rightarrow> nat" where
  "this_cpu s = (if lapic s then unat (drop_bit 24 (lapic_id s)) else 0)"

text \<open>The mapping of the registers is \<open>mmio_map_region\<close> of the page tables; here it turns \<open>lapic\<close> on.\<close>

definition lapic_init :: "mpstate \<Rightarrow> lstate \<Rightarrow> lstate option" where
  "lapic_init mp s =
     (if lapicaddr mp = 0 then Some s
      else do {
        let s1 = lapicw TICR 10000000 (lapicw TIMER (0x20000 OR 32) (lapicw TDCR 0xB (lapicw SVR (0x100 OR 39) (s\<lparr>lapic := True\<rparr>))));
        let s2 = (if this_cpu s1 \<noteq> bootcpu mp then lapicw LINT0 MASKED s1 else s1);
        let s3 = lapicw LINT1 MASKED s2;
        let s4 = (if drop_bit 16 (lapic_ver s3) AND 0xFF \<ge> 4 then lapicw PCINT MASKED s3 else s3);
        s5 \<leftarrow> icr_deliver (lapicw ICRLO (BCAST OR ICR_INIT OR LEVEL) (lapicw ICRHI 0 (lapicw EOI 0 (lapicw ESR 0 (lapicw ESR 0 (lapicw ERRORR 51 s4))))));
        Some (lapicw TPR 0 s5) })"

definition lapic_eoi :: "lstate \<Rightarrow> lstate" where
  "lapic_eoi s = (if lapic s then lapicw EOI 0 s else s)"

definition lapic_ipi :: "u32 \<Rightarrow> lstate \<Rightarrow> lstate option" where
  "lapic_ipi vector s = icr_deliver (lapicw ICRLO (OTHERS OR 0 OR vector) s)"

definition startup_ipi :: "u8 \<Rightarrow> u32 \<Rightarrow> lstate \<Rightarrow> lstate" where
  "startup_ipi apicid addr s = lapicw ICRLO (STARTUP OR drop_bit 12 addr) (lapicw ICRHI (push_bit 24 (ucast apicid)) s)"

definition lapic_startap :: "u8 \<Rightarrow> u32 \<Rightarrow> lstate \<Rightarrow> lstate" where
  "lapic_startap apicid addr s =
     (let s1 = s\<lparr>ltrace := ltrace s @ [Outb 0x70 0xF, Outb 0x71 0x0A, Wrv 0 (ucast (drop_bit 4 addr))]\<rparr>;
          s2 = lapicw ICRLO (ICR_INIT OR LEVEL) (lapicw ICRLO (ICR_INIT OR LEVEL OR ASSERT_BIT) (lapicw ICRHI (push_bit 24 (ucast apicid)) s1))
      in startup_ipi apicid addr (startup_ipi apicid addr s2))"

section \<open>Starting the other processors\<close>

text \<open>While \<open>boot_aps\<close> waits for a processor, the processors write their status; \<open>ws\<close> lists what they do, and each
  element is one round of the waiting loop.  The started processors are recorded with the top of the stack they are given,
  \<open>kst\<close> being the address of \<open>percpu_kstacks\<close>.\<close>

abbreviation MPENTRY_PADDR :: nat where "MPENTRY_PADDR \<equiv> 0x7000"
abbreviation AP_KSTKSIZE :: nat where "AP_KSTKSIZE \<equiv> 0x10000"

fun ap_wait :: "nat \<Rightarrow> (mpstate \<Rightarrow> mpstate) list \<Rightarrow> mpstate \<Rightarrow> ((mpstate \<Rightarrow> mpstate) list \<times> mpstate) option" where
  "ap_wait c ws mp =
     (if mc_status (mcpus mp ! c) = 1 then Some (ws, mp)
      else case ws of [] \<Rightarrow> None | w # ws1 \<Rightarrow> ap_wait c ws1 (w mp))"

record bstate =
  bmp :: mpstate
  blapic :: lstate
  bmem :: cmem
  started :: "(nat \<times> nat) list"
  bwaits :: "(mpstate \<Rightarrow> mpstate) list"

function boot_loop :: "nat \<Rightarrow> nat \<Rightarrow> nat \<Rightarrow> bstate \<Rightarrow> bstate option" where
  "boot_loop kst n c b =
     (if c < n then
        if c = this_cpu (blapic b) then boot_loop kst n (c + 1) b
        else do {
          let b1 = b\<lparr>started := started b @ [(c, kst + c * AP_KSTKSIZE + AP_KSTKSIZE)], blapic := lapic_startap (mc_id (mcpus (bmp b) ! c)) (of_nat MPENTRY_PADDR) (blapic b)\<rparr>;
          (ws, mp) \<leftarrow> ap_wait c (bwaits b1) (bmp b1);
          boot_loop kst n (c + 1) (b1\<lparr>bmp := mp, bwaits := ws\<rparr>) }
      else Some b)"
  by pat_completeness auto
termination by (relation "measure (\<lambda>(kst, n, c, b). n - c)") auto

declare boot_loop.simps [simp del] ap_wait.simps [simp del]

definition boot_aps :: "nat \<Rightarrow> u8 list \<Rightarrow> nat \<Rightarrow> bstate \<Rightarrow> bstate option" where
  "boot_aps np code kst b = do {
     c \<leftarrow> kaddr np MPENTRY_PADDR;
     boot_loop kst (ncpu (bmp b)) 0 (b\<lparr>bmem := overlay c code (bmem b)\<rparr>) }"

section \<open>Every other processor is started once\<close>

definition ap_seq :: "u8 \<Rightarrow> lev list" where
  "ap_seq a = [Outb 0x70 0xF, Outb 0x71 0x0A, Wrv 0 0x700, LapicW ICRHI (push_bit 24 (ucast a)), LapicW ICRLO 0xC500, LapicW ICRLO 0x8500,
     LapicW ICRHI (push_bit 24 (ucast a)), LapicW ICRLO 0x607, LapicW ICRHI (push_bit 24 (ucast a)), LapicW ICRLO 0x607]"

lemma startap_trace:
  "ltrace (lapic_startap a (of_nat MPENTRY_PADDR) s) = ltrace s @ ap_seq a" "this_cpu (lapic_startap a x s) = this_cpu s"
  by (simp_all add: lapic_startap_def startup_ipi_def lapicw_def Let_def ap_seq_def this_cpu_def)

definition keeps_ids :: "(mpstate \<Rightarrow> mpstate) \<Rightarrow> bool" where
  "keeps_ids w \<longleftrightarrow> (\<forall>mp. map mc_id (mcpus (w mp)) = map mc_id (mcpus mp))"

lemma ap_wait_spec:
  assumes "ap_wait c ws mp = Some (ws', mp')" "\<forall>w \<in> set ws. keeps_ids w"
  shows "mc_status (mcpus mp' ! c) = 1 \<and> map mc_id (mcpus mp') = map mc_id (mcpus mp) \<and> (\<forall>w \<in> set ws'. keeps_ids w)"
  using assms
proof (induction ws arbitrary: mp)
  case Nil
  then show ?case by (subst (asm) ap_wait.simps) (auto split: if_splits)
next
  case (Cons w ws)
  show ?case
  proof (cases "mc_status (mcpus mp ! c) = 1")
    case True
    then have "ws' = w # ws" "mp' = mp" using Cons.prems(1) by (simp_all add: ap_wait.simps [of c "w # ws"])
    then show ?thesis using True Cons.prems(2) by simp
  next
    case False
    then have "ap_wait c ws (w mp) = Some (ws', mp')" using Cons.prems(1) by (subst (asm) ap_wait.simps) simp
    from Cons.IH [OF this] Cons.prems(2) show ?thesis by (auto simp: keeps_ids_def)
  qed
qed

definition others :: "nat \<Rightarrow> nat \<Rightarrow> nat \<Rightarrow> nat list" where
  "others me c n = filter (\<lambda>i. i \<noteq> me) [c..<n]"

lemma ids_nth: "take n (map mc_id cs) = map of_nat [0..<n] \<Longrightarrow> i < n \<Longrightarrow> mc_id (cs ! i) = of_nat i"
proof -
  assume a: "take n (map mc_id cs) = map of_nat [0..<n]" "i < n"
  have "length (take n (map mc_id cs)) = n" using a(1) by simp
  then have "n \<le> length cs" by simp
  then show ?thesis using a(2) arg_cong [OF a(1), of "\<lambda>xs. xs ! i"] by simp
qed

lemma boot_loop_spec:
  assumes "boot_loop kst n c b = Some b'" "\<forall>w \<in> set (bwaits b). keeps_ids w" "take n (map mc_id (mcpus (bmp b))) = map of_nat [0..<n]"
  shows "started b' = started b @ map (\<lambda>i. (i, kst + i * AP_KSTKSIZE + AP_KSTKSIZE)) (others (this_cpu (blapic b)) c n) \<and>
    ltrace (blapic b') = ltrace (blapic b) @ concat (map (\<lambda>i. ap_seq (of_nat i)) (others (this_cpu (blapic b)) c n)) \<and> bmem b' = bmem b"
  using assms
proof (induction kst n c b rule: boot_loop.induct)
  case (1 kst n c b)
  show ?case
  proof (cases "c < n")
    case False
    then show ?thesis using "1.prems"(1) by (subst (asm) boot_loop.simps) (simp add: others_def)
  next
    case c: True
    then have o: "others me c n = (if c = me then [] else [c]) @ others me (c + 1) n" for me by (simp add: others_def upt_conv_Cons)
    show ?thesis
    proof (cases "c = this_cpu (blapic b)")
      case True
      then have "boot_loop kst n (c + 1) b = Some b'" using "1.prems"(1) c by (subst (asm) boot_loop.simps) simp
      from "1.IH"(1) [OF c True this "1.prems"(2,3)] show ?thesis using o [of "this_cpu (blapic b)"] True by simp
    next
      case False
      define b1 where "b1 = b\<lparr>started := started b @ [(c, kst + c * AP_KSTKSIZE + AP_KSTKSIZE)],
        blapic := lapic_startap (mc_id (mcpus (bmp b) ! c)) (of_nat MPENTRY_PADDR) (blapic b)\<rparr>"
      have "boot_loop kst n c b = (do { (ws, mp) \<leftarrow> ap_wait c (bwaits b1) (bmp b1); boot_loop kst n (c + 1) (b1\<lparr>bmp := mp, bwaits := ws\<rparr>) })"
        using c False by (subst boot_loop.simps) (simp add: Let_def b1_def)
      with "1.prems"(1) obtain ws mp where w: "ap_wait c (bwaits b1) (bmp b1) = Some (ws, mp)" "boot_loop kst n (c + 1) (b1\<lparr>bmp := mp, bwaits := ws\<rparr>) = Some b'"
        by (auto simp: bind_eq_Some_conv)
      have b1s: "bwaits b1 = bwaits b" "bmp b1 = bmp b" by (simp_all add: b1_def)
      from ap_wait_spec [OF w(1)] "1.prems"(2) b1s have s: "map mc_id (mcpus mp) = map mc_id (mcpus (bmp b))" "\<forall>w \<in> set ws. keeps_ids w" by auto
      have "started b' = started b1 @ map (\<lambda>i. (i, kst + i * AP_KSTKSIZE + AP_KSTKSIZE)) (others (this_cpu (blapic b1)) (c + 1) n) \<and>
        ltrace (blapic b') = ltrace (blapic b1) @ concat (map (\<lambda>i. ap_seq (of_nat i)) (others (this_cpu (blapic b1)) (c + 1) n)) \<and> bmem b' = bmem b1"
        using "1.IH"(2) [OF c False b1_def w(1) refl] w(2) s "1.prems"(3) by simp
      moreover have id: "mc_id (mcpus (bmp b) ! c) = of_nat c" using ids_nth [OF "1.prems"(3) c] .
      moreover have "this_cpu (blapic b1) = this_cpu (blapic b)" "ltrace (blapic b1) = ltrace (blapic b) @ ap_seq (of_nat c)" "bmem b1 = bmem b"
        "started b1 = started b @ [(c, kst + c * AP_KSTKSIZE + AP_KSTKSIZE)]"
        using id startap_trace by (simp_all add: b1_def)
      ultimately show ?thesis using False o [of "this_cpu (blapic b)"] by simp
    qed
  qed
qed

text \<open>C33: with the processors numbered as \<open>mp_init\<close> does, \<open>boot_aps\<close> copies the entry code to \<open>MPENTRY_PADDR\<close> and starts
  every processor but the one it runs on, once and in order: each is sent the INIT interrupt and two STARTUP interrupts that
  name the page of the entry code, and each gets its own kernel stack.  It returns only when each of them has reported.\<close>

theorem boot_aps_starts_others:
  assumes ret: "boot_aps np code kst b = Some b'"
    and ids: "\<forall>w \<in> set (bwaits b). keeps_ids w" "take (ncpu (bmp b)) (map mc_id (mcpus (bmp b))) = map of_nat [0..<ncpu (bmp b)]"
    and none: "started b = []"
  shows "map fst (started b') = others (this_cpu (blapic b)) 0 (ncpu (bmp b)) \<and>
    ltrace (blapic b') = ltrace (blapic b) @ concat (map (\<lambda>i. ap_seq (of_nat i)) (map fst (started b'))) \<and>
    (\<forall>(i, top) \<in> set (started b'). \<forall>(j, top') \<in> set (started b'). i < j \<longrightarrow> top \<le> top' - AP_KSTKSIZE) \<and>
    bytes_at (bmem b') MPENTRY_PADDR code"
proof -
  from ret have "boot_loop kst (ncpu (bmp b)) 0 (b\<lparr>bmem := overlay MPENTRY_PADDR code (bmem b)\<rparr>) = Some b'"
    by (auto simp: boot_aps_def bind_eq_Some_conv kaddr_def split: if_splits)
  from boot_loop_spec [OF this] ids none
  have s: "started b' = map (\<lambda>i. (i, kst + i * AP_KSTKSIZE + AP_KSTKSIZE)) (others (this_cpu (blapic b)) 0 (ncpu (bmp b)))"
    "ltrace (blapic b') = ltrace (blapic b) @ concat (map (\<lambda>i. ap_seq (of_nat i)) (others (this_cpu (blapic b)) 0 (ncpu (bmp b))))"
    "bmem b' = overlay MPENTRY_PADDR code (bmem b)" by simp_all
  have m: "map fst (started b') = others (this_cpu (blapic b)) 0 (ncpu (bmp b))" unfolding s(1) by (simp add: comp_def)
  moreover have "\<forall>(i, top) \<in> set (started b'). \<forall>(j, top') \<in> set (started b'). i < j \<longrightarrow> top \<le> top' - AP_KSTKSIZE" unfolding s(1) by auto
  moreover have "bytes_at (bmem b') MPENTRY_PADDR code" unfolding s(3) by (simp add: bytes_at_nth overlay_def)
  ultimately show ?thesis using s(2) by (simp add: m)
qed

subsection \<open>Examples\<close>

text \<open>A table with an enabled processor and the boot processor.\<close>

definition no_cpus :: mpstate where
  "no_cpus = \<lparr>mcpus = replicate NCPU \<lparr>mc_id = 0, mc_status = 0\<rparr>, bootcpu = 0, ismp = False, ncpu = 0, lapicaddr = 0, outbs = []\<rparr>"

definition mp_table :: "u8 list" where
  "mp_table = [0x50, 0x43, 0x4D, 0x50, 84, 0, 4, 147] @ replicate 26 0 @ [2, 0, 0, 0, 0xE0, 0xFE, 0, 0, 0, 0] @
     [0, 0, 0, 1] @ replicate 16 0 @ [0, 1, 0, 3] @ replicate 16 0"

definition mp_ptr :: "u8 list" where
  "mp_ptr = [0x5F, 0x4D, 0x50, 0x5F, 0, 1, 0, 0, 1, 4, 0x9F] @ replicate 5 0"

definition mp_mem :: cmem where
  "mp_mem = overlay 0x9FC00 mp_ptr (overlay 0x100 mp_table (overlay 0x40E [0xC0, 0x9F] (\<lambda>_. 0)))"

lemma overlay_bytes: "bytes_at (overlay a xs g) a xs"
  by (simp add: bytes_at_nth overlay_def)

lemma bytes_at_overlay: "bytes_at g b ys \<Longrightarrow> b + length ys \<le> a \<Longrightarrow> bytes_at (overlay a xs g) b ys"
  by (simp add: bytes_at_nth overlay_def)

lemma mp_list_facts:
  "length mp_ptr = 16" "length mp_table = 84" "sum_list mp_ptr = 0" "sum_list mp_table = 0"
  "take 4 mp_ptr = [0x5F, 0x4D, 0x50, 0x5F]" "take 4 mp_table = [0x50, 0x43, 0x4D, 0x50]"
  "map (\<lambda>i. mp_ptr ! i) [4, 5, 6, 7, 11] = [0, 1, 0, 0, 0]"
  "map (\<lambda>i. mp_table ! i) [4, 5, 6, 34, 35, 40, 41, 42, 44, 47, 64, 67] = [84, 0, 4, 2, 0, 0, 0, 0, 0, 1, 0, 3]"
  by code_simp+

lemma mp_mem_bytes: "bytes_at mp_mem 0x9FC00 mp_ptr" "bytes_at mp_mem 0x100 mp_table"
proof -
  show "bytes_at mp_mem 0x9FC00 mp_ptr" unfolding mp_mem_def by (rule overlay_bytes)
  have "bytes_at (overlay 0x100 mp_table (overlay 0x40E [0xC0, 0x9F] (\<lambda>_. 0))) 0x100 mp_table" by (rule overlay_bytes)
  then show "bytes_at mp_mem 0x100 mp_table"
    unfolding mp_mem_def by (rule bytes_at_overlay) (simp add: mp_list_facts)
qed

lemma mp_mem_nth: "i < 16 \<Longrightarrow> mp_mem (0x9FC00 + i) = mp_ptr ! i" "i < 84 \<Longrightarrow> mp_mem (0x100 + i) = mp_table ! i"
  using mp_mem_bytes by (simp_all add: bytes_at_nth mp_list_facts)

lemma mp_mem_config: "mpconfig 1024 mp_mem = Some (Some (0x9FC00, 0x100))"
proof -
  have s: "sum8 mp_mem 0x9FC00 16 = 0" "sum8 mp_mem 0x100 84 = 0"
    using sum8_bytes [OF mp_mem_bytes(1)] sum8_bytes [OF mp_mem_bytes(2)] by (simp_all add: mp_list_facts)
  have b: "bytes_at mp_mem 0x9FC00 [0x5F, 0x4D, 0x50, 0x5F]" "bytes_at mp_mem 0x100 [0x50, 0x43, 0x4D, 0x50]"
    using mp_mem_bytes mp_list_facts(1,2) unfolding mp_list_facts(5,6) [symmetric] by (simp_all add: bytes_at_nth)
  have "mp_sig mp_mem 0x9FC00" unfolding mp_sig_def s using b by simp
  moreover have "mp_rd16 mp_mem 0x40E = 0x9FC0" by (simp add: mp_rd16_def mp_mem_def overlay_def mp_list_facts)
  ultimately have "mpsearch 1024 mp_mem = Some (Some 0x9FC00)"
    by (simp add: mpsearch_def mpsearch1_def kaddr_def mpsearch1_loop.simps)
  moreover have "rd32 mp_mem (0x9FC00 + 4) = 0x100" "mp_mem (0x9FC00 + 11) = 0"
    using mp_mem_nth(1) [of 4] mp_mem_nth(1) [of 5] mp_mem_nth(1) [of 6] mp_mem_nth(1) [of 7] mp_mem_nth(1) [of 11] mp_list_facts(7)
    by (simp_all add: rd32_def)
  moreover have "mp_rd16 mp_mem (0x100 + 4) = 84" "mp_rd16 mp_mem (0x100 + 40) = 0" "mp_mem (0x100 + 6) = 4" "mp_mem (0x100 + 42) = 0"
    using mp_mem_nth(2) [of 4] mp_mem_nth(2) [of 5] mp_mem_nth(2) [of 40] mp_mem_nth(2) [of 41] mp_mem_nth(2) [of 6] mp_mem_nth(2) [of 42] mp_list_facts(8)
    by (simp_all add: mp_rd16_def)
  ultimately show ?thesis unfolding mpconfig_def using s b by (simp add: kaddr_def sum8_def)
qed

theorem mp_init_counts_processors_witness:
  "\<exists>s'. mp_init 1024 mp_mem 0 no_cpus = Some s' \<and> ncpu s' = 2 \<and> bootcpu s' = 1 \<and> mc_status (mcpus s' ! 1) = 1"
proof -
  have n: "unat (mp_rd16 mp_mem (0x100 + 34)) = length [Proc 1, Proc 3]"
    using mp_mem_nth(2) [of 34] mp_mem_nth(2) [of 35] mp_list_facts(8) by (simp add: mp_rd16_def)
  have e: "entries_at mp_mem (0x100 + 44) [Proc 1, Proc 3]"
    using mp_mem_nth(2) [of 44] mp_mem_nth(2) [of 47] mp_mem_nth(2) [of 64] mp_mem_nth(2) [of 67] mp_list_facts(8) by simp
  show ?thesis
    using mp_init_counts_processors [OF mp_mem_config n e, of "[Proc 1]" "Proc 3" "[]" no_cpus 0] by (auto simp: no_cpus_def enabled_def)
qed

definition two_cpus :: bstate where
  "two_cpus = \<lparr>bmp = no_cpus\<lparr>ncpu := 2, mcpus := [\<lparr>mc_id = 0, mc_status = 1\<rparr>, \<lparr>mc_id = 1, mc_status = 0\<rparr>]\<rparr>,
     blapic = \<lparr>lapic = True, lapic_id = 0, lapic_ver = 0, icr_reads = [], ltrace = []\<rparr>, bmem = (\<lambda>_. 0), started = [],
     bwaits = [\<lambda>mp. mp, \<lambda>mp. mp\<lparr>mcpus := map (\<lambda>c. c\<lparr>mc_status := 1\<rparr>) (mcpus mp)\<rparr>]\<rparr>"

theorem boot_aps_starts_others_witness:
  "\<exists>b'. boot_aps 1024 [0xFA] 0x10000 two_cpus = Some b' \<and> map fst (started b') = [1] \<and> ltrace (blapic b') = ap_seq 1"
proof -
  have k: "\<forall>w \<in> set (bwaits two_cpus). keeps_ids w" by (simp add: two_cpus_def keeps_ids_def comp_def)
  have i: "take (ncpu (bmp two_cpus)) (map mc_id (mcpus (bmp two_cpus))) = map of_nat [0..<ncpu (bmp two_cpus)]"
    by (simp add: two_cpus_def no_cpus_def upt_rec)
  have "\<exists>b'. boot_aps 1024 [0xFA] 0x10000 two_cpus = Some b'"
    by (simp add: boot_aps_def kaddr_def two_cpus_def no_cpus_def boot_loop.simps ap_wait.simps this_cpu_def Let_def lapic_startap_def startup_ipi_def lapicw_def)
  then obtain b' where b': "boot_aps 1024 [0xFA] 0x10000 two_cpus = Some b'" by blast
  have "others (this_cpu (blapic two_cpus)) 0 (ncpu (bmp two_cpus)) = [1]"
    by (simp add: two_cpus_def no_cpus_def this_cpu_def others_def upt_rec)
  with boot_aps_starts_others [OF b' k i] b' show ?thesis by (auto simp: two_cpus_def)
qed

end
