(* ===== verification/Lib_Ipc.thy ===== *)
theory Lib_Ipc
  imports Kern_Syscall
begin

text \<open>
  Sending and receiving messages from user programs, \<^verbatim>\<open>lib/ipc.c\<close>, on the system calls of \<open>Kern_Syscall\<close>.  A null pointer for the page is 0.  While the sender
  waits it gives up the CPU; \<open>others\<close> is what has become of the kernel when it runs again.  \<open>None\<close> is a panic of the kernel, a fault of the program or a
  wait that never ends.
\<close>

section \<open>The library\<close>

definition page_arg :: "u64 \<Rightarrow> u64" where
  "page_arg pg = (if pg = 0 then UTOP else pg)"

partial_function (option) ipc_send_loop ::
  "bool \<Rightarrow> ('a kstate_scheme \<Rightarrow> 'a kstate_scheme) \<Rightarrow> envid \<Rightarrow> u32 \<Rightarrow> u64 \<Rightarrow> u32 \<Rightarrow> 'a kstate_scheme \<Rightarrow> (int \<times> 'a kstate_scheme) option" where
  "ipc_send_loop stale others to_env val srcva perm s =
     (case sys_ipc_try_send stale to_env val srcva perm s of
        Some (Ret result s1) \<Rightarrow>
          if result = - E_IPC_NOT_RECV then ipc_send_loop stale others to_env val srcva perm (others s1) else Some (result, s1)
      | _ \<Rightarrow> None)"

text \<open>The result of the last call, which \<open>ipc_send\<close> does not look at, is kept to be able to speak of it.\<close>

definition ipc_send ::
  "bool \<Rightarrow> ('a kstate_scheme \<Rightarrow> 'a kstate_scheme) \<Rightarrow> envid \<Rightarrow> u32 \<Rightarrow> u64 \<Rightarrow> u32 \<Rightarrow> 'a kstate_scheme \<Rightarrow> (int \<times> 'a kstate_scheme) option" where
  "ipc_send stale others to_env val pg perm s = ipc_send_loop stale others to_env val (page_arg pg) perm s"

text \<open>\<open>ipc_recv\<close> up to its system call, and from its result on, when the program runs again.  \<open>self\<close> is the environment that \<open>thisenv\<close> points to after the
  check at the start; what is stored through the two pointers is given as values.\<close>

definition ipc_recv_call :: "u64 \<Rightarrow> 'a kstate_scheme \<Rightarrow> 'a kstate_scheme scall" where
  "ipc_recv_call pg s = sys_ipc_recv (page_arg pg) s"

definition this_env :: "nat \<Rightarrow> 'a kstate_scheme \<Rightarrow> nat option" where
  "this_env thisenv s =
     (if env_status (envs s thisenv) = ENV_FREE then do { c \<leftarrow> curenv s; Some (ENVX (env_id (envs s c))) } else Some thisenv)"

definition ipc_recv_result :: "bool \<Rightarrow> bool \<Rightarrow> nat \<Rightarrow> int \<Rightarrow> 'a kstate_scheme \<Rightarrow> (int \<times> envid option \<times> u32 option) option" where
  "ipc_recv_result has_from has_perm self result s =
     (if result < 0 then
        (if \<not> has_from \<or> \<not> has_perm then None else Some (result, Some 0, Some 0))
      else Some (sint (env_ipc_value (envs s self)),
             (if has_from then Some (env_ipc_from (envs s self)) else None),
             (if has_perm then Some (env_ipc_perm (envs s self)) else None)))"

definition ipc_find_env :: "env_kind \<Rightarrow> 'a kstate_scheme \<Rightarrow> envid" where
  "ipc_find_env type s =
     (case find (\<lambda>i. env_type (envs s i) = type) [0..<NENV] of Some i \<Rightarrow> env_id (envs s i) | None \<Rightarrow> 0)"

section \<open>Sending\<close>

text \<open>The sender runs again and again, and finds the receiver waiting after \<open>n\<close> turns at the earliest.\<close>

definition turns_until :: "('a kstate_scheme \<Rightarrow> 'a kstate_scheme) \<Rightarrow> envid \<Rightarrow> nat \<Rightarrow> nat \<Rightarrow> 'a kstate_scheme \<Rightarrow> nat \<Rightarrow> bool" where
  "turns_until others i c d s n \<longleftrightarrow> (\<forall>k \<le> n. curenv ((others ^^ k) s) = Some c \<and> envid2env i False ((others ^^ k) s) = Some (0, Some d) \<and>
     (env_ipc_recving (envs ((others ^^ k) s) d) \<longleftrightarrow> k = n))"

lemma send_waits:
  "turns_until others i c d s n \<Longrightarrow> ipc_send_loop stale others i v srcva perm s = ipc_send_loop stale others i v srcva perm ((others ^^ n) s)"
proof (induction n arbitrary: s)
  case (Suc n)
  have a: "envid2env i False s = Some (0, Some d)" "curenv s = Some c" "\<not> env_ipc_recving (envs s d)"
    using Suc.prems [unfolded turns_until_def, rule_format, of 0] by simp_all
  have "turns_until others i c d (others s) n"
    unfolding turns_until_def
  proof (intro allI impI)
    fix k
    assume "k \<le> n"
    then show "curenv ((others ^^ k) (others s)) = Some c \<and> envid2env i False ((others ^^ k) (others s)) = Some (0, Some d) \<and>
        (env_ipc_recving (envs ((others ^^ k) (others s)) d) \<longleftrightarrow> k = n)"
      using Suc.prems [unfolded turns_until_def, rule_format, of "Suc k"] by (simp add: funpow_swap1)
  qed
  from Suc.IH [OF this] ipc_not_recv [OF a] show ?case by (subst ipc_send_loop.simps) (simp add: funpow_swap1)
qed simp

lemma send_delivers:
  assumes t: "turns_until others i c d s n" and ne: "i \<noteq> env_id (envs ((others ^^ n) s) c)"
    and look: "page_lookup (env_pml4e (envs ((others ^^ n) s) c)) UTOP ((others ^^ n) s) = Some (pg, ps, s1)" and ok: "ps \<noteq> None \<or> stale"
  shows "\<exists>s'. ipc_send stale others i v 0 perm s = Some (0, s') \<and>
    envs s' = (envs ((others ^^ n) s))(d := (envs ((others ^^ n) s) d)\<lparr>env_ipc_recving := False,
      env_ipc_from := env_id (envs ((others ^^ n) s) c), env_ipc_value := v, env_status := ENV_RUNNABLE\<rparr>)"
proof -
  let ?s = "(others ^^ n) s"
  have a: "envid2env i False ?s = Some (0, Some d)" "curenv ?s = Some c" "env_ipc_recving (envs ?s d)"
    using t [unfolded turns_until_def, rule_format, of n] by simp_all
  obtain s' where s': "sys_ipc_try_send stale i v UTOP perm ?s = Some (Ret 0 s')"
    "envs s' = (envs ?s)(d := (envs ?s d)\<lparr>env_ipc_recving := False, env_ipc_from := env_id (envs ?s c), env_ipc_value := v, env_status := ENV_RUNNABLE\<rparr>)"
    using ipc_send_value [OF a ne order_refl look ok] by blast
  have "ipc_send stale others i v 0 perm s = ipc_send_loop stale others i v UTOP perm ?s"
    unfolding ipc_send_def page_arg_def using send_waits [OF t] by simp
  also have "\<dots> = Some (0, s')" by (subst ipc_send_loop.simps) (simp add: s'(1))
  finally show ?thesis using s'(2) by blast
qed


text \<open>When the receiver does not exist, \<open>ipc_send\<close> returns at once and nothing is sent; the comment asks for a panic.\<close>

theorem ipc_send_gives_up_silently:
  assumes "envid2env i False s = Some (- E_BAD_ENV, None)"
  shows "ipc_send stale others i v pg perm s = Some (- E_BAD_ENV, s)"
proof -
  have "sys_ipc_try_send stale i v (page_arg pg) perm s = Some (Ret (- E_BAD_ENV) s)" using assms by (simp add: sys_ipc_try_send_def)
  then show ?thesis unfolding ipc_send_def by (subst ipc_send_loop.simps) simp
qed

lemma waiting_kernel_lookup:
  "envid2env 0x1001 False waiting_kernel = Some (0, Some 1)" "\<exists>s1. page_lookup (env_pml4e (envs waiting_kernel 0)) UTOP waiting_kernel = Some (None, None, s1)"
proof -
  show "envid2env 0x1001 False waiting_kernel = Some (0, Some 1)"
    by (simp add: envid2env_def waiting_kernel_def small_kernel_def small_env_def ENVX_def)
  have inv: "page_inv waiting_kernel [7..<16]" using small_kernel_inv(2)
    by (simp add: page_inv_def waiting_kernel_def upd_env_def del: upt_rec_numeral)
  have wf: "pt_wf waiting_kernel {0, 1} 2 [7..<16]"
    by (rule one_mapping_wf) (auto simp: waiting_kernel_same simp del: upt_rec_numeral)
  have x: "PML4 UTOP = 1" by (simp add: PML4_def drop_bit_eq_div)
  then have "pte_at one_mapping 2 UTOP = 0" by (simp add: pte_at_def numeral_3_eq_3 one_mapping_def)
  then show "\<exists>s1. page_lookup (env_pml4e (envs waiting_kernel 0)) UTOP waiting_kernel = Some (None, None, s1)"
    using page_lookup_absent [where va = UTOP, OF inv wf] x by (auto simp: waiting_kernel_same)
qed


theorem ipc_send_gives_up_silently_witness: "ipc_send False (\<lambda>s. s) 0x1005 42 0 7 small_kernel = Some (- E_BAD_ENV, small_kernel)"
  by (rule ipc_send_gives_up_silently) (simp add: envid2env_def small_kernel_def small_env_def zero_env_def ENVX_def)

end
