(* ===== verification/Lib_Syscall.thy ===== *)
theory Lib_Syscall
  imports Kern_Trap
begin

text \<open>
  The system call stubs, \<^verbatim>\<open>lib/syscall.c\<close>, and \<open>sys_exofork\<close> of \<^verbatim>\<open>inc/lib.h\<close>: what each of them puts into the registers before it enters the kernel, and what it
  makes of the register that comes back.  The other registers are the ones of the caller.
\<close>

section \<open>The stubs\<close>

text \<open>A call of a stub with its arguments; identifiers, permissions and states are signed numbers of 32 bits.\<close>

datatype stub =
    U_cputs u64 u64 | U_cgetc | U_env_destroy envid | U_getenvid | U_yield | U_page_alloc envid u64 u32
  | U_page_map envid u64 envid u64 u32 | U_page_unmap envid u64 | U_exofork | U_env_set_status envid u32
  | U_env_set_trapframe envid u64 | U_env_set_pgfault_upcall envid u64 | U_ipc_try_send envid u64 u64 u32
  | U_ipc_recv u64 | U_net_tx u64 u64 | U_net_rx u64 | U_time_msec

text \<open>\<open>syscall\<close> of the library: the number, whether a positive result is a panic, and the five arguments.\<close>

definition load_regs :: "u64 \<Rightarrow> u64 \<Rightarrow> u64 \<Rightarrow> u64 \<Rightarrow> u64 \<Rightarrow> u64 \<Rightarrow> push_regs \<Rightarrow> push_regs" where
  "load_regs num a1 a2 a3 a4 a5 r =
     r\<lparr>reg_rax := num, reg_rdx := a1, reg_rcx := a2, reg_rbx := a3, reg_rdi := a4, reg_rsi := a5\<rparr>"

fun stub_regs :: "stub \<Rightarrow> push_regs \<Rightarrow> push_regs" where
  "stub_regs (U_cputs s len) = load_regs SYS_cputs s len 0 0 0"
| "stub_regs U_cgetc = load_regs SYS_cgetc 0 0 0 0 0"
| "stub_regs (U_env_destroy e) = load_regs SYS_env_destroy (scast e) 0 0 0 0"
| "stub_regs U_getenvid = load_regs SYS_getenvid 0 0 0 0 0"
| "stub_regs U_yield = load_regs SYS_yield 0 0 0 0 0"
| "stub_regs (U_page_alloc e va perm) = load_regs SYS_page_alloc (scast e) va (scast perm) 0 0"
| "stub_regs (U_page_map e va e' va' perm) = load_regs SYS_page_map (scast e) va (scast e') va' (scast perm)"
| "stub_regs (U_page_unmap e va) = load_regs SYS_page_unmap (scast e) va 0 0 0"
| "stub_regs U_exofork = (\<lambda>r. r\<lparr>reg_rax := SYS_exofork\<rparr>)"
| "stub_regs (U_env_set_status e status) = load_regs SYS_env_set_status (scast e) (scast status) 0 0 0"
| "stub_regs (U_env_set_trapframe e tf) = load_regs SYS_env_set_trapframe (scast e) tf 0 0 0"
| "stub_regs (U_env_set_pgfault_upcall e up) = load_regs SYS_env_set_pgfault_upcall (scast e) up 0 0 0"
| "stub_regs (U_ipc_try_send e v va perm) = load_regs SYS_ipc_try_send (scast e) v va (scast perm) 0"
| "stub_regs (U_ipc_recv va) = load_regs SYS_ipc_recv va 0 0 0 0"
| "stub_regs (U_net_tx buf len) = load_regs SYS_net_tx buf len 0 0 0"
| "stub_regs (U_net_rx buf) = load_regs SYS_net_rx buf 0 0 0 0"
| "stub_regs U_time_msec = load_regs SYS_time_msec 0 0 0 0 0"

definition stub_checks :: "stub \<Rightarrow> bool" where
  "stub_checks u = (case u of U_cputs _ _ \<Rightarrow> False | U_cgetc \<Rightarrow> False | U_getenvid \<Rightarrow> False | U_yield \<Rightarrow> False | U_exofork \<Rightarrow> False
     | U_ipc_try_send _ _ _ _ \<Rightarrow> False | U_net_rx _ \<Rightarrow> False | U_time_msec \<Rightarrow> False | _ \<Rightarrow> True)"

text \<open>What the stub returns from the value of \<open>rax\<close>: an \<open>int\<close>, or a panic.\<close>

definition stub_result :: "stub \<Rightarrow> u64 \<Rightarrow> int option" where
  "stub_result u ret = (if stub_checks u \<and> sint ret > 0 then None else Some (sint (ucast ret :: u32)))"

section \<open>What the kernel makes of them\<close>

text \<open>The function of the kernel that the stub is for.\<close>

fun kernel_call :: "bool \<Rightarrow> stub \<Rightarrow> 'a sstate_scheme \<Rightarrow> 'a sstate_scheme scall" where
  "kernel_call stale (U_cputs str len) s = andthen (sys_cputs str len s) (\<lambda>_ s1. Some (Ret 0 s1))"
| "kernel_call stale U_cgetc s = sys_cgetc s"
| "kernel_call stale (U_env_destroy e) s = sys_env_destroy e s"
| "kernel_call stale U_getenvid s = sys_getenvid s"
| "kernel_call stale U_yield s = andthen (sys_yield s) (\<lambda>_ s1. Some (Ret 0 s1))"
| "kernel_call stale (U_page_alloc e va perm) s = sys_page_alloc e va perm s"
| "kernel_call stale (U_page_map e va e' va' perm) s = sys_page_map e va e' va' perm s"
| "kernel_call stale (U_page_unmap e va) s = sys_page_unmap e va s"
| "kernel_call stale U_exofork s = sys_exofork s"
| "kernel_call stale (U_env_set_status e status) s = sys_env_set_status e (sint status) s"
| "kernel_call stale (U_env_set_trapframe e tf) s = sys_env_set_trapframe e tf s"
| "kernel_call stale (U_env_set_pgfault_upcall e up) s = sys_env_set_pgfault_upcall e up s"
| "kernel_call stale (U_ipc_try_send e v va perm) s = sys_ipc_try_send stale e (ucast v) va perm s"
| "kernel_call stale (U_ipc_recv va) s = sys_ipc_recv va s"
| "kernel_call stale (U_net_tx buf len) s = sys_net_tx buf len s"
| "kernel_call stale (U_net_rx buf) s = sys_net_rx buf s"
| "kernel_call stale U_time_msec s = sys_time_msec s"

lemma ucast_scast32 [simp]: "ucast (scast (x :: u32) :: u64) = x"
  by (rule bit_word_eqI) (simp add: bit_simps)

lemma dispatch_stub:
  "syscall stale (reg_rax (stub_regs u r)) (reg_rdx (stub_regs u r)) (reg_rcx (stub_regs u r)) (reg_rbx (stub_regs u r))
     (reg_rdi (stub_regs u r)) (reg_rsi (stub_regs u r)) s = kernel_call stale u s"
  by (cases u) (simp_all add: load_regs_def syscall_def)

lemma result_of_int: "- (2 ^ 31) \<le> x \<Longrightarrow> x < 2 ^ 31 \<Longrightarrow> sint (ucast (word_of_int x :: u64) :: u32) = x \<and> sint (word_of_int x :: u64) = x"
proof -
  assume x: "- (2 ^ 31) \<le> x" "x < 2 ^ 31"
  have "(ucast (word_of_int x :: u64) :: u32) = word_of_int x" by (rule bit_word_eqI) (simp add: bit_simps)
  moreover have "sint (word_of_int x :: u32) = x" using x by (simp add: int_word_sint)
  moreover have "sint (word_of_int x :: u64) = x" using x by (simp add: int_word_sint)
  ultimately show ?thesis by simp
qed



end
