(* ===== verification/Lib_Pipe.thy ===== *)
theory Lib_Pipe
  imports Ring_Fifo
begin

text \<open>
  Pipes, \<^verbatim>\<open>lib/pipe.c\<close>: the shared page with its 32-byte ring and the two 32-bit signed
  positions, \<open>devpipe_read\<close>, \<open>devpipe_write\<close> and \<open>devpipe_stat\<close>.  (Creating and closing a
  pipe, and the end-of-file test by reference counts, are in the theory of file descriptors.)

  Reader and writer are different environments that share the page.  \<open>devpipe_read\<close> and
  \<open>devpipe_write\<close> give up the CPU when they have to wait: each wait is described by the answer
  of \<open>_pipeisclosed\<close> and by what the other environments do to the pipe until control comes
  back; a call that waits longer than the list of waits is still blocked (\<open>None\<close>).  A second
  model interleaves the single memory accesses of one reader and one writer.
\<close>

record pipe_buf =
  p_rpos :: u32
  p_wpos :: u32
  p_data :: "nat \<Rightarrow> u8"

abbreviation PIPEBUFSIZ :: nat where "PIPEBUFSIZ \<equiv> 32"

section \<open>The code\<close>

text \<open>\<open>p->p_rpos % PIPEBUFSIZ\<close> is a signed remainder: for a negative position the index is
  outside the buffer (\<open>None\<close>).\<close>

definition pipe_index :: "u32 \<Rightarrow> nat option" where
  "pipe_index pos = (if sint pos < 0 \<and> sint pos mod 32 \<noteq> 0 then None else Some (nat (sint pos mod 32)))"

definition pipe_empty :: "pipe_buf \<Rightarrow> bool" where
  "pipe_empty p \<longleftrightarrow> p_rpos p = p_wpos p"

text \<open>\<open>sizeof\<close> makes the comparison one of 64-bit unsigned numbers.\<close>

definition pipe_full :: "pipe_buf \<Rightarrow> bool" where
  "pipe_full p \<longleftrightarrow> (scast (p_wpos p) :: u64) \<ge> scast (p_rpos p) + 32"

definition pipe_take :: "pipe_buf \<Rightarrow> (u8 \<times> pipe_buf) option" where
  "pipe_take p = do {
     i \<leftarrow> pipe_index (p_rpos p);
     Some (p_data p i, p\<lparr>p_rpos := p_rpos p + 1\<rparr>) }"

definition pipe_store :: "u8 \<Rightarrow> pipe_buf \<Rightarrow> pipe_buf option" where
  "pipe_store b p = do {
     i \<leftarrow> pipe_index (p_wpos p);
     Some (p\<lparr>p_data := (p_data p)(i := b), p_wpos := p_wpos p + 1\<rparr>) }"

type_synonym waits = "(bool \<times> (pipe_buf \<Rightarrow> pipe_buf)) list"

text \<open>The bytes put into the caller's buffer, whose number is the return value, and the pipe.\<close>

function devpipe_read :: "nat \<Rightarrow> nat \<Rightarrow> pipe_buf \<Rightarrow> waits \<Rightarrow> (u8 list \<times> pipe_buf) option" where
  "devpipe_read n i p ws =
     (if \<not> i < n then Some ([], p)
      else if pipe_empty p then
        if i > 0 then Some ([], p)
        else (case ws of
                [] \<Rightarrow> None
              | (closed, others) # ws' \<Rightarrow>
                  if closed then Some ([], p) else devpipe_read n i (others p) ws')
      else do {
        (b, p1) \<leftarrow> pipe_take p;
        (bs, p2) \<leftarrow> devpipe_read n (Suc i) p1 ws;
        Some (b # bs, p2) })"
  by pat_completeness auto
termination
  by (relation "measure (\<lambda>(n, i, p, ws). (n - i) + length ws)") auto

text \<open>The return value and the pipe: 0 when the readers are gone, even after some bytes.\<close>

function devpipe_write :: "u8 list \<Rightarrow> nat \<Rightarrow> pipe_buf \<Rightarrow> waits \<Rightarrow> (int \<times> pipe_buf) option" where
  "devpipe_write bs i p ws =
     (if \<not> i < length bs then Some (int i, p)
      else if pipe_full p then
        (case ws of
           [] \<Rightarrow> None
         | (closed, others) # ws' \<Rightarrow>
             if closed then Some (0, p) else devpipe_write bs i (others p) ws')
      else do {
        p1 \<leftarrow> pipe_store (bs ! i) p;
        devpipe_write bs (Suc i) p1 ws })"
  by pat_completeness auto
termination
  by (relation "measure (\<lambda>(bs, i, p, ws). (length bs - i) + length ws)") auto

declare devpipe_read.simps [simp del] devpipe_write.simps [simp del]

definition devpipe_stat_size :: "pipe_buf \<Rightarrow> int" where
  "devpipe_stat_size p = sint (p_wpos p - p_rpos p)"

section \<open>The pipe is a queue\<close>

text \<open>Positions only grow; up to the end of the signed 32-bit range the pipe works.\<close>

definition pipe_ok :: "pipe_buf \<Rightarrow> bool" where
  "pipe_ok p \<longleftrightarrow> unat (p_rpos p) \<le> unat (p_wpos p) \<and> unat (p_wpos p) \<le> unat (p_rpos p) + PIPEBUFSIZ \<and>
     unat (p_wpos p) < 2 ^ 31"

definition pipe_contents :: "pipe_buf \<Rightarrow> u8 list" where
  "pipe_contents p = ring_list (p_data p) PIPEBUFSIZ (unat (p_rpos p)) (unat (p_wpos p) - unat (p_rpos p))"

lemma sint_eq_unat: "unat (w :: u32) < 2 ^ 31 \<Longrightarrow> sint w = int (unat w)"
proof -
  assume w: "unat w < 2 ^ 31"
  then have "int (unat w) < int (2 ^ 31)" by (simp only: of_nat_less_iff)
  then have "uint w < 2 ^ 31" by simp
  moreover have "sint w = signed_take_bit 31 (uint w)" by (simp add: sint_uint)
  moreover have "- (2 ^ 31) \<le> uint w" by (rule order_trans [of _ 0]) simp_all
  ultimately have "sint w = uint w" by (simp add: signed_take_bit_int_eq_self)
  then show ?thesis by simp
qed

lemma pipe_index_ok: "unat w < 2 ^ 31 \<Longrightarrow> pipe_index w = Some (unat w mod PIPEBUFSIZ)"
  by (simp add: pipe_index_def sint_eq_unat nat_mod_distrib)

lemma scast_eq: "unat (w :: u32) < 2 ^ 31 \<Longrightarrow> unat (scast w :: u64) = unat w"
proof -
  assume w: "unat w < 2 ^ 31"
  have "(scast w :: u64) = word_of_int (sint w)" by (simp add: signed_scast_eq)
  also have "\<dots> = of_nat (unat w)" using sint_eq_unat [OF w] by simp
  finally show ?thesis using w by (simp add: unsigned_ucast_eq take_bit_nat_eq_self)
qed

lemma pipe_full_iff: "pipe_ok p \<Longrightarrow> pipe_full p \<longleftrightarrow> length (pipe_contents p) = PIPEBUFSIZ"
proof -
  assume ok: "pipe_ok p"
  have w: "unat (scast (p_wpos p) :: u64) = unat (p_wpos p)" "unat (scast (p_rpos p) :: u64) = unat (p_rpos p)"
    using ok by (simp_all add: scast_eq pipe_ok_def)
  have "unat (scast (p_rpos p) + 32 :: u64) = unat (p_rpos p) + 32"
    using ok w(2) by (simp add: unat_word_ariths pipe_ok_def)
  with w ok show ?thesis by (auto simp: pipe_full_def word_le_nat_alt pipe_contents_def pipe_ok_def)
qed

lemma pipe_empty_iff: "pipe_ok p \<Longrightarrow> pipe_empty p \<longleftrightarrow> pipe_contents p = []"
proof -
  assume ok: "pipe_ok p"
  have "pipe_contents p = [] \<longleftrightarrow> unat (p_wpos p) - unat (p_rpos p) = 0"
    by (metis length_0_conv length_ring_list pipe_contents_def)
  with ok show ?thesis by (auto simp: pipe_empty_def pipe_ok_def word_unat_eq_iff)
qed

lemma unat_Suc32: "unat (w :: u32) < 2 ^ 31 \<Longrightarrow> unat (w + 1) = Suc (unat w)"
  by (simp add: unat_word_ariths)

lemma pipe_take_some:
  assumes "pipe_ok p" "pipe_contents p = b # bs"
  shows "\<exists>p'. pipe_take p = Some (b, p') \<and> pipe_ok p' \<and> pipe_contents p' = bs \<and> p_wpos p' = p_wpos p"
proof -
  have r: "unat (p_rpos p) < 2 ^ 31" using assms(1) by (simp add: pipe_ok_def)
  have n: "unat (p_wpos p) - unat (p_rpos p) = Suc (length bs)"
    using assms(2) by (metis length_Cons length_ring_list pipe_contents_def)
  have c: "pipe_contents p = p_data p (unat (p_rpos p) mod PIPEBUFSIZ) # ring_list (p_data p) PIPEBUFSIZ (Suc (unat (p_rpos p))) (length bs)"
    using n by (simp add: pipe_contents_def ring_list_Suc)
  define p' where "p' = p\<lparr>p_rpos := p_rpos p + 1\<rparr>"
  have "pipe_take p = Some (b, p')"
    using pipe_index_ok [OF r] c assms(2) by (simp add: pipe_take_def p'_def)
  moreover have "pipe_ok p'" using assms(1) n unat_Suc32 [OF r] by (simp add: pipe_ok_def p'_def)
  moreover have "pipe_contents p' = bs"
  proof -
    have "unat (p_wpos p) - Suc (unat (p_rpos p)) = length bs" using n by simp
    then show ?thesis using c assms(2) unat_Suc32 [OF r] by (simp add: pipe_contents_def p'_def)
  qed
  ultimately show ?thesis by (auto simp: p'_def)
qed

lemma pipe_store_some:
  assumes "pipe_ok p" "length (pipe_contents p) < PIPEBUFSIZ" "unat (p_wpos p) + 1 < 2 ^ 31"
  shows "\<exists>p'. pipe_store b p = Some p' \<and> pipe_ok p' \<and> pipe_contents p' = pipe_contents p @ [b] \<and>
    unat (p_wpos p') = unat (p_wpos p) + 1"
proof -
  have w: "unat (p_wpos p) < 2 ^ 31" using assms(1) by (simp add: pipe_ok_def)
  define k where "k = unat (p_wpos p) - unat (p_rpos p)"
  have k: "k < PIPEBUFSIZ" "unat (p_wpos p) = unat (p_rpos p) + k"
    using assms(1,2) by (auto simp: k_def pipe_contents_def pipe_ok_def)
  define p' where "p' = p\<lparr>p_data := (p_data p)(unat (p_wpos p) mod PIPEBUFSIZ := b), p_wpos := p_wpos p + 1\<rparr>"
  have w': "unat (p_wpos p') = Suc (unat (p_wpos p))" using unat_Suc32 [OF w] by (simp add: p'_def)
  have "pipe_store b p = Some p'" by (simp add: pipe_store_def pipe_index_ok [OF w] p'_def)
  moreover have "pipe_ok p'" using assms k w' by (simp add: pipe_ok_def) (simp add: p'_def)
  moreover have "pipe_contents p' = pipe_contents p @ [b]"
    using ring_list_put [OF k(1), of "p_data p" "unat (p_rpos p)" b] k(2) w'
    by (simp add: pipe_contents_def p'_def)
  ultimately show ?thesis using w' by auto
qed

interpretation pipe_fifo: bounded_fifo pipe_ok pipe_contents PIPEBUFSIZ
  "\<lambda>b p. if pipe_full p \<or> 2 ^ 31 \<le> unat (p_wpos p) + 1 then None else pipe_store b p"
  "\<lambda>p. if pipe_empty p then None else pipe_take p"
proof (unfold_locales, goal_cases)
  case (1 p b p')
  then have "length (pipe_contents p) < PIPEBUFSIZ"
    using pipe_full_iff [OF 1(1)] by (auto simp: pipe_contents_def pipe_ok_def)
  with 1 pipe_store_some [OF 1(1) this, of b] show ?case by (auto split: if_splits)
next
  case (2 p b)
  then show ?case by (simp add: pipe_full_iff)
next
  case (3 p b p')
  then obtain c cs where "pipe_contents p = c # cs"
    using pipe_empty_iff [OF 3(1)] by (cases "pipe_contents p") auto
  with 3 pipe_take_some [OF 3(1) this] show ?case by (auto split: if_splits)
next
  case (4 p)
  then show ?case
    using pipe_empty_iff [OF 4] pipe_take_some [OF 4] by (cases "pipe_contents p") auto
qed

text \<open>Reading from a pipe that is not empty takes, without waiting, as many bytes as are there,
  at most \<open>n\<close>.\<close>

lemma devpipe_read_some:
  "pipe_ok p \<Longrightarrow> i + k = n \<Longrightarrow> 0 < i \<or> k = 0 \<or> pipe_contents p \<noteq> [] \<Longrightarrow>
   \<exists>p'. devpipe_read n i p ws = Some (take k (pipe_contents p), p') \<and>
     pipe_ok p' \<and> pipe_contents p' = drop k (pipe_contents p)"
proof (induction k arbitrary: i p)
  case 0
  then show ?case by (subst devpipe_read.simps) simp
next
  case (Suc k)
  show ?case
  proof (cases "pipe_contents p")
    case Nil
    with Suc.prems have "pipe_empty p" "0 < i" using pipe_empty_iff by auto
    with Suc.prems Nil show ?thesis by (subst devpipe_read.simps) simp
  next
    case (Cons b bs)
    obtain p1 where p1: "pipe_take p = Some (b, p1)" "pipe_ok p1" "pipe_contents p1 = bs"
      using pipe_take_some [OF Suc.prems(1) Cons] by auto
    obtain p' where p': "devpipe_read n (Suc i) p1 ws = Some (take k bs, p')" "pipe_ok p'"
      "pipe_contents p' = drop k bs"
      using Suc.IH [OF p1(2), of "Suc i"] Suc.prems p1(3) by auto
    have "\<not> pipe_empty p" using Cons pipe_empty_iff [OF Suc.prems(1)] by simp
    with Suc.prems p1(1) p' Cons show ?thesis by (subst devpipe_read.simps) simp
  qed
qed

text \<open>An empty pipe: end of file when the writers are gone, otherwise the reader waits.\<close>

lemma devpipe_read_empty:
  "pipe_ok p \<Longrightarrow> pipe_contents p = [] \<Longrightarrow> 0 < n \<Longrightarrow>
   devpipe_read n 0 p ws = (case ws of [] \<Rightarrow> None
     | (closed, others) # ws' \<Rightarrow> if closed then Some ([], p) else devpipe_read n 0 (others p) ws')"
  by (subst devpipe_read.simps) (simp add: pipe_empty_iff)

text \<open>Writing what fits appends it, without waiting.\<close>

lemma devpipe_write_some:
  "pipe_ok p \<Longrightarrow> i + k = length bs \<Longrightarrow> length (pipe_contents p) + k \<le> PIPEBUFSIZ \<Longrightarrow>
   unat (p_wpos p) + k < 2 ^ 31 \<Longrightarrow>
   \<exists>p'. devpipe_write bs i p ws = Some (int (length bs), p') \<and>
     pipe_ok p' \<and> pipe_contents p' = pipe_contents p @ drop i bs"
proof (induction k arbitrary: i p)
  case 0
  then show ?case by (subst devpipe_write.simps) simp
next
  case (Suc k)
  have "\<not> pipe_full p" using Suc.prems pipe_full_iff [OF Suc.prems(1)] by simp
  moreover obtain p1 where p1: "pipe_store (bs ! i) p = Some p1" "pipe_ok p1"
    "pipe_contents p1 = pipe_contents p @ [bs ! i]" "unat (p_wpos p1) = unat (p_wpos p) + 1"
    using pipe_store_some [OF Suc.prems(1), of "bs ! i"] Suc.prems by auto
  moreover obtain p' where p': "devpipe_write bs (Suc i) p1 ws = Some (int (length bs), p')" "pipe_ok p'"
    "pipe_contents p' = pipe_contents p1 @ drop (Suc i) bs"
    using Suc.IH [OF p1(2), of "Suc i"] Suc.prems p1 by auto
  moreover have "drop i bs = bs ! i # drop (Suc i) bs" using Suc.prems by (simp add: Cons_nth_drop_Suc)
  ultimately show ?case using Suc.prems by (subst devpipe_write.simps) simp
qed

lemma devpipe_stat_size_ok: "pipe_ok p \<Longrightarrow> devpipe_stat_size p = int (length (pipe_contents p))"
proof -
  assume ok: "pipe_ok p"
  have "unat (p_wpos p - p_rpos p) = unat (p_wpos p) - unat (p_rpos p)"
    using ok by (simp add: pipe_ok_def unat_sub_if')
  moreover have "unat (p_wpos p) - unat (p_rpos p) < 2 ^ 31"
    using ok unfolding pipe_ok_def by linarith
  ultimately have "sint (p_wpos p - p_rpos p) = int (unat (p_wpos p) - unat (p_rpos p))"
    using sint_eq_unat [of "p_wpos p - p_rpos p"] by (simp only:)
  then show ?thesis by (simp add: devpipe_stat_size_def pipe_contents_def)
qed

section \<open>One reader and one writer, access by access\<close>

text \<open>Preemption can separate the test of the positions, the transfer of a byte and the
  increment.  A step of the writer or of the reader is one of these three; \<open>w_in\<close> are the
  bytes still to be written, \<open>r_out\<close> the bytes read so far.\<close>

datatype wpc = W_test | W_store | W_inc
datatype rpc = R_test | R_load | R_inc

record pipe_sys =
  pipe :: pipe_buf
  w_pc :: wpc
  w_in :: "u8 list"
  r_pc :: rpc
  r_out :: "u8 list"

definition writer_step :: "pipe_sys \<Rightarrow> pipe_sys" where
  "writer_step s =
     (case w_pc s of
        W_test \<Rightarrow> if w_in s \<noteq> [] \<and> \<not> pipe_full (pipe s) then s\<lparr>w_pc := W_store\<rparr> else s
      | W_store \<Rightarrow>
          (case pipe_index (p_wpos (pipe s)) of
             None \<Rightarrow> s
           | Some i \<Rightarrow> s\<lparr>pipe := (pipe s)\<lparr>p_data := (p_data (pipe s))(i := hd (w_in s))\<rparr>, w_pc := W_inc\<rparr>)
      | W_inc \<Rightarrow> s\<lparr>pipe := (pipe s)\<lparr>p_wpos := p_wpos (pipe s) + 1\<rparr>, w_in := tl (w_in s), w_pc := W_test\<rparr>)"

definition reader_step :: "pipe_sys \<Rightarrow> pipe_sys" where
  "reader_step s =
     (case r_pc s of
        R_test \<Rightarrow> if \<not> pipe_empty (pipe s) then s\<lparr>r_pc := R_load\<rparr> else s
      | R_load \<Rightarrow>
          (case pipe_index (p_rpos (pipe s)) of
             None \<Rightarrow> s
           | Some i \<Rightarrow> s\<lparr>r_out := r_out s @ [p_data (pipe s) i], r_pc := R_inc\<rparr>)
      | R_inc \<Rightarrow> s\<lparr>pipe := (pipe s)\<lparr>p_rpos := p_rpos (pipe s) + 1\<rparr>, r_pc := R_test\<rparr>)"

inductive pipe_reach :: "pipe_sys \<Rightarrow> pipe_sys \<Rightarrow> bool" for s0 where
  start: "pipe_reach s0 s0"
| writer: "pipe_reach s0 s \<Longrightarrow> pipe_reach s0 (writer_step s)"
| reader: "pipe_reach s0 s \<Longrightarrow> pipe_reach s0 (reader_step s)"

definition pipe_start :: "pipe_buf \<Rightarrow> u8 list \<Rightarrow> pipe_sys" where
  "pipe_start p bs = \<lparr>pipe = p, w_pc = W_test, w_in = bs, r_pc = R_test, r_out = []\<rparr>"

text \<open>What the reader has not yet taken of the contents.\<close>

definition unread :: "pipe_sys \<Rightarrow> u8 list" where
  "unread s = (if r_pc s = R_inc then tl (pipe_contents (pipe s)) else pipe_contents (pipe s))"

definition pipe_sys_inv :: "u8 list \<Rightarrow> pipe_sys \<Rightarrow> bool" where
  "pipe_sys_inv all s \<longleftrightarrow>
     pipe_ok (pipe s) \<and> unat (p_wpos (pipe s)) + length (w_in s) < 2 ^ 31 \<and>
     r_out s @ unread s @ w_in s = all \<and>
     (r_pc s \<noteq> R_test \<longrightarrow> pipe_contents (pipe s) \<noteq> []) \<and>
     (w_pc s \<noteq> W_test \<longrightarrow> w_in s \<noteq> [] \<and> length (pipe_contents (pipe s)) < PIPEBUFSIZ) \<and>
     (w_pc s = W_inc \<longrightarrow> p_data (pipe s) (unat (p_wpos (pipe s)) mod PIPEBUFSIZ) = hd (w_in s))"

lemma contents_index: "pipe_ok p \<Longrightarrow> pipe_contents p \<noteq> [] \<Longrightarrow> hd (pipe_contents p) = p_data p (unat (p_rpos p) mod PIPEBUFSIZ)"
proof -
  assume "pipe_ok p" "pipe_contents p \<noteq> []"
  then obtain k where "unat (p_wpos p) - unat (p_rpos p) = Suc k"
    by (cases "unat (p_wpos p) - unat (p_rpos p)") (auto simp: pipe_contents_def)
  then show ?thesis by (simp add: pipe_contents_def ring_list_Suc)
qed

text \<open>Storing into the free slot leaves the contents alone.\<close>

lemma store_contents:
  assumes "pipe_ok p" "length (pipe_contents p) < PIPEBUFSIZ"
  shows "pipe_contents (p\<lparr>p_data := (p_data p)(unat (p_wpos p) mod PIPEBUFSIZ := b)\<rparr>) = pipe_contents p"
proof -
  let ?r = "unat (p_rpos p)" and ?k = "unat (p_wpos p) - unat (p_rpos p)"
  have k: "?k < PIPEBUFSIZ" "unat (p_wpos p) = ?r + ?k" using assms by (auto simp: pipe_contents_def pipe_ok_def)
  have "(?r + i) mod PIPEBUFSIZ \<noteq> (?r + ?k) mod PIPEBUFSIZ" if "i < ?k" for i
    using ring_mod_inj [of i PIPEBUFSIZ ?k ?r] that k by auto
  then show ?thesis using k(2) by (auto simp: pipe_contents_def ring_list_def)
qed

lemma writer_inv: "pipe_sys_inv all s \<Longrightarrow> pipe_sys_inv all (writer_step s)"
proof -
  assume inv: "pipe_sys_inv all s"
  note i = inv [unfolded pipe_sys_inv_def]
  have w: "unat (p_wpos (pipe s)) < 2 ^ 31" using i by simp
  show ?thesis
  proof (cases "w_pc s")
    case W_test
    then show ?thesis
      using inv pipe_full_iff [of "pipe s"]
      by (auto simp: writer_step_def pipe_sys_inv_def unread_def pipe_contents_def pipe_ok_def)
  next
    case W_store
    let ?p = "(pipe s)\<lparr>p_data := (p_data (pipe s))(unat (p_wpos (pipe s)) mod PIPEBUFSIZ := hd (w_in s))\<rparr>"
    have st: "writer_step s = s\<lparr>pipe := ?p, w_pc := W_inc\<rparr>"
      using W_store pipe_index_ok [OF w] by (simp add: writer_step_def)
    have c: "pipe_contents ?p = pipe_contents (pipe s)" using i W_store by (intro store_contents) simp_all
    have "pipe_ok ?p" using i by (simp add: pipe_ok_def)
    with c i W_store show ?thesis unfolding st by (auto simp: pipe_sys_inv_def unread_def)
  next
    case W_inc
    let ?p = "(pipe s)\<lparr>p_wpos := p_wpos (pipe s) + 1\<rparr>"
    have st: "writer_step s = s\<lparr>pipe := ?p, w_in := tl (w_in s), w_pc := W_test\<rparr>"
      using W_inc by (simp add: writer_step_def)
    obtain b bs where b: "w_in s = b # bs" using i W_inc by (cases "w_in s") auto
    have "pipe_store b (pipe s) = Some ?p"
      using i W_inc b pipe_index_ok [OF w] by (auto simp: pipe_store_def fun_upd_idem)
    moreover have "\<exists>p'. pipe_store b (pipe s) = Some p' \<and> pipe_ok p' \<and>
        pipe_contents p' = pipe_contents (pipe s) @ [b] \<and> unat (p_wpos p') = unat (p_wpos (pipe s)) + 1"
      using i W_inc b by (intro pipe_store_some) simp_all
    ultimately have p: "pipe_ok ?p" "pipe_contents ?p = pipe_contents (pipe s) @ [b]"
      "unat (p_wpos ?p) = unat (p_wpos (pipe s)) + 1" by auto
    have u: "unread (s\<lparr>pipe := ?p, w_in := tl (w_in s), w_pc := W_test\<rparr>) = unread s @ [b]"
      using p(2) i by (auto simp: unread_def)
    show ?thesis unfolding st pipe_sys_inv_def u using p i b by auto
  qed
qed

lemma reader_inv: "pipe_sys_inv all s \<Longrightarrow> pipe_sys_inv all (reader_step s)"
proof -
  assume inv: "pipe_sys_inv all s"
  note i = inv [unfolded pipe_sys_inv_def]
  have r: "unat (p_rpos (pipe s)) < 2 ^ 31" using i by (simp add: pipe_ok_def)
  show ?thesis
  proof (cases "r_pc s")
    case R_test
    then show ?thesis
      using inv pipe_empty_iff [of "pipe s"] by (auto simp: reader_step_def pipe_sys_inv_def unread_def)
  next
    case R_load
    have ne: "pipe_contents (pipe s) \<noteq> []" using i R_load by simp
    have st: "reader_step s = s\<lparr>r_out := r_out s @ [hd (pipe_contents (pipe s))], r_pc := R_inc\<rparr>"
      using R_load pipe_index_ok [OF r] contents_index [OF _ ne] i by (simp add: reader_step_def)
    have "r_out s @ hd (pipe_contents (pipe s)) # tl (pipe_contents (pipe s)) @ w_in s = all"
      using i R_load ne by (simp add: unread_def flip: append_Cons)
    with i ne show ?thesis unfolding st by (auto simp: pipe_sys_inv_def unread_def)
  next
    case R_inc
    let ?p = "(pipe s)\<lparr>p_rpos := p_rpos (pipe s) + 1\<rparr>"
    have st: "reader_step s = s\<lparr>pipe := ?p, r_pc := R_test\<rparr>" using R_inc by (simp add: reader_step_def)
    obtain b bs where b: "pipe_contents (pipe s) = b # bs" using i R_inc by (cases "pipe_contents (pipe s)") auto
    have "pipe_take (pipe s) = Some (p_data (pipe s) (unat (p_rpos (pipe s)) mod PIPEBUFSIZ), ?p)"
      using pipe_index_ok [OF r] by (simp add: pipe_take_def)
    with pipe_take_some [OF _ b] i have p: "pipe_ok ?p" "pipe_contents ?p = bs" by auto
    have "unread (s\<lparr>pipe := ?p, r_pc := R_test\<rparr>) = unread s" using p(2) b R_inc by (simp add: unread_def)
    with p i b show ?thesis unfolding st by (auto simp: pipe_sys_inv_def)
  qed
qed

lemma pipe_reach_inv:
  "pipe_reach s0 s \<Longrightarrow> pipe_sys_inv all s0 \<Longrightarrow> pipe_sys_inv all s"
  by (induction rule: pipe_reach.induct) (simp_all add: writer_inv reader_inv)

lemma pipe_start_inv:
  "pipe_ok p \<Longrightarrow> unat (p_wpos p) + length bs < 2 ^ 31 \<Longrightarrow>
   pipe_sys_inv (pipe_contents p @ bs) (pipe_start p bs)"
  by (simp add: pipe_sys_inv_def pipe_start_def unread_def)

section \<open>Properties\<close>

text \<open>An empty pipe whose positions are about to go around the buffer.\<close>

definition empty_pipe :: pipe_buf where
  "empty_pipe = \<lparr>p_rpos = 31, p_wpos = 31, p_data = (\<lambda>_. 0)\<rparr>"

lemma empty_pipe_ok: "pipe_ok empty_pipe" "pipe_contents empty_pipe = []"
  by (simp_all add: empty_pipe_def pipe_ok_def pipe_contents_def ring_list_def)

text \<open>C4: in every interleaving of the single memory accesses of a writer and a reader that share a
  pipe, the bytes the reader has taken are a prefix of the bytes that were in the pipe followed by
  the bytes the writer was given, and none of the others is lost: the rest is still in the pipe or
  still to be written.\<close>

theorem pipe_concurrent_fifo:
  assumes "pipe_ok p" "unat (p_wpos p) + length bs < 2 ^ 31" "pipe_reach (pipe_start p bs) s"
  shows "pipe_ok (pipe s) \<and> r_out s @ unread s @ w_in s = pipe_contents p @ bs"
  using pipe_reach_inv [OF assms(3) pipe_start_inv [OF assms(1,2)]] by (simp add: pipe_sys_inv_def)

theorem pipe_concurrent_fifo_witness:
  "\<exists>s. pipe_reach (pipe_start empty_pipe [65, 66]) s \<and> r_out s @ unread s @ w_in s = [65, 66] \<and> w_in s = [66]"
proof -
  let ?ini = "pipe_start empty_pipe [65, 66]"
  let ?t = "writer_step (writer_step (writer_step ?ini))"
  have r: "pipe_reach ?ini ?t" by (intro pipe_reach.writer pipe_reach.start)
  have "w_in ?t = [66]"
    by (simp add: writer_step_def pipe_start_def empty_pipe_def pipe_full_def pipe_index_def)
  moreover have "unat (p_wpos empty_pipe) + length [65, 66 :: u8] < 2 ^ 31" by (simp add: empty_pipe_def)
  note pipe_concurrent_fifo [OF empty_pipe_ok(1) this r]
  ultimately show ?thesis using r by (intro exI [of _ ?t]) (simp add: empty_pipe_ok)
qed

text \<open>A write that fits, followed by a read, transfers the bytes: the reader gets the bytes that
  were pending followed by the bytes written, up to the size of its buffer, and what it did not take
  stays in the pipe.\<close>

theorem pipe_write_then_read:
  assumes "pipe_ok p" "length (pipe_contents p) + length bs \<le> PIPEBUFSIZ"
    and "unat (p_wpos p) + length bs < 2 ^ 31" "bs \<noteq> []"
  shows "\<exists>p1 p2. devpipe_write bs 0 p ws = Some (int (length bs), p1) \<and>
    devpipe_read n 0 p1 ws' = Some (take n (pipe_contents p @ bs), p2) \<and>
    pipe_ok p2 \<and> pipe_contents p2 = drop n (pipe_contents p @ bs)"
proof -
  obtain p1 where p1: "devpipe_write bs 0 p ws = Some (int (length bs), p1)" "pipe_ok p1"
    "pipe_contents p1 = pipe_contents p @ bs"
    using devpipe_write_some [OF assms(1), of 0 "length bs" bs ws] assms(2,3) by auto
  obtain p2 where "devpipe_read n 0 p1 ws' = Some (take n (pipe_contents p1), p2)" "pipe_ok p2"
    "pipe_contents p2 = drop n (pipe_contents p1)"
    using devpipe_read_some [OF p1(2), of 0 n n ws'] assms(4) p1(3) by auto
  with p1 show ?thesis by auto
qed

theorem pipe_write_then_read_witness:
  "\<exists>p1 p2. devpipe_write [65, 66, 67] 0 empty_pipe [] = Some (3, p1) \<and>
     devpipe_read 2 0 p1 [] = Some ([65, 66], p2) \<and> pipe_contents p2 = [67]"
proof -
  have "unat (p_wpos empty_pipe) = 31" by (simp add: empty_pipe_def)
  then show ?thesis
    using pipe_write_then_read [OF empty_pipe_ok(1), of "[65, 66, 67]" "[]" 2 "[]"] by (auto simp: empty_pipe_ok)
qed

end
