(* ===== verification/User_Mem.thy ===== *)
theory User_Mem
  imports JOS_Prelude
begin

text \<open>
  The memory of a user environment as the user library sees it: which pages are mapped (\<open>uvpd\<close> and
  \<open>uvpt\<close>), the contents of the page frames, the reference counts that the kernel shows at
  \<open>UPAGES\<close>, and the page system calls on the environment itself (\<^verbatim>\<open>lib/syscall.c\<close>).

  The calls are the ones of the kernel for the address ranges that the library uses: aligned
  addresses below \<open>UTOP\<close> and valid permissions.  Whether the kernel has memory is not decided
  here: \<open>krets\<close> lists the results of the coming calls, and a negative one is returned without
  any effect.  A new page keeps the contents its frame had, as \<open>sys_page_alloc\<close> does.
\<close>

record upage =
  pg_frame :: nat
  pg_perm :: u32

record umem =
  upt :: "nat \<Rightarrow> upage option"
  uframe :: "nat \<Rightarrow> cmem"
  uref :: "nat \<Rightarrow> nat"
  ufree :: "nat list"
  krets :: "int list"

abbreviation UPTE_P :: u32 where "UPTE_P \<equiv> 1"
abbreviation UPTE_W :: u32 where "UPTE_W \<equiv> 2"
abbreviation UPTE_U :: u32 where "UPTE_U \<equiv> 4"
abbreviation UPTE_SHARE :: u32 where "UPTE_SHARE \<equiv> 0x400"
abbreviation UPTE_COW :: u32 where "UPTE_COW \<equiv> 0x800"
abbreviation UPTE_SYSCALL :: u32 where "UPTE_SYSCALL \<equiv> 0xE07"

section \<open>Mappings\<close>

definition vpn :: "nat \<Rightarrow> nat" where
  "vpn va = va div PGSIZE"

definition mapped_at :: "nat \<Rightarrow> 'a umem_scheme \<Rightarrow> bool" where
  "mapped_at va s \<longleftrightarrow> upt s (vpn va) \<noteq> None"

definition frame_at :: "nat \<Rightarrow> 'a umem_scheme \<Rightarrow> nat option" where
  "frame_at va s = map_option pg_frame (upt s (vpn va))"

definition perm_at :: "nat \<Rightarrow> 'a umem_scheme \<Rightarrow> u32" where
  "perm_at va s = (case upt s (vpn va) of None \<Rightarrow> 0 | Some p \<Rightarrow> pg_perm p)"

text \<open>\<^verbatim>\<open>lib/pageref.c\<close>.\<close>

definition pageref :: "nat \<Rightarrow> 'a umem_scheme \<Rightarrow> nat" where
  "pageref v s = (case upt s (vpn v) of None \<Rightarrow> 0 | Some p \<Rightarrow> uref s (pg_frame p))"

text \<open>A load or store of the environment: \<open>None\<close> is a page fault.\<close>

definition uld32 :: "nat \<Rightarrow> 'a umem_scheme \<Rightarrow> u32 option" where
  "uld32 va s = (case upt s (vpn va) of None \<Rightarrow> None | Some p \<Rightarrow> Some (rd32 (uframe s (pg_frame p)) (va mod PGSIZE)))"

definition ust32 :: "nat \<Rightarrow> u32 \<Rightarrow> 'a umem_scheme \<Rightarrow> 'a umem_scheme option" where
  "ust32 va w s =
     (case upt s (vpn va) of
        None \<Rightarrow> None
      | Some p \<Rightarrow>
          if pg_perm p AND UPTE_W = 0 then None
          else Some (s\<lparr>uframe := (uframe s)(pg_frame p := wr32 (uframe s (pg_frame p)) (va mod PGSIZE) w)\<rparr>))"

definition uzero_page :: "nat \<Rightarrow> 'a umem_scheme \<Rightarrow> 'a umem_scheme option" where
  "uzero_page va s =
     (case upt s (vpn va) of
        None \<Rightarrow> None
      | Some p \<Rightarrow>
          if pg_perm p AND UPTE_W = 0 then None
          else Some (s\<lparr>uframe := (uframe s)(pg_frame p := (\<lambda>_. 0))\<rparr>))"

text \<open>Bytes and 64-bit numbers.\<close>

definition uld8 :: "nat \<Rightarrow> 'a umem_scheme \<Rightarrow> u8 option" where
  "uld8 va s = (case upt s (vpn va) of None \<Rightarrow> None | Some p \<Rightarrow> Some (uframe s (pg_frame p) (va mod PGSIZE)))"

definition ust8 :: "nat \<Rightarrow> u8 \<Rightarrow> 'a umem_scheme \<Rightarrow> 'a umem_scheme option" where
  "ust8 va b s =
     (case upt s (vpn va) of
        None \<Rightarrow> None
      | Some p \<Rightarrow>
          if pg_perm p AND UPTE_W = 0 then None
          else Some (s\<lparr>uframe := (uframe s)(pg_frame p := (uframe s (pg_frame p))(va mod PGSIZE := b))\<rparr>))"

fun ust_list :: "nat \<Rightarrow> u8 list \<Rightarrow> 'a umem_scheme \<Rightarrow> 'a umem_scheme option" where
  "ust_list va [] s = Some s"
| "ust_list va (b # bs) s = do { s1 \<leftarrow> ust8 va b s; ust_list (va + 1) bs s1 }"

definition uld64 :: "nat \<Rightarrow> 'a umem_scheme \<Rightarrow> nat option" where
  "uld64 va s = do { lo \<leftarrow> uld32 va s; hi \<leftarrow> uld32 (va + 4) s; Some (unat lo + 2 ^ 32 * unat hi) }"

definition ust64 :: "nat \<Rightarrow> nat \<Rightarrow> 'a umem_scheme \<Rightarrow> 'a umem_scheme option" where
  "ust64 va n s = do { s1 \<leftarrow> ust32 va (of_nat n) s; ust32 (va + 4) (of_nat (n div 2 ^ 32)) s1 }"

section \<open>The page system calls\<close>

definition unmap_vpn :: "nat \<Rightarrow> 'a umem_scheme \<Rightarrow> 'a umem_scheme" where
  "unmap_vpn n s =
     (case upt s n of
        None \<Rightarrow> s
      | Some p \<Rightarrow>
          let f = pg_frame p;
              s1 = s\<lparr>upt := (upt s)(n := None), uref := (uref s)(f := uref s f - 1)\<rparr>
          in if uref s1 f = 0 then s1\<lparr>ufree := f # ufree s1\<rparr> else s1)"

definition map_vpn :: "nat \<Rightarrow> nat \<Rightarrow> u32 \<Rightarrow> 'a umem_scheme \<Rightarrow> 'a umem_scheme" where
  "map_vpn n f perm s =
     (if map_option pg_frame (upt s n) = Some f
      then s\<lparr>upt := (upt s)(n := Some \<lparr>pg_frame = f, pg_perm = perm\<rparr>)\<rparr>
      else let s1 = unmap_vpn n s
           in s1\<lparr>upt := (upt s1)(n := Some \<lparr>pg_frame = f, pg_perm = perm\<rparr>), uref := (uref s1)(f := uref s1 f + 1)\<rparr>)"

text \<open>The next result of the kernel; with no more given, the calls succeed.\<close>

definition kret :: "'a umem_scheme \<Rightarrow> int \<times> 'a umem_scheme" where
  "kret s = (case krets s of [] \<Rightarrow> (0, s) | r # rs \<Rightarrow> (r, s\<lparr>krets := rs\<rparr>))"

definition u_page_alloc :: "nat \<Rightarrow> u32 \<Rightarrow> 'a umem_scheme \<Rightarrow> int \<times> 'a umem_scheme" where
  "u_page_alloc va perm s =
     (let (r, s1) = kret s in
      if r < 0 then (r, s1)
      else case ufree s1 of
             [] \<Rightarrow> (- E_NO_MEM, s1)
           | f # fs \<Rightarrow> (0, map_vpn (vpn va) f perm (s1\<lparr>ufree := fs\<rparr>)))"

definition u_page_map :: "nat \<Rightarrow> nat \<Rightarrow> u32 \<Rightarrow> 'a umem_scheme \<Rightarrow> int \<times> 'a umem_scheme" where
  "u_page_map srcva dstva perm s =
     (let (r, s1) = kret s in
      if r < 0 then (r, s1)
      else case upt s1 (vpn srcva) of
             None \<Rightarrow> (- E_INVAL, s1)
           | Some p \<Rightarrow>
               if pg_perm p AND UPTE_W = 0 \<and> perm AND UPTE_W \<noteq> 0 then (- E_INVAL, s1)
               else (0, map_vpn (vpn dstva) (pg_frame p) perm s1))"

definition u_page_unmap :: "nat \<Rightarrow> 'a umem_scheme \<Rightarrow> 'a umem_scheme" where
  "u_page_unmap va s = unmap_vpn (vpn va) s"

section \<open>Reference counts\<close>

lemma unmap_vpn_frame:
  "upt (unmap_vpn n s) = (upt s)(n := None)" "uframe (unmap_vpn n s) = uframe s" "krets (unmap_vpn n s) = krets s"
  by (auto simp: unmap_vpn_def Let_def fun_eq_iff split: option.splits)

lemma map_vpn_frame:
  "upt (map_vpn n f perm s) = (upt s)(n := Some \<lparr>pg_frame = f, pg_perm = perm\<rparr>)"
  "uframe (map_vpn n f perm s) = uframe s" "krets (map_vpn n f perm s) = krets s"
  by (auto simp: map_vpn_def Let_def unmap_vpn_frame fun_eq_iff)

text \<open>Mapping an unmapped page and unmapping it again restores the mappings and the counts.\<close>

lemma map_vpn_fresh:
  "upt s n = None \<Longrightarrow> uref (map_vpn n f perm s) = (uref s)(f := uref s f + 1) \<and> ufree (map_vpn n f perm s) = ufree s"
  by (simp add: map_vpn_def unmap_vpn_def)

lemma kret_frame: "upt (snd (kret s)) = upt s" "uref (snd (kret s)) = uref s" "uframe (snd (kret s)) = uframe s"
  "ufree (snd (kret s)) = ufree s"
  by (auto simp: kret_def split: list.splits)

lemma kret_cases: obtains r k where "kret s = (r, s\<lparr>krets := k\<rparr>)"
proof (cases "krets s")
  case Nil
  show thesis by (rule that [of 0 "krets s"]) (simp add: kret_def Nil)
next
  case (Cons r k)
  then show thesis by (intro that [of r k]) (simp add: kret_def)
qed

section \<open>Reference counts cover the mappings\<close>

definition maps_to :: "'a umem_scheme \<Rightarrow> nat \<Rightarrow> nat set" where
  "maps_to s f = {n. map_option pg_frame (upt s n) = Some f}"

definition umem_inv :: "'a umem_scheme \<Rightarrow> bool" where
  "umem_inv s \<longleftrightarrow> distinct (ufree s) \<and> (\<forall>f \<in> set (ufree s). uref s f = 0) \<and>
     (\<forall>f. finite (maps_to s f) \<and> card (maps_to s f) \<le> uref s f)"

lemma umem_inv_mapped: "umem_inv s \<Longrightarrow> upt s n = Some p \<Longrightarrow> 0 < uref s (pg_frame p) \<and> pg_frame p \<notin> set (ufree s)"
proof -
  assume s: "umem_inv s" "upt s n = Some p"
  then have "n \<in> maps_to s (pg_frame p)" "finite (maps_to s (pg_frame p))" by (simp_all add: maps_to_def umem_inv_def)
  then have "0 < card (maps_to s (pg_frame p))" by (auto simp: card_gt_0_iff)
  with s(1) have "0 < uref s (pg_frame p)" by (auto simp: umem_inv_def intro: order_less_le_trans)
  with s(1) show ?thesis by (auto simp: umem_inv_def)
qed

lemma umem_inv_unmap: "umem_inv s \<Longrightarrow> umem_inv (unmap_vpn n s)"
proof (cases "upt s n")
  case (Some p)
  assume s: "umem_inv s"
  let ?g = "pg_frame p"
  have g: "0 < uref s ?g" "?g \<notin> set (ufree s)" using umem_inv_mapped [OF s Some] by simp_all
  have m: "maps_to (unmap_vpn n s) f = maps_to s f - {n}" for f
    by (auto simp: maps_to_def unmap_vpn_frame split: if_splits)
  have n: "n \<in> maps_to s f \<longleftrightarrow> f = ?g" for f using Some by (auto simp: maps_to_def)
  have c: "finite (maps_to s f)" "card (maps_to s f) \<le> uref s f" for f using s by (simp_all add: umem_inv_def)
  have d: "card (maps_to s ?g - {n}) \<le> uref s ?g - 1"
    using c [of ?g] n [of ?g] by (simp add: card_Diff_singleton)
  have "uref (unmap_vpn n s) = (uref s)(?g := uref s ?g - 1)"
    using Some by (simp add: unmap_vpn_def Let_def)
  moreover have "ufree (unmap_vpn n s) = (if uref s ?g = 1 then ?g # ufree s else ufree s)"
    using Some g by (auto simp: unmap_vpn_def Let_def)
  ultimately show ?thesis
    using s g c d n by (auto simp: umem_inv_def m)
qed (simp add: unmap_vpn_def)

lemma umem_inv_map:
  assumes "umem_inv s" "f \<notin> set (ufree s)"
  shows "umem_inv (map_vpn n f perm s)"
proof (cases "map_option pg_frame (upt s n) = Some f")
  case True
  then have "maps_to (map_vpn n f perm s) g = maps_to s g" for g by (auto simp: maps_to_def map_vpn_def)
  with True assms(1) show ?thesis by (simp add: umem_inv_def map_vpn_def)
next
  case False
  let ?s1 = "unmap_vpn n s"
  have i: "umem_inv ?s1" by (rule umem_inv_unmap [OF assms(1)])
  have f: "f \<notin> set (ufree ?s1)" using assms(2) False
    by (auto simp: unmap_vpn_def Let_def split: option.splits if_splits)
  have n: "n \<notin> maps_to ?s1 g" for g by (simp add: maps_to_def unmap_vpn_frame)
  have m: "maps_to (map_vpn n f perm s) g = (if g = f then insert n (maps_to ?s1 g) else maps_to ?s1 g)" for g
    using n by (auto simp: maps_to_def map_vpn_frame unmap_vpn_frame)
  have c: "finite (maps_to ?s1 g)" "card (maps_to ?s1 g) \<le> uref ?s1 g" for g using i by (simp_all add: umem_inv_def)
  have "uref (map_vpn n f perm s) = (uref ?s1)(f := uref ?s1 f + 1)" "ufree (map_vpn n f perm s) = ufree ?s1"
    using False by (auto simp: map_vpn_def Let_def)
  then show ?thesis using i f c [of f] n [of f] by (auto simp: umem_inv_def m)
qed

lemma umem_inv_krets [simp]: "umem_inv (s\<lparr>krets := k\<rparr>) = umem_inv s"
  by (simp add: umem_inv_def maps_to_def)

lemma umem_inv_uframe [simp]: "umem_inv (s\<lparr>uframe := k\<rparr>) = umem_inv s"
  by (simp add: umem_inv_def maps_to_def)

lemma umem_inv_alloc:
  assumes "umem_inv s"
  shows "umem_inv (snd (u_page_alloc va perm s))"
proof -
  obtain r k where k: "kret s = (r, s\<lparr>krets := k\<rparr>)" by (rule kret_cases)
  show ?thesis
  proof (cases "ufree s")
    case Nil
    with k assms show ?thesis by (simp add: u_page_alloc_def)
  next
    case (Cons f fs)
    have "umem_inv (s\<lparr>krets := k, ufree := fs\<rparr>)" "f \<notin> set fs"
      using assms Cons by (auto simp: umem_inv_def maps_to_def)
    then have "umem_inv (map_vpn (vpn va) f perm (s\<lparr>krets := k, ufree := fs\<rparr>))" by (intro umem_inv_map) simp_all
    with k assms Cons show ?thesis by (simp add: u_page_alloc_def)
  qed
qed

lemma ust32_inv: "ust32 va w s = Some s' \<Longrightarrow> \<exists>m. s' = s\<lparr>uframe := m\<rparr>"
  by (auto simp: ust32_def split: option.splits if_splits)

lemma ust_list_inv: "ust_list va bs s = Some s' \<Longrightarrow> \<exists>m. s' = s\<lparr>uframe := m\<rparr>"
proof (induction bs arbitrary: va s)
  case Nil
  then show ?case by (auto intro: exI [of _ "uframe s"])
next
  case (Cons b bs)
  then obtain s1 where s1: "ust8 va b s = Some s1" "ust_list (va + 1) bs s1 = Some s'" by (auto simp: bind_eq_Some_conv)
  from s1(1) obtain m1 where "s1 = s\<lparr>uframe := m1\<rparr>" by (auto simp: ust8_def split: option.splits if_splits)
  with Cons.IH [OF s1(2)] show ?case by auto
qed

section \<open>Accesses inside a page\<close>

text \<open>The bytes from an address; a fault if one of them is not mapped.\<close>

definition uld_list :: "nat \<Rightarrow> nat \<Rightarrow> 'a umem_scheme \<Rightarrow> u8 list option" where
  "uld_list va n s = those (map (\<lambda>i. uld8 (va + i) s) [0..<n])"


lemma vpn_page: "base mod PGSIZE = 0 \<Longrightarrow> k < PGSIZE \<Longrightarrow> vpn (base + k) = vpn base"
  "base mod PGSIZE = 0 \<Longrightarrow> k < PGSIZE \<Longrightarrow> (base + k) mod PGSIZE = k"
proof -
  assume a: "base mod PGSIZE = 0" "k < PGSIZE"
  obtain q where q: "base = q * PGSIZE" using a(1) by auto
  show "vpn (base + k) = vpn base"
    using a(2) unfolding vpn_def q by (simp only: div_mult_self3 div_less add_0_right zero_neq_numeral not_False_eq_True nonzero_mult_div_cancel_right)
  show "(base + k) mod PGSIZE = k" using a(2) unfolding q by (simp only: mod_mult_self3 mod_less)
qed

lemma ust32_page:
  assumes "base mod PGSIZE = 0" "k < PGSIZE" "upt m (vpn base) = Some q" "pg_perm q AND UPTE_W \<noteq> 0"
  shows "ust32 (base + k) v m = Some (m\<lparr>uframe := (uframe m)(pg_frame q := wr32 (uframe m (pg_frame q)) k v)\<rparr>)"
  using assms(3,4) unfolding ust32_def vpn_page(1) [OF assms(1,2)] vpn_page(2) [OF assms(1,2)] by simp

lemma uld32_page:
  assumes "base mod PGSIZE = 0" "k < PGSIZE" "upt m (vpn base) = Some q"
  shows "uld32 (base + k) m = Some (rd32 (uframe m (pg_frame q)) k)"
  using assms(3) unfolding uld32_def vpn_page(1) [OF assms(1,2)] vpn_page(2) [OF assms(1,2)] by simp

lemma ust_list_page:
  assumes "base mod PGSIZE = 0" "upt m (vpn base) = Some q" "pg_perm q AND UPTE_W \<noteq> 0" "k + length bs \<le> PGSIZE"
  shows "ust_list (base + k) bs m = Some (m\<lparr>uframe := (uframe m)(pg_frame q := overlay k bs (uframe m (pg_frame q)))\<rparr>)"
  using assms(2-)
proof (induction bs arbitrary: k m)
  case Nil
  then show ?case by (simp add: overlay_Nil)
next
  case (Cons b bs)
  have k: "k < PGSIZE" using Cons.prems(3) by simp
  let ?m = "m\<lparr>uframe := (uframe m)(pg_frame q := (uframe m (pg_frame q))(k := b))\<rparr>"
  have "ust8 (base + k) b m = Some ?m"
    using Cons.prems unfolding ust8_def vpn_page(1) [OF assms(1) k] vpn_page(2) [OF assms(1) k] by simp
  moreover have "ust_list (base + Suc k) bs ?m =
      Some (?m\<lparr>uframe := (uframe ?m)(pg_frame q := overlay (Suc k) bs (uframe ?m (pg_frame q)))\<rparr>)"
    by (rule Cons.IH) (use Cons.prems in auto)
  ultimately show ?case by (simp add: overlay_Cons) (simp add: fun_upd_def)
qed

lemma uld_list_page:
  assumes "base mod PGSIZE = 0" "upt m (vpn base) = Some q" "n \<le> PGSIZE"
  shows "uld_list base n m = Some (map (uframe m (pg_frame q)) [0..<n])"
proof -
  have u: "uld8 (base + k) m = Some (uframe m (pg_frame q) k)" if "k < n" for k
  proof -
    have k: "k < PGSIZE" using that assms(3) by simp
    show ?thesis using assms(2) unfolding uld8_def vpn_page(1) [OF assms(1) k] vpn_page(2) [OF assms(1) k] by simp
  qed
  have eq: "map (\<lambda>i. uld8 (base + i) m) [0..<n] = map (\<lambda>k. Some (uframe m (pg_frame q) k)) [0..<n]"
    using u by simp
  have th: "those (map (\<lambda>k. Some (g k)) xs) = Some (map g xs)" for g :: "nat \<Rightarrow> u8" and xs
    by (induction xs) auto
  show ?thesis unfolding uld_list_def eq th ..
qed

end
