(* ===== verification/Lib_Fd.thy ===== *)
theory Lib_Fd
  imports User_Mem "HOL-Library.Multiset"
begin

text \<open>
  File descriptors of the user library, \<^verbatim>\<open>lib/fd.c\<close>, and the creation of pipes, \<^verbatim>\<open>lib/pipe.c\<close>.

  A descriptor is a page of the descriptor area that holds a \<open>struct Fd\<close>; environments share
  a descriptor by sharing the page.  The device operations are the fields of a record, as in
  \<open>struct Dev\<close>, and the device table is an argument.  \<open>None\<close> is a page fault or a panic.
\<close>

abbreviation MAXFD :: nat where "MAXFD \<equiv> 32"
abbreviation FDTABLE :: nat where "FDTABLE \<equiv> 0xD0000000"
abbreviation FILEDATA :: nat where "FILEDATA \<equiv> FDTABLE + MAXFD * PGSIZE"
abbreviation O_RDONLY :: u32 where "O_RDONLY \<equiv> 0"
abbreviation O_WRONLY :: u32 where "O_WRONLY \<equiv> 1"
abbreviation O_ACCMODE :: u32 where "O_ACCMODE \<equiv> 3"

record fstat_buf =
  st_name :: "u8 list"
  st_size :: int
  st_isdir :: bool
  st_dev :: "u32 option"

record 's dev =
  dev_id :: u32
  dev_read :: "(nat \<Rightarrow> nat \<Rightarrow> 's \<Rightarrow> (int \<times> u8 list \<times> 's) option) option"
  dev_write :: "(nat \<Rightarrow> u8 list \<Rightarrow> 's \<Rightarrow> (int \<times> 's) option) option"
  dev_close :: "(nat \<Rightarrow> 's \<Rightarrow> (int \<times> 's) option) option"
  dev_stat :: "(nat \<Rightarrow> fstat_buf \<Rightarrow> 's \<Rightarrow> (int \<times> fstat_buf \<times> 's) option) option"
  dev_trunc :: "(nat \<Rightarrow> int \<Rightarrow> 's \<Rightarrow> (int \<times> 's) option) option"

section \<open>Descriptor pages\<close>

definition INDEX2FD :: "int \<Rightarrow> nat" where
  "INDEX2FD i = nat ((int FDTABLE + i * int PGSIZE) mod 2 ^ 64)"

definition fd2num :: "nat \<Rightarrow> nat" where
  "fd2num fd = nat ((int fd - int FDTABLE) mod 2 ^ 64) div PGSIZE"

definition fd2data :: "nat \<Rightarrow> nat" where
  "fd2data fd = (FILEDATA + fd2num fd * PGSIZE) mod 2 ^ 64"

text \<open>Fields of \<open>struct Fd\<close>: \<open>fd_dev_id\<close> at offset 0, \<open>fd_offset\<close> at 4, \<open>fd_omode\<close> at 8 and the file
  id at 12.\<close>

definition fd_alloc :: "'a umem_scheme \<Rightarrow> int \<times> nat option" where
  "fd_alloc s =
     (case find (\<lambda>i. \<not> mapped_at (INDEX2FD (int i)) s) [0..<MAXFD] of
        Some i \<Rightarrow> (0, Some (INDEX2FD (int i)))
      | None \<Rightarrow> (- E_MAX_OPEN, None))"

definition fd_lookup :: "int \<Rightarrow> 'a umem_scheme \<Rightarrow> int \<times> nat option" where
  "fd_lookup fdnum s =
     (if fdnum < 0 \<or> fdnum \<ge> int MAXFD then (- E_INVAL, None)
      else if \<not> mapped_at (INDEX2FD fdnum) s then (- E_INVAL, None)
      else (0, Some (INDEX2FD fdnum)))"

definition dev_lookup :: "'s dev list \<Rightarrow> u32 \<Rightarrow> int \<times> 's dev option" where
  "dev_lookup devtab i =
     (case find (\<lambda>d. dev_id d = i) devtab of Some d \<Rightarrow> (0, Some d) | None \<Rightarrow> (- E_INVAL, None))"

definition fd_close :: "'a umem_scheme dev list \<Rightarrow> nat \<Rightarrow> bool \<Rightarrow> 'a umem_scheme \<Rightarrow> (int \<times> 'a umem_scheme) option" where
  "fd_close devtab fd must_exist s =
     (let (r, fd2) = fd_lookup (sint (word_of_nat (fd2num fd) :: u32)) s in
      if r < 0 \<or> fd2 \<noteq> Some fd then Some (if must_exist then r else 0, s)
      else do {
        i \<leftarrow> uld32 fd s;
        (r', s1) \<leftarrow> (case dev_lookup devtab i of
            (d, Some dev) \<Rightarrow> (case dev_close dev of Some f \<Rightarrow> f fd s | None \<Rightarrow> Some (0, s))
          | (d, None) \<Rightarrow> Some (d, s));
        Some (r', u_page_unmap fd s1) })"

section \<open>File functions\<close>

definition close :: "'a umem_scheme dev list \<Rightarrow> int \<Rightarrow> 'a umem_scheme \<Rightarrow> (int \<times> 'a umem_scheme) option" where
  "close devtab fdnum s =
     (case fd_lookup fdnum s of
        (r, Some fd) \<Rightarrow> fd_close devtab fd True s
      | (r, None) \<Rightarrow> Some (r, s))"

fun close_all_loop :: "nat list \<Rightarrow> 'a umem_scheme dev list \<Rightarrow> 'a umem_scheme \<Rightarrow> 'a umem_scheme option" where
  "close_all_loop [] devtab s = Some s"
| "close_all_loop (i # is) devtab s = do {
     (r, s1) \<leftarrow> close devtab (int i) s;
     close_all_loop is devtab s1 }"

definition close_all :: "'a umem_scheme dev list \<Rightarrow> 'a umem_scheme \<Rightarrow> 'a umem_scheme option" where
  "close_all devtab s = close_all_loop [0..<MAXFD] devtab s"

definition dup :: "'a umem_scheme dev list \<Rightarrow> int \<Rightarrow> int \<Rightarrow> 'a umem_scheme \<Rightarrow> (int \<times> 'a umem_scheme) option" where
  "dup devtab oldfdnum newfdnum s =
     (case fd_lookup oldfdnum s of
        (r, None) \<Rightarrow> Some (r, s)
      | (_, Some oldfd) \<Rightarrow> do {
          (_, s1) \<leftarrow> close devtab newfdnum s;
          let newfd = INDEX2FD newfdnum;
          let ova = fd2data oldfd;
          let nva = fd2data newfd;
          let undo = (\<lambda>t. u_page_unmap nva (u_page_unmap newfd t));
          let (r1, s2) = (if mapped_at ova s1 then u_page_map ova nva (perm_at ova s1 AND UPTE_SYSCALL) s1 else (0, s1));
          if r1 < 0 then Some (r1, undo s2)
          else
            let (r2, s3) = u_page_map oldfd newfd (perm_at oldfd s2 AND UPTE_SYSCALL) s2 in
            if r2 < 0 then Some (r2, undo s3) else Some (newfdnum, s3) })"

text \<open>The common start of the operations: the descriptor, its device and its mode.\<close>

definition fd_open :: "'a umem_scheme dev list \<Rightarrow> int \<Rightarrow> 'a umem_scheme \<Rightarrow>
    (int \<times> (nat \<times> 'a umem_scheme dev \<times> u32) option) option" where
  "fd_open devtab fdnum s =
     (case fd_lookup fdnum s of
        (r, None) \<Rightarrow> Some (r, None)
      | (_, Some fd) \<Rightarrow> do {
          i \<leftarrow> uld32 fd s;
          m \<leftarrow> uld32 (fd + 8) s;
          Some (case dev_lookup devtab i of
              (r, None) \<Rightarrow> (r, None)
            | (_, Some dev) \<Rightarrow> (0, Some (fd, dev, m AND O_ACCMODE))) })"

definition fd_read :: "'a umem_scheme dev list \<Rightarrow> int \<Rightarrow> nat \<Rightarrow> 'a umem_scheme \<Rightarrow> (int \<times> u8 list \<times> 'a umem_scheme) option" where
  "fd_read devtab fdnum n s = do {
     (r, x) \<leftarrow> fd_open devtab fdnum s;
     (case x of
        None \<Rightarrow> Some (r, [], s)
      | Some (fd, dev, mode) \<Rightarrow>
          if mode = O_WRONLY then Some (- E_INVAL, [], s)
          else (case dev_read dev of None \<Rightarrow> Some (- E_NOT_SUPP, [], s) | Some f \<Rightarrow> f fd n s)) }"

text \<open>The loop of \<open>readn\<close>; \<open>tot\<close> is an \<open>int\<close>, compared with the size as an unsigned number.\<close>

partial_function (option) readn_loop ::
  "'a umem_scheme dev list \<Rightarrow> int \<Rightarrow> nat \<Rightarrow> int \<Rightarrow> 'a umem_scheme \<Rightarrow> (int \<times> u8 list \<times> 'a umem_scheme) option" where
  "readn_loop devtab fdnum n tot s =
     (if tot mod 2 ^ 64 < int n then
        Option.bind (fd_read devtab fdnum (nat ((int n - tot) mod 2 ^ 64)) s) (\<lambda>x. case x of (m, bs, s1) \<Rightarrow>
          if m < 0 then Some (m, [], s1)
          else if m = 0 then Some (tot, [], s1)
          else Option.bind (readn_loop devtab fdnum n (sint (word_of_int (tot + m) :: u32)) s1) (\<lambda>y.
            case y of (r, bs', s2) \<Rightarrow> Some (r, bs @ bs', s2)))
      else Some (tot, [], s))"

definition readn :: "'a umem_scheme dev list \<Rightarrow> int \<Rightarrow> nat \<Rightarrow> 'a umem_scheme \<Rightarrow> (int \<times> u8 list \<times> 'a umem_scheme) option" where
  "readn devtab fdnum n s = readn_loop devtab fdnum n 0 s"

definition fd_write :: "'a umem_scheme dev list \<Rightarrow> int \<Rightarrow> u8 list \<Rightarrow> 'a umem_scheme \<Rightarrow> (int \<times> 'a umem_scheme) option" where
  "fd_write devtab fdnum bs s = do {
     (r, x) \<leftarrow> fd_open devtab fdnum s;
     (case x of
        None \<Rightarrow> Some (r, s)
      | Some (fd, dev, mode) \<Rightarrow>
          if mode = O_RDONLY then Some (- E_INVAL, s)
          else (case dev_write dev of None \<Rightarrow> Some (- E_NOT_SUPP, s) | Some f \<Rightarrow> f fd bs s)) }"

definition seek :: "int \<Rightarrow> u32 \<Rightarrow> 'a umem_scheme \<Rightarrow> (int \<times> 'a umem_scheme) option" where
  "seek fdnum off s =
     (case fd_lookup fdnum s of
        (r, None) \<Rightarrow> Some (r, s)
      | (_, Some fd) \<Rightarrow> do { s1 \<leftarrow> ust32 (fd + 4) off s; Some (0, s1) })"

definition ftruncate :: "'a umem_scheme dev list \<Rightarrow> int \<Rightarrow> int \<Rightarrow> 'a umem_scheme \<Rightarrow> (int \<times> 'a umem_scheme) option" where
  "ftruncate devtab fdnum newsize s = do {
     (r, x) \<leftarrow> fd_open devtab fdnum s;
     (case x of
        None \<Rightarrow> Some (r, s)
      | Some (fd, dev, mode) \<Rightarrow>
          if mode = O_RDONLY then Some (- E_INVAL, s)
          else (case dev_trunc dev of None \<Rightarrow> Some (- E_NOT_SUPP, s) | Some f \<Rightarrow> f fd newsize s)) }"

definition fstat :: "'a umem_scheme dev list \<Rightarrow> int \<Rightarrow> fstat_buf \<Rightarrow> 'a umem_scheme \<Rightarrow> (int \<times> fstat_buf \<times> 'a umem_scheme) option" where
  "fstat devtab fdnum st s = do {
     (r, x) \<leftarrow> fd_open devtab fdnum s;
     (case x of
        None \<Rightarrow> Some (r, st, s)
      | Some (fd, dev, mode) \<Rightarrow>
          (case dev_stat dev of
             None \<Rightarrow> Some (- E_NOT_SUPP, st, s)
           | Some f \<Rightarrow> f fd \<lparr>st_name = [], st_size = 0, st_isdir = False, st_dev = Some (dev_id dev)\<rparr> s)) }"

section \<open>Pipes\<close>

abbreviation DEV_PIPE :: u32 where "DEV_PIPE \<equiv> 0x70"
abbreviation PIPE_PERM :: u32 where "PIPE_PERM \<equiv> UPTE_P OR UPTE_W OR UPTE_U OR UPTE_SHARE"

text \<open>\<open>pipe\<close>: \<open>pfd[0]\<close> and \<open>pfd[1]\<close> are the second component; each error label undoes what was done
  before.  The second half allocates the shared buffer and fills in the descriptors.\<close>

definition pipe_buffer :: "nat \<Rightarrow> nat \<Rightarrow> 'a umem_scheme \<Rightarrow> (int \<times> (nat \<times> nat) option \<times> 'a umem_scheme) option" where
  "pipe_buffer fd0 fd1 s2 =
     (let va = fd2data fd0;
          err1 = (\<lambda>t. u_page_unmap fd0 t);
          err2 = (\<lambda>t. err1 (u_page_unmap fd1 t));
          err3 = (\<lambda>t. err2 (u_page_unmap va t));
          (r3, s3) = u_page_alloc va PIPE_PERM s2 in
      if r3 < 0 then Some (r3, None, err2 s3)
      else
        let (r4, s4) = u_page_map va (fd2data fd1) PIPE_PERM s3 in
        if r4 < 0 then Some (r4, None, err3 s4)
        else do {
          s5 \<leftarrow> ust32 fd0 DEV_PIPE s4;
          s6 \<leftarrow> ust32 (fd0 + 8) O_RDONLY s5;
          s7 \<leftarrow> ust32 fd1 DEV_PIPE s6;
          s8 \<leftarrow> ust32 (fd1 + 8) O_WRONLY s7;
          Some (0, Some (fd2num fd0, fd2num fd1), s8) })"

definition mkpipe :: "'a umem_scheme \<Rightarrow> (int \<times> (nat \<times> nat) option \<times> 'a umem_scheme) option" where
  "mkpipe s =
     (case fd_alloc s of
        (r, None) \<Rightarrow> Some (r, None, s)
      | (_, Some fd0) \<Rightarrow>
          let (r1, s1) = u_page_alloc fd0 PIPE_PERM s;
              err1 = (\<lambda>t. u_page_unmap fd0 t) in
          if r1 < 0 then Some (r1, None, s1)
          else
            (case fd_alloc s1 of
               (r, None) \<Rightarrow> Some (r, None, err1 s1)
             | (_, Some fd1) \<Rightarrow>
                 let (r2, s2) = u_page_alloc fd1 PIPE_PERM s1 in
                 if r2 < 0 then Some (r2, None, err1 s2)
                 else pipe_buffer fd0 fd1 s2))"

text \<open>\<open>_pipeisclosed\<close>: each round is given by the two readings of \<open>env_runs\<close> and the memory at the
  two calls of \<open>pageref\<close> between them; a round with different readings is repeated.\<close>

primrec pipeisclosed_loop :: "nat \<Rightarrow> nat \<Rightarrow> (u32 \<times> 'a umem_scheme \<times> 'a umem_scheme \<times> u32) list \<Rightarrow> bool option" where
  "pipeisclosed_loop fd p [] = None"
| "pipeisclosed_loop fd p (round # rounds) =
     (case round of (n, s, s', nn) \<Rightarrow>
        if n = nn then Some (pageref fd s = pageref p s') else pipeisclosed_loop fd p rounds)"

definition pipeisclosed :: "int \<Rightarrow> (u32 \<times> 'a umem_scheme \<times> 'a umem_scheme \<times> u32) list \<Rightarrow> 'a umem_scheme \<Rightarrow> int option" where
  "pipeisclosed fdnum rounds s =
     (case fd_lookup fdnum s of
        (r, None) \<Rightarrow> Some r
      | (_, Some fd) \<Rightarrow> map_option of_bool (pipeisclosed_loop fd (fd2data fd) rounds))"

definition devpipe_close :: "nat \<Rightarrow> 'a umem_scheme \<Rightarrow> (int \<times> 'a umem_scheme) option" where
  "devpipe_close fd s = Some (0, u_page_unmap (fd2data fd) (u_page_unmap fd s))"

text \<open>The pipe device; the transfer operations, which work on the shared buffer (theory of pipes), are
  arguments.\<close>

definition devpipe :: "(nat \<Rightarrow> nat \<Rightarrow> 'a umem_scheme \<Rightarrow> (int \<times> u8 list \<times> 'a umem_scheme) option) \<Rightarrow>
    (nat \<Rightarrow> u8 list \<Rightarrow> 'a umem_scheme \<Rightarrow> (int \<times> 'a umem_scheme) option) \<Rightarrow>
    (nat \<Rightarrow> fstat_buf \<Rightarrow> 'a umem_scheme \<Rightarrow> (int \<times> fstat_buf \<times> 'a umem_scheme) option) \<Rightarrow> 'a umem_scheme dev" where
  "devpipe rd wr st = \<lparr>dev_id = DEV_PIPE, dev_read = Some rd, dev_write = Some wr, dev_close = Some devpipe_close,
     dev_stat = Some st, dev_trunc = None\<rparr>"

section \<open>Descriptor addresses\<close>

lemma INDEX2FD_eq: "i < MAXFD \<Longrightarrow> INDEX2FD (int i) = FDTABLE + PGSIZE * i"
  by (simp add: INDEX2FD_def nat_mod_distrib nat_add_distrib)

lemma fd2num_INDEX: "i < MAXFD \<Longrightarrow> fd2num (INDEX2FD (int i)) = i"
  by (simp add: fd2num_def INDEX2FD_eq)

lemma fd2data_INDEX: "i < MAXFD \<Longrightarrow> fd2data (INDEX2FD (int i)) = FILEDATA + PGSIZE * i"
  by (simp add: fd2data_def fd2num_INDEX)

lemma vpn_fd:
  assumes "i < MAXFD"
  shows "vpn (INDEX2FD (int i)) = 0xD0000 + i" "k < PGSIZE \<Longrightarrow> vpn (INDEX2FD (int i) + k) = 0xD0000 + i"
    "k < PGSIZE \<Longrightarrow> (INDEX2FD (int i) + k) mod PGSIZE = k" "vpn (fd2data (INDEX2FD (int i))) = 0xD0020 + i"
proof -
  have a: "INDEX2FD (int i) + k = (0xD0000 + i) * PGSIZE + k" for k using assms by (simp add: INDEX2FD_eq)
  show v: "vpn (INDEX2FD (int i) + k) = 0xD0000 + i" if "k < PGSIZE" for k
    using that unfolding vpn_def a by (simp only: div_mult_self3 div_less add_0_right zero_neq_numeral not_False_eq_True)
  show "vpn (INDEX2FD (int i)) = 0xD0000 + i" using v [of 0] by simp
  show "(INDEX2FD (int i) + k) mod PGSIZE = k" if "k < PGSIZE"
    using that unfolding a by (simp only: mod_mult_self3 mod_less)
  have "FILEDATA + PGSIZE * i = (0xD0020 + i) * PGSIZE" by simp
  then show "vpn (fd2data (INDEX2FD (int i))) = 0xD0020 + i"
    using assms by (simp only: vpn_def fd2data_INDEX nonzero_mult_div_cancel_right zero_neq_numeral not_False_eq_True)
qed

lemma fd_alloc_cases:
  obtains (full) "fd_alloc s = (- E_MAX_OPEN, None)" "\<forall>i < MAXFD. mapped_at (INDEX2FD (int i)) s"
  | (found) i where "fd_alloc s = (0, Some (INDEX2FD (int i)))" "i < MAXFD" "\<not> mapped_at (INDEX2FD (int i)) s"
      "\<forall>j < i. mapped_at (INDEX2FD (int j)) s"
proof (cases "find (\<lambda>i. \<not> mapped_at (INDEX2FD (int i)) s) [0..<MAXFD]")
  case None
  then have "\<forall>i < MAXFD. mapped_at (INDEX2FD (int i)) s" by (auto simp: find_None_iff simp del: upt_rec_numeral)
  with None full show thesis by (simp add: fd_alloc_def del: upt_rec_numeral)
next
  case (Some i)
  then obtain k where k: "k < MAXFD" "\<not> mapped_at (INDEX2FD (int i)) s" "i = k"
    "\<forall>j < k. mapped_at (INDEX2FD (int j)) s"
    unfolding find_Some_iff by (auto simp del: upt_rec_numeral)
  with Some found show thesis by (simp add: fd_alloc_def del: upt_rec_numeral)
qed

section \<open>Page calls that can be undone\<close>

text \<open>The effect of mapping the first free frame at an unmapped page.\<close>

definition alloc_at :: "nat \<Rightarrow> u32 \<Rightarrow> 'a umem_scheme \<Rightarrow> 'a umem_scheme" where
  "alloc_at n perm s = s\<lparr>ufree := tl (ufree s), upt := (upt s)(n := Some \<lparr>pg_frame = hd (ufree s), pg_perm = perm\<rparr>),
     uref := (uref s)(hd (ufree s) := 1)\<rparr>"

definition frames_ok :: "'a umem_scheme \<Rightarrow> bool" where
  "frames_ok s \<longleftrightarrow> distinct (ufree s) \<and> (\<forall>f \<in> set (ufree s). uref s f = 0)"

lemma u_page_alloc_cases:
  assumes "upt s (vpn va) = None" "frames_ok s"
  obtains (fail) r k where "u_page_alloc va perm s = (r, s\<lparr>krets := k\<rparr>)" "r < 0"
  | (ok) k where "u_page_alloc va perm s = (0, alloc_at (vpn va) perm (s\<lparr>krets := k\<rparr>))" "ufree s \<noteq> []"
proof -
  obtain r k where k: "kret s = (r, s\<lparr>krets := k\<rparr>)" by (rule kret_cases)
  show thesis
  proof (cases "r < 0 \<or> ufree s = []")
    case True
    with k fail [where k = k] show thesis by (cases "r < 0") (auto simp: u_page_alloc_def)
  next
    case False
    then obtain f fs where f: "ufree s = f # fs" by (cases "ufree s") auto
    have "uref s f = 0" using assms(2) f by (simp add: frames_ok_def)
    with k f False assms(1) ok [where k = k] show thesis
      by (auto simp: u_page_alloc_def alloc_at_def map_vpn_def unmap_vpn_def Let_def)
  qed
qed

lemma frames_ok_alloc: "frames_ok s \<Longrightarrow> ufree s \<noteq> [] \<Longrightarrow> frames_ok (alloc_at n perm s)"
  by (cases "ufree s") (auto simp: frames_ok_def alloc_at_def)

lemma frames_ok_krets [simp]: "frames_ok (s\<lparr>krets := k\<rparr>) = frames_ok s"
  by (simp add: frames_ok_def)

lemma unmap_alloc_at:
  assumes "upt s n = None" "frames_ok s" "ufree s \<noteq> []"
  shows "unmap_vpn n ((alloc_at n perm s)\<lparr>krets := k\<rparr>) = s\<lparr>krets := k\<rparr>"
  using assms by (cases "ufree s") (auto simp: unmap_vpn_def alloc_at_def frames_ok_def Let_def fun_upd_idem)

lemma alloc_at_simps:
  "upt (alloc_at n perm s) m = (if m = n then Some \<lparr>pg_frame = hd (ufree s), pg_perm = perm\<rparr> else upt s m)"
  "uframe (alloc_at n perm s) = uframe s" "ufree (alloc_at n perm s) = tl (ufree s)"
  "(alloc_at n perm s)\<lparr>krets := k\<rparr> = alloc_at n perm (s\<lparr>krets := k\<rparr>)"
  by (simp_all add: alloc_at_def)

section \<open>Creating a pipe\<close>

text \<open>Descriptors that are not in use have no data page.\<close>

definition fds_ok :: "'a umem_scheme \<Rightarrow> bool" where
  "fds_ok s \<longleftrightarrow> (\<forall>i < MAXFD. \<not> mapped_at (INDEX2FD (int i)) s \<longrightarrow> \<not> mapped_at (fd2data (INDEX2FD (int i))) s)"

text \<open>The memory after a pipe was created with descriptors \<open>i\<close> and \<open>j\<close>.\<close>

definition pipe_made :: "'a umem_scheme \<Rightarrow> nat \<Rightarrow> nat \<Rightarrow> 'a umem_scheme \<Rightarrow> bool" where
  "pipe_made s i j s' \<longleftrightarrow> i < MAXFD \<and> j < MAXFD \<and> i \<noteq> j \<and>
     \<not> mapped_at (INDEX2FD (int i)) s \<and> \<not> mapped_at (INDEX2FD (int j)) s \<and>
     (\<exists>f0 f1 fp. distinct [f0, f1, fp] \<and> ufree s = f0 # f1 # fp # ufree s' \<and>
        upt s' = (upt s)(0xD0000 + i := Some \<lparr>pg_frame = f0, pg_perm = PIPE_PERM\<rparr>,
          0xD0000 + j := Some \<lparr>pg_frame = f1, pg_perm = PIPE_PERM\<rparr>,
          0xD0020 + i := Some \<lparr>pg_frame = fp, pg_perm = PIPE_PERM\<rparr>,
          0xD0020 + j := Some \<lparr>pg_frame = fp, pg_perm = PIPE_PERM\<rparr>) \<and>
        uref s' = (uref s)(f0 := 1, f1 := 1, fp := 2) \<and>
        uframe s' = (uframe s)(f0 := wr32 (wr32 (uframe s f0) 0 DEV_PIPE) 8 O_RDONLY,
          f1 := wr32 (wr32 (uframe s f1) 0 DEV_PIPE) 8 O_WRONLY))"

lemma ust32_at:
  assumes "upt s (vpn va) = Some p" "pg_perm p AND UPTE_W \<noteq> 0"
  shows "ust32 va w s = Some (s\<lparr>uframe := (uframe s)(pg_frame p := wr32 (uframe s (pg_frame p)) (va mod PGSIZE) w)\<rparr>)"
  using assms by (simp add: ust32_def)

lemma not_mapped: "\<not> mapped_at va s \<longleftrightarrow> upt s (vpn va) = None"
  by (simp add: mapped_at_def)

lemma u_page_map_cases:
  assumes "upt s (vpn src) = Some p" "pg_perm p AND UPTE_W \<noteq> 0" "upt s (vpn dst) = None"
  obtains (fail) r k where "u_page_map src dst perm s = (r, s\<lparr>krets := k\<rparr>)" "r < 0"
  | (ok) k where "u_page_map src dst perm s = (0, s\<lparr>krets := k,
      upt := (upt s)(vpn dst := Some \<lparr>pg_frame = pg_frame p, pg_perm = perm\<rparr>),
      uref := (uref s)(pg_frame p := uref s (pg_frame p) + 1)\<rparr>)"
proof -
  obtain r k where k: "kret s = (r, s\<lparr>krets := k\<rparr>)" by (rule kret_cases)
  show thesis
  proof (cases "r < 0")
    case True
    with k fail [where k = k] show thesis by (auto simp: u_page_map_def)
  next
    case False
    with k assms ok [where k = k] show thesis
      by (auto simp: u_page_map_def map_vpn_def unmap_vpn_def Let_def)
  qed
qed

lemma unmap_alloc:
  assumes "upt s n = None" "frames_ok s" "ufree s \<noteq> []"
  shows "unmap_vpn n (alloc_at n perm s) = s"
  using unmap_alloc_at [OF assms, where perm = perm and k = "krets s"] by (simp add: alloc_at_simps(4))

definition pipe_pages :: "nat \<Rightarrow> nat \<Rightarrow> 'a umem_scheme \<Rightarrow> 'a umem_scheme" where
  "pipe_pages i j s = alloc_at (0xD0020 + i) PIPE_PERM (alloc_at (0xD0000 + j) PIPE_PERM (alloc_at (0xD0000 + i) PIPE_PERM s))"

lemma pipe_perm_writable: "PIPE_PERM AND UPTE_W \<noteq> 0"
  by simp

lemma mkpipe_finish:
  assumes ij: "i < MAXFD" "j < MAXFD" "i \<noteq> j" "\<not> mapped_at (INDEX2FD (int i)) s" "\<not> mapped_at (INDEX2FD (int j)) s"
    and f: "ufree s = f0 # f1 # fp # fs" "frames_ok s"
    and t: "t = (pipe_pages i j s)\<lparr>krets := k,
      upt := (upt (pipe_pages i j s))(0xD0020 + j := Some \<lparr>pg_frame = fp, pg_perm = PIPE_PERM\<rparr>),
      uref := (uref (pipe_pages i j s))(fp := uref (pipe_pages i j s) fp + 1)\<rparr>"
  shows "\<exists>s'. do { s5 \<leftarrow> ust32 (INDEX2FD (int i)) DEV_PIPE t;
                 s6 \<leftarrow> ust32 (INDEX2FD (int i) + 8) O_RDONLY s5;
                 s7 \<leftarrow> ust32 (INDEX2FD (int j)) DEV_PIPE s6;
                 s8 \<leftarrow> ust32 (INDEX2FD (int j) + 8) O_WRONLY s7;
                 Some s8 } = Some s' \<and> pipe_made s i j s'"
proof -
  have d: "f0 \<noteq> f1" "f0 \<noteq> fp" "f1 \<noteq> fp" "uref s fp = 0" using f by (auto simp: frames_ok_def)
  have ui: "upt t (0xD0000 + i) = Some \<lparr>pg_frame = f0, pg_perm = PIPE_PERM\<rparr>"
    and uj: "upt t (0xD0000 + j) = Some \<lparr>pg_frame = f1, pg_perm = PIPE_PERM\<rparr>"
    using ij f by (simp_all add: t pipe_pages_def alloc_at_simps)
  have z: "INDEX2FD (int i) mod PGSIZE = 0" if "i < MAXFD" for i using vpn_fd(3) [OF that, of 0] by simp
  have u: "upt t = (upt s)(0xD0000 + i := Some \<lparr>pg_frame = f0, pg_perm = PIPE_PERM\<rparr>,
          0xD0000 + j := Some \<lparr>pg_frame = f1, pg_perm = PIPE_PERM\<rparr>,
          0xD0020 + i := Some \<lparr>pg_frame = fp, pg_perm = PIPE_PERM\<rparr>,
          0xD0020 + j := Some \<lparr>pg_frame = fp, pg_perm = PIPE_PERM\<rparr>)"
    "uref t = (uref s)(f0 := 1, f1 := 1, fp := 2)" "uframe t = uframe s" "ufree t = fs"
    using f d by (simp_all add: t pipe_pages_def alloc_at_def fun_eq_iff)
  let ?s' = "t\<lparr>uframe := (uframe s)(f0 := wr32 (wr32 (uframe s f0) 0 DEV_PIPE) 8 O_RDONLY,
          f1 := wr32 (wr32 (uframe s f1) 0 DEV_PIPE) 8 O_WRONLY)\<rparr>"
  have "pipe_made s i j ?s'"
    unfolding pipe_made_def using ij d f(1)
    by (intro conjI exI [of _ f0] exI [of _ f1] exI [of _ fp]) (simp_all add: u)
  moreover have "do { s5 \<leftarrow> ust32 (INDEX2FD (int i)) DEV_PIPE t;
                 s6 \<leftarrow> ust32 (INDEX2FD (int i) + 8) O_RDONLY s5;
                 s7 \<leftarrow> ust32 (INDEX2FD (int j)) DEV_PIPE s6;
                 s8 \<leftarrow> ust32 (INDEX2FD (int j) + 8) O_WRONLY s7;
                 Some s8 } = Some ?s'"
    using ij ui uj d by (simp add: ust32_def vpn_fd z u(3) fun_upd_twist)
  ultimately show ?thesis by blast
qed

lemma bind_result:
  "do { x1 \<leftarrow> a; x2 \<leftarrow> b x1; x3 \<leftarrow> c x2; x4 \<leftarrow> d x3; Some x4 } = Some y \<Longrightarrow>
   do { x1 \<leftarrow> a; x2 \<leftarrow> b x1; x3 \<leftarrow> c x2; x4 \<leftarrow> d x3; Some (e, e', x4) } = Some (e, e', y)"
  by (auto simp: bind_eq_Some_conv)

lemma pipe_made_krets [simp]: "pipe_made (s\<lparr>krets := k\<rparr>) i j s' = pipe_made s i j s'"
  by (simp add: pipe_made_def mapped_at_def)

text \<open>The memory with the two descriptor pages allocated.\<close>

abbreviation fd_pages :: "nat \<Rightarrow> nat \<Rightarrow> 'a umem_scheme \<Rightarrow> 'a umem_scheme" where
  "fd_pages i j s \<equiv> alloc_at (0xD0000 + j) PIPE_PERM (alloc_at (0xD0000 + i) PIPE_PERM s)"

definition pipe_ready :: "nat \<Rightarrow> nat \<Rightarrow> 'a umem_scheme \<Rightarrow> bool" where
  "pipe_ready i j s \<longleftrightarrow> fds_ok s \<and> frames_ok s \<and> i < MAXFD \<and> j < MAXFD \<and> i \<noteq> j \<and>
     \<not> mapped_at (INDEX2FD (int i)) s \<and> \<not> mapped_at (INDEX2FD (int j)) s \<and> 2 \<le> length (ufree s)"

lemma pipe_readyD:
  assumes "pipe_ready i j s"
  shows "i < MAXFD" "j < MAXFD" "i \<noteq> j" "upt s (0xD0000 + i) = None" "upt s (0xD0000 + j) = None"
    "upt s (0xD0020 + i) = None" "upt s (0xD0020 + j) = None" "frames_ok s" "ufree s \<noteq> []" "tl (ufree s) \<noteq> []"
  using assms by (auto simp: pipe_ready_def fds_ok_def mapped_at_def vpn_fd)
    (cases "ufree s"; auto)+

lemma pipe_ready_krets [simp]: "pipe_ready i j (s\<lparr>krets := k\<rparr>) = pipe_ready i j s"
  by (simp add: pipe_ready_def fds_ok_def mapped_at_def)

lemma undo_fds:
  assumes "pipe_ready i j s"
  shows "u_page_unmap (INDEX2FD (int i)) (u_page_unmap (INDEX2FD (int j)) (fd_pages i j s)) = s"
  using pipe_readyD [OF assms]
  by (simp add: u_page_unmap_def vpn_fd unmap_alloc alloc_at_simps frames_ok_alloc)

lemma frames_ok_fd_pages: "pipe_ready i j s \<Longrightarrow> frames_ok (fd_pages i j s)"
  using pipe_readyD [of i j s] by (simp add: frames_ok_alloc alloc_at_simps)

lemma krets_fd_pages: "(fd_pages i j s)\<lparr>krets := k\<rparr> = fd_pages i j (s\<lparr>krets := k\<rparr>)"
  by (simp add: alloc_at_simps(4))

lemma undo_buffer:
  assumes "pipe_ready i j s" "ufree (fd_pages i j s) \<noteq> []"
  shows "u_page_unmap (fd2data (INDEX2FD (int i))) (pipe_pages i j s) = fd_pages i j s"
  using pipe_readyD [OF assms(1)] assms(2) frames_ok_fd_pages [OF assms(1)]
  by (simp add: u_page_unmap_def vpn_fd unmap_alloc alloc_at_simps pipe_pages_def)

lemma pipe_buffer_spec:
  fixes s :: "'a umem_scheme"
  assumes "pipe_ready i j s"
  obtains (failed) r k where
      "pipe_buffer (INDEX2FD (int i)) (INDEX2FD (int j)) (fd_pages i j s) = Some (r, None, s\<lparr>krets := k\<rparr>)" "r < 0"
  | (made) s' where "pipe_buffer (INDEX2FD (int i)) (INDEX2FD (int j)) (fd_pages i j s) = Some (0, Some (i, j), s')"
      "pipe_made s i j s'"
proof -
  note i = pipe_readyD [OF assms]
  let ?fd0 = "INDEX2FD (int i)" and ?fd1 = "INDEX2FD (int j)"
  have un: "upt (fd_pages i j s) (vpn (fd2data ?fd0)) = None"
    using i by (simp add: vpn_fd alloc_at_simps)
  have undo: "u_page_unmap ?fd0 (u_page_unmap ?fd1 (fd_pages i j (s\<lparr>krets := k\<rparr>))) = s\<lparr>krets := k\<rparr>" for k
    using undo_fds [of i j "s\<lparr>krets := k\<rparr>"] assms by simp
  show thesis
  proof (cases rule: u_page_alloc_cases [OF un frames_ok_fd_pages [OF assms], where perm = PIPE_PERM])
    case (1 r k)
    then show thesis using failed [of r k] undo by (simp add: pipe_buffer_def alloc_at_simps(4))
  next
    case (2 k)
    then obtain f0 f1 fp fs where f: "ufree s = f0 # f1 # fp # fs"
      using i by (cases "ufree s"; cases "tl (ufree s)"; cases "tl (tl (ufree s))") (auto simp: alloc_at_simps)
    let ?t = "s\<lparr>krets := k\<rparr>"
    have s3: "u_page_alloc (fd2data ?fd0) PIPE_PERM (fd_pages i j s) = (0, pipe_pages i j ?t)"
      using 2 i by (simp add: pipe_pages_def vpn_fd alloc_at_simps(4))
    have src: "upt (pipe_pages i j ?t) (vpn (fd2data ?fd0)) = Some \<lparr>pg_frame = fp, pg_perm = PIPE_PERM\<rparr>"
      and dst: "upt (pipe_pages i j ?t) (vpn (fd2data ?fd1)) = None"
      using i f by (simp_all add: pipe_pages_def vpn_fd alloc_at_simps)
    have w: "pg_perm \<lparr>pg_frame = fp, pg_perm = PIPE_PERM\<rparr> AND UPTE_W \<noteq> 0" by simp
    show thesis
    proof (cases rule: u_page_map_cases [OF src w dst, where perm = PIPE_PERM])
      case (1 r k')
      have p: "(pipe_pages i j ?t)\<lparr>krets := k'\<rparr> = pipe_pages i j (s\<lparr>krets := k'\<rparr>)"
        by (simp add: pipe_pages_def alloc_at_simps(4))
      have "u_page_unmap (fd2data ?fd0) (pipe_pages i j (s\<lparr>krets := k'\<rparr>)) = fd_pages i j (s\<lparr>krets := k'\<rparr>)"
        by (rule undo_buffer) (use assms f in \<open>simp_all add: alloc_at_simps\<close>)
      then show thesis using 1 s3 failed [of r k'] undo by (simp add: pipe_buffer_def p)
    next
      case (2 k')
      define t where "t = snd (u_page_map (fd2data ?fd0) (fd2data ?fd1) PIPE_PERM (pipe_pages i j ?t))"
      have s4: "u_page_map (fd2data ?fd0) (fd2data ?fd1) PIPE_PERM (pipe_pages i j ?t) = (0, t)"
        using 2 by (simp add: t_def)
      from mkpipe_finish [of i j ?t f0 f1 fp fs t k'] obtain s' where w:
        "do { s5 \<leftarrow> ust32 ?fd0 DEV_PIPE t; s6 \<leftarrow> ust32 (?fd0 + 8) O_RDONLY s5;
              s7 \<leftarrow> ust32 ?fd1 DEV_PIPE s6; s8 \<leftarrow> ust32 (?fd1 + 8) O_WRONLY s7; Some s8 } = Some s'"
        and m: "pipe_made s i j s'"
        using i f 2 by (auto simp: t_def mapped_at_def vpn_fd)
      show thesis using made [OF _ m] s3 s4 bind_result [OF w, of 0 "Some (i, j)"] i
        by (simp add: pipe_buffer_def fd2num_INDEX)
    qed
  qed
qed

lemma mkpipe_spec:
  fixes s :: "'a umem_scheme"
  assumes "fds_ok s" "frames_ok s"
  obtains (failed) r k where "mkpipe s = Some (r, None, s\<lparr>krets := k\<rparr>)" "r < 0"
  | (made) i j s' where "mkpipe s = Some (0, Some (i, j), s')" "pipe_made s i j s'"
proof (cases s rule: fd_alloc_cases)
  case full
  then show thesis using failed [of "- E_MAX_OPEN" "krets s"] by (simp add: mkpipe_def)
next
  case (found i)
  note i = found
  from i have ui: "upt s (vpn (INDEX2FD (int i))) = None" by (simp add: mapped_at_def)
  show thesis
  proof (cases rule: u_page_alloc_cases [OF ui assms(2), where perm = PIPE_PERM])
    case (1 r k)
    then show thesis using i failed [of r k] by (simp add: mkpipe_def)
  next
    case (2 k1)
    note p = 2
    let ?s1 = "alloc_at (0xD0000 + i) PIPE_PERM (s\<lparr>krets := k1\<rparr>)"
    have p1: "u_page_alloc (INDEX2FD (int i)) PIPE_PERM s = (0, ?s1)" using 2 i by (simp add: vpn_fd)
    have undo1: "u_page_unmap (INDEX2FD (int i)) (alloc_at (0xD0000 + i) PIPE_PERM (s\<lparr>krets := k\<rparr>)) = s\<lparr>krets := k\<rparr>" for k
      using i ui 2 assms(2) unfolding u_page_unmap_def by (simp add: vpn_fd unmap_alloc)
    have f1: "frames_ok ?s1" using 2 assms(2) by (simp add: frames_ok_alloc)
    show thesis
    proof (cases ?s1 rule: fd_alloc_cases)
      case full
      then show thesis using i p1 undo1 failed [of "- E_MAX_OPEN" k1] by (simp add: mkpipe_def)
    next
      case (found j)
      note j = found
      have uj: "upt ?s1 (vpn (INDEX2FD (int j))) = None" using j by (simp add: mapped_at_def)
      show thesis
      proof (cases rule: u_page_alloc_cases [OF uj f1, where perm = PIPE_PERM])
        case (1 r k)
        then show thesis using i p1 undo1 j failed [of r k] by (simp add: mkpipe_def alloc_at_simps(4))
      next
        case (2 k2)
        let ?t = "s\<lparr>krets := k2\<rparr>"
        have "pipe_ready i j s"
          using assms i j uj p 2 by (cases "ufree s")
            (auto simp: pipe_ready_def mapped_at_def vpn_fd alloc_at_simps Suc_le_eq split: if_splits)
        then have "pipe_ready i j ?t" by simp
        then have "thesis" if "mkpipe s = pipe_buffer (INDEX2FD (int i)) (INDEX2FD (int j)) (fd_pages i j ?t)"
          using that by (cases rule: pipe_buffer_spec) (auto intro: failed made)
        then show thesis using i p1 j 2 by (simp add: mkpipe_def vpn_fd alloc_at_simps(4))
      qed
    qed
  qed
qed

lemma fd_lookup_open:
  assumes "i < MAXFD" "mapped_at (INDEX2FD (int i)) s"
  shows "fd_lookup (int i) s = (0, Some (INDEX2FD (int i)))"
  using assms by (simp add: fd_lookup_def)

lemma fd_close_at:
  assumes "i < MAXFD" "upt s (0xD0000 + i) = Some p"
    and "dev_lookup devtab (rd32 (uframe s (pg_frame p)) 0) = (0, Some dev)" "dev_close dev = Some f"
    and "f (INDEX2FD (int i)) s = Some (r, s1)"
  shows "close devtab (int i) s = Some (r, u_page_unmap (INDEX2FD (int i)) s1)"
proof -
  have m: "mapped_at (INDEX2FD (int i)) s" using assms by (simp add: mapped_at_def vpn_fd)
  have n: "sint (word_of_nat (fd2num (INDEX2FD (int i))) :: u32) = int i"
    using assms(1) by (simp add: fd2num_INDEX signed_of_nat signed_take_bit_int_eq_self)
  have "INDEX2FD (int i) mod PGSIZE = 0" using vpn_fd(3) [OF assms(1), of 0] by simp
  then have u: "uld32 (INDEX2FD (int i)) s = Some (rd32 (uframe s (pg_frame p)) 0)"
    using assms by (simp add: uld32_def vpn_fd)
  show ?thesis using assms m by (simp add: close_def fd_close_def fd_lookup_open n u)
qed

lemma close_pipe:
  assumes "i < MAXFD" "upt s (0xD0000 + i) = Some p" "rd32 (uframe s (pg_frame p)) 0 = DEV_PIPE"
    and "dev_lookup devtab DEV_PIPE = (0, Some (devpipe rd wr st))"
  shows "close devtab (int i) s = Some (0, unmap_vpn (0xD0020 + i) (unmap_vpn (0xD0000 + i) s))"
proof -
  have "close devtab (int i) s = Some (0, u_page_unmap (INDEX2FD (int i))
      (u_page_unmap (fd2data (INDEX2FD (int i))) (u_page_unmap (INDEX2FD (int i)) s)))"
    by (rule fd_close_at [OF assms(1,2), where dev = "devpipe rd wr st" and f = devpipe_close]) (use assms in \<open>simp_all add: devpipe_def devpipe_close_def\<close>)
  moreover have "unmap_vpn (0xD0000 + i) (unmap_vpn n (unmap_vpn (0xD0000 + i) s)) = unmap_vpn n (unmap_vpn (0xD0000 + i) s)" for n
    by (simp add: unmap_vpn_def [of "0xD0000 + i" "unmap_vpn _ _"] unmap_vpn_frame)
  ultimately show ?thesis using assms(1) by (simp add: u_page_unmap_def vpn_fd)
qed

lemma rd32_dev: "rd32 (wr32 (wr32 f 0 a) 8 b) 0 = a"
  by (simp add: rd32_wr32_other rd32_wr32_same)

lemma pipe_madeE:
  assumes "pipe_made s i j s'" "fds_ok s" "frames_ok s"
  obtains f0 f1 fp where "i < MAXFD" "j < MAXFD" "i \<noteq> j" "f0 \<noteq> f1" "f0 \<noteq> fp" "f1 \<noteq> fp"
    "ufree s = f0 # f1 # fp # ufree s'" "uref s f0 = 0" "uref s f1 = 0" "uref s fp = 0"
    "upt s (0xD0000 + i) = None" "upt s (0xD0000 + j) = None" "upt s (0xD0020 + i) = None" "upt s (0xD0020 + j) = None"
    "upt s' = (upt s)(0xD0000 + i := Some \<lparr>pg_frame = f0, pg_perm = PIPE_PERM\<rparr>,
          0xD0000 + j := Some \<lparr>pg_frame = f1, pg_perm = PIPE_PERM\<rparr>,
          0xD0020 + i := Some \<lparr>pg_frame = fp, pg_perm = PIPE_PERM\<rparr>,
          0xD0020 + j := Some \<lparr>pg_frame = fp, pg_perm = PIPE_PERM\<rparr>)"
    "uref s' = (uref s)(f0 := 1, f1 := 1, fp := 2)"
    "rd32 (uframe s' f0) 0 = DEV_PIPE" "rd32 (uframe s' f1) 0 = DEV_PIPE"
    "rd32 (uframe s' f0) 8 = O_RDONLY" "rd32 (uframe s' f1) 8 = O_WRONLY"
proof -
  from assms(1) obtain f0 f1 fp where f: "distinct [f0, f1, fp]" "ufree s = f0 # f1 # fp # ufree s'"
    "upt s' = (upt s)(0xD0000 + i := Some \<lparr>pg_frame = f0, pg_perm = PIPE_PERM\<rparr>,
          0xD0000 + j := Some \<lparr>pg_frame = f1, pg_perm = PIPE_PERM\<rparr>,
          0xD0020 + i := Some \<lparr>pg_frame = fp, pg_perm = PIPE_PERM\<rparr>,
          0xD0020 + j := Some \<lparr>pg_frame = fp, pg_perm = PIPE_PERM\<rparr>)"
    "uref s' = (uref s)(f0 := 1, f1 := 1, fp := 2)"
    "uframe s' = (uframe s)(f0 := wr32 (wr32 (uframe s f0) 0 DEV_PIPE) 8 O_RDONLY,
          f1 := wr32 (wr32 (uframe s f1) 0 DEV_PIPE) 8 O_WRONLY)"
    unfolding pipe_made_def by blast
  have ij: "i < MAXFD" "j < MAXFD" "i \<noteq> j" "upt s (0xD0000 + i) = None" "upt s (0xD0000 + j) = None"
    using assms(1) by (auto simp: pipe_made_def mapped_at_def vpn_fd)
  then have u: "upt s (0xD0020 + i) = None" "upt s (0xD0020 + j) = None"
    using assms(2) by (auto simp: fds_ok_def mapped_at_def vpn_fd)
  have r: "uref s f0 = 0" "uref s f1 = 0" "uref s fp = 0" using assms(3) f(2) by (simp_all add: frames_ok_def)
  show thesis by (rule that [OF ij(1-3) _ _ _ f(2) r ij(4,5) u f(3,4)]) (use f in \<open>simp_all add: rd32_dev f(5)\<close>)
qed

lemma pipe_other_end:
  assumes "pipe_made s i j s'" "fds_ok s" "frames_ok s" "dev_lookup devtab DEV_PIPE = (0, Some (devpipe rd wr st))"
  obtains s1 s2 where
    "pageref (INDEX2FD (int i)) s' \<noteq> pageref (fd2data (INDEX2FD (int i))) s'"
    "pageref (INDEX2FD (int j)) s' \<noteq> pageref (fd2data (INDEX2FD (int j))) s'"
    "close devtab (int j) s' = Some (0, s1)" "mapped_at (INDEX2FD (int i)) s1"
    "pageref (INDEX2FD (int i)) s1 = pageref (fd2data (INDEX2FD (int i))) s1"
    "close devtab (int i) s1 = Some (0, s2)" "upt s2 = upt s" "uref s2 = uref s" "mset (ufree s2) = mset (ufree s)"
proof -
  from assms(1-3) obtain f0 f1 fp where f: "i < MAXFD" "j < MAXFD" "i \<noteq> j" "f0 \<noteq> f1" "f0 \<noteq> fp" "f1 \<noteq> fp"
    and s: "ufree s = f0 # f1 # fp # ufree s'" "uref s f0 = 0" "uref s f1 = 0" "uref s fp = 0"
    "upt s (0xD0000 + i) = None" "upt s (0xD0000 + j) = None" "upt s (0xD0020 + i) = None" "upt s (0xD0020 + j) = None"
    and u: "upt s' = (upt s)(0xD0000 + i := Some \<lparr>pg_frame = f0, pg_perm = PIPE_PERM\<rparr>,
          0xD0000 + j := Some \<lparr>pg_frame = f1, pg_perm = PIPE_PERM\<rparr>,
          0xD0020 + i := Some \<lparr>pg_frame = fp, pg_perm = PIPE_PERM\<rparr>,
          0xD0020 + j := Some \<lparr>pg_frame = fp, pg_perm = PIPE_PERM\<rparr>)"
    and r: "uref s' = (uref s)(f0 := 1, f1 := 1, fp := 2)"
    and d: "rd32 (uframe s' f0) 0 = DEV_PIPE" "rd32 (uframe s' f1) 0 = DEV_PIPE"
    by (rule pipe_madeE) blast
  note v = vpn_fd [OF f(1)] vpn_fd [OF f(2)]
  define s1 where "s1 = unmap_vpn (0xD0020 + j) (unmap_vpn (0xD0000 + j) s')"
  define s2 where "s2 = unmap_vpn (0xD0020 + i) (unmap_vpn (0xD0000 + i) s1)"
  have s1: "upt s1 = (upt s)(0xD0000 + i := Some \<lparr>pg_frame = f0, pg_perm = PIPE_PERM\<rparr>,
          0xD0020 + i := Some \<lparr>pg_frame = fp, pg_perm = PIPE_PERM\<rparr>)"
    "uref s1 = (uref s)(f0 := 1, fp := 1)" "ufree s1 = f1 # ufree s'" "uframe s1 = uframe s'"
    using f s by (auto simp: s1_def unmap_vpn_def Let_def u r fun_eq_iff)
  have s2: "upt s2 = upt s" "uref s2 = uref s" "ufree s2 = fp # f0 # f1 # ufree s'"
    using f s by (auto simp: s2_def unmap_vpn_def Let_def s1 fun_eq_iff)
  have "close devtab (int j) s' = Some (0, s1)" unfolding s1_def
    by (rule close_pipe [OF f(2) _ _ assms(4), where p = "\<lparr>pg_frame = f1, pg_perm = PIPE_PERM\<rparr>"]) (use f d in \<open>simp_all add: u\<close>)
  moreover have "close devtab (int i) s1 = Some (0, s2)" unfolding s2_def
    by (rule close_pipe [OF f(1) _ _ assms(4), where p = "\<lparr>pg_frame = f0, pg_perm = PIPE_PERM\<rparr>"]) (use f d in \<open>simp_all add: s1\<close>)
  ultimately show thesis
    using f s by (intro that [of s1 s2]) (simp_all add: pageref_def mapped_at_def v u r s1 s2)
qed

section \<open>Sharing a descriptor\<close>

text \<open>A store through one of two mappings of a frame is read through the other.\<close>

lemma ust32_shared:
  assumes "upt s (vpn a) = Some p" "upt s (vpn b) = Some q" "pg_frame p = pg_frame q" "a mod PGSIZE = b mod PGSIZE"
    and "ust32 a w s = Some s'"
  shows "uld32 b s' = Some w"
  using assms by (auto simp: ust32_def uld32_def split: if_splits)

lemma map_vpn_other: "m \<noteq> n \<Longrightarrow> upt (map_vpn n f perm s) m = upt s m"
  by (simp add: map_vpn_frame)

lemma u_page_map_spec:
  assumes "u_page_map src dst perm s = (r, s')" "0 \<le> r"
  shows "\<exists>p. upt s (vpn src) = Some p \<and> upt s' = (upt s)(vpn dst := Some \<lparr>pg_frame = pg_frame p, pg_perm = perm\<rparr>) \<and>
    uframe s' = uframe s"
proof -
  obtain r' k where k: "kret s = (r', s\<lparr>krets := k\<rparr>)" by (rule kret_cases)
  show ?thesis using assms k
    by (auto simp: u_page_map_def map_vpn_frame split: if_splits option.splits)
qed

lemma dup_shares:
  assumes "dup devtab (int i) (int j) s = Some (r, s')" "0 \<le> r" "i < MAXFD" "j < MAXFD" "i \<noteq> j"
    and "mapped_at (INDEX2FD (int i)) s"
  shows "\<exists>p q. r = int j \<and> upt s' (0xD0000 + i) = Some p \<and> upt s' (0xD0000 + j) = Some q \<and> pg_frame p = pg_frame q"
proof -
  let ?o = "INDEX2FD (int i)" and ?n = "INDEX2FD (int j)"
  note v = vpn_fd [OF assms(3)] vpn_fd [OF assms(4)]
  from assms(1) obtain q1 s1 where c: "close devtab (int j) s = Some (q1, s1)"
    by (auto simp: dup_def fd_lookup_open assms bind_eq_Some_conv)
  define x where "x = (if mapped_at (fd2data ?o) s1 then u_page_map (fd2data ?o) (fd2data ?n) (perm_at (fd2data ?o) s1 AND UPTE_SYSCALL) s1 else (0, s1))"
  obtain r1 s2 where x: "x = (r1, s2)" by force
  obtain r2 s3 where y: "u_page_map ?o ?n (perm_at ?o s2 AND UPTE_SYSCALL) s2 = (r2, s3)" by force
  have "(if r1 < 0 then Some (r1, u_page_unmap (fd2data ?n) (u_page_unmap ?n s2))
      else if r2 < 0 then Some (r2, u_page_unmap (fd2data ?n) (u_page_unmap ?n s3)) else Some (int j, s3)) = Some (r, s')"
    using assms(1) c x y unfolding x_def by (simp add: dup_def fd_lookup_open assms Let_def split: prod.splits if_splits)
  with assms(2) have rs: "0 \<le> r2" "r = int j" "s' = s3" by (auto split: if_splits)
  from u_page_map_spec [OF y rs(1)] obtain p where
    p: "upt s2 (0xD0000 + i) = Some p"
    "upt s3 = (upt s2)(0xD0000 + j := Some \<lparr>pg_frame = pg_frame p, pg_perm = perm_at ?o s2 AND UPTE_SYSCALL\<rparr>)"
    using v by auto
  with rs assms(5) show ?thesis by auto
qed

lemma seek_spec:
  assumes "seek (int i) off s = Some (0, s')" "i < MAXFD" "upt s (0xD0000 + i) = Some p"
    and "j < MAXFD" "upt s (0xD0000 + j) = Some q" "pg_frame p = pg_frame q"
  shows "uld32 (INDEX2FD (int j) + 4) s' = Some off"
proof -
  note v = vpn_fd [OF assms(2)] vpn_fd [OF assms(4)]
  have "mapped_at (INDEX2FD (int i)) s" using assms by (simp add: mapped_at_def v)
  then have "ust32 (INDEX2FD (int i) + 4) off s = Some s'"
    using assms(1,2) by (auto simp: seek_def fd_lookup_open bind_eq_Some_conv)
  from ust32_shared [OF _ _ assms(6) _ this] assms v show ?thesis by simp
qed

section \<open>Properties\<close>

text \<open>Memory without descriptors and with four free frames, and with descriptor 2 open.\<close>

definition blank_umem :: umem where
  "blank_umem = \<lparr>upt = (\<lambda>_. None), uframe = (\<lambda>_ _. 0), uref = (\<lambda>_. 0), ufree = [3, 4, 5, 6], krets = []\<rparr>"

definition open_umem :: umem where
  "open_umem = blank_umem\<lparr>upt := (\<lambda>_. None)(0xD0002 := Some \<lparr>pg_frame = 9, pg_perm = 0x407\<rparr>), uref := (\<lambda>_. 0)(9 := 1)\<rparr>"

lemmas umem_eval = INDEX2FD_def fd2num_def fd2data_def mapped_at_def vpn_def kret_def u_page_map_def map_vpn_def
  unmap_vpn_def ust32_def Let_def

lemma blank_umem_ok: "fds_ok blank_umem" "frames_ok blank_umem"
  by (simp_all add: fds_ok_def frames_ok_def blank_umem_def mapped_at_def)

lemma fds_upt: "[0..<MAXFD] = 0 # 1 # [2..<MAXFD]"
  by (simp add: upt_conv_Cons)

lemma fd_alloc_first: "upt s 0xD0000 = None \<Longrightarrow> fd_alloc s = (0, Some 0xD0000000)"
  "upt s 0xD0000 \<noteq> None \<Longrightarrow> upt s 0xD0001 = None \<Longrightarrow> fd_alloc s = (0, Some 0xD0001000)"
  by (simp_all add: fd_alloc_def mapped_at_def INDEX2FD_def vpn_def fds_upt del: upt_rec_numeral)

lemma mkpipe_blank: "map_option (\<lambda>(r, p, _). (r, p)) (mkpipe blank_umem) = Some (0, Some (0, 1))"
proof -
  define s1 where "s1 = alloc_at 0xD0000 PIPE_PERM blank_umem"
  define s2 where "s2 = alloc_at 0xD0001 PIPE_PERM s1"
  define s3 where "s3 = alloc_at 0xD0020 PIPE_PERM s2"
  note d = blank_umem_def alloc_at_def u_page_alloc_def vpn_def map_vpn_def unmap_vpn_def kret_def
  have "u_page_alloc 0xD0000000 PIPE_PERM blank_umem = (0, s1)" by (simp add: s1_def d)
  moreover have "u_page_alloc 0xD0001000 PIPE_PERM s1 = (0, s2)" by (simp add: s1_def s2_def d)
  moreover have "u_page_alloc 0xD0020000 PIPE_PERM s2 = (0, s3)" by (simp add: s1_def s2_def s3_def d)
  moreover have "fd_alloc blank_umem = (0, Some 0xD0000000)" "fd_alloc s1 = (0, Some 0xD0001000)"
    by (rule fd_alloc_first; simp add: s1_def d)+
  moreover have "\<exists>s4. u_page_map 0xD0020000 0xD0021000 PIPE_PERM s3 = (0, s4) \<and> (\<forall>a. upt s4 a = ((upt s3)(0xD0021 \<mapsto> \<lparr>pg_frame = 5, pg_perm = PIPE_PERM\<rparr>)) a)"
    by (simp add: u_page_map_def s1_def s2_def s3_def d)
  ultimately show ?thesis
    by (auto simp: mkpipe_def pipe_buffer_def fd2data_def fd2num_def ust32_def vpn_def alloc_at_simps s1_def s2_def s3_def)
qed

text \<open>Creating a pipe either fails and leaves the memory of the environment as it was, whichever
  system call failed, or opens two new descriptors whose data pages are one shared buffer.\<close>

theorem pipe_all_or_nothing:
  fixes s :: "'a umem_scheme"
  assumes "fds_ok s" "frames_ok s"
  shows "(\<exists>r k. mkpipe s = Some (r, None, s\<lparr>krets := k\<rparr>) \<and> r < 0) \<or>
    (\<exists>i j s'. mkpipe s = Some (0, Some (i, j), s') \<and> pipe_made s i j s')"
  using assms by (cases rule: mkpipe_spec) blast+

theorem pipe_all_or_nothing_witness:
  "fds_ok blank_umem \<and> frames_ok blank_umem \<and> (\<exists>i j s'. mkpipe blank_umem = Some (0, Some (i, j), s') \<and> pipe_made blank_umem i j s')"
  using pipe_all_or_nothing [OF blank_umem_ok] blank_umem_ok mkpipe_blank by auto

text \<open>A reader of a new pipe sees it closed exactly when the writing descriptor was closed, and
  closing both descriptors returns all three frames.\<close>

theorem pipe_closed_by_other_end:
  fixes s :: "'a umem_scheme"
  assumes "fds_ok s" "frames_ok s" "mkpipe s = Some (0, Some (i, j), s')"
    and "dev_lookup devtab DEV_PIPE = (0, Some (devpipe rd wr st))"
  shows "pipeisclosed (int i) [(n, s', s', n)] s' = Some 0 \<and>
    (\<exists>s1 s2. close devtab (int j) s' = Some (0, s1) \<and> pipeisclosed (int i) [(n, s1, s1, n)] s1 = Some 1 \<and>
       close devtab (int i) s1 = Some (0, s2) \<and> upt s2 = upt s \<and> uref s2 = uref s \<and>
       mset (ufree s2) = mset (ufree s))"
proof -
  from assms have m: "pipe_made s i j s'" by (cases rule: mkpipe_spec) auto
  then have "i < MAXFD" "mapped_at (INDEX2FD (int i)) s'" by (auto simp: pipe_made_def mapped_at_def vpn_fd)
  moreover from m assms(1,2,4) obtain s1 s2 where
    "pageref (INDEX2FD (int i)) s' \<noteq> pageref (fd2data (INDEX2FD (int i))) s'"
    "close devtab (int j) s' = Some (0, s1)" "mapped_at (INDEX2FD (int i)) s1"
    "pageref (INDEX2FD (int i)) s1 = pageref (fd2data (INDEX2FD (int i))) s1"
    "close devtab (int i) s1 = Some (0, s2)" "upt s2 = upt s" "uref s2 = uref s" "mset (ufree s2) = mset (ufree s)"
    by (rule pipe_other_end)
  ultimately show ?thesis by (intro conjI exI [of _ s1] exI [of _ s2]) (simp_all add: pipeisclosed_def fd_lookup_open)
qed

theorem pipe_closed_by_other_end_witness:
  "\<exists>s' s1. mkpipe blank_umem = Some (0, Some (0, 1), s') \<and> pipeisclosed 0 [(7, s', s', 7)] s' = Some 0 \<and>
     close [devpipe (\<lambda>_ _ s. Some (0, [], s)) (\<lambda>_ _ s. Some (0, s)) (\<lambda>_ st s. Some (0, st, s))] 1 s' = Some (0, s1) \<and>
     pipeisclosed 0 [(7, s1, s1, 7)] s1 = Some 1"
proof -
  let ?dev = "devpipe (\<lambda>_ _ s. Some (0, [], s)) (\<lambda>_ _ s. Some (0, s)) (\<lambda>_ st s. Some (0, st, s))"
  from mkpipe_blank obtain s' where m: "mkpipe blank_umem = Some (0, Some (0, 1), s')" by auto
  have "dev_lookup [?dev] DEV_PIPE = (0, Some ?dev)" by (simp add: dev_lookup_def devpipe_def)
  from pipe_closed_by_other_end [OF blank_umem_ok m this, of 7] m show ?thesis by auto
qed

text \<open>A duplicate shares the descriptor, so a seek on it moves the offset of the original.\<close>

theorem dup_shares_offset:
  assumes "dup devtab (int i) (int j) s = Some (r, s1)" "0 \<le> r" "i < MAXFD" "j < MAXFD" "i \<noteq> j"
    and "mapped_at (INDEX2FD (int i)) s" "seek (int j) off s1 = Some (0, s2)"
  shows "r = int j \<and> uld32 (INDEX2FD (int i) + 4) s2 = Some off"
  using dup_shares [OF assms(1-6)] seek_spec [OF assms(7,4) _ assms(3)] by metis

theorem dup_shares_offset_witness:
  "\<exists>s1 s2. dup [] 2 5 open_umem = Some (5, s1) \<and> seek 5 77 s1 = Some (0, s2) \<and> uld32 (INDEX2FD 2 + 4) s2 = Some 77"
proof -
  have "map_option fst (dup [] 2 5 open_umem) = Some 5"
    and "map_option fst (Option.bind (dup [] 2 5 open_umem) (\<lambda>(r, s1). seek 5 77 s1)) = Some 0"
    and m: "mapped_at (INDEX2FD 2) open_umem"
    by (simp_all add: umem_eval open_umem_def blank_umem_def dup_def close_def fd_lookup_def seek_def perm_at_def)
  then obtain s1 s2 where "dup [] 2 5 open_umem = Some (5, s1)" "seek 5 77 s1 = Some (0, s2)" by auto
  with dup_shares_offset [of "[]" 2 5 open_umem 5 s1 77 s2] m show ?thesis by auto
qed

end
