(* ===== verification/Fs_Bcache.thy ===== *)
theory Fs_Bcache
  imports JOS_Prelude
begin

text \<open>
  The block cache of the file server, \<^verbatim>\<open>fs/bc.c\<close>: disk blocks appear in memory at
  \<open>DISKMAP + n * BLKSIZE\<close>, are loaded by the page-fault handler \<open>bc_pgfault\<close> on first access
  and written back by \<open>flush_block\<close>.  Also the accesses to the super block and the free bitmap
  that the cache and \<^verbatim>\<open>fs/fs.c\<close> share.

  State: which blocks are mapped, the hardware dirty bit of their page, the cached pages, the
  disk, whether the global pointers \<open>super\<close> and \<open>bitmap\<close> are set, the number of pages the
  kernel can still give, and the blocks whose transfer fails.  A panic is \<open>None\<close>.
\<close>

abbreviation BLKSIZE :: nat where "BLKSIZE \<equiv> 4096"
abbreviation BLKBITSIZE :: nat where "BLKBITSIZE \<equiv> 32768"
abbreviation DISKMAP :: nat where "DISKMAP \<equiv> 0x10000000"
abbreviation DISKSIZE :: nat where "DISKSIZE \<equiv> 0xC0000000"
abbreviation super_at :: nat where "super_at \<equiv> DISKMAP + BLKSIZE"
abbreviation bitmap_at :: nat where "bitmap_at \<equiv> DISKMAP + 2 * BLKSIZE"
abbreviation FS_MAGIC :: u32 where "FS_MAGIC \<equiv> 0x4A0530AE"

section \<open>Super block and bitmap\<close>

definition s_magic :: "cmem \<Rightarrow> u32" where "s_magic m = rd32 m super_at"
definition s_nblocks :: "cmem \<Rightarrow> u32" where "s_nblocks m = rd32 m (super_at + 4)"

definition bitmap_word :: "nat \<Rightarrow> nat" where
  "bitmap_word blockno = bitmap_at + 4 * (blockno div 32)"

definition block_is_free :: "cmem \<Rightarrow> nat \<Rightarrow> bool" where
  "block_is_free m blockno \<longleftrightarrow>
     \<not> blockno \<ge> unat (s_nblocks m) \<and>
     rd32 m (bitmap_word blockno) AND push_bit (blockno mod 32) 1 \<noteq> 0"

section \<open>The cache\<close>

record bcache =
  mapped :: "nat \<Rightarrow> bool"
  dirty :: "nat \<Rightarrow> bool"
  cpage :: "nat \<Rightarrow> nat \<Rightarrow> u8"
  disk :: "nat \<Rightarrow> nat \<Rightarrow> u8"
  super_set :: bool
  bitmap_set :: bool
  pages_left :: nat
  ide_err :: "nat \<Rightarrow> bool"

definition blockno_of :: "nat \<Rightarrow> nat" where
  "blockno_of va = (va - DISKMAP) div BLKSIZE"

text \<open>What the file server sees at an address of the disk map: the cached page, or what the fault
  handler will load.\<close>

definition bc_view :: "bcache \<Rightarrow> cmem" where
  "bc_view s va =
     (if va < DISKMAP then 0
      else (if mapped s (blockno_of va) then cpage s else disk s) (blockno_of va) ((va - DISKMAP) mod BLKSIZE))"

definition diskaddr :: "bool \<Rightarrow> cmem \<Rightarrow> nat \<Rightarrow> nat option" where
  "diskaddr super m blockno =
     (if blockno = 0 \<or> (super \<and> blockno \<ge> unat (s_nblocks m)) then None
      else Some (DISKMAP + blockno * BLKSIZE))"

definition va_is_mapped :: "nat \<Rightarrow> bcache \<Rightarrow> bool" where
  "va_is_mapped va s = mapped s (blockno_of va)"

definition va_is_dirty :: "nat \<Rightarrow> bcache \<Rightarrow> bool" where
  "va_is_dirty va s = dirty s (blockno_of va)"

text \<open>Loading a block: a fresh page, the sectors of the block, and a remapping that clears the
  dirty bit the transfer has set.\<close>

definition bc_pgfault :: "nat \<Rightarrow> bcache \<Rightarrow> bcache option" where
  "bc_pgfault va s =
     (let b = blockno_of va in
      if va < DISKMAP \<or> va \<ge> DISKMAP + DISKSIZE then None
      else if super_set s \<and> b \<ge> unat (s_nblocks (bc_view s)) then None
      else if pages_left s = 0 then None
      else
        let s1 = s\<lparr>mapped := (mapped s)(b := True), cpage := (cpage s)(b := (\<lambda>_. 0)),
                   pages_left := pages_left s - 1\<rparr>
        in if ide_err s1 b then None
           else
             let s2 = s1\<lparr>cpage := (cpage s1)(b := disk s1 b), dirty := (dirty s1)(b := True)\<rparr>;
                 s3 = s2\<lparr>dirty := (dirty s2)(b := False)\<rparr>
             in if bitmap_set s3 \<and> block_is_free (bc_view s3) b then None else Some s3)"

text \<open>The handler as merged in the tree with the network code: before the page is allocated, the
  faulting address is remapped onto itself, which fails for a page that is not mapped.\<close>

definition bc_pgfault_net :: "nat \<Rightarrow> bcache \<Rightarrow> bcache option" where
  "bc_pgfault_net va s =
     (let b = blockno_of va in
      if va < DISKMAP \<or> va \<ge> DISKMAP + DISKSIZE then None
      else if super_set s \<and> b \<ge> unat (s_nblocks (bc_view s)) then None
      else if \<not> va_is_mapped va s then None
      else if bitmap_set s \<and> block_is_free (bc_view s) b then None
      else bc_pgfault va s)"

definition flush_block :: "nat \<Rightarrow> bcache \<Rightarrow> bcache option" where
  "flush_block va s =
     (let b = blockno_of va in
      if va < DISKMAP \<or> va \<ge> DISKMAP + DISKSIZE then None
      else if \<not> va_is_mapped va s \<or> \<not> va_is_dirty va s then Some s
      else if ide_err s b then None
      else Some (s\<lparr>disk := (disk s)(b := cpage s b), dirty := (dirty s)(b := False)\<rparr>))"

text \<open>A load or store by the file server: the fault handler runs first if the block is missing.\<close>

definition bc_access :: "nat \<Rightarrow> bcache \<Rightarrow> bcache option" where
  "bc_access va s = (if va_is_mapped va s then Some s else bc_pgfault va s)"

definition bc_read :: "nat \<Rightarrow> bcache \<Rightarrow> (u8 \<times> bcache) option" where
  "bc_read va s = do {
     s1 \<leftarrow> bc_access va s;
     Some (cpage s1 (blockno_of va) ((va - DISKMAP) mod BLKSIZE), s1) }"

definition bc_write :: "nat \<Rightarrow> u8 \<Rightarrow> bcache \<Rightarrow> bcache option" where
  "bc_write va c s = do {
     s1 \<leftarrow> bc_access va s;
     let b = blockno_of va;
     Some (s1\<lparr>cpage := (cpage s1)(b := (cpage s1 b)((va - DISKMAP) mod BLKSIZE := c)),
              dirty := (dirty s1)(b := True)\<rparr>) }"

section \<open>The cache presents one memory\<close>

text \<open>A clean cached block agrees with the disk.\<close>

definition bc_inv :: "bcache \<Rightarrow> bool" where
  "bc_inv s \<longleftrightarrow> (\<forall>b. mapped s b \<longrightarrow> \<not> dirty s b \<longrightarrow> cpage s b = disk s b)"

datatype mem_op = Load nat | Store nat u8

text \<open>A sequence of loads and stores on a store with the given read and write operations, and on
  a plain memory; the result lists the loaded bytes.\<close>

fun run_mem ::
  "(nat \<Rightarrow> 's \<Rightarrow> (u8 \<times> 's) option) \<Rightarrow> (nat \<Rightarrow> u8 \<Rightarrow> 's \<Rightarrow> 's option) \<Rightarrow> mem_op list \<Rightarrow> 's \<Rightarrow> (u8 list \<times> 's) option" where
  "run_mem rd wr [] s = Some ([], s)"
| "run_mem rd wr (Load a # ops) s = do {
     (c, s1) \<leftarrow> rd a s;
     (cs, s2) \<leftarrow> run_mem rd wr ops s1;
     Some (c # cs, s2) }"
| "run_mem rd wr (Store a c # ops) s = do { s1 \<leftarrow> wr a c s; run_mem rd wr ops s1 }"

fun run_plain :: "mem_op list \<Rightarrow> cmem \<Rightarrow> u8 list \<times> cmem" where
  "run_plain [] m = ([], m)"
| "run_plain (Load a # ops) m = (let (cs, m') = run_plain ops m in (m a # cs, m'))"
| "run_plain (Store a c # ops) m = run_plain ops (m(a := c))"

text \<open>The contract of a store that hides where the bytes are kept.\<close>

locale transparent_store =
  fixes inv :: "'s \<Rightarrow> bool"
    and view :: "'s \<Rightarrow> cmem"
    and rd :: "nat \<Rightarrow> 's \<Rightarrow> (u8 \<times> 's) option"
    and wr :: "nat \<Rightarrow> u8 \<Rightarrow> 's \<Rightarrow> 's option"
  assumes rd_view: "inv s \<Longrightarrow> rd a s = Some (c, s') \<Longrightarrow> inv s' \<and> c = view s a \<and> view s' = view s"
    and wr_view: "inv s \<Longrightarrow> wr a c s = Some s' \<Longrightarrow> inv s' \<and> view s' = (view s)(a := c)"
begin

lemma run_mem_plain:
  "inv s \<Longrightarrow> run_mem rd wr ops s = Some (cs, s') \<Longrightarrow>
   inv s' \<and> run_plain ops (view s) = (cs, view s')"
proof (induction ops arbitrary: s cs)
  case Nil
  then show ?case by simp
next
  case (Cons op ops)
  show ?case
  proof (cases op)
    case (Load a)
    then obtain c s1 cs' where 1: "rd a s = Some (c, s1)" "run_mem rd wr ops s1 = Some (cs', s')" "cs = c # cs'"
      using Cons.prems(2) by (auto split: bind_splits)
    have v: "inv s1" "c = view s a" "view s1 = view s" using rd_view [OF Cons.prems(1) 1(1)] by auto
    from Cons.IH [OF v(1) 1(2)] v 1(3) Load show ?thesis by simp
  next
    case (Store a c)
    then obtain s1 where 1: "wr a c s = Some s1" "run_mem rd wr ops s1 = Some (cs, s')"
      using Cons.prems(2) by (auto split: bind_splits)
    have v: "inv s1" "view s1 = (view s)(a := c)" using wr_view [OF Cons.prems(1) 1(1)] by auto
    from Cons.IH [OF v(1) 1(2)] v Store show ?thesis by (simp only: run_plain.simps)
  qed
qed

end

lemma blockno_split: "DISKMAP \<le> a \<Longrightarrow> DISKMAP \<le> b \<Longrightarrow>
   a = b \<longleftrightarrow> blockno_of a = blockno_of b \<and> (a - DISKMAP) mod BLKSIZE = (b - DISKMAP) mod BLKSIZE"
  unfolding blockno_of_def by (metis div_mult_mod_eq le_add_diff_inverse)

lemma bc_pgfault_some:
  assumes "bc_pgfault va s = Some s'" "bc_inv s" "\<not> mapped s (blockno_of va)"
  shows "bc_inv s' \<and> bc_view s' = bc_view s \<and> mapped s' = (mapped s)(blockno_of va := True) \<and>
    disk s' = disk s \<and> DISKMAP \<le> va \<and> cpage s' (blockno_of va) = disk s (blockno_of va)"
proof -
  let ?b = "blockno_of va"
  have s': "s' = s\<lparr>mapped := (mapped s)(?b := True), cpage := (cpage s)(?b := disk s ?b),
      pages_left := pages_left s - 1, dirty := (dirty s)(?b := False)\<rparr>" and va: "DISKMAP \<le> va"
    using assms(1) by (auto simp: bc_pgfault_def Let_def split: if_splits)
  show ?thesis using assms(2,3) va unfolding s' by (auto simp: bc_inv_def bc_view_def fun_eq_iff)
qed

lemma bc_access_some:
  assumes "bc_access va s = Some s'" "bc_inv s" "DISKMAP \<le> va"
  shows "bc_inv s' \<and> bc_view s' = bc_view s \<and> mapped s' (blockno_of va) \<and> disk s' = disk s"
  using assms bc_pgfault_some [of va s s']
  by (auto simp: bc_access_def va_is_mapped_def split: if_splits)

lemma bc_access_range: "bc_access va s = Some s' \<Longrightarrow> bc_inv s \<Longrightarrow> DISKMAP \<le> va \<or> mapped s 0"
proof -
  assume a: "bc_access va s = Some s'" "bc_inv s"
  show ?thesis
  proof (cases "mapped s (blockno_of va)")
    case True
    then show ?thesis by (cases "DISKMAP \<le> va") (auto simp: blockno_of_def)
  next
    case False
    then show ?thesis using a bc_pgfault_some [of va s s'] by (simp add: bc_access_def va_is_mapped_def)
  qed
qed

interpretation bcache_store: transparent_store bc_inv bc_view
  "\<lambda>a s. if a < DISKMAP then None else bc_read a s" "\<lambda>a c s. if a < DISKMAP then None else bc_write a c s"
proof (unfold_locales, goal_cases)
  case (1 s a c s')
  then have a: "DISKMAP \<le> a" "bc_access a s = Some s'"
    "c = cpage s' (blockno_of a) ((a - DISKMAP) mod BLKSIZE)"
    by (auto simp: bc_read_def split: if_splits bind_splits)
  note acc = bc_access_some [OF a(2) 1(1) a(1)]
  have "bc_view s' a = c" using conjunct1 [OF conjunct2 [OF conjunct2 [OF acc]]] a(1,3)
    by (simp add: bc_view_def)
  with acc show ?case by simp
next
  case (2 s a c s')
  then obtain s1 where a: "DISKMAP \<le> a" "bc_access a s = Some s1" and
    s': "s' = s1\<lparr>cpage := (cpage s1)(blockno_of a := (cpage s1 (blockno_of a))((a - DISKMAP) mod BLKSIZE := c)),
              dirty := (dirty s1)(blockno_of a := True)\<rparr>"
    by (auto simp: bc_write_def Let_def split: if_splits bind_splits)
  note acc = bc_access_some [OF a(2) 2(1) a(1)]
  have "bc_view s' x = ((bc_view s1)(a := c)) x" for x
    using conjunct1 [OF conjunct2 [OF conjunct2 [OF acc]]] a(1) blockno_split [of x a]
    by (auto simp: bc_view_def s')
  with acc show ?case by (auto simp: bc_inv_def s' fun_eq_iff)
qed

text \<open>Flushing changes the disk and not the view.\<close>

lemma flush_block_spec:
  assumes "flush_block va s = Some s'" "bc_inv s"
  shows "bc_inv s' \<and> bc_view s' = bc_view s \<and>
    (\<forall>b. b \<noteq> blockno_of va \<longrightarrow> disk s' b = disk s b) \<and>
    (mapped s (blockno_of va) \<longrightarrow> disk s' (blockno_of va) = cpage s (blockno_of va)) \<and>
    (\<not> mapped s (blockno_of va) \<longrightarrow> s' = s) \<and> mapped s' = mapped s \<and> \<not> (mapped s' (blockno_of va) \<and> dirty s' (blockno_of va))"
  using assms
  by (auto simp: flush_block_def Let_def va_is_mapped_def va_is_dirty_def bc_inv_def bc_view_def fun_eq_iff
      split: if_splits)

section \<open>Properties\<close>

text \<open>A cold cache: no block is loaded, and the disk has sixteen blocks.\<close>

definition cold_cache :: bcache where
  "cold_cache = \<lparr>mapped = (\<lambda>_. False), dirty = (\<lambda>_. False), cpage = (\<lambda>_ _. 0),
     disk = (\<lambda>b i. if b = 1 \<and> i = 4 then 16 else of_nat b), super_set = False, bitmap_set = False,
     pages_left = 10, ide_err = (\<lambda>_. False)\<rparr>"

text \<open>C30: the block cache is transparent: any sequence of loads and stores through it, with the fault
  handler loading blocks on the way, returns the bytes and leaves the contents that the same sequence
  has on a plain memory holding the disk's contents.\<close>

theorem block_cache_transparent:
  assumes "bc_inv s"
    and "run_mem (\<lambda>a s. if a < DISKMAP then None else bc_read a s)
      (\<lambda>a c s. if a < DISKMAP then None else bc_write a c s) ops s = Some (cs, s')"
  shows "bc_inv s' \<and> run_plain ops (bc_view s) = (cs, bc_view s')"
  by (rule bcache_store.run_mem_plain [OF assms])

theorem block_cache_transparent_witness:
  "\<exists>cs s'. run_mem (\<lambda>a s. if a < DISKMAP then None else bc_read a s)
      (\<lambda>a c s. if a < DISKMAP then None else bc_write a c s)
      [Store 0x10005001 7, Load 0x10005001, Load 0x10005002] cold_cache = Some (cs, s') \<and>
    run_plain [Store 0x10005001 7, Load 0x10005001, Load 0x10005002] (bc_view cold_cache) = (cs, bc_view s')"
proof -
  have i: "bc_inv cold_cache" by (simp add: bc_inv_def cold_cache_def)
  obtain cs s' where r: "run_mem (\<lambda>a s. if a < DISKMAP then None else bc_read a s)
      (\<lambda>a c s. if a < DISKMAP then None else bc_write a c s)
      [Store 0x10005001 7, Load 0x10005001, Load 0x10005002] cold_cache = Some (cs, s')"
    by (simp add: bc_read_def bc_write_def bc_access_def va_is_mapped_def bc_pgfault_def blockno_of_def cold_cache_def Let_def)
  from block_cache_transparent [OF i r] r show ?thesis by blast
qed

text \<open>\<open>flush_block\<close> makes the disk agree with the cached block and leaves it clean, changes no other
  block of the disk and nothing that the file server can see.\<close>

theorem flush_block_writes_back:
  assumes "flush_block va s = Some s'" "bc_inv s" "mapped s (blockno_of va)"
  shows "disk s' (blockno_of va) = cpage s (blockno_of va) \<and> \<not> dirty s' (blockno_of va) \<and>
    (\<forall>b. b \<noteq> blockno_of va \<longrightarrow> disk s' b = disk s b) \<and> bc_view s' = bc_view s \<and> bc_inv s'"
  using flush_block_spec [OF assms(1,2)] assms(3) by auto

theorem flush_block_writes_back_witness:
  "\<exists>s'. flush_block 0x10005123 (cold_cache\<lparr>mapped := (\<lambda>b. b = 5), dirty := (\<lambda>b. b = 5)\<rparr>) = Some s' \<and>
     disk s' 5 = (\<lambda>_. 0) \<and> disk s' 6 = (\<lambda>_. 6)"
proof -
  let ?s = "cold_cache\<lparr>mapped := (\<lambda>b. b = 5), dirty := (\<lambda>b. b = 5)\<rparr>"
  have b: "blockno_of 0x10005123 = 5" by (simp add: blockno_of_def)
  have i: "bc_inv ?s" by (simp add: bc_inv_def)
  obtain s' where f: "flush_block 0x10005123 ?s = Some s'"
    by (simp add: flush_block_def va_is_mapped_def va_is_dirty_def b Let_def cold_cache_def)
  from flush_block_writes_back [OF f i] f show ?thesis by (auto simp: b cold_cache_def)
qed

text \<open>The fault handler of the tree with the network code panics on every fault for a block that is
  not yet loaded, which is every fault it is meant for; the handler of the other tree succeeds on
  such a fault inside the disk.\<close>

theorem merged_pgfault_always_panics:
  assumes "\<not> mapped s (blockno_of va)"
  shows "bc_pgfault_net va s = None"
  using assms by (simp add: bc_pgfault_net_def va_is_mapped_def Let_def)

theorem merged_pgfault_always_panics_witness:
  "bc_pgfault_net 0x10005000 cold_cache = None \<and> bc_pgfault 0x10005000 cold_cache \<noteq> None"
proof -
  have "\<not> mapped cold_cache (blockno_of 0x10005000)" by (simp add: cold_cache_def)
  from merged_pgfault_always_panics [OF this] show ?thesis
    by (simp add: bc_pgfault_def blockno_of_def cold_cache_def Let_def)
qed

end
