(* ===== verification/Fs_File.thy ===== *)
theory Fs_File
  imports Fs_Bcache "HOL-Library.Signed_Division"
begin

text \<open>
  The on-disk file system, \<^verbatim>\<open>fs/fs.c\<close>: block allocation, the block pointers of a file,
  directories, path names, and reading, writing, truncating, flushing and removing files.

  The code works on the memory that the block cache presents (theory of the block cache); here
  that memory is \<open>fmem\<close>, and \<open>fdisk\<close> is the disk, addressed the same way, to which
  \<open>flush_block\<close> copies a block.  Pointers are addresses; a \<open>struct File *\<close> is the address of
  the structure in the disk map, with its fields at their offsets.  A path or a file name is the
  list of its bytes without the terminating zero.  An assertion failure or panic is \<open>None\<close>.
\<close>

record fsstate =
  fmem :: cmem
  fdisk :: cmem

abbreviation MAXNAMELEN :: nat where "MAXNAMELEN \<equiv> 128"
abbreviation NDIRECT :: nat where "NDIRECT \<equiv> 10"
abbreviation NINDIRECT :: nat where "NINDIRECT \<equiv> 1024"
abbreviation FILESZ :: nat where "FILESZ \<equiv> 256"
abbreviation BLKFILES :: nat where "BLKFILES \<equiv> 16"
abbreviation FTYPE_REG :: u32 where "FTYPE_REG \<equiv> 0"
abbreviation FTYPE_DIR :: u32 where "FTYPE_DIR \<equiv> 1"

section \<open>struct File\<close>

abbreviation root_at :: nat where "root_at \<equiv> super_at + 8"

definition f_size :: "cmem \<Rightarrow> nat \<Rightarrow> int" where "f_size m f = sint (rd32 m (f + 128))"
definition f_type :: "cmem \<Rightarrow> nat \<Rightarrow> u32" where "f_type m f = rd32 m (f + 132)"
definition f_direct_at :: "nat \<Rightarrow> nat \<Rightarrow> nat" where "f_direct_at f i = f + 136 + 4 * i"
definition f_indirect :: "cmem \<Rightarrow> nat \<Rightarrow> u32" where "f_indirect m f = rd32 m (f + 176)"

definition put32 :: "nat \<Rightarrow> u32 \<Rightarrow> fsstate \<Rightarrow> fsstate" where
  "put32 a w s = s\<lparr>fmem := wr32 (fmem s) a w\<rparr>"

section \<open>Super block and bitmap\<close>

definition check_super :: "fsstate \<Rightarrow> unit option" where
  "check_super s =
     (if s_magic (fmem s) \<noteq> FS_MAGIC then None
      else if unat (s_nblocks (fmem s)) > DISKSIZE div BLKSIZE then None
      else Some ())"

text \<open>\<open>flush_block\<close> of the block that contains the address.\<close>

definition fs_flush :: "nat \<Rightarrow> fsstate \<Rightarrow> fsstate option" where
  "fs_flush va s =
     (if va < DISKMAP \<or> va \<ge> DISKMAP + DISKSIZE then None
      else Some (s\<lparr>fdisk := (\<lambda>a. if DISKMAP \<le> a \<and> blockno_of a = blockno_of va then fmem s a else fdisk s a)\<rparr>))"

definition free_block :: "nat \<Rightarrow> fsstate \<Rightarrow> fsstate option" where
  "free_block blockno s =
     (if blockno = 0 then None
      else Some (put32 (bitmap_word blockno)
             (rd32 (fmem s) (bitmap_word blockno) OR push_bit (blockno mod 32) 1) s))"

text \<open>The search loop of \<open>alloc_block\<close> over the remaining block numbers.\<close>

fun alloc_block_loop :: "nat list \<Rightarrow> fsstate \<Rightarrow> (int \<times> fsstate) option" where
  "alloc_block_loop [] s = Some (- E_NO_DISK, s)"
| "alloc_block_loop (b # bs) s =
     (if block_is_free (fmem s) b then do {
        s1 \<leftarrow> fs_flush bitmap_at
               (put32 (bitmap_word b) (rd32 (fmem s) (bitmap_word b) AND NOT (push_bit (b mod 32) 1)) s);
        Some (int b, s1) }
      else alloc_block_loop bs s)"

definition alloc_block :: "fsstate \<Rightarrow> (int \<times> fsstate) option" where
  "alloc_block s = alloc_block_loop [2..<unat (s_nblocks (fmem s))] s"

definition check_bitmap :: "fsstate \<Rightarrow> unit option" where
  "check_bitmap s =
     (let m = fmem s; n = unat (s_nblocks m) in
      if (\<forall>i \<in> set [0..<(n + BLKBITSIZE - 1) div BLKBITSIZE]. \<not> block_is_free m (2 + i)) \<and>
         \<not> block_is_free m 0 \<and> \<not> block_is_free m 1
      then Some () else None)"

section \<open>Blocks of a file\<close>

text \<open>\<open>*ppdiskbno\<close> is the address of the slot.  The sizes are divided as signed numbers and the
  quotient is converted to an unsigned one.\<close>

definition file_block_walk :: "nat \<Rightarrow> nat \<Rightarrow> bool \<Rightarrow> fsstate \<Rightarrow> (int \<times> nat option \<times> fsstate) option" where
  "file_block_walk f filebno alloc s =
     (let m = fmem s;
          nblock = unat (word_of_int (f_size m f sdiv 4096) :: u32) in
      if filebno \<ge> NDIRECT + NINDIRECT then Some (- E_INVAL, None, s)
      else if filebno > nblock then Some (- E_NOT_FOUND, None, s)
      else if filebno < 10 then Some (0, Some (f_direct_at f filebno), s)
      else if f_indirect m f \<noteq> 0 then do {
        ind \<leftarrow> diskaddr True m (unat (f_indirect m f));
        Some (0, Some (ind + 4 * (filebno - 10)), s) }
      else if alloc then do {
        (freeBlock, s1) \<leftarrow> alloc_block s;
        if freeBlock = - E_NO_DISK then Some (- E_NO_DISK, None, s1)
        else do {
          let s2 = put32 (f + 176) (word_of_int freeBlock) s1;
          ind \<leftarrow> diskaddr True (fmem s2) (nat freeBlock);
          Some (0, Some (ind + 4 * (filebno - 10)), s2) } }
      else Some (- E_NOT_FOUND, None, s))"

definition file_get_block :: "nat \<Rightarrow> nat \<Rightarrow> fsstate \<Rightarrow> (int \<times> nat option \<times> fsstate) option" where
  "file_get_block f filebno s =
     (if filebno \<ge> NDIRECT + NINDIRECT then Some (- E_INVAL, None, s)
      else do {
        (r, slot, s1) \<leftarrow> file_block_walk f filebno True s;
        if r < 0 then Some (- E_NO_DISK, None, s1)
        else do {
          pdiskbno \<leftarrow> slot;
          if rd32 (fmem s1) pdiskbno \<noteq> 0 then do {
            blk \<leftarrow> diskaddr True (fmem s1) (unat (rd32 (fmem s1) pdiskbno));
            Some (0, Some blk, s1) }
          else do {
            (freeBlock, s2) \<leftarrow> alloc_block s1;
            if freeBlock = - E_NO_DISK then Some (- E_NO_DISK, None, s2)
            else do {
              let s3 = put32 pdiskbno (word_of_int freeBlock) s2;
              blk \<leftarrow> diskaddr True (fmem s3) (nat freeBlock);
              Some (0, Some blk, s3) } } } })"

section \<open>Directories and paths\<close>

text \<open>\<open>strcmp(f[j].f_name, name) == 0\<close> for a name without zero bytes: the bytes agree and a zero
  byte follows.\<close>

definition name_is :: "cmem \<Rightarrow> nat \<Rightarrow> u8 list \<Rightarrow> bool" where
  "name_is m p name = cstr m p name"

fun dir_lookup_loop :: "nat list \<Rightarrow> nat \<Rightarrow> u8 list \<Rightarrow> fsstate \<Rightarrow> (int \<times> nat option \<times> fsstate) option" where
  "dir_lookup_loop [] dir name s = Some (- E_NOT_FOUND, None, s)"
| "dir_lookup_loop (i # is) dir name s = do {
     (r, blk, s1) \<leftarrow> file_get_block dir i s;
     if r < 0 then Some (r, None, s1)
     else do {
       b \<leftarrow> blk;
       (case find (\<lambda>j. name_is (fmem s1) (b + FILESZ * j) name) [0..<BLKFILES] of
          Some j \<Rightarrow> Some (0, Some (b + FILESZ * j), s1)
        | None \<Rightarrow> dir_lookup_loop is dir name s1) } }"

definition dir_lookup :: "nat \<Rightarrow> u8 list \<Rightarrow> fsstate \<Rightarrow> (int \<times> nat option \<times> fsstate) option" where
  "dir_lookup dir name s =
     (if f_size (fmem s) dir smod 4096 \<noteq> 0 then None
      else dir_lookup_loop [0..<unat (word_of_int (f_size (fmem s) dir sdiv 4096) :: u32)] dir name s)"

fun dir_alloc_loop :: "nat list \<Rightarrow> nat \<Rightarrow> fsstate \<Rightarrow> ((int \<times> nat option) option \<times> fsstate) option" where
  "dir_alloc_loop [] dir s = Some (None, s)"
| "dir_alloc_loop (i # is) dir s = do {
     (r, blk, s1) \<leftarrow> file_get_block dir i s;
     if r < 0 then Some (Some (r, None), s1)
     else do {
       b \<leftarrow> blk;
       (case find (\<lambda>j. fmem s1 (b + FILESZ * j) = 0) [0..<BLKFILES] of
          Some j \<Rightarrow> Some (Some (0, Some (b + FILESZ * j)), s1)
        | None \<Rightarrow> dir_alloc_loop is dir s1) } }"

definition dir_alloc_file :: "nat \<Rightarrow> fsstate \<Rightarrow> (int \<times> nat option \<times> fsstate) option" where
  "dir_alloc_file dir s =
     (if f_size (fmem s) dir smod 4096 \<noteq> 0 then None
      else do {
        let nblock = unat (word_of_int (f_size (fmem s) dir sdiv 4096) :: u32);
        (res, s1) \<leftarrow> dir_alloc_loop [0..<nblock] dir s;
        (case res of
           Some (r, file) \<Rightarrow> Some (r, file, s1)
         | None \<Rightarrow> do {
             let s2 = put32 (dir + 128) (rd32 (fmem s1) (dir + 128) + 4096) s1;
             (r, blk, s3) \<leftarrow> file_get_block dir nblock s2;
             if r < 0 then Some (r, None, s3)
             else do { b \<leftarrow> blk; Some (0, Some b, s3) } }) })"

definition skip_slash :: "u8 list \<Rightarrow> u8 list" where
  "skip_slash p = dropWhile (\<lambda>c. c = 47) p"

text \<open>The result of \<open>walk_path\<close>: the code, \<open>*pdir\<close>, \<open>*pf\<close>, and the last path element copied to
  \<open>lastelem\<close> when the directory was found but not the file.  \<open>dir\<close> and \<open>f\<close> are the variables of
  the loop.\<close>

record walk_res =
  wr_code :: int
  wr_dir :: "nat option"
  wr_file :: "nat option"
  wr_last :: "u8 list option"

lemma length_skip_slash: "length (skip_slash p) \<le> length p"
  by (simp add: skip_slash_def length_dropWhile_le)

lemma walk_shorter: "path \<noteq> [] \<Longrightarrow> length (skip_slash (dropWhile (\<lambda>c. c \<noteq> 47) path)) < length path"
proof (cases path)
  case (Cons c cs)
  show ?thesis
  proof (cases "c = 47")
    case True
    then show ?thesis using Cons length_skip_slash [of cs] by (simp add: skip_slash_def)
  next
    case False
    have "length (skip_slash (dropWhile (\<lambda>c. c \<noteq> 47) cs)) \<le> length cs"
      by (rule order_trans [OF length_skip_slash length_dropWhile_le])
    then show ?thesis using Cons False by simp
  qed
qed simp

function walk_loop :: "u8 list \<Rightarrow> nat option \<Rightarrow> nat \<Rightarrow> fsstate \<Rightarrow> (walk_res \<times> fsstate) option" where
  "walk_loop path dir f s =
     (if path = [] then Some (\<lparr>wr_code = 0, wr_dir = dir, wr_file = Some f, wr_last = None\<rparr>, s)
      else
        let dir1 = f;
            name = takeWhile (\<lambda>c. c \<noteq> 47) path;
            path1 = skip_slash (dropWhile (\<lambda>c. c \<noteq> 47) path);
            err = (\<lambda>r. \<lparr>wr_code = r, wr_dir = None, wr_file = None, wr_last = None\<rparr>)
        in if length name \<ge> MAXNAMELEN then Some (err (- E_BAD_PATH), s)
           else if f_type (fmem s) dir1 \<noteq> FTYPE_DIR then Some (err (- E_NOT_FOUND), s)
           else do {
             (r, file, s1) \<leftarrow> dir_lookup dir1 name s;
             if r < 0 then
               if r = - E_NOT_FOUND \<and> path1 = []
               then Some (\<lparr>wr_code = r, wr_dir = Some dir1, wr_file = None, wr_last = Some name\<rparr>, s1)
               else Some (err r, s1)
             else do { f1 \<leftarrow> file; walk_loop path1 (Some dir1) f1 s1 } })"
  by pat_completeness auto
termination
  by (relation "measure (\<lambda>(path, _). length path)") (auto intro: walk_shorter)

declare walk_loop.simps [simp del]

definition walk_path :: "u8 list \<Rightarrow> fsstate \<Rightarrow> (walk_res \<times> fsstate) option" where
  "walk_path path s = walk_loop (skip_slash path) None root_at s"

section \<open>File operations\<close>

text \<open>\<open>strcpy\<close> of a name with its terminating zero.\<close>

definition put_name :: "nat \<Rightarrow> u8 list \<Rightarrow> fsstate \<Rightarrow> fsstate" where
  "put_name p name s = s\<lparr>fmem := (\<lambda>a. if p \<le> a \<and> a < p + length name then name ! (a - p)
     else if a = p + length name then 0 else fmem s a)\<rparr>"

fun flush_blocks_loop :: "nat list \<Rightarrow> nat \<Rightarrow> fsstate \<Rightarrow> fsstate option" where
  "flush_blocks_loop [] f s = Some s"
| "flush_blocks_loop (i # is) f s = do {
     (r, slot, s1) \<leftarrow> file_block_walk f i False s;
     (case slot of
        Some p \<Rightarrow>
          if r < 0 \<or> rd32 (fmem s1) p = 0 then flush_blocks_loop is f s1
          else do {
            a \<leftarrow> diskaddr True (fmem s1) (unat (rd32 (fmem s1) p));
            s2 \<leftarrow> fs_flush a s1;
            flush_blocks_loop is f s2 }
      | None \<Rightarrow> flush_blocks_loop is f s1) }"

definition file_flush :: "nat \<Rightarrow> fsstate \<Rightarrow> fsstate option" where
  "file_flush f s = do {
     s1 \<leftarrow> flush_blocks_loop [0..<nat ((f_size (fmem s) f + 4096 - 1) sdiv 4096)] f s;
     s2 \<leftarrow> fs_flush f s1;
     if f_indirect (fmem s2) f \<noteq> 0 then do {
       a \<leftarrow> diskaddr True (fmem s2) (unat (f_indirect (fmem s2) f));
       fs_flush a s2 }
     else Some s2 }"

definition file_create :: "u8 list \<Rightarrow> fsstate \<Rightarrow> (int \<times> nat option \<times> fsstate) option" where
  "file_create path s = do {
     (w, s1) \<leftarrow> walk_path path s;
     if wr_code w = 0 then Some (- E_FILE_EXISTS, None, s1)
     else (case (wr_dir w, wr_last w) of
        (Some dir, Some name) \<Rightarrow>
          if wr_code w \<noteq> - E_NOT_FOUND then Some (wr_code w, None, s1)
          else do {
            (r, file, s2) \<leftarrow> dir_alloc_file dir s1;
            if r < 0 then Some (r, None, s2)
            else do {
              f \<leftarrow> file;
              s3 \<leftarrow> file_flush dir (put_name f name s2);
              Some (0, Some f, s3) } }
      | _ \<Rightarrow> Some (wr_code w, None, s1)) }"

definition file_open :: "u8 list \<Rightarrow> fsstate \<Rightarrow> (int \<times> nat option \<times> fsstate) option" where
  "file_open path s = do { (w, s1) \<leftarrow> walk_path path s; Some (wr_code w, wr_file w, s1) }"

text \<open>The transfer loops, from \<open>pos\<close> to \<open>en\<close>.  The offset is signed, the count is an unsigned
  64-bit number and the comparison of the two is unsigned; quotient and remainder of the position
  are signed, so that the remainder of a negative position is negative.  The bytes read are
  returned as a list; the bytes to write are a function of the distance from the start.\<close>

definition left64 :: "int \<Rightarrow> int \<Rightarrow> int" where
  "left64 pos en = (en - pos) mod 2 ^ 64"

definition chunk :: "int \<Rightarrow> int \<Rightarrow> int" where
  "chunk pos en = min (4096 - pos smod 4096) (left64 pos en)"

definition in_transfer :: "int \<Rightarrow> int \<Rightarrow> bool" where
  "in_transfer pos en \<longleftrightarrow> pos mod 2 ^ 64 < en mod 2 ^ 64"

lemma smod_4096_bound: "pos smod 4096 < (4096 :: int)"
proof -
  have "\<bar>pos\<bar> mod 4096 < (4096 :: int)" by simp
  moreover have "0 \<le> \<bar>pos\<bar> mod (4096 :: int)" by simp
  ultimately show ?thesis by (auto simp: signed_modulo_int_def sgn_if)
qed

lemma left64_range: "0 \<le> left64 pos en" "left64 pos en < 2 ^ 64"
  by (simp_all add: left64_def)

lemma left64_pos: "in_transfer pos en \<Longrightarrow> 0 < left64 pos en"
proof -
  assume t: "in_transfer pos en"
  have "left64 pos en \<noteq> 0"
  proof
    assume "left64 pos en = 0"
    then have "en mod 2 ^ 64 = pos mod 2 ^ 64"
      by (simp only: left64_def mod_eq_dvd_iff dvd_eq_mod_eq_0)
    with t show False by (simp add: in_transfer_def)
  qed
  with left64_range(1) [of pos en] show ?thesis by linarith
qed

lemma chunk_pos: "in_transfer pos en \<Longrightarrow> 0 < chunk pos en"
  using left64_pos [of pos en] smod_4096_bound [of pos] by (simp add: chunk_def)

lemma left64_step: "in_transfer pos en \<Longrightarrow> left64 (pos + chunk pos en) en = left64 pos en - chunk pos en"
proof -
  assume t: "in_transfer pos en"
  have c: "0 < chunk pos en" "chunk pos en \<le> left64 pos en" using chunk_pos [OF t] by (simp_all add: chunk_def)
  have "left64 (pos + chunk pos en) en = (left64 pos en - chunk pos en) mod 2 ^ 64"
    unfolding left64_def [of pos] left64_def [of "pos + _"] by (simp only: mod_diff_left_eq diff_diff_eq)
  also have "\<dots> = left64 pos en - chunk pos en"
    by (rule mod_pos_pos_trivial) (use c left64_range [of pos en] in linarith)+
  finally show ?thesis .
qed

lemma chunk_decreases:
  "in_transfer pos en \<Longrightarrow> nat (left64 (pos + chunk pos en) en) < nat (left64 pos en)"
  using left64_step [of pos en] chunk_pos [of pos en] left64_pos [of pos en] by simp

definition block_index :: "int \<Rightarrow> nat" where
  "block_index pos = unat (word_of_int (pos sdiv 4096) :: u32)"

function file_read_loop :: "nat \<Rightarrow> int \<Rightarrow> int \<Rightarrow> fsstate \<Rightarrow> (int \<times> u8 list \<times> fsstate) option" where
  "file_read_loop f pos en s =
     (if \<not> in_transfer pos en then Some (0, [], s)
      else do {
        (r, blk, s1) \<leftarrow> file_get_block f (block_index pos) s;
        if r < 0 then Some (r, [], s1)
        else do {
          b \<leftarrow> blk;
          let bn = chunk pos en;
          let a = nat (int b + pos smod 4096);
          (r', bs, s2) \<leftarrow> file_read_loop f (pos + bn) en s1;
          Some (r', map (\<lambda>i. fmem s1 (a + i)) [0..<nat bn] @ bs, s2) } })"
  by pat_completeness auto
termination
  by (relation "measure (\<lambda>(f, pos, en, s). nat (left64 pos en))")
    (auto dest: chunk_decreases)

definition file_read :: "nat \<Rightarrow> nat \<Rightarrow> int \<Rightarrow> fsstate \<Rightarrow> (int \<times> u8 list \<times> fsstate) option" where
  "file_read f count offset s =
     (if offset \<ge> f_size (fmem s) f then Some (0, [], s)
      else do {
        let rest = sint (word_of_int (f_size (fmem s) f - offset) :: u32);
        let count' = min (int count) (rest mod 2 ^ 64);
        (r, bs, s1) \<leftarrow> file_read_loop f offset (offset + count') s;
        if r < 0 then Some (r, bs, s1) else Some (sint (word_of_int count' :: u32), bs, s1) })"

definition put_bytes :: "nat \<Rightarrow> nat \<Rightarrow> (nat \<Rightarrow> u8) \<Rightarrow> fsstate \<Rightarrow> fsstate" where
  "put_bytes a n src s = s\<lparr>fmem := (\<lambda>x. if a \<le> x \<and> x < a + n then src (x - a) else fmem s x)\<rparr>"

function file_write_loop :: "nat \<Rightarrow> (nat \<Rightarrow> u8) \<Rightarrow> int \<Rightarrow> int \<Rightarrow> fsstate \<Rightarrow> (int \<times> fsstate) option" where
  "file_write_loop f buf pos en s =
     (if \<not> in_transfer pos en then Some (0, s)
      else do {
        (r, blk, s1) \<leftarrow> file_get_block f (block_index pos) s;
        if r < 0 then Some (r, s1)
        else do {
          b \<leftarrow> blk;
          let bn = chunk pos en;
          file_write_loop f (\<lambda>i. buf (nat bn + i)) (pos + bn) en
            (put_bytes (nat (int b + pos smod 4096)) (nat bn) buf s1) } })"
  by pat_completeness auto
termination
  by (relation "measure (\<lambda>(f, buf, pos, en, s). nat (left64 pos en))")
    (auto dest: chunk_decreases)

declare file_read_loop.simps [simp del] file_write_loop.simps [simp del]

definition file_free_block :: "nat \<Rightarrow> nat \<Rightarrow> fsstate \<Rightarrow> (int \<times> fsstate) option" where
  "file_free_block f filebno s = do {
     (r, slot, s1) \<leftarrow> file_block_walk f filebno False s;
     if r < 0 then Some (r, s1)
     else do {
       ptr \<leftarrow> slot;
       if rd32 (fmem s1) ptr \<noteq> 0 then do {
         s2 \<leftarrow> free_block (unat (rd32 (fmem s1) ptr)) s1;
         Some (0, put32 ptr 0 s2) }
       else Some (0, s1) } }"

fun truncate_loop :: "nat list \<Rightarrow> nat \<Rightarrow> fsstate \<Rightarrow> fsstate option" where
  "truncate_loop [] f s = Some s"
| "truncate_loop (b # bs) f s = do { (r, s1) \<leftarrow> file_free_block f b s; truncate_loop bs f s1 }"

definition nblocks_of :: "int \<Rightarrow> nat" where
  "nblocks_of sz = unat (word_of_int ((sz + 4096 - 1) sdiv 4096) :: u32)"

definition file_truncate_blocks :: "nat \<Rightarrow> int \<Rightarrow> fsstate \<Rightarrow> fsstate option" where
  "file_truncate_blocks f newsize s = do {
     let old_nblocks = nblocks_of (f_size (fmem s) f);
     let new_nblocks = nblocks_of newsize;
     s1 \<leftarrow> truncate_loop [new_nblocks..<old_nblocks] f s;
     if new_nblocks \<le> NDIRECT \<and> f_indirect (fmem s1) f \<noteq> 0 then do {
       s2 \<leftarrow> free_block (unat (f_indirect (fmem s1) f)) s1;
       Some (put32 (f + 176) 0 s2) }
     else Some s1 }"

definition file_set_size :: "nat \<Rightarrow> int \<Rightarrow> fsstate \<Rightarrow> (int \<times> fsstate) option" where
  "file_set_size f newsize s = do {
     s1 \<leftarrow> (if f_size (fmem s) f > newsize then file_truncate_blocks f newsize s else Some s);
     s2 \<leftarrow> fs_flush f (put32 (f + 128) (word_of_int newsize) s1);
     Some (0, s2) }"

text \<open>The end \<open>offset + count\<close> is compared with the size as an unsigned number and converted to
  the signed 32-bit size.\<close>

definition file_write :: "nat \<Rightarrow> (nat \<Rightarrow> u8) \<Rightarrow> nat \<Rightarrow> int \<Rightarrow> fsstate \<Rightarrow> (int \<times> fsstate) option" where
  "file_write f buf count offset s = do {
     (r, s1) \<leftarrow> (if (offset + int count) mod 2 ^ 64 > f_size (fmem s) f mod 2 ^ 64
                then file_set_size f (sint (word_of_int (offset + int count) :: u32)) s
                else Some (0, s));
     if r < 0 then Some (r, s1)
     else do {
       (r', s2) \<leftarrow> file_write_loop f buf offset (offset + int count) s1;
       if r' < 0 then Some (r', s2) else Some (sint (word_of_int (int count) :: u32), s2) } }"

definition file_remove :: "u8 list \<Rightarrow> fsstate \<Rightarrow> (int \<times> fsstate) option" where
  "file_remove path s = do {
     (w, s1) \<leftarrow> walk_path path s;
     if wr_code w < 0 then Some (wr_code w, s1)
     else do {
       f \<leftarrow> wr_file w;
       s2 \<leftarrow> file_truncate_blocks f 0 s1;
       let s3 = s2\<lparr>fmem := (fmem s2)(f := 0)\<rparr>;
       s4 \<leftarrow> fs_flush f (put32 (f + 128) 0 s3);
       Some (0, s4) } }"

fun fs_sync_loop :: "nat list \<Rightarrow> fsstate \<Rightarrow> fsstate option" where
  "fs_sync_loop [] s = Some s"
| "fs_sync_loop (i # is) s = do {
     a \<leftarrow> diskaddr True (fmem s) i;
     s1 \<leftarrow> fs_flush a s;
     fs_sync_loop is s1 }"

definition fs_sync :: "fsstate \<Rightarrow> fsstate option" where
  "fs_sync s = fs_sync_loop [1..<unat (s_nblocks (fmem s))] s"

section \<open>The free bitmap\<close>

lemma and_bit_iff: "k < 32 \<Longrightarrow> (w AND push_bit k 1 \<noteq> (0 :: u32)) \<longleftrightarrow> bit w k"
proof -
  assume k: "k < 32"
  have b: "bit (w AND push_bit k 1) n \<longleftrightarrow> bit w k \<and> n = k" if "n < 32" for n
    using that k by (auto simp: bit_simps)
  show ?thesis
  proof
    assume "w AND push_bit k 1 \<noteq> 0"
    then obtain n where "n < 32" "bit (w AND push_bit k 1) n" by (auto simp: bit_eq_iff)
    then show "bit w k" using b by simp
  next
    assume "bit w k"
    then have "bit (w AND push_bit k 1) k" using b k by simp
    then show "w AND push_bit k 1 \<noteq> 0" by force
  qed
qed

lemma block_is_free_iff:
  "block_is_free m b \<longleftrightarrow> b < unat (s_nblocks m) \<and> bit (rd32 m (bitmap_word b)) (b mod 32)"
proof -
  have "(rd32 m (bitmap_word b) AND push_bit (b mod 32) 1 \<noteq> 0) = bit (rd32 m (bitmap_word b)) (b mod 32)"
    by (rule and_bit_iff) simp
  then show ?thesis unfolding block_is_free_def by (simp only: not_le [symmetric])
qed

lemma bitmap_word_ge: "bitmap_at \<le> bitmap_word b"
  by (simp add: bitmap_word_def)

lemma bitmap_word_disjoint:
  "b div 32 \<noteq> c div 32 \<Longrightarrow> bitmap_word b + 4 \<le> bitmap_word c \<or> bitmap_word c + 4 \<le> bitmap_word b"
  by (auto simp: bitmap_word_def)

text \<open>Writing a bitmap word leaves the super block alone.\<close>

lemma s_nblocks_wr: "super_at + 8 \<le> a \<Longrightarrow> s_nblocks (wr32 m a w) = s_nblocks m"
  by (simp add: s_nblocks_def rd32_wr32_other)

text \<open>Changing one bit of the bitmap changes the state of one block.\<close>

lemma free_after_wr:
  assumes "\<And>n. n < 32 \<Longrightarrow> bit w n = (if n = b mod 32 then v else bit (rd32 m (bitmap_word b)) n)"
  shows "block_is_free (wr32 m (bitmap_word b) w) c \<longleftrightarrow>
    (if c = b then b < unat (s_nblocks m) \<and> v else block_is_free m c)"
proof -
  have n: "s_nblocks (wr32 m (bitmap_word b) w) = s_nblocks m"
    using bitmap_word_ge [of b] by (intro s_nblocks_wr) simp
  show ?thesis
  proof (cases "c div 32 = b div 32")
    case True
    then have "bitmap_word c = bitmap_word b" by (simp add: bitmap_word_def)
    moreover have "c mod 32 = b mod 32 \<longleftrightarrow> c = b" using True by (metis div_mult_mod_eq)
    ultimately show ?thesis using assms [of "c mod 32"] n by (auto simp: block_is_free_iff)
  next
    case False
    then have "rd32 (wr32 m (bitmap_word b) w) (bitmap_word c) = rd32 m (bitmap_word c)"
      using bitmap_word_disjoint [of c b] by (intro rd32_wr32_other) auto
    with False n show ?thesis by (auto simp: block_is_free_iff)
  qed
qed

lemma fs_flush_fmem: "fs_flush va s = Some s' \<Longrightarrow> fmem s' = fmem s"
  by (auto simp: fs_flush_def split: if_splits)

text \<open>Allocation returns the first free block and marks it used; it fails exactly when no block
  is free.\<close>

lemma alloc_block_loop_spec:
  "\<exists>r s'. alloc_block_loop bs s = Some (r, s') \<and>
     (case find (block_is_free (fmem s)) bs of
        None \<Rightarrow> r = - E_NO_DISK \<and> s' = s
      | Some b \<Rightarrow> r = int b \<and>
          fmem s' = wr32 (fmem s) (bitmap_word b) (rd32 (fmem s) (bitmap_word b) AND NOT (push_bit (b mod 32) 1)))"
  by (induction bs) (auto simp: fs_flush_def put32_def)

lemma alloc_block_spec:
  "\<exists>r s'. alloc_block s = Some (r, s') \<and>
     ((r = - E_NO_DISK \<and> s' = s \<and> (\<forall>b. 2 \<le> b \<longrightarrow> \<not> block_is_free (fmem s) b)) \<or>
      (\<exists>b w. r = int b \<and> 2 \<le> b \<and> block_is_free (fmem s) b \<and> fmem s' = wr32 (fmem s) (bitmap_word b) w \<and>
        (\<forall>c. block_is_free (fmem s') c \<longleftrightarrow> c \<noteq> b \<and> block_is_free (fmem s) c)))"
proof -
  let ?n = "unat (s_nblocks (fmem s))"
  obtain r s' where rs: "alloc_block s = Some (r, s')"
    "case find (block_is_free (fmem s)) [2..<?n] of
        None \<Rightarrow> r = - E_NO_DISK \<and> s' = s
      | Some b \<Rightarrow> r = int b \<and>
          fmem s' = wr32 (fmem s) (bitmap_word b) (rd32 (fmem s) (bitmap_word b) AND NOT (push_bit (b mod 32) 1))"
    using alloc_block_loop_spec [of "[2..<?n]" s] by (auto simp: alloc_block_def)
  show ?thesis
  proof (cases "find (block_is_free (fmem s)) [2..<?n]")
    case None
    then have "\<forall>b. 2 \<le> b \<longrightarrow> \<not> block_is_free (fmem s) b" by (auto simp: find_None_iff block_is_free_iff)
    with None rs show ?thesis by auto
  next
    case (Some b)
    then have b: "block_is_free (fmem s) b" "2 \<le> b" by (auto simp: find_Some_iff)
    let ?w = "rd32 (fmem s) (bitmap_word b) AND NOT (push_bit (b mod 32) 1)"
    have "bit ?w n = (if n = b mod 32 then False else bit (rd32 (fmem s) (bitmap_word b)) n)" if "n < 32" for n
      using that by (auto simp: bit_simps)
    from free_after_wr [OF this] have "block_is_free (fmem s') c \<longleftrightarrow> c \<noteq> b \<and> block_is_free (fmem s) c" for c
      using rs(2) Some by auto
    with Some rs b show ?thesis by (intro exI [of _ r] exI [of _ s']) auto
  qed
qed

lemma free_block_spec:
  assumes "b \<noteq> 0" "b < unat (s_nblocks (fmem s))"
  shows "\<exists>s' w. free_block b s = Some s' \<and> fmem s' = wr32 (fmem s) (bitmap_word b) w \<and>
    (\<forall>c. block_is_free (fmem s') c \<longleftrightarrow> c = b \<or> block_is_free (fmem s) c)"
proof -
  let ?w = "rd32 (fmem s) (bitmap_word b) OR push_bit (b mod 32) 1"
  have "bit ?w n = (if n = b mod 32 then True else bit (rd32 (fmem s) (bitmap_word b)) n)" if "n < 32" for n
    using that by (auto simp: bit_simps)
  from free_after_wr [OF this] assms show ?thesis
    by (intro exI [of _ "put32 (bitmap_word b) ?w s"] exI [of _ ?w]) (auto simp: free_block_def put32_def)
qed

end
