(* ===== verification/Fs_Contents.thy ===== *)
theory Fs_Contents
  imports Fs_File
begin

text \<open>
  The contents of files: what reading and writing (\<open>file_read\<close>, \<open>file_write\<close>, \<open>file_get_block\<close>
  of \<^verbatim>\<open>fs/fs.c\<close>) do to a well-formed file.  A file is well-formed when its structure lies apart
  from the super block and the bitmap, its blocks are distinct blocks of the data area that are
  not free, and the free blocks are in the data area too.
\<close>

section \<open>Well-formed files\<close>

text \<open>The block numbers of a file: ten in the structure, and those of the indirect block if there
  is one.\<close>

definition slots :: "cmem \<Rightarrow> nat \<Rightarrow> nat" where
  "slots m f = (if f_indirect m f = 0 then 10 else 1034)"

definition slot_at :: "cmem \<Rightarrow> nat \<Rightarrow> nat \<Rightarrow> nat" where
  "slot_at m f i = (if i < 10 then f_direct_at f i else DISKMAP + unat (f_indirect m f) * BLKSIZE + 4 * (i - 10))"

definition fblock :: "cmem \<Rightarrow> nat \<Rightarrow> nat \<Rightarrow> nat" where
  "fblock m f i = unat (rd32 m (slot_at m f i))"

definition bitmap_end :: "cmem \<Rightarrow> nat" where
  "bitmap_end m = bitmap_at + 4 * (unat (s_nblocks m) div 32 + 1)"

text \<open>A block of the data area: after the bitmap and inside the disk.\<close>

definition data_ok :: "cmem \<Rightarrow> nat \<Rightarrow> bool" where
  "data_ok m b \<longleftrightarrow> bitmap_end m \<le> DISKMAP + b * BLKSIZE \<and> b < unat (s_nblocks m)"

definition meta_at :: "cmem \<Rightarrow> nat \<Rightarrow> bool" where
  "meta_at m f \<longleftrightarrow> super_at + 8 \<le> f \<and> f mod BLKSIZE + FILESZ \<le> BLKSIZE \<and>
     (f + FILESZ \<le> bitmap_at \<or> bitmap_end m \<le> f) \<and> f + FILESZ \<le> DISKMAP + DISKSIZE"

text \<open>The blocks a file may use or be given: in the data area, and neither the block that holds
  the structure nor the indirect block.\<close>

definition usable :: "cmem \<Rightarrow> nat \<Rightarrow> nat \<Rightarrow> bool" where
  "usable m f b \<longleftrightarrow> data_ok m b \<and> b \<noteq> blockno_of f \<and> b \<noteq> unat (f_indirect m f)"

definition file_wf :: "cmem \<Rightarrow> nat \<Rightarrow> bool" where
  "file_wf m f \<longleftrightarrow> meta_at m f \<and>
     (f_indirect m f \<noteq> 0 \<longrightarrow> data_ok m (unat (f_indirect m f)) \<and> unat (f_indirect m f) \<noteq> blockno_of f) \<and>
     (\<forall>b. 2 \<le> b \<longrightarrow> block_is_free m b \<longrightarrow> usable m f b) \<and>
     (\<forall>i < slots m f. fblock m f i \<noteq> 0 \<longrightarrow> usable m f (fblock m f i) \<and> \<not> block_is_free m (fblock m f i)) \<and>
     (\<forall>i < slots m f. \<forall>j < slots m f. i \<noteq> j \<longrightarrow> fblock m f i \<noteq> 0 \<longrightarrow> fblock m f i \<noteq> fblock m f j)"

definition file_byte :: "cmem \<Rightarrow> nat \<Rightarrow> nat \<Rightarrow> u8" where
  "file_byte m f k = m (DISKMAP + fblock m f (k div BLKSIZE) * BLKSIZE + k mod BLKSIZE)"

lemma bitmap_word_end: "b < unat (s_nblocks m) \<Longrightarrow> bitmap_word b + 4 \<le> bitmap_end m"
  by (auto simp: bitmap_word_def bitmap_end_def intro: div_le_mono)

lemma super_bitmap_end: "super_at + 8 \<le> bitmap_end m"
  by (simp add: bitmap_end_def)

text \<open>Where the slots are: inside the structure or inside the indirect block.\<close>

lemma slot_range:
  assumes "meta_at m f" "i < slots m f"
  shows "(f + 136 \<le> slot_at m f i \<and> slot_at m f i + 4 \<le> f + 176) \<or>
    (f_indirect m f \<noteq> 0 \<and> DISKMAP + unat (f_indirect m f) * BLKSIZE \<le> slot_at m f i \<and>
       slot_at m f i + 4 \<le> DISKMAP + unat (f_indirect m f) * BLKSIZE + BLKSIZE)"
  using assms by (auto simp: slot_at_def f_direct_at_def slots_def split: if_splits)

lemma struct_block:
  assumes "meta_at m f"
  shows "DISKMAP + blockno_of f * BLKSIZE \<le> f \<and> f + FILESZ \<le> DISKMAP + blockno_of f * BLKSIZE + BLKSIZE"
proof -
  have f: "super_at + 8 \<le> f" "f mod 4096 + 256 \<le> 4096" using assms by (auto simp: meta_at_def)
  define g where "g = f - DISKMAP"
  have "f = g + 65536 * 4096" using f(1) by (simp add: g_def)
  then have "f mod 4096 = g mod 4096" by (simp only: mod_mult_self1)
  moreover have "g = g div 4096 * 4096 + g mod 4096" by simp
  ultimately show ?thesis using f \<open>f = _\<close> unfolding blockno_of_def g_def [symmetric] by linarith
qed

text \<open>Bytes of a usable block are apart from the super block, the bitmap, the structure and the
  indirect block; so is the structure from the bitmap.\<close>

definition in_block :: "nat \<Rightarrow> nat \<Rightarrow> bool" where
  "in_block b a \<longleftrightarrow> DISKMAP + b * BLKSIZE \<le> a \<and> a < DISKMAP + b * BLKSIZE + BLKSIZE"

lemma in_block_unique: "in_block b a \<Longrightarrow> in_block c a \<Longrightarrow> b = c"
  unfolding in_block_def by linarith

text \<open>The metadata of a file, in memory.\<close>

definition meta_addr :: "cmem \<Rightarrow> nat \<Rightarrow> nat \<Rightarrow> bool" where
  "meta_addr m f a \<longleftrightarrow> (super_at \<le> a \<and> a < super_at + 8) \<or> (bitmap_at \<le> a \<and> a < bitmap_end m) \<or>
     (f \<le> a \<and> a < f + FILESZ) \<or> (f_indirect m f \<noteq> 0 \<and> in_block (unat (f_indirect m f)) a)"

lemma usable_apart: "meta_at m f \<Longrightarrow> usable m f b \<Longrightarrow> in_block b a \<Longrightarrow> \<not> meta_addr m f a"
  using struct_block [of m f] super_bitmap_end [of m]
  unfolding usable_def data_ok_def meta_addr_def in_block_def by auto

lemma rd32_frame: "(\<And>x. a \<le> x \<Longrightarrow> x < a + 4 \<Longrightarrow> m' x = m x) \<Longrightarrow> rd32 m' a = rd32 m a"
  by (rule rd32_cong) simp

text \<open>A change that avoids the metadata keeps the file's block numbers, size and well-formedness.\<close>

definition same_meta :: "cmem \<Rightarrow> nat \<Rightarrow> cmem \<Rightarrow> bool" where
  "same_meta m f m' \<longleftrightarrow> (\<forall>a. meta_addr m f a \<longrightarrow> m' a = m a)"

lemma same_metaD: "same_meta m f m' \<Longrightarrow> meta_addr m f a \<Longrightarrow> m' a = m a"
  by (simp add: same_meta_def)

lemma frame_nblocks:
  assumes "same_meta m f m'"
  shows "s_nblocks m' = s_nblocks m"
  unfolding s_nblocks_def by (rule rd32_frame, rule same_metaD [OF assms]) (simp add: meta_addr_def)

lemma frame_struct:
  assumes "same_meta m f m'" "k + 4 \<le> FILESZ"
  shows "rd32 m' (f + k) = rd32 m (f + k)"
  by (rule rd32_frame, rule same_metaD [OF assms(1)]) (use assms(2) in \<open>simp add: meta_addr_def\<close>)

lemma frame_free:
  assumes "same_meta m f m'"
  shows "block_is_free m' b = block_is_free m b"
proof (cases "b < unat (s_nblocks m)")
  case True
  have "rd32 m' (bitmap_word b) = rd32 m (bitmap_word b)"
    by (rule rd32_frame, rule same_metaD [OF assms])
      (use bitmap_word_end [OF True] bitmap_word_ge [of b] in \<open>auto simp: meta_addr_def\<close>)
  then show ?thesis using frame_nblocks [OF assms] by (simp only: block_is_free_iff)
next
  case False
  then show ?thesis using frame_nblocks [OF assms] by (simp add: block_is_free_iff)
qed

lemma frame_slot:
  assumes "same_meta m f m'" "meta_at m f"
  shows "f_indirect m' f = f_indirect m f" "f_size m' f = f_size m f" "slots m' f = slots m f"
    "slot_at m' f i = slot_at m f i" "i < slots m f \<Longrightarrow> fblock m' f i = fblock m f i"
proof -
  show ind: "f_indirect m' f = f_indirect m f" by (simp add: f_indirect_def frame_struct [OF assms(1)])
  show "f_size m' f = f_size m f" by (simp add: f_size_def frame_struct [OF assms(1)])
  show "slots m' f = slots m f" by (simp add: slots_def ind)
  show sl: "slot_at m' f i = slot_at m f i" by (simp add: slot_at_def ind)
  show "fblock m' f i = fblock m f i" if "i < slots m f"
  proof -
    have "rd32 m' (slot_at m f i) = rd32 m (slot_at m f i)"
      by (rule rd32_frame, rule same_metaD [OF assms(1)])
        (use slot_range [OF assms(2) that] in \<open>auto simp: meta_addr_def in_block_def\<close>)
    then show ?thesis by (simp add: fblock_def sl)
  qed
qed

lemma file_wf_frame:
  assumes fr: "same_meta m f m'" and wf: "file_wf m f"
  shows "file_wf m' f"
proof -
  have mt: "meta_at m f" using wf by (simp add: file_wf_def)
  have n: "s_nblocks m' = s_nblocks m" by (rule frame_nblocks [OF fr])
  note ind = frame_slot(1) [OF fr mt]
  have e: "bitmap_end m' = bitmap_end m" by (simp add: bitmap_end_def n)
  have d: "data_ok m' b = data_ok m b" for b by (simp add: data_ok_def e n)
  have u: "usable m' f b = usable m f b" for b by (simp add: usable_def d ind)
  have t: "meta_at m' f = meta_at m f" by (simp add: meta_at_def e)
  show ?thesis using wf unfolding file_wf_def t d u ind frame_slot(3) [OF fr mt] frame_free [OF fr]
    by (simp add: frame_slot(5) [OF fr mt])
qed

section \<open>Getting a block of a file\<close>

lemma sint_u32_range: "- (2 ^ 31) \<le> sint (w :: u32)" "sint (w :: u32) < 2 ^ 31"
  using sint_range_size [of w] by (simp_all add: word_size)

lemma unat_word_of_nonneg: "0 \<le> k \<Longrightarrow> k < 2 ^ 32 \<Longrightarrow> unat (word_of_int k :: u32) = nat k"
  by (simp add: unat_eq_nat_uint uint_word_of_int_eq take_bit_int_eq_self)

lemma sdiv_4096: "0 \<le> k \<Longrightarrow> k sdiv 4096 = k div (4096 :: int)"
  by (simp add: signed_divide_int_def sgn_if)

lemma smod_4096: "0 \<le> k \<Longrightarrow> k smod 4096 = k mod (4096 :: int)"
  by (simp add: signed_modulo_int_def sgn_if)

lemma size_block:
  "0 \<le> f_size m f \<Longrightarrow> unat (word_of_int (f_size m f sdiv 4096) :: u32) = nat (f_size m f) div 4096"
  using sint_u32_range(2) [of "rd32 m (f + 128)"]
  by (simp add: sdiv_4096 f_size_def unat_word_of_nonneg nat_div_distrib)

lemma data_ok_pos: "data_ok m b \<Longrightarrow> 2 \<le> b"
  by (auto simp: data_ok_def bitmap_end_def)

lemma diskaddr_data: "data_ok m b \<Longrightarrow> diskaddr True m b = Some (DISKMAP + b * BLKSIZE)"
  using data_ok_pos [of m b] by (simp add: diskaddr_def data_ok_def)

lemma file_block_walk_slot:
  assumes wf: "file_wf (fmem s) f" and i: "i < slots (fmem s) f"
    and sz: "0 \<le> f_size (fmem s) f" "i \<le> nat (f_size (fmem s) f) div 4096"
  shows "file_block_walk f i alloc s = Some (0, Some (slot_at (fmem s) f i), s)"
proof (cases "i < 10")
  case True
  then show ?thesis using sz by (simp add: file_block_walk_def size_block slot_at_def)
next
  case False
  then have ind: "f_indirect (fmem s) f \<noteq> 0" "i < 1034" using i by (auto simp: slots_def split: if_splits)
  then have "data_ok (fmem s) (unat (f_indirect (fmem s) f))" using wf by (simp add: file_wf_def)
  with False ind sz show ?thesis by (simp add: file_block_walk_def size_block slot_at_def diskaddr_data)
qed

text \<open>The slots of different blocks do not overlap, and they are metadata outside the bitmap and
  the super block.\<close>

lemma slot_disjoint:
  assumes wf: "file_wf m f" and ij: "i < slots m f" "j < slots m f" "i \<noteq> j"
  shows "slot_at m f i + 4 \<le> slot_at m f j \<or> slot_at m f j + 4 \<le> slot_at m f i"
proof -
  have mt: "meta_at m f" using wf by (simp add: file_wf_def)
  have "f_indirect m f \<noteq> 0 \<Longrightarrow> unat (f_indirect m f) \<noteq> blockno_of f" using wf by (simp add: file_wf_def)
  then have "f_indirect m f \<noteq> 0 \<Longrightarrow> f + FILESZ \<le> DISKMAP + unat (f_indirect m f) * BLKSIZE \<or>
      DISKMAP + unat (f_indirect m f) * BLKSIZE + BLKSIZE \<le> f"
    using struct_block [OF mt] by linarith
  then show ?thesis using ij
    by (cases "i < 10"; cases "j < 10") (auto simp: slot_at_def f_direct_at_def slots_def split: if_splits)
qed

lemma slot_above:
  assumes wf: "file_wf m f" and i: "i < slots m f"
  shows "super_at + 8 \<le> slot_at m f i" "slot_at m f i + 4 \<le> bitmap_at \<or> bitmap_end m \<le> slot_at m f i"
    "slot_at m f i + 4 \<le> f + 176 \<or> f + 180 \<le> slot_at m f i"
    "slot_at m f i + 4 \<le> f + 128 \<or> f + 132 \<le> slot_at m f i"
proof -
  have mt: "meta_at m f" using wf by (simp add: file_wf_def)
  have d: "f_indirect m f \<noteq> 0 \<Longrightarrow> data_ok m (unat (f_indirect m f)) \<and> unat (f_indirect m f) \<noteq> blockno_of f"
    using wf by (simp add: file_wf_def)
  then have "f_indirect m f \<noteq> 0 \<Longrightarrow> f + FILESZ \<le> DISKMAP + unat (f_indirect m f) * BLKSIZE \<or>
      DISKMAP + unat (f_indirect m f) * BLKSIZE + BLKSIZE \<le> f"
    using struct_block [OF mt] by linarith
  note sep = this slot_range [OF mt i] d super_bitmap_end [of m] mt [unfolded meta_at_def]
  show "super_at + 8 \<le> slot_at m f i" using sep by (auto simp: data_ok_def)
  show "slot_at m f i + 4 \<le> bitmap_at \<or> bitmap_end m \<le> slot_at m f i" using sep by (auto simp: data_ok_def)
  show "slot_at m f i + 4 \<le> f + 176 \<or> f + 180 \<le> slot_at m f i" using sep by auto
  show "slot_at m f i + 4 \<le> f + 128 \<or> f + 132 \<le> slot_at m f i" using sep by auto
qed

text \<open>Storing a newly allocated block in an empty slot.\<close>

definition got_block :: "cmem \<Rightarrow> nat \<Rightarrow> nat \<Rightarrow> cmem \<Rightarrow> bool" where
  "got_block m f i m' \<longleftrightarrow> file_wf m' f \<and> f_size m' f = f_size m f \<and> slots m' f = slots m f \<and>
     fblock m' f i \<noteq> 0 \<and> (\<forall>j < slots m f. fblock m f j \<noteq> 0 \<longrightarrow> fblock m' f j = fblock m f j) \<and>
     (\<forall>j < slots m f. \<forall>a. fblock m f j \<noteq> 0 \<longrightarrow> in_block (fblock m f j) a \<longrightarrow> m' a = m a)"

lemma install_block:
  assumes wf: "file_wf m f" and i: "i < slots m f" and e: "fblock m f i = 0"
    and b: "2 \<le> b" "block_is_free m b"
    and m1: "m1 = wr32 m (bitmap_word b) w" "\<And>c. block_is_free m1 c \<longleftrightarrow> c \<noteq> b \<and> block_is_free m c"
    and m2: "m2 = wr32 m1 (slot_at m f i) (word_of_int (int b))"
  shows "got_block m f i m2" "fblock m2 f i = b" "s_nblocks m2 = s_nblocks m"
proof -
  have mt: "meta_at m f" using wf by (simp add: file_wf_def)
  have bn: "b < unat (s_nblocks m)" using b(2) by (simp add: block_is_free_iff)
  have ub: "usable m f b" using wf b by (simp add: file_wf_def)
  note w = bitmap_word_ge [of b] bitmap_word_end [OF bn]
  note sa = slot_above [OF wf i]
  have out: "m2 a = m a" if "a < bitmap_at \<or> bitmap_end m \<le> a" "a < slot_at m f i \<or> slot_at m f i + 4 \<le> a" for a
    unfolding m2 m1(1) using that w by (subst wr32_other; (subst wr32_other)?) auto
  have rd: "rd32 m2 a = rd32 m a" if "a + 4 \<le> bitmap_at \<or> bitmap_end m \<le> a"
    "a + 4 \<le> slot_at m f i \<or> slot_at m f i + 4 \<le> a" for a
    by (rule rd32_frame, rule out) (use that in auto)
  show n: "s_nblocks m2 = s_nblocks m"
    unfolding s_nblocks_def by (rule rd) (use sa in auto)
  have n1: "s_nblocks m1 = s_nblocks m" unfolding m1(1) by (rule s_nblocks_wr) (use w in simp)
  have fr: "block_is_free m2 c \<longleftrightarrow> c \<noteq> b \<and> block_is_free m c" for c
  proof (cases "c < unat (s_nblocks m)")
    case True
    have "rd32 m2 (bitmap_word c) = rd32 m1 (bitmap_word c)"
      unfolding m2 by (rule rd32_wr32_other) (use sa(2) bitmap_word_end [OF True] bitmap_word_ge [of c] in auto)
    then have "block_is_free m2 c = block_is_free m1 c" by (simp add: block_is_free_iff n n1)
    then show ?thesis by (simp add: m1(2))
  qed (simp add: block_is_free_iff n)
  have ind: "f_indirect m2 f = f_indirect m f" unfolding f_indirect_def
    by (rule rd) (use sa mt in \<open>auto simp: meta_at_def\<close>)
  have sz: "f_size m2 f = f_size m f"
  proof -
    have "rd32 m2 (f + 128) = rd32 m (f + 128)" by (rule rd) (use sa mt in \<open>auto simp: meta_at_def\<close>)
    then show ?thesis by (simp add: f_size_def)
  qed
  have sl: "slots m2 f = slots m f" "slot_at m2 f j = slot_at m f j" for j by (simp_all add: slots_def slot_at_def ind)
  have self: "fblock m2 f i = b"
  proof -
    have "rd32 m2 (slot_at m2 f i) = word_of_int (int b)" unfolding sl unfolding m2 by (rule rd32_wr32_same)
    moreover have "unat (word_of_int (int b) :: u32) = nat (int b)"
      by (rule unat_word_of_nonneg) (use bn unsigned_less [of "s_nblocks m", where ?'a = nat] in auto)
    ultimately show ?thesis by (simp only: fblock_def nat_int)
  qed
  have oth: "fblock m2 f j = fblock m f j" if "j < slots m f" "j \<noteq> i" for j
  proof -
    have "rd32 m2 (slot_at m f j) = rd32 m (slot_at m f j)"
      by (rule rd) (use slot_above(2) [OF wf that(1)] slot_disjoint [OF wf i that(1)] that in auto)
    then show ?thesis by (simp add: fblock_def sl)
  qed
  have be: "bitmap_end m2 = bitmap_end m" by (simp add: bitmap_end_def n)
  have us: "usable m2 f c = usable m f c" "data_ok m2 c = data_ok m c" for c
    by (simp_all add: usable_def data_ok_def be n ind)
  have mt2: "meta_at m2 f" using mt by (simp add: meta_at_def be)
  have dist: "fblock m f j \<noteq> b" if "j < slots m f" for j
    using wf that b by (auto simp: file_wf_def)
  have fb: "fblock m2 f j = (if j = i then b else fblock m f j)" if "j < slots m f" for j
    using that self oth by simp
  have wf2: "file_wf m2 f"
    unfolding file_wf_def us ind sl fr
    using wf [unfolded file_wf_def] mt2 ub dist b(1) by (auto simp: fb)
  have byt: "m2 a = m a" if "j < slots m f" "fblock m f j \<noteq> 0" "in_block (fblock m f j) a" for j a
  proof -
    have "usable m f (fblock m f j)" using wf that by (simp add: file_wf_def)
    from usable_apart [OF mt this that(3)] have na: "\<not> meta_addr m f a" .
    have "meta_addr m f x" if "slot_at m f i \<le> x" "x < slot_at m f i + 4" for x
      using slot_range [OF mt i] that by (auto simp: meta_addr_def in_block_def)
    with na have "a < slot_at m f i \<or> slot_at m f i + 4 \<le> a" by (meson not_le)
    with na show ?thesis by (intro out) (auto simp: meta_addr_def)
  qed
  show "fblock m2 f i = b" by (rule self)
  show "got_block m f i m2"
    unfolding got_block_def using wf2 sz sl b(1) e byt by (auto simp: fb self)
qed

lemma file_get_block_spec:
  assumes wf: "file_wf (fmem s) f" and i: "i < slots (fmem s) f"
    and sz: "0 \<le> f_size (fmem s) f" "i \<le> nat (f_size (fmem s) f) div 4096"
  shows "\<exists>r blk s1. file_get_block f i s = Some (r, blk, s1) \<and>
    ((r = - E_NO_DISK \<and> s1 = s \<and> fblock (fmem s) f i = 0 \<and> (\<forall>b \<ge> 2. \<not> block_is_free (fmem s) b)) \<or>
     (r = 0 \<and> blk = Some (DISKMAP + fblock (fmem s1) f i * BLKSIZE) \<and> got_block (fmem s) f i (fmem s1) \<and>
      (fblock (fmem s) f i \<noteq> 0 \<longrightarrow> s1 = s)))"
proof -
  note walk = file_block_walk_slot [OF wf i sz, of True]
  have i': "i < 1034" using i by (auto simp: slots_def split: if_splits)
  show ?thesis
  proof (cases "fblock (fmem s) f i = 0")
    case False
    then have "data_ok (fmem s) (fblock (fmem s) f i)" using wf i by (simp add: file_wf_def usable_def)
    note da = diskaddr_data [OF this]
    have g: "got_block (fmem s) f i (fmem s)" using wf False by (simp add: got_block_def)
    have "rd32 (fmem s) (slot_at (fmem s) f i) \<noteq> 0" using False by (auto simp: fblock_def)
    with walk i' da [unfolded fblock_def] g show ?thesis by (simp add: file_get_block_def fblock_def)
  next
    case True
    then have z: "rd32 (fmem s) (slot_at (fmem s) f i) = 0" by (simp add: fblock_def unat_eq_zero)
    obtain r s2 where a: "alloc_block s = Some (r, s2)"
      "(r = - E_NO_DISK \<and> s2 = s \<and> (\<forall>b. 2 \<le> b \<longrightarrow> \<not> block_is_free (fmem s) b)) \<or>
      (\<exists>b w. r = int b \<and> 2 \<le> b \<and> block_is_free (fmem s) b \<and> fmem s2 = wr32 (fmem s) (bitmap_word b) w \<and>
        (\<forall>c. block_is_free (fmem s2) c \<longleftrightarrow> c \<noteq> b \<and> block_is_free (fmem s) c))"
      using alloc_block_spec [of s] by blast
    from a(2) show ?thesis
    proof
      assume "r = - E_NO_DISK \<and> s2 = s \<and> (\<forall>b. 2 \<le> b \<longrightarrow> \<not> block_is_free (fmem s) b)"
      with a(1) walk i' z True show ?thesis by (simp add: file_get_block_def)
    next
      assume "\<exists>b w. r = int b \<and> 2 \<le> b \<and> block_is_free (fmem s) b \<and> fmem s2 = wr32 (fmem s) (bitmap_word b) w \<and>
        (\<forall>c. block_is_free (fmem s2) c \<longleftrightarrow> c \<noteq> b \<and> block_is_free (fmem s) c)"
      then obtain b w where b: "r = int b" "2 \<le> b" "block_is_free (fmem s) b"
        and m1: "fmem s2 = wr32 (fmem s) (bitmap_word b) w"
        "\<And>c. block_is_free (fmem s2) c \<longleftrightarrow> c \<noteq> b \<and> block_is_free (fmem s) c" by blast
      let ?s3 = "put32 (slot_at (fmem s) f i) (word_of_int (int b)) s2"
      have "fmem ?s3 = wr32 (fmem s2) (slot_at (fmem s) f i) (word_of_int (int b))" by (simp add: put32_def)
      note ins = install_block [OF wf i True b(2,3) m1 this]
      have "b < unat (s_nblocks (fmem s))" using b(3) by (simp add: block_is_free_iff)
      then have "diskaddr True (fmem ?s3) b = Some (DISKMAP + b * BLKSIZE)"
        using b(2) ins(3) by (simp add: diskaddr_def)
      with a(1) walk i' z ins b show ?thesis
        by (intro exI [of _ 0] exI [of _ "Some (DISKMAP + b * BLKSIZE)"] exI [of _ ?s3]) (simp add: file_get_block_def True)
    qed
  qed
qed

section \<open>Reading and writing a file\<close>

text \<open>For a transfer inside the first gigabytes the 64-bit and signed arithmetic of the loops is
  plain arithmetic.\<close>

lemma transfer_arith:
  assumes "p < 2 ^ 31" "e < 2 ^ 31"
  shows "in_transfer (int p) (int e) \<longleftrightarrow> p < e"
    "p < e \<Longrightarrow> chunk (int p) (int e) = int (min (4096 - p mod 4096) (e - p))"
    "block_index (int p) = p div 4096" "int p smod 4096 = int (p mod 4096)"
proof -
  show "in_transfer (int p) (int e) \<longleftrightarrow> p < e" using assms by (simp add: in_transfer_def)
  show sm: "int p smod 4096 = int (p mod 4096)" by (simp add: smod_4096 zmod_int)
  show "chunk (int p) (int e) = int (min (4096 - p mod 4096) (e - p))" if "p < e"
  proof -
    have "left64 (int p) (int e) = int (e - p)" using that assms by (simp add: left64_def of_nat_diff)
    moreover have "int (4096 - p mod 4096) = 4096 - int (p mod 4096)" by (simp add: of_nat_diff less_imp_le)
    ultimately show ?thesis by (simp only: chunk_def sm of_nat_min)
  qed
  have "int p div 4096 = int (p div 4096)" by (simp add: zdiv_int)
  moreover have "p div 4096 < 2 ^ 32" using assms(1) div_le_dividend [of p 4096] by (simp add: le_less_trans)
  ultimately show "block_index (int p) = p div 4096"
    by (simp add: block_index_def sdiv_4096 unat_of_nat)
qed

lemma step_block:
  fixes p e :: nat
  assumes "p < e" "bn = min (4096 - p mod 4096) (e - p)" "p \<le> k" "k < p + bn"
  shows "k div 4096 = p div 4096" "k mod 4096 = p mod 4096 + (k - p)"
proof -
  have "k = p div 4096 * 4096 + (p mod 4096 + (k - p))" using assms(3) by simp
  moreover have "p mod 4096 + (k - p) < 4096"
  proof -
    have "k - p < bn" using assms by linarith
    also have "bn \<le> 4096 - p mod 4096" by (simp add: assms(2))
    finally show ?thesis by linarith
  qed
  ultimately show "k div 4096 = p div 4096" "k mod 4096 = p mod 4096 + (k - p)"
    by (metis div_mult_self3 div_less add.right_neutral zero_neq_numeral add.commute,
        metis mod_mult_self3 mod_less)
qed

definition has_byte :: "cmem \<Rightarrow> nat \<Rightarrow> nat \<Rightarrow> bool" where
  "has_byte m f k \<longleftrightarrow> k div BLKSIZE < slots m f \<and> fblock m f (k div BLKSIZE) \<noteq> 0"

lemma file_byte_in_block:
  "in_block (fblock m f (k div BLKSIZE)) (DISKMAP + fblock m f (k div BLKSIZE) * BLKSIZE + k mod BLKSIZE)"
  by (simp add: in_block_def)

lemma sint_word_of_nonneg: "0 \<le> k \<Longrightarrow> k < 2 ^ 31 \<Longrightarrow> sint (word_of_int k :: u32) = k"
  by (simp add: sint_sbintrunc' signed_take_bit_int_eq_self)

text \<open>Reading bytes of blocks that are found: block \<open>i\<close> of the file is at \<open>B i\<close>.\<close>

lemma file_read_loop_blocks:
  assumes pe: "p \<le> e" "e < 2 ^ 31"
    and get: "\<And>k. p \<le> k \<Longrightarrow> k < e \<Longrightarrow> file_get_block f (k div 4096) s = Some (0, Some (B (k div 4096)), s)"
  shows "file_read_loop f (int p) (int e) s = Some (0, map (\<lambda>k. fmem s (B (k div 4096) + k mod 4096)) [p..<e], s)"
  using pe(1) get
proof (induction "e - p" arbitrary: p rule: less_induct)
  case less
  let ?byte = "\<lambda>k. fmem s (B (k div 4096) + k mod 4096)"
  have p: "p < 2 ^ 31" using less.prems pe(2) by linarith
  note ar = transfer_arith [OF p pe(2)]
  show ?case
  proof (cases "p < e")
    case False
    then show ?thesis using less.prems ar(1) by (simp add: file_read_loop.simps)
  next
    case True
    define bn where "bn = min (4096 - p mod 4096) (e - p)"
    have bn: "0 < bn" "p + bn \<le> e" using True by (auto simp: bn_def)
    have gb: "file_get_block f (p div 4096) s = Some (0, Some (B (p div 4096)), s)" using less.prems(2) [of p] True by simp
    have ih: "file_read_loop f (int (p + bn)) (int e) s = Some (0, map ?byte [p + bn..<e], s)"
      by (rule less.hyps) (use bn True less.prems in auto)
    let ?a = "B (p div 4096) + p mod 4096"
    have byte: "fmem s (?a + i) = ?byte (p + i)" if "i < bn" for i
      using step_block [OF True bn_def, of "p + i"] that by (simp add: add.assoc)
    have "[p..<e] = [p..<p + bn] @ [p + bn..<e]" using bn upt_add_eq_append [of p "p + bn" "e - (p + bn)"] by simp
    then have "map ?byte [p..<e] = map ?byte [p..<p + bn] @ map ?byte [p + bn..<e]" by (simp only: map_append)
    moreover have "map ?byte [p..<p + bn] = map (\<lambda>i. fmem s (?a + i)) [0..<bn]"
      by (rule nth_equalityI) (auto simp: byte)
    moreover have "nat (int (B (p div 4096)) + int p smod 4096) = ?a"
      by (simp only: ar(4) of_nat_add [symmetric] nat_int)
    ultimately show ?thesis
      using gb ih True ar(1) ar(2) [OF True, folded bn_def] ar(3)
      by (subst file_read_loop.simps) (simp only: if_not_P not_not simp_thms option.simps prod.simps bind.bind_lunit nat_int of_nat_add [symmetric] Let_def less_irrefl if_False if_True)
  qed
qed

lemma file_read_blocks:
  assumes e: "int (off + count) \<le> f_size (fmem s) f"
    and get: "\<And>k. off \<le> k \<Longrightarrow> k < off + count \<Longrightarrow> file_get_block f (k div 4096) s = Some (0, Some (B (k div 4096)), s)"
  shows "file_read f count (int off) s = Some (int count, map (\<lambda>k. fmem s (B (k div 4096) + k mod 4096)) [off..<off + count], s)"
proof -
  have s31: "f_size (fmem s) f < 2 ^ 31" using sint_u32_range(2) by (simp add: f_size_def)
  show ?thesis
  proof (cases "int off \<ge> f_size (fmem s) f")
    case True
    then have "count = 0" using e by simp
    then show ?thesis using True by (simp add: file_read_def)
  next
    case False
    let ?rest = "f_size (fmem s) f - int off"
    have "sint (word_of_int ?rest :: u32) = ?rest" using False s31 by (intro sint_word_of_nonneg) auto
    then have c: "min (int count) (sint (word_of_int ?rest :: u32) mod 2 ^ 64) = int count"
      using e s31 False by simp
    have cnt: "sint (word_of_int (int count) :: u32) = int count"
      using e s31 by (intro sint_word_of_nonneg) auto
    have "file_read_loop f (int off) (int (off + count)) s = Some (0, map (\<lambda>k. fmem s (B (k div 4096) + k mod 4096)) [off..<off + count], s)"
      by (rule file_read_loop_blocks) (use e s31 get in auto)
    then show ?thesis using False cnt unfolding file_read_def Let_def c by simp
  qed
qed

text \<open>A well-formed file whose blocks exist.\<close>

lemma file_read_spec:
  assumes wf: "file_wf (fmem s) f" and e: "int (off + count) \<le> f_size (fmem s) f"
    and has: "\<And>k. off \<le> k \<Longrightarrow> k < off + count \<Longrightarrow> has_byte (fmem s) f k"
  shows "file_read f count (int off) s = Some (int count, map (file_byte (fmem s) f) [off..<off + count], s)"
proof -
  have "file_get_block f (k div 4096) s = Some (0, Some (DISKMAP + fblock (fmem s) f (k div 4096) * 4096), s)" if "off \<le> k" "k < off + count" for k
  proof -
    have hb: "k div 4096 < slots (fmem s) f" "fblock (fmem s) f (k div 4096) \<noteq> 0" using has [OF that] by (simp_all add: has_byte_def)
    have "0 \<le> f_size (fmem s) f" "k div 4096 \<le> nat (f_size (fmem s) f) div 4096" using e that by (auto intro!: div_le_mono)
    from file_get_block_spec [OF wf hb(1) this] hb(2) show ?thesis by auto
  qed
  from file_read_blocks [where B = "\<lambda>i. DISKMAP + fblock (fmem s) f i * 4096", OF e this] show ?thesis by (simp add: file_byte_def [abs_def])
qed

text \<open>What an operation on the contents keeps: the file stays well-formed, keeps its size and the
  bytes it has, and the bytes outside \<open>W\<close> keep their values.\<close>

definition kept :: "cmem \<Rightarrow> nat \<Rightarrow> (nat \<Rightarrow> bool) \<Rightarrow> cmem \<Rightarrow> bool" where
  "kept m f W m' \<longleftrightarrow> file_wf m' f \<and> f_size m' f = f_size m f \<and> slots m' f = slots m f \<and>
     (\<forall>k. has_byte m f k \<longrightarrow> has_byte m' f k \<and> (W k \<or> file_byte m' f k = file_byte m f k))"

lemma kept_trans:
  assumes "kept m f W m1" "kept m1 f W m2"
  shows "kept m f W m2"
  using assms unfolding kept_def by metis

lemma kept_mono: "kept m f W m1 \<Longrightarrow> (\<And>k. W k \<Longrightarrow> V k) \<Longrightarrow> kept m f V m1"
  unfolding kept_def by blast

lemma got_block_kept:
  assumes "got_block m f i m'"
  shows "kept m f W m'"
proof -
  have "has_byte m' f k \<and> file_byte m' f k = file_byte m f k" if h: "has_byte m f k" for k
  proof -
    have fb: "fblock m' f (k div BLKSIZE) = fblock m f (k div BLKSIZE)" "slots m' f = slots m f"
      using assms h by (simp_all add: got_block_def has_byte_def)
    have "m' (DISKMAP + fblock m f (k div BLKSIZE) * BLKSIZE + k mod BLKSIZE) =
          m (DISKMAP + fblock m f (k div BLKSIZE) * BLKSIZE + k mod BLKSIZE)"
      using assms h file_byte_in_block [of m f k] unfolding got_block_def has_byte_def by blast
    with fb h show ?thesis by (simp add: has_byte_def file_byte_def)
  qed
  then show ?thesis using assms by (simp add: kept_def got_block_def)
qed

text \<open>Storing bytes in one block of the file.\<close>

lemma put_block:
  assumes wf: "file_wf m f" and hb: "has_byte m f p" and pe: "p < e" and bn: "bn = min (4096 - p mod 4096) (e - p)"
    and m': "m' = (\<lambda>x. if a \<le> x \<and> x < a + bn then buf (x - a) else m x)"
    and a: "a = DISKMAP + fblock m f (p div 4096) * 4096 + p mod 4096"
  shows "kept m f (\<lambda>k. p \<le> k \<and> k < p + bn) m'"
    "\<And>k. p \<le> k \<Longrightarrow> k < p + bn \<Longrightarrow> has_byte m' f k \<and> file_byte m' f k = buf (k - p)"
proof -
  let ?b = "fblock m f (p div 4096)"
  have mt: "meta_at m f" using wf by (simp add: file_wf_def)
  have us: "usable m f ?b" using wf hb by (simp add: file_wf_def has_byte_def)
  have "bn \<le> 4096 - p mod 4096" by (simp add: bn)
  then have inb: "in_block ?b x" if "a \<le> x" "x < a + bn" for x using that a by (simp add: in_block_def)
  have sm: "same_meta m f m'" unfolding same_meta_def m'
    using usable_apart [OF mt us] inb by (auto simp del: not_le)
  note fs = frame_slot [OF sm mt]
  have hbk: "has_byte m' f k = has_byte m f k" for k by (auto simp: has_byte_def fs(3,5))
  have fb: "file_byte m' f k = (if p \<le> k \<and> k < p + bn then buf (k - p) else file_byte m f k)" if h: "has_byte m f k" for k
  proof (cases "k div 4096 = p div 4096")
    case True
    let ?x = "DISKMAP + ?b * 4096 + k mod 4096"
    have x: "file_byte m' f k = m' ?x" "file_byte m f k = m ?x"
      using True fs(5) h by (simp_all add: file_byte_def has_byte_def)
    have "k = p div 4096 * 4096 + k mod 4096" "p = p div 4096 * 4096 + p mod 4096" using True by (metis div_mult_mod_eq)+
    then have "a \<le> ?x \<longleftrightarrow> p \<le> k" "?x < a + bn \<longleftrightarrow> k < p + bn" "?x - a = k - p" using a by linarith+
    then show ?thesis unfolding x by (simp add: m')
  next
    case False
    have "\<not> (p \<le> k \<and> k < p + bn)" using step_block(1) [OF pe bn, of k] False by blast
    moreover have "m' (DISKMAP + fblock m f (k div 4096) * 4096 + k mod 4096) = m (DISKMAP + fblock m f (k div 4096) * 4096 + k mod 4096)"
    proof -
      have "fblock m f (k div 4096) \<noteq> ?b" using wf h hb False by (simp add: file_wf_def has_byte_def)
      then have "\<not> in_block ?b (DISKMAP + fblock m f (k div 4096) * 4096 + k mod 4096)"
        using in_block_unique file_byte_in_block by blast
      then show ?thesis using inb by (auto simp: m')
    qed
    ultimately show ?thesis using fs(5) h by (auto simp: file_byte_def has_byte_def)
  qed
  show "kept m f (\<lambda>k. p \<le> k \<and> k < p + bn) m'"
    using file_wf_frame [OF sm wf] fs by (auto simp: kept_def hbk fb)
  show "has_byte m' f k \<and> file_byte m' f k = buf (k - p)" if "p \<le> k" "k < p + bn" for k
  proof -
    have "has_byte m f k" using hb step_block(1) [OF pe bn that] by (simp add: has_byte_def)
    then show ?thesis using that by (simp add: hbk fb)
  qed
qed

lemma file_write_loop_spec:
  assumes pe: "p \<le> e" "e < 2 ^ 31" and wf: "file_wf (fmem s) f"
    and e: "int e \<le> f_size (fmem s) f" "e \<le> 4096 * slots (fmem s) f"
  shows "\<exists>r s'. file_write_loop f buf (int p) (int e) s = Some (r, s') \<and> (r = 0 \<or> r = - E_NO_DISK) \<and>
    kept (fmem s) f (\<lambda>k. p \<le> k \<and> k < e) (fmem s') \<and>
    (r = 0 \<longrightarrow> (\<forall>k. p \<le> k \<and> k < e \<longrightarrow> has_byte (fmem s') f k \<and> file_byte (fmem s') f k = buf (k - p)))"
  using pe(1) wf e
proof (induction "e - p" arbitrary: p s buf rule: less_induct)
  case less
  have p: "p < 2 ^ 31" using less.prems pe(2) by linarith
  note ar = transfer_arith [OF p pe(2)]
  show ?case
  proof (cases "p < e")
    case False
    then show ?thesis using less.prems ar(1) by (auto simp: file_write_loop.simps kept_def)
  next
    case True
    define bn where "bn = min (4096 - p mod 4096) (e - p)"
    have bn: "0 < bn" "p + bn \<le> e" using True by (auto simp: bn_def)
    have i: "p div 4096 < slots (fmem s) f" using True less.prems(4) by (simp add: div_less_iff_less_mult)
    have sz: "0 \<le> f_size (fmem s) f" "p div 4096 \<le> nat (f_size (fmem s) f) div 4096"
      using less.prems True by (auto intro!: div_le_mono)
    obtain r blk s1 where gb: "file_get_block f (p div 4096) s = Some (r, blk, s1)"
      "(r = - E_NO_DISK \<and> s1 = s) \<or> (r = 0 \<and> blk = Some (DISKMAP + fblock (fmem s1) f (p div 4096) * 4096) \<and>
         got_block (fmem s) f (p div 4096) (fmem s1))"
      using file_get_block_spec [OF less.prems(2) i sz] by blast
    from gb(2) show ?thesis
    proof
      assume r: "r = - E_NO_DISK \<and> s1 = s"
      show ?thesis using gb(1) True ar(1,3) r less.prems
        by (subst file_write_loop.simps) (simp add: kept_def)
    next
      assume r: "r = 0 \<and> blk = Some (DISKMAP + fblock (fmem s1) f (p div 4096) * 4096) \<and>
         got_block (fmem s) f (p div 4096) (fmem s1)"
      then have k1: "kept (fmem s) f (\<lambda>k. p \<le> k \<and> k < e) (fmem s1)" by (intro got_block_kept [of _ _ "p div 4096"]) simp
      let ?a = "DISKMAP + fblock (fmem s1) f (p div 4096) * 4096 + p mod 4096"
      let ?s2 = "put_bytes ?a bn buf s1"
      have hb: "has_byte (fmem s1) f p" using r i by (simp add: has_byte_def got_block_def)
      have wf1: "file_wf (fmem s1) f" using k1 by (simp add: kept_def)
      have pm: "fmem ?s2 = (\<lambda>x. if ?a \<le> x \<and> x < ?a + bn then buf (x - ?a) else fmem s1 x)" by (simp add: put_bytes_def)
      note pb = put_block [OF wf1 hb True bn_def pm refl]
      have k2: "kept (fmem s1) f (\<lambda>k. p \<le> k \<and> k < e) (fmem ?s2)"
        by (rule kept_mono [OF pb(1)]) (use bn in auto)
      note k12 = kept_trans [OF k1 k2]
      have "\<exists>r s'. file_write_loop f (\<lambda>i. buf (bn + i)) (int (p + bn)) (int e) ?s2 = Some (r, s') \<and>
        (r = 0 \<or> r = - E_NO_DISK) \<and> kept (fmem ?s2) f (\<lambda>k. p + bn \<le> k \<and> k < e) (fmem s') \<and>
        (r = 0 \<longrightarrow> (\<forall>k. p + bn \<le> k \<and> k < e \<longrightarrow>
           has_byte (fmem s') f k \<and> file_byte (fmem s') f k = buf (bn + (k - (p + bn)))))"
        by (rule less.hyps) (use bn True less.prems k12 in \<open>auto simp: kept_def\<close>)
      then obtain r' s' where ih: "file_write_loop f (\<lambda>i. buf (bn + i)) (int (p + bn)) (int e) ?s2 = Some (r', s')"
        "r' = 0 \<or> r' = - E_NO_DISK" and k3: "kept (fmem ?s2) f (\<lambda>k. p + bn \<le> k \<and> k < e) (fmem s')"
        and w: "r' = 0 \<Longrightarrow> p + bn \<le> k \<Longrightarrow> k < e \<Longrightarrow>
           has_byte (fmem s') f k \<and> file_byte (fmem s') f k = buf (bn + (k - (p + bn)))" for k by blast
      have "nat (int (DISKMAP + fblock (fmem s1) f (p div 4096) * 4096) + int p smod 4096) = ?a"
        by (simp only: ar(4) of_nat_add [symmetric] nat_int)
      then have run: "file_write_loop f buf (int p) (int e) s = Some (r', s')"
        using gb(1) r ih(1) True ar(1) ar(2) [OF True, folded bn_def] ar(3)
        by (subst file_write_loop.simps) (simp only: if_not_P not_not simp_thms option.simps prod.simps bind.bind_lunit nat_int of_nat_add [symmetric] Let_def less_irrefl if_False if_True)
      have "kept (fmem s) f (\<lambda>k. p \<le> k \<and> k < e) (fmem s')"
        by (rule kept_trans [OF k12 kept_mono [OF k3]]) auto
      moreover have "has_byte (fmem s') f k \<and> file_byte (fmem s') f k = buf (k - p)" if "r' = 0" "p \<le> k" "k < e" for k
      proof (cases "k < p + bn")
        case False
        then show ?thesis using w [OF that(1), of k] that by simp
      next
        case k: True
        from pb(2) [OF that(2) k] k3 k show ?thesis by (auto simp: kept_def)
      qed
      ultimately show ?thesis using run ih(2) by blast
    qed
  qed
qed

text \<open>Changing the size field keeps everything else.\<close>

lemma resize_wf:
  assumes wf: "file_wf m f" and m': "m' = wr32 m (f + 128) w"
  shows "file_wf m' f" "slots m' f = slots m f" "f_size m' f = sint w"
    "has_byte m' f k = has_byte m f k" "has_byte m f k \<Longrightarrow> file_byte m' f k = file_byte m f k"
proof -
  have mt: "meta_at m f" using wf by (simp add: file_wf_def)
  have rd: "rd32 m' a = rd32 m a" if "a + 4 \<le> f + 128 \<or> f + 132 \<le> a" for a
    unfolding m' by (rule rd32_wr32_other) (use that in auto)
  have n: "s_nblocks m' = s_nblocks m" unfolding s_nblocks_def by (rule rd) (use mt in \<open>auto simp: meta_at_def\<close>)
  have ind: "f_indirect m' f = f_indirect m f" unfolding f_indirect_def by (rule rd) auto
  show sl: "slots m' f = slots m f" by (simp add: slots_def ind)
  have sa: "slot_at m' f i = slot_at m f i" for i by (simp add: slot_at_def ind)
  show "f_size m' f = sint w" by (simp add: f_size_def m')
  have be: "bitmap_end m' = bitmap_end m" by (simp add: bitmap_end_def n)
  have fr: "block_is_free m' c = block_is_free m c" for c
  proof (cases "c < unat (s_nblocks m)")
    case True
    have "rd32 m' (bitmap_word c) = rd32 m (bitmap_word c)"
      by (rule rd) (use bitmap_word_end [OF True] bitmap_word_ge [of c] mt in \<open>auto simp: meta_at_def\<close>)
    then show ?thesis by (simp add: block_is_free_iff n)
  qed (simp add: block_is_free_iff n)
  have us: "usable m' f c = usable m f c" "data_ok m' c = data_ok m c" "meta_at m' f = meta_at m f" for c
    by (simp_all add: usable_def data_ok_def meta_at_def be n ind)
  have fb: "fblock m' f i = fblock m f i" if "i < slots m f" for i
    unfolding fblock_def sa using rd slot_above(4) [OF wf that] by metis
  show "file_wf m' f" using wf unfolding file_wf_def us ind sl fr by (simp add: fb)
  show "has_byte m' f k = has_byte m f k" by (auto simp: has_byte_def sl fb)
  show "file_byte m' f k = file_byte m f k" if h: "has_byte m f k"
  proof -
    let ?x = "DISKMAP + fblock m f (k div BLKSIZE) * BLKSIZE + k mod BLKSIZE"
    have "usable m f (fblock m f (k div BLKSIZE))" using wf h by (simp add: file_wf_def has_byte_def)
    from usable_apart [OF mt this file_byte_in_block] have "\<not> meta_addr m f ?x" .
    then have "?x < f + 128 \<or> f + 128 + 4 \<le> ?x" by (auto simp: meta_addr_def)
    then have "m' ?x = m ?x" unfolding m' by (rule wr32_other)
    then show ?thesis using h fb by (simp add: file_byte_def has_byte_def)
  qed
qed

text \<open>A write returns, and reports either all bytes or a full disk; the file stays well-formed, the
  bytes outside the written range stay, and after success the range holds the bytes written.\<close>

lemma file_write_spec:
  assumes wf: "file_wf (fmem s) f" and sz: "0 \<le> f_size (fmem s) f"
    and e: "off + count < 2 ^ 31" "off + count \<le> 4096 * slots (fmem s) f"
  shows "\<exists>r s'. file_write f buf count (int off) s = Some (r, s') \<and> (r = int count \<or> r = - E_NO_DISK) \<and>
    file_wf (fmem s') f \<and> f_size (fmem s') f = max (f_size (fmem s) f) (int (off + count)) \<and>
    (\<forall>k. has_byte (fmem s) f k \<longrightarrow> k < off \<or> off + count \<le> k \<longrightarrow>
       has_byte (fmem s') f k \<and> file_byte (fmem s') f k = file_byte (fmem s) f k) \<and>
    (r = int count \<longrightarrow> (\<forall>k. off \<le> k \<and> k < off + count \<longrightarrow>
       has_byte (fmem s') f k \<and> file_byte (fmem s') f k = buf (k - off)))"
proof -
  let ?e = "off + count"
  have mt: "meta_at (fmem s) f" using wf by (simp add: file_wf_def)
  have s31: "f_size (fmem s) f < 2 ^ 31" using sint_u32_range(2) by (simp add: f_size_def)
  have cmp: "(int off + int count) mod 2 ^ 64 > f_size (fmem s) f mod 2 ^ 64 \<longleftrightarrow> f_size (fmem s) f < int ?e"
    using sz s31 e(1) by simp
  have si: "sint (word_of_int (int off + int count) :: u32) = int ?e"
    using sint_word_of_nonneg [of "int ?e"] e(1) by simp
  obtain s1 where s1: "(if (int off + int count) mod 2 ^ 64 > f_size (fmem s) f mod 2 ^ 64
         then file_set_size f (sint (word_of_int (int off + int count) :: u32)) s else Some (0, s)) = Some (0, s1)"
    and w1: "file_wf (fmem s1) f" "slots (fmem s1) f = slots (fmem s) f"
      "f_size (fmem s1) f = max (f_size (fmem s) f) (int ?e)"
    and b1: "\<And>k. has_byte (fmem s1) f k = has_byte (fmem s) f k"
      "\<And>k. has_byte (fmem s) f k \<Longrightarrow> file_byte (fmem s1) f k = file_byte (fmem s) f k"
  proof (cases "f_size (fmem s) f < int ?e")
    case False
    then have "max (f_size (fmem s) f) (int ?e) = f_size (fmem s) f" by simp
    with False show ?thesis using that [of s] wf cmp by simp
  next
    case True
    let ?w = "word_of_int (int ?e) :: u32"
    have "DISKMAP \<le> f" "f < DISKMAP + DISKSIZE" using mt by (auto simp: meta_at_def)
    then obtain s2 where s2: "fs_flush f (put32 (f + 128) ?w s) = Some s2" "fmem s2 = wr32 (fmem s) (f + 128) ?w"
      by (auto simp: fs_flush_def put32_def)
    have "sint ?w = int ?e" using e(1) by (intro sint_word_of_nonneg) auto
    note rw = resize_wf [OF wf s2(2), unfolded this]
    have mx: "int ?e = max (f_size (fmem s) f) (int ?e)" using True by simp
    have set: "file_set_size f (int ?e) s = Some (0, s2)"
      using True s2(1) by (simp add: file_set_size_def del: of_nat_add)
    show ?thesis
      by (rule that [OF _ rw(1,2) trans [OF rw(3) mx] rw(4,5)]) (simp only: cmp True if_True si set)
  qed
  have "int ?e \<le> f_size (fmem s1) f" "?e \<le> 4096 * slots (fmem s1) f" using w1 e by simp_all
  then obtain r s' where lp: "file_write_loop f buf (int off) (int ?e) s1 = Some (r, s')" "r = 0 \<or> r = - E_NO_DISK"
    "kept (fmem s1) f (\<lambda>k. off \<le> k \<and> k < ?e) (fmem s')"
    "r = 0 \<longrightarrow> (\<forall>k. off \<le> k \<and> k < ?e \<longrightarrow> has_byte (fmem s') f k \<and> file_byte (fmem s') f k = buf (k - off))"
    using file_write_loop_spec [OF le_add1 e(1) w1(1)] by blast
  have cnt: "sint (word_of_int (int count) :: u32) = int count" using e(1) by (intro sint_word_of_nonneg) auto
  have "file_write f buf count (int off) s = Some (if r < 0 then r else int count, s')"
    unfolding file_write_def s1 using lp(1) cnt by (simp split: if_splits)
  moreover have "has_byte (fmem s') f k \<and> file_byte (fmem s') f k = file_byte (fmem s) f k"
    if "has_byte (fmem s) f k" "k < off \<or> ?e \<le> k" for k
    using lp(3) that b1 unfolding kept_def by fastforce
  ultimately show ?thesis using lp w1(3) by (auto simp: kept_def)
qed

section \<open>Properties\<close>

text \<open>A small disk: 100 blocks, of which those from 8 on are free, and an empty root directory.\<close>

definition small_disk :: fsstate where
  "small_disk = \<lparr>fmem = (\<lambda>a. if a = super_at + 4 then 100
        else if bitmap_at < a \<and> a < bitmap_at + 16 then 0xFF else 0), fdisk = (\<lambda>_. 0)\<rparr>"

definition small_root :: nat where
  "small_root = root_at"

lemma small_disk_wf: "file_wf (fmem small_disk) small_root" "f_size (fmem small_disk) small_root = 0"
  "slots (fmem small_disk) small_root = 10"
proof -
  let ?m = "fmem small_disk"
  have n: "s_nblocks ?m = 100" by (simp add: s_nblocks_def rd32_def small_disk_def)
  have e: "bitmap_end ?m = bitmap_at + 16" by (simp add: bitmap_end_def n)
  have z: "rd32 ?m (small_root + k) = 0" if "k + 4 \<le> 256" for k
    using that by (simp add: rd32_def small_disk_def small_root_def)
  have ind: "f_indirect ?m small_root = 0" using z [of 176] by (simp add: f_indirect_def)
  show "f_size ?m small_root = 0" using z [of 128] by (simp add: f_size_def)
  show sl: "slots ?m small_root = 10" by (simp add: slots_def ind)
  have fb: "fblock ?m small_root i = 0" if "i < 10" for i
    using z [of "136 + 4 * i"] that by (simp add: fblock_def slot_at_def f_direct_at_def add.assoc)
  have mt: "meta_at ?m small_root" by (simp add: meta_at_def small_root_def)
  have us: "usable ?m small_root b" if b: "2 \<le> b" "block_is_free ?m b" for b
  proof -
    have "\<not> block_is_free ?m 2"
      by (simp add: block_is_free_iff bitmap_word_def rd32_def small_disk_def bit_simps)
    then have "3 \<le> b" using b by (cases "b = 2") auto
    moreover have "b < 100" using b(2) by (simp add: block_is_free_iff n)
    ultimately show ?thesis by (simp add: usable_def data_ok_def e n ind) (simp add: blockno_of_def small_root_def)
  qed
  show "file_wf ?m small_root"
    unfolding file_wf_def sl using mt ind us fb by simp
qed

text \<open>C5: writing \<open>count\<close> bytes at an offset of a well-formed file, inside its direct blocks or the
  blocks of its indirect block, returns; it reports either \<open>count\<close> or a full disk.  The file stays
  well-formed, its size is the larger of the old size and the end of the write, and the bytes outside
  the written range keep their values.  After success, reading the range returns exactly the bytes
  written, and changes nothing.\<close>

theorem file_write_then_read:
  assumes "file_wf (fmem s) f" "0 \<le> f_size (fmem s) f"
    and "off + count < 2 ^ 31" "off + count \<le> BLKSIZE * slots (fmem s) f"
  shows "\<exists>r s'. file_write f buf count (int off) s = Some (r, s') \<and> (r = int count \<or> r = - E_NO_DISK) \<and>
    file_wf (fmem s') f \<and> f_size (fmem s') f = max (f_size (fmem s) f) (int (off + count)) \<and>
    (\<forall>k. has_byte (fmem s) f k \<longrightarrow> k < off \<or> off + count \<le> k \<longrightarrow>
       file_byte (fmem s') f k = file_byte (fmem s) f k) \<and>
    (r = int count \<longrightarrow> file_read f count (int off) s' = Some (int count, map buf [0..<count], s'))"
proof -
  obtain r s' where w: "file_write f buf count (int off) s = Some (r, s')" "r = int count \<or> r = - E_NO_DISK"
    "file_wf (fmem s') f" "f_size (fmem s') f = max (f_size (fmem s) f) (int (off + count))"
    "\<forall>k. has_byte (fmem s) f k \<longrightarrow> k < off \<or> off + count \<le> k \<longrightarrow>
       has_byte (fmem s') f k \<and> file_byte (fmem s') f k = file_byte (fmem s) f k"
    "r = int count \<longrightarrow> (\<forall>k. off \<le> k \<and> k < off + count \<longrightarrow>
       has_byte (fmem s') f k \<and> file_byte (fmem s') f k = buf (k - off))"
    using file_write_spec [OF assms] by blast
  have "file_read f count (int off) s' = Some (int count, map buf [0..<count], s')" if "r = int count"
  proof -
    have "file_read f count (int off) s' =
        Some (int count, map (file_byte (fmem s') f) [off..<off + count], s')"
      by (rule file_read_spec [OF w(3)]) (use w(4,6) that in auto)
    moreover have "map (file_byte (fmem s') f) [off..<off + count] = map buf [0..<count]"
      by (rule nth_equalityI) (use w(6) that in auto)
    ultimately show ?thesis by simp
  qed
  with w show ?thesis by blast
qed

theorem file_write_then_read_witness:
  "\<exists>r s'. file_write small_root (\<lambda>i. of_nat i) 5000 3000 small_disk = Some (r, s') \<and>
     (r = 5000 \<or> r = - E_NO_DISK) \<and> f_size (fmem s') small_root = 8000 \<and>
     (r = 5000 \<longrightarrow> file_read small_root 5000 3000 s' = Some (5000, map (\<lambda>i. of_nat i) [0..<5000], s'))"
proof -
  have "0 \<le> f_size (fmem small_disk) small_root" "3000 + 5000 \<le> BLKSIZE * slots (fmem small_disk) small_root"
    by (simp_all add: small_disk_wf)
  from file_write_then_read [where off = 3000 and count = 5000 and buf = "\<lambda>i. of_nat i", OF small_disk_wf(1) this(1) _ this(2)]
  show ?thesis by (auto simp: small_disk_wf(2) simp del: upt_rec_numeral)
qed

text \<open>\<open>alloc_block\<close> always returns: either a block that was free, which it marks used and changes
  nothing else in the bitmap, or the error code for a full disk, in which case no block from 2 on is
  free and nothing has changed.\<close>

theorem alloc_block_takes_free:
  "\<exists>r s'. alloc_block s = Some (r, s') \<and>
     ((r = - E_NO_DISK \<and> s' = s \<and> (\<forall>b. 2 \<le> b \<longrightarrow> \<not> block_is_free (fmem s) b)) \<or>
      (\<exists>b. r = int b \<and> 2 \<le> b \<and> block_is_free (fmem s) b \<and>
        (\<forall>c. block_is_free (fmem s') c \<longleftrightarrow> c \<noteq> b \<and> block_is_free (fmem s) c)))"
  using alloc_block_spec [of s] by blast

lemma small_disk_free: "block_is_free (fmem small_disk) 8"
  by (simp add: block_is_free_iff bitmap_word_def s_nblocks_def rd32_def small_disk_def bit_simps)

theorem alloc_block_takes_free_witness:
  "\<exists>b s'. alloc_block small_disk = Some (int b, s') \<and> block_is_free (fmem small_disk) b \<and>
     \<not> block_is_free (fmem s') b"
proof -
  have "\<not> (\<forall>b. 2 \<le> b \<longrightarrow> \<not> block_is_free (fmem small_disk) b)" using small_disk_free by fastforce
  then show ?thesis using alloc_block_takes_free [of small_disk] by blast
qed

lemma alloc_block_Some:
  assumes "alloc_block s = Some (int b, s1)"
  shows "2 \<le> b \<and> block_is_free (fmem s) b \<and> (\<exists>w. fmem s1 = wr32 (fmem s) (bitmap_word b) w) \<and>
    (\<forall>c. block_is_free (fmem s1) c \<longleftrightarrow> c \<noteq> b \<and> block_is_free (fmem s) c)"
proof -
  obtain r s' where rs: "alloc_block s = Some (r, s')"
    "(r = - E_NO_DISK \<and> s' = s \<and> (\<forall>b. 2 \<le> b \<longrightarrow> \<not> block_is_free (fmem s) b)) \<or>
      (\<exists>b w. r = int b \<and> 2 \<le> b \<and> block_is_free (fmem s) b \<and> fmem s' = wr32 (fmem s) (bitmap_word b) w \<and>
        (\<forall>c. block_is_free (fmem s') c \<longleftrightarrow> c \<noteq> b \<and> block_is_free (fmem s) c))"
    using alloc_block_spec [of s] by blast
  have e: "r = int b" "s' = s1" using assms unfolding rs(1) by simp_all
  have "int b \<noteq> - E_NO_DISK" by simp
  with rs(2) obtain b' w where b': "int b = int b'" "2 \<le> b'" "block_is_free (fmem s) b'"
    "fmem s1 = wr32 (fmem s) (bitmap_word b') w"
    "\<forall>c. block_is_free (fmem s1) c \<longleftrightarrow> c \<noteq> b' \<and> block_is_free (fmem s) c"
    unfolding e by blast
  from b'(1) have "b' = b" by simp
  with b' show ?thesis by blast
qed

text \<open>Freeing a block makes it free and changes the state of no other block; freeing a block that
  was just allocated restores the set of free blocks.\<close>

theorem free_after_alloc_restores:
  assumes "alloc_block s = Some (int b, s1)"
  shows "\<exists>s2. free_block b s1 = Some s2 \<and> (\<forall>c. block_is_free (fmem s2) c \<longleftrightarrow> block_is_free (fmem s) c)"
proof -
  have b: "2 \<le> b" "block_is_free (fmem s) b"
    and fr: "\<And>c. block_is_free (fmem s1) c \<longleftrightarrow> c \<noteq> b \<and> block_is_free (fmem s) c"
    and m: "\<exists>w. fmem s1 = wr32 (fmem s) (bitmap_word b) w"
    using alloc_block_Some [OF assms] by blast+
  from m obtain w where w: "fmem s1 = wr32 (fmem s) (bitmap_word b) w" ..
  have "s_nblocks (fmem s1) = s_nblocks (fmem s)"
    unfolding w by (rule s_nblocks_wr) (use bitmap_word_ge [of b] in simp)
  then have n: "b \<noteq> 0" "b < unat (s_nblocks (fmem s1))" using b by (auto simp: block_is_free_iff)
  from free_block_spec [OF n] b fr show ?thesis by auto
qed

theorem free_after_alloc_restores_witness:
  "\<exists>b s1 s2. alloc_block small_disk = Some (int b, s1) \<and> free_block b s1 = Some s2 \<and>
     (\<forall>c. block_is_free (fmem s2) c \<longleftrightarrow> block_is_free (fmem small_disk) c)"
proof -
  have "\<not> (\<forall>b. 2 \<le> b \<longrightarrow> \<not> block_is_free (fmem small_disk) b)" using small_disk_free by fastforce
  then obtain b s1 where a: "alloc_block small_disk = Some (int b, s1)"
    using alloc_block_spec [of small_disk] by blast
  from free_after_alloc_restores [OF a] a show ?thesis by blast
qed

end
