(* ===== verification/Fs_Serv.thy ===== *)
theory Fs_Serv
  imports User_Mem Fs_Contents
begin

text \<open>
  The file server, \<^verbatim>\<open>fs/serv.c\<close>: the table of open files, the handlers of the requests and
  one round of the server loop.

  The memory of the server is in two parts: the disk map with its block cache (\<open>sfs\<close>) and the
  other pages (\<open>smem\<close>), among them the descriptor pages that it shares with its clients and the
  page of the current request at \<open>fsreq\<close>.  \<open>None\<close> is a fault that stops the server.
\<close>

abbreviation MAXOPEN :: nat where "MAXOPEN \<equiv> 1024"
abbreviation FILEVA :: nat where "FILEVA \<equiv> 0xD0000000"
abbreviation MAXPATHLEN :: nat where "MAXPATHLEN \<equiv> 1024"
abbreviation fsreq :: nat where "fsreq \<equiv> 0x0FFFF000"
abbreviation O_CREAT :: u32 where "O_CREAT \<equiv> 0x100"
abbreviation O_TRUNC :: u32 where "O_TRUNC \<equiv> 0x200"
abbreviation O_EXCL :: u32 where "O_EXCL \<equiv> 0x400"
abbreviation ACCMODE :: u32 where "ACCMODE \<equiv> 3"
abbreviation DEV_FILE :: u32 where "DEV_FILE \<equiv> 0x66"
abbreviation FD_PERM :: u32 where "FD_PERM \<equiv> UPTE_P OR UPTE_U OR UPTE_W"

record openfile =
  o_fileid :: u32
  o_file :: "nat option"
  o_mode :: u32
  o_fd :: nat

record server =
  opentab :: "openfile list"
  sfs :: fsstate
  smem :: umem

section \<open>Memory of the server\<close>

text \<open>A byte of the server's memory: the disk map follows the request page directly.\<close>

definition sld8 :: "nat \<Rightarrow> server \<Rightarrow> u8 option" where
  "sld8 va s = (if DISKMAP \<le> va \<and> va < DISKMAP + DISKSIZE then Some (fmem (sfs s) va) else uld8 va (smem s))"

text \<open>The bytes from an address, as far as they are mapped and at most \<open>n\<close>.\<close>

definition sbytes :: "nat \<Rightarrow> nat \<Rightarrow> server \<Rightarrow> u8 list" where
  "sbytes va n s = map the (takeWhile (\<lambda>b. b \<noteq> None) (map (\<lambda>i. sld8 (va + i) s) [0..<n]))"

section \<open>The table of open files\<close>

definition serve_init :: "server \<Rightarrow> server" where
  "serve_init s = s\<lparr>opentab := map (\<lambda>i. (opentab s ! i)\<lparr>o_fileid := of_nat i, o_fd := FILEVA + i * PGSIZE\<rparr>) [0..<MAXOPEN]\<rparr>"

text \<open>The search of \<open>openfile_alloc\<close> over the remaining entries; the entry found is the second result.\<close>

fun openfile_alloc_loop :: "nat list \<Rightarrow> server \<Rightarrow> (int \<times> nat option \<times> server) option" where
  "openfile_alloc_loop [] s = Some (- E_MAX_OPEN, None, s)"
| "openfile_alloc_loop (i # is) s =
     (let fd = o_fd (opentab s ! i);
          take = (\<lambda>t. do {
            let id = o_fileid (opentab t ! i) + of_nat MAXOPEN;
            m \<leftarrow> uzero_page fd (smem t);
            Some (sint id, Some i, t\<lparr>opentab := (opentab t)[i := (opentab t ! i)\<lparr>o_fileid := id\<rparr>], smem := m\<rparr>) })
      in if pageref fd (smem s) = 0 then
           let (r, m) = u_page_alloc fd FD_PERM (smem s) in
           if r < 0 then Some (r, None, s\<lparr>smem := m\<rparr>) else take (s\<lparr>smem := m\<rparr>)
         else if pageref fd (smem s) = 1 then take s
         else openfile_alloc_loop is s)"

definition openfile_alloc :: "server \<Rightarrow> (int \<times> nat option \<times> server) option" where
  "openfile_alloc s = openfile_alloc_loop [0..<MAXOPEN] s"

definition openfile_lookup :: "u32 \<Rightarrow> u32 \<Rightarrow> server \<Rightarrow> int \<times> nat option" where
  "openfile_lookup envid fileid s =
     (let i = unat fileid mod MAXOPEN; o' = opentab s ! i in
      if pageref (o_fd o') (smem s) = 1 \<or> o_fileid o' \<noteq> fileid then (- E_INVAL, None) else (0, Some i))"

section \<open>Requests\<close>

text \<open>The path of a request: \<open>MAXPATHLEN\<close> bytes are copied and the last is set to zero.\<close>

definition req_path :: "nat \<Rightarrow> server \<Rightarrow> u8 list option" where
  "req_path req s =
     (let bs = sbytes req MAXPATHLEN s in
      if length bs < MAXPATHLEN then None else Some (takeWhile (\<lambda>b. b \<noteq> 0) (take (MAXPATHLEN - 1) bs)))"

definition open_file :: "u8 list \<Rightarrow> u32 \<Rightarrow> fsstate \<Rightarrow> (int \<times> nat option \<times> fsstate) option" where
  "open_file path omode s =
     (if omode AND O_CREAT \<noteq> 0 then do {
        (r, f, s1) \<leftarrow> file_create path s;
        if r < 0 \<and> omode AND O_EXCL = 0 \<and> r = - E_FILE_EXISTS then file_open path s1
        else Some (r, f, s1) }
      else file_open path s)"

definition serve_open :: "u32 \<Rightarrow> nat \<Rightarrow> server \<Rightarrow> (int \<times> (nat \<times> u32) option \<times> server) option" where
  "serve_open envid req s = do {
     path \<leftarrow> req_path req s;
     (fileid, oi, s1) \<leftarrow> openfile_alloc s;
     if fileid < 0 then Some (fileid, None, s1)
     else do {
       i \<leftarrow> oi;
       omode \<leftarrow> uld32 (req + MAXPATHLEN) (smem s1);
       (r, f, fs1) \<leftarrow> open_file path omode (sfs s1);
       if r < 0 then Some (r, None, s1\<lparr>sfs := fs1\<rparr>)
       else do {
         f' \<leftarrow> f;
         (r2, fs2) \<leftarrow> (if omode AND O_TRUNC \<noteq> 0 then file_set_size f' 0 fs1 else Some (0, fs1));
         if r2 < 0 then Some (r2, None, s1\<lparr>sfs := fs2\<rparr>)
         else do {
           let o' = opentab s1 ! i;
           m1 \<leftarrow> ust32 (o_fd o' + 12) (o_fileid o') (smem s1);
           m2 \<leftarrow> ust32 (o_fd o' + 8) (omode AND ACCMODE) m1;
           m3 \<leftarrow> ust32 (o_fd o') DEV_FILE m2;
           Some (0, Some (o_fd o', UPTE_P OR UPTE_U OR UPTE_W OR UPTE_SHARE),
             s1\<lparr>sfs := fs2, smem := m3, opentab := (opentab s1)[i := o'\<lparr>o_file := Some f', o_mode := omode\<rparr>]\<rparr>) } } } }"

definition serve_set_size :: "u32 \<Rightarrow> nat \<Rightarrow> server \<Rightarrow> (int \<times> server) option" where
  "serve_set_size envid req s = do {
     fileid \<leftarrow> uld32 req (smem s);
     (case openfile_lookup envid fileid s of
        (r, None) \<Rightarrow> Some (r, s)
      | (_, Some i) \<Rightarrow> do {
          size \<leftarrow> uld32 (req + 4) (smem s);
          f \<leftarrow> o_file (opentab s ! i);
          (r, fs1) \<leftarrow> file_set_size f (sint size) (sfs s);
          Some (r, s\<lparr>sfs := fs1\<rparr>) }) }"

text \<open>The request and the answer of a read are at the same address: the count is read, and cut
  to a page in place, before the bytes are stored.\<close>

definition serve_read :: "u32 \<Rightarrow> nat \<Rightarrow> server \<Rightarrow> (int \<times> server) option" where
  "serve_read envid ipc s = do {
     fileid \<leftarrow> uld32 ipc (smem s);
     (case openfile_lookup envid fileid s of
        (r, None) \<Rightarrow> Some (r, s)
      | (_, Some i) \<Rightarrow>
          let o' = opentab s ! i in
          (case o_file o' of
             None \<Rightarrow> Some (- 1, s)
           | Some f \<Rightarrow> do {
               n \<leftarrow> uld64 (ipc + 8) (smem s);
               m1 \<leftarrow> (if n > PGSIZE then ust64 (ipc + 8) PGSIZE (smem s) else Some (smem s));
               off \<leftarrow> uld32 (o_fd o' + 4) m1;
               (r, bs, fs1) \<leftarrow> file_read f (min n PGSIZE) (sint off) (sfs s);
               m2 \<leftarrow> ust_list ipc bs m1;
               if r \<le> 0 then Some (r, s\<lparr>sfs := fs1, smem := m2\<rparr>)
               else do {
                 off' \<leftarrow> uld32 (o_fd o' + 4) m2;
                 m3 \<leftarrow> ust32 (o_fd o' + 4) (off' + word_of_int r) m2;
                 Some (r, s\<lparr>sfs := fs1, smem := m3\<rparr>) } })) }"

text \<open>The bytes to write start at offset 16 of the request.  Nothing bounds \<open>req_n\<close> by the page:
  the bytes after it are those of the first block of the disk map.  A request that goes on past
  that block, whose bytes the call may itself change while it copies them, is not modelled.\<close>

definition serve_write :: "u32 \<Rightarrow> nat \<Rightarrow> server \<Rightarrow> (int \<times> server) option" where
  "serve_write envid req s = do {
     fileid \<leftarrow> uld32 req (smem s);
     (case openfile_lookup envid fileid s of
        (r, None) \<Rightarrow> Some (r, s)
      | (_, Some i) \<Rightarrow>
          let o' = opentab s ! i in
          (case o_file o' of
             None \<Rightarrow> Some (- 1, s)
           | Some f \<Rightarrow> do {
               n \<leftarrow> uld64 (req + 8) (smem s);
               off \<leftarrow> uld32 (o_fd o' + 4) (smem s);
               let bs = sbytes (req + 16) n s;
               if n > PGSIZE - 16 + BLKSIZE \<or> length bs < n then None
               else do {
                 (r, fs1) \<leftarrow> file_write f (\<lambda>k. bs ! k) n (sint off) (sfs s);
                 if r < 0 then Some (r, s\<lparr>sfs := fs1\<rparr>)
                 else do {
                   m1 \<leftarrow> ust32 (o_fd o' + 4) (off + word_of_int r) (smem s);
                   Some (r, s\<lparr>sfs := fs1, smem := m1\<rparr>) } } })) }"

text \<open>\<open>strcpy\<close> of the name stops at the first zero byte; a name that fills a page is not modelled.\<close>

definition serve_stat :: "u32 \<Rightarrow> nat \<Rightarrow> server \<Rightarrow> (int \<times> server) option" where
  "serve_stat envid ipc s = do {
     fileid \<leftarrow> uld32 ipc (smem s);
     (case openfile_lookup envid fileid s of
        (r, None) \<Rightarrow> Some (r, s)
      | (_, Some i) \<Rightarrow> do {
          f \<leftarrow> o_file (opentab s ! i);
          let name = takeWhile (\<lambda>b. b \<noteq> 0) (map (\<lambda>k. fmem (sfs s) (f + k)) [0..<PGSIZE]);
          if length name = PGSIZE then None
          else do {
            m1 \<leftarrow> ust_list ipc (name @ [0]) (smem s);
            m2 \<leftarrow> ust32 (ipc + 128) (word_of_int (f_size (fmem (sfs s)) f)) m1;
            m3 \<leftarrow> ust32 (ipc + 132) (of_bool (f_type (fmem (sfs s)) f = FTYPE_DIR)) m2;
            Some (0, s\<lparr>smem := m3\<rparr>) } }) }"

definition serve_flush :: "u32 \<Rightarrow> nat \<Rightarrow> server \<Rightarrow> (int \<times> server) option" where
  "serve_flush envid req s = do {
     fileid \<leftarrow> uld32 req (smem s);
     (case openfile_lookup envid fileid s of
        (r, None) \<Rightarrow> Some (r, s)
      | (_, Some i) \<Rightarrow> do {
          f \<leftarrow> o_file (opentab s ! i);
          fs1 \<leftarrow> file_flush f (sfs s);
          Some (0, s\<lparr>sfs := fs1\<rparr>) }) }"

definition serve_remove :: "u32 \<Rightarrow> nat \<Rightarrow> server \<Rightarrow> (int \<times> server) option" where
  "serve_remove envid req s = do {
     path \<leftarrow> req_path req s;
     (r, fs1) \<leftarrow> file_remove path (sfs s);
     Some (r, s\<lparr>sfs := fs1\<rparr>) }"

definition serve_sync :: "u32 \<Rightarrow> nat \<Rightarrow> server \<Rightarrow> (int \<times> server) option" where
  "serve_sync envid req s = do { fs1 \<leftarrow> fs_sync (sfs s); Some (0, s\<lparr>sfs := fs1\<rparr>) }"

section \<open>The server loop\<close>

abbreviation FSREQ_OPEN :: u32 where "FSREQ_OPEN \<equiv> 1"
abbreviation FSREQ_SET_SIZE :: u32 where "FSREQ_SET_SIZE \<equiv> 2"
abbreviation FSREQ_READ :: u32 where "FSREQ_READ \<equiv> 3"
abbreviation FSREQ_WRITE :: u32 where "FSREQ_WRITE \<equiv> 4"
abbreviation FSREQ_STAT :: u32 where "FSREQ_STAT \<equiv> 5"
abbreviation FSREQ_FLUSH :: u32 where "FSREQ_FLUSH \<equiv> 6"
abbreviation FSREQ_REMOVE :: u32 where "FSREQ_REMOVE \<equiv> 7"
abbreviation FSREQ_SYNC :: u32 where "FSREQ_SYNC \<equiv> 8"

definition handlers :: "u32 \<Rightarrow> (u32 \<Rightarrow> nat \<Rightarrow> server \<Rightarrow> (int \<times> server) option) option" where
  "handlers req =
     (if req = FSREQ_READ then Some serve_read
      else if req = FSREQ_STAT then Some serve_stat
      else if req = FSREQ_FLUSH then Some serve_flush
      else if req = FSREQ_SET_SIZE then Some serve_set_size
      else if req = FSREQ_WRITE then Some serve_write
      else if req = FSREQ_REMOVE then Some serve_remove
      else if req = FSREQ_SYNC then Some serve_sync
      else None)"

text \<open>One round of \<open>serve\<close>, after a request was received with its page at \<open>fsreq\<close>: the answer is the
  value, the page with its permission if there is one, and the receiver.  A request without a page
  gets no answer.\<close>

record reply =
  rp_to :: u32
  rp_val :: int
  rp_page :: "(nat \<times> u32) option"

definition serve :: "u32 \<Rightarrow> u32 \<Rightarrow> u32 \<Rightarrow> server \<Rightarrow> (reply option \<times> server) option" where
  "serve req whom perm s =
     (if perm AND UPTE_P = 0 then Some (None, s)
      else do {
        (r, pg, s1) \<leftarrow>
          (if req = FSREQ_OPEN then serve_open whom fsreq s
           else (case handlers req of
                   Some h \<Rightarrow> do { (r, s1) \<leftarrow> h whom fsreq s; Some (r, None, s1) }
                 | None \<Rightarrow> Some (- E_INVAL, None, s)));
        Some (Some \<lparr>rp_to = whom, rp_val = r, rp_page = pg\<rparr>, s1\<lparr>smem := u_page_unmap fsreq (smem s1)\<rparr>) })"

section \<open>Invariant of the server\<close>

text \<open>Entry \<open>i\<close> of the table has its descriptor page at \<open>FILEVA + i * PGSIZE\<close> and an identifier that is
  \<open>i\<close> modulo the size of the table.\<close>

definition tab_ok :: "openfile list \<Rightarrow> bool" where
  "tab_ok tab \<longleftrightarrow> length tab = MAXOPEN \<and>
     (\<forall>i < MAXOPEN. o_fd (tab ! i) = FILEVA + i * PGSIZE \<and> unat (o_fileid (tab ! i)) mod MAXOPEN = i)"

abbreviation fd_vpn :: "nat \<Rightarrow> nat" where "fd_vpn i \<equiv> 0xD0000 + i"

text \<open>The descriptor pages are writable and no two of them share a frame.\<close>

definition fds_apart :: "umem \<Rightarrow> bool" where
  "fds_apart m \<longleftrightarrow> (\<forall>i < MAXOPEN. \<forall>p. upt m (fd_vpn i) = Some p \<longrightarrow> pg_perm p = FD_PERM) \<and>
     (\<forall>i < MAXOPEN. \<forall>j < MAXOPEN. \<forall>p q. i \<noteq> j \<longrightarrow> upt m (fd_vpn i) = Some p \<longrightarrow> upt m (fd_vpn j) = Some q \<longrightarrow>
        pg_frame p \<noteq> pg_frame q)"

definition serv_inv :: "server \<Rightarrow> bool" where
  "serv_inv s \<longleftrightarrow> tab_ok (opentab s) \<and> umem_inv (smem s) \<and> fds_apart (smem s)"

lemma vpn_entry: "vpn (FILEVA + i * PGSIZE) = fd_vpn i" "k < PGSIZE \<Longrightarrow> vpn (FILEVA + i * PGSIZE + k) = fd_vpn i"
  "k < PGSIZE \<Longrightarrow> (FILEVA + i * PGSIZE + k) mod PGSIZE = k"
proof -
  have a: "FILEVA + i * PGSIZE + k = fd_vpn i * PGSIZE + k" for k by simp
  show v: "vpn (FILEVA + i * PGSIZE + k) = fd_vpn i" if "k < PGSIZE" for k
    using that unfolding vpn_def a by (simp only: div_mult_self3 div_less add_0_right zero_neq_numeral not_False_eq_True)
  show "vpn (FILEVA + i * PGSIZE) = fd_vpn i" using v [of 0] by simp
  show "(FILEVA + i * PGSIZE + k) mod PGSIZE = k" if "k < PGSIZE"
    using that unfolding a by (simp only: mod_mult_self3 mod_less)
qed

lemma next_id: "unat (w + of_nat MAXOPEN :: u32) mod MAXOPEN = unat w mod MAXOPEN"
proof -
  have "unat (w + of_nat MAXOPEN) = (unat w + MAXOPEN) mod 2 ^ 32" by (simp add: unat_word_ariths)
  also have "\<dots> mod MAXOPEN = (unat w + MAXOPEN) mod MAXOPEN" by (rule mod_mod_cancel) simp
  finally show ?thesis by simp
qed

lemma tab_ok_next: "tab_ok tab \<Longrightarrow> i < MAXOPEN \<Longrightarrow> tab_ok (tab[i := (tab ! i)\<lparr>o_fileid := o_fileid (tab ! i) + of_nat MAXOPEN\<rparr>])"
  using next_id [of "o_fileid (tab ! i)"] by (auto simp: tab_ok_def nth_list_update)

lemma tab_ok_file: "tab_ok tab \<Longrightarrow> i < MAXOPEN \<Longrightarrow> tab_ok (tab[i := (tab ! i)\<lparr>o_file := f, o_mode := m\<rparr>])"
  by (auto simp: tab_ok_def nth_list_update)

text \<open>A handler that only stores into pages and into the file system: no mapping, count or table
  entry changes.\<close>

definition same_maps :: "umem \<Rightarrow> umem \<Rightarrow> bool" where
  "same_maps m m' \<longleftrightarrow> upt m' = upt m \<and> uref m' = uref m \<and> ufree m' = ufree m"

definition stores_only :: "server \<Rightarrow> server \<Rightarrow> bool" where
  "stores_only s s' \<longleftrightarrow> opentab s' = opentab s \<and> same_maps (smem s) (smem s')"

lemma same_maps_uframe: "\<exists>x. m' = m\<lparr>uframe := x\<rparr> \<Longrightarrow> same_maps m m'"
  by (auto simp: same_maps_def)

lemma same_maps_ust32: "ust32 va w m = Some m' \<Longrightarrow> same_maps m m'"
  by (rule same_maps_uframe [OF ust32_inv])

lemma same_maps_ust_list: "ust_list va bs m = Some m' \<Longrightarrow> same_maps m m'"
  by (rule same_maps_uframe [OF ust_list_inv])

lemma same_maps_ust64: "ust64 va n m = Some m' \<Longrightarrow> same_maps m m'"
  by (auto simp: ust64_def bind_eq_Some_conv same_maps_def dest!: same_maps_ust32)

lemma same_maps_uzero: "uzero_page va m = Some m' \<Longrightarrow> same_maps m m'"
  by (auto simp: uzero_page_def same_maps_def split: option.splits if_splits)

lemmas same_maps_dests = same_maps_ust32 same_maps_ust_list same_maps_ust64 same_maps_uzero

lemma inv_same_maps: "same_maps m m' \<Longrightarrow> umem_inv m' = umem_inv m \<and> fds_apart m' = fds_apart m"
  by (simp add: same_maps_def umem_inv_def fds_apart_def maps_to_def)

lemma serv_inv_stores: "serv_inv s \<Longrightarrow> stores_only s s' \<Longrightarrow> serv_inv s'"
  by (auto simp: stores_only_def serv_inv_def dest: inv_same_maps)

lemmas stores_only_simps = stores_only_def same_maps_def bind_eq_Some_conv Let_def

text \<open>The common start of the handlers.\<close>

lemma lookup_case [simp]:
  "((case openfile_lookup e fid s of (r, None) \<Rightarrow> Some (r, s) | (_, Some i) \<Rightarrow> h i) = Some (r', s')) \<longleftrightarrow>
     (openfile_lookup e fid s = (- E_INVAL, None) \<and> r' = - E_INVAL \<and> s' = s) \<or>
     (\<exists>i. openfile_lookup e fid s = (0, Some i) \<and> h i = Some (r', s'))"
  by (auto simp: openfile_lookup_def Let_def)

lemma stores_only_set_size: "serve_set_size e req s = Some (r, s') \<Longrightarrow> stores_only s s'"
  by (auto simp: serve_set_size_def stores_only_simps dest!: same_maps_dests split: option.split_asm if_split_asm)

lemma stores_only_flush: "serve_flush e req s = Some (r, s') \<Longrightarrow> stores_only s s'"
  by (auto simp: serve_flush_def stores_only_simps dest!: same_maps_dests split: option.split_asm if_split_asm)

lemma stores_only_remove: "serve_remove e req s = Some (r, s') \<Longrightarrow> stores_only s s'"
  by (auto simp: serve_remove_def stores_only_simps dest!: same_maps_dests split: option.split_asm if_split_asm)

lemma stores_only_sync: "serve_sync e req s = Some (r, s') \<Longrightarrow> stores_only s s'"
  by (auto simp: serve_sync_def stores_only_simps dest!: same_maps_dests split: option.split_asm if_split_asm)

lemma stores_only_stat: "serve_stat e req s = Some (r, s') \<Longrightarrow> stores_only s s'"
  by (auto simp: serve_stat_def stores_only_simps dest!: same_maps_dests split: option.split_asm if_split_asm)

lemma stores_only_read: "serve_read e req s = Some (r, s') \<Longrightarrow> stores_only s s'"
  by (auto simp: serve_read_def stores_only_simps dest!: same_maps_dests split: option.split_asm if_split_asm)

lemma stores_only_write: "serve_write e req s = Some (r, s') \<Longrightarrow> stores_only s s'"
  by (auto simp: serve_write_def stores_only_simps dest!: same_maps_dests split: option.split_asm if_split_asm)

lemmas stores_only_handlers = stores_only_read stores_only_stat stores_only_flush stores_only_set_size stores_only_write
  stores_only_remove stores_only_sync

lemma handlers_store_only: "handlers req = Some h \<Longrightarrow> h e a s = Some (r, s') \<Longrightarrow> stores_only s s'"
  by (auto simp: handlers_def split: if_splits intro: stores_only_handlers)

text \<open>Allocating the page of an unused entry.\<close>

lemma fd_page_alloc:
  assumes "serv_inv s" "i < MAXOPEN" "pageref (FILEVA + i * PGSIZE) (smem s) = 0"
    and "u_page_alloc (FILEVA + i * PGSIZE) FD_PERM (smem s) = (r, m)"
  shows "serv_inv (s\<lparr>smem := m\<rparr>) \<and> (r < 0 \<or> r = 0 \<and> (\<exists>p. upt m (fd_vpn i) = Some p \<and> uref m (pg_frame p) = 1))"
proof -
  have inv: "umem_inv (smem s)" "fds_apart (smem s)" "tab_ok (opentab s)" using assms(1) by (simp_all add: serv_inv_def)
  have un: "upt (smem s) (fd_vpn i) = None"
    using assms(3) umem_inv_mapped [OF inv(1), of "fd_vpn i"]
    by (cases "upt (smem s) (fd_vpn i)") (auto simp: pageref_def vpn_entry)
  have um: "umem_inv m" using umem_inv_alloc [OF inv(1), of "FILEVA + i * PGSIZE" FD_PERM] assms(4) by simp
  obtain r' k where k: "kret (smem s) = (r', smem s\<lparr>krets := k\<rparr>)" by (rule kret_cases)
  show ?thesis
  proof (cases "r' < 0 \<or> ufree (smem s) = []")
    case True
    then have "m = smem s\<lparr>krets := k\<rparr>" "r < 0" using assms(4) k by (auto simp: u_page_alloc_def split: if_splits)
    then show ?thesis using inv by (simp add: serv_inv_def fds_apart_def)
  next
    case False
    then obtain f fs where f: "ufree (smem s) = f # fs" by (cases "ufree (smem s)") auto
    have m: "r = 0" "upt m = (upt (smem s))(fd_vpn i := Some \<lparr>pg_frame = f, pg_perm = FD_PERM\<rparr>)"
      using assms(4) k False f by (auto simp: u_page_alloc_def vpn_entry map_vpn_frame)
    have "uref (smem s) f = 0" using inv(1) f by (simp add: umem_inv_def)
    then have "uref m f = 1"
      using assms(4) k False f un by (auto simp: u_page_alloc_def vpn_entry map_vpn_def unmap_vpn_def)
    have new: "pg_frame p \<noteq> f" if "upt (smem s) n = Some p" for n p
      using umem_inv_mapped [OF inv(1) that] f by auto
    have "fds_apart m"
      using inv(2) new unfolding fds_apart_def m(2) by (auto split: if_splits)
    then show ?thesis using m um inv(3) \<open>uref m f = 1\<close> by (simp add: serv_inv_def)
  qed
qed

lemma take_entry:
  assumes "serv_inv s" "i < MAXOPEN" "upt (smem s) (fd_vpn i) = Some p"
  shows "\<exists>m. uzero_page (FILEVA + i * PGSIZE) (smem s) = Some m \<and> same_maps (smem s) m \<and> uframe m (pg_frame p) = (\<lambda>_. 0)"
proof -
  have "pg_perm p = FD_PERM" using assms by (simp add: serv_inv_def fds_apart_def)
  then have "uzero_page (FILEVA + i * PGSIZE) (smem s) = Some ((smem s)\<lparr>uframe := (uframe (smem s))(pg_frame p := (\<lambda>_. 0))\<rparr>)"
    using assms(3) by (simp add: uzero_page_def vpn_entry)
  then show ?thesis by (auto simp: same_maps_def)
qed

text \<open>The result of allocating an open file: the entry had at most the server's own reference, its
  page is mapped and cleared and its identifier is the next one.\<close>

definition got_entry :: "server \<Rightarrow> nat \<Rightarrow> server \<Rightarrow> bool" where
  "got_entry s i s' \<longleftrightarrow> i < MAXOPEN \<and> pageref (FILEVA + i * PGSIZE) (smem s) \<le> 1 \<and>
     (\<exists>p. upt (smem s') (fd_vpn i) = Some p \<and> uref (smem s') (pg_frame p) = 1 \<and> uframe (smem s') (pg_frame p) = (\<lambda>_. 0)) \<and>
     opentab s' = (opentab s)[i := (opentab s ! i)\<lparr>o_fileid := o_fileid (opentab s ! i) + of_nat MAXOPEN\<rparr>] \<and> sfs s' = sfs s"

lemma openfile_take:
  assumes "serv_inv t" "i < MAXOPEN" "upt (smem t) (fd_vpn i) = Some p" "uref (smem t) (pg_frame p) = 1" "opentab t = opentab s" "sfs t = sfs s"
    and "pageref (FILEVA + i * PGSIZE) (smem s) \<le> 1"
  shows "\<exists>m. uzero_page (o_fd (opentab s ! i)) (smem t) = Some m \<and>
    (let s' = t\<lparr>opentab := (opentab t)[i := (opentab t ! i)\<lparr>o_fileid := o_fileid (opentab t ! i) + of_nat MAXOPEN\<rparr>], smem := m\<rparr>
     in serv_inv s' \<and> got_entry s i s')"
proof -
  from take_entry [OF assms(1-3)] obtain m where m: "uzero_page (FILEVA + i * PGSIZE) (smem t) = Some m"
    "same_maps (smem t) m" "uframe m (pg_frame p) = (\<lambda>_. 0)" by blast
  have fd: "o_fd (opentab s ! i) = FILEVA + i * PGSIZE" using assms(1,2,5) by (simp add: serv_inv_def tab_ok_def)
  have t: "tab_ok (opentab t)" "umem_inv (smem t)" "fds_apart (smem t)" using assms(1) by (simp_all add: serv_inv_def)
  show ?thesis
    by (intro exI [of _ m])
      (use m fd t assms inv_same_maps [OF m(2)] tab_ok_next [OF t(1) assms(2)] in
        \<open>simp add: serv_inv_def got_entry_def Let_def same_maps_def\<close>)
qed

lemma openfile_alloc_loop_inv:
  assumes "serv_inv s" "\<forall>i \<in> set is. i < MAXOPEN"
  shows "\<exists>r oi s'. openfile_alloc_loop is s = Some (r, oi, s') \<and> serv_inv s' \<and>
    ((oi = None \<and> r < 0 \<and> opentab s' = opentab s \<and> sfs s' = sfs s) \<or>
     (\<exists>i. oi = Some i \<and> r = sint (o_fileid (opentab s' ! i)) \<and> got_entry s i s'))"
  using assms
proof (induction "is")
  case Nil
  then show ?case by simp
next
  case (Cons i "is")
  let ?fd = "FILEVA + i * PGSIZE"
  have i: "i < MAXOPEN" "length (opentab s) = MAXOPEN" "o_fd (opentab s ! i) = ?fd"
    using Cons.prems by (simp_all add: serv_inv_def tab_ok_def)
  show ?case
  proof (cases "pageref ?fd (smem s) \<le> 1")
    case False
    then show ?thesis using Cons i by (simp add: Let_def)
  next
    case le: True
    show ?thesis
    proof (cases "pageref ?fd (smem s) = 0")
      case True
      obtain r m where a: "u_page_alloc ?fd FD_PERM (smem s) = (r, m)" by force
      note al = fd_page_alloc [OF Cons.prems(1) i(1) True a]
      show ?thesis
      proof (cases "r < 0")
        case True
        then show ?thesis using al a i \<open>pageref ?fd (smem s) = 0\<close> by (simp add: Let_def)
      next
        case False
        with al obtain p where "serv_inv (s\<lparr>smem := m\<rparr>)" "upt m (fd_vpn i) = Some p" "uref m (pg_frame p) = 1" by auto
        with openfile_take [of "s\<lparr>smem := m\<rparr>" i p s] i le obtain m' where
          "uzero_page ?fd m = Some m'"
          "serv_inv (s\<lparr>opentab := (opentab s)[i := (opentab s ! i)\<lparr>o_fileid := o_fileid (opentab s ! i) + of_nat MAXOPEN\<rparr>], smem := m'\<rparr>)"
          "got_entry s i (s\<lparr>opentab := (opentab s)[i := (opentab s ! i)\<lparr>o_fileid := o_fileid (opentab s ! i) + of_nat MAXOPEN\<rparr>], smem := m'\<rparr>)"
          by (auto simp: Let_def)
        then show ?thesis using a i True False by (simp add: Let_def)
      qed
    next
      case False
      with le have one: "pageref ?fd (smem s) = 1" by simp
      then obtain p where "upt (smem s) (fd_vpn i) = Some p" "uref (smem s) (pg_frame p) = 1"
        by (auto simp: pageref_def vpn_entry split: option.splits)
      with openfile_take [of s i p s] i le Cons.prems(1) obtain m' where
          "uzero_page ?fd (smem s) = Some m'"
          "serv_inv (s\<lparr>opentab := (opentab s)[i := (opentab s ! i)\<lparr>o_fileid := o_fileid (opentab s ! i) + of_nat MAXOPEN\<rparr>], smem := m'\<rparr>)"
          "got_entry s i (s\<lparr>opentab := (opentab s)[i := (opentab s ! i)\<lparr>o_fileid := o_fileid (opentab s ! i) + of_nat MAXOPEN\<rparr>], smem := m'\<rparr>)"
        by (auto simp: Let_def)
      then show ?thesis using i one by (simp add: Let_def)
    qed
  qed
qed

lemma openfile_alloc_spec:
  assumes "serv_inv s"
  shows "\<exists>r oi s'. openfile_alloc s = Some (r, oi, s') \<and> serv_inv s' \<and>
    ((oi = None \<and> r < 0 \<and> opentab s' = opentab s \<and> sfs s' = sfs s) \<or>
     (\<exists>i. oi = Some i \<and> r = sint (o_fileid (opentab s' ! i)) \<and> got_entry s i s'))"
  unfolding openfile_alloc_def by (rule openfile_alloc_loop_inv [OF assms]) simp

text \<open>What a successful open leaves: the entry, its file and its descriptor page.\<close>

definition opened :: "server \<Rightarrow> nat \<Rightarrow> u32 \<Rightarrow> server \<Rightarrow> bool" where
  "opened s i omode s' \<longleftrightarrow> i < MAXOPEN \<and> pageref (FILEVA + i * PGSIZE) (smem s) \<le> 1 \<and>
     o_fileid (opentab s' ! i) = o_fileid (opentab s ! i) + of_nat MAXOPEN \<and>
     o_file (opentab s' ! i) \<noteq> None \<and> o_mode (opentab s' ! i) = omode \<and>
     (\<forall>j < MAXOPEN. j \<noteq> i \<longrightarrow> opentab s' ! j = opentab s ! j) \<and>
     (\<exists>p. upt (smem s') (fd_vpn i) = Some p \<and> uref (smem s') (pg_frame p) = 1 \<and>
        rd32 (uframe (smem s') (pg_frame p)) 0 = DEV_FILE \<and> rd32 (uframe (smem s') (pg_frame p)) 4 = 0 \<and>
        rd32 (uframe (smem s') (pg_frame p)) 8 = omode AND ACCMODE \<and>
        rd32 (uframe (smem s') (pg_frame p)) 12 = o_fileid (opentab s' ! i))"

lemma ust32_fd:
  assumes "ust32 (FILEVA + i * PGSIZE + k) w m = Some m'" "k < PGSIZE" "upt m (fd_vpn i) = Some p"
  shows "m' = m\<lparr>uframe := (uframe m)(pg_frame p := wr32 (uframe m (pg_frame p)) k w)\<rparr>"
  using assms unfolding ust32_def vpn_entry(2) [OF assms(2)] vpn_entry(3) [OF assms(2)] by (simp split: if_splits)

lemma fill_fd:
  assumes p: "upt m (fd_vpn i) = Some p"
    and w: "ust32 (FILEVA + i * PGSIZE + 12) a m = Some m1" "ust32 (FILEVA + i * PGSIZE + 8) b m1 = Some m2"
      "ust32 (FILEVA + i * PGSIZE) c m2 = Some m3"
  shows "same_maps m m3 \<and> uframe m3 (pg_frame p) = wr32 (wr32 (wr32 (uframe m (pg_frame p)) 12 a) 8 b) 0 c"
proof -
  have m1: "m1 = m\<lparr>uframe := (uframe m)(pg_frame p := wr32 (uframe m (pg_frame p)) 12 a)\<rparr>"
    by (rule ust32_fd [OF w(1) _ p]) simp
  then have p1: "upt m1 (fd_vpn i) = Some p" using p by simp
  have m2: "m2 = m1\<lparr>uframe := (uframe m1)(pg_frame p := wr32 (uframe m1 (pg_frame p)) 8 b)\<rparr>"
    by (rule ust32_fd [OF w(2) _ p1]) simp
  then have p2: "upt m2 (fd_vpn i) = Some p" using p1 by simp
  have w3: "ust32 (FILEVA + i * PGSIZE + 0) c m2 = Some m3" using w(3) by simp
  have "m3 = m2\<lparr>uframe := (uframe m2)(pg_frame p := wr32 (uframe m2 (pg_frame p)) 0 c)\<rparr>"
    by (rule ust32_fd [OF w3 _ p2]) simp
  then show ?thesis by (simp add: m2 m1 same_maps_def)
qed

lemma serve_open_spec:
  assumes "serv_inv s" "serve_open e req s = Some (r, pg, s')"
  shows "serv_inv s' \<and> (pg = None \<and> r < 0 \<or>
    (\<exists>i omode. r = 0 \<and> pg = Some (FILEVA + i * PGSIZE, UPTE_P OR UPTE_U OR UPTE_W OR UPTE_SHARE) \<and> opened s i omode s'))"
proof -
  obtain q oi s1 where a: "openfile_alloc s = Some (q, oi, s1)" "serv_inv s1"
    "(oi = None \<and> q < 0) \<or> (\<exists>i. oi = Some i \<and> got_entry s i s1)"
    using openfile_alloc_spec [OF assms(1)] by blast
  have sf: "serv_inv (s1\<lparr>sfs := x\<rparr>)" for x using a(2) by (simp add: serv_inv_def)
  show ?thesis
  proof (cases "q < 0")
    case True
    then show ?thesis using assms(2) a by (auto simp: serve_open_def bind_eq_Some_conv)
  next
    case False
    with a(3) obtain i where i: "oi = Some i" "got_entry s i s1" by auto
    then obtain p where il: "i < MAXOPEN" and p: "upt (smem s1) (fd_vpn i) = Some p" "uref (smem s1) (pg_frame p) = 1"
      "uframe (smem s1) (pg_frame p) = (\<lambda>_. 0)" by (auto simp: got_entry_def)
    have fd: "o_fd (opentab s1 ! i) = FILEVA + i * PGSIZE" using a(2) il by (simp add: serv_inv_def tab_ok_def)
    have len: "length (opentab s) = MAXOPEN" using assms(1) by (simp add: serv_inv_def tab_ok_def)
    from assms(2) a(1) i(1) False consider (err) x where "r < 0" "pg = None" "s' = s1\<lparr>sfs := x\<rparr>"
      | (ok) omode f fs m1 m2 m3 where "r = 0" "pg = Some (FILEVA + i * PGSIZE, UPTE_P OR UPTE_U OR UPTE_W OR UPTE_SHARE)"
        "ust32 (FILEVA + i * PGSIZE + 12) (o_fileid (opentab s1 ! i)) (smem s1) = Some m1"
        "ust32 (FILEVA + i * PGSIZE + 8) (omode AND ACCMODE) m1 = Some m2" "ust32 (FILEVA + i * PGSIZE) DEV_FILE m2 = Some m3"
        "s' = s1\<lparr>sfs := fs, smem := m3, opentab := (opentab s1)[i := (opentab s1 ! i)\<lparr>o_file := Some f, o_mode := omode\<rparr>]\<rparr>"
      by (auto simp: serve_open_def bind_eq_Some_conv fd Let_def split: if_splits)
    then show ?thesis
    proof cases
      case err
      then show ?thesis using sf by simp
    next
      case ok
      note ff = fill_fd [OF p(1) ok(3-5)]
      have "serv_inv s'" using a(2) ff inv_same_maps [of "smem s1" m3] tab_ok_file il ok(6) by (simp add: serv_inv_def)
      moreover have "opened s i omode s'"
        using il i(2) p ff len unfolding ok(6) by (simp add: opened_def got_entry_def same_maps_def cmem_simps) (simp add: rd32_def)
      ultimately show ?thesis using ok(1,2) by blast
    qed
  qed
qed

lemma vpn_fsreq [simp]: "vpn fsreq = 0xFFFF"
  by (simp add: vpn_def)

lemma serve_inv:
  assumes "serv_inv s" "serve req whom perm s = Some (rp, s')"
  shows "serv_inv s'"
proof -
  have u: "serv_inv (t\<lparr>smem := u_page_unmap fsreq (smem t)\<rparr>)" if "serv_inv t" for t
  proof -
    have "fds_apart (u_page_unmap fsreq (smem t)) \<longleftrightarrow> fds_apart (smem t)"
      by (simp add: fds_apart_def u_page_unmap_def unmap_vpn_frame)
    with that show ?thesis by (simp add: serv_inv_def u_page_unmap_def umem_inv_unmap)
  qed
  show ?thesis
  proof (cases "perm AND UPTE_P = 0 \<or> req = FSREQ_OPEN")
    case True
    then show ?thesis using assms serve_open_spec [OF assms(1)] u
      by (auto simp: serve_def bind_eq_Some_conv split: if_splits)
  next
    case False
    then show ?thesis using assms u handlers_store_only serv_inv_stores [OF assms(1)]
      by (fastforce simp: serve_def bind_eq_Some_conv split: option.split_asm if_split_asm)
  qed
qed

section \<open>The server and its clients\<close>

text \<open>A client maps the page of an answer; the frame gets one more reference.\<close>

definition grant :: "nat \<Rightarrow> server \<Rightarrow> server" where
  "grant va s = (case upt (smem s) (vpn va) of
     None \<Rightarrow> s
   | Some p \<Rightarrow> s\<lparr>smem := (smem s)\<lparr>uref := (uref (smem s))(pg_frame p := uref (smem s) (pg_frame p) + 1)\<rparr>\<rparr>)"

definition deliver :: "reply option \<Rightarrow> server \<Rightarrow> server" where
  "deliver rp s = (case Option.bind rp rp_page of Some (va, _) \<Rightarrow> grant va s | None \<Rightarrow> s)"

text \<open>The steps of the server together with any clients: a request with a page of a client, whose
  answer may grant a page; a request without a page; and what clients do by themselves with frames:
  take a free one, map one again, drop a mapping, and store anything.\<close>

inductive fs_step :: "server \<Rightarrow> server \<Rightarrow> bool" where
  request: "f \<notin> set (ufree (smem s)) \<Longrightarrow>
    serve req whom perm (s\<lparr>smem := map_vpn (vpn fsreq) f perm (smem s)\<rparr>) = Some (rp, s') \<Longrightarrow>
    fs_step s (deliver rp s')"
| no_page: "serve req whom 0 s = Some (rp, s') \<Longrightarrow> fs_step s s'"
| client_alloc: "ufree (smem s) = f # fs \<Longrightarrow>
    fs_step s (s\<lparr>smem := (smem s)\<lparr>ufree := fs, uref := (uref (smem s))(f := 1)\<rparr>\<rparr>)"
| client_map: "0 < uref (smem s) f \<Longrightarrow>
    fs_step s (s\<lparr>smem := (smem s)\<lparr>uref := (uref (smem s))(f := uref (smem s) f + 1)\<rparr>\<rparr>)"
| client_unmap: "card (maps_to (smem s) f) < uref (smem s) f \<Longrightarrow> 1 < uref (smem s) f \<Longrightarrow>
    fs_step s (s\<lparr>smem := (smem s)\<lparr>uref := (uref (smem s))(f := uref (smem s) f - 1)\<rparr>\<rparr>)"
| client_free: "card (maps_to (smem s) f) = 0 \<Longrightarrow> uref (smem s) f = 1 \<Longrightarrow>
    fs_step s (s\<lparr>smem := (smem s)\<lparr>ufree := f # ufree (smem s), uref := (uref (smem s))(f := 0)\<rparr>\<rparr>)"
| client_store: "fs_step s (s\<lparr>smem := (smem s)\<lparr>uframe := m\<rparr>\<rparr>)"

inductive_cases fs_stepE: "fs_step s s'"

inductive fs_reach :: "server \<Rightarrow> server \<Rightarrow> bool" for a where
  start: "fs_reach a a"
| step: "fs_reach a s \<Longrightarrow> fs_step s s' \<Longrightarrow> fs_reach a s'"

lemma serv_inv_counts:
  assumes "serv_inv s" "distinct fs" "\<forall>f \<in> set fs. u f = 0" "\<forall>f. card (maps_to (smem s) f) \<le> u f"
  shows "serv_inv (s\<lparr>smem := (smem s)\<lparr>ufree := fs, uref := u\<rparr>\<rparr>)"
  using assms by (simp add: serv_inv_def umem_inv_def maps_to_def fds_apart_def)

lemma serv_inv_ref:
  assumes "serv_inv s" "f \<notin> set (ufree (smem s))" "card (maps_to (smem s) f) \<le> k"
  shows "serv_inv (s\<lparr>smem := (smem s)\<lparr>uref := (uref (smem s))(f := k)\<rparr>\<rparr>)"
  using assms by (auto simp: serv_inv_def umem_inv_def maps_to_def fds_apart_def)

lemma serv_inv_grant: "serv_inv s \<Longrightarrow> serv_inv (grant va s)"
  using umem_inv_mapped [of "smem s" "vpn va"]
  by (auto simp: grant_def serv_inv_def umem_inv_def maps_to_def fds_apart_def le_SucI split: option.splits)

lemma serv_inv_request:
  "serv_inv s \<Longrightarrow> f \<notin> set (ufree (smem s)) \<Longrightarrow> serv_inv (s\<lparr>smem := map_vpn (vpn fsreq) f perm (smem s)\<rparr>)"
proof -
  assume s: "serv_inv s" "f \<notin> set (ufree (smem s))"
  have "fds_apart (map_vpn (vpn fsreq) f perm (smem s)) \<longleftrightarrow> fds_apart (smem s)"
    by (simp add: fds_apart_def map_vpn_frame)
  with s show ?thesis by (simp add: serv_inv_def umem_inv_map)
qed

lemma fs_step_inv:
  assumes "fs_step s s'" "serv_inv s"
  shows "serv_inv s'"
  using assms
proof cases
  case (request f req whom perm rp t)
  have "serv_inv t" by (rule serve_inv [OF serv_inv_request [OF assms(2) request(2)] request(3)])
  then show ?thesis using serv_inv_grant unfolding request(1)
    by (auto simp: deliver_def split: option.split)
next
  case (no_page req whom rp)
  then show ?thesis using serve_inv [OF assms(2)] by blast
next
  case (client_alloc f fs)
  have i: "umem_inv (smem s)" using assms(2) by (simp add: serv_inv_def)
  have c: "card (maps_to (smem s) g) \<le> uref (smem s) g" for g using i by (simp add: umem_inv_def)
  have u: "uref (smem s) f = 0" using i client_alloc(2) by (simp add: umem_inv_def)
  have "card (maps_to (smem s) g) \<le> ((uref (smem s))(f := 1)) g" for g using c [of g] u by (cases "g = f") auto
  then show ?thesis unfolding client_alloc(1)
    by (intro serv_inv_counts [OF assms(2)]) (use i client_alloc(2) in \<open>auto simp: umem_inv_def\<close>)
next
  case (client_map f)
  then show ?thesis using assms(2) unfolding client_map(1)
    by (intro serv_inv_ref [OF assms(2)]) (auto simp: serv_inv_def umem_inv_def le_SucI)
next
  case (client_unmap f)
  then show ?thesis using assms(2) unfolding client_unmap(1)
    by (intro serv_inv_ref [OF assms(2)]) (auto simp: serv_inv_def umem_inv_def)
next
  case (client_free f)
  have i: "umem_inv (smem s)" using assms(2) by (simp add: serv_inv_def)
  then have "f \<notin> set (ufree (smem s))" using client_free(3) by (auto simp: umem_inv_def)
  then show ?thesis unfolding client_free(1)
    by (intro serv_inv_counts [OF assms(2)]) (use i client_free(2) in \<open>auto simp: umem_inv_def\<close>)
next
  case (client_store m)
  then show ?thesis using assms(2) by (simp add: serv_inv_def fds_apart_def)
qed

lemma fs_reach_inv: "fs_reach a s \<Longrightarrow> serv_inv a \<Longrightarrow> serv_inv s"
  by (induction rule: fs_reach.induct) (auto intro: fs_step_inv)

section \<open>Opening and looking up\<close>

lemma open_then_lookup_lemma:
  assumes "serv_inv s'" "opened s i omode s'" "serv_inv s"
  shows "openfile_lookup e (o_fileid (opentab s' ! i)) (grant (FILEVA + i * PGSIZE) s') = (0, Some i)"
    "openfile_lookup e (o_fileid (opentab s' ! i)) s' = (- E_INVAL, None)"
    "openfile_lookup e (o_fileid (opentab s ! i)) (grant (FILEVA + i * PGSIZE) s') = (- E_INVAL, None)"
proof -
  have i: "i < MAXOPEN" using assms(2) by (simp add: opened_def)
  have m: "unat (o_fileid (opentab s' ! i)) mod MAXOPEN = i" "o_fd (opentab s' ! i) = FILEVA + i * PGSIZE"
    "unat (o_fileid (opentab s ! i)) mod MAXOPEN = i"
    using assms(1,3) i by (simp_all add: serv_inv_def tab_ok_def)
  obtain p where p: "upt (smem s') (fd_vpn i) = Some p" "uref (smem s') (pg_frame p) = 1"
    using assms(2) by (auto simp: opened_def)
  have g: "opentab (grant (FILEVA + i * PGSIZE) s') = opentab s'"
    "pageref (FILEVA + i * PGSIZE) (smem (grant (FILEVA + i * PGSIZE) s')) = 2"
    "pageref (FILEVA + i * PGSIZE) (smem s') = 1"
    using p by (simp_all add: grant_def pageref_def vpn_entry)
  have ne: "o_fileid (opentab s' ! i) \<noteq> o_fileid (opentab s ! i)" using assms(2) by (simp add: opened_def)
  show "openfile_lookup e (o_fileid (opentab s' ! i)) (grant (FILEVA + i * PGSIZE) s') = (0, Some i)"
    using m g by (simp add: openfile_lookup_def Let_def)
  show "openfile_lookup e (o_fileid (opentab s' ! i)) s' = (- E_INVAL, None)"
    using m g by (simp add: openfile_lookup_def Let_def)
  show "openfile_lookup e (o_fileid (opentab s ! i)) (grant (FILEVA + i * PGSIZE) s') = (- E_INVAL, None)"
    using m g ne by (simp add: openfile_lookup_def Let_def)
qed

section \<open>The request page\<close>

lemma vpn_req: "k < PGSIZE \<Longrightarrow> vpn (fsreq + k) = 0xFFFF" "k < PGSIZE \<Longrightarrow> (fsreq + k) mod PGSIZE = k"
  using vpn_page [of fsreq k] by (simp_all add: vpn_def)

lemma uld32_req:
  assumes "upt m 0xFFFF = Some q" "k < PGSIZE"
  shows "uld32 (fsreq + k) m = Some (rd32 (uframe m (pg_frame q)) k)"
  using assms unfolding uld32_def vpn_req(1) [OF assms(2)] vpn_req(2) [OF assms(2)] by simp

lemma uld32_fd:
  assumes "upt m (fd_vpn i) = Some p" "k < PGSIZE"
  shows "uld32 (FILEVA + i * PGSIZE + k) m = Some (rd32 (uframe m (pg_frame p)) k)"
  using assms unfolding uld32_def vpn_entry(2) [OF assms(2)] vpn_entry(3) [OF assms(2)] by simp

lemma ust32_fd_some:
  assumes "upt m (fd_vpn i) = Some p" "k < PGSIZE" "pg_perm p AND UPTE_W \<noteq> 0"
  shows "ust32 (FILEVA + i * PGSIZE + k) w m = Some (m\<lparr>uframe := (uframe m)(pg_frame p := wr32 (uframe m (pg_frame p)) k w)\<rparr>)"
  using assms unfolding ust32_def vpn_entry(2) [OF assms(2)] vpn_entry(3) [OF assms(2)] by simp

lemma sld8_req:
  assumes "upt (smem s) 0xFFFF = Some q" "16 + k < 2 * PGSIZE"
  shows "sld8 (fsreq + 16 + k) s = Some (if k < PGSIZE - 16 then uframe (smem s) (pg_frame q) (16 + k)
    else fmem (sfs s) (DISKMAP + (k - (PGSIZE - 16))))"
proof (cases "16 + k < PGSIZE")
  case True
  have "uld8 (fsreq + (16 + k)) (smem s) = Some (uframe (smem s) (pg_frame q) (16 + k))"
    using assms True unfolding uld8_def vpn_req(1) [OF True] vpn_req(2) [OF True] by simp
  then show ?thesis using True by (simp add: sld8_def add.assoc)
next
  case False
  then have "fsreq + 16 + k = DISKMAP + (k - (PGSIZE - 16))" by simp
  then show ?thesis using False assms(2) by (simp add: sld8_def)
qed

text \<open>The bytes of a write request: those of the page, and then those of the first disk block.\<close>

definition req_byte :: "server \<Rightarrow> nat \<Rightarrow> nat \<Rightarrow> u8" where
  "req_byte s q k = (if k < PGSIZE - 16 then uframe (smem s) q (16 + k) else fmem (sfs s) (DISKMAP + (k - (PGSIZE - 16))))"

lemma sbytes_req:
  assumes "upt (smem s) 0xFFFF = Some q" "n \<le> PGSIZE - 16 + BLKSIZE"
  shows "sbytes (fsreq + 16) n s = map (req_byte s (pg_frame q)) [0..<n]"
proof -
  have eq: "map (\<lambda>i. sld8 (fsreq + 16 + i) s) [0..<n] = map (\<lambda>k. Some (req_byte s (pg_frame q) k)) [0..<n]"
    using assms sld8_req [OF assms(1)] by (auto simp: req_byte_def)
  show ?thesis unfolding sbytes_def eq takeWhile_Some by (simp add: comp_def)
qed

section \<open>Writing and reading through the server\<close>

text \<open>A request for an open file at the position \<open>off\<close>, whose page is not the descriptor page.\<close>

definition file_request :: "server \<Rightarrow> nat \<Rightarrow> nat \<Rightarrow> nat \<Rightarrow> nat \<Rightarrow> nat \<Rightarrow> nat \<Rightarrow> bool" where
  "file_request s i f off n pf qf \<longleftrightarrow> i < MAXOPEN \<and> o_file (opentab s ! i) = Some f \<and>
     pageref (FILEVA + i * PGSIZE) (smem s) \<noteq> 1 \<and> pf \<noteq> qf \<and> off < 2 ^ 31 \<and>
     upt (smem s) (fd_vpn i) = Some \<lparr>pg_frame = pf, pg_perm = FD_PERM\<rparr> \<and> rd32 (uframe (smem s) pf) 4 = of_nat off \<and>
     (\<exists>perm. upt (smem s) 0xFFFF = Some \<lparr>pg_frame = qf, pg_perm = perm\<rparr> \<and> perm AND UPTE_W \<noteq> 0) \<and>
     rd32 (uframe (smem s) qf) 0 = o_fileid (opentab s ! i) \<and> uld64 (fsreq + 8) (smem s) = Some n"

lemma file_requestD:
  assumes "file_request s i f off n pf qf" "serv_inv s"
  shows "i < MAXOPEN" "uld32 fsreq (smem s) = Some (o_fileid (opentab s ! i))"
    "openfile_lookup e (o_fileid (opentab s ! i)) s = (0, Some i)" "o_file (opentab s ! i) = Some f"
    "o_fd (opentab s ! i) = FILEVA + i * PGSIZE" "uld32 (FILEVA + i * PGSIZE + 4) (smem s) = Some (of_nat off)"
    "sint (of_nat off :: u32) = int off" "uld64 (fsreq + 8) (smem s) = Some n"
proof -
  show i: "i < MAXOPEN" "o_file (opentab s ! i) = Some f" "uld64 (fsreq + 8) (smem s) = Some n"
    using assms(1) by (simp_all add: file_request_def)
  have t: "unat (o_fileid (opentab s ! i)) mod MAXOPEN = i" "o_fd (opentab s ! i) = FILEVA + i * PGSIZE"
    using assms(2) i(1) by (simp_all add: serv_inv_def tab_ok_def)
  show "o_fd (opentab s ! i) = FILEVA + i * PGSIZE" by (rule t)
  show "uld32 fsreq (smem s) = Some (o_fileid (opentab s ! i))"
    using assms(1) by (auto simp: file_request_def uld32_def)
  show "openfile_lookup e (o_fileid (opentab s ! i)) s = (0, Some i)"
    using assms(1) t by (simp add: openfile_lookup_def file_request_def Let_def)
  show "uld32 (FILEVA + i * PGSIZE + 4) (smem s) = Some (of_nat off)"
    using assms(1) uld32_fd [of "smem s" i _ 4] by (simp add: file_request_def del: add_numeral_left add.assoc)
  show "sint (of_nat off :: u32) = int off"
    using assms(1) by (simp add: file_request_def signed_of_nat signed_take_bit_int_eq_self)
qed

text \<open>The descriptor page after a transfer.\<close>

definition advance :: "nat \<Rightarrow> nat \<Rightarrow> umem \<Rightarrow> umem" where
  "advance pf off m = m\<lparr>uframe := (uframe m)(pf := wr32 (uframe m pf) 4 (of_nat off))\<rparr>"

lemma advance_fd:
  assumes "upt m (fd_vpn i) = Some \<lparr>pg_frame = pf, pg_perm = FD_PERM\<rparr>"
  shows "ust32 (FILEVA + i * PGSIZE + 4) (of_nat off + word_of_int (int n)) m = Some (advance pf (off + n) m)"
  using ust32_fd_some [OF assms, of 4 "of_nat off + word_of_int (int n)"] by (simp add: advance_def)

lemma serve_write_eq:
  assumes inv: "serv_inv s" and rq: "file_request s i f off n pf qf"
    and wf: "file_wf (fmem (sfs s)) f" "0 \<le> f_size (fmem (sfs s)) f"
    and b: "off + n < 2 ^ 31" "off + n \<le> 4096 * slots (fmem (sfs s)) f" "n \<le> PGSIZE - 16 + BLKSIZE"
  shows "\<exists>r t. serve_write e fsreq s = Some (r, if r < 0 then s\<lparr>sfs := t\<rparr> else s\<lparr>sfs := t, smem := advance pf (off + n) (smem s)\<rparr>) \<and>
    (r = int n \<or> r = - E_NO_DISK) \<and>
    file_wf (fmem t) f \<and> f_size (fmem t) f = max (f_size (fmem (sfs s)) f) (int (off + n)) \<and>
    (r = int n \<longrightarrow> (\<forall>k < n. has_byte (fmem t) f (off + k) \<and> file_byte (fmem t) f (off + k) = req_byte s qf k))"
proof -
  note d = file_requestD [OF rq inv]
  let ?buf = "\<lambda>k. map (req_byte s qf) [0..<n] ! k"
  obtain r t where w: "file_write f ?buf n (int off) (sfs s) = Some (r, t)" "r = int n \<or> r = - E_NO_DISK"
    "file_wf (fmem t) f" "f_size (fmem t) f = max (f_size (fmem (sfs s)) f) (int (off + n))"
    "r = int n \<longrightarrow> (\<forall>k. off \<le> k \<and> k < off + n \<longrightarrow> has_byte (fmem t) f k \<and> file_byte (fmem t) f k = ?buf (k - off))"
    using file_write_spec [OF wf b(1,2), of ?buf] by blast
  from rq obtain perm where q: "upt (smem s) 0xFFFF = Some \<lparr>pg_frame = qf, pg_perm = perm\<rparr>"
    and p: "upt (smem s) (fd_vpn i) = Some \<lparr>pg_frame = pf, pg_perm = FD_PERM\<rparr>" by (auto simp: file_request_def)
  have sb: "sbytes (fsreq + 16) n s = map (req_byte s qf) [0..<n]" using sbytes_req [OF q b(3)] by simp
  have len: "\<not> (n > PGSIZE - 16 + BLKSIZE \<or> length (map (req_byte s qf) [0..<n]) < n)" using b(3) by simp
  have "serve_write e fsreq s = Some (r, if r < 0 then s\<lparr>sfs := t\<rparr> else s\<lparr>sfs := t, smem := advance pf (off + n) (smem s)\<rparr>)"
    unfolding serve_write_def d(2) bind.bind_lunit d(3) prod.case option.case Let_def d(4) d(8) d(5) d(6) d(7) sb if_not_P [OF len] w(1)
    using w(2) advance_fd [OF p, of off n] by auto
  then show ?thesis using w by auto
qed

lemma serve_write_spec:
  assumes inv: "serv_inv s" and rq: "file_request s i f off n pf qf"
    and wf: "file_wf (fmem (sfs s)) f" "0 \<le> f_size (fmem (sfs s)) f"
    and b: "off + n < 2 ^ 31" "off + n \<le> 4096 * slots (fmem (sfs s)) f" "n \<le> PGSIZE - 16 + BLKSIZE"
  shows "\<exists>r s'. serve_write e fsreq s = Some (r, s') \<and> (r = int n \<or> r = - E_NO_DISK) \<and>
    file_wf (fmem (sfs s')) f \<and> f_size (fmem (sfs s')) f = max (f_size (fmem (sfs s)) f) (int (off + n)) \<and>
    (r = int n \<longrightarrow> rd32 (uframe (smem s') pf) 4 = of_nat (off + n) \<and>
       (\<forall>k < n. has_byte (fmem (sfs s')) f (off + k) \<and> file_byte (fmem (sfs s')) f (off + k) = req_byte s qf k))"
proof -
  obtain r t where rt: "serve_write e fsreq s = Some (r, if r < 0 then s\<lparr>sfs := t\<rparr> else s\<lparr>sfs := t, smem := advance pf (off + n) (smem s)\<rparr>)"
    "r = int n \<or> r = - E_NO_DISK" "file_wf (fmem t) f" "f_size (fmem t) f = max (f_size (fmem (sfs s)) f) (int (off + n))"
    "r = int n \<longrightarrow> (\<forall>k < n. has_byte (fmem t) f (off + k) \<and> file_byte (fmem t) f (off + k) = req_byte s qf k)"
    using serve_write_eq [OF assms, of e] by blast
  show ?thesis unfolding rt(1) using rt(2-5) by (auto simp: advance_def)
qed

lemma ust_list_req:
  assumes "upt m 0xFFFF = Some q" "pg_perm q AND UPTE_W \<noteq> 0" "k + length bs \<le> PGSIZE"
  shows "ust_list (fsreq + k) bs m = Some (m\<lparr>uframe := (uframe m)(pg_frame q := overlay k bs (uframe m (pg_frame q)))\<rparr>)"
  by (rule ust_list_page) (use assms in \<open>simp_all add: vpn_def\<close>)

lemma serve_read_eq:
  assumes inv: "serv_inv s" and rq: "file_request s i f off n pf qf"
    and wf: "file_wf (fmem (sfs s)) f" "int (off + n) \<le> f_size (fmem (sfs s)) f" "0 < n" "n \<le> PGSIZE"
    and has: "\<And>k. k < n \<Longrightarrow> has_byte (fmem (sfs s)) f (off + k)"
  shows "serve_read e fsreq s = Some (int n, s\<lparr>smem := advance pf (off + n) ((smem s)\<lparr>uframe := (uframe (smem s))
    (qf := overlay 0 (map (file_byte (fmem (sfs s)) f) [off..<off + n]) (uframe (smem s) qf))\<rparr>)\<rparr>)"
proof -
  note d = file_requestD [OF rq inv]
  let ?bs = "map (file_byte (fmem (sfs s)) f) [off..<off + n]"
  have h: "has_byte (fmem (sfs s)) f k" if "off \<le> k" "k < off + n" for k
    using has [of "k - off"] that by simp
  have r: "file_read f (min n PGSIZE) (int off) (sfs s) = Some (int n, ?bs, sfs s)"
    using file_read_spec [OF wf(1,2) h] wf(4) by (simp add: min_absorb1)
  from rq obtain perm where q: "upt (smem s) 0xFFFF = Some \<lparr>pg_frame = qf, pg_perm = perm\<rparr>" "perm AND UPTE_W \<noteq> 0"
    and p: "upt (smem s) (fd_vpn i) = Some \<lparr>pg_frame = pf, pg_perm = FD_PERM\<rparr>" "pf \<noteq> qf"
      "rd32 (uframe (smem s) pf) 4 = of_nat off"
    by (auto simp: file_request_def)
  define m where "m = (smem s)\<lparr>uframe := (uframe (smem s))(qf := overlay 0 ?bs (uframe (smem s) qf))\<rparr>"
  have m: "ust_list fsreq ?bs (smem s) = Some m"
    using ust_list_req [OF q(1), of 0 ?bs] q(2) wf(4) by (simp add: m_def)
  have pm: "upt m (fd_vpn i) = Some \<lparr>pg_frame = pf, pg_perm = FD_PERM\<rparr>" using p(1) by (simp add: m_def)
  have o: "uld32 (FILEVA + i * PGSIZE + 4) m = Some (of_nat off)"
    using uld32_fd [OF pm, of 4] p(2,3) by (simp add: m_def)
  have "\<not> PGSIZE < n" "\<not> int n \<le> 0" using wf(3,4) by simp_all
  then have "serve_read e fsreq s = Some (int n, s\<lparr>sfs := sfs s, smem := advance pf (off + n) m\<rparr>)"
    unfolding serve_read_def d(2) bind.bind_lunit d(3) prod.case option.case Let_def d(4) d(8) d(5)
    by (simp only: if_False bind.bind_lunit d(6) d(7) r prod.case m o advance_fd [OF pm])
  then show ?thesis by (simp add: m_def)
qed

lemma serve_read_spec:
  assumes "serv_inv s" "file_request s i f off n pf qf"
    and "file_wf (fmem (sfs s)) f" "int (off + n) \<le> f_size (fmem (sfs s)) f" "0 < n" "n \<le> PGSIZE"
    and "\<And>k. k < n \<Longrightarrow> has_byte (fmem (sfs s)) f (off + k)"
  shows "\<exists>s'. serve_read e fsreq s = Some (int n, s') \<and> sfs s' = sfs s \<and>
    rd32 (uframe (smem s') pf) 4 = of_nat (off + n) \<and>
    (\<forall>k < n. uframe (smem s') qf k = file_byte (fmem (sfs s)) f (off + k))"
proof -
  have "pf \<noteq> qf" using assms(2) by (simp add: file_request_def)
  then show ?thesis using serve_read_eq [OF assms, of e] by (auto simp: advance_def overlay_def)
qed

section \<open>Properties\<close>

text \<open>A server with the small disk: entry 3 is open on the root directory for one client, whose request
  page (frame 7) asks for the transfer of \<open>n\<close> bytes.\<close>

definition small_server :: "nat \<Rightarrow> server" where
  "small_server n = \<lparr>opentab = (map (\<lambda>i. \<lparr>o_fileid = of_nat i, o_file = None, o_mode = 0, o_fd = FILEVA + i * PGSIZE\<rparr>) [0..<MAXOPEN])
       [3 := \<lparr>o_fileid = 1027, o_file = Some small_root, o_mode = 2, o_fd = FILEVA + 3 * PGSIZE\<rparr>],
     sfs = small_disk,
     smem = \<lparr>upt = (\<lambda>_. None)(fd_vpn 3 := Some \<lparr>pg_frame = 9, pg_perm = FD_PERM\<rparr>, 0xFFFF := Some \<lparr>pg_frame = 7, pg_perm = 7\<rparr>),
       uframe = (\<lambda>_ _. 0)(7 := wr32 (wr32 (wr32 (\<lambda>a. if a < 16 then 0 else 0x41) 0 1027) 8 (of_nat n)) 12 0),
       uref = (\<lambda>_. 0)(9 := 2, 7 := 2), ufree = [20, 21], krets = []\<rparr>\<rparr>"

lemma small_server_inv: "serv_inv (small_server n)"
proof -
  have "tab_ok (opentab (small_server n))"
    by (auto simp: tab_ok_def small_server_def nth_list_update unat_of_nat simp del: upt_rec_numeral)
  moreover have "maps_to (smem (small_server n)) f = (if f = 9 then {fd_vpn 3} else if f = 7 then {0xFFFF} else {})" for f
    by (auto simp: maps_to_def small_server_def split: if_splits)
  then have "umem_inv (smem (small_server n))" by (auto simp: umem_inv_def) (auto simp: small_server_def)
  moreover have "fds_apart (smem (small_server n))" by (auto simp: fds_apart_def small_server_def)
  ultimately show ?thesis by (simp add: serv_inv_def)
qed

lemma small_server_request: "n < 2 ^ 32 \<Longrightarrow> file_request (small_server n) 3 small_root 0 n 9 7"
proof -
  assume n: "n < 2 ^ 32"
  have v: "vpn (fsreq + 8) = 0xFFFF" "vpn (fsreq + 12) = 0xFFFF" "(fsreq + 8) mod PGSIZE = 8" "(fsreq + 12) mod PGSIZE = 12"
    by (simp_all add: vpn_def)
  have "uld64 (fsreq + 8) (smem (small_server n)) = Some n"
    using n v by (simp add: uld64_def uld32_def small_server_def cmem_simps unat_of_nat)
  moreover have "rd32 (\<lambda>_. 0) 4 = 0" by (simp add: rd32_def)
  ultimately show ?thesis
    using n by (simp add: file_request_def small_server_def pageref_def vpn_entry cmem_simps)
qed

text \<open>C8: whatever requests arrive, with whatever pages, and whatever clients do to the pages they
  share, the server keeps its table: entry \<open>i\<close> has its own page and an identifier that leads back to
  \<open>i\<close>, the pages of two entries never share a frame, and reference counts cover the mappings.\<close>

theorem server_keeps_table:
  assumes "umem_inv (smem b)" "fds_apart (smem b)" "fs_reach (serve_init b) s"
  shows "serv_inv s"
proof (rule fs_reach_inv [OF assms(3)])
  have "tab_ok (opentab (serve_init b))"
    by (auto simp: tab_ok_def serve_init_def unat_of_nat simp del: upt_rec_numeral)
  with assms(1,2) show "serv_inv (serve_init b)" by (simp add: serv_inv_def serve_init_def)
qed

theorem server_keeps_table_witness:
  "\<exists>s'. fs_reach (serve_init (small_server 5)) s' \<and> uref (smem s') 20 = 1 \<and> ufree (smem s') = [21] \<and> serv_inv s'"
proof -
  let ?a = "serve_init (small_server 5)"
  let ?s = "?a\<lparr>smem := (smem ?a)\<lparr>ufree := [21], uref := (uref (smem ?a))(20 := 1)\<rparr>\<rparr>"
  have m: "smem ?a = smem (small_server 5)" by (simp add: serve_init_def)
  have "ufree (smem ?a) = [20, 21]" by (simp add: m) (simp add: small_server_def)
  then have r: "fs_reach ?a ?s" by (intro fs_reach.step [OF fs_reach.start] fs_step.client_alloc)
  have "serv_inv ?s"
    by (rule server_keeps_table [OF _ _ r]) (use small_server_inv [of 5] in \<open>simp_all add: serv_inv_def\<close>)
  with r show ?thesis by (intro exI [of _ ?s]) simp
qed


lemma sbytes_zero: "upt (smem s) 0xFFFF = Some q \<Longrightarrow> (\<And>a. a < 1024 \<Longrightarrow> uframe (smem s) (pg_frame q) a = g a) \<Longrightarrow>
    sbytes fsreq 1024 s = map g [0..<1024]"
proof -
  assume q: "upt (smem s) 0xFFFF = Some q" "\<And>a. a < 1024 \<Longrightarrow> uframe (smem s) (pg_frame q) a = g a"
  have b: "sld8 (fsreq + k) s = Some (g k)" if "k < 1024" for k
  proof -
    have k: "k < PGSIZE" using that by simp
    have "uld8 (fsreq + k) (smem s) = Some (g k)"
      using q that unfolding uld8_def vpn_req(1) [OF k] vpn_req(2) [OF k] by simp
    then show ?thesis using that by (simp add: sld8_def)
  qed
  have eq: "map (\<lambda>i. sld8 (fsreq + i) s) [0..<1024] = map (\<lambda>k. Some (g k)) [0..<1024]"
    by (rule map_cong) (use b in auto)
  show ?thesis unfolding sbytes_def eq takeWhile_Some by (simp add: comp_def del: upt_rec_numeral)
qed

text \<open>The same server with a request to open the root directory.\<close>

definition open_server :: server where
  "open_server = (small_server 0)\<lparr>smem := (smem (small_server 0))\<lparr>uframe := (\<lambda>_ _. 0)\<rparr>\<rparr>"

lemma open_server_inv: "serv_inv open_server"
  using small_server_inv [of 0] by (simp add: open_server_def serv_inv_def fds_apart_def)

lemma open_server_opens: "\<exists>s'. serve_open 5 fsreq open_server = Some (0, Some (FILEVA, UPTE_P OR UPTE_U OR UPTE_W OR UPTE_SHARE), s')"
proof -
  have u: "upt (smem open_server) = (\<lambda>_. None)(fd_vpn 3 := Some \<lparr>pg_frame = 9, pg_perm = FD_PERM\<rparr>, 0xFFFF := Some \<lparr>pg_frame = 7, pg_perm = 7\<rparr>)"
    "uframe (smem open_server) = (\<lambda>_ _. 0)" "ufree (smem open_server) = [20, 21]" "krets (smem open_server) = []"
    by (simp_all add: open_server_def small_server_def)
  have t: "o_fd (opentab open_server ! 0) = FILEVA" "o_fileid (opentab open_server ! 0) = 0" "length (opentab open_server) = MAXOPEN"
    by (simp_all add: open_server_def small_server_def del: upt_rec_numeral)
  have "sbytes fsreq 1024 open_server = map (\<lambda>_. 0) [0..<1024]"
    by (rule sbytes_zero) (simp_all add: u)
  then have p: "req_path fsreq open_server = Some []"
    by (simp add: req_path_def takeWhile_eq_Nil_iff take_map hd_map del: upt_rec_numeral)
  define m where "m = map_vpn (vpn FILEVA) 20 FD_PERM ((smem open_server)\<lparr>ufree := [21]\<rparr>)"
  have a: "u_page_alloc FILEVA FD_PERM (smem open_server) = (0, m)"
    by (simp add: u_page_alloc_def kret_def u m_def)
  have v: "vpn FILEVA = 0xD0000" "vpn (FILEVA + 12) = 0xD0000" "vpn (FILEVA + 8) = 0xD0000" "vpn (fsreq + 1024) = 0xFFFF"
    by (simp_all add: vpn_def)
  have um: "upt m = (upt (smem open_server))(0xD0000 := Some \<lparr>pg_frame = 20, pg_perm = FD_PERM\<rparr>)" "uframe m = (\<lambda>_ _. 0)"
    by (simp_all add: m_def map_vpn_frame v u)
  have z: "uzero_page FILEVA m = Some (m\<lparr>uframe := (\<lambda>_ _. 0)\<rparr>)"
    by (simp add: uzero_page_def v um fun_upd_triv [of "\<lambda>_ _. 0", simplified])
  define t1 where "t1 = open_server\<lparr>smem := m\<lparr>uframe := (\<lambda>_ _. 0)\<rparr>, opentab := (opentab open_server)[0 := (opentab open_server ! 0)\<lparr>o_fileid := 1024\<rparr>]\<rparr>"
  have l: "[0..<MAXOPEN] = 0 # [1..<MAXOPEN]" 
    using upt_conv_Cons [of 0 MAXOPEN] by (simp only: One_nat_def zero_less_numeral simp_thms)
  have "pageref FILEVA (smem open_server) = 0" by (simp add: pageref_def v u)
  then have al: "openfile_alloc open_server = Some (1024, Some 0, t1)"
    unfolding openfile_alloc_def l openfile_alloc_loop.simps
    using t a z by (simp add: t1_def Let_def del: upt_rec_numeral)
  have "uld32 (fsreq + 1024) (smem t1) = Some 0" by (simp add: uld32_def vpn_def t1_def um u rd32_def)
  moreover have "open_file [] 0 (sfs t1) = Some (0, Some root_at, sfs t1)"
    by (simp add: open_file_def file_open_def walk_path_def skip_slash_def walk_loop.simps)
  ultimately show ?thesis
    using p al t by (simp add: serve_open_def t1_def ust32_def vpn_def um)
qed


text \<open>A write request of at most \<open>PGSIZE - 16\<close> bytes stores the bytes of its page at the offset of
  the descriptor and advances the offset, or reports a full disk; a later read request at the same
  offset brings exactly these bytes into the page of its client.\<close>

theorem serve_write_then_read:
  assumes "serv_inv s" "file_request s i f off n pf qf" "file_wf (fmem (sfs s)) f" "0 \<le> f_size (fmem (sfs s)) f"
    and "off + n < 2 ^ 31" "off + n \<le> 4096 * slots (fmem (sfs s)) f" "0 < n" "n \<le> PGSIZE - 16"
  shows "\<exists>r s1. serve_write e fsreq s = Some (r, s1) \<and> (r = int n \<or> r = - E_NO_DISK) \<and>
    (r = int n \<longrightarrow> rd32 (uframe (smem s1) pf) 4 = of_nat (off + n) \<and>
      (\<forall>s2 pf2 qf2. serv_inv s2 \<and> sfs s2 = sfs s1 \<and> file_request s2 i f off n pf2 qf2 \<longrightarrow>
        (\<exists>s3. serve_read e fsreq s2 = Some (int n, s3) \<and> sfs s3 = sfs s2 \<and>
           rd32 (uframe (smem s3) pf2) 4 = of_nat (off + n) \<and>
           (\<forall>k < n. uframe (smem s3) qf2 k = uframe (smem s) qf (16 + k)))))"
proof -
  have n: "n \<le> PGSIZE - 16 + BLKSIZE" using assms(8) by simp
  obtain r s1 where w: "serve_write e fsreq s = Some (r, s1)" "r = int n \<or> r = - E_NO_DISK" "file_wf (fmem (sfs s1)) f"
    "f_size (fmem (sfs s1)) f = max (f_size (fmem (sfs s)) f) (int (off + n))"
    "r = int n \<longrightarrow> rd32 (uframe (smem s1) pf) 4 = of_nat (off + n) \<and>
       (\<forall>k < n. has_byte (fmem (sfs s1)) f (off + k) \<and> file_byte (fmem (sfs s1)) f (off + k) = req_byte s qf k)"
    using serve_write_spec [OF assms(1-6) n] by blast
  have rd: "\<exists>s3. serve_read e fsreq s2 = Some (int n, s3) \<and> sfs s3 = sfs s2 \<and>
      rd32 (uframe (smem s3) pf2) 4 = of_nat (off + n) \<and> (\<forall>k < n. uframe (smem s3) qf2 k = uframe (smem s) qf (16 + k))"
    if s2: "r = int n" "serv_inv s2" "sfs s2 = sfs s1" "file_request s2 i f off n pf2 qf2" for s2 pf2 qf2
  proof -
    obtain s3 where "serve_read e fsreq s2 = Some (int n, s3)" "sfs s3 = sfs s2" "rd32 (uframe (smem s3) pf2) 4 = of_nat (off + n)"
      "\<forall>k < n. uframe (smem s3) qf2 k = file_byte (fmem (sfs s2)) f (off + k)"
      using serve_read_spec [OF s2(2,4), where e = e] w assms(7,8) s2(1,3) by fastforce
    moreover have "req_byte s qf k = uframe (smem s) qf (16 + k)" if "k < n" for k
      using that assms(8) by (simp add: req_byte_def)
    ultimately show ?thesis using w(5) s2(1,3) by (intro exI [of _ s3]) simp
  qed
  show ?thesis using w(1,2,5) rd by blast
qed

theorem serve_write_then_read_witness:
  "\<exists>r s1. serve_write 5 fsreq (small_server 100) = Some (r, s1) \<and> (r = 100 \<or> r = - E_NO_DISK) \<and>
     (r = 100 \<longrightarrow> rd32 (uframe (smem s1) 9) 4 = 100)"
proof -
  have a: "sfs (small_server 100) = small_disk" by (simp add: small_server_def)
  have "file_request (small_server 100) 3 small_root 0 100 9 7" by (rule small_server_request) simp
  from serve_write_then_read [OF small_server_inv this, of 5] small_disk_wf show ?thesis
    unfolding a by fastforce
qed

text \<open>The buffer of a write request is declared as \<open>PGSIZE - 12\<close> bytes but starts at offset 16, so
  a request that fills it, as \<open>devfile_write\<close> sends for every long write, ends four bytes beyond the
  page.  These four bytes of the file are not the client's: they are the first bytes of the disk.\<close>

theorem full_write_stores_disk_bytes:
  assumes "serv_inv s" "file_request s i f off (PGSIZE - 12) pf qf" "file_wf (fmem (sfs s)) f" "0 \<le> f_size (fmem (sfs s)) f"
    and "off + (PGSIZE - 12) < 2 ^ 31" "off + (PGSIZE - 12) \<le> 4096 * slots (fmem (sfs s)) f"
  shows "\<exists>r s1. serve_write e fsreq s = Some (r, s1) \<and> (r = int (PGSIZE - 12) \<or> r = - E_NO_DISK) \<and>
    (r = int (PGSIZE - 12) \<longrightarrow>
      (\<forall>k < PGSIZE - 16. file_byte (fmem (sfs s1)) f (off + k) = uframe (smem s) qf (16 + k)) \<and>
      (\<forall>k < 4. file_byte (fmem (sfs s1)) f (off + (PGSIZE - 16) + k) = fmem (sfs s) (DISKMAP + k)))"
proof -
  obtain r s1 where w: "serve_write e fsreq s = Some (r, s1)" "r = int (PGSIZE - 12) \<or> r = - E_NO_DISK"
    "r = int (PGSIZE - 12) \<longrightarrow> (\<forall>k < PGSIZE - 12. file_byte (fmem (sfs s1)) f (off + k) = req_byte s qf k)"
    using serve_write_spec [OF assms, of e] by auto
  have "file_byte (fmem (sfs s1)) f (off + (PGSIZE - 16) + k) = fmem (sfs s) (DISKMAP + k)"
    if "r = int (PGSIZE - 12)" "k < 4" for k
    using w(3) that by (auto simp: req_byte_def add.assoc dest!: spec [of _ "PGSIZE - 16 + k"])
  moreover have "file_byte (fmem (sfs s1)) f (off + k) = uframe (smem s) qf (16 + k)"
    if "r = int (PGSIZE - 12)" "k < PGSIZE - 16" for k
    using w(3) that by (auto simp: req_byte_def)
  ultimately show ?thesis using w(1,2) by blast
qed

theorem full_write_stores_disk_bytes_witness:
  "\<exists>r s1. serve_write 5 fsreq (small_server 4084) = Some (r, s1) \<and> (r = 4084 \<or> r = - E_NO_DISK) \<and>
     (r = 4084 \<longrightarrow> file_byte (fmem (sfs s1)) small_root 4080 = fmem small_disk DISKMAP \<and>
        uframe (smem (small_server 4084)) 7 4095 = 0x41 \<and> fmem small_disk DISKMAP = 0)"
proof -
  have a: "sfs (small_server 4084) = small_disk" by (simp add: small_server_def)
  have "file_request (small_server 4084) 3 small_root 0 4084 9 7" by (rule small_server_request) simp
  then have f: "file_request (small_server 4084) 3 small_root 0 (PGSIZE - 12) 9 7" by simp
  have "uframe (smem (small_server 4084)) 7 4095 = 0x41" by (simp add: small_server_def wr32_other)
  moreover have "fmem small_disk DISKMAP = 0" by (simp add: small_disk_def)
  ultimately show ?thesis
    using full_write_stores_disk_bytes [OF small_server_inv f, of 5] small_disk_wf unfolding a by fastforce
qed

text \<open>The identifiers below \<open>MAXOPEN\<close>, which no open has ever given out, pass the check of
  \<open>openfile_lookup\<close>, since it rejects entries with one reference but not those with none.  The entry
  has no file, so that a flush request with such an identifier stops a newly started server.\<close>

theorem unopened_id_stops_server:
  assumes "i < MAXOPEN" "o_file (opentab b ! i) = None" "upt (smem b) (fd_vpn i) = None"
    and "upt (smem b) 0xFFFF = Some q" "rd32 (uframe (smem b) (pg_frame q)) 0 = of_nat i" "perm AND UPTE_P \<noteq> 0"
  shows "openfile_lookup whom (of_nat i) (serve_init b) = (0, Some i) \<and> serve FSREQ_FLUSH whom perm (serve_init b) = None"
proof -
  let ?s = "serve_init b"
  have m: "smem ?s = smem b" by (simp add: serve_init_def)
  have t: "opentab ?s ! i = (opentab b ! i)\<lparr>o_fileid := of_nat i, o_fd := FILEVA + i * PGSIZE\<rparr>"
    using assms(1) by (simp add: serve_init_def del: upt_rec_numeral)
  have "pageref (FILEVA + i * PGSIZE) (smem b) = 0" using assms(3) by (simp add: pageref_def vpn_entry)
  then have l: "openfile_lookup whom (of_nat i) ?s = (0, Some i)"
    using assms(1) t by (simp add: openfile_lookup_def Let_def unat_of_nat m)
  have "uld32 fsreq (smem ?s) = Some (of_nat i)" using uld32_req [OF assms(4), of 0] assms(5) by (simp add: m)
  then have "serve_flush whom fsreq ?s = None" using l t assms(2) by (simp add: serve_flush_def)
  then show ?thesis using l assms(6) by (simp add: serve_def handlers_def)
qed

theorem unopened_id_stops_server_witness:
  "serve FSREQ_FLUSH 5 7 (serve_init open_server) = None"
proof -
  have "o_file (opentab open_server ! 0) = None" by (simp add: open_server_def small_server_def del: upt_rec_numeral)
  moreover have "upt (smem open_server) (fd_vpn 0) = None" "upt (smem open_server) 0xFFFF = Some \<lparr>pg_frame = 7, pg_perm = 7\<rparr>"
    "rd32 (uframe (smem open_server) (pg_frame \<lparr>pg_frame = 7, pg_perm = 7\<rparr>)) 0 = of_nat 0"
    by (simp_all add: open_server_def small_server_def rd32_def)
  ultimately show ?thesis using unopened_id_stops_server [of 0 open_server _ 7 5] by simp
qed

end
