(* ===== verification/Lib_File.thy ===== *)
theory Lib_File
  imports Lib_Fd Fs_Serv
begin

text \<open>
  The client side of the file system, \<^verbatim>\<open>lib/file.c\<close>, together with the server.

  The state is the memory of the client extended by the state of the server: both have their own
  page tables over the same frames and reference counts.  A request (\<open>fsipc\<close>) maps the client's
  page \<open>fsipcbuf\<close> into the server, runs one round of the server loop and maps the page of the
  answer, if there is one, into the client.  The address of \<open>fsipcbuf\<close>, which the linker chooses, is
  a field of the state.  Other clients do not run in between.  \<open>None\<close> is a fault of the client or the server.
\<close>

record fworld = umem +
  fsipcbuf :: nat
  sv_pt :: "nat \<Rightarrow> upage option"
  sv_tab :: "openfile list"
  sv_fs :: fsstate

definition server_of :: "fworld \<Rightarrow> server" where
  "server_of w = \<lparr>opentab = sv_tab w, sfs = sv_fs w,
     smem = \<lparr>upt = sv_pt w, uframe = uframe w, uref = uref w, ufree = ufree w, krets = krets w\<rparr>\<rparr>"

definition with_server :: "server \<Rightarrow> fworld \<Rightarrow> fworld" where
  "with_server s w = w\<lparr>uframe := uframe (smem s), uref := uref (smem s), ufree := ufree (smem s), krets := krets (smem s),
     sv_pt := upt (smem s), sv_tab := opentab s, sv_fs := sfs s\<rparr>"

section \<open>Requests\<close>

text \<open>\<open>me\<close> is the identifier of the client; \<open>dstva\<close> is 0 for no page.\<close>

definition fsipc :: "u32 \<Rightarrow> u32 \<Rightarrow> nat \<Rightarrow> fworld \<Rightarrow> (int \<times> fworld) option" where
  "fsipc me type dstva w = do {
     p \<leftarrow> upt w (vpn (fsipcbuf w));
     let s = server_of w;
     (rp, s1) \<leftarrow> serve type me (UPTE_P OR UPTE_W OR UPTE_U)
       (s\<lparr>smem := map_vpn (vpn fsreq) (pg_frame p) (UPTE_P OR UPTE_W OR UPTE_U) (smem s)\<rparr>);
     r \<leftarrow> rp;
     let w1 = with_server s1 w;
     Some (rp_val r,
       (case rp_page r of
          None \<Rightarrow> w1
        | Some (va, perm) \<Rightarrow>
            (case upt (smem s1) (vpn va) of
               None \<Rightarrow> w1
             | Some q \<Rightarrow> if dstva = 0 then w1 else map_vpn (vpn dstva) (pg_frame q) perm w1))) }"

section \<open>The file device\<close>

definition devfile_flush :: "u32 \<Rightarrow> nat \<Rightarrow> fworld \<Rightarrow> (int \<times> fworld) option" where
  "devfile_flush me fd w = do {
     fid \<leftarrow> uld32 (fd + 12) w;
     w1 \<leftarrow> ust32 (fsipcbuf w) fid w;
     fsipc me FSREQ_FLUSH 0 w1 }"

definition devfile_read :: "u32 \<Rightarrow> nat \<Rightarrow> nat \<Rightarrow> fworld \<Rightarrow> (int \<times> u8 list \<times> fworld) option" where
  "devfile_read me fd n w = do {
     fid \<leftarrow> uld32 (fd + 12) w;
     w1 \<leftarrow> ust32 (fsipcbuf w) fid w;
     w2 \<leftarrow> ust64 (fsipcbuf w + 8) n w1;
     (r, w3) \<leftarrow> fsipc me FSREQ_READ 0 w2;
     if r \<le> 0 then Some (r, [], w3)
     else do { bs \<leftarrow> uld_list (fsipcbuf w) (nat r) w3; Some (r, bs, w3) } }"

text \<open>The longest write: \<open>PGSIZE - (sizeof(int) + sizeof(size_t))\<close>.\<close>

definition devfile_write :: "u32 \<Rightarrow> nat \<Rightarrow> u8 list \<Rightarrow> fworld \<Rightarrow> (int \<times> fworld) option" where
  "devfile_write me fd bs w = do {
     fid \<leftarrow> uld32 (fd + 12) w;
     w1 \<leftarrow> ust32 (fsipcbuf w) fid w;
     let n = min (length bs) (PGSIZE - (4 + 8));
     w2 \<leftarrow> ust64 (fsipcbuf w + 8) n w1;
     w3 \<leftarrow> ust_list (fsipcbuf w + 16) (take n bs) w2;
     fsipc me FSREQ_WRITE 0 w3 }"

definition devfile_stat :: "u32 \<Rightarrow> nat \<Rightarrow> fstat_buf \<Rightarrow> fworld \<Rightarrow> (int \<times> fstat_buf \<times> fworld) option" where
  "devfile_stat me fd st w = do {
     fid \<leftarrow> uld32 (fd + 12) w;
     w1 \<leftarrow> ust32 (fsipcbuf w) fid w;
     (r, w2) \<leftarrow> fsipc me FSREQ_STAT 0 w1;
     if r < 0 then Some (r, st, w2)
     else do {
       size \<leftarrow> uld32 (fsipcbuf w + 128) w2;
       isdir \<leftarrow> uld32 (fsipcbuf w + 132) w2;
       name \<leftarrow> uld_list (fsipcbuf w) PGSIZE w2;
       Some (0, st\<lparr>st_name := takeWhile (\<lambda>b. b \<noteq> 0) name, st_size := sint size,
         st_isdir := isdir \<noteq> 0\<rparr>, w2) } }"

definition devfile_trunc :: "u32 \<Rightarrow> nat \<Rightarrow> int \<Rightarrow> fworld \<Rightarrow> (int \<times> fworld) option" where
  "devfile_trunc me fd newsize w = do {
     fid \<leftarrow> uld32 (fd + 12) w;
     w1 \<leftarrow> ust32 (fsipcbuf w) fid w;
     w2 \<leftarrow> ust32 (fsipcbuf w + 4) (word_of_int newsize) w1;
     fsipc me FSREQ_SET_SIZE 0 w2 }"

definition devfile :: "u32 \<Rightarrow> fworld dev" where
  "devfile me = \<lparr>dev_id = DEV_FILE, dev_read = Some (devfile_read me), dev_write = Some (devfile_write me),
     dev_close = Some (devfile_flush me), dev_stat = Some (devfile_stat me), dev_trunc = Some (devfile_trunc me)\<rparr>"

section \<open>Files by name\<close>

text \<open>A path is the list of its bytes; \<open>strncpy\<close> fills up the field of the request with zeros.\<close>

definition open_path :: "u32 \<Rightarrow> fworld dev list \<Rightarrow> u8 list \<Rightarrow> u32 \<Rightarrow> fworld \<Rightarrow> (int \<times> fworld) option" where
  "open_path me devtab path mode w =
     (if length path \<ge> MAXPATHLEN then Some (- E_BAD_PATH, w)
      else (case fd_alloc w of
        (r, None) \<Rightarrow> Some (r, w)
      | (_, Some fd) \<Rightarrow> do {
          w1 \<leftarrow> ust_list (fsipcbuf w) (path @ replicate (MAXPATHLEN - length path) 0) w;
          w2 \<leftarrow> ust32 (fsipcbuf w + MAXPATHLEN) mode w1;
          (r, w3) \<leftarrow> fsipc me FSREQ_OPEN fd w2;
          if r < 0 then do {
            (d, w4) \<leftarrow> fd_close devtab fd False w3;
            Some (if d < 0 then d else r, w4) }
          else Some (sint (word_of_nat (fd2num fd) :: u32), w3) }))"

definition remove_path :: "u32 \<Rightarrow> u8 list \<Rightarrow> fworld \<Rightarrow> (int \<times> fworld) option" where
  "remove_path me path w =
     (if length path \<ge> MAXPATHLEN then Some (- E_BAD_PATH, w)
      else do {
        w1 \<leftarrow> ust_list (fsipcbuf w) (path @ [0]) w;
        fsipc me FSREQ_REMOVE 0 w1 })"

definition sync :: "u32 \<Rightarrow> fworld \<Rightarrow> (int \<times> fworld) option" where
  "sync me w = fsipc me FSREQ_SYNC 0 w"

text \<open>The copying loop: the result is the code of the last read, or the error of a write.  A short
  write is not noticed.\<close>

partial_function (option) copy_loop :: "fworld dev list \<Rightarrow> int \<Rightarrow> int \<Rightarrow> fworld \<Rightarrow> (int \<times> fworld) option" where
  "copy_loop devtab src dst w =
     Option.bind (fd_read devtab src 512 w) (\<lambda>x. case x of (r, bs, w1) \<Rightarrow>
       if r > 0 then
         Option.bind (fd_write devtab dst bs w1) (\<lambda>y. case y of (n, w2) \<Rightarrow>
           if n < 0 then Some (n, w2) else copy_loop devtab src dst w2)
       else Some (r, w1))"

definition copy :: "u32 \<Rightarrow> fworld dev list \<Rightarrow> u8 list \<Rightarrow> u8 list \<Rightarrow> fworld \<Rightarrow> (int \<times> fworld) option" where
  "copy me devtab src dest w = do {
     (fd_src, w1) \<leftarrow> open_path me devtab src O_RDONLY w;
     if fd_src < 0 then Some (fd_src, w1)
     else do {
       (fd_dest, w2) \<leftarrow> open_path me devtab dest (O_CREAT OR O_WRONLY) w1;
       if fd_dest < 0 then do { (_, w3) \<leftarrow> close devtab fd_src w2; Some (fd_dest, w3) }
       else do {
         (r, w3) \<leftarrow> copy_loop devtab fd_src fd_dest w2;
         (_, w4) \<leftarrow> close devtab fd_src w3;
         (_, w5) \<leftarrow> close devtab fd_dest w4;
         Some (if r < 0 then r else 0, w5) } } }"

section \<open>A request and its answer\<close>

text \<open>An open file of a client, with descriptor \<open>j\<close> and entry \<open>i\<close> of the server on the same frame
  \<open>pf\<close>, at offset \<open>off\<close>; the request page of the client is frame \<open>qf\<close>.\<close>

definition file_ready :: "fworld \<Rightarrow> nat \<Rightarrow> nat \<Rightarrow> nat \<Rightarrow> nat \<Rightarrow> nat \<Rightarrow> nat \<Rightarrow> bool" where
  "file_ready w i j f off pf qf \<longleftrightarrow> serv_inv (server_of w) \<and> sv_pt w 0xFFFF = None \<and> i < MAXOPEN \<and> j < MAXFD \<and>
     o_file (sv_tab w ! i) = Some f \<and> sv_pt w (fd_vpn i) = Some \<lparr>pg_frame = pf, pg_perm = FD_PERM\<rparr> \<and>
     (\<exists>perm. upt w (fd_vpn j) = Some \<lparr>pg_frame = pf, pg_perm = perm\<rparr> \<and> perm AND UPTE_W \<noteq> 0) \<and>
     fsipcbuf w mod PGSIZE = 0 \<and>
     (\<exists>perm. upt w (vpn (fsipcbuf w)) = Some \<lparr>pg_frame = qf, pg_perm = perm\<rparr> \<and> perm AND UPTE_W \<noteq> 0) \<and>
     pf \<noteq> qf \<and> 2 \<le> uref w pf \<and> 0 < uref w qf \<and> off < 2 ^ 31 \<and>
     rd32 (uframe w pf) 0 = DEV_FILE \<and> rd32 (uframe w pf) 4 = of_nat off \<and> rd32 (uframe w pf) 8 = 2 \<and>
     rd32 (uframe w pf) 12 = o_fileid (sv_tab w ! i)"

text \<open>The server with the request page of a client.\<close>

definition req_server :: "fworld \<Rightarrow> nat \<Rightarrow> server" where
  "req_server w qf = (server_of w)\<lparr>smem := map_vpn 0xFFFF qf 7 (smem (server_of w))\<rparr>"

lemma req_server_simps:
  assumes "sv_pt w 0xFFFF = None"
  shows "upt (smem (req_server w qf)) = (sv_pt w)(0xFFFF := Some \<lparr>pg_frame = qf, pg_perm = 7\<rparr>)"
    "uref (smem (req_server w qf)) = (uref w)(qf := uref w qf + 1)"
    "uframe (smem (req_server w qf)) = uframe w" "ufree (smem (req_server w qf)) = ufree w"
    "krets (smem (req_server w qf)) = krets w" "opentab (req_server w qf) = sv_tab w" "sfs (req_server w qf) = sv_fs w"
  using assms by (simp_all add: req_server_def server_of_def map_vpn_def unmap_vpn_def Let_def)

lemma request_done:
  assumes "sv_pt w 0xFFFF = None" "0 < uref w qf"
  shows "with_server ((req_server w qf)\<lparr>sfs := t, smem := u_page_unmap fsreq ((smem (req_server w qf))\<lparr>uframe := x\<rparr>)\<rparr>) w =
    w\<lparr>uframe := x, sv_fs := t\<rparr>"
  using assms unfolding with_server_def u_page_unmap_def vpn_fsreq
  by (simp add: unmap_vpn_def req_server_simps [OF assms(1)] Let_def fun_upd_idem)

lemma fsipc_eq:
  assumes "sv_pt w 0xFFFF = None" "0 < uref w qf" "upt w (vpn (fsipcbuf w)) = Some p" "pg_frame p = qf"
    and "handlers type = Some h" "type \<noteq> FSREQ_OPEN"
    and "h me fsreq (req_server w qf) = Some (r, (req_server w qf)\<lparr>sfs := t, smem := (smem (req_server w qf))\<lparr>uframe := x\<rparr>\<rparr>)"
  shows "fsipc me type 0 w = Some (r, w\<lparr>uframe := x, sv_fs := t\<rparr>)"
proof -
  have "(server_of w)\<lparr>smem := map_vpn (vpn fsreq) (pg_frame p) (UPTE_P OR UPTE_W OR UPTE_U) (smem (server_of w))\<rparr> = req_server w qf"
    by (simp add: req_server_def assms(4))
  then show ?thesis
    unfolding fsipc_def assms(3) bind.bind_lunit Let_def
    using assms(5-7) by (simp add: serve_def request_done [OF assms(1,2)])
qed

lemma serv_inv_req:
  assumes "file_ready w i j f off pf qf"
  shows "serv_inv (req_server w qf)"
proof -
  have "serv_inv (server_of w)" "0 < uref w qf" using assms by (simp_all add: file_ready_def)
  moreover from this have "qf \<notin> set (ufree (smem (server_of w)))"
    by (auto simp: serv_inv_def umem_inv_def server_of_def)
  ultimately show ?thesis using serv_inv_request [of "server_of w" qf 7] by (simp add: req_server_def)
qed

lemma serv_inv_contents [simp]:
  "serv_inv (server_of (w\<lparr>uframe := x\<rparr>)) = serv_inv (server_of w)" "serv_inv (server_of (w\<lparr>sv_fs := t\<rparr>)) = serv_inv (server_of w)"
  by (simp_all add: serv_inv_def server_of_def umem_inv_def maps_to_def fds_apart_def)

lemma file_ready_page:
  "file_ready w i j f off pf qf \<Longrightarrow> file_ready (w\<lparr>uframe := (uframe w)(qf := g)\<rparr>) i j f off pf qf"
  by (auto simp: file_ready_def)

text \<open>A request for \<open>n\<close> bytes, when the client has stored the identifier and the count.\<close>

lemma file_request_ready:
  assumes "file_ready w i j f off pf qf" "rd32 (uframe w qf) 0 = o_fileid (sv_tab w ! i)"
    and "rd32 (uframe w qf) 8 = of_nat n" "rd32 (uframe w qf) 12 = 0" "n < 2 ^ 32"
  shows "file_request (req_server w qf) i f off n pf qf"
proof -
  have e: "sv_pt w 0xFFFF = None" using assms(1) by (simp add: file_ready_def)
  note sm = req_server_simps [OF e]
  have q: "upt (smem (req_server w qf)) 0xFFFF = Some \<lparr>pg_frame = qf, pg_perm = 7\<rparr>" by (simp add: sm)
  have "uld64 (fsreq + 8) (smem (req_server w qf)) = Some n"
    using uld32_req [OF q, of 8] uld32_req [OF q, of 12] assms(3-5)
    by (simp add: uld64_def sm add.assoc unat_of_nat)
  then show ?thesis using assms(1,2)
    by (auto simp: file_request_def file_ready_def sm pageref_def vpn_entry)
qed

lemma fsipc_write:
  assumes rdy: "file_ready w i j f off pf qf" and wf: "file_wf (fmem (sv_fs w)) f" "0 \<le> f_size (fmem (sv_fs w)) f"
    and rq: "rd32 (uframe w qf) 0 = o_fileid (sv_tab w ! i)" "rd32 (uframe w qf) 8 = of_nat n" "rd32 (uframe w qf) 12 = 0"
    and b: "off + n < 2 ^ 31" "off + n \<le> 4096 * slots (fmem (sv_fs w)) f" "n \<le> PGSIZE - 16"
  shows "\<exists>r t. fsipc me FSREQ_WRITE 0 w = Some (r, w\<lparr>sv_fs := t, uframe := (if r < 0 then uframe w
        else (uframe w)(pf := wr32 (uframe w pf) 4 (of_nat (off + n))))\<rparr>) \<and> (r = int n \<or> r = - E_NO_DISK) \<and>
    file_wf (fmem t) f \<and> f_size (fmem t) f = max (f_size (fmem (sv_fs w)) f) (int (off + n)) \<and>
    (r = int n \<longrightarrow> (\<forall>k < n. has_byte (fmem t) f (off + k) \<and> file_byte (fmem t) f (off + k) = uframe w qf (16 + k)))"
proof -
  have e: "sv_pt w 0xFFFF = None" "0 < uref w qf" using rdy by (simp_all add: file_ready_def)
  note sm = req_server_simps [OF e(1), of qf]
  from rdy obtain perm where p: "upt w (vpn (fsipcbuf w)) = Some \<lparr>pg_frame = qf, pg_perm = perm\<rparr>" by (auto simp: file_ready_def)
  have fr: "file_request (req_server w qf) i f off n pf qf" using file_request_ready [OF rdy rq] b(3) by simp
  obtain r t where s: "serve_write me fsreq (req_server w qf) = Some (r, if r < 0 then (req_server w qf)\<lparr>sfs := t\<rparr>
      else (req_server w qf)\<lparr>sfs := t, smem := advance pf (off + n) (smem (req_server w qf))\<rparr>)"
    "r = int n \<or> r = - E_NO_DISK" "file_wf (fmem t) f" "f_size (fmem t) f = max (f_size (fmem (sv_fs w)) f) (int (off + n))"
    "r = int n \<longrightarrow> (\<forall>k < n. has_byte (fmem t) f (off + k) \<and> file_byte (fmem t) f (off + k) = req_byte (req_server w qf) qf k)"
    using serve_write_eq [OF serv_inv_req [OF rdy] fr, of me] wf b by (auto simp: sm)
  let ?x = "if r < 0 then uframe w else (uframe w)(pf := wr32 (uframe w pf) 4 (of_nat (off + n)))"
  have "serve_write me fsreq (req_server w qf) = Some (r, (req_server w qf)\<lparr>sfs := t, smem := (smem (req_server w qf))\<lparr>uframe := ?x\<rparr>\<rparr>)"
    unfolding s(1) by (simp add: advance_def sm)
  from fsipc_eq [where h = serve_write and type = FSREQ_WRITE, OF e p _ _ _ this] have "fsipc me FSREQ_WRITE 0 w = Some (r, w\<lparr>uframe := ?x, sv_fs := t\<rparr>)"
    by (simp add: handlers_def)
  moreover have "req_byte (req_server w qf) qf k = uframe w qf (16 + k)" if "k < n" for k
    using that b(3) by (simp add: req_byte_def sm)
  ultimately show ?thesis using s(2-5) by (intro exI [of _ r] exI [of _ t]) simp
qed

lemma fsipc_read:
  assumes rdy: "file_ready w i j f off pf qf" and wf: "file_wf (fmem (sv_fs w)) f" "int (off + n) \<le> f_size (fmem (sv_fs w)) f"
    and rq: "rd32 (uframe w qf) 0 = o_fileid (sv_tab w ! i)" "rd32 (uframe w qf) 8 = of_nat n" "rd32 (uframe w qf) 12 = 0"
    and b: "0 < n" "n \<le> PGSIZE" and has: "\<And>k. k < n \<Longrightarrow> has_byte (fmem (sv_fs w)) f (off + k)"
  shows "\<exists>x. fsipc me FSREQ_READ 0 w = Some (int n, w\<lparr>uframe := x\<rparr>) \<and>
    (\<forall>k < n. x qf k = file_byte (fmem (sv_fs w)) f (off + k))"
proof -
  have e: "sv_pt w 0xFFFF = None" "0 < uref w qf" "pf \<noteq> qf" using rdy by (simp_all add: file_ready_def)
  note sm = req_server_simps [OF e(1), of qf]
  from rdy obtain perm where p: "upt w (vpn (fsipcbuf w)) = Some \<lparr>pg_frame = qf, pg_perm = perm\<rparr>" by (auto simp: file_ready_def)
  have fr: "file_request (req_server w qf) i f off n pf qf" using file_request_ready [OF rdy rq] b(2) by simp
  define x where "x = uframe (advance pf (off + n) ((smem (req_server w qf))\<lparr>uframe := (uframe w)
    (qf := overlay 0 (map (file_byte (fmem (sv_fs w)) f) [off..<off + n]) (uframe w qf))\<rparr>))"
  have "serve_read me fsreq (req_server w qf) = Some (int n, (req_server w qf)\<lparr>sfs := sv_fs w, smem := (smem (req_server w qf))\<lparr>uframe := x\<rparr>\<rparr>)"
    using serve_read_eq [OF serv_inv_req [OF rdy] fr, of me] wf b has by (simp add: sm advance_def x_def)
  from fsipc_eq [where h = serve_read and type = FSREQ_READ, OF e(1,2) p _ _ _ this] have "fsipc me FSREQ_READ 0 w = Some (int n, w\<lparr>uframe := x\<rparr>)"
    by (simp add: handlers_def)
  moreover have "x qf k = file_byte (fmem (sv_fs w)) f (off + k)" if "k < n" for k
    using that e(3) by (simp add: x_def advance_def overlay_def)
  ultimately show ?thesis by blast
qed

section \<open>Writing and reading a file\<close>

lemma file_ready_buf:
  assumes "file_ready w i j f off pf qf"
  shows "k < PGSIZE \<Longrightarrow> ust32 (fsipcbuf w + k) v w = Some (w\<lparr>uframe := (uframe w)(qf := wr32 (uframe w qf) k v)\<rparr>)"
    "k + length bs \<le> PGSIZE \<Longrightarrow> ust_list (fsipcbuf w + k) bs w = Some (w\<lparr>uframe := (uframe w)(qf := overlay k bs (uframe w qf))\<rparr>)"
    "n \<le> PGSIZE \<Longrightarrow> uld_list (fsipcbuf w) n w = Some (map (uframe w qf) [0..<n])"
    "uld32 (INDEX2FD (int j) + 12) w = Some (o_fileid (sv_tab w ! i))"
proof -
  from assms obtain perm perm' where p: "upt w (vpn (fsipcbuf w)) = Some \<lparr>pg_frame = qf, pg_perm = perm\<rparr>" "perm AND UPTE_W \<noteq> 0"
    and a: "fsipcbuf w mod PGSIZE = 0" "j < MAXFD" "rd32 (uframe w pf) 12 = o_fileid (sv_tab w ! i)"
    and q: "upt w (fd_vpn j) = Some \<lparr>pg_frame = pf, pg_perm = perm'\<rparr>" by (auto simp: file_ready_def)
  show "k < PGSIZE \<Longrightarrow> ust32 (fsipcbuf w + k) v w = Some (w\<lparr>uframe := (uframe w)(qf := wr32 (uframe w qf) k v)\<rparr>)"
    using ust32_page [OF a(1) _ p(1)] p(2) by simp
  show "k + length bs \<le> PGSIZE \<Longrightarrow> ust_list (fsipcbuf w + k) bs w = Some (w\<lparr>uframe := (uframe w)(qf := overlay k bs (uframe w qf))\<rparr>)"
    using ust_list_page [OF a(1) p(1)] p(2) by simp
  show "n \<le> PGSIZE \<Longrightarrow> uld_list (fsipcbuf w) n w = Some (map (uframe w qf) [0..<n])"
    using uld_list_page [OF a(1) p(1)] by simp
  show "uld32 (INDEX2FD (int j) + 12) w = Some (o_fileid (sv_tab w ! i))"
    using q a(2,3) by (simp add: uld32_def vpn_fd)
qed

text \<open>The client's part of a transfer request: identifier and count.\<close>

lemma prepare_request:
  assumes "file_ready w i j f off pf qf" "n < 2 ^ 32"
  obtains g where "do { w1 \<leftarrow> ust32 (fsipcbuf w) (o_fileid (sv_tab w ! i)) w; ust64 (fsipcbuf w + 8) n w1 } = Some (w\<lparr>uframe := (uframe w)(qf := g)\<rparr>)"
    "rd32 g 0 = o_fileid (sv_tab w ! i)" "rd32 g 8 = of_nat n" "rd32 g 12 = 0"
proof -
  let ?id = "o_fileid (sv_tab w ! i)"
  let ?g1 = "wr32 (uframe w qf) 0 ?id" and ?w1 = "w\<lparr>uframe := (uframe w)(qf := wr32 (uframe w qf) 0 ?id)\<rparr>"
  let ?w2 = "w\<lparr>uframe := (uframe w)(qf := wr32 ?g1 8 (of_nat n))\<rparr>"
  have u1: "ust32 (fsipcbuf w) ?id w = Some ?w1" using file_ready_buf(1) [OF assms(1), of 0] by simp
  have u2: "ust32 (fsipcbuf w + 8) (of_nat n) ?w1 = Some ?w2"
    using file_ready_buf(1) [OF file_ready_page [OF assms(1), of ?g1], of 8] by simp
  have u3: "ust32 (fsipcbuf w + 8 + 4) v ?w2 = Some (w\<lparr>uframe := (uframe w)(qf := wr32 (wr32 ?g1 8 (of_nat n)) 12 v)\<rparr>)" for v
    using file_ready_buf(1) [OF file_ready_page [OF assms(1), of "wr32 ?g1 8 (of_nat n)"], of 12] by (simp add: add.assoc)
  have z: "of_nat (n div 2 ^ 32) = (0 :: u32)" using assms(2) by simp
  show thesis
    by (rule that [of "wr32 (wr32 ?g1 8 (of_nat n)) 12 0"])
      (use u1 u2 u3 [of 0] z in \<open>simp_all add: ust64_def cmem_simps\<close>)
qed

lemma devfile_write_ready:
  assumes rdy: "file_ready w i j f off pf qf" and wf: "file_wf (fmem (sv_fs w)) f" "0 \<le> f_size (fmem (sv_fs w)) f"
    and b: "off + length bs < 2 ^ 31" "off + length bs \<le> 4096 * slots (fmem (sv_fs w)) f" "length bs \<le> PGSIZE - 16"
  shows "\<exists>r t x. devfile_write me (INDEX2FD (int j)) bs w = Some (r, w\<lparr>sv_fs := t, uframe := x\<rparr>) \<and> (r = int (length bs) \<or> r = - E_NO_DISK) \<and>
    file_wf (fmem t) f \<and> f_size (fmem t) f = max (f_size (fmem (sv_fs w)) f) (int (off + length bs)) \<and>
    (r = int (length bs) \<longrightarrow> file_ready (w\<lparr>sv_fs := t, uframe := x\<rparr>) i j f (off + length bs) pf qf \<and>
      (\<forall>k < length bs. has_byte (fmem t) f (off + k) \<and> file_byte (fmem t) f (off + k) = bs ! k))"
proof -
  let ?n = "length bs"
  have n: "?n < 2 ^ 32" "min ?n (PGSIZE - (4 + 8)) = ?n" "take ?n bs = bs" using b(3) by simp_all
  from prepare_request [OF rdy n(1)] obtain g where
    g: "do { w1 \<leftarrow> ust32 (fsipcbuf w) (o_fileid (sv_tab w ! i)) w; ust64 (fsipcbuf w + 8) ?n w1 } = Some (w\<lparr>uframe := (uframe w)(qf := g)\<rparr>)"
    "rd32 g 0 = o_fileid (sv_tab w ! i)" "rd32 g 8 = of_nat ?n" "rd32 g 12 = 0" .
  then obtain w1 where g1: "ust32 (fsipcbuf w) (o_fileid (sv_tab w ! i)) w = Some w1"
    "ust64 (fsipcbuf w + 8) ?n w1 = Some (w\<lparr>uframe := (uframe w)(qf := g)\<rparr>)" by (auto simp: bind_eq_Some_conv)
  let ?g = "overlay 16 bs g" and ?w = "w\<lparr>uframe := (uframe w)(qf := overlay 16 bs g)\<rparr>"
  have u: "ust_list (fsipcbuf w + 16) bs (w\<lparr>uframe := (uframe w)(qf := g)\<rparr>) = Some ?w"
    using file_ready_buf(2) [OF file_ready_page [OF rdy, of g], of 16 bs] b(3) by simp
  have ov: "rd32 ?g k = rd32 g k" if "k + 4 \<le> 16" for k
    using that by (intro rd32_cong) (simp add: overlay_def)
  have rdy': "file_ready ?w i j f off pf qf" by (rule file_ready_page [OF rdy])
  from fsipc_write [OF rdy' _ _ _ _ _ b(1) _ b(3), of me] obtain r t where
    r: "fsipc me FSREQ_WRITE 0 ?w = Some (r, ?w\<lparr>sv_fs := t, uframe := (if r < 0 then uframe ?w
        else (uframe ?w)(pf := wr32 (uframe ?w pf) 4 (of_nat (off + ?n))))\<rparr>)" "r = int ?n \<or> r = - E_NO_DISK"
    "file_wf (fmem t) f" "f_size (fmem t) f = max (f_size (fmem (sv_fs w)) f) (int (off + ?n))"
    "r = int ?n \<longrightarrow> (\<forall>k < ?n. has_byte (fmem t) f (off + k) \<and> file_byte (fmem t) f (off + k) = uframe ?w qf (16 + k))"
    using wf b(2) g(2-4) ov by auto
  define x where "x = (if r < 0 then uframe ?w else (uframe ?w)(pf := wr32 (uframe ?w pf) 4 (of_nat (off + ?n))))"
  have "devfile_write me (INDEX2FD (int j)) bs w = Some (r, w\<lparr>sv_fs := t, uframe := x\<rparr>)"
    unfolding devfile_write_def file_ready_buf(4) [OF rdy] bind.bind_lunit g1 Let_def n(2,3) u r(1) x_def by simp
  moreover have "file_ready (w\<lparr>sv_fs := t, uframe := x\<rparr>) i j f (off + ?n) pf qf" if "r = int ?n"
    using rdy' that b(1) by (auto simp: file_ready_def x_def cmem_simps)
  moreover have "uframe ?w qf (16 + k) = bs ! k" if "k < ?n" for k using that by (simp add: overlay_def)
  ultimately show ?thesis using r(2-5) by (intro exI [of _ r] exI [of _ t] exI [of _ x]) simp
qed

lemma devfile_read_ready:
  assumes rdy: "file_ready w i j f off pf qf" and wf: "file_wf (fmem (sv_fs w)) f" "int (off + n) \<le> f_size (fmem (sv_fs w)) f"
    and b: "0 < n" "n \<le> PGSIZE" and has: "\<And>k. k < n \<Longrightarrow> has_byte (fmem (sv_fs w)) f (off + k)"
  shows "\<exists>x. devfile_read me (INDEX2FD (int j)) n w =
    Some (int n, map (\<lambda>k. file_byte (fmem (sv_fs w)) f (off + k)) [0..<n], w\<lparr>uframe := x\<rparr>)"
proof -
  have n: "n < 2 ^ 32" using b(2) by simp
  from prepare_request [OF rdy n] obtain g where
    g: "do { w1 \<leftarrow> ust32 (fsipcbuf w) (o_fileid (sv_tab w ! i)) w; ust64 (fsipcbuf w + 8) n w1 } = Some (w\<lparr>uframe := (uframe w)(qf := g)\<rparr>)"
    "rd32 g 0 = o_fileid (sv_tab w ! i)" "rd32 g 8 = of_nat n" "rd32 g 12 = 0" .
  then obtain w1 where g1: "ust32 (fsipcbuf w) (o_fileid (sv_tab w ! i)) w = Some w1"
    "ust64 (fsipcbuf w + 8) n w1 = Some (w\<lparr>uframe := (uframe w)(qf := g)\<rparr>)" by (auto simp: bind_eq_Some_conv)
  let ?w = "w\<lparr>uframe := (uframe w)(qf := g)\<rparr>"
  have rdy': "file_ready ?w i j f off pf qf" by (rule file_ready_page [OF rdy])
  from fsipc_read [OF rdy' _ _ _ _ _ b, of me] obtain x where
    x: "fsipc me FSREQ_READ 0 ?w = Some (int n, ?w\<lparr>uframe := x\<rparr>)" "\<forall>k < n. x qf k = file_byte (fmem (sv_fs w)) f (off + k)"
    using wf g(2-4) has by auto
  from rdy obtain perm where p: "upt w (vpn (fsipcbuf w)) = Some \<lparr>pg_frame = qf, pg_perm = perm\<rparr>" "fsipcbuf w mod PGSIZE = 0"
    by (auto simp: file_ready_def)
  have l: "uld_list (fsipcbuf w) n (w\<lparr>uframe := x\<rparr>) = Some (map (\<lambda>k. file_byte (fmem (sv_fs w)) f (off + k)) [0..<n])"
    using uld_list_page [OF p(2), of "w\<lparr>uframe := x\<rparr>" _ n] p(1) b(2) x(2) by simp
  have "\<not> int n \<le> 0" "nat (int n) = n" using b(1) by simp_all
  then show ?thesis
    unfolding devfile_read_def file_ready_buf(4) [OF rdy] bind.bind_lunit g1 x(1) prod.case
    using l by (intro exI [of _ x]) simp
qed

text \<open>The descriptor layer finds the file device.\<close>

lemma fd_open_ready:
  assumes "file_ready w i j f off pf qf" "dev_lookup devtab DEV_FILE = (0, Some (devfile me))"
  shows "fd_open devtab (int j) w = Some (0, Some (INDEX2FD (int j), devfile me, 2))"
proof -
  from assms(1) obtain perm where p: "upt w (fd_vpn j) = Some \<lparr>pg_frame = pf, pg_perm = perm\<rparr>" "j < MAXFD"
    "rd32 (uframe w pf) 0 = DEV_FILE" "rd32 (uframe w pf) 8 = 2" by (auto simp: file_ready_def)
  have "mapped_at (INDEX2FD (int j)) w" using p by (simp add: mapped_at_def vpn_fd)
  moreover have "uld32 (INDEX2FD (int j)) w = Some DEV_FILE" "uld32 (INDEX2FD (int j) + 8) w = Some 2"
    using p vpn_fd(3) [OF p(2), of 0] by (simp_all add: uld32_def vpn_fd)
  ultimately show ?thesis using assms(2) p(2) by (simp add: fd_open_def fd_lookup_open)
qed

lemma seek_ready:
  assumes "file_ready w i j f off pf qf" "off' < 2 ^ 31"
  shows "\<exists>x. seek (int j) (of_nat off') w = Some (0, w\<lparr>uframe := x\<rparr>) \<and> file_ready (w\<lparr>uframe := x\<rparr>) i j f off' pf qf"
proof -
  from assms(1) obtain perm where p: "upt w (fd_vpn j) = Some \<lparr>pg_frame = pf, pg_perm = perm\<rparr>" "perm AND UPTE_W \<noteq> 0" "j < MAXFD"
    by (auto simp: file_ready_def)
  let ?x = "(uframe w)(pf := wr32 (uframe w pf) 4 (of_nat off'))"
  have "mapped_at (INDEX2FD (int j)) w" using p by (simp add: mapped_at_def vpn_fd)
  moreover have "ust32 (INDEX2FD (int j) + 4) (of_nat off') w = Some (w\<lparr>uframe := ?x\<rparr>)"
    using p by (simp add: ust32_def vpn_fd)
  ultimately have "seek (int j) (of_nat off') w = Some (0, w\<lparr>uframe := ?x\<rparr>)"
    using p(3) by (simp add: seek_def fd_lookup_open)
  moreover have "file_ready (w\<lparr>uframe := ?x\<rparr>) i j f off' pf qf"
    using assms by (auto simp: file_ready_def cmem_simps)
  ultimately show ?thesis by blast
qed

section \<open>Properties\<close>


text \<open>A client with descriptor 2 on the entry of the small server.\<close>

definition small_world :: fworld where
  "small_world = \<lparr>upt = (\<lambda>_. None)(fd_vpn 2 := Some \<lparr>pg_frame = 9, pg_perm = 0x407\<rparr>, 0x900 := Some \<lparr>pg_frame = 7, pg_perm = 7\<rparr>),
     uframe = (\<lambda>_ _. 0)(9 := wr32 (wr32 (wr32 (\<lambda>_. 0) 12 1027) 8 2) 0 DEV_FILE), uref = (\<lambda>_. 0)(9 := 2, 7 := 1),
     ufree = [20, 21], krets = [], fsipcbuf = 0x900000,
     sv_pt = (\<lambda>_. None)(fd_vpn 3 := Some \<lparr>pg_frame = 9, pg_perm = FD_PERM\<rparr>),
     sv_tab = opentab (small_server 0), sv_fs = small_disk\<rparr>"

lemma small_world_ready: "file_ready small_world 3 2 small_root 0 9 7"
proof -
  have t: "sv_tab small_world = opentab (small_server 0)" by (simp add: small_world_def)
  have "tab_ok (sv_tab small_world)" using small_server_inv [of 0] unfolding t by (simp add: serv_inv_def)
  moreover have "maps_to (smem (server_of small_world)) f = (if f = 9 then {fd_vpn 3} else {})" for f
    by (auto simp: maps_to_def small_world_def server_of_def split: if_splits)
  then have "umem_inv (smem (server_of small_world))"
    by (auto simp: umem_inv_def) (auto simp: small_world_def server_of_def)
  moreover have "fds_apart (smem (server_of small_world))" by (auto simp: fds_apart_def small_world_def server_of_def)
  ultimately have "serv_inv (server_of small_world)" by (simp add: serv_inv_def server_of_def)
  moreover have "sv_tab small_world ! 3 = \<lparr>o_fileid = 1027, o_file = Some small_root, o_mode = 2, o_fd = FILEVA + 3 * PGSIZE\<rparr>"
    unfolding t by (simp add: small_server_def del: upt_rec_numeral)
  moreover have "rd32 (wr32 (wr32 (wr32 (\<lambda>_. 0) 12 1027) 8 2) 0 DEV_FILE) 4 = 0"
    by (simp add: cmem_simps) (simp add: rd32_def)
  ultimately show ?thesis
    by (simp add: file_ready_def) (simp add: small_world_def vpn_def cmem_simps)
qed


end
