(* ===== verification/Lib_Fork.thy ===== *)
theory Lib_Fork
  imports User_Mem
begin

text \<open>
  User-level fork with copy-on-write, \<^verbatim>\<open>lib/fork.c\<close>.

  The state is the memory of the parent extended by the page table of the child, over the same frames
  and reference counts, and by the present bits of the upper levels of the parent's page table, as
  \<open>uvpml4e\<close>, \<open>uvpde\<close> and \<open>uvpd\<close> show them; the variable \<open>_pgfault_handler\<close> and what the kernel
  keeps of the two environments (upcall and status) are fields too.  Addresses are 64-bit words; the subtractions of the
  scan wrap around.  \<open>None\<close> is a panic or a scan that does not end.
\<close>

record fkworld = umem +
  ch_pt :: "nat \<Rightarrow> upage option"
  pml4_p :: "nat \<Rightarrow> bool"
  pdpe_p :: "nat \<Rightarrow> bool"
  pd_p :: "nat \<Rightarrow> bool"
  pf_handler :: nat
  pf_upcall :: nat
  ch_upcall :: nat
  ch_runnable :: bool

abbreviation UXSTACKTOP :: nat where "UXSTACKTOP \<equiv> 0xEF800000"
abbreviation USTACKTOP :: nat where "USTACKTOP \<equiv> UXSTACKTOP - 2 * PGSIZE"
abbreviation UTEXT :: nat where "UTEXT \<equiv> 0x800000"
abbreviation PFTEMP :: nat where "PFTEMP \<equiv> 0x5FF000"
abbreviation FEC_WR :: u32 where "FEC_WR \<equiv> 2"
abbreviation PERM_PUW :: u32 where "PERM_PUW \<equiv> UPTE_P OR UPTE_U OR UPTE_W"

section \<open>The page fault handler\<close>

text \<open>\<open>memmove\<close> of a whole page; both pages must be mapped, the destination writable.\<close>

definition copy_page :: "nat \<Rightarrow> nat \<Rightarrow> 'a umem_scheme \<Rightarrow> 'a umem_scheme option" where
  "copy_page dst src s =
     (case (upt s (vpn dst), upt s (vpn src)) of
        (Some d, Some p) \<Rightarrow>
          if pg_perm d AND UPTE_W = 0 then None
          else Some (s\<lparr>uframe := (uframe s)(pg_frame d := uframe s (pg_frame p))\<rparr>)
      | _ \<Rightarrow> None)"

definition pgfault :: "nat \<Rightarrow> u32 \<Rightarrow> 'a umem_scheme \<Rightarrow> 'a umem_scheme option" where
  "pgfault addr err s =
     (if err AND FEC_WR = 0 \<and> perm_at addr s AND UPTE_COW \<noteq> 0 then None
      else
        let (r, s1) = u_page_alloc PFTEMP PERM_PUW s in
        if r \<noteq> 0 then None
        else do {
          let page = ROUNDDOWN addr PGSIZE;
          s2 \<leftarrow> copy_page PFTEMP page s1;
          let (r2, s3) = u_page_map PFTEMP page PERM_PUW s2;
          if r2 < 0 then None else Some (u_page_unmap PFTEMP s3) })"

section \<open>Calls on the child\<close>

definition in_child :: "('a fkworld_scheme \<Rightarrow> 'a fkworld_scheme) \<Rightarrow> 'a fkworld_scheme \<Rightarrow> 'a fkworld_scheme" where
  "in_child f s = (let t = f (s\<lparr>upt := ch_pt s\<rparr>) in t\<lparr>upt := upt s, ch_pt := upt t\<rparr>)"

definition c_page_map :: "nat \<Rightarrow> u32 \<Rightarrow> 'a fkworld_scheme \<Rightarrow> int \<times> 'a fkworld_scheme" where
  "c_page_map va perm s =
     (let (r, s1) = kret s in
      if r < 0 then (r, s1)
      else case upt s1 (vpn va) of
             None \<Rightarrow> (- E_INVAL, s1)
           | Some p \<Rightarrow>
               if pg_perm p AND UPTE_W = 0 \<and> perm AND UPTE_W \<noteq> 0 then (- E_INVAL, s1)
               else (0, in_child (map_vpn (vpn va) (pg_frame p) perm) s1))"

definition c_page_alloc :: "nat \<Rightarrow> u32 \<Rightarrow> 'a fkworld_scheme \<Rightarrow> int \<times> 'a fkworld_scheme" where
  "c_page_alloc va perm s =
     (let (r, t) = u_page_alloc va perm (s\<lparr>upt := ch_pt s\<rparr>) in (r, t\<lparr>upt := upt s, ch_pt := upt t\<rparr>))"

text \<open>\<open>sys_page_map\<close> from the child into the parent.\<close>

definition p_page_map :: "nat \<Rightarrow> nat \<Rightarrow> u32 \<Rightarrow> 'a fkworld_scheme \<Rightarrow> int \<times> 'a fkworld_scheme" where
  "p_page_map srcva dstva perm s =
     (let (r, s1) = kret s in
      if r < 0 then (r, s1)
      else case ch_pt s1 (vpn srcva) of
             None \<Rightarrow> (- E_INVAL, s1)
           | Some p \<Rightarrow>
               if pg_perm p AND UPTE_W = 0 \<and> perm AND UPTE_W \<noteq> 0 then (- E_INVAL, s1)
               else (0, map_vpn (vpn dstva) (pg_frame p) perm s1))"

section \<open>Fork\<close>

text \<open>\<open>duppage(envid, pn)\<close>.  Its tests \<open>0 < sys_page_map(...)\<close> never hold, so errors are ignored.\<close>

definition duppage :: "nat \<Rightarrow> fkworld \<Rightarrow> fkworld" where
  "duppage pn s =
     (let perm = (case upt s pn of None \<Rightarrow> 0 | Some p \<Rightarrow> pg_perm p) AND UPTE_SYSCALL; addr = pn * PGSIZE in
      if perm AND UPTE_SHARE \<noteq> 0 then snd (c_page_map addr perm s)
      else if perm AND UPTE_W \<noteq> 0 \<or> perm AND UPTE_COW \<noteq> 0 then
        let perm1 = (perm OR UPTE_COW) AND NOT UPTE_W;
            s1 = snd (c_page_map addr perm1 s)
        in snd (u_page_map addr addr perm1 s1)
      else snd (c_page_map addr perm s))"

text \<open>One round of the scan: the address after the skip, before the step of the loop.\<close>

definition scan_step :: "u64 \<Rightarrow> fkworld \<Rightarrow> u64 \<times> fkworld" where
  "scan_step addr s =
     (let a = unat addr in
      if pml4_p s (a div 2 ^ 39) then
        if pdpe_p s (a div 2 ^ 30) then
          if pd_p s (a div 2 ^ 21) then (addr, if upt s (vpn a) \<noteq> None then duppage (vpn a) s else s)
          else (addr - 512 * 4096, s)
        else (addr - 512 * 512 * 4096, s)
      else (addr - push_bit 39 (of_nat (a div 2 ^ 39 + 1)), s))"

partial_function (option) fork_loop :: "u64 \<Rightarrow> fkworld \<Rightarrow> fkworld option" where
  "fork_loop addr s =
     (if unat addr < UTEXT then Some s
      else case scan_step addr s of (addr1, s1) \<Rightarrow> fork_loop (addr1 - 4096) s1)"

text \<open>\<open>set_pgfault_handler\<close> of \<^verbatim>\<open>lib/pgfault.c\<close>; \<open>upcall\<close> is the address of \<open>_pgfault_upcall\<close>.\<close>

definition set_pgfault_handler :: "nat \<Rightarrow> nat \<Rightarrow> fkworld \<Rightarrow> fkworld option" where
  "set_pgfault_handler upcall hdl s = do {
     s1 \<leftarrow> (if pf_handler s = 0 then
              let (r, t) = u_page_alloc (UXSTACKTOP - PGSIZE) PERM_PUW s
              in if r < 0 then None else Some (t\<lparr>pf_upcall := upcall\<rparr>)
            else Some s);
     Some (s1\<lparr>pf_handler := hdl\<rparr>) }"

text \<open>\<open>fork\<close>, given what \<open>sys_exofork\<close> returned: a negative number makes it panic, zero means that this is
  the child, otherwise it is the identifier of a new child without any pages.  After the scan the child
  gets an exception stack and its own copy of the stack page, the upcall of the parent, and is made
  runnable.  The results of these calls are ignored.\<close>

definition fork_parent :: "fkworld \<Rightarrow> fkworld option" where
  "fork_parent s = do {
     s1 \<leftarrow> fork_loop (of_nat (USTACKTOP - PGSIZE)) s;
     let s2 = snd (c_page_alloc (UXSTACKTOP - PGSIZE) PERM_PUW s1);
     let s3 = snd (c_page_alloc (USTACKTOP - PGSIZE) PERM_PUW s2);
     let s4 = snd (p_page_map (USTACKTOP - PGSIZE) PFTEMP PERM_PUW s3);
     s5 \<leftarrow> copy_page PFTEMP (USTACKTOP - PGSIZE) s4;
     let s6 = u_page_unmap PFTEMP s5;
     Some (s6\<lparr>ch_upcall := pf_upcall s6, ch_runnable := True\<rparr>) }"

definition fork :: "nat \<Rightarrow> nat \<Rightarrow> int \<Rightarrow> fkworld \<Rightarrow> (int \<times> fkworld) option" where
  "fork upcall hdl envid s = do {
     s1 \<leftarrow> set_pgfault_handler upcall hdl s;
     if envid < 0 then None
     else if envid = 0 then Some (0, s1)
     else do { s2 \<leftarrow> fork_parent s1; Some (envid, s2) } }"

section \<open>The page fault handler makes a private copy\<close>

lemma alloc_ok:
  assumes "krets s = []" "ufree s = f # fs"
  shows "u_page_alloc va perm s = (0, map_vpn (vpn va) f perm (s\<lparr>ufree := fs\<rparr>))"
  using assms by (simp add: u_page_alloc_def kret_def)

lemma free_not_mapped: "umem_inv s \<Longrightarrow> ufree s = f # fs \<Longrightarrow> upt s n = Some p \<Longrightarrow> pg_frame p \<noteq> f"
  using umem_inv_mapped [of s n p] by auto

lemma vpn_ROUNDDOWN: "vpn (ROUNDDOWN a PGSIZE) = vpn a"
  by (simp add: vpn_def ROUNDDOWN_eq_div)


section \<open>One page of fork\<close>

text \<open>What the child and the parent have of a page afterwards.\<close>

definition cow_perm :: "u32 \<Rightarrow> u32" where
  "cow_perm perm0 =
     (let perm = perm0 AND UPTE_SYSCALL in
      if perm AND UPTE_SHARE \<noteq> 0 then perm
      else if perm AND UPTE_W \<noteq> 0 \<or> perm AND UPTE_COW \<noteq> 0 then (perm OR UPTE_COW) AND NOT UPTE_W else perm)"

definition parent_perm :: "u32 \<Rightarrow> u32" where
  "parent_perm perm0 =
     (let perm = perm0 AND UPTE_SYSCALL in
      if perm AND UPTE_SHARE = 0 \<and> (perm AND UPTE_W \<noteq> 0 \<or> perm AND UPTE_COW \<noteq> 0) then cow_perm perm0 else perm0)"

lemma pte_bits:
  fixes x :: u32
  shows "x AND UPTE_W = 0 \<longleftrightarrow> \<not> bit x 1" "x AND UPTE_SHARE = 0 \<longleftrightarrow> \<not> bit x 10" "x AND UPTE_COW = 0 \<longleftrightarrow> \<not> bit x 11"
  using and_exp_eq_0_iff_not_bit [of x 1] and_exp_eq_0_iff_not_bit [of x 10] and_exp_eq_0_iff_not_bit [of x 11] by simp_all

lemma pte_syscall_bits:
  fixes x :: u32
  shows "bit (x AND UPTE_SYSCALL) (Suc 0) = bit x 1" "bit (x AND UPTE_SYSCALL) 10 = bit x 10" "bit (x AND UPTE_SYSCALL) 11 = bit x 11"
  by (simp_all add: bit_simps)

lemma cow_bits:
  fixes x :: u32
  shows "\<not> bit ((x OR UPTE_COW) AND - 3) (Suc 0)" "bit ((x OR UPTE_COW) AND - 3) 10 = bit x 10"
proof -
  have m: "(- 3 :: u32) = NOT UPTE_W" by simp
  show "\<not> bit ((x OR UPTE_COW) AND - 3) (Suc 0)" "bit ((x OR UPTE_COW) AND - 3) 10 = bit x 10"
    unfolding m by (simp_all only: bit_simps) simp_all
qed

lemma cow_perm_writable:
  "cow_perm p AND UPTE_W \<noteq> 0 \<Longrightarrow> p AND UPTE_W \<noteq> 0"
  "cow_perm p AND UPTE_SHARE = 0 \<Longrightarrow> cow_perm p AND UPTE_W = 0"
  "cow_perm p AND UPTE_SHARE = 0 \<Longrightarrow> parent_perm p AND UPTE_W = 0"
  by (auto simp: cow_perm_def parent_perm_def Let_def pte_bits pte_syscall_bits cow_bits split: if_splits)

lemma map_vpn_levels:
  fixes s :: "'a fkworld_scheme"
  shows "ch_pt (map_vpn n f perm s) = ch_pt s" "pml4_p (map_vpn n f perm s) = pml4_p s" "pdpe_p (map_vpn n f perm s) = pdpe_p s"
    "pd_p (map_vpn n f perm s) = pd_p s" "pf_upcall (map_vpn n f perm s) = pf_upcall s"
    "ch_runnable (map_vpn n f perm s) = ch_runnable s"
  by (simp_all add: map_vpn_def unmap_vpn_def Let_def split: option.split)

lemma c_page_map_some:
  assumes "krets s = []" "upt s (vpn va) = Some p" "pg_perm p AND UPTE_W = 0 \<Longrightarrow> perm AND UPTE_W = 0"
  shows "upt (snd (c_page_map va perm s)) = upt s \<and>
    ch_pt (snd (c_page_map va perm s)) = (ch_pt s)(vpn va \<mapsto> \<lparr>pg_frame = pg_frame p, pg_perm = perm\<rparr>) \<and>
    uframe (snd (c_page_map va perm s)) = uframe s \<and> krets (snd (c_page_map va perm s)) = [] \<and>
    pml4_p (snd (c_page_map va perm s)) = pml4_p s \<and> pdpe_p (snd (c_page_map va perm s)) = pdpe_p s \<and>
    pd_p (snd (c_page_map va perm s)) = pd_p s \<and> pf_upcall (snd (c_page_map va perm s)) = pf_upcall s"
  using assms by (auto simp: c_page_map_def kret_def in_child_def Let_def map_vpn_frame map_vpn_levels)

text \<open>\<open>duppage\<close> on a mapped page, when the calls succeed.\<close>

lemma duppage_free:
  assumes "krets s = []" "upt s pn = Some p" "ch_pt s pn = None"
  shows "ufree (duppage pn s) = ufree s"
proof -
  have v: "vpn (pn * PGSIZE) = pn" by (simp add: vpn_def)
  have c: "ufree (snd (c_page_map (pn * PGSIZE) perm s)) = ufree s" "upt (snd (c_page_map (pn * PGSIZE) perm s)) = upt s" for perm
    using assms by (simp_all add: c_page_map_def kret_def in_child_def Let_def map_vpn_def unmap_vpn_def v)
  have u: "ufree (snd (u_page_map (pn * PGSIZE) (pn * PGSIZE) perm t)) = ufree t" if "upt t = upt s" for t :: fkworld and perm
  proof -
    obtain r k where "kret t = (r, t\<lparr>krets := k\<rparr>)" by (rule kret_cases)
    then show ?thesis using assms(2) that by (simp add: u_page_map_def Let_def map_vpn_def v)
  qed
  show ?thesis using assms(2) by (simp add: duppage_def Let_def c u)
qed

lemma duppage_spec:
  assumes "krets s = []" "upt s pn = Some p"
  shows "upt (duppage pn s) = (upt s)(pn \<mapsto> p\<lparr>pg_perm := parent_perm (pg_perm p)\<rparr>)"
    "ch_pt (duppage pn s) = (ch_pt s)(pn \<mapsto> \<lparr>pg_frame = pg_frame p, pg_perm = cow_perm (pg_perm p)\<rparr>)"
    "uframe (duppage pn s) = uframe s" "krets (duppage pn s) = []"
    "pml4_p (duppage pn s) = pml4_p s" "pdpe_p (duppage pn s) = pdpe_p s" "pd_p (duppage pn s) = pd_p s"
    "pf_upcall (duppage pn s) = pf_upcall s"
proof -
  have v: "vpn (pn * PGSIZE) = pn" by (simp add: vpn_def)
  define s1 where "s1 = snd (c_page_map (pn * PGSIZE) (cow_perm (pg_perm p)) s)"
  have c: "upt s1 = upt s \<and> ch_pt s1 = (ch_pt s)(pn \<mapsto> \<lparr>pg_frame = pg_frame p, pg_perm = cow_perm (pg_perm p)\<rparr>) \<and>
    uframe s1 = uframe s \<and> krets s1 = [] \<and> pml4_p s1 = pml4_p s \<and> pdpe_p s1 = pdpe_p s \<and> pd_p s1 = pd_p s \<and> pf_upcall s1 = pf_upcall s"
    using c_page_map_some [OF assms(1), of "pn * PGSIZE" p "cow_perm (pg_perm p)"] assms(2) cow_perm_writable(1)
    unfolding s1_def v by blast
  have u: "snd (u_page_map (pn * PGSIZE) (pn * PGSIZE) (parent_perm (pg_perm p)) s1) =
      map_vpn pn (pg_frame p) (parent_perm (pg_perm p)) s1" if "parent_perm (pg_perm p) = cow_perm (pg_perm p)"
    using c assms(2) that cow_perm_writable(1) [of "pg_perm p"] by (auto simp: u_page_map_def kret_def v)
  have d: "duppage pn s = s1 \<and> parent_perm (pg_perm p) = pg_perm p \<or>
      duppage pn s = map_vpn pn (pg_frame p) (parent_perm (pg_perm p)) s1"
    using assms(2) u unfolding duppage_def s1_def
    by (auto simp: Let_def cow_perm_def parent_perm_def split: if_splits)
  show "upt (duppage pn s) = (upt s)(pn \<mapsto> p\<lparr>pg_perm := parent_perm (pg_perm p)\<rparr>)"
    using d c assms(2) by (auto simp: map_vpn_frame fun_eq_iff)
  show "ch_pt (duppage pn s) = (ch_pt s)(pn \<mapsto> \<lparr>pg_frame = pg_frame p, pg_perm = cow_perm (pg_perm p)\<rparr>)"
    "uframe (duppage pn s) = uframe s" "krets (duppage pn s) = []" 
    "pml4_p (duppage pn s) = pml4_p s" "pdpe_p (duppage pn s) = pdpe_p s" "pd_p (duppage pn s) = pd_p s"
    "pf_upcall (duppage pn s) = pf_upcall s"
    using d c by (auto simp: map_vpn_frame map_vpn_levels)
qed

section \<open>The scan of fork\<close>

text \<open>The program text and the stack are mapped, so the first and the last of the four directories that
  cover the user addresses are present.  A scan that entered one of the directories between at its very
  bottom would step below address zero; from the stack it never does.\<close>

definition scan_ok :: "nat \<Rightarrow> fkworld \<Rightarrow> bool" where
  "scan_ok a s \<longleftrightarrow> pml4_p s 0 \<and> pdpe_p s 0 \<and> pdpe_p s 3 \<and> a < 0x100000000 \<and>
     (0x80000000 \<le> a \<longrightarrow> a < 0xC0000000 \<longrightarrow> pdpe_p s 2 \<or> 0x80002000 \<le> a) \<and>
     (0x40000000 \<le> a \<longrightarrow> a < 0x80000000 \<longrightarrow> pdpe_p s 1 \<or> 0x40001000 \<le> a)"

definition same_page :: "fkworld \<Rightarrow> fkworld \<Rightarrow> nat \<Rightarrow> bool" where
  "same_page s s' n \<longleftrightarrow> upt s' n = upt s n \<and> ch_pt s' n = ch_pt s n"

definition dup_page :: "fkworld \<Rightarrow> fkworld \<Rightarrow> nat \<Rightarrow> bool" where
  "dup_page s s' n \<longleftrightarrow>
     (\<exists>p. upt s n = Some p \<and> upt s' n = Some (p\<lparr>pg_perm := parent_perm (pg_perm p)\<rparr>) \<and>
          ch_pt s' n = Some \<lparr>pg_frame = pg_frame p, pg_perm = cow_perm (pg_perm p)\<rparr>)"

definition same_levels :: "fkworld \<Rightarrow> fkworld \<Rightarrow> bool" where
  "same_levels s s' \<longleftrightarrow> uframe s' = uframe s \<and> krets s' = krets s \<and> pml4_p s' = pml4_p s \<and> pdpe_p s' = pdpe_p s \<and> pd_p s' = pd_p s \<and>
     pf_upcall s' = pf_upcall s"

definition dense :: "fkworld \<Rightarrow> bool" where
  "dense s \<longleftrightarrow> (\<forall>i < 4. pdpe_p s i) \<and> (\<forall>i < 2048. pd_p s i)"

lemma scan_next:
  assumes "scan_ok (unat addr) s" "UTEXT \<le> unat addr"
  shows "unat (fst (scan_step addr s) - 4096) \<le> unat addr - 4096" "scan_ok (unat (fst (scan_step addr s) - 4096)) s"
    "dense s \<Longrightarrow> unat (fst (scan_step addr s) - 4096) = unat addr - 4096"
proof -
  let ?a = "unat addr" and ?b = "unat (fst (scan_step addr s) - 4096)"
  have p4: "pml4_p s (?a div 2 ^ 39)" using assms(1) by (simp add: scan_ok_def)
  have sub: "unat (addr - k) = ?a - unat k" if "unat k \<le> ?a" for k :: u64
    using that by (simp add: unat_sub word_le_nat_alt)
  have d: "?a div 2 ^ 30 = (if ?a < 0x40000000 then 0 else if ?a < 0x80000000 then 1 else if ?a < 0xC0000000 then 2 else 3)"
    using assms(1) by (auto simp: scan_ok_def)
  consider (page) "?b = ?a - 4096" "pdpe_p s (?a div 2 ^ 30)" | (pd) "\<not> pd_p s (?a div 2 ^ 21)" "?b = ?a - 0x201000" "pdpe_p s (?a div 2 ^ 30)"
    | (pdpe) "\<not> pdpe_p s (?a div 2 ^ 30)" "?b = ?a - 0x40001000"
  proof (cases "pdpe_p s (?a div 2 ^ 30)")
    case True
    show thesis
    proof (cases "pd_p s (?a div 2 ^ 21)")
      case 1: True
      then have "?b = ?a - 4096" using True p4 assms(2) by (simp add: scan_step_def Let_def sub)
      then show thesis using True by (rule page)
    next
      case False
      then have "fst (scan_step addr s) - 4096 = addr - 0x201000" using True p4 by (simp add: scan_step_def Let_def)
      then have "?b = unat (addr - 0x201000)" by (simp only:)
      then have "?b = ?a - 0x201000" using assms(2) sub [of "0x201000"] by simp
      then show thesis using False True by (intro pd)
    qed
  next
    case False
    then have "fst (scan_step addr s) - 4096 = addr - 0x40001000" using p4 by (simp add: scan_step_def Let_def)
    moreover have "0x40001000 \<le> ?a" using False assms(1) d by (auto simp: scan_ok_def split: if_splits)
    ultimately have "?b = ?a - 0x40001000" using sub [of "0x40001000"] by (simp only:) simp
    with False show thesis by (rule pdpe)
  qed
  then have "?b \<le> ?a - 4096 \<and> scan_ok ?b s \<and> (dense s \<longrightarrow> ?b = ?a - 4096)"
  proof cases
    case page
    then show ?thesis using assms d by (auto simp: scan_ok_def split: if_splits)
  next
    case pd
    have "\<not> dense s" using pd(1) assms(1) by (auto simp: dense_def scan_ok_def)
    with pd show ?thesis using assms d by (auto simp: scan_ok_def split: if_splits)
  next
    case pdpe
    have "\<not> dense s" using pdpe(1) d by (auto simp: dense_def split: if_splits)
    with pdpe show ?thesis using assms d by (auto simp: scan_ok_def split: if_splits)
  qed
  then show "?b \<le> ?a - 4096" "scan_ok ?b s" "dense s \<Longrightarrow> ?b = ?a - 4096" by simp_all
qed


text \<open>A round changes at most the page it looks at.\<close>

lemma scan_page:
  assumes "krets s = []" and s1_def: "s1 = snd (scan_step addr s)"
  shows "same_levels s s1" "n \<noteq> vpn (unat addr) \<Longrightarrow> same_page s s1 n"
    "same_page s s1 (vpn (unat addr)) \<or> dup_page s s1 (vpn (unat addr))"
    "scan_ok (unat addr) s \<Longrightarrow> dense s \<Longrightarrow> upt s (vpn (unat addr)) \<noteq> None \<Longrightarrow> dup_page s s1 (vpn (unat addr))"
    "ch_pt s (vpn (unat addr)) = None \<Longrightarrow> ufree s1 = ufree s"
proof -
  let ?n = "vpn (unat addr)"
  have c: "s1 = s \<or> (\<exists>p. upt s ?n = Some p \<and> s1 = duppage ?n s)"
    by (auto simp: s1_def scan_step_def Let_def)
  note d = duppage_spec [OF assms(1)]
  show "same_levels s s1" using c d assms(1) by (auto simp: same_levels_def)
  show "same_page s s1 n" if "n \<noteq> ?n" using c d that by (auto simp: same_page_def)
  show "same_page s s1 ?n \<or> dup_page s s1 ?n" using c d by (auto simp: same_page_def dup_page_def)
  show "ufree s1 = ufree s" if "ch_pt s ?n = None" using c duppage_free [OF assms(1)] that by auto
  assume "scan_ok (unat addr) s" "dense s" "upt s ?n \<noteq> None"
  then have "s1 = duppage ?n s" by (auto simp: s1_def scan_step_def Let_def scan_ok_def dense_def less_mult_imp_div_less)
  with d \<open>upt s ?n \<noteq> None\<close> show "dup_page s s1 ?n" by (auto simp: dup_page_def)
qed

lemma fork_loop_spec:
  assumes "scan_ok (unat addr) s" "krets s = []"
  shows "\<exists>s'. fork_loop addr s = Some s' \<and> same_levels s s' \<and> (\<forall>n. same_page s s' n \<or> dup_page s s' n) \<and>
    (\<forall>n. vpn (unat addr) < n \<longrightarrow> same_page s s' n) \<and>
    ((\<forall>n \<le> vpn (unat addr). ch_pt s n = None) \<longrightarrow> ufree s' = ufree s) \<and>
    (dense s \<longrightarrow> (\<forall>n. UTEXT div PGSIZE \<le> n \<longrightarrow> n \<le> vpn (unat addr) \<longrightarrow> upt s n \<noteq> None \<longrightarrow> dup_page s s' n))"
  using assms
proof (induction "unat addr" arbitrary: addr s rule: less_induct)
  case less
  show ?case
  proof (cases "unat addr < UTEXT")
    case True
    then have "vpn (unat addr) < UTEXT div PGSIZE" by (simp add: vpn_def less_mult_imp_div_less)
    with True show ?thesis by (subst fork_loop.simps) (auto simp: same_levels_def same_page_def)
  next
    case False
    define a1 s1 where "a1 = fst (scan_step addr s) - 4096" and "s1 = snd (scan_step addr s)"
    have a1: "unat a1 \<le> unat addr - 4096" "scan_ok (unat a1) s" "dense s \<Longrightarrow> unat a1 = unat addr - 4096"
      using scan_next [OF less.prems(1)] False by (simp_all add: a1_def)
    note p = scan_page [OF less.prems(2) s1_def]
    have lv: "scan_ok (unat a1) s1" "krets s1 = []" "dense s1 = dense s"
      using p(1) a1(2) less.prems(2) by (simp_all add: same_levels_def scan_ok_def dense_def)
    have lt: "unat a1 < unat addr" using a1(1) False by simp
    obtain s' where s': "fork_loop a1 s1 = Some s'" "same_levels s1 s'" "\<forall>n. same_page s1 s' n \<or> dup_page s1 s' n"
      "\<forall>n. vpn (unat a1) < n \<longrightarrow> same_page s1 s' n"
      "(\<forall>n \<le> vpn (unat a1). ch_pt s1 n = None) \<longrightarrow> ufree s' = ufree s1"
      "dense s \<longrightarrow> (\<forall>n. UTEXT div PGSIZE \<le> n \<longrightarrow> n \<le> vpn (unat a1) \<longrightarrow> upt s1 n \<noteq> None \<longrightarrow> dup_page s1 s' n)"
      using less.hyps [OF lt lv(1,2)] unfolding lv(3) by blast
    have v: "vpn (unat a1) < vpn (unat addr)"
      using a1(1) False by (simp add: vpn_def)
    have top: "same_page s1 s' (vpn (unat addr))" using s'(4) v by blast
    have here: "same_page s s' n" if "n > vpn (unat addr)" for n
      using p(2) [of n] s'(4) v that by (auto simp: same_page_def)
    have all: "same_page s s' n \<or> dup_page s s' n" for n
    proof (cases "n = vpn (unat addr)")
      case True
      then show ?thesis using p(3) top by (auto simp: same_page_def dup_page_def)
    next
      case ne: False
      then show ?thesis using p(2) [OF ne] spec [OF s'(3), of n] by (auto simp: same_page_def dup_page_def)
    qed
    have fr: "ufree s' = ufree s" if "\<forall>n \<le> vpn (unat addr). ch_pt s n = None"
    proof -
      have "ch_pt s1 n = None" if "n \<le> vpn (unat a1)" for n
        using p(2) [of n] v that \<open>\<forall>n \<le> vpn (unat addr). ch_pt s n = None\<close> by (simp add: same_page_def)
      then show ?thesis using s'(5) p(5) that by simp
    qed
    have dn: "dup_page s s' n" if "dense s" "UTEXT div PGSIZE \<le> n" "n \<le> vpn (unat addr)" "upt s n \<noteq> None" for n
    proof (cases "n = vpn (unat addr)")
      case True
      then show ?thesis using p(4) [OF less.prems(1) that(1)] that(4) top by (auto simp: same_page_def dup_page_def)
    next
      case ne: False
      have "vpn (unat a1) = vpn (unat addr) - 1" using a1(3) [OF that(1)] False by (simp add: vpn_def)
      then have "n \<le> vpn (unat a1)" using ne that(3) by simp
      moreover have "upt s1 n = upt s n" using p(2) [OF ne] by (simp add: same_page_def)
      ultimately have "dup_page s1 s' n" using s'(6) that by simp
      then show ?thesis using p(2) [OF ne] by (simp add: same_page_def dup_page_def)
    qed
    have "fork_loop addr s = Some s'"
      using s'(1) False by (subst fork_loop.simps) (simp add: a1_def s1_def case_prod_beta)
    moreover have "same_levels s s'" using p(1) s'(2) by (simp add: same_levels_def)
    ultimately show ?thesis using here all dn fr by blast
  qed
qed

section \<open>What fork promises\<close>

lemma scan_start: "scan_ok (unat (of_nat (USTACKTOP - PGSIZE) :: u64)) s = (pml4_p s 0 \<and> pdpe_p s 0 \<and> pdpe_p s 3)"
  by (simp add: scan_ok_def)

lemma cow_shared:
  assumes "\<And>n. same_page s s' n \<or> dup_page s s' n" "ch_pt s n = None" "ch_pt s' n = Some c"
  shows "\<exists>q. upt s' n = Some q \<and> pg_frame q = pg_frame c \<and>
    (pg_perm c AND UPTE_SHARE \<noteq> 0 \<or> pg_perm c AND UPTE_W = 0 \<and> pg_perm q AND UPTE_W = 0)"
  using assms(1) [of n] assms(2,3) cow_perm_writable(2,3) by (auto simp: same_page_def dup_page_def)

lemma fork_loop_copies:
  assumes "pml4_p s 0" "dense s" "krets s = []" "upt s n = Some p" "UTEXT div PGSIZE \<le> n" "n < USTACKTOP div PGSIZE"
  shows "\<exists>s'. fork_loop (of_nat (USTACKTOP - PGSIZE)) s = Some s' \<and>
    ch_pt s' n = Some \<lparr>pg_frame = pg_frame p, pg_perm = cow_perm (pg_perm p)\<rparr>"
proof -
  have "scan_ok (unat (of_nat (USTACKTOP - PGSIZE) :: u64)) s" unfolding scan_start using assms(1,2) by (simp add: dense_def)
  from fork_loop_spec [OF this assms(3)] assms(2) obtain s' where s': "fork_loop (of_nat (USTACKTOP - PGSIZE)) s = Some s'"
    "\<forall>n. UTEXT div PGSIZE \<le> n \<longrightarrow> n \<le> vpn (unat (of_nat (USTACKTOP - PGSIZE) :: u64)) \<longrightarrow> upt s n \<noteq> None \<longrightarrow> dup_page s s' n" by blast
  have "n \<le> vpn (unat (of_nat (USTACKTOP - PGSIZE) :: u64))" using assms(6) by (simp add: vpn_def)
  then have "dup_page s s' n" using s'(2) assms(4,5) by simp
  with s'(1) assms(4) show ?thesis by (auto simp: dup_page_def)
qed

text \<open>When no table below the first level is missing, \<open>fork\<close> leaves nothing out: each mapped page
  between the program text and the stack is afterwards in the child, on the same frame.\<close>

theorem fork_copies_address_space:
  assumes "pml4_p s 0" "dense s" "krets s = []" "upt s n = Some p" "UTEXT div PGSIZE \<le> n" "n < USTACKTOP div PGSIZE"
  shows "\<exists>s'. fork_loop (of_nat (USTACKTOP - PGSIZE)) s = Some s' \<and>
    ch_pt s' n = Some \<lparr>pg_frame = pg_frame p, pg_perm = cow_perm (pg_perm p)\<rparr>"
  by (rule fork_loop_copies [OF assms])

text \<open>A missing page table makes the scan go back by 513 pages, one more than a page table covers.  The
  page 512 below, the last one of the table before, is never looked at: the child does not get it.\<close>

theorem fork_skips_page:
  assumes "scan_ok (unat addr) s" "UTEXT \<le> unat addr" "pdpe_p s (unat addr div 2 ^ 30)" "\<not> pd_p s (unat addr div 2 ^ 21)" "krets s = []"
  shows "\<exists>s'. fork_loop addr s = Some s' \<and> ch_pt s' (vpn (unat addr) - 512) = ch_pt s (vpn (unat addr) - 512)"
proof -
  have "unat addr div 2 ^ 39 = 0" using assms(1) by (simp add: scan_ok_def)
  then have st: "scan_step addr s = (addr - 0x200000, s)" using assms by (simp add: scan_step_def Let_def scan_ok_def)
  have "unat (0x201000 :: u64) \<le> unat addr" using assms(2) by simp
  then have b: "unat (addr - 0x200000 - 4096) = unat addr - 0x201000"
    using unat_sub [of "0x201000" addr] by (simp add: word_le_nat_alt)
  have ok: "scan_ok (unat (addr - 0x200000 - 4096)) s" using scan_next(2) [OF assms(1,2)] st by simp
  have "vpn (unat (addr - 0x200000 - 4096)) < vpn (unat addr) - 512" unfolding b using assms(2) by (simp add: vpn_def)
  with fork_loop_spec [OF ok assms(5)] obtain s' where "fork_loop (addr - 0x200000 - 4096) s = Some s'"
    "same_page s s' (vpn (unat addr) - 512)" by blast
  then show ?thesis using st assms(2) by (subst fork_loop.simps) (auto simp: same_page_def)
qed

section \<open>The stacks of the child\<close>

lemma c_page_alloc_ok:
  assumes "krets s = []" "ufree s = f # fs" and t_def: "t = snd (c_page_alloc va perm s)"
  shows "upt t = upt s \<and> ch_pt t = (ch_pt s)(vpn va \<mapsto> \<lparr>pg_frame = f, pg_perm = perm\<rparr>) \<and> uframe t = uframe s \<and>
    krets t = [] \<and> pf_upcall t = pf_upcall s" "ch_pt s (vpn va) = None \<Longrightarrow> ufree t = fs"
  using assms(1,2) unfolding t_def c_page_alloc_def
  by (simp_all add: alloc_ok map_vpn_frame map_vpn_levels map_vpn_fresh)

text \<open>After the scan, with two free frames: the child's exception stack is one of them and its stack the
  other, holding a copy of the parent's stack page.\<close>

lemma fork_stacks:
  assumes s1: "fork_loop (of_nat (USTACKTOP - PGSIZE)) s = Some s1" "krets s1 = []" "ufree s1 = f # g # fs"
    "ch_pt s1 (vpn (UXSTACKTOP - PGSIZE)) = None" "upt s1 (vpn (USTACKTOP - PGSIZE)) = Some q" "pg_frame q \<noteq> g"
    "upt s1 (vpn PFTEMP) = None"
  shows "\<exists>s'. fork_parent s = Some s' \<and> upt s' = upt s1 \<and> uframe s' = (uframe s1)(g := uframe s1 (pg_frame q)) \<and>
    ch_pt s' = (ch_pt s1)(vpn (UXSTACKTOP - PGSIZE) \<mapsto> \<lparr>pg_frame = f, pg_perm = PERM_PUW\<rparr>,
                          vpn (USTACKTOP - PGSIZE) \<mapsto> \<lparr>pg_frame = g, pg_perm = PERM_PUW\<rparr>) \<and>
    ch_upcall s' = pf_upcall s1 \<and> ch_runnable s'"
proof -
  define s2 where "s2 = snd (c_page_alloc (UXSTACKTOP - PGSIZE) PERM_PUW s1)"
  note c2 = c_page_alloc_ok [OF s1(2,3) s2_def]
  have f2: "krets s2 = []" "ufree s2 = g # fs" using c2(1) c2(2) [OF s1(4)] by simp_all
  define s3 where "s3 = snd (c_page_alloc (USTACKTOP - PGSIZE) PERM_PUW s2)"
  note c3 = c_page_alloc_ok(1) [OF f2 s3_def]
  define s4 where "s4 = snd (p_page_map (USTACKTOP - PGSIZE) PFTEMP PERM_PUW s3)"
  have k3: "kret s3 = (0, s3)" "ch_pt s3 (vpn (USTACKTOP - PGSIZE)) = Some \<lparr>pg_frame = g, pg_perm = PERM_PUW\<rparr>"
    using c3 by (simp_all add: kret_def)
  have s4: "s4 = map_vpn (vpn PFTEMP) g PERM_PUW s3" using k3 by (simp add: s4_def p_page_map_def)
  have u4: "upt s4 (vpn PFTEMP) = Some \<lparr>pg_frame = g, pg_perm = PERM_PUW\<rparr>" "upt s4 (vpn (USTACKTOP - PGSIZE)) = Some q"
    "uframe s4 = uframe s1"
    unfolding s4 using c2(1) c3 s1(5) by (simp_all add: map_vpn_frame) (simp add: vpn_def)
  define s5 where "s5 = s4\<lparr>uframe := (uframe s4)(g := uframe s4 (pg_frame q))\<rparr>"
  have c5: "copy_page PFTEMP (USTACKTOP - PGSIZE) s4 = Some s5" unfolding copy_page_def u4 s5_def by simp
  have "upt (u_page_unmap PFTEMP s5) = upt s1"
    unfolding u_page_unmap_def unmap_vpn_frame using s1(7) c2(1) c3 by (auto simp: s5_def s4 map_vpn_frame fun_eq_iff)
  moreover have "uframe (u_page_unmap PFTEMP s5) = (uframe s1)(g := uframe s1 (pg_frame q))"
    unfolding u_page_unmap_def unmap_vpn_frame by (simp add: s5_def u4)
  moreover have "ch_pt (u_page_unmap PFTEMP s5) = ch_pt s3" "pf_upcall (u_page_unmap PFTEMP s5) = pf_upcall s3"
    by (simp_all add: u_page_unmap_def unmap_vpn_def Let_def s5_def s4 map_vpn_levels split: option.split)
  moreover have "fork_parent s = Some ((u_page_unmap PFTEMP s5)\<lparr>ch_upcall := pf_upcall (u_page_unmap PFTEMP s5), ch_runnable := True\<rparr>)"
    unfolding fork_parent_def s1(1) s2_def [symmetric] s3_def [symmetric] s4_def [symmetric] Let_def
    by (simp only: bind.bind_lunit c5 Let_def s2_def [symmetric] s3_def [symmetric] s4_def [symmetric])
  ultimately show ?thesis using c2(1) c3 by auto
qed

lemma handler_set:
  assumes "umem_inv s" "krets s = []" "3 \<le> length (ufree s)"
  shows "\<exists>s1. set_pgfault_handler upcall hdl s = Some s1 \<and> umem_inv s1 \<and> krets s1 = [] \<and> ch_pt s1 = ch_pt s \<and>
    pml4_p s1 = pml4_p s \<and> pdpe_p s1 = pdpe_p s \<and> uframe s1 = uframe s \<and> 2 \<le> length (ufree s1) \<and>
    (\<forall>n. n \<noteq> vpn (UXSTACKTOP - PGSIZE) \<longrightarrow> upt s1 n = upt s n) \<and>
    pf_upcall s1 = (if pf_handler s = 0 then upcall else pf_upcall s)"
proof (cases "pf_handler s = 0")
  case True
  obtain f fs where f: "ufree s = f # fs" using assms(3) by (cases "ufree s") auto
  let ?t = "map_vpn (vpn (UXSTACKTOP - PGSIZE)) f PERM_PUW (s\<lparr>ufree := fs\<rparr>)"
  have a: "u_page_alloc (UXSTACKTOP - PGSIZE) PERM_PUW s = (0, ?t)" by (rule alloc_ok [OF assms(2) f])
  have "umem_inv ?t" using umem_inv_alloc [OF assms(1), of "UXSTACKTOP - PGSIZE" PERM_PUW] a by simp
  moreover have "length fs \<le> length (ufree ?t)"
    by (simp add: map_vpn_def unmap_vpn_def Let_def split: option.split)
  ultimately show ?thesis using True a f assms(2,3)
    by (simp add: set_pgfault_handler_def umem_inv_def maps_to_def map_vpn_frame map_vpn_levels)
next
  case False
  then show ?thesis using assms by (simp add: set_pgfault_handler_def umem_inv_def maps_to_def)
qed


section \<open>Witnesses\<close>

text \<open>One writable page, in frame 1; frames 2 to 4 are free.\<close>

definition fk_start :: "nat \<Rightarrow> (nat \<Rightarrow> bool) \<Rightarrow> fkworld" where
  "fk_start k pd = \<lparr>upt = (\<lambda>n. if n = k then Some \<lparr>pg_frame = 1, pg_perm = PERM_PUW\<rparr> else None), uframe = (\<lambda>f i. of_nat f),
     uref = (\<lambda>f. if f = 1 then 1 else 0), ufree = [2, 3, 4], krets = [], ch_pt = (\<lambda>_. None), pml4_p = (\<lambda>_. True), pdpe_p = (\<lambda>_. True), pd_p = pd,
     pf_handler = 1, pf_upcall = 1, ch_upcall = 0, ch_runnable = False\<rparr>"

lemma fk_start_inv: "umem_inv (fk_start k pd)"
proof -
  have "maps_to (fk_start k pd) f = (if f = 1 then {k} else {})" for f
    by (auto simp: maps_to_def fk_start_def split: if_splits)
  then show ?thesis by (simp add: umem_inv_def fk_start_def)
qed



theorem fork_copies_address_space_witness:
  "\<exists>s'. fork_loop (of_nat (USTACKTOP - PGSIZE)) (fk_start 2048 (\<lambda>_. True)) = Some s' \<and>
     ch_pt s' 2048 = Some \<lparr>pg_frame = 1, pg_perm = 0x805\<rparr>"
proof -
  have "\<exists>s'. fork_loop (of_nat (USTACKTOP - PGSIZE)) (fk_start 2048 (\<lambda>_. True)) = Some s' \<and>
    ch_pt s' 2048 = Some \<lparr>pg_frame = pg_frame \<lparr>pg_frame = 1, pg_perm = PERM_PUW\<rparr>, pg_perm = cow_perm (pg_perm \<lparr>pg_frame = 1, pg_perm = PERM_PUW\<rparr>)\<rparr>"
    by (rule fork_copies_address_space) (simp_all add: fk_start_def dense_def)
  then show ?thesis by (simp add: cow_perm_def Let_def)
qed

text \<open>The page is the last one of its table, the table above is missing.\<close>

theorem fork_skips_page_witness:
  "\<exists>s'. fork_loop 0xBFF000 (fk_start 2559 (\<lambda>i. i \<noteq> 5)) = Some s' \<and> ch_pt s' 2559 = None \<and> upt (fk_start 2559 (\<lambda>i. i \<noteq> 5)) 2559 \<noteq> None"
proof -
  have "\<exists>s'. fork_loop 0xBFF000 (fk_start 2559 (\<lambda>i. i \<noteq> 5)) = Some s' \<and>
     ch_pt s' (vpn (unat (0xBFF000 :: u64)) - 512) = ch_pt (fk_start 2559 (\<lambda>i. i \<noteq> 5)) (vpn (unat (0xBFF000 :: u64)) - 512)"
    by (rule fork_skips_page) (simp_all add: fk_start_def scan_ok_def)
  then show ?thesis by (simp add: vpn_def fk_start_def)
qed

end
