(* ===== verification/Lib_Args.thy ===== *)
theory Lib_Args
  imports JOS_Prelude
begin

text \<open>
  Command-line flags, \<^verbatim>\<open>lib/args.c\<close>.

  The array \<open>argv\<close> with \<open>*argc\<close> elements is a list of strings, a string the list of its bytes
  without the terminating zero.  \<open>curarg\<close> and \<open>argvalue\<close> point into a string or are null.
\<close>

record argstate =
  argv :: "u8 list list"
  curarg :: "u8 list option"
  argval :: "u8 list option"

abbreviation chr_dash :: u8 where "chr_dash \<equiv> 0x2D"

definition argstart :: "u8 list list \<Rightarrow> argstate" where
  "argstart av = \<lparr>argv = av, curarg = (if length av > 1 then Some [] else None), argval = None\<rparr>"

text \<open>Dropping \<open>argv[1]\<close> moves the later arguments down.\<close>

definition shift_args :: "u8 list list \<Rightarrow> u8 list list" where
  "shift_args av = take 1 av @ drop 2 av"

definition argnext :: "argstate \<Rightarrow> int \<times> argstate" where
  "argnext st =
     (let a = st\<lparr>argval := None\<rparr>;
          endofargs = (\<lambda>a. (- 1, a\<lparr>curarg := None\<rparr>));
          flag = (\<lambda>cur a. (uint (hd cur), a\<lparr>curarg := Some (tl cur)\<rparr>))
      in case curarg a of
           None \<Rightarrow> (- 1, a)
         | Some cur \<Rightarrow>
             if cur = [] then
               if length (argv a) = 1 \<or> argv a ! 1 = [] \<or> hd (argv a ! 1) \<noteq> chr_dash \<or> tl (argv a ! 1) = [] then endofargs a
               else
                 let cur1 = tl (argv a ! 1); a1 = a\<lparr>argv := shift_args (argv a), curarg := Some cur1\<rparr> in
                 if cur1 = [chr_dash] then endofargs a1 else flag cur1 a1
             else flag cur a)"

definition argnextvalue :: "argstate \<Rightarrow> u8 list option \<times> argstate" where
  "argnextvalue a =
     (case curarg a of
        None \<Rightarrow> (None, a)
      | Some cur \<Rightarrow>
          let a1 = (if cur \<noteq> [] then a\<lparr>argval := Some cur, curarg := Some []\<rparr>
                    else if length (argv a) > 1 then a\<lparr>argval := Some (argv a ! 1), argv := shift_args (argv a)\<rparr>
                    else a\<lparr>argval := None, curarg := None\<rparr>)
          in (argval a1, a1))"

definition argvalue :: "argstate \<Rightarrow> u8 list option \<times> argstate" where
  "argvalue a = (case argval a of Some v \<Rightarrow> (Some v, a) | None \<Rightarrow> argnextvalue a)"

section \<open>What the flags are\<close>

text \<open>The flags of an argument list and the arguments that remain: flags stop at an argument that
  does not start with a dash, at a single dash, or after a double dash.\<close>

fun flags_of :: "u8 list list \<Rightarrow> u8 list \<times> u8 list list" where
  "flags_of [] = ([], [])"
| "flags_of (a # as) =
     (if a = [] \<or> hd a \<noteq> chr_dash \<or> a = [chr_dash] then ([], a # as)
      else if a = [chr_dash, chr_dash] then ([], as)
      else (tl a @ fst (flags_of as), snd (flags_of as)))"

text \<open>The loop \<open>while ((c = argnext(&args)) >= 0)\<close>.\<close>

fun all_flags :: "nat \<Rightarrow> argstate \<Rightarrow> (int list \<times> argstate) option" where
  "all_flags 0 st = None"
| "all_flags (Suc k) st =
     (let (c, a) = argnext st in
      if c < 0 then Some ([], a) else map_option (\<lambda>(cs, b). (c # cs, b)) (all_flags k a))"

lemma all_flags_in_arg:
  "all_flags (length cur + k) \<lparr>argv = av, curarg = Some cur, argval = v\<rparr> =
     map_option (\<lambda>(cs, b). (map uint cur @ cs, b)) (all_flags k \<lparr>argv = av, curarg = Some [], argval = if cur = [] then v else None\<rparr>)"
proof (induction cur arbitrary: v)
  case Nil
  show ?case by (cases "all_flags k \<lparr>argv = av, curarg = Some [], argval = v\<rparr>") auto
next
  case (Cons c cur)
  have n: "argnext \<lparr>argv = av, curarg = Some (c # cur), argval = v\<rparr> = (uint c, \<lparr>argv = av, curarg = Some cur, argval = None\<rparr>)"
    by (simp add: argnext_def Let_def)
  have u: "\<not> uint c < 0" by simp
  show ?case unfolding length_Cons add_Suc all_flags.simps n Let_def prod.case if_not_P [OF u] Cons.IH
    by (cases "all_flags k \<lparr>argv = av, curarg = Some [], argval = None\<rparr>") auto
qed

lemma argnext_new:
  assumes "av = p # a # as"
  shows "argnext \<lparr>argv = av, curarg = Some [], argval = v\<rparr> =
    (if a = [] \<or> hd a \<noteq> chr_dash \<or> a = [chr_dash] then (- 1, \<lparr>argv = av, curarg = None, argval = None\<rparr>)
     else if a = [chr_dash, chr_dash] then (- 1, \<lparr>argv = p # as, curarg = None, argval = None\<rparr>)
     else (uint (hd (tl a)), \<lparr>argv = p # as, curarg = Some (tl (tl a)), argval = None\<rparr>))"
  using assms by (cases a; cases "tl a") (auto simp: argnext_def shift_args_def Let_def)

lemma all_flags_new:
  "length (concat as) + length as < k \<Longrightarrow>
   all_flags k \<lparr>argv = p # as, curarg = Some [], argval = v\<rparr> =
     Some (map uint (fst (flags_of as)), \<lparr>argv = p # snd (flags_of as), curarg = None, argval = None\<rparr>)"
proof (induction "as" arbitrary: k v rule: flags_of.induct)
  case (1 k v)
  then obtain k' where "k = Suc k'" by (cases k) auto
  then show ?case by (simp add: argnext_def)
next
  case (2 a "as" k v)
  obtain k1 where k: "k = Suc k1" using "2.prems" by (cases k) auto
  show ?case
  proof (cases "a = [] \<or> hd a \<noteq> chr_dash \<or> a = [chr_dash] \<or> a = [chr_dash, chr_dash]")
    case True
    then show ?thesis using k by (auto simp: argnext_new [OF refl])
  next
    case False
    then obtain c cur where a: "a = chr_dash # c # cur" by (cases a; cases "tl a") auto
    let ?n = "k1 - length cur"
    have n: "k1 = length cur + ?n" "length (concat as) + length as < ?n" using "2.prems" by (simp_all add: k a)
    have "all_flags k1 \<lparr>argv = p # as, curarg = Some cur, argval = None\<rparr> =
        map_option (\<lambda>(cs, b). (map uint cur @ cs, b)) (all_flags ?n \<lparr>argv = p # as, curarg = Some [], argval = None\<rparr>)"
      using all_flags_in_arg [of cur ?n "p # as" None] n(1) by simp
    also have "\<dots> = Some (map uint cur @ map uint (fst (flags_of as)), \<lparr>argv = p # snd (flags_of as), curarg = None, argval = None\<rparr>)"
      using "2.IH"(1) [OF _ _ n(2)] False by simp
    finally show ?thesis using False k a by (simp add: argnext_new [OF refl])
  qed
qed

section \<open>Properties\<close>

text \<open>Calling \<open>argnext\<close> until it returns a negative number yields exactly the flags of the command
  line, and leaves the program name and the arguments that are not flags.\<close>

theorem argnext_yields_flags:
  assumes "length (concat as) + length as < k"
  shows "all_flags k (argstart (p # as)) =
    Some (map uint (fst (flags_of as)), \<lparr>argv = p # snd (flags_of as), curarg = None, argval = None\<rparr>)"
proof (cases "as")
  case Nil
  then show ?thesis using assms by (cases k) (auto simp: argstart_def argnext_def)
next
  case (Cons a as')
  then show ?thesis using all_flags_new [OF assms] by (simp add: argstart_def)
qed

theorem argnext_yields_flags_witness:
  "all_flags 20 (argstart [[115], [45, 114, 120], [45, 102], [45, 45], [45, 114]]) =
     Some ([114, 120, 102], \<lparr>argv = [[115], [45, 114]], curarg = None, argval = None\<rparr>)"
  using argnext_yields_flags [of "[[45, 114, 120], [45, 102], [45, 45], [45, 114]]" 20 "[115]"] by simp

end
