(* ===== verification/Lib_String.thy ===== *)
theory Lib_String
  imports JOS_Prelude
begin

text \<open>
  \<^verbatim>\<open>lib/string.c\<close>: the string and memory routines, over the flat byte memory of the
  prelude.  A routine that scans for a terminating zero returns an \<open>option\<close>, since on a
  memory without one it runs for ever; the routines bounded by a size are total.  The
  assembly of \<open>memset\<close> and \<open>memmove\<close> is modelled instruction by instruction
  (\<open>rep stosl\<close>, \<open>rep stosb\<close>, \<open>rep movsl\<close>, \<open>rep movsb\<close> in both directions) and proved
  equal to the byte-wise specification for every overlap of source and destination.
\<close>

section \<open>Length, copy and concatenation\<close>

partial_function (option) strlen_loop :: "cmem \<Rightarrow> nat \<Rightarrow> nat \<Rightarrow> nat option" where
  "strlen_loop m s n = (if m s \<noteq> 0 then strlen_loop m (s + 1) (n + 1) else Some n)"

definition strlen :: "cmem \<Rightarrow> nat \<Rightarrow> nat option" where
  "strlen m s = strlen_loop m s 0"

fun strnlen_loop :: "cmem \<Rightarrow> nat \<Rightarrow> nat \<Rightarrow> nat \<Rightarrow> nat" where
  "strnlen_loop m s 0 n = n"
| "strnlen_loop m s (Suc sz) n = (if m s \<noteq> 0 then strnlen_loop m (s + 1) sz (n + 1) else n)"

definition strnlen :: "cmem \<Rightarrow> nat \<Rightarrow> nat \<Rightarrow> nat" where
  "strnlen m s sz = strnlen_loop m s sz 0"

text \<open>\<open>strcpy\<close> stores the byte, advances both pointers, and stops after storing a zero.\<close>

partial_function (option) strcpy :: "cmem \<Rightarrow> nat \<Rightarrow> nat \<Rightarrow> cmem option" where
  "strcpy m dst src =
     (let c = m src; m' = m(dst := c)
      in if c \<noteq> 0 then strcpy m' (dst + 1) (src + 1) else Some m')"

definition strcat :: "cmem \<Rightarrow> nat \<Rightarrow> nat \<Rightarrow> cmem option" where
  "strcat m dst src = do { len \<leftarrow> strlen m dst; strcpy m (dst + len) src }"

fun strncpy :: "cmem \<Rightarrow> nat \<Rightarrow> nat \<Rightarrow> nat \<Rightarrow> cmem" where
  "strncpy m dst src 0 = m"
| "strncpy m dst src (Suc sz) =
     (let m' = m(dst := m src)
      in strncpy m' (dst + 1) (if m' src \<noteq> 0 then src + 1 else src) sz)"

text \<open>The loop of \<open>strlcpy\<close>: \<open>n\<close> is the size after the decrement of the loop condition.
  The result is the memory and the end pointer.\<close>

fun strlcpy_loop :: "cmem \<Rightarrow> nat \<Rightarrow> nat \<Rightarrow> nat \<Rightarrow> cmem \<times> nat" where
  "strlcpy_loop m dst src 0 = (m(dst := 0), dst)"
| "strlcpy_loop m dst src (Suc n) =
     (if m src \<noteq> 0 then strlcpy_loop (m(dst := m src)) (dst + 1) (src + 1) n
      else (m(dst := 0), dst))"

definition strlcpy :: "cmem \<Rightarrow> nat \<Rightarrow> nat \<Rightarrow> nat \<Rightarrow> cmem \<times> nat" where
  "strlcpy m dst src sz =
     (if sz > 0 then let (m', d) = strlcpy_loop m dst src (sz - 1) in (m', d - dst)
      else (m, 0))"

section \<open>Comparison and search\<close>

partial_function (option) strcmp :: "cmem \<Rightarrow> nat \<Rightarrow> nat \<Rightarrow> int option" where
  "strcmp m p q =
     (if m p \<noteq> 0 \<and> m p = m q then strcmp m (p + 1) (q + 1)
      else Some (uint (m p) - uint (m q)))"

fun strncmp :: "cmem \<Rightarrow> nat \<Rightarrow> nat \<Rightarrow> nat \<Rightarrow> int" where
  "strncmp m p q 0 = 0"
| "strncmp m p q (Suc n) =
     (if m p \<noteq> 0 \<and> m p = m q then strncmp m (p + 1) (q + 1) n
      else uint (m p) - uint (m q))"

text \<open>\<open>strchr\<close> returns a pointer or null: \<open>Some None\<close> is the null result, \<open>None\<close> a scan that
  never ends.\<close>

partial_function (option) strchr :: "cmem \<Rightarrow> nat \<Rightarrow> u8 \<Rightarrow> nat option option" where
  "strchr m s c =
     (if m s \<noteq> 0 then (if m s = c then Some (Some s) else strchr m (s + 1) c) else Some None)"

partial_function (option) strfind :: "cmem \<Rightarrow> nat \<Rightarrow> u8 \<Rightarrow> nat option" where
  "strfind m s c =
     (if m s \<noteq> 0 then (if m s = c then Some s else strfind m (s + 1) c) else Some s)"

fun memcmp :: "cmem \<Rightarrow> nat \<Rightarrow> nat \<Rightarrow> nat \<Rightarrow> int" where
  "memcmp m s1 s2 0 = 0"
| "memcmp m s1 s2 (Suc n) =
     (if m s1 \<noteq> m s2 then uint (m s1) - uint (m s2) else memcmp m (s1 + 1) (s2 + 1) n)"

text \<open>\<open>memfind\<close> walks \<open>s\<close> up to \<open>ends = s + n\<close>.\<close>

fun memfind :: "cmem \<Rightarrow> nat \<Rightarrow> u8 \<Rightarrow> nat \<Rightarrow> nat" where
  "memfind m s c 0 = s"
| "memfind m s c (Suc n) = (if m s = c then s else memfind m (s + 1) c n)"

section \<open>Block operations\<close>

text \<open>The string instructions: \<open>n\<close> stores of the same byte or double word upwards, \<open>n\<close> copies
  upwards (direction flag clear) or downwards (direction flag set).\<close>

fun rep_stosb :: "cmem \<Rightarrow> nat \<Rightarrow> u8 \<Rightarrow> nat \<Rightarrow> cmem" where
  "rep_stosb m d c 0 = m"
| "rep_stosb m d c (Suc n) = rep_stosb (m(d := c)) (d + 1) c n"

fun rep_stosl :: "cmem \<Rightarrow> nat \<Rightarrow> u32 \<Rightarrow> nat \<Rightarrow> cmem" where
  "rep_stosl m d c 0 = m"
| "rep_stosl m d c (Suc n) = rep_stosl (wr32 m d c) (d + 4) c n"

fun rep_movsb :: "cmem \<Rightarrow> nat \<Rightarrow> nat \<Rightarrow> nat \<Rightarrow> cmem" where
  "rep_movsb m d s 0 = m"
| "rep_movsb m d s (Suc n) = rep_movsb (m(d := m s)) (d + 1) (s + 1) n"

fun rep_movsl :: "cmem \<Rightarrow> nat \<Rightarrow> nat \<Rightarrow> nat \<Rightarrow> cmem" where
  "rep_movsl m d s 0 = m"
| "rep_movsl m d s (Suc n) = rep_movsl (wr32 m d (rd32 m s)) (d + 4) (s + 4) n"

text \<open>With the direction flag set the pointers are those of the last element and move down;
  they are passed here as the end pointers \<open>d\<close>, \<open>s\<close>, the element being at \<open>d - 1\<close> or \<open>d - 4\<close>.\<close>

fun rep_movsb_std :: "cmem \<Rightarrow> nat \<Rightarrow> nat \<Rightarrow> nat \<Rightarrow> cmem" where
  "rep_movsb_std m d s 0 = m"
| "rep_movsb_std m d s (Suc n) = rep_movsb_std (m(d - 1 := m (s - 1))) (d - 1) (s - 1) n"

fun rep_movsl_std :: "cmem \<Rightarrow> nat \<Rightarrow> nat \<Rightarrow> nat \<Rightarrow> cmem" where
  "rep_movsl_std m d s 0 = m"
| "rep_movsl_std m d s (Suc n) =
     rep_movsl_std (wr32 m (d - 4) (rd32 m (s - 4))) (d - 4) (s - 4) n"

definition memset :: "cmem \<Rightarrow> nat \<Rightarrow> u32 \<Rightarrow> nat \<Rightarrow> cmem" where
  "memset m v c n =
     (if n = 0 then m
      else if v mod 4 = 0 \<and> n mod 4 = 0 then
        let c1 = c AND 0xFF;
            c2 = push_bit 24 c1 OR push_bit 16 c1 OR push_bit 8 c1 OR c1
        in rep_stosl m v c2 (n div 4)
      else rep_stosb m v (ucast c) n)"

definition memmove :: "cmem \<Rightarrow> nat \<Rightarrow> nat \<Rightarrow> nat \<Rightarrow> cmem" where
  "memmove m dst src n =
     (let s = src; d = dst in
      if s < d \<and> s + n > d then
        let s' = s + n; d' = d + n in
        if s' mod 4 = 0 \<and> d' mod 4 = 0 \<and> n mod 4 = 0 then rep_movsl_std m d' s' (n div 4)
        else rep_movsb_std m d' s' n
      else if s mod 4 = 0 \<and> d mod 4 = 0 \<and> n mod 4 = 0 then rep_movsl m d s (n div 4)
      else rep_movsb m d s n)"

definition memcpy :: "cmem \<Rightarrow> nat \<Rightarrow> nat \<Rightarrow> nat \<Rightarrow> cmem" where
  "memcpy m dst src n = memmove m dst src n"

section \<open>Number parsing and substring search\<close>

partial_function (option) skip_blanks :: "cmem \<Rightarrow> nat \<Rightarrow> nat option" where
  "skip_blanks m s = (if m s = 0x20 \<or> m s = 0x09 then skip_blanks m (s + 1) else Some s)"

definition digit_of :: "u8 \<Rightarrow> nat option" where
  "digit_of c =
     (if 0x30 \<le> c \<and> c \<le> 0x39 then Some (unat c - 0x30)
      else if 0x61 \<le> c \<and> c \<le> 0x7A then Some (unat c - 0x61 + 10)
      else if 0x41 \<le> c \<and> c \<le> 0x5A then Some (unat c - 0x41 + 10)
      else None)"

text \<open>The digit loop; \<open>val\<close> is a C \<open>long\<close> and wraps at 64 bits.\<close>

partial_function (option) strtol_digits :: "cmem \<Rightarrow> nat \<Rightarrow> nat \<Rightarrow> u64 \<Rightarrow> (u64 \<times> nat) option" where
  "strtol_digits m s base val =
     (case digit_of (m s) of
        None \<Rightarrow> Some (val, s)
      | Some dig \<Rightarrow>
          if dig \<ge> base then Some (val, s)
          else strtol_digits m (s + 1) base (val * of_nat base + of_nat dig))"

text \<open>Result: the value and the end pointer stored through \<open>endptr\<close>.\<close>

definition strtol :: "cmem \<Rightarrow> nat \<Rightarrow> nat \<Rightarrow> (u64 \<times> nat) option" where
  "strtol m s0 base0 = do {
     s1 \<leftarrow> skip_blanks m s0;
     let (s2, neg) = (if m s1 = 0x2B then (s1 + 1, False)
                      else if m s1 = 0x2D then (s1 + 1, True) else (s1, False));
     let (s3, base) =
       (if (base0 = 0 \<or> base0 = 16) \<and> (m s2 = 0x30 \<and> m (s2 + 1) = 0x78) then (s2 + 2, 16)
        else if base0 = 0 \<and> m s2 = 0x30 then (s2 + 1, 8)
        else if base0 = 0 then (s2, 10)
        else (s2, base0));
     (val, s4) \<leftarrow> strtol_digits m s3 base 0;
     Some ((if neg then - val else val), s4)
   }"

text \<open>\<open>strstr\<close>: the inner loop scans for the first character, the outer loop compares the
  rest of the needle.\<close>

partial_function (option) strstr_scan :: "cmem \<Rightarrow> nat \<Rightarrow> u8 \<Rightarrow> nat option option" where
  "strstr_scan m in_p c =
     (if m in_p = 0 then Some None
      else if m in_p \<noteq> c then strstr_scan m (in_p + 1) c
      else Some (Some (in_p + 1)))"

partial_function (option) strstr_loop :: "cmem \<Rightarrow> nat \<Rightarrow> u8 \<Rightarrow> nat \<Rightarrow> nat \<Rightarrow> nat option option" where
  "strstr_loop m in_p c str len = do {
     r \<leftarrow> strstr_scan m in_p c;
     (case r of
        None \<Rightarrow> Some None
      | Some p \<Rightarrow> if strncmp m p str len \<noteq> 0 then strstr_loop m p c str len
                  else Some (Some (p - 1)))
   }"

definition strstr :: "cmem \<Rightarrow> nat \<Rightarrow> nat \<Rightarrow> nat option option" where
  "strstr m in_p str =
     (let c = m str; str' = str + 1 in
      if c = 0 then Some (Some in_p)
      else do { len \<leftarrow> strlen m str'; strstr_loop m in_p c str' len })"

section \<open>Specifications\<close>

text \<open>The effect of copying \<open>n\<close> bytes from \<open>s\<close> to \<open>d\<close>, whatever the overlap.\<close>

definition blit :: "cmem \<Rightarrow> nat \<Rightarrow> nat \<Rightarrow> nat \<Rightarrow> cmem" where
  "blit m d s n = (\<lambda>a. if d \<le> a \<and> a < d + n then m (s + (a - d)) else m a)"

text \<open>The value of a digit string, most significant digit first.\<close>

definition digits_val :: "nat \<Rightarrow> nat list \<Rightarrow> nat" where
  "digits_val base ds = foldl (\<lambda>v d. v * base + d) 0 ds"

text \<open>\<open>occurs ys xs i\<close>: the string \<open>ys\<close> occurs in \<open>xs\<close> at offset \<open>i\<close>.\<close>

definition occurs :: "'a list \<Rightarrow> 'a list \<Rightarrow> nat \<Rightarrow> bool" where
  "occurs ys xs i \<longleftrightarrow> i + length ys \<le> length xs \<and> take (length ys) (drop i xs) = ys"

section \<open>Scanning\<close>

lemma strlen_loop_cstr: "cstr m s xs \<Longrightarrow> strlen_loop m s n = Some (n + length xs)"
proof (induction xs arbitrary: s n)
  case Nil
  then show ?case by (simp add: strlen_loop.simps)
next
  case (Cons x xs)
  then show ?case by (subst strlen_loop.simps) simp
qed

lemma strlen_cstr: "cstr m s xs \<Longrightarrow> strlen m s = Some (length xs)"
  by (simp add: strlen_def strlen_loop_cstr)

lemma strlen_loop_Some:
  assumes "strlen_loop m s n = Some k"
  shows "n \<le> k \<and> (\<exists>xs. length xs = k - n \<and> cstr m s xs)"
proof (rule strlen_loop.raw_induct
    [where P = "\<lambda>m s n k. n \<le> k \<and> (\<exists>xs. length xs = k - n \<and> cstr m s xs)", OF _ assms])
  fix f m s n k
  assume IH: "\<And>m s n k. f m s n = Some k \<Longrightarrow> n \<le> k \<and> (\<exists>xs. length xs = k - n \<and> cstr m s xs)"
    and eq: "(if m s \<noteq> (0::u8) then f m (s + 1) (n + 1) else Some n) = Some k"
  show "n \<le> k \<and> (\<exists>xs. length xs = k - n \<and> cstr m s xs)"
  proof (cases "m s = 0")
    case True
    with eq show ?thesis by (auto intro!: exI [where x = "[]"])
  next
    case False
    with eq have "f m (s + 1) (n + 1) = Some k" by simp
    from IH [OF this] obtain xs where xs: "n + 1 \<le> k" "length xs = k - (n + 1)" "cstr m (Suc s) xs"
      by auto
    with False show ?thesis by (auto intro!: exI [where x = "m s # xs"])
  qed
qed

lemma strlen_iff: "strlen m s = Some n \<longleftrightarrow> (\<exists>xs. length xs = n \<and> cstr m s xs)"
  using strlen_loop_Some [of m s 0 n] strlen_cstr by (auto simp: strlen_def)

lemma strnlen_loop_eq: "strnlen_loop m s k n = n + length (takeWhile (\<lambda>c. c \<noteq> 0) (map m [s..<s + k]))"
proof (induction k arbitrary: s n)
  case 0
  show ?case by simp
next
  case (Suc k)
  have "[s..<s + Suc k] = s # [Suc s..<Suc s + k]" by (simp add: upt_conv_Cons)
  then show ?case using Suc by simp
qed

lemma strnlen_cstr: "cstr m s xs \<Longrightarrow> strnlen m s k = min k (length xs)"
proof -
  have "cstr m s xs \<Longrightarrow> strnlen_loop m s k n = n + min k (length xs)" for n
  proof (induction xs arbitrary: s k n)
    case Nil
    then show ?case by (cases k) auto
  next
    case (Cons x xs)
    then show ?case by (cases k) auto
  qed
  then show "cstr m s xs \<Longrightarrow> strnlen m s k = min k (length xs)" by (simp add: strnlen_def)
qed

section \<open>Copying strings\<close>

lemma blit_0 [simp]: "blit m d s 0 = m"
  by (rule ext) (auto simp: blit_def)

lemma blit_in: "d \<le> a \<Longrightarrow> a < d + n \<Longrightarrow> blit m d s n a = m (s + (a - d))"
  by (simp add: blit_def)

lemma blit_out [cmem_simps]: "a < d \<or> d + n \<le> a \<Longrightarrow> blit m d s n a = m a"
  by (auto simp: blit_def)

lemma bytes_at_blit: "bytes_at m s xs \<Longrightarrow> bytes_at (blit m d s (length xs)) d xs"
  by (simp add: bytes_at_nth blit_def)

lemma cstr_blit: "cstr m s xs \<Longrightarrow> cstr (blit m d s (Suc (length xs))) d xs"
  by (auto simp: cstr_bytes bytes_at_nth blit_def)

text \<open>One byte copied first, the rest after: valid when the first store does not hit a source
  byte still to be read.\<close>

lemma blit_Suc:
  "d \<le> s \<or> s + n < d \<Longrightarrow> blit (m(d := m s)) (Suc d) (Suc s) n = blit m d s (Suc n)"
proof (rule ext)
  fix a
  assume d: "d \<le> s \<or> s + n < d"
  have "Suc s + (a - Suc d) = s + (a - d)" if "Suc d \<le> a" using that by simp
  with d show "blit (m(d := m s)) (Suc d) (Suc s) n a = blit m d s (Suc n) a"
    by (auto simp: blit_def)
qed

lemma strcpy_cstr:
  assumes "cstr m src xs" "dst \<le> src \<or> src + length xs < dst"
  shows "strcpy m dst src = Some (blit m dst src (Suc (length xs)))"
  using assms
proof (induction xs arbitrary: m dst src)
  case Nil
  then show ?case by (auto simp: strcpy.simps [of m dst src] blit_def fun_eq_iff)
next
  case (Cons x xs)
  let ?m = "m(dst := x)"
  have "cstr ?m (Suc src) xs"
    using Cons.prems by (subst cstr_cong [where m' = m]) auto
  moreover have "Suc dst \<le> Suc src \<or> Suc src + length xs < Suc dst" using Cons.prems(2) by auto
  ultimately have "strcpy ?m (Suc dst) (Suc src) = Some (blit ?m (Suc dst) (Suc src) (Suc (length xs)))"
    by (rule Cons.IH)
  moreover have "blit ?m (Suc dst) (Suc src) (Suc (length xs)) = blit m dst src (Suc (Suc (length xs)))"
    using Cons.prems blit_Suc [of dst src "Suc (length xs)" m] by auto
  ultimately show ?case using Cons.prems(1) by (simp add: strcpy.simps [of m dst src])
qed

lemma strlcpy_loop_eq:
  assumes "cstr m src xs" "dst + min n (length xs) < src \<or> src + length xs < dst"
  shows "strlcpy_loop m dst src n =
    ((blit m dst src (min n (length xs)))(dst + min n (length xs) := 0), dst + min n (length xs))"
  using assms
proof (induction n arbitrary: m dst src xs)
  case 0
  then show ?case by (simp add: fun_eq_iff)
next
  case (Suc n)
  show ?case
  proof (cases xs)
    case Nil
    with Suc.prems show ?thesis by (simp add: fun_eq_iff)
  next
    case (Cons x ys)
    let ?m = "m(dst := x)"
    have "cstr ?m (Suc src) ys"
      using Suc.prems Cons by (subst cstr_cong [where m' = m]) auto
    moreover have "Suc dst + min n (length ys) < Suc src \<or> Suc src + length ys < Suc dst"
      using Suc.prems Cons by auto
    ultimately have "strlcpy_loop ?m (Suc dst) (Suc src) n =
      ((blit ?m (Suc dst) (Suc src) (min n (length ys)))(Suc dst + min n (length ys) := 0),
       Suc dst + min n (length ys))"
      by (rule Suc.IH)
    moreover have "blit ?m (Suc dst) (Suc src) (min n (length ys)) = blit m dst src (Suc (min n (length ys)))"
      using Suc.prems Cons blit_Suc [of dst src "min n (length ys)" m] by auto
    ultimately show ?thesis using Suc.prems(1) Cons by (simp add: fun_eq_iff)
  qed
qed

lemma strlcpy_cstr:
  assumes "cstr m src xs" "0 < sz" "dst + min (sz - 1) (length xs) < src \<or> src + length xs < dst"
  shows "\<exists>m'. strlcpy m dst src sz = (m', min (sz - 1) (length xs))
    \<and> cstr m' dst (take (sz - 1) xs)
    \<and> (\<forall>a. a < dst \<or> dst + sz \<le> a \<longrightarrow> m' a = m a)"
proof -
  let ?k = "min (sz - 1) (length xs)"
  let ?m = "(blit m dst src ?k)(dst + ?k := 0)"
  have "strlcpy m dst src sz = (?m, ?k)"
    using strlcpy_loop_eq [OF assms(1,3)] assms(2) by (simp add: strlcpy_def)
  moreover have "cstr ?m dst (take (sz - 1) xs)"
  proof -
    have "0 \<notin> set (take (sz - 1) xs)"
      using assms(1) by (auto simp: cstr_bytes dest: in_set_takeD)
    then show ?thesis
      using assms(1) by (auto simp: cstr_bytes bytes_at_nth blit_def min.commute)
  qed
  moreover have "\<forall>a. a < dst \<or> dst + sz \<le> a \<longrightarrow> ?m a = m a"
    using assms(2) by (auto simp: blit_def)
  ultimately show ?thesis by blast
qed

lemma strcat_cstr:
  assumes "cstr m dst xs" "cstr m src ys" "src + length ys < dst \<or> dst + length xs + length ys < src"
  shows "\<exists>m'. strcat m dst src = Some m' \<and> cstr m' dst (xs @ ys)
    \<and> (\<forall>a. a < dst \<or> dst + length xs + length ys < a \<longrightarrow> m' a = m a)"
proof -
  let ?m = "blit m (dst + length xs) src (Suc (length ys))"
  have "strcat m dst src = Some ?m"
    using strlen_cstr [OF assms(1)] strcpy_cstr [OF assms(2), of "dst + length xs"] assms(3)
    by (auto simp: strcat_def)
  moreover have "cstr ?m dst (xs @ ys)"
  proof -
    have "cstr ?m (dst + length xs) ys" by (rule cstr_blit [OF assms(2)])
    moreover have "bytes_at ?m dst xs"
      using assms(1) by (auto simp: cstr_bytes bytes_at_nth blit_def)
    ultimately show ?thesis
      using assms(1) by (auto simp: cstr_bytes bytes_at_append add.assoc)
  qed
  ultimately show ?thesis by (auto simp: blit_out)
qed

text \<open>\<open>strncpy\<close> never stops early: it pads with zeros up to the given size.\<close>

lemma strncpy_eq:
  assumes "cstr m src xs" "dst + sz \<le> src \<or> src + length xs < dst"
  shows "strncpy m dst src sz =
    (\<lambda>a. if dst \<le> a \<and> a < dst + sz
         then (if a - dst < length xs then xs ! (a - dst) else 0) else m a)"
  using assms
proof (induction sz arbitrary: m dst src xs)
  case 0
  then show ?case by (auto simp: fun_eq_iff)
next
  case (Suc sz)
  show ?case
  proof (cases xs)
    case Nil
    let ?m = "m(dst := 0)"
    have c: "cstr ?m src []" using Suc.prems Nil by auto
    have "strncpy ?m (Suc dst) src sz =
      (\<lambda>a. if Suc dst \<le> a \<and> a < Suc dst + sz
           then (if a - Suc dst < length ([] :: u8 list) then [] ! (a - Suc dst) else 0) else ?m a)"
      by (rule Suc.IH [OF c]) (use Suc.prems Nil in auto)
    with Suc.prems Nil show ?thesis by (auto simp: fun_eq_iff Let_def)
  next
    case (Cons x ys)
    let ?m = "m(dst := x)"
    have c: "cstr ?m (Suc src) ys"
      using Suc.prems Cons by (subst cstr_cong [where m' = m]) auto
    have m: "?m src = x" "x \<noteq> 0" using Suc.prems Cons by auto
    have IH: "strncpy ?m (Suc dst) (Suc src) sz =
      (\<lambda>a. if Suc dst \<le> a \<and> a < Suc dst + sz
           then (if a - Suc dst < length ys then ys ! (a - Suc dst) else 0) else ?m a)"
      by (rule Suc.IH [OF c]) (use Suc.prems Cons in auto)
    have "a - dst = Suc (a - Suc dst)" if "Suc dst \<le> a" for a using that by simp
    then show ?thesis using Suc.prems Cons IH m by (auto simp: fun_eq_iff Let_def)
  qed
qed

section \<open>Comparing strings\<close>

lemma uint_diff_cmp:
  fixes a b :: "'a::len word"
  shows "uint a - uint b = 0 \<longleftrightarrow> a = b" "uint a - uint b < 0 \<longleftrightarrow> a < b"
  by (simp_all add: word_less_def word_uint_eq_iff)

lemma uint_cmp:
  fixes a b :: "'a::len word"
  shows "uint a = uint b \<longleftrightarrow> a = b" "uint a < uint b \<longleftrightarrow> a < b" "uint a = 0 \<longleftrightarrow> a = 0"
    "0 < uint a \<longleftrightarrow> a \<noteq> 0"
  by (simp_all add: word_less_def word_uint_eq_iff) (metis uint_ge_0 less_le)

lemmas byte_cmp = uint_diff_cmp uint_cmp

lemma strcmp_cstr:
  "cstr m p xs \<Longrightarrow> cstr m q ys \<Longrightarrow>
   \<exists>r. strcmp m p q = Some r \<and> (r = 0 \<longleftrightarrow> xs = ys) \<and> (r < 0 \<longleftrightarrow> (xs, ys) \<in> lexord {(a, b). a < b})"
proof (induction xs arbitrary: p q ys)
  case Nil
  then show ?case
    by (cases ys) (auto simp: strcmp.simps [of m p q] byte_cmp)
next
  case (Cons x xs)
  show ?case
  proof (cases ys)
    case Nil
    with Cons.prems show ?thesis
      by (auto simp: strcmp.simps [of m p q] byte_cmp)
  next
    case (Cons y zs)
    show ?thesis
    proof (cases "x = y")
      case True
      with Cons Cons.prems obtain r where
        "strcmp m (Suc p) (Suc q) = Some r" "r = 0 \<longleftrightarrow> xs = zs"
        "r < 0 \<longleftrightarrow> (xs, zs) \<in> lexord {(a, b). a < b}"
        using Cons.IH [of "Suc p" "Suc q" zs] by auto
      with True Cons Cons.prems show ?thesis
        by (auto simp: strcmp.simps [of m p q])
    next
      case False
      with Cons Cons.prems show ?thesis
        by (auto simp: strcmp.simps [of m p q] byte_cmp)
    qed
  qed
qed

lemma strcmp_eq0: "cstr m p xs \<Longrightarrow> cstr m q ys \<Longrightarrow> strcmp m p q = Some 0 \<longleftrightarrow> xs = ys"
  using strcmp_cstr by fastforce

lemma strncmp_cstr:
  "cstr m p xs \<Longrightarrow> cstr m q ys \<Longrightarrow> strncmp m p q n = 0 \<longleftrightarrow> take n xs = take n ys"
proof (induction n arbitrary: p q xs ys)
  case 0
  then show ?case by simp
next
  case (Suc n)
  show ?case
  proof (cases xs)
    case Nil
    with Suc.prems show ?thesis by (cases ys) (auto simp: byte_cmp)
  next
    case (Cons x xs')
    then show ?thesis using Suc by (cases ys) (auto simp: byte_cmp)
  qed
qed

lemma strchr_cstr:
  "cstr m s xs \<Longrightarrow> strchr m s c =
     Some (if c \<in> set xs then Some (s + length (takeWhile (\<lambda>x. x \<noteq> c) xs)) else None)"
proof (induction xs arbitrary: s)
  case Nil
  then show ?case by (simp add: strchr.simps)
next
  case (Cons x xs)
  then show ?case by (auto simp: strchr.simps [of m s c])
qed

lemma strfind_cstr:
  "cstr m s xs \<Longrightarrow> strfind m s c = Some (s + length (takeWhile (\<lambda>x. x \<noteq> c) xs))"
proof (induction xs arbitrary: s)
  case Nil
  then show ?case by (simp add: strfind.simps)
next
  case (Cons x xs)
  then show ?case by (auto simp: strfind.simps [of m s c])
qed

lemma memcmp_bytes:
  "bytes_at m p xs \<Longrightarrow> bytes_at m q ys \<Longrightarrow> length xs = n \<Longrightarrow> length ys = n \<Longrightarrow>
   (memcmp m p q n = 0 \<longleftrightarrow> xs = ys) \<and> (memcmp m p q n < 0 \<longleftrightarrow> (xs, ys) \<in> lexord {(a, b). a < b})"
proof (induction n arbitrary: p q xs ys)
  case 0
  then show ?case by simp
next
  case (Suc n)
  then obtain x xs' y ys' where "xs = x # xs'" "ys = y # ys'" by (metis length_Suc_conv)
  with Suc show ?case by (auto simp: byte_cmp)
qed

lemma memfind_le: "s \<le> memfind m s c n \<and> memfind m s c n \<le> s + n"
  by (induction m s c n rule: memfind.induct) auto

section \<open>Block operations\<close>

lemma rep_stosb_eq: "rep_stosb m d c n = (\<lambda>a. if d \<le> a \<and> a < d + n then c else m a)"
  by (induction m d c n rule: rep_stosb.induct) (auto simp: fun_eq_iff fun_upd_def)

lemma rep_stosl_eq:
  "(\<And>i. i < 4 \<Longrightarrow> wr32 (\<lambda>_. 0) 0 w i = c) \<Longrightarrow>
   rep_stosl m d w n = (\<lambda>a. if d \<le> a \<and> a < d + 4 * n then c else m a)"
proof (induction m d w n rule: rep_stosl.induct)
  case (1 m d w)
  show ?case by (auto simp: fun_eq_iff)
next
  case (2 m d w n)
  have "wr32 m d w a = (if d \<le> a \<and> a < d + 4 then c else m a)" for a
    using "2.prems" [of 0] "2.prems" [of 1] "2.prems" [of 2] "2.prems" [of 3]
    by (auto simp: wr32_def)
  moreover have "rep_stosl m d w (Suc n) a =
    (if d + 4 \<le> a \<and> a < d + 4 + 4 * n then c else wr32 m d w a)" for a
    using "2.IH" [OF "2.prems"] by simp
  ultimately show ?case by (auto simp: fun_eq_iff)
qed

lemma replicate_byte:
  fixes c :: u32
  defines "c1 \<equiv> c AND 0xFF"
  shows "i < 4 \<Longrightarrow>
    wr32 (\<lambda>_. 0) 0 (push_bit 24 c1 OR push_bit 16 c1 OR push_bit 8 c1 OR c1) i = ucast c"
proof -
  assume "i < 4"
  then consider "i = 0" | "i = 1" | "i = 2" | "i = 3" by linarith
  moreover have "c1 = take_bit 8 c"
    unfolding c1_def by (simp add: take_bit_eq_mask mask_eq_exp_minus_1)
  ultimately show ?thesis
    by cases (rule bit_word_eqI, auto simp: wr32_def bit_simps)+
qed

lemma memset_eq: "memset m v c n = (\<lambda>a. if v \<le> a \<and> a < v + n then ucast c else m a)"
proof (cases "v mod 4 = 0 \<and> n mod 4 = 0")
  case True
  then have "4 * (n div 4) = n" by auto
  with True show ?thesis
    using rep_stosl_eq [OF replicate_byte, where m = m and d = v and n = "n div 4"]
    by (auto simp: memset_def Let_def)
next
  case False
  then show ?thesis by (auto simp: memset_def rep_stosb_eq fun_eq_iff)
qed

lemma rep_movsb_eq: "d \<le> s \<or> s + n \<le> d \<Longrightarrow> rep_movsb m d s n = blit m d s n"
proof (induction m d s n rule: rep_movsb.induct)
  case (1 m d s)
  show ?case by simp
next
  case (2 m d s n)
  then have "rep_movsb m d s (Suc n) = blit (m(d := m s)) (Suc d) (Suc s) n"
    by (auto simp: fun_upd_def)
  also have "\<dots> = blit m d s (Suc n)" using "2.prems" by (intro blit_Suc) auto
  finally show ?case .
qed

text \<open>A double word copied first, the rest after.\<close>

lemma wr32_rd32: "wr32 m d (rd32 m s) = blit m d s 4"
proof (rule ext)
  fix a
  have b: "ucast (rd32 m s) = m s" "ucast (drop_bit 8 (rd32 m s)) = m (s + 1)"
    "ucast (drop_bit 16 (rd32 m s)) = m (s + 2)" "ucast (drop_bit 24 (rd32 m s)) = m (s + 3)"
    by (rule bit_word_eqI; auto simp: rd32_def bit_simps dest: bit_imp_le_length)+
  consider "a < d \<or> d + 4 \<le> a" | "a = d" | "a = d + 1" | "a = d + 2" | "a = d + 3" by linarith
  then show "wr32 m d (rd32 m s) a = blit m d s 4 a"
    by cases (auto simp: wr32_def blit_def b)
qed

lemma blit_split:
  "d \<le> s \<or> s + (k + n) \<le> d \<Longrightarrow> blit (blit m d s k) (d + k) (s + k) n = blit m d s (k + n)"
  by (rule ext) (auto simp: blit_def)

lemma rep_movsl_eq: "d \<le> s \<or> s + 4 * n \<le> d \<Longrightarrow> rep_movsl m d s n = blit m d s (4 * n)"
proof (induction m d s n rule: rep_movsl.induct)
  case (1 m d s)
  show ?case by simp
next
  case (2 m d s n)
  then have "rep_movsl m d s (Suc n) = blit (blit m d s 4) (d + 4) (s + 4) (4 * n)"
    by (auto simp: wr32_rd32)
  also have "\<dots> = blit m d s (4 + 4 * n)" using "2.prems" by (intro blit_split) auto
  finally show ?case by simp
qed

text \<open>Downwards: the last element first, valid when the source lies below the destination.\<close>

lemma blit_split_std:
  "s \<le> d \<Longrightarrow> blit (blit m (d + n) (s + n) k) d s n = blit m d s (n + k)"
proof (rule ext)
  fix a
  assume "s \<le> d"
  then show "blit (blit m (d + n) (s + n) k) d s n a = blit m d s (n + k) a"
    by (auto simp: blit_def)
qed

lemma rep_movsb_std_eq: "s \<le> d \<Longrightarrow> rep_movsb_std m (d + n) (s + n) n = blit m d s n"
proof (induction n arbitrary: m)
  case 0
  show ?case by simp
next
  case (Suc n)
  have one: "m(d + n := m (s + n)) = blit m (d + n) (s + n) 1" for m
    by (rule ext) (auto simp: blit_def)
  have "rep_movsb_std m (d + Suc n) (s + Suc n) (Suc n) = blit (blit m (d + n) (s + n) 1) d s n"
    using Suc by (simp add: one)
  also have "\<dots> = blit m d s (n + 1)" using Suc.prems by (rule blit_split_std)
  finally show ?case by simp
qed

lemma rep_movsl_std_eq: "s \<le> d \<Longrightarrow> rep_movsl_std m (d + 4 * n) (s + 4 * n) n = blit m d s (4 * n)"
proof (induction n arbitrary: m)
  case 0
  show ?case by simp
next
  case (Suc n)
  have "rep_movsl_std m (d + 4 * Suc n) (s + 4 * Suc n) (Suc n) =
    blit (blit m (d + 4 * n) (s + 4 * n) 4) d s (4 * n)"
    using Suc by (simp add: wr32_rd32)
  also have "\<dots> = blit m d s (4 * n + 4)" using Suc.prems by (rule blit_split_std)
  finally show ?case by (simp add: add.commute)
qed

lemma memmove_eq: "memmove m d s n = blit m d s n"
proof -
  have n4: "n mod 4 = 0 \<Longrightarrow> 4 * (n div 4) = n" by auto
  show ?thesis
  proof (cases "s < d \<and> s + n > d")
    case True
    with rep_movsl_std_eq [of s d m "n div 4"] rep_movsb_std_eq [of s d m n] n4
    show ?thesis by (auto simp: memmove_def Let_def)
  next
    case False
    then have "d \<le> s \<or> s + n \<le> d" by linarith
    with False rep_movsl_eq [of d s "n div 4" m] rep_movsb_eq [of d s n m] n4
    show ?thesis by (auto simp: memmove_def Let_def)
  qed
qed

section \<open>Parsing numbers\<close>

lemma strtol_digits_run:
  assumes "bytes_at m s cs" "map digit_of cs = map Some ds" "\<forall>d \<in> set ds. d < base"
    "\<forall>d. digit_of (m (s + length cs)) = Some d \<longrightarrow> base \<le> d"
  shows "strtol_digits m s base v =
    Some (foldl (\<lambda>v d. v * of_nat base + of_nat d) v ds, s + length cs)"
  using assms
proof (induction cs arbitrary: s ds v)
  case Nil
  then show ?case by (auto simp: strtol_digits.simps [of m s base v] split: option.split)
next
  case (Cons c cs)
  then obtain d ds' where "ds = d # ds'" by (cases ds) auto
  with Cons show ?case by (auto simp: strtol_digits.simps [of m s base v])
qed

lemma foldl_of_nat:
  "foldl (\<lambda>v d. v * of_nat base + of_nat d) (of_nat k :: 'a::len word) ds =
   of_nat (foldl (\<lambda>v d. v * base + d) k ds)"
proof (induction ds arbitrary: k)
  case Nil
  show ?case by simp
next
  case (Cons d ds)
  have "of_nat k * of_nat base + of_nat d = (of_nat (k * base + d) :: 'a word)" by simp
  then show ?case using Cons.IH [of "k * base + d"] by (simp only: foldl_Cons)
qed

lemma strtol_digits_val:
  assumes "bytes_at m s cs" "map digit_of cs = map Some ds" "\<forall>d \<in> set ds. d < base"
    "\<forall>d. digit_of (m (s + length cs)) = Some d \<longrightarrow> base \<le> d"
  shows "strtol_digits m s base 0 = Some (of_nat (digits_val base ds), s + length cs)"
  using strtol_digits_run [OF assms, of 0] foldl_of_nat [of base 0 ds]
  by (simp add: digits_val_def)

text \<open>\<open>strtol\<close> in an explicit base on an optional minus sign followed by digits of that base,
  the first of them not part of a hexadecimal prefix.\<close>

lemma strtol_dec:
  assumes cs: "cs \<noteq> []" "map digit_of cs = map Some ds" "\<forall>d \<in> set ds. d < 10"
    and c: "cstr m s ((if neg then [0x2D] else []) @ cs)"
  shows "strtol m s 10 =
    Some ((if neg then - of_nat (digits_val 10 ds) else of_nat (digits_val 10 ds)),
          s + (if neg then 1 else 0) + length cs)"
proof -
  obtain c0 cs' where c0: "cs = c0 # cs'" using cs(1) by (cases cs) auto
  then obtain d0 where d0: "digit_of c0 = Some d0" using cs(2) by (cases ds) auto
  have nb: "c0 \<noteq> 0x20" "c0 \<noteq> 0x09" "c0 \<noteq> 0x2B" "c0 \<noteq> 0x2D"
    using d0 by (auto simp: digit_of_def)
  let ?s = "s + (if neg then 1 else 0)"
  have b: "bytes_at m ?s cs" "m (?s + length cs) = 0"
    using c by (auto simp: cstr_bytes split: if_splits)
  have first: "m ?s = c0" using b(1) c0 by simp
  have "digit_of (m (?s + length cs)) = None" by (simp add: b(2) digit_of_def)
  then have dig: "strtol_digits m ?s 10 0 = Some (of_nat (digits_val 10 ds), ?s + length cs)"
    using b(1) cs(2,3) by (intro strtol_digits_val) auto
  have "skip_blanks m s = Some s"
    using first nb c by (cases neg) (auto simp: skip_blanks.simps [of m s])
  then show ?thesis
    using dig first nb c by (cases neg) (auto simp: strtol_def)
qed

section \<open>Substring search\<close>

lemma occurs_0: "occurs ys xs 0 \<longleftrightarrow> take (length ys) xs = ys"
  unfolding occurs_def by (metis add_0 drop0 length_take min.cobounded1 min_def le_refl nat_le_linear)

lemma occurs_Suc: "occurs ys (x # xs) (Suc i) \<longleftrightarrow> occurs ys xs i"
  by (simp add: occurs_def)

lemma occurs_Nil: "ys \<noteq> [] \<Longrightarrow> \<not> occurs ys [] i"
  by (auto simp: occurs_def)

lemma strstr_scan_cstr:
  "cstr m p xs \<Longrightarrow> strstr_scan m p c =
     Some (if c \<in> set xs then Some (Suc (p + length (takeWhile (\<lambda>x. x \<noteq> c) xs))) else None)"
proof (induction xs arbitrary: p)
  case Nil
  then show ?case by (simp add: strstr_scan.simps)
next
  case (Cons x xs)
  then show ?case by (auto simp: strstr_scan.simps [of m p c])
qed

text \<open>The loop on a haystack whose first character is the one searched for, or not.\<close>

lemma strstr_loop_skip:
  "m p \<noteq> 0 \<Longrightarrow> m p \<noteq> c \<Longrightarrow> strstr_loop m p c q len = strstr_loop m (Suc p) c q len"
  by (simp add: strstr_loop.simps [of m p] strstr_loop.simps [of m "Suc p"] strstr_scan.simps [of m p])

lemma strstr_loop_hit:
  "m p = c \<Longrightarrow> c \<noteq> 0 \<Longrightarrow> strstr_loop m p c q len =
     (if strncmp m (Suc p) q len \<noteq> 0 then strstr_loop m (Suc p) c q len else Some (Some p))"
  by (simp add: strstr_loop.simps [of m p] strstr_scan.simps [of m p])

lemma strstr_loop_cstr:
  assumes "cstr m p xs" "cstr m q ys" "c \<noteq> 0"
  shows "strstr_loop m p c q (length ys) =
    Some (if \<exists>i. occurs (c # ys) xs i then Some (p + (LEAST i. occurs (c # ys) xs i)) else None)"
  using assms(1)
proof (induction xs arbitrary: p)
  case Nil
  then show ?case
    using assms(3) by (simp add: strstr_loop.simps [of m p] strstr_scan.simps [of m p] occurs_Nil)
next
  case (Cons x xs)
  have tl: "cstr m (Suc p) xs" and x: "m p = x" "x \<noteq> 0" using Cons.prems by auto
  have cmp: "strncmp m (Suc p) q (length ys) = 0 \<longleftrightarrow> take (length ys) xs = ys"
    using strncmp_cstr [OF tl assms(2)] by simp
  have hit: "occurs (c # ys) (x # xs) 0 \<longleftrightarrow> x = c \<and> take (length ys) xs = ys"
    unfolding occurs_0 by auto
  show ?case
  proof (cases "occurs (c # ys) (x # xs) 0")
    case True
    then have "(LEAST i. occurs (c # ys) (x # xs) i) = 0" by (rule Least_eq_0)
    with True hit cmp x show ?thesis by (auto simp: strstr_loop_hit)
  next
    case False
    then have ex: "(\<exists>i. occurs (c # ys) (x # xs) i) \<longleftrightarrow> (\<exists>i. occurs (c # ys) xs i)"
      by (metis not0_implies_Suc occurs_Suc)
    have "(LEAST i. occurs (c # ys) (x # xs) i) = Suc (LEAST i. occurs (c # ys) xs i)"
      if "occurs (c # ys) xs i" for i
      using Least_Suc [of "occurs (c # ys) (x # xs)" "Suc i"] that False by (simp add: occurs_Suc)
    moreover have "strstr_loop m p c q (length ys) = strstr_loop m (Suc p) c q (length ys)"
      using False hit cmp x by (cases "x = c") (auto simp: strstr_loop_hit strstr_loop_skip)
    ultimately show ?thesis using Cons.IH [OF tl] ex by auto
  qed
qed

lemma strstr_cstr:
  assumes "cstr m p xs" "cstr m q ys"
  shows "strstr m p q =
    Some (if \<exists>i. occurs ys xs i then Some (p + (LEAST i. occurs ys xs i)) else None)"
proof (cases ys)
  case Nil
  then have "occurs ys xs 0" by (simp add: occurs_def)
  then have "\<exists>i. occurs ys xs i" "(LEAST i. occurs ys xs i) = 0" by (blast, rule Least_eq_0)
  with Nil assms(2) show ?thesis by (simp add: strstr_def)
next
  case (Cons c ys')
  with assms(2) have q: "cstr m (Suc q) ys'" "m q = c" "c \<noteq> 0" by auto
  with Cons strlen_cstr [OF q(1)] strstr_loop_cstr [OF assms(1) q(1,3)]
  show ?thesis by (simp add: strstr_def Let_def)
qed

section \<open>Properties\<close>

text \<open>\<open>strcpy\<close> to a destination that does not start inside the source string returns, leaves
  the string at the destination, where \<open>strlen\<close> then finds its length, and changes no byte outside
  the destination string and its terminator.\<close>

theorem strcpy_copies:
  assumes "cstr m src xs" "dst \<le> src \<or> src + length xs < dst"
  shows "\<exists>m'. strcpy m dst src = Some m' \<and> cstr m' dst xs \<and> strlen m' dst = Some (length xs) \<and>
    (\<forall>a. a < dst \<or> dst + length xs < a \<longrightarrow> m' a = m a)"
proof -
  have "cstr (blit m dst src (Suc (length xs))) dst xs" using assms(1) by (rule cstr_blit)
  then show ?thesis using strcpy_cstr [OF assms] by (auto simp: strlen_iff blit_def)
qed

theorem strcpy_copies_witness:
  "let m = (\<lambda>a. if a = 100 then 72 else if a = 101 then 105 else 0)
   in \<exists>m'. strcpy m 99 100 = Some m' \<and> cstr m' 99 [72, 105] \<and> strlen m' 99 = Some (length [72, 105 :: u8]) \<and>
     (\<forall>a. a < 99 \<or> 101 < a \<longrightarrow> m' a = m a)"
  unfolding Let_def
  using strcpy_copies [of "\<lambda>a. if a = 100 then 72 else if a = 101 then 105 else 0" 100 "[72, 105]" 99]
  by simp

text \<open>\<open>strlcpy\<close> never writes outside the \<open>size\<close> bytes of the destination and always leaves a
  terminated string there: the longest prefix of the source that fits.\<close>

theorem strlcpy_bounded:
  assumes "cstr m src xs" "0 < sz" "dst + min (sz - 1) (length xs) < src \<or> src + length xs < dst"
  shows "\<exists>m'. strlcpy m dst src sz = (m', min (sz - 1) (length xs)) \<and>
    cstr m' dst (take (sz - 1) xs) \<and> (\<forall>a. a < dst \<or> dst + sz \<le> a \<longrightarrow> m' a = m a)"
  by (rule strlcpy_cstr [OF assms])

theorem strlcpy_bounded_witness:
  "let m = (\<lambda>a. if a = 100 then 72 else if a = 101 then 105 else 0)
   in \<exists>m'. strlcpy m 7 100 2 = (m', 1) \<and> cstr m' 7 [72] \<and> (\<forall>a. a < 7 \<or> 9 \<le> a \<longrightarrow> m' a = m a)"
  unfolding Let_def
  using strlcpy_bounded [of "\<lambda>a. if a = 100 then 72 else if a = 101 then 105 else 0" 100 "[72, 105]" 2 7]
  by simp

text \<open>\<open>strcmp\<close> of two terminated strings returns; the result is zero exactly for equal strings
  and negative exactly when the first is smaller in the lexicographic order of unsigned bytes.\<close>

theorem strcmp_orders:
  assumes "cstr m p xs" "cstr m q ys"
  shows "\<exists>r. strcmp m p q = Some r \<and> (r = 0 \<longleftrightarrow> xs = ys) \<and>
    (r < 0 \<longleftrightarrow> (xs, ys) \<in> lexord {(a, b). a < b})"
  by (rule strcmp_cstr [OF assms])

theorem strcmp_orders_witness:
  "let m = (\<lambda>a. if a = 100 then 72 else if a = 200 then 200 else 0)
   in \<exists>r. strcmp m 100 200 = Some r \<and> r < 0"
  unfolding Let_def
  using strcmp_orders [of "\<lambda>a. if a = 100 then 72 else if a = 200 then 200 else 0" 100 "[72]" 200 "[200]"]
  by auto

text \<open>C38: \<open>memmove\<close>, which copies backwards or forwards and by bytes or by double words depending on
  the overlap and the alignment, always leaves at the destination the bytes that were at the source
  before the call, and changes nothing else.\<close>

theorem memmove_reference:
  "memmove m dst src n = (\<lambda>a. if dst \<le> a \<and> a < dst + n then m (src + (a - dst)) else m a)"
  by (simp add: memmove_eq blit_def)

text \<open>\<open>strtol\<close> in base ten, on an optional minus sign and a non-empty digit string, returns the
  number modulo the width of \<open>long\<close> and stops at the terminator.\<close>

theorem strtol_decimal:
  assumes "cs \<noteq> []" "map digit_of cs = map Some ds" "\<forall>d \<in> set ds. d < 10"
    and "cstr m s ((if neg then [0x2D] else []) @ cs)"
  shows "strtol m s 10 =
    Some (if neg then - of_nat (digits_val 10 ds) else of_nat (digits_val 10 ds),
          s + (if neg then 1 else 0) + length cs)"
  using strtol_dec [OF assms] by simp

theorem strtol_decimal_witness:
  "strtol (\<lambda>a. if a = 100 then 0x2D else if a = 101 then 0x34 else if a = 102 then 0x32 else 0) 100 10 =
     Some (- 42, 103)"
  using strtol_decimal [of "[0x34, 0x32]" "[4, 2]"
      "\<lambda>a. if a = 100 then 0x2D else if a = 101 then 0x34 else if a = 102 then 0x32 else 0" 100 True]
  by (simp add: digit_of_def digits_val_def)

text \<open>\<open>strstr\<close> of two terminated strings returns the first position at which the second occurs
  in the first, or null if there is none.\<close>

theorem strstr_first:
  assumes "cstr m p xs" "cstr m q ys"
  shows "strstr m p q =
    Some (if \<exists>i. occurs ys xs i then Some (p + (LEAST i. occurs ys xs i)) else None)"
  by (rule strstr_cstr [OF assms])

theorem strstr_first_witness:
  "\<exists>i. occurs [66] [65, 66 :: u8] i \<and>
    strstr (\<lambda>a. if a = 100 then 65 else if a = 101 then 66 else if a = 200 then 66 else 0) 100 200 =
      Some (Some (100 + (LEAST i. occurs [66] [65, 66 :: u8] i)))"
proof -
  have "occurs [66] [65, 66 :: u8] 1" by (simp add: occurs_def)
  then show ?thesis
    using strstr_first [of "\<lambda>a. if a = 100 then 65 else if a = 101 then 66 else if a = 200 then 66 else 0"
        100 "[65, 66]" 200 "[66]"]
    by (intro exI [of _ 1]) auto
qed

end
