(* ===== verification/Lib_Printfmt.thy ===== *)
theory Lib_Printfmt
  imports Lib_String
begin

text \<open>
  Formatted output, \<^verbatim>\<open>lib/printfmt.c\<close>, used by the kernel and by user programs.

  The output of \<open>vprintfmt\<close> is the list of the arguments of its calls of \<open>putch\<close>, C \<open>int\<close>s.  A
  format is the list of its bytes without the terminating zero.  The variable arguments are a list:
  a number is the 64-bit slot that \<open>va_arg\<close> reads, a string is given by its bytes, a null pointer
  being \<open>None\<close>.  A missing argument or one of the other kind, on which the code is undefined, gives
  \<open>None\<close>.  Widths are unbounded integers: the overflow of a width of more than nine digits, which is
  undefined in C, is not modelled.
\<close>

datatype parg = ANum u64 | AStr "u8 list option"

abbreviation chr_minus :: u32 where "chr_minus \<equiv> 0x2D"
abbreviation chr_blank :: u32 where "chr_blank \<equiv> 0x20"

section \<open>Numbers\<close>

definition hex_digit :: "nat \<Rightarrow> u32" where
  "hex_digit d = [0x30, 0x31, 0x32, 0x33, 0x34, 0x35, 0x36, 0x37, 0x38, 0x39, 0x61, 0x62, 0x63, 0x64, 0x65, 0x66] ! d"

text \<open>The base is 8, 10 or 16; the guard on it only makes the recursion total.\<close>

function printnum :: "nat \<Rightarrow> nat \<Rightarrow> int \<Rightarrow> u32 \<Rightarrow> u32 list" where
  "printnum num base width padc =
     (if num \<ge> base \<and> base \<ge> 2 then printnum (num div base) base (width - 1) padc
      else replicate (nat (width - 1)) padc) @ [hex_digit (num mod base)]"
  by pat_completeness auto
termination
  by (relation "measure (\<lambda>(num, _). num)") auto

declare printnum.simps [simp del]

section \<open>Arguments\<close>

definition next_num :: "parg list \<Rightarrow> (u64 \<times> parg list) option" where
  "next_num args = (case args of ANum n # rest \<Rightarrow> Some (n, rest) | _ \<Rightarrow> None)"

definition next_int :: "parg list \<Rightarrow> (int \<times> parg list) option" where
  "next_int args = do { (n, rest) \<leftarrow> next_num args; Some (sint (ucast n :: u32), rest) }"

definition next_str :: "parg list \<Rightarrow> (u8 list option \<times> parg list) option" where
  "next_str args = (case args of AStr s # rest \<Rightarrow> Some (s, rest) | _ \<Rightarrow> None)"

text \<open>\<open>getuint\<close> and \<open>getint\<close>; \<open>long\<close> and \<open>long long\<close> are both 64 bits.\<close>

definition getuint :: "parg list \<Rightarrow> nat \<Rightarrow> (u64 \<times> parg list) option" where
  "getuint args lflag = do { (n, rest) \<leftarrow> next_num args; Some (if lflag \<noteq> 0 then n else ucast (ucast n :: u32), rest) }"

definition getint :: "parg list \<Rightarrow> nat \<Rightarrow> (u64 \<times> parg list) option" where
  "getint args lflag = do { (n, rest) \<leftarrow> next_num args; Some (if lflag \<noteq> 0 then n else scast (ucast n :: u32), rest) }"

section \<open>Strings and error codes\<close>

definition putstr :: "u8 list \<Rightarrow> int \<Rightarrow> int \<Rightarrow> bool \<Rightarrow> u32 \<Rightarrow> u32 list" where
  "putstr s width precision altflag padc =
     (let len = (if precision < 0 then length s else min (length s) (nat precision));
          before = (if width > 0 \<and> padc \<noteq> chr_minus then nat (width - int len) else 0);
          width1 = (if width > 0 \<and> padc \<noteq> chr_minus then width - int len - int before else width);
          show = (\<lambda>c. if altflag \<and> (sint c < 0x20 \<or> sint c > 0x7E) then 0x3F else scast c)
      in replicate before padc @ map show (take len s) @ replicate (nat (width1 - int len)) chr_blank)"

definition error_string :: "int \<Rightarrow> string option" where
  "error_string err =
     map_of [(E_UNSPECIFIED, ''unspecified error''), (E_BAD_ENV, ''bad environment''), (E_INVAL, ''invalid parameter''),
       (E_NO_MEM, ''out of memory''), (E_NO_FREE_ENV, ''out of environments''), (E_FAULT, ''segmentation fault''),
       (E_IPC_NOT_RECV, ''env is not recving''), (E_EOF, ''unexpected end of file''), (E_NO_DISK, ''no free space on disk''),
       (E_MAX_OPEN, ''too many files are open''), (E_NOT_FOUND, ''file or block not found''), (E_BAD_PATH, ''invalid path''),
       (E_FILE_EXISTS, ''file already exists''), (E_NOT_EXEC, ''file is not a valid executable''),
       (E_NOT_SUPP, ''operation not supported'')] err"

definition bytes_of :: "string \<Rightarrow> u8 list" where
  "bytes_of s = map (\<lambda>c. of_nat (of_char c)) s"

text \<open>\<open>printfmt(putch, putdat, "error %d", err)\<close> and \<open>printfmt(putch, putdat, "%s", p)\<close>, written out.\<close>

definition put_error :: "int \<Rightarrow> u32 list" where
  "put_error err0 =
     (let err = (if err0 < 0 then - err0 else err0) in
      case (if err \<ge> MAXERROR then None else error_string err) of
        None \<Rightarrow> map ucast (bytes_of ''error '') @ printnum (nat err) 10 (- 1) chr_blank
      | Some s \<Rightarrow> putstr (bytes_of s) (- 1) (- 1) False chr_blank)"

section \<open>Formats\<close>

record spec =
  sp_padc :: u32
  sp_width :: int
  sp_prec :: int
  sp_lflag :: nat
  sp_alt :: bool

definition spec0 :: spec where
  "spec0 = \<lparr>sp_padc = chr_blank, sp_width = - 1, sp_prec = - 1, sp_lflag = 0, sp_alt = False\<rparr>"

definition process_precision :: "int \<Rightarrow> spec \<Rightarrow> spec" where
  "process_precision p sp = (if sp_width sp < 0 then sp\<lparr>sp_width := p, sp_prec := - 1\<rparr> else sp\<lparr>sp_prec := p\<rparr>)"

definition is_dec :: "u8 \<Rightarrow> bool" where
  "is_dec c \<longleftrightarrow> 0x30 \<le> c \<and> c \<le> 0x39"

text \<open>The digit loop: the number and the rest of the format.\<close>

fun fmt_digits :: "int \<Rightarrow> u8 list \<Rightarrow> int \<times> u8 list" where
  "fmt_digits p [] = (p, [])"
| "fmt_digits p (c # cs) = (if is_dec c then fmt_digits (p * 10 + (uint c - 0x30)) cs else (p, c # cs))"

lemma fmt_digits_length: "length (snd (fmt_digits p cs)) \<le> length cs"
  by (induction p cs rule: fmt_digits.induct) (auto intro: le_SucI)

text \<open>The label \<open>reswitch\<close>: the flags before the conversion character, which is returned with the
  rest of the format; \<open>None\<close> in its place is the end of the format.\<close>

function reswitch :: "spec \<Rightarrow> u8 list \<Rightarrow> parg list \<Rightarrow> (spec \<times> u8 option \<times> u8 list \<times> parg list) option" where
  "reswitch sp [] args = Some (sp, None, [], args)"
| "reswitch sp (c # cs) args =
     (if c = 0x2D then reswitch (sp\<lparr>sp_padc := chr_minus\<rparr>) cs args
      else if c = 0x30 then reswitch (sp\<lparr>sp_padc := 0x30\<rparr>) cs args
      else if is_dec c then
        reswitch (process_precision (fst (fmt_digits 0 (c # cs))) sp) (snd (fmt_digits 0 (c # cs))) args
      else if c = 0x2A then do {
        (p, args1) \<leftarrow> next_int args;
        reswitch (process_precision p sp) cs args1 }
      else if c = 0x2E then reswitch (if sp_width sp < 0 then sp\<lparr>sp_width := 0\<rparr> else sp) cs args
      else if c = 0x23 then reswitch (sp\<lparr>sp_alt := True\<rparr>) cs args
      else if c = 0x6C then reswitch (sp\<lparr>sp_lflag := sp_lflag sp + 1\<rparr>) cs args
      else Some (sp, Some c, cs, args))"
  by pat_completeness auto
termination
  by (relation "measure (\<lambda>(_, cs, _). length cs)") (auto simp: fmt_digits_length le_imp_less_Suc)

declare reswitch.simps [simp del]

text \<open>A conversion: its output and the remaining arguments.  \<open>None\<close> inside is a character that is no
  conversion.\<close>

definition convert :: "spec \<Rightarrow> u8 \<Rightarrow> parg list \<Rightarrow> ((u32 list \<times> parg list) option) option" where
  "convert sp c args =
     (let number = (\<lambda>pre n base args1. Some (Some (pre @ printnum (unat (n :: u64)) base (sp_width sp) (sp_padc sp), args1))) in
      if c = 0x63 then do { (i, args1) \<leftarrow> next_int args; Some (Some ([word_of_int i], args1)) }
      else if c = 0x65 then do {
        (err, args1) \<leftarrow> next_int args;
        if err = - (2 ^ 31) then None else Some (Some (put_error err, args1)) }
      else if c = 0x73 then do {
        (p, args1) \<leftarrow> next_str args;
        Some (Some (putstr (case p of None \<Rightarrow> bytes_of ''(null)'' | Some s \<Rightarrow> s) (sp_width sp) (sp_prec sp) (sp_alt sp) (sp_padc sp), args1)) }
      else if c = 0x64 then do {
        (n, args1) \<leftarrow> getint args 3;
        if sint n < 0 then number [chr_minus] (- n) 10 args1 else number [] n 10 args1 }
      else if c = 0x75 then do { (n, args1) \<leftarrow> getuint args 3; number [] n 10 args1 }
      else if c = 0x6F then do { (n, args1) \<leftarrow> getint args (sp_lflag sp); number [] n 8 args1 }
      else if c = 0x70 then do { (n, args1) \<leftarrow> next_num args; number [0x30, 0x78] n 16 args1 }
      else if c = 0x78 then do { (n, args1) \<leftarrow> getuint args 3; number [] n 16 args1 }
      else if c = 0x25 then Some (Some ([0x25], args))
      else Some None)"

lemma reswitch_length:
  "reswitch sp cs args = Some (sp', conv, rest, args') \<Longrightarrow> length rest \<le> length cs"
proof (induction sp cs args rule: reswitch.induct)
  case (1 sp args)
  then show ?case by (simp add: reswitch.simps)
next
  case (2 sp c cs args)
  have "length (snd (fmt_digits 0 (c # cs))) \<le> length cs" if "is_dec c"
    using that by (simp add: fmt_digits_length)
  note digits = this
  note eq = 2(8) [unfolded reswitch.simps(2)]
  have "length rest \<le> length cs \<or> rest = cs"
  proof (cases "c = 0x2D")
    case c1: True
    show ?thesis using 2(1) [OF c1] eq unfolding if_P [OF c1] by blast
  next
    case c1: False
    show ?thesis
    proof (cases "c = 0x30")
      case c2: True
      show ?thesis using 2(2) [OF c1 c2] eq unfolding if_not_P [OF c1] if_P [OF c2] by blast
    next
      case c2: False
      show ?thesis
      proof (cases "is_dec c")
        case c3: True
        then have "length rest \<le> length (snd (fmt_digits 0 (c # cs)))"
          using 2(3) [OF c1 c2 c3] eq unfolding if_not_P [OF c1] if_not_P [OF c2] if_P [OF c3] by blast
        with digits [OF c3] show ?thesis by linarith
      next
        case c3: False
        note eq3 = eq [unfolded if_not_P [OF c1] if_not_P [OF c2] if_not_P [OF c3]]
        show ?thesis
        proof (cases "c = 0x2A")
          case c4: True
          show ?thesis using 2(4) [OF c1 c2 c3 c4] eq3 unfolding if_P [OF c4] by (auto simp: bind_eq_Some_conv)
        next
          case c4: False
          show ?thesis using 2(5-7) [OF c1 c2 c3 c4] eq3 unfolding if_not_P [OF c4]
            by (cases "c = 0x2E"; cases "c = 0x23"; cases "c = 0x6C") auto
        qed
      qed
    qed
  qed
  then show ?case by auto
qed

text \<open>The main loop.  After a character that is no conversion the format pointer moves back to
  the character after the percent sign.\<close>

function vprintfmt :: "u8 list \<Rightarrow> parg list \<Rightarrow> u32 list option" where
  "vprintfmt [] args = Some []"
| "vprintfmt (c # cs) args =
     (if c \<noteq> 0x25 then do { out \<leftarrow> vprintfmt cs args; Some (ucast c # out) }
      else do {
        (sp, conv, rest, args1) \<leftarrow> reswitch spec0 cs args;
        res \<leftarrow> (case conv of None \<Rightarrow> Some None | Some k \<Rightarrow> convert sp k args1);
        (case res of
           Some (o1, args2) \<Rightarrow> do {
             out \<leftarrow> vprintfmt rest args2;
             Some (o1 @ out) }
         | None \<Rightarrow> do { out \<leftarrow> vprintfmt cs args1; Some (0x25 # out) }) })"
  by pat_completeness auto
termination
  by (relation "measure (\<lambda>(cs, _). length cs)") (auto dest: reswitch_length)

declare vprintfmt.simps [simp del]

section \<open>Into a buffer\<close>

text \<open>\<open>struct sprintbuf\<close>: the buffer is memory, \<open>buf\<close> and \<open>ebuf\<close> are addresses.\<close>

record sprintbuf =
  sb_mem :: cmem
  sb_buf :: nat
  sb_ebuf :: nat
  sb_cnt :: u32

definition sprintputch :: "u32 \<Rightarrow> sprintbuf \<Rightarrow> sprintbuf" where
  "sprintputch ch b =
     (let b1 = b\<lparr>sb_cnt := sb_cnt b + 1\<rparr> in
      if sb_buf b1 < sb_ebuf b1
      then b1\<lparr>sb_mem := (sb_mem b1)(sb_buf b1 := ucast ch), sb_buf := sb_buf b1 + 1\<rparr>
      else b1)"

definition vsnprintf :: "nat option \<Rightarrow> int \<Rightarrow> u8 list \<Rightarrow> parg list \<Rightarrow> cmem \<Rightarrow> (int \<times> cmem) option" where
  "vsnprintf buf n fmt args m =
     (case buf of
        None \<Rightarrow> Some (- E_INVAL, m)
      | Some p \<Rightarrow>
          if n < 1 then Some (- E_INVAL, m)
          else do {
            out \<leftarrow> vprintfmt fmt args;
            let b = fold sprintputch out \<lparr>sb_mem = m, sb_buf = p, sb_ebuf = p + nat (n - 1), sb_cnt = 0\<rparr>;
            Some (sint (sb_cnt b), (sb_mem b)(sb_buf b := 0)) })"

section \<open>Digits\<close>

function to_digits :: "nat \<Rightarrow> nat \<Rightarrow> nat list" where
  "to_digits base n = (if n \<ge> base \<and> base \<ge> 2 then to_digits base (n div base) else []) @ [n mod base]"
  by pat_completeness auto
termination
  by (relation "measure (\<lambda>(_, n). n)") auto

declare to_digits.simps [simp del]

lemma to_digits_bound: "0 < base \<Longrightarrow> d \<in> set (to_digits base n) \<Longrightarrow> d < base"
  by (induction base n rule: to_digits.induct) (subst (asm) (2) to_digits.simps, auto split: if_splits)

lemma to_digits_val: "2 \<le> base \<Longrightarrow> digits_val base (to_digits base n) = n"
proof (induction base n rule: to_digits.induct)
  case (1 base n)
  show ?case
  proof (cases "n \<ge> base")
    case True
    have "digits_val base (to_digits base n) = digits_val base (to_digits base (n div base)) * base + n mod base"
      using True 1(2) by (simp add: to_digits.simps [of base n] digits_val_def)
    then show ?thesis using 1 True by simp
  next
    case False
    then show ?thesis by (simp add: to_digits.simps [of base n] digits_val_def)
  qed
qed

lemma to_digits_Nil [simp]: "to_digits base n \<noteq> []"
  by (subst to_digits.simps) simp

text \<open>\<open>printnum\<close>: the digits, padded on the left to the width.\<close>

lemma printnum_eq:
  "2 \<le> base \<Longrightarrow> printnum n base w p = replicate (nat (w - int (length (to_digits base n)))) p @ map hex_digit (to_digits base n)"
proof (induction n base w p rule: printnum.induct)
  case (1 n base w p)
  show ?case
  proof (cases "n \<ge> base")
    case True
    have "printnum n base w p = replicate (nat (w - 1 - int (length (to_digits base (n div base))))) p @
        map hex_digit (to_digits base (n div base)) @ [hex_digit (n mod base)]"
      using 1 True by (simp add: printnum.simps [of n base w p])
    then show ?thesis using True 1(2) by (simp add: to_digits.simps [of base n] algebra_simps)
  next
    case False
    then show ?thesis by (simp add: printnum.simps [of n base w p] to_digits.simps [of base n])
  qed
qed

lemma printnum_length: "2 \<le> base \<Longrightarrow> length (printnum n base w p) = max (nat w) (length (to_digits base n))"
  by (simp add: printnum_eq)

lemma hex_digit_char:
  assumes "d < 16"
  shows "digit_of (ucast (hex_digit d)) = Some d" "ucast (hex_digit d) \<noteq> (0 :: u8)"
proof -
  have "list_all (\<lambda>d. digit_of (ucast (hex_digit d)) = Some d \<and> ucast (hex_digit d) \<noteq> (0 :: u8)) [0..<16]"
    by (simp add: hex_digit_def digit_of_def upt_conv_Cons)
  moreover have "d \<in> set [0..<16]" using assms by simp
  ultimately show "digit_of (ucast (hex_digit d)) = Some d" "ucast (hex_digit d) \<noteq> (0 :: u8)"
    unfolding list_all_iff by blast+
qed

section \<open>The buffer\<close>

lemma sprintputch_fold:
  "fold sprintputch out b = b\<lparr>sb_cnt := sb_cnt b + of_nat (length out),
     sb_buf := sb_buf b + length (take (sb_ebuf b - sb_buf b) out),
     sb_mem := overlay (sb_buf b) (map ucast (take (sb_ebuf b - sb_buf b) out)) (sb_mem b)\<rparr>"
proof (induction out arbitrary: b)
  case Nil
  then show ?case by (simp add: overlay_Nil)
next
  case (Cons c out)
  show ?case
  proof (cases "sb_buf b < sb_ebuf b")
    case True
    then have e: "sb_ebuf b - sb_buf b = Suc (sb_ebuf b - Suc (sb_buf b))" by simp
    have c: "sprintputch c b = b\<lparr>sb_cnt := sb_cnt b + 1, sb_mem := (sb_mem b)(sb_buf b := ucast c), sb_buf := Suc (sb_buf b)\<rparr>"
      using True by (simp add: sprintputch_def)
    show ?thesis
      unfolding fold_Cons comp_apply c Cons.IH e by (simp add: overlay_Cons)
  next
    case False
    then have c: "sprintputch c b = b\<lparr>sb_cnt := sb_cnt b + 1\<rparr>" by (simp add: sprintputch_def)
    show ?thesis using False unfolding fold_Cons comp_apply c Cons.IH by (simp add: overlay_Nil)
  qed
qed

lemma overlay_at: "overlay k bs g a = (if k \<le> a \<and> a < k + length bs then bs ! (a - k) else g a)"
  by (simp add: overlay_def)

lemma vsnprintf_spec:
  assumes "vprintfmt fmt args = Some out" "1 \<le> n" "length out < 2 ^ 31"
  shows "vsnprintf (Some p) n fmt args m = Some (int (length out), overlay p (map ucast (take (nat (n - 1)) out) @ [0]) m)"
proof -
  let ?k = "nat (n - 1)"
  have c: "sint (of_nat (length out) :: u32) = int (length out)"
    using assms(3) by (simp add: signed_of_nat signed_take_bit_int_eq_self)
  have "(overlay p (map ucast (take ?k out)) m)(p + length (take ?k out) := 0) = overlay p (map ucast (take ?k out) @ [0]) m"
    by (rule ext) (auto simp: overlay_at nth_append)
  then show ?thesis
    using assms(1,2) c by (simp add: vsnprintf_def sprintputch_fold Let_def)
qed

section \<open>Formats\<close>

text \<open>Text without a percent sign is copied.\<close>

lemma vprintfmt_text: "0x25 \<notin> set cs \<Longrightarrow> vprintfmt (cs @ rest) args = map_option ((@) (map ucast cs)) (vprintfmt rest args)"
proof (induction cs)
  case Nil
  show ?case by (cases "vprintfmt rest args") auto
next
  case (Cons c cs)
  then show ?case by (auto simp: vprintfmt.simps(2) comp_def map_option_case split: option.split)
qed

lemma vprintfmt_Nil [simp]: "vprintfmt [] args = Some []"
  by (simp add: vprintfmt.simps)

abbreviation fmt_d :: "u8 list" where "fmt_d \<equiv> [0x25, 0x64]"

definition put_signed :: "u64 \<Rightarrow> u32 list" where
  "put_signed v = (if sint v < 0 then chr_minus # map hex_digit (to_digits 10 (unat (- v))) else map hex_digit (to_digits 10 (unat v)))"

lemma vprintfmt_d: "vprintfmt (fmt_d @ rest) (ANum v # args) = map_option ((@) (put_signed v)) (vprintfmt rest args)"
proof -
  have "reswitch spec0 (0x64 # rest) (ANum v # args) = Some (spec0, Some 0x64, rest, ANum v # args)"
    by (simp add: reswitch.simps is_dec_def)
  moreover have "convert spec0 0x64 (ANum v # args) = Some (Some (put_signed v, args))"
    by (simp add: convert_def getint_def next_num_def put_signed_def printnum_eq spec0_def)
  ultimately show ?thesis
    by (simp add: vprintfmt.simps(2) [of "0x25"] map_option_case split: option.split)
qed

lemma to_digits_length: "2 \<le> base \<Longrightarrow> n < base ^ k \<Longrightarrow> 0 < k \<Longrightarrow> length (to_digits base n) \<le> k"
proof (induction base n arbitrary: k rule: to_digits.induct)
  case (1 base n)
  show ?case
  proof (cases "n \<ge> base")
    case True
    obtain k' where k: "k = Suc k'" using 1(4) by (cases k) auto
    have "n div base < base ^ k'" using 1(2,3) by (simp add: k less_mult_imp_div_less mult.commute)
    moreover have "0 < k'" using True 1(3) by (cases k') (auto simp: k)
    ultimately have "length (to_digits base (n div base)) \<le> k'" using 1(1,2) True by simp
    then show ?thesis using True 1(2) by (simp add: to_digits.simps [of base n] k)
  next
    case False
    then show ?thesis using 1(4) by (simp add: to_digits.simps [of base n])
  qed
qed

lemma put_signed_length: "length (put_signed v) \<le> 21"
proof -
  have "length (to_digits 10 (unat w)) \<le> 20" for w :: u64
  proof (rule to_digits_length)
    have "unat w < 2 ^ 64" using unsigned_less [of w] by simp
    also have "(2 :: nat) ^ 64 \<le> 10 ^ 20" by simp
    finally show "unat w < 10 ^ 20" .
  qed simp_all
  from this [of v] this [of "- v"] show ?thesis by (auto simp: put_signed_def)
qed

lemma cstr_overlay: "0 \<notin> set bs \<Longrightarrow> cstr (overlay p (bs @ [0]) m) p bs"
  unfolding cstr_bytes bytes_at_nth by (auto simp: overlay_at nth_append)

lemma put_signed_parse:
  assumes "cstr m p (map ucast (put_signed v))"
  shows "strtol m p 10 = Some (v, p + length (put_signed v))"
proof -
  define neg where "neg = (sint v < 0)"
  define ds where "ds = to_digits 10 (if neg then unat (- v) else unat v)"
  let ?cs = "map (\<lambda>d. ucast (hex_digit d)) ds :: u8 list"
  have b: "\<forall>d \<in> set ds. d < 10" by (auto simp: ds_def dest: to_digits_bound [of 10, rotated])
  have "map digit_of ?cs = map Some ds" using b by (auto simp: hex_digit_char)
  moreover have "?cs \<noteq> []" by (simp add: ds_def)
  moreover have "cstr m p ((if neg then [0x2D] else []) @ ?cs)"
    using assms by (cases neg) (simp_all add: put_signed_def neg_def ds_def comp_def)
  ultimately have "strtol m p 10 = Some (if neg then - of_nat (digits_val 10 ds) else of_nat (digits_val 10 ds),
      p + (if neg then 1 else 0) + length ?cs)"
    using b by (intro strtol_dec) auto
  moreover have "digits_val 10 ds = (if neg then unat (- v) else unat v)" by (simp add: ds_def to_digits_val)
  moreover have "length (put_signed v) = (if neg then 1 else 0) + length ds" by (simp add: put_signed_def neg_def ds_def)
  ultimately show ?thesis by simp
qed

lemma put_signed_nonzero: "0 \<notin> set (map ucast (put_signed v) :: u8 list)"
proof -
  have "ucast (hex_digit d) \<noteq> (0 :: u8)" if "d \<in> set (to_digits 10 n)" for d n
    by (rule hex_digit_char(2)) (use to_digits_bound [OF _ that] in simp)
  then show ?thesis by (auto simp: put_signed_def dest!: sym [of 0])
qed

section \<open>Properties\<close>

text \<open>\<open>vsnprintf\<close> stores the formatted text cut to \<open>n - 1\<close> bytes and a terminating zero, touches no
  other byte, and returns the length the full text has.\<close>

theorem vsnprintf_bounded:
  assumes "vprintfmt fmt args = Some out" "1 \<le> n" "length out < 2 ^ 31"
  shows "\<exists>m'. vsnprintf (Some p) n fmt args m = Some (int (length out), m') \<and>
    (\<forall>a. a < p \<or> p + nat n \<le> a \<longrightarrow> m' a = m a) \<and>
    (\<forall>k < min (length out) (nat n - 1). m' (p + k) = ucast (out ! k)) \<and> m' (p + min (length out) (nat n - 1)) = 0"
proof -
  have k: "nat (n - 1) = nat n - 1" using assms(2) by simp
  show ?thesis
    unfolding vsnprintf_spec [OF assms] k using assms(2)
    by (intro exI [of _ "overlay p (map ucast (take (nat n - 1) out) @ [0]) m"] conjI) (auto simp: overlay_at nth_append)
qed

theorem vsnprintf_bounded_witness:
  "\<exists>m'. vsnprintf (Some 100) 3 fmt_d [ANum 12345] (\<lambda>_. 0x41) = Some (5, m') \<and> m' 103 = 0x41 \<and> m' 100 = 0x31 \<and> m' 102 = 0"
proof -
  have "vprintfmt fmt_d [ANum 12345] = Some [0x31, 0x32, 0x33, 0x34, 0x35]"
    using vprintfmt_d [of "[]" 12345 "[]"] by (simp add: put_signed_def to_digits.simps hex_digit_def)
  from vsnprintf_bounded [OF this, of 3 100 "\<lambda>_. 0x41"] obtain m' where
    m: "vsnprintf (Some 100) 3 fmt_d [ANum 12345] (\<lambda>_. 0x41) = Some (5, m')"
    "\<forall>a. a < 100 \<or> 103 \<le> a \<longrightarrow> m' a = 0x41" "\<forall>k < 2. m' (100 + k) = ucast ([0x31, 0x32, 0x33, 0x34, 0x35 :: u32] ! k)" "m' 102 = 0"
    by auto
  from m(3) have "m' 100 = 0x31" by (auto dest: spec [of _ 0])
  with m show ?thesis by auto
qed

text \<open>C40: printing a 64-bit number with \<open>%d\<close> into a large enough buffer and reading it back with
  \<open>strtol\<close> in base ten gives the number and consumes the whole text.\<close>

theorem print_then_parse:
  assumes "22 \<le> n"
  shows "\<exists>r m'. vsnprintf (Some p) n fmt_d [ANum v] m = Some (r, m') \<and> strtol m' p 10 = Some (v, p + nat r)"
proof -
  have o: "vprintfmt fmt_d [ANum v] = Some (put_signed v)" using vprintfmt_d [of "[]" v "[]"] by simp
  have l: "length (put_signed v) \<le> nat (n - 1)" using put_signed_length [of v] assms by simp
  have "length (put_signed v) < 2 ^ 31" using put_signed_length [of v] by simp
  then have s: "vsnprintf (Some p) n fmt_d [ANum v] m =
      Some (int (length (put_signed v)), overlay p (map ucast (put_signed v) @ [0]) m)"
    using vsnprintf_spec [OF o, of n p m] assms l by simp
  show ?thesis
    unfolding s using put_signed_parse [OF cstr_overlay [OF put_signed_nonzero]] by simp
qed

theorem print_then_parse_witness:
  "\<exists>r m'. vsnprintf (Some 100) 22 fmt_d [ANum (- 42)] (\<lambda>_. 0) = Some (r, m') \<and> strtol m' 100 10 = Some (- 42, 100 + nat r)"
  using print_then_parse [of 22 100 "- 42" "\<lambda>_. 0"] by simp

end
