(* ===== verification/Lib_Readline.thy ===== *)
theory Lib_Readline
  imports Lib_Printfmt
begin

text \<open>
  Line input, \<^verbatim>\<open>lib/readline.c\<close>, used by the kernel monitor and the shell.

  The results of the coming calls of \<open>getchar\<close> are a list; \<open>buf\<close> is the static buffer.  The result is
  \<open>None\<close> when the input ends in the middle of a line, otherwise whether a line was read (a null
  pointer is returned after a read error), what was written to the console, the buffer and the
  input that is left.
\<close>

abbreviation BUFLEN :: nat where "BUFLEN \<equiv> 1024"

fun readline_loop :: "bool \<Rightarrow> int list \<Rightarrow> cmem \<Rightarrow> nat \<Rightarrow> (bool \<times> u32 list \<times> cmem \<times> int list) option" where
  "readline_loop echoing [] buf i = None"
| "readline_loop echoing (c # cs) buf i =
     (if c < 0 then
        Some (False, if c \<noteq> - E_EOF then map ucast (bytes_of ''read error: '') @ put_error c @ [10] else [], buf, cs)
      else if (c = 8 \<or> c = 0x7F) \<and> i > 0 then
        map_option (\<lambda>(r, out, x). (r, (if echoing then [8] else []) @ out, x)) (readline_loop echoing cs buf (i - 1))
      else if c \<ge> 0x20 \<and> i < BUFLEN - 1 then
        map_option (\<lambda>(r, out, x). (r, (if echoing then [word_of_int c] else []) @ out, x))
          (readline_loop echoing cs (buf(i := word_of_int c)) (i + 1))
      else if c = 10 \<or> c = 13 then Some (True, if echoing then [10] else [], buf(i := 0), cs)
      else readline_loop echoing cs buf i)"

definition readline :: "u8 list option \<Rightarrow> bool \<Rightarrow> int list \<Rightarrow> cmem \<Rightarrow> (bool \<times> u32 list \<times> cmem \<times> int list) option" where
  "readline prompt echoing input buf =
     map_option (\<lambda>(r, out, x). (r, (case prompt of None \<Rightarrow> [] | Some p \<Rightarrow> putstr p (- 1) (- 1) False chr_blank) @ out, x))
       (readline_loop echoing input buf 0)"

section \<open>Editing\<close>

text \<open>The effect of one key on the line typed so far.\<close>

definition edit_key :: "u8 list \<Rightarrow> int \<Rightarrow> u8 list" where
  "edit_key line c =
     (if (c = 8 \<or> c = 0x7F) \<and> line \<noteq> [] then butlast line
      else if c \<ge> 0x20 \<and> length line < BUFLEN - 1 then line @ [word_of_int c]
      else line)"

definition edit :: "int list \<Rightarrow> u8 list" where
  "edit keys = foldl edit_key [] keys"

lemma bytes_at_butlast: "bytes_at m p xs \<Longrightarrow> bytes_at m p (butlast xs)"
  by (cases xs rule: rev_cases) (auto simp: bytes_at_append)

lemma bytes_at_upd: "bytes_at m p xs \<Longrightarrow> bytes_at (m(p + length xs := b)) p (xs @ [b])"
  using bytes_at_cong [of p xs "m(p + length xs := b)" m] by (simp add: bytes_at_append)

lemma edit_key_nonzero:
  assumes "0 \<notin> set line" "0 \<le> c" "c < 256"
  shows "0 \<notin> set (edit_key line c)"
proof -
  have "(word_of_int c :: u8) \<noteq> 0" if "0x20 \<le> c"
  proof -
    have "uint (word_of_int c :: u8) = c" using assms by (simp add: uint_word_of_int)
    then show ?thesis using that by auto
  qed
  then show ?thesis using assms(1) in_set_butlastD [of 0 line] by (auto simp: edit_key_def)
qed

lemma readline_loop_edit:
  assumes "bytes_at buf 0 line" "length line < BUFLEN" "0 \<notin> set line"
    and "\<forall>c \<in> set keys. 0 \<le> c \<and> c < 256 \<and> c \<noteq> 10 \<and> c \<noteq> 13" "nl = 10 \<or> nl = 13"
  shows "\<exists>out buf'. readline_loop echoing (keys @ nl # rest) buf (length line) = Some (True, out, buf', rest) \<and>
    cstr buf' 0 (foldl edit_key line keys) \<and> length (foldl edit_key line keys) < BUFLEN"
  using assms(1-4)
proof (induction keys arbitrary: buf line)
  case Nil
  have "bytes_at (buf(length line := 0)) 0 line = bytes_at buf 0 line" by (rule bytes_at_cong) simp
  then have "cstr (buf(length line := 0)) 0 line" using Nil by (simp add: cstr_bytes)
  then show ?case using Nil assms(5) by auto
next
  case (Cons c keys)
  let ?line = "edit_key line c"
  have c: "0 \<le> c" "c < 256" "c \<noteq> 10" "c \<noteq> 13" using Cons.prems(4) by auto
  have nz: "0 \<notin> set ?line" by (rule edit_key_nonzero [OF Cons.prems(3) c(1,2)])
  have ks: "\<forall>c \<in> set keys. 0 \<le> c \<and> c < 256 \<and> c \<noteq> 10 \<and> c \<noteq> 13" using Cons.prems(4) by simp
  obtain buf1 e where b: "readline_loop echoing ((c # keys) @ nl # rest) buf (length line) =
      map_option (\<lambda>(r, out, x). (r, e @ out, x)) (readline_loop echoing (keys @ nl # rest) buf1 (length ?line))"
    "bytes_at buf1 0 ?line" "length ?line < BUFLEN"
  proof (cases "(c = 8 \<or> c = 0x7F) \<and> line \<noteq> []")
    case True
    then show ?thesis using that [of "if echoing then [8] else []" buf] Cons.prems c
      by (auto simp: edit_key_def bytes_at_butlast)
  next
    case not_del: False
    show ?thesis
    proof (cases "c \<ge> 0x20 \<and> length line < BUFLEN - 1")
      case True
      then show ?thesis using not_del that [of "if echoing then [word_of_int c] else []" "buf(length line := word_of_int c)"]
          Cons.prems c bytes_at_upd [OF Cons.prems(1)] by (auto simp: edit_key_def)
    next
      case False
      have "map_option (\<lambda>(r, out, x). (r, [] @ out, x)) z = z" for z :: "(bool \<times> u32 list \<times> cmem \<times> int list) option"
        by (cases z) auto
      then show ?thesis using False not_del that [of "[]" buf] Cons.prems c by (auto simp: edit_key_def)
    qed
  qed
  from Cons.IH [OF b(2,3) nz ks] show ?case using b(1) by auto
qed

section \<open>Properties\<close>

text \<open>When a newline arrives, \<open>readline\<close> returns the keys typed, with backspaces applied, as a
  terminated string that fits the buffer, and leaves the later input.\<close>

theorem readline_edits_line:
  assumes "\<forall>c \<in> set keys. 0 \<le> c \<and> c < 256 \<and> c \<noteq> 10 \<and> c \<noteq> 13" "nl = 10 \<or> nl = 13"
  shows "\<exists>out buf'. readline prompt echoing (keys @ nl # rest) buf = Some (True, out, buf', rest) \<and>
    cstr buf' 0 (edit keys) \<and> length (edit keys) < BUFLEN"
  using readline_loop_edit [of buf "[]" keys nl echoing rest] assms by (auto simp: readline_def edit_def)

text \<open>A delete key on an empty line is kept as a character: the first of two deletes after one letter
  removes the letter, the second is stored.\<close>

theorem readline_edits_line_witness:
  "\<exists>out buf'. readline None True [65, 0x7F, 0x7F, 66, 10] (\<lambda>_. 0) = Some (True, out, buf', []) \<and> cstr buf' 0 [0x7F, 66]"
proof -
  have "edit [65, 0x7F, 0x7F, 66] = [0x7F, 66]" by (simp add: edit_def edit_key_def)
  then show ?thesis using readline_edits_line [of "[65, 0x7F, 0x7F, 66]" 10 None True "[]" "\<lambda>_. 0"] by auto
qed

end
