(* ===== verification/Cmd_Line.thy ===== *)
theory Cmd_Line
  imports Lib_String
begin

text \<open>
  Splitting command lines: the tokenizer of the shell (\<open>gettoken\<close>, \<^verbatim>\<open>user/sh.c\<close>) and the argument
  splitter of the kernel monitor (\<open>runcmd\<close>, \<^verbatim>\<open>kern/monitor.c\<close>).

  Both work in place on the line, a C string in memory: they overwrite separators by zeros so that the
  words become strings, and return pointers into the line.  A loop that runs past all bounds is
  \<open>None\<close>.
\<close>

definition is_ws :: "u8 \<Rightarrow> bool" where
  "is_ws c \<longleftrightarrow> c \<in> {0x20, 0x09, 0x0D, 0x0A}"

definition is_sym :: "u8 \<Rightarrow> bool" where
  "is_sym c \<longleftrightarrow> c \<in> {0x3C, 0x7C, 0x3E, 0x26, 0x3B, 0x28, 0x29}"

abbreviation delim :: "u8 \<Rightarrow> bool" where "delim c \<equiv> is_ws c \<or> is_sym c"
abbreviation TOK_WORD :: u8 where "TOK_WORD \<equiv> 0x77"

text \<open>\<open>while (strchr(WHITESPACE, *s)) *s++ = 0\<close> and the scan to the end of a word.\<close>

partial_function (option) blank_out :: "cmem \<Rightarrow> nat \<Rightarrow> (cmem \<times> nat) option" where
  "blank_out m s = (if is_ws (m s) then blank_out (m(s := 0)) (s + 1) else Some (m, s))"

partial_function (option) scan_word :: "(u8 \<Rightarrow> bool) \<Rightarrow> cmem \<Rightarrow> nat \<Rightarrow> nat option" where
  "scan_word stop m s = (if m s \<noteq> 0 \<and> \<not> stop (m s) then scan_word stop m (s + 1) else Some s)"

section \<open>The shell's tokenizer\<close>

text \<open>\<open>_gettoken(s, &p1, &p2)\<close>: the code of the token, \<open>p1\<close>, \<open>p2\<close> and the memory.\<close>

definition gettoken1 :: "nat option \<Rightarrow> nat option \<Rightarrow> nat option \<Rightarrow> cmem \<Rightarrow> (u8 \<times> nat option \<times> nat option \<times> cmem) option" where
  "gettoken1 s p1 p2 m =
     (case s of
        None \<Rightarrow> Some (0, p1, p2, m)
      | Some s0 \<Rightarrow> do {
          (m1, s1) \<leftarrow> blank_out m s0;
          if m1 s1 = 0 then Some (0, None, None, m1)
          else if is_sym (m1 s1) then Some (m1 s1, Some s1, Some (s1 + 1), m1(s1 := 0))
          else do { s2 \<leftarrow> scan_word (\<lambda>c. delim c) m1 s1; Some (TOK_WORD, Some s1, Some s2, m1) } })"

text \<open>The static variables of \<open>gettoken\<close> and the memory.\<close>

record tokst =
  tk_nc :: u8
  tk_np1 :: "nat option"
  tk_np2 :: "nat option"
  tk_mem :: cmem

definition gettoken_start :: "nat \<Rightarrow> tokst \<Rightarrow> tokst option" where
  "gettoken_start s st = do {
     (c, p1, p2, m) \<leftarrow> gettoken1 (Some s) (tk_np1 st) (tk_np2 st) (tk_mem st);
     Some \<lparr>tk_nc = c, tk_np1 = p1, tk_np2 = p2, tk_mem = m\<rparr> }"

definition gettoken :: "tokst \<Rightarrow> (u8 \<times> nat option \<times> tokst) option" where
  "gettoken st = do {
     (c, p1, p2, m) \<leftarrow> gettoken1 (tk_np2 st) (tk_np1 st) (tk_np2 st) (tk_mem st);
     Some (tk_nc st, tk_np1 st, \<lparr>tk_nc = c, tk_np1 = p1, tk_np2 = p2, tk_mem = m\<rparr>) }"

section \<open>The tokens of a line\<close>

lemma dropWhile_shorter: "xs \<noteq> [] \<Longrightarrow> P (hd xs) \<Longrightarrow> length (dropWhile P xs) < length xs"
  by (cases xs) (auto simp: length_dropWhile_le le_imp_less_Suc)

function toks :: "u8 list \<Rightarrow> (u8 \<times> u8 list) list" where
  "toks xs =
     (let ys = dropWhile is_ws xs in
      if ys = [] then []
      else if is_sym (hd ys) then (hd ys, []) # toks (tl ys)
      else (TOK_WORD, takeWhile (\<lambda>c. \<not> delim c) ys) # toks (dropWhile (\<lambda>c. \<not> delim c) ys))"
  by pat_completeness auto
termination
proof (relation "measure length")
  fix xs ys :: "u8 list"
  assume ys: "ys = dropWhile is_ws xs" "ys \<noteq> []" "\<not> is_sym (hd ys)"
  then have "\<not> is_ws (hd ys)" using hd_dropWhile [of is_ws xs] by simp
  then have "length (dropWhile (\<lambda>c. \<not> delim c) ys) < length ys" using ys by (intro dropWhile_shorter) auto
  also have "length ys \<le> length xs" by (simp add: ys(1) length_dropWhile_le)
  finally show "(dropWhile (\<lambda>c. \<not> delim c) ys, xs) \<in> measure length" by simp
next
  fix xs ys :: "u8 list"
  assume ys: "ys = dropWhile is_ws xs" "ys \<noteq> []"
  then have "length (tl ys) < length ys" by simp
  also have "length ys \<le> length xs" by (simp add: ys(1) length_dropWhile_le)
  finally show "(tl ys, xs) \<in> measure length" by simp
qed simp

declare toks.simps [simp del]

text \<open>The calls of \<open>gettoken\<close> return the given tokens and then 0; at the end, in memory \<open>M\<close>, the
  pointers returned for words still point to them, as terminated strings.\<close>

primrec yields :: "(u8 \<times> u8 list) list \<Rightarrow> tokst \<Rightarrow> cmem \<Rightarrow> bool" where
  "yields [] st M \<longleftrightarrow> (\<exists>p st'. gettoken st = Some (0, p, st') \<and> tk_mem st' = M)"
| "yields (t # ts) st M \<longleftrightarrow>
     (\<exists>p st'. gettoken st = Some (fst t, Some p, st') \<and> (fst t = TOK_WORD \<longrightarrow> cstr M p (snd t)) \<and> yields ts st' M)"

section \<open>The loops\<close>

definition zeroed :: "nat \<Rightarrow> nat \<Rightarrow> cmem \<Rightarrow> cmem" where
  "zeroed s n m = (\<lambda>a. if s \<le> a \<and> a < s + n then 0 else m a)"

lemma zeroed_0 [simp]: "zeroed s 0 m = m"
  unfolding zeroed_def by (rule ext) auto

lemma blank_out_cstr:
  "cstr m s xs \<Longrightarrow> blank_out m s = Some (zeroed s (length (takeWhile is_ws xs)) m, s + length (takeWhile is_ws xs))"
proof (induction xs arbitrary: m s)
  case Nil
  then show ?case by (simp add: blank_out.simps is_ws_def)
next
  case (Cons x xs)
  show ?case
  proof (cases "is_ws x")
    case True
    have "cstr (m(s := 0)) (Suc s) xs"
      using Cons.prems cstr_cong [of "Suc s" xs "m(s := 0)" m] by auto
    from Cons.IH [OF this] have "blank_out (m(s := 0)) (Suc s) =
        Some (zeroed (Suc s) (length (takeWhile is_ws xs)) (m(s := 0)), Suc s + length (takeWhile is_ws xs))" .
    moreover have "zeroed (Suc s) n (m(s := 0)) = zeroed s (Suc n) m" for n by (auto simp: zeroed_def fun_eq_iff)
    ultimately show ?thesis using Cons.prems True by (simp add: blank_out.simps [of m s])
  next
    case False
    then show ?thesis using Cons.prems by (simp add: blank_out.simps [of m s])
  qed
qed

lemma scan_word_cstr: "cstr m s xs \<Longrightarrow> scan_word stop m s = Some (s + length (takeWhile (\<lambda>c. \<not> stop c) xs))"
proof (induction xs arbitrary: s)
  case Nil
  then show ?case by (simp add: scan_word.simps)
next
  case (Cons x xs)
  then show ?case by (auto simp: scan_word.simps [of stop m s])
qed

lemma cstr_drop: "cstr m s xs \<Longrightarrow> n \<le> length xs \<Longrightarrow> cstr m (s + n) (drop n xs)"
proof (induction n arbitrary: s xs)
  case (Suc n)
  then obtain x ys where "xs = x # ys" by (cases xs) auto
  with Suc show ?case using Suc.IH [of "Suc s" ys] by simp
qed simp

text \<open>One call on a string at \<open>s\<close>: the token is the first one of the string, only bytes from \<open>s\<close> on
  change, the first byte is zero afterwards if it was a separator, and what remains is a string.\<close>

definition agree_below :: "nat \<Rightarrow> cmem \<Rightarrow> cmem \<Rightarrow> bool" where
  "agree_below q m m' \<longleftrightarrow> (\<forall>a < q. m' a = m a)"

lemma takeWhile_drop_length: "drop (length (takeWhile P xs)) xs = dropWhile P xs"
  by (metis append_eq_conv_conj takeWhile_dropWhile_id)

lemma bytes_at_takeWhile: "cstr m s xs \<Longrightarrow> bytes_at m s (takeWhile P xs)"
  by (induction xs arbitrary: s) auto

lemma cstr_zeroed:
  assumes "cstr m s xs"
  shows "cstr (zeroed s (length (takeWhile P xs)) m) (s + length (takeWhile P xs)) (dropWhile P xs)"
proof -
  have "cstr m (s + length (takeWhile P xs)) (drop (length (takeWhile P xs)) xs)"
    by (rule cstr_drop [OF assms]) (rule length_takeWhile_le)
  then show ?thesis
    unfolding takeWhile_drop_length by (rule iffD1 [OF cstr_cong, rotated]) (simp add: zeroed_def)
qed

lemma gettoken1_end:
  assumes "cstr m s xs" "dropWhile is_ws xs = []"
  shows "\<exists>m'. gettoken1 (Some s) p1 p2 m = Some (0, None, None, m') \<and> agree_below s m m' \<and> m' s = 0"
proof -
  have "cstr (zeroed s (length (takeWhile is_ws xs)) m) (s + length (takeWhile is_ws xs)) []"
    using cstr_zeroed [OF assms(1), of is_ws] assms(2) by simp
  moreover have "zeroed s (length (takeWhile is_ws xs)) m s = 0"
    using assms by (cases xs) (auto simp: zeroed_def split: if_splits)
  ultimately show ?thesis
    using blank_out_cstr [OF assms(1)] by (auto simp: gettoken1_def agree_below_def zeroed_def)
qed

lemma gettoken1_tok:
  assumes "cstr m s xs" "dropWhile is_ws xs = y # ys"
  obtains m' s' q where "gettoken1 (Some s) p1 p2 m = Some (if is_sym y then y else TOK_WORD, Some s', Some q, m')"
    "agree_below s m m'" "s \<le> s'" "s' < q" "delim (hd xs) \<longrightarrow> m' s = 0"
    "cstr m' q (if is_sym y then ys else dropWhile (\<lambda>c. \<not> delim c) (y # ys))"
    "\<not> is_sym y \<longrightarrow> bytes_at m' s' (takeWhile (\<lambda>c. \<not> delim c) (y # ys)) \<and> q = s' + length (takeWhile (\<lambda>c. \<not> delim c) (y # ys))"
proof -
  let ?n = "length (takeWhile is_ws xs)" and ?w = "takeWhile (\<lambda>c. \<not> delim c) (y # ys)"
  let ?m = "zeroed s (length (takeWhile is_ws xs)) m"
  have c: "cstr ?m (s + ?n) (y # ys)" using cstr_zeroed [OF assms(1), of is_ws] assms(2) by simp
  then have y: "?m (s + ?n) = y" "y \<noteq> 0" "cstr ?m (Suc (s + ?n)) ys" by simp_all
  have ny: "\<not> is_ws y" using hd_dropWhile [of is_ws xs] assms(2) by simp
  have b: "blank_out m s = Some (?m, s + ?n)" by (rule blank_out_cstr [OF assms(1)])
  have xs: "xs \<noteq> []" using assms(2) by auto
  show thesis
  proof (cases "is_sym y")
    case True
    have g: "gettoken1 (Some s) p1 p2 m = Some (y, Some (s + ?n), Some (s + ?n + 1), ?m(s + ?n := 0))"
      using True y by (simp add: gettoken1_def b)
    have "cstr (?m(s + ?n := 0)) (Suc (s + ?n)) ys"
      using y(3) by (rule iffD1 [OF cstr_cong, rotated]) simp
    moreover have "(?m(s + ?n := 0)) s = 0" using xs by (cases xs) (auto simp: zeroed_def)
    ultimately show ?thesis using True g
      by (intro that [OF trans [OF g]]) (auto simp: agree_below_def zeroed_def)
  next
    case False
    have "scan_word (\<lambda>c. delim c) ?m (s + ?n) = Some (s + ?n + length ?w)" by (rule scan_word_cstr [OF c])
    then have g: "gettoken1 (Some s) p1 p2 m = Some (TOK_WORD, Some (s + ?n), Some (s + ?n + length ?w), ?m)"
      using False y by (simp add: gettoken1_def b)
    have w: "0 < length ?w" using False ny by simp
    have "bytes_at ?m (s + ?n) ?w"
      by (rule bytes_at_takeWhile [OF c])
    moreover have "cstr ?m (s + ?n + length ?w) (dropWhile (\<lambda>c. \<not> delim c) (y # ys))"
      using cstr_drop [OF c, of "length ?w"] unfolding takeWhile_drop_length by (simp add: length_takeWhile_le)
    moreover have "delim (hd xs) \<longrightarrow> ?m s = 0"
      using xs False assms(2) by (cases xs) (auto simp: zeroed_def split: if_splits)
    ultimately show ?thesis using False w
      by (intro that [OF trans [OF g]]) (auto simp: agree_below_def zeroed_def)
  qed
qed

definition ahead :: "tokst \<Rightarrow> u8 \<times> u8 list \<Rightarrow> u8 list \<Rightarrow> nat \<Rightarrow> nat \<Rightarrow> bool" where
  "ahead st t rest p q \<longleftrightarrow> tk_nc st = fst t \<and> tk_np1 st = Some p \<and> tk_np2 st = Some q \<and> p < q \<and> cstr (tk_mem st) q rest \<and>
     (fst t = TOK_WORD \<longrightarrow> bytes_at (tk_mem st) p (snd t) \<and> q = p + length (snd t) \<and> 0 \<notin> set (snd t) \<and> (rest = [] \<or> delim (hd rest)))"

definition first_tok :: "u8 list \<Rightarrow> u8 \<times> u8 list" where
  "first_tok ys = (if is_sym (hd ys) then (hd ys, []) else (TOK_WORD, takeWhile (\<lambda>c. \<not> delim c) ys))"

definition after_tok :: "u8 list \<Rightarrow> u8 list" where
  "after_tok ys = (if is_sym (hd ys) then tl ys else dropWhile (\<lambda>c. \<not> delim c) ys)"

lemma toks_eq: "toks xs = (let ys = dropWhile is_ws xs in if ys = [] then [] else first_tok ys # toks (after_tok ys))"
  by (subst toks.simps) (simp add: Let_def first_tok_def after_tok_def)

lemma after_tok_shorter:
  assumes "dropWhile is_ws xs = y # ys"
  shows "length (after_tok (y # ys)) < length xs"
proof -
  have "\<not> is_ws y" using hd_dropWhile [of is_ws xs] assms by simp
  then have "length (after_tok (y # ys)) < length (y # ys)"
    using dropWhile_shorter [of "y # ys" "\<lambda>c. \<not> delim c"] by (auto simp: after_tok_def)
  also have "length (y # ys) \<le> length xs" using length_dropWhile_le [of is_ws xs] assms by simp
  finally show ?thesis .
qed

text \<open>Reading one token ahead of a string.\<close>

lemma read_ahead:
  assumes "cstr m s xs" "dropWhile is_ws xs = y # ys"
  obtains m' p q where
    "gettoken1 (Some s) p1 p2 m = Some (fst (first_tok (y # ys)), Some p, Some q, m')"
    "ahead \<lparr>tk_nc = fst (first_tok (y # ys)), tk_np1 = Some p, tk_np2 = Some q, tk_mem = m'\<rparr>
       (first_tok (y # ys)) (after_tok (y # ys)) p q"
    "agree_below s m m'" "s < q" "delim (hd xs) \<longrightarrow> m' s = 0"
proof -
  from gettoken1_tok [OF assms] obtain m' p q where
    g: "gettoken1 (Some s) p1 p2 m = Some (if is_sym y then y else TOK_WORD, Some p, Some q, m')"
    "agree_below s m m'" "s \<le> p" "p < q" "delim (hd xs) \<longrightarrow> m' s = 0"
    "cstr m' q (if is_sym y then ys else dropWhile (\<lambda>c. \<not> delim c) (y # ys))"
    "\<not> is_sym y \<longrightarrow> bytes_at m' p (takeWhile (\<lambda>c. \<not> delim c) (y # ys)) \<and> q = p + length (takeWhile (\<lambda>c. \<not> delim c) (y # ys))" .
  have w: "is_sym y \<Longrightarrow> y \<noteq> TOK_WORD" by (auto simp: is_sym_def)
  have "0 \<notin> set xs" using assms(1) by (simp add: cstr_bytes)
  then have "0 \<notin> set (y # ys)" using assms(2) set_dropWhileD [of _ is_ws xs] by metis
  then have z: "0 \<notin> set (takeWhile (\<lambda>c. \<not> delim c) (y # ys))" by (meson set_takeWhileD)
  have d: "dropWhile (\<lambda>c. \<not> delim c) (y # ys) = [] \<or> delim (hd (dropWhile (\<lambda>c. \<not> delim c) (y # ys)))"
    using hd_dropWhile [of "\<lambda>c. \<not> delim c" "y # ys"] by blast
  show thesis
    by (rule that [of p q m'])
      (use g w z d in \<open>auto simp: ahead_def first_tok_def after_tok_def simp del: takeWhile.simps dropWhile.simps\<close>)
qed

lemma gettoken_end: "tk_np2 st = None \<Longrightarrow> tk_nc st = 0 \<Longrightarrow> yields [] st (tk_mem st)"
  by (simp add: gettoken_def gettoken1_def)

lemma ahead_word:
  assumes "ahead st t rest p q" "agree_below q (tk_mem st) M" "fst t = TOK_WORD \<longrightarrow> M q = 0"
  shows "fst t = TOK_WORD \<longrightarrow> cstr M p (snd t)"
proof
  assume w: "fst t = TOK_WORD"
  have a: "bytes_at (tk_mem st) p (snd t)" "q = p + length (snd t)" "0 \<notin> set (snd t)" using assms(1) w by (simp_all add: ahead_def)
  have "bytes_at M p (snd t) = bytes_at (tk_mem st) p (snd t)"
    by (rule bytes_at_cong) (use assms(2) a(2) in \<open>simp add: agree_below_def\<close>)
  then show "cstr M p (snd t)" using a assms(3) w by (simp add: cstr_bytes)
qed

lemma yields_ahead:
  "ahead st t rest p q \<Longrightarrow> \<exists>M. yields (t # toks rest) st M \<and> agree_below q (tk_mem st) M"
proof (induction "length rest" arbitrary: st t rest p q rule: less_induct)
  case less
  note a = less.prems
  have c: "cstr (tk_mem st) q rest" "tk_np2 st = Some q" "tk_np1 st = Some p" "tk_nc st = fst t"
    using a by (simp_all add: ahead_def)
  have sep: "fst t = TOK_WORD \<longrightarrow> rest = [] \<or> delim (hd rest)" using a by (simp add: ahead_def)
  show ?case
  proof (cases "dropWhile is_ws rest")
    case Nil
    from gettoken1_end [OF c(1) Nil] obtain m' where
      m': "gettoken1 (Some q) (Some p) (Some q) (tk_mem st) = Some (0, None, None, m')" "agree_below q (tk_mem st) m'" "m' q = 0" by blast
    let ?st = "\<lparr>tk_nc = 0, tk_np1 = None, tk_np2 = None, tk_mem = m'\<rparr>"
    have "gettoken st = Some (fst t, Some p, ?st)" using m'(1) c by (simp add: gettoken_def)
    moreover have "yields [] ?st m'" using gettoken_end [of ?st] by simp
    ultimately have "yields [t] st m'" using ahead_word [OF a m'(2)] m'(3) by auto
    then show ?thesis using Nil m'(2) by (auto simp: toks_eq [of rest])
  next
    case (Cons y ys)
    from read_ahead [OF c(1) Cons] obtain m' p' q' where
      g: "gettoken1 (Some q) (Some p) (Some q) (tk_mem st) = Some (fst (first_tok (y # ys)), Some p', Some q', m')"
      "ahead \<lparr>tk_nc = fst (first_tok (y # ys)), tk_np1 = Some p', tk_np2 = Some q', tk_mem = m'\<rparr>
         (first_tok (y # ys)) (after_tok (y # ys)) p' q'"
      "agree_below q (tk_mem st) m'" "q < q'" "delim (hd rest) \<longrightarrow> m' q = 0" .
    let ?st = "\<lparr>tk_nc = fst (first_tok (y # ys)), tk_np1 = Some p', tk_np2 = Some q', tk_mem = m'\<rparr>"
    have n: "gettoken st = Some (fst t, Some p, ?st)" using g(1) c by (simp add: gettoken_def)
    from less.hyps [OF after_tok_shorter [OF Cons] g(2)] obtain M where
      M: "yields (first_tok (y # ys) # toks (after_tok (y # ys))) ?st M" "agree_below q' m' M" by auto
    have ag: "agree_below q (tk_mem st) M" "M q = m' q" using M(2) g(3,4) by (auto simp: agree_below_def)
    have "rest \<noteq> []" using Cons by auto
    then have "fst t = TOK_WORD \<longrightarrow> M q = 0" using ag(2) g(5) sep by auto
    then have "fst t = TOK_WORD \<longrightarrow> cstr M p (snd t)" by (rule ahead_word [OF a ag(1)])
    then have "yields (t # toks rest) st M"
      using n M(1) Cons unfolding toks_eq [of rest] by (auto simp: Let_def)
    then show ?thesis using ag(1) by blast
  qed
qed

section \<open>Properties\<close>

text \<open>After \<open>gettoken(s, 0)\<close> on a line, the calls \<open>gettoken(0, &t)\<close> return the tokens of the line in
  order and then 0.  When the line has been read, every pointer returned for a word still points
  to that word, now a terminated string.\<close>

theorem gettoken_splits_line:
  assumes "cstr (tk_mem st0) s xs"
  shows "\<exists>st M. gettoken_start s st0 = Some st \<and> yields (toks xs) st M"
proof (cases "dropWhile is_ws xs")
  case Nil
  from gettoken1_end [OF assms Nil] obtain m' where
    "gettoken1 (Some s) (tk_np1 st0) (tk_np2 st0) (tk_mem st0) = Some (0, None, None, m')" by blast
  then show ?thesis using Nil gettoken_end [of "\<lparr>tk_nc = 0, tk_np1 = None, tk_np2 = None, tk_mem = m'\<rparr>"]
    by (auto simp: gettoken_start_def toks_eq [of xs])
next
  case (Cons y ys)
  from read_ahead [OF assms Cons, of "tk_np1 st0" "tk_np2 st0"] obtain m' p q where
    g: "gettoken1 (Some s) (tk_np1 st0) (tk_np2 st0) (tk_mem st0) = Some (fst (first_tok (y # ys)), Some p, Some q, m')"
    "ahead \<lparr>tk_nc = fst (first_tok (y # ys)), tk_np1 = Some p, tk_np2 = Some q, tk_mem = m'\<rparr>
       (first_tok (y # ys)) (after_tok (y # ys)) p q" .
  from yields_ahead [OF g(2)] show ?thesis using g(1) Cons
    unfolding toks_eq [of xs] by (auto simp: gettoken_start_def Let_def)
qed

definition sample_line :: tokst where
  "sample_line = \<lparr>tk_nc = 0, tk_np1 = None, tk_np2 = None, tk_mem = (\<lambda>a. if a < 100 \<or> 106 \<le> a then 0 else [99, 97, 32, 62, 120, 32] ! (a - 100))\<rparr>"

theorem gettoken_splits_line_witness:
  "\<exists>st M. gettoken_start 100 sample_line = Some st \<and> yields [(TOK_WORD, [99, 97]), (0x3E, []), (TOK_WORD, [120])] st M"
proof -
  have "cstr (tk_mem sample_line) 100 [99, 97, 32, 62, 120, 32]" by (simp add: sample_line_def)
  moreover have "toks [99, 97, 32, 62, 120, 32] = [(TOK_WORD, [99, 97]), (0x3E, []), (TOK_WORD, [120])]"
    by (simp add: toks.simps is_ws_def is_sym_def)
  ultimately show ?thesis using gettoken_splits_line by metis
qed

section \<open>The kernel monitor\<close>

abbreviation MAXARGS :: nat where "MAXARGS \<equiv> 16"

text \<open>The loop of \<open>runcmd\<close>: the pointers of the arguments, or \<open>None\<close> if there are too many.\<close>

partial_function (option) split_args :: "cmem \<Rightarrow> nat \<Rightarrow> nat list \<Rightarrow> (nat list option \<times> cmem) option" where
  "split_args m buf av =
     Option.bind (blank_out m buf) (\<lambda>x. case x of (m1, b1) \<Rightarrow>
       if m1 b1 = 0 then Some (Some av, m1)
       else if length av = MAXARGS - 1 then Some (None, m1)
       else Option.bind (scan_word is_ws m1 b1) (\<lambda>b2. split_args m1 b2 (av @ [b1])))"

datatype mon_action = MonNothing | MonTooMany | MonUnknown nat | MonRun nat "nat list"

text \<open>\<open>strcmp(argv[0], commands[i].name) == 0\<close> for the names of the command table.\<close>

definition runcmd :: "u8 list list \<Rightarrow> nat \<Rightarrow> cmem \<Rightarrow> (mon_action \<times> cmem) option" where
  "runcmd names buf m = do {
     (res, m1) \<leftarrow> split_args m buf [];
     Some (case res of
         None \<Rightarrow> (MonTooMany, m1)
       | Some [] \<Rightarrow> (MonNothing, m1)
       | Some (a # av) \<Rightarrow>
           (case find (\<lambda>i. cstr m1 a (names ! i)) [0..<length names] of
              Some i \<Rightarrow> (MonRun i (a # av), m1)
            | None \<Rightarrow> (MonUnknown a, m1))) }"

function words :: "u8 list \<Rightarrow> u8 list list" where
  "words xs =
     (let ys = dropWhile is_ws xs in
      if ys = [] then [] else takeWhile (\<lambda>c. \<not> is_ws c) ys # words (dropWhile (\<lambda>c. \<not> is_ws c) ys))"
  by pat_completeness auto
termination
proof (relation "measure length")
  fix xs ys :: "u8 list"
  assume ys: "ys = dropWhile is_ws xs" "ys \<noteq> []"
  then have "\<not> is_ws (hd ys)" using hd_dropWhile [of is_ws xs] by simp
  then have "length (dropWhile (\<lambda>c. \<not> is_ws c) ys) < length ys" using ys by (intro dropWhile_shorter) auto
  also have "length ys \<le> length xs" by (simp add: ys(1) length_dropWhile_le)
  finally show "(dropWhile (\<lambda>c. \<not> is_ws c) ys, xs) \<in> measure length" by simp
qed simp

declare words.simps [simp del]

lemma split_args_end:
  assumes "cstr m s xs" "dropWhile is_ws xs = []"
  shows "\<exists>M. split_args m s av = Some (Some av, M) \<and> agree_below s m M \<and> M s = 0"
proof -
  have "cstr (zeroed s (length (takeWhile is_ws xs)) m) (s + length (takeWhile is_ws xs)) []"
    using cstr_zeroed [OF assms(1), of is_ws] assms(2) by simp
  moreover have "zeroed s (length (takeWhile is_ws xs)) m s = 0"
    using assms by (cases xs) (auto simp: zeroed_def split: if_splits)
  ultimately show ?thesis
    using blank_out_cstr [OF assms(1)] by (auto simp: split_args.simps [of m s] agree_below_def zeroed_def)
qed

text \<open>One more argument.\<close>

lemma split_args_word:
  assumes "cstr m s xs" "dropWhile is_ws xs = y # ys"
  obtains m1 p w rest where "w = takeWhile (\<lambda>c. \<not> is_ws c) (y # ys)" "rest = dropWhile (\<lambda>c. \<not> is_ws c) (y # ys)"
    "split_args m s av = (if length av = MAXARGS - 1 then Some (None, m1) else split_args m1 (p + length w) (av @ [p]))"
    "agree_below s m m1" "s < p + length w" "is_ws (hd xs) \<longrightarrow> m1 s = 0" "cstr m1 (p + length w) rest" "bytes_at m1 p w" "0 \<notin> set w"
    "rest = [] \<or> is_ws (hd rest)"
proof -
  define m1 where "m1 = zeroed s (length (takeWhile is_ws xs)) m"
  define p where "p = s + length (takeWhile is_ws xs)"
  let ?w = "takeWhile (\<lambda>c. \<not> is_ws c) (y # ys)" and ?r = "dropWhile (\<lambda>c. \<not> is_ws c) (y # ys)"
  have c: "cstr m1 p (y # ys)" using cstr_zeroed [OF assms(1), of is_ws] assms(2) by (simp add: m1_def p_def)
  have ny: "\<not> is_ws y" using hd_dropWhile [of is_ws xs] assms(2) by simp
  have b: "blank_out m s = Some (m1, p)" unfolding m1_def p_def by (rule blank_out_cstr [OF assms(1)])
  have sw: "scan_word is_ws m1 p = Some (p + length ?w)" by (rule scan_word_cstr [OF c])
  have r: "cstr m1 (p + length ?w) ?r"
    using cstr_drop [OF c, of "length ?w"] unfolding takeWhile_drop_length by (simp add: length_takeWhile_le)
  have z: "0 \<notin> set ?w" using c unfolding cstr_bytes by (metis set_takeWhileD)
  have h: "?r = [] \<or> is_ws (hd ?r)" using hd_dropWhile [of "\<lambda>c. \<not> is_ws c" "y # ys"] by blast
  have l: "s < p + length ?w" using ny by (simp add: p_def)
  have sp: "split_args m s av = (if length av = MAXARGS - 1 then Some (None, m1) else split_args m1 (p + length ?w) (av @ [p]))"
    using b sw c by (simp add: split_args.simps [of m s])
  have d: "is_ws (hd xs) \<longrightarrow> m1 s = 0" using assms(2) by (cases xs) (auto simp: m1_def zeroed_def)
  have a: "agree_below s m m1" by (simp add: agree_below_def m1_def zeroed_def)
  show thesis by (rule that [OF refl refl sp a l d r bytes_at_takeWhile [OF c] z h])
qed

lemma split_args_words:
  "cstr m s xs \<Longrightarrow> length av + length (words xs) < MAXARGS \<Longrightarrow>
   \<exists>ps M. split_args m s av = Some (Some (av @ ps), M) \<and> list_all2 (cstr M) ps (words xs) \<and> agree_below s m M \<and>
     (xs = [] \<or> is_ws (hd xs) \<longrightarrow> M s = 0)"
proof (induction xs arbitrary: m s av rule: words.induct)
  case (1 xs)
  show ?case
  proof (cases "dropWhile is_ws xs")
    case Nil
    from split_args_end [OF "1.prems"(1) Nil, of av] Nil show ?thesis by (auto simp: words.simps [of xs])
  next
    case (Cons y ys)
    from split_args_word [OF "1.prems"(1) Cons, of av] obtain m1 p w rest where
      w: "w = takeWhile (\<lambda>c. \<not> is_ws c) (y # ys)" "rest = dropWhile (\<lambda>c. \<not> is_ws c) (y # ys)"
      "split_args m s av = (if length av = MAXARGS - 1 then Some (None, m1) else split_args m1 (p + length w) (av @ [p]))"
      "agree_below s m m1" "s < p + length w" "is_ws (hd xs) \<longrightarrow> m1 s = 0" "cstr m1 (p + length w) rest"
      "bytes_at m1 p w" "0 \<notin> set w" "rest = [] \<or> is_ws (hd rest)" .
    have ws: "words xs = w # words rest" using Cons w(1,2) by (subst words.simps) (simp add: Let_def)
    have n: "length av \<noteq> MAXARGS - 1" "length (av @ [p]) + length (words rest) < MAXARGS"
      using "1.prems"(2) by (simp_all add: ws)
    from "1.IH" [OF Cons [symmetric] _ , unfolded w(2) [symmetric], OF _ w(7) n(2)] obtain ps M where
      M: "split_args m1 (p + length w) (av @ [p]) = Some (Some ((av @ [p]) @ ps), M)" "list_all2 (cstr M) ps (words rest)"
      "agree_below (p + length w) m1 M" "rest = [] \<or> is_ws (hd rest) \<longrightarrow> M (p + length w) = 0" by auto
    have "bytes_at M p w = bytes_at m1 p w" by (rule bytes_at_cong) (use M(3) in \<open>simp add: agree_below_def\<close>)
    then have "cstr M p w" using M(4) w(8-10) by (simp add: cstr_bytes)
    moreover have "agree_below s m M" "is_ws (hd xs) \<longrightarrow> M s = 0" using M(3) w(4-6) by (auto simp: agree_below_def)
    moreover have "xs \<noteq> []" using Cons by auto
    ultimately show ?thesis using w(3) n(1) M(1,2) by (intro exI [of _ "p # ps"] exI [of _ M]) (simp add: ws)
  qed
qed

lemma split_args_too_many:
  "cstr m s xs \<Longrightarrow> length av < MAXARGS \<Longrightarrow> MAXARGS \<le> length av + length (words xs) \<Longrightarrow> \<exists>M. split_args m s av = Some (None, M)"
proof (induction xs arbitrary: m s av rule: words.induct)
  case (1 xs)
  show ?case
  proof (cases "dropWhile is_ws xs")
    case Nil
    then show ?thesis using "1.prems" by (simp add: words.simps [of xs])
  next
    case (Cons y ys)
    from split_args_word [OF "1.prems"(1) Cons, of av] obtain m1 p w rest where
      w: "w = takeWhile (\<lambda>c. \<not> is_ws c) (y # ys)" "rest = dropWhile (\<lambda>c. \<not> is_ws c) (y # ys)"
      "split_args m s av = (if length av = MAXARGS - 1 then Some (None, m1) else split_args m1 (p + length w) (av @ [p]))"
      "cstr m1 (p + length w) rest" .
    have ws: "words xs = w # words rest" using Cons w(1,2) by (subst words.simps) (simp add: Let_def)
    show ?thesis
    proof (cases "length av = MAXARGS - 1")
      case False
      from "1.IH" [OF Cons [symmetric] _, unfolded w(2) [symmetric], OF _ w(4), of "av @ [p]"] False "1.prems"(2,3)
      show ?thesis by (simp add: w(3) ws)
    qed (simp add: w(3))
  qed
qed

text \<open>The monitor splits a line at white space.  With at most 15 words it passes the words, as
  terminated strings, to the first command that has the name of the first word, or reports an unknown
  command; with none it does nothing, and with more it refuses the line.\<close>

theorem monitor_runs_command:
  assumes "cstr m buf xs"
  shows "\<exists>M. if MAXARGS \<le> length (words xs) then runcmd names buf m = Some (MonTooMany, M)
    else if words xs = [] then runcmd names buf m = Some (MonNothing, M)
    else (\<exists>av. list_all2 (cstr M) av (words xs) \<and>
      runcmd names buf m = Some (case find (\<lambda>i. names ! i = hd (words xs)) [0..<length names] of
        Some i \<Rightarrow> MonRun i av | None \<Rightarrow> MonUnknown (hd av), M))"
proof (cases "MAXARGS \<le> length (words xs)")
  case True
  with split_args_too_many [OF assms, of "[]"] show ?thesis by (auto simp: runcmd_def)
next
  case False
  with split_args_words [OF assms, of "[]"] obtain ps M where
    M: "split_args m buf [] = Some (Some ps, M)" "list_all2 (cstr M) ps (words xs)" by auto
  show ?thesis
  proof (cases ps)
    case Nil
    then show ?thesis using M False by (auto simp: runcmd_def)
  next
    case (Cons a av)
    then obtain w ws where w: "words xs = w # ws" "cstr M a w" using M(2) by (cases "words xs") auto
    have "cstr M a n \<longleftrightarrow> n = w" for n using w(2) cstr_unique [of M a n w] by auto
    then have "runcmd names buf m = Some (case find (\<lambda>i. names ! i = w) [0..<length names] of
        Some i \<Rightarrow> MonRun i ps | None \<Rightarrow> MonUnknown (hd ps), M)"
      using M(1) Cons by (simp add: runcmd_def split: option.split)
    with M(2) w(1) False show ?thesis by (intro exI [of _ M]) auto
  qed
qed

theorem monitor_runs_command_witness:
  "\<exists>M av. list_all2 (cstr M) av [[99, 97], [62, 120]] \<and> runcmd [[104], [99, 97]] 100 (tk_mem sample_line) = Some (MonRun 1 av, M)"
proof -
  have "cstr (tk_mem sample_line) 100 [99, 97, 32, 62, 120, 32]" by (simp add: sample_line_def)
  moreover have "words [99, 97, 32, 62, 120, 32] = [[99, 97], [62, 120]]" by (simp add: words.simps is_ws_def)
  moreover have "find (\<lambda>i. [[104], [99, 97 :: u8]] ! i = [99, 97]) [0..<length [[104], [99, 97 :: u8]]] = Some 1"
    by simp
  ultimately obtain M av where "list_all2 (cstr M) av [[99, 97], [62, 120]]"
    "runcmd [[104], [99, 97]] 100 (tk_mem sample_line) = Some (MonRun 1 av, M)"
    using monitor_runs_command [of "tk_mem sample_line" 100 "[99, 97, 32, 62, 120, 32]" "[[104], [99, 97]]"] by auto
  then show ?thesis by blast
qed

end
