(* ===== verification/Lib_Malloc.thy ===== *)
theory Lib_Malloc
  imports User_Mem
begin

text \<open>
  The heap of the user library, \<^verbatim>\<open>lib/malloc.c\<close>.

  The state is the memory of the environment extended by the static pointer \<open>mptr\<close>, 0 before the first
  call.  Addresses are naturals: the heap lies below \<open>2 ^ 28\<close>, so that address arithmetic does not wrap;
  the size of a request is a 64-bit word and its rounding does.  \<open>None\<close> is a page fault, a failed assertion
  or a search that does not end.
\<close>

record heap = umem +
  mptr :: nat

abbreviation MBEGIN :: nat where "MBEGIN \<equiv> 0x08000000"
abbreviation MEND :: nat where "MEND \<equiv> 0x10000000"
abbreviation MAXMALLOC :: nat where "MAXMALLOC \<equiv> 0x100000"
abbreviation PTE_CONTINUED :: u32 where "PTE_CONTINUED \<equiv> 0x400"

function isfree_loop :: "nat \<Rightarrow> nat \<Rightarrow> heap \<Rightarrow> bool" where
  "isfree_loop va end_va s =
     (if va < end_va then
        if va \<ge> MEND \<or> mapped_at va s then False else isfree_loop (va + PGSIZE) end_va s
      else True)"
  by pat_completeness auto
termination
  by (relation "measure (\<lambda>(va, end_va, _). end_va - va)") auto

declare isfree_loop.simps [simp del]

definition isfree :: "nat \<Rightarrow> nat \<Rightarrow> heap \<Rightarrow> bool" where
  "isfree v n s = isfree_loop v (v + n) s"

section \<open>Freeing\<close>

function free_loop :: "nat \<Rightarrow> heap \<Rightarrow> (nat \<times> heap) option" where
  "free_loop c s =
     (if perm_at c s AND PTE_CONTINUED \<noteq> 0 then
        let s1 = u_page_unmap c s; c1 = c + PGSIZE
        in if MBEGIN \<le> c1 \<and> c1 < MEND then free_loop c1 s1 else None
      else Some (c, s))"
  by pat_completeness auto
termination
  by (relation "measure (\<lambda>(c, _). MEND - c)") auto

declare free_loop.simps [simp del]

definition free :: "nat \<Rightarrow> heap \<Rightarrow> heap option" where
  "free v s =
     (if v = 0 then Some s
      else if \<not> (MBEGIN \<le> v \<and> v < MEND) then None
      else do {
        (c, s1) \<leftarrow> free_loop (ROUNDDOWN v PGSIZE) s;
        r \<leftarrow> uld32 (c + (PGSIZE - 4)) s1;
        s2 \<leftarrow> ust32 (c + (PGSIZE - 4)) (r - 1) s1;
        Some (if r - 1 = 0 then u_page_unmap c s2 else s2) })"

section \<open>Allocating\<close>

text \<open>The search for address space: the place found, if any, and the new value of \<open>mptr\<close>.\<close>

partial_function (option) find_space :: "nat \<Rightarrow> nat \<Rightarrow> nat \<Rightarrow> heap \<Rightarrow> (nat option \<times> nat) option" where
  "find_space n nwrap mp s =
     (if isfree mp (n + 4) s then Some (Some mp, mp)
      else if mp + PGSIZE = MEND then
        if nwrap + 1 = 2 then Some (None, MBEGIN) else find_space n (nwrap + 1) MBEGIN s
      else find_space n nwrap (mp + PGSIZE) s)"

text \<open>\<open>for (; i >= 0; i -= PGSIZE) sys_page_unmap(0, mptr + i)\<close> from \<open>i = k * PGSIZE\<close>.\<close>

primrec unmap_pages :: "nat \<Rightarrow> nat \<Rightarrow> heap \<Rightarrow> heap" where
  "unmap_pages mp 0 s = u_page_unmap mp s"
| "unmap_pages mp (Suc k) s = unmap_pages mp k (u_page_unmap (mp + Suc k * PGSIZE) s)"

function malloc_pages :: "nat \<Rightarrow> nat \<Rightarrow> nat \<Rightarrow> heap \<Rightarrow> nat option \<times> heap" where
  "malloc_pages mp n i s =
     (if i < n + 4 then
        let cont = (if i + PGSIZE < n + 4 then PTE_CONTINUED else 0);
            (r, s1) = u_page_alloc (mp + i) (UPTE_P OR UPTE_U OR UPTE_W OR cont) s
        in if r < 0 then (None, unmap_pages mp (i div PGSIZE) s1) else malloc_pages mp n (i + PGSIZE) s1
      else (Some i, s))"
  by pat_completeness auto
termination
  by (relation "measure (\<lambda>(_, n, i, _). n + 4 - i)") auto

declare malloc_pages.simps [simp del]

definition malloc_new :: "nat \<Rightarrow> heap \<Rightarrow> (nat \<times> heap) option" where
  "malloc_new n s = do {
     (found, mp) \<leftarrow> find_space n 0 (mptr s) s;
     let s1 = s\<lparr>mptr := mp\<rparr>;
     case found of
       None \<Rightarrow> Some (0, s1)
     | Some v \<Rightarrow>
         (case malloc_pages v n 0 s1 of
            (None, s2) \<Rightarrow> Some (0, s2)
          | (Some i, s2) \<Rightarrow> do {
              s3 \<leftarrow> ust32 (v + i - 4) 2 s2;
              Some (v, s3\<lparr>mptr := v + n\<rparr>) }) }"

definition malloc :: "u64 \<Rightarrow> heap \<Rightarrow> (nat \<times> heap) option" where
  "malloc sz s =
     (let s0 = (if mptr s = 0 then s\<lparr>mptr := MBEGIN\<rparr> else s);
          n = unat (ROUNDUP64 sz 4); mp = mptr s0 in
      if n \<ge> MAXMALLOC then Some (0, s0)
      else if mp mod PGSIZE \<noteq> 0 then
        let ref = ROUNDUP mp PGSIZE - 4 in
        if mp div PGSIZE = (mp + n + 3) div PGSIZE then do {
          r \<leftarrow> uld32 ref s0;
          s1 \<leftarrow> ust32 ref (r + 1) s0;
          Some (mp, s1\<lparr>mptr := mp + n\<rparr>) }
        else do {
          s1 \<leftarrow> free mp s0;
          malloc_new n (s1\<lparr>mptr := ROUNDDOWN (mp + PGSIZE) PGSIZE\<rparr>) }
      else malloc_new n s0)"

section \<open>Pages of the heap\<close>

definition hpage :: "nat \<Rightarrow> bool" where
  "hpage k \<longleftrightarrow> MBEGIN div PGSIZE \<le> k \<and> k < MEND div PGSIZE"

definition page_bytes :: "'a umem_scheme \<Rightarrow> nat \<Rightarrow> cmem option" where
  "page_bytes s k = map_option (\<lambda>p. uframe s (pg_frame p)) (upt s k)"

text \<open>A heap page of a larger block that goes on in the next page, and one that ends with a count.\<close>

definition contp :: "'a umem_scheme \<Rightarrow> nat \<Rightarrow> bool" where
  "contp s k \<longleftrightarrow> (\<exists>p. upt s k = Some p \<and> pg_perm p AND PTE_CONTINUED \<noteq> 0)"

definition endp :: "'a umem_scheme \<Rightarrow> nat \<Rightarrow> bool" where
  "endp s k \<longleftrightarrow> (\<exists>p. upt s k = Some p \<and> pg_perm p AND PTE_CONTINUED = 0)"

definition refc :: "'a umem_scheme \<Rightarrow> nat \<Rightarrow> nat" where
  "refc s k = (case page_bytes s k of None \<Rightarrow> 0 | Some m \<Rightarrow> unat (rd32 m (PGSIZE - 4)))"

text \<open>The frames of the heap are writable and mapped nowhere else.\<close>

definition heap_base :: "'a umem_scheme \<Rightarrow> bool" where
  "heap_base s \<longleftrightarrow> umem_inv s \<and>
     (\<forall>j k p q. hpage j \<longrightarrow> upt s j = Some p \<longrightarrow> upt s k = Some q \<longrightarrow> pg_frame p = pg_frame q \<longrightarrow> j = k) \<and>
     (\<forall>k p. hpage k \<longrightarrow> upt s k = Some p \<longrightarrow> pg_perm p AND UPTE_W \<noteq> 0)"

lemma mult_page: "vpn (k * PGSIZE) = k" "vpn (k * PGSIZE + (PGSIZE - 4)) = k" "(k * PGSIZE + (PGSIZE - 4)) mod PGSIZE = PGSIZE - 4"
  by (simp_all add: vpn_def) (simp add: mod_mult_self3)?

lemma set_ref:
  assumes "heap_base s" "hpage k" "upt s k = Some p"
  shows "\<exists>s'. ust32 (k * PGSIZE + (PGSIZE - 4)) w s = Some s' \<and> s' = s\<lparr>uframe := uframe s'\<rparr> \<and> heap_base s' \<and>
    page_bytes s' = (page_bytes s)(k \<mapsto> wr32 (uframe s (pg_frame p)) (PGSIZE - 4) w)"
proof -
  let ?m = "(uframe s)(pg_frame p := wr32 (uframe s (pg_frame p)) (PGSIZE - 4) w)"
  have w: "pg_perm p AND UPTE_W \<noteq> 0" using assms by (auto simp: heap_base_def)
  have eq: "ust32 (k * PGSIZE + (PGSIZE - 4)) w s = Some (s\<lparr>uframe := ?m\<rparr>)"
    using assms(3) w unfolding ust32_def mult_page by simp
  have "page_bytes (s\<lparr>uframe := ?m\<rparr>) j = ((page_bytes s)(k \<mapsto> wr32 (uframe s (pg_frame p)) (PGSIZE - 4) w)) j" for j
  proof (cases "j = k")
    case False
    then have "pg_frame q \<noteq> pg_frame p" if "upt s j = Some q" for q
      using assms that unfolding heap_base_def by metis
    with False show ?thesis by (cases "upt s j") (auto simp: page_bytes_def)
  qed (simp add: page_bytes_def assms(3))
  moreover have "heap_base (s\<lparr>uframe := ?m\<rparr>)" using assms(1) by (simp add: heap_base_def)
  ultimately show ?thesis using eq by auto
qed

lemma get_ref:
  "upt s k = Some p \<Longrightarrow> uld32 (k * PGSIZE + (PGSIZE - 4)) s = Some (rd32 (uframe s (pg_frame p)) (PGSIZE - 4))"
  unfolding uld32_def mult_page by simp

lemma unmap_base:
  assumes "heap_base s"
  shows "heap_base (unmap_vpn k s)" "page_bytes (unmap_vpn k s) = (page_bytes s)(k := None)"
  using assms umem_inv_unmap [of s k] unfolding heap_base_def
  by (auto simp: unmap_vpn_frame page_bytes_def fun_eq_iff split: if_splits)

lemma unmap_mptr [simp]: "mptr (unmap_vpn k s) = mptr s"
  by (simp add: unmap_vpn_def Let_def split: option.split)

lemma map_mptr [simp]: "mptr (map_vpn k f perm s) = mptr s"
  by (simp add: map_vpn_def Let_def)

lemma alloc_base:
  assumes "heap_base s" "upt s (vpn va) = None" "pg_perm0 AND UPTE_W \<noteq> 0"
  shows "(case u_page_alloc va pg_perm0 s of (r, s1) \<Rightarrow> mptr s1 = mptr s \<and> heap_base s1 \<and> uframe s1 = uframe s \<and>
    (if r < 0 then upt s1 = upt s else \<exists>f. upt s1 = (upt s)(vpn va \<mapsto> \<lparr>pg_frame = f, pg_perm = pg_perm0\<rparr>)))"
proof -
  obtain r k where k: "kret s = (r, s\<lparr>krets := k\<rparr>)" by (rule kret_cases)
  have i: "umem_inv (snd (u_page_alloc va pg_perm0 s))" using assms(1) by (intro umem_inv_alloc) (simp add: heap_base_def)
  show ?thesis
  proof (cases "r < 0 \<or> ufree s = []")
    case True
    then show ?thesis using k assms(1) by (auto simp: u_page_alloc_def heap_base_def)
  next
    case False
    then obtain f fs where f: "ufree s = f # fs" "\<not> r < 0" by (cases "ufree s") auto
    have nf: "pg_frame q \<noteq> f" if "upt s j = Some q" for j q
      using umem_inv_mapped [of s j q] assms(1) that f(1) by (auto simp: heap_base_def)
    have eq: "u_page_alloc va pg_perm0 s = (0, map_vpn (vpn va) f pg_perm0 (s\<lparr>krets := k, ufree := fs\<rparr>))"
      using f k by (simp add: u_page_alloc_def)
    have "heap_base (map_vpn (vpn va) f pg_perm0 (s\<lparr>krets := k, ufree := fs\<rparr>))"
      using i assms nf unfolding heap_base_def eq by (auto simp: map_vpn_frame split: if_splits) (metis+)?
    then show ?thesis unfolding eq by (auto simp: map_vpn_frame)
  qed
qed

section \<open>Dropping a reference\<close>

lemma free_loop_spec:
  assumes "heap_base s" "\<forall>k. j \<le> k \<longrightarrow> k < e \<longrightarrow> contp s k" "endp s e" "j \<le> e" "hpage j" "hpage e"
  shows "\<exists>s'. free_loop (j * PGSIZE) s = Some (e * PGSIZE, s') \<and> heap_base s' \<and> mptr s' = mptr s \<and> uframe s' = uframe s \<and>
    upt s' = (\<lambda>k. if j \<le> k \<and> k < e then None else upt s k)"
  using assms
proof (induction "e - j" arbitrary: j s)
  case 0
  then have "perm_at (j * PGSIZE) s AND PTE_CONTINUED = 0"
    by (auto simp: perm_at_def mult_page endp_def)
  then show ?case using 0 by (subst free_loop.simps) (auto simp: fun_eq_iff)
next
  case (Suc d)
  have lt: "j < e" using Suc.hyps(2) by simp
  then obtain p where p: "upt s j = Some p" "pg_perm p AND PTE_CONTINUED \<noteq> 0" using Suc.prems(2) by (auto simp: contp_def)
  have c: "perm_at (j * PGSIZE) s AND PTE_CONTINUED \<noteq> 0" using p by (simp add: perm_at_def mult_page)
  let ?s1 = "unmap_vpn j s"
  have b: "MBEGIN \<le> j * PGSIZE + PGSIZE" "j * PGSIZE + PGSIZE < MEND"
    using Suc.prems(5,6) lt by (simp_all add: hpage_def)
  have "\<exists>s'. free_loop (Suc j * PGSIZE) ?s1 = Some (e * PGSIZE, s') \<and> heap_base s' \<and> mptr s' = mptr ?s1 \<and> uframe s' = uframe ?s1 \<and>
      upt s' = (\<lambda>k. if Suc j \<le> k \<and> k < e then None else upt ?s1 k)"
  proof (rule Suc.hyps(1))
    show "d = e - Suc j" using Suc.hyps(2) by simp
    show "heap_base ?s1" by (rule unmap_base(1) [OF Suc.prems(1)])
    show "\<forall>k. Suc j \<le> k \<longrightarrow> k < e \<longrightarrow> contp ?s1 k" using Suc.prems(2) by (simp add: contp_def unmap_vpn_frame)
    show "endp ?s1 e" using Suc.prems(3) lt by (simp add: endp_def unmap_vpn_frame)
    show "hpage (Suc j)" using Suc.prems(5,6) lt by (simp add: hpage_def)
  qed (use lt Suc.prems in simp_all)
  then obtain s' where s': "free_loop (Suc j * PGSIZE) ?s1 = Some (e * PGSIZE, s')" "heap_base s'" "mptr s' = mptr s"
    "uframe s' = uframe s" "upt s' = (\<lambda>k. if Suc j \<le> k \<and> k < e then None else upt ?s1 k)"
    by (auto simp: unmap_vpn_frame)
  have "free_loop (j * PGSIZE) s = free_loop (Suc j * PGSIZE) ?s1"
    using c b by (subst free_loop.simps) (simp add: Let_def u_page_unmap_def mult_page add.commute)
  then show ?case using s' lt by (auto simp: unmap_vpn_frame fun_eq_iff)
qed

definition heap_released :: "heap \<Rightarrow> heap \<Rightarrow> nat \<Rightarrow> nat \<Rightarrow> bool" where
  "heap_released s s' j e \<longleftrightarrow> heap_base s' \<and> mptr s' = mptr s \<and>
     (\<forall>k. k < j \<or> e < k \<longrightarrow> upt s' k = upt s k \<and> page_bytes s' k = page_bytes s k) \<and>
     (\<forall>k. j \<le> k \<and> k < e \<longrightarrow> upt s' k = None) \<and> (refc s e = 1 \<longrightarrow> upt s' e = None) \<and>
     (1 < refc s e \<longrightarrow> upt s' e = upt s e \<and>
       (\<exists>m. page_bytes s e = Some m \<and> page_bytes s' e = Some (wr32 m (PGSIZE - 4) (of_nat (refc s e - 1)))))"

text \<open>\<open>free\<close> of an address in page \<open>j\<close>, where the pages before \<open>e\<close> go on and \<open>e\<close> has the count.\<close>

lemma release:
  assumes s: "heap_base s" "\<forall>k. j \<le> k \<longrightarrow> k < e \<longrightarrow> contp s k" "endp s e" "j \<le> e" "hpage j" "hpage e"
    and v: "vpn v = j" and r: "0 < refc s e"
  shows "\<exists>s'. free v s = Some s' \<and> heap_released s s' j e"
proof -
  from free_loop_spec [OF s] obtain s1 where s1: "free_loop (j * PGSIZE) s = Some (e * PGSIZE, s1)" "heap_base s1" "mptr s1 = mptr s"
    "uframe s1 = uframe s" "upt s1 = (\<lambda>k. if j \<le> k \<and> k < e then None else upt s k)" by blast
  obtain p where p: "upt s e = Some p" using s(3) by (auto simp: endp_def)
  have p1: "upt s1 e = Some p" using p s1(5) by simp
  define r0 where "r0 = rd32 (uframe s (pg_frame p)) (PGSIZE - 4)"
  have rc: "refc s e = unat r0" by (simp add: refc_def page_bytes_def p r0_def)
  from set_ref [OF s1(2) s(6) p1, of "r0 - 1"] obtain s2 where s2: "ust32 (e * PGSIZE + (PGSIZE - 4)) (r0 - 1) s1 = Some s2"
    "s2 = s1\<lparr>uframe := uframe s2\<rparr>" "heap_base s2"
    "page_bytes s2 = (page_bytes s1)(e \<mapsto> wr32 (uframe s1 (pg_frame p)) (PGSIZE - 4) (r0 - 1))" by blast
  have u2: "upt s2 = upt s1" "mptr s2 = mptr s1" by (subst s2(2), simp)+
  have v0: "v \<noteq> 0" "MBEGIN \<le> v" "v < MEND" using v s(5) by (auto simp: hpage_def vpn_def)
  have rd: "ROUNDDOWN v PGSIZE = j * PGSIZE" using v by (simp add: ROUNDDOWN_eq_div vpn_def)
  have ld: "uld32 (e * PGSIZE + (PGSIZE - 4)) s1 = Some r0" using get_ref [OF p1] s1(4) by (simp add: r0_def)
  define s' where "s' = (if r0 - 1 = 0 then u_page_unmap (e * PGSIZE) s2 else s2)"
  have fr: "free v s = Some s'"
    unfolding free_def s'_def using v0 rd s1(1) ld s2(1) by (simp del: mult_Suc)
  have one: "r0 - 1 = 0 \<longleftrightarrow> refc s e = 1" unfolding rc using word_unat_eq_iff [of r0 1] by auto
  have um: "u_page_unmap (e * PGSIZE) s2 = unmap_vpn e s2" by (simp add: u_page_unmap_def mult_page)
  have hb: "heap_base s'" using s2(3) unmap_base(1) [OF s2(3)] by (simp add: s'_def um)
  have upt': "upt s' k = (if k = e \<and> refc s e = 1 then None else upt s1 k)" for k
    using u2 one by (simp add: s'_def um unmap_vpn_frame)
  have pb1: "page_bytes s1 k = (if j \<le> k \<and> k < e then None else page_bytes s k)" for k
    by (simp add: page_bytes_def s1)
  have pb': "page_bytes s' k = (if k = e \<and> refc s e = 1 then None else page_bytes s2 k)" for k
    using one unmap_base(2) [OF s2(3)] by (simp add: s'_def um)
  have "upt s' e = upt s e \<and>
     (\<exists>m. page_bytes s e = Some m \<and> page_bytes s' e = Some (wr32 m (PGSIZE - 4) (of_nat (refc s e - 1))))" if "1 < refc s e"
  proof -
    have "of_nat (refc s e - 1) = r0 - 1" using that unfolding rc by (simp add: of_nat_diff)
    moreover have "page_bytes s e = Some (uframe s (pg_frame p))" by (simp add: page_bytes_def p)
    ultimately show ?thesis using that s1(4) by (simp add: upt' pb' s1(5) s2(4))
  qed
  moreover have "upt s' k = upt s k \<and> page_bytes s' k = page_bytes s k" if "k < j \<or> e < k" for k
    using that s(4) by (auto simp: upt' pb' s1(5) s2(4) pb1)
  moreover have "mptr s' = mptr s" using u2 s1(3) by (simp add: s'_def um)
  ultimately have "heap_released s s' j e" unfolding heap_released_def using hb by (simp add: upt' s1(5))
  with fr show ?thesis by blast
qed

section \<open>The invariant of the heap\<close>

text \<open>Blocks are pairs of an address and a size.  The block lies below the count in its last page.\<close>

definition last_pg :: "nat \<times> nat \<Rightarrow> nat" where
  "last_pg b = (fst b + snd b + 3) div PGSIZE"

definition block_ok :: "'a umem_scheme \<Rightarrow> nat \<times> nat \<Rightarrow> bool" where
  "block_ok s b \<longleftrightarrow> MBEGIN \<le> fst b \<and> last_pg b < MEND div PGSIZE \<and>
     (\<forall>k. vpn (fst b) \<le> k \<longrightarrow> k < last_pg b \<longrightarrow> contp s k) \<and> endp s (last_pg b) \<and>
     (vpn (fst b) < last_pg b \<longrightarrow> fst b mod PGSIZE = 0)"

definition apart :: "nat \<times> nat \<Rightarrow> nat \<times> nat \<Rightarrow> bool" where
  "apart b c \<longleftrightarrow> fst b + snd b \<le> fst c \<or> fst c + snd c \<le> fst b"

definition cnt :: "(nat \<times> nat) list \<Rightarrow> nat \<Rightarrow> nat" where
  "cnt L k = length (filter (\<lambda>b. last_pg b = k) L)"

definition is_open :: "heap \<Rightarrow> nat \<Rightarrow> bool" where
  "is_open s k \<longleftrightarrow> mptr s mod PGSIZE \<noteq> 0 \<and> vpn (mptr s) = k"

text \<open>The count of a page is the number of live blocks that end in it, and one more while the page is
  open for further blocks; a page that was left exactly at its end keeps the extra one for ever.\<close>

definition heap_inv :: "heap \<Rightarrow> (nat \<times> nat) list \<Rightarrow> bool" where
  "heap_inv s L \<longleftrightarrow> heap_base s \<and> (\<forall>b \<in> set L. block_ok s b) \<and> sorted_wrt apart L \<and>
     (\<forall>k. hpage k \<longrightarrow> endp s k \<longrightarrow> cnt L k + of_bool (is_open s k) \<le> refc s k \<and> refc s k \<le> cnt L k + 1) \<and>
     (mptr s = 0 \<or> MBEGIN \<le> mptr s \<and> mptr s \<le> MEND) \<and> mptr s mod 4 = 0 \<and>
     (mptr s mod PGSIZE \<noteq> 0 \<longrightarrow> endp s (vpn (mptr s)) \<and> (\<forall>b \<in> set L. last_pg b = vpn (mptr s) \<longrightarrow> fst b + snd b \<le> mptr s))"

text \<open>The bytes of a block.\<close>

definition block_bytes :: "'a umem_scheme \<Rightarrow> nat \<times> nat \<Rightarrow> u8 option list" where
  "block_bytes s b = map (\<lambda>i. uld8 (fst b + i) s) [0..<snd b]"

definition keeps :: "'a umem_scheme \<Rightarrow> 'a umem_scheme \<Rightarrow> nat \<times> nat \<Rightarrow> bool" where
  "keeps s s' b \<longleftrightarrow> (\<forall>k. vpn (fst b) \<le> k \<longrightarrow> k \<le> last_pg b \<longrightarrow> upt s' k = upt s k \<and>
     (page_bytes s' k = page_bytes s k \<or>
      k = last_pg b \<and> (\<exists>m w. page_bytes s k = Some m \<and> page_bytes s' k = Some (wr32 m (PGSIZE - 4) w))))"

lemma page_bounds: "vpn a * PGSIZE \<le> a" "a < vpn a * PGSIZE + PGSIZE" "a = vpn a * PGSIZE + a mod PGSIZE"
  unfolding vpn_def using div_mult_mod_eq [of a PGSIZE] mod_less_divisor [of PGSIZE a] by linarith+

lemma last_bounds: "last_pg b * PGSIZE \<le> fst b + snd b + 3" "fst b + snd b + 3 < last_pg b * PGSIZE + PGSIZE"
  using page_bounds [of "fst b + snd b + 3"] by (simp_all add: last_pg_def vpn_def)

lemma uld8_page: "uld8 va s = map_option (\<lambda>m. m (va mod PGSIZE)) (page_bytes s (vpn va))"
  by (simp add: uld8_def page_bytes_def split: option.split)

lemma vpn_le_last: "vpn (fst b) \<le> last_pg b" "i < snd b \<Longrightarrow> vpn (fst b + i) \<le> last_pg b \<and> vpn (fst b) \<le> vpn (fst b + i)"
  unfolding vpn_def last_pg_def by (intro div_le_mono conjI; simp)+

lemma keeps_bytes:
  assumes "keeps s s' b"
  shows "block_bytes s' b = block_bytes s b"
proof -
  have "uld8 (fst b + i) s' = uld8 (fst b + i) s" if i: "i < snd b" for i
  proof -
    let ?a = "fst b + i"
    have r: "vpn ?a \<le> last_pg b" "vpn (fst b) \<le> vpn ?a" using vpn_le_last(2) [OF i] by simp_all
    have "?a mod PGSIZE < PGSIZE - 4" if "vpn ?a = last_pg b"
      using that i last_bounds(2) [of b] page_bounds(3) [of ?a] by simp
    moreover have "page_bytes s' (vpn ?a) = page_bytes s (vpn ?a) \<or>
        vpn ?a = last_pg b \<and> (\<exists>m w. page_bytes s (vpn ?a) = Some m \<and> page_bytes s' (vpn ?a) = Some (wr32 m (PGSIZE - 4) w))"
      using assms r by (simp add: keeps_def)
    ultimately show ?thesis by (auto simp: uld8_page wr32_other)
  qed
  then show ?thesis by (simp add: block_bytes_def)
qed

lemma keeps_ok: "keeps s s' b \<Longrightarrow> block_ok s b \<Longrightarrow> block_ok s' b"
  unfolding block_ok_def keeps_def contp_def endp_def using vpn_le_last(1) [of b] by fastforce

lemma contp_not_endp: "contp s k \<Longrightarrow> \<not> endp s k"
  by (auto simp: contp_def endp_def)

text \<open>No other block touches a page in the middle of a block.\<close>

lemma middle_alone:
  assumes "block_ok s b" "block_ok s c" "apart b c" "vpn (fst b) \<le> k" "k < last_pg b"
  shows "\<not> (vpn (fst c) \<le> k \<and> k \<le> last_pg c)"
proof
  assume k: "vpn (fst c) \<le> k \<and> k \<le> last_pg c"
  have "contp s k" using assms by (simp add: block_ok_def)
  moreover have "endp s (last_pg c)" using assms(2) by (simp add: block_ok_def)
  ultimately have lt: "k < last_pg c" using k contp_not_endp by (cases "k = last_pg c") auto
  have v: "fst b mod PGSIZE = 0" "fst c mod PGSIZE = 0" using assms k lt by (simp_all add: block_ok_def)
  have "fst b = vpn (fst b) * PGSIZE" "fst c = vpn (fst c) * PGSIZE" using v page_bounds(3) [of "fst b"] page_bounds(3) [of "fst c"] by simp_all
  then have "fst b \<le> k * PGSIZE" "fst c \<le> k * PGSIZE" using assms(4) k by simp_all
  moreover have "(k + 1) * PGSIZE \<le> fst b + snd b + 3" "(k + 1) * PGSIZE \<le> fst c + snd c + 3"
    using last_bounds(1) [of b] last_bounds(1) [of c] assms(5) lt mult_le_mono1 [of "k + 1" "last_pg b" PGSIZE]
      mult_le_mono1 [of "k + 1" "last_pg c" PGSIZE] by linarith+
  ultimately show False using assms(3) unfolding apart_def by simp
qed

lemma block_hpage: "block_ok s b \<Longrightarrow> hpage (vpn (fst b)) \<and> hpage (last_pg b)"
  using vpn_le_last(1) [of b] by (auto simp: block_ok_def hpage_def vpn_def)

section \<open>Freeing keeps the invariant\<close>

lemma cnt_simps: "cnt (xs @ ys) k = cnt xs k + cnt ys k" "cnt (b # xs) k = (if last_pg b = k then 1 else 0) + cnt xs k"
  by (simp_all add: cnt_def)

lemma cnt_pos: "b \<in> set L \<Longrightarrow> 0 < cnt L (last_pg b)"
  by (induction L) (auto simp: cnt_simps)

lemma sorted_wrt_mid: "sorted_wrt apart (xs @ b # ys) \<Longrightarrow> c \<in> set (xs @ ys) \<Longrightarrow> apart b c"
  by (auto simp: sorted_wrt_append apart_def)

lemma refc_less: "refc s k < 2 ^ 32"
  unfolding refc_def using unsigned_less [where 'a = nat and 'b = 32] by (cases "page_bytes s k") simp_all

text \<open>A block survives the release when it does not reach into the pages before \<open>e\<close>, and \<open>e\<close>, if it ends
  there, has another reference.\<close>

lemma heap_released_keeps:
  assumes "heap_released s s' j e" "block_ok s c" "endp s e"
    and "\<And>k. j \<le> k \<Longrightarrow> k < e \<Longrightarrow> \<not> (vpn (fst c) \<le> k \<and> k \<le> last_pg c)" "last_pg c = e \<Longrightarrow> 1 < refc s e" "j \<le> e"
  shows "keeps s s' c"
  unfolding keeps_def
proof (intro allI impI)
  fix k assume k: "vpn (fst c) \<le> k" "k \<le> last_pg c"
  have "k = e \<Longrightarrow> last_pg c = e"
    using k assms(2,3) contp_not_endp [of s e] unfolding block_ok_def by (metis le_neq_implies_less)
  moreover have "k < j \<or> e < k \<or> k = e" using assms(4) [of k] k by linarith
  ultimately show "upt s' k = upt s k \<and> (page_bytes s' k = page_bytes s k \<or>
      k = last_pg c \<and> (\<exists>m w. page_bytes s k = Some m \<and> page_bytes s' k = Some (wr32 m (PGSIZE - 4) w)))"
    using assms(1,5) unfolding heap_released_def by blast
qed

lemma heap_released_refc:
  assumes "heap_released s s' j e" "hpage k" "endp s' k" "0 < refc s e"
  shows "endp s k" "refc s' k = (if k = e then refc s e - 1 else refc s k)" "k = e \<Longrightarrow> 1 < refc s e"
proof -
  have c: "k < j \<or> e < k \<or> k = e \<and> 1 < refc s e"
  proof (rule ccontr)
    assume "\<not> ?thesis"
    then have "j \<le> k \<and> k < e \<or> k = e \<and> refc s e = 1" using assms(4) by auto
    then have "upt s' k = None" using assms(1) by (auto simp: heap_released_def)
    then show False using assms(3) by (simp add: endp_def)
  qed
  have u: "upt s' k = upt s k" using c assms(1) by (auto simp: heap_released_def)
  then show "endp s k" using assms(3) by (simp add: endp_def)
  have lt: "unat (of_nat (refc s e - 1) :: u32) = refc s e - 1"
    using refc_less [of s e] by (simp add: unat_of_nat take_bit_nat_eq_self)
  show "refc s' k = (if k = e then refc s e - 1 else refc s k)"
  proof (cases "k = e")
    case True
    then have "1 < refc s e \<or> k < j" using c by auto
    show ?thesis
    proof (cases "1 < refc s e")
      case r: True
      then show ?thesis using True assms(1) lt by (auto simp: heap_released_def refc_def)
    next
      case False
      then show ?thesis using True c assms by (auto simp: heap_released_def endp_def)
    qed
  next
    case False
    then have "page_bytes s' k = page_bytes s k" using c assms(1) by (auto simp: heap_released_def)
    then show ?thesis using False by (simp add: refc_def)
  qed
  show "1 < refc s e" if "k = e"
  proof (rule ccontr)
    assume "\<not> 1 < refc s e"
    then have "refc s e = 1" using assms(4) by simp
    then show False using that assms(1,3) by (simp add: heap_released_def endp_def)
  qed
qed

lemma free_block:
  assumes inv: "heap_inv s (xs @ b # ys)"
  shows "\<exists>s'. free (fst b) s = Some s' \<and> heap_inv s' (xs @ ys) \<and> mptr s' = mptr s \<and> (\<forall>c \<in> set (xs @ ys). block_bytes s' c = block_bytes s c)"
proof -
  let ?L = "xs @ b # ys" and ?e = "last_pg b" and ?j = "vpn (fst b)"
  have b: "block_ok s b" using inv by (simp add: heap_inv_def)
  have e: "endp s ?e" "\<forall>k. ?j \<le> k \<longrightarrow> k < ?e \<longrightarrow> contp s k" using b by (simp_all add: block_ok_def)
  note hp = block_hpage [OF b]
  have rb: "cnt ?L k + of_bool (is_open s k) \<le> refc s k \<and> refc s k \<le> cnt ?L k + 1" if "hpage k" "endp s k" for k
    using inv that by (simp add: heap_inv_def)
  have pos: "0 < refc s ?e" using rb [of ?e] e(1) hp cnt_pos [of b ?L] by simp
  obtain s' where f: "free (fst b) s = Some s'" "heap_released s s' ?j ?e"
    using release [of s ?j ?e "fst b"] inv e hp pos vpn_le_last(1) [of b] by (auto simp: heap_inv_def)
  have kp: "keeps s s' c" if c: "c \<in> set (xs @ ys)" for c
  proof (rule heap_released_keeps [OF f(2)])
    show cok: "block_ok s c" using inv c by (auto simp: heap_inv_def)
    show "\<not> (vpn (fst c) \<le> k \<and> k \<le> last_pg c)" if "?j \<le> k" "k < ?e" for k
      using middle_alone [OF b cok _ that] inv c sorted_wrt_mid [of xs b ys c] by (simp add: heap_inv_def)
    show "1 < refc s ?e" if "last_pg c = ?e"
    proof -
      have "0 < cnt (xs @ ys) ?e" using cnt_pos [OF c] that by simp
      then show ?thesis using rb [of ?e] e(1) hp by (auto simp: cnt_simps)
    qed
  qed (use e vpn_le_last(1) [of b] in simp_all)
  have m: "mptr s' = mptr s" using f(2) by (simp add: heap_released_def)
  have op: "is_open s' k = is_open s k" for k by (simp add: is_open_def m)
  have "heap_inv s' (xs @ ys)"
    unfolding heap_inv_def
  proof (intro conjI allI impI ballI)
    show "heap_base s'" using f(2) by (simp add: heap_released_def)
    show "block_ok s' c" if "c \<in> set (xs @ ys)" for c
      using keeps_ok [OF kp [OF that]] inv that by (auto simp: heap_inv_def)
    show "sorted_wrt apart (xs @ ys)" using inv by (simp add: heap_inv_def sorted_wrt_append)
    fix k assume k: "hpage k" "endp s' k"
    note r = heap_released_refc [OF f(2) k pos]
    show "cnt (xs @ ys) k + of_bool (is_open s' k) \<le> refc s' k" "refc s' k \<le> cnt (xs @ ys) k + 1"
      using rb [OF k(1) r(1)] r(2) unfolding op by (auto simp: cnt_simps split: if_splits)
  next
    show "mptr s' = 0 \<or> MBEGIN \<le> mptr s' \<and> mptr s' \<le> MEND" "mptr s' mod 4 = 0" using inv by (simp_all add: m heap_inv_def)
  next
    assume o: "mptr s' mod PGSIZE \<noteq> 0"
    then have o1: "endp s (vpn (mptr s))" using inv by (simp add: m heap_inv_def)
    let ?k = "vpn (mptr s)"
    have "upt s' ?k = upt s ?k"
    proof (cases "?k = ?e")
      case True
      then have "is_open s ?e" using o by (simp add: m is_open_def)
      then have "1 < refc s ?e" using rb [of ?e] e(1) hp by (simp add: cnt_simps)
      then show ?thesis using True f(2) by (simp add: heap_released_def)
    next
      case False
      then have "?k < ?j \<or> ?e < ?k" using e(2) o1 contp_not_endp [of s ?k] by (metis linorder_neqE_nat not_less)
      then show ?thesis using f(2) by (auto simp: heap_released_def)
    qed
    then show "endp s' (vpn (mptr s'))" using o1 by (simp add: m endp_def)
    show "fst c + snd c \<le> mptr s'" if "c \<in> set (xs @ ys)" "last_pg c = vpn (mptr s')" for c
      using inv that o by (auto simp: m heap_inv_def)
  qed
  with f(1) m kp keeps_bytes show ?thesis by blast
qed

lemma page_mod4: "x mod PGSIZE = 0 \<Longrightarrow> x mod 4 = 0"
  using dvd_trans [of 4 PGSIZE x] by (simp add: dvd_eq_mod_eq_0)

lemma next_page: "ROUNDDOWN (a + PGSIZE) PGSIZE = (vpn a + 1) * PGSIZE"
  unfolding ROUNDDOWN_eq_div vpn_def by (simp only: div_add_self2 zero_neq_numeral not_False_eq_True)

lemma page_end:
  assumes "a mod PGSIZE \<noteq> 0"
  shows "ROUNDUP a PGSIZE = (vpn a + 1) * PGSIZE"
proof -
  have "(a + PGSIZE - 1) div PGSIZE = vpn a + 1"
    using assms page_bounds(2,3) [of a] by (intro div_nat_eqI) simp_all
  then show ?thesis unfolding ROUNDUP_def ROUNDDOWN_eq_div by (simp only:)
qed

text \<open>Closing the open page, when \<open>malloc\<close> moves on to another one.\<close>

lemma heap_inv_mptr:
  assumes "heap_inv s L" "mp mod PGSIZE = 0" "MBEGIN \<le> mp" "mp \<le> MEND" "mptr s mod PGSIZE = 0"
  shows "heap_inv (s\<lparr>mptr := mp\<rparr>) L"
proof -
  have o: "\<not> is_open s k" "\<not> is_open (s\<lparr>mptr := mp\<rparr>) k" for k using assms by (simp_all add: is_open_def)
  have e: "block_ok (s\<lparr>mptr := mp\<rparr>) = block_ok s" "heap_base (s\<lparr>mptr := mp\<rparr>) = heap_base s" "endp (s\<lparr>mptr := mp\<rparr>) = endp s"
    "refc (s\<lparr>mptr := mp\<rparr>) = refc s"
    by (auto simp: block_ok_def fun_eq_iff contp_def endp_def refc_def page_bytes_def heap_base_def umem_inv_def maps_to_def)
  have "mp mod 4 = 0" by (rule page_mod4 [OF assms(2)])
  then show ?thesis using assms(1-4) unfolding heap_inv_def e by (simp add: o)
qed

lemma close_page:
  assumes inv: "heap_inv s L" and o: "mptr s mod PGSIZE \<noteq> 0"
  shows "\<exists>s'. free (mptr s) s = Some s' \<and> heap_inv (s'\<lparr>mptr := ROUNDDOWN (mptr s + PGSIZE) PGSIZE\<rparr>) L \<and>
    (\<forall>c \<in> set L. block_bytes s' c = block_bytes s c)"
proof -
  let ?e = "vpn (mptr s)" and ?mp = "ROUNDDOWN (mptr s + PGSIZE) PGSIZE"
  have mp: "MBEGIN \<le> mptr s" "mptr s \<le> MEND" using inv o by (auto simp: heap_inv_def)
  have lt: "mptr s < MEND" using mp o by (cases "mptr s = MEND") auto
  have hp: "hpage ?e" using mp lt by (auto simp: hpage_def vpn_def)
  have e: "endp s ?e" using inv o by (simp add: heap_inv_def)
  have rb: "cnt L k + of_bool (is_open s k) \<le> refc s k \<and> refc s k \<le> cnt L k + 1" if "hpage k" "endp s k" for k
    using inv that by (simp add: heap_inv_def)
  have op: "is_open s ?e" using o by (simp add: is_open_def)
  have pos: "0 < refc s ?e" using rb [OF hp e] op by simp
  obtain s' where f: "free (mptr s) s = Some s'" "heap_released s s' ?e ?e"
    using release [of s ?e ?e "mptr s"] inv e hp pos by (auto simp: heap_inv_def)
  have kp: "keeps s s' c" if c: "c \<in> set L" for c
  proof (rule heap_released_keeps [OF f(2)])
    show "block_ok s c" using inv c by (auto simp: heap_inv_def)
    show "1 < refc s ?e" if "last_pg c = ?e" using rb [OF hp e] op cnt_pos [OF c] that by simp
  qed (use e in simp_all)
  define t where "t = s'\<lparr>mptr := ?mp\<rparr>"
  note q = next_page [of "mptr s"]
  have t: "heap_base t" "endp t = endp s'" "refc t = refc s'" "block_ok t = block_ok s'" "mptr t = (?e + 1) * PGSIZE" "\<not> is_open t k" for k
    using f(2) by (auto simp: t_def heap_released_def block_ok_def fun_eq_iff contp_def endp_def refc_def page_bytes_def heap_base_def
        umem_inv_def maps_to_def is_open_def q)
  have "heap_inv t L"
    unfolding heap_inv_def
  proof (intro conjI allI impI ballI)
    show "heap_base t" by (rule t(1))
    show "block_ok t c" if "c \<in> set L" for c
      using keeps_ok [OF kp [OF that]] inv that by (auto simp: heap_inv_def t(4))
    show "sorted_wrt apart L" using inv by (simp add: heap_inv_def)
    fix k assume k: "hpage k" "endp t k"
    have k': "endp s' k" using k(2) by (simp add: t(2))
    note r = heap_released_refc [OF f(2) k(1) k' pos]
    have o1: "is_open s k \<longleftrightarrow> k = ?e" using o by (auto simp: is_open_def)
    show "cnt L k + of_bool (is_open t k) \<le> refc t k" "refc t k \<le> cnt L k + 1"
      using rb [OF k(1) r(1)] r(2) unfolding t(3) o1 by (auto simp: t(6) split: if_splits)
  next
    have "(?e + 1) * PGSIZE \<le> MEND" "MBEGIN \<le> (?e + 1) * PGSIZE" using hp by (simp_all add: hpage_def)
    then show "mptr t = 0 \<or> MBEGIN \<le> mptr t \<and> mptr t \<le> MEND" "mptr t mod 4 = 0" 
      using page_mod4 [of "(?e + 1) * PGSIZE"] by (simp_all only: t(5) mod_mult_self2_is_0) simp_all
  next
    assume "mptr t mod PGSIZE \<noteq> 0"
    then show "endp t (vpn (mptr t))" by (simp add: t(5))
  next
    fix c assume "mptr t mod PGSIZE \<noteq> 0"
    then show "fst c + snd c \<le> mptr t" by (simp add: t(5))
  qed
  moreover have "\<forall>c \<in> set L. block_bytes s' c = block_bytes s c" using keeps_bytes [OF kp] by blast
  ultimately show ?thesis using f(1) by (auto simp: t_def)
qed

lemma apart_pages: "last_pg b < vpn (fst c) \<Longrightarrow> apart b c"
proof -
  assume "last_pg b < vpn (fst c)"
  then have "(last_pg b + 1) * PGSIZE \<le> vpn (fst c) * PGSIZE" by (intro mult_le_mono1) simp
  then show ?thesis using last_bounds(2) [of b] page_bounds(1) [of "fst c"] by (simp add: apart_def)
qed

text \<open>A page with a count is at the end of every block that reaches into it.\<close>

lemma endp_last: "block_ok s c \<Longrightarrow> endp s k \<Longrightarrow> vpn (fst c) \<le> k \<Longrightarrow> k \<le> last_pg c \<Longrightarrow> k = last_pg c"
  using contp_not_endp [of s k] unfolding block_ok_def by (metis le_neq_implies_less)

section \<open>A block in the open page\<close>

lemma malloc_open:
  assumes inv: "heap_inv s L" and o: "mptr s mod PGSIZE \<noteq> 0" and n: "n mod 4 = 0" "mptr s div PGSIZE = (mptr s + n + 3) div PGSIZE"
    and len: "length L < 2 ^ 32 - 2"
  shows "\<exists>r s1. uld32 (ROUNDUP (mptr s) PGSIZE - 4) s = Some r \<and> ust32 (ROUNDUP (mptr s) PGSIZE - 4) (r + 1) s = Some s1 \<and>
    heap_inv (s1\<lparr>mptr := mptr s + n\<rparr>) ((mptr s, n) # L) \<and> (\<forall>c \<in> set L. block_bytes s1 c = block_bytes s c)"
proof -
  let ?e = "vpn (mptr s)" and ?b = "(mptr s, n)"
  have mp: "MBEGIN \<le> mptr s" "mptr s \<le> MEND" using inv o by (auto simp: heap_inv_def)
  have lt: "mptr s < MEND" using mp o by (cases "mptr s = MEND") auto
  have hp: "hpage ?e" using mp lt by (auto simp: hpage_def vpn_def)
  have e: "endp s ?e" using inv o by (simp add: heap_inv_def)
  have rb: "cnt L k + of_bool (is_open s k) \<le> refc s k \<and> refc s k \<le> cnt L k + 1" if "hpage k" "endp s k" for k
    using inv that by (simp add: heap_inv_def)
  have bk: "block_ok s c" if "c \<in> set L" for c using inv that by (simp add: heap_inv_def)
  have lb: "last_pg ?b = ?e" using n(2) by (simp add: last_pg_def vpn_def)
  have ru: "ROUNDUP (mptr s) PGSIZE - 4 = ?e * PGSIZE + (PGSIZE - 4)"
    unfolding page_end [OF o] by simp
  obtain p where p: "upt s ?e = Some p" using e by (auto simp: endp_def)
  define r where "r = rd32 (uframe s (pg_frame p)) (PGSIZE - 4)"
  have rc: "refc s ?e = unat r" by (simp add: refc_def page_bytes_def p r_def)
  have hb: "heap_base s" using inv by (simp add: heap_inv_def)
  from set_ref [OF hb hp p, of "r + 1"] obtain s1 where s1: "ust32 (?e * PGSIZE + (PGSIZE - 4)) (r + 1) s = Some s1"
    "s1 = s\<lparr>uframe := uframe s1\<rparr>" "heap_base s1" "page_bytes s1 = (page_bytes s)(?e \<mapsto> wr32 (uframe s (pg_frame p)) (PGSIZE - 4) (r + 1))"
    by blast
  define t where "t = s1\<lparr>mptr := mptr s + n\<rparr>"
  have "upt s1 = upt s" by (subst s1(2)) simp
  then have u: "upt t = upt s" "page_bytes t = page_bytes s1" "mptr t = mptr s + n"
    by (simp_all add: t_def page_bytes_def fun_eq_iff)
  have kp: "keeps s t c" if "c \<in> set L" for c
    unfolding keeps_def
  proof (intro allI impI)
    fix k assume k: "vpn (fst c) \<le> k" "k \<le> last_pg c"
    have "k = ?e \<Longrightarrow> k = last_pg c" using endp_last [OF bk [OF that], of k] e k by simp
    then show "upt t k = upt s k \<and> (page_bytes t k = page_bytes s k \<or>
      k = last_pg c \<and> (\<exists>m w. page_bytes s k = Some m \<and> page_bytes t k = Some (wr32 m (PGSIZE - 4) w)))"
      using p unfolding u s1(4) by (auto simp: page_bytes_def)
  qed
  have ap: "apart ?b c" if c: "c \<in> set L" for c
  proof (cases "last_pg c = ?e")
    case True
    then show ?thesis using inv c o by (auto simp: heap_inv_def apart_def)
  next
    case False
    then have "?e < vpn (fst c) \<or> last_pg c < ?e"
      using endp_last [OF bk [OF c] e] by (metis not_less)
    then have "last_pg ?b < vpn (fst c) \<or> last_pg c < vpn (fst ?b)" unfolding lb by simp
    then show ?thesis using apart_pages [of ?b c] apart_pages [of c ?b] unfolding apart_def by blast
  qed
  have tp: "vpn (mptr t) = ?e" "mptr t mod PGSIZE \<noteq> 0"
  proof -
    have "?e * PGSIZE < mptr s" using page_bounds(3) [of "mptr s"] o by linarith
    moreover have "mptr s + n + 3 < ?e * PGSIZE + PGSIZE" using last_bounds(2) [of ?b] unfolding lb by simp
    ultimately show v: "vpn (mptr t) = ?e" unfolding u vpn_def by (intro div_nat_eqI) simp_all
    show "mptr t mod PGSIZE \<noteq> 0"
      using \<open>?e * PGSIZE < mptr s\<close> page_bounds(3) [of "mptr t"] unfolding v by (simp add: u)
  qed
  have op: "is_open t k = is_open s k" for k using tp o by (auto simp: is_open_def)
  have re: "refc t ?e = refc s ?e + 1"
  proof -
    have "cnt L ?e \<le> length L" by (simp add: cnt_def)
    then have "unat r + 1 < 2 ^ 32" using rb [OF hp e] len rc by linarith
    then have "unat (r + 1) = unat r + 1" by (simp add: unat_word_ariths)
    then show ?thesis using rc by (simp add: refc_def u s1(4))
  qed
  have "heap_inv t (?b # L)"
    unfolding heap_inv_def
  proof (intro conjI allI impI ballI)
    show "heap_base t" using s1(3) by (simp add: t_def heap_base_def umem_inv_def maps_to_def)
    show "block_ok t c" if "c \<in> set (?b # L)" for c
    proof (cases "c = ?b")
      case True
      then show ?thesis using mp hp e lb unfolding block_ok_def by (simp add: endp_def u hpage_def)
    next
      case False
      then show ?thesis using that inv keeps_ok [OF kp] by (auto simp: heap_inv_def)
    qed
    show "sorted_wrt apart (?b # L)" using ap inv by (simp add: heap_inv_def)
    fix k assume k: "hpage k" "endp t k"
    have "endp s k" using k(2) by (simp add: endp_def u)
    moreover have "refc t k = refc s k" if "k \<noteq> ?e" using that by (simp add: refc_def u s1(4))
    ultimately show "cnt (?b # L) k + of_bool (is_open t k) \<le> refc t k" "refc t k \<le> cnt (?b # L) k + 1"
      using rb [OF k(1)] re lb unfolding op by (auto simp: cnt_simps)
  next
    show "mptr t = 0 \<or> MBEGIN \<le> mptr t \<and> mptr t \<le> MEND"
      using page_bounds(2) [of "mptr t"] hp mp unfolding tp by (simp add: u hpage_def)
    show "mptr t mod 4 = 0" using inv n(1) by (simp add: u heap_inv_def mod_add_eq [symmetric])
    show "endp t (vpn (mptr t))" using e tp by (simp add: endp_def u)
    show "fst c + snd c \<le> mptr t" if "c \<in> set (?b # L)" "last_pg c = vpn (mptr t)" for c
      using that inv o unfolding tp by (auto simp: heap_inv_def u intro: trans_le_add1)
  qed
  moreover have "block_bytes s1 c = block_bytes s c" if "c \<in> set L" for c
    using keeps_bytes [OF kp [OF that]] by (simp add: block_bytes_def uld8_page u)
  ultimately show ?thesis
    using s1(1) get_ref [OF p] unfolding ru t_def by (auto simp: r_def)
qed

section \<open>The search for address space\<close>

lemma isfree_loop_iff:
  "isfree_loop va end_va s \<longleftrightarrow> (\<forall>i. va + i * PGSIZE < end_va \<longrightarrow> va + i * PGSIZE < MEND \<and> \<not> mapped_at (va + i * PGSIZE) s)"
proof (induction va end_va s rule: isfree_loop.induct)
  case (1 va end_va s)
  show ?case
  proof (cases "va < end_va \<and> va < MEND \<and> \<not> mapped_at va s")
    case True
    then have eq: "isfree_loop va end_va s = isfree_loop (va + PGSIZE) end_va s" by (subst isfree_loop.simps) simp
    have "(\<forall>i. P i) \<longleftrightarrow> P 0 \<and> (\<forall>i. P (Suc i))" for P :: "nat \<Rightarrow> bool" by (metis not0_implies_Suc)
    from this [of "\<lambda>i. va + i * PGSIZE < end_va \<longrightarrow> va + i * PGSIZE < MEND \<and> \<not> mapped_at (va + i * PGSIZE) s"]
    show ?thesis unfolding eq using 1 True by (simp add: add.assoc)
  next
    case False
    then show ?thesis
      by (subst isfree_loop.simps) (auto intro: exI [of _ 0])
  qed
qed

lemma find_space_spec:
  assumes "mp mod PGSIZE = 0" "MBEGIN \<le> mp" "mp < MEND" "nwrap < 2"
  shows "\<exists>found m. find_space n nwrap mp s = Some (found, m) \<and> m mod PGSIZE = 0 \<and> MBEGIN \<le> m \<and> m < MEND \<and>
    (case found of Some v \<Rightarrow> v = m \<and> isfree v (n + 4) s | None \<Rightarrow> True)"
  using assms
proof (induction "(2 - nwrap) * MEND + (MEND - mp)" arbitrary: nwrap mp rule: less_induct)
  case less
  show ?case
  proof (cases "isfree mp (n + 4) s \<or> mp + PGSIZE = MEND \<and> nwrap + 1 = 2")
    case True
    then show ?thesis using less.prems by (subst find_space.simps) auto
  next
    case no: False
    show ?thesis
    proof (cases "mp + PGSIZE = MEND")
      case True
      then have "find_space n nwrap mp s = find_space n (nwrap + 1) MBEGIN s" using no by (subst find_space.simps) simp
      moreover have "nwrap = 0" using no True less.prems(4) by simp
      ultimately show ?thesis using less.hyps [of "nwrap + 1" MBEGIN] less.prems True by simp
    next
      case False
      then have eq: "find_space n nwrap mp s = find_space n nwrap (mp + PGSIZE) s" using no by (subst find_space.simps) simp
      obtain q where q: "mp = q * PGSIZE" using less.prems(1) by auto
      have "mp + PGSIZE < MEND" using False less.prems(3) unfolding q by simp
      then show ?thesis unfolding eq using less.hyps [of nwrap "mp + PGSIZE"] less.prems by simp
    qed
  qed
qed

section \<open>The pages of a new block\<close>

lemma unmap_pages_spec:
  assumes "heap_base s"
  shows "heap_base (unmap_pages (j * PGSIZE) a s)" "mptr (unmap_pages (j * PGSIZE) a s) = mptr s"
    "uframe (unmap_pages (j * PGSIZE) a s) = uframe s"
    "upt (unmap_pages (j * PGSIZE) a s) = (\<lambda>k. if j \<le> k \<and> k \<le> j + a then None else upt s k)"
proof -
  have "heap_base (unmap_pages (j * PGSIZE) a s) \<and> mptr (unmap_pages (j * PGSIZE) a s) = mptr s \<and>
    uframe (unmap_pages (j * PGSIZE) a s) = uframe s \<and>
    upt (unmap_pages (j * PGSIZE) a s) = (\<lambda>k. if j \<le> k \<and> k \<le> j + a then None else upt s k)"
    using assms
  proof (induction a arbitrary: s)
    case 0
    then show ?case by (auto simp: u_page_unmap_def mult_page unmap_vpn_frame unmap_base fun_eq_iff)
  next
    case (Suc a)
    have v: "vpn (j * PGSIZE + Suc a * PGSIZE) = j + Suc a" by (simp only: add_mult_distrib [symmetric] mult_page(1))
    show ?case using Suc.IH [OF unmap_base(1) [OF Suc.prems]]
      unfolding unmap_pages.simps u_page_unmap_def v by (auto simp: unmap_vpn_frame fun_eq_iff)
  qed
  then show "heap_base (unmap_pages (j * PGSIZE) a s)" "mptr (unmap_pages (j * PGSIZE) a s) = mptr s"
    "uframe (unmap_pages (j * PGSIZE) a s) = uframe s"
    "upt (unmap_pages (j * PGSIZE) a s) = (\<lambda>k. if j \<le> k \<and> k \<le> j + a then None else upt s k)" by blast+
qed

lemma malloc_pages_spec:
  assumes "heap_base s" "a \<le> N + 1" "N * PGSIZE \<le> n + 3" "n + 3 < N * PGSIZE + PGSIZE"
    "\<forall>k. j + a \<le> k \<longrightarrow> k \<le> j + N \<longrightarrow> upt s k = None"
  shows "\<exists>res s'. malloc_pages (j * PGSIZE) n (a * PGSIZE) s = (res, s') \<and> heap_base s' \<and> mptr s' = mptr s \<and> uframe s' = uframe s \<and>
    (\<forall>k. k < j \<or> j + N < k \<longrightarrow> upt s' k = upt s k) \<and>
    (case res of
       None \<Rightarrow> \<forall>k. j \<le> k \<longrightarrow> k \<le> j + N \<longrightarrow> upt s' k = None
     | Some i \<Rightarrow> i = (N + 1) * PGSIZE \<and> (\<forall>k. j \<le> k \<longrightarrow> k < j + a \<longrightarrow> upt s' k = upt s k) \<and>
         (\<forall>k. j + a \<le> k \<longrightarrow> k < j + N \<longrightarrow> contp s' k) \<and> (a \<le> N \<longrightarrow> endp s' (j + N)))"
  using assms
proof (induction "N + 1 - a" arbitrary: a s)
  case 0
  then have a: "a = N + 1" by simp
  have "\<not> a * PGSIZE < n + 4" using 0(5) unfolding a by simp
  then show ?case using 0 by (subst malloc_pages.simps) (auto simp: a)
next
  case (Suc d)
  have le: "a \<le> N" using Suc.hyps(2) by simp
  have lt: "a * PGSIZE < n + 4" using mult_le_mono1 [OF le, of PGSIZE] Suc.prems(3) by linarith
  have cond: "a * PGSIZE + PGSIZE < n + 4 \<longleftrightarrow> a < N"
    using mult_le_mono1 [of "a + 1" N PGSIZE] Suc.prems(3,4) le by (cases "a = N") auto
  define perm where "perm = UPTE_P OR UPTE_U OR UPTE_W OR (if a < N then PTE_CONTINUED else 0)"
  have pw: "perm AND UPTE_W \<noteq> 0" "perm AND PTE_CONTINUED \<noteq> 0 \<longleftrightarrow> a < N" by (simp_all add: perm_def)
  have va: "j * PGSIZE + a * PGSIZE = (j + a) * PGSIZE" by (simp only: add_mult_distrib)
  have un: "upt s (vpn ((j + a) * PGSIZE)) = None" unfolding mult_page using Suc.prems(5) le by simp
  obtain r s1 where al: "u_page_alloc ((j + a) * PGSIZE) perm s = (r, s1)" by (cases "u_page_alloc ((j + a) * PGSIZE) perm s")
  have s1: "mptr s1 = mptr s" "heap_base s1" "uframe s1 = uframe s" "r < 0 \<Longrightarrow> upt s1 = upt s"
    "\<not> r < 0 \<Longrightarrow> \<exists>f. upt s1 = (upt s)(j + a \<mapsto> \<lparr>pg_frame = f, pg_perm = perm\<rparr>)"
    using alloc_base [OF Suc.prems(1) un pw(1)] unfolding al mult_page by auto
  have step: "malloc_pages (j * PGSIZE) n (a * PGSIZE) s =
      (if r < 0 then (None, unmap_pages (j * PGSIZE) a s1) else malloc_pages (j * PGSIZE) n ((a + 1) * PGSIZE) s1)"
  proof -
    have d: "a * PGSIZE div PGSIZE = a" "a * PGSIZE + PGSIZE = (a + 1) * PGSIZE" by simp_all
    show ?thesis
      unfolding malloc_pages.simps [of _ _ "a * PGSIZE"] if_P [OF lt] cond va Let_def
      unfolding perm_def [symmetric] al prod.case d by (rule refl)
  qed
  show ?case
  proof (cases "r < 0")
    case True
    note u = unmap_pages_spec [OF s1(2), of j a]
    show ?thesis unfolding step using True u s1 Suc.prems(5) le by (auto split: if_splits)
  next
    case False
    obtain f where f: "upt s1 = (upt s)(j + a \<mapsto> \<lparr>pg_frame = f, pg_perm = perm\<rparr>)" using s1(5) [OF False] by blast
    have "\<exists>res s'. malloc_pages (j * PGSIZE) n ((a + 1) * PGSIZE) s1 = (res, s') \<and> heap_base s' \<and> mptr s' = mptr s1 \<and> uframe s' = uframe s1 \<and>
      (\<forall>k. k < j \<or> j + N < k \<longrightarrow> upt s' k = upt s1 k) \<and>
      (case res of
         None \<Rightarrow> \<forall>k. j \<le> k \<longrightarrow> k \<le> j + N \<longrightarrow> upt s' k = None
       | Some i \<Rightarrow> i = (N + 1) * PGSIZE \<and> (\<forall>k. j \<le> k \<longrightarrow> k < j + (a + 1) \<longrightarrow> upt s' k = upt s1 k) \<and>
         (\<forall>k. j + (a + 1) \<le> k \<longrightarrow> k < j + N \<longrightarrow> contp s' k) \<and> (a + 1 \<le> N \<longrightarrow> endp s' (j + N)))"
      by (rule Suc.hyps(1)) (use Suc.hyps(2) Suc.prems s1(2) le f in auto)
    then obtain res s' where s': "malloc_pages (j * PGSIZE) n ((a + 1) * PGSIZE) s1 = (res, s')" "heap_base s'" "mptr s' = mptr s1" "uframe s' = uframe s1"
      "\<forall>k. k < j \<or> j + N < k \<longrightarrow> upt s' k = upt s1 k"
      "case res of
         None \<Rightarrow> \<forall>k. j \<le> k \<longrightarrow> k \<le> j + N \<longrightarrow> upt s' k = None
       | Some i \<Rightarrow> i = (N + 1) * PGSIZE \<and> (\<forall>k. j \<le> k \<longrightarrow> k < j + (a + 1) \<longrightarrow> upt s' k = upt s1 k) \<and>
         (\<forall>k. j + (a + 1) \<le> k \<longrightarrow> k < j + N \<longrightarrow> contp s' k) \<and> (a + 1 \<le> N \<longrightarrow> endp s' (j + N))" by blast
    have here: "res \<noteq> None \<Longrightarrow> upt s' (j + a) = Some \<lparr>pg_frame = f, pg_perm = perm\<rparr>" using s'(6) f by (cases res) auto
    have c: "contp s' k" if "res \<noteq> None" "j + a \<le> k" "k < j + N" for k
      using s'(6) here [OF that(1)] pw(2) that by (cases "k = j + a"; cases res) (auto simp: contp_def)
    have e: "endp s' (j + N)" if "res \<noteq> None"
      using s'(6) here [OF that] pw(2) that le by (cases "a = N"; cases res) (auto simp: endp_def)
    have o: "\<forall>k. k < j \<or> j + N < k \<longrightarrow> upt s' k = upt s k" using s'(5) f le by auto
    show ?thesis
    proof (cases res)
      case None
      then show ?thesis unfolding step using False s' s1 o by simp
    next
      case (Some i)
      then show ?thesis unfolding step using False s' s1 o c e f by simp
    qed
  qed
qed

section \<open>A block in new pages\<close>

lemma page_bytes_same: "upt t = upt s \<Longrightarrow> uframe t = uframe s \<Longrightarrow> page_bytes t = page_bytes s"
  by (rule ext) (simp add: page_bytes_def)

lemma heap_inv_same:
  assumes "heap_inv s L" "heap_base t" "upt t = upt s" "uframe t = uframe s" "mptr t = mptr s"
  shows "heap_inv t L"
proof -
  have pb: "page_bytes t = page_bytes s" by (rule page_bytes_same [OF assms(3,4)])
  have e: "block_ok t = block_ok s" "endp t = endp s" "refc t = refc s" "is_open t = is_open s"
    unfolding fun_eq_iff block_ok_def contp_def endp_def refc_def pb is_open_def assms(3,5) by simp_all
  show ?thesis using assms(1,2) unfolding heap_inv_def e assms(5) by simp
qed

lemma block_bytes_same: "upt t = upt s \<Longrightarrow> uframe t = uframe s \<Longrightarrow> block_bytes t c = block_bytes s c"
  using page_bytes_same [of t s] by (simp add: block_bytes_def uld8_page)

text \<open>The live blocks are in mapped pages.\<close>

lemma block_mapped: "block_ok s c \<Longrightarrow> vpn (fst c) \<le> k \<Longrightarrow> k \<le> last_pg c \<Longrightarrow> upt s k \<noteq> None"
  unfolding block_ok_def contp_def endp_def by (metis le_neq_implies_less option.discI)

lemma new_block_inv:
  assumes inv: "heap_inv s L" and al: "mptr s mod PGSIZE = 0" and N: "N * PGSIZE \<le> n + 3" "n + 3 < N * PGSIZE + PGSIZE" "n mod 4 = 0"
    and hp: "hpage j" "hpage (j + N)" and un: "\<forall>k. j \<le> k \<longrightarrow> k \<le> j + N \<longrightarrow> upt s k = None"
    and t: "heap_base t" "mptr t = j * PGSIZE + n" "\<forall>k. k < j \<or> j + N < k \<longrightarrow> upt t k = upt s k \<and> page_bytes t k = page_bytes s k"
      "\<forall>k. j \<le> k \<longrightarrow> k < j + N \<longrightarrow> contp t k" "endp t (j + N)" "refc t (j + N) = 2"
  shows "heap_inv t ((j * PGSIZE, n) # L)" "\<forall>c \<in> set L. block_bytes t c = block_bytes s c"
proof -
  let ?b = "(j * PGSIZE, n)" and ?e = "j + N"
  have lb: "last_pg ?b = ?e"
    unfolding last_pg_def using N(1,2) by (intro div_nat_eqI) simp_all
  have bk: "block_ok s c" if "c \<in> set L" for c using inv that by (simp add: heap_inv_def)
  have sep: "last_pg c < j \<or> ?e < vpn (fst c)" if c: "c \<in> set L" for c
  proof (rule ccontr)
    assume "\<not> ?thesis"
    then have "j \<le> last_pg c" "vpn (fst c) \<le> ?e" by simp_all
    then have "upt s (max j (vpn (fst c))) \<noteq> None"
      using vpn_le_last(1) [of c] by (intro block_mapped [OF bk [OF c]]) simp_all
    moreover have "upt s (max j (vpn (fst c))) = None" using un \<open>vpn (fst c) \<le> ?e\<close> by simp
    ultimately show False by simp
  qed
  have kp: "keeps s t c" if c: "c \<in> set L" for c
    unfolding keeps_def
  proof (intro allI impI)
    fix k assume "vpn (fst c) \<le> k" "k \<le> last_pg c"
    then have "k < j \<or> ?e < k" using sep [OF c] by linarith
    then show "upt t k = upt s k \<and> (page_bytes t k = page_bytes s k \<or>
      k = last_pg c \<and> (\<exists>m w. page_bytes s k = Some m \<and> page_bytes t k = Some (wr32 m (PGSIZE - 4) w)))" using t(3) by blast
  qed
  have ap: "apart ?b c" if c: "c \<in> set L" for c
    using sep [OF c] apart_pages [of ?b c] apart_pages [of c ?b] unfolding lb apart_def fst_conv mult_page(1) by blast
  have no_e: "last_pg c \<noteq> ?e" if "c \<in> set L" for c using sep [OF that] vpn_le_last(1) [of c] by linarith
  then have cnt0: "cnt L ?e = 0" by (auto simp: cnt_def filter_empty_conv)
  have tp: "vpn (mptr t) = ?e"
  proof -
    obtain q where "n = 4 * q" using N(3) by auto
    then have "N * PGSIZE \<le> n" using N(1) by simp
    then show ?thesis unfolding t(2) vpn_def using N(2) by (intro div_nat_eqI) simp_all
  qed
  have op: "\<not> is_open s k" for k using al by (simp add: is_open_def)
  have "heap_inv t (?b # L)"
    unfolding heap_inv_def
  proof (intro conjI allI impI ballI)
    show "heap_base t" by (rule t(1))
    show "block_ok t c" if "c \<in> set (?b # L)" for c
    proof (cases "c = ?b")
      case True
      have "MBEGIN \<le> j * PGSIZE" "?e < MEND div PGSIZE" using hp by (simp_all add: hpage_def)
      then show ?thesis unfolding True block_ok_def lb fst_conv mult_page(1) using t(4,5) by simp
    next
      case False
      then show ?thesis using that keeps_ok [OF kp] bk by auto
    qed
    show "sorted_wrt apart (?b # L)" using ap inv by (simp add: heap_inv_def)
    fix k assume k: "hpage k" "endp t k"
    have "cnt (?b # L) k + of_bool (is_open t k) \<le> refc t k \<and> refc t k \<le> cnt (?b # L) k + 1"
    proof (cases "k = ?e")
      case True
      then show ?thesis using cnt0 lb t(6) by (simp add: cnt_simps)
    next
      case False
      then have out: "k < j \<or> ?e < k" using t(4) k(2) contp_not_endp [of t k] by (metis le_neq_implies_less not_less)
      then have "upt t k = upt s k" "page_bytes t k = page_bytes s k" using t(3) by auto
      then have "endp s k" "refc t k = refc s k" using k(2) by (simp_all add: endp_def refc_def)
      then have "cnt L k \<le> refc s k \<and> refc s k \<le> cnt L k + 1" using inv k(1) op by (simp add: heap_inv_def)
      moreover have "\<not> is_open t k" using False tp by (simp add: is_open_def)
      ultimately show ?thesis using lb False \<open>refc t k = refc s k\<close> by (simp add: cnt_simps)
    qed
    then show "cnt (?b # L) k + of_bool (is_open t k) \<le> refc t k" "refc t k \<le> cnt (?b # L) k + 1" by blast+
  next
    show "mptr t = 0 \<or> MBEGIN \<le> mptr t \<and> mptr t \<le> MEND"
      using page_bounds [of "mptr t"] hp unfolding tp by (simp add: hpage_def)
    have "(j * PGSIZE) mod 4 = 0" by (rule page_mod4) simp
    then show "mptr t mod 4 = 0" unfolding t(2) using N(3) by (metis mod_add_eq add_0 mod_0)
    show "endp t (vpn (mptr t))" using t(5) tp by simp
    show "fst c + snd c \<le> mptr t" if "c \<in> set (?b # L)" "last_pg c = vpn (mptr t)" for c
      using that no_e [of c] unfolding tp by (cases "c = ?b") (auto simp: t(2))
  qed
  then show "heap_inv t ((j * PGSIZE, n) # L)" .
  show "\<forall>c \<in> set L. block_bytes t c = block_bytes s c" using keeps_bytes [OF kp] by blast
qed

lemma malloc_new_spec:
  assumes inv: "heap_inv s L" and al: "mptr s mod PGSIZE = 0" "MBEGIN \<le> mptr s" "mptr s < MEND" and n: "n mod 4 = 0"
  shows "\<exists>v s'. malloc_new n s = Some (v, s') \<and> (v = 0 \<and> heap_inv s' L \<or> v \<noteq> 0 \<and> heap_inv s' ((v, n) # L)) \<and>
    (\<forall>c \<in> set L. block_bytes s' c = block_bytes s c)"
proof -
  obtain found m where fs: "find_space n 0 (mptr s) s = Some (found, m)" "m mod PGSIZE = 0" "MBEGIN \<le> m" "m < MEND"
    "case found of Some v \<Rightarrow> v = m \<and> isfree v (n + 4) s | None \<Rightarrow> True"
    using find_space_spec [OF al, of 0 n s] by auto
  define s1 where "s1 = s\<lparr>mptr := m\<rparr>"
  have i1: "heap_inv s1 L" unfolding s1_def by (rule heap_inv_mptr [OF inv fs(2,3) less_imp_le [OF fs(4)] al(1)])
  have s1: "upt s1 = upt s" "uframe s1 = uframe s" "mptr s1 = m" by (simp_all add: s1_def)
  show ?thesis
  proof (cases found)
    case None
    then have "malloc_new n s = Some (0, s1)" using fs(1) by (simp add: malloc_new_def s1_def)
    then show ?thesis using i1 block_bytes_same [OF s1(1,2)] by auto
  next
    case (Some v)
    have v: "v = m" "isfree m (n + 4) s" using fs(5) Some by auto
    obtain j where j: "m = j * PGSIZE" using fs(2) by auto
    define N where "N = (n + 3) div PGSIZE"
    have N: "N * PGSIZE \<le> n + 3" "n + 3 < N * PGSIZE + PGSIZE" using page_bounds(1,2) [of "n + 3"] by (simp_all add: N_def vpn_def)
    have free: "(j + i) * PGSIZE < MEND \<and> upt s (j + i) = None" if "i \<le> N" for i
    proof -
      have "i * PGSIZE \<le> n + 3" using mult_le_mono1 [OF that, of PGSIZE] N(1) by linarith
      then have "m + i * PGSIZE < MEND \<and> \<not> mapped_at (m + i * PGSIZE) s"
        using v(2) unfolding isfree_def isfree_loop_iff by simp
      moreover have "m + i * PGSIZE = (j + i) * PGSIZE" unfolding j by (simp only: add_mult_distrib)
      ultimately show ?thesis by (simp only: mapped_at_def mult_page(1)) simp
    qed
    have un: "\<forall>k. j \<le> k \<longrightarrow> k \<le> j + N \<longrightarrow> upt s1 k = None"
      using free by (metis s1(1) le_add_diff_inverse nat_add_left_cancel_le)
    have hp: "hpage j" "hpage (j + N)" using fs(3,4) free [of N] j by (simp_all add: hpage_def)
    have hb: "heap_base s1" using i1 by (simp add: heap_inv_def)
    obtain res s2 where s2: "malloc_pages m n 0 s1 = (res, s2)" "heap_base s2" "mptr s2 = m" "uframe s2 = uframe s"
      "\<forall>k. k < j \<or> j + N < k \<longrightarrow> upt s2 k = upt s k"
      "case res of None \<Rightarrow> \<forall>k. j \<le> k \<longrightarrow> k \<le> j + N \<longrightarrow> upt s2 k = None
       | Some i \<Rightarrow> i = (N + 1) * PGSIZE \<and> (\<forall>k. j \<le> k \<longrightarrow> k < j + N \<longrightarrow> contp s2 k) \<and> endp s2 (j + N)"
      using malloc_pages_spec [OF hb, of 0 N n j] N un unfolding j s1 by (auto split: option.splits)
    show ?thesis
    proof (cases res)
      case None
      have "upt s2 = upt s1"
      proof
        fix k show "upt s2 k = upt s1 k" using s2(5,6) None un s1(1) by (cases "k < j \<or> j + N < k") auto
      qed
      then have "heap_inv s2 L" using heap_inv_same [OF i1 s2(2)] s2(3,4) s1 by simp
      moreover have "malloc_new n s = Some (0, s2)" using fs(1) Some v(1) s2(1) None by (simp add: malloc_new_def s1_def)
      moreover have "block_bytes s2 c = block_bytes s c" for c
        using block_bytes_same [of s2 s] \<open>upt s2 = upt s1\<close> s1 s2(4) by simp
      ultimately show ?thesis by auto
    next
      case i: (Some i)
      have s2': "i = (N + 1) * PGSIZE" "\<forall>k. j \<le> k \<longrightarrow> k < j + N \<longrightarrow> contp s2 k" "endp s2 (j + N)" using s2(6) i by simp_all
      obtain p where p: "upt s2 (j + N) = Some p" using s2'(3) by (auto simp: endp_def)
      have ad: "m + i - 4 = (j + N) * PGSIZE + (PGSIZE - 4)" unfolding j s2'(1) by (simp add: add_mult_distrib)
      obtain s3 where s3: "ust32 ((j + N) * PGSIZE + (PGSIZE - 4)) 2 s2 = Some s3" "s3 = s2\<lparr>uframe := uframe s3\<rparr>" "heap_base s3"
        "page_bytes s3 = (page_bytes s2)(j + N \<mapsto> wr32 (uframe s2 (pg_frame p)) (PGSIZE - 4) 2)"
        using set_ref [OF s2(2) hp(2) p, of 2] by blast
      define t where "t = s3\<lparr>mptr := m + n\<rparr>"
      have us: "upt s3 = upt s2" by (subst s3(2)) simp
      have t: "upt t = upt s2" "page_bytes t = page_bytes s3" by (simp_all add: t_def us page_bytes_def fun_eq_iff)
      have "malloc_new n s = Some (m, t)"
        using fs(1) Some v(1) s2(1) i s3(1) ad by (simp add: malloc_new_def s1_def t_def)
      moreover have "heap_inv t ((j * PGSIZE, n) # L) \<and> (\<forall>c \<in> set L. block_bytes t c = block_bytes s1 c)"
      proof -
        have m1: "mptr s1 mod PGSIZE = 0" using fs(2) s1 by simp
        have "heap_base t" using s3(3) by (simp add: t_def heap_base_def umem_inv_def maps_to_def)
        moreover have "mptr t = j * PGSIZE + n" by (simp add: t_def j)
        moreover have "\<forall>k. k < j \<or> j + N < k \<longrightarrow> upt t k = upt s1 k \<and> page_bytes t k = page_bytes s1 k"
          using s2(4,5) s1 by (auto simp: t s3(4) page_bytes_def)
        moreover have "\<forall>k. j \<le> k \<longrightarrow> k < j + N \<longrightarrow> contp t k" "endp t (j + N)" using s2'(2,3) by (simp_all add: contp_def endp_def t)
        moreover have "refc t (j + N) = 2" by (simp add: refc_def t s3(4))
        ultimately show ?thesis using new_block_inv [OF i1 m1 N n hp un] by blast
      qed
      moreover have "block_bytes s1 c = block_bytes s c" for c by (rule block_bytes_same [OF s1(1,2)])
      moreover have "m \<noteq> 0" using fs(3) by simp
      ultimately show ?thesis by (auto simp: j)
    qed
  qed
qed

section \<open>What the heap promises\<close>

lemma ROUNDUP64_mod4: "unat (ROUNDUP64 sz 4) mod 4 = 0"
proof -
  have "unat (x - x mod 4) = unat x - unat x mod 4" for x :: u64
    by (simp add: unat_sub word_le_nat_alt unat_mod)
  then have "unat (ROUNDUP64 sz 4) = unat (sz + 4 - 1) - unat (sz + 4 - 1) mod 4" by (simp only: ROUNDUP64_def ROUNDDOWN64_def)
  moreover have "(x - x mod 4) mod 4 = 0" for x :: nat by (simp add: minus_mod_eq_mult_div)
  ultimately show ?thesis by (simp only:)
qed

lemma block_readable:
  assumes "heap_inv s (b # L)" "i < snd b"
  shows "uld8 (fst b + i) s \<noteq> None"
proof -
  have "block_ok s b" using assms(1) by (simp add: heap_inv_def)
  then have "upt s (vpn (fst b + i)) \<noteq> None" using vpn_le_last(2) [OF assms(2)] block_mapped by blast
  then show ?thesis by (auto simp: uld8_def)
qed

lemma find_space_inside:
  assumes "find_space n nwrap mp s = Some y"
  shows "mp < MEND"
proof (rule find_space.raw_induct [where P = "\<lambda>n nwrap mp s y. mp < MEND", OF _ assms])
  fix f n nwrap mp s y
  assume IH: "\<And>n nwrap mp s y. f n nwrap mp s = Some y \<Longrightarrow> mp < MEND"
    and eq: "(if isfree mp (n + 4) s then Some (Some mp, mp)
      else if mp + PGSIZE = MEND then if nwrap + 1 = 2 then Some (None, MBEGIN) else f n (nwrap + 1) MBEGIN s
      else f n nwrap (mp + PGSIZE) s) = Some y"
  show "mp < MEND"
  proof (rule ccontr)
    assume mp: "\<not> mp < MEND"
    then have "\<not> isfree mp (n + 4) s" unfolding isfree_def by (subst isfree_loop.simps) simp
    then have "f n nwrap (mp + PGSIZE) s = Some y" using eq mp by simp
    from IH [OF this] mp show False by simp
  qed
qed

lemma find_space_past_end: "MEND \<le> mp \<Longrightarrow> find_space n nwrap mp s = None"
  using find_space_inside [of n nwrap mp s] by (cases "find_space n nwrap mp s") auto

text \<open>The outcome of \<open>malloc\<close>: it does not return only when the pointer stands in the last page.\<close>

definition malloc_ok :: "nat \<Rightarrow> heap \<Rightarrow> (nat \<times> nat) list \<Rightarrow> nat \<Rightarrow> heap \<Rightarrow> bool" where
  "malloc_ok n s L v s' \<longleftrightarrow> (\<forall>c \<in> set L. block_bytes s' c = block_bytes s c) \<and>
     (v = 0 \<and> heap_inv s' L \<or>
      v \<noteq> 0 \<and> heap_inv s' ((v, n) # L) \<and> (\<forall>i < n. uld8 (v + i) s' \<noteq> None) \<and> (\<forall>c \<in> set L. apart (v, n) c))"

lemma malloc_okI:
  assumes "v = 0 \<and> heap_inv s' L \<or> v \<noteq> 0 \<and> heap_inv s' ((v, n) # L)" "\<forall>c \<in> set L. block_bytes s' c = block_bytes s c"
  shows "malloc_ok n s L v s'"
proof -
  have "(\<forall>i < n. uld8 (v + i) s' \<noteq> None) \<and> (\<forall>c \<in> set L. apart (v, n) c)" if "heap_inv s' ((v, n) # L)"
    using block_readable [OF that] that by (simp add: heap_inv_def)
  with assms show ?thesis unfolding malloc_ok_def by blast
qed

lemma malloc_cases:
  assumes "heap_inv s L" "length L < 2 ^ 32 - 2"
  shows "malloc sz s = None \<and> MEND - PGSIZE \<le> mptr s \<or> (\<exists>v s'. malloc sz s = Some (v, s') \<and> malloc_ok (unat (ROUNDUP64 sz 4)) s L v s')"
proof -
  define n where "n = unat (ROUNDUP64 sz 4)"
  have n4: "n mod 4 = 0" unfolding n_def by (rule ROUNDUP64_mod4)
  define s0 where "s0 = (if mptr s = 0 then s\<lparr>mptr := MBEGIN\<rparr> else s)"
  have i0: "heap_inv s0 L" using heap_inv_mptr [OF assms(1), of MBEGIN] assms(1) by (simp add: s0_def)
  have b0: "block_bytes s0 c = block_bytes s c" for c by (rule block_bytes_same) (simp_all add: s0_def)
  have mp: "MBEGIN \<le> mptr s0" "mptr s0 \<le> MEND" "mptr s0 < MEND - PGSIZE \<or> MEND - PGSIZE \<le> mptr s"
    using assms(1) by (auto simp: s0_def heap_inv_def)
  have ok: "malloc_ok n s L v s'" if "v = 0 \<and> heap_inv s' L \<or> v \<noteq> 0 \<and> heap_inv s' ((v, n) # L)"
    "\<forall>c \<in> set L. block_bytes s' c = block_bytes s0 c" for v s' using that malloc_okI b0 by simp
  have new: "malloc_new n t = None \<and> mptr t = MEND \<or> (\<exists>v s'. malloc_new n t = Some (v, s') \<and> malloc_ok n s L v s')"
    if t: "heap_inv t L" "mptr t mod PGSIZE = 0" "MBEGIN \<le> mptr t" "\<forall>c \<in> set L. block_bytes t c = block_bytes s0 c" for t
  proof (cases "mptr t = MEND")
    case True
    then show ?thesis by (simp add: malloc_new_def find_space_past_end)
  next
    case False
    then have "mptr t < MEND" using t(1,3) by (auto simp: heap_inv_def)
    from malloc_new_spec [OF t(1-3) this n4] obtain v s' where "malloc_new n t = Some (v, s')"
      "v = 0 \<and> heap_inv s' L \<or> v \<noteq> 0 \<and> heap_inv s' ((v, n) # L)" "\<forall>c \<in> set L. block_bytes s' c = block_bytes t c" by blast
    then show ?thesis using ok t(4) by auto
  qed
  consider (big) "n \<ge> MAXMALLOC" | (aligned) "n < MAXMALLOC" "mptr s0 mod PGSIZE = 0"
    | (fits) "n < MAXMALLOC" "mptr s0 mod PGSIZE \<noteq> 0" "mptr s0 div PGSIZE = (mptr s0 + n + 3) div PGSIZE"
    | (close) "n < MAXMALLOC" "mptr s0 mod PGSIZE \<noteq> 0" "mptr s0 div PGSIZE \<noteq> (mptr s0 + n + 3) div PGSIZE" by fastforce
  then have "malloc sz s = None \<and> MEND - PGSIZE \<le> mptr s \<or> (\<exists>v s'. malloc sz s = Some (v, s') \<and> malloc_ok n s L v s')"
  proof cases
    case big
    then have "malloc sz s = Some (0, s0)" by (simp add: malloc_def Let_def n_def s0_def)
    then show ?thesis using i0 ok by simp
  next
    case aligned
    then have "malloc sz s = malloc_new n s0" by (simp add: malloc_def Let_def n_def s0_def)
    then show ?thesis using new [OF i0 aligned(2) mp(1)] mp(3) by auto
  next
    case fits
    from malloc_open [OF i0 fits(2) n4 fits(3) assms(2)] obtain r s1 where s1: "uld32 (ROUNDUP (mptr s0) PGSIZE - 4) s0 = Some r"
      "ust32 (ROUNDUP (mptr s0) PGSIZE - 4) (r + 1) s0 = Some s1" "heap_inv (s1\<lparr>mptr := mptr s0 + n\<rparr>) ((mptr s0, n) # L)"
      "\<forall>c \<in> set L. block_bytes s1 c = block_bytes s0 c" by blast
    have "malloc sz s = Some (mptr s0, s1\<lparr>mptr := mptr s0 + n\<rparr>)"
      using fits s1(1,2) unfolding malloc_def Let_def n_def [symmetric] s0_def [symmetric] by simp
    moreover have "block_bytes (s1\<lparr>mptr := mptr s0 + n\<rparr>) c = block_bytes s1 c" for c by (rule block_bytes_same) simp_all
    ultimately show ?thesis using s1(3,4) mp(1) ok by simp
  next
    case close
    from close_page [OF i0 close(2)] obtain s1 where s1: "free (mptr s0) s0 = Some s1"
      "heap_inv (s1\<lparr>mptr := ROUNDDOWN (mptr s0 + PGSIZE) PGSIZE\<rparr>) L" "\<forall>c \<in> set L. block_bytes s1 c = block_bytes s0 c" by blast
    let ?t = "s1\<lparr>mptr := ROUNDDOWN (mptr s0 + PGSIZE) PGSIZE\<rparr>"
    have eq: "malloc sz s = malloc_new n ?t"
      using close s1(1) unfolding malloc_def Let_def n_def [symmetric] s0_def [symmetric] by simp
    have t: "mptr ?t mod PGSIZE = 0" "MBEGIN \<le> mptr ?t" "mptr ?t = MEND \<Longrightarrow> MEND - PGSIZE \<le> mptr s0"
      using mp page_bounds(1) [of "mptr s0"] unfolding next_page by (simp_all add: next_page) (simp add: vpn_def)
    have "\<forall>c \<in> set L. block_bytes ?t c = block_bytes s0 c" using s1(3) block_bytes_same [of ?t s1] by simp
    from new [OF s1(2) t(1,2) this] show ?thesis unfolding eq using t(3) mp(3) by auto
  qed
  then show ?thesis by (simp only: n_def)
qed


text \<open>Freeing a live block succeeds, takes it out of the heap, and leaves every other live block where it
  is with its bytes: pages go back to the kernel only when no block uses them any more.\<close>

theorem free_keeps_other_blocks:
  assumes "heap_inv s (xs @ b # ys)"
  shows "\<exists>s'. free (fst b) s = Some s' \<and> heap_inv s' (xs @ ys) \<and> (\<forall>c \<in> set (xs @ ys). block_bytes s' c = block_bytes s c)"
  using free_block [OF assms] by blast

text \<open>When the open page is the last one of the heap and a request does not fit into it, \<open>malloc\<close> never
  returns: the pointer moves to the end of the heap, and the test for the end comes after the next step.\<close>

theorem malloc_runs_off_end:
  assumes "heap_inv s L" "vpn (mptr s) = MEND div PGSIZE - 1" "mptr s mod PGSIZE \<noteq> 0"
    "unat (ROUNDUP64 sz 4) < MAXMALLOC" "MEND \<le> mptr s + unat (ROUNDUP64 sz 4) + 3"
  shows "malloc sz s = None"
proof -
  from close_page [OF assms(1,3)] obtain s1 where s1: "free (mptr s) s = Some s1" by blast
  have "mptr s div PGSIZE \<noteq> (mptr s + unat (ROUNDUP64 sz 4) + 3) div PGSIZE"
    using assms(2) div_le_mono [OF assms(5), of PGSIZE] by (simp add: vpn_def)
  moreover have "mptr s \<noteq> 0" using assms(3) by auto
  ultimately have "malloc sz s = malloc_new (unat (ROUNDUP64 sz 4)) (s1\<lparr>mptr := ROUNDDOWN (mptr s + PGSIZE) PGSIZE\<rparr>)"
    using assms(3,4) s1 by (simp add: malloc_def Let_def)
  also have "\<dots> = None"
    unfolding malloc_new_def next_page assms(2) by (simp add: find_space_past_end)
  finally show ?thesis .
qed

text \<open>A heap with one small block in its first page, and one whose last page is open.\<close>

definition small_heap :: "nat \<Rightarrow> nat \<Rightarrow> heap" where
  "small_heap k m = \<lparr>upt = (\<lambda>n. if n = k then Some \<lparr>pg_frame = 1, pg_perm = 7\<rparr> else None), uframe = (\<lambda>_. wr32 (\<lambda>_. 0) 4092 2),
     uref = (\<lambda>f. if f = 1 then 1 else 0), ufree = [2], krets = [], mptr = m\<rparr>"

lemma small_heap_inv:
  assumes "hpage k" "0 < n" "n < 4092" "n mod 4 = 0"
  shows "heap_inv (small_heap k (k * PGSIZE + n)) [(k * PGSIZE, n)]"
proof -
  let ?s = "small_heap k (k * PGSIZE + n)" and ?b = "(k * PGSIZE, n)"
  have m: "maps_to ?s f = (if f = 1 then {k} else {})" for f by (auto simp: maps_to_def small_heap_def split: if_splits)
  have hb: "heap_base ?s" unfolding heap_base_def umem_inv_def m by (auto simp: small_heap_def split: if_splits)
  have e: "endp ?s j \<longleftrightarrow> j = k" for j by (simp add: endp_def small_heap_def)
  have r: "refc ?s k = 2" by (simp add: refc_def page_bytes_def small_heap_def)
  have lb: "last_pg ?b = k" unfolding last_pg_def using assms(3) by (intro div_nat_eqI) simp_all
  have mp: "mptr ?s = k * PGSIZE + n" by (simp add: small_heap_def)
  have v: "vpn (k * PGSIZE + n) = k" unfolding vpn_def using assms(3) by (intro div_nat_eqI) simp_all
  have md: "(k * PGSIZE + n) mod PGSIZE = n" "(k * PGSIZE + n) mod 4 = 0"
    using assms(2,3,4) page_mod4 [of "k * PGSIZE"] by (simp_all add: mod_add_eq [symmetric])
  have bk: "block_ok ?s ?b" unfolding block_ok_def lb fst_conv mult_page(1) using assms(1) e by (simp add: hpage_def)
  have o: "is_open ?s k" using assms(2) unfolding is_open_def mp v md by simp
  show ?thesis unfolding heap_inv_def mp v md e using hb bk r lb assms o by (auto simp: hpage_def cnt_simps cnt_def)
qed


theorem free_keeps_other_blocks_witness:
  "\<exists>s'. free (32768 * PGSIZE) (small_heap 32768 (32768 * PGSIZE + 8)) = Some s' \<and> heap_inv s' []"
  using free_keeps_other_blocks [of "small_heap 32768 (32768 * PGSIZE + 8)" "[]" "(32768 * PGSIZE, 8)" "[]"]
    small_heap_inv [of 32768 8] by (simp add: hpage_def)

theorem malloc_runs_off_end_witness: "malloc 4096 (small_heap 65535 (65535 * PGSIZE + 8)) = None"
proof -
  have n: "unat (ROUNDUP64 4096 4) = 4096" by (simp add: ROUNDUP64_def ROUNDDOWN64_def)
  show ?thesis
    by (rule malloc_runs_off_end [OF small_heap_inv [of 65535 8]]) (simp_all add: hpage_def small_heap_def vpn_def n)
qed

end
