(* ===== verification/Lib_Console.thy ===== *)
theory Lib_Console
  imports Lib_Fd Lib_Printfmt
begin

text \<open>
  The console of a user environment and the printing functions on top of it: \<^verbatim>\<open>lib/console.c\<close>,
  \<^verbatim>\<open>lib/printf.c\<close>, \<^verbatim>\<open>lib/fprintf.c\<close> and \<^verbatim>\<open>kern/printf.c\<close>.

  The text that a format produces is the result of \<open>vprintfmt\<close>; the functions here buffer it and hand it on.
  \<open>cons_out\<close> lists the buffers given to \<open>sys_cputs\<close>, \<open>cons_in\<close> the results of the coming calls of
  \<open>sys_cgetc\<close> (0 is "no character yet").
\<close>

record cworld = umem +
  cons_out :: "u8 list list"
  cons_in :: "int list"

abbreviation DEV_CONS :: u32 where "DEV_CONS \<equiv> 0x63"
abbreviation CONS_RDWR :: u32 where "CONS_RDWR \<equiv> 2"

section \<open>The console device\<close>

definition u_cputs :: "u8 list \<Rightarrow> 'a cworld_scheme \<Rightarrow> 'a cworld_scheme" where
  "u_cputs bs s = s\<lparr>cons_out := cons_out s @ [bs]\<rparr>"

definition cputchar :: "u8 \<Rightarrow> 'a cworld_scheme \<Rightarrow> 'a cworld_scheme" where
  "cputchar c s = u_cputs [c] s"

definition iscons :: "int \<Rightarrow> 'a umem_scheme \<Rightarrow> int option" where
  "iscons fdnum s =
     (case fd_lookup fdnum s of
        (r, None) \<Rightarrow> Some r
      | (_, Some fd) \<Rightarrow> do { i \<leftarrow> uld32 fd s; Some (of_bool (i = DEV_CONS)) })"

definition opencons :: "'a umem_scheme \<Rightarrow> (int \<times> 'a umem_scheme) option" where
  "opencons s =
     (case fd_alloc s of
        (r, None) \<Rightarrow> Some (r, s)
      | (_, Some fd) \<Rightarrow>
          let (r, s1) = u_page_alloc fd PIPE_PERM s in
          if r < 0 then Some (r, s1)
          else do {
            s2 \<leftarrow> ust32 fd DEV_CONS s1;
            s3 \<leftarrow> ust32 (fd + 8) CONS_RDWR s2;
            Some (int (fd2num fd), s3) })"

fun cgetc_loop :: "int list \<Rightarrow> (int \<times> int list) option" where
  "cgetc_loop [] = None"
| "cgetc_loop (c # cs) = (if c = 0 then cgetc_loop cs else Some (c, cs))"

definition devcons_read :: "nat \<Rightarrow> nat \<Rightarrow> 'a cworld_scheme \<Rightarrow> (int \<times> u8 list \<times> 'a cworld_scheme) option" where
  "devcons_read fd n s =
     (if n = 0 then Some (0, [], s)
      else do {
        (c, cs) \<leftarrow> cgetc_loop (cons_in s);
        let s1 = s\<lparr>cons_in := cs\<rparr>;
        if c < 0 then Some (c, [], s1)
        else if c = 0x04 then Some (0, [], s1)
        else Some (1, [word_of_int c], s1) })"

function devcons_loop :: "nat \<Rightarrow> u8 list \<Rightarrow> 'a cworld_scheme \<Rightarrow> nat \<times> 'a cworld_scheme" where
  "devcons_loop tot bs s =
     (if tot < length bs then
        let m = (if length bs - tot > 127 then 127 else length bs - tot)
        in devcons_loop (tot + m) bs (u_cputs (take m (drop tot bs)) s)
      else (tot, s))"
  by pat_completeness auto
termination by (relation "measure (\<lambda>(tot, bs, s). length bs - tot)") auto

declare devcons_loop.simps [simp del]

definition devcons_write :: "nat \<Rightarrow> u8 list \<Rightarrow> 'a cworld_scheme \<Rightarrow> (int \<times> 'a cworld_scheme) option" where
  "devcons_write fd bs s = (case devcons_loop 0 bs s of (tot, s1) \<Rightarrow> Some (int tot, s1))"

definition devcons_close :: "nat \<Rightarrow> 'a cworld_scheme \<Rightarrow> (int \<times> 'a cworld_scheme) option" where
  "devcons_close fd s = Some (0, s)"

definition devcons_stat :: "nat \<Rightarrow> fstat_buf \<Rightarrow> 'a cworld_scheme \<Rightarrow> (int \<times> fstat_buf \<times> 'a cworld_scheme) option" where
  "devcons_stat fd st s = Some (0, st\<lparr>st_name := [0x3C, 0x63, 0x6F, 0x6E, 0x73, 0x3E]\<rparr>, s)"

definition devcons :: "'a cworld_scheme dev" where
  "devcons = \<lparr>dev_id = DEV_CONS, dev_read = Some devcons_read, dev_write = Some devcons_write, dev_close = Some devcons_close,
     dev_stat = Some devcons_stat, dev_trunc = None\<rparr>"

definition getchar :: "'a umem_scheme dev list \<Rightarrow> 'a umem_scheme \<Rightarrow> (int \<times> 'a umem_scheme) option" where
  "getchar devtab s = do {
     (r, bs, s1) \<leftarrow> fd_read devtab 0 1 s;
     if r < 0 then Some (r, s1)
     else if r < 1 then Some (- E_EOF, s1)
     else case bs of c # _ \<Rightarrow> Some (uint c, s1) | [] \<Rightarrow> None }"

section \<open>Printing to a descriptor\<close>

record printbuf =
  pb_idx :: nat
  pb_result :: int
  pb_error :: int
  pb_buf :: "u8 list"

definition writebuf :: "(u8 list \<Rightarrow> 's \<Rightarrow> (int \<times> 's) option) \<Rightarrow> printbuf \<times> 's \<Rightarrow> (printbuf \<times> 's) option" where
  "writebuf wr p =
     (case p of (b, s) \<Rightarrow>
        if pb_error b > 0 then do {
          (result, s1) \<leftarrow> wr (take (pb_idx b) (pb_buf b)) s;
          let b1 = (if result > 0 then b\<lparr>pb_result := pb_result b + result\<rparr> else b);
          let b2 = (if result \<noteq> int (pb_idx b) then b1\<lparr>pb_error := (if result < 0 then result else 0)\<rparr> else b1);
          Some (b2, s1) }
        else Some (b, s))"

definition fputch :: "(u8 list \<Rightarrow> 's \<Rightarrow> (int \<times> 's) option) \<Rightarrow> u32 \<Rightarrow> printbuf \<times> 's \<Rightarrow> (printbuf \<times> 's) option" where
  "fputch wr ch p =
     (case p of (b, s) \<Rightarrow>
        let b1 = b\<lparr>pb_buf := (pb_buf b)[pb_idx b := ucast ch], pb_idx := pb_idx b + 1\<rparr> in
        if pb_idx b1 = 256 then do { (b2, s2) \<leftarrow> writebuf wr (b1, s); Some (b2\<lparr>pb_idx := 0\<rparr>, s2) }
        else Some (b1, s))"

fun putches :: "(u32 \<Rightarrow> 'p \<Rightarrow> 'p option) \<Rightarrow> u32 list \<Rightarrow> 'p \<Rightarrow> 'p option" where
  "putches put [] p = Some p"
| "putches put (c # cs) p = do { p1 \<leftarrow> put c p; putches put cs p1 }"

definition vfprintf :: "(u8 list \<Rightarrow> 's \<Rightarrow> (int \<times> 's) option) \<Rightarrow> u8 list \<Rightarrow> u8 list \<Rightarrow> parg list \<Rightarrow> 's \<Rightarrow> (int \<times> 's) option" where
  "vfprintf wr junk fmt ap s = do {
     out \<leftarrow> vprintfmt fmt ap;
     (b, s1) \<leftarrow> putches (fputch wr) out (\<lparr>pb_idx = 0, pb_result = 0, pb_error = 1, pb_buf = junk\<rparr>, s);
     (b2, s2) \<leftarrow> (if pb_idx b > 0 then writebuf wr (b, s1) else Some (b, s1));
     Some (if pb_result b2 \<noteq> 0 then pb_result b2 else pb_error b2, s2) }"

definition fprintf :: "'a umem_scheme dev list \<Rightarrow> int \<Rightarrow> u8 list \<Rightarrow> u8 list \<Rightarrow> parg list \<Rightarrow> 'a umem_scheme \<Rightarrow> (int \<times> 'a umem_scheme) option" where
  "fprintf devtab fd junk fmt ap s = vfprintf (fd_write devtab fd) junk fmt ap s"

definition printf :: "'a umem_scheme dev list \<Rightarrow> u8 list \<Rightarrow> u8 list \<Rightarrow> parg list \<Rightarrow> 'a umem_scheme \<Rightarrow> (int \<times> 'a umem_scheme) option" where
  "printf devtab junk fmt ap s = fprintf devtab 1 junk fmt ap s"

section \<open>Printing to the console\<close>

record cprintbuf =
  cb_idx :: nat
  cb_cnt :: nat
  cb_buf :: "u8 list"

definition cputch :: "u32 \<Rightarrow> cprintbuf \<times> 'a cworld_scheme \<Rightarrow> (cprintbuf \<times> 'a cworld_scheme) option" where
  "cputch ch p =
     (case p of (b, s) \<Rightarrow>
        let b1 = b\<lparr>cb_buf := (cb_buf b)[cb_idx b := ucast ch], cb_idx := cb_idx b + 1\<rparr>;
            (b2, s2) = (if cb_idx b1 = 255 then (b1\<lparr>cb_idx := 0\<rparr>, u_cputs (take (cb_idx b1) (cb_buf b1)) s) else (b1, s))
        in Some (b2\<lparr>cb_cnt := cb_cnt b2 + 1\<rparr>, s2))"

definition vcprintf :: "u8 list \<Rightarrow> u8 list \<Rightarrow> parg list \<Rightarrow> 'a cworld_scheme \<Rightarrow> (int \<times> 'a cworld_scheme) option" where
  "vcprintf junk fmt ap s = do {
     out \<leftarrow> vprintfmt fmt ap;
     (b, s1) \<leftarrow> putches cputch out (\<lparr>cb_idx = 0, cb_cnt = 0, cb_buf = junk\<rparr>, s);
     Some (sint (of_nat (cb_cnt b) :: u32), u_cputs (take (cb_idx b) (cb_buf b)) s1) }"

text \<open>The kernel's version: \<open>*cnt++\<close> moves the pointer and leaves the counter as it is.\<close>

definition kputch :: "u32 \<Rightarrow> int \<times> u32 list \<Rightarrow> (int \<times> u32 list) option" where
  "kputch ch p = (case p of (cnt, out) \<Rightarrow> Some (cnt, out @ [ch]))"

definition kvcprintf :: "u8 list \<Rightarrow> parg list \<Rightarrow> u32 list \<Rightarrow> (int \<times> u32 list) option" where
  "kvcprintf fmt ap console = do {
     out \<leftarrow> vprintfmt fmt ap;
     putches kputch out (0, console) }"

section \<open>A sink of bytes\<close>

text \<open>What printing needs of the function it writes with: a call accepts a prefix of the bytes and returns its length, or
  returns an error and accepts nothing.\<close>

locale byte_sink =
  fixes ok :: "'s \<Rightarrow> bool"
    and wr :: "u8 list \<Rightarrow> 's \<Rightarrow> (int \<times> 's) option"
    and sunk :: "'s \<Rightarrow> u8 list"
  assumes write_prefix: "ok s \<Longrightarrow> bs \<noteq> [] \<Longrightarrow>
    \<exists>r s'. wr bs s = Some (r, s') \<and> ok s' \<and> r \<le> int (length bs) \<and> sunk s' = sunk s @ take (nat r) bs"
begin

text \<open>The state of the buffer after the characters \<open>p\<close>: while no write has failed, the bytes not yet written are in the
  buffer; after that nothing more is written.\<close>

definition printed :: "'s \<Rightarrow> u8 list \<Rightarrow> printbuf \<times> 's \<Rightarrow> bool" where
  "printed s0 p q \<longleftrightarrow> (case q of (b, s) \<Rightarrow> ok s \<and> length (pb_buf b) = 256 \<and> pb_idx b < 256 \<and>
     (if pb_error b > 0
      then pb_error b = 1 \<and> pb_idx b \<le> length p \<and> pb_result b = int (length p - pb_idx b) \<and>
        sunk s = sunk s0 @ take (length p - pb_idx b) p \<and> take (pb_idx b) (pb_buf b) = drop (length p - pb_idx b) p
      else \<exists>k < length p. pb_result b = int k \<and> sunk s = sunk s0 @ take k p))"

lemma writebuf_spec:
  assumes p: "ok s" "pb_error b = 1" "0 < pb_idx b" "pb_idx b \<le> length p" "pb_result b = int (length p - pb_idx b)"
    "sunk s = sunk s0 @ take (length p - pb_idx b) p" "take (pb_idx b) (pb_buf b) = drop (length p - pb_idx b) p"
  shows "\<exists>b' s'. writebuf wr (b, s) = Some (b', s') \<and> ok s' \<and> pb_idx b' = pb_idx b \<and> pb_buf b' = pb_buf b \<and>
    (if pb_error b' > 0 then pb_error b' = 1 \<and> pb_result b' = int (length p) \<and> sunk s' = sunk s0 @ p
     else \<exists>k < length p. pb_result b' = int k \<and> sunk s' = sunk s0 @ take k p)"
proof -
  let ?n = "length p - pb_idx b" and ?bs = "take (pb_idx b) (pb_buf b)"
  have l: "length ?bs = pb_idx b" "?bs \<noteq> []" using p(3,4) unfolding p(7) by auto
  from write_prefix [OF p(1) l(2)] obtain r s1 where w: "wr ?bs s = Some (r, s1)" "ok s1" "r \<le> int (pb_idx b)"
    "sunk s1 = sunk s @ take (nat r) ?bs" using l(1) by auto
  have n: "?n + nat r \<le> length p" using w(3) p(4) by auto
  have sk: "sunk s1 = sunk s0 @ take (?n + nat r) p" using w(4) p(6) unfolding p(7) by (simp add: take_add)
  show ?thesis
  proof (cases "r = int (pb_idx b)")
    case True
    then have "?n + nat r = length p" using p(4) by simp
    with sk have "sunk s1 = sunk s0 @ p" by simp
    moreover have "pb_result b + r = int (length p)" using True p(4,5) by simp
    ultimately show ?thesis using True w(1,2) p(2,3) by (simp add: writebuf_def)
  next
    case False
    let ?b1 = "if r > 0 then b\<lparr>pb_result := pb_result b + r\<rparr> else b"
    let ?b2 = "?b1\<lparr>pb_error := (if r < 0 then r else 0)\<rparr>"
    have "writebuf wr (b, s) = Some (?b2, s1)" using w(1) p(2) False by (simp add: writebuf_def Let_def)
    moreover have "\<not> pb_error ?b2 > 0" by simp
    moreover have "?n + nat r < length p" using False w(3) p(3,4) by auto
    moreover have "pb_result ?b2 = int (?n + nat r)" using p(5) by simp
    ultimately show ?thesis using w(2) sk by (intro exI [of _ ?b2] exI [of _ s1]) auto
  qed
qed

lemma fputch_printed:
  assumes "printed s0 p q"
  shows "\<exists>q'. fputch wr c q = Some q' \<and> printed s0 (p @ [ucast c]) q'"
proof -
  obtain b s where q: "q = (b, s)" by (cases q)
  let ?p = "p @ [ucast c]"
  define b1 where "b1 = b\<lparr>pb_buf := (pb_buf b)[pb_idx b := ucast c], pb_idx := pb_idx b + 1\<rparr>"
  have base: "ok s" "length (pb_buf b) = 256" "pb_idx b < 256" using assms by (auto simp: printed_def q)
  have b1: "pb_idx b1 = Suc (pb_idx b)" "pb_error b1 = pb_error b" "pb_result b1 = pb_result b" "length (pb_buf b1) = 256"
    using base by (simp_all add: b1_def)
  have run: "fputch wr c q = (if pb_idx b1 = 256 then do { (b2, s2) \<leftarrow> writebuf wr (b1, s); Some (b2\<lparr>pb_idx := 0\<rparr>, s2) } else Some (b1, s))"
    by (simp add: fputch_def q b1_def)
  show ?thesis
  proof (cases "pb_error b > 0")
    case True
    then have e: "pb_error b = 1" "pb_idx b \<le> length p" "pb_result b = int (length p - pb_idx b)"
      "sunk s = sunk s0 @ take (length p - pb_idx b) p" "take (pb_idx b) (pb_buf b) = drop (length p - pb_idx b) p"
      using assms by (auto simp: printed_def q)
    have n: "length ?p - pb_idx b1 = length p - pb_idx b" using b1(1) by simp
    have "take (pb_idx b1) (pb_buf b1) = drop (length p - pb_idx b) ?p"
      using base e(2,5) by (simp add: b1_def take_Suc_conv_app_nth)
    then have e1: "pb_idx b1 \<le> length ?p" "pb_result b1 = int (length ?p - pb_idx b1)" "sunk s = sunk s0 @ take (length ?p - pb_idx b1) ?p"
      "take (pb_idx b1) (pb_buf b1) = drop (length ?p - pb_idx b1) ?p" "0 < pb_idx b1" unfolding n using b1 e by simp_all
    show ?thesis
    proof (cases "pb_idx b1 = 256")
      case False
      then have "printed s0 ?p (b1, s)" using e1 e(1) base b1 by (simp add: printed_def)
      then show ?thesis using run False by simp
    next
      case full: True
      from writebuf_spec [OF base(1) _ e1(5,1,2,3,4)] e(1) b1(2) obtain b2 s2 where w: "writebuf wr (b1, s) = Some (b2, s2)" "ok s2"
        "pb_idx b2 = pb_idx b1" "pb_buf b2 = pb_buf b1"
        "if pb_error b2 > 0 then pb_error b2 = 1 \<and> pb_result b2 = int (length ?p) \<and> sunk s2 = sunk s0 @ ?p
         else \<exists>k < length ?p. pb_result b2 = int k \<and> sunk s2 = sunk s0 @ take k ?p" by auto
      have "printed s0 ?p (b2\<lparr>pb_idx := 0\<rparr>, s2)" using w b1(4) by (auto simp: printed_def split: if_splits)
      then show ?thesis using run full w(1) by simp
    qed
  next
    case False
    then obtain k where k: "k < length p" "pb_result b = int k" "sunk s = sunk s0 @ take k p" using assms by (auto simp: printed_def q)
    have k': "\<exists>k < length ?p. pb_result b = int k \<and> sunk s = sunk s0 @ take k ?p" using k by (intro exI [of _ k]) simp
    have "writebuf wr (b1, s) = Some (b1, s)" using False b1(2) by (simp add: writebuf_def)
    then show ?thesis using run base b1 False k' by (auto simp: printed_def)
  qed
qed

lemma putches_printed:
  "printed s0 p q \<Longrightarrow> \<exists>q'. putches (fputch wr) cs q = Some q' \<and> printed s0 (p @ map ucast cs) q'"
proof (induction cs arbitrary: p q)
  case (Cons c cs)
  from fputch_printed [OF Cons.prems] obtain q1 where "fputch wr c q = Some q1" "printed s0 (p @ [ucast c]) q1" by blast
  with Cons.IH [of "p @ [ucast c]" q1] show ?case by simp
qed simp

lemma vfprintf_prefix:
  assumes "ok s" "vprintfmt fmt ap = Some out" "length junk = 256"
  shows "\<exists>r s' k. vfprintf wr junk fmt ap s = Some (r, s') \<and> ok s' \<and> k \<le> length out \<and> sunk s' = sunk s @ map ucast (take k out) \<and>
    (if k > 0 then r = int k else if out = [] then r = 1 else r \<le> 0)"
proof -
  let ?p = "map ucast out :: u8 list"
  have "printed s [] (\<lparr>pb_idx = 0, pb_result = 0, pb_error = 1, pb_buf = junk\<rparr>, s)" using assms(1,3) by (simp add: printed_def)
  from putches_printed [OF this, of out] obtain b s1 where q: "putches (fputch wr) out (\<lparr>pb_idx = 0, pb_result = 0, pb_error = 1, pb_buf = junk\<rparr>, s) = Some (b, s1)"
    "printed s ?p (b, s1)" by auto
  have fin: ?thesis
    if f: "(if pb_idx b > 0 then writebuf wr (b, s1) else Some (b, s1)) = Some (b2, s2)" "ok s2"
      "if pb_error b2 > 0 then pb_error b2 = 1 \<and> pb_result b2 = int (length ?p) \<and> sunk s2 = sunk s @ ?p
         else \<exists>k < length ?p. pb_result b2 = int k \<and> sunk s2 = sunk s @ take k ?p" for b2 s2
  proof -
    have run: "vfprintf wr junk fmt ap s = Some (if pb_result b2 \<noteq> 0 then pb_result b2 else pb_error b2, s2)"
      unfolding vfprintf_def assms(2) using q(1) f(1) by (simp split: if_splits)
    show ?thesis
    proof (cases "pb_error b2 > 0")
      case True
      show ?thesis
        by (rule exI [of _ "if pb_result b2 \<noteq> 0 then pb_result b2 else pb_error b2"], rule exI [of _ s2], rule exI [of _ "length out"]) (use run f True in auto)
    next
      case False
      with f(3) obtain k where k: "k < length ?p" "pb_result b2 = int k" "sunk s2 = sunk s @ take k ?p" by auto
      show ?thesis
        by (rule exI [of _ "if pb_result b2 \<noteq> 0 then pb_result b2 else pb_error b2"], rule exI [of _ s2], rule exI [of _ k]) (use run f(2) k False in \<open>auto simp: take_map\<close>)
    qed
  qed
  show ?thesis
  proof (cases "pb_error b > 0 \<and> pb_idx b > 0")
    case True
    then have e: "ok s1" "pb_error b = 1" "0 < pb_idx b" "pb_idx b \<le> length ?p" "pb_result b = int (length ?p - pb_idx b)"
      "sunk s1 = sunk s @ take (length ?p - pb_idx b) ?p" "take (pb_idx b) (pb_buf b) = drop (length ?p - pb_idx b) ?p"
      using q(2) by (auto simp: printed_def)
    from writebuf_spec [OF e] obtain b2 s2 where w: "writebuf wr (b, s1) = Some (b2, s2)" "ok s2"
      "if pb_error b2 > 0 then pb_error b2 = 1 \<and> pb_result b2 = int (length ?p) \<and> sunk s2 = sunk s @ ?p
       else \<exists>k < length ?p. pb_result b2 = int k \<and> sunk s2 = sunk s @ take k ?p" by blast
    show ?thesis by (rule fin [OF _ w(2,3)]) (simp add: e(3) w(1))
  next
    case False
    then have "(if pb_idx b > 0 then writebuf wr (b, s1) else Some (b, s1)) = Some (b, s1)" by (auto simp: writebuf_def)
    then show ?thesis by (rule fin) (use q(2) False in \<open>auto simp: printed_def split: if_splits\<close>)
  qed
qed

end

text \<open>A sink that never refuses anything.\<close>

locale total_sink = byte_sink +
  assumes write_all: "ok s \<Longrightarrow> bs \<noteq> [] \<Longrightarrow> wr bs s = Some (r, s') \<Longrightarrow> r = int (length bs)"
begin

lemma writebuf_whole:
  assumes "ok s" "pb_error b = 1" "0 < pb_idx b" "pb_idx b \<le> length (pb_buf b)" "writebuf wr (b, s) = Some (b', s')"
  shows "pb_error b' = 1"
proof -
  have l: "length (take (pb_idx b) (pb_buf b)) = pb_idx b" "take (pb_idx b) (pb_buf b) \<noteq> []" using assms(3,4) by auto
  from write_prefix [OF assms(1) l(2)] obtain r s1 where w: "wr (take (pb_idx b) (pb_buf b)) s = Some (r, s1)" by blast
  from write_all [OF assms(1) l(2) w] l(1) have "r = int (pb_idx b)" by simp
  then show ?thesis using assms(2,5) w by (auto simp: writebuf_def split: if_splits)
qed

lemma fputch_whole:
  assumes "printed s0 p q" "pb_error (fst q) = 1" "fputch wr c q = Some q'"
  shows "pb_error (fst q') = 1"
proof -
  obtain b s where q: "q = (b, s)" by (cases q)
  let ?b1 = "b\<lparr>pb_buf := (pb_buf b)[pb_idx b := ucast c], pb_idx := pb_idx b + 1\<rparr>"
  have b: "ok s" "length (pb_buf b) = 256" using assms(1) by (auto simp: printed_def q)
  show ?thesis
  proof (cases "pb_idx b + 1 = 256")
    case True
    with assms(3) obtain b2 s2 where w: "writebuf wr (?b1, s) = Some (b2, s2)" "q' = (b2\<lparr>pb_idx := 0\<rparr>, s2)"
      by (auto simp: fputch_def q bind_eq_Some_conv)
    from writebuf_whole [OF b(1) _ _ _ w(1)] assms(2) True b(2) w(2) show ?thesis by (simp add: q)
  next
    case False
    then show ?thesis using assms(2,3) by (auto simp: fputch_def q)
  qed
qed

lemma putches_whole:
  "printed s0 p q \<Longrightarrow> pb_error (fst q) = 1 \<Longrightarrow> putches (fputch wr) cs q = Some q' \<Longrightarrow> pb_error (fst q') = 1"
proof (induction cs arbitrary: p q)
  case (Cons c cs)
  from fputch_printed [OF Cons.prems(1), of c] obtain q1 where q1: "fputch wr c q = Some q1" "printed s0 (p @ [ucast c]) q1" by blast
  from Cons.IH [OF q1(2) fputch_whole [OF Cons.prems(1,2) q1(1)]] Cons.prems(3) q1(1) show ?case by simp
qed simp

lemma vfprintf_whole:
  assumes "ok s" "vprintfmt fmt ap = Some out" "length junk = 256"
  shows "\<exists>s'. vfprintf wr junk fmt ap s = Some (if out = [] then 1 else int (length out), s') \<and> ok s' \<and> sunk s' = sunk s @ map ucast out"
proof -
  let ?p = "map ucast out :: u8 list" and ?q = "(\<lparr>pb_idx = 0, pb_result = 0, pb_error = 1, pb_buf = junk\<rparr>, s)"
  have p0: "printed s [] ?q" using assms(1,3) by (simp add: printed_def)
  from putches_printed [OF p0, of out] obtain b s1 where q: "putches (fputch wr) out ?q = Some (b, s1)" "printed s ?p (b, s1)" by auto
  have e1: "pb_error b = 1" using putches_whole [OF p0 _ q(1)] by simp
  then have e: "ok s1" "pb_idx b \<le> length ?p" "pb_result b = int (length ?p - pb_idx b)" "length (pb_buf b) = 256" "pb_idx b < 256"
      "sunk s1 = sunk s @ take (length ?p - pb_idx b) ?p" "take (pb_idx b) (pb_buf b) = drop (length ?p - pb_idx b) ?p"
      using q(2) by (auto simp: printed_def)
  show ?thesis
  proof (cases "pb_idx b = 0")
    case True
    then show ?thesis unfolding vfprintf_def assms(2) using q(1) e e1 by simp
  next
    case False
    with writebuf_spec [OF e(1) e1 _ e(2,3,6,7)] obtain b2 s2 where w: "writebuf wr (b, s1) = Some (b2, s2)" "ok s2"
      "if pb_error b2 > 0 then pb_error b2 = 1 \<and> pb_result b2 = int (length ?p) \<and> sunk s2 = sunk s @ ?p
       else \<exists>k < length ?p. pb_result b2 = int k \<and> sunk s2 = sunk s @ take k ?p" by auto
    have "pb_error b2 = 1" using writebuf_whole [OF e(1) e1 _ _ w(1)] False e(4,5) by simp
    with w(3) have "pb_result b2 = int (length out)" "sunk s2 = sunk s @ ?p" by auto
    moreover have "out \<noteq> []" using False e(2) by auto
    ultimately show ?thesis unfolding vfprintf_def assms(2) using q(1) w(1,2) False by simp
  qed
qed

end

section \<open>The console accepts everything\<close>

lemma devcons_loop_spec:
  "tot \<le> length bs \<Longrightarrow> \<exists>ms. devcons_loop tot bs s = (length bs, s\<lparr>cons_out := cons_out s @ ms\<rparr>) \<and> concat ms = drop tot bs \<and>
     (\<forall>m \<in> set ms. length m \<le> 127)"
proof (induction tot bs s rule: devcons_loop.induct)
  case (1 tot bs s)
  show ?case
  proof (cases "tot < length bs")
    case True
    define m where "m = (if length bs - tot > 127 then 127 else length bs - tot)"
    let ?s1 = "u_cputs (take m (drop tot bs)) s"
    have m: "tot + m \<le> length bs" "m \<le> 127" using True by (auto simp: m_def)
    from "1.IH" [OF True m_def m(1)] obtain ms where ms: "devcons_loop (tot + m) bs ?s1 = (length bs, ?s1\<lparr>cons_out := cons_out ?s1 @ ms\<rparr>)"
      "concat ms = drop (tot + m) bs" "\<forall>m \<in> set ms. length m \<le> 127" by blast
    have "devcons_loop tot bs s = devcons_loop (tot + m) bs ?s1" using True by (subst devcons_loop.simps) (simp add: m_def Let_def)
    moreover have "take m (drop tot bs) @ drop (tot + m) bs = drop tot bs" by (metis add.commute append_take_drop_id drop_drop)
    ultimately show ?thesis using ms m(2) by (intro exI [of _ "take m (drop tot bs) # ms"]) (simp add: u_cputs_def)
  next
    case False
    then show ?thesis using 1 by (subst devcons_loop.simps) (auto intro!: exI [of _ "[]"])
  qed
qed

text \<open>A descriptor of the console, open for writing.\<close>

definition cons_fd :: "int \<Rightarrow> 'a umem_scheme \<Rightarrow> bool" where
  "cons_fd fdnum s \<longleftrightarrow> 0 \<le> fdnum \<and> fdnum < int MAXFD \<and> mapped_at (INDEX2FD fdnum) s \<and>
     uld32 (INDEX2FD fdnum) s = Some DEV_CONS \<and> uld32 (INDEX2FD fdnum + 8) s = Some CONS_RDWR"

lemma cons_fd_write:
  assumes "cons_fd fdnum s" "dev_lookup devtab DEV_CONS = (0, Some devcons)"
  shows "\<exists>ms. fd_write devtab fdnum bs s = Some (int (length bs), s\<lparr>cons_out := cons_out s @ ms\<rparr>) \<and> concat ms = bs \<and> (\<forall>m \<in> set ms. length m \<le> 127)"
proof -
  from devcons_loop_spec [of 0 bs s] obtain ms where "devcons_loop 0 bs s = (length bs, s\<lparr>cons_out := cons_out s @ ms\<rparr>)" "concat ms = bs"
    "\<forall>m \<in> set ms. length m \<le> 127" by auto
  moreover have "fd_write devtab fdnum bs s = devcons_write (INDEX2FD fdnum) bs s"
    using assms by (simp add: fd_write_def fd_open_def fd_lookup_def cons_fd_def devcons_def)
  ultimately show ?thesis by (intro exI [of _ ms]) (simp add: devcons_write_def)
qed

lemma cons_fd_out: "cons_fd fdnum (s\<lparr>cons_out := x\<rparr>) = cons_fd fdnum s"
  by (simp add: cons_fd_def mapped_at_def uld32_def cong: option.case_cong)

text \<open>A device table with the console in it.\<close>

interpretation cons_sink: total_sink "cons_fd fdnum" "fd_write (devcons # devtab) fdnum" "\<lambda>s. concat (cons_out s)" for fdnum devtab
proof (unfold_locales, goal_cases)
  case (1 s bs)
  have "dev_lookup (devcons # devtab) DEV_CONS = (0, Some devcons)" by (simp add: dev_lookup_def devcons_def)
  from cons_fd_write [OF 1(1) this, of bs] 1(1) show ?case by (auto simp: cons_fd_out)
next
  case (2 s bs r s')
  have "dev_lookup (devcons # devtab) DEV_CONS = (0, Some devcons)" by (simp add: dev_lookup_def devcons_def)
  from cons_fd_write [OF 2(1) this, of bs] 2(3) show ?case by auto
qed

text \<open>Printing to a descriptor of the console, with \<open>printf\<close> or \<open>fprintf\<close>, hands the formatted text to the console, whole
  and in order, and returns its length.  For an empty text the result is 1 instead of 0.\<close>

theorem fprintf_console_whole:
  assumes "cons_fd fdnum s" "vprintfmt fmt ap = Some out" "length junk = 256"
  shows "\<exists>s'. fprintf (devcons # devtab) fdnum junk fmt ap s = Some (if out = [] then 1 else int (length out), s') \<and>
    concat (cons_out s') = concat (cons_out s) @ map ucast out \<and> cons_fd fdnum s'"
  unfolding fprintf_def using cons_sink.vfprintf_whole [OF assms] by blast

text \<open>The characters in the buffer of \<open>cprintf\<close> and those handed out are the characters so far.\<close>

definition cprinted :: "'a cworld_scheme \<Rightarrow> u8 list \<Rightarrow> cprintbuf \<times> 'a cworld_scheme \<Rightarrow> bool" where
  "cprinted s0 p q \<longleftrightarrow> (case q of (b, s) \<Rightarrow> length (cb_buf b) = 256 \<and> cb_idx b < 255 \<and> cb_cnt b = length p \<and>
     (\<exists>ms. s = s0\<lparr>cons_out := cons_out s0 @ ms\<rparr> \<and> (\<forall>m \<in> set ms. length m = 255) \<and> concat ms @ take (cb_idx b) (cb_buf b) = p))"

lemma cputch_cprinted:
  assumes "cprinted s0 p q"
  shows "\<exists>q'. cputch c q = Some q' \<and> cprinted s0 (p @ [ucast c]) q'"
proof -
  obtain b s where q: "q = (b, s)" by (cases q)
  from assms obtain ms where b: "length (cb_buf b) = 256" "cb_idx b < 255" "cb_cnt b = length p" "s = s0\<lparr>cons_out := cons_out s0 @ ms\<rparr>"
    "\<forall>m \<in> set ms. length m = 255" "concat ms @ take (cb_idx b) (cb_buf b) = p" by (auto simp: cprinted_def q)
  let ?buf = "(cb_buf b)[cb_idx b := ucast c]"
  have t: "concat ms @ take (Suc (cb_idx b)) ?buf = p @ [ucast c]" using b by (simp add: take_Suc_conv_app_nth)
  show ?thesis
  proof (cases "cb_idx b + 1 = 255")
    case True
    then have "cputch c q = Some (b\<lparr>cb_buf := ?buf, cb_idx := 0, cb_cnt := cb_cnt b + 1\<rparr>, u_cputs (take 255 ?buf) s)" by (simp add: cputch_def q)
    moreover have "take (Suc (cb_idx b)) ?buf = take 255 ?buf" using True by simp
    moreover have "length (take 255 ?buf) = 255" using b(1) by simp
    ultimately show ?thesis using b t by (intro exI [of _ "(b\<lparr>cb_buf := ?buf, cb_idx := 0, cb_cnt := cb_cnt b + 1\<rparr>, u_cputs (take 255 ?buf) s)"])
      (auto simp: cprinted_def u_cputs_def simp del: length_take intro!: exI [of _ "ms @ [take 255 ?buf]"])
  next
    case False
    then have "cputch c q = Some (b\<lparr>cb_buf := ?buf, cb_idx := cb_idx b + 1, cb_cnt := cb_cnt b + 1\<rparr>, s)" by (simp add: cputch_def q)
    then show ?thesis using b t False by (auto simp: cprinted_def intro!: exI [of _ ms])
  qed
qed

lemma putches_cprinted:
  "cprinted s0 p q \<Longrightarrow> \<exists>q'. putches cputch cs q = Some q' \<and> cprinted s0 (p @ map ucast cs) q'"
proof (induction cs arbitrary: p q)
  case (Cons c cs)
  from cputch_cprinted [OF Cons.prems] obtain q1 where "cputch c q = Some q1" "cprinted s0 (p @ [ucast c]) q1" by blast
  with Cons.IH [of "p @ [ucast c]" q1] show ?case by simp
qed simp

lemma putches_kputch: "putches kputch cs (n, out) = Some (n, out @ cs)"
  by (induction cs arbitrary: out) (simp_all add: kputch_def)

text \<open>\<open>cprintf\<close> of a user environment hands the text to the kernel in full buffers of 255 bytes and one last call, and
  returns its length; the kernel's own \<open>cprintf\<close> prints the same text character by character but always returns 0, because
  its counter is never incremented.\<close>

theorem cprintf_user_and_kernel:
  assumes "vprintfmt fmt ap = Some out" "length junk = 256" "length out < 2 ^ 31"
  shows "\<exists>ms m. vcprintf junk fmt ap s = Some (int (length out), s\<lparr>cons_out := cons_out s @ ms @ [m]\<rparr>) \<and>
      concat ms @ m = map ucast out \<and> (\<forall>x \<in> set ms. length x = 255) \<and> length m < 255 \<and>
    kvcprintf fmt ap console = Some (0, console @ out)"
proof -
  have "cprinted s [] (\<lparr>cb_idx = 0, cb_cnt = 0, cb_buf = junk\<rparr>, s)" using assms(2) by (auto simp: cprinted_def intro!: exI [of _ "[]"])
  from putches_cprinted [OF this, of out] obtain b s1 where q: "putches cputch out (\<lparr>cb_idx = 0, cb_cnt = 0, cb_buf = junk\<rparr>, s) = Some (b, s1)"
    "cprinted s (map ucast out) (b, s1)" by auto
  then obtain ms where ms: "cb_idx b < 255" "cb_cnt b = length out" "s1 = s\<lparr>cons_out := cons_out s @ ms\<rparr>" "\<forall>m \<in> set ms. length m = 255"
    "concat ms @ take (cb_idx b) (cb_buf b) = map ucast out" by (auto simp: cprinted_def)
  have "sint (of_nat (length out) :: u32) = int (length out)" using assms(3) by (simp add: signed_of_nat signed_take_bit_int_eq_self)
  then have "vcprintf junk fmt ap s = Some (int (length out), s\<lparr>cons_out := cons_out s @ ms @ [take (cb_idx b) (cb_buf b)]\<rparr>)"
    unfolding vcprintf_def assms(1) using q(1) ms(2,3) by (simp add: u_cputs_def)
  moreover have "kvcprintf fmt ap console = Some (0, console @ out)" by (simp add: kvcprintf_def assms(1) putches_kputch)
  ultimately show ?thesis using ms by (intro exI [of _ ms] exI [of _ "take (cb_idx b) (cb_buf b)"]) simp
qed

section \<open>Opening the console\<close>

text \<open>Opening the console either fails and changes nothing, or gives the lowest unused descriptor, which is then a console
  descriptor, open for reading and writing; text printed to it arrives at the console.\<close>

theorem opencons_then_print:
  assumes "frames_ok s" "vprintfmt fmt ap = Some out" "length junk = 256" "out \<noteq> []"
  shows "\<exists>r s1. opencons s = Some (r, s1) \<and>
    (r < 0 \<and> (\<exists>k. s1 = s\<lparr>krets := k\<rparr>) \<or>
     0 \<le> r \<and> \<not> mapped_at (INDEX2FD r) s \<and> (\<forall>j < r. 0 \<le> j \<longrightarrow> mapped_at (INDEX2FD j) s) \<and> iscons r s1 = Some 1 \<and>
     (\<exists>s2. fprintf (devcons # devtab) r junk fmt ap s1 = Some (int (length out), s2) \<and> concat (cons_out s2) = concat (cons_out s) @ map ucast out))"
proof (cases s rule: fd_alloc_cases)
  case full
  then have "opencons s = Some (- E_MAX_OPEN, s\<lparr>krets := krets s\<rparr>)" by (simp add: opencons_def)
  then show ?thesis by (intro exI [of _ "- E_MAX_OPEN"] exI [of _ s]) (auto intro: exI [of _ "krets s"])
next
  case (found i)
  have v: "upt s (vpn (INDEX2FD (int i))) = None" using found(3) by (simp add: mapped_at_def)
  show ?thesis
  proof (cases rule: u_page_alloc_cases [OF v assms(1), where perm = PIPE_PERM])
    case (1 r k)
    then have "opencons s = Some (r, s\<lparr>krets := k\<rparr>)" using found(1) by (simp add: opencons_def)
    then show ?thesis using 1(2) by blast
  next
    case (2 k)
    define f where "f = hd (ufree s)"
    define s0 where "s0 = alloc_at (0xD0000 + i) PIPE_PERM (s\<lparr>krets := k\<rparr>)"
    have p: "upt s0 (0xD0000 + i) = Some \<lparr>pg_frame = f, pg_perm = PIPE_PERM\<rparr>" by (simp add: s0_def alloc_at_simps f_def)
    have z: "INDEX2FD (int i) mod PGSIZE = 0" using vpn_fd(3) [OF found(2), of 0] by simp
    define s1 where "s1 = s0\<lparr>uframe := (uframe s0)(f := wr32 (wr32 (uframe s0 f) 0 DEV_CONS) 8 CONS_RDWR)\<rparr>"
    have a: "u_page_alloc (INDEX2FD (int i)) PIPE_PERM s = (0, s0)" using 2(1) found(2) unfolding s0_def by (simp only: vpn_fd(1))
    have "opencons s = Some (int i, s1)"
      using found(1,2) a p z by (simp add: opencons_def vpn_fd ust32_def s1_def fd2num_INDEX)
    moreover have c: "cons_fd (int i) s1"
      using found(2) p z by (simp add: cons_fd_def mapped_at_def vpn_fd uld32_def s1_def rd32_wr32_other)
    moreover have "iscons (int i) s1 = Some 1" using c by (simp add: iscons_def fd_lookup_def cons_fd_def)
    moreover have "cons_out s1 = cons_out s" by (simp add: s1_def s0_def alloc_at_def)
    moreover have "mapped_at (INDEX2FD j) s" if "j < int i" "0 \<le> j" for j
      using found(4) that by (metis nonneg_int_cases of_nat_less_iff)
    ultimately show ?thesis
      using cons_sink.vfprintf_whole [OF c assms(2,3), of devtab] assms(4) found(3)
      by (intro exI [of _ "int i"] exI [of _ s1]) (auto simp: fprintf_def)
  qed
qed

subsection \<open>Examples\<close>

definition blank_world :: cworld where
  "blank_world = \<lparr>upt = (\<lambda>_. None), uframe = (\<lambda>_ _. 0), uref = (\<lambda>_. 0), ufree = [3, 4, 5, 6], krets = [], cons_out = [], cons_in = []\<rparr>"

definition cons_world :: cworld where
  "cons_world = blank_world\<lparr>upt := (\<lambda>_. None)(0xD0001 := Some \<lparr>pg_frame = 9, pg_perm = 0x407\<rparr>),
     uframe := (\<lambda>_. wr32 (wr32 (\<lambda>_. 0) 0 DEV_CONS) 8 CONS_RDWR)\<rparr>"

lemma hi_text: "vprintfmt [0x68, 0x69] [] = Some [0x68, 0x69]"
  by (simp add: vprintfmt.simps)

theorem fprintf_console_whole_witness:
  "\<exists>s'. fprintf [devcons] 1 (replicate 256 0) [0x68, 0x69] [] cons_world = Some (2, s') \<and> concat (cons_out s') = [0x68, 0x69]"
proof -
  have "INDEX2FD 1 = 0xD0001000" by (simp add: INDEX2FD_def)
  then have "cons_fd 1 cons_world"
    by (simp add: cons_fd_def cons_world_def mapped_at_def uld32_def vpn_def rd32_wr32_other)
  from fprintf_console_whole [OF this hi_text, of "replicate 256 0" "[]"] show ?thesis by (auto simp: cons_world_def blank_world_def)
qed

theorem cprintf_user_and_kernel_witness:
  "\<exists>ms m. vcprintf (replicate 256 0) [0x68, 0x69] [] blank_world = Some (2, blank_world\<lparr>cons_out := ms @ [m]\<rparr>) \<and>
     concat ms @ m = [0x68, 0x69] \<and> kvcprintf [0x68, 0x69] [] [] = Some (0, [0x68, 0x69])"
  using cprintf_user_and_kernel [OF hi_text, of "replicate 256 0" blank_world "[]"] by (auto simp: blank_world_def)

theorem opencons_then_print_witness:
  "\<exists>r s1. opencons blank_world = Some (r, s1) \<and> (r < 0 \<or> iscons r s1 = Some 1)"
  using opencons_then_print [OF _ hi_text, of blank_world "replicate 256 0" "[]"] by (auto simp: frames_ok_def blank_world_def)

end
