(* ===== verification/Lib_Spawn.thy ===== *)
theory Lib_Spawn
  imports Lib_Fork Lib_Fd
begin

text \<open>
  Starting a program from a file, \<^verbatim>\<open>lib/spawn.c\<close>.

  The state is that of \<open>fork\<close>: the memory of the parent and the page table of the child.  The arguments are the
  strings that \<open>argv\<close> points to, without their terminating zeros.  The program file is read through the
  descriptor functions with a device table; what \<open>open\<close> and \<open>sys_exofork\<close> returned are arguments.  Segments lie
  below \<open>UTOP\<close>.  The trap frame set in the child is the pair of its instruction and stack pointer.
\<close>

record spworld = fkworld +
  ch_tf :: "(nat \<times> nat) option"
  ch_destroyed :: bool

abbreviation UTEMP :: nat where "UTEMP \<equiv> 0x400000"
abbreviation UTOP_PN :: nat where "UTOP_PN \<equiv> 0x8000800"
abbreviation ELF_MAGIC :: u32 where "ELF_MAGIC \<equiv> 0x464C457F"

definition UTEMP2USTACK :: "u64 \<Rightarrow> u64" where
  "UTEMP2USTACK addr = addr + of_nat (USTACKTOP - PGSIZE) - of_nat UTEMP"

text \<open>\<open>sys_page_map\<close> from the parent into the child, at another address.\<close>

definition c_page_move :: "nat \<Rightarrow> nat \<Rightarrow> u32 \<Rightarrow> 'a fkworld_scheme \<Rightarrow> int \<times> 'a fkworld_scheme" where
  "c_page_move srcva dstva perm s =
     (let (r, s1) = kret s in
      if r < 0 then (r, s1)
      else case upt s1 (vpn srcva) of
             None \<Rightarrow> (- E_INVAL, s1)
           | Some p \<Rightarrow>
               if pg_perm p AND UPTE_W = 0 \<and> perm AND UPTE_W \<noteq> 0 then (- E_INVAL, s1)
               else (0, in_child (map_vpn (vpn dstva) (pg_frame p) perm) s1))"

section \<open>The stack of the child\<close>

fun store_args :: "u64 \<Rightarrow> u64 \<Rightarrow> u8 list list \<Rightarrow> 'a umem_scheme \<Rightarrow> (u64 \<times> 'a umem_scheme) option" where
  "store_args ap sp [] s = Some (sp, s)"
| "store_args ap sp (a # as) s = do {
     s1 \<leftarrow> ust64 (unat ap) (unat (UTEMP2USTACK sp)) s;
     s2 \<leftarrow> ust_list (unat sp) (a @ [0]) s1;
     store_args (ap + 8) (sp + of_nat (length a + 1)) as s2 }"

definition init_stack :: "u8 list list \<Rightarrow> 'a fkworld_scheme \<Rightarrow> (int \<times> nat \<times> 'a fkworld_scheme) option" where
  "init_stack argv s =
     (let string_size = sum_list (map (\<lambda>a. length a + 1) argv);
          argc = length argv;
          string_store = of_nat (UTEMP + PGSIZE) - of_nat string_size :: u64;
          argv_store = ROUNDDOWN64 string_store 8 - of_nat (8 * (argc + 1)) in
      if argv_store - 16 < of_nat UTEMP then Some (- E_NO_MEM, 0, s)
      else
        let (r, s1) = u_page_alloc UTEMP PERM_PUW s in
        if r < 0 then Some (r, 0, s1)
        else do {
          (sp, s2) \<leftarrow> store_args argv_store string_store argv s1;
          s3 \<leftarrow> ust64 (unat (argv_store + of_nat (8 * argc))) 0 s2;
          if sp \<noteq> of_nat (UTEMP + PGSIZE) then None
          else do {
            s4 \<leftarrow> ust64 (unat (argv_store - 8)) (unat (UTEMP2USTACK argv_store)) s3;
            s5 \<leftarrow> ust64 (unat (argv_store - 16)) argc s4;
            let rsp = unat (UTEMP2USTACK (argv_store - 16));
            let (r1, s6) = c_page_move UTEMP (USTACKTOP - PGSIZE) PERM_PUW s5;
            Some (if r1 < 0 then r1 else 0, rsp, u_page_unmap UTEMP s6) } })"

section \<open>The segments\<close>

partial_function (option) map_segment_loop ::
  "'a fkworld_scheme dev list \<Rightarrow> int \<Rightarrow> nat \<Rightarrow> nat \<Rightarrow> nat \<Rightarrow> int \<Rightarrow> u32 \<Rightarrow> nat \<Rightarrow> 'a fkworld_scheme \<Rightarrow> (int \<times> 'a fkworld_scheme) option" where
  "map_segment_loop devtab fd va memsz filesz off perm i s =
     (if i < memsz then
        if i \<ge> filesz then
          (case c_page_alloc (va + i) perm s of (r, s1) \<Rightarrow>
             if r < 0 then Some (r, s1) else map_segment_loop devtab fd va memsz filesz off perm (i + PGSIZE) s1)
        else
          (case u_page_alloc UTEMP PERM_PUW s of (r, s1) \<Rightarrow>
             if r < 0 then Some (r, s1)
             else Option.bind (seek fd (of_int (off + int i)) s1) (\<lambda>x. case x of (r, s2) \<Rightarrow>
               if r < 0 then Some (r, s2)
               else Option.bind (readn devtab fd (min PGSIZE (filesz - i)) s2) (\<lambda>y. case y of (r, bs, s3) \<Rightarrow>
                 if r < 0 then Some (r, s3)
                 else Option.bind (ust_list UTEMP bs s3) (\<lambda>s4.
                   case c_page_move UTEMP (va + i) perm s4 of (r, s5) \<Rightarrow>
                     if r < 0 then None
                     else map_segment_loop devtab fd va memsz filesz off perm (i + PGSIZE) (u_page_unmap UTEMP s5)))))
      else Some (0, s))"

definition map_segment :: "'a fkworld_scheme dev list \<Rightarrow> nat \<Rightarrow> nat \<Rightarrow> int \<Rightarrow> nat \<Rightarrow> int \<Rightarrow> u32 \<Rightarrow> 'a fkworld_scheme \<Rightarrow> (int \<times> 'a fkworld_scheme) option" where
  "map_segment devtab va memsz fd filesz off perm s =
     (let i = va mod PGSIZE in map_segment_loop devtab fd (va - i) (memsz + i) (filesz + i) (off - int i) perm 0 s)"

section \<open>Shared pages\<close>

definition share_page :: "nat \<Rightarrow> 'a fkworld_scheme \<Rightarrow> 'a fkworld_scheme" where
  "share_page pn s =
     (let a = pn * PGSIZE; perm = (case upt s pn of None \<Rightarrow> 0 | Some p \<Rightarrow> pg_perm p) in
      if \<not> (pml4_p s (a div 2 ^ 39) \<and> pdpe_p s (a div 2 ^ 30) \<and> pd_p s (a div 2 ^ 21)) then s
      else if perm AND UPTE_SHARE \<noteq> 0 then snd (c_page_map a (perm AND UPTE_SYSCALL) s)
      else s)"

definition copy_shared_pages :: "'a fkworld_scheme \<Rightarrow> int \<times> 'a fkworld_scheme" where
  "copy_shared_pages s = (0, fold share_page [UTEXT div PGSIZE..<UTOP_PN] s)"

section \<open>Spawn\<close>

text \<open>A number of \<open>n\<close> bytes in the header buffer; the code does not check that it lies inside.\<close>

definition fld :: "u8 list \<Rightarrow> nat \<Rightarrow> nat \<Rightarrow> nat option" where
  "fld buf off n = (if off + n \<le> length buf then Some (horner_sum unat 256 (take n (drop off buf))) else None)"

fun spawn_segments :: "'a fkworld_scheme dev list \<Rightarrow> int \<Rightarrow> u8 list \<Rightarrow> nat \<Rightarrow> nat \<Rightarrow> 'a fkworld_scheme \<Rightarrow> (int \<times> 'a fkworld_scheme) option" where
  "spawn_segments devtab fd buf ph 0 s = Some (0, s)"
| "spawn_segments devtab fd buf ph (Suc n) s = do {
     t \<leftarrow> fld buf ph 4;
     if t \<noteq> 1 then spawn_segments devtab fd buf (ph + 56) n s
     else do {
       fl \<leftarrow> fld buf (ph + 4) 4;
       off \<leftarrow> fld buf (ph + 8) 8;
       va \<leftarrow> fld buf (ph + 16) 8;
       filesz \<leftarrow> fld buf (ph + 32) 8;
       memsz \<leftarrow> fld buf (ph + 40) 8;
       let perm = (if (of_nat fl :: u32) AND 2 \<noteq> 0 then UPTE_P OR UPTE_U OR UPTE_W else UPTE_P OR UPTE_U);
       (r, s1) \<leftarrow> map_segment devtab va memsz fd filesz (sint (of_nat off :: u32)) perm s;
       if r < 0 then Some (r, s1) else spawn_segments devtab fd buf (ph + 56) n s1 } }"

definition spawn :: "spworld dev list \<Rightarrow> (spworld \<Rightarrow> (int \<times> spworld) option) \<Rightarrow> int \<Rightarrow> u8 list list \<Rightarrow> spworld \<Rightarrow> (int \<times> spworld) option" where
  "spawn devtab opn exofork argv s = do {
     (fd, s1) \<leftarrow> opn s;
     if fd < 0 then Some (fd, s1)
     else do {
       (n, buf, s2) \<leftarrow> readn devtab fd 512 s1;
       if n \<noteq> 512 \<or> fld buf 0 4 \<noteq> Some (unat ELF_MAGIC) then do {
         (_, s3) \<leftarrow> close devtab fd s2;
         Some (- E_NOT_EXEC, s3) }
       else if exofork < 0 then Some (exofork, s2)
       else do {
         entry \<leftarrow> fld buf 24 8;
         (r, rsp, s4) \<leftarrow> init_stack argv s2;
         if r < 0 then Some (r, s4)
         else do {
           phoff \<leftarrow> fld buf 32 8;
           phnum \<leftarrow> fld buf 56 2;
           (r2, s5) \<leftarrow> spawn_segments devtab fd buf phoff phnum s4;
           if r2 < 0 then do {
             (_, s6) \<leftarrow> close devtab fd (s5\<lparr>ch_destroyed := True\<rparr>);
             Some (r2, s6) }
           else do {
             (_, s6) \<leftarrow> close devtab fd s5;
             let (_, s7) = copy_shared_pages s6;
             Some (exofork, s7\<lparr>ch_tf := Some (entry, rsp), ch_runnable := True\<rparr>) } } } } }"

definition spawnl :: "spworld dev list \<Rightarrow> (spworld \<Rightarrow> (int \<times> spworld) option) \<Rightarrow> int \<Rightarrow> u8 list \<Rightarrow> u8 list list \<Rightarrow> spworld \<Rightarrow> (int \<times> spworld) option" where
  "spawnl devtab opn exofork arg0 args s = spawn devtab opn exofork (arg0 # args) s"

section \<open>Words in a page\<close>

definition rd64n :: "cmem \<Rightarrow> nat \<Rightarrow> nat" where
  "rd64n m a = unat (rd32 m a) + 2 ^ 32 * unat (rd32 m (a + 4))"

definition wr64n :: "cmem \<Rightarrow> nat \<Rightarrow> nat \<Rightarrow> cmem" where
  "wr64n m a n = wr32 (wr32 m a (of_nat n)) (a + 4) (of_nat (n div 2 ^ 32))"

lemma rd64n_same: "n < 2 ^ 64 \<Longrightarrow> rd64n (wr64n m a n) a = n"
proof -
  assume n: "n < 2 ^ 64"
  have "rd32 (wr64n m a n) a = of_nat n" "rd32 (wr64n m a n) (a + 4) = of_nat (n div 2 ^ 32)"
    by (simp_all add: wr64n_def rd32_wr32_other)
  moreover have "n div 2 ^ 32 < 2 ^ 32" using n by (simp add: div_less_iff_less_mult)
  ultimately show ?thesis unfolding rd64n_def by (simp add: unat_of_nat)
qed

lemma rd64n_other: "b + 8 \<le> a \<or> a + 8 \<le> b \<Longrightarrow> rd64n (wr64n m a n) b = rd64n m b"
  by (auto simp: rd64n_def wr64n_def rd32_wr32_other)

lemma wr64n_other: "b < a \<or> a + 8 \<le> b \<Longrightarrow> wr64n m a n b = m b"
  by (auto simp: wr64n_def wr32_other)

lemma rd32_overlay: "b + 4 \<le> a \<or> a + length bs \<le> b \<Longrightarrow> rd32 (overlay a bs m) b = rd32 m b"
  by (rule rd32_cong) (auto simp: overlay_def)

lemma rd64n_overlay: "b + 8 \<le> a \<or> a + length bs \<le> b \<Longrightarrow> rd64n (overlay a bs m) b = rd64n m b"
  by (auto simp: rd64n_def rd32_overlay)

text \<open>Stores into one page are stores into its frame.\<close>

definition set_frame :: "nat \<Rightarrow> cmem \<Rightarrow> 'a umem_scheme \<Rightarrow> 'a umem_scheme" where
  "set_frame f m s = s\<lparr>uframe := (uframe s)(f := m)\<rparr>"

lemma set_frame_simps [simp]: "upt (set_frame f m s) = upt s" "uframe (set_frame f m s) f = m" "set_frame f m' (set_frame f m s) = set_frame f m' s"
  by (simp_all add: set_frame_def)

lemma ust64_page:
  assumes "base mod PGSIZE = 0" "upt s (vpn base) = Some p" "pg_perm p AND UPTE_W \<noteq> 0" "k + 8 \<le> PGSIZE"
  shows "ust64 (base + k) v s = Some (set_frame (pg_frame p) (wr64n (uframe s (pg_frame p)) k v) s)"
proof -
  have k: "k < PGSIZE" "k + 4 < PGSIZE" using assms(4) by simp_all
  have a: "base + k + 4 = base + (k + 4)" by simp
  show ?thesis unfolding ust64_def a ust32_page [OF assms(1) k(1) assms(2,3)]
    using ust32_page [OF assms(1) k(2), of "s\<lparr>uframe := _\<rparr>" p] assms(2,3) by (simp add: set_frame_def wr64n_def)
qed

lemma uld64_page:
  assumes "base mod PGSIZE = 0" "upt s (vpn base) = Some p" "k + 8 \<le> PGSIZE"
  shows "uld64 (base + k) s = Some (rd64n (uframe s (pg_frame p)) k)"
proof -
  have k: "k < PGSIZE" "k + 4 < PGSIZE" using assms(3) by simp_all
  have a: "base + k + 4 = base + (k + 4)" by simp
  show ?thesis unfolding uld64_def a uld32_page [OF assms(1) k(1) assms(2)] uld32_page [OF assms(1) k(2) assms(2)]
    by (simp add: rd64n_def)
qed

lemma uld_bytes_page:
  assumes "base mod PGSIZE = 0" "upt s (vpn base) = Some p" "k + length xs \<le> PGSIZE" "bytes_at (uframe s (pg_frame p)) k xs"
  shows "uld_list (base + k) (length xs) s = Some xs"
proof -
  have u: "uld8 (base + k + i) s = Some (xs ! i)" if "i < length xs" for i
  proof -
    have k: "k + i < PGSIZE" using that assms(3) by simp
    have "uld8 (base + (k + i)) s = Some (uframe s (pg_frame p) (k + i))"
      using assms(2) unfolding uld8_def vpn_page(1) [OF assms(1) k] vpn_page(2) [OF assms(1) k] by simp
    then show ?thesis using assms(4) that by (simp add: bytes_at_nth add.assoc)
  qed
  have eq: "map (\<lambda>i. uld8 (base + k + i) s) [0..<length xs] = map Some xs" using u by (intro nth_equalityI) simp_all
  have th: "those (map Some ys) = Some ys" for ys :: "u8 list" by (induction ys) auto
  show ?thesis unfolding uld_list_def eq th ..
qed

section \<open>The layout of the arguments\<close>

abbreviation STK :: nat where "STK \<equiv> USTACKTOP - PGSIZE"

fun args_mem :: "nat \<Rightarrow> nat \<Rightarrow> u8 list list \<Rightarrow> cmem \<Rightarrow> cmem" where
  "args_mem ao so [] m = m"
| "args_mem ao so (a # as) m = args_mem (ao + 8) (so + length a + 1) as (overlay so (a @ [0]) (wr64n m ao (STK + so)))"

definition strs_len :: "u8 list list \<Rightarrow> nat" where
  "strs_len as = sum_list (map (\<lambda>a. length a + 1) as)"

lemma strs_len_simps [simp]: "strs_len [] = 0" "strs_len (a # as) = length a + 1 + strs_len as"
  by (simp_all add: strs_len_def)

lemma args_mem_other:
  "ao + 8 * length as \<le> so \<Longrightarrow> b < ao \<or> ao + 8 * length as \<le> b \<and> b < so \<or> so + strs_len as \<le> b \<Longrightarrow> args_mem ao so as m b = m b"
proof (induction as arbitrary: ao so m)
  case (Cons a as)
  have "args_mem (ao + 8) (so + length a + 1) as (overlay so (a @ [0]) (wr64n m ao (STK + so))) b = overlay so (a @ [0]) (wr64n m ao (STK + so)) b"
    using Cons.prems by (intro Cons.IH) auto
  also have "\<dots> = m b" using Cons.prems by (auto simp: overlay_def wr64n_other)
  finally show ?case by simp
qed simp

lemma rd64n_cong: "(\<And>i. i < 8 \<Longrightarrow> m (a + i) = m' (a + i)) \<Longrightarrow> rd64n m a = rd64n m' a"
proof -
  assume h: "\<And>i. i < 8 \<Longrightarrow> m (a + i) = m' (a + i)"
  have "rd32 m a = rd32 m' a" by (rule rd32_cong) (simp add: h)
  moreover have "rd32 m (a + 4) = rd32 m' (a + 4)" by (rule rd32_cong) (use h [of "4 + _"] in \<open>simp add: add.assoc\<close>)
  ultimately show ?thesis by (simp add: rd64n_def)
qed

lemma args_mem_spec:
  "ao + 8 * length as \<le> so \<Longrightarrow> so + strs_len as \<le> PGSIZE \<Longrightarrow> i < length as \<Longrightarrow>
     rd64n (args_mem ao so as m) (ao + 8 * i) = STK + so + strs_len (take i as) \<and>
     bytes_at (args_mem ao so as m) (so + strs_len (take i as)) (as ! i @ [0])"
proof (induction as arbitrary: ao so m i)
  case (Cons a as)
  let ?m1 = "overlay so (a @ [0]) (wr64n m ao (STK + so))"
  show ?case
  proof (cases i)
    case 0
    have "rd64n (args_mem (ao + 8) (so + length a + 1) as ?m1) ao = rd64n ?m1 ao"
      by (rule rd64n_cong) (use Cons.prems in \<open>simp add: args_mem_other\<close>)
    also have "\<dots> = STK + so" using Cons.prems by (simp add: rd64n_overlay rd64n_same)
    finally have p: "rd64n (args_mem ao so (a # as) m) ao = STK + so" by simp
    have "bytes_at (args_mem (ao + 8) (so + length a + 1) as ?m1) so (a @ [0])"
      unfolding bytes_at_nth using Cons.prems by (auto simp: args_mem_other overlay_def)
    then show ?thesis using p 0 by simp
  next
    case (Suc k)
    have "rd64n (args_mem (ao + 8) (so + length a + 1) as ?m1) (ao + 8 + 8 * k) = STK + (so + length a + 1) + strs_len (take k as) \<and>
      bytes_at (args_mem (ao + 8) (so + length a + 1) as ?m1) (so + length a + 1 + strs_len (take k as)) (as ! k @ [0])"
      using Cons.prems Suc by (intro Cons.IH) simp_all
    then show ?thesis using Suc by (simp add: add.assoc)
  qed
qed simp

lemma stk_addr: "k \<le> PGSIZE \<Longrightarrow> unat (UTEMP2USTACK (of_nat (UTEMP + k))) = STK + k"
proof -
  assume k: "k \<le> PGSIZE"
  have "UTEMP2USTACK (of_nat (UTEMP + k)) = of_nat (STK + k)" by (simp add: UTEMP2USTACK_def)
  moreover have "STK + k < 2 ^ 64" using k by simp
  ultimately show ?thesis by (simp only: unat_of_nat take_bit_eq_mod) simp
qed

lemma unat_of_nat64: "n < 2 ^ 64 \<Longrightarrow> unat (of_nat n :: u64) = n"
  by (simp add: unat_of_nat)

lemma unat_temp: "k \<le> PGSIZE \<Longrightarrow> unat (of_nat (UTEMP + k) :: u64) = UTEMP + k"
  by (rule unat_of_nat64) simp

lemma ROUNDDOWN64_of_nat: "n < 2 ^ 64 \<Longrightarrow> ROUNDDOWN64 (of_nat n) 8 = of_nat (n - n mod 8)"
proof -
  assume n: "n < 2 ^ 64"
  have "unat ((of_nat n :: u64) mod 8) = n mod 8" unfolding unat_mod_distrib unat_of_nat64 [OF n] by simp
  then have "of_nat (unat ((of_nat n :: u64) mod 8)) = (of_nat (n mod 8) :: u64)" by (rule arg_cong)
  then have "(of_nat n :: u64) mod 8 = of_nat (n mod 8)" unfolding of_nat_unat ucast_id .
  then show ?thesis by (simp add: ROUNDDOWN64_def of_nat_diff)
qed

lemma store_args_page:
  assumes "upt s (vpn UTEMP) = Some p" "pg_perm p AND UPTE_W \<noteq> 0" "ao + 8 * length as \<le> so" "so + strs_len as \<le> PGSIZE"
  shows "store_args (of_nat (UTEMP + ao)) (of_nat (UTEMP + so)) as s =
    Some (of_nat (UTEMP + so + strs_len as), set_frame (pg_frame p) (args_mem ao so as (uframe s (pg_frame p))) s)"
  using assms(1,3,4)
proof (induction as arbitrary: ao so s)
  case Nil
  then show ?case by (simp add: set_frame_def)
next
  case (Cons a as)
  let ?f = "pg_frame p"
  let ?s1 = "set_frame ?f (wr64n (uframe s ?f) ao (STK + so)) s"
  let ?s2 = "set_frame ?f (overlay so (a @ [0]) (wr64n (uframe s ?f) ao (STK + so))) s"
  have b: "UTEMP mod PGSIZE = 0" by simp
  have k: "ao \<le> PGSIZE" "so \<le> PGSIZE" "ao + 8 \<le> PGSIZE" using Cons.prems(2,3) by simp_all
  have 1: "ust64 (UTEMP + ao) (STK + so) s = Some ?s1" using ust64_page [OF b Cons.prems(1) assms(2) k(3)] .
  have 2: "ust_list (UTEMP + so) (a @ [0]) ?s1 = Some ?s2"
    using ust_list_page [OF b, of ?s1 p so "a @ [0]"] Cons.prems assms(2) by (simp add: set_frame_def)
  have e: "of_nat (UTEMP + ao) + 8 = (of_nat (UTEMP + (ao + 8)) :: u64)"
    "of_nat (UTEMP + so) + of_nat (length a + 1) = (of_nat (UTEMP + (so + length a + 1)) :: u64)" by simp_all
  have "store_args (of_nat (UTEMP + ao)) (of_nat (UTEMP + so)) (a # as) s =
      store_args (of_nat (UTEMP + (ao + 8))) (of_nat (UTEMP + (so + length a + 1))) as ?s2"
    unfolding store_args.simps stk_addr [OF k(2)] unat_temp [OF k(1)] unat_temp [OF k(2)] 1 e bind.bind_lunit 2 ..
  also have "\<dots> = Some (of_nat (UTEMP + (so + length a + 1) + strs_len as), set_frame ?f (args_mem (ao + 8) (so + length a + 1) as (uframe ?s2 ?f)) ?s2)"
    by (rule Cons.IH) (use Cons.prems in simp_all)
  finally show ?case by (simp add: add.assoc)
qed

text \<open>Where \<open>argv\<close> and the strings start in the page, if they fit.\<close>

definition stack_need :: "u8 list list \<Rightarrow> nat" where
  "stack_need argv = ROUNDUP (strs_len argv) 8 + 8 * (length argv + 3)"

lemma stack_offsets:
  assumes "strs_len argv + 8 * length argv < 2 ^ 21"
  defines "ss \<equiv> of_nat (UTEMP + PGSIZE) - of_nat (strs_len argv) :: u64"
  defines "as \<equiv> ROUNDDOWN64 ss 8 - of_nat (8 * (length argv + 1))"
  shows "as - 16 < of_nat UTEMP \<longleftrightarrow> PGSIZE < stack_need argv"
    "stack_need argv \<le> PGSIZE \<Longrightarrow> ss = of_nat (UTEMP + (PGSIZE - strs_len argv)) \<and>
       as = of_nat (UTEMP + (PGSIZE - stack_need argv + 16)) \<and> as - 8 = of_nat (UTEMP + (PGSIZE - stack_need argv + 8)) \<and>
       as - 16 = of_nat (UTEMP + (PGSIZE - stack_need argv)) \<and> PGSIZE - stack_need argv + 16 + 8 * (length argv + 1) \<le> PGSIZE - strs_len argv \<and>
       (PGSIZE - stack_need argv) mod 8 = 0"
proof -
  let ?n = "strs_len argv" and ?c = "length argv"
  let ?r = "UTEMP + PGSIZE - ROUNDUP ?n 8"
  have ru: "?n \<le> ROUNDUP ?n 8" "ROUNDUP ?n 8 < ?n + 8" "8 dvd ROUNDUP ?n 8" by (simp_all add: ROUNDUP_ge ROUNDUP_less ROUNDUP_dvd)
  have n: "?n \<le> UTEMP" "ROUNDUP ?n 8 \<le> UTEMP" using assms(1) ru by simp_all
  have ss: "ss = of_nat (UTEMP + PGSIZE - ?n)" unfolding ss_def using n by (subst of_nat_diff) simp_all
  have "(UTEMP + PGSIZE - ?n) - (UTEMP + PGSIZE - ?n) mod 8 = ?r"
  proof -
    obtain q where q: "ROUNDUP ?n 8 = 8 * q" using ru(3) by (elim dvdE)
    have "UTEMP + PGSIZE - ?n = (ROUNDUP ?n 8 - ?n) + 8 * ((UTEMP + PGSIZE) div 8 - q)" using ru n q by simp
    then have "(UTEMP + PGSIZE - ?n) mod 8 = (ROUNDUP ?n 8 - ?n) mod 8" by (metis mod_mult_self2)
    also have "\<dots> = ROUNDUP ?n 8 - ?n" using ru by simp
    finally show ?thesis using ru n by simp
  qed
  then have rd: "ROUNDDOWN64 ss 8 = of_nat ?r" unfolding ss by (subst ROUNDDOWN64_of_nat) simp_all
  have le: "8 * (?c + 3) \<le> ?r" using assms(1) ru by simp
  have a: "as = of_nat (?r - 8 * (?c + 1))" unfolding as_def rd using le by (subst of_nat_diff) simp_all
  have a8: "as - 8 = of_nat (?r - 8 * (?c + 2))" "as - 16 = of_nat (?r - 8 * (?c + 3))" unfolding a using le by (simp_all add: of_nat_diff algebra_simps)
  have "unat (as - 16) = ?r - 8 * (?c + 3)" unfolding a8 by (simp add: unat_of_nat)
  then show "as - 16 < of_nat UTEMP \<longleftrightarrow> PGSIZE < stack_need argv"
    using le ru n by (auto simp: word_less_nat_alt stack_need_def)
  show "stack_need argv \<le> PGSIZE \<Longrightarrow> ss = of_nat (UTEMP + (PGSIZE - strs_len argv)) \<and>
       as = of_nat (UTEMP + (PGSIZE - stack_need argv + 16)) \<and> as - 8 = of_nat (UTEMP + (PGSIZE - stack_need argv + 8)) \<and>
       as - 16 = of_nat (UTEMP + (PGSIZE - stack_need argv)) \<and> PGSIZE - stack_need argv + 16 + 8 * (length argv + 1) \<le> PGSIZE - strs_len argv \<and>
       (PGSIZE - stack_need argv) mod 8 = 0"
  proof (intro conjI)
    assume s: "stack_need argv \<le> PGSIZE"
    then have s': "ROUNDUP ?n 8 + 8 * (?c + 3) \<le> PGSIZE" by (simp add: stack_need_def)
    show "ss = of_nat (UTEMP + (PGSIZE - ?n))" unfolding ss using s' ru(1) by (intro arg_cong [where f = of_nat]) simp
    show "as = of_nat (UTEMP + (PGSIZE - stack_need argv + 16))" unfolding a stack_need_def using s' by (intro arg_cong [where f = of_nat]) simp
    show "as - 8 = of_nat (UTEMP + (PGSIZE - stack_need argv + 8))" unfolding a8 stack_need_def using s' by (intro arg_cong [where f = of_nat]) simp
    show "as - 16 = of_nat (UTEMP + (PGSIZE - stack_need argv))" unfolding a8 stack_need_def using s' by (intro arg_cong [where f = of_nat]) simp
    show "PGSIZE - stack_need argv + 16 + 8 * (?c + 1) \<le> PGSIZE - ?n" unfolding stack_need_def using s' ru(1) by simp
    have "8 dvd stack_need argv" unfolding stack_need_def using ru(3) by simp
    then have "8 dvd PGSIZE - stack_need argv" by (intro dvd_diff_nat) simp_all
    then show "(PGSIZE - stack_need argv) mod 8 = 0" by simp
  qed
qed

text \<open>The memory of the child.\<close>

definition child_mem :: "'a fkworld_scheme \<Rightarrow> 'a fkworld_scheme" where
  "child_mem s = s\<lparr>upt := ch_pt s\<rparr>"

lemma perm_puw_writable: "PERM_PUW AND UPTE_W \<noteq> 0"
  by simp

text \<open>Handing the page at \<open>UTEMP\<close> over to the child.\<close>

lemma hand_over:
  assumes "krets s = []" "upt s (vpn UTEMP) = Some \<lparr>pg_frame = f, pg_perm = PERM_PUW\<rparr>" "ch_pt s (vpn va) = None" "uref s f = 1"
  shows "\<exists>s1. c_page_move UTEMP va perm s = (0, s1) \<and> krets (u_page_unmap UTEMP s1) = [] \<and>
    ch_pt (u_page_unmap UTEMP s1) = (ch_pt s)(vpn va \<mapsto> \<lparr>pg_frame = f, pg_perm = perm\<rparr>) \<and>
    upt (u_page_unmap UTEMP s1) = (upt s)(vpn UTEMP := None) \<and> uframe (u_page_unmap UTEMP s1) = uframe s \<and>
    uref (u_page_unmap UTEMP s1) = uref s \<and> ufree (u_page_unmap UTEMP s1) = ufree s"
proof -
  define s1 where "s1 = in_child (map_vpn (vpn va) f perm) s"
  have m: "c_page_move UTEMP va perm s = (0, s1)" using assms(1,2) by (simp add: c_page_move_def kret_def s1_def)
  let ?c = "s\<lparr>upt := ch_pt s\<rparr>"
  have s1: "ch_pt s1 = (ch_pt s)(vpn va \<mapsto> \<lparr>pg_frame = f, pg_perm = perm\<rparr>)" "upt s1 = upt s" "uframe s1 = uframe s" "krets s1 = []"
    "uref s1 = (uref s)(f := Suc (Suc 0))" "ufree s1 = ufree s"
    using assms map_vpn_fresh [of ?c "vpn va" f perm] by (simp_all add: s1_def in_child_def Let_def map_vpn_frame)
  have "u_page_unmap UTEMP s1 = s1\<lparr>upt := (upt s1)(vpn UTEMP := None), uref := (uref s1)(f := 1)\<rparr>"
    using assms(2) s1(2,5) by (simp add: u_page_unmap_def unmap_vpn_def Let_def)
  then show ?thesis using m s1 assms(4) by (auto simp: fun_eq_iff)
qed

lemma init_stack_run:
  fixes s :: "'a fkworld_scheme"
  assumes "krets s = []" "ufree s = f # fs" "upt s (vpn UTEMP) = None" "ch_pt s (vpn STK) = None" "uref s f = 0"
    and size: "strs_len argv + 8 * length argv < 2 ^ 21" and fits: "stack_need argv \<le> PGSIZE"
    and o_def: "o' = PGSIZE - stack_need argv"
    and m_def: "m = wr64n (wr64n (wr64n (args_mem (o' + 16) (PGSIZE - strs_len argv) argv (uframe s f)) (o' + 16 + 8 * length argv) 0) (o' + 8) (STK + (o' + 16))) o' (length argv)"
  shows "\<exists>s'. init_stack argv s = Some (0, STK + o', s') \<and> krets s' = [] \<and>
    ch_pt s' = (ch_pt s)(vpn STK \<mapsto> \<lparr>pg_frame = f, pg_perm = PERM_PUW\<rparr>) \<and> upt s' = upt s \<and>
    uframe s' = (uframe s)(f := m) \<and> uref s' = (uref s)(f := 1) \<and> ufree s' = fs"
proof -
  let ?c = "length argv" and ?so = "PGSIZE - strs_len argv"
  let ?p = "\<lparr>pg_frame = f, pg_perm = PERM_PUW\<rparr>"
  define ss where "ss = (of_nat (UTEMP + PGSIZE) - of_nat (strs_len argv) :: u64)"
  define as where "as = ROUNDDOWN64 ss 8 - of_nat (8 * (?c + 1))"
  note off = stack_offsets [OF size, folded ss_def, folded as_def]
  have o: "ss = of_nat (UTEMP + ?so)" "as = of_nat (UTEMP + (o' + 16))" "as - 8 = of_nat (UTEMP + (o' + 8))" "as - 16 = of_nat (UTEMP + o')"
    "o' + 16 + 8 * (?c + 1) \<le> ?so" using off(2) [OF fits] unfolding o_def by blast+
  have so: "?so + strs_len argv = PGSIZE" using fits ROUNDUP_ge [of 8 "strs_len argv"] by (simp add: stack_need_def)
  have le: "o' + 16 \<le> PGSIZE" "o' + 8 \<le> PGSIZE" "o' \<le> PGSIZE" "o' + 8 + 8 \<le> PGSIZE" "o' + 16 + 8 * ?c + 8 \<le> PGSIZE" "o' + 16 + 8 * ?c \<le> ?so"
    using o(5) so by simp_all
  define s1 where "s1 = map_vpn (vpn UTEMP) f PERM_PUW (s\<lparr>ufree := fs\<rparr>)"
  have al: "u_page_alloc UTEMP PERM_PUW s = (0, s1)" using assms(1,2) by (simp add: u_page_alloc_def kret_def s1_def)
  have s1: "upt s1 = (upt s)(vpn UTEMP \<mapsto> ?p)" "uframe s1 = uframe s" "krets s1 = []" "ufree s1 = fs" "uref s1 = (uref s)(f := 1)" "ch_pt s1 = ch_pt s"
    using assms map_vpn_fresh [of "s\<lparr>ufree := fs\<rparr>" "vpn UTEMP" f PERM_PUW] by (simp_all add: s1_def map_vpn_frame map_vpn_levels)
  define A where "A = args_mem (o' + 16) ?so argv (uframe s f)"
  have up: "upt s1 (vpn UTEMP) = Some ?p" by (simp add: s1(1))
  have st: "store_args as ss argv s1 = Some (of_nat (UTEMP + PGSIZE), set_frame f A s1)"
    using store_args_page [OF up _ le(6)] so unfolding o(1,2) by (simp add: A_def s1(2) add.assoc)
  have b: "UTEMP mod PGSIZE = 0" by simp
  have u64: "ust64 (UTEMP + k) v (set_frame f M s1) = Some (set_frame f (wr64n M k v) s1)" if "k + 8 \<le> PGSIZE" for k v M
    using ust64_page [OF b, of "set_frame f M s1" ?p k v] that up by simp
  have a0: "as + of_nat (8 * ?c) = of_nat (UTEMP + (o' + 16 + 8 * ?c))" unfolding o(2) by simp
  have a3: "unat (as + of_nat (8 * ?c)) = UTEMP + (o' + 16 + 8 * ?c)" unfolding a0 using le(5) by (intro unat_temp) simp
  have a4: "unat (as - 8) = UTEMP + (o' + 8)" unfolding o(3) by (rule unat_temp [OF le(2)])
  have a5: "unat (as - 16) = UTEMP + o'" unfolding o(4) by (rule unat_temp [OF le(3)])
  have k3: "unat (UTEMP2USTACK as) = STK + (o' + 16)" unfolding o(2) by (rule stk_addr [OF le(1)])
  have k4: "unat (UTEMP2USTACK (as - 16)) = STK + o'" unfolding o(4) by (rule stk_addr [OF le(3)])
  define s5 where "s5 = set_frame f m s1"
  have m: "m = wr64n (wr64n (wr64n A (o' + 16 + 8 * ?c) 0) (o' + 8) (STK + (o' + 16))) o' ?c" unfolding m_def A_def ..
  have s5: "krets s5 = []" "upt s5 (vpn UTEMP) = Some ?p" "ch_pt s5 (vpn STK) = None" "uref s5 f = 1"
    using s1 assms(4) by (simp_all add: s5_def set_frame_def)
  from hand_over [OF s5, of PERM_PUW] obtain s6 where s6: "c_page_move UTEMP STK PERM_PUW s5 = (0, s6)" "krets (u_page_unmap UTEMP s6) = []"
    "ch_pt (u_page_unmap UTEMP s6) = (ch_pt s5)(vpn STK \<mapsto> ?p)" "upt (u_page_unmap UTEMP s6) = (upt s5)(vpn UTEMP := None)"
    "uframe (u_page_unmap UTEMP s6) = uframe s5" "uref (u_page_unmap UTEMP s6) = uref s5" "ufree (u_page_unmap UTEMP s6) = ufree s5" by auto
  have "init_stack argv s = Some (0, STK + o', u_page_unmap UTEMP s6)"
  proof -
    have "\<not> as - 16 < of_nat UTEMP" using off(1) fits by (simp only: not_less)
    then show ?thesis
      unfolding init_stack_def Let_def strs_len_def [symmetric] ss_def [symmetric] as_def [symmetric]
      using al st u64 [OF le(5), of 0] u64 [OF le(4)] u64 [of o'] le s6(1)
      by (simp add: a3 a4 a5 k3 k4 s5_def m del: of_nat_add of_nat_mult)
  qed
  moreover have "upt s5 = (upt s)(vpn UTEMP \<mapsto> ?p)" "uframe s5 = (uframe s)(f := m)" "uref s5 = (uref s)(f := 1)" "ufree s5 = fs" "ch_pt s5 = ch_pt s"
    using s1 by (simp_all add: s5_def set_frame_def)
  ultimately show ?thesis using s6 assms(3) by (intro exI [of _ "u_page_unmap UTEMP s6"]) (simp add: fun_upd_idem)
qed

section \<open>The child finds its arguments\<close>

text \<open>What a C program reads at its initial stack pointer.\<close>

definition args_on_stack :: "'a umem_scheme \<Rightarrow> nat \<Rightarrow> u8 list list \<Rightarrow> bool" where
  "args_on_stack s rsp argv \<longleftrightarrow> uld64 rsp s = Some (length argv) \<and>
     (\<exists>av. uld64 (rsp + 8) s = Some av \<and> uld64 (av + 8 * length argv) s = Some 0 \<and>
       (\<forall>i < length argv. \<exists>p. uld64 (av + 8 * i) s = Some p \<and> uld_list p (length (argv ! i) + 1) s = Some (argv ! i @ [0])))"

lemma strs_len_take: "i < length as \<Longrightarrow> strs_len (take i as) + (length (as ! i) + 1) \<le> strs_len as"
proof -
  assume i: "i < length as"
  have app: "strs_len (xs @ ys) = strs_len xs + strs_len ys" for xs ys by (simp add: strs_len_def)
  have "strs_len as = strs_len (take i as) + strs_len (as ! i # drop (Suc i) as)"
    using i by (subst app [symmetric]) (simp add: id_take_nth_drop [symmetric])
  then show ?thesis by simp
qed

lemma args_read_back:
  assumes up: "upt c (vpn STK) = Some p" and fits: "stack_need argv \<le> PGSIZE" and o_def: "o' = PGSIZE - stack_need argv"
    and size: "o' + 16 + 8 * (length argv + 1) \<le> PGSIZE - strs_len argv" "strs_len argv \<le> PGSIZE"
    and m: "uframe c (pg_frame p) = wr64n (wr64n (wr64n (args_mem (o' + 16) (PGSIZE - strs_len argv) argv g) (o' + 16 + 8 * length argv) 0) (o' + 8) (STK + (o' + 16))) o' (length argv)"
  shows "args_on_stack c (STK + o') argv"
proof -
  let ?c = "length argv" and ?so = "PGSIZE - strs_len argv"
  let ?A = "args_mem (o' + 16) ?so argv g"
  let ?m = "wr64n (wr64n (wr64n ?A (o' + 16 + 8 * ?c) 0) (o' + 8) (STK + (o' + 16))) o' ?c"
  have b: "STK mod PGSIZE = 0" by simp
  have le: "o' + 8 \<le> PGSIZE" "o' + 8 + 8 \<le> PGSIZE" "o' + 16 + 8 * ?c + 8 \<le> PGSIZE" "STK + (o' + 16) < 2 ^ 64" "?c < 2 ^ 64"
    using size by simp_all
  have rd: "uld64 (STK + k) c = Some (rd64n ?m k)" if "k + 8 \<le> PGSIZE" for k
    using uld64_page [OF b up that] unfolding m .
  have "uld64 (STK + o') c = Some ?c" unfolding rd [OF le(1)] using le(5) by (simp add: rd64n_same)
  moreover have "uld64 (STK + o' + 8) c = Some (STK + o' + 16)"
    using rd [OF le(2)] le(4) by (simp add: rd64n_other rd64n_same add.assoc)
  moreover have "uld64 (STK + o' + 16 + 8 * ?c) c = Some 0"
    using rd [OF le(3)] by (simp add: rd64n_other rd64n_same add.assoc)
  moreover have "\<exists>p'. uld64 (STK + o' + 16 + 8 * i) c = Some p' \<and> uld_list p' (length (argv ! i) + 1) c = Some (argv ! i @ [0])" if i: "i < ?c" for i
  proof -
    let ?k = "?so + strs_len (take i argv)"
    have a: "rd64n ?A (o' + 16 + 8 * i) = STK + ?k" "bytes_at ?A ?k (argv ! i @ [0])"
      using args_mem_spec [of "o' + 16" argv ?so i g] size i by (simp_all add: add.assoc)
    have kle: "o' + 16 + 8 * i + 8 \<le> PGSIZE" using le(3) i by simp
    have "uld64 (STK + (o' + 16 + 8 * i)) c = Some (STK + ?k)"
      unfolding rd [OF kle] using i a(1) by (simp add: rd64n_other)
    moreover have mA: "?m j = ?A j" if "?so \<le> j" for j using that size(1) by (simp add: wr64n_other)
    have "bytes_at ?m ?k (argv ! i @ [0])"
      unfolding bytes_at_nth
    proof (intro allI impI)
      fix j assume "j < length (argv ! i @ [0])"
      then show "?m (?k + j) = (argv ! i @ [0]) ! j" using a(2) by (subst mA) (simp_all only: bytes_at_nth le_add1 add.assoc)
    qed
    then have "uld_list (STK + ?k) (length (argv ! i @ [0])) c = Some (argv ! i @ [0])"
      using strs_len_take [OF i] size(2) by (intro uld_bytes_page [OF b up]) (simp_all add: m)
    ultimately show ?thesis by (simp add: add.assoc)
  qed
  ultimately show ?thesis unfolding args_on_stack_def by (intro conjI exI [of _ "STK + o' + 16"]) simp_all
qed

text \<open>C14: when the arguments with their pointers fit into one page, \<open>init_stack\<close> succeeds and the child finds on its stack
  the number of arguments and the array of pointers to copies of the strings, all at addresses of the child.  The page belongs
  to the child alone, and nothing else changed.  When they do not fit, the result is \<open>-E_NO_MEM\<close> and nothing changed.\<close>

theorem init_stack_passes_arguments:
  fixes s :: "'a fkworld_scheme"
  assumes "krets s = []" "ufree s = f # fs" "upt s (vpn UTEMP) = None" "ch_pt s (vpn STK) = None" "uref s f = 0"
    "strs_len argv + 8 * length argv < 2 ^ 21"
  shows "if stack_need argv \<le> PGSIZE
    then \<exists>rsp s'. init_stack argv s = Some (0, rsp, s') \<and> args_on_stack (child_mem s') rsp argv \<and> rsp mod 8 = 0 \<and>
      upt s' = upt s \<and> ufree s' = fs \<and> uref s' = (uref s)(f := 1) \<and>
      (\<forall>n. n \<noteq> vpn STK \<longrightarrow> ch_pt s' n = ch_pt s n) \<and> (\<forall>g. g \<noteq> f \<longrightarrow> uframe s' g = uframe s g)
    else init_stack argv s = Some (- E_NO_MEM, 0, s)"
proof (cases "stack_need argv \<le> PGSIZE")
  case False
  then show ?thesis
    using stack_offsets(1) [OF assms(6)] unfolding init_stack_def Let_def strs_len_def [symmetric] by simp
next
  case fits: True
  define o' where "o' = PGSIZE - stack_need argv"
  from init_stack_run [OF assms fits o'_def refl] obtain s' where r: "init_stack argv s = Some (0, STK + o', s')"
    "ch_pt s' = (ch_pt s)(vpn STK \<mapsto> \<lparr>pg_frame = f, pg_perm = PERM_PUW\<rparr>)" "upt s' = upt s" "uref s' = (uref s)(f := 1)" "ufree s' = fs"
    "uframe s' = (uframe s)(f := wr64n (wr64n (wr64n (args_mem (o' + 16) (PGSIZE - strs_len argv) argv (uframe s f)) (o' + 16 + 8 * length argv) 0) (o' + 8) (STK + (o' + 16))) o' (length argv))"
    by blast
  have sz: "o' + 16 + 8 * (length argv + 1) \<le> PGSIZE - strs_len argv" "o' mod 8 = 0" "strs_len argv \<le> PGSIZE"
    using stack_offsets(2) [OF assms(6) fits] fits ROUNDUP_ge [of 8 "strs_len argv"] by (simp_all add: o'_def stack_need_def)
  have "args_on_stack (child_mem s') (STK + o') argv"
    by (rule args_read_back [OF _ fits o'_def sz(1,3), where g = "uframe s f" and p = "\<lparr>pg_frame = f, pg_perm = PERM_PUW\<rparr>"]) (simp_all add: child_mem_def r)
  moreover have "(STK + o') mod 8 = 0" using sz(2) by (simp add: mod_add_eq [symmetric])
  ultimately show ?thesis using fits r by auto
qed

section \<open>Shared pages\<close>

text \<open>The pages that \<open>copy_shared_pages\<close> maps.\<close>

definition to_share :: "'a fkworld_scheme \<Rightarrow> nat \<Rightarrow> upage option" where
  "to_share s pn =
     (if pml4_p s (pn * PGSIZE div 2 ^ 39) \<and> pdpe_p s (pn * PGSIZE div 2 ^ 30) \<and> pd_p s (pn * PGSIZE div 2 ^ 21)
      then case upt s pn of
             Some p \<Rightarrow> if pg_perm p AND UPTE_SHARE \<noteq> 0 then Some \<lparr>pg_frame = pg_frame p, pg_perm = pg_perm p AND UPTE_SYSCALL\<rparr> else None
           | None \<Rightarrow> None
      else None)"

lemma vpn_mult: "vpn (n * PGSIZE) = n"
  by (simp add: vpn_def)

lemma syscall_w: "x AND UPTE_W = 0 \<Longrightarrow> (x AND UPTE_SYSCALL) AND UPTE_W = 0" for x :: u32
  by (simp add: and.assoc)

lemma share_page_spec:
  assumes "krets s = []"
  shows "upt (share_page n s) = upt s \<and> krets (share_page n s) = [] \<and> pml4_p (share_page n s) = pml4_p s \<and> pdpe_p (share_page n s) = pdpe_p s \<and>
    pd_p (share_page n s) = pd_p s \<and> uframe (share_page n s) = uframe s \<and>
    ch_pt (share_page n s) = (case to_share s n of Some p \<Rightarrow> (ch_pt s)(n \<mapsto> p) | None \<Rightarrow> ch_pt s)"
proof (cases "to_share s n")
  case None
  then have "share_page n s = s"
    by (auto simp: share_page_def to_share_def Let_def split: option.splits if_splits)
  then show ?thesis using None assms by simp
next
  case (Some q)
  then obtain p where p: "upt s n = Some p" "pg_perm p AND UPTE_SHARE \<noteq> 0" "q = \<lparr>pg_frame = pg_frame p, pg_perm = pg_perm p AND UPTE_SYSCALL\<rparr>"
    "share_page n s = snd (c_page_map (n * PGSIZE) (pg_perm p AND UPTE_SYSCALL) s)"
    by (auto simp: share_page_def to_share_def Let_def split: option.splits if_splits)
  have u: "upt s (vpn (n * PGSIZE)) = Some p" using p(1) by (simp only: vpn_mult)
  from c_page_map_some [OF assms u syscall_w] show ?thesis unfolding p(4) vpn_mult by (simp add: Some p(3))
qed

lemma share_pages_fold:
  assumes "krets s = []"
  shows "upt (fold share_page ns s) = upt s \<and> krets (fold share_page ns s) = [] \<and> uframe (fold share_page ns s) = uframe s \<and>
    ch_pt (fold share_page ns s) = (\<lambda>n. if n \<in> set ns \<and> to_share s n \<noteq> None then to_share s n else ch_pt s n)"
  using assms
proof (induction ns arbitrary: s)
  case (Cons n ns)
  note sp = share_page_spec [OF Cons.prems, of n]
  have ts: "to_share (share_page n s) = to_share s" using sp by (simp add: to_share_def fun_eq_iff)
  from Cons.IH [of "share_page n s"] sp show ?case by (auto simp: ts fun_eq_iff split: option.splits)
qed simp

text \<open>\<open>copy_shared_pages\<close> gives the child exactly the pages of the parent between \<open>UTEXT\<close> and \<open>UTOP\<close> that are
  marked \<open>PTE_SHARE\<close>, at the same addresses, on the same frames and with the same permissions; all other pages of the
  child, and the parent, stay as they are.\<close>

theorem copy_shared_pages_shares:
  assumes "krets s = []"
  shows "\<exists>s'. copy_shared_pages s = (0, s') \<and> upt s' = upt s \<and> uframe s' = uframe s \<and>
    (\<forall>n. ch_pt s' n = (if UTEXT div PGSIZE \<le> n \<and> n < UTOP_PN \<and> to_share s n \<noteq> None then to_share s n else ch_pt s n))"
  unfolding copy_shared_pages_def using share_pages_fold [OF assms, of "[UTEXT div PGSIZE..<UTOP_PN]"]
  by (auto simp del: upt_rec_numeral)

section \<open>Programs that are not programs\<close>

text \<open>When the file cannot be opened, or does not start with a full ELF header block, \<open>spawn\<close> returns the error without
  creating a child; in the second case the descriptor is closed.\<close>

theorem spawn_rejects:
  assumes "opn s = Some (fd, s1)" "fd \<ge> 0 \<Longrightarrow> readn devtab fd 512 s1 = Some (n, buf, s2)"
    "fd \<ge> 0 \<Longrightarrow> n \<noteq> 512 \<or> fld buf 0 4 \<noteq> Some (unat ELF_MAGIC)"
  shows "spawn devtab opn child argv s = (if fd < 0 then Some (fd, s1) else map_option (\<lambda>(_, s3). (- E_NOT_EXEC, s3)) (close devtab fd s2))"
  using assms by (cases "fd < 0") (auto simp: spawn_def map_option_case split: option.splits)

subsection \<open>Examples\<close>

definition sp_start :: fkworld where
  "sp_start = \<lparr>upt = (\<lambda>_. None)(0xD0001 := Some \<lparr>pg_frame = 9, pg_perm = 0x407\<rparr>), uframe = (\<lambda>_ _. 0), uref = (\<lambda>_. 0)(9 := 1), ufree = [3, 4],
     krets = [], ch_pt = (\<lambda>_. None), pml4_p = (\<lambda>_. True), pdpe_p = (\<lambda>_. True), pd_p = (\<lambda>_. True), pf_handler = 0, pf_upcall = 0,
     ch_upcall = 0, ch_runnable = False\<rparr>"

theorem init_stack_passes_arguments_witness:
  "\<exists>rsp s'. init_stack [[0x6C, 0x73], [0x2D, 0x6C]] sp_start = Some (0, rsp, s') \<and> args_on_stack (child_mem s') rsp [[0x6C, 0x73], [0x2D, 0x6C]]"
proof -
  have "stack_need [[0x6C, 0x73], [0x2D, 0x6C]] \<le> PGSIZE" by (simp add: stack_need_def ROUNDUP_def ROUNDDOWN_def)
  then show ?thesis
    using init_stack_passes_arguments [of sp_start 3 "[4]" "[[0x6C, 0x73], [0x2D, 0x6C]]"] by (auto simp: sp_start_def vpn_def)
qed

theorem copy_shared_pages_shares_witness:
  "\<exists>s'. copy_shared_pages sp_start = (0, s') \<and> ch_pt s' 0xD0001 = Some \<lparr>pg_frame = 9, pg_perm = 0x407\<rparr>"
  using copy_shared_pages_shares [of sp_start] by (auto simp: sp_start_def to_share_def)

theorem spawn_rejects_witness:
  "spawn [] (\<lambda>s. Some (- E_NOT_FOUND, s)) 7 [] (fkworld.extend sp_start \<lparr>ch_tf = None, ch_destroyed = False\<rparr>) =
     Some (- E_NOT_FOUND, fkworld.extend sp_start \<lparr>ch_tf = None, ch_destroyed = False\<rparr>)"
  using spawn_rejects [of "\<lambda>s. Some (- E_NOT_FOUND, s)" "fkworld.extend sp_start \<lparr>ch_tf = None, ch_destroyed = False\<rparr>"] by simp

end
