(* ===== verification/Net_Thread.thy ===== *)
theory Net_Thread
  imports Lib_Malloc
begin

text \<open>
  The cooperative threads of the network server, \<^verbatim>\<open>net/lwip/jos/arch/thread.c\<close> and
  \<^verbatim>\<open>net/lwip/jos/arch/threadq.h\<close>.

  A pointer to a thread context is the address of its block in the heap; the fields of the contexts are
  kept beside the bytes of the heap, in \<open>tcs\<close>.  The two queues are linked through the contexts.  Leaving
  the current thread (\<open>jos_setjmp\<close>, \<open>jos_longjmp\<close>) is the result \<open>Jump\<close>: the registers of the thread that
  gives up are stored and the machine goes on with those of \<open>cur_tc\<close>.  What other threads do
  meanwhile, and the clock when the thread is back, are given as a list.  \<open>None\<close> is a panic, a
  null pointer or a thread that is still waiting.
\<close>

record jmp_buf =
  jb_rip :: u64
  jb_rsp :: u64
  jb_regs :: "u64 list"

record tctx =
  tc_tid :: u32
  tc_stack_bottom :: nat
  tc_name :: "u8 list"
  tc_entry :: nat
  tc_arg :: u32
  tc_jb :: jmp_buf
  tc_wait_addr :: nat
  tc_wakeup :: bool
  tc_onhalt :: "nat list"
  tc_queue_link :: "nat option"

record tqueue =
  tq_first :: "nat option"
  tq_last :: "nat option"

record tsys =
  theap :: heap
  tcs :: "nat \<Rightarrow> tctx"
  thread_queue :: tqueue
  kill_queue :: tqueue
  cur_tc :: "nat option"
  max_tid :: u32

datatype 's yield_result = Stay 's | Jump 's

abbreviation THREAD_NUM_ONHALT :: nat where "THREAD_NUM_ONHALT \<equiv> 4"
abbreviation name_size :: nat where "name_size \<equiv> 32"
abbreviation stack_size :: nat where "stack_size \<equiv> PGSIZE"
abbreviation TC_SIZE :: nat where "TC_SIZE \<equiv> 240"

section \<open>Queues\<close>

definition threadq_init :: tqueue where
  "threadq_init = \<lparr>tq_first = None, tq_last = None\<rparr>"

definition threadq_push :: "nat \<Rightarrow> tqueue \<times> (nat \<Rightarrow> tctx) \<Rightarrow> (tqueue \<times> (nat \<Rightarrow> tctx)) option" where
  "threadq_push tc q =
     (case q of (tq, cs) \<Rightarrow>
        let cs1 = cs(tc := (cs tc)\<lparr>tc_queue_link := None\<rparr>) in
        case tq_first tq of
          None \<Rightarrow> Some (\<lparr>tq_first = Some tc, tq_last = Some tc\<rparr>, cs1)
        | Some _ \<Rightarrow>
            (case tq_last tq of
               None \<Rightarrow> None
             | Some l \<Rightarrow> Some (tq\<lparr>tq_last := Some tc\<rparr>, cs1(l := (cs1 l)\<lparr>tc_queue_link := Some tc\<rparr>))))"

definition threadq_pop :: "tqueue \<times> (nat \<Rightarrow> tctx) \<Rightarrow> nat option \<times> tqueue \<times> (nat \<Rightarrow> tctx)" where
  "threadq_pop q =
     (case q of (tq, cs) \<Rightarrow>
        case tq_first tq of
          None \<Rightarrow> (None, tq, cs)
        | Some tc \<Rightarrow> (Some tc, tq\<lparr>tq_first := tc_queue_link (cs tc)\<rparr>, cs(tc := (cs tc)\<lparr>tc_queue_link := None\<rparr>)))"

section \<open>Threads\<close>

definition thread_init :: "'a tsys_scheme \<Rightarrow> 'a tsys_scheme" where
  "thread_init s = s\<lparr>thread_queue := threadq_init, max_tid := 0\<rparr>"

definition thread_id :: "'a tsys_scheme \<Rightarrow> u32 option" where
  "thread_id s = map_option (\<lambda>c. tc_tid (tcs s c)) (cur_tc s)"

partial_function (option) thread_wakeup_loop :: "nat \<Rightarrow> nat option \<Rightarrow> 'a tsys_scheme \<Rightarrow> 'a tsys_scheme option" where
  "thread_wakeup_loop addr tc s =
     (case tc of
        None \<Rightarrow> Some s
      | Some c \<Rightarrow>
          let s1 = (if tc_wait_addr (tcs s c) = addr then s\<lparr>tcs := (tcs s)(c := (tcs s c)\<lparr>tc_wakeup := True\<rparr>)\<rparr> else s)
          in thread_wakeup_loop addr (tc_queue_link (tcs s1 c)) s1)"

definition thread_wakeup :: "nat \<Rightarrow> 'a tsys_scheme \<Rightarrow> 'a tsys_scheme option" where
  "thread_wakeup addr s = thread_wakeup_loop addr (tq_first (thread_queue s)) s"

partial_function (option) wakeups_loop :: "nat option \<Rightarrow> nat \<Rightarrow> 'a tsys_scheme \<Rightarrow> nat option" where
  "wakeups_loop tc n s =
     (case tc of
        None \<Rightarrow> Some n
      | Some c \<Rightarrow> wakeups_loop (tc_queue_link (tcs s c)) (if tc_wakeup (tcs s c) then n + 1 else n) s)"

definition thread_wakeups_pending :: "'a tsys_scheme \<Rightarrow> nat option" where
  "thread_wakeups_pending s = wakeups_loop (tq_first (thread_queue s)) 0 s"

definition thread_onhalt :: "nat \<Rightarrow> 'a tsys_scheme \<Rightarrow> (int \<times> 'a tsys_scheme) option" where
  "thread_onhalt f s = do {
     c \<leftarrow> cur_tc s;
     if length (tc_onhalt (tcs s c)) \<ge> THREAD_NUM_ONHALT then Some (- E_NO_MEM, s)
     else Some (0, s\<lparr>tcs := (tcs s)(c := (tcs s c)\<lparr>tc_onhalt := tc_onhalt (tcs s c) @ [f]\<rparr>)\<rparr>) }"

definition alloc_tid :: "'a tsys_scheme \<Rightarrow> (u32 \<times> 'a tsys_scheme) option" where
  "alloc_tid s =
     (let t = max_tid s + 1 in if t = - 1 then None else Some (max_tid s, s\<lparr>max_tid := t\<rparr>))"

text \<open>\<open>thread_create\<close>: \<open>entry_pc\<close> is the address of \<open>thread_entry\<close>.  The argument is kept in 32 bits.\<close>

definition thread_create :: "nat \<Rightarrow> u8 list \<Rightarrow> nat \<Rightarrow> u64 \<Rightarrow> 'a tsys_scheme \<Rightarrow> (int \<times> u32 \<times> 'a tsys_scheme) option" where
  "thread_create entry_pc name entry arg s = do {
     (tc, h1) \<leftarrow> malloc (of_nat TC_SIZE) (theap s);
     if tc = 0 then Some (- E_NO_MEM, 0, s\<lparr>theap := h1\<rparr>)
     else do {
       (tid, s1) \<leftarrow> alloc_tid (s\<lparr>theap := h1\<rparr>);
       (stack, h2) \<leftarrow> malloc (of_nat stack_size) (theap s1);
       if stack = 0 then do {
         h3 \<leftarrow> free tc h2;
         Some (- E_NO_MEM, 0, s1\<lparr>theap := h3\<rparr>) }
       else do {
         let ctx = \<lparr>tc_tid = tid, tc_stack_bottom = stack, tc_name = take (name_size - 1) name, tc_entry = entry, tc_arg = ucast arg,
                    tc_jb = \<lparr>jb_rip = of_nat entry_pc, jb_rsp = of_nat (stack + stack_size - 8), jb_regs = replicate 12 0\<rparr>,
                    tc_wait_addr = 0, tc_wakeup = False, tc_onhalt = [], tc_queue_link = None\<rparr>;
         (q, cs) \<leftarrow> threadq_push tc (thread_queue s1, (tcs s1)(tc := ctx));
         Some (0, tid, s1\<lparr>theap := h2, thread_queue := q, tcs := cs\<rparr>) } } }"

text \<open>\<open>thread_yield\<close> with the registers at the call.\<close>

definition thread_yield :: "jmp_buf \<Rightarrow> 'a tsys_scheme \<Rightarrow> 'a tsys_scheme yield_result option" where
  "thread_yield jb s =
     (case threadq_pop (thread_queue s, tcs s) of
        (None, _) \<Rightarrow> Some (Stay s)
      | (Some nx, q, cs) \<Rightarrow>
          (case cur_tc s of
             None \<Rightarrow> Some (Jump (s\<lparr>thread_queue := q, tcs := cs, cur_tc := Some nx\<rparr>))
           | Some c \<Rightarrow> do {
               (q1, cs1) \<leftarrow> threadq_push c (q, cs(c := (cs c)\<lparr>tc_jb := jb\<rparr>));
               Some (Jump (s\<lparr>thread_queue := q1, tcs := cs1, cur_tc := Some nx\<rparr>)) }))"

text \<open>\<open>thread_wait\<close>: the loop, and the cleanup after it; \<open>rd\<close> reads a word of the environment's memory.\<close>

fun thread_wait_loop :: "(nat \<Rightarrow> 'a tsys_scheme \<Rightarrow> u32 option) \<Rightarrow> nat \<Rightarrow> u32 \<Rightarrow> u32 \<Rightarrow> u32 \<Rightarrow> u32 \<Rightarrow> (('a tsys_scheme \<Rightarrow> 'a tsys_scheme) \<times> u32) list \<Rightarrow> 'a tsys_scheme \<Rightarrow> 'a tsys_scheme option" where
  "thread_wait_loop rd addr val msec s0 p ws s = do {
     c \<leftarrow> cur_tc s;
     if \<not> p < msec \<or> p < s0 then Some s
     else do {
       v \<leftarrow> (if addr = 0 then Some val else rd addr s);
       if v \<noteq> val \<or> tc_wakeup (tcs s c) then Some s
       else case ws of [] \<Rightarrow> None | (others, now) # ws1 \<Rightarrow> thread_wait_loop rd addr val msec s0 now ws1 (others s) } }"

definition thread_wait :: "(nat \<Rightarrow> 'a tsys_scheme \<Rightarrow> u32 option) \<Rightarrow> nat \<Rightarrow> u32 \<Rightarrow> u32 \<Rightarrow> u32 \<Rightarrow> (('a tsys_scheme \<Rightarrow> 'a tsys_scheme) \<times> u32) list \<Rightarrow> 'a tsys_scheme \<Rightarrow> 'a tsys_scheme option" where
  "thread_wait rd addr val msec now ws s = do {
     c \<leftarrow> cur_tc s;
     s1 \<leftarrow> thread_wait_loop rd addr val msec now now ws (s\<lparr>tcs := (tcs s)(c := (tcs s c)\<lparr>tc_wait_addr := addr, tc_wakeup := False\<rparr>)\<rparr>);
     c1 \<leftarrow> cur_tc s1;
     Some (s1\<lparr>tcs := (tcs s1)(c1 := (tcs s1 c1)\<lparr>tc_wait_addr := 0, tc_wakeup := False\<rparr>)\<rparr>) }"

text \<open>\<open>hooks\<close> are the functions that \<open>tc_onhalt\<close> points to.\<close>

definition thread_clean :: "(nat \<Rightarrow> u32 \<Rightarrow> 'a tsys_scheme \<Rightarrow> 'a tsys_scheme option) \<Rightarrow> nat option \<Rightarrow> 'a tsys_scheme \<Rightarrow> 'a tsys_scheme option" where
  "thread_clean hooks tc s =
     (case tc of
        None \<Rightarrow> Some s
      | Some c \<Rightarrow> do {
          s1 \<leftarrow> fold (\<lambda>f st. Option.bind st (hooks f (tc_tid (tcs s c)))) (tc_onhalt (tcs s c)) (Some s);
          h1 \<leftarrow> free (tc_stack_bottom (tcs s1 c)) (theap s1);
          h2 \<leftarrow> free c h1;
          Some (s1\<lparr>theap := h2\<rparr>) })"

text \<open>\<open>thread_halt\<close>: \<open>Stay\<close> means that no thread is left and the environment exits.\<close>

definition thread_halt :: "(nat \<Rightarrow> u32 \<Rightarrow> 'a tsys_scheme \<Rightarrow> 'a tsys_scheme option) \<Rightarrow> jmp_buf \<Rightarrow> 'a tsys_scheme \<Rightarrow> 'a tsys_scheme yield_result option" where
  "thread_halt hooks jb s = do {
     let (dead, kq, cs) = threadq_pop (kill_queue s, tcs s);
     s1 \<leftarrow> thread_clean hooks dead (s\<lparr>kill_queue := kq, tcs := cs\<rparr>);
     c \<leftarrow> cur_tc s1;
     (kq1, cs1) \<leftarrow> threadq_push c (kill_queue s1, tcs s1);
     thread_yield jb (s1\<lparr>kill_queue := kq1, tcs := cs1, cur_tc := None\<rparr>) }"

section \<open>Queues keep the order\<close>

text \<open>The contract of a queue that represents a list, and its client: giving up the current element for
  the next one.\<close>

fun rotate_once :: "('a \<Rightarrow> 's \<Rightarrow> 's option) \<Rightarrow> ('s \<Rightarrow> 'a option \<times> 's) \<Rightarrow> 'a \<times> 's \<Rightarrow> ('a \<times> 's) option" where
  "rotate_once push pop (c, q) =
     (case pop q of
        (None, q1) \<Rightarrow> Some (c, q1)
      | (Some x, q1) \<Rightarrow> map_option (Pair x) (push c q1))"

primrec rotations :: "('a \<Rightarrow> 's \<Rightarrow> 's option) \<Rightarrow> ('s \<Rightarrow> 'a option \<times> 's) \<Rightarrow> nat \<Rightarrow> 'a \<times> 's \<Rightarrow> ('a \<times> 's) option" where
  "rotations push pop 0 p = Some p"
| "rotations push pop (Suc n) p = Option.bind (rotations push pop n p) (rotate_once push pop)"

locale fifo_queue =
  fixes repr :: "'s \<Rightarrow> 'a list \<Rightarrow> bool"
    and push :: "'a \<Rightarrow> 's \<Rightarrow> 's option"
    and pop :: "'s \<Rightarrow> 'a option \<times> 's"
  assumes push_repr: "repr q xs \<Longrightarrow> x \<notin> set xs \<Longrightarrow> \<exists>q'. push x q = Some q' \<and> repr q' (xs @ [x])"
    and pop_empty: "repr q [] \<Longrightarrow> pop q = (None, q)"
    and pop_repr: "repr q (x # xs) \<Longrightarrow> \<exists>q'. pop q = (Some x, q') \<and> repr q' xs"
    and repr_distinct: "repr q xs \<Longrightarrow> distinct xs"
begin

lemma rotate_repr:
  assumes "repr q (x # xs)" "c \<notin> set (x # xs)"
  shows "\<exists>q'. rotate_once push pop (c, q) = Some (x, q') \<and> repr q' (xs @ [c])"
proof -
  from pop_repr [OF assms(1)] obtain q1 where q1: "pop q = (Some x, q1)" "repr q1 xs" by blast
  from push_repr [OF q1(2), of c] assms(2) obtain q2 where "push c q1 = Some q2" "repr q2 (xs @ [c])" by auto
  with q1(1) show ?thesis by simp
qed

text \<open>Every element of the queue gets its turn, in order.\<close>

lemma rotations_repr:
  assumes "repr q xs" "c \<notin> set xs" "n \<le> length xs"
  shows "\<exists>q'. rotations push pop n (c, q) = Some ((c # xs) ! n, q') \<and> repr q' (drop n xs @ take n (c # xs))"
  using assms(3)
proof (induction n)
  case 0
  then show ?case using assms(1) by simp
next
  case (Suc n)
  then obtain q' where q': "rotations push pop n (c, q) = Some ((c # xs) ! n, q')" "repr q' (drop n xs @ take n (c # xs))" by auto
  have d: "drop n xs = xs ! n # drop (Suc n) xs" using Suc.prems by (simp add: Cons_nth_drop_Suc)
  have dist: "distinct (c # xs)" using assms(2) repr_distinct [OF assms(1)] by simp
  have "set (drop n xs @ take n (c # xs)) = set (drop (Suc n) (c # xs)) \<union> set (take n (c # xs))" by simp
  moreover have "(c # xs) ! n \<notin> set (drop (Suc n) (c # xs)) \<union> set (take n (c # xs))"
    using dist Suc.prems id_take_nth_drop [of n "c # xs"] by (metis Un_iff disjoint_insert(1) distinct_append distinct.simps(2) disjoint_iff length_Cons less_Suc_eq_le Suc_leD list.set_intros(1))
  ultimately have "(c # xs) ! n \<notin> set (xs ! n # (drop (Suc n) xs @ take n (c # xs)))" using d by auto
  from rotate_repr [OF _ this, of q'] q'(2) d obtain q'' where
    "rotate_once push pop ((c # xs) ! n, q') = Some (xs ! n, q'')" "repr q'' ((drop (Suc n) xs @ take n (c # xs)) @ [(c # xs) ! n])" by auto
  moreover have "take n (c # xs) @ [(c # xs) ! n] = take (Suc n) (c # xs)"
    using Suc.prems by (subst take_Suc_conv_app_nth) simp_all
  ultimately show ?case using q'(1) by simp
qed

end

text \<open>The linked queue: \<open>tq_last\<close> only matters while the queue is not empty.\<close>

definition tq_repr :: "tqueue \<times> (nat \<Rightarrow> tctx) \<Rightarrow> nat list \<Rightarrow> bool" where
  "tq_repr q xs \<longleftrightarrow> chain (\<lambda>x. tc_queue_link (snd q x)) (tq_first (fst q)) xs \<and>
     (xs \<noteq> [] \<longrightarrow> tq_last (fst q) = Some (last xs)) \<and> distinct xs"

lemma chain_append_last:
  assumes "chain link h xs" "xs \<noteq> []" "x \<notin> set xs" "link x = None" "distinct xs"
  shows "chain (link(last xs := Some x)) h (xs @ [x])"
  using assms
proof (induction xs arbitrary: h)
  case (Cons y ys)
  show ?case
  proof (cases "ys = []")
    case True
    then show ?thesis using Cons.prems by auto
  next
    case False
    then have "chain (link(last ys := Some x)) (link y) (ys @ [x])" using Cons by (intro Cons.IH) auto
    moreover have "last ys \<noteq> y" using Cons.prems(5) False last_in_set [of ys] by auto
    ultimately show ?thesis using Cons.prems False by (auto simp: fun_upd_def)
  qed
qed simp

lemma tq_push:
  assumes "tq_repr q xs" "x \<notin> set xs"
  shows "\<exists>q'. threadq_push x q = Some q' \<and> tq_repr q' (xs @ [x]) \<and> (\<forall>y. snd q' y = (snd q y)\<lparr>tc_queue_link := tc_queue_link (snd q' y)\<rparr>)"
proof -
  obtain tq cs where q: "q = (tq, cs)" by (cases q)
  let ?cs1 = "cs(x := (cs x)\<lparr>tc_queue_link := None\<rparr>)"
  have c: "chain (\<lambda>y. tc_queue_link (cs y)) (tq_first tq) xs" using assms(1) by (simp add: tq_repr_def q)
  have c1: "chain (\<lambda>y. tc_queue_link (?cs1 y)) (tq_first tq) xs"
    using c assms(2) by (subst chain_cong [where link' = "\<lambda>y. tc_queue_link (cs y)"]) auto
  show ?thesis
  proof (cases "xs = []")
    case True
    then have "tq_first tq = None" using c by simp
    then show ?thesis using True by (simp add: q threadq_push_def tq_repr_def)
  next
    case False
    then obtain y ys where y: "xs = y # ys" by (cases xs) auto
    have l: "tq_last tq = Some (last xs)" "distinct xs" using assms(1) False by (simp_all add: tq_repr_def q)
    let ?cs2 = "?cs1(last xs := (?cs1 (last xs))\<lparr>tc_queue_link := Some x\<rparr>)"
    have "chain ((\<lambda>y. tc_queue_link (?cs1 y))(last xs := Some x)) (tq_first tq) (xs @ [x])"
      by (rule chain_append_last [OF c1 False assms(2)]) (use l in simp_all)
    moreover have "(\<lambda>y. tc_queue_link (?cs1 y))(last xs := Some x) = (\<lambda>y. tc_queue_link (?cs2 y))" by auto
    ultimately have "chain (\<lambda>y. tc_queue_link (?cs2 y)) (tq_first tq) (xs @ [x])" by simp
    moreover have "threadq_push x q = Some (tq\<lparr>tq_last := Some x\<rparr>, ?cs2)"
      using c y l(1) by (simp add: q threadq_push_def Let_def)
    ultimately show ?thesis using l assms(2) by (auto simp: tq_repr_def q)
  qed
qed

lemma tq_pop:
  assumes "tq_repr q (x # xs)"
  shows "\<exists>q'. threadq_pop q = (Some x, q') \<and> tq_repr q' xs \<and> (\<forall>y. snd q' y = (snd q y)\<lparr>tc_queue_link := tc_queue_link (snd q' y)\<rparr>)"
proof -
  obtain tq cs where q: "q = (tq, cs)" by (cases q)
  let ?cs1 = "cs(x := (cs x)\<lparr>tc_queue_link := None\<rparr>)"
  have c: "tq_first tq = Some x" "chain (\<lambda>y. tc_queue_link (cs y)) (tc_queue_link (cs x)) xs" "x \<notin> set xs" "distinct xs"
    "xs \<noteq> [] \<Longrightarrow> tq_last tq = Some (last xs)"
    using assms by (auto simp: tq_repr_def q)
  have "chain (\<lambda>y. tc_queue_link (?cs1 y)) (tc_queue_link (cs x)) xs"
    using c(2,3) by (subst chain_cong [where link' = "\<lambda>y. tc_queue_link (cs y)"]) auto
  then show ?thesis using c by (auto simp: q threadq_pop_def tq_repr_def)
qed

interpretation thread_fifo: fifo_queue tq_repr threadq_push threadq_pop
proof (unfold_locales, goal_cases)
  case (1 q xs x)
  then show ?case using tq_push [OF 1] by blast
next
  case (2 q)
  then show ?case by (cases q) (simp add: tq_repr_def threadq_pop_def)
next
  case (3 q x xs)
  then show ?case using tq_pop [OF 3] by blast
next
  case (4 q xs)
  then show ?case by (simp add: tq_repr_def)
qed

section \<open>Threads take turns\<close>

text \<open>Saving the registers of a thread does not disturb the queue.\<close>

definition save_push :: "jmp_buf \<Rightarrow> nat \<Rightarrow> tqueue \<times> (nat \<Rightarrow> tctx) \<Rightarrow> (tqueue \<times> (nat \<Rightarrow> tctx)) option" where
  "save_push jb c q = threadq_push c (fst q, (snd q)(c := (snd q c)\<lparr>tc_jb := jb\<rparr>))"

lemma tq_repr_fields:
  "(\<And>x. x \<in> set xs \<Longrightarrow> tc_queue_link (cs' x) = tc_queue_link (cs x)) \<Longrightarrow> tq_repr (tq, cs') xs = tq_repr (tq, cs) xs"
  unfolding tq_repr_def fst_conv snd_conv by (subst chain_cong [where link' = "\<lambda>x. tc_queue_link (cs x)"]) auto

interpretation yield_fifo: fifo_queue tq_repr "save_push jb" threadq_pop for jb
proof (unfold_locales, goal_cases)
  case (1 q xs x)
  have "tq_repr (fst q, (snd q)(x := (snd q x)\<lparr>tc_jb := jb\<rparr>)) xs"
    using 1 by (subst tq_repr_fields [where cs = "snd q"]) auto
  from thread_fifo.push_repr [OF this 1(2)] show ?case by (simp add: save_push_def)
next
  case (2 q)
  then show ?case by (rule thread_fifo.pop_empty)
next
  case (3 q x xs)
  then show ?case by (rule thread_fifo.pop_repr)
next
  case (4 q xs)
  then show ?case by (rule thread_fifo.repr_distinct)
qed

lemma thread_yield_rotate:
  assumes "cur_tc s = Some c" "rotate_once (save_push jb) threadq_pop (c, (thread_queue s, tcs s)) = Some (x, q, cs)"
    "fst (threadq_pop (thread_queue s, tcs s)) \<noteq> None"
  shows "thread_yield jb s = Some (Jump (s\<lparr>thread_queue := q, tcs := cs, cur_tc := Some x\<rparr>))"
  using assms by (auto simp: thread_yield_def save_push_def split: prod.splits option.splits)

fun thread_yields :: "jmp_buf list \<Rightarrow> 'a tsys_scheme \<Rightarrow> 'a tsys_scheme option" where
  "thread_yields [] s = Some s"
| "thread_yields (jb # js) s = (case thread_yield jb s of Some (Jump s1) \<Rightarrow> thread_yields js s1 | _ \<Rightarrow> None)"

definition runs :: "'a tsys_scheme \<Rightarrow> nat \<Rightarrow> nat list \<Rightarrow> bool" where
  "runs s c xs \<longleftrightarrow> cur_tc s = Some c \<and> tq_repr (thread_queue s, tcs s) xs \<and> c \<notin> set xs"

lemma thread_yield_step:
  assumes "runs s c (x # xs)"
  shows "\<exists>s'. thread_yield jb s = Some (Jump s') \<and> runs s' x (xs @ [c]) \<and> tc_jb (tcs s' c) = jb \<and>
    (\<forall>y. y \<noteq> c \<longrightarrow> tc_jb (tcs s' y) = tc_jb (tcs s y)) \<and> theap s' = theap s \<and> max_tid s' = max_tid s"
proof -
  have s: "cur_tc s = Some c" "tq_repr (thread_queue s, tcs s) (x # xs)" "c \<notin> set (x # xs)" using assms by (auto simp: runs_def)
  from tq_pop [OF s(2)] obtain q1 where q1: "threadq_pop (thread_queue s, tcs s) = (Some x, q1)" "tq_repr q1 xs"
    "\<forall>y. snd q1 y = (tcs s y)\<lparr>tc_queue_link := tc_queue_link (snd q1 y)\<rparr>" by auto
  let ?q1 = "(fst q1, (snd q1)(c := (snd q1 c)\<lparr>tc_jb := jb\<rparr>))"
  have "tq_repr ?q1 xs" using q1(2) by (subst tq_repr_fields [where cs = "snd q1"]) auto
  from tq_push [OF this, of c] s(3) obtain q2 where q2: "threadq_push c ?q1 = Some q2" "tq_repr q2 (xs @ [c])"
    "\<forall>y. snd q2 y = (snd ?q1 y)\<lparr>tc_queue_link := tc_queue_link (snd q2 y)\<rparr>" by auto
  let ?s' = "s\<lparr>thread_queue := fst q2, tcs := snd q2, cur_tc := Some x\<rparr>"
  have "rotate_once (save_push jb) threadq_pop (c, (thread_queue s, tcs s)) = Some (x, fst q2, snd q2)"
    using q1(1) q2(1) by (simp add: save_push_def)
  from thread_yield_rotate [OF s(1) this] have "thread_yield jb s = Some (Jump ?s')" using q1(1) by simp
  moreover have "x \<notin> set (xs @ [c])" using s(2,3) by (auto simp: tq_repr_def)
  then have "runs ?s' x (xs @ [c])" using q2(2) by (simp add: runs_def)
  moreover have jb2: "tc_jb (snd q2 y) = tc_jb (snd ?q1 y)" for y
  proof -
    have "tc_jb (snd q2 y) = tc_jb ((snd ?q1 y)\<lparr>tc_queue_link := tc_queue_link (snd q2 y)\<rparr>)" using q2(3) by metis
    then show ?thesis by simp
  qed
  moreover have "tc_jb (snd q1 y) = tc_jb (tcs s y)" for y
  proof -
    have "tc_jb (snd q1 y) = tc_jb ((tcs s y)\<lparr>tc_queue_link := tc_queue_link (snd q1 y)\<rparr>)" using q1(3) by metis
    then show ?thesis by simp
  qed
  ultimately show ?thesis by (intro exI [of _ ?s']) auto
qed

text \<open>C15: with threads \<open>xs\<close> waiting behind the running thread, each call of \<open>thread_yield\<close> passes control to the
  next one in order of arrival, and a thread that gives up is queued at the end.  Its registers stay saved
  until its turn comes again, so that it goes on where it stopped.\<close>

theorem threads_take_turns:
  assumes "runs s c xs" "length js \<le> length xs"
  shows "\<exists>s'. thread_yields js s = Some s' \<and> runs s' ((c # xs) ! length js) (drop (length js) xs @ take (length js) (c # xs)) \<and>
    (\<forall>i < length js. tc_jb (tcs s' ((c # xs) ! i)) = js ! i) \<and>
    (\<forall>y. y \<notin> set (take (length js) (c # xs)) \<longrightarrow> tc_jb (tcs s' y) = tc_jb (tcs s y))"
  using assms
proof (induction js arbitrary: s c xs)
  case Nil
  then show ?case by simp
next
  case (Cons jb js)
  then obtain x ys where xs: "xs = x # ys" by (cases xs) auto
  from thread_yield_step [of s c x ys jb] Cons.prems(1) xs obtain s1 where s1: "thread_yield jb s = Some (Jump s1)"
    "runs s1 x (ys @ [c])" "tc_jb (tcs s1 c) = jb" "\<forall>y. y \<noteq> c \<longrightarrow> tc_jb (tcs s1 y) = tc_jb (tcs s y)" by auto
  have l: "length js \<le> length ys" using Cons.prems(2) xs by simp
  from Cons.IH [OF s1(2)] l obtain s' where s': "thread_yields js s1 = Some s'"
    "runs s' ((x # ys @ [c]) ! length js) (drop (length js) (ys @ [c]) @ take (length js) (x # ys @ [c]))"
    "\<forall>i < length js. tc_jb (tcs s' ((x # ys @ [c]) ! i)) = js ! i"
    "\<forall>y. y \<notin> set (take (length js) (x # ys @ [c])) \<longrightarrow> tc_jb (tcs s' y) = tc_jb (tcs s1 y)" by auto
  have eq: "(x # ys @ [c]) ! i = (x # ys) ! i" if "i \<le> length js" for i
    using that l nth_append [of "x # ys" "[c]" i] by simp
  have tk: "take (length js) (x # ys @ [c]) = take (length js) (x # ys)"
    using l take_append [of "length js" "x # ys" "[c]"] by (simp del: take_append)
  have nc: "c \<notin> set (take (length js) (x # ys))" using Cons.prems(1) xs by (auto simp: runs_def dest: in_set_takeD)
  have "runs s' ((c # xs) ! length (jb # js)) (drop (length (jb # js)) xs @ take (length (jb # js)) (c # xs))"
    using s'(2) eq [of "length js"] tk l xs by simp
  moreover have "tc_jb (tcs s' ((c # xs) ! i)) = (jb # js) ! i" if "i < length (jb # js)" for i
  proof (cases i)
    case 0
    then show ?thesis using s'(4) s1(3) nc tk by simp
  next
    case (Suc k)
    then show ?thesis using s'(3) [rule_format, of k] eq [of k] that xs by simp
  qed
  moreover have "tc_jb (tcs s' y) = tc_jb (tcs s y)" if "y \<notin> set (take (length (jb # js)) (c # xs))" for y
    using that s'(4) s1(4) tk xs by auto
  ultimately show ?case using s1(1) s'(1) by auto
qed

section \<open>Creating a thread\<close>

definition thread_blocks :: "(nat \<times> nat) list \<Rightarrow> nat list \<Rightarrow> bool" where
  "thread_blocks L xs \<longleftrightarrow> (\<forall>x \<in> set xs. (x, TC_SIZE) \<in> set L)"

lemma thread_create_Some:
  assumes inv: "heap_inv (theap s) L" "length L < 2 ^ 32 - 4" and q: "runs s c xs" "thread_blocks L (c # xs)"
    and ids: "max_tid s \<noteq> - 1" "\<forall>x \<in> set (c # xs). tc_tid (tcs s x) < max_tid s"
    and ret: "thread_create pc name entry arg s = Some (r, tid, s')"
  shows "r = - E_NO_MEM \<and> heap_inv (theap s') L \<and> runs s' c xs \<or>
    r = 0 \<and> (\<exists>tc stack. heap_inv (theap s') ((stack, stack_size) # (tc, TC_SIZE) # L) \<and> runs s' c (xs @ [tc]) \<and>
      tc_tid (tcs s' tc) = tid \<and> (\<forall>x \<in> set (c # xs). tc_tid (tcs s' x) < tid) \<and> tid < max_tid s')"
proof -
  have sz: "unat (ROUNDUP64 (of_nat TC_SIZE) 4) = TC_SIZE" "unat (ROUNDUP64 (of_nat stack_size) 4) = stack_size"
    by (simp_all add: ROUNDUP64_def ROUNDDOWN64_def)
  from ret obtain tc h1 where m1: "malloc (of_nat TC_SIZE) (theap s) = Some (tc, h1)" by (auto simp: thread_create_def bind_eq_Some_conv)
  have o1: "malloc_ok TC_SIZE (theap s) L tc h1" using malloc_cases [OF inv(1), of "of_nat TC_SIZE"] inv(2) m1 sz by auto
  show ?thesis
  proof (cases "tc = 0")
    case True
    then have "r = - E_NO_MEM" "s' = s\<lparr>theap := h1\<rparr>" using ret m1 by (auto simp: thread_create_def)
    then show ?thesis using o1 True q(1) by (simp add: malloc_ok_def runs_def)
  next
    case tc: False
    have i1: "heap_inv h1 ((tc, TC_SIZE) # L)" and ap: "\<forall>b \<in> set L. apart (tc, TC_SIZE) b" using o1 tc by (auto simp: malloc_ok_def)
    have fresh: "tc \<notin> set (c # xs)"
    proof
      assume "tc \<in> set (c # xs)"
      then have "(tc, TC_SIZE) \<in> set L" using q(2) by (auto simp: thread_blocks_def)
      with ap have "apart (tc, TC_SIZE) (tc, TC_SIZE)" by blast
      then show False by (simp add: apart_def)
    qed
    from ret m1 tc obtain s1 where a: "alloc_tid (s\<lparr>theap := h1\<rparr>) = Some (max_tid s, s1)"
      by (auto simp: thread_create_def bind_eq_Some_conv alloc_tid_def Let_def split: if_splits)
    then have s1: "s1 = s\<lparr>theap := h1, max_tid := max_tid s + 1\<rparr>" "max_tid s + 1 \<noteq> - 1"
      by (auto simp: alloc_tid_def Let_def split: if_splits)
    from ret m1 tc a obtain stack h2 where m2: "malloc (of_nat stack_size) h1 = Some (stack, h2)"
      by (auto simp: thread_create_def bind_eq_Some_conv s1(1))
    have o2: "malloc_ok stack_size h1 ((tc, TC_SIZE) # L) stack h2"
      using malloc_cases [OF i1, of "of_nat stack_size"] inv(2) m2 sz by auto
    show ?thesis
    proof (cases "stack = 0")
      case True
      then have i2: "heap_inv h2 ([] @ (tc, TC_SIZE) # L)" using o2 by (simp add: malloc_ok_def)
      from free_block [OF i2] obtain h3 where h3: "free tc h2 = Some h3" "heap_inv h3 L" by auto
      then have "r = - E_NO_MEM" "s' = s1\<lparr>theap := h3\<rparr>" using ret m1 tc a m2 True by (auto simp: thread_create_def s1(1))
      then show ?thesis using h3(2) q(1) by (simp add: runs_def s1(1))
    next
      case st: False
      define ctx where "ctx = \<lparr>tc_tid = max_tid s, tc_stack_bottom = stack, tc_name = take (name_size - 1) name, tc_entry = entry, tc_arg = ucast arg,
                    tc_jb = \<lparr>jb_rip = of_nat pc, jb_rsp = of_nat (stack + stack_size - 8), jb_regs = replicate 12 0\<rparr>,
                    tc_wait_addr = 0, tc_wakeup = False, tc_onhalt = [], tc_queue_link = None\<rparr>"
      let ?q = "(thread_queue s, (tcs s)(tc := ctx))"
      have "tq_repr ?q xs" using q(1) fresh by (subst tq_repr_fields [where cs = "tcs s"]) (auto simp: runs_def)
      from tq_push [OF this, of tc] fresh obtain q2 where q2: "threadq_push tc ?q = Some q2" "tq_repr q2 (xs @ [tc])"
        "\<forall>y. snd q2 y = (snd ?q y)\<lparr>tc_queue_link := tc_queue_link (snd q2 y)\<rparr>" by auto
      have s': "r = 0" "tid = max_tid s" "s' = s1\<lparr>theap := h2, thread_queue := fst q2, tcs := snd q2\<rparr>"
        using ret m1 tc a m2 st q2(1) unfolding thread_create_def ctx_def by (cases q2; auto simp: s1(1) Let_def)+
      have t: "tc_tid (snd q2 y) = tc_tid (snd ?q y)" for y
      proof -
        have "tc_tid (snd q2 y) = tc_tid ((snd ?q y)\<lparr>tc_queue_link := tc_queue_link (snd q2 y)\<rparr>)" using q2(3) by metis
        then show ?thesis by simp
      qed
      have "max_tid s < max_tid s + 1"
        using ids(1) unatSuc [of "max_tid s"] by (simp add: word_less_nat_alt add.commute add_eq_0_iff)
      then show ?thesis
        using s' o2 st q2(2) q(1) fresh ids(2) t by (auto simp: malloc_ok_def runs_def s1(1) ctx_def)
    qed
  qed
qed

lemma thread_create_None:
  assumes inv: "heap_inv (theap s) L" "length L < 2 ^ 32 - 4" and q: "runs s c xs" "thread_blocks L (c # xs)"
    and m1: "malloc (of_nat TC_SIZE) (theap s) = Some (tc, h)" "mptr h < MEND - PGSIZE" and id: "max_tid s + 1 \<noteq> - 1"
  shows "thread_create pc name entry arg s \<noteq> None"
proof (cases "tc = 0")
  case True
  then show ?thesis using m1 by (simp add: thread_create_def)
next
  case tc: False
  have sz: "unat (ROUNDUP64 (of_nat TC_SIZE) 4) = TC_SIZE" "unat (ROUNDUP64 (of_nat stack_size) 4) = stack_size"
    by (simp_all add: ROUNDUP64_def ROUNDDOWN64_def)
  have o1: "malloc_ok TC_SIZE (theap s) L tc h" using malloc_cases [OF inv(1), of "of_nat TC_SIZE"] inv(2) m1 sz by auto
  then have i1: "heap_inv h ((tc, TC_SIZE) # L)" and ap: "\<forall>b \<in> set L. apart (tc, TC_SIZE) b" using tc by (auto simp: malloc_ok_def)
  have fresh: "tc \<notin> set (c # xs)" using q(2) ap by (force simp: thread_blocks_def apart_def)
  obtain stack h2 where m2: "malloc (of_nat stack_size) h = Some (stack, h2)" and o2: "malloc_ok stack_size h ((tc, TC_SIZE) # L) stack h2"
    using malloc_cases [OF i1, of "of_nat stack_size"] inv(2) m1(2) sz by auto
  have a: "alloc_tid (s\<lparr>theap := h\<rparr>) = Some (max_tid s, s\<lparr>theap := h, max_tid := max_tid s + 1\<rparr>)"
    using id by (simp add: alloc_tid_def Let_def)
  show ?thesis
  proof (cases "stack = 0")
    case True
    then have "heap_inv h2 ([] @ (tc, TC_SIZE) # L)" using o2 by (simp add: malloc_ok_def)
    from free_block [OF this] obtain h3 where "free tc h2 = Some h3" by auto
    then show ?thesis using m1 tc a m2 True by (simp add: thread_create_def)
  next
    case False
    have p: "threadq_push tc (thread_queue s, (tcs s)(tc := ctx)) \<noteq> None" for ctx
    proof -
      have "tq_repr (thread_queue s, (tcs s)(tc := ctx)) xs" using q(1) fresh by (subst tq_repr_fields [where cs = "tcs s"]) (auto simp: runs_def)
      from tq_push [OF this, of tc] fresh show ?thesis by auto
    qed
    show ?thesis
    proof
      assume n: "thread_create pc name entry arg s = None"
      show False using n m1 tc a m2 False p unfolding thread_create_def Let_def
        by (simp del: not_None_eq add: bind_eq_None_conv split: prod.splits)
    qed
  qed
qed

text \<open>Creating a thread either fails for lack of memory and leaves the threads and the live blocks of the
  heap as they were, or appends one new thread at the end of the queue.  Its context and its stack are two new
  blocks, and its identifier is larger than every earlier one.  It does not return only when the identifiers are used
  up or the heap is on its last page.\<close>

theorem thread_create_appends:
  assumes inv: "heap_inv (theap s) L" "length L < 2 ^ 32 - 4" and q: "runs s c xs" "thread_blocks L (c # xs)"
    and ids: "max_tid s \<noteq> - 1" "\<forall>x \<in> set (c # xs). tc_tid (tcs s x) < max_tid s"
  shows "(case thread_create pc name entry arg s of
      None \<Rightarrow> max_tid s + 1 = - 1 \<or> MEND - PGSIZE \<le> mptr (theap s) \<or>
        (\<exists>tc h. malloc (of_nat TC_SIZE) (theap s) = Some (tc, h) \<and> MEND - PGSIZE \<le> mptr h)
    | Some (r, tid, s') \<Rightarrow>
        r = - E_NO_MEM \<and> heap_inv (theap s') L \<and> runs s' c xs \<or>
        r = 0 \<and> (\<exists>tc stack. heap_inv (theap s') ((stack, stack_size) # (tc, TC_SIZE) # L) \<and> runs s' c (xs @ [tc]) \<and>
          tc_tid (tcs s' tc) = tid \<and> (\<forall>x \<in> set (c # xs). tc_tid (tcs s' x) < tid) \<and> tid < max_tid s'))"
proof (cases "thread_create pc name entry arg s")
  case None
  then have "max_tid s + 1 = - 1 \<or> mptr h \<ge> MEND - PGSIZE" if "malloc (of_nat TC_SIZE) (theap s) = Some (tc, h)" for tc h
    using thread_create_None [OF inv q that] by (meson not_le)
  moreover have "MEND - PGSIZE \<le> mptr (theap s) \<or> (\<exists>tc h. malloc (of_nat TC_SIZE) (theap s) = Some (tc, h))"
    using malloc_cases [OF inv(1), of "of_nat TC_SIZE"] inv(2) by auto
  ultimately show ?thesis unfolding None by auto
next
  case (Some p)
  obtain r tid s' where "p = (r, tid, s')" by (cases p)
  then show ?thesis using thread_create_Some [OF inv q ids] Some by simp
qed

subsection \<open>Examples\<close>

text \<open>Two threads, the second one waiting in the queue.\<close>

definition a_ctx :: "u32 \<Rightarrow> tctx" where
  "a_ctx t = \<lparr>tc_tid = t, tc_stack_bottom = 0, tc_name = [], tc_entry = 0, tc_arg = 0, tc_jb = \<lparr>jb_rip = 0, jb_rsp = 0, jb_regs = []\<rparr>,
     tc_wait_addr = 0, tc_wakeup = False, tc_onhalt = [], tc_queue_link = None\<rparr>"

definition two_threads :: "nat \<Rightarrow> nat \<Rightarrow> tsys" where
  "two_threads c x = \<lparr>theap = small_heap 32768 (32768 * PGSIZE + TC_SIZE), tcs = (\<lambda>y. a_ctx (if y = c then 0 else 1)),
     thread_queue = \<lparr>tq_first = Some x, tq_last = Some x\<rparr>, kill_queue = threadq_init, cur_tc = Some c, max_tid = 2\<rparr>"

lemma two_threads_run: "c \<noteq> x \<Longrightarrow> runs (two_threads c x) c [x]"
  by (simp add: runs_def two_threads_def tq_repr_def a_ctx_def)

theorem threads_take_turns_witness:
  "\<exists>s'. thread_yields [\<lparr>jb_rip = 7, jb_rsp = 8, jb_regs = []\<rparr>] (two_threads 64 128) = Some s' \<and> runs s' 128 [64] \<and> jb_rip (tc_jb (tcs s' 64)) = 7"
  using threads_take_turns [OF two_threads_run [of 64 128], of "[\<lparr>jb_rip = 7, jb_rsp = 8, jb_regs = []\<rparr>]"] by auto

definition one_thread :: tsys where
  "one_thread = (two_threads (32768 * PGSIZE) 0)\<lparr>thread_queue := threadq_init\<rparr>"

theorem thread_create_appends_witness:
  "case thread_create 1 [] 2 3 one_thread of
     None \<Rightarrow> \<exists>tc h. malloc (of_nat TC_SIZE) (theap one_thread) = Some (tc, h) \<and> MEND - PGSIZE \<le> mptr h
   | Some (r, tid, s') \<Rightarrow> r = - E_NO_MEM \<or> r = 0 \<and> (\<exists>tc. runs s' (32768 * PGSIZE) [tc] \<and> tc_tid (tcs s' tc) = tid)"
proof -
  have h: "heap_inv (theap one_thread) [(32768 * PGSIZE, TC_SIZE)]"
    using small_heap_inv [of 32768 TC_SIZE] by (simp add: one_thread_def two_threads_def hpage_def)
  have r: "runs one_thread (32768 * PGSIZE) []" by (simp add: runs_def one_thread_def two_threads_def tq_repr_def threadq_init_def)
  have b: "thread_blocks [(32768 * PGSIZE, TC_SIZE)] [32768 * PGSIZE]" by (simp add: thread_blocks_def)
  have m: "mptr (theap one_thread) < MEND - PGSIZE" "max_tid one_thread = 2" "tc_tid (tcs one_thread (32768 * PGSIZE)) = 0"
    by (simp_all add: one_thread_def two_threads_def small_heap_def a_ctx_def)
  show ?thesis
    using thread_create_appends [OF h _ r b, of 1 "[]" 2 3] m by (auto split: option.splits prod.splits)
qed

end
