(* ===== verification/Net_Mbox.thy ===== *)
theory Net_Mbox
  imports Net_Thread Ring_Fifo
begin

section \<open>Waking threads\<close>

definition woken :: "nat \<Rightarrow> tctx \<Rightarrow> tctx" where
  "woken addr t = (if tc_wait_addr t = addr then t\<lparr>tc_wakeup := True\<rparr> else t)"

lemma woken_link [simp]: "tc_queue_link (woken addr t) = tc_queue_link t"
  by (simp add: woken_def)

lemma thread_wakeup_loop_spec:
  assumes "chain (\<lambda>x. tc_queue_link (tcs s x)) h xs" "distinct xs"
  shows "thread_wakeup_loop addr h s = Some (s\<lparr>tcs := (\<lambda>x. if x \<in> set xs then woken addr (tcs s x) else tcs s x)\<rparr>)"
  using assms
proof (induction xs arbitrary: h s)
  case Nil
  then show ?case by (subst thread_wakeup_loop.simps) simp
next
  case (Cons x xs)
  let ?s1 = "s\<lparr>tcs := (tcs s)(x := woken addr (tcs s x))\<rparr>"
  have h: "h = Some x" "chain (\<lambda>y. tc_queue_link (tcs s y)) (tc_queue_link (tcs s x)) xs" "x \<notin> set xs" "distinct xs"
    using Cons.prems by auto
  have c: "chain (\<lambda>y. tc_queue_link (tcs ?s1 y)) (tc_queue_link (tcs s x)) xs"
    using h(2) by (subst chain_cong [where link' = "\<lambda>y. tc_queue_link (tcs s y)"]) auto
  have e: "(if tc_wait_addr (tcs s x) = addr then s\<lparr>tcs := (tcs s)(x := (tcs s x)\<lparr>tc_wakeup := True\<rparr>)\<rparr> else s) = ?s1"
    by (simp add: woken_def)
  have "thread_wakeup_loop addr h s = thread_wakeup_loop addr (tc_queue_link (tcs s x)) ?s1"
    unfolding h(1) by (subst thread_wakeup_loop.simps) (simp add: e)
  also have "\<dots> = Some (?s1\<lparr>tcs := (\<lambda>y. if y \<in> set xs then woken addr (tcs ?s1 y) else tcs ?s1 y)\<rparr>)"
    by (rule Cons.IH [OF c h(4)])
  also have "(\<lambda>y. if y \<in> set xs then woken addr (tcs ?s1 y) else tcs ?s1 y) =
      (\<lambda>y. if y \<in> set (x # xs) then woken addr (tcs s y) else tcs s y)" using h(3) by auto
  finally show ?case by simp
qed

lemma thread_wakeup_spec:
  "tq_repr (thread_queue s, tcs s) xs \<Longrightarrow>
     thread_wakeup addr s = Some (s\<lparr>tcs := (\<lambda>x. if x \<in> set xs then woken addr (tcs s x) else tcs s x)\<rparr>)"
  unfolding thread_wakeup_def by (rule thread_wakeup_loop_spec) (simp_all add: tq_repr_def)

section \<open>Semaphores\<close>

text \<open>
  Semaphores and mailboxes, \<^verbatim>\<open>net/lwip/jos/arch/sys_arch.c\<close>.  The free lists of the two tables are lists of
  indices (the macros of \<^verbatim>\<open>queue.h\<close> take and put at the head).  An index outside its table, like the null
  index \<open>-1\<close>, is an access outside the array and gives \<open>None\<close>, as a failed assertion does.
\<close>

record sem =
  sem_freed :: bool
  sem_gen :: u32
  sem_counter :: u16
  sem_waiters :: u16

record mbox =
  mb_freed :: bool
  mb_head :: int
  mb_nextq :: int
  mb_msg :: "nat list"
  queued_msg :: int
  free_msg :: int

record asys = tsys +
  sems :: "sem list"
  sem_free :: "nat list"
  mboxes :: "mbox list"
  mbox_free :: "nat list"
  sems_at :: nat

abbreviation NSEM :: nat where "NSEM \<equiv> 256"
abbreviation NMBOX :: nat where "NMBOX \<equiv> 128"
abbreviation MBOXSLOTS :: nat where "MBOXSLOTS \<equiv> 32"
abbreviation SYS_ARCH_TIMEOUT :: u32 where "SYS_ARCH_TIMEOUT \<equiv> 0xFFFFFFFF"
abbreviation SYS_ARCH_NOWAIT :: u32 where "SYS_ARCH_NOWAIT \<equiv> 0xFFFFFFFE"
abbreviation ERR_OK :: int where "ERR_OK \<equiv> 0"
abbreviation ERR_MEM :: int where "ERR_MEM \<equiv> - 1"

definition sys_init :: "asys \<Rightarrow> asys" where
  "sys_init s = s\<lparr>sems := map (\<lambda>e. e\<lparr>sem_freed := True\<rparr>) (sems s), sem_free := rev [0..<NSEM] @ sem_free s,
     mboxes := map (\<lambda>e. e\<lparr>mb_freed := True\<rparr>) (mboxes s), mbox_free := rev [0..<NMBOX] @ mbox_free s\<rparr>"

definition get_sem :: "int \<Rightarrow> asys \<Rightarrow> sem option" where
  "get_sem i s = (if 0 \<le> i \<and> nat i < length (sems s) then Some (sems s ! nat i) else None)"

definition put_sem :: "int \<Rightarrow> sem \<Rightarrow> asys \<Rightarrow> asys" where
  "put_sem i e s = s\<lparr>sems := (sems s)[nat i := e]\<rparr>"

text \<open>The word \<open>v\<close> overlays the two counters.\<close>

definition sem_v :: "sem \<Rightarrow> u32" where
  "sem_v e = ucast (sem_counter e) OR push_bit 16 (ucast (sem_waiters e))"

definition sem_addr :: "int \<Rightarrow> asys \<Rightarrow> nat" where
  "sem_addr i s = sems_at s + 32 * nat i + 8"

definition sys_sem_new :: "u8 \<Rightarrow> asys \<Rightarrow> (int \<times> asys) option" where
  "sys_sem_new count s =
     (case sem_free s of
        [] \<Rightarrow> Some (- 1, s)
      | i # is \<Rightarrow> do {
          e \<leftarrow> get_sem (int i) s;
          if \<not> sem_freed e then None
          else Some (int i, put_sem (int i) (e\<lparr>sem_freed := False, sem_counter := ucast count, sem_gen := sem_gen e + 1\<rparr>) (s\<lparr>sem_free := is\<rparr>)) })"

definition sys_sem_free :: "int \<Rightarrow> asys \<Rightarrow> asys option" where
  "sys_sem_free i s = do {
     e \<leftarrow> get_sem i s;
     if sem_freed e then None
     else Some (put_sem i (e\<lparr>sem_freed := True, sem_gen := sem_gen e + 1\<rparr>) (s\<lparr>sem_free := nat i # sem_free s\<rparr>)) }"

definition sys_sem_signal :: "int \<Rightarrow> asys \<Rightarrow> asys option" where
  "sys_sem_signal i s = do {
     e \<leftarrow> get_sem i s;
     if sem_freed e then None
     else
       let e1 = e\<lparr>sem_counter := sem_counter e + 1\<rparr> in
       if sem_waiters e \<noteq> 0 then thread_wakeup (sem_addr i s) (put_sem i (e1\<lparr>sem_waiters := 0\<rparr>) s)
       else Some (put_sem i e1 s) }"

text \<open>The memory that \<open>thread_wait\<close> reads: the word of a semaphore, or another word of the environment.\<close>

definition sem_rd :: "nat \<Rightarrow> asys \<Rightarrow> u32 option" where
  "sem_rd a s =
     (if sems_at s + 8 \<le> a \<and> (a - sems_at s - 8) mod 32 = 0 \<and> (a - sems_at s - 8) div 32 < length (sems s)
      then Some (sem_v (sems s ! ((a - sems_at s - 8) div 32))) else uld32 a (theap s))"

text \<open>Waiting: each round that has to wait is described by the clock before it, the waits inside
  \<open>thread_wait\<close>, and the clock after it.\<close>

fun sem_wait_loop :: "int \<Rightarrow> u32 \<Rightarrow> u32 \<Rightarrow> u32 \<Rightarrow> (u32 \<times> ((asys \<Rightarrow> asys) \<times> u32) list \<times> u32) list \<Rightarrow> asys \<Rightarrow> (u32 \<times> asys) option" where
  "sem_wait_loop i tm gen waited wss s = do {
     e \<leftarrow> get_sem i s;
     if \<not> (tm = 0 \<or> waited < tm) then Some (SYS_ARCH_TIMEOUT, s)
     else if sem_counter e > 0 then Some (waited, put_sem i (e\<lparr>sem_counter := sem_counter e - 1\<rparr>) s)
     else if tm = SYS_ARCH_NOWAIT then Some (SYS_ARCH_TIMEOUT, s)
     else case wss of
            [] \<Rightarrow> None
          | (a, ws, b) # wss1 \<Rightarrow> do {
              let e1 = e\<lparr>sem_waiters := 1\<rparr>;
              s1 \<leftarrow> thread_wait sem_rd (sem_addr i s) (sem_v e1) (if tm \<noteq> 0 then a + (tm - waited) else - 1) a ws (put_sem i e1 s);
              e2 \<leftarrow> get_sem i s1;
              if gen \<noteq> sem_gen e2 then Some (SYS_ARCH_TIMEOUT, s1)
              else sem_wait_loop i tm gen (waited + (b - a)) wss1 s1 } }"

definition sys_arch_sem_wait :: "int \<Rightarrow> u32 \<Rightarrow> (u32 \<times> ((asys \<Rightarrow> asys) \<times> u32) list \<times> u32) list \<Rightarrow> asys \<Rightarrow> (u32 \<times> asys) option" where
  "sys_arch_sem_wait i tm wss s = do {
     e \<leftarrow> get_sem i s;
     if sem_freed e then None else sem_wait_loop i tm (sem_gen e) 0 wss s }"

section \<open>Mailboxes\<close>

definition get_mbox :: "int \<Rightarrow> asys \<Rightarrow> mbox option" where
  "get_mbox i s = (if 0 \<le> i \<and> nat i < length (mboxes s) then Some (mboxes s ! nat i) else None)"

definition put_mbox :: "int \<Rightarrow> mbox \<Rightarrow> asys \<Rightarrow> asys" where
  "put_mbox i b s = s\<lparr>mboxes := (mboxes s)[nat i := b]\<rparr>"

definition sys_mbox_free :: "int \<Rightarrow> asys \<Rightarrow> asys option" where
  "sys_mbox_free i s = do {
     b \<leftarrow> get_mbox i s;
     if mb_freed b then None
     else do {
       s1 \<leftarrow> sys_sem_free (queued_msg b) s;
       s2 \<leftarrow> sys_sem_free (free_msg b) s1;
       Some (put_mbox i (b\<lparr>mb_freed := True\<rparr>) (s2\<lparr>mbox_free := nat i # mbox_free s2\<rparr>)) } }"

definition sys_mbox_new :: "int \<Rightarrow> asys \<Rightarrow> (int \<times> asys) option" where
  "sys_mbox_new sz s =
     (if \<not> sz < int MBOXSLOTS then None
      else case mbox_free s of
             [] \<Rightarrow> Some (- 1, s)
           | i # is \<Rightarrow> do {
               b \<leftarrow> get_mbox (int i) s;
               if \<not> mb_freed b then None
               else do {
                 (q, s1) \<leftarrow> sys_sem_new 0 (s\<lparr>mbox_free := is\<rparr>);
                 (f, s2) \<leftarrow> sys_sem_new (of_nat MBOXSLOTS) s1;
                 let s3 = put_mbox (int i) (b\<lparr>mb_freed := False, mb_head := - 1, mb_nextq := 0, queued_msg := q, free_msg := f\<rparr>) s2;
                 if q = - 1 \<or> f = - 1 then do { s4 \<leftarrow> sys_mbox_free (int i) s3; Some (- 1, s4) }
                 else Some (int i, s3) } })"

definition sys_mbox_trypost :: "int \<Rightarrow> nat \<Rightarrow> (u32 \<times> ((asys \<Rightarrow> asys) \<times> u32) list \<times> u32) list \<Rightarrow> asys \<Rightarrow> (int \<times> asys) option" where
  "sys_mbox_trypost i msg wss s = do {
     b \<leftarrow> get_mbox i s;
     if mb_freed b then None
     else do {
       (_, s1) \<leftarrow> sys_arch_sem_wait (free_msg b) 0 wss s;
       b1 \<leftarrow> get_mbox i s1;
       if mb_nextq b1 = mb_head b1 then Some (ERR_MEM, s1)
       else do {
         let slot = mb_nextq b1;
         let b2 = b1\<lparr>mb_nextq := (slot + 1) mod int MBOXSLOTS, mb_msg := (mb_msg b1)[nat slot := msg]\<rparr>;
         let b3 = (if mb_head b2 = - 1 then b2\<lparr>mb_head := slot\<rparr> else b2);
         s2 \<leftarrow> sys_sem_signal (queued_msg b3) (put_mbox i b3 s1);
         Some (ERR_OK, s2) } } }"

definition sys_mbox_post :: "int \<Rightarrow> nat \<Rightarrow> (u32 \<times> ((asys \<Rightarrow> asys) \<times> u32) list \<times> u32) list \<Rightarrow> asys \<Rightarrow> asys option" where
  "sys_mbox_post i msg wss s = do {
     (r, s1) \<leftarrow> sys_mbox_trypost i msg wss s;
     if r = ERR_OK then Some s1 else None }"

definition sys_arch_mbox_fetch :: "int \<Rightarrow> u32 \<Rightarrow> (u32 \<times> ((asys \<Rightarrow> asys) \<times> u32) list \<times> u32) list \<Rightarrow> asys \<Rightarrow> (u32 \<times> nat option \<times> asys) option" where
  "sys_arch_mbox_fetch i tm wss s = do {
     b \<leftarrow> get_mbox i s;
     if mb_freed b then None
     else do {
       (waited, s1) \<leftarrow> sys_arch_sem_wait (queued_msg b) tm wss s;
       if waited = SYS_ARCH_TIMEOUT then Some (waited, None, s1)
       else do {
         b1 \<leftarrow> get_mbox i s1;
         let slot = mb_head b1;
         if slot = - 1 then None
         else do {
           let msg = mb_msg b1 ! nat slot;
           let h = (slot + 1) mod int MBOXSLOTS;
           s2 \<leftarrow> sys_sem_signal (free_msg b1) (put_mbox i (b1\<lparr>mb_head := (if h = mb_nextq b1 then - 1 else h)\<rparr>) s1);
           Some (waited, Some msg, s2) } } } }"

definition sys_arch_mbox_tryfetch :: "int \<Rightarrow> asys \<Rightarrow> (u32 \<times> nat option \<times> asys) option" where
  "sys_arch_mbox_tryfetch i s = sys_arch_mbox_fetch i SYS_ARCH_NOWAIT [] s"

section \<open>A mailbox is a queue of messages\<close>

lemma tq_repr_wake:
  assumes "tq_repr (thread_queue s, tcs s) xs" "thread_wakeup addr s = Some s'"
  shows "tq_repr (thread_queue s', tcs s') xs"
proof -
  have s': "s' = s\<lparr>tcs := (\<lambda>x. if x \<in> set xs then woken addr (tcs s x) else tcs s x)\<rparr>"
    using thread_wakeup_spec [OF assms(1)] assms(2) by simp
  have "tq_repr (thread_queue s, \<lambda>x. if x \<in> set xs then woken addr (tcs s x) else tcs s x) xs = tq_repr (thread_queue s, tcs s) xs"
    by (rule tq_repr_fields) auto
  then show ?thesis using assms(1) s' by simp
qed

text \<open>A semaphore in use, and the effect of the two operations on it when no thread has to wait.\<close>

definition sem_ok :: "int \<Rightarrow> nat \<Rightarrow> asys \<Rightarrow> bool" where
  "sem_ok i n s \<longleftrightarrow> (\<exists>e. get_sem i s = Some e \<and> \<not> sem_freed e \<and> sem_counter e = of_nat n \<and> n < 2 ^ 16)"

definition queue_ok :: "asys \<Rightarrow> bool" where
  "queue_ok s \<longleftrightarrow> (\<exists>xs. tq_repr (thread_queue s, tcs s) xs)"

lemma get_put_sem: "get_sem i s = Some e0 \<Longrightarrow> get_sem j (put_sem i e s) = (if j = i then Some e else get_sem j s)"
  by (auto simp: get_sem_def put_sem_def nth_list_update split: if_splits)

lemma put_sem_frame [simp]: "mboxes (put_sem i e s) = mboxes s" "queue_ok (put_sem i e s) = queue_ok s"
  "put_mbox k b (put_sem i e s) = put_sem i e (put_mbox k b s)"
  by (simp_all add: put_sem_def queue_ok_def put_mbox_def)

lemma put_mbox_frame [simp]: "sem_ok i n (put_mbox k b s) = sem_ok i n s" "queue_ok (put_mbox k b s) = queue_ok s"
  by (simp_all add: sem_ok_def get_sem_def put_mbox_def queue_ok_def)

lemma sem_wait_ready:
  assumes "sem_ok i (Suc n) s" "tm = 0 \<or> tm = SYS_ARCH_NOWAIT"
  shows "\<exists>s'. sys_arch_sem_wait i tm wss s = Some (0, s') \<and> sem_ok i n s' \<and> (\<forall>j m. j \<noteq> i \<longrightarrow> sem_ok j m s' = sem_ok j m s) \<and>
    mboxes s' = mboxes s \<and> queue_ok s' = queue_ok s"
proof -
  from assms(1) obtain e where e: "get_sem i s = Some e" "\<not> sem_freed e" "sem_counter e = of_nat (Suc n)" "Suc n < 2 ^ 16"
    by (auto simp: sem_ok_def)
  have "sem_counter e \<noteq> 0" using e(3,4) dvd_imp_le [of "2 ^ 16" "Suc n"] word_of_nat_eq_0_iff [where 'a = 16, of "Suc n"] by auto
  then have "sem_counter e > 0" by (simp add: word_gt_0)
  then have r: "sys_arch_sem_wait i tm wss s = Some (0, put_sem i (e\<lparr>sem_counter := sem_counter e - 1\<rparr>) s)"
    using e assms(2) unfolding sys_arch_sem_wait_def by (auto simp del: sem_wait_loop.simps simp: sem_wait_loop.simps [of i tm])
  show ?thesis
    by (rule exI [of _ "put_sem i (e\<lparr>sem_counter := sem_counter e - 1\<rparr>) s"])
      (use r e in \<open>simp add: sem_ok_def get_put_sem\<close>)
qed

lemma sem_wait_empty:
  assumes "sem_ok i 0 s"
  shows "sys_arch_sem_wait i 0 [] s = None" "sys_arch_sem_wait i SYS_ARCH_NOWAIT wss s = Some (SYS_ARCH_TIMEOUT, s)"
  using assms by (auto simp: sem_ok_def sys_arch_sem_wait_def)

lemma sem_signal_ok:
  assumes "sem_ok i n s" "Suc n < 2 ^ 16" "queue_ok s"
  shows "\<exists>s'. sys_sem_signal i s = Some s' \<and> sem_ok i (Suc n) s' \<and> (\<forall>j m. j \<noteq> i \<longrightarrow> sem_ok j m s' = sem_ok j m s) \<and>
    mboxes s' = mboxes s \<and> queue_ok s'"
proof -
  from assms(1) obtain e where e: "get_sem i s = Some e" "\<not> sem_freed e" "sem_counter e = of_nat n" by (auto simp: sem_ok_def)
  let ?e1 = "e\<lparr>sem_counter := sem_counter e + 1\<rparr>"
  show ?thesis
  proof (cases "sem_waiters e = 0")
    case True
    then have "sys_sem_signal i s = Some (put_sem i ?e1 s)" using e by (simp add: sys_sem_signal_def)
    then show ?thesis using e assms by (auto simp: sem_ok_def get_put_sem algebra_simps)
  next
    case False
    let ?s1 = "put_sem i (?e1\<lparr>sem_waiters := 0\<rparr>) s"
    from assms(3) obtain xs where "tq_repr (thread_queue s, tcs s) xs" by (auto simp: queue_ok_def)
    then have xs: "tq_repr (thread_queue ?s1, tcs ?s1) xs" by (simp add: put_sem_def)
    from thread_wakeup_spec [OF this, of "sem_addr i s"]
    have w: "thread_wakeup (sem_addr i s) ?s1 = Some (?s1\<lparr>tcs := (\<lambda>x. if x \<in> set xs then woken (sem_addr i s) (tcs ?s1 x) else tcs ?s1 x)\<rparr>)" (is "_ = Some ?s2") .
    have "sys_sem_signal i s = Some ?s2" using e False w by (simp add: sys_sem_signal_def)
    moreover have "queue_ok ?s2" using tq_repr_wake [OF xs w] unfolding queue_ok_def by blast
    moreover have "get_sem j ?s2 = get_sem j ?s1" for j by (simp add: get_sem_def)
    ultimately show ?thesis using e assms(2) by (auto simp: sem_ok_def get_put_sem algebra_simps)
  qed
qed

text \<open>The messages of a mailbox are the slots from its head on; the counters of its two semaphores
  are the number of messages and the number of free slots.\<close>

definition mb_len :: "mbox \<Rightarrow> nat" where
  "mb_len b = (if mb_head b = - 1 then 0 else if mb_nextq b = mb_head b then MBOXSLOTS
     else nat ((mb_nextq b - mb_head b) mod int MBOXSLOTS))"

definition mb_contents :: "int \<Rightarrow> asys \<Rightarrow> nat list" where
  "mb_contents i s = (let b = mboxes s ! nat i in ring_list (\<lambda>k. mb_msg b ! k) MBOXSLOTS (nat (mb_head b)) (mb_len b))"

definition mbox_inv :: "int \<Rightarrow> asys \<Rightarrow> bool" where
  "mbox_inv i s \<longleftrightarrow> queue_ok s \<and> (\<exists>b. get_mbox i s = Some b \<and> \<not> mb_freed b \<and> length (mb_msg b) = MBOXSLOTS \<and>
     0 \<le> mb_nextq b \<and> mb_nextq b < int MBOXSLOTS \<and> - 1 \<le> mb_head b \<and> mb_head b < int MBOXSLOTS \<and>
     queued_msg b \<noteq> free_msg b \<and> sem_ok (queued_msg b) (mb_len b) s \<and> sem_ok (free_msg b) (MBOXSLOTS - mb_len b) s)"

lemma mb_len_le: "mb_len b \<le> MBOXSLOTS"
  by (simp add: mb_len_def nat_le_iff order_less_imp_le)

lemma mod_slots_eqI: "0 \<le> k \<Longrightarrow> k < 32 \<Longrightarrow> ((h + k) mod 32 - h) mod 32 = (k :: int)"
  by (simp add: mod_diff_left_eq)

lemma mb_lenI:
  assumes "0 \<le> mb_head b" "mb_head b < int MBOXSLOTS" "mb_nextq b = (mb_head b + int k) mod int MBOXSLOTS" "0 < k" "k \<le> MBOXSLOTS"
  shows "mb_len b = k"
proof (cases "k = MBOXSLOTS")
  case True
  then show ?thesis using assms by (simp add: mb_len_def)
next
  case False
  then have d: "(mb_nextq b - mb_head b) mod 32 = int k" using mod_slots_eqI [of "int k" "mb_head b"] assms by simp
  then have "mb_nextq b \<noteq> mb_head b" using assms(4) by auto
  then show ?thesis using d assms by (simp add: mb_len_def)
qed

lemma mb_len_next:
  assumes "0 \<le> mb_head b" "mb_head b < int MBOXSLOTS" "0 \<le> mb_nextq b" "mb_nextq b < int MBOXSLOTS"
  shows "mb_nextq b = (mb_head b + int (mb_len b)) mod int MBOXSLOTS" "0 < mb_len b"
proof -
  have "(mb_nextq b - mb_head b) mod 32 \<noteq> 0" if "mb_nextq b \<noteq> mb_head b" 
  proof
    assume "(mb_nextq b - mb_head b) mod 32 = 0"
    then have "mb_nextq b mod 32 = mb_head b mod 32" by (simp add: mod_eq_dvd_iff dvd_eq_mod_eq_0)
    then show False using that assms by simp
  qed
  then have "mb_nextq b \<noteq> mb_head b \<Longrightarrow> 0 < nat ((mb_nextq b - mb_head b) mod 32)"
    using pos_mod_sign [of 32 "mb_nextq b - mb_head b"] by (simp only: zero_less_nat_eq order_less_le) simp
  then show "0 < mb_len b" using assms(1) unfolding mb_len_def of_nat_numeral by (cases "mb_nextq b = mb_head b") simp_all
  show "mb_nextq b = (mb_head b + int (mb_len b)) mod int MBOXSLOTS"
    using assms by (simp add: mb_len_def mod_add_right_eq)
qed

lemma mb_len_0: "mb_len b = 0 \<longleftrightarrow> mb_head b = - 1" if "- 1 \<le> mb_head b" "mb_head b < int MBOXSLOTS" "0 \<le> mb_nextq b" "mb_nextq b < int MBOXSLOTS"
  using that mb_len_next(2) [of b] unfolding mb_len_def [of b] by (cases "mb_head b = - 1") auto

lemma mb_put:
  assumes b: "- 1 \<le> mb_head b" "mb_head b < int MBOXSLOTS" "0 \<le> mb_nextq b" "mb_nextq b < int MBOXSLOTS" "mb_len b < MBOXSLOTS"
    and b'_def: "b' = b\<lparr>mb_nextq := (mb_nextq b + 1) mod int MBOXSLOTS, mb_msg := ms, mb_head := (if mb_head b = - 1 then mb_nextq b else mb_head b)\<rparr>"
  shows "mb_nextq b \<noteq> mb_head b" "mb_len b' = Suc (mb_len b)" "0 \<le> mb_head b'" "mb_head b' < int MBOXSLOTS"
    "mb_nextq b = (mb_head b' + int (mb_len b)) mod int MBOXSLOTS"
proof -
  show "mb_nextq b \<noteq> mb_head b" using b by (auto simp: mb_len_def)
  show h: "0 \<le> mb_head b'" "mb_head b' < int MBOXSLOTS" using b unfolding b'_def by auto
  show q: "mb_nextq b = (mb_head b' + int (mb_len b)) mod int MBOXSLOTS"
    using b mb_len_next(1) [of b] by (cases "mb_head b = - 1") (simp_all add: b'_def mb_len_def)
  have "mb_nextq b' = (mb_nextq b + 1) mod int MBOXSLOTS" by (simp add: b'_def)
  also have "\<dots> = (mb_head b' + int (Suc (mb_len b))) mod int MBOXSLOTS" by (subst q) (simp add: mod_add_right_eq algebra_simps)
  finally show "mb_len b' = Suc (mb_len b)" using h b(5) by (intro mb_lenI) simp_all
qed

lemma mb_get:
  assumes b: "0 \<le> mb_head b" "mb_head b < int MBOXSLOTS" "0 \<le> mb_nextq b" "mb_nextq b < int MBOXSLOTS"
    and h_def: "h = (mb_head b + 1) mod int MBOXSLOTS" and b'_def: "b' = b\<lparr>mb_head := (if h = mb_nextq b then - 1 else h)\<rparr>"
  shows "mb_len b = Suc (mb_len b')" "- 1 \<le> mb_head b'" "mb_head b' < int MBOXSLOTS"
    "mb_len b' = 0 \<or> mb_head b' = (mb_head b + 1) mod int MBOXSLOTS"
proof -
  have h: "0 \<le> h" "h < int MBOXSLOTS" by (simp_all add: h_def)
  then show "- 1 \<le> mb_head b'" "mb_head b' < int MBOXSLOTS" by (simp_all add: b'_def)
  show "mb_len b' = 0 \<or> mb_head b' = (mb_head b + 1) mod int MBOXSLOTS" by (auto simp: b'_def mb_len_def h_def)
  obtain k where k: "mb_len b = Suc k" using mb_len_next(2) [OF b] by (cases "mb_len b") auto
  have q: "mb_nextq b = (h + int k) mod int MBOXSLOTS"
    using mb_len_next(1) [OF b] k by (simp add: h_def mod_add_right_eq algebra_simps)
  have "mb_len b' = k"
  proof (cases "k = 0")
    case True
    then show ?thesis using q h by (simp add: b'_def mb_len_def)
  next
    case False
    have "k < MBOXSLOTS" using k mb_len_le [of b] by simp
    then have "(mb_nextq b - h) mod 32 = int k" using mod_slots_eqI [of "int k" h] q by simp
    then have "h \<noteq> mb_nextq b" using False by auto
    then show ?thesis using q h False \<open>k < MBOXSLOTS\<close> by (intro mb_lenI) (simp_all add: b'_def)
  qed
  then show "mb_len b = Suc (mb_len b')" using k by simp
qed

lemma get_put_mbox: "get_mbox i s = Some b \<Longrightarrow> mboxes s' = mboxes s \<Longrightarrow> get_mbox i (put_mbox i b' s') = Some b'"
  by (auto simp: get_mbox_def put_mbox_def split: if_splits)

lemma get_mbox_cong: "mboxes s' = mboxes s \<Longrightarrow> get_mbox i s' = get_mbox i s"
  by (simp add: get_mbox_def)

lemma mb_contents_get: "get_mbox i s = Some b \<Longrightarrow> mb_contents i s = ring_list (\<lambda>k. mb_msg b ! k) MBOXSLOTS (nat (mb_head b)) (mb_len b)"
  by (auto simp: get_mbox_def mb_contents_def split: if_splits)

lemma mb_contents_length: "get_mbox i s = Some b \<Longrightarrow> length (mb_contents i s) = mb_len b"
  by (simp add: mb_contents_get)

lemma mbox_invE:
  assumes "mbox_inv i s"
  obtains b where "queue_ok s" "get_mbox i s = Some b" "\<not> mb_freed b" "length (mb_msg b) = MBOXSLOTS"
    "0 \<le> mb_nextq b" "mb_nextq b < int MBOXSLOTS" "- 1 \<le> mb_head b" "mb_head b < int MBOXSLOTS"
    "queued_msg b \<noteq> free_msg b" "sem_ok (queued_msg b) (mb_len b) s" "sem_ok (free_msg b) (MBOXSLOTS - mb_len b) s"
  using assms by (auto simp: mbox_inv_def)

lemma mbox_invI:
  assumes "queue_ok s" "get_mbox i s = Some b" "\<not> mb_freed b" "length (mb_msg b) = MBOXSLOTS"
    "0 \<le> mb_nextq b" "mb_nextq b < int MBOXSLOTS" "- 1 \<le> mb_head b" "mb_head b < int MBOXSLOTS"
    "queued_msg b \<noteq> free_msg b" "sem_ok (queued_msg b) (mb_len b) s" "sem_ok (free_msg b) (MBOXSLOTS - mb_len b) s"
  shows "mbox_inv i s"
  unfolding mbox_inv_def using assms by blast

lemma trypost_run:
  assumes "get_mbox i s = Some b" "\<not> mb_freed b" "sys_arch_sem_wait (free_msg b) 0 wss s = Some (w, s1)" "get_mbox i s1 = Some b1"
    "mb_nextq b1 \<noteq> mb_head b1" "b' = b1\<lparr>mb_nextq := (mb_nextq b1 + 1) mod int MBOXSLOTS, mb_msg := (mb_msg b1)[nat (mb_nextq b1) := msg],
       mb_head := (if mb_head b1 = - 1 then mb_nextq b1 else mb_head b1)\<rparr>"
    "sys_sem_signal (queued_msg b') (put_mbox i b' s1) = Some s2"
  shows "sys_mbox_trypost i msg wss s = Some (ERR_OK, s2)"
proof -
  let ?b2 = "b1\<lparr>mb_nextq := (mb_nextq b1 + 1) mod int MBOXSLOTS, mb_msg := (mb_msg b1)[nat (mb_nextq b1) := msg]\<rparr>"
  have "(if mb_head ?b2 = - 1 then ?b2\<lparr>mb_head := mb_nextq b1\<rparr> else ?b2) = b'"
    unfolding assms(6) by (cases b1) simp
  then have "sys_mbox_trypost i msg wss s = Option.bind (sys_sem_signal (queued_msg b') (put_mbox i b' s1)) (\<lambda>s2. Some (ERR_OK, s2))"
    unfolding sys_mbox_trypost_def assms(1) bind.bind_lunit Let_def if_not_P [OF assms(2)] assms(3) prod.case assms(4) if_not_P [OF assms(5)] by simp
  then show ?thesis using assms(7) by simp
qed

lemma trypost_ok:
  assumes inv: "mbox_inv i s" and room: "length (mb_contents i s) < MBOXSLOTS"
  shows "\<exists>s'. sys_mbox_trypost i msg wss s = Some (ERR_OK, s') \<and> mbox_inv i s' \<and> mb_contents i s' = mb_contents i s @ [msg]"
proof -
  from inv obtain b where b: "queue_ok s" "get_mbox i s = Some b" "\<not> mb_freed b" "length (mb_msg b) = MBOXSLOTS"
    "0 \<le> mb_nextq b" "mb_nextq b < int MBOXSLOTS" "- 1 \<le> mb_head b" "mb_head b < int MBOXSLOTS"
    "queued_msg b \<noteq> free_msg b" "sem_ok (queued_msg b) (mb_len b) s" "sem_ok (free_msg b) (MBOXSLOTS - mb_len b) s"
    by (rule mbox_invE)
  let ?k = "mb_len b"
  have k: "?k < MBOXSLOTS" using room mb_contents_length [OF b(2)] by simp
  then have "MBOXSLOTS - ?k = Suc (MBOXSLOTS - Suc ?k)" by simp
  then have "sem_ok (free_msg b) (Suc (MBOXSLOTS - Suc ?k)) s" using b(11) by simp
  from sem_wait_ready [OF this, of 0 wss] obtain s1 where s1: "sys_arch_sem_wait (free_msg b) 0 wss s = Some (0, s1)"
    "sem_ok (free_msg b) (MBOXSLOTS - Suc ?k) s1" "\<forall>j m. j \<noteq> free_msg b \<longrightarrow> sem_ok j m s1 = sem_ok j m s" "mboxes s1 = mboxes s" "queue_ok s1 = queue_ok s"
    by auto
  define ms where "ms = (mb_msg b)[nat (mb_nextq b) := msg]"
  define b' where "b' = b\<lparr>mb_nextq := (mb_nextq b + 1) mod int MBOXSLOTS, mb_msg := ms, mb_head := (if mb_head b = - 1 then mb_nextq b else mb_head b)\<rparr>"
  note p = mb_put [OF b(7,8,5,6) k b'_def]
  have "sem_ok (queued_msg b) ?k (put_mbox i b' s1)" "queue_ok (put_mbox i b' s1)" using s1(3,5) b by simp_all
  from sem_signal_ok [OF this(1) _ this(2)] k obtain s2 where s2: "sys_sem_signal (queued_msg b) (put_mbox i b' s1) = Some s2"
    "sem_ok (queued_msg b) (Suc ?k) s2" "\<forall>j m. j \<noteq> queued_msg b \<longrightarrow> sem_ok j m s2 = sem_ok j m (put_mbox i b' s1)"
    "mboxes s2 = mboxes (put_mbox i b' s1)" "queue_ok s2" by auto
  have g1: "get_mbox i s1 = Some b" using b(2) get_mbox_cong [OF s1(4)] by simp
  have qm: "queued_msg b' = queued_msg b" "free_msg b' = free_msg b" "mb_freed b' = mb_freed b" "mb_msg b' = ms" by (simp_all add: b'_def)
  have r: "sys_mbox_trypost i msg wss s = Some (ERR_OK, s2)"
    using s2(1) by (intro trypost_run [OF b(2,3) s1(1) g1 p(1) b'_def [unfolded ms_def]]) (simp only: qm(1))
  have g2: "get_mbox i s2 = Some b'" using get_mbox_cong [OF s2(4)] get_put_mbox [OF b(2) s1(4)] by simp
  have "mbox_inv i s2"
  proof (rule mbox_invI [OF s2(5) g2])
    show "\<not> mb_freed b'" "length (mb_msg b') = MBOXSLOTS" "queued_msg b' \<noteq> free_msg b'" using b qm by (simp_all add: ms_def)
    show "0 \<le> mb_nextq b'" "mb_nextq b' < int MBOXSLOTS" by (simp_all add: b'_def)
    show "- 1 \<le> mb_head b'" "mb_head b' < int MBOXSLOTS" using p(3,4) by simp_all
    show "sem_ok (queued_msg b') (mb_len b') s2" using s2(2) unfolding qm p(2) .
    show "sem_ok (free_msg b') (MBOXSLOTS - mb_len b') s2" using s2(3) s1(2) b(9) unfolding qm p(2) by simp
  qed
  moreover have "mb_contents i s2 = mb_contents i s @ [msg]"
  proof -
    have n: "nat (mb_nextq b) = (nat (mb_head b') + ?k) mod MBOXSLOTS"
      using p(3,5) by (simp add: nat_mod_distrib nat_add_distrib)
    have f: "(\<lambda>j. ms ! j) = (\<lambda>j. mb_msg b ! j)(nat (mb_nextq b) := msg)" using b(4,5,6) by (auto simp: ms_def nth_list_update fun_eq_iff)
    have "mb_contents i s2 = ring_list (\<lambda>j. mb_msg b ! j) MBOXSLOTS (nat (mb_head b')) ?k @ [msg]"
      unfolding mb_contents_get [OF g2] qm f p(2) n by (rule ring_list_put [OF k])
    also have "ring_list (\<lambda>j. mb_msg b ! j) MBOXSLOTS (nat (mb_head b')) ?k = mb_contents i s"
      unfolding mb_contents_get [OF b(2)] by (cases "mb_head b = - 1") (simp_all add: b'_def mb_len_def [of b])
    finally show ?thesis .
  qed
  ultimately show ?thesis using r by blast
qed

lemma trypost_full: "mbox_inv i s \<Longrightarrow> length (mb_contents i s) = MBOXSLOTS \<Longrightarrow> sys_mbox_trypost i msg [] s = None"
  by (erule mbox_invE) (simp add: mb_contents_length sys_mbox_trypost_def sem_wait_empty)

lemma fetch_empty: "mbox_inv i s \<Longrightarrow> mb_contents i s = [] \<Longrightarrow> sys_arch_mbox_tryfetch i s = Some (SYS_ARCH_TIMEOUT, None, s)"
  by (erule mbox_invE) (simp add: sys_arch_mbox_tryfetch_def sys_arch_mbox_fetch_def sem_wait_empty flip: mb_contents_length)

lemma fetch_ok:
  assumes inv: "mbox_inv i s" and some: "mb_contents i s \<noteq> []" and tm: "tm = 0 \<or> tm = SYS_ARCH_NOWAIT"
  shows "\<exists>s'. sys_arch_mbox_fetch i tm wss s = Some (0, Some (hd (mb_contents i s)), s') \<and> mbox_inv i s' \<and> mb_contents i s' = tl (mb_contents i s)"
proof -
  from inv obtain b where b: "queue_ok s" "get_mbox i s = Some b" "\<not> mb_freed b" "length (mb_msg b) = MBOXSLOTS"
    "0 \<le> mb_nextq b" "mb_nextq b < int MBOXSLOTS" "- 1 \<le> mb_head b" "mb_head b < int MBOXSLOTS"
    "queued_msg b \<noteq> free_msg b" "sem_ok (queued_msg b) (mb_len b) s" "sem_ok (free_msg b) (MBOXSLOTS - mb_len b) s"
    by (rule mbox_invE)
  define h where "h = (mb_head b + 1) mod int MBOXSLOTS"
  define b' where "b' = b\<lparr>mb_head := (if h = mb_nextq b then - 1 else h)\<rparr>"
  have "mb_len b \<noteq> 0" using some mb_contents_length [OF b(2)] by (metis length_0_conv)
  then have h0: "0 \<le> mb_head b" using mb_len_0 [OF b(7,8,5,6)] b(7) by auto
  note p = mb_get [OF h0 b(8,5,6) h_def b'_def]
  let ?k = "mb_len b'"
  have "sem_ok (queued_msg b) (Suc ?k) s" using b(10) p(1) by simp
  from sem_wait_ready [OF this tm, of wss] obtain s1 where s1: "sys_arch_sem_wait (queued_msg b) tm wss s = Some (0, s1)"
    "sem_ok (queued_msg b) ?k s1" "\<forall>j m. j \<noteq> queued_msg b \<longrightarrow> sem_ok j m s1 = sem_ok j m s" "mboxes s1 = mboxes s" "queue_ok s1 = queue_ok s"
    by auto
  have k: "Suc ?k \<le> MBOXSLOTS" using mb_len_le [of b] p(1) by simp
  have "sem_ok (free_msg b) (MBOXSLOTS - Suc ?k) (put_mbox i b' s1)" "queue_ok (put_mbox i b' s1)" using s1(3,5) b p(1) by simp_all
  moreover have "MBOXSLOTS - ?k = Suc (MBOXSLOTS - Suc ?k)" "Suc (MBOXSLOTS - Suc ?k) < 2 ^ 16" using k by simp_all
  ultimately obtain s2 where s2: "sys_sem_signal (free_msg b) (put_mbox i b' s1) = Some s2"
    "sem_ok (free_msg b) (MBOXSLOTS - ?k) s2" "\<forall>j m. j \<noteq> free_msg b \<longrightarrow> sem_ok j m s2 = sem_ok j m (put_mbox i b' s1)"
    "mboxes s2 = mboxes (put_mbox i b' s1)" "queue_ok s2" using sem_signal_ok [of "free_msg b" "MBOXSLOTS - Suc ?k" "put_mbox i b' s1"] by metis
  have g1: "get_mbox i s1 = Some b" using b(2) get_mbox_cong [OF s1(4)] by simp
  have g2: "get_mbox i s2 = Some b'" using get_mbox_cong [OF s2(4)] get_put_mbox [OF b(2) s1(4)] by simp
  have "mb_contents i s = mb_msg b ! nat (mb_head b) # ring_list (\<lambda>j. mb_msg b ! j) MBOXSLOTS (Suc (nat (mb_head b))) ?k"
    unfolding mb_contents_get [OF b(2)] p(1) ring_list_Suc using h0 b(8) by simp
  moreover have "mb_contents i s2 = ring_list (\<lambda>j. mb_msg b ! j) MBOXSLOTS (Suc (nat (mb_head b))) ?k"
  proof (cases "?k = 0")
    case False
    then have "nat (mb_head b') = Suc (nat (mb_head b)) mod MBOXSLOTS" using p(4) h0 by (simp add: nat_mod_distrib nat_add_distrib)
    moreover have bm: "mb_msg b' = mb_msg b" by (simp add: b'_def)
    ultimately show ?thesis unfolding mb_contents_get [OF g2] using ring_list_mod [of _ MBOXSLOTS "Suc (nat (mb_head b))" ?k] by (metis bm)
  qed (simp add: mb_contents_get [OF g2])
  moreover have "sys_arch_mbox_fetch i tm wss s = Some (0, Some (mb_msg b ! nat (mb_head b)), s2)"
    unfolding sys_arch_mbox_fetch_def b(2) using b(3) h0 s2(1) [unfolded b'_def h_def] by (simp add: s1(1) g1 Let_def cong: if_cong split del: if_split)
  moreover have "mbox_inv i s2"
  proof (rule mbox_invI [OF s2(5) g2])
    show "\<not> mb_freed b'" "length (mb_msg b') = MBOXSLOTS" "queued_msg b' \<noteq> free_msg b'" using b by (simp_all add: b'_def)
    show "0 \<le> mb_nextq b'" "mb_nextq b' < int MBOXSLOTS" using b by (simp_all add: b'_def)
    show "- 1 \<le> mb_head b'" "mb_head b' < int MBOXSLOTS" using p(2,3) by simp_all
    have q: "queued_msg b' = queued_msg b" "free_msg b' = free_msg b" by (simp_all add: b'_def)
    show "sem_ok (queued_msg b') (mb_len b') s2" using s2(3) s1(2) b(9) unfolding q by simp
    show "sem_ok (free_msg b') (MBOXSLOTS - mb_len b') s2" using s2(2) unfolding q .
  qed
  ultimately show ?thesis by auto
qed

text \<open>A mailbox as an instance of the bounded queue: a post that would have to wait and a fetch that finds nothing
  have no effect.\<close>

definition mbox_put :: "int \<Rightarrow> nat \<Rightarrow> asys \<Rightarrow> asys option" where
  "mbox_put i msg s = sys_mbox_post i msg [] s"

definition mbox_get :: "int \<Rightarrow> asys \<Rightarrow> (nat \<times> asys) option" where
  "mbox_get i s = (case sys_arch_mbox_tryfetch i s of Some (_, Some m, s') \<Rightarrow> Some (m, s') | _ \<Rightarrow> None)"

lemma mbox_inv_cap: "mbox_inv i s \<Longrightarrow> length (mb_contents i s) \<le> MBOXSLOTS"
  by (erule mbox_invE) (simp add: mb_contents_length mb_len_le)

lemma mbox_put_ok: "mbox_inv i s \<Longrightarrow> length (mb_contents i s) < MBOXSLOTS \<Longrightarrow>
    \<exists>s'. mbox_put i x s = Some s' \<and> mbox_inv i s' \<and> mb_contents i s' = mb_contents i s @ [x]"
  using trypost_ok [of i s x "[]"] by (auto simp: mbox_put_def sys_mbox_post_def)

lemma mbox_put_full: "mbox_inv i s \<Longrightarrow> length (mb_contents i s) = MBOXSLOTS \<Longrightarrow> mbox_put i x s = None"
  using trypost_full [of i s x] by (simp add: mbox_put_def sys_mbox_post_def)

lemma mbox_get_ok: "mbox_inv i s \<Longrightarrow> mb_contents i s \<noteq> [] \<Longrightarrow>
    \<exists>s'. mbox_get i s = Some (hd (mb_contents i s), s') \<and> mbox_inv i s' \<and> mb_contents i s' = tl (mb_contents i s)"
  using fetch_ok [of i s SYS_ARCH_NOWAIT "[]"] by (auto simp: mbox_get_def sys_arch_mbox_tryfetch_def)

lemma mbox_get_empty: "mbox_inv i s \<Longrightarrow> mb_contents i s = [] \<Longrightarrow> mbox_get i s = None"
  using fetch_empty [of i s] by (simp add: mbox_get_def)

interpretation mbox_fifo: bounded_fifo "mbox_inv i" "mb_contents i" MBOXSLOTS "mbox_put i" "mbox_get i" for i
proof (unfold_locales, goal_cases)
  case (1 s x s')
  have "length (mb_contents i s) < MBOXSLOTS" using 1 mbox_inv_cap [OF 1(1)] mbox_put_full [OF 1(1), of x] by (cases "length (mb_contents i s) = MBOXSLOTS") auto
  from mbox_put_ok [OF 1(1) this, of x] 1(2) show ?case by auto
next
  case (2 s x)
  then show ?case by (rule mbox_put_full)
next
  case (3 s x s')
  then have "mb_contents i s \<noteq> []" using mbox_get_empty [OF 3(1)] by auto
  from mbox_get_ok [OF 3(1) this] 3(2) this show ?case by auto
next
  case (4 s)
  then show ?case using mbox_get_ok [OF 4] mbox_get_empty [OF 4] by (cases "mb_contents i s = []") auto
qed


lemma sem_new_ok:
  assumes "sem_free s = a # as" "a < length (sems s)" "sem_freed (sems s ! a)"
  shows "sys_sem_new n s = Some (int a, put_sem (int a) ((sems s ! a)\<lparr>sem_freed := False, sem_counter := ucast n, sem_gen := sem_gen (sems s ! a) + 1\<rparr>) (s\<lparr>sem_free := as\<rparr>))"
  using assms by (simp add: sys_sem_new_def get_sem_def)

text \<open>A mailbox is created empty, with every slot free, when two semaphores are left.  With a single free
  semaphore, or none, \<open>sys_mbox_new\<close> does not report the shortage: it gives back the semaphore \<open>-1\<close>, outside the table.\<close>

theorem mbox_new_needs_semaphores:
  assumes "mbox_free s = i # is" "i < length (mboxes s)" "mb_freed (mboxes s ! i)" "length (mb_msg (mboxes s ! i)) = MBOXSLOTS" "queue_ok s" "sz < int MBOXSLOTS"
    and free: "\<forall>j \<in> set (sem_free s). j < length (sems s) \<and> sem_freed (sems s ! j)" "distinct (sem_free s)"
  shows "(2 \<le> length (sem_free s) \<longrightarrow> (\<exists>s'. sys_mbox_new sz s = Some (int i, s') \<and> mbox_inv (int i) s' \<and> mb_contents (int i) s' = [])) \<and>
    (length (sem_free s) < 2 \<longrightarrow> sys_mbox_new sz s = None)"
proof -
  let ?b = "mboxes s ! i"
  have b: "get_mbox (int i) s = Some ?b" using assms(2) by (simp add: get_mbox_def)
  show ?thesis
  proof (cases "sem_free s")
    case Nil
    then have "sys_mbox_new sz s = None"
      using assms by (simp add: sys_mbox_new_def get_mbox_def sys_sem_new_def put_mbox_def sys_mbox_free_def sys_sem_free_def get_sem_def)
    then show ?thesis using Nil by simp
  next
    case (Cons a as)
    have a: "a < length (sems s)" "sem_freed (sems s ! a)" using free(1) Cons by auto
    define e where "e = (sems s ! a)\<lparr>sem_freed := False, sem_counter := 0, sem_gen := sem_gen (sems s ! a) + 1\<rparr>"
    define s1 where "s1 = put_sem (int a) e (s\<lparr>mbox_free := is, sem_free := as\<rparr>)"
    have n1: "sys_sem_new 0 (s\<lparr>mbox_free := is\<rparr>) = Some (int a, s1)"
      using sem_new_ok [of "s\<lparr>mbox_free := is\<rparr>" a as 0] Cons a by (simp add: s1_def e_def)
    show ?thesis
    proof (cases as)
      case Nil
      then have "sys_sem_new (of_nat MBOXSLOTS) s1 = Some (- 1, s1)" by (simp add: sys_sem_new_def s1_def put_sem_def)
      then have "sys_mbox_new sz s = None"
        using assms n1 a by (simp add: sys_mbox_new_def get_mbox_def put_mbox_def sys_mbox_free_def sys_sem_free_def get_sem_def s1_def put_sem_def e_def)
      then show ?thesis using Nil Cons by simp
    next
      case C2: (Cons f fs)
      have f: "f < length (sems s)" "sem_freed (sems s ! f)" "f \<noteq> a" using free Cons C2 by auto
      define g where "g = (sems s ! f)\<lparr>sem_freed := False, sem_counter := of_nat MBOXSLOTS, sem_gen := sem_gen (sems s ! f) + 1\<rparr>"
      define s2 where "s2 = put_sem (int f) g (s1\<lparr>sem_free := fs\<rparr>)"
      have n2: "sys_sem_new (of_nat MBOXSLOTS) s1 = Some (int f, s2)"
        using sem_new_ok [of s1 f fs "of_nat MBOXSLOTS"] C2 f by (simp add: s1_def put_sem_def s2_def g_def)
      define b' where "b' = ?b\<lparr>mb_freed := False, mb_head := - 1, mb_nextq := 0, queued_msg := int a, free_msg := int f\<rparr>"
      define s3 where "s3 = put_mbox (int i) b' s2"
      have r: "sys_mbox_new sz s = Some (int i, s3)"
        unfolding sys_mbox_new_def using assms(1,3,6) by (simp add: b n1 n2 [simplified] s3_def b'_def)
      have g3: "get_mbox (int i) s3 = Some b'" using assms(2) by (simp add: get_mbox_def s3_def s2_def s1_def put_mbox_def put_sem_def)
      have l: "mb_len b' = 0" by (simp add: b'_def mb_len_def)
      have sm: "sem_ok (int a) 0 s3" "sem_ok (int f) MBOXSLOTS s3" "queue_ok s3"
        using a f assms(5) by (simp_all add: sem_ok_def get_sem_def s3_def s2_def s1_def put_mbox_def put_sem_def e_def g_def queue_ok_def)
      have "mbox_inv (int i) s3"
        using sm l f(3) assms(4) by (intro mbox_invI [OF sm(3) g3]) (simp_all add: b'_def)
      then show ?thesis using r l Cons C2 by (simp add: mb_contents_get [OF g3])
    qed
  qed
qed

definition a_mbox :: mbox where
  "a_mbox = \<lparr>mb_freed = False, mb_head = - 1, mb_nextq = 5, mb_msg = replicate MBOXSLOTS 0, queued_msg = 0, free_msg = 1\<rparr>"

definition a_sys :: asys where
  "a_sys = \<lparr>theap = small_heap 32768 (32768 * PGSIZE + 8), tcs = (\<lambda>_. a_ctx 0), thread_queue = threadq_init,
     kill_queue = threadq_init, cur_tc = None, max_tid = 0,
     sems = [\<lparr>sem_freed = False, sem_gen = 0, sem_counter = 0, sem_waiters = 0\<rparr>, \<lparr>sem_freed = False, sem_gen = 0, sem_counter = 32, sem_waiters = 0\<rparr>],
     sem_free = [], mboxes = [a_mbox], mbox_free = [], sems_at = 0x800000\<rparr>"

lemma a_sys_inv: "mbox_inv 0 a_sys" "mb_contents 0 a_sys = []"
proof -
  have "queue_ok a_sys" by (auto simp: queue_ok_def a_sys_def tq_repr_def threadq_init_def intro: exI [of _ "[]"])
  moreover have g: "get_mbox 0 a_sys = Some a_mbox" by (simp add: get_mbox_def a_sys_def)
  ultimately show "mbox_inv 0 a_sys"
    by (rule mbox_invI) (simp_all add: a_mbox_def sem_ok_def get_sem_def a_sys_def mb_len_def)
  show "mb_contents 0 a_sys = []" unfolding mb_contents_get [OF g] by (simp add: a_mbox_def mb_len_def)
qed


theorem mbox_new_needs_semaphores_witness:
  "sys_mbox_new 8 (a_sys\<lparr>mbox_free := [0], mboxes := [a_mbox\<lparr>mb_freed := True\<rparr>]\<rparr>) = None"
  using mbox_new_needs_semaphores [of "a_sys\<lparr>mbox_free := [0], mboxes := [a_mbox\<lparr>mb_freed := True\<rparr>]\<rparr>" 0 "[]" 8] a_sys_inv(1)
  by (simp add: mbox_inv_def queue_ok_def a_mbox_def a_sys_def)

section \<open>Threads of the network stack\<close>

text \<open>The table of timeouts by thread, \<open>threads\<close>: each bucket lists the threads and the addresses of their entries.\<close>

record wsys = asys +
  threads :: "nat \<Rightarrow> (u32 \<times> nat) list"

abbreviation thread_hash_size :: nat where "thread_hash_size \<equiv> 257"

definition sys_thread_new :: "nat \<Rightarrow> nat \<Rightarrow> u8 list \<Rightarrow> nat \<Rightarrow> nat \<Rightarrow> int \<Rightarrow> 'a tsys_scheme \<Rightarrow> (u32 \<times> 'a tsys_scheme) option" where
  "sys_thread_new entry_pc lwip_entry name func arg stacksize s = do {
     (lt, h1) \<leftarrow> malloc 16 (theap s);
     if lt = 0 then None
     else if stacksize > int PGSIZE then None
     else do {
       h2 \<leftarrow> ust64 lt func h1;
       h3 \<leftarrow> ust64 (lt + 8) arg h2;
       (r, tid, s1) \<leftarrow> thread_create entry_pc name lwip_entry (of_nat lt) (s\<lparr>theap := h3\<rparr>);
       if r < 0 then None else Some (tid, s1) } }"

text \<open>\<open>lwip_thread_entry\<close>: \<open>call\<close> runs the function of the thread; the core lock is empty.\<close>

definition lwip_thread_entry :: "(nat \<Rightarrow> nat \<Rightarrow> 'a tsys_scheme \<Rightarrow> 'a tsys_scheme option) \<Rightarrow> nat \<Rightarrow> 'a tsys_scheme \<Rightarrow> 'a tsys_scheme option" where
  "lwip_thread_entry call lt s = do {
     func \<leftarrow> uld64 lt (theap s);
     arg \<leftarrow> uld64 (lt + 8) (theap s);
     s1 \<leftarrow> call func arg s;
     h \<leftarrow> free lt (theap s1);
     Some (s1\<lparr>theap := h\<rparr>) }"

definition timeout_cleanup :: "u32 \<Rightarrow> wsys \<Rightarrow> wsys option" where
  "timeout_cleanup tid s =
     (let k = unat tid mod thread_hash_size in
      case find (\<lambda>(t, a). t = tid) (threads s k) of
        None \<Rightarrow> Some s
      | Some e \<Rightarrow> do {
          h \<leftarrow> free (snd e) (theap s);
          Some (s\<lparr>threads := (threads s)(k := remove1 e (threads s k)), theap := h\<rparr>) })"

definition sys_arch_timeouts :: "nat \<Rightarrow> wsys \<Rightarrow> (nat \<times> wsys) option" where
  "sys_arch_timeouts cleanup s = do {
     tid \<leftarrow> thread_id s;
     let k = unat tid mod thread_hash_size;
     (case find (\<lambda>(t, a). t = tid) (threads s k) of
        Some e \<Rightarrow> Some (snd e + 8, s)
      | None \<Rightarrow> do {
          (t, h) \<leftarrow> malloc 32 (theap s);
          if t = 0 then None
          else do {
            (r, s1) \<leftarrow> thread_onhalt cleanup (s\<lparr>theap := h\<rparr>);
            if r < 0 then None
            else do {
              h1 \<leftarrow> ust32 t tid (theap s1);
              h2 \<leftarrow> ust64 (t + 8) 0 h1;
              Some (t + 8, s1\<lparr>theap := h2, threads := (threads s1)(k := (tid, t) # threads s1 k)\<rparr>) } } }) }"

text \<open>A thread has one set of timeouts: asking again gives the same address and changes nothing.  The entries of other
  threads stay in the table, and when the entry is new, the thread will run the cleanup when it halts.\<close>

theorem timeouts_of_a_thread:
  assumes "sys_arch_timeouts cleanup s = Some (a, s')" "thread_id s = Some tid"
  shows "sys_arch_timeouts cleanup s' = Some (a, s') \<and>
    (\<forall>k e. fst e \<noteq> tid \<longrightarrow> (e \<in> set (threads s' k) \<longleftrightarrow> e \<in> set (threads s k))) \<and>
    (s' \<noteq> s \<longrightarrow> (\<exists>c. cur_tc s' = Some c \<and> cleanup \<in> set (tc_onhalt (tcs s' c))))"
proof (cases "find (\<lambda>(t, a). t = tid) (threads s (unat tid mod thread_hash_size))")
  case (Some e)
  then show ?thesis using assms by (auto simp: sys_arch_timeouts_def Let_def)
next
  case None
  let ?k = "unat tid mod thread_hash_size"
  from assms(2) obtain c where c: "cur_tc s = Some c" "tid = tc_tid (tcs s c)" by (auto simp: thread_id_def)
  from assms None obtain t h s1 h2 where r: "thread_onhalt cleanup (s\<lparr>theap := h\<rparr>) = Some (0, s1)"
    "s' = s1\<lparr>theap := h2, threads := (threads s1)(?k := (tid, t) # threads s1 ?k)\<rparr>" "a = t + 8"
    by (auto simp: sys_arch_timeouts_def Let_def bind_eq_Some_conv thread_onhalt_def split: if_splits)
  have s1: "threads s1 = threads s" "cur_tc s1 = Some c" "tc_tid (tcs s1 c) = tid" "cleanup \<in> set (tc_onhalt (tcs s1 c))"
    using r(1) c by (auto simp: thread_onhalt_def split: if_splits)
  have "thread_id s' = Some tid" using s1 r(2) by (simp add: thread_id_def)
  moreover have "find (\<lambda>(t, a). t = tid) (threads s' ?k) = Some (tid, t)" by (simp add: r(2))
  ultimately show ?thesis using r s1 by (auto simp: sys_arch_timeouts_def Let_def)
qed

theorem timeouts_of_a_thread_witness:
  "sys_arch_timeouts 7 (asys.extend (a_sys\<lparr>cur_tc := Some 0\<rparr>) \<lparr>threads = (\<lambda>_. [(0, 64)])\<rparr>) =
     Some (72, asys.extend (a_sys\<lparr>cur_tc := Some 0\<rparr>) \<lparr>threads = (\<lambda>_. [(0, 64)])\<rparr>)"
proof -
  let ?s = "asys.extend (a_sys\<lparr>cur_tc := Some 0\<rparr>) \<lparr>threads = (\<lambda>_. [(0, 64)])\<rparr>"
  have t: "thread_id ?s = Some 0" by (simp add: thread_id_def asys.defs a_sys_def a_ctx_def)
  have "sys_arch_timeouts 7 ?s = Some (72, ?s)" using t by (simp add: sys_arch_timeouts_def asys.defs a_sys_def)
  from timeouts_of_a_thread [OF this t] show ?thesis by blast
qed

end
