(* ===== verification/Net_Serv.thy ===== *)
theory Net_Serv
  imports JOS_Prelude
begin

text \<open>
  The network server, \<^verbatim>\<open>net/serv.c\<close> and the network interface \<^verbatim>\<open>net/lwip/jos/jif/jif.c\<close>, with its helper environments \<^verbatim>\<open>net/timer.c\<close>, \<^verbatim>\<open>net/input.c\<close> and
  \<^verbatim>\<open>net/output.c\<close>.

  The TCP/IP stack is a vendored library: its socket functions are the fields of the record \<open>lwip\<close> and an argument of
  the definitions that call them, and its state is of any type.  A chain of packet buffers is the list of their contents;
  \<open>pbuf_alloc\<close> gives the lengths of the buffers of a new chain.  A request page is the contents of its frame.  Numbers
  in it lie at the offsets of the members of \<open>union Nsipc\<close>; \<open>struct sockaddr\<close> has 16 bytes.
\<close>

record 'n lwip =
  lwip_accept :: "int \<Rightarrow> 'n \<Rightarrow> int \<times> u8 list \<times> u32 \<times> 'n"
  lwip_bind :: "int \<Rightarrow> u8 list \<Rightarrow> u32 \<Rightarrow> 'n \<Rightarrow> int \<times> 'n"
  lwip_shutdown :: "int \<Rightarrow> int \<Rightarrow> 'n \<Rightarrow> int \<times> 'n"
  lwip_close :: "int \<Rightarrow> 'n \<Rightarrow> int \<times> 'n"
  lwip_connect :: "int \<Rightarrow> u8 list \<Rightarrow> u32 \<Rightarrow> 'n \<Rightarrow> int \<times> 'n"
  lwip_listen :: "int \<Rightarrow> int \<Rightarrow> 'n \<Rightarrow> int \<times> 'n"
  lwip_recv :: "int \<Rightarrow> int \<Rightarrow> u32 \<Rightarrow> 'n \<Rightarrow> int \<times> u8 list \<times> 'n"
  lwip_send :: "int \<Rightarrow> u8 list \<Rightarrow> u32 \<Rightarrow> 'n \<Rightarrow> int \<times> 'n"
  lwip_socket :: "int \<Rightarrow> int \<Rightarrow> int \<Rightarrow> 'n \<Rightarrow> int \<times> 'n"
  pbuf_alloc :: "int \<Rightarrow> 'n \<Rightarrow> nat list option \<times> 'n"
  pbuf_header :: "u8 list list \<Rightarrow> int \<Rightarrow> u8 list list"
  pbuf_free :: "u8 list list \<Rightarrow> 'n \<Rightarrow> 'n"
  etharp_ip_input :: "u8 list list \<Rightarrow> 'n \<Rightarrow> 'n"
  etharp_arp_input :: "u8 list list \<Rightarrow> 'n \<Rightarrow> 'n"
  netif_input :: "u8 list list \<Rightarrow> 'n \<Rightarrow> 'n"

abbreviation NSREQ_ACCEPT :: int where "NSREQ_ACCEPT \<equiv> 1"
abbreviation NSREQ_BIND :: int where "NSREQ_BIND \<equiv> 2"
abbreviation NSREQ_SHUTDOWN :: int where "NSREQ_SHUTDOWN \<equiv> 3"
abbreviation NSREQ_CLOSE :: int where "NSREQ_CLOSE \<equiv> 4"
abbreviation NSREQ_CONNECT :: int where "NSREQ_CONNECT \<equiv> 5"
abbreviation NSREQ_LISTEN :: int where "NSREQ_LISTEN \<equiv> 6"
abbreviation NSREQ_RECV :: int where "NSREQ_RECV \<equiv> 7"
abbreviation NSREQ_SEND :: int where "NSREQ_SEND \<equiv> 8"
abbreviation NSREQ_SOCKET :: int where "NSREQ_SOCKET \<equiv> 9"
abbreviation NSREQ_INPUT :: int where "NSREQ_INPUT \<equiv> 10"
abbreviation NSREQ_OUTPUT :: int where "NSREQ_OUTPUT \<equiv> 11"
abbreviation NSREQ_TIMER :: int where "NSREQ_TIMER \<equiv> 12"
abbreviation QUEUE_SIZE :: nat where "QUEUE_SIZE \<equiv> 20"
abbreviation TIMER_INTERVAL :: u32 where "TIMER_INTERVAL \<equiv> 250"

section \<open>One request\<close>

definition page_int :: "cmem \<Rightarrow> nat \<Rightarrow> int" where
  "page_int m a = sint (rd32 m a)"

definition page_bytes_at :: "cmem \<Rightarrow> nat \<Rightarrow> nat \<Rightarrow> u8 list" where
  "page_bytes_at m a n = map (\<lambda>i. m (a + i)) [0..<n]"

text \<open>A message as \<open>ipc_recv\<close> delivers it: the value, the sender and the page, if one came with it.\<close>

datatype nsmsg = Msg int u32 "cmem option"

section \<open>The network interface\<close>

text \<open>\<open>low_level_output\<close>: the chain is copied into a new page, which is then sent to the output environment; \<open>r\<close> is the
  result of \<open>sys_page_alloc\<close>.\<close>

fun tx_copy :: "u8 list list \<Rightarrow> nat \<Rightarrow> cmem \<Rightarrow> (nat \<times> cmem) option" where
  "tx_copy [] txsize m = Some (txsize, m)"
| "tx_copy (q # qs) txsize m =
     (if txsize + length q > 2000 then None else tx_copy qs (txsize + length q) (overlay (4 + txsize) q m))"

definition low_level_output :: "u32 \<Rightarrow> int \<Rightarrow> u8 list list \<Rightarrow> nsmsg option" where
  "low_level_output me r p =
     (if r < 0 then None
      else do { (txsize, m1) \<leftarrow> tx_copy p 0 (\<lambda>_. 0); Some (Msg NSREQ_OUTPUT me (Some (wr32 m1 0 (of_nat txsize)))) })"

text \<open>\<open>low_level_input\<close>: the chain is filled from the page.\<close>

fun rx_copy :: "cmem \<Rightarrow> int \<Rightarrow> int \<Rightarrow> nat list \<Rightarrow> u8 list list" where
  "rx_copy m len copied [] = []"
| "rx_copy m len copied (l # ls) =
     (let n = (if int l > len - copied then len - copied else int l)
      in page_bytes_at m (4 + nat copied) (nat n) # rx_copy m len (copied + n) ls)"

definition low_level_input :: "'n lwip \<Rightarrow> cmem \<Rightarrow> 'n \<Rightarrow> u8 list list option \<times> 'n" where
  "low_level_input lw m st =
     (let len = sint (ucast (rd32 m 0) :: u16) in
      case pbuf_alloc lw len st of (p, st1) \<Rightarrow> (map_option (rx_copy m len 0) p, st1))"

text \<open>The type of the Ethernet header, in network byte order; a first buffer without a whole header would be read past
  its end.\<close>

definition eth_type :: "u8 list list \<Rightarrow> u16 option" where
  "eth_type p = (case p of q # _ \<Rightarrow> if length q < 14 then None else Some (push_bit 8 (ucast (q ! 12)) OR ucast (q ! 13)) | [] \<Rightarrow> None)"

definition jif_input :: "'n lwip \<Rightarrow> cmem \<Rightarrow> 'n \<Rightarrow> 'n option" where
  "jif_input lw m st =
     (case low_level_input lw m st of
        (None, st1) \<Rightarrow> Some st1
      | (Some p, st1) \<Rightarrow> do {
          t \<leftarrow> eth_type p;
          if t = 0x0800 then Some (netif_input lw (pbuf_header lw p (- 14)) (etharp_ip_input lw p st1))
          else if t = 0x0806 then Some (etharp_arp_input lw p st1)
          else Some (pbuf_free lw p st1) })"

section \<open>Requests\<close>

text \<open>The switch of \<open>serve_thread\<close>: the result, the page and the stack afterwards.\<close>

definition serve_request :: "'n lwip \<Rightarrow> int \<Rightarrow> cmem \<times> 'n \<Rightarrow> (int \<times> cmem \<times> 'n) option" where
  "serve_request lw reqno ps =
     (case ps of (m, st) \<Rightarrow>
        let s = page_int m 0 in
        if reqno = NSREQ_ACCEPT then
          (case lwip_accept lw s st of (r, addr, alen, st1) \<Rightarrow> Some (r, wr32 (overlay 0 (take 16 addr) m) 16 alen, st1))
        else if reqno = NSREQ_BIND then
          (case lwip_bind lw s (page_bytes_at m 4 16) (rd32 m 20) st of (r, st1) \<Rightarrow> Some (r, m, st1))
        else if reqno = NSREQ_SHUTDOWN then (case lwip_shutdown lw s (page_int m 4) st of (r, st1) \<Rightarrow> Some (r, m, st1))
        else if reqno = NSREQ_CLOSE then (case lwip_close lw s st of (r, st1) \<Rightarrow> Some (r, m, st1))
        else if reqno = NSREQ_CONNECT then
          (case lwip_connect lw s (page_bytes_at m 4 16) (rd32 m 20) st of (r, st1) \<Rightarrow> Some (r, m, st1))
        else if reqno = NSREQ_LISTEN then (case lwip_listen lw s (page_int m 4) st of (r, st1) \<Rightarrow> Some (r, m, st1))
        else if reqno = NSREQ_RECV then
          (case lwip_recv lw s (page_int m 4) (rd32 m 8) st of (r, bs, st1) \<Rightarrow> Some (r, overlay 0 bs m, st1))
        else if reqno = NSREQ_SEND then
          (case lwip_send lw s (page_bytes_at m 12 (nat (page_int m 4))) (rd32 m 8) st of (r, st1) \<Rightarrow> Some (r, m, st1))
        else if reqno = NSREQ_SOCKET then
          (case lwip_socket lw s (page_int m 4) (page_int m 8) st of (r, st1) \<Rightarrow> Some (r, m, st1))
        else if reqno = NSREQ_INPUT then
          map_option (\<lambda>st1. (0, m, st1)) (jif_input lw m st)
        else Some (- E_INVAL, m, st))"

section \<open>Buffers\<close>

text \<open>\<open>buse\<close> marks the buffers in use; buffer \<open>i\<close> is the page \<open>REQVA + i * PGSIZE\<close>.\<close>

definition get_buffer :: "bool list \<Rightarrow> (nat \<times> bool list) option" where
  "get_buffer buse = map_option (\<lambda>i. (i, buse[i := True])) (find (\<lambda>i. \<not> buse ! i) [0..<QUEUE_SIZE])"

definition put_buffer :: "nat \<Rightarrow> bool list \<Rightarrow> bool list" where
  "put_buffer i buse = buse[i := False]"

section \<open>The server\<close>

record st_args =
  reqno :: int
  whom :: u32
  req :: nat

record 'n nserv =
  buse :: "bool list"
  bufs :: "nat \<Rightarrow> cmem"
  pending :: "st_args list"
  stack :: 'n
  replies :: "(u32 \<times> int) list"
  timer_envid :: u32

text \<open>\<open>process_timer\<close> with the clock before and after the threads ran.\<close>

definition process_timer :: "u32 \<Rightarrow> u32 \<Rightarrow> u32 \<Rightarrow> 'n nserv \<Rightarrow> 'n nserv" where
  "process_timer envid start now s =
     (if envid \<noteq> timer_envid s then s
      else s\<lparr>replies := replies s @ [(envid, sint (TIMER_INTERVAL - (now - start)))]\<rparr>)"

text \<open>What a round of \<open>serve\<close> meets: the two readings of the clock, and whether \<open>malloc\<close> and \<open>thread_create\<close> succeed.\<close>

record nsround =
  start_msec :: u32
  now_msec :: u32
  malloc_ok :: bool
  create_ok :: bool

text \<open>One round of \<open>serve\<close>: the buffer, the message, and for a request the thread that will serve it.  Only this loop takes buffers, so
  the threads that run while it waits in \<open>process_timer\<close> may as well run after the round.\<close>

definition serve_round :: "nsround \<Rightarrow> nsmsg \<Rightarrow> 'n nserv \<Rightarrow> 'n nserv option" where
  "serve_round e msg s =
     (case msg of Msg no sndr pg \<Rightarrow> do {
        (i, b1) \<leftarrow> get_buffer (buse s);
        let s1 = s\<lparr>buse := b1, bufs := (case pg of None \<Rightarrow> bufs s | Some m \<Rightarrow> (bufs s)(i := m))\<rparr>;
        if no = NSREQ_TIMER then
          let s2 = process_timer sndr (start_msec e) (now_msec e) s1 in Some (s2\<lparr>buse := put_buffer i (buse s2)\<rparr>)
        else if pg = None then Some s1
        else if \<not> malloc_ok e then None
        else if create_ok e then Some (s1\<lparr>pending := pending s1 @ [\<lparr>reqno = no, whom = sndr, req = i\<rparr>]\<rparr>)
        else Some s1 })"

text \<open>\<open>serve_thread\<close> for one request: the call, the reply, and the buffer given back.\<close>

definition serve_thread :: "'n lwip \<Rightarrow> st_args \<Rightarrow> 'n nserv \<Rightarrow> 'n nserv option" where
  "serve_thread lw a s = do {
        (r, m, st) \<leftarrow> serve_request lw (reqno a) (bufs s (req a), stack s);
        let s1 = s\<lparr>bufs := (bufs s)(req a := m), stack := st\<rparr>;
        let s2 = (if reqno a \<noteq> NSREQ_INPUT then s1\<lparr>replies := replies s1 @ [(whom a, r)]\<rparr> else s1);
        Some (s2\<lparr>buse := put_buffer (req a) (buse s2), pending := remove1 a (pending s2)\<rparr>) }"

text \<open>The threads run in any order between the messages.\<close>

inductive ns_step :: "'n lwip \<Rightarrow> 'n nserv \<Rightarrow> 'n nserv \<Rightarrow> bool" for lw where
  recv: "serve_round e msg s = Some s' \<Longrightarrow> ns_step lw s s'"
| run: "a \<in> set (pending s) \<Longrightarrow> serve_thread lw a s = Some s' \<Longrightarrow> ns_step lw s s'"

definition ns_start :: "u32 \<Rightarrow> 'n \<Rightarrow> 'n nserv" where
  "ns_start t st = \<lparr>buse = replicate QUEUE_SIZE False, bufs = (\<lambda>_ _. 0), pending = [], stack = st, replies = [], timer_envid = t\<rparr>"

inductive_cases ns_stepE: "ns_step lw s s'"

section \<open>Requests do not share a buffer\<close>

definition ns_inv :: "'n nserv \<Rightarrow> bool" where
  "ns_inv s \<longleftrightarrow> length (buse s) = QUEUE_SIZE \<and> distinct (map req (pending s)) \<and> (\<forall>a \<in> set (pending s). req a < QUEUE_SIZE \<and> buse s ! req a)"

lemma get_buffer_Some:
  "get_buffer b = Some (i, b1) \<longleftrightarrow> i < QUEUE_SIZE \<and> \<not> b ! i \<and> (\<forall>j < i. b ! j) \<and> b1 = b[i := True]"
proof -
  have "find (\<lambda>i. \<not> b ! i) [0..<QUEUE_SIZE] = Some i \<longleftrightarrow> i < QUEUE_SIZE \<and> \<not> b ! i \<and> (\<forall>j < i. b ! j)"
    unfolding find_Some_iff by (auto simp del: upt_rec_numeral)
  then show ?thesis by (auto simp: get_buffer_def)
qed

lemma get_buffer_None: "length b = QUEUE_SIZE \<Longrightarrow> get_buffer b = None \<longleftrightarrow> False \<notin> set b"
  by (auto simp: get_buffer_def find_None_iff in_set_conv_nth simp del: upt_rec_numeral)

lemma serve_round_inv:
  assumes "ns_inv s" "serve_round e msg s = Some s'"
  shows "ns_inv s'"
proof -
  obtain no sndr pg where msg: "msg = Msg no sndr pg" by (cases msg)
  from assms(2) obtain i b1 where g: "get_buffer (buse s) = Some (i, b1)" by (auto simp: serve_round_def msg bind_eq_Some_conv)
  then have i: "i < QUEUE_SIZE" "\<not> buse s ! i" "b1 = (buse s)[i := True]" by (auto simp: get_buffer_Some)
  have fresh: "i \<notin> req ` set (pending s)" using assms(1) i(2) by (auto simp: ns_inv_def)
  have "(buse s)[i := True, i := False] = buse s" using i assms(1) by (metis list_update_id list_update_overwrite)
  then show ?thesis using assms i fresh
    by (auto simp: serve_round_def msg g Let_def process_timer_def put_buffer_def ns_inv_def nth_list_update split: if_splits option.splits)
qed

lemma remove1_req:
  "distinct (map req xs) \<Longrightarrow> a \<in> set xs \<Longrightarrow> b \<in> set (remove1 a xs) \<longleftrightarrow> b \<in> set xs \<and> req b \<noteq> req a"
  by (induction xs) (auto simp: rev_image_eqI)

lemma serve_thread_inv: "ns_inv s \<Longrightarrow> a \<in> set (pending s) \<Longrightarrow> serve_thread lw a s = Some s' \<Longrightarrow> ns_inv s'"
proof -
  assume a: "ns_inv s" "a \<in> set (pending s)" "serve_thread lw a s = Some s'"
  then have d: "distinct (map req (pending s))" by (simp add: ns_inv_def)
  have "distinct (map req (remove1 a (pending s)))" using d by (induction "pending s") (auto dest: notin_set_remove1 simp: distinct_map inj_on_def distinct_remove1)
  with a show ?thesis
    by (auto simp: serve_thread_def Let_def ns_inv_def put_buffer_def nth_list_update remove1_req [OF d a(2)] bind_eq_Some_conv)
qed

lemma ns_step_inv: "ns_step lw s s' \<Longrightarrow> ns_inv s \<Longrightarrow> ns_inv s'"
  by (auto elim!: ns_stepE intro: serve_round_inv serve_thread_inv)

lemma ns_start_inv: "ns_inv (ns_start t st)"
  by (simp add: ns_inv_def ns_start_def)

lemma ns_reachable_inv: "(ns_step lw)\<^sup>*\<^sup>* (ns_start t st) s \<Longrightarrow> ns_inv s"
  by (induction rule: rtranclp_induct) (auto intro: ns_step_inv ns_start_inv)


section \<open>Messages without a page\<close>

fun serve_rounds :: "(nsround \<times> nsmsg) list \<Rightarrow> 'n nserv \<Rightarrow> 'n nserv option" where
  "serve_rounds [] s = Some s"
| "serve_rounds ((e, x) # xs) s = do { s1 \<leftarrow> serve_round e x s; serve_rounds xs s1 }"

definition pageless :: "nsmsg \<Rightarrow> bool" where
  "pageless x \<longleftrightarrow> (case x of Msg no _ pg \<Rightarrow> no \<noteq> NSREQ_TIMER \<and> pg = None)"

lemma serve_pageless:
  assumes "pageless x" "buse s = replicate k True @ replicate (QUEUE_SIZE - k) False" "k < QUEUE_SIZE"
  shows "\<exists>s'. serve_round e x s = Some s' \<and> buse s' = replicate (Suc k) True @ replicate (QUEUE_SIZE - Suc k) False"
proof -
  obtain no sndr where x: "x = Msg no sndr None" "no \<noteq> NSREQ_TIMER" using assms(1) by (cases x) (auto simp: pageless_def)
  have e: "replicate (QUEUE_SIZE - k) False = False # replicate (QUEUE_SIZE - Suc k) False"
    using assms(3) by (metis Suc_diff_Suc replicate_Suc)
  have "(buse s)[k := True] = replicate (Suc k) True @ replicate (QUEUE_SIZE - Suc k) False"
    unfolding assms(2) e by (simp add: list_update_append replicate_app_Cons_same)
  moreover have "get_buffer (buse s) = Some (k, (buse s)[k := True])"
    unfolding get_buffer_Some using assms(3) unfolding assms(2) e by (simp add: nth_append)
  ultimately show ?thesis using x by (simp add: serve_round_def)
qed

lemma serve_pageless_rounds:
  assumes "\<forall>x \<in> set xs. pageless (snd x)" "buse s = replicate k True @ replicate (QUEUE_SIZE - k) False" "k + length xs \<le> QUEUE_SIZE"
  shows "\<exists>s'. serve_rounds xs s = Some s' \<and> buse s' = replicate (k + length xs) True @ replicate (QUEUE_SIZE - (k + length xs)) False"
  using assms
proof (induction xs arbitrary: s k)
  case (Cons x xs)
  obtain e y where x: "x = (e, y)" by (cases x)
  from serve_pageless [of y s k e] Cons.prems obtain s1 where s1: "serve_round e y s = Some s1"
    "buse s1 = replicate (Suc k) True @ replicate (QUEUE_SIZE - Suc k) False" unfolding x by auto
  from Cons.IH [OF _ s1(2)] Cons.prems s1(1) x show ?case by simp
qed simp

text \<open>A message without a page costs the server a buffer for ever.  After twenty of them, from any sender, the next message of
  any kind makes it panic.\<close>

theorem pageless_messages_stop_server:
  assumes "length xs = QUEUE_SIZE" "\<forall>x \<in> set xs. pageless (snd x)"
  shows "\<exists>s. serve_rounds xs (ns_start t st) = Some s \<and> (\<forall>e msg. serve_round e msg s = None)"
proof -
  have "buse (ns_start t st) = replicate 0 True @ replicate (QUEUE_SIZE - 0) False" by (simp add: ns_start_def)
  from serve_pageless_rounds [OF assms(2) this] assms(1) obtain s where s: "serve_rounds xs (ns_start t st) = Some s" "buse s = replicate QUEUE_SIZE True"
    by auto
  have "get_buffer (buse s) = None" unfolding s(2) by (subst get_buffer_None) simp_all
  then have "serve_round e msg s = None" for e msg by (cases msg) (simp add: serve_round_def)
  with s(1) show ?thesis by blast
qed

section \<open>Packets\<close>

text \<open>\<open>input\<close>: a new page (\<open>r\<close> is the result of \<open>sys_page_alloc\<close>) and the attempts to receive until one gives a packet; the page
  then goes to the server.\<close>

fun net_rx_loop :: "(int \<times> u8 list) list \<Rightarrow> (int \<times> u8 list \<times> (int \<times> u8 list) list) option" where
  "net_rx_loop [] = None"
| "net_rx_loop ((len, bs) # rs) = (if len \<le> 0 then net_rx_loop rs else Some (len, bs, rs))"

definition input_round :: "u32 \<Rightarrow> int \<Rightarrow> (int \<times> u8 list) list \<Rightarrow> (nsmsg \<times> (int \<times> u8 list) list) option" where
  "input_round me r rs =
     (if r < 0 then None
      else do {
        (len, bs, rs1) \<leftarrow> net_rx_loop rs;
        Some (Msg NSREQ_INPUT me (Some (wr32 (overlay 4 bs (\<lambda>_. 0)) 0 (of_int len))), rs1) })"

text \<open>\<open>output\<close>: a message with a page is given to the driver until it accepts; \<open>drv\<close> is what the driver answers, given its
  state and the packet.  The fuel bounds the number of attempts.\<close>

fun net_tx_loop :: "('d \<Rightarrow> u8 list \<Rightarrow> int \<times> 'd) \<Rightarrow> nat \<Rightarrow> u8 list \<Rightarrow> 'd \<Rightarrow> 'd option" where
  "net_tx_loop drv 0 bs d = None"
| "net_tx_loop drv (Suc f) bs d = (case drv d bs of (r, d1) \<Rightarrow> if r \<noteq> 0 then net_tx_loop drv f bs d1 else Some d1)"

definition output_round :: "('d \<Rightarrow> u8 list \<Rightarrow> int \<times> 'd) \<Rightarrow> nat \<Rightarrow> nsmsg \<Rightarrow> 'd \<Rightarrow> 'd option" where
  "output_round drv f msg d =
     (case msg of
        Msg no sndr None \<Rightarrow> Some d
      | Msg no sndr (Some m) \<Rightarrow>
          if no = NSREQ_OUTPUT then net_tx_loop drv f (page_bytes_at m 4 (nat (page_int m 0))) d else Some d)"

text \<open>\<open>timer\<close>: the wait for the time \<open>stop\<close>, given the readings of the clock, and the wait for the answer of the server, given the
  messages that arrive.\<close>

fun timer_wait :: "u32 \<Rightarrow> int list \<Rightarrow> (bool \<times> int list) option" where
  "timer_wait stop [] = None"
| "timer_wait stop (r # rs) = (if of_int r < stop \<and> r \<ge> 0 then timer_wait stop rs else Some (r < 0, rs))"

fun timer_answer :: "u32 \<Rightarrow> (int \<times> u32) list \<Rightarrow> (int \<times> (int \<times> u32) list) option" where
  "timer_answer ns [] = None"
| "timer_answer ns ((to, wh) # xs) = (if wh \<noteq> ns then timer_answer ns xs else Some (to, xs))"

definition timer_stop :: "int \<Rightarrow> int \<Rightarrow> u32" where
  "timer_stop now to = of_int now + of_int to"

lemma tx_copy_spec:
  "txsize + length (concat p) \<le> 2000 \<Longrightarrow> tx_copy p txsize m = Some (txsize + length (concat p), overlay (4 + txsize) (concat p) m)"
proof (induction p arbitrary: txsize m)
  case (Cons q p)
  have "overlay (4 + (txsize + length q)) (concat p) (overlay (4 + txsize) q m) = overlay (4 + txsize) (q @ concat p) m"
    by (auto simp: overlay_def fun_eq_iff nth_append add.assoc)
  then show ?case using Cons by (simp add: add.assoc)
qed (simp add: overlay_Nil)

lemma tx_copy_None: "txsize \<le> 2000 \<Longrightarrow> txsize + length (concat p) > 2000 \<Longrightarrow> tx_copy p txsize m = None"
  by (induction p arbitrary: txsize m) auto

lemma page_int_len: "n < 2 ^ 31 \<Longrightarrow> page_int (wr32 m 0 (of_nat n)) 0 = int n"
  by (simp add: page_int_def signed_of_nat signed_take_bit_int_eq_self)

lemma page_bytes_overlay: "page_bytes_at (wr32 (overlay 4 bs m) 0 w) 4 (length bs) = bs"
  by (rule nth_equalityI) (simp_all add: page_bytes_at_def overlay_def wr32_other)

lemma page_bytes_length [simp]: "length (page_bytes_at m a n) = n"
  by (simp add: page_bytes_at_def)

lemma page_bytes_append: "page_bytes_at m a (x + y) = page_bytes_at m a x @ page_bytes_at m (a + x) y"
  by (induction y) (simp_all add: page_bytes_at_def add.assoc)

lemma rx_copy_concat:
  assumes "0 \<le> copied" "copied + int (sum_list ls) = len"
  shows "concat (rx_copy m len copied ls) = page_bytes_at m (4 + nat copied) (sum_list ls) \<and> map length (rx_copy m len copied ls) = ls"
  using assms
proof (induction ls arbitrary: copied)
  case (Cons l ls)
  have n: "\<not> int l > len - copied" using Cons.prems by simp
  have "concat (rx_copy m len (copied + int l) ls) = page_bytes_at m (4 + nat (copied + int l)) (sum_list ls) \<and> map length (rx_copy m len (copied + int l) ls) = ls"
    using Cons.prems by (intro Cons.IH) simp_all
  then show ?case using n Cons.prems(1) by (simp add: Let_def nat_add_distrib page_bytes_append add.assoc)
qed (simp add: page_bytes_at_def)

lemma low_level_output_spec:
  assumes "0 \<le> r" "length (concat p) \<le> 2000"
  shows "low_level_output me r p =
    Some (Msg NSREQ_OUTPUT me (Some (wr32 (overlay 4 (concat p) (\<lambda>_. 0)) 0 (of_nat (length (concat p))))))"
  using assms tx_copy_spec [of 0 p "\<lambda>_. 0"] by (simp add: low_level_output_def)

lemma net_tx_loop_accepts:
  assumes "\<forall>j < k. fst (drv (((\<lambda>d. snd (drv d bs)) ^^ j) d) bs) \<noteq> 0" "fst (drv (((\<lambda>d. snd (drv d bs)) ^^ k) d) bs) = 0" "k < f"
  shows "net_tx_loop drv f bs d = Some (((\<lambda>d. snd (drv d bs)) ^^ Suc k) d)"
  using assms
proof (induction k arbitrary: f d)
  case 0
  then show ?case by (cases f) (auto split: prod.splits)
next
  case (Suc k)
  then obtain f' where f: "f = Suc f'" "k < f'" by (cases f) auto
  have "net_tx_loop drv f' bs (snd (drv d bs)) = Some (((\<lambda>d. snd (drv d bs)) ^^ Suc k) (snd (drv d bs)))"
  proof (rule Suc.IH)
    show "\<forall>j < k. fst (drv (((\<lambda>d. snd (drv d bs)) ^^ j) (snd (drv d bs))) bs) \<noteq> 0"
      using Suc.prems(1) by (metis Suc_less_eq comp_apply funpow_Suc_right)
    show "fst (drv (((\<lambda>d. snd (drv d bs)) ^^ k) (snd (drv d bs))) bs) = 0"
      using Suc.prems(2) by (simp only: funpow_Suc_right comp_apply)
  qed (rule f(2))
  moreover have "fst (drv d bs) \<noteq> 0" using Suc.prems(1) by (metis funpow_0 zero_less_Suc)
  moreover have "((\<lambda>d. snd (drv d bs)) ^^ Suc k) (snd (drv d bs)) = ((\<lambda>d. snd (drv d bs)) ^^ Suc (Suc k)) d"
    by (simp only: funpow_Suc_right comp_apply)
  ultimately show ?case unfolding f(1) net_tx_loop.simps by (simp only: case_prod_beta if_True simp_thms)
qed

text \<open>A packet that the TCP/IP stack sends as a chain of buffers reaches the network driver as the same bytes in the same order, however
  they are divided among the buffers, in one piece and until the driver has accepted it once.  A packet of more than 2000 bytes is never sent.\<close>

theorem sent_packet_unchanged:
  assumes "0 \<le> r" and nxt: "nxt = (\<lambda>d. snd (drv d (concat p)))"
    and refused: "\<forall>j < k. fst (drv ((nxt ^^ j) d) (concat p)) \<noteq> 0" and accepted: "fst (drv ((nxt ^^ k) d) (concat p)) = 0" "k < f"
  shows "if length (concat p) \<le> 2000
    then \<exists>msg. low_level_output me r p = Some msg \<and> output_round drv f msg d = Some ((nxt ^^ Suc k) d)
    else low_level_output me r p = None"
proof (cases "length (concat p) \<le> 2000")
  case True
  have "output_round drv f (Msg NSREQ_OUTPUT me (Some (wr32 (overlay 4 (concat p) (\<lambda>_. 0)) 0 (of_nat (length (concat p)))))) d =
      net_tx_loop drv f (concat p) d"
    using True by (simp add: output_round_def page_int_len page_bytes_overlay)
  with low_level_output_spec [OF assms(1) True] net_tx_loop_accepts [of k drv "concat p" d f] refused accepted True show ?thesis
    by (auto simp: nxt)
next
  case False
  then show ?thesis using tx_copy_None [of 0 p] by (simp add: low_level_output_def)
qed

definition busy_driver :: "u8 list list \<Rightarrow> u8 list \<Rightarrow> int \<times> u8 list list" where
  "busy_driver d bs = (if length d < 2 then - 1 else 0, d @ [bs])"

theorem sent_packet_unchanged_witness:
  "\<exists>msg. low_level_output 7 0 [[1, 2], [3]] = Some msg \<and>
     output_round busy_driver 5 msg [] = Some [[1, 2, 3], [1, 2, 3], [1, 2, 3]]"
proof -
  define nxt where "nxt = (\<lambda>d. snd (busy_driver d (concat [[1, 2], [3]])))"
  have "\<forall>j < 2. fst (busy_driver ((nxt ^^ j) []) (concat [[1, 2], [3]])) \<noteq> 0"
    by (auto simp: less_Suc_eq numeral_2_eq_2 busy_driver_def nxt_def)
  moreover have "fst (busy_driver ((nxt ^^ 2) []) (concat [[1, 2], [3]])) = 0" "(nxt ^^ Suc 2) [] = [[1, 2, 3], [1, 2, 3], [1, 2, 3]]"
    by (simp_all add: numeral_2_eq_2 busy_driver_def nxt_def)
  ultimately show ?thesis
    using sent_packet_unchanged [of 0 nxt busy_driver "[[1, 2], [3]]" 2 "[]" 5 7] nxt_def by simp
qed

lemma net_rx_loop_skip:
  assumes "\<forall>x \<in> set refused. fst x \<le> 0" "0 < len"
  shows "net_rx_loop (refused @ (len, bs) # rest) = Some (len, bs, rest)"
  using assms by (induction refused) auto

definition frame_type :: "u8 list \<Rightarrow> u16" where
  "frame_type bs = push_bit 8 (ucast (bs ! 12)) OR ucast (bs ! 13)"

text \<open>C18: a packet the driver delivers to the input environment reaches the TCP/IP stack as a chain of buffers with the same bytes in the same order.
  It is given to the layer its Ethernet type names: the ARP table and then, without its Ethernet header, the input function of the interface for an
  IP packet; the ARP module for an ARP packet; any other packet is freed.\<close>

theorem received_packet_unchanged:
  assumes "0 \<le> r" "\<forall>x \<in> set refused. fst x \<le> 0" "14 \<le> length bs" "length bs \<le> 4092"
    and alloc: "pbuf_alloc lw (int (length bs)) st = (Some (l # ls), st1)" "l + sum_list ls = length bs" "14 \<le> l"
  shows "\<exists>m p. input_round me r (refused @ (int (length bs), bs) # rest) = Some (Msg NSREQ_INPUT me (Some m), rest) \<and>
    concat p = bs \<and> map length p = l # ls \<and>
    serve_request lw NSREQ_INPUT (m, st) = Some (0, m,
      if frame_type bs = 0x0800 then netif_input lw (pbuf_header lw p (- 14)) (etharp_ip_input lw p st1)
      else if frame_type bs = 0x0806 then etharp_arp_input lw p st1
      else pbuf_free lw p st1)"
proof -
  define m where "m = wr32 (overlay 4 bs (\<lambda>_. 0)) 0 (of_nat (length bs))"
  define p where "p = rx_copy m (int (length bs)) 0 (l # ls)"
  have p: "concat p = bs" "map length p = l # ls"
    using rx_copy_concat [of 0 "l # ls" "int (length bs)" m] alloc(2) page_bytes_overlay [of bs "\<lambda>_. 0"] by (simp_all add: p_def m_def)
  then obtain q qs where q: "p = q # qs" "length q = l" by (cases p) auto
  have "q ! 12 = bs ! 12" "q ! 13 = bs ! 13" using p(1) q assms(7) by (auto simp: nth_append)
  then have ty: "eth_type p = Some (frame_type bs)" using q assms(7) by (simp add: eth_type_def frame_type_def)
  have "sint (ucast (rd32 m 0) :: u16) = int (length bs)"
    using assms(4) by (simp add: m_def unsigned_of_nat signed_of_nat signed_take_bit_int_eq_self take_bit_nat_eq_self)
  then have "low_level_input lw m st = (Some p, st1)" using alloc(1) by (simp add: low_level_input_def p_def Let_def)
  with ty have "serve_request lw NSREQ_INPUT (m, st) = Some (0, m,
      if frame_type bs = 0x0800 then netif_input lw (pbuf_header lw p (- 14)) (etharp_ip_input lw p st1)
      else if frame_type bs = 0x0806 then etharp_arp_input lw p st1
      else pbuf_free lw p st1)" by (simp add: serve_request_def jif_input_def)
  moreover have "net_rx_loop (refused @ (int (length bs), bs) # rest) = Some (int (length bs), bs, rest)"
    using assms(2,3) by (intro net_rx_loop_skip) auto
  then have "input_round me r (refused @ (int (length bs), bs) # rest) = Some (Msg NSREQ_INPUT me (Some m), rest)"
    using assms(1) by (simp add: input_round_def m_def)
  ultimately show ?thesis using p by (intro exI conjI)
qed

text \<open>A stack that only records the packets it is given, in buffers of 16 bytes.\<close>

definition log_lwip :: "(nat \<times> u8 list list) list lwip" where
  "log_lwip = \<lparr>lwip_accept = \<lambda>_ st. (- 1, [], 0, st), lwip_bind = \<lambda>_ _ _ st. (- 1, st), lwip_shutdown = \<lambda>_ _ st. (- 1, st), lwip_close = \<lambda>_ st. (- 1, st),
     lwip_connect = \<lambda>_ _ _ st. (- 1, st), lwip_listen = \<lambda>_ _ st. (- 1, st), lwip_recv = \<lambda>_ _ _ st. (- 1, [], st), lwip_send = \<lambda>_ _ _ st. (- 1, st),
     lwip_socket = \<lambda>_ _ _ st. (- 1, st), pbuf_alloc = \<lambda>n st. (Some (replicate (nat n div 16) 16 @ [nat n mod 16]), st),
     pbuf_header = \<lambda>p n. drop (nat (- n)) (hd p) # tl p, pbuf_free = \<lambda>p st. st @ [(0, p)], etharp_ip_input = \<lambda>p st. st @ [(1, p)],
     etharp_arp_input = \<lambda>p st. st @ [(2, p)], netif_input = \<lambda>p st. st @ [(3, p)]\<rparr>"

theorem received_packet_unchanged_witness:
  "\<exists>m p. input_round 7 0 ([(- 1, []), (0, [])] @ (int (length (replicate 12 1 @ [8, 0, 5, 6, 7 :: u8])), replicate 12 1 @ [8, 0, 5, 6, 7]) # []) =
      Some (Msg NSREQ_INPUT 7 (Some m), []) \<and> concat p = replicate 12 1 @ [8, 0, 5, 6, 7] \<and> map length p = [16, 1] \<and>
      serve_request log_lwip NSREQ_INPUT (m, []) = Some (0, m, [(1, p), (3, pbuf_header log_lwip p (- 14))])"
proof -
  have t: "frame_type (replicate 12 1 @ [8, 0, 5, 6, 7 :: u8]) = 0x0800" by (simp add: frame_type_def nth_append)
  have a: "pbuf_alloc log_lwip (int (length (replicate 12 1 @ [8, 0, 5, 6, 7 :: u8]))) [] = (Some (16 # [1]), [])"
    by (simp add: log_lwip_def)
  have u: "netif_input log_lwip x (etharp_ip_input log_lwip y []) = [(1, y), (3, x)]" for x y by (simp add: log_lwip_def)
  from received_packet_unchanged [of 0 "[(- 1, []), (0, [])]" "replicate 12 1 @ [8, 0, 5, 6, 7]", OF _ _ _ _ a, of 7 "[]"] show ?thesis
    unfolding t u by simp
qed

section \<open>The timer\<close>

lemma timer_wait_until:
  assumes "\<forall>t \<in> set pre. t < unat stop" "unat stop \<le> t" "t < 2 ^ 31"
  shows "timer_wait stop (map int (pre @ t # post)) = Some (False, map int post)"
  using assms(1)
proof (induction pre)
  case (Cons u pre)
  then have "(of_nat u :: u32) < of_nat (unat stop)" using unsigned_less [of stop, where 'a = nat]
    by (simp add: word_less_nat_alt unat_of_nat)
  then have "(of_nat u :: u32) < stop" by simp
  with Cons show ?case by simp
next
  case Nil
  have "\<not> (of_nat t :: u32) < stop" using assms(2,3) by (simp add: word_less_nat_alt unat_of_nat)
  then show ?case by simp
qed

lemma timer_stop_value:
  assumes "start \<le> now" "now \<le> then'" "then' + 250 < 2 ^ 31"
  shows "unat (timer_stop (int then') (sint (TIMER_INTERVAL - (of_nat now - of_nat start)))) = start + 250 + (then' - now)"
proof -
  have "timer_stop (int then') (sint (TIMER_INTERVAL - (of_nat now - of_nat start))) = (of_nat (start + 250 + (then' - now)) :: u32)"
    using assms by (simp add: timer_stop_def of_nat_diff)
  also have "unat \<dots> = start + 250 + (then' - now)" using assms by (subst unat_of_nat) simp
  finally show ?thesis .
qed

lemma timer_answer_skip: "\<forall>x \<in> set others. snd x \<noteq> ns \<Longrightarrow> timer_answer ns (others @ (to, ns) # rest) = Some (to, rest)"
  by (induction others) auto

text \<open>The timer environment sends its next message 250 ms after the server began to serve the last one, later only by the time the answer was under way
  (from \<open>now\<close> to \<open>later\<close>), and messages of other environments do not disturb it.  This holds also when the threads of the server took longer than 250 ms, although
  the interval it is answered is then negative.\<close>

theorem timer_period:
  assumes "start \<le> now" "now \<le> later" "later + 250 < 2 ^ 31" "\<forall>x \<in> set others. snd x \<noteq> ns"
    "\<forall>t \<in> set pre. t < start + 250 + (later - now)" "start + 250 + (later - now) \<le> t" "t < 2 ^ 31"
  shows "\<exists>to. replies (process_timer (timer_envid s) (of_nat start) (of_nat now) s) = replies s @ [(timer_envid s, to)] \<and>
    timer_answer ns (others @ (to, ns) # rest) = Some (to, rest) \<and>
    timer_wait (timer_stop (int later) to) (map int (pre @ t # post)) = Some (False, map int post)"
  using timer_stop_value [OF assms(1-3)] timer_wait_until [of pre _ t post] timer_answer_skip [OF assms(4)] assms(5-7)
  by (simp add: process_timer_def)

theorem timer_period_witness:
  "\<exists>to. replies (process_timer 5 1000 1400 (ns_start 5 ())) = [(5, to)] \<and> timer_answer 4 ([(1, 9)] @ (to, 4) # []) = Some (to, []) \<and>
     timer_wait (timer_stop 1403 to) (map int ([1252] @ 1253 # [])) = Some (False, [])"
  using timer_period [of 1000 1400 1403 "[(1, 9)]" 4 "[1252]" 1253 "ns_start 5 ()" "[]" "[]"] by (simp add: ns_start_def)

text \<open>Witnesses of the server's properties.\<close>

definition quiet_round :: nsround where
  "quiet_round = \<lparr>start_msec = 0, now_msec = 0, malloc_ok = True, create_ok = True\<rparr>"

theorem pageless_messages_stop_server_witness:
  "\<exists>s. serve_rounds (replicate 20 (quiet_round, Msg 2 9 None)) (ns_start 5 ()) = Some s \<and> (\<forall>e msg. serve_round e msg s = None)"
  using pageless_messages_stop_server [of "replicate 20 (quiet_round, Msg 2 9 None)" 5 "()"] by (simp add: pageless_def)


end
