(* ===== verification/Lib_Sock.thy ===== *)
theory Lib_Sock
  imports Lib_Fd Net_Serv
begin

text \<open>
  Sockets in a user environment: the requests to the network server (\<^verbatim>\<open>lib/nsipc.c\<close>) and the socket device with the socket
  calls (\<^verbatim>\<open>lib/sockets.c\<close>), over the descriptors of \<open>Lib_Fd\<close> and the server of \<open>Net_Serv\<close>.

  The page \<open>nsipcbuf\<close> of the environment is \<open>nsbuf\<close>.  Sent with a request it is mapped into the server as well, so the server reads the
  arguments in it and what it writes is seen by the environment.  \<open>nstack\<close> is the state of the server's TCP/IP stack.
\<close>

record 'n sworld = umem +
  nsbuf :: cmem
  nstack :: 'n

abbreviation DEV_SOCK :: u32 where "DEV_SOCK \<equiv> 0x73"
abbreviation SOCK_RDWR :: u32 where "SOCK_RDWR \<equiv> 2"

section \<open>Requests\<close>

definition nsipc :: "'n lwip \<Rightarrow> int \<Rightarrow> ('n, 'a) sworld_scheme \<Rightarrow> (int \<times> ('n, 'a) sworld_scheme) option" where
  "nsipc lw ty s =
     map_option (\<lambda>(r, m, st). (r, s\<lparr>nsbuf := m, nstack := st\<rparr>)) (serve_request lw ty (nsbuf s, nstack s))"

definition put_req :: "nat \<Rightarrow> int \<Rightarrow> ('n, 'a) sworld_scheme \<Rightarrow> ('n, 'a) sworld_scheme" where
  "put_req off v s = s\<lparr>nsbuf := wr32 (nsbuf s) off (of_int v)\<rparr>"

text \<open>The address the server returns, with its length; a length past the page would read beyond it.\<close>

definition nsipc_accept :: "'n lwip \<Rightarrow> int \<Rightarrow> ('n, 'a) sworld_scheme \<Rightarrow> (int \<times> u8 list \<times> ('n, 'a) sworld_scheme) option" where
  "nsipc_accept lw sk s = do {
     (r, s1) \<leftarrow> nsipc lw NSREQ_ACCEPT (put_req 0 sk s);
     if r \<ge> 0 then
       let addrlen = unat (rd32 (nsbuf s1) 16) in
       if addrlen > PGSIZE then None else Some (r, page_bytes_at (nsbuf s1) 0 addrlen, s1)
     else Some (r, [], s1) }"

text \<open>\<open>name\<close> is the memory from the address given on; \<open>memmove\<close> reads and writes as many bytes as it is told.\<close>

definition put_sockaddr :: "u8 list \<Rightarrow> u32 \<Rightarrow> ('n, 'a) sworld_scheme \<Rightarrow> ('n, 'a) sworld_scheme option" where
  "put_sockaddr name namelen s =
     (if unat namelen > length name \<or> 4 + unat namelen > PGSIZE then None
      else Some (s\<lparr>nsbuf := wr32 (overlay 4 (take (unat namelen) name) (nsbuf s)) 20 namelen\<rparr>))"

definition nsipc_bind :: "'n lwip \<Rightarrow> int \<Rightarrow> u8 list \<Rightarrow> u32 \<Rightarrow> ('n, 'a) sworld_scheme \<Rightarrow> (int \<times> ('n, 'a) sworld_scheme) option" where
  "nsipc_bind lw sk name namelen s = do { s1 \<leftarrow> put_sockaddr name namelen (put_req 0 sk s); nsipc lw NSREQ_BIND s1 }"

definition nsipc_shutdown :: "'n lwip \<Rightarrow> int \<Rightarrow> int \<Rightarrow> ('n, 'a) sworld_scheme \<Rightarrow> (int \<times> ('n, 'a) sworld_scheme) option" where
  "nsipc_shutdown lw sk how s = nsipc lw NSREQ_SHUTDOWN (put_req 4 how (put_req 0 sk s))"

definition nsipc_close :: "'n lwip \<Rightarrow> int \<Rightarrow> ('n, 'a) sworld_scheme \<Rightarrow> (int \<times> ('n, 'a) sworld_scheme) option" where
  "nsipc_close lw sk s = nsipc lw NSREQ_CLOSE (put_req 0 sk s)"

definition nsipc_connect :: "'n lwip \<Rightarrow> int \<Rightarrow> u8 list \<Rightarrow> u32 \<Rightarrow> ('n, 'a) sworld_scheme \<Rightarrow> (int \<times> ('n, 'a) sworld_scheme) option" where
  "nsipc_connect lw sk name namelen s = do { s1 \<leftarrow> put_sockaddr name namelen (put_req 0 sk s); nsipc lw NSREQ_CONNECT s1 }"

definition nsipc_listen :: "'n lwip \<Rightarrow> int \<Rightarrow> int \<Rightarrow> ('n, 'a) sworld_scheme \<Rightarrow> (int \<times> ('n, 'a) sworld_scheme) option" where
  "nsipc_listen lw sk backlog s = nsipc lw NSREQ_LISTEN (put_req 4 backlog (put_req 0 sk s))"

definition nsipc_recv :: "'n lwip \<Rightarrow> int \<Rightarrow> int \<Rightarrow> u32 \<Rightarrow> ('n, 'a) sworld_scheme \<Rightarrow> (int \<times> u8 list \<times> ('n, 'a) sworld_scheme) option" where
  "nsipc_recv lw sk len flags s = do {
     (r, s1) \<leftarrow> nsipc lw NSREQ_RECV (put_req 8 (uint flags) (put_req 4 len (put_req 0 sk s)));
     if r \<ge> 0 then (if r < 1600 \<and> r \<le> len then Some (r, page_bytes_at (nsbuf s1) 0 (nat r), s1) else None)
     else Some (r, [], s1) }"

text \<open>A negative size passes the assertion and then makes \<open>memmove\<close> run out of the page.\<close>

definition nsipc_send :: "'n lwip \<Rightarrow> int \<Rightarrow> u8 list \<Rightarrow> int \<Rightarrow> u32 \<Rightarrow> ('n, 'a) sworld_scheme \<Rightarrow> (int \<times> ('n, 'a) sworld_scheme) option" where
  "nsipc_send lw sk buf sz flags s =
     (let s1 = put_req 0 sk s in
      if \<not> sz < 1600 then None
      else if sz < 0 then None
      else let s2 = s1\<lparr>nsbuf := overlay 12 (take (nat sz) buf) (nsbuf s1)\<rparr>
           in nsipc lw NSREQ_SEND (put_req 8 (uint flags) (put_req 4 sz s2)))"

definition nsipc_socket :: "'n lwip \<Rightarrow> int \<Rightarrow> int \<Rightarrow> int \<Rightarrow> ('n, 'a) sworld_scheme \<Rightarrow> (int \<times> ('n, 'a) sworld_scheme) option" where
  "nsipc_socket lw domain ty protocol s =
     nsipc lw NSREQ_SOCKET (put_req 8 protocol (put_req 4 ty (put_req 0 domain s)))"

section \<open>The socket device\<close>

text \<open>\<open>fd_sock.sockid\<close> is at offset 12 of \<open>struct Fd\<close>.\<close>

definition fd2sockid :: "int \<Rightarrow> 'a umem_scheme \<Rightarrow> int option" where
  "fd2sockid fdnum s =
     (case fd_lookup fdnum s of
        (r, None) \<Rightarrow> Some r
      | (_, Some sfd) \<Rightarrow> do {
          i \<leftarrow> uld32 sfd s;
          if i \<noteq> DEV_SOCK then Some (- E_NOT_SUPP) else do { w \<leftarrow> uld32 (sfd + 12) s; Some (sint w) } })"

definition alloc_sockfd :: "'n lwip \<Rightarrow> int \<Rightarrow> ('n, 'a) sworld_scheme \<Rightarrow> (int \<times> ('n, 'a) sworld_scheme) option" where
  "alloc_sockfd lw sockid s =
     (case fd_alloc s of
        (r, None) \<Rightarrow> do { (_, s1) \<leftarrow> nsipc_close lw sockid s; Some (r, s1) }
      | (_, Some sfd) \<Rightarrow>
          let (r, s1) = u_page_alloc sfd PIPE_PERM s in
          if r < 0 then do { (_, s2) \<leftarrow> nsipc_close lw sockid s1; Some (r, s2) }
          else do {
            s2 \<leftarrow> ust32 sfd DEV_SOCK s1;
            s3 \<leftarrow> ust32 (sfd + 8) SOCK_RDWR s2;
            s4 \<leftarrow> ust32 (sfd + 12) (of_int sockid) s3;
            Some (int (fd2num sfd), s4) })"

definition accept :: "'n lwip \<Rightarrow> int \<Rightarrow> ('n, 'a) sworld_scheme \<Rightarrow> (int \<times> u8 list \<times> ('n, 'a) sworld_scheme) option" where
  "accept lw sk s = do {
     r \<leftarrow> fd2sockid sk s;
     if r < 0 then Some (r, [], s)
     else do {
       (r1, addr, s1) \<leftarrow> nsipc_accept lw r s;
       if r1 < 0 then Some (r1, addr, s1)
       else do { (r2, s2) \<leftarrow> alloc_sockfd lw r1 s1; Some (r2, addr, s2) } } }"

definition sock_bind :: "'n lwip \<Rightarrow> int \<Rightarrow> u8 list \<Rightarrow> u32 \<Rightarrow> ('n, 'a) sworld_scheme \<Rightarrow> (int \<times> ('n, 'a) sworld_scheme) option" where
  "sock_bind lw sk name namelen s = do {
     r \<leftarrow> fd2sockid sk s;
     if r < 0 then Some (r, s) else nsipc_bind lw r name namelen s }"

definition shutdown :: "'n lwip \<Rightarrow> int \<Rightarrow> int \<Rightarrow> ('n, 'a) sworld_scheme \<Rightarrow> (int \<times> ('n, 'a) sworld_scheme) option" where
  "shutdown lw sk how s = do { r \<leftarrow> fd2sockid sk s; if r < 0 then Some (r, s) else nsipc_shutdown lw r how s }"

definition devsock_close :: "'n lwip \<Rightarrow> nat \<Rightarrow> ('n, 'a) sworld_scheme \<Rightarrow> (int \<times> ('n, 'a) sworld_scheme) option" where
  "devsock_close lw fd s =
     (if pageref fd s = 1 then do { w \<leftarrow> uld32 (fd + 12) s; nsipc_close lw (sint w) s } else Some (0, s))"

definition connect :: "'n lwip \<Rightarrow> int \<Rightarrow> u8 list \<Rightarrow> u32 \<Rightarrow> ('n, 'a) sworld_scheme \<Rightarrow> (int \<times> ('n, 'a) sworld_scheme) option" where
  "connect lw sk name namelen s = do {
     r \<leftarrow> fd2sockid sk s;
     if r < 0 then Some (r, s) else nsipc_connect lw r name namelen s }"

definition listen :: "'n lwip \<Rightarrow> int \<Rightarrow> int \<Rightarrow> ('n, 'a) sworld_scheme \<Rightarrow> (int \<times> ('n, 'a) sworld_scheme) option" where
  "listen lw sk backlog s = do { r \<leftarrow> fd2sockid sk s; if r < 0 then Some (r, s) else nsipc_listen lw r backlog s }"

text \<open>The sizes of reading and writing become an \<open>int\<close>.\<close>

definition devsock_read :: "'n lwip \<Rightarrow> nat \<Rightarrow> nat \<Rightarrow> ('n, 'a) sworld_scheme \<Rightarrow> (int \<times> u8 list \<times> ('n, 'a) sworld_scheme) option" where
  "devsock_read lw fd n s = do { w \<leftarrow> uld32 (fd + 12) s; nsipc_recv lw (sint w) (sint (of_nat n :: u32)) 0 s }"

definition devsock_write :: "'n lwip \<Rightarrow> nat \<Rightarrow> u8 list \<Rightarrow> ('n, 'a) sworld_scheme \<Rightarrow> (int \<times> ('n, 'a) sworld_scheme) option" where
  "devsock_write lw fd bs s = do { w \<leftarrow> uld32 (fd + 12) s; nsipc_send lw (sint w) bs (sint (of_nat (length bs) :: u32)) 0 s }"

definition devsock_stat :: "nat \<Rightarrow> fstat_buf \<Rightarrow> ('n, 'a) sworld_scheme \<Rightarrow> (int \<times> fstat_buf \<times> ('n, 'a) sworld_scheme) option" where
  "devsock_stat fd st s = Some (0, st\<lparr>st_name := [0x3C, 0x73, 0x6F, 0x63, 0x6B, 0x3E]\<rparr>, s)"

definition devsock :: "'n lwip \<Rightarrow> ('n, 'a) sworld_scheme dev" where
  "devsock lw = \<lparr>dev_id = DEV_SOCK, dev_read = Some (devsock_read lw), dev_write = Some (devsock_write lw), dev_close = Some (devsock_close lw),
     dev_stat = Some devsock_stat, dev_trunc = None\<rparr>"

definition socket :: "'n lwip \<Rightarrow> int \<Rightarrow> int \<Rightarrow> int \<Rightarrow> ('n, 'a) sworld_scheme \<Rightarrow> (int \<times> ('n, 'a) sworld_scheme) option" where
  "socket lw domain ty protocol s = do {
     (r, s1) \<leftarrow> nsipc_socket lw domain ty protocol s;
     if r < 0 then Some (r, s1) else alloc_sockfd lw r s1 }"

section \<open>What the server reads\<close>

definition c_int :: "int \<Rightarrow> bool" where
  "c_int v \<longleftrightarrow> - (2 ^ 31) \<le> v \<and> v < 2 ^ 31"

lemma sint_c_int: "c_int v \<Longrightarrow> sint (of_int v :: u32) = v"
  by (simp add: c_int_def signed_of_int signed_take_bit_int_eq_self)

lemma rd32_overlay_other: "a + 4 \<le> k \<or> k + length bs \<le> a \<Longrightarrow> rd32 (overlay k bs m) a = rd32 m a"
  by (rule rd32_cong) (auto simp: overlay_def)

lemma page_bytes_wr32: "b + n \<le> a \<or> a + 4 \<le> b \<Longrightarrow> page_bytes_at (wr32 m a w) b n = page_bytes_at m b n"
  by (auto simp: page_bytes_at_def wr32_other)

lemma page_bytes_overlay_same: "page_bytes_at (overlay k bs m) k (length bs) = bs"
  by (rule nth_equalityI) (simp_all add: page_bytes_at_def overlay_def)

lemmas page_reads = page_int_def rd32_wr32_other rd32_overlay_other page_bytes_wr32 page_bytes_overlay_same put_req_def nsipc_def serve_request_def Let_def

text \<open>The call of the stack gives \<open>c\<close>, and the environment gets its result; nothing else of the environment changes but the request page.\<close>

definition answers :: "int \<times> 'n \<Rightarrow> ('n, 'a) sworld_scheme \<Rightarrow> (int \<times> ('n, 'a) sworld_scheme) option \<Rightarrow> bool" where
  "answers c s x \<longleftrightarrow> (\<exists>m. x = Some (fst c, s\<lparr>nsbuf := m, nstack := snd c\<rparr>))"

lemma answersI: "x = Some (fst c, s\<lparr>nsbuf := m, nstack := snd c\<rparr>) \<Longrightarrow> answers c s x"
  by (auto simp: answers_def)

lemma nsipc_shutdown_answers: "c_int sk \<Longrightarrow> c_int how \<Longrightarrow> answers (lwip_shutdown lw sk how (nstack s)) s (nsipc_shutdown lw sk how s)"
  by (auto simp: nsipc_shutdown_def page_reads sint_c_int split: prod.split intro!: answersI)

lemma nsipc_close_answers: "c_int sk \<Longrightarrow> answers (lwip_close lw sk (nstack s)) s (nsipc_close lw sk s)"
  by (auto simp: nsipc_close_def page_reads sint_c_int split: prod.split intro!: answersI)

lemma nsipc_listen_answers: "c_int sk \<Longrightarrow> c_int b \<Longrightarrow> answers (lwip_listen lw sk b (nstack s)) s (nsipc_listen lw sk b s)"
  by (auto simp: nsipc_listen_def page_reads sint_c_int split: prod.split intro!: answersI)

lemma nsipc_socket_answers:
  "c_int d \<Longrightarrow> c_int t \<Longrightarrow> c_int p \<Longrightarrow> answers (lwip_socket lw d t p (nstack s)) s (nsipc_socket lw d t p s)"
  by (auto simp: nsipc_socket_def page_reads sint_c_int split: prod.split intro!: answersI)

lemma put_sockaddr_reads:
  assumes "length name = 16" "c_int sk"
  shows "\<exists>m. put_sockaddr name 16 (put_req 0 sk s) = Some (s\<lparr>nsbuf := m\<rparr>) \<and> page_int m 0 = sk \<and> page_bytes_at m 4 16 = name \<and> rd32 m 20 = 16"
  using assms page_bytes_overlay_same [of 4 name]
  by (intro exI [of _ "wr32 (overlay 4 name (wr32 (nsbuf s) 0 (of_int sk))) 20 16"])
    (simp add: put_sockaddr_def put_req_def page_int_def rd32_wr32_other rd32_overlay_other page_bytes_wr32 sint_c_int)

lemma nsipc_bind_answers:
  assumes "length name = 16" "c_int sk"
  shows "answers (lwip_bind lw sk name 16 (nstack s)) s (nsipc_bind lw sk name 16 s)"
proof -
  from put_sockaddr_reads [OF assms, of s] obtain m where "put_sockaddr name 16 (put_req 0 sk s) = Some (s\<lparr>nsbuf := m\<rparr>)"
    "page_int m 0 = sk" "page_bytes_at m 4 16 = name" "rd32 m 20 = 16" by blast
  then show ?thesis by (auto simp: nsipc_bind_def nsipc_def serve_request_def split: prod.split intro!: answersI)
qed

lemma nsipc_connect_answers:
  assumes "length name = 16" "c_int sk"
  shows "answers (lwip_connect lw sk name 16 (nstack s)) s (nsipc_connect lw sk name 16 s)"
proof -
  from put_sockaddr_reads [OF assms, of s] obtain m where "put_sockaddr name 16 (put_req 0 sk s) = Some (s\<lparr>nsbuf := m\<rparr>)"
    "page_int m 0 = sk" "page_bytes_at m 4 16 = name" "rd32 m 20 = 16" by blast
  then show ?thesis by (auto simp: nsipc_connect_def nsipc_def serve_request_def split: prod.split intro!: answersI)
qed

lemma nsipc_send_answers:
  assumes "c_int sk" "length bs < 1600"
  shows "answers (lwip_send lw sk bs flags (nstack s)) s (nsipc_send lw sk bs (int (length bs)) flags s)"
proof -
  have "c_int (int (length bs))" using assms(2) by (simp add: c_int_def)
  then have "sint (word_of_nat (length bs) :: u32) = int (length bs)" using sint_c_int by fastforce
  then show ?thesis using assms page_bytes_overlay_same [of 12 bs]
    by (auto simp: nsipc_send_def page_reads sint_c_int split: prod.split intro!: answersI)
qed

lemma nsipc_recv_answers:
  assumes "c_int sk" "c_int len" and call: "lwip_recv lw sk len flags (nstack s) = (r, bs, st)"
    and "0 \<le> r \<Longrightarrow> r \<le> len \<and> r < 1600 \<and> length bs = nat r"
  shows "\<exists>m. nsipc_recv lw sk len flags s = Some (r, if 0 \<le> r then bs else [], s\<lparr>nsbuf := m, nstack := st\<rparr>)"
proof (cases "0 \<le> r")
  case True
  then have "page_bytes_at (overlay 0 bs m) 0 (nat r) = bs" for m using assms(4) page_bytes_overlay_same [of 0 bs] by simp
  then show ?thesis using assms True by (auto simp: nsipc_recv_def page_reads sint_c_int)
next
  case False
  then show ?thesis using assms by (auto simp: nsipc_recv_def page_reads sint_c_int)
qed

lemma nsipc_accept_answers:
  assumes "c_int sk" and call: "lwip_accept lw sk (nstack s) = (r, addr, alen, st)" and "length addr = 16" "alen \<le> 16"
  shows "\<exists>m. nsipc_accept lw sk s = Some (r, if 0 \<le> r then take (unat alen) addr else [], s\<lparr>nsbuf := m, nstack := st\<rparr>)"
proof -
  have l: "unat alen \<le> 16" using assms(4) by (simp add: word_le_nat_alt)
  have "page_bytes_at (overlay 0 addr m) 0 (unat alen) = take (unat alen) addr" for m
    using l assms(3) by (intro nth_equalityI) (simp_all add: page_bytes_at_def overlay_def)
  with l assms show ?thesis by (auto simp: nsipc_accept_def page_reads sint_c_int)
qed

section \<open>Descriptors of sockets\<close>

definition sock_fd :: "int \<Rightarrow> int \<Rightarrow> 'a umem_scheme \<Rightarrow> bool" where
  "sock_fd fdnum sockid s \<longleftrightarrow> 0 \<le> fdnum \<and> fdnum < int MAXFD \<and> 0 \<le> sockid \<and> c_int sockid \<and> mapped_at (INDEX2FD fdnum) s \<and>
     uld32 (INDEX2FD fdnum) s = Some DEV_SOCK \<and> uld32 (INDEX2FD fdnum + 8) s = Some SOCK_RDWR \<and>
     uld32 (INDEX2FD fdnum + 12) s = Some (of_int sockid)"

lemma sock_fd_id: "sock_fd fdnum sid s \<Longrightarrow> fd2sockid fdnum s = Some sid \<and> 0 \<le> sid \<and> c_int sid"
  by (simp add: sock_fd_def fd2sockid_def fd_lookup_def sint_c_int)

lemma sock_fd_stable [simp]: "sock_fd fdnum sid (s\<lparr>nsbuf := m, nstack := st\<rparr>) = sock_fd fdnum sid s"
  by (simp add: sock_fd_def mapped_at_def uld32_def cong: option.case_cong)

lemma devsock_lookup: "dev_lookup (devsock lw # devtab) DEV_SOCK = (0, Some (devsock lw))"
  by (simp add: dev_lookup_def devsock_def)

lemma sock_fd_write: "sock_fd fdnum sid s \<Longrightarrow> length bs < 2 ^ 31 \<Longrightarrow>
  fd_write (devsock lw # devtab) fdnum bs s = nsipc_send lw sid bs (int (length bs)) 0 s"
  by (simp add: fd_write_def fd_open_def fd_lookup_def sock_fd_def devsock_lookup devsock_write_def sint_c_int
      signed_of_nat signed_take_bit_int_eq_self) (simp add: devsock_def devsock_write_def sint_c_int signed_of_nat signed_take_bit_int_eq_self)

lemma sock_fd_read: "sock_fd fdnum sid s \<Longrightarrow> n < 2 ^ 31 \<Longrightarrow>
  fd_read (devsock lw # devtab) fdnum n s = nsipc_recv lw sid (int n) 0 s"
  by (simp add: fd_read_def fd_open_def fd_lookup_def sock_fd_def devsock_lookup)
    (simp add: devsock_def devsock_read_def sint_c_int signed_of_nat signed_take_bit_int_eq_self)

section \<open>Properties\<close>

text \<open>C16: for an open socket descriptor, writing less than 1600 bytes is the stack's \<open>send\<close> of exactly these bytes on the socket of the descriptor, reading is its
  \<open>recv\<close> with the bytes it gives, and \<open>bind\<close>, \<open>connect\<close>, \<open>listen\<close> and \<open>shutdown\<close> are its calls with the arguments given: the path through the descriptor table, the
  request page and the server's thread neither changes an argument nor a result, and leaves the rest of the environment alone.\<close>

theorem socket_calls_reach_stack:
  assumes fd: "sock_fd fdnum sid s" and "length bs < 1600" "length name = 16" "c_int b" "n < 2 ^ 31"
    and recv: "lwip_recv lw sid (int n) 0 (nstack s) = (r, rbs, st)" "0 \<le> r \<longrightarrow> r \<le> int n \<and> r < 1600 \<and> length rbs = nat r"
  shows "answers (lwip_send lw sid bs 0 (nstack s)) s (fd_write (devsock lw # devtab) fdnum bs s) \<and>
    (\<exists>m. fd_read (devsock lw # devtab) fdnum n s = Some (r, if 0 \<le> r then rbs else [], s\<lparr>nsbuf := m, nstack := st\<rparr>)) \<and>
    answers (lwip_bind lw sid name 16 (nstack s)) s (sock_bind lw fdnum name 16 s) \<and>
    answers (lwip_connect lw sid name 16 (nstack s)) s (connect lw fdnum name 16 s) \<and>
    answers (lwip_listen lw sid b (nstack s)) s (listen lw fdnum b s) \<and>
    answers (lwip_shutdown lw sid b (nstack s)) s (shutdown lw fdnum b s)"
proof -
  have i: "fd2sockid fdnum s = Some sid" "0 \<le> sid" "c_int sid" using sock_fd_id [OF fd] by simp_all
  have n: "c_int (int n)" using assms(5) by (simp add: c_int_def)
  show ?thesis
    using sock_fd_write [OF fd, of bs lw devtab] sock_fd_read [OF fd assms(5), of lw devtab] nsipc_send_answers [OF i(3) assms(2), of lw 0 s] assms(2)
      nsipc_recv_answers [OF i(3) n recv(1)] recv(2) nsipc_bind_answers [OF assms(3) i(3), of lw s] nsipc_connect_answers [OF assms(3) i(3), of lw s]
      nsipc_listen_answers [OF i(3) assms(4), of lw s] nsipc_shutdown_answers [OF i(3) assms(4), of lw s] i
    by (simp add: sock_bind_def connect_def listen_def shutdown_def)
qed

text \<open>Writing 1600 bytes or more to a socket stops the program.\<close>

theorem socket_write_limit:
  assumes "sock_fd fdnum sid s" "1600 \<le> length bs" "length bs < 2 ^ 31"
  shows "fd_write (devsock lw # devtab) fdnum bs s = None"
  using sock_fd_write [OF assms(1,3)] assms(2) by (simp add: nsipc_send_def Let_def)

lemma alloc_sockfd_spec:
  fixes s :: "('n, 'a) sworld_scheme"
  assumes "frames_ok s" "0 \<le> sid" "c_int sid"
  shows "\<exists>r s1. alloc_sockfd lw sid s = Some (r, s1) \<and>
    (r < 0 \<and> nstack s1 = snd (lwip_close lw sid (nstack s)) \<and> upt s1 = upt s \<and> ufree s1 = ufree s \<or>
     sock_fd r sid s1 \<and> nstack s1 = nstack s \<and> \<not> mapped_at (INDEX2FD r) s \<and> (\<forall>j < r. 0 \<le> j \<longrightarrow> mapped_at (INDEX2FD j) s))"
proof (cases s rule: fd_alloc_cases)
  case full
  from nsipc_close_answers [OF assms(3), of lw s] obtain m where
    "nsipc_close lw sid s = Some (fst (lwip_close lw sid (nstack s)), s\<lparr>nsbuf := m, nstack := snd (lwip_close lw sid (nstack s))\<rparr>)"
    by (auto simp: answers_def)
  with full show ?thesis by (simp add: alloc_sockfd_def)
next
  case (found i)
  have v: "upt s (vpn (INDEX2FD (int i))) = None" using found(3) by (simp add: mapped_at_def)
  show ?thesis
  proof (cases rule: u_page_alloc_cases [OF v assms(1), where perm = PIPE_PERM])
    case (1 r k)
    from nsipc_close_answers [OF assms(3), of lw "s\<lparr>krets := k\<rparr>"] obtain m where
      "nsipc_close lw sid (s\<lparr>krets := k\<rparr>) =
        Some (fst (lwip_close lw sid (nstack s)), s\<lparr>krets := k, nsbuf := m, nstack := snd (lwip_close lw sid (nstack s))\<rparr>)"
      by (auto simp: answers_def)
    with 1 found(1) show ?thesis by (simp add: alloc_sockfd_def)
  next
    case (2 k)
    define f where "f = hd (ufree s)"
    define s0 where "s0 = alloc_at (0xD0000 + i) PIPE_PERM (s\<lparr>krets := k\<rparr>)"
    have p: "upt s0 (0xD0000 + i) = Some \<lparr>pg_frame = f, pg_perm = PIPE_PERM\<rparr>" by (simp add: s0_def alloc_at_simps f_def)
    have z: "INDEX2FD (int i) mod PGSIZE = 0" using vpn_fd(3) [OF found(2), of 0] by simp
    define s1 where "s1 = s0\<lparr>uframe := (uframe s0)(f := wr32 (wr32 (wr32 (uframe s0 f) 0 DEV_SOCK) 8 SOCK_RDWR) 12 (of_int sid))\<rparr>"
    have a: "u_page_alloc (INDEX2FD (int i)) PIPE_PERM s = (0, s0)" using 2(1) found(2) unfolding s0_def by (simp only: vpn_fd(1))
    have "alloc_sockfd lw sid s = Some (int i, s1)"
      using found(1,2) a p z by (simp add: alloc_sockfd_def vpn_fd ust32_def s1_def fd2num_INDEX)
    moreover have "sock_fd (int i) sid s1"
      using found(2) p z assms by (simp add: sock_fd_def mapped_at_def vpn_fd uld32_def s1_def rd32_wr32_other)
    moreover have "nstack s1 = nstack s" by (simp add: s1_def s0_def alloc_at_def)
    moreover have "mapped_at (INDEX2FD j) s" if "j < int i" "0 \<le> j" for j
      using found(4) that by (metis nonneg_int_cases of_nat_less_iff)
    ultimately show ?thesis using found(3) by blast
  qed
qed

text \<open>A connection that was accepted is closed again in the same way.\<close>

lemma accept_spec:
  fixes s :: "('n, 'a) sworld_scheme"
  assumes "sock_fd fdnum lid s" "frames_ok s"
    and call: "lwip_accept lw lid (nstack s) = (sid, addr, alen, st)" "c_int sid" "0 \<le> sid" "length addr = 16" "alen \<le> 16"
  shows "\<exists>r s1. accept lw fdnum s = Some (r, take (unat alen) addr, s1) \<and>
    (r < 0 \<and> nstack s1 = snd (lwip_close lw sid st) \<and> upt s1 = upt s \<and> ufree s1 = ufree s \<or>
     sock_fd r sid s1 \<and> nstack s1 = st \<and> \<not> mapped_at (INDEX2FD r) s \<and> (\<forall>j < r. 0 \<le> j \<longrightarrow> mapped_at (INDEX2FD j) s))"
proof -
  have i: "fd2sockid fdnum s = Some lid" "0 \<le> lid" "c_int lid" using sock_fd_id [OF assms(1)] by simp_all
  from nsipc_accept_answers [OF i(3) call(1,4,5)] obtain m where
    m: "nsipc_accept lw lid s = Some (sid, take (unat alen) addr, s\<lparr>nsbuf := m, nstack := st\<rparr>)" using call(3) by auto
  have f: "frames_ok (s\<lparr>nsbuf := m, nstack := st\<rparr>)" using assms(2) by (simp add: frames_ok_def)
  from alloc_sockfd_spec [OF f call(3,2), of lw] i m call(3) show ?thesis by (auto simp: accept_def mapped_at_def)
qed

text \<open>C35: \<open>socket\<close> does not leak: when the stack has given a socket and there is no descriptor or no memory for it, the socket is closed again,
  and otherwise the lowest unused descriptor is one of this socket.\<close>

theorem socket_not_leaked:
  fixes s :: "('n, 'a) sworld_scheme"
  assumes "frames_ok s" "c_int d" "c_int t" "c_int p"
    and call: "lwip_socket lw d t p (nstack s) = (sid, st)" "c_int sid"
  shows "\<exists>r s1. socket lw d t p s = Some (r, s1) \<and>
    (if sid < 0 then r = sid \<and> nstack s1 = st
     else r < 0 \<and> nstack s1 = snd (lwip_close lw sid st) \<and> upt s1 = upt s \<and> ufree s1 = ufree s \<or>
       sock_fd r sid s1 \<and> nstack s1 = st \<and> \<not> mapped_at (INDEX2FD r) s \<and> (\<forall>j < r. 0 \<le> j \<longrightarrow> mapped_at (INDEX2FD j) s))"
proof -
  from nsipc_socket_answers [OF assms(2-4), of lw s] call obtain m where
    m: "nsipc_socket lw d t p s = Some (sid, s\<lparr>nsbuf := m, nstack := st\<rparr>)" by (auto simp: answers_def)
  have f: "frames_ok (s\<lparr>nsbuf := m, nstack := st\<rparr>)" using assms(1) by (simp add: frames_ok_def)
  show ?thesis
  proof (cases "sid < 0")
    case True
    with m show ?thesis by (simp add: socket_def)
  next
    case False
    from alloc_sockfd_spec [OF f _ call(2), of lw] False m show ?thesis by (simp add: socket_def mapped_at_def)
  qed
qed

text \<open>Closing a descriptor of a socket unmaps it, and closes the socket exactly when no other descriptor, of this or another environment, shares it.\<close>

theorem last_close_closes_socket:
  fixes s :: "('n, 'a) sworld_scheme"
  assumes "sock_fd (int i) sid s"
  shows "if pageref (INDEX2FD (int i)) s = 1
    then answers (fst (lwip_close lw sid (nstack s)), snd (lwip_close lw sid (nstack s))) (u_page_unmap (INDEX2FD (int i)) s)
      (close (devsock lw # devtab) (int i) s)
    else close (devsock lw # devtab) (int i) s = Some (0, u_page_unmap (INDEX2FD (int i)) s)"
proof -
  have i: "i < MAXFD" "c_int sid" using assms by (simp_all add: sock_fd_def)
  have z: "INDEX2FD (int i) mod PGSIZE = 0" using vpn_fd(3) [OF i(1), of 0] by simp
  from assms obtain p where p: "upt s (0xD0000 + i) = Some p" "rd32 (uframe s (pg_frame p)) 0 = DEV_SOCK"
    using z i(1) by (auto simp: sock_fd_def mapped_at_def uld32_def vpn_fd split: option.splits)
  have c: "close (devsock lw # devtab) (int i) s = Some (r, u_page_unmap (INDEX2FD (int i)) s1)"
    if "devsock_close lw (INDEX2FD (int i)) s = Some (r, s1)" for r s1
    by (rule fd_close_at [OF i(1) p(1), where dev = "devsock lw" and f = "devsock_close lw"])
      (use that p in \<open>simp_all only: devsock_lookup\<close>, simp_all add: devsock_def)
  have u: "u_page_unmap va (s\<lparr>nsbuf := m, nstack := st\<rparr>) = (u_page_unmap va s)\<lparr>nsbuf := m, nstack := st\<rparr>" for va m st
    by (simp add: u_page_unmap_def unmap_vpn_def Let_def split: option.split)
  from nsipc_close_answers [OF i(2), of lw s] obtain m where
    "nsipc_close lw sid s = Some (fst (lwip_close lw sid (nstack s)), s\<lparr>nsbuf := m, nstack := snd (lwip_close lw sid (nstack s))\<rparr>)"
    by (auto simp: answers_def)
  then show ?thesis using c assms by (auto simp: devsock_close_def sock_fd_def sint_c_int u intro!: answersI)
qed

subsection \<open>Examples\<close>

text \<open>A stack with one socket, number 3, whose state is the bytes sent so far, which it gives back to the receiver, and whether the socket is open.\<close>

definition echo_lwip :: "(u8 list \<times> bool) lwip" where
  "echo_lwip = \<lparr>lwip_accept = \<lambda>_ st. (- 1, [], 0, st), lwip_bind = \<lambda>_ _ _ st. (0, st), lwip_shutdown = \<lambda>_ _ st. (0, st),
     lwip_close = \<lambda>_ st. (0, (fst st, False)), lwip_connect = \<lambda>_ _ _ st. (0, st), lwip_listen = \<lambda>_ _ st. (0, st),
     lwip_recv = \<lambda>_ n _ st. (min n (int (length (fst st))), take (nat n) (fst st), (drop (nat n) (fst st), snd st)),
     lwip_send = \<lambda>_ bs _ st. (int (length bs), (fst st @ bs, snd st)),
     lwip_socket = \<lambda>_ _ _ st. (3, (fst st, True)), pbuf_alloc = \<lambda>n st. (None, st), pbuf_header = \<lambda>p n. p, pbuf_free = \<lambda>p st. st,
     etharp_ip_input = \<lambda>p st. st, etharp_arp_input = \<lambda>p st. st, netif_input = \<lambda>p st. st\<rparr>"

definition blank_sworld :: "(u8 list \<times> bool) sworld" where
  "blank_sworld = \<lparr>upt = (\<lambda>_. None), uframe = (\<lambda>_ _. 0), uref = (\<lambda>_. 0), ufree = [3, 4, 5, 6], krets = [], nsbuf = (\<lambda>_. 0), nstack = ([8, 9], True)\<rparr>"

definition one_sock :: "(u8 list \<times> bool) sworld" where
  "one_sock = blank_sworld\<lparr>upt := (\<lambda>_. None)(0xD0001 := Some \<lparr>pg_frame = 9, pg_perm = 0x407\<rparr>), uref := (\<lambda>_. 0)(9 := 1),
     uframe := (\<lambda>_. wr32 (wr32 (wr32 (\<lambda>_. 0) 0 DEV_SOCK) 8 SOCK_RDWR) 12 3)\<rparr>"

lemma INDEX2FD_1: "INDEX2FD 1 = 0xD0001000"
  by (simp add: INDEX2FD_def)

lemma one_sock_fd: "sock_fd 1 3 one_sock" "pageref (INDEX2FD 1) one_sock = 1"
  by (simp_all add: sock_fd_def INDEX2FD_1 one_sock_def mapped_at_def uld32_def vpn_def rd32_wr32_other c_int_def pageref_def)

theorem socket_calls_reach_stack_witness:
  "answers (2, ([8, 9, 1, 2], True)) one_sock (fd_write [devsock echo_lwip] 1 [1, 2] one_sock) \<and>
   (\<exists>m. fd_read [devsock echo_lwip] 1 1 one_sock = Some (1, [8], one_sock\<lparr>nsbuf := m, nstack := ([9], True)\<rparr>))"
  using socket_calls_reach_stack [OF one_sock_fd(1), of "[1, 2]" "replicate 16 0" 5 1 echo_lwip 1 "[8]" "([9], True)" "[]"]
  by (simp add: echo_lwip_def one_sock_def blank_sworld_def c_int_def)

theorem socket_write_limit_witness: "fd_write [devsock echo_lwip] 1 (replicate 1600 0) one_sock = None"
  using socket_write_limit [OF one_sock_fd(1), of "replicate 1600 0" echo_lwip "[]"] by simp

theorem socket_not_leaked_witness:
  "\<exists>r s1. socket echo_lwip 2 1 0 blank_sworld = Some (r, s1) \<and>
    (r < 0 \<and> nstack s1 = ([8, 9], False) \<or> sock_fd r 3 s1 \<and> nstack s1 = ([8, 9], True))"
proof -
  have "lwip_socket echo_lwip 2 1 0 (nstack blank_sworld) = (3, ([8, 9], True))" "frames_ok blank_sworld"
    by (simp_all add: echo_lwip_def blank_sworld_def frames_ok_def)
  with socket_not_leaked [of blank_sworld 2 1 0 echo_lwip 3 "([8, 9], True)"] show ?thesis
    by (fastforce simp: c_int_def echo_lwip_def)
qed

theorem last_close_closes_socket_witness:
  "answers (0, ([8, 9], False)) (u_page_unmap (INDEX2FD 1) one_sock) (close [devsock echo_lwip] 1 one_sock)"
  using last_close_closes_socket [of 1 3 one_sock echo_lwip "[]"] one_sock_fd by (simp add: echo_lwip_def one_sock_def blank_sworld_def)

end
