(* ===== verification/User_Httpd.thy ===== *)
theory User_Httpd
  imports Lib_Sock Lib_Printfmt
begin

text \<open>
  The web server, \<^verbatim>\<open>user/httpd.c\<close>, over the sockets of \<open>Lib_Sock\<close>, the descriptors of \<open>Lib_Fd\<close> and the formatted output of \<open>Lib_Printfmt\<close>.

  What a program gets from the rest of the system is the record \<open>hsys\<close>: the table of devices, \<open>open\<close>, and \<open>malloc\<close> and \<open>free\<close> with the addresses of
  blocks.  The contents of local variables that are not initialised are arguments.  \<open>None\<close> means that the program stops: by \<open>panic\<close>, by \<open>die\<close> or by an access
  outside of its variables.
\<close>

record 's hsys =
  h_devtab :: "'s dev list"
  h_open :: "u8 list \<Rightarrow> u32 \<Rightarrow> 's \<Rightarrow> (int \<times> 's) option"
  h_malloc :: "nat \<Rightarrow> 's \<Rightarrow> nat \<times> 's"
  h_free :: "nat \<Rightarrow> 's \<Rightarrow> 's option"

text \<open>The strings of a request are blocks: the address and the text.\<close>

record http_request =
  sock :: int
  url :: "nat \<times> u8 list"
  version :: "nat \<times> u8 list"

abbreviation E_BAD_REQ :: int where "E_BAD_REQ \<equiv> 1000"
abbreviation BUFFSIZE :: nat where "BUFFSIZE \<equiv> 512"
abbreviation E1000_TXD_BUFFER_LENGTH :: nat where "E1000_TXD_BUFFER_LENGTH \<equiv> 1518"

definition crlf :: "u8 list" where
  "crlf = [0x0D, 0x0A]"

definition headers :: "(int \<times> u8 list) list" where
  "headers = [(200, bytes_of ''HTTP/1.0 200 OK'' @ crlf @ bytes_of ''Server: jhttpd/0.1'' @ crlf)]"

definition errors :: "(int \<times> u8 list) list" where
  "errors = [(400, bytes_of ''Bad Request''), (404, bytes_of ''Not Found'')]"

section \<open>Answers\<close>

definition send_header :: "('n, 'a) sworld_scheme hsys \<Rightarrow> http_request \<Rightarrow> int \<Rightarrow> ('n, 'a) sworld_scheme \<Rightarrow> (int \<times> ('n, 'a) sworld_scheme) option" where
  "send_header h rq code s =
     (case find (\<lambda>x. fst x = code) headers of
        None \<Rightarrow> Some (- 1, s)
      | Some (_, hdr) \<Rightarrow> do {
          (r, s1) \<leftarrow> fd_write (h_devtab h) (sock rq) hdr s;
          if r \<noteq> int (length hdr) then None else Some (0, s1) })"

definition send_data :: "('n, 'a) sworld_scheme hsys \<Rightarrow> http_request \<Rightarrow> int \<Rightarrow> ('n, 'a) sworld_scheme \<Rightarrow> (int \<times> ('n, 'a) sworld_scheme) option" where
  "send_data h rq fd s = do {
     (_, s1) \<leftarrow> seek fd 0 s;
     (sz, buf, s2) \<leftarrow> readn (h_devtab h) fd E1000_TXD_BUFFER_LENGTH s1;
     if sz \<le> 0 then None
     else do {
       (sz1, s3) \<leftarrow> fd_write (h_devtab h) (sock rq) (take (nat sz) buf) s2;
       if sz1 \<le> 0 then None else Some (sz1, s3) } }"

text \<open>A buffer of \<open>n\<close> bytes is printed and the number of characters that \<open>snprintf\<close> reports is sent; more than the buffer holds would be read
  behind it.\<close>

definition send_fmt :: "('n, 'a) sworld_scheme hsys \<Rightarrow> http_request \<Rightarrow> int \<Rightarrow> u8 list \<Rightarrow> parg list \<Rightarrow> ('n, 'a) sworld_scheme \<Rightarrow> (int \<times> ('n, 'a) sworld_scheme) option" where
  "send_fmt h rq n fmt args s = do {
     (r, m) \<leftarrow> vsnprintf (Some 0) n fmt args (\<lambda>_. 0);
     if r > n - 1 then None
     else do {
       (w, s1) \<leftarrow> fd_write (h_devtab h) (sock rq) (page_bytes_at m 0 (nat r)) s;
       if w \<noteq> r then Some (- 1, s1) else Some (0, s1) } }"

definition send_size :: "('n, 'a) sworld_scheme hsys \<Rightarrow> http_request \<Rightarrow> int \<Rightarrow> ('n, 'a) sworld_scheme \<Rightarrow> (int \<times> ('n, 'a) sworld_scheme) option" where
  "send_size h rq sz s = send_fmt h rq 64 (bytes_of ''Content-Length: %ld'' @ crlf) [ANum (of_int sz)] s"

definition mime_type :: "u8 list \<Rightarrow> u8 list" where
  "mime_type file = bytes_of ''text/html''"

definition send_content_type :: "('n, 'a) sworld_scheme hsys \<Rightarrow> http_request \<Rightarrow> ('n, 'a) sworld_scheme \<Rightarrow> (int \<times> ('n, 'a) sworld_scheme) option" where
  "send_content_type h rq s =
     send_fmt h rq 128 (bytes_of ''Content-Type: %s'' @ crlf) [AStr (Some (mime_type (snd (url rq))))] s"

definition send_header_fin :: "('n, 'a) sworld_scheme hsys \<Rightarrow> http_request \<Rightarrow> ('n, 'a) sworld_scheme \<Rightarrow> (int \<times> ('n, 'a) sworld_scheme) option" where
  "send_header_fin h rq s = do {
     (w, s1) \<leftarrow> fd_write (h_devtab h) (sock rq) crlf s;
     if w \<noteq> 2 then Some (- 1, s1) else Some (0, s1) }"

text \<open>The table of messages has no last entry, so a code that is not in it would be searched for behind it.\<close>

definition error_fmt :: "u8 list" where
  "error_fmt = bytes_of ''HTTP/1.0 %d %s'' @ crlf @ bytes_of ''Server: jhttpd/0.1'' @ crlf @ bytes_of ''Connection: closeContent-type: text/html'' @ crlf @ crlf @
     bytes_of ''<html><body><p>%d - %s</p></body></html>'' @ crlf"

definition send_error :: "('n, 'a) sworld_scheme hsys \<Rightarrow> http_request \<Rightarrow> int \<Rightarrow> ('n, 'a) sworld_scheme \<Rightarrow> (int \<times> ('n, 'a) sworld_scheme) option" where
  "send_error h rq code s =
     (case find (\<lambda>x. fst x = code) errors of
        None \<Rightarrow> None
      | Some (c, msg) \<Rightarrow> send_fmt h rq 512 error_fmt [ANum (of_int c), AStr (Some msg), ANum (of_int c), AStr (Some msg)] s)"

section \<open>Requests\<close>

text \<open>The characters up to \<open>c\<close> or the end of the string; \<open>None\<close> runs out of the buffer.\<close>

fun scan_to :: "u8 \<Rightarrow> u8 list \<Rightarrow> (u8 list \<times> u8 list) option" where
  "scan_to c [] = None"
| "scan_to c (x # xs) =
     (if x \<noteq> 0 \<and> x \<noteq> c then map_option (\<lambda>(ys, zs). (x # ys, zs)) (scan_to c xs) else Some ([], x # xs))"

text \<open>A copy of a string on the heap.\<close>

definition heap_copy :: "'s hsys \<Rightarrow> u8 list \<Rightarrow> 's \<Rightarrow> ((nat \<times> u8 list) \<times> 's) option" where
  "heap_copy h bs s = (case h_malloc h (length bs + 1) s of (p, s1) \<Rightarrow> if p = 0 then None else Some ((p, bs), s1))"

definition http_request_parse :: "'s hsys \<Rightarrow> http_request \<Rightarrow> u8 list \<Rightarrow> 's \<Rightarrow> (int \<times> http_request \<times> 's) option" where
  "http_request_parse h rq request s =
     (if take 4 request \<noteq> bytes_of ''GET '' then Some (- E_BAD_REQ, rq, s)
      else do {
        (u, rest) \<leftarrow> scan_to 0x20 (drop 4 request);
        (pu, s1) \<leftarrow> heap_copy h u s;
        (v, _) \<leftarrow> scan_to 0x0A (tl rest);
        (pv, s2) \<leftarrow> heap_copy h v s1;
        Some (0, rq\<lparr>url := pu, version := pv\<rparr>, s2) })"

definition req_free :: "'s hsys \<Rightarrow> http_request \<Rightarrow> 's \<Rightarrow> 's option" where
  "req_free h rq s = do { s1 \<leftarrow> h_free h (fst (url rq)) s; h_free h (fst (version rq)) s1 }"

text \<open>The result of \<open>send_file\<close> is not initialised when \<open>fstat\<close> fails; its caller ignores it.\<close>

definition send_file :: "('n, 'a) sworld_scheme hsys \<Rightarrow> http_request \<Rightarrow> fstat_buf \<Rightarrow> ('n, 'a) sworld_scheme \<Rightarrow> ('n, 'a) sworld_scheme option" where
  "send_file h rq junk s = do {
     (fd, s1) \<leftarrow> h_open h (snd (url rq)) O_RDONLY s;
     let finish = (\<lambda>t. map_option snd (close (h_devtab h) fd t));
     (r, st, s2) \<leftarrow> fstat (h_devtab h) fd junk s1;
     if r \<noteq> 0 then finish s2
     else do {
       s3 \<leftarrow> (if fd < 0 then map_option snd (send_error h rq 404 s2) else Some s2);
       s4 \<leftarrow> (if st_isdir st then map_option snd (send_error h rq 404 s3) else Some s3);
       (r1, s5) \<leftarrow> send_header h rq 200 s4;
       if r1 < 0 then finish s5
       else do {
         (r2, s6) \<leftarrow> send_size h rq (st_size st) s5;
         if r2 < 0 then finish s6
         else do {
           (r3, s7) \<leftarrow> send_content_type h rq s6;
           if r3 < 0 then finish s7
           else do {
             (r4, s8) \<leftarrow> send_header_fin h rq s7;
             if r4 < 0 then finish s8 else do { (r5, s9) \<leftarrow> send_data h rq fd s8; finish s9 } } } } } }"

text \<open>\<open>con_d\<close> and \<open>buffer\<close> are what the variables held before; \<open>memset\<close> clears only the first eight bytes of the request, the socket.\<close>

definition handle_client :: "('n, 'a) sworld_scheme hsys \<Rightarrow> http_request \<Rightarrow> u8 list \<Rightarrow> fstat_buf \<Rightarrow> int \<Rightarrow> ('n, 'a) sworld_scheme \<Rightarrow> ('n, 'a) sworld_scheme option" where
  "handle_client h con_d buffer junk sk s = do {
     (received, bs, s1) \<leftarrow> fd_read (h_devtab h) sk BUFFSIZE s;
     if received < 0 then None
     else do {
       (r, rq, s2) \<leftarrow> http_request_parse h (con_d\<lparr>sock := sk\<rparr>) (bs @ drop (length bs) buffer) s1;
       s3 \<leftarrow> (if r = - E_BAD_REQ then map_option snd (send_error h rq 400 s2)
               else if r < 0 then None
               else send_file h rq junk s2);
       s4 \<leftarrow> req_free h rq s3;
       map_option snd (close (h_devtab h) sk s4) } }"

text \<open>\<open>umain\<close>: the socket of the server, bound to port 80 of every address (a \<open>sockaddr_in\<close> of 16 bytes), and one round of its loop.\<close>

definition server_addr :: "u8 list" where
  "server_addr = [0, 2, 0, 80] @ replicate 12 0"

definition httpd_start :: "'n lwip \<Rightarrow> ('n, 'a) sworld_scheme \<Rightarrow> (int \<times> ('n, 'a) sworld_scheme) option" where
  "httpd_start lw s = do {
     (sk, s1) \<leftarrow> socket lw 2 1 6 s;
     if sk < 0 then None
     else do {
       (r, s2) \<leftarrow> sock_bind lw sk server_addr 16 s1;
       if r < 0 then None
       else do {
         (r1, s3) \<leftarrow> listen lw sk 5 s2;
         if r1 < 0 then None else Some (sk, s3) } } }"

definition httpd_round :: "'n lwip \<Rightarrow> ('n, 'a) sworld_scheme hsys \<Rightarrow> http_request \<Rightarrow> u8 list \<Rightarrow> fstat_buf \<Rightarrow> int \<Rightarrow> ('n, 'a) sworld_scheme \<Rightarrow>
    ('n, 'a) sworld_scheme option" where
  "httpd_round lw h con_d buffer junk sk s = do {
     (c, _, s1) \<leftarrow> accept lw sk s;
     if c < 0 then None else handle_client h con_d buffer junk c s1 }"

section \<open>The texts\<close>

lemma bytes_round_trip [simp]: "map (\<lambda>x. ucast (ucast x :: u32)) (bs :: u8 list) = bs" "map (\<lambda>x. ucast (scast x :: u32)) (bs :: u8 list) = bs"
proof -
  have "ucast (ucast x :: u32) = x" "ucast (scast x :: u32) = x" for x :: u8
    by (rule bit_word_eqI, auto simp: bit_simps)+
  then show "map (\<lambda>x. ucast (ucast x :: u32)) bs = bs" "map (\<lambda>x. ucast (scast x :: u32)) bs = bs" by simp_all
qed

lemma vprintfmt_s:
  "vprintfmt ([0x25, 0x73] @ rest) (AStr (Some t) # args) = map_option ((@) (map scast t)) (vprintfmt rest args)"
proof -
  have "reswitch spec0 (0x73 # rest) (AStr (Some t) # args) = Some (spec0, Some 0x73, rest, AStr (Some t) # args)"
    by (simp add: reswitch.simps is_dec_def)
  moreover have "convert spec0 0x73 (AStr (Some t) # args) = Some (Some (map scast t, args))"
    by (simp add: convert_def next_str_def putstr_def spec0_def)
  ultimately show ?thesis by (simp add: vprintfmt.simps(2) [of "0x25"] map_option_case split: option.split)
qed

lemma vprintfmt_ld: "vprintfmt ([0x25, 0x6C, 0x64] @ rest) (ANum v # args) = map_option ((@) (put_signed v)) (vprintfmt rest args)"
proof -
  have "reswitch spec0 (0x6C # 0x64 # rest) (ANum v # args) = Some (spec0\<lparr>sp_lflag := 1\<rparr>, Some 0x64, rest, ANum v # args)"
    by (simp add: reswitch.simps is_dec_def spec0_def)
  moreover have "convert (spec0\<lparr>sp_lflag := 1\<rparr>) 0x64 (ANum v # args) = Some (Some (put_signed v, args))"
    by (simp add: convert_def getint_def next_num_def put_signed_def printnum_eq spec0_def)
  ultimately show ?thesis by (simp add: vprintfmt.simps(2) [of "0x25"] map_option_case split: option.split)
qed

lemma bytes_of_append: "bytes_of (a @ b) = bytes_of a @ bytes_of b"
  by (simp add: bytes_of_def)

definition decimal :: "int \<Rightarrow> u8 list" where
  "decimal n = map ucast (put_signed (of_int n))"

definition size_text :: "int \<Rightarrow> u8 list" where
  "size_text n = bytes_of ''Content-Length: '' @ decimal n @ crlf"

definition type_text :: "u8 list" where
  "type_text = bytes_of ''Content-Type: text/html'' @ crlf"

definition error_text :: "int \<Rightarrow> u8 list \<Rightarrow> u8 list" where
  "error_text c msg = bytes_of ''HTTP/1.0 '' @ decimal c @ bytes_of '' '' @ msg @ crlf @ bytes_of ''Server: jhttpd/0.1'' @ crlf @
     bytes_of ''Connection: closeContent-type: text/html'' @ crlf @ crlf @
     bytes_of ''<html><body><p>'' @ decimal c @ bytes_of '' - '' @ msg @ bytes_of ''</p></body></html>'' @ crlf"

lemma size_format:
  "\<exists>out. vprintfmt (bytes_of ''Content-Length: %ld'' @ crlf) [ANum (of_int n)] = Some out \<and> map ucast out = size_text n \<and> length out \<le> 39"
proof -
  have f: "bytes_of ''Content-Length: %ld'' @ crlf = bytes_of ''Content-Length: '' @ [0x25, 0x6C, 0x64] @ crlf @ []"
    by (simp add: bytes_of_def)
  have t: "0x25 \<notin> set (bytes_of ''Content-Length: '')" "0x25 \<notin> set crlf" by (simp_all add: bytes_of_def crlf_def)
  have l: "length (bytes_of ''Content-Length: '') = 16" "length crlf = 2" by (simp_all add: bytes_of_def crlf_def)
  show ?thesis unfolding f vprintfmt_text [OF t(1)] vprintfmt_ld vprintfmt_text [OF t(2)]
    using put_signed_length [of "of_int n"] l by (simp add: size_text_def decimal_def comp_def)
qed

lemma type_format:
  "\<exists>out. vprintfmt (bytes_of ''Content-Type: %s'' @ crlf) [AStr (Some (mime_type f))] = Some out \<and> map ucast out = type_text \<and> length out \<le> 25"
proof -
  have f: "bytes_of ''Content-Type: %s'' @ crlf = bytes_of ''Content-Type: '' @ [0x25, 0x73] @ crlf @ []"
    by (simp add: bytes_of_def)
  have t: "0x25 \<notin> set (bytes_of ''Content-Type: '')" "0x25 \<notin> set crlf" by (simp_all add: bytes_of_def crlf_def)
  have l: "length (bytes_of ''Content-Type: '') = 14" "length crlf = 2" "length (bytes_of ''text/html'') = 9" by (simp_all add: bytes_of_def crlf_def)
  show ?thesis unfolding f vprintfmt_text [OF t(1)] vprintfmt_s vprintfmt_text [OF t(2)] mime_type_def
    using l by (simp add: type_text_def comp_def) (simp add: bytes_of_def)
qed

lemma error_format:
  assumes "length msg \<le> 20"
  shows "\<exists>out. vprintfmt error_fmt [ANum (of_int c), AStr (Some msg), ANum (of_int c), AStr (Some msg)] = Some out \<and>
    map ucast out = error_text c msg \<and> length out < 511"
proof -
  define a where "a = bytes_of ''HTTP/1.0 ''"
  define b where "b = bytes_of '' ''"
  define d where "d = crlf @ bytes_of ''Server: jhttpd/0.1'' @ crlf @ bytes_of ''Connection: closeContent-type: text/html'' @ crlf @ crlf @ bytes_of ''<html><body><p>''"
  define e where "e = bytes_of '' - ''"
  define g where "g = bytes_of ''</p></body></html>'' @ crlf"
  have f: "error_fmt = a @ fmt_d @ b @ [0x25, 0x73] @ d @ fmt_d @ e @ [0x25, 0x73] @ g @ []"
    by (simp add: error_fmt_def a_def b_def d_def e_def g_def bytes_of_def)
  have t: "0x25 \<notin> set a" "0x25 \<notin> set b" "0x25 \<notin> set d" "0x25 \<notin> set e" "0x25 \<notin> set g"
    by (simp_all add: a_def b_def d_def e_def g_def bytes_of_def crlf_def)
  have l: "length a + length b + length d + length e + length g \<le> 200" by (simp add: a_def b_def d_def e_def g_def bytes_of_def crlf_def)
  show ?thesis unfolding f vprintfmt_text [OF t(1)] vprintfmt_d vprintfmt_text [OF t(2)] vprintfmt_s vprintfmt_text [OF t(3)] vprintfmt_text [OF t(4)] vprintfmt_text [OF t(5)]
    using put_signed_length [of "of_int c"] l assms
    by (simp add: error_text_def decimal_def comp_def a_def [symmetric] b_def [symmetric] e_def [symmetric]) (simp add: d_def g_def)
qed

section \<open>Answers reach the client\<close>

text \<open>A stack whose \<open>send\<close> takes all bytes: \<open>sent\<close> is what the client of the socket has been sent.\<close>

definition sends_all :: "'n lwip \<Rightarrow> int \<Rightarrow> ('n \<Rightarrow> u8 list) \<Rightarrow> bool" where
  "sends_all lw sid sent \<longleftrightarrow> (\<forall>bs st. length bs < 1600 \<longrightarrow>
     fst (lwip_send lw sid bs 0 st) = int (length bs) \<and> sent (snd (lwip_send lw sid bs 0 st)) = sent st @ bs)"

definition delivers :: "('n \<Rightarrow> u8 list) \<Rightarrow> u8 list \<Rightarrow> ('n, 'a) sworld_scheme \<Rightarrow> int \<Rightarrow> (int \<times> ('n, 'a) sworld_scheme) option \<Rightarrow> bool" where
  "delivers sent bs s r x \<longleftrightarrow> (\<exists>m st. x = Some (r, s\<lparr>nsbuf := m, nstack := st\<rparr>) \<and> sent st = sent (nstack s) @ bs)"

lemma socket_delivers:
  assumes "sock_fd sk sid s" "sends_all lw sid sent" "length bs < 1600"
  shows "delivers sent bs s (int (length bs)) (fd_write (devsock lw # tab) sk bs s)"
proof -
  have "c_int sid" using sock_fd_id [OF assms(1)] by simp
  from nsipc_send_answers [OF this assms(3), of lw 0 s] assms show ?thesis
    by (auto simp: sock_fd_write answers_def delivers_def sends_all_def)
qed

lemma send_fmt_delivers:
  assumes "sock_fd (sock rq) sid s" "sends_all lw sid sent" "h_devtab h = devsock lw # tab"
    "vprintfmt fmt args = Some out" "int (length out) < n" "n \<le> 512"
  shows "delivers sent (map ucast out) s 0 (send_fmt h rq n fmt args s)"
proof -
  define m where "m = overlay 0 (map ucast (take (nat (n - 1)) out) @ [0]) (\<lambda>_. 0)"
  have v: "vsnprintf (Some 0) n fmt args (\<lambda>_. 0) = Some (int (length out), m)"
    unfolding m_def using assms(5,6) by (intro vsnprintf_spec [OF assms(4)]) auto
  have "page_bytes_at m 0 (length out) = map ucast out"
    using assms(5) by (intro nth_equalityI) (auto simp: page_bytes_at_def m_def overlay_def nth_append)
  with v socket_delivers [OF assms(1,2), of "map ucast out" tab] assms(3,5,6) show ?thesis
    by (force simp: send_fmt_def delivers_def)
qed

lemma delivers_state: "delivers sent bs s r x \<Longrightarrow> \<exists>m st. x = Some (r, s\<lparr>nsbuf := m, nstack := st\<rparr>) \<and> sent st = sent (nstack s) @ bs"
  by (simp add: delivers_def)

lemma delivers_result:
  assumes "delivers sent bs s r x" "\<And>s'. x = Some (r, s') \<Longrightarrow> y = Some (r', s')"
  shows "delivers sent bs s r' y"
proof -
  from delivers_state [OF assms(1)] obtain m st where "x = Some (r, s\<lparr>nsbuf := m, nstack := st\<rparr>)" "sent st = sent (nstack s) @ bs" by blast
  with assms(2) show ?thesis unfolding delivers_def by blast
qed

section \<open>Requests\<close>

lemma scan_to_word:
  assumes "0 \<notin> set u" "c \<notin> set u"
  shows "scan_to c (u @ c # rest) = Some (u, c # rest)"
  using assms by (induction u) auto

text \<open>A request \<open>GET url version\<close> gives its url and its version, each in a block of its own.\<close>

theorem request_parsed:
  assumes "0 \<notin> set u" "0x20 \<notin> set u" "0 \<notin> set v" "0x0A \<notin> set v"
    and "h_malloc h (length u + 1) s = (p, s1)" "p \<noteq> 0" "h_malloc h (length v + 1) s1 = (q, s2)" "q \<noteq> 0"
  shows "http_request_parse h rq (bytes_of ''GET '' @ u @ [0x20] @ v @ [0x0A] @ rest) s = Some (0, rq\<lparr>url := (p, u), version := (q, v)\<rparr>, s2)"
proof -
  have g: "take 4 (bytes_of ''GET '' @ xs) = bytes_of ''GET ''" "drop 4 (bytes_of ''GET '' @ xs) = xs" for xs by (simp_all add: bytes_of_def)
  show ?thesis unfolding http_request_parse_def g using assms scan_to_word [OF assms(1,2)] scan_to_word [OF assms(3,4)] by (simp add: heap_copy_def)
qed

text \<open>A request that does not begin with \<open>GET\<close> is answered with error 400, in one piece.  Then the server frees the two strings of the request, which it has not
  set: the pointers are what the variable \<open>con_d\<close> held before.\<close>

theorem bad_request_answered:
  fixes s :: "('n, 'a) sworld_scheme"
  assumes sk: "sock_fd sk sid s" and all: "sends_all lw sid sent" and tab: "h_devtab h = devsock lw # tab"
    and recv: "lwip_recv lw sid 512 0 (nstack s) = (int (length bs), bs, st0)" "length bs \<le> 512"
    and bad: "take 4 (bs @ drop (length bs) buffer) \<noteq> bytes_of ''GET ''"
  shows "\<exists>m st. sent st = sent st0 @ error_text 400 (bytes_of ''Bad Request'') \<and>
    handle_client h con_d buffer junk sk s =
      Option.bind (req_free h con_d (s\<lparr>nsbuf := m, nstack := st\<rparr>)) (\<lambda>t. map_option snd (close (h_devtab h) sk t))"
proof -
  have i: "c_int sid" using sock_fd_id [OF sk] by simp
  have "c_int 512" by (simp add: c_int_def)
  from nsipc_recv_answers [OF i this recv(1)] recv(2) obtain m0 where
    m0: "fd_read (h_devtab h) sk 512 s = Some (int (length bs), bs, s\<lparr>nsbuf := m0, nstack := st0\<rparr>)"
    unfolding tab using sock_fd_read [OF sk, of 512 lw tab] by auto
  have len: "length (bytes_of ''Bad Request'') \<le> 20" by (simp add: bytes_of_def)
  obtain out where out: "vprintfmt error_fmt [ANum (of_int 400), AStr (Some (bytes_of ''Bad Request'')), ANum (of_int 400), AStr (Some (bytes_of ''Bad Request''))] = Some out"
    "map ucast out = error_text 400 (bytes_of ''Bad Request'')" "length out < 511" using error_format [OF len, of 400] by blast
  have "sock_fd (sock (con_d\<lparr>sock := sk\<rparr>)) sid (s\<lparr>nsbuf := m0, nstack := st0\<rparr>)" using sk by simp
  from send_fmt_delivers [OF this all tab out(1), of 512] out(3) obtain m st where
    "send_fmt h (con_d\<lparr>sock := sk\<rparr>) 512 error_fmt [ANum (of_int 400), AStr (Some (bytes_of ''Bad Request'')), ANum (of_int 400), AStr (Some (bytes_of ''Bad Request''))]
      (s\<lparr>nsbuf := m0, nstack := st0\<rparr>) = Some (0, s\<lparr>nsbuf := m, nstack := st\<rparr>)" "sent st = sent st0 @ map ucast out"
    by (auto simp: delivers_def)
  then have "send_error h (con_d\<lparr>sock := sk\<rparr>) 400 (s\<lparr>nsbuf := m0, nstack := st0\<rparr>) = Some (0, s\<lparr>nsbuf := m, nstack := st\<rparr>)"
    "sent st = sent st0 @ error_text 400 (bytes_of ''Bad Request'')" by (simp_all add: send_error_def errors_def out(2))
  then show ?thesis using m0 bad
    by (intro exI [of _ m] exI [of _ st]) (simp add: handle_client_def http_request_parse_def req_free_def)
qed

section \<open>Files\<close>

text \<open>A file that cannot be opened gets no answer at all: the server closes the connection without a byte, because it asks for the
  status of the file before it looks at the error.\<close>

theorem missing_file_no_answer:
  assumes "h_open h (snd (url rq)) O_RDONLY s = Some (e, s1)" "e < 0"
  shows "send_file h rq junk s = Some s1"
  using assms by (simp add: send_file_def fstat_def fd_open_def fd_lookup_def close_def)

definition ok_text :: "int \<Rightarrow> u8 list" where
  "ok_text n = bytes_of ''HTTP/1.0 200 OK'' @ crlf @ bytes_of ''Server: jhttpd/0.1'' @ crlf @ size_text n @ type_text @ crlf"

text \<open>What the server needs of the file behind a descriptor: its length, its bytes from the start in any state of the connection, and that closing
  it leaves the connection alone.\<close>

definition file_served :: "('n, 'a) sworld_scheme dev list \<Rightarrow> int \<Rightarrow> int \<Rightarrow> int \<Rightarrow> u8 list \<Rightarrow> ('n, 'a) sworld_scheme \<Rightarrow> bool" where
  "file_served tab fd sk sid content s \<longleftrightarrow>
     (\<forall>m st. \<exists>r s1 s2. seek fd 0 (s\<lparr>nsbuf := m, nstack := st\<rparr>) = Some (r, s1) \<and>
        readn tab fd E1000_TXD_BUFFER_LENGTH s1 = Some (int (min 1518 (length content)), take 1518 content, s2) \<and>
        sock_fd sk sid s2 \<and> nstack s2 = st \<and>
        (\<forall>m' st'. \<exists>r' t. close tab fd (s2\<lparr>nsbuf := m', nstack := st'\<rparr>) = Some (r', t) \<and> nstack t = st'))"

lemma header_200: "find (\<lambda>x. fst x = 200) headers = Some (200, bytes_of ''HTTP/1.0 200 OK'' @ crlf @ bytes_of ''Server: jhttpd/0.1'' @ crlf)"
  by (simp add: headers_def)

lemma send_header_delivers:
  assumes "sock_fd (sock rq) sid s" "sends_all lw sid sent" "h_devtab h = devsock lw # tab"
  shows "delivers sent (bytes_of ''HTTP/1.0 200 OK'' @ crlf @ bytes_of ''Server: jhttpd/0.1'' @ crlf) s 0 (send_header h rq 200 s)"
proof -
  have "length (bytes_of ''HTTP/1.0 200 OK'' @ crlf @ bytes_of ''Server: jhttpd/0.1'' @ crlf) < 1600" by (simp add: bytes_of_def crlf_def)
  from socket_delivers [OF assms(1,2) this, of tab] show ?thesis
    by (rule delivers_result) (simp add: send_header_def header_200 assms(3))
qed

lemma send_size_delivers:
  assumes "sock_fd (sock rq) sid s" "sends_all lw sid sent" "h_devtab h = devsock lw # tab"
  shows "delivers sent (size_text n) s 0 (send_size h rq n s)"
proof -
  obtain out where "vprintfmt (bytes_of ''Content-Length: %ld'' @ crlf) [ANum (of_int n)] = Some out" "map ucast out = size_text n" "length out \<le> 39"
    using size_format [of n] by blast
  with send_fmt_delivers [OF assms, of _ _ out 64] show ?thesis by (simp add: send_size_def)
qed

lemma send_content_type_delivers:
  assumes "sock_fd (sock rq) sid s" "sends_all lw sid sent" "h_devtab h = devsock lw # tab"
  shows "delivers sent type_text s 0 (send_content_type h rq s)"
proof -
  obtain out where "vprintfmt (bytes_of ''Content-Type: %s'' @ crlf) [AStr (Some (mime_type (snd (url rq))))] = Some out" "map ucast out = type_text" "length out \<le> 25"
    using type_format by blast
  with send_fmt_delivers [OF assms, of _ _ out 128] show ?thesis by (simp add: send_content_type_def)
qed

lemma send_header_fin_delivers:
  assumes "sock_fd (sock rq) sid s" "sends_all lw sid sent" "h_devtab h = devsock lw # tab"
  shows "delivers sent crlf s 0 (send_header_fin h rq s)"
proof -
  have l: "length crlf = 2" by (simp add: crlf_def)
  then have "length crlf < 1600" by simp
  from socket_delivers [OF assms(1,2) this, of tab] show ?thesis by (rule delivers_result) (simp add: send_header_fin_def assms(3) l)
qed

lemma send_data_delivers:
  assumes all: "sends_all lw sid sent" and tab: "h_devtab h = devsock lw # tab"
    and rd: "file_served (h_devtab h) fd (sock rq) sid content s" "content \<noteq> []"
  shows "\<exists>r s1 r' s2. send_data h rq fd (s\<lparr>nsbuf := m, nstack := t\<rparr>) = Some (r, s1) \<and> sent (nstack s1) = sent t @ take 1518 content \<and>
    close (h_devtab h) fd s1 = Some (r', s2) \<and> nstack s2 = nstack s1"
proof -
  from rd obtain r s3 s4 where rs: "seek fd 0 (s\<lparr>nsbuf := m, nstack := t\<rparr>) = Some (r, s3)" "readn (h_devtab h) fd E1000_TXD_BUFFER_LENGTH s3 =
      Some (int (min 1518 (length content)), take 1518 content, s4)" "sock_fd (sock rq) sid s4" "nstack s4 = t"
    "\<And>m' t'. \<exists>r' s5. close (h_devtab h) fd (s4\<lparr>nsbuf := m', nstack := t'\<rparr>) = Some (r', s5) \<and> nstack s5 = t'"
    unfolding file_served_def by blast
  have l: "length (take 1518 content) < 1600" by simp
  from delivers_state [OF socket_delivers [OF rs(3) all l, of tab]] obtain m' t' where
    w: "fd_write (h_devtab h) (sock rq) (take 1518 content) s4 = Some (int (length (take 1518 content)), s4\<lparr>nsbuf := m', nstack := t'\<rparr>)"
    "sent t' = sent (nstack s4) @ take 1518 content" unfolding tab by blast
  from rs(5) [where m' = m' and t' = t'] obtain r' s5 where c5: "close (h_devtab h) fd (s4\<lparr>nsbuf := m', nstack := t'\<rparr>) = Some (r', s5)" "nstack s5 = t'" by blast
  have tk: "take (min (length content) 1518) content = take 1518 content" by (simp add: min_def)
  have "send_data h rq fd (s\<lparr>nsbuf := m, nstack := t\<rparr>) = Some (int (length (take 1518 content)), s4\<lparr>nsbuf := m', nstack := t'\<rparr>)"
    using rs(1,2) w(1) rd(2) tk by (simp add: send_data_def min.commute)
  with w(2) c5 rs(4) show ?thesis
    by (intro exI [of _ "int (length (take 1518 content))"] exI [of _ "s4\<lparr>nsbuf := m', nstack := t'\<rparr>"] exI [of _ r'] exI [of _ s5]) simp
qed

text \<open>C36: a file that can be opened and is not empty is answered with the headers, its length, and its first 1518 bytes.  A longer file is cut there, although
  the length in the header is that of the whole file.\<close>

theorem file_answered:
  fixes s :: "('n, 'a) sworld_scheme"
  assumes all: "sends_all lw sid sent" and tab: "h_devtab h = devsock lw # tab"
    and fd: "h_open h (snd (url rq)) O_RDONLY s = Some (fd, s1)" "0 \<le> fd"
    and st: "fstat (h_devtab h) fd junk s1 = Some (0, info, s2)" "\<not> st_isdir info" "st_size info = int (length content)" "content \<noteq> []"
    and sk: "sock_fd (sock rq) sid s2" "nstack s2 = nstack s"
    and rd: "file_served (h_devtab h) fd (sock rq) sid content s2"
  shows "\<exists>s'. send_file h rq junk s = Some s' \<and> sent (nstack s') = sent (nstack s) @ ok_text (int (length content)) @ take 1518 content"
proof -
  let ?u = "\<lambda>m t. s2\<lparr>nsbuf := m, nstack := t\<rparr>"
  have u: "sock_fd (sock rq) sid (?u m t)" for m t using sk(1) by simp
  obtain m1 t1 where 1: "send_header h rq 200 s2 = Some (0, ?u m1 t1)"
    "sent t1 = sent (nstack s2) @ bytes_of ''HTTP/1.0 200 OK'' @ crlf @ bytes_of ''Server: jhttpd/0.1'' @ crlf"
    using delivers_state [OF send_header_delivers [OF sk(1) all tab]] by blast
  obtain m2 t2 where 2: "send_size h rq (int (length content)) (?u m1 t1) = Some (0, ?u m2 t2)" "sent t2 = sent t1 @ size_text (int (length content))"
    using delivers_state [OF send_size_delivers [OF u [where m = m1 and t = t1] all tab, of "int (length content)"]] by auto
  obtain m3 t3 where 3: "send_content_type h rq (?u m2 t2) = Some (0, ?u m3 t3)" "sent t3 = sent t2 @ type_text"
    using delivers_state [OF send_content_type_delivers [OF u [where m = m2 and t = t2] all tab]] by auto
  obtain m4 t4 where 4: "send_header_fin h rq (?u m3 t3) = Some (0, ?u m4 t4)" "sent t4 = sent t3 @ crlf"
    using delivers_state [OF send_header_fin_delivers [OF u [where m = m3 and t = t3] all tab]] by auto
  obtain r5 s5 r6 s6 where 5: "send_data h rq fd (?u m4 t4) = Some (r5, s5)" "sent (nstack s5) = sent t4 @ take 1518 content"
    and 6: "close (h_devtab h) fd s5 = Some (r6, s6)" "nstack s6 = nstack s5" using send_data_delivers [OF all tab rd st(4), where m = m4 and t = t4] by blast
  have "send_file h rq junk s = Some s6" using fd st(1-3) 1(1) 2(1) 3(1) 4(1) 5(1) 6(1) by (simp add: send_file_def)
  moreover have "sent (nstack s6) = sent (nstack s) @ ok_text (int (length content)) @ take 1518 content"
    using 1(2) 2(2) 3(2) 4(2) 5(2) 6(2) sk(2) by (simp add: ok_text_def)
  ultimately show ?thesis by blast
qed

section \<open>Examples\<close>

text \<open>A file of 1518 letters behind descriptor 0, on a device of its own; the socket is descriptor 1.\<close>

definition memdev :: "('n, 'a) sworld_scheme dev" where
  "memdev = \<lparr>dev_id = 0x66, dev_read = Some (\<lambda>_ n s. Some (int (min n 1518), replicate (min n 1518) 0x41, s)), dev_write = None,
     dev_close = Some (\<lambda>_ s. Some (0, s)), dev_stat = Some (\<lambda>_ st s. Some (0, st\<lparr>st_size := 1518\<rparr>, s)), dev_trunc = None\<rparr>"

definition web_world :: "(u8 list \<times> bool) sworld" where
  "web_world = one_sock\<lparr>upt := (upt one_sock)(0xD0000 := Some \<lparr>pg_frame = 8, pg_perm = 0x407\<rparr>), uref := (\<lambda>_. 1),
     uframe := (uframe one_sock)(8 := wr32 (\<lambda>_. 0) 0 0x66), nstack := ([], True)\<rparr>"

definition web_sys :: "(u8 list \<times> bool) sworld hsys" where
  "web_sys = \<lparr>h_devtab = [devsock echo_lwip, memdev], h_open = (\<lambda>u m s. if u = [0x61] then Some (0, s) else Some (- E_NOT_FOUND, s)),
     h_malloc = (\<lambda>n s. (0x8000000, s)), h_free = (\<lambda>p s. if p = 0 then None else Some s)\<rparr>"

definition web_req :: http_request where
  "web_req = \<lparr>sock = 1, url = (0, [0x61]), version = (0, [])\<rparr>"

lemma web_sends: "sends_all echo_lwip 3 fst"
  by (simp add: sends_all_def echo_lwip_def)

lemma web_sock: "sock_fd 1 3 web_world"
  by (simp add: sock_fd_def INDEX2FD_1 web_world_def one_sock_def mapped_at_def uld32_def vpn_def rd32_wr32_other c_int_def)

lemma INDEX2FD_0: "INDEX2FD 0 = 0xD0000000"
  by (simp add: INDEX2FD_def)

theorem request_parsed_witness:
  "http_request_parse web_sys web_req (bytes_of ''GET '' @ [0x61] @ [0x20] @ [0x62, 0x63] @ [0x0A] @ [0]) web_world =
     Some (0, web_req\<lparr>url := (0x8000000, [0x61]), version := (0x8000000, [0x62, 0x63])\<rparr>, web_world)"
  using request_parsed [where u = "[0x61]" and v = "[0x62, 0x63]" and h = web_sys and s = web_world and p = "0x8000000" and ?s1.0 = web_world and q = "0x8000000" and ?s2.0 = web_world and rq = web_req and rest = "[0]"] by (simp add: web_sys_def)

theorem missing_file_no_answer_witness:
  "send_file web_sys (web_req\<lparr>url := (0, [0x7A])\<rparr>) \<lparr>st_name = [], st_size = 0, st_isdir = False, st_dev = None\<rparr> web_world = Some web_world"
  using missing_file_no_answer [where h = web_sys and rq = "web_req\<lparr>url := (0, [0x7A])\<rparr>" and s = web_world and e = "- E_NOT_FOUND" and ?s1.0 = web_world] by (simp add: web_sys_def)

theorem bad_request_answered_witness:
  "\<exists>m st. fst st = error_text 400 (bytes_of ''Bad Request'') \<and>
    handle_client web_sys web_req (replicate 512 0) \<lparr>st_name = [], st_size = 0, st_isdir = False, st_dev = None\<rparr> 1 (web_world\<lparr>nstack := ([0x50, 0x55, 0x54], True)\<rparr>) =
      Option.bind (req_free web_sys web_req (web_world\<lparr>nsbuf := m, nstack := st\<rparr>)) (\<lambda>t. map_option snd (close [devsock echo_lwip, memdev] 1 t))"
proof -
  have "sock_fd 1 3 (web_world\<lparr>nsbuf := nsbuf web_world, nstack := ([0x50, 0x55, 0x54], True)\<rparr>)" using web_sock by (simp only: sock_fd_stable)
  moreover have "web_world\<lparr>nsbuf := nsbuf web_world, nstack := x\<rparr> = web_world\<lparr>nstack := x\<rparr>" for x by simp
  ultimately have "sock_fd 1 3 (web_world\<lparr>nstack := ([0x50, 0x55, 0x54], True)\<rparr>)" by metis
  from bad_request_answered [OF this web_sends, of web_sys "[memdev]" "[0x50, 0x55, 0x54]" "([], True)" "replicate 512 0" web_req
      "\<lparr>st_name = [], st_size = 0, st_isdir = False, st_dev = None\<rparr>"] show ?thesis
    by (simp add: web_sys_def bytes_of_def [of "''GET ''"]) (simp add: echo_lwip_def)
qed

lemma web_read:
  assumes "upt s (vpn 0xD0000000) = Some p" "rd32 (uframe s (pg_frame p)) 0 = 0x66" "rd32 (uframe s (pg_frame p)) 8 = 0"
  shows "readn [devsock echo_lwip, memdev] 0 1518 s = Some (1518, replicate 1518 0x41, s)"
proof -
  have v: "vpn (0xD0000000 + 8) = vpn 0xD0000000" by (simp add: vpn_def)
  have "fd_read [devsock echo_lwip, memdev] 0 1518 s = Some (1518, replicate 1518 0x41, s)"
    using assms v by (simp add: fd_read_def fd_open_def fd_lookup_def INDEX2FD_0 mapped_at_def uld32_def dev_lookup_def devsock_def memdev_def)
  then show ?thesis unfolding readn_def by (subst readn_loop.simps) (simp add: readn_loop.simps [of _ _ _ 1518])
qed

lemma web_seek:
  "seek 0 0 (web_world\<lparr>nsbuf := m, nstack := st\<rparr>) =
     Some (0, web_world\<lparr>nsbuf := m, nstack := st, uframe := (uframe web_world)(8 := wr32 (uframe web_world 8) 4 0)\<rparr>)"
  by (simp add: seek_def fd_lookup_def INDEX2FD_0 mapped_at_def ust32_def vpn_def web_world_def)

lemma web_file: "file_served [devsock echo_lwip, memdev] 0 1 3 (replicate 1518 0x41) web_world"
proof -
  have "\<exists>r s1 s2. seek 0 0 (web_world\<lparr>nsbuf := m, nstack := st\<rparr>) = Some (r, s1) \<and>
      readn [devsock echo_lwip, memdev] 0 1518 s1 = Some (1518, replicate 1518 0x41, s2) \<and> sock_fd 1 3 s2 \<and> nstack s2 = st \<and>
      (\<forall>m' st'. \<exists>r' t. close [devsock echo_lwip, memdev] 0 (s2\<lparr>nsbuf := m', nstack := st'\<rparr>) = Some (r', t) \<and> nstack t = st')" for m st
  proof -
    let ?s = "web_world\<lparr>nsbuf := m, nstack := st, uframe := (uframe web_world)(8 := wr32 (uframe web_world 8) 4 0)\<rparr>"
    have p: "upt ?s (vpn 0xD0000000) = Some \<lparr>pg_frame = 8, pg_perm = 0x407\<rparr>" by (simp add: web_world_def vpn_def)
    have f: "rd32 (uframe ?s 8) 0 = 0x66" "rd32 (uframe ?s 8) 8 = 0"
      by (simp_all add: web_world_def rd32_wr32_other) (simp add: rd32_def)
    have "readn [devsock echo_lwip, memdev] 0 1518 ?s = Some (1518, replicate 1518 0x41, ?s)"
      using web_read [OF p] f by simp
    moreover have "sock_fd 1 3 ?s"
      by (simp add: sock_fd_def INDEX2FD_1 web_world_def one_sock_def mapped_at_def uld32_def vpn_def rd32_wr32_other c_int_def)
    moreover have "\<exists>r' t. close [devsock echo_lwip, memdev] 0 (?s\<lparr>nsbuf := m', nstack := st'\<rparr>) = Some (r', t) \<and> nstack t = st'" for m' st'
    proof -
      have "close [devsock echo_lwip, memdev] (int 0) (?s\<lparr>nsbuf := m', nstack := st'\<rparr>) = Some (0, u_page_unmap (INDEX2FD (int 0)) (?s\<lparr>nsbuf := m', nstack := st'\<rparr>))"
        by (rule fd_close_at [where p = "\<lparr>pg_frame = 8, pg_perm = 0x407\<rparr>" and dev = memdev])
          (use p f in \<open>simp_all add: vpn_def dev_lookup_def devsock_def memdev_def\<close>)
      then show ?thesis by (simp add: u_page_unmap_def unmap_vpn_def Let_def split: option.split)
    qed
    ultimately show ?thesis using web_seek [where m = m and st = st] by (intro exI [of _ 0] exI [of _ ?s]) simp
  qed
  then show ?thesis by (simp add: file_served_def)
qed

theorem file_answered_witness:
  "\<exists>s'. send_file web_sys web_req \<lparr>st_name = [], st_size = 0, st_isdir = False, st_dev = None\<rparr> web_world = Some s' \<and>
     fst (nstack s') = ok_text 1518 @ replicate 1518 0x41"
proof -
  have "fstat [devsock echo_lwip, memdev] 0 \<lparr>st_name = [], st_size = 0, st_isdir = False, st_dev = None\<rparr> web_world =
      Some (0, \<lparr>st_name = [], st_size = 1518, st_isdir = False, st_dev = Some 0x66\<rparr>, web_world)"
    by (simp add: fstat_def fd_open_def fd_lookup_def INDEX2FD_0 mapped_at_def uld32_def vpn_def web_world_def rd32_wr32_same dev_lookup_def devsock_def memdev_def)
  then show ?thesis
    using file_answered [OF web_sends, of web_sys "[memdev]" web_req web_world 0 web_world "\<lparr>st_name = [], st_size = 0, st_isdir = False, st_dev = None\<rparr>"
        "\<lparr>st_name = [], st_size = 1518, st_isdir = False, st_dev = Some 0x66\<rparr>" web_world "replicate 1518 0x41"] web_sock web_file
    by (simp add: web_sys_def web_req_def) (simp add: web_world_def)
qed

end
