(* ===== verification/Fs_Format.thy ===== *)
theory Fs_Format
  imports Fs_Contents
begin

text \<open>
  The image builder, \<^verbatim>\<open>fs/fsformat.c\<close>, a program of the host.  Its memory is \<open>hmem\<close>; the image is mapped at \<open>diskmap\<close>, which is the address at
  which the file server sees the disk, so that the same memory can be given to the file system of \<open>Fs_File\<close>.  The arrays of directory entries are
  blocks of \<open>malloc\<close>: their addresses are arguments, and their contents before are whatever the memory holds.  \<open>None\<close> means that the
  program gives up.
\<close>

record fmtst =
  hmem :: cmem
  diskpos :: nat
  fnblocks :: u32
  fsuper :: nat
  fbitmap :: nat

abbreviation MAX_DIR_ENTS :: nat where "MAX_DIR_ENTS \<equiv> 128"
abbreviation MAXFILESIZE :: nat where "MAXFILESIZE \<equiv> 4235264"

text \<open>\<open>ROUNDUP(n, BLKSIZE)\<close> of this file, for an unsigned and for a signed number.\<close>

definition fmt_roundup :: "u32 \<Rightarrow> u32" where
  "fmt_roundup n = (n - 1) + 4096 - (n - 1) mod 4096"

definition fmt_roundup_int :: "int \<Rightarrow> int" where
  "fmt_roundup_int n = (n - 1) + 4096 - (n - 1) smod 4096"

definition hput32 :: "nat \<Rightarrow> u32 \<Rightarrow> fmtst \<Rightarrow> fmtst" where
  "hput32 a w s = s\<lparr>hmem := wr32 (hmem s) a w\<rparr>"

definition hput_bytes :: "nat \<Rightarrow> u8 list \<Rightarrow> fmtst \<Rightarrow> fmtst" where
  "hput_bytes a bs s = s\<lparr>hmem := overlay a bs (hmem s)\<rparr>"

section \<open>Blocks\<close>

definition blockof :: "nat \<Rightarrow> u32" where
  "blockof p = of_nat ((p - DISKMAP) div BLKSIZE)"

definition alloc_bytes :: "u32 \<Rightarrow> fmtst \<Rightarrow> (nat \<times> fmtst) option" where
  "alloc_bytes bytes s =
     (let start = diskpos s;
          s1 = s\<lparr>diskpos := start + unat (fmt_roundup bytes)\<rparr>
      in if blockof (diskpos s1) \<ge> fnblocks s1 then None else Some (start, s1))"

text \<open>The mapped file reads as zeros after it has been truncated and extended.\<close>

definition opendisk :: "u32 \<Rightarrow> cmem \<Rightarrow> fmtst option" where
  "opendisk n m = do {
     let img = (\<lambda>a. if DISKMAP \<le> a \<and> a < DISKMAP + unat n * BLKSIZE then 0 else m a);
     let s0 = \<lparr>hmem = img, diskpos = DISKMAP, fnblocks = n, fsuper = 0, fbitmap = 0\<rparr>;
     (_, s1) \<leftarrow> alloc_bytes 4096 s0;
     (super, s2) \<leftarrow> alloc_bytes 4096 s1;
     let s3 = hput32 (super + 8 + 132) FTYPE_DIR (hput32 (super + 4) n (hput32 super FS_MAGIC (s2\<lparr>fsuper := super\<rparr>)));
     let s4 = hput_bytes (super + 8) [0x2F, 0] s3;
     let nbitblocks = (n + 32768 - 1) div 32768;
     (bitmap, s5) \<leftarrow> alloc_bytes (nbitblocks * 4096) s4;
     Some (hput_bytes bitmap (replicate (unat (nbitblocks * 4096)) 0xFF) (s5\<lparr>fbitmap := bitmap\<rparr>)) }"

definition clear_bit :: "nat \<Rightarrow> fmtst \<Rightarrow> fmtst" where
  "clear_bit i s =
     (let a = fbitmap s + 4 * (i div 32) in hput32 a (rd32 (hmem s) a AND NOT (push_bit (i mod 32) 1)) s)"

definition finishdisk :: "fmtst \<Rightarrow> fmtst" where
  "finishdisk s = fold clear_bit [0..<unat (blockof (diskpos s))] s"

section \<open>Files\<close>

text \<open>The loops of \<open>finishfile\<close>: block numbers \<open>start + i\<close> at \<open>base + 4 * i\<close>.\<close>

definition put_blocks :: "nat \<Rightarrow> u32 \<Rightarrow> nat list \<Rightarrow> fmtst \<Rightarrow> fmtst" where
  "put_blocks base start is s = fold (\<lambda>i. hput32 (base + 4 * i) (start + of_nat i)) is s"

definition finishfile :: "nat \<Rightarrow> u32 \<Rightarrow> u32 \<Rightarrow> fmtst \<Rightarrow> fmtst option" where
  "finishfile f start len s =
     (let s1 = hput32 (f + 128) len s;
          n = unat (fmt_roundup len div 4096);
          i = min n NDIRECT;
          s2 = put_blocks (f + 136) start [0..<i] s1
      in if i = NDIRECT then do {
           (ind, s3) \<leftarrow> alloc_bytes 4096 s2;
           let s4 = hput32 (f + 176) (blockof ind) s3;
           Some (fold (\<lambda>i. hput32 (ind + 4 * (i - NDIRECT)) (start + of_nat i)) [i..<n] s4) }
         else Some s2)"

section \<open>Directories\<close>

record fdir =
  d_f :: nat
  d_ents :: nat
  d_n :: nat

definition startdir :: "nat \<Rightarrow> nat \<Rightarrow> fdir" where
  "startdir f ents = \<lparr>d_f = f, d_ents = ents, d_n = 0\<rparr>"

definition diradd :: "fdir \<Rightarrow> u32 \<Rightarrow> u8 list \<Rightarrow> fmtst \<Rightarrow> (nat \<times> fdir \<times> fmtst) option" where
  "diradd d ty name s =
     (let out = d_ents d + FILESZ * d_n d;
          d1 = d\<lparr>d_n := d_n d + 1\<rparr>
      in if d_n d1 > MAX_DIR_ENTS then None
         else Some (out, d1, hput32 (out + 132) ty (hput_bytes out (name @ [0]) s)))"

definition finishdir :: "fdir \<Rightarrow> fmtst \<Rightarrow> fmtst option" where
  "finishdir d s = do {
     let sz = d_n d * FILESZ;
     (start, s1) \<leftarrow> alloc_bytes (of_nat sz) s;
     let s2 = hput_bytes start (map (\<lambda>i. hmem s1 (d_ents d + i)) [0..<sz]) s1;
     finishfile (d_f d) (blockof start) (of_int (fmt_roundup_int (int sz))) s2 }"

text \<open>A file of the host is its contents, if it is a regular file that can be opened.\<close>

definition last_name :: "u8 list \<Rightarrow> u8 list" where
  "last_name path = rev (takeWhile (\<lambda>c. c \<noteq> 0x2F) (rev path))"

definition writefile :: "(u8 list \<Rightarrow> u8 list option) \<Rightarrow> fdir \<Rightarrow> u8 list \<Rightarrow> fmtst \<Rightarrow> (fdir \<times> fmtst) option" where
  "writefile host d name s = do {
     content \<leftarrow> host name;
     if length content \<ge> MAXFILESIZE then None
     else do {
       (f, d1, s1) \<leftarrow> diradd d FTYPE_REG (last_name name) s;
       (start, s2) \<leftarrow> alloc_bytes (of_nat (length content)) s1;
       let s3 = hput_bytes start content s2;
       s4 \<leftarrow> finishfile f (blockof start) (of_nat (length content)) s3;
       Some (d1, s4) } }"

section \<open>The program\<close>

text \<open>The directory that files are being put into.\<close>

datatype fflag = FLAG_ROOT | FLAG_BIN | FLAG_SBIN

record fdirs =
  droot :: fdir
  dbin :: fdir
  dsbin :: fdir

fun write_args :: "(u8 list \<Rightarrow> u8 list option) \<Rightarrow> fflag \<Rightarrow> u8 list list \<Rightarrow> fdirs \<Rightarrow> fmtst \<Rightarrow> (fdirs \<times> fmtst) option" where
  "write_args host flag [] ds s = Some (ds, s)"
| "write_args host flag (a # as) ds s =
     (if a = [0x2D, 0x62] then write_args host FLAG_BIN as ds s
      else if a = [0x2D, 0x73, 0x62] then write_args host FLAG_SBIN as ds s
      else (case flag of
          FLAG_ROOT \<Rightarrow> do { (d, s1) \<leftarrow> writefile host (droot ds) a s; write_args host flag as (ds\<lparr>droot := d\<rparr>) s1 }
        | FLAG_BIN \<Rightarrow> do { (d, s1) \<leftarrow> writefile host (dbin ds) a s; write_args host flag as (ds\<lparr>dbin := d\<rparr>) s1 }
        | FLAG_SBIN \<Rightarrow> do { (d, s1) \<leftarrow> writefile host (dsbin ds) a s; write_args host flag as (ds\<lparr>dsbin := d\<rparr>) s1 }))"

text \<open>\<open>main\<close> after its arguments have been checked: \<open>r\<close>, \<open>b\<close> and \<open>sb\<close> are the blocks of \<open>malloc\<close> for the entries of the three directories.\<close>

definition fsformat :: "(u8 list \<Rightarrow> u8 list option) \<Rightarrow> nat \<Rightarrow> nat \<Rightarrow> nat \<Rightarrow> cmem \<Rightarrow> u32 \<Rightarrow> u8 list list \<Rightarrow> fmtst option" where
  "fsformat host r b sb m n args =
     (if n < 2 \<or> n > 10240 then None
      else do {
        s \<leftarrow> opendisk n m;
        let root = startdir (fsuper s + 8) r;
        (fb, root1, s1) \<leftarrow> diradd root FTYPE_DIR [0x62, 0x69, 0x6E] s;
        let bin = startdir fb b;
        (fsb, root2, s2) \<leftarrow> diradd root1 FTYPE_DIR [0x73, 0x62, 0x69, 0x6E] s1;
        let sbin = startdir fsb sb;
        (ds, s3) \<leftarrow> write_args host FLAG_ROOT args \<lparr>droot = root2, dbin = bin, dsbin = sbin\<rparr> s2;
        s4 \<leftarrow> finishdir (dbin ds) s3;
        s5 \<leftarrow> finishdir (dsbin ds) s4;
        s6 \<leftarrow> finishdir (droot ds) s5;
        Some (finishdisk s6) })"

section \<open>Positions\<close>

definition blk_at :: "nat \<Rightarrow> nat" where
  "blk_at k = DISKMAP + k * BLKSIZE"

definition nblks :: "nat \<Rightarrow> nat" where
  "nblks n = (n + 4095) div 4096"

lemma blk_mono: "j \<le> k \<Longrightarrow> blk_at j \<le> blk_at k" "j < k \<Longrightarrow> blk_at j + 4096 \<le> blk_at k"
  by (auto simp: blk_at_def)

lemma blk_add: "blk_at (j + n) = blk_at j + 4096 * n"
  by (simp add: blk_at_def)

lemma blk_Suc: "blk_at (Suc j) = blk_at j + 4096"
  by (simp add: blk_at_def)

lemma blockof_blk: "blockof (blk_at k) = of_nat k"
  by (simp add: blockof_def blk_at_def)

lemma nb_bound: "n \<le> 4096 * nblks n" "n \<le> 4096 * c \<Longrightarrow> nblks n \<le> c"
proof -
  have "n + 4095 = 4096 * ((n + 4095) div 4096) + (n + 4095) mod 4096" by presburger
  moreover have "(n + 4095) mod 4096 \<le> 4095" by (simp add: less_Suc_eq_le [symmetric])
  ultimately show "n \<le> 4096 * nblks n" unfolding nblks_def by linarith
  assume "n \<le> 4096 * c"
  then have "n + 4095 < 4096 * Suc c" by simp
  then show "nblks n \<le> c" unfolding nblks_def by (simp add: less_mult_imp_div_less mult.commute flip: less_Suc_eq_le)
qed

lemma nb_pos: "0 < n \<Longrightarrow> 0 < nblks n"
  by (simp add: nblks_def div_greater_zero_iff)

lemma unat_of_small: "n < 2 ^ 32 \<Longrightarrow> unat (of_nat n :: u32) = n"
  by (simp add: unsigned_of_nat take_bit_nat_eq_self)

lemma roundup_nat: "n < 2 ^ 31 \<Longrightarrow> unat (fmt_roundup (of_nat n)) = 4096 * nblks n"
proof (cases n)
  case 0
  then show ?thesis by (simp add: fmt_roundup_def nblks_def)
next
  case (Suc j)
  assume n: "n < 2 ^ 31"
  have j: "unat (of_nat j :: u32) = j" using n Suc by (intro unat_of_small) simp
  have "(of_nat n - 1 :: u32) = of_nat j" using Suc by simp
  then have r: "fmt_roundup (of_nat n) = of_nat j + 4096 - (of_nat j mod 4096 :: u32)" by (simp add: fmt_roundup_def)
  have "(of_nat j mod 4096 :: u32) = of_nat (j mod 4096)"
    using j by (simp add: word_unat_eq_iff unat_mod_distrib unat_of_small)
  then have "fmt_roundup (of_nat n) = of_nat (j + 4096 - j mod 4096)" unfolding r by (simp add: of_nat_diff)
  moreover have "j + 4096 - j mod 4096 = 4096 * nblks n"
  proof -
    have "j = 4096 * (j div 4096) + j mod 4096" by simp
    moreover have "nblks n = Suc (j div 4096)" using Suc by (simp add: nblks_def)
    ultimately show ?thesis by linarith
  qed
  moreover have "4096 * nblks n < 2 ^ 32" using nb_bound(2) [of n "2 ^ 19"] n by simp
  ultimately show ?thesis using unat_of_small [of "4096 * nblks n"] by simp
qed

section \<open>The state of the builder\<close>

text \<open>The next free block is \<open>k\<close>, on a disk of \<open>N\<close> blocks.\<close>

definition at_block :: "nat \<Rightarrow> nat \<Rightarrow> fmtst \<Rightarrow> bool" where
  "at_block N k s \<longleftrightarrow> diskpos s = blk_at k \<and> fnblocks s = of_nat N \<and> N \<le> 10240 \<and> k < N \<and> fsuper s = super_at \<and> fbitmap s = bitmap_at"

lemma alloc_at_pos:
  assumes "diskpos s = blk_at k" "fnblocks s = of_nat N" "N \<le> 10240" "k \<le> N" "n < 2 ^ 23"
  shows "alloc_bytes (of_nat n) s = (if k + nblks n \<ge> N then None else Some (blk_at k, s\<lparr>diskpos := blk_at (k + nblks n)\<rparr>))"
proof -
  have "nblks n \<le> 2048" using nb_bound(2) [of n 2048] assms(5) by simp
  then have k: "k + nblks n < 2 ^ 32" "N < 2 ^ 32" using assms by auto
  have "unat (fmt_roundup (of_nat n)) = 4096 * nblks n" using assms(5) by (intro roundup_nat) simp
  then have "alloc_bytes (of_nat n) s = (if blockof (blk_at (k + nblks n)) \<ge> (of_nat N :: u32) then None else Some (blk_at k, s\<lparr>diskpos := blk_at (k + nblks n)\<rparr>))"
    using assms by (simp add: alloc_bytes_def Let_def blk_add)
  also have "(blockof (blk_at (k + nblks n)) \<ge> (of_nat N :: u32)) = (k + nblks n \<ge> N)"
    unfolding blockof_blk word_le_nat_alt using k by (simp only: unat_of_small)
  finally show ?thesis .
qed

lemma alloc_spec:
  assumes "at_block N k s" "n < 2 ^ 23"
  shows "alloc_bytes (of_nat n) s = (if k + nblks n \<ge> N then None else Some (blk_at k, s\<lparr>diskpos := blk_at (k + nblks n)\<rparr>))"
  using assms by (intro alloc_at_pos) (simp_all add: at_block_def)

lemma at_block_hput [simp]:
  "at_block N k (hput32 a w s) = at_block N k s" "at_block N k (hput_bytes a bs s) = at_block N k s"
  "k' < N \<Longrightarrow> at_block N k s \<Longrightarrow> at_block N k' (s\<lparr>diskpos := blk_at k'\<rparr>)"
  by (auto simp: at_block_def hput32_def hput_bytes_def)

section \<open>Ranges of memory\<close>

definition only_changes :: "nat set \<Rightarrow> cmem \<Rightarrow> cmem \<Rightarrow> bool" where
  "only_changes A m m' \<longleftrightarrow> (\<forall>a. a \<notin> A \<longrightarrow> m' a = m a)"

lemma only_changes_refl [simp]: "only_changes A m m"
  by (simp add: only_changes_def)

lemma only_changes_trans: "only_changes A m m1 \<Longrightarrow> only_changes B m1 m2 \<Longrightarrow> only_changes (A \<union> B) m m2"
  by (simp add: only_changes_def)

lemma only_changes_mono: "only_changes A m m' \<Longrightarrow> A \<subseteq> B \<Longrightarrow> only_changes B m m'"
  by (auto simp: only_changes_def)

lemma only_changesD: "only_changes A m m' \<Longrightarrow> a \<notin> A \<Longrightarrow> m' a = m a"
  by (simp add: only_changes_def)

lemma only_changes_wr32: "only_changes {a..<a + 4} m (wr32 m a w)"
  by (auto simp: only_changes_def wr32_other)

lemma only_changes_overlay: "only_changes {a..<a + length bs} m (overlay a bs m)"
  by (auto simp: only_changes_def overlay_def)

lemma rd32_move:
  assumes "\<And>i. i < 4 \<Longrightarrow> m' (a + i) = m (b + i)"
  shows "rd32 m' a = rd32 m b"
  using assms [of 0] assms [of 1] assms [of 2] assms [of 3] by (simp add: rd32_def)

lemma rd32_only: "only_changes A m m' \<Longrightarrow> A \<inter> {a..<a + 4} = {} \<Longrightarrow> rd32 m' a = rd32 m a"
  by (rule rd32_cong) (auto simp: only_changes_def disjoint_iff)

text \<open>A loop of stores to places that do not overlap.\<close>

lemma fold_hput32:
  assumes "\<And>i j. i \<in> set is \<Longrightarrow> j \<in> set is \<Longrightarrow> i \<noteq> j \<Longrightarrow> g i + 4 \<le> g j \<or> g j + 4 \<le> (g i :: nat)"
  shows "\<exists>m. fold (\<lambda>i. hput32 (g i) (w i)) is s = s\<lparr>hmem := m\<rparr> \<and> (\<forall>i \<in> set is. rd32 m (g i) = w i) \<and>
    only_changes (\<Union>i \<in> set is. {g i..<g i + 4}) (hmem s) m"
  using assms
proof (induction "is" arbitrary: s rule: rev_induct)
  case (snoc i "is")
  have "\<exists>m. fold (\<lambda>i. hput32 (g i) (w i)) is s = s\<lparr>hmem := m\<rparr> \<and> (\<forall>i \<in> set is. rd32 m (g i) = w i) \<and>
      only_changes (\<Union>i \<in> set is. {g i..<g i + 4}) (hmem s) m" by (rule snoc.IH) (use snoc.prems in simp)
  then obtain m where m: "fold (\<lambda>i. hput32 (g i) (w i)) is s = s\<lparr>hmem := m\<rparr>" "\<forall>i \<in> set is. rd32 m (g i) = w i"
    "only_changes (\<Union>i \<in> set is. {g i..<g i + 4}) (hmem s) m" by blast
  let ?m = "wr32 m (g i) (w i)"
  have "rd32 ?m (g j) = w j" if "j \<in> set is \<or> j = i" for j
  proof (cases "j = i")
    case False
    then have "g j + 4 \<le> g i \<or> g i + 4 \<le> g j" using snoc.prems [of j i] that by auto
    then show ?thesis using m(2) that False by (simp add: rd32_wr32_other)
  qed simp
  moreover have "only_changes ((\<Union>i \<in> set is. {g i..<g i + 4}) \<union> {g i..<g i + 4}) (hmem s) ?m"
    by (rule only_changes_trans [OF m(3) only_changes_wr32])
  moreover have "fold (\<lambda>i. hput32 (g i) (w i)) (is @ [i]) s = s\<lparr>hmem := ?m\<rparr>" using m(1) by (simp add: hput32_def)
  moreover have "(\<Union>i \<in> set (is @ [i]). {g i..<g i + 4}) = (\<Union>i \<in> set is. {g i..<g i + 4}) \<union> {g i..<g i + 4}" by auto
  moreover have "\<forall>j \<in> set (is @ [i]). j \<in> set is \<or> j = i" by simp
  ultimately show ?case by (intro exI [of _ ?m] conjI) (assumption | simp only: | blast)+
next
  case (Nil s)
  show ?case by (intro exI [of _ "hmem s"]) simp
qed

section \<open>Files in the image\<close>

text \<open>A structure at \<open>f\<close> describes \<open>len\<close> bytes in consecutive blocks from \<open>b\<close> on; its indirect block, if it needs one, lies in the blocks from \<open>k\<close> to \<open>k'\<close>.\<close>

definition extent :: "cmem \<Rightarrow> nat \<Rightarrow> nat \<Rightarrow> nat \<Rightarrow> nat \<Rightarrow> nat \<Rightarrow> bool" where
  "extent m f b len k k' \<longleftrightarrow> rd32 m (f + 128) = of_nat len \<and>
     (\<forall>i < nblks len. i < 10 \<longrightarrow> rd32 m (f + 136 + 4 * i) = of_nat (b + i)) \<and>
     (10 < nblks len \<longrightarrow> (\<exists>ind. rd32 m (f + 176) = of_nat ind \<and> k \<le> ind \<and> ind < k' \<and>
        (\<forall>i < nblks len. 10 \<le> i \<longrightarrow> rd32 m (blk_at ind + 4 * (i - 10)) = of_nat (b + i))))"

text \<open>The structure and the indirect block may be moved and other memory may change.\<close>

lemma extent_move:
  assumes "extent m f b len k k'" "nblks len \<le> 1034"
    and "\<And>i. i < 256 \<Longrightarrow> m' (g + i) = m (f + i)" and "\<And>a. blk_at k \<le> a \<Longrightarrow> a < blk_at k' \<Longrightarrow> m' a = m a"
  shows "extent m' g b len k k'"
proof -
  have r: "rd32 m' (g + c) = rd32 m (f + c)" if "c + 4 \<le> 256" for c
    using assms(3) [of "c + _"] that by (intro rd32_move) (simp add: add.assoc)
  have "rd32 m' (g + 136 + 4 * i) = rd32 m (f + 136 + 4 * i)" if "i < 10" for i using r [of "136 + 4 * i"] that by (simp add: add.assoc)
  moreover have "rd32 m' (blk_at ind + 4 * (i - 10)) = rd32 m (blk_at ind + 4 * (i - 10))" if "k \<le> ind" "ind < k'" "i < nblks len" for ind i
  proof (rule rd32_cong)
    fix j :: nat
    assume "j < 4"
    moreover have "blk_at k \<le> blk_at ind" "blk_at ind + 4096 \<le> blk_at k'" using that by (simp_all add: blk_mono)
    ultimately show "m' (blk_at ind + 4 * (i - 10) + j) = m (blk_at ind + 4 * (i - 10) + j)" using that(3) assms(2) by (intro assms(4)) linarith+
  qed
  ultimately show ?thesis using assms(1) r [of 128] r [of 176] unfolding extent_def by auto
qed

lemma put_blocks_spec:
  "\<exists>m. put_blocks base w [0..<n] s = s\<lparr>hmem := m\<rparr> \<and> (\<forall>i < n. rd32 m (base + 4 * i) = w + of_nat i) \<and> only_changes {base..<base + 4 * n} (hmem s) m"
proof -
  have u: "(\<Union>i \<in> set [0..<n]. {base + 4 * i..<base + 4 * i + 4}) \<subseteq> {base..<base + 4 * n}" by auto
  have "\<exists>m. fold (\<lambda>i. hput32 (base + 4 * i) (w + of_nat i)) [0..<n] s = s\<lparr>hmem := m\<rparr> \<and> (\<forall>i \<in> set [0..<n]. rd32 m (base + 4 * i) = w + of_nat i) \<and>
      only_changes (\<Union>i \<in> set [0..<n]. {base + 4 * i..<base + 4 * i + 4}) (hmem s) m" by (rule fold_hput32) auto
  then obtain m where "fold (\<lambda>i. hput32 (base + 4 * i) (w + of_nat i)) [0..<n] s = s\<lparr>hmem := m\<rparr>" "\<forall>i \<in> set [0..<n]. rd32 m (base + 4 * i) = w + of_nat i"
    "only_changes (\<Union>i \<in> set [0..<n]. {base + 4 * i..<base + 4 * i + 4}) (hmem s) m" by blast
  with only_changes_mono [OF _ u] show ?thesis unfolding put_blocks_def by (intro exI [of _ m]) simp
qed

lemma indirect_spec:
  "\<exists>m. fold (\<lambda>i. hput32 (ind + 4 * (i - 10)) (w + of_nat i)) [10..<n] s = s\<lparr>hmem := m\<rparr> \<and>
     (\<forall>i < n. 10 \<le> i \<longrightarrow> rd32 m (ind + 4 * (i - 10)) = w + of_nat i) \<and> only_changes {ind..<ind + 4 * (n - 10)} (hmem s) m"
proof -
  have u: "(\<Union>i \<in> set [10..<n]. {ind + 4 * (i - 10)..<ind + 4 * (i - 10) + 4}) \<subseteq> {ind..<ind + 4 * (n - 10)}" by auto
  have "\<exists>m. fold (\<lambda>i. hput32 (ind + 4 * (i - 10)) (w + of_nat i)) [10..<n] s = s\<lparr>hmem := m\<rparr> \<and>
      (\<forall>i \<in> set [10..<n]. rd32 m (ind + 4 * (i - 10)) = w + of_nat i) \<and>
      only_changes (\<Union>i \<in> set [10..<n]. {ind + 4 * (i - 10)..<ind + 4 * (i - 10) + 4}) (hmem s) m" by (rule fold_hput32) auto
  then obtain m where "fold (\<lambda>i. hput32 (ind + 4 * (i - 10)) (w + of_nat i)) [10..<n] s = s\<lparr>hmem := m\<rparr>"
    "\<forall>i \<in> set [10..<n]. rd32 m (ind + 4 * (i - 10)) = w + of_nat i"
    "only_changes (\<Union>i \<in> set [10..<n]. {ind + 4 * (i - 10)..<ind + 4 * (i - 10) + 4}) (hmem s) m" by blast
  with only_changes_mono [OF _ u] show ?thesis by (intro exI [of _ m]) simp
qed

lemma blocks_of_len: "len < 2 ^ 31 \<Longrightarrow> unat (fmt_roundup (of_nat len) div 4096) = nblks len"
  using roundup_nat [of len] by (simp add: unat_div_distrib)

text \<open>\<open>finishfile\<close> changes the size and the block numbers of the structure, and takes at most one block.\<close>

lemma finishfile_spec:
  assumes at: "at_block N k s" and len: "len \<le> MAXFILESIZE" and fin: "finishfile f (of_nat b) (of_nat len) s = Some s'"
    and f: "f + 256 \<le> blk_at k \<or> blk_at (Suc k) \<le> f"
  obtains k' where "k \<le> k'" "k' \<le> Suc k" "nblks len < 10 \<Longrightarrow> k' = k" "at_block N k' s'" "extent (hmem s') f b len k k'"
    "only_changes ({f + 128..<f + 132} \<union> {f + 136..<f + 180} \<union> {blk_at k..<blk_at k'}) (hmem s) (hmem s')"
proof -
  have n: "unat (fmt_roundup (of_nat len) div 4096) = nblks len" using len by (intro blocks_of_len) simp
  define i where "i = min (nblks len) 10"
  obtain m1 where m1: "put_blocks (f + 136) (of_nat b) [0..<i] (hput32 (f + 128) (of_nat len) s) = s\<lparr>hmem := m1\<rparr>"
    "\<forall>j < i. rd32 m1 (f + 136 + 4 * j) = of_nat b + of_nat j" "only_changes {f + 136..<f + 136 + 4 * i} (wr32 (hmem s) (f + 128) (of_nat len)) m1"
    using put_blocks_spec [of "f + 136" "of_nat b" i "hput32 (f + 128) (of_nat len) s"] by (auto simp: hput32_def)
  have i10: "4 * i \<le> 40" by (simp add: i_def)
  have ch: "only_changes ({f + 128..<f + 132} \<union> {f + 136..<f + 176}) (hmem s) m1"
    by (rule only_changes_mono [OF only_changes_trans [OF only_changes_wr32 m1(3)]]) (use i10 in auto)
  have sz: "rd32 m1 (f + 128) = of_nat len" using rd32_only [OF m1(3), of "f + 128"] by (auto simp: disjoint_iff)
  show thesis
  proof (cases "i = 10")
    case False
    then have "s' = s\<lparr>hmem := m1\<rparr>" using fin m1(1) unfolding finishfile_def Let_def n i_def [symmetric] by simp
    moreover have "i = nblks len" "nblks len < 10" using False by (auto simp: i_def min_def split: if_splits)
    moreover have "only_changes ({f + 128..<f + 132} \<union> {f + 136..<f + 180}) (hmem s) m1" by (rule only_changes_mono [OF ch]) auto
    ultimately show thesis using that [of k] at m1(2) sz by (auto simp: extent_def at_block_def)
  next
    case True
    have at1: "at_block N k (s\<lparr>hmem := m1\<rparr>)" using at by (simp add: at_block_def)
    have n4: "(4096 :: u32) = of_nat 4096" "nblks 4096 = 1" by (simp_all add: nblks_def)
    have al: "alloc_bytes 4096 (s\<lparr>hmem := m1\<rparr>) = (if k + 1 \<ge> N then None else Some (blk_at k, s\<lparr>hmem := m1, diskpos := blk_at (k + 1)\<rparr>))"
      using alloc_spec [OF at1, of 4096] unfolding n4(2) n4(1) [symmetric] by simp
    have k1: "k + 1 < N" using fin m1(1) al True unfolding finishfile_def Let_def n i_def [symmetric] by (auto split: if_splits)
    define m2 where "m2 = wr32 m1 (f + 176) (of_nat k)"
    let ?s2 = "s\<lparr>diskpos := blk_at (Suc k), hmem := m2\<rparr>"
    obtain m3 where m3: "fold (\<lambda>i. hput32 (blk_at k + 4 * (i - 10)) (of_nat b + of_nat i)) [10..<nblks len] ?s2 = ?s2\<lparr>hmem := m3\<rparr>"
      "\<forall>i < nblks len. 10 \<le> i \<longrightarrow> rd32 m3 (blk_at k + 4 * (i - 10)) = of_nat b + of_nat i" "only_changes {blk_at k..<blk_at k + 4 * (nblks len - 10)} m2 m3"
      using indirect_spec [of "blk_at k" "of_nat b" "nblks len" ?s2] by auto
    have "nblks len \<le> 1034" using nb_bound(2) [of len 1034] len by simp
    then have m3': "only_changes {blk_at k..<blk_at (Suc k)} m2 m3" using m3(3) by (rule_tac only_changes_mono) (auto simp: blk_Suc)
    have s': "s' = ?s2\<lparr>hmem := m3\<rparr>" using fin m1(1) al True k1 m3(1)
      unfolding finishfile_def Let_def n i_def [symmetric] by (simp add: hput32_def blockof_blk m2_def)
    have keep: "rd32 m3 a = rd32 m2 a" if "f \<le> a" "a + 4 \<le> f + 256" for a
      using rd32_only [OF m3', of a] f that by (auto simp: disjoint_iff)
    have "rd32 m2 (f + 136 + 4 * j) = rd32 m1 (f + 136 + 4 * j)" if "j < 10" for j
      unfolding m2_def using that by (intro rd32_wr32_other) auto
    moreover have "rd32 m2 (f + 128) = of_nat len" unfolding m2_def using sz by (simp add: rd32_wr32_other)
    moreover have "rd32 m2 (f + 176) = of_nat k" by (simp add: m2_def)
    ultimately have ex: "extent m3 f b len k (Suc k)"
      using keep [of "f + 128"] keep [of "f + 176"] keep [of "f + 136 + 4 * _"] m1(2) m3(2) True by (auto simp: extent_def intro!: exI [of _ k])
    have "only_changes (({f + 128..<f + 132} \<union> {f + 136..<f + 176}) \<union> {f + 176..<f + 180} \<union> {blk_at k..<blk_at (Suc k)}) (hmem s) m3"
      using only_changes_wr32 [of "f + 176" m1 "of_nat k"] by (intro only_changes_trans [OF _ m3'] only_changes_trans [OF ch]) (simp add: m2_def add.commute)
    then have "only_changes ({f + 128..<f + 132} \<union> {f + 136..<f + 180} \<union> {blk_at k..<blk_at (Suc k)}) (hmem s) m3" by (rule only_changes_mono) auto
    with ex s' at k1 True show thesis by (intro that [of "Suc k"]) (auto simp: at_block_def i_def)
  qed
qed

section \<open>Entries\<close>

text \<open>The structure at \<open>p\<close>: its name, its type, and its extent from block \<open>b\<close> with an indirect block between \<open>k\<close> and \<open>k'\<close>.\<close>

definition entry_at :: "cmem \<Rightarrow> nat \<Rightarrow> u8 list \<Rightarrow> u32 \<Rightarrow> nat \<Rightarrow> nat \<Rightarrow> nat \<Rightarrow> nat \<Rightarrow> bool" where
  "entry_at m p name ty b len k k' \<longleftrightarrow> cstr m p name \<and> length name < 128 \<and> rd32 m (p + 132) = ty \<and> extent m p b len k k' \<and> nblks len \<le> 1034"

lemma entry_move:
  assumes "entry_at m f name ty b len k k'"
    and "\<And>i. i < 256 \<Longrightarrow> m' (g + i) = m (f + i)" and "\<And>a. blk_at k \<le> a \<Longrightarrow> a < blk_at k' \<Longrightarrow> m' a = m a"
  shows "entry_at m' g name ty b len k k'"
proof -
  have "cstr m' g name" using assms(1,2) by (auto simp: entry_at_def cstr_bytes bytes_at_nth)
  moreover have "rd32 m' (g + 132) = rd32 m (f + 132)"
    using assms(2) [of "132 + _"] by (intro rd32_move) (simp add: add.assoc)
  moreover have "extent m' g b len k k'" using assms extent_move [of m f b len k k' m' g] by (simp add: entry_at_def)
  ultimately show ?thesis using assms(1) by (simp add: entry_at_def)
qed

text \<open>A regular file with its bytes, all in the blocks from \<open>k\<close> to \<open>k'\<close>.\<close>

definition file_in :: "cmem \<Rightarrow> nat \<Rightarrow> u8 list \<Rightarrow> u8 list \<Rightarrow> nat \<Rightarrow> nat \<Rightarrow> bool" where
  "file_in m p name content k k' \<longleftrightarrow> entry_at m p name FTYPE_REG k (length content) k k' \<and> k + nblks (length content) \<le> k' \<and>
     (\<forall>i < length content. m (blk_at k + i) = content ! i)"

lemma file_in_move:
  assumes "file_in m f name content k k'"
    and "\<And>i. i < 256 \<Longrightarrow> m' (g + i) = m (f + i)" and "\<And>a. blk_at k \<le> a \<Longrightarrow> a < blk_at k' \<Longrightarrow> m' a = m a"
  shows "file_in m' g name content k k'"
proof -
  have "m' (blk_at k + i) = m (blk_at k + i)" if "i < length content" for i
  proof (rule assms(3))
    have "blk_at (k + nblks (length content)) \<le> blk_at k'" using assms(1) by (simp add: file_in_def blk_mono)
    then show "blk_at k + i < blk_at k'" using that nb_bound(1) [of "length content"] unfolding blk_add by linarith
  qed simp
  then show ?thesis using assms entry_move [of m f name FTYPE_REG k "length content" k k' m' g] by (simp add: file_in_def)
qed

section \<open>Directories being built\<close>

text \<open>Where the array of entries may lie: outside_image_at of the image.\<close>

definition outside_image_at :: "nat \<Rightarrow> nat \<Rightarrow> bool" where
  "outside_image_at N p \<longleftrightarrow> p + FILESZ * MAX_DIR_ENTS \<le> DISKMAP \<or> blk_at N \<le> p"

lemma diradd_spec:
  assumes "diradd d ty name s = Some (p, d', s')" "0 \<notin> set name" "length name < 128" "at_block N k s"
  shows "p = d_ents d + 256 * d_n d \<and> d' = d\<lparr>d_n := d_n d + 1\<rparr> \<and> d_n d < 128 \<and> at_block N k s' \<and>
    cstr (hmem s') p name \<and> rd32 (hmem s') (p + 132) = ty \<and> only_changes {p..<p + 136} (hmem s) (hmem s')"
proof -
  have p: "p = d_ents d + 256 * d_n d" "d' = d\<lparr>d_n := d_n d + 1\<rparr>" "d_n d < 128" "s' = hput32 (p + 132) ty (hput_bytes p (name @ [0]) s)"
    using assms(1) by (auto simp: diradd_def Let_def split: if_splits)
  have hm: "hmem s' = wr32 (overlay p (name @ [0]) (hmem s)) (p + 132) ty" by (simp add: p(4) hput32_def hput_bytes_def)
  have "cstr (hmem s') p name"
    using assms(2,3) by (auto simp: p(4) hput32_def hput_bytes_def cstr_bytes bytes_at_nth wr32_other overlay_def nth_append)
  moreover have "only_changes ({p..<p + length (name @ [0])} \<union> {p + 132..<p + 132 + 4}) (hmem s) (hmem s')"
    unfolding hm by (rule only_changes_trans [OF only_changes_overlay only_changes_wr32])
  then have "only_changes {p..<p + 136} (hmem s) (hmem s')" by (rule only_changes_mono) (use assms(3) in auto)
  moreover have "rd32 (hmem s') (p + 132) = ty" by (simp add: p(4) hput32_def)
  ultimately show ?thesis using p assms(4) by simp
qed

text \<open>Writing a file adds an entry_at and takes new blocks, and changes nothing else.\<close>

lemma writefile_spec:
  assumes "writefile host d path s = Some (d', s')" "host path = Some content" "at_block N k s" "outside_image_at N (d_ents d)"
    and name: "0 \<notin> set (last_name path)" "length (last_name path) < 128"
  obtains k' where "k \<le> k'" "at_block N k' s'" "d' = d\<lparr>d_n := d_n d + 1\<rparr>" "d_n d < 128"
    "file_in (hmem s') (d_ents d + 256 * d_n d) (last_name path) content k k'"
    "only_changes ({d_ents d + 256 * d_n d..<d_ents d + 256 * d_n d + 256} \<union> {blk_at k..<blk_at k'}) (hmem s) (hmem s')"
proof -
  let ?p = "d_ents d + 256 * d_n d"
  let ?len = "length content"
  from assms(1,2) obtain p s1 start s2 s3 where st: "?len < MAXFILESIZE" "diradd d FTYPE_REG (last_name path) s = Some (p, d', s1)"
    "alloc_bytes (of_nat ?len) s1 = Some (start, s2)" "s3 = hput_bytes start content s2" "finishfile p (blockof start) (of_nat ?len) s3 = Some s'"
    by (auto simp: writefile_def Let_def bind_eq_Some_conv split: if_splits)
  note da = diradd_spec [OF st(2) name assms(3)]
  then have at1: "at_block N k s1" and p: "p = ?p" and dn: "d_n d < 128" by blast+
  let ?k1 = "k + nblks ?len"
  from st(1,3) alloc_spec [OF at1, of ?len] have al: "?k1 < N" "start = blk_at k" "s2 = s1\<lparr>diskpos := blk_at ?k1\<rparr>" by (auto split: if_splits)
  have at3: "at_block N ?k1 s3" using at1 al(1) by (simp add: st(4) al(3))
  have fin: "finishfile ?p (of_nat k) (of_nat ?len) s3 = Some s'" using st(5) al(2) p by (simp add: blockof_blk)
  have le: "blk_at k \<le> blk_at ?k1" "blk_at (Suc ?k1) \<le> blk_at N" using al(1) by (simp_all add: blk_mono Suc_leI)
  have p_out: "?p + 256 \<le> DISKMAP \<or> blk_at N \<le> ?p" using assms(4) dn by (auto simp: outside_image_at_def)
  then have fp: "?p + 256 \<le> blk_at ?k1 \<or> blk_at (Suc ?k1) \<le> ?p" using le by (auto simp: blk_at_def)
  from finishfile_spec [OF at3 _ fin fp] st(1) obtain k' where k': "?k1 \<le> k'" "k' \<le> Suc ?k1" "at_block N k' s'" "extent (hmem s') ?p k ?len ?k1 k'"
    "only_changes ({?p + 128..<?p + 132} \<union> {?p + 136..<?p + 180} \<union> {blk_at ?k1..<blk_at k'}) (hmem s3) (hmem s')" by auto
  have "blk_at k \<le> blk_at k'" "blk_at k' \<le> blk_at N" using k' by (simp_all add: blk_mono at_block_def)
  have len4: "?len \<le> 4096 * nblks ?len" by (rule nb_bound)
  have c3: "only_changes {blk_at k..<blk_at ?k1} (hmem s1) (hmem s3)"
    using only_changes_mono [OF only_changes_overlay [of "blk_at k" content "hmem s1"], of "{blk_at k..<blk_at ?k1}"] len4
    by (simp add: st(4) al(2,3) hput_bytes_def blk_add)
  have c: "only_changes ({?p..<?p + 256} \<union> {blk_at k..<blk_at k'}) (hmem s) (hmem s')"
  proof (rule only_changes_mono)
    show "only_changes ({?p..<?p + 136} \<union> {blk_at k..<blk_at ?k1} \<union> ({?p + 128..<?p + 132} \<union> {?p + 136..<?p + 180} \<union> {blk_at ?k1..<blk_at k'})) (hmem s) (hmem s')"
      using da p by (intro only_changes_trans [OF _ k'(5)] only_changes_trans [OF _ c3]) simp
  qed (use le k'(1) in \<open>auto simp: blk_at_def\<close>)
  have apart: "a \<notin> {blk_at i..<blk_at j}" if "?p \<le> a" "a < ?p + 256" "j \<le> N" for a i j
    using p_out that blk_mono(1) [of j N] by (auto simp: blk_at_def)
  have low: "hmem s' a = hmem s1 a" if "?p \<le> a" "a < ?p + 256" "a \<notin> {?p + 128..<?p + 132} \<union> {?p + 136..<?p + 180}" for a
  proof -
    have "hmem s' a = hmem s3 a" using that apart [of a k' ?k1] k'(3) by (intro only_changesD [OF k'(5)]) (auto simp: at_block_def)
    also have "\<dots> = hmem s1 a" using that apart [of a ?k1 k] al(1) by (intro only_changesD [OF c3]) simp
    finally show ?thesis .
  qed
  have nm: "cstr (hmem s') ?p (last_name path)" using da low name(2) p
    by (subst cstr_cong [where m' = "hmem s1"]) auto
  have ty: "rd32 (hmem s') (?p + 132) = FTYPE_REG" using da low p by (subst rd32_cong [where m' = "hmem s1"]) auto
  have nb1: "nblks ?len \<le> 1034" using nb_bound(2) [of ?len 1034] st(1) by simp
  have ex: "extent (hmem s') ?p k ?len k k'" using k'(4) by (auto simp: extent_def intro: le_trans)
  have dat: "hmem s' (blk_at k + i) = content ! i" if "i < ?len" for i
  proof -
    have i: "blk_at k + i < blk_at ?k1" using that len4 by (simp add: blk_add)
    have "\<not> (?p \<le> blk_at k + i \<and> blk_at k + i < ?p + 256)" using apart [of "blk_at k + i" ?k1 k] i al(1) by auto
    then have "hmem s' (blk_at k + i) = hmem s3 (blk_at k + i)" using i by (intro only_changesD [OF k'(5)]) auto
    then show ?thesis using that by (simp add: st(4) al(2,3) hput_bytes_def overlay_def)
  qed
  have "file_in (hmem s') ?p (last_name path) content k k'"
    using nm ty ex nb1 name(2) k'(1) dat by (simp add: file_in_def entry_at_def)
  moreover have "k \<le> k'" using k'(1) by simp
  ultimately show thesis using that k'(3) c da dn by blast
qed

section \<open>The file system on an image\<close>

text \<open>What the file server finds for a structure with an extent.\<close>

lemma of_nat_block: "0 < b \<Longrightarrow> b < 2 ^ 32 \<Longrightarrow> (of_nat b :: u32) \<noteq> 0 \<and> unat (of_nat b :: u32) = b"
  using unat_of_small [of b] by (metis unsigned_0 less_numeral_extra(3))

lemma extent_size: "extent m f b len k k' \<Longrightarrow> len < 2 ^ 31 \<Longrightarrow> f_size m f = int len"
  by (simp add: extent_def f_size_def signed_of_nat signed_take_bit_int_eq_self)

lemma get_block_extent:
  assumes ex: "extent (fmem s) f b len k k'" and len: "len < 2 ^ 31" "nblks len \<le> 1034" and i: "i < nblks len"
    and N: "s_nblocks (fmem s) = of_nat N" "N \<le> 10240" "0 < b" "b + nblks len \<le> N" "0 < k" "k' \<le> N"
  shows "file_get_block f i s = Some (0, Some (blk_at (b + i)), s)"
proof -
  have sz: "f_size (fmem s) f = int len" using extent_size [OF ex len(1)] .
  then have q: "unat (word_of_int (f_size (fmem s) f sdiv 4096) :: u32) = len div 4096" using size_block [of "fmem s" f] by (simp add: sdiv_4096 unat_word_of_nonneg nat_div_distrib len(1))
  have le: "i \<le> len div 4096" using i by (auto simp: nblks_def)
  have bi: "(of_nat (b + i) :: u32) \<noteq> 0" "unat (of_nat (b + i) :: u32) = b + i" using of_nat_block [of "b + i"] N i by auto
  have nN: "unat (s_nblocks (fmem s)) = N" using N(1,2) unat_of_small [of N] by simp
  have da: "diskaddr True (fmem s) (unat (of_nat (b + i) :: u32)) = Some (blk_at (b + i))" unfolding bi(2) diskaddr_def nN using N i by (simp add: blk_at_def)
  show ?thesis
  proof (cases "i < 10")
    case True
    then have "rd32 (fmem s) (f_direct_at f i) = of_nat (b + i)" using ex i by (simp add: extent_def f_direct_at_def)
    then show ?thesis using True le q bi(1) da by (simp add: file_get_block_def file_block_walk_def Let_def)
  next
    case False
    then obtain ind where ind: "rd32 (fmem s) (f + 176) = of_nat ind" "k \<le> ind" "ind < k'" "rd32 (fmem s) (blk_at ind + 4 * (i - 10)) = of_nat (b + i)"
      using ex i by (auto simp: extent_def)
    have u: "(of_nat ind :: u32) \<noteq> 0" "unat (of_nat ind :: u32) = ind" using of_nat_block [of ind] N ind by auto
    have d: "diskaddr True (fmem s) ind = Some (blk_at ind)" unfolding diskaddr_def nN using N ind by (simp add: blk_at_def)
    show ?thesis using False le q bi(1) da ind u d i len(2) by (simp add: file_get_block_def file_block_walk_def Let_def f_indirect_def)
  qed
qed

text \<open>A directory whose structure has the type of a directory and an extent of \<open>c\<close> blocks, with the names \<open>ns\<close> in its first places and no names in the others.\<close>

definition dir_on :: "cmem \<Rightarrow> nat \<Rightarrow> u8 list list \<Rightarrow> nat \<Rightarrow> nat \<Rightarrow> bool" where
  "dir_on m p ns b c \<longleftrightarrow> rd32 m (p + 132) = FTYPE_DIR \<and> (\<exists>k k'. extent m p b (4096 * c) k k') \<and> c < 10 \<and> length ns \<le> 16 * c \<and>
     (\<forall>j < 16 * c. if j < length ns then cstr m (blk_at b + 256 * j) (ns ! j) else m (blk_at b + 256 * j) = 0)"

lemma nb_blocks: "nblks (4096 * c) = c"
  by (simp add: nblks_def)

lemma extent_short: "extent m f b len k k' \<Longrightarrow> nblks len \<le> 10 \<Longrightarrow> extent m f b len j j'"
  by (auto simp: extent_def)

lemma dir_lookup_loop_spec:
  assumes get: "\<And>i. i < c \<Longrightarrow> file_get_block p i s = Some (0, Some (blk_at (b + i)), s)"
    and first: "\<And>j. j < t \<Longrightarrow> \<not> name_is (fmem s) (blk_at b + 256 * j) name" and hit: "name_is (fmem s) (blk_at b + 256 * t) name" and t: "t < 16 * c"
    and i: "i \<le> t div 16"
  shows "dir_lookup_loop [i..<c] p name s = Some (0, Some (blk_at b + 256 * t), s)"
  using i
proof (induction "c - i" arbitrary: i)
  case 0
  then have "t div 16 < c" using t by (simp add: less_mult_imp_div_less)
  then show ?case using 0 by simp
next
  case (Suc n)
  then have ic: "i < c" by simp
  have ls: "[i..<c] = i # [Suc i..<c]" using ic by (rule upt_conv_Cons)
  have a: "blk_at (b + i) + 256 * j = blk_at b + 256 * (16 * i + j)" for j by (simp add: blk_add)
  show ?case
  proof (cases "i = t div 16")
    case True
    have "t = 16 * i + t mod 16" using True by simp
    moreover have "find (\<lambda>j. name_is (fmem s) (blk_at (b + i) + 256 * j) name) [0..<16] = Some (t mod 16)"
    proof -
      have h: "name_is (fmem s) (blk_at (b + i) + 256 * (t mod 16)) name" unfolding a using hit True by simp
      have "\<not> name_is (fmem s) (blk_at (b + i) + 256 * j) name" if "j < t mod 16" for j
        unfolding a using that True mult_div_mod_eq [of 16 t] by (intro first) linarith
      with h show ?thesis unfolding find_Some_iff by (intro exI [of _ "t mod 16"]) (auto simp del: upt_rec_numeral)
    qed
    ultimately show ?thesis unfolding ls using get [OF ic] by (simp add: a del: upt_rec_numeral)
  next
    case False
    then have "16 * i + 16 \<le> t" using Suc.prems by (metis Suc_leI add.commute div_le_mono div_mult_self_is_m le_neq_implies_less less_mult_imp_div_less mult.commute mult_Suc not_le zero_less_numeral)
    then have "find (\<lambda>j. name_is (fmem s) (blk_at (b + i) + 256 * j) name) [0..<16] = None"
    proof -
      have "\<not> name_is (fmem s) (blk_at (b + i) + 256 * j) name" if "j < 16" for j
        unfolding a using that \<open>16 * i + 16 \<le> t\<close> by (intro first) simp
      then show ?thesis unfolding find_None_iff by (auto simp del: upt_rec_numeral)
    qed
    moreover have "dir_lookup_loop [Suc i..<c] p name s = Some (0, Some (blk_at b + 256 * t), s)"
      using Suc False by (intro Suc.hyps) auto
    ultimately show ?thesis unfolding ls using get [OF ic] by (simp del: upt_rec_numeral)
  qed
qed

lemma dir_lookup_finds:
  assumes d: "dir_on (fmem s) p ns b c" and N: "s_nblocks (fmem s) = of_nat N" "N \<le> 10240" "0 < b" "b + c \<le> N"
    and t: "t < length ns" "ns ! t = name" "distinct ns"
  shows "dir_lookup p name s = Some (0, Some (blk_at b + 256 * t), s)"
proof -
  from d obtain k0 k0' where ex: "extent (fmem s) p b (4096 * c) k0 k0'" and c: "c < 10" "length ns \<le> 16 * c" by (auto simp: dir_on_def)
  have sz: "f_size (fmem s) p = int (4096 * c)" using extent_size [OF ex] c(1) by simp
  have get: "file_get_block p i s = Some (0, Some (blk_at (b + i)), s)" if "i < c" for i
    by (rule get_block_extent [where len = "4096 * c" and k = 1 and k' = 1 and N = N])
      (use ex c that N in \<open>auto simp: nb_blocks intro: extent_short\<close>)
  have nm: "cstr (fmem s) (blk_at b + 256 * j) (ns ! j)" if "j < length ns" for j using d that c by (auto simp: dir_on_def)
  have first: "\<not> name_is (fmem s) (blk_at b + 256 * j) name" if "j < t" for j
    using cstr_unique nm [of j] that t by (auto simp: name_is_def distinct_conv_nth dest: cstr_unique)
  have "dir_lookup_loop [0..<c] p name s = Some (0, Some (blk_at b + 256 * t), s)"
    using get first nm [OF t(1)] t c by (intro dir_lookup_loop_spec) (auto simp: name_is_def)
  then show ?thesis using sz c(1) by (simp add: dir_lookup_def sdiv_4096 smod_4096 unat_word_of_nonneg nat_mult_distrib unat_of_small)
qed

section \<open>Building the image\<close>

text \<open>What is fixed in the image while it is built on \<open>N\<close> blocks, of which the first \<open>k\<close> are used: the super block, the bitmap of ones and the empty rest.\<close>

definition protected :: "nat \<Rightarrow> nat \<Rightarrow> nat set" where
  "protected N k = {super_at..<super_at + 8} \<union> {root_at + 132..<root_at + 136} \<union> {bitmap_at..<bitmap_at + 4096} \<union> {blk_at k..<blk_at N}"

definition base_inv :: "nat \<Rightarrow> nat \<Rightarrow> cmem \<Rightarrow> bool" where
  "base_inv N k m \<longleftrightarrow> rd32 m super_at = FS_MAGIC \<and> rd32 m (super_at + 4) = of_nat N \<and> rd32 m (root_at + 132) = FTYPE_DIR \<and>
     (\<forall>a. bitmap_at \<le> a \<longrightarrow> a < bitmap_at + 4096 \<longrightarrow> m a = 0xFF) \<and> (\<forall>a. blk_at k \<le> a \<longrightarrow> a < blk_at N \<longrightarrow> m a = 0)"

lemma base_inv_frame:
  assumes "base_inv N k m" "only_changes A m m'" "A \<inter> protected N k' = {}" "k \<le> k'"
  shows "base_inv N k' m'"
proof -
  have eq: "m' a = m a" if "a \<in> protected N k'" for a using only_changesD [OF assms(2)] assms(3) that by blast
  have "rd32 m' super_at = rd32 m super_at" "rd32 m' (super_at + 4) = rd32 m (super_at + 4)" "rd32 m' (root_at + 132) = rd32 m (root_at + 132)"
    by (rule rd32_cong, rule eq, simp add: protected_def)+
  moreover have "blk_at k \<le> blk_at k'" using assms(4) by (rule blk_mono)
  ultimately show ?thesis using assms(1) eq by (auto simp: base_inv_def protected_def)
qed

lemma roundup_int: "0 < n \<Longrightarrow> n < 2 ^ 20 \<Longrightarrow> fmt_roundup_int (int n) = int (4096 * nblks n)" "fmt_roundup_int 0 = 4096"
proof -
  assume n: "0 < n" "n < 2 ^ 20"
  then obtain j where j: "n = Suc j" by (cases n) auto
  have "fmt_roundup_int (int n) = int j + 4096 - int j mod 4096" using j by (simp add: fmt_roundup_int_def smod_4096)
  moreover have "int (nblks n) = int j div 4096 + 1" using j by (simp add: nblks_def zdiv_int)
  ultimately show "fmt_roundup_int (int n) = int (4096 * nblks n)" by (simp add: minus_mod_eq_mult_div)
qed (simp add: fmt_roundup_int_def signed_modulo_int_def sgn_if)

text \<open>The number of blocks that the size of a directory of \<open>n\<close> entries announces; an empty one is given a block it does not own.\<close>

definition dir_blocks :: "nat \<Rightarrow> nat" where
  "dir_blocks n = (if n = 0 then 1 else nblks (256 * n))"

lemma dir_blocks_bound: "n \<le> 128 \<Longrightarrow> dir_blocks n < 10" "n \<le> 16 * dir_blocks n" "n \<le> 128 \<Longrightarrow> nblks (256 * n) \<le> 8"
proof -
  show b: "n \<le> 128 \<Longrightarrow> nblks (256 * n) \<le> 8" by (rule nb_bound(2)) simp
  then show "n \<le> 128 \<Longrightarrow> dir_blocks n < 10" by (auto simp: dir_blocks_def)
  show "n \<le> 16 * dir_blocks n" using nb_bound(1) [of "256 * n"] by (simp add: dir_blocks_def)
qed

lemma finishdir_spec:
  assumes fin: "finishdir d s = Some s'" and at: "at_block N k s" and n: "d_n d \<le> 128" and ents: "outside_image_at N (d_ents d)"
    and f: "d_f d + 256 \<le> blk_at k \<or> blk_at N \<le> d_f d"
  shows "at_block N (k + nblks (256 * d_n d)) s' \<and> (\<exists>j j'. extent (hmem s') (d_f d) k (4096 * dir_blocks (d_n d)) j j') \<and>
    (\<forall>i < 256 * d_n d. hmem s' (blk_at k + i) = hmem s (d_ents d + i)) \<and>
    only_changes ({d_f d + 128..<d_f d + 132} \<union> {d_f d + 136..<d_f d + 180} \<union> {blk_at k..<blk_at k + 256 * d_n d}) (hmem s) (hmem s')"
proof -
  let ?sz = "256 * d_n d"
  let ?k1 = "k + nblks ?sz"
  from fin obtain start s1 s2 where st: "alloc_bytes (of_nat ?sz) s = Some (start, s1)" "s2 = hput_bytes start (map (\<lambda>i. hmem s1 (d_ents d + i)) [0..<?sz]) s1"
    "finishfile (d_f d) (blockof start) (of_int (fmt_roundup_int (int ?sz))) s2 = Some s'"
    by (auto simp: finishdir_def Let_def bind_eq_Some_conv mult.commute)
  from st(1) alloc_spec [OF at, of ?sz] n have al: "?k1 < N" "start = blk_at k" "s1 = s\<lparr>diskpos := blk_at ?k1\<rparr>" by (auto split: if_splits)
  have at2: "at_block N ?k1 s2" using at al(1) by (simp add: st(2) al(3))
  have len: "of_int (fmt_roundup_int (int ?sz)) = (of_nat (4096 * dir_blocks (d_n d)) :: u32)"
    using roundup_int(1) [of ?sz] roundup_int(2) n by (cases "d_n d = 0") (auto simp: dir_blocks_def)
  have nb8: "dir_blocks (d_n d) < 10" using dir_blocks_bound(1) [OF n] .
  have fin2: "finishfile (d_f d) (of_nat k) (of_nat (4096 * dir_blocks (d_n d))) s2 = Some s'"
    using st(3) al(2) len by (simp add: blockof_blk)
  have "blk_at k \<le> blk_at ?k1" "blk_at (Suc ?k1) \<le> blk_at N" using al(1) by (simp_all add: blk_mono Suc_leI)
  then have fk: "d_f d + 256 \<le> blk_at ?k1 \<or> blk_at (Suc ?k1) \<le> d_f d" using f by linarith
  have "4096 * dir_blocks (d_n d) \<le> MAXFILESIZE" using nb8 by simp
  from finishfile_spec [OF at2 this fin2 fk] nb8 have ff: "at_block N ?k1 s'" "extent (hmem s') (d_f d) k (4096 * dir_blocks (d_n d)) ?k1 ?k1"
    "only_changes ({d_f d + 128..<d_f d + 132} \<union> {d_f d + 136..<d_f d + 180}) (hmem s2) (hmem s')" by (auto simp: nb_blocks)
  have m2: "hmem s2 = overlay (blk_at k) (map (\<lambda>i. hmem s (d_ents d + i)) [0..<?sz]) (hmem s)" by (simp add: st(2) al(2,3) hput_bytes_def)
  have c2: "only_changes {blk_at k..<blk_at k + ?sz} (hmem s) (hmem s2)"
    using only_changes_overlay [of "blk_at k" "map (\<lambda>i. hmem s (d_ents d + i)) [0..<?sz]" "hmem s"] by (simp add: m2)
  have "hmem s' (blk_at k + i) = hmem s (d_ents d + i)" if "i < ?sz" for i
  proof -
    have "blk_at k + i < blk_at ?k1" using that nb_bound(1) [of ?sz] by (simp add: blk_add)
    then have "hmem s' (blk_at k + i) = hmem s2 (blk_at k + i)" using f \<open>blk_at (Suc ?k1) \<le> blk_at N\<close> blk_Suc [of ?k1] by (intro only_changesD [OF ff(3)]) auto
    then show ?thesis using that by (simp add: m2 overlay_def)
  qed
  moreover have "only_changes ({blk_at k..<blk_at k + ?sz} \<union> ({d_f d + 128..<d_f d + 132} \<union> {d_f d + 136..<d_f d + 180})) (hmem s) (hmem s')"
    by (rule only_changes_trans [OF c2 ff(3)])
  ultimately show ?thesis using ff(1,2) by (auto simp: Un_commute)
qed

section \<open>Writing the files\<close>

type_synonym placed = "u8 list \<times> u8 list \<times> nat \<times> nat"

text \<open>The files \<open>es\<close>, with their names, contents and blocks, in the array at \<open>base\<close> from its entry_at \<open>o\<close> on; all blocks lie below \<open>k\<close>.\<close>

definition files_in :: "cmem \<Rightarrow> nat \<Rightarrow> nat \<Rightarrow> placed list \<Rightarrow> nat \<Rightarrow> bool" where
  "files_in m base first_slot es k \<longleftrightarrow>
     (\<forall>j < length es. case es ! j of (name, content, a, b) \<Rightarrow> 3 \<le> a \<and> b \<le> k \<and> file_in m (base + 256 * (first_slot + j)) name content a b)"

lemma files_in_move:
  assumes "files_in m base first_slot es k" "k \<le> k'"
    and ents: "\<And>i. 256 * first_slot \<le> i \<Longrightarrow> i < 256 * (first_slot + length es) \<Longrightarrow> m' (base' + i) = m (base + i)"
    and blocks: "\<And>a. blk_at 3 \<le> a \<Longrightarrow> a < blk_at k \<Longrightarrow> m' a = m a"
  shows "files_in m' base' first_slot es k'"
proof -
  have "file_in m' (base' + 256 * (first_slot + j)) name content a b" if "j < length es" "es ! j = (name, content, a, b)" for j name content a b
  proof (rule file_in_move)
    show "file_in m (base + 256 * (first_slot + j)) name content a b" using assms(1) that by (fastforce simp: files_in_def)
    have le: "3 \<le> a" "b \<le> k" using assms(1) that by (fastforce simp: files_in_def)+
    show "m' (base' + 256 * (first_slot + j) + i) = m (base + 256 * (first_slot + j) + i)" if "i < 256" for i
      using ents [of "256 * (first_slot + j) + i"] that \<open>j < length es\<close> by (simp add: add.assoc)
    show "m' x = m x" if "blk_at a \<le> x" "x < blk_at b" for x using that le blk_mono(1) [of 3 a] blk_mono(1) [of b k] by (intro blocks) linarith+
  qed
  then show ?thesis using assms(1,2) unfolding files_in_def by (fastforce split: prod.splits)
qed

lemma files_in_frame:
  assumes "files_in m base first_slot es k" "k \<le> k'" "only_changes A m m'"
    "A \<inter> {base + 256 * first_slot..<base + 256 * (first_slot + length es)} = {}" "A \<inter> {blk_at 3..<blk_at k} = {}"
  shows "files_in m' base first_slot es k'"
proof (rule files_in_move [OF assms(1,2)])
  show "m' (base + i) = m (base + i)" if "256 * first_slot \<le> i" "i < 256 * (first_slot + length es)" for i
    using that assms(4) by (intro only_changesD [OF assms(3)]) auto
  show "m' a = m a" if "blk_at 3 \<le> a" "a < blk_at k" for a using that assms(5) by (intro only_changesD [OF assms(3)]) auto
qed

lemma files_in_snoc:
  assumes "files_in m base first_slot es k" "file_in m (base + 256 * (first_slot + length es)) name content a b" "3 \<le> a" "b \<le> k"
  shows "files_in m base first_slot (es @ [(name, content, a, b)]) k"
  using assms by (auto simp: files_in_def nth_append less_Suc_eq)

text \<open>The three directories, by their flags.\<close>

definition dsel :: "fflag \<Rightarrow> fdirs \<Rightarrow> fdir" where
  "dsel fl ds = (case fl of FLAG_ROOT \<Rightarrow> droot ds | FLAG_BIN \<Rightarrow> dbin ds | FLAG_SBIN \<Rightarrow> dsbin ds)"

definition dset :: "fflag \<Rightarrow> fdir \<Rightarrow> fdirs \<Rightarrow> fdirs" where
  "dset fl d ds = (case fl of FLAG_ROOT \<Rightarrow> ds\<lparr>droot := d\<rparr> | FLAG_BIN \<Rightarrow> ds\<lparr>dbin := d\<rparr> | FLAG_SBIN \<Rightarrow> ds\<lparr>dsbin := d\<rparr>)"

lemma dsel_dset: "dsel fl' (dset fl d ds) = (if fl' = fl then d else dsel fl' ds)"
  by (cases fl; cases fl') (simp_all add: dsel_def dset_def)

definition first_slot :: "fflag \<Rightarrow> nat" where
  "first_slot fl = (if fl = FLAG_ROOT then 2 else 0)"

text \<open>The files that the arguments put into each directory.\<close>

fun arg_files :: "fflag \<Rightarrow> u8 list list \<Rightarrow> (fflag \<times> u8 list) list" where
  "arg_files flag [] = []"
| "arg_files flag (a # as) =
     (if a = [0x2D, 0x62] then arg_files FLAG_BIN as
      else if a = [0x2D, 0x73, 0x62] then arg_files FLAG_SBIN as
      else (flag, a) # arg_files flag as)"

lemma write_args_file:
  "a \<noteq> [0x2D, 0x62] \<Longrightarrow> a \<noteq> [0x2D, 0x73, 0x62] \<Longrightarrow>
   write_args host flag (a # as) ds s = Option.bind (writefile host (dsel flag ds) a s) (\<lambda>(d, s1). write_args host flag as (dset flag d ds) s1)"
  by (cases flag) (simp_all add: dsel_def dset_def)

text \<open>The arrays of entries, and the structures of the directories; the root has its own in the super block.\<close>

definition arrays_ok :: "nat \<Rightarrow> (fflag \<Rightarrow> nat) \<Rightarrow> bool" where
  "arrays_ok N arr \<longleftrightarrow> (\<forall>fl. outside_image_at N (arr fl)) \<and> (\<forall>fl fl'. fl \<noteq> fl' \<longrightarrow> arr fl + 32768 \<le> arr fl' \<or> arr fl' + 32768 \<le> arr fl)"

definition dstruct :: "(fflag \<Rightarrow> nat) \<Rightarrow> fflag \<Rightarrow> nat" where
  "dstruct arr fl = (case fl of FLAG_ROOT \<Rightarrow> root_at | FLAG_BIN \<Rightarrow> arr FLAG_ROOT | FLAG_SBIN \<Rightarrow> arr FLAG_ROOT + 256)"

definition dname :: "fflag \<Rightarrow> u8 list" where
  "dname fl = (case fl of FLAG_ROOT \<Rightarrow> [0x2F] | FLAG_BIN \<Rightarrow> [0x62, 0x69, 0x6E] | FLAG_SBIN \<Rightarrow> [0x73, 0x62, 0x69, 0x6E])"

definition wr_inv :: "nat \<Rightarrow> (fflag \<Rightarrow> nat) \<Rightarrow> fdirs \<Rightarrow> fmtst \<Rightarrow> nat \<Rightarrow> (fflag \<Rightarrow> placed list) \<Rightarrow> bool" where
  "wr_inv N arr ds s k L \<longleftrightarrow> at_block N k s \<and> 3 \<le> k \<and> base_inv N k (hmem s) \<and> arrays_ok N arr \<and>
     (\<forall>fl. dsel fl ds = \<lparr>d_f = dstruct arr fl, d_ents = arr fl, d_n = first_slot fl + length (L fl)\<rparr> \<and> first_slot fl + length (L fl) \<le> 128 \<and>
        files_in (hmem s) (arr fl) (first_slot fl) (L fl) k) \<and>
     (\<forall>fl. fl \<noteq> FLAG_ROOT \<longrightarrow> cstr (hmem s) (dstruct arr fl) (dname fl) \<and> rd32 (hmem s) (dstruct arr fl + 132) = FTYPE_DIR)"

lemma outside_image: "outside_image_at N p \<Longrightarrow> k \<le> N \<Longrightarrow> p \<le> a \<Longrightarrow> a < p + 32768 \<Longrightarrow> DISKMAP \<le> a \<Longrightarrow> a < blk_at k \<Longrightarrow> False"
  using blk_mono(1) [of k N] by (auto simp: outside_image_at_def)

lemma protected_image: "a \<in> protected N k \<Longrightarrow> 3 \<le> k \<Longrightarrow> k \<le> N \<Longrightarrow> DISKMAP \<le> a \<and> a < blk_at N \<and> (a < blk_at 3 \<or> blk_at k \<le> a)"
  using blk_mono(1) [of 3 N] by (auto simp: protected_def blk_at_def)

lemma arrays_apart: "arrays_ok N arr \<Longrightarrow> arr f \<le> x \<Longrightarrow> x < arr f + 32768 \<Longrightarrow> arr g \<le> x \<Longrightarrow> x < arr g + 32768 \<Longrightarrow> f = g"
proof (rule ccontr)
  assume a: "arrays_ok N arr" "arr f \<le> x" "x < arr f + 32768" "arr g \<le> x" "x < arr g + 32768" "f \<noteq> g"
  then have "arr f + 32768 \<le> arr g \<or> arr g + 32768 \<le> arr f" unfolding arrays_ok_def by blast
  with a show False by linarith
qed

lemma write_step:
  assumes inv: "wr_inv N arr ds s k L" and w: "writefile host (dsel fl ds) a s = Some (d, s1)" "host a = Some content"
    and name: "0 \<notin> set (last_name a)" "length (last_name a) < 128"
  shows "\<exists>k'. wr_inv N arr (dset fl d ds) s1 k' (L(fl := L fl @ [(last_name a, content, k, k')]))"
proof -
  let ?n = "first_slot fl + length (L fl)"
  let ?p = "arr fl + 256 * ?n"
  from inv have I: "at_block N k s" "3 \<le> k" "base_inv N k (hmem s)" "arrays_ok N arr" "outside_image_at N (arr fl)"
    "dsel fl ds = \<lparr>d_f = dstruct arr fl, d_ents = arr fl, d_n = ?n\<rparr>" by (simp_all add: wr_inv_def arrays_ok_def)
  obtain k' where k': "k \<le> k'" "at_block N k' s1" "d = (dsel fl ds)\<lparr>d_n := ?n + 1\<rparr>" "?n < 128" "file_in (hmem s1) ?p (last_name a) content k k'"
    "only_changes ({?p..<?p + 256} \<union> {blk_at k..<blk_at k'}) (hmem s) (hmem s1)"
    using writefile_spec [OF w I(1) _ name] I(5,6) by auto
  have kN: "k' \<le> N" "blk_at k \<le> blk_at k'" "blk_at k' \<le> blk_at N" using k'(1,2) by (auto simp: at_block_def blk_mono)
  have arr_p: "arr fl \<le> ?p" "?p + 256 \<le> arr fl + 32768" using k'(4) by auto
  have "\<not> (DISKMAP \<le> x \<and> x < blk_at N)" if "?p \<le> x" "x < ?p + 256" for x
  proof -
    have "arr fl \<le> x" "x < arr fl + 32768" using arr_p that by linarith+
    then show ?thesis using outside_image [OF I(5) order_refl, of x] by blast
  qed
  then have no_img: "{?p..<?p + 256} \<inter> {x. DISKMAP \<le> x \<and> x < blk_at N} = {}" by (auto simp: disjoint_iff)
  have D: "DISKMAP \<le> blk_at 3" "blk_at 3 \<le> blk_at k" using I(2) by (simp_all add: blk_at_def)
  have other: "files_in (hmem s1) (arr f) (first_slot f) (L f) k'" for f
  proof (rule files_in_frame [OF _ k'(1,6)])
    have lf: "first_slot f + length (L f) \<le> 128" "outside_image_at N (arr f)" using inv by (simp_all add: wr_inv_def arrays_ok_def)
    show "files_in (hmem s) (arr f) (first_slot f) (L f) k" using inv by (simp add: wr_inv_def)
    have "{?p..<?p + 256} \<inter> {arr f + 256 * first_slot f..<arr f + 256 * (first_slot f + length (L f))} = {}"
    proof -
      have False if x: "?p \<le> x" "x < ?p + 256" "arr f + 256 * first_slot f \<le> x" "x < arr f + 256 * (first_slot f + length (L f))" for x
      proof -
        have "256 * (first_slot f + length (L f)) \<le> 32768" using lf(1) by simp
        then have "arr fl \<le> x" "x < arr fl + 32768" "arr f \<le> x" "x < arr f + 32768" using x arr_p by linarith+
        then have "f = fl" using arrays_apart [OF I(4)] by blast
        then show False using x by simp
      qed
      then show ?thesis by (intro Int_emptyI) (unfold atLeastLessThan_iff, blast)
    qed
    moreover have "{blk_at k..<blk_at k'} \<inter> {arr f + 256 * first_slot f..<arr f + 256 * (first_slot f + length (L f))} = {}"
    proof (rule Int_emptyI, unfold atLeastLessThan_iff)
      fix x
      assume x: "blk_at k \<le> x \<and> x < blk_at k'" "arr f + 256 * first_slot f \<le> x \<and> x < arr f + 256 * (first_slot f + length (L f))"
      have "256 * (first_slot f + length (L f)) \<le> 32768" using lf(1) by simp
      then have "arr f \<le> x" "x < arr f + 32768" "DISKMAP \<le> x" using x D by linarith+
      then show False using outside_image [OF lf(2) kN(1)] x by blast
    qed
    ultimately show "({?p..<?p + 256} \<union> {blk_at k..<blk_at k'}) \<inter> {arr f + 256 * first_slot f..<arr f + 256 * (first_slot f + length (L f))} = {}" by blast
    show "({?p..<?p + 256} \<union> {blk_at k..<blk_at k'}) \<inter> {blk_at 3..<blk_at k} = {}" using no_img kN D by auto
  qed
  have base: "base_inv N k' (hmem s1)"
  proof (rule base_inv_frame [OF I(3) k'(6) _ k'(1)])
    show "({?p..<?p + 256} \<union> {blk_at k..<blk_at k'}) \<inter> protected N k' = {}"
      using no_img protected_image [of _ N k'] I(2) k'(1) kN D by fastforce
  qed
  have nm: "cstr (hmem s1) (dstruct arr f) (dname f) \<and> rd32 (hmem s1) (dstruct arr f + 132) = FTYPE_DIR" if "f \<noteq> FLAG_ROOT" for f
  proof -
    have "hmem s1 x = hmem s x" if x: "dstruct arr f \<le> x" "x < dstruct arr f + 256" for x
    proof (rule only_changesD [OF k'(6)])
      have r: "arr FLAG_ROOT \<le> x" "x < arr FLAG_ROOT + 512" using x \<open>f \<noteq> FLAG_ROOT\<close> by (cases f; simp add: dstruct_def)+
      have "x \<notin> {?p..<?p + 256}"
      proof
        assume x: "x \<in> {?p..<?p + 256}"
        then have "arr fl \<le> x" "x < arr fl + 32768" "x < arr FLAG_ROOT + 32768" using r arr_p by simp_all
        then have "fl = FLAG_ROOT" using arrays_apart [OF I(4)] r(1) by blast
        then show False using x r by (simp add: first_slot_def)
      qed
      moreover have "x \<notin> {blk_at k..<blk_at k'}" using outside_image [of N "arr FLAG_ROOT" k' x] I(4) kN r D by (auto simp: arrays_ok_def)
      ultimately show "x \<notin> {?p..<?p + 256} \<union> {blk_at k..<blk_at k'}" by blast
    qed
    then have "cstr (hmem s1) (dstruct arr f) (dname f) = cstr (hmem s) (dstruct arr f) (dname f)" "rd32 (hmem s1) (dstruct arr f + 132) = rd32 (hmem s) (dstruct arr f + 132)"
      by (auto intro!: cstr_cong rd32_cong split: fflag.splits simp: dname_def)
    then show ?thesis using inv that by (simp add: wr_inv_def)
  qed
  have "files_in (hmem s1) (arr fl) (first_slot fl) (L fl @ [(last_name a, content, k, k')]) k'"
    using other [of fl] k'(5) I(2) by (intro files_in_snoc) auto
  then show ?thesis using inv other base nm k' I unfolding wr_inv_def by (intro exI [of _ k']) (auto simp: dsel_dset)
qed

lemma alloc_block_pos:
  assumes "diskpos s = blk_at k" "fnblocks s = of_nat N" "N \<le> 10240" "k \<le> N"
  shows "alloc_bytes 4096 s = (if k + 1 \<ge> N then None else Some (blk_at k, s\<lparr>diskpos := blk_at (k + 1)\<rparr>))"
proof -
  have "nblks 4096 = 1" by (simp add: nblks_def)
  moreover have "alloc_bytes (of_nat 4096) s = (if k + nblks 4096 \<ge> N then None else Some (blk_at k, s\<lparr>diskpos := blk_at (k + nblks 4096)\<rparr>))"
    by (rule alloc_at_pos [OF assms]) simp
  ultimately show ?thesis by simp
qed

lemma opendisk_spec:
  assumes "opendisk (of_nat N) m = Some s" "0 < N" "N \<le> 10240"
  shows "at_block N 3 s \<and> base_inv N 3 (hmem s)"
proof -
  define img where "img = (\<lambda>a. if DISKMAP \<le> a \<and> a < DISKMAP + N * 4096 then 0 else m a)"
  have uN: "unat (of_nat N :: u32) = N" using assms(3) by (intro unat_of_small) simp
  have nbb: "((of_nat N :: u32) + 32768 - 1) div 32768 = 1"
  proof -
    have "(of_nat N :: u32) + 32768 - 1 = of_nat (N + 32767)" by simp
    moreover have "unat (of_nat (N + 32767) div 32768 :: u32) = 1"
      using assms(2,3) unat_of_small [of "N + 32767"] by (simp add: unat_div_distrib)
    ultimately show ?thesis by (metis unat_1 word_unat_eq_iff)
  qed
  have n3: "4 \<le> N \<and> s = \<lparr>hmem = overlay bitmap_at (replicate 4096 0xFF) (overlay root_at [0x2F, 0]
        (wr32 (wr32 (wr32 img super_at FS_MAGIC) (super_at + 4) (of_nat N)) (root_at + 132) FTYPE_DIR)),
      diskpos = blk_at 3, fnblocks = of_nat N, fsuper = super_at, fbitmap = bitmap_at\<rparr>"
    using assms unfolding opendisk_def uN img_def [symmetric] Let_def nbb
    by (auto simp: alloc_block_pos [where N = N and k = 0] alloc_block_pos [where N = N and k = 1] alloc_block_pos [where N = N and k = 2] blk_at_def
        hput32_def hput_bytes_def split: if_splits)
  let ?w = "wr32 (wr32 (wr32 img super_at FS_MAGIC) (super_at + 4) (of_nat N)) (root_at + 132) FTYPE_DIR"
  let ?o = "overlay root_at [0x2F, 0] ?w"
  have hm: "hmem s = overlay bitmap_at (replicate 4096 0xFF) ?o" using n3 by simp
  have r: "rd32 (hmem s) a = rd32 ?w a" if "a + 4 \<le> bitmap_at" "a + 4 \<le> root_at \<or> root_at + 2 \<le> a" for a
  proof -
    have "rd32 (hmem s) a = rd32 ?o a" unfolding hm
      using that by (intro rd32_only [OF only_changes_overlay]) (auto simp: disjoint_iff)
    also have "\<dots> = rd32 ?w a" using that by (intro rd32_only [OF only_changes_overlay]) (auto simp: disjoint_iff)
    finally show ?thesis .
  qed
  have "rd32 (hmem s) super_at = FS_MAGIC" "rd32 (hmem s) (super_at + 4) = of_nat N" "rd32 (hmem s) (root_at + 132) = FTYPE_DIR"
    using r [of super_at] r [of "super_at + 4"] r [of "root_at + 132"] by (simp_all add: rd32_wr32_other)
  moreover have "hmem s a = 0xFF" if "bitmap_at \<le> a" "a < bitmap_at + 4096" for a using that by (simp add: hm overlay_def)
  moreover have "hmem s a = 0" if "blk_at 3 \<le> a" "a < blk_at N" for a
  proof -
    have "hmem s a = ?w a" using that by (simp add: hm overlay_def blk_at_def)
    also have "\<dots> = img a" using that by (simp add: blk_at_def wr32_other)
    also have "\<dots> = 0" using that by (simp add: img_def blk_at_def)
    finally show ?thesis .
  qed
  ultimately show ?thesis using n3 assms(3) by (simp add: base_inv_def at_block_def)
qed

section \<open>Running the arguments\<close>

text \<open>The names and contents of placed files.\<close>

definition content_of :: "placed \<Rightarrow> u8 list \<times> u8 list" where
  "content_of x = (fst x, fst (snd x))"

definition args_ok :: "(fflag \<times> u8 list) list \<Rightarrow> bool" where
  "args_ok as \<longleftrightarrow> (\<forall>(fl, a) \<in> set as. 0 \<notin> set (last_name a) \<and> length (last_name a) < 128)"

lemma write_args_spec:
  assumes "write_args host flag args ds s = Some (ds', s')" "wr_inv N arr ds s k L" "args_ok (arg_files flag args)"
  shows "\<exists>k' L'. wr_inv N arr ds' s' k' L' \<and> (\<forall>fl. map content_of (L' fl) =
    map content_of (L fl) @ map (\<lambda>(_, a). (last_name a, the (host a))) (filter (\<lambda>x. fst x = fl) (arg_files flag args)))"
  using assms
proof (induction args arbitrary: flag ds s k L)
  case Nil
  then show ?case by auto
next
  case (Cons a as)
  show ?case
  proof (cases "a = [0x2D, 0x62] \<or> a = [0x2D, 0x73, 0x62]")
    case True
    then show ?thesis using Cons by auto
  next
    case False
    then have "Option.bind (writefile host (dsel flag ds) a s) (\<lambda>(d, s1). write_args host flag as (dset flag d ds) s1) = Some (ds', s')"
      using write_args_file [of a host flag as ds s] Cons.prems(1) by (simp only: de_Morgan_disj simp_thms)
    then obtain d s1 where w: "writefile host (dsel flag ds) a s = Some (d, s1)" "write_args host flag as (dset flag d ds) s1 = Some (ds', s')"
      by (auto simp: bind_eq_Some_conv)
    then obtain content where h: "host a = Some content" by (auto simp: writefile_def bind_eq_Some_conv)
    have as: "arg_files flag (a # as) = (flag, a) # arg_files flag as" using False by simp
    have ok: "0 \<notin> set (last_name a)" "length (last_name a) < 128" "args_ok (arg_files flag as)" using Cons.prems(3) unfolding as by (simp_all add: args_ok_def)
    from write_step [OF Cons.prems(2) w(1) h ok(1,2)] obtain k1 where
      "wr_inv N arr (dset flag d ds) s1 k1 (L(flag := L flag @ [(last_name a, content, k, k1)]))" by blast
    from Cons.IH [OF w(2) this ok(3)] obtain k' L' where L': "wr_inv N arr ds' s' k' L'" "\<forall>fl. map content_of (L' fl) =
        map content_of ((L(flag := L flag @ [(last_name a, content, k, k1)])) fl) @
        map (\<lambda>(_, a). (last_name a, the (host a))) (filter (\<lambda>x. fst x = fl) (arg_files flag as))" by blast
    have "content_of (last_name a, content, k, k1) = (last_name a, the (host a))" using h by (simp add: content_of_def)
    then have "map content_of (L' fl) = map content_of (L fl) @
        map (\<lambda>(_, a). (last_name a, the (host a))) (filter (\<lambda>x. fst x = fl) (arg_files flag (a # as)))" for fl
      unfolding as using L'(2) by simp
    with L'(1) show ?thesis by blast
  qed
qed

lemma start_inv:
  assumes s: "at_block N 3 s" "base_inv N 3 (hmem s)" and arr: "arrays_ok N arr"
    and d1: "diradd (startdir root_at (arr FLAG_ROOT)) FTYPE_DIR (dname FLAG_BIN) s = Some (fb, root1, s1)"
    and d2: "diradd root1 FTYPE_DIR (dname FLAG_SBIN) s1 = Some (fsb, root2, s2)"
  shows "wr_inv N arr \<lparr>droot = root2, dbin = startdir fb (arr FLAG_BIN), dsbin = startdir fsb (arr FLAG_SBIN)\<rparr> s2 3 (\<lambda>_. [])"
proof -
  let ?r = "arr FLAG_ROOT"
  have n: "0 \<notin> set (dname FLAG_BIN)" "length (dname FLAG_BIN) < 128" "0 \<notin> set (dname FLAG_SBIN)" "length (dname FLAG_SBIN) < 128" by (simp_all add: dname_def)
  note a = diradd_spec [OF d1 n(1,2) s(1)]
  then have at1: "at_block N 3 s1" by simp
  note b = diradd_spec [OF d2 n(3,4) at1]
  have fb: "fb = ?r" "root1 = \<lparr>d_f = root_at, d_ents = ?r, d_n = 1\<rparr>" using a by (simp_all add: startdir_def)
  have fsb: "fsb = ?r + 256" "root2 = \<lparr>d_f = root_at, d_ents = ?r, d_n = 2\<rparr>" using b fb by simp_all
  have c1: "only_changes {?r..<?r + 136} (hmem s) (hmem s1)" and c2: "only_changes {?r + 256..<?r + 392} (hmem s1) (hmem s2)" using a b fb fsb by (simp_all add: add.assoc)
  have sbin: "cstr (hmem s2) (?r + 256) (dname FLAG_SBIN)" "rd32 (hmem s2) (?r + (256 + 132)) = FTYPE_DIR"
  proof -
    have "cstr (hmem s2) fsb (dname FLAG_SBIN)" "rd32 (hmem s2) (fsb + 132) = FTYPE_DIR" using b by blast+
    then show "cstr (hmem s2) (?r + 256) (dname FLAG_SBIN)" "rd32 (hmem s2) (?r + (256 + 132)) = FTYPE_DIR" unfolding fsb(1) by (simp_all only: add.assoc)
  qed
  have bin: "cstr (hmem s2) ?r (dname FLAG_BIN)" "rd32 (hmem s2) (?r + 132) = FTYPE_DIR"
  proof -
    show "cstr (hmem s2) ?r (dname FLAG_BIN)" using a fb n(2) by (subst cstr_cong [where m' = "hmem s1"]) (auto intro!: only_changesD [OF c2])
    show "rd32 (hmem s2) (?r + 132) = FTYPE_DIR" using a fb rd32_only [OF c2, of "?r + 132"] by (simp add: disjoint_iff)
  qed
  have "base_inv N 3 (hmem s2)"
  proof (rule base_inv_frame [OF s(2) only_changes_trans [OF c1 c2] _ order_refl])
    have "outside_image_at N ?r" "3 < N" using arr s(1) by (simp_all add: arrays_ok_def at_block_def)
    then show "({?r..<?r + 136} \<union> {?r + 256..<?r + 392}) \<inter> protected N 3 = {}"
      using protected_image [of _ N 3] outside_image [of N ?r N] by fastforce
  qed
  moreover have "dsel fl \<lparr>droot = root2, dbin = startdir fb (arr FLAG_BIN), dsbin = startdir fsb (arr FLAG_SBIN)\<rparr> = \<lparr>d_f = dstruct arr fl, d_ents = arr fl, d_n = first_slot fl\<rparr>" for fl
    by (cases fl) (simp_all add: dsel_def startdir_def fb fsb dstruct_def first_slot_def)
  moreover have "cstr (hmem s2) (dstruct arr fl) (dname fl) \<and> rd32 (hmem s2) (dstruct arr fl + 132) = FTYPE_DIR" if "fl \<noteq> FLAG_ROOT" for fl
    using that bin sbin by (cases fl) (simp_all add: dstruct_def add.assoc)
  moreover have "first_slot fl \<le> 128" for fl by (simp add: first_slot_def)
  ultimately show ?thesis using b arr by (simp add: wr_inv_def files_in_def)
qed

section \<open>Finished directories\<close>

text \<open>A directory with the structure at \<open>p\<close>: its entries, first those named \<open>ns\<close> and then the files \<open>es\<close>, start at block \<open>b\<close>; everything lies below block \<open>k\<close>.
  Unless it is empty, the rest of its last block is zero.\<close>

definition dir_done :: "cmem \<Rightarrow> nat \<Rightarrow> u8 list list \<Rightarrow> placed list \<Rightarrow> nat \<Rightarrow> nat \<Rightarrow> bool" where
  "dir_done m p ns es b k \<longleftrightarrow> (let n = length ns + length es in
     rd32 m (p + 132) = FTYPE_DIR \<and> (\<exists>j j'. extent m p b (4096 * dir_blocks n) j j') \<and> 3 \<le> b \<and> b + nblks (256 * n) \<le> k \<and> n \<le> 128 \<and>
     (\<forall>j < length ns. cstr m (blk_at b + 256 * j) (ns ! j) \<and> length (ns ! j) < 128) \<and> files_in m (blk_at b) (length ns) es k \<and>
     (\<forall>i. 256 * n \<le> i \<longrightarrow> i < 4096 * nblks (256 * n) \<longrightarrow> m (blk_at b + i) = 0))"

lemma cstr_move: "(\<And>i. i \<le> length xs \<Longrightarrow> m' (q + i) = m (p + i)) \<Longrightarrow> cstr m' q xs = cstr m p xs"
  by (auto simp: cstr_bytes bytes_at_nth)

lemma dir_done_move:
  assumes d: "dir_done m p ns es b k" and k: "k \<le> k'"
    and p: "\<And>i. i < 256 \<Longrightarrow> m' (p' + i) = m (p + i)" and blocks: "\<And>a. blk_at 3 \<le> a \<Longrightarrow> a < blk_at k \<Longrightarrow> m' a = m a"
  shows "dir_done m' p' ns es b k'"
proof -
  let ?n = "length ns + length es"
  have n: "3 \<le> b" "b + nblks (256 * ?n) \<le> k" "?n \<le> 128" using d by (simp_all add: dir_done_def Let_def)
  have in_blocks: "m' (blk_at b + i) = m (blk_at b + i)" if "i < 4096 * nblks (256 * ?n)" for i
  proof (rule blocks)
    show "blk_at 3 \<le> blk_at b + i" using blk_mono(1) [OF n(1)] by simp
    show "blk_at b + i < blk_at k" using blk_mono(1) [OF n(2)] that unfolding blk_add by linarith
  qed
  have le: "256 * ?n \<le> 4096 * nblks (256 * ?n)" by (rule nb_bound)
  have "cstr m' (blk_at b + 256 * j) (ns ! j) = cstr m (blk_at b + 256 * j) (ns ! j)" if "j < length ns" for j
  proof (rule cstr_move)
    fix i
    assume i: "i \<le> length (ns ! j)"
    have "length (ns ! j) < 128" using d that by (simp add: dir_done_def Let_def)
    moreover have "256 * j + 256 \<le> 256 * ?n" using that by simp
    ultimately have "256 * j + i < 4096 * nblks (256 * ?n)" using le i by linarith
    then show "m' (blk_at b + 256 * j + i) = m (blk_at b + 256 * j + i)" using in_blocks [of "256 * j + i"] by (simp add: add.assoc)
  qed
  moreover have "files_in m' (blk_at b) (length ns) es k'"
  proof (rule files_in_move [OF _ k])
    show "files_in m (blk_at b) (length ns) es k" using d by (simp add: dir_done_def Let_def)
    show "m' (blk_at b + i) = m (blk_at b + i)" if "i < 256 * (length ns + length es)" for i using that le by (intro in_blocks) linarith
  qed (rule blocks)
  moreover obtain j j' where "extent m p b (4096 * dir_blocks ?n) j j'" using d by (auto simp: dir_done_def Let_def)
  then have "\<exists>j j'. extent m' p' b (4096 * dir_blocks ?n) j j'"
  proof -
    assume e: "extent m p b (4096 * dir_blocks ?n) j j'"
    have c: "nblks (4096 * dir_blocks ?n) \<le> 10" using dir_blocks_bound(1) [OF n(3)] by (simp add: nb_blocks)
    have "extent m p b (4096 * dir_blocks ?n) 0 0" using extent_short [OF e c] .
    then have "extent m' p' b (4096 * dir_blocks ?n) 0 0" by (rule extent_move) (use c p in auto)
    then show ?thesis by blast
  qed
  moreover have "rd32 m' (p' + 132) = rd32 m (p + 132)" by (rule rd32_move) (simp add: p add.assoc)
  ultimately show ?thesis using d k in_blocks by (simp add: dir_done_def Let_def)
qed

text \<open>Writing out a directory.\<close>

lemma finish_step:
  assumes fin: "finishdir \<lparr>d_f = p, d_ents = e, d_n = length ns + length es\<rparr> s = Some s'"
    and s: "at_block N k s" "3 \<le> k" "base_inv N k (hmem s)" and n: "length ns + length es \<le> 128" and e: "outside_image_at N e"
    and p: "p = root_at \<or> p + 256 \<le> DISKMAP \<or> blk_at N \<le> p" and ty: "rd32 (hmem s) (p + 132) = FTYPE_DIR"
    and ns: "\<And>j. j < length ns \<Longrightarrow> cstr (hmem s) (e + 256 * j) (ns ! j) \<and> length (ns ! j) < 128"
    and es: "files_in (hmem s) e (length ns) es k"
  obtains k' where "k \<le> k'" "at_block N k' s'" "base_inv N k' (hmem s')" "dir_done (hmem s') p ns es k k'"
    "\<forall>i < 256 * (length ns + length es). hmem s' (blk_at k + i) = hmem s (e + i)" "blk_at k + 256 * (length ns + length es) \<le> blk_at k'"
    "only_changes ({p + 128..<p + 132} \<union> {p + 136..<p + 180} \<union> {blk_at k..<blk_at k'}) (hmem s) (hmem s')"
proof -
  let ?n = "length ns + length es"
  let ?k' = "k + nblks (256 * ?n)"
  have D: "root_at + 256 \<le> blk_at 3" "blk_at 3 \<le> blk_at k" "DISKMAP \<le> blk_at 3" using s(2) by (simp_all add: blk_at_def)
  have f: "p + 256 \<le> blk_at k \<or> blk_at N \<le> p" using p D by linarith
  have F: "at_block N ?k' s'" "\<exists>j j'. extent (hmem s') p k (4096 * dir_blocks ?n) j j'" "\<forall>i < 256 * ?n. hmem s' (blk_at k + i) = hmem s (e + i)"
    "only_changes ({p + 128..<p + 132} \<union> {p + 136..<p + 180} \<union> {blk_at k..<blk_at k + 256 * ?n}) (hmem s) (hmem s')"
    using finishdir_spec [OF fin s(1)] n e f by simp_all
  have le: "blk_at k + 256 * ?n \<le> blk_at ?k'" using nb_bound(1) [of "256 * ?n"] unfolding blk_add by linarith
  have kN: "?k' < N" "blk_at ?k' \<le> blk_at N" using F(1) by (auto simp: at_block_def blk_mono)
  have oc: "only_changes ({p + 128..<p + 132} \<union> {p + 136..<p + 180} \<union> {blk_at k..<blk_at ?k'}) (hmem s) (hmem s')"
    using F(4) le by (auto intro: only_changes_mono)
  have base: "base_inv N ?k' (hmem s')"
  proof (rule base_inv_frame [OF s(3) oc])
    have img: "DISKMAP \<le> x \<and> x < blk_at N \<and> (x < blk_at 3 \<or> blk_at ?k' \<le> x)" if "x \<in> protected N ?k'" for x
      using protected_image [OF that] s(2) kN(1) by simp
    have "x \<notin> {p + 128..<p + 132} \<union> {p + 136..<p + 180}" if x: "x \<in> protected N ?k'" for x
    proof (cases "p = root_at")
      case True
      then show ?thesis using x D le unfolding protected_def by auto
    next
      case False
      then show ?thesis using img [OF x] p by auto
    qed
    moreover have "x \<notin> {blk_at k..<blk_at ?k'}" if x: "x \<in> protected N ?k'" for x using img [OF x] D by auto
    ultimately show "({p + 128..<p + 132} \<union> {p + 136..<p + 180} \<union> {blk_at k..<blk_at ?k'}) \<inter> protected N ?k' = {}" by blast
  qed simp
  have away: "p + 180 \<le> blk_at k \<or> blk_at ?k' \<le> p" using f kN(2) by linarith
  have ty': "rd32 (hmem s') (p + 132) = FTYPE_DIR"
    unfolding ty [symmetric] by (rule rd32_only [OF oc]) (use away in auto)
  have cs: "cstr (hmem s') (blk_at k + 256 * j) (ns ! j)" if j: "j < length ns" for j
  proof -
    have "256 * j + 256 \<le> 256 * ?n" using j by simp
    then have "hmem s' (blk_at k + 256 * j + i) = hmem s (e + 256 * j + i)" if "i \<le> length (ns ! j)" for i
      using F(3) [rule_format, of "256 * j + i"] that ns [OF j] by (simp add: add.assoc)
    then have "cstr (hmem s') (blk_at k + 256 * j) (ns ! j) = cstr (hmem s) (e + 256 * j) (ns ! j)" by (rule cstr_move)
    then show ?thesis using ns [OF j] by simp
  qed
  have fi: "files_in (hmem s') (blk_at k) (length ns) es ?k'"
  proof (rule files_in_move [OF es])
    show "hmem s' (blk_at k + i) = hmem s (e + i)" if "i < 256 * (length ns + length es)" for i using F(3) that by simp
    show "hmem s' a = hmem s a" if "blk_at 3 \<le> a" "a < blk_at k" for a
    proof (rule only_changesD [OF oc])
      have "\<not> (p + 128 \<le> a \<and> a < p + 180)" using that p D kN(2) le by linarith
      then show "a \<notin> {p + 128..<p + 132} \<union> {p + 136..<p + 180} \<union> {blk_at k..<blk_at ?k'}" using that by auto
    qed
  qed simp
  have z: "hmem s' (blk_at k + i) = 0" if "256 * ?n \<le> i" "i < 4096 * nblks (256 * ?n)" for i
  proof -
    have "blk_at k + i < blk_at ?k'" using that unfolding blk_add by linarith
    then have "hmem s' (blk_at k + i) = hmem s (blk_at k + i)" using that away by (intro only_changesD [OF F(4)]) auto
    also have "\<dots> = 0" using s(3) \<open>blk_at k + i < blk_at ?k'\<close> kN(2) by (simp add: base_inv_def)
    finally show ?thesis .
  qed
  have "dir_done (hmem s') p ns es k ?k'" using F(2) ty' s(2) n cs ns fi z by (simp add: dir_done_def Let_def)
  with F base oc le show thesis by (intro that [of ?k']) simp_all
qed

text \<open>The state while the directories are written out: those in \<open>fls\<close> are finished, with their entries at the blocks \<open>B\<close>.\<close>

definition fin_inv :: "nat \<Rightarrow> (fflag \<Rightarrow> nat) \<Rightarrow> fmtst \<Rightarrow> nat \<Rightarrow> (fflag \<Rightarrow> placed list) \<Rightarrow> (fflag \<Rightarrow> nat) \<Rightarrow> fflag set \<Rightarrow> bool" where
  "fin_inv N arr s k L B fls \<longleftrightarrow> at_block N k s \<and> 3 \<le> k \<and> base_inv N k (hmem s) \<and> arrays_ok N arr \<and>
     (\<forall>fl. first_slot fl + length (L fl) \<le> 128 \<and> files_in (hmem s) (arr fl) (first_slot fl) (L fl) k) \<and>
     (\<forall>fl. fl \<noteq> FLAG_ROOT \<longrightarrow> cstr (hmem s) (dstruct arr fl) (dname fl) \<and> rd32 (hmem s) (dstruct arr fl + 132) = FTYPE_DIR) \<and>
     (\<forall>fl \<in> fls. dir_done (hmem s) (dstruct arr fl) [] (L fl) (B fl) k)"

lemma sub_struct: "fl \<noteq> FLAG_ROOT \<Longrightarrow> arr FLAG_ROOT \<le> dstruct arr fl \<and> dstruct arr fl + 256 \<le> arr FLAG_ROOT + 512"
  by (cases fl) (simp_all add: dstruct_def)

lemma sub_structs_apart:
  "f \<noteq> FLAG_ROOT \<Longrightarrow> g \<noteq> FLAG_ROOT \<Longrightarrow> f \<noteq> g \<Longrightarrow> dstruct arr f + 256 \<le> dstruct arr g \<or> dstruct arr g + 256 \<le> dstruct arr f"
  by (cases f; cases g) (simp_all add: dstruct_def)

lemma sub_outside: "arrays_ok N arr \<Longrightarrow> fl \<noteq> FLAG_ROOT \<Longrightarrow> dstruct arr fl + 256 \<le> DISKMAP \<or> blk_at N \<le> dstruct arr fl"
proof -
  assume a: "arrays_ok N arr" "fl \<noteq> FLAG_ROOT"
  then have "arr FLAG_ROOT + 32768 \<le> DISKMAP \<or> blk_at N \<le> arr FLAG_ROOT" by (simp add: arrays_ok_def outside_image_at_def)
  then show ?thesis using sub_struct [OF a(2), of arr] by linarith
qed

text \<open>What \<open>finishdir\<close> of a subdirectory leaves alone.\<close>

lemma sub_keeps:
  assumes oc: "only_changes ({dstruct arr fl + 128..<dstruct arr fl + 132} \<union> {dstruct arr fl + 136..<dstruct arr fl + 180} \<union> {blk_at k..<blk_at k'}) m m'"
    and fl: "fl \<noteq> FLAG_ROOT" and arr: "arrays_ok N arr" and k: "3 \<le> k" "k \<le> k'" "k' \<le> N"
  shows "\<And>x. blk_at 3 \<le> x \<Longrightarrow> x < blk_at k \<Longrightarrow> m' x = m x"
    "\<And>f x. arr f + 256 * first_slot f \<le> x \<Longrightarrow> x < arr f + 32768 \<Longrightarrow> m' x = m x"
    "\<And>f i. f \<noteq> FLAG_ROOT \<Longrightarrow> f \<noteq> fl \<Longrightarrow> i < 256 \<Longrightarrow> m' (dstruct arr f + i) = m (dstruct arr f + i)"
    "\<And>i. i < 128 \<or> 132 \<le> i \<and> i < 136 \<Longrightarrow> m' (dstruct arr fl + i) = m (dstruct arr fl + i)"
proof -
  let ?p = "dstruct arr fl"
  note p = sub_struct [OF fl, of arr] and po = sub_outside [OF arr fl]
  have D: "DISKMAP \<le> blk_at 3" "blk_at 3 \<le> blk_at k" "blk_at k \<le> blk_at k'" "blk_at k' \<le> blk_at N" using k by (simp_all add: blk_mono) (simp add: blk_at_def)
  have keep: "m' x = m x" if "x < ?p + 128 \<or> ?p + 132 \<le> x \<and> x < ?p + 136 \<or> ?p + 180 \<le> x" "x < blk_at k \<or> blk_at k' \<le> x" for x
    using that by (intro only_changesD [OF oc]) auto
  have o: "arr f + 32768 \<le> DISKMAP \<or> blk_at N \<le> arr f" for f using arr by (simp add: arrays_ok_def outside_image_at_def)
  show "m' x = m x" if "blk_at 3 \<le> x" "x < blk_at k" for x
  proof (rule keep)
    show "x < ?p + 128 \<or> ?p + 132 \<le> x \<and> x < ?p + 136 \<or> ?p + 180 \<le> x"
      using that po D by linarith
  qed (use that in simp)
  show "m' x = m x" if x: "arr f + 256 * first_slot f \<le> x" "x < arr f + 32768" for f x
  proof (rule keep)
    show "x < blk_at k \<or> blk_at k' \<le> x" using o [of f] x D by linarith
    show "x < ?p + 128 \<or> ?p + 132 \<le> x \<and> x < ?p + 136 \<or> ?p + 180 \<le> x"
    proof (cases "f = FLAG_ROOT")
      case True
      then show ?thesis using x p by (simp add: first_slot_def)
    next
      case False
      then have "arr f + 32768 \<le> arr FLAG_ROOT \<or> arr FLAG_ROOT + 32768 \<le> arr f" using arr by (simp add: arrays_ok_def)
      then show ?thesis using x p by linarith
    qed
  qed
  show "m' (dstruct arr f + i) = m (dstruct arr f + i)" if "f \<noteq> FLAG_ROOT" "f \<noteq> fl" "i < 256" for f i
    using sub_structs_apart [OF that(1) fl that(2), of arr] sub_outside [OF arr that(1)] that(3) D by (intro keep) linarith+
  show "m' (?p + i) = m (?p + i)" if "i < 128 \<or> 132 \<le> i \<and> i < 136" for i
    using that po D by (intro keep) linarith+
qed

lemma fin_sub:
  assumes inv: "fin_inv N arr s k L B fls" and fl: "fl \<noteq> FLAG_ROOT" "fl \<notin> fls" "FLAG_ROOT \<notin> fls"
    and fin: "finishdir \<lparr>d_f = dstruct arr fl, d_ents = arr fl, d_n = length (L fl)\<rparr> s = Some s'"
  shows "\<exists>k' B'. fin_inv N arr s' k' L B' (insert fl fls)"
proof -
  have I: "at_block N k s" "3 \<le> k" "base_inv N k (hmem s)" "arrays_ok N arr" "length (L fl) \<le> 128" "outside_image_at N (arr fl)"
    "files_in (hmem s) (arr fl) 0 (L fl) k" "rd32 (hmem s) (dstruct arr fl + 132) = FTYPE_DIR"
  proof -
    have "first_slot fl = 0" using fl(1) by (simp add: first_slot_def)
    moreover have "first_slot fl + length (L fl) \<le> 128" "files_in (hmem s) (arr fl) (first_slot fl) (L fl) k" using inv unfolding fin_inv_def by blast+
    ultimately show "length (L fl) \<le> 128" "files_in (hmem s) (arr fl) 0 (L fl) k" by simp_all
  qed (use inv fl(1) in \<open>simp_all add: fin_inv_def arrays_ok_def\<close>)
  obtain k' where k': "k \<le> k'" "at_block N k' s'" "base_inv N k' (hmem s')" "dir_done (hmem s') (dstruct arr fl) [] (L fl) k k'"
    "only_changes ({dstruct arr fl + 128..<dstruct arr fl + 132} \<union> {dstruct arr fl + 136..<dstruct arr fl + 180} \<union> {blk_at k..<blk_at k'}) (hmem s) (hmem s')"
    by (rule finish_step [where ns = "[]" and es = "L fl" and p = "dstruct arr fl" and e = "arr fl", OF _ I(1-3)]) (use fin I sub_outside [OF I(4) fl(1)] in simp_all)
  note keep = sub_keeps [OF k'(5) fl(1) I(4,2) k'(1)]
  have kN: "k' \<le> N" using k'(2) by (simp add: at_block_def)
  have files: "files_in (hmem s') (arr f) (first_slot f) (L f) k'" for f
  proof (rule files_in_move [OF _ k'(1)])
    show "files_in (hmem s) (arr f) (first_slot f) (L f) k" using inv by (simp add: fin_inv_def)
    have "first_slot f + length (L f) \<le> 128" using inv by (simp add: fin_inv_def)
    then have "256 * (first_slot f + length (L f)) \<le> 32768" by simp
    then show "hmem s' (arr f + i) = hmem s (arr f + i)" if "256 * first_slot f \<le> i" "i < 256 * (first_slot f + length (L f))" for i
      using that by (intro keep(2) [OF kN, of f]) linarith+
  qed (rule keep(1) [OF kN])
  have small: "hmem s' (dstruct arr f + i) = hmem s (dstruct arr f + i)" if "f \<noteq> FLAG_ROOT" "i < 128 \<or> 132 \<le> i \<and> i < 136" for f i
    using that keep(3) [OF kN, of f i] keep(4) [OF kN, of i] by (cases "f = fl") auto
  have names: "cstr (hmem s') (dstruct arr f) (dname f) \<and> rd32 (hmem s') (dstruct arr f + 132) = FTYPE_DIR" if f: "f \<noteq> FLAG_ROOT" for f
  proof -
    have "length (dname f) < 128" by (simp add: dname_def split: fflag.splits)
    then have "cstr (hmem s') (dstruct arr f) (dname f) = cstr (hmem s) (dstruct arr f) (dname f)"
      "rd32 (hmem s') (dstruct arr f + 132) = rd32 (hmem s) (dstruct arr f + 132)"
      using small [OF f] by (auto intro!: cstr_move rd32_move simp: add.assoc)
    then show ?thesis using inv f by (simp add: fin_inv_def)
  qed
  have "dir_done (hmem s') (dstruct arr f) [] (L f) (B f) k'" if f: "f \<in> fls" for f
  proof (rule dir_done_move [OF _ k'(1)])
    show "dir_done (hmem s) (dstruct arr f) [] (L f) (B f) k" using inv f by (simp add: fin_inv_def)
    show "hmem s' (dstruct arr f + i) = hmem s (dstruct arr f + i)" if "i < 256" for i
      using f fl that by (intro keep(3) [OF kN]) auto
  qed (rule keep(1) [OF kN])
  then have "fin_inv N arr s' k' L (B(fl := k)) (insert fl fls)"
    using inv I(2) k' files names fl(2) by (auto simp: fin_inv_def)
  then show ?thesis by blast
qed

section \<open>The bitmap\<close>

lemma clear_bit_spec:
  assumes "fbitmap s = bitmap_at" "i < 10240"
  shows "\<exists>m. clear_bit i s = s\<lparr>hmem := m\<rparr> \<and> only_changes {bitmap_at..<bitmap_at + 4096} (hmem s) m \<and>
    (\<forall>b. block_is_free m b \<longleftrightarrow> b \<noteq> i \<and> block_is_free (hmem s) b)"
proof -
  let ?w = "rd32 (hmem s) (bitmap_word i) AND NOT (push_bit (i mod 32) 1)"
  have eq: "clear_bit i s = s\<lparr>hmem := wr32 (hmem s) (bitmap_word i) ?w\<rparr>"
    by (simp add: clear_bit_def hput32_def bitmap_word_def assms(1) Let_def)
  have "i div 32 < 320" using assms(2) by (intro less_mult_imp_div_less) simp
  then have sub: "{bitmap_word i..<bitmap_word i + 4} \<subseteq> {bitmap_at..<bitmap_at + 4096}" by (auto simp: bitmap_word_def)
  have "block_is_free (wr32 (hmem s) (bitmap_word i) ?w) b \<longleftrightarrow>
      (if b = i then i < unat (s_nblocks (hmem s)) \<and> False else block_is_free (hmem s) b)" for b
    by (rule free_after_wr) (auto simp: bit_simps)
  then have "\<forall>b. block_is_free (wr32 (hmem s) (bitmap_word i) ?w) b \<longleftrightarrow> b \<noteq> i \<and> block_is_free (hmem s) b" by simp
  with only_changes_mono [OF only_changes_wr32 sub] show ?thesis unfolding eq by blast
qed

lemma clear_bits_spec:
  assumes "fbitmap s = bitmap_at" "j \<le> 10240"
  shows "\<exists>m. fold clear_bit [0..<j] s = s\<lparr>hmem := m\<rparr> \<and> only_changes {bitmap_at..<bitmap_at + 4096} (hmem s) m \<and>
    (\<forall>b. block_is_free m b \<longleftrightarrow> j \<le> b \<and> block_is_free (hmem s) b)"
  using assms(2)
proof (induction j)
  case 0
  then show ?case by (intro exI [of _ "hmem s"]) simp
next
  case (Suc j)
  then obtain m where m: "fold clear_bit [0..<j] s = s\<lparr>hmem := m\<rparr>" "only_changes {bitmap_at..<bitmap_at + 4096} (hmem s) m"
    "\<And>b. block_is_free m b \<longleftrightarrow> j \<le> b \<and> block_is_free (hmem s) b" by auto
  have "fbitmap (s\<lparr>hmem := m\<rparr>) = bitmap_at" "j < 10240" using assms(1) Suc.prems by simp_all
  from clear_bit_spec [OF this] obtain m' where m': "clear_bit j (s\<lparr>hmem := m\<rparr>) = s\<lparr>hmem := m'\<rparr>" "only_changes {bitmap_at..<bitmap_at + 4096} m m'"
    "\<And>b. block_is_free m' b \<longleftrightarrow> b \<noteq> j \<and> block_is_free m b" by auto
  have "only_changes {bitmap_at..<bitmap_at + 4096} (hmem s) m'" using only_changes_trans [OF m(2) m'(2)] by simp
  moreover have "fold clear_bit [0..<Suc j] s = s\<lparr>hmem := m'\<rparr>" by (simp add: m(1) m'(1))
  moreover have "block_is_free m' b \<longleftrightarrow> Suc j \<le> b \<and> block_is_free (hmem s) b" for b unfolding m'(3) m(3) by auto
  ultimately show ?case by blast
qed

lemma finishdisk_spec:
  assumes at: "at_block N k s" and base: "base_inv N k (hmem s)"
  shows "only_changes {bitmap_at..<bitmap_at + 4096} (hmem s) (hmem (finishdisk s)) \<and>
    (\<forall>b. block_is_free (hmem (finishdisk s)) b \<longleftrightarrow> k \<le> b \<and> b < N)"
proof -
  have N: "N \<le> 10240" "k < N" using at by (simp_all add: at_block_def)
  have uk: "unat (blockof (diskpos s)) = k" using at N unat_of_small [of k] by (simp add: at_block_def blockof_blk)
  have "unat (s_nblocks (hmem s)) = N" using base N unat_of_small [of N] by (simp add: base_inv_def s_nblocks_def)
  moreover have "bit (rd32 (hmem s) (bitmap_word b)) (b mod 32)" if "b < N" for b
  proof -
    have "b div 32 < 320" using that N by (intro less_mult_imp_div_less) simp
    then have r: "bitmap_at \<le> bitmap_word b" "bitmap_word b + 4 \<le> bitmap_at + 4096" by (simp_all add: bitmap_word_def)
    have "rd32 (hmem s) (bitmap_word b) = - 1"
      using base r by (simp add: base_inv_def rd32_def)
    then show ?thesis by simp
  qed
  ultimately have free: "block_is_free (hmem s) b \<longleftrightarrow> b < N" for b by (auto simp: block_is_free_iff)
  have "fbitmap s = bitmap_at" "k \<le> 10240" using at N by (simp_all add: at_block_def)
  from clear_bits_spec [OF this] obtain m where m: "fold clear_bit [0..<k] s = s\<lparr>hmem := m\<rparr>"
    "only_changes {bitmap_at..<bitmap_at + 4096} (hmem s) m" "\<forall>b. block_is_free m b \<longleftrightarrow> k \<le> b \<and> block_is_free (hmem s) b" by blast
  have "hmem (finishdisk s) = m" unfolding finishdisk_def uk m(1) by simp
  then show ?thesis using m(2,3) unfolding free by blast
qed

section \<open>The image\<close>

definition image_ok :: "cmem \<Rightarrow> nat \<Rightarrow> nat \<Rightarrow> (fflag \<Rightarrow> placed list) \<Rightarrow> nat \<Rightarrow> (fflag \<Rightarrow> nat) \<Rightarrow> bool" where
  "image_ok m N k L br B \<longleftrightarrow> N \<le> 10240 \<and> 3 \<le> k \<and> k < N \<and> s_magic m = FS_MAGIC \<and> s_nblocks m = of_nat N \<and>
     (\<forall>b. block_is_free m b \<longleftrightarrow> k \<le> b \<and> b < N) \<and>
     dir_done m root_at [dname FLAG_BIN, dname FLAG_SBIN] (L FLAG_ROOT) br k \<and>
     dir_done m (blk_at br) [] (L FLAG_BIN) (B FLAG_BIN) k \<and> dir_done m (blk_at br + 256) [] (L FLAG_SBIN) (B FLAG_SBIN) k"

lemma finish_root:
  assumes inv: "fin_inv N arr s k L B {FLAG_BIN, FLAG_SBIN}"
    and fin: "finishdir \<lparr>d_f = root_at, d_ents = arr FLAG_ROOT, d_n = 2 + length (L FLAG_ROOT)\<rparr> s = Some s'"
  shows "\<exists>k'. image_ok (hmem (finishdisk s')) N k' L k B"
proof -
  let ?ns = "[dname FLAG_BIN, dname FLAG_SBIN]"
  have I: "at_block N k s" "3 \<le> k" "base_inv N k (hmem s)" "outside_image_at N (arr FLAG_ROOT)" "rd32 (hmem s) (root_at + 132) = FTYPE_DIR"
    "2 + length (L FLAG_ROOT) \<le> 128" "files_in (hmem s) (arr FLAG_ROOT) 2 (L FLAG_ROOT) k"
  proof -
    have "first_slot FLAG_ROOT = 2" by (simp add: first_slot_def)
    moreover have "first_slot FLAG_ROOT + length (L FLAG_ROOT) \<le> 128" "files_in (hmem s) (arr FLAG_ROOT) (first_slot FLAG_ROOT) (L FLAG_ROOT) k"
      using inv unfolding fin_inv_def by blast+
    ultimately show "2 + length (L FLAG_ROOT) \<le> 128" "files_in (hmem s) (arr FLAG_ROOT) 2 (L FLAG_ROOT) k" by simp_all
  qed (use inv in \<open>simp_all add: fin_inv_def arrays_ok_def base_inv_def\<close>)
  have names: "cstr (hmem s) (arr FLAG_ROOT + 256 * j) (?ns ! j) \<and> length (?ns ! j) < 128" if "j < length ?ns" for j
  proof -
    have "cstr (hmem s) (dstruct arr FLAG_BIN) (dname FLAG_BIN)" "cstr (hmem s) (dstruct arr FLAG_SBIN) (dname FLAG_SBIN)" using inv by (simp_all add: fin_inv_def)
    moreover have "j = 0 \<or> j = 1" using that by auto
    ultimately show ?thesis by (auto simp: dstruct_def) (simp_all add: dname_def)
  qed
  obtain k' where k': "k \<le> k'" "at_block N k' s'" "base_inv N k' (hmem s')" "dir_done (hmem s') root_at ?ns (L FLAG_ROOT) k k'"
    "\<forall>i < 256 * (2 + length (L FLAG_ROOT)). hmem s' (blk_at k + i) = hmem s (arr FLAG_ROOT + i)" "blk_at k + 256 * (2 + length (L FLAG_ROOT)) \<le> blk_at k'"
    "only_changes ({root_at + 128..<root_at + 132} \<union> {root_at + 136..<root_at + 180} \<union> {blk_at k..<blk_at k'}) (hmem s) (hmem s')"
    by (rule finish_step [where ns = ?ns and es = "L FLAG_ROOT" and p = root_at and e = "arr FLAG_ROOT", OF _ I(1-3)]) (use fin I names in \<open>simp_all add: numeral_2_eq_2\<close>)
  have D: "root_at + 256 \<le> blk_at 3" "bitmap_at + 4096 \<le> blk_at 3" "blk_at 3 \<le> blk_at k" using I(2) by (simp_all add: blk_at_def)
  have keep: "hmem s' x = hmem s x" if "blk_at 3 \<le> x" "x < blk_at k" for x
  proof (rule only_changesD [OF k'(7)])
    show "x \<notin> {root_at + 128..<root_at + 132} \<union> {root_at + 136..<root_at + 180} \<union> {blk_at k..<blk_at k'}" using that D by simp
  qed
  note fd = finishdisk_spec [OF k'(2,3)]
  have bm: "hmem (finishdisk s') x = hmem s' x" if "x < bitmap_at \<or> blk_at 3 \<le> x" for x
  proof (rule only_changesD)
    show "only_changes {bitmap_at..<bitmap_at + 4096} (hmem s') (hmem (finishdisk s'))" using fd by blast
    show "x \<notin> {bitmap_at..<bitmap_at + 4096}" using that D by auto
  qed
  have root: "dir_done (hmem (finishdisk s')) root_at ?ns (L FLAG_ROOT) k k'" by (rule dir_done_move [OF k'(4) order_refl]) (simp_all add: bm)
  have sub: "dir_done (hmem (finishdisk s')) (blk_at k + o') [] (L fl) (B fl) k'" if o: "fl \<in> {FLAG_BIN, FLAG_SBIN}" "dstruct arr fl = arr FLAG_ROOT + o'" "o' \<le> 256" for fl o'
  proof (rule dir_done_move [OF _ k'(1)])
    show "dir_done (hmem s) (dstruct arr fl) [] (L fl) (B fl) k" using inv o(1) unfolding fin_inv_def by blast
    show "hmem (finishdisk s') (blk_at k + o' + i) = hmem s (dstruct arr fl + i)" if "i < 256" for i
      using that o D k'(5) [rule_format, of "o' + i"] by (simp add: bm add.assoc)
    show "hmem (finishdisk s') a = hmem s a" if "blk_at 3 \<le> a" "a < blk_at k" for a using that keep by (simp add: bm)
  qed
  have r: "rd32 (hmem (finishdisk s')) a = rd32 (hmem s') a" if "a + 4 \<le> bitmap_at" for a
    using that by (intro rd32_move) (simp add: bm)
  have "s_magic (hmem (finishdisk s')) = FS_MAGIC" "s_nblocks (hmem (finishdisk s')) = of_nat N"
    using k'(3) r [of super_at] r [of "super_at + 4"] by (simp_all add: base_inv_def s_magic_def s_nblocks_def)
  moreover have "3 \<le> k'" "k' < N" "N \<le> 10240" using I(2) k'(1,2) by (simp_all add: at_block_def)
  ultimately show ?thesis using fd root sub [of FLAG_BIN 0] sub [of FLAG_SBIN 256] unfolding image_ok_def by (intro exI [of _ k']) (simp add: dstruct_def)
qed

lemma fsformat_spec:
  assumes fmt: "fsformat host (arr FLAG_ROOT) (arr FLAG_BIN) (arr FLAG_SBIN) m n args = Some s"
    and arr: "arrays_ok (unat n) arr" and ok: "args_ok (arg_files FLAG_ROOT args)"
  shows "\<exists>k L br B. image_ok (hmem s) (unat n) k L br B \<and>
    (\<forall>fl. map content_of (L fl) = map (\<lambda>(_, a). (last_name a, the (host a))) (filter (\<lambda>x. fst x = fl) (arg_files FLAG_ROOT args)))"
proof -
  let ?N = "unat n"
  have n: "\<not> (n < 2 \<or> n > 10240)" using fmt by (auto simp: fsformat_def)
  then have N: "0 < ?N" "?N \<le> 10240" by (auto simp: word_less_nat_alt word_le_nat_alt not_less)
  from fmt n obtain s0 fb root1 s1 fsb root2 s2 ds s3 s4 s5 s6 where
    o: "opendisk n m = Some s0"
    and d1: "diradd (startdir (fsuper s0 + 8) (arr FLAG_ROOT)) FTYPE_DIR (dname FLAG_BIN) s0 = Some (fb, root1, s1)"
    and d2: "diradd root1 FTYPE_DIR (dname FLAG_SBIN) s1 = Some (fsb, root2, s2)"
    and w: "write_args host FLAG_ROOT args \<lparr>droot = root2, dbin = startdir fb (arr FLAG_BIN), dsbin = startdir fsb (arr FLAG_SBIN)\<rparr> s2 = Some (ds, s3)"
    and f: "finishdir (dbin ds) s3 = Some s4" "finishdir (dsbin ds) s4 = Some s5" "finishdir (droot ds) s5 = Some s6" "s = finishdisk s6"
    by (auto simp: fsformat_def Let_def bind_eq_Some_conv dname_def)
  have op: "at_block ?N 3 s0" "base_inv ?N 3 (hmem s0)" using opendisk_spec [of ?N m s0] o N by simp_all
  then have "fsuper s0 + 8 = root_at" by (simp add: at_block_def)
  then have "wr_inv ?N arr \<lparr>droot = root2, dbin = startdir fb (arr FLAG_BIN), dsbin = startdir fsb (arr FLAG_SBIN)\<rparr> s2 3 (\<lambda>_. [])"
    using start_inv [OF op arr _ d2] d1 by simp
  from write_args_spec [OF w this ok] obtain k L where wi: "wr_inv ?N arr ds s3 k L" and
    L: "\<forall>fl. map content_of (L fl) = map (\<lambda>(_, a). (last_name a, the (host a))) (filter (\<lambda>x. fst x = fl) (arg_files FLAG_ROOT args))" by auto
  have ds: "dbin ds = \<lparr>d_f = dstruct arr FLAG_BIN, d_ents = arr FLAG_BIN, d_n = length (L FLAG_BIN)\<rparr>"
    "dsbin ds = \<lparr>d_f = dstruct arr FLAG_SBIN, d_ents = arr FLAG_SBIN, d_n = length (L FLAG_SBIN)\<rparr>"
    "droot ds = \<lparr>d_f = root_at, d_ents = arr FLAG_ROOT, d_n = 2 + length (L FLAG_ROOT)\<rparr>"
  proof -
    have "dsel fl ds = \<lparr>d_f = dstruct arr fl, d_ents = arr fl, d_n = first_slot fl + length (L fl)\<rparr>" for fl using wi by (simp add: wr_inv_def)
    from this [of FLAG_BIN] this [of FLAG_SBIN] this [of FLAG_ROOT] show
      "dbin ds = \<lparr>d_f = dstruct arr FLAG_BIN, d_ents = arr FLAG_BIN, d_n = length (L FLAG_BIN)\<rparr>"
      "dsbin ds = \<lparr>d_f = dstruct arr FLAG_SBIN, d_ents = arr FLAG_SBIN, d_n = length (L FLAG_SBIN)\<rparr>"
      "droot ds = \<lparr>d_f = root_at, d_ents = arr FLAG_ROOT, d_n = 2 + length (L FLAG_ROOT)\<rparr>"
      by (simp_all add: dsel_def first_slot_def dstruct_def)
  qed
  have "fin_inv ?N arr s3 k L (\<lambda>_. 0) {}" using wi by (simp add: wr_inv_def fin_inv_def)
  from fin_sub [OF this, of FLAG_BIN s4] f(1) obtain k1 B1 where "fin_inv ?N arr s4 k1 L B1 {FLAG_BIN}" by (auto simp: ds)
  from fin_sub [OF this, of FLAG_SBIN s5] f(2) obtain k2 B2 where "fin_inv ?N arr s5 k2 L B2 {FLAG_BIN, FLAG_SBIN}" by (auto simp: ds insert_commute)
  from finish_root [OF this] f(3,4) L show ?thesis by (auto simp: ds)
qed

section \<open>Reading the image\<close>

lemma files_in_nth: "files_in m base o' es k \<Longrightarrow> j < length es \<Longrightarrow> es ! j = (name, content, a, b) \<Longrightarrow>
    3 \<le> a \<and> b \<le> k \<and> file_in m (base + 256 * (o' + j)) name content a b"
  by (fastforce simp: files_in_def)

lemma dir_done_on:
  assumes d: "dir_done m p ns es b k" and ne: "ns \<noteq> [] \<or> es \<noteq> []"
  shows "dir_on m p (ns @ map fst es) b (dir_blocks (length ns + length es))"
proof -
  let ?n = "length ns + length es"
  have n: "?n \<le> 128" "dir_blocks ?n = nblks (256 * ?n)" using d ne by (auto simp: dir_done_def Let_def dir_blocks_def)
  have "cstr m (blk_at b + 256 * j) ((ns @ map fst es) ! j)" if j: "j < ?n" for j
  proof (cases "j < length ns")
    case True
    then show ?thesis using d by (simp add: dir_done_def Let_def nth_append)
  next
    case False
    obtain name content a b' where e: "es ! (j - length ns) = (name, content, a, b')" by (cases "es ! (j - length ns)")
    have "files_in m (blk_at b) (length ns) es k" using d by (simp add: dir_done_def Let_def)
    moreover have "j - length ns < length es" "length ns + (j - length ns) = j" using j False by simp_all
    ultimately have "file_in m (blk_at b + 256 * j) name content a b'" using files_in_nth [OF _ _ e] by metis
    then show ?thesis using False j by (simp add: nth_append e file_in_def entry_at_def)
  qed
  moreover have "m (blk_at b + 256 * j) = 0" if "\<not> j < ?n" "j < 16 * dir_blocks ?n" for j
    using d that unfolding n(2) by (simp add: dir_done_def Let_def)
  ultimately show ?thesis using d dir_blocks_bound(1,2) [of ?n] n(1) by (simp add: dir_on_def dir_done_def Let_def)
qed

lemma dir_done_lookup:
  assumes d: "dir_done (fmem t) p ns es b k" and N: "s_nblocks (fmem t) = of_nat N" "N \<le> 10240" "k \<le> N"
    and j: "j < length ns + length es" "distinct (ns @ map fst es)"
  shows "dir_lookup p ((ns @ map fst es) ! j) t = Some (0, Some (blk_at b + 256 * j), t)"
proof (rule dir_lookup_finds [OF _ N(1,2)])
  have ne: "ns \<noteq> [] \<or> es \<noteq> []" using j by auto
  show "dir_on (fmem t) p (ns @ map fst es) b (dir_blocks (length ns + length es))" by (rule dir_done_on [OF d ne])
  show "b + dir_blocks (length ns + length es) \<le> N" "0 < b" using d ne N(3) by (auto simp: dir_done_def Let_def dir_blocks_def)
qed (use j in simp_all)

lemma file_in_read:
  assumes f: "file_in (fmem t) p name content a b" and N: "s_nblocks (fmem t) = of_nat N" "N \<le> 10240" "b \<le> N" "3 \<le> a"
    and n: "i + n \<le> length content"
  shows "file_read p n (int i) t = Some (int n, take n (drop i content), t)"
proof -
  have e: "extent (fmem t) p a (length content) a b" "nblks (length content) \<le> 1034" "a + nblks (length content) \<le> b"
    and c: "\<And>j. j < length content \<Longrightarrow> fmem t (blk_at a + j) = content ! j" using f by (auto simp: file_in_def entry_at_def)
  have len: "length content < 2 ^ 31" using nb_bound(1) [of "length content"] e(2) by simp
  have "file_read p n (int i) t = Some (int n, map (\<lambda>k. fmem t (blk_at (a + k div 4096) + k mod 4096)) [i..<i + n], t)"
  proof (rule file_read_blocks)
    show "int (i + n) \<le> f_size (fmem t) p" using n extent_size [OF e(1) len] by simp
    fix k
    assume "i \<le> k" "k < i + n"
    then have "4096 * (k div 4096) < 4096 * nblks (length content)" using n nb_bound(1) [of "length content"] by (simp add: minus_mod_eq_mult_div [symmetric])
    then show "file_get_block p (k div 4096) t = Some (0, Some (blk_at (a + k div 4096)), t)"
      using e N by (intro get_block_extent [OF e(1) len e(2) _ N(1)]) simp_all
  qed
  moreover have "map (\<lambda>k. fmem t (blk_at (a + k div 4096) + k mod 4096)) [i..<i + n] = take n (drop i content)"
  proof (rule nth_equalityI)
    fix j
    assume "j < length (map (\<lambda>k. fmem t (blk_at (a + k div 4096) + k mod 4096)) [i..<i + n])"
    then have j: "j < n" "i + j < length content" using n by simp_all
    have "blk_at (a + (i + j) div 4096) + (i + j) mod 4096 = blk_at a + (i + j)" unfolding blk_add by simp
    then show "map (\<lambda>k. fmem t (blk_at (a + k div 4096) + k mod 4096)) [i..<i + n] ! j = take n (drop i content) ! j"
      using j c [of "i + j"] by simp
  qed (use n in simp)
  ultimately show ?thesis by simp
qed

lemma walk_dir:
  assumes dn: "dn \<noteq> []" "47 \<notin> set dn" "length dn < 128" and rest: "rest \<noteq> []" "hd rest \<noteq> 47"
    and p: "f_type (fmem t) p = FTYPE_DIR" "dir_lookup p dn t = Some (0, Some q, t)"
  shows "walk_loop (dn @ 47 # rest) d p t = walk_loop rest (Some p) q t"
proof -
  have tw: "takeWhile (\<lambda>c. c \<noteq> 47) (dn @ 47 # rest) = dn" "dropWhile (\<lambda>c. c \<noteq> 47) (dn @ 47 # rest) = 47 # rest"
    using dn(2) by (auto simp: takeWhile_append dropWhile_append)
  have sk: "skip_slash (47 # rest) = rest" using rest by (cases rest) (simp_all add: skip_slash_def)
  show ?thesis by (subst walk_loop.simps) (simp add: tw sk p dn(3) [unfolded not_le [symmetric]] dn(1))
qed

lemma walk_last:
  assumes nm: "name \<noteq> []" "47 \<notin> set name" "length name < 128" and p: "f_type (fmem t) p = FTYPE_DIR" "dir_lookup p name t = Some (0, Some q, t)"
  shows "walk_loop name d p t = Some (\<lparr>wr_code = 0, wr_dir = Some p, wr_file = Some q, wr_last = None\<rparr>, t)"
proof -
  have tw: "takeWhile (\<lambda>c. c \<noteq> 47) name = name" "dropWhile (\<lambda>c. c \<noteq> 47) name = []" using nm(2) by (auto simp: takeWhile_eq_all_conv dropWhile_eq_Nil_conv)
  show ?thesis by (subst walk_loop.simps) (simp add: nm(1) nm(3) [unfolded not_le [symmetric]] tw p skip_slash_def walk_loop.simps [of "[]"])
qed

text \<open>The path of a file in each directory, and the names in the directory.\<close>

definition path_of :: "fflag \<Rightarrow> u8 list \<Rightarrow> u8 list" where
  "path_of fl name = (case fl of FLAG_ROOT \<Rightarrow> 47 # name | _ \<Rightarrow> 47 # dname fl @ 47 # name)"

definition dir_names :: "u8 list list \<Rightarrow> fflag \<Rightarrow> u8 list list" where
  "dir_names args fl = (if fl = FLAG_ROOT then [dname FLAG_BIN, dname FLAG_SBIN] else []) @
     map (\<lambda>(_, a). last_name a) (filter (\<lambda>x. fst x = fl) (arg_files FLAG_ROOT args))"

lemma last_name_no_slash: "47 \<notin> set (last_name path)"
  by (auto simp: last_name_def dest: set_takeWhileD)

lemma image_open:
  assumes img: "image_ok (fmem t) N k L br B" and j: "j < length (L fl)" "L fl ! j = (name, content, a, b)"
    and nm: "name \<noteq> []" "47 \<notin> set name" "length name < 128"
    and dist: "distinct ([dname FLAG_BIN, dname FLAG_SBIN] @ map fst (L FLAG_ROOT))" "distinct (map fst (L fl))"
  shows "\<exists>p. file_open (path_of fl name) t = Some (0, Some p, t) \<and> 3 \<le> a \<and> b \<le> k \<and> file_in (fmem t) p name content a b"
proof -
  let ?ns = "[dname FLAG_BIN, dname FLAG_SBIN]"
  have N: "s_nblocks (fmem t) = of_nat N" "N \<le> 10240" "k \<le> N" and R: "dir_done (fmem t) root_at ?ns (L FLAG_ROOT) br k"
    and S: "dir_done (fmem t) (blk_at br) [] (L FLAG_BIN) (B FLAG_BIN) k" "dir_done (fmem t) (blk_at br + 256) [] (L FLAG_SBIN) (B FLAG_SBIN) k"
    using img by (simp_all add: image_ok_def)
  have ty: "dir_done (fmem t) p ns es c k \<Longrightarrow> f_type (fmem t) p = FTYPE_DIR" for p ns es c by (simp add: dir_done_def Let_def f_type_def)
  note rl = dir_done_lookup [OF R N _ dist(1)]
  have bs: "dir_lookup root_at (dname FLAG_BIN) t = Some (0, Some (blk_at br), t)" "dir_lookup root_at (dname FLAG_SBIN) t = Some (0, Some (blk_at br + 256), t)"
    using rl [of 0] rl [of 1] by simp_all
  have nmj: "map fst (L fl) ! j = name" using j by simp
  have hd: "hd name \<noteq> 47" using nm(1,2) by (cases name) auto
  have dn: "dname fl \<noteq> []" "47 \<notin> set (dname fl)" "length (dname fl) < 128" "hd (dname fl) \<noteq> 47" if "fl \<noteq> FLAG_ROOT" for fl
    using that by (cases fl; simp add: dname_def)+
  have sub: "\<exists>p. file_open (path_of fl name) t = Some (0, Some p, t) \<and> 3 \<le> a \<and> b \<le> k \<and> file_in (fmem t) p name content a b"
    if fl: "fl \<noteq> FLAG_ROOT" and look: "dir_lookup root_at (dname fl) t = Some (0, Some q, t)" and D: "dir_done (fmem t) q [] (L fl) (B fl) k" for q
  proof -
    have l2: "dir_lookup q name t = Some (0, Some (blk_at (B fl) + 256 * j), t)" using dir_done_lookup [OF D N, of j] j(1) dist(2) nmj by simp
    have "skip_slash (path_of fl name) = dname fl @ 47 # name" using fl dn [OF fl]
      by (cases "dname fl"; cases fl) (simp_all add: path_of_def skip_slash_def)
    then have "walk_path (path_of fl name) t = walk_loop name (Some root_at) q t"
      unfolding walk_path_def using walk_dir [OF dn(1-3) [OF fl] nm(1) hd ty [OF R] look] by simp
    also have "\<dots> = Some (\<lparr>wr_code = 0, wr_dir = Some q, wr_file = Some (blk_at (B fl) + 256 * j), wr_last = None\<rparr>, t)"
      by (rule walk_last [OF nm ty [OF D] l2])
    finally have "file_open (path_of fl name) t = Some (0, Some (blk_at (B fl) + 256 * j), t)" by (simp add: file_open_def)
    moreover have "files_in (fmem t) (blk_at (B fl)) 0 (L fl) k" using D by (simp add: dir_done_def Let_def)
    ultimately show ?thesis using files_in_nth [OF _ j] by fastforce
  qed
  show ?thesis
  proof (cases fl)
    case FLAG_ROOT
    have l2: "dir_lookup root_at name t = Some (0, Some (blk_at br + 256 * (2 + j)), t)" using rl [of "2 + j"] j(1) nmj FLAG_ROOT by (simp add: nth_append)
    have "skip_slash (path_of fl name) = name" using FLAG_ROOT nm hd by (cases name) (simp_all add: path_of_def skip_slash_def)
    then have "file_open (path_of fl name) t = Some (0, Some (blk_at br + 256 * (2 + j)), t)"
      using walk_last [OF nm ty [OF R] l2] by (simp add: file_open_def walk_path_def)
    moreover have "files_in (fmem t) (blk_at br) 2 (L fl) k" using R FLAG_ROOT by (simp add: dir_done_def Let_def numeral_2_eq_2)
    ultimately show ?thesis using files_in_nth [OF _ j] by fastforce
  next
    case FLAG_BIN
    then show ?thesis using sub [of "blk_at br"] bs S by simp
  next
    case FLAG_SBIN
    then show ?thesis using sub [of "blk_at br + 256"] bs S by simp
  qed
qed

text \<open>An image that the builder has made mounts: the super block and the bitmap pass the checks of the file server, and the free blocks
  are exactly those after the last one that the builder has used.\<close>

theorem image_mounts:
  assumes fmt: "fsformat host (arr FLAG_ROOT) (arr FLAG_BIN) (arr FLAG_SBIN) m n args = Some s"
    and arr: "arrays_ok (unat n) arr" and ok: "args_ok (arg_files FLAG_ROOT args)" and t: "fmem t = hmem s"
  shows "check_super t = Some () \<and> check_bitmap t = Some () \<and>
    (\<exists>k. 3 \<le> k \<and> k < unat n \<and> (\<forall>b. block_is_free (fmem t) b \<longleftrightarrow> k \<le> b \<and> b < unat n))"
proof -
  obtain k L br B where img: "image_ok (fmem t) (unat n) k L br B" using fsformat_spec [OF fmt arr ok] t by auto
  then have N: "unat n \<le> 10240" "s_magic (fmem t) = FS_MAGIC" "s_nblocks (fmem t) = n" and k: "3 \<le> k" "k < unat n"
    and free: "block_is_free (fmem t) b \<longleftrightarrow> k \<le> b \<and> b < unat n" for b by (simp_all add: image_ok_def)
  have "(unat n + BLKBITSIZE - 1) div BLKBITSIZE = 1" using N(1) k by (simp add: div_if)
  then have "check_bitmap t = Some ()" using k by (simp add: check_bitmap_def Let_def N(3) free)
  moreover have "check_super t = Some ()" using N by (simp add: check_super_def)
  ultimately show ?thesis using k free by blast
qed

text \<open>C7: What the builder puts into the image is what the file server reads: every file of the arguments is found under its name, in the
  directory that the flags before it select, and any part of its contents is read back as it is in the file of the host.\<close>

theorem format_then_read:
  assumes fmt: "fsformat host (arr FLAG_ROOT) (arr FLAG_BIN) (arr FLAG_SBIN) m n args = Some s"
    and arr: "arrays_ok (unat n) arr" and ok: "args_ok (arg_files FLAG_ROOT args)"
    and dist: "distinct (dir_names args FLAG_ROOT)" "distinct (dir_names args fl)"
    and fl: "(fl, a) \<in> set (arg_files FLAG_ROOT args)" "host a = Some content" "last_name a \<noteq> []" and t: "fmem t = hmem s"
    and part: "i + c \<le> length content"
  shows "\<exists>p. file_open (path_of fl (last_name a)) t = Some (0, Some p, t) \<and> f_size (fmem t) p = int (length content) \<and>
    file_read p c (int i) t = Some (int c, take c (drop i content), t)"
proof -
  obtain k L br B where img: "image_ok (fmem t) (unat n) k L br B" and
    L: "\<And>f. map content_of (L f) = map (\<lambda>(_, a). (last_name a, the (host a))) (filter (\<lambda>x. fst x = f) (arg_files FLAG_ROOT args))"
    using fsformat_spec [OF fmt arr ok] t by auto
  have "map fst (map content_of (L f)) = map (\<lambda>(_, a). last_name a) (filter (\<lambda>x. fst x = f) (arg_files FLAG_ROOT args))" for f
    unfolding L by (simp add: case_prod_unfold comp_def)
  then have names: "map fst (L f) = map (\<lambda>(_, a). last_name a) (filter (\<lambda>x. fst x = f) (arg_files FLAG_ROOT args))" for f
    by (simp add: content_of_def comp_def)
  have "(last_name a, content) \<in> set (map content_of (L fl))" unfolding L using fl(1,2) by force
  then obtain j where j: "j < length (L fl)" "content_of (L fl ! j) = (last_name a, content)" by (auto simp: in_set_conv_nth)
  obtain a' b' where e: "L fl ! j = (last_name a, content, a', b')" using j(2) by (cases "L fl ! j") (simp add: content_of_def)
  have len: "length (last_name a) < 128" using ok fl(1) by (fastforce simp: args_ok_def)
  have d: "distinct ([dname FLAG_BIN, dname FLAG_SBIN] @ map fst (L FLAG_ROOT))" "distinct (map fst (L fl))"
    using dist unfolding names dir_names_def by (auto split: if_splits)
  obtain p where p: "file_open (path_of fl (last_name a)) t = Some (0, Some p, t)" "3 \<le> a'" "b' \<le> k" "file_in (fmem t) p (last_name a) content a' b'"
    using image_open [OF img j(1) e fl(3) last_name_no_slash len d] by blast
  have N: "s_nblocks (fmem t) = of_nat (unat n)" "unat n \<le> 10240" "b' \<le> unat n" using img p(3) by (simp_all add: image_ok_def)
  have ex: "extent (fmem t) p a' (length content) a' b'" "nblks (length content) \<le> 1034" using p(4) by (simp_all add: file_in_def entry_at_def)
  then have "length content < 2 ^ 31" using nb_bound(1) [of "length content"] by simp
  with extent_size [OF ex(1)] file_in_read [OF p(4) N p(2) part] p(1) show ?thesis by blast
qed

text \<open>A run of the builder with one file.\<close>

definition one_host :: "u8 list \<Rightarrow> u8 list option" where
  "one_host p = (if p = [0x66] then Some [0x68, 0x69] else None)"

definition one_arr :: "fflag \<Rightarrow> nat" where
  "one_arr fl = (case fl of FLAG_ROOT \<Rightarrow> 0 | FLAG_BIN \<Rightarrow> 32768 | FLAG_SBIN \<Rightarrow> 65536)"

lemma hput_pos [simp]:
  "diskpos (hput32 a w s) = diskpos s" "fnblocks (hput32 a w s) = fnblocks s" "fsuper (hput32 a w s) = fsuper s" "fbitmap (hput32 a w s) = fbitmap s"
  "diskpos (hput_bytes a bs s) = diskpos s" "fnblocks (hput_bytes a bs s) = fnblocks s" "fsuper (hput_bytes a bs s) = fsuper s"
  by (simp_all add: hput32_def hput_bytes_def)

lemma put_blocks_pos [simp]: "diskpos (put_blocks b w is s) = diskpos s" "fnblocks (put_blocks b w is s) = fnblocks s"
  by (induction "is" arbitrary: s) (simp_all add: put_blocks_def)

lemma one_format: "\<exists>s. fsformat one_host (one_arr FLAG_ROOT) (one_arr FLAG_BIN) (one_arr FLAG_SBIN) (\<lambda>_. 0) 10 [[0x66]] = Some s"
proof -
  have le: "\<not> (10 :: u32) \<le> 1" by (simp add: word_le_nat_alt)
  show ?thesis
    by (simp add: le fsformat_def opendisk_def alloc_bytes_def startdir_def diradd_def writefile_def finishdir_def finishfile_def one_host_def Let_def
      blockof_def fmt_roundup_def fmt_roundup_int_def signed_modulo_int_def del: upt_rec_numeral)
qed

lemma one_ok: "arrays_ok 10 one_arr" "args_ok (arg_files FLAG_ROOT [[0x66]])"
proof -
  have "one_arr f + 32768 \<le> one_arr g \<or> one_arr g + 32768 \<le> one_arr f" if "f \<noteq> g" for f g
    using that by (cases f; cases g) (simp_all add: one_arr_def)
  moreover have "outside_image_at 10 (one_arr f)" for f by (cases f) (simp_all add: one_arr_def outside_image_at_def)
  ultimately show "arrays_ok 10 one_arr" by (simp add: arrays_ok_def)
qed (simp add: args_ok_def last_name_def)

theorem image_mounts_witness:
  "\<exists>s. fsformat one_host (one_arr FLAG_ROOT) (one_arr FLAG_BIN) (one_arr FLAG_SBIN) (\<lambda>_. 0) 10 [[0x66]] = Some s \<and>
    check_super \<lparr>fmem = hmem s, fdisk = hmem s\<rparr> = Some () \<and> check_bitmap \<lparr>fmem = hmem s, fdisk = hmem s\<rparr> = Some ()"
proof -
  obtain s where s: "fsformat one_host (one_arr FLAG_ROOT) (one_arr FLAG_BIN) (one_arr FLAG_SBIN) (\<lambda>_. 0) 10 [[0x66]] = Some s" using one_format by blast
  show ?thesis using s image_mounts [OF s _ one_ok(2), of "\<lparr>fmem = hmem s, fdisk = hmem s\<rparr>"] one_ok(1) by simp
qed

theorem format_then_read_witness:
  "\<exists>s p. fsformat one_host (one_arr FLAG_ROOT) (one_arr FLAG_BIN) (one_arr FLAG_SBIN) (\<lambda>_. 0) 10 [[0x66]] = Some s \<and>
    file_open [0x2F, 0x66] \<lparr>fmem = hmem s, fdisk = hmem s\<rparr> = Some (0, Some p, \<lparr>fmem = hmem s, fdisk = hmem s\<rparr>) \<and>
    file_read p 1 1 \<lparr>fmem = hmem s, fdisk = hmem s\<rparr> = Some (1, [0x69], \<lparr>fmem = hmem s, fdisk = hmem s\<rparr>)"
proof -
  obtain s where s: "fsformat one_host (one_arr FLAG_ROOT) (one_arr FLAG_BIN) (one_arr FLAG_SBIN) (\<lambda>_. 0) 10 [[0x66]] = Some s" using one_format by blast
  have d: "distinct (dir_names [[0x66]] FLAG_ROOT)" by (simp add: dir_names_def dname_def last_name_def)
  have f: "(FLAG_ROOT, [0x66]) \<in> set (arg_files FLAG_ROOT [[0x66]])" by simp
  have h: "one_host [0x66] = Some [0x68, 0x69]" "last_name [0x66] = [0x66]" by (simp_all add: one_host_def last_name_def)
  show ?thesis using s format_then_read [OF s _ one_ok(2) d d f h(1), of "\<lparr>fmem = hmem s, fdisk = hmem s\<rparr>" 1 1] one_ok(1)
    by (auto simp: h(2) path_of_def)
qed

text \<open>An empty directory is one block long, but takes no block: it shares the one that is allocated next.\<close>

theorem empty_directory_owns_no_block:
  assumes fin: "finishdir d s = Some s'" and s: "at_block N k s" "d_n d = 0" "outside_image_at N (d_ents d)" "d_f d + 256 \<le> blk_at k \<or> blk_at N \<le> d_f d"
  shows "f_size (hmem s') (d_f d) = 4096 \<and> rd32 (hmem s') (f_direct_at (d_f d) 0) = of_nat k \<and> diskpos s' = blk_at k"
proof -
  obtain j j' where e: "extent (hmem s') (d_f d) k (4096 * dir_blocks 0) j j'" and at: "at_block N (k + nblks 0) s'"
    using finishdir_spec [OF fin s(1) _ s(3,4)] s(2) by auto
  have n: "nblks 0 = 0" "nblks 4096 = 1" "dir_blocks 0 = 1" by (simp_all add: nblks_def dir_blocks_def)
  have "f_size (hmem s') (d_f d) = int 4096" using e by (intro extent_size) (simp_all add: n)
  moreover have "rd32 (hmem s') (d_f d + 136 + 4 * 0) = of_nat (k + 0)" using e unfolding extent_def n by (auto simp: n)
  ultimately show ?thesis using at by (simp add: f_direct_at_def at_block_def n)
qed

end
