(* ===== verification/Kern_Pci.thy ===== *)
theory Kern_Pci
  imports JOS_Prelude
begin

text \<open>
  The PCI bus, \<^verbatim>\<open>kern/pci.c\<close>: access to the configuration space, the scan for devices and the drivers, and the enabling of a function.
  The machine is the record \<open>pcihw\<close>: reading the data port gives \<open>conf_rd\<close> of the address that was written to the address port, and writing it is \<open>conf_wr\<close>.
  \<open>None\<close> is a failed assertion, or that the given depth of nested buses is exceeded.  What the driver of the network card does after \<open>pci_func_enable\<close> is
  the argument \<open>nic\<close>: it is \<open>Kern_E1000\<close> on the memory of the card.
\<close>

section \<open>Configuration space\<close>

record 'h pcihw =
  conf_rd :: "'h \<Rightarrow> u32 \<Rightarrow> u32"
  conf_wr :: "u32 \<Rightarrow> u32 \<Rightarrow> 'h \<Rightarrow> 'h"

text \<open>\<open>struct pci_func\<close>, with the number of its bus.\<close>

record pci_func =
  pf_bus :: u32
  pf_dev :: u32
  pf_func :: u32
  pf_dev_id :: u32
  pf_dev_class :: u32
  pf_reg_base :: "u32 list"
  pf_reg_size :: "u32 list"
  pf_irq_line :: u8

definition pci_conf1_set_addr :: "u32 \<Rightarrow> u32 \<Rightarrow> u32 \<Rightarrow> u32 \<Rightarrow> u32 option" where
  "pci_conf1_set_addr bus dev func offset =
     (if \<not> bus < 256 then None
      else if \<not> dev < 32 then None
      else if \<not> func < 8 then None
      else if \<not> offset < 256 then None
      else if offset AND 3 \<noteq> 0 then None
      else Some (push_bit 31 1 OR push_bit 16 bus OR push_bit 11 dev OR push_bit 8 func OR offset))"

definition pci_conf_read :: "'h pcihw \<Rightarrow> pci_func \<Rightarrow> u32 \<Rightarrow> 'h \<Rightarrow> u32 option" where
  "pci_conf_read hw f offset h = do {
     a \<leftarrow> pci_conf1_set_addr (pf_bus f) (pf_dev f) (pf_func f) offset;
     Some (conf_rd hw h a) }"

definition pci_conf_write :: "'h pcihw \<Rightarrow> pci_func \<Rightarrow> u32 \<Rightarrow> u32 \<Rightarrow> 'h \<Rightarrow> 'h option" where
  "pci_conf_write hw f offset v h = do {
     a \<leftarrow> pci_conf1_set_addr (pf_bus f) (pf_dev f) (pf_func f) offset;
     Some (conf_wr hw a v h) }"

section \<open>Fields of the registers\<close>

definition PCI_VENDOR :: "u32 \<Rightarrow> u32" where "PCI_VENDOR r = r AND 0xffff"
definition PCI_PRODUCT :: "u32 \<Rightarrow> u32" where "PCI_PRODUCT r = drop_bit 16 r AND 0xffff"
definition PCI_CLASS :: "u32 \<Rightarrow> u32" where "PCI_CLASS r = drop_bit 24 r AND 0xff"
definition PCI_SUBCLASS :: "u32 \<Rightarrow> u32" where "PCI_SUBCLASS r = drop_bit 16 r AND 0xff"
definition PCI_HDRTYPE :: "u32 \<Rightarrow> u32" where "PCI_HDRTYPE r = drop_bit 16 r AND 0xff"
definition PCI_HDRTYPE_TYPE :: "u32 \<Rightarrow> u32" where "PCI_HDRTYPE_TYPE r = PCI_HDRTYPE r AND 0x7f"
definition PCI_HDRTYPE_MULTIFN :: "u32 \<Rightarrow> bool" where "PCI_HDRTYPE_MULTIFN r \<longleftrightarrow> PCI_HDRTYPE r AND 0x80 \<noteq> 0"
definition PCI_BRIDGE_IO_32BITS :: "u32 \<Rightarrow> bool" where "PCI_BRIDGE_IO_32BITS r \<longleftrightarrow> r AND 0xf = 1"
definition PCI_MAPREG_MEM_ADDR :: "u32 \<Rightarrow> u32" where "PCI_MAPREG_MEM_ADDR r = r AND 0xfffffff0"
definition PCI_MAPREG_MEM_SIZE :: "u32 \<Rightarrow> u32" where "PCI_MAPREG_MEM_SIZE r = PCI_MAPREG_MEM_ADDR r AND - PCI_MAPREG_MEM_ADDR r"
definition PCI_MAPREG_IO_ADDR :: "u32 \<Rightarrow> u32" where "PCI_MAPREG_IO_ADDR r = r AND 0xfffffffc"
definition PCI_MAPREG_IO_SIZE :: "u32 \<Rightarrow> u32" where "PCI_MAPREG_IO_SIZE r = PCI_MAPREG_IO_ADDR r AND - PCI_MAPREG_IO_ADDR r"

abbreviation PCI_ID_REG :: u32 where "PCI_ID_REG \<equiv> 0"
abbreviation PCI_COMMAND_STATUS_REG :: u32 where "PCI_COMMAND_STATUS_REG \<equiv> 4"
abbreviation PCI_CLASS_REG :: u32 where "PCI_CLASS_REG \<equiv> 8"
abbreviation PCI_BHLC_REG :: u32 where "PCI_BHLC_REG \<equiv> 0xc"
abbreviation PCI_BRIDGE_BUS_REG :: u32 where "PCI_BRIDGE_BUS_REG \<equiv> 0x18"
abbreviation PCI_BRIDGE_STATIO_REG :: u32 where "PCI_BRIDGE_STATIO_REG \<equiv> 0x1c"
abbreviation PCI_INTERRUPT_REG :: u32 where "PCI_INTERRUPT_REG \<equiv> 0x3c"

section \<open>Enabling a function\<close>

text \<open>The loop over the base registers, from the offset \<open>bar\<close>.\<close>

function enable_loop :: "'h pcihw \<Rightarrow> nat \<Rightarrow> pci_func \<Rightarrow> 'h \<Rightarrow> (pci_func \<times> 'h) option" where
  "enable_loop hw bar f h =
     (if \<not> bar < 0x28 then Some (f, h)
      else do {
        oldv \<leftarrow> pci_conf_read hw f (of_nat bar) h;
        h1 \<leftarrow> pci_conf_write hw f (of_nat bar) 0xffffffff h;
        rv \<leftarrow> pci_conf_read hw f (of_nat bar) h1;
        if rv = 0 then enable_loop hw (bar + 4) f h1
        else
          let regnum = (bar - 0x10) div 4;
              width = (if rv AND 1 = 0 \<and> rv AND 6 = 4 then 8 else 4);
              size = (if rv AND 1 = 0 then PCI_MAPREG_MEM_SIZE rv else PCI_MAPREG_IO_SIZE rv);
              base = (if rv AND 1 = 0 then PCI_MAPREG_MEM_ADDR oldv else PCI_MAPREG_IO_ADDR oldv)
          in do {
            h2 \<leftarrow> pci_conf_write hw f (of_nat bar) oldv h1;
            enable_loop hw (bar + width) (f\<lparr>pf_reg_base := (pf_reg_base f)[regnum := base], pf_reg_size := (pf_reg_size f)[regnum := size]\<rparr>) h2 } })"
  by pat_completeness auto
termination
  by (relation "measure (\<lambda>(hw, bar, f, h). 0x28 - bar)") (auto split: if_splits)

declare enable_loop.simps [simp del]

definition pci_func_enable :: "'h pcihw \<Rightarrow> pci_func \<Rightarrow> 'h \<Rightarrow> (pci_func \<times> 'h) option" where
  "pci_func_enable hw f h = do {
     h1 \<leftarrow> pci_conf_write hw f PCI_COMMAND_STATUS_REG 7 h;
     enable_loop hw 0x10 f h1 }"

section \<open>Drivers\<close>

text \<open>A driver: the two keys, and the function that attaches it; \<open>attachfn\<close> may change the structure that it is given.\<close>

type_synonym 'h attachfn = "pci_func \<Rightarrow> 'h \<Rightarrow> (int \<times> pci_func \<times> 'h) option"

fun pci_attach_match :: "u32 \<Rightarrow> u32 \<Rightarrow> (u32 \<times> u32 \<times> 'h attachfn) list \<Rightarrow> 'h attachfn" where
  "pci_attach_match key1 key2 [] f h = Some (0, f, h)"
| "pci_attach_match key1 key2 ((k1, k2, attachfn) # list) f h =
     (if k1 = key1 \<and> k2 = key2 then do {
        (r, f1, h1) \<leftarrow> attachfn f h;
        if r > 0 then Some (r, f1, h1) else pci_attach_match key1 key2 list f1 h1 }
      else pci_attach_match key1 key2 list f h)"

text \<open>The driver of the network card: its registers are the first region.\<close>

definition e1000_attach :: "'h pcihw \<Rightarrow> (u32 \<Rightarrow> u32 \<Rightarrow> 'h \<Rightarrow> 'h option) \<Rightarrow> 'h attachfn" where
  "e1000_attach hw nic f h = do {
     (f1, h1) \<leftarrow> pci_func_enable hw f h;
     h2 \<leftarrow> nic (pf_reg_base f1 ! 0) (pf_reg_size f1 ! 0) h1;
     Some (0, f1, h2) }"

definition pci_attach_vendor :: "'h attachfn \<Rightarrow> (u32 \<times> u32 \<times> 'h attachfn) list" where
  "pci_attach_vendor e1000 = [(0x8086, 0x100E, e1000), (0x8086, 0x1015, e1000)]"

definition pci_attach_class :: "'h attachfn \<Rightarrow> (u32 \<times> u32 \<times> 'h attachfn) list" where
  "pci_attach_class bridge = [(6, 4, bridge)]"

definition pci_attach :: "'h attachfn \<Rightarrow> 'h attachfn \<Rightarrow> 'h attachfn" where
  "pci_attach bridge e1000 f h = do {
     (r, f1, h1) \<leftarrow> pci_attach_match (PCI_CLASS (pf_dev_class f)) (PCI_SUBCLASS (pf_dev_class f)) (pci_attach_class bridge) f h;
     if r \<noteq> 0 then Some (1, f1, h1)
     else do {
       (r, f2, h2) \<leftarrow> pci_attach_match (PCI_VENDOR (pf_dev_id f1)) (PCI_PRODUCT (pf_dev_id f1)) (pci_attach_vendor e1000) f1 h1;
       Some (if r \<noteq> 0 then 1 else 0, f2, h2) } }"

section \<open>Scanning\<close>

text \<open>The functions of one device, and the devices of one bus.\<close>

fun scan_funcs :: "'h attachfn \<Rightarrow> 'h pcihw \<Rightarrow> pci_func \<Rightarrow> nat list \<Rightarrow> 'h \<Rightarrow> 'h option" where
  "scan_funcs attach hw f [] h = Some h"
| "scan_funcs attach hw f (i # is) h =
     (let f1 = f\<lparr>pf_func := of_nat i\<rparr> in do {
        ident \<leftarrow> pci_conf_read hw f1 PCI_ID_REG h;
        if PCI_VENDOR ident = 0xffff then scan_funcs attach hw f is h
        else do {
          intr \<leftarrow> pci_conf_read hw f1 PCI_INTERRUPT_REG h;
          cls \<leftarrow> pci_conf_read hw f1 PCI_CLASS_REG h;
          (_, _, h1) \<leftarrow> attach (f1\<lparr>pf_dev_id := ident, pf_irq_line := ucast intr, pf_dev_class := cls\<rparr>) h;
          scan_funcs attach hw f is h1 } })"

fun scan_devs :: "'h attachfn \<Rightarrow> 'h pcihw \<Rightarrow> pci_func \<Rightarrow> nat list \<Rightarrow> int \<Rightarrow> 'h \<Rightarrow> (int \<times> 'h) option" where
  "scan_devs attach hw df [] totaldev h = Some (totaldev, h)"
| "scan_devs attach hw df (d # ds) totaldev h =
     (let df1 = df\<lparr>pf_dev := of_nat d\<rparr> in do {
        bhlc \<leftarrow> pci_conf_read hw df1 PCI_BHLC_REG h;
        if PCI_HDRTYPE_TYPE bhlc > 1 then scan_devs attach hw df ds totaldev h
        else do {
          h1 \<leftarrow> scan_funcs attach hw df1 [0..<if PCI_HDRTYPE_MULTIFN bhlc then 8 else 1] h;
          scan_devs attach hw df ds (totaldev + 1) h1 } })"

definition pci_bridge_attach :: "(u32 \<Rightarrow> 'h \<Rightarrow> (int \<times> 'h) option) \<Rightarrow> 'h pcihw \<Rightarrow> 'h attachfn" where
  "pci_bridge_attach scan hw f h = do {
     ioreg \<leftarrow> pci_conf_read hw f PCI_BRIDGE_STATIO_REG h;
     busreg \<leftarrow> pci_conf_read hw f PCI_BRIDGE_BUS_REG h;
     if PCI_BRIDGE_IO_32BITS ioreg then Some (0, f, h)
     else do {
       (_, h1) \<leftarrow> scan (drop_bit 8 busreg AND 0xff) h;
       Some (1, f, h1) } }"

definition zero_func :: "u32 \<Rightarrow> pci_func" where
  "zero_func bus = \<lparr>pf_bus = bus, pf_dev = 0, pf_func = 0, pf_dev_id = 0, pf_dev_class = 0,
     pf_reg_base = replicate 6 0, pf_reg_size = replicate 6 0, pf_irq_line = 0\<rparr>"

text \<open>The scan calls itself through the bridge driver; the first argument bounds the depth.\<close>

fun pci_scan_bus :: "nat \<Rightarrow> 'h pcihw \<Rightarrow> 'h attachfn \<Rightarrow> u32 \<Rightarrow> 'h \<Rightarrow> (int \<times> 'h) option" where
  "pci_scan_bus 0 hw e1000 bus h = None"
| "pci_scan_bus (Suc n) hw e1000 bus h =
     scan_devs (pci_attach (pci_bridge_attach (pci_scan_bus n hw e1000) hw) e1000) hw (zero_func bus) [0..<32] 0 h"

definition pci_init :: "nat \<Rightarrow> 'h pcihw \<Rightarrow> (u32 \<Rightarrow> u32 \<Rightarrow> 'h \<Rightarrow> 'h option) \<Rightarrow> 'h \<Rightarrow> (int \<times> 'h) option" where
  "pci_init depth hw nic h = pci_scan_bus depth hw (e1000_attach hw nic) 0 h"

unbundle bit_operations_syntax

section \<open>Addresses\<close>

lemma bit_below: "(x :: u32) < 2 ^ k \<Longrightarrow> bit x n \<Longrightarrow> n < k"
proof -
  assume a: "x < 2 ^ k" "bit x n"
  then have "bit (x AND mask k) n" using less_mask_eq [of x k] by simp
  then show "n < k" by (simp add: bit_simps)
qed

definition pci_addr :: "u32 \<Rightarrow> u32 \<Rightarrow> u32 \<Rightarrow> u32 \<Rightarrow> u32" where
  "pci_addr bus dev func offset = push_bit 31 1 OR push_bit 16 bus OR push_bit 11 dev OR push_bit 8 func OR offset"

lemma set_addr: "bus < 256 \<Longrightarrow> dev < 32 \<Longrightarrow> func < 8 \<Longrightarrow> offset < 256 \<Longrightarrow> offset AND 3 = 0 \<Longrightarrow>
    pci_conf1_set_addr bus dev func offset = Some (pci_addr bus dev func offset)"
  by (simp add: pci_conf1_set_addr_def pci_addr_def)

lemma pci_addr_fields:
  assumes "bus < 256" "dev < 32" "func < 8" "offset < 256"
  shows "drop_bit 16 (pci_addr bus dev func offset) AND 0xff = bus" "drop_bit 11 (pci_addr bus dev func offset) AND 0x1f = dev"
    "drop_bit 8 (pci_addr bus dev func offset) AND 7 = func" "pci_addr bus dev func offset AND 0xff = offset" "bit (pci_addr bus dev func offset) 31"
proof -
  have b: "bit bus n \<Longrightarrow> n < 8" "bit dev n \<Longrightarrow> n < 5" "bit func n \<Longrightarrow> n < 3" "bit offset n \<Longrightarrow> n < 8" for n
    using assms bit_below [of bus 8 n] bit_below [of dev 5 n] bit_below [of func 3 n] bit_below [of offset 8 n] by simp_all
  have m: "(0xff :: u32) = mask 8" "(0x1f :: u32) = mask 5" "(7 :: u32) = mask 3" by (simp_all add: mask_eq_exp_minus_1)
  have p: "bit (pci_addr bus dev func offset) n \<longleftrightarrow>
      n = 31 \<or> 16 \<le> n \<and> n < 32 \<and> bit bus (n - 16) \<or> 11 \<le> n \<and> n < 32 \<and> bit dev (n - 11) \<or> 8 \<le> n \<and> n < 32 \<and> bit func (n - 8) \<or> bit offset n" for n
    unfolding pci_addr_def bit_or_iff bit_push_bit_iff bit_1_iff possible_bit_word by auto
  note bb = bit_simps p
  show "drop_bit 16 (pci_addr bus dev func offset) AND 0xff = bus" unfolding m by (rule bit_eqI) (auto simp: bb dest: b)
  show "drop_bit 11 (pci_addr bus dev func offset) AND 0x1f = dev" unfolding m by (rule bit_eqI) (auto simp: bb dest: b)
  show "drop_bit 8 (pci_addr bus dev func offset) AND 7 = func" unfolding m by (rule bit_eqI) (auto simp: bb dest: b)
  show "pci_addr bus dev func offset AND 0xff = offset" unfolding m by (rule bit_eqI) (auto simp: bb dest: b)
  show "bit (pci_addr bus dev func offset) 31" by (simp add: bb)
qed

lemma pci_addr_inj:
  assumes "pci_addr b d f r = pci_addr b' d' f' r'" "b < 256" "d < 32" "f < 8" "r < 256" "b' < 256" "d' < 32" "f' < 8" "r' < 256"
  shows "b = b' \<and> d = d' \<and> f = f' \<and> r = r'"
  using pci_addr_fields [of b d f r] pci_addr_fields [of b' d' f' r'] assms by auto



section \<open>The configuration space as a memory of registers\<close>

text \<open>Writing one register of the configuration space leaves the others as they are.\<close>

definition conf_law :: "'h pcihw \<Rightarrow> bool" where
  "conf_law hw \<longleftrightarrow> (\<forall>a b v h. a \<noteq> b \<longrightarrow> conf_rd hw (conf_wr hw a v h) b = conf_rd hw h b)"

definition reg_at :: "'h pcihw \<Rightarrow> 'h \<Rightarrow> u32 \<Rightarrow> u32 \<Rightarrow> u32 \<Rightarrow> u32 \<Rightarrow> u32" where
  "reg_at hw h b d f r = conf_rd hw h (pci_addr b d f r)"

definition pf_ok :: "pci_func \<Rightarrow> bool" where
  "pf_ok f \<longleftrightarrow> pf_bus f < 256 \<and> pf_dev f < 32 \<and> pf_func f < 8"

lemma read_reg: "pf_ok f \<Longrightarrow> r < 256 \<Longrightarrow> r AND 3 = 0 \<Longrightarrow> pci_conf_read hw f r h = Some (reg_at hw h (pf_bus f) (pf_dev f) (pf_func f) r)"
  by (simp add: pci_conf_read_def set_addr pf_ok_def reg_at_def)

lemma write_reg:
  "pf_ok f \<Longrightarrow> r < 256 \<Longrightarrow> r AND 3 = 0 \<Longrightarrow> pci_conf_write hw f r v h = Some (conf_wr hw (pci_addr (pf_bus f) (pf_dev f) (pf_func f) r) v h)"
  by (simp add: pci_conf_write_def set_addr pf_ok_def)

lemma reg_write_other:
  assumes "conf_law hw" "pf_ok f" "r < 256" "b < 256" "d < 32" "fn < 8" "r' < 256" "(b, d, fn, r') \<noteq> (pf_bus f, pf_dev f, pf_func f, r)"
  shows "reg_at hw (conf_wr hw (pci_addr (pf_bus f) (pf_dev f) (pf_func f) r) v h) b d fn r' = reg_at hw h b d fn r'"
proof -
  have "pci_addr (pf_bus f) (pf_dev f) (pf_func f) r \<noteq> pci_addr b d fn r'"
    using pci_addr_inj [of "pf_bus f" "pf_dev f" "pf_func f" r b d fn r'] assms unfolding pf_ok_def by blast
  then show ?thesis using assms(1) by (simp add: conf_law_def reg_at_def)
qed

text \<open>The offsets of the base registers.\<close>

lemma bar_offset: "bar < 0x28 \<Longrightarrow> bar mod 4 = 0 \<Longrightarrow> (of_nat bar :: u32) < 256 \<and> (of_nat bar :: u32) AND 3 = 0 \<and> unat (of_nat bar :: u32) = bar"
proof -
  assume b: "bar < 0x28" "bar mod 4 = 0"
  then have u: "unat (of_nat bar :: u32) = bar" by (simp add: unat_of_nat)
  have "(of_nat bar :: u32) AND 3 = of_nat bar mod 4" using word_mod_2p_is_mask [of 2 "of_nat bar :: u32"] by (simp add: mask_eq_exp_minus_1)
  also have "\<dots> = 0" using b u by (simp add: word_arith_nat_mod unat_of_nat)
  finally show ?thesis using u b by (simp add: word_less_nat_alt)
qed

section \<open>What a scan leaves alone\<close>

definition is_bridge :: "u32 \<Rightarrow> bool" where
  "is_bridge cls \<longleftrightarrow> PCI_CLASS cls = 6 \<and> PCI_SUBCLASS cls = 4"

definition is_e1000 :: "u32 \<Rightarrow> bool" where
  "is_e1000 ident \<longleftrightarrow> PCI_VENDOR ident = 0x8086 \<and> (PCI_PRODUCT ident = 0x100E \<or> PCI_PRODUCT ident = 0x1015)"

text \<open>The registers that the scan reads, apart from the interrupt line.\<close>

definition same_conf :: "'h pcihw \<Rightarrow> 'h \<Rightarrow> 'h \<Rightarrow> bool" where
  "same_conf hw h h' \<longleftrightarrow> (\<forall>b d f. b < 256 \<longrightarrow> d < 32 \<longrightarrow> f < 8 \<longrightarrow>
     reg_at hw h' b d f 0 = reg_at hw h b d f 0 \<and> reg_at hw h' b d f 8 = reg_at hw h b d f 8 \<and> reg_at hw h' b d f 0xc = reg_at hw h b d f 0xc \<and>
     (is_bridge (reg_at hw h b d f 8) \<longrightarrow> reg_at hw h' b d f 0x18 = reg_at hw h b d f 0x18 \<and> reg_at hw h' b d f 0x1c = reg_at hw h b d f 0x1c))"

definition cards_plain :: "'h pcihw \<Rightarrow> 'h \<Rightarrow> bool" where
  "cards_plain hw h \<longleftrightarrow> (\<forall>b d f. b < 256 \<longrightarrow> d < 32 \<longrightarrow> f < 8 \<longrightarrow> is_e1000 (reg_at hw h b d f 0) \<longrightarrow> \<not> is_bridge (reg_at hw h b d f 8))"

definition nic_law :: "'h pcihw \<Rightarrow> (u32 \<Rightarrow> u32 \<Rightarrow> 'h \<Rightarrow> 'h option) \<Rightarrow> bool" where
  "nic_law hw nic \<longleftrightarrow> (\<forall>b s h h'. nic b s h = Some h' \<longrightarrow> conf_rd hw h' = conf_rd hw h)"

lemma same_conf_refl [simp]: "same_conf hw h h"
  by (simp add: same_conf_def)

lemma same_conf_trans: "same_conf hw h h1 \<Longrightarrow> same_conf hw h1 h2 \<Longrightarrow> same_conf hw h h2"
  by (simp add: same_conf_def)

lemma cards_plain_same: "same_conf hw h h' \<Longrightarrow> cards_plain hw h \<Longrightarrow> cards_plain hw h'"
  by (simp add: same_conf_def cards_plain_def)

text \<open>Enabling a function always succeeds, and changes only its command and base registers.\<close>

definition only_regs :: "'h pcihw \<Rightarrow> pci_func \<Rightarrow> 'h \<Rightarrow> 'h \<Rightarrow> bool" where
  "only_regs hw f h h' \<longleftrightarrow> (\<forall>b d fn r. b < 256 \<longrightarrow> d < 32 \<longrightarrow> fn < 8 \<longrightarrow> r < 256 \<longrightarrow>
     (b, d, fn) \<noteq> (pf_bus f, pf_dev f, pf_func f) \<or> r < 4 \<or> 4 < r \<and> r < 0x10 \<or> 0x28 \<le> r \<longrightarrow> reg_at hw h' b d fn r = reg_at hw h b d fn r)"

lemma only_regs_trans: "only_regs hw f h h1 \<Longrightarrow> only_regs hw f h1 h2 \<Longrightarrow> only_regs hw f h h2"
  by (simp add: only_regs_def)

lemma only_regs_write:
  assumes "conf_law hw" "pf_ok f" "r = 4 \<or> 0x10 \<le> r \<and> r < 0x28"
  shows "only_regs hw f h (conf_wr hw (pci_addr (pf_bus f) (pf_dev f) (pf_func f) r) v h)"
proof -
  have "reg_at hw (conf_wr hw (pci_addr (pf_bus f) (pf_dev f) (pf_func f) r) v h) b d fn r' = reg_at hw h b d fn r'"
    if "b < 256" "d < 32" "fn < 8" "r' < 256" "(b, d, fn) \<noteq> (pf_bus f, pf_dev f, pf_func f) \<or> r' < 4 \<or> 4 < r' \<and> r' < 0x10 \<or> 0x28 \<le> r'" for b d fn r'
  proof (rule reg_write_other [OF assms(1,2) _ that(1-4)])
    show "r < 256" using assms(3) by (auto simp: word_less_nat_alt)
    show "(b, d, fn, r') \<noteq> (pf_bus f, pf_dev f, pf_func f, r)" using that(5) assms(3) by (auto simp: word_less_nat_alt word_le_nat_alt)
  qed
  then show ?thesis unfolding only_regs_def by blast
qed

definition same_func :: "pci_func \<Rightarrow> pci_func \<Rightarrow> bool" where
  "same_func f f' \<longleftrightarrow> pf_bus f' = pf_bus f \<and> pf_dev f' = pf_dev f \<and> pf_func f' = pf_func f \<and> pf_dev_id f' = pf_dev_id f \<and> pf_dev_class f' = pf_dev_class f"

lemma enable_loop_total:
  assumes "conf_law hw" "pf_ok f" "0x10 \<le> bar" "bar mod 4 = 0"
  shows "\<exists>f' h'. enable_loop hw bar f h = Some (f', h') \<and> only_regs hw f h h' \<and> same_func f f'"
  using assms(2-4)
proof (induction "0x28 - bar" arbitrary: bar f h rule: less_induct)
  case less
  show ?case
  proof (cases "bar < 0x28")
    case False
    then show ?thesis by (subst enable_loop.simps) (simp add: only_regs_def same_func_def)
  next
    case True
    let ?r = "of_nat bar :: u32"
    note o = bar_offset [OF True less.prems(3)]
    have r: "0x10 \<le> ?r \<and> ?r < 0x28" using o True less.prems(2) by (simp add: word_less_nat_alt word_le_nat_alt)
    define h1 where "h1 = conf_wr hw (pci_addr (pf_bus f) (pf_dev f) (pf_func f) ?r) 0xffffffff h"
    define h2 where "h2 = conf_wr hw (pci_addr (pf_bus f) (pf_dev f) (pf_func f) ?r) (reg_at hw h (pf_bus f) (pf_dev f) (pf_func f) ?r) h1"
    define rv where "rv = reg_at hw h1 (pf_bus f) (pf_dev f) (pf_func f) ?r"
    have w1: "only_regs hw f h h1" unfolding h1_def using r by (intro only_regs_write [OF assms(1) less.prems(1)]) simp
    have w2: "only_regs hw f h h2" using only_regs_trans [OF w1] only_regs_write [OF assms(1) less.prems(1), of ?r] r unfolding h2_def by blast
    have step: "\<exists>f' h'. enable_loop hw (bar + w) g k = Some (f', h') \<and> only_regs hw f h h' \<and> same_func f f'"
      if "w = 4 \<or> w = 8" "only_regs hw f h k" "same_func f g" for w g k
    proof -
      have g: "0x28 - (bar + w) < 0x28 - bar" "pf_ok g" "0x10 \<le> bar + w" "(bar + w) mod 4 = 0"
        using that less.prems True by (auto simp: same_func_def pf_ok_def)
      obtain f' h' where "enable_loop hw (bar + w) g k = Some (f', h')" "only_regs hw g k h'" "same_func g f'" using less.hyps [OF g] by blast
      moreover have "only_regs hw f k h'" using \<open>only_regs hw g k h'\<close> that(3) by (simp add: only_regs_def same_func_def)
      ultimately show ?thesis using only_regs_trans [OF that(2)] that(3) by (auto simp: same_func_def)
    qed
    have "enable_loop hw bar f h = (if rv = 0 then enable_loop hw (bar + 4) f h1
        else enable_loop hw (bar + (if rv AND 1 = 0 \<and> rv AND 6 = 4 then 8 else 4))
          (f\<lparr>pf_reg_base := (pf_reg_base f)[(bar - 0x10) div 4 := if rv AND 1 = 0 then PCI_MAPREG_MEM_ADDR (reg_at hw h (pf_bus f) (pf_dev f) (pf_func f) ?r) else PCI_MAPREG_IO_ADDR (reg_at hw h (pf_bus f) (pf_dev f) (pf_func f) ?r)],
             pf_reg_size := (pf_reg_size f)[(bar - 0x10) div 4 := if rv AND 1 = 0 then PCI_MAPREG_MEM_SIZE rv else PCI_MAPREG_IO_SIZE rv]\<rparr>) h2)"
      using True o less.prems(1) by (subst enable_loop.simps) (simp add: read_reg write_reg h1_def h2_def rv_def Let_def)
    then show ?thesis using step [of 4 h1 f] step [of _ h2] w1 w2 by (auto simp: same_func_def)
  qed
qed

lemma func_enable_total:
  assumes "conf_law hw" "pf_ok f"
  shows "\<exists>f' h'. pci_func_enable hw f h = Some (f', h') \<and> only_regs hw f h h' \<and> same_func f f'"
proof -
  let ?h1 = "conf_wr hw (pci_addr (pf_bus f) (pf_dev f) (pf_func f) 4) 7 h"
  obtain f' h' where "enable_loop hw 0x10 f ?h1 = Some (f', h')" "only_regs hw f ?h1 h'" "same_func f f'"
    using enable_loop_total [OF assms, where bar = "0x10" and h = ?h1] by auto
  moreover have "only_regs hw f h ?h1" by (rule only_regs_write [OF assms]) simp
  ultimately show ?thesis using assms(2) only_regs_trans [of hw f h ?h1 h'] by (simp add: pci_func_enable_def write_reg)
qed

lemma only_regs_same:
  assumes "only_regs hw f h h'" "pf_ok f" "\<not> is_bridge (reg_at hw h (pf_bus f) (pf_dev f) (pf_func f) 8)"
  shows "same_conf hw h h'"
proof -
  have r: "reg_at hw h' b d fn r = reg_at hw h b d fn r" if "b < 256" "d < 32" "fn < 8" "r = 0 \<or> r = 8 \<or> r = 0xc" for b d fn r
  proof -
    have "r < 256 \<and> (r < 4 \<or> 4 < r \<and> r < 0x10)" using that(4) by auto
    then show ?thesis using assms(1) that(1-3) unfolding only_regs_def by blast
  qed
  have "reg_at hw h' b d fn r = reg_at hw h b d fn r" if "b < 256" "d < 32" "fn < 8" "is_bridge (reg_at hw h b d fn 8)" "r = 0x18 \<or> r = 0x1c" for b d fn r
  proof -
    have "(b, d, fn) \<noteq> (pf_bus f, pf_dev f, pf_func f)" using that(4) assms(3) by auto
    moreover have "r < 256" using that(5) by auto
    ultimately show ?thesis using assms(1) that(1-3) unfolding only_regs_def by blast
  qed
  with r show ?thesis unfolding same_conf_def by blast
qed

lemma nic_lawD: "nic_law hw nic \<Longrightarrow> nic b s h = Some h' \<Longrightarrow> conf_rd hw h' = conf_rd hw h"
  unfolding nic_law_def by (elim allE impE)

lemma e1000_attach_same:
  assumes "conf_law hw" "nic_law hw nic" "pf_ok f" "\<not> is_bridge (reg_at hw h (pf_bus f) (pf_dev f) (pf_func f) 8)"
    "e1000_attach hw nic f h = Some (r, f', h')"
  shows "r = 0 \<and> same_conf hw h h' \<and> same_func f f'"
proof -
  obtain f1 h1 where e: "pci_func_enable hw f h = Some (f1, h1)" "only_regs hw f h h1" "same_func f f1" using func_enable_total [OF assms(1,3)] by blast
  have n: "r = 0 \<and> f' = f1" "nic (pf_reg_base f1 ! 0) (pf_reg_size f1 ! 0) h1 = Some h'"
    using assms(5) unfolding e1000_attach_def e(1) by (cases "nic (pf_reg_base f1 ! 0) (pf_reg_size f1 ! 0) h1"; auto)+
  have "same_conf hw h h1" using only_regs_same [OF e(2) assms(3,4)] .
  moreover have "conf_rd hw h' = conf_rd hw h1" by (rule nic_lawD [OF assms(2)]) (rule n(2))
  then have "same_conf hw h1 h'" by (simp add: same_conf_def reg_at_def)
  ultimately show ?thesis using n e(3) by (simp add: same_conf_trans [of hw h h1 h'])
qed

text \<open>A driver that keeps what the scan reads, and when it succeeds.\<close>

definition attach_same :: "'h pcihw \<Rightarrow> 'h attachfn \<Rightarrow> bool" where
  "attach_same hw att \<longleftrightarrow> (\<forall>f h r f' h'. pf_ok f \<longrightarrow> cards_plain hw h \<longrightarrow> pf_dev_id f = reg_at hw h (pf_bus f) (pf_dev f) (pf_func f) 0 \<longrightarrow>
     pf_dev_class f = reg_at hw h (pf_bus f) (pf_dev f) (pf_func f) 8 \<longrightarrow> att f h = Some (r, f', h') \<longrightarrow> same_conf hw h h')"

lemma pci_attach_eq:
  "pci_attach bridge e1000 f h =
     do { (r, f1, h1) \<leftarrow> (if is_bridge (pf_dev_class f)
            then do { (r, f1, h1) \<leftarrow> bridge f h; Some (if r > 0 then r else 0, f1, h1) } else Some (0, f, h));
          if r \<noteq> 0 then Some (1, f1, h1)
          else do { (r, f2, h2) \<leftarrow> (if is_e1000 (pf_dev_id f1)
                 then do { (r, f2, h2) \<leftarrow> e1000 f1 h1; Some (if r > 0 then r else 0, f2, h2) } else Some (0, f1, h1));
               Some (if r \<noteq> 0 then 1 else 0, f2, h2) } }"
  by (auto simp: pci_attach_def pci_attach_class_def pci_attach_vendor_def is_bridge_def is_e1000_def split: bind_splits)

section \<open>Scanning keeps the configuration\<close>

definition devfn :: "u32 \<Rightarrow> u32 \<Rightarrow> pci_func \<Rightarrow> bool" where
  "devfn b d f \<longleftrightarrow> pf_bus f = b \<and> pf_dev f = d \<and> b < 256 \<and> d < 32"

text \<open>\<open>att\<close> keeps the configuration from states that satisfy \<open>P\<close>, and has a result in those that satisfy \<open>Q\<close>.\<close>

definition attach_ok :: "'h pcihw \<Rightarrow> ('h \<Rightarrow> bool) \<Rightarrow> bool \<Rightarrow> 'h attachfn \<Rightarrow> u32 \<Rightarrow> bool" where
  "attach_ok hw P tot att b \<longleftrightarrow> (\<forall>f h. pf_ok f \<longrightarrow> pf_bus f = b \<longrightarrow> P h \<longrightarrow> pf_dev_id f = reg_at hw h (pf_bus f) (pf_dev f) (pf_func f) 0 \<longrightarrow>
     pf_dev_class f = reg_at hw h (pf_bus f) (pf_dev f) (pf_func f) 8 \<longrightarrow>
     (tot \<longrightarrow> att f h \<noteq> None) \<and> (\<forall>r f' h'. att f h = Some (r, f', h') \<longrightarrow> same_conf hw h h'))"

definition closed_same :: "'h pcihw \<Rightarrow> ('h \<Rightarrow> bool) \<Rightarrow> bool" where
  "closed_same hw P \<longleftrightarrow> (\<forall>h h'. P h \<longrightarrow> same_conf hw h h' \<longrightarrow> P h')"

lemma scan_funcs_ok:
  assumes att: "attach_ok hw P tot att b" and P: "closed_same hw P" and f: "pf_bus f = b" "b < 256" "pf_dev f < 32" and "is": "\<forall>i \<in> set is. i < 8"
  shows "P h \<Longrightarrow> (tot \<longrightarrow> scan_funcs att hw f is h \<noteq> None) \<and> (\<forall>h'. scan_funcs att hw f is h = Some h' \<longrightarrow> same_conf hw h h')"
  using "is"
proof (induction "is" arbitrary: h)
  case Nil
  then show ?case by simp
next
  case (Cons i "is")
  let ?f = "f\<lparr>pf_func := of_nat i\<rparr>"
  let ?r = "reg_at hw h b (pf_dev f) (of_nat i)"
  let ?g = "?f\<lparr>pf_dev_id := ?r 0, pf_irq_line := ucast (?r 0x3c), pf_dev_class := ?r 8\<rparr>"
  have ok: "pf_ok ?f" using f Cons.prems(2) by (simp add: pf_ok_def word_less_nat_alt unat_of_nat)
  have IH: "P k \<Longrightarrow> (tot \<longrightarrow> scan_funcs att hw f is k \<noteq> None) \<and> (\<forall>h'. scan_funcs att hw f is k = Some h' \<longrightarrow> same_conf hw k h')" for k
    using Cons.IH Cons.prems(2) by simp
  have eq: "scan_funcs att hw f (i # is) h = (if PCI_VENDOR (?r 0) = 0xffff then scan_funcs att hw f is h
      else do { (_, _, h1) \<leftarrow> att ?g h; scan_funcs att hw f is h1 })"
    using ok f(1) by (simp add: Let_def read_reg)
  show ?case
  proof (cases "PCI_VENDOR (?r 0) = 0xffff")
    case True
    then show ?thesis unfolding eq using IH [OF Cons.prems(1)] by simp
  next
    case False
    have a: "(tot \<longrightarrow> att ?g h \<noteq> None) \<and> (\<forall>r f' h'. att ?g h = Some (r, f', h') \<longrightarrow> same_conf hw h h')"
      using att [unfolded attach_ok_def, rule_format, of ?g h] ok f(1) Cons.prems(1) by (simp add: pf_ok_def)
    show ?thesis
    proof (cases "att ?g h")
      case None
      then show ?thesis unfolding eq using a False by simp
    next
      case (Some x)
      obtain r f' h1 where x: "x = (r, f', h1)" by (cases x)
      have s: "same_conf hw h h1" using a Some x by simp
      then have "P h1" using P Cons.prems(1) unfolding closed_same_def by simp
      from IH [OF this] show ?thesis unfolding eq using False Some x same_conf_trans [OF s] by auto
    qed
  qed
qed

text \<open>The devices of a bus.\<close>

definition dev_present :: "'h pcihw \<Rightarrow> 'h \<Rightarrow> u32 \<Rightarrow> nat \<Rightarrow> bool" where
  "dev_present hw h b d \<longleftrightarrow> PCI_HDRTYPE_TYPE (reg_at hw h b (of_nat d) 0 0xc) \<le> 1"

lemma dev_present_same: "same_conf hw h h' \<Longrightarrow> b < 256 \<Longrightarrow> d < 32 \<Longrightarrow> dev_present hw h' b d = dev_present hw h b d"
  by (simp add: dev_present_def same_conf_def word_less_nat_alt unat_of_nat)

lemma scan_devs_ok:
  assumes att: "attach_ok hw P tot att b" and P: "closed_same hw P" and f: "pf_bus f = b" "b < 256" "pf_func f = 0" and ds: "\<forall>d \<in> set ds. d < 32"
  shows "P h \<Longrightarrow> (tot \<longrightarrow> scan_devs att hw f ds t h \<noteq> None) \<and>
    (\<forall>t' h'. scan_devs att hw f ds t h = Some (t', h') \<longrightarrow> same_conf hw h h' \<and> t' = t + int (length (filter (dev_present hw h b) ds)))"
  using ds
proof (induction ds arbitrary: h t)
  case Nil
  then show ?case by simp
next
  case (Cons d ds)
  let ?f = "f\<lparr>pf_dev := of_nat d\<rparr>"
  let ?r = "reg_at hw h b (of_nat d) 0 0xc"
  have d: "(of_nat d :: u32) < 32" using Cons.prems(2) by (simp add: word_less_nat_alt unat_of_nat)
  then have ok: "pf_ok ?f" using f by (simp add: pf_ok_def)
  have IH: "P k \<Longrightarrow> (tot \<longrightarrow> scan_devs att hw f ds u k \<noteq> None) \<and>
      (\<forall>t' h'. scan_devs att hw f ds u k = Some (t', h') \<longrightarrow> same_conf hw k h' \<and> t' = u + int (length (filter (dev_present hw k b) ds)))" for k u
    using Cons.IH Cons.prems(2) by simp
  let ?fs = "scan_funcs att hw ?f [0..<if PCI_HDRTYPE_MULTIFN ?r then 8 else 1] h"
  have eq: "scan_devs att hw f (d # ds) t h = (if PCI_HDRTYPE_TYPE ?r > 1 then scan_devs att hw f ds t h
      else do { h1 \<leftarrow> ?fs; scan_devs att hw f ds (t + 1) h1 })"
    using ok f by (simp add: Let_def read_reg del: upt_rec_numeral)
  show ?case
  proof (cases "PCI_HDRTYPE_TYPE ?r > 1")
    case True
    then have "\<not> dev_present hw h b d" by (simp add: dev_present_def)
    then show ?thesis unfolding eq using IH [OF Cons.prems(1), of t] True by simp
  next
    case False
    then have p: "dev_present hw h b d" by (simp add: dev_present_def)
    have a: "(tot \<longrightarrow> ?fs \<noteq> None) \<and> (\<forall>h'. ?fs = Some h' \<longrightarrow> same_conf hw h h')"
      using Cons.prems(1) by (intro scan_funcs_ok [OF att P]) (use f d in \<open>simp_all split: if_splits\<close>)
    show ?thesis
    proof (cases ?fs)
      case None
      then show ?thesis unfolding eq using a False by simp
    next
      case (Some h1)
      have s: "same_conf hw h h1" using a Some by simp
      then have "P h1" using P Cons.prems(1) unfolding closed_same_def by simp
      note ih = IH [OF this, of "t + 1"]
      have "filter (dev_present hw h1 b) ds = filter (dev_present hw h b) ds" using dev_present_same [OF s f(2)] Cons.prems(2) by (intro filter_cong) auto
      then show ?thesis unfolding eq using False Some ih same_conf_trans [OF s] p by auto
    qed
  qed
qed

section \<open>Scanning the buses\<close>

lemma closed_plain: "closed_same hw (cards_plain hw)"
  by (auto simp: closed_same_def intro: cards_plain_same)

text \<open>The bridge driver on top of a scan of the nested bus.\<close>

lemma attach_ok_bridge:
  assumes hw: "conf_law hw" "nic_law hw nic" and P: "\<And>h. P h \<Longrightarrow> cards_plain hw h" and b: "b < 256"
    and nic: "tot \<Longrightarrow> \<forall>x y h. nic x y h \<noteq> None"
    and scan: "\<And>h d fn. P h \<Longrightarrow> d < 32 \<Longrightarrow> fn < 8 \<Longrightarrow> is_bridge (reg_at hw h b d fn 8) \<Longrightarrow> \<not> PCI_BRIDGE_IO_32BITS (reg_at hw h b d fn 0x1c) \<Longrightarrow>
      (let b' = drop_bit 8 (reg_at hw h b d fn 0x18) AND 0xff in
        (tot \<longrightarrow> scan b' h \<noteq> None) \<and> (\<forall>t h'. scan b' h = Some (t, h') \<longrightarrow> same_conf hw h h'))"
  shows "attach_ok hw P tot (pci_attach (pci_bridge_attach scan hw) (e1000_attach hw nic)) b"
proof -
  have "(tot \<longrightarrow> pci_attach (pci_bridge_attach scan hw) (e1000_attach hw nic) f h \<noteq> None) \<and>
      (\<forall>r f' h'. pci_attach (pci_bridge_attach scan hw) (e1000_attach hw nic) f h = Some (r, f', h') \<longrightarrow> same_conf hw h h')"
    if f: "pf_ok f" "pf_bus f = b" "P h" "pf_dev_id f = reg_at hw h (pf_bus f) (pf_dev f) (pf_func f) 0" "pf_dev_class f = reg_at hw h (pf_bus f) (pf_dev f) (pf_func f) 8" for f h
  proof (cases "is_bridge (pf_dev_class f)")
    case True
    have d: "pf_dev f < 32" "pf_func f < 8" using f(1) by (simp_all add: pf_ok_def)
    have "is_e1000 (reg_at hw h b (pf_dev f) (pf_func f) 0) \<longrightarrow> \<not> is_bridge (reg_at hw h b (pf_dev f) (pf_func f) 8)"
      using P [OF f(3)] d b unfolding cards_plain_def by blast
    then have ne: "\<not> is_e1000 (pf_dev_id f)" using f(2,4,5) True by auto
    let ?io = "reg_at hw h b (pf_dev f) (pf_func f) 0x1c" and ?b' = "drop_bit 8 (reg_at hw h b (pf_dev f) (pf_func f) 0x18) AND 0xff"
    have br: "pci_bridge_attach scan hw f h = (if PCI_BRIDGE_IO_32BITS ?io then Some (0, f, h) else do { (_, h1) \<leftarrow> scan ?b' h; Some (1, f, h1) })"
      using f(1,2) by (simp add: pci_bridge_attach_def read_reg)
    show ?thesis
    proof (cases "PCI_BRIDGE_IO_32BITS ?io")
      case io: True
      then show ?thesis using True ne by (simp add: pci_attach_eq br)
    next
      case False
      have "is_bridge (reg_at hw h b (pf_dev f) (pf_func f) 8)" using True f(2,5) by simp
      from scan [OF f(3) d this False] have s: "tot \<longrightarrow> scan ?b' h \<noteq> None" "\<forall>t h'. scan ?b' h = Some (t, h') \<longrightarrow> same_conf hw h h'" by (simp_all add: Let_def)
      show ?thesis using True False s by (cases "scan ?b' h") (auto simp: pci_attach_eq br)
    qed
  next
    case False
    then have nb: "\<not> is_bridge (reg_at hw h (pf_bus f) (pf_dev f) (pf_func f) 8)" using f(5) by simp
    have e: "e1000_attach hw nic f h = Some (r, f', h') \<Longrightarrow> r = 0 \<and> same_conf hw h h'" for r f' h'
      using e1000_attach_same [OF hw f(1) nb] by blast
    have n: "tot \<Longrightarrow> e1000_attach hw nic f h \<noteq> None"
    proof -
      assume tot
      obtain f1 h1 where "pci_func_enable hw f h = Some (f1, h1)" using func_enable_total [OF hw(1) f(1)] by blast
      moreover have "nic (pf_reg_base f1 ! 0) (pf_reg_size f1 ! 0) h1 \<noteq> None" using nic [OF \<open>tot\<close>] by simp
      ultimately show ?thesis by (auto simp: e1000_attach_def)
    qed
    show ?thesis
    proof (cases "e1000_attach hw nic f h")
      case None
      then show ?thesis using False n by (auto simp: pci_attach_eq)
    next
      case (Some x)
      obtain r f' h' where x: "x = (r, f', h')" by (cases x)
      show ?thesis using False Some e [of r f' h'] by (auto simp: pci_attach_eq x)
    qed
  qed
  then show ?thesis unfolding attach_ok_def by blast
qed

definition devices_on :: "'h pcihw \<Rightarrow> 'h \<Rightarrow> u32 \<Rightarrow> nat" where
  "devices_on hw h b = length (filter (dev_present hw h b) [0..<32])"

lemma secondary_byte: "drop_bit 8 (x :: u32) AND 0xff < 256"
  using and_mask_less' [of 8 "drop_bit 8 x"] by (simp add: mask_eq_exp_minus_1)

lemma scan_same:
  assumes hw: "conf_law hw" "nic_law hw nic"
  shows "cards_plain hw h \<Longrightarrow> b < 256 \<Longrightarrow> pci_scan_bus n hw (e1000_attach hw nic) b h = Some (t, h') \<Longrightarrow>
    same_conf hw h h' \<and> t = int (devices_on hw h b)"
proof (induction n arbitrary: h b t h')
  case (Suc n)
  have "attach_ok hw (cards_plain hw) False (pci_attach (pci_bridge_attach (pci_scan_bus n hw (e1000_attach hw nic)) hw) (e1000_attach hw nic)) b"
  proof (rule attach_ok_bridge [OF hw _ Suc.prems(2)])
    show "let b' = drop_bit 8 (reg_at hw h b d fn 0x18) AND 0xff in (False \<longrightarrow> pci_scan_bus n hw (e1000_attach hw nic) b' h \<noteq> None) \<and>
        (\<forall>t h'. pci_scan_bus n hw (e1000_attach hw nic) b' h = Some (t, h') \<longrightarrow> same_conf hw h h')" if "cards_plain hw h" for h d fn
      using Suc.IH [OF that secondary_byte] unfolding Let_def by blast
  qed simp_all
  from scan_devs_ok [OF this closed_plain, of "zero_func b" "[0..<32]" h 0] show ?case
    using Suc.prems by (simp add: zero_func_def devices_on_def del: upt_rec_numeral)
qed simp

text \<open>The bridges are numbered as firmware does it: the bus behind a bridge has a higher number than the bus that it is on.\<close>

definition numbered :: "'h pcihw \<Rightarrow> 'h \<Rightarrow> bool" where
  "numbered hw h \<longleftrightarrow> (\<forall>b d f. b < 256 \<longrightarrow> d < 32 \<longrightarrow> f < 8 \<longrightarrow> is_bridge (reg_at hw h b d f 8) \<longrightarrow> b < drop_bit 8 (reg_at hw h b d f 0x18) AND 0xff)"

lemma scan_total:
  assumes hw: "conf_law hw" "nic_law hw nic" and nic: "\<forall>x y h. nic x y h \<noteq> None"
  shows "cards_plain hw h \<Longrightarrow> numbered hw h \<Longrightarrow> b < 256 \<Longrightarrow> 256 \<le> unat b + n \<Longrightarrow> pci_scan_bus n hw (e1000_attach hw nic) b h \<noteq> None"
proof (induction n arbitrary: h b)
  case 0
  then show ?case by (simp add: word_less_nat_alt)
next
  case (Suc n)
  let ?P = "\<lambda>h. cards_plain hw h \<and> numbered hw h"
  have cl: "closed_same hw ?P" by (auto simp: closed_same_def intro: cards_plain_same) (simp add: numbered_def same_conf_def)
  have "attach_ok hw ?P True (pci_attach (pci_bridge_attach (pci_scan_bus n hw (e1000_attach hw nic)) hw) (e1000_attach hw nic)) b"
  proof (rule attach_ok_bridge [OF hw _ Suc.prems(3)])
    fix h d fn
    assume a: "cards_plain hw h \<and> numbered hw h" "d < 32" "fn < 8" "is_bridge (reg_at hw h b d fn 8)"
    let ?b' = "drop_bit 8 (reg_at hw h b d fn 0x18) AND 0xff"
    have "b < ?b'" using a Suc.prems(3) by (simp add: numbered_def)
    then have "256 \<le> unat ?b' + n" using Suc.prems(4) by (simp add: word_less_nat_alt)
    then have "pci_scan_bus n hw (e1000_attach hw nic) ?b' h \<noteq> None" using a by (intro Suc.IH secondary_byte) simp_all
    then show "let b' = ?b' in (True \<longrightarrow> pci_scan_bus n hw (e1000_attach hw nic) b' h \<noteq> None) \<and>
        (\<forall>t h'. pci_scan_bus n hw (e1000_attach hw nic) b' h = Some (t, h') \<longrightarrow> same_conf hw h h')"
      using scan_same [OF hw _ secondary_byte] a unfolding Let_def by blast
  qed (use nic in auto)
  from scan_devs_ok [OF this cl, of "zero_func b" "[0..<32]" h 0] show ?case
    using Suc.prems by (simp add: zero_func_def del: upt_rec_numeral)
qed


text \<open>A machine whose configuration space is a memory, with a bridge to bus 1 as its only device.\<close>

definition mem_hw :: "(u32 \<Rightarrow> u32) pcihw" where
  "mem_hw = \<lparr>conf_rd = (\<lambda>h. h), conf_wr = (\<lambda>a v h. h(a := v))\<rparr>"

definition bridge_conf :: "u32 \<Rightarrow> u32 \<Rightarrow> u32" where
  "bridge_conf busreg a = (if a = pci_addr 0 1 0 0 then 0x00011111 else if a = pci_addr 0 1 0 8 then 0x06040000 else if a = pci_addr 0 1 0 0xc then 0x00010000
     else if a = pci_addr 0 1 0 0x18 then busreg else if a = pci_addr 0 1 0 0x1c then 0 else 0xffffffff)"

lemma mem_hw_law: "conf_law mem_hw" "nic_law mem_hw (\<lambda>_ _. Some)"
  by (simp_all add: conf_law_def nic_law_def mem_hw_def)

lemma bridge_conf_regs:
  assumes "b < 256" "d < 32" "f < 8" "r < 256"
  shows "reg_at mem_hw (bridge_conf w) b d f r = (if b = 0 \<and> d = 1 \<and> f = 0 \<and> (r = 0 \<or> r = 8 \<or> r = 0xc \<or> r = 0x18 \<or> r = 0x1c) then
      (if r = 0 then 0x00011111 else if r = 8 then 0x06040000 else if r = 0xc then 0x00010000 else if r = 0x18 then w else 0) else 0xffffffff)"
proof -
  have e: "pci_addr b d f r = pci_addr 0 1 0 r' \<longleftrightarrow> b = 0 \<and> d = 1 \<and> f = 0 \<and> r = r'" if "r' < 256" for r'
    using pci_addr_inj [of b d f r 0 1 0 r'] assms that by auto
  have ee: "pci_addr b d f r = pci_addr 0 1 0 0 \<longleftrightarrow> b = 0 \<and> d = 1 \<and> f = 0 \<and> r = 0" "pci_addr b d f r = pci_addr 0 1 0 8 \<longleftrightarrow> b = 0 \<and> d = 1 \<and> f = 0 \<and> r = 8"
    "pci_addr b d f r = pci_addr 0 1 0 0xc \<longleftrightarrow> b = 0 \<and> d = 1 \<and> f = 0 \<and> r = 0xc" "pci_addr b d f r = pci_addr 0 1 0 0x18 \<longleftrightarrow> b = 0 \<and> d = 1 \<and> f = 0 \<and> r = 0x18"
    "pci_addr b d f r = pci_addr 0 1 0 0x1c \<longleftrightarrow> b = 0 \<and> d = 1 \<and> f = 0 \<and> r = 0x1c"
    using e [of 0] e [of 8] e [of "0xc"] e [of "0x18"] e [of "0x1c"] by simp_all
  show ?thesis unfolding reg_at_def mem_hw_def bridge_conf_def pcihw.simps ee by auto
qed

lemma bridge_conf_plain: "cards_plain mem_hw (bridge_conf w)"
  by (auto simp: cards_plain_def bridge_conf_regs is_e1000_def PCI_VENDOR_def)

lemma bridge_conf_bridge: "b < 256 \<Longrightarrow> d < 32 \<Longrightarrow> f < 8 \<Longrightarrow> is_bridge (reg_at mem_hw (bridge_conf w) b d f 8) \<longleftrightarrow> b = 0 \<and> d = 1 \<and> f = 0"
  by (simp add: bridge_conf_regs is_bridge_def PCI_CLASS_def PCI_SUBCLASS_def)


section \<open>A bridge that leads back\<close>

lemma scan_devs_stuck:
  assumes att: "attach_ok hw P False att b" and P: "closed_same hw P" and f: "pf_bus f = b" "b < 256" "pf_func f = 0"
    and stuck: "\<And>h. P h \<Longrightarrow> dev_present hw h b d \<and> (\<forall>n. 0 < n \<longrightarrow> scan_funcs att hw (f\<lparr>pf_dev := of_nat d\<rparr>) [0..<n] h = None)"
  shows "P h \<Longrightarrow> d \<in> set ds \<Longrightarrow> \<forall>d \<in> set ds. d < 32 \<Longrightarrow> scan_devs att hw f ds t h = None"
proof (induction ds arbitrary: h t)
  case (Cons d' ds)
  let ?f = "f\<lparr>pf_dev := of_nat d'\<rparr>"
  let ?r = "reg_at hw h b (of_nat d') 0 0xc"
  have "(of_nat d' :: u32) < 32" using Cons.prems(3) by (simp add: word_less_nat_alt unat_of_nat)
  then have ok: "pf_ok ?f" "pf_dev ?f < 32" using f by (simp_all add: pf_ok_def)
  let ?fs = "scan_funcs att hw ?f [0..<if PCI_HDRTYPE_MULTIFN ?r then 8 else 1] h"
  have eq: "scan_devs att hw f (d' # ds) t h = (if PCI_HDRTYPE_TYPE ?r > 1 then scan_devs att hw f ds t h
      else do { h1 \<leftarrow> ?fs; scan_devs att hw f ds (t + 1) h1 })"
    using ok f by (simp add: Let_def read_reg del: upt_rec_numeral)
  show ?case
  proof (cases "d' = d")
    case True
    have "?fs = None" "\<not> PCI_HDRTYPE_TYPE ?r > 1" using stuck [OF Cons.prems(1)] True by (simp_all add: dev_present_def not_less del: upt_rec_numeral)
    then show ?thesis unfolding eq by simp
  next
    case False
    have "scan_devs att hw f ds u k = None" if "P k" for u k using Cons.IH [OF that] Cons.prems(2,3) False by simp
    moreover have "P h1" if "?fs = Some h1" for h1
    proof -
      have "\<forall>h'. ?fs = Some h' \<longrightarrow> same_conf hw h h'"
        using scan_funcs_ok [OF att P _ f(2) ok(2), of "[0..<if PCI_HDRTYPE_MULTIFN ?r then 8 else 1]" h] Cons.prems(1) f(1) by (simp split: if_splits del: upt_rec_numeral)
      then show ?thesis using that P Cons.prems(1) unfolding closed_same_def by blast
    qed
    ultimately show ?thesis unfolding eq using Cons.prems(1) by (cases ?fs) simp_all
  qed
qed simp

text \<open>A bridge on the root bus whose secondary bus is the root bus, as after a reset.\<close>

definition loops_back :: "'h pcihw \<Rightarrow> nat \<Rightarrow> 'h \<Rightarrow> bool" where
  "loops_back hw d h \<longleftrightarrow> d < 32 \<and> dev_present hw h 0 d \<and> PCI_VENDOR (reg_at hw h 0 (of_nat d) 0 0) \<noteq> 0xffff \<and> is_bridge (reg_at hw h 0 (of_nat d) 0 8) \<and>
     \<not> PCI_BRIDGE_IO_32BITS (reg_at hw h 0 (of_nat d) 0 0x1c) \<and> drop_bit 8 (reg_at hw h 0 (of_nat d) 0 0x18) AND 0xff = 0"

lemma loops_back_same: "same_conf hw h h' \<Longrightarrow> loops_back hw d h \<Longrightarrow> loops_back hw d h'"
  by (auto simp: loops_back_def dev_present_def same_conf_def word_less_nat_alt unat_of_nat)

text \<open>A bridge on the root bus whose secondary bus number has not been set, and is still 0, makes the scan call itself without end: no depth is enough.\<close>

theorem pci_scan_never_ends:
  assumes hw: "conf_law hw" "nic_law hw nic"
  shows "cards_plain hw h \<Longrightarrow> loops_back hw d h \<Longrightarrow> pci_init n hw nic h = None"
  unfolding pci_init_def
proof (induction n arbitrary: h)
  case (Suc n)
  let ?P = "\<lambda>h. cards_plain hw h \<and> loops_back hw d h"
  let ?att = "pci_attach (pci_bridge_attach (pci_scan_bus n hw (e1000_attach hw nic)) hw) (e1000_attach hw nic)"
  have cl: "closed_same hw ?P" by (auto simp: closed_same_def intro: cards_plain_same loops_back_same)
  have att: "attach_ok hw ?P False ?att 0"
  proof (rule attach_ok_bridge [OF hw])
    show "let b' = drop_bit 8 (reg_at hw k 0 e fn 0x18) AND 0xff in (False \<longrightarrow> pci_scan_bus n hw (e1000_attach hw nic) b' k \<noteq> None) \<and>
        (\<forall>t h'. pci_scan_bus n hw (e1000_attach hw nic) b' k = Some (t, h') \<longrightarrow> same_conf hw k h')" if "?P k" for k e fn
      using scan_same [OF hw _ secondary_byte] that unfolding Let_def by blast
  qed simp_all
  have "dev_present hw k 0 d \<and> (\<forall>n. 0 < n \<longrightarrow> scan_funcs ?att hw ((zero_func 0)\<lparr>pf_dev := of_nat d\<rparr>) [0..<n] k = None)" if k: "?P k" for k
  proof (intro conjI allI impI)
    show "dev_present hw k 0 d" using k by (simp add: loops_back_def)
    fix m :: nat
    assume "0 < m"
    then have u: "[0..<m] = 0 # [1..<m]" by (simp add: upt_conv_Cons)
    let ?g = "(zero_func 0)\<lparr>pf_dev := of_nat d\<rparr>"
    have dd: "(of_nat d :: u32) < 32" using k by (simp add: loops_back_def word_less_nat_alt unat_of_nat)
    then have ok: "pf_ok (?g\<lparr>pf_func := 0, pf_dev_id := x, pf_irq_line := y, pf_dev_class := z\<rparr>)" "pf_ok (?g\<lparr>pf_func := 0\<rparr>)" for x y z by (simp_all add: zero_func_def pf_ok_def)
    have none: "pci_scan_bus n hw (e1000_attach hw nic) 0 k = None" using Suc.IH k by simp
    show "scan_funcs ?att hw ?g [0..<m] k = None"
      unfolding u using k ok by (simp add: Let_def read_reg zero_func_def loops_back_def pci_attach_eq pci_bridge_attach_def none)
  qed
  from scan_devs_stuck [OF att cl _ _ _ this, where h = h and ds = "[0..<32]" and t = 0] show ?case
    using Suc.prems by (simp add: zero_func_def loops_back_def del: upt_rec_numeral)
qed simp

theorem pci_scan_never_ends_witness: "pci_init 1000 mem_hw (\<lambda>_ _. Some) (bridge_conf 0) = None"
proof -
  have "loops_back mem_hw 1 (bridge_conf 0)"
    by (simp add: loops_back_def dev_present_def bridge_conf_regs is_bridge_def PCI_VENDOR_def PCI_CLASS_def PCI_SUBCLASS_def PCI_HDRTYPE_TYPE_def PCI_HDRTYPE_def PCI_BRIDGE_IO_32BITS_def)
  from pci_scan_never_ends [OF mem_hw_law bridge_conf_plain this] show ?thesis .
qed

section \<open>The regions of a function\<close>

text \<open>What a base register is: not there, memory (perhaps prefetchable) or ports of \<open>2 ^ k\<close> bytes; a 32-bit region.  The register keeps the upper bits of what is
  written and shows the kind of the region in the lower ones.\<close>

datatype bar_kind = No_bar | Mem_bar nat bool | Io_bar nat

fun bar_ok :: "bar_kind \<Rightarrow> bool" where
  "bar_ok No_bar = True"
| "bar_ok (Mem_bar k p) = (4 \<le> k \<and> k < 32)"
| "bar_ok (Io_bar k) = (2 \<le> k \<and> k < 32)"

fun bar_value :: "bar_kind \<Rightarrow> u32 \<Rightarrow> u32" where
  "bar_value No_bar v = 0"
| "bar_value (Mem_bar k p) v = (v AND NOT (mask k)) OR (if p then 8 else 0)"
| "bar_value (Io_bar k) v = (v AND NOT (mask k)) OR 1"

fun bar_region :: "bar_kind \<Rightarrow> u32 \<Rightarrow> u32 \<times> u32" where
  "bar_region No_bar v = (0, 0)"
| "bar_region (Mem_bar k p) v = (v AND NOT (mask k), 2 ^ k)"
| "bar_region (Io_bar k) v = (v AND NOT (mask k), 2 ^ k)"

definition bar_reg :: "nat \<Rightarrow> u32" where
  "bar_reg i = of_nat (0x10 + 4 * i)"

definition bars_law :: "'h pcihw \<Rightarrow> pci_func \<Rightarrow> (nat \<Rightarrow> bar_kind) \<Rightarrow> bool" where
  "bars_law hw f kind \<longleftrightarrow> (\<forall>i < 6. bar_ok (kind i)) \<and> (\<forall>i < 6. \<forall>v h.
     reg_at hw (conf_wr hw (pci_addr (pf_bus f) (pf_dev f) (pf_func f) (bar_reg i)) v h) (pf_bus f) (pf_dev f) (pf_func f) (bar_reg i) = bar_value (kind i) v)"

lemma lowest_bit: "k < 32 \<Longrightarrow> NOT (mask k) AND - NOT (mask k) = (2 ^ k :: u32)"
proof -
  assume k: "k < 32"
  have "- NOT (mask k) = (2 ^ k :: u32)" by (simp add: minus_eq_not_plus_1 mask_eq_exp_minus_1)
  moreover have "NOT (mask k) AND 2 ^ k = (2 ^ k :: u32)" by (rule bit_eqI) (auto simp: bit_simps)
  ultimately show ?thesis by simp
qed

lemma low_bits: "(0xfffffff0 :: u32) = NOT (mask 4)" "(0xfffffffc :: u32) = NOT (mask 2)" "(0xffffffff :: u32) = NOT 0"
  by (simp_all add: mask_eq_exp_minus_1)

lemma bit_8: "bit (8 :: u32) n \<longleftrightarrow> n = 3"
proof -
  have "(8 :: u32) = push_bit 3 1" by (simp add: push_bit_eq_mult)
  then show ?thesis by (simp only: bit_push_bit_iff bit_1_iff possible_bit_word) auto
qed

lemma bit_bar: "bit (bar_value (Mem_bar k p) w) n \<longleftrightarrow> bit w n \<and> k \<le> n \<or> p \<and> n = 3" "bit (bar_value (Io_bar k) w) n \<longleftrightarrow> bit w n \<and> k \<le> n \<or> n = 0"
proof -
  have w: "bit w n \<Longrightarrow> n < 32" using bit_imp_le_length [of w n] by simp
  have p: "bit (if p then 8 else 0 :: u32) n \<longleftrightarrow> p \<and> n = 3" by (cases p) (simp_all add: bit_8 del: bit_numeral_word_iff)
  show "bit (bar_value (Mem_bar k p) w) n \<longleftrightarrow> bit w n \<and> k \<le> n \<or> p \<and> n = 3"
    unfolding bar_value.simps bit_or_iff p bit_and_iff bit_not_iff bit_mask_iff possible_bit_word using w by auto
  show "bit (bar_value (Io_bar k) w) n \<longleftrightarrow> bit w n \<and> k \<le> n \<or> n = 0"
    unfolding bar_value.simps bit_or_iff bit_1_iff bit_and_iff bit_not_iff bit_mask_iff possible_bit_word using w by auto
qed

lemma mem_bar:
  fixes p :: bool and v :: u32
  assumes "4 \<le> k" "k < 32"
  defines "rv \<equiv> bar_value (Mem_bar k p) 0xffffffff"
  shows "rv \<noteq> 0" "rv AND 1 = 0" "rv AND 6 \<noteq> 4" "PCI_MAPREG_MEM_SIZE rv = 2 ^ k"
    "bar_value (Mem_bar k p) v = v \<Longrightarrow> PCI_MAPREG_MEM_ADDR v = v AND NOT (mask k)"
proof -
  have b: "bit rv n \<longleftrightarrow> n < 32 \<and> (k \<le> n \<or> p \<and> n = 3)" for n
    unfolding rv_def bit_bar low_bits(3) bit_not_iff possible_bit_word by auto
  show "rv \<noteq> 0" using b [of 31] assms(2) by auto
  show "rv AND 1 = 0" using b [of 0] assms(1) by (simp add: and_one_eq bit_0 mod_2_eq_odd)
  have "\<not> bit (rv AND 6) 2" using b [of 2] assms(1) by (simp add: bit_and_iff)
  moreover have "bit (4 :: u32) 2" by simp
  ultimately show "rv AND 6 \<noteq> 4" by metis
  have "PCI_MAPREG_MEM_ADDR rv = NOT (mask k)" unfolding PCI_MAPREG_MEM_ADDR_def low_bits using assms(1) by (intro bit_eqI) (auto simp: bit_simps b)
  then show "PCI_MAPREG_MEM_SIZE rv = 2 ^ k" using lowest_bit [OF assms(2)] by (simp add: PCI_MAPREG_MEM_SIZE_def)
  assume v: "bar_value (Mem_bar k p) v = v"
  have vb: "k \<le> n \<or> p \<and> n = 3" if "bit v n" for n using bit_bar(1) [of k p v n] that unfolding v by blast
  show "PCI_MAPREG_MEM_ADDR v = v AND NOT (mask k)" unfolding PCI_MAPREG_MEM_ADDR_def low_bits using assms(1) by (intro bit_eqI) (auto simp: bit_simps dest: vb)
qed

lemma io_bar:
  assumes "2 \<le> k" "k < 32"
  defines "rv \<equiv> bar_value (Io_bar k) 0xffffffff"
  shows "rv \<noteq> 0" "rv AND 1 \<noteq> 0" "PCI_MAPREG_IO_SIZE rv = 2 ^ k"
    "bar_value (Io_bar k) v = v \<Longrightarrow> PCI_MAPREG_IO_ADDR v = v AND NOT (mask k)"
proof -
  have b: "bit rv n \<longleftrightarrow> n < 32 \<and> (k \<le> n \<or> n = 0)" for n
    unfolding rv_def bit_bar low_bits(3) bit_not_iff possible_bit_word by auto
  show "rv \<noteq> 0" using b [of 31] assms(2) by auto
  show "rv AND 1 \<noteq> 0" using b [of 0] by (simp add: and_one_eq bit_0 mod_2_eq_odd)
  have "PCI_MAPREG_IO_ADDR rv = NOT (mask k)" unfolding PCI_MAPREG_IO_ADDR_def low_bits using assms(1) by (intro bit_eqI) (auto simp: bit_simps b)
  then show "PCI_MAPREG_IO_SIZE rv = 2 ^ k" using lowest_bit [OF assms(2)] by (simp add: PCI_MAPREG_IO_SIZE_def)
  assume v: "bar_value (Io_bar k) v = v"
  have vb: "k \<le> n \<or> n = 0" if "bit v n" for n using bit_bar(2) [of k v n] that unfolding v by blast
  show "PCI_MAPREG_IO_ADDR v = v AND NOT (mask k)" unfolding PCI_MAPREG_IO_ADDR_def low_bits using assms(1) by (intro bit_eqI) (auto simp: bit_simps dest: vb)
qed

lemma bar_reg_ok: "i < 6 \<Longrightarrow> bar_reg i < 256 \<and> bar_reg i AND 3 = 0 \<and> unat (bar_reg i) = 0x10 + 4 * i"
  using bar_offset [of "0x10 + 4 * i"] by (simp add: bar_reg_def del: of_nat_add)

lemma bar_reg_inj: "i < 6 \<Longrightarrow> j < 6 \<Longrightarrow> bar_reg i = bar_reg j \<longleftrightarrow> i = j"
proof
  assume i: "i < 6" "j < 6" "bar_reg i = bar_reg j"
  have u: "unat (bar_reg i) = 0x10 + 4 * i" "unat (bar_reg j) = 0x10 + 4 * j" using bar_reg_ok [OF i(1)] bar_reg_ok [OF i(2)] by blast+
  from u(2) have "0x10 + 4 * i = 0x10 + 4 * j" unfolding i(3) [symmetric] u(1) .
  then show "i = j" by linarith
qed simp

text \<open>One round of the loop.\<close>

lemma enable_step:
  assumes hw: "conf_law hw" "bars_law hw f kind" and f: "pf_ok f" "length (pf_reg_base f) = 6" "length (pf_reg_size f) = 6" and i: "i < 6"
    and v: "\<And>j. j < 6 \<Longrightarrow> reg_at hw h (pf_bus f) (pf_dev f) (pf_func f) (bar_reg j) = w j" and good: "bar_value (kind i) (w i) = w i"
  shows "\<exists>g h'. enable_loop hw (0x10 + 4 * i) f h = enable_loop hw (0x10 + 4 * (i + 1)) g h' \<and> same_func f g \<and>
    pf_reg_base g = (if kind i = No_bar then pf_reg_base f else (pf_reg_base f)[i := fst (bar_region (kind i) (w i))]) \<and>
    pf_reg_size g = (if kind i = No_bar then pf_reg_size f else (pf_reg_size f)[i := snd (bar_region (kind i) (w i))]) \<and>
    (\<forall>j < 6. reg_at hw h' (pf_bus f) (pf_dev f) (pf_func f) (bar_reg j) = w j)"
proof -
  let ?r = "bar_reg i"
  let ?reg = "\<lambda>k. reg_at hw k (pf_bus f) (pf_dev f) (pf_func f)"
  let ?set = "conf_wr hw (pci_addr (pf_bus f) (pf_dev f) (pf_func f) ?r)"
  note ro = bar_reg_ok [OF i]
  have rb: "of_nat (0x10 + 4 * i) = ?r" by (simp add: bar_reg_def)
  have wr: "?reg (?set x k) ?r = bar_value (kind i) x" for x k using hw(2) i by (simp add: bars_law_def)
  have others: "?reg (?set x k) (bar_reg j) = ?reg k (bar_reg j)" if "j < 6" "j \<noteq> i" for x k j
    by (rule reg_write_other [OF hw(1) f(1)]) (use f(1) ro bar_reg_ok [OF that(1)] bar_reg_inj [OF that(1) i] that(2) in \<open>simp_all add: pf_ok_def\<close>)
  define rv where "rv = bar_value (kind i) 0xffffffff"
  let ?h1 = "?set 0xffffffff h"
  let ?h2 = "?set (w i) ?h1"
  let ?g = "f\<lparr>pf_reg_base := (pf_reg_base f)[i := if rv AND 1 = 0 then PCI_MAPREG_MEM_ADDR (w i) else PCI_MAPREG_IO_ADDR (w i)],
    pf_reg_size := (pf_reg_size f)[i := if rv AND 1 = 0 then PCI_MAPREG_MEM_SIZE rv else PCI_MAPREG_IO_SIZE rv]\<rparr>"
  have eq: "enable_loop hw (0x10 + 4 * i) f h = (if rv = 0 then enable_loop hw (0x10 + 4 * i + 4) f ?h1
      else enable_loop hw (0x10 + 4 * i + (if rv AND 1 = 0 \<and> rv AND 6 = 4 then 8 else 4)) ?g ?h2)"
    using i ro f(1) by (subst enable_loop.simps, unfold rb) (simp add: read_reg write_reg wr v [OF i] rv_def Let_def)
  have h2: "?reg ?h2 (bar_reg j) = w j" if "j < 6" for j
    using others [OF that] wr good v [OF that] by (cases "j = i") simp_all
  have ok: "bar_ok (kind i)" using hw(2) i by (simp add: bars_law_def)
  show ?thesis
  proof (cases "kind i")
    case No_bar
    then have "?reg ?h1 (bar_reg j) = w j" if "j < 6" for j using others [OF that] wr good v [OF that] by (cases "j = i") simp_all
    moreover have "rv = 0" by (simp add: rv_def No_bar)
    ultimately show ?thesis unfolding eq using No_bar by (intro exI [of _ f] exI [of _ ?h1]) (simp add: same_func_def)
  next
    case (Mem_bar k p)
    have k: "4 \<le> k" "k < 32" using ok Mem_bar by simp_all
    have "rv \<noteq> 0" "rv AND 1 = 0" "rv AND 6 \<noteq> 4" "PCI_MAPREG_MEM_SIZE rv = 2 ^ k" "PCI_MAPREG_MEM_ADDR (w i) = w i AND NOT (mask k)"
      using mem_bar(1-4) [OF k, of p] mem_bar(5) [OF k good [unfolded Mem_bar]] unfolding rv_def Mem_bar by blast+
    then show ?thesis unfolding eq using Mem_bar h2 by (intro exI [of _ ?g] exI [of _ ?h2]) (simp add: same_func_def)
  next
    case (Io_bar k)
    have k: "2 \<le> k" "k < 32" using ok Io_bar by simp_all
    have "rv \<noteq> 0" "rv AND 1 \<noteq> 0" "PCI_MAPREG_IO_SIZE rv = 2 ^ k" "PCI_MAPREG_IO_ADDR (w i) = w i AND NOT (mask k)"
      using io_bar(1-3) [OF k] io_bar(4) [OF k good [unfolded Io_bar]] unfolding rv_def Io_bar by blast+
    then show ?thesis unfolding eq using Io_bar h2 by (intro exI [of _ ?g] exI [of _ ?h2]) (simp add: same_func_def)
  qed
qed

lemma enable_from:
  assumes hw: "conf_law hw" and good: "\<And>j. j < 6 \<Longrightarrow> bar_value (kind j) (w j) = w j"
  shows "bars_law hw f kind \<Longrightarrow> pf_ok f \<Longrightarrow> length (pf_reg_base f) = 6 \<Longrightarrow> length (pf_reg_size f) = 6 \<Longrightarrow> i \<le> 6 \<Longrightarrow>
    (\<And>j. j < 6 \<Longrightarrow> reg_at hw h (pf_bus f) (pf_dev f) (pf_func f) (bar_reg j) = w j) \<Longrightarrow>
    \<exists>f' h'. enable_loop hw (0x10 + 4 * i) f h = Some (f', h') \<and> same_func f f' \<and>
      (\<forall>j < 6. reg_at hw h' (pf_bus f) (pf_dev f) (pf_func f) (bar_reg j) = w j) \<and>
      (\<forall>j < 6. (pf_reg_base f' ! j, pf_reg_size f' ! j) = (if i \<le> j \<and> kind j \<noteq> No_bar then bar_region (kind j) (w j) else (pf_reg_base f ! j, pf_reg_size f ! j)))"
proof (induction "6 - i" arbitrary: i f h)
  case 0
  then show ?case by (subst enable_loop.simps) (simp add: same_func_def)
next
  case (Suc n)
  then have i: "i < 6" by simp
  obtain g h1 where st: "enable_loop hw (0x10 + 4 * i) f h = enable_loop hw (0x10 + 4 * (i + 1)) g h1" "same_func f g"
    "pf_reg_base g = (if kind i = No_bar then pf_reg_base f else (pf_reg_base f)[i := fst (bar_region (kind i) (w i))])"
    "pf_reg_size g = (if kind i = No_bar then pf_reg_size f else (pf_reg_size f)[i := snd (bar_region (kind i) (w i))])"
    "\<And>j. j < 6 \<Longrightarrow> reg_at hw h1 (pf_bus f) (pf_dev f) (pf_func f) (bar_reg j) = w j"
    using enable_step [OF hw Suc.prems(1-4) i Suc.prems(6) good [OF i]] by blast
  have sf: "pf_bus g = pf_bus f" "pf_dev g = pf_dev f" "pf_func g = pf_func f" using st(2) by (simp_all add: same_func_def)
  have pre: "bars_law hw g kind" "pf_ok g" "length (pf_reg_base g) = 6" "length (pf_reg_size g) = 6" "i + 1 \<le> 6" "n = 6 - (i + 1)"
    using Suc.prems(1-4) Suc.hyps(2) i by (simp_all add: bars_law_def pf_ok_def sf st(3,4))
  obtain f' h' where r: "enable_loop hw (0x10 + 4 * (i + 1)) g h1 = Some (f', h')" "same_func g f'"
      "\<forall>j < 6. reg_at hw h' (pf_bus g) (pf_dev g) (pf_func g) (bar_reg j) = w j"
      "\<forall>j < 6. (pf_reg_base f' ! j, pf_reg_size f' ! j) = (if i + 1 \<le> j \<and> kind j \<noteq> No_bar then bar_region (kind j) (w j) else (pf_reg_base g ! j, pf_reg_size g ! j))"
    using Suc.hyps(1) [OF pre(6,1-5)] st(5) unfolding sf by blast
  have "(pf_reg_base f' ! j, pf_reg_size f' ! j) = (if i \<le> j \<and> kind j \<noteq> No_bar then bar_region (kind j) (w j) else (pf_reg_base f ! j, pf_reg_size f ! j))" if "j < 6" for j
  proof (cases "j = i")
    case True
    then show ?thesis using r(4) that Suc.prems(3,4) by (simp add: st(3,4))
  next
    case False
    then have "i + 1 \<le> j \<longleftrightarrow> i \<le> j" by auto
    then show ?thesis using r(4) that False by (simp add: st(3,4))
  qed
  then show ?case using r(1,2,3) st(1,2) unfolding sf same_func_def by (intro exI [of _ f'] exI [of _ h']) simp
qed

text \<open>Enabling a function finds the address and the size of every region that it has, from what its base registers answer to a write of all
  ones, and leaves the base registers as the firmware has set them.\<close>

theorem func_enable_sizes_regions:
  assumes hw: "conf_law hw" "bars_law hw f kind" and f: "pf_ok f" "length (pf_reg_base f) = 6" "length (pf_reg_size f) = 6"
    and set: "\<And>j. j < 6 \<Longrightarrow> bar_value (kind j) (reg_at hw h (pf_bus f) (pf_dev f) (pf_func f) (bar_reg j)) = reg_at hw h (pf_bus f) (pf_dev f) (pf_func f) (bar_reg j)"
  shows "\<exists>f' h'. pci_func_enable hw f h = Some (f', h') \<and>
    (\<forall>j < 6. reg_at hw h' (pf_bus f) (pf_dev f) (pf_func f) (bar_reg j) = reg_at hw h (pf_bus f) (pf_dev f) (pf_func f) (bar_reg j)) \<and>
    (\<forall>j < 6. kind j \<noteq> No_bar \<longrightarrow> (pf_reg_base f' ! j, pf_reg_size f' ! j) = bar_region (kind j) (reg_at hw h (pf_bus f) (pf_dev f) (pf_func f) (bar_reg j)))"
proof -
  let ?reg = "\<lambda>k. reg_at hw k (pf_bus f) (pf_dev f) (pf_func f)"
  let ?h1 = "conf_wr hw (pci_addr (pf_bus f) (pf_dev f) (pf_func f) 4) 7 h"
  have same: "?reg ?h1 (bar_reg j) = ?reg h (bar_reg j)" if j: "j < 6" for j
  proof (rule reg_write_other [OF hw(1) f(1)])
    show "(pf_bus f, pf_dev f, pf_func f, bar_reg j) \<noteq> (pf_bus f, pf_dev f, pf_func f, 4)" using bar_reg_ok [OF j] by auto
  qed (use f(1) bar_reg_ok [OF j] in \<open>simp_all add: pf_ok_def\<close>)
  have "\<exists>f' h'. enable_loop hw (0x10 + 4 * 0) f ?h1 = Some (f', h') \<and> same_func f f' \<and>
      (\<forall>j < 6. reg_at hw h' (pf_bus f) (pf_dev f) (pf_func f) (bar_reg j) = ?reg h (bar_reg j)) \<and>
      (\<forall>j < 6. (pf_reg_base f' ! j, pf_reg_size f' ! j) = (if 0 \<le> j \<and> kind j \<noteq> No_bar then bar_region (kind j) (?reg h (bar_reg j)) else (pf_reg_base f ! j, pf_reg_size f ! j)))"
    by (rule enable_from [where w = "\<lambda>j. ?reg h (bar_reg j)", OF hw(1) _ hw(2) f]) (use set same in simp_all)
  then show ?thesis using f(1) by (simp add: pci_func_enable_def write_reg) metis
qed

text \<open>A card with 128 kilobytes of memory and 64 ports, as a machine with one function.\<close>

definition card_kind :: "nat \<Rightarrow> bar_kind" where
  "card_kind i = (if i = 0 then Mem_bar 17 False else if i = 1 then Io_bar 6 else No_bar)"

definition card_func :: pci_func where
  "card_func = (zero_func 0)\<lparr>pf_dev := 3\<rparr>"

definition card_hw :: "(u32 \<Rightarrow> u32) pcihw" where
  "card_hw = \<lparr>conf_rd = (\<lambda>h a. h a),
     conf_wr = (\<lambda>a v h. h(a := (case find (\<lambda>i. a = pci_addr 0 3 0 (bar_reg i)) [0..<6] of Some i \<Rightarrow> bar_value (card_kind i) v | None \<Rightarrow> v)))\<rparr>"

definition card_conf :: "u32 \<Rightarrow> u32" where
  "card_conf a = (if a = pci_addr 0 3 0 (bar_reg 0) then 0xfebc0000 else if a = pci_addr 0 3 0 (bar_reg 1) then 0xc001 else 0)"

lemma card_find: "i < 6 \<Longrightarrow> find (\<lambda>j. pci_addr 0 3 0 (bar_reg i) = pci_addr 0 3 0 (bar_reg j)) [0..<6] = Some i"
proof -
  assume i: "i < 6"
  have "(pci_addr 0 3 0 (bar_reg i) = pci_addr 0 3 0 (bar_reg j)) = (i = j)" if "j < 6" for j
    using pci_addr_inj [of 0 3 0 "bar_reg i" 0 3 0 "bar_reg j"] bar_reg_ok [OF i] bar_reg_ok [OF that] bar_reg_inj [OF i that] by auto
  then have "find (\<lambda>j. pci_addr 0 3 0 (bar_reg i) = pci_addr 0 3 0 (bar_reg j)) [0..<6] = find (\<lambda>j. i = j) [0..<6]" by (intro find_cong) auto
  also have "\<dots> = Some i" unfolding find_Some_iff using i by (intro exI [of _ i]) auto
  finally show ?thesis .
qed

theorem func_enable_sizes_regions_witness:
  "\<exists>f' h'. pci_func_enable card_hw card_func card_conf = Some (f', h') \<and> pf_reg_base f' ! 0 = 0xfebc0000 \<and> pf_reg_size f' ! 0 = 0x20000 \<and>
    pf_reg_base f' ! 1 = 0xc000 \<and> pf_reg_size f' ! 1 = 64"
proof -
  have r: "reg_at card_hw card_conf (pf_bus card_func) (pf_dev card_func) (pf_func card_func) (bar_reg j) = (if j = 0 then 0xfebc0000 else if j = 1 then 0xc001 else 0)"
    if j: "j < 6" for j
  proof -
    have "(pci_addr 0 3 0 (bar_reg j) = pci_addr 0 3 0 (bar_reg i)) = (j = i)" if "i < 6" for i
      using pci_addr_inj [of 0 3 0 "bar_reg j" 0 3 0 "bar_reg i"] bar_reg_ok [OF j] bar_reg_ok [OF that] bar_reg_inj [OF j that] by auto
    from this [of 0] this [of 1] show ?thesis by (simp add: reg_at_def card_hw_def card_conf_def card_func_def zero_func_def)
  qed
  have hw: "conf_law card_hw" by (simp add: conf_law_def card_hw_def)
  have bars: "bars_law card_hw card_func card_kind"
    by (simp add: bars_law_def reg_at_def card_func_def zero_func_def) (simp add: card_hw_def card_find card_kind_def del: upt_rec_numeral)
  have f: "pf_ok card_func" "length (pf_reg_base card_func) = 6" "length (pf_reg_size card_func) = 6" by (simp_all add: card_func_def zero_func_def pf_ok_def)
  have m: "mask 17 = (0x1ffff :: u32)" "mask 6 = (0x3f :: u32)" by (simp_all add: mask_eq_exp_minus_1)
  have set: "bar_value (card_kind j) (if j = 0 then 0xfebc0000 else if j = 1 then 0xc001 else 0) = (if j = 0 then 0xfebc0000 else if j = 1 then 0xc001 else 0)" for j :: nat
    by (simp add: card_kind_def m)
  obtain f' h' where e: "pci_func_enable card_hw card_func card_conf = Some (f', h')" "\<forall>j < 6. card_kind j \<noteq> No_bar \<longrightarrow>
      (pf_reg_base f' ! j, pf_reg_size f' ! j) = bar_region (card_kind j) (reg_at card_hw card_conf (pf_bus card_func) (pf_dev card_func) (pf_func card_func) (bar_reg j))"
    using func_enable_sizes_regions [OF hw bars f, of card_conf] r set by auto
  have "(pf_reg_base f' ! 0, pf_reg_size f' ! 0) = bar_region (Mem_bar 17 False) 0xfebc0000" "(pf_reg_base f' ! 1, pf_reg_size f' ! 1) = bar_region (Io_bar 6) 0xc001"
    using e(2) r by (simp_all add: card_kind_def)
  then show ?thesis using e(1) by (simp add: m)
qed

end
