(* ===== verification/Fs_Ide.thy ===== *)
theory Fs_Ide
  imports Fs_Bcache
begin

text \<open>
  The IDE driver, \<^verbatim>\<open>fs/ide.c\<close>, by programmed transfers.  The machine is the record \<open>idehw\<close>: its functions are the instructions for the ports of the
  controller; \<open>insw\<close> and \<open>outsw\<close> move one sector through the data port.  Waiting for the drive has no bound in the code: \<open>None\<close> is a wait that never
  ends, or a failed assertion or panic.  What a drive does is the contract \<open>ata_law\<close>.
\<close>

section \<open>The driver\<close>

record 'd idehw =
  inb :: "nat \<Rightarrow> 'd \<Rightarrow> u8 \<times> 'd"
  outb :: "nat \<Rightarrow> u8 \<Rightarrow> 'd \<Rightarrow> 'd"
  insw :: "'d \<Rightarrow> u8 list \<times> 'd"
  outsw :: "u8 list \<Rightarrow> 'd \<Rightarrow> 'd"

abbreviation SECTSIZE :: nat where "SECTSIZE \<equiv> 512"
abbreviation IDE_BSY :: u8 where "IDE_BSY \<equiv> 0x80"
abbreviation IDE_DRDY :: u8 where "IDE_DRDY \<equiv> 0x40"
abbreviation IDE_DF :: u8 where "IDE_DF \<equiv> 0x20"
abbreviation IDE_ERR :: u8 where "IDE_ERR \<equiv> 0x01"

partial_function (option) ide_wait_ready :: "'d idehw \<Rightarrow> bool \<Rightarrow> 'd \<Rightarrow> (int \<times> 'd) option" where
  "ide_wait_ready hw check_error d =
     (let (r, d1) = inb hw 0x1F7 d in
      if r AND (IDE_BSY OR IDE_DRDY) \<noteq> IDE_DRDY then ide_wait_ready hw check_error d1
      else Some (if check_error \<and> r AND (IDE_DF OR IDE_ERR) \<noteq> 0 then - 1 else 0, d1))"

text \<open>The loop of \<open>ide_probe_disk1\<close> with its remaining rounds; it answers whether the disk was ready in time.\<close>

fun probe_loop :: "'d idehw \<Rightarrow> nat \<Rightarrow> 'd \<Rightarrow> bool \<times> 'd" where
  "probe_loop hw 0 d = (False, d)"
| "probe_loop hw (Suc n) d =
     (let (r, d1) = inb hw 0x1F7 d in if r AND (IDE_BSY OR IDE_DF OR IDE_ERR) \<noteq> 0 then probe_loop hw n d1 else (True, d1))"

definition ide_probe_disk1 :: "'d idehw \<Rightarrow> 'd \<Rightarrow> (bool \<times> 'd) option" where
  "ide_probe_disk1 hw d = do {
     (_, d1) \<leftarrow> ide_wait_ready hw False d;
     let (present, d2) = probe_loop hw 1000 (outb hw 0x1F6 (0xE0 OR push_bit 4 1) d1);
     Some (present, outb hw 0x1F6 (0xE0 OR push_bit 4 0) d2) }"

text \<open>The number of the disk that transfers use is a variable of the driver, 1 at first.\<close>

definition ide_set_disk :: "int \<Rightarrow> int option" where
  "ide_set_disk d = (if d \<noteq> 0 \<and> d \<noteq> 1 then None else Some d)"

text \<open>The registers are written alike for reading and for writing; only the command differs.\<close>

definition ide_command :: "'d idehw \<Rightarrow> int \<Rightarrow> u32 \<Rightarrow> nat \<Rightarrow> u8 \<Rightarrow> 'd \<Rightarrow> 'd" where
  "ide_command hw diskno secno nsecs cmd d =
     outb hw 0x1F7 cmd
       (outb hw 0x1F6 (0xE0 OR push_bit 4 (of_int diskno AND 1) OR (ucast (drop_bit 24 secno) AND 0x0F))
         (outb hw 0x1F5 (ucast (drop_bit 16 secno AND 0xFF))
           (outb hw 0x1F4 (ucast (drop_bit 8 secno AND 0xFF))
             (outb hw 0x1F3 (ucast (secno AND 0xFF))
               (outb hw 0x1F2 (of_nat nsecs) d)))))"

fun read_loop :: "'d idehw \<Rightarrow> nat \<Rightarrow> u8 list \<Rightarrow> 'd \<Rightarrow> (int \<times> u8 list \<times> 'd) option" where
  "read_loop hw 0 dst d = Some (0, dst, d)"
| "read_loop hw (Suc n) dst d = do {
     (r, d1) \<leftarrow> ide_wait_ready hw True d;
     if r < 0 then Some (r, dst, d1)
     else let (bs, d2) = insw hw d1 in read_loop hw n (dst @ bs) d2 }"

text \<open>The bytes that are stored at \<open>dst\<close> are returned as a list.\<close>

definition ide_read :: "'d idehw \<Rightarrow> int \<Rightarrow> u32 \<Rightarrow> nat \<Rightarrow> 'd \<Rightarrow> (int \<times> u8 list \<times> 'd) option" where
  "ide_read hw diskno secno nsecs d =
     (if \<not> nsecs \<le> 256 then None
      else do {
        (_, d1) \<leftarrow> ide_wait_ready hw False d;
        read_loop hw nsecs [] (ide_command hw diskno secno nsecs 0x20 d1) })"

fun write_loop :: "'d idehw \<Rightarrow> nat \<Rightarrow> u8 list \<Rightarrow> 'd \<Rightarrow> (int \<times> 'd) option" where
  "write_loop hw 0 src d = Some (0, d)"
| "write_loop hw (Suc n) src d = do {
     (r, d1) \<leftarrow> ide_wait_ready hw True d;
     if r < 0 then Some (r, d1)
     else write_loop hw n (drop SECTSIZE src) (outsw hw (take SECTSIZE src) d1) }"

definition ide_write :: "'d idehw \<Rightarrow> int \<Rightarrow> u32 \<Rightarrow> u8 list \<Rightarrow> nat \<Rightarrow> 'd \<Rightarrow> (int \<times> 'd) option" where
  "ide_write hw diskno secno src nsecs d =
     (if \<not> nsecs \<le> 256 then None
      else do {
        (_, d1) \<leftarrow> ide_wait_ready hw False d;
        write_loop hw nsecs src (ide_command hw diskno secno nsecs 0x30 d1) })"

section \<open>The contract of a drive\<close>

text \<open>What the controller shows of two drives: their sectors, the registers, the transfer that is under way, as the next sector and the number of
  sectors left, and how often the status must be read until it says that the drive is ready.\<close>

datatype phase = Idle | Reading bool nat nat | Writing bool nat nat

record ata =
  store :: "bool \<Rightarrow> nat \<Rightarrow> u8 list"
  ataregs :: "nat \<Rightarrow> u8"
  phase :: phase
  polls :: nat

definition reg_lba :: "(nat \<Rightarrow> u8) \<Rightarrow> nat" where
  "reg_lba r = unat (r 0x1F3) + 256 * unat (r 0x1F4) + 65536 * unat (r 0x1F5) + 16777216 * unat (r 0x1F6 AND 0x0F)"

definition reg_count :: "(nat \<Rightarrow> u8) \<Rightarrow> nat" where
  "reg_count r = (if r 0x1F2 = 0 then 256 else unat (r 0x1F2))"

definition next_phase :: "(bool \<Rightarrow> nat \<Rightarrow> nat \<Rightarrow> phase) \<Rightarrow> bool \<Rightarrow> nat \<Rightarrow> nat \<Rightarrow> phase" where
  "next_phase C dr s k = (if k = 0 then Idle else C dr (s + 1) k)"

text \<open>\<open>sim d a\<close>: the drives in the state \<open>d\<close> of the machine look like \<open>a\<close>.  The contract is that of the ATA standard for the commands
  \<open>READ SECTORS\<close> and \<open>WRITE SECTORS\<close> on drives that report no errors.\<close>

definition ata_law :: "'d idehw \<Rightarrow> ('d \<Rightarrow> ata \<Rightarrow> bool) \<Rightarrow> bool" where
  "ata_law hw sim \<longleftrightarrow>
     (\<forall>d a n. sim d a \<longrightarrow> polls a = Suc n \<longrightarrow> fst (inb hw 0x1F7 d) AND 0xC0 \<noteq> 0x40 \<and> sim (snd (inb hw 0x1F7 d)) (a\<lparr>polls := n\<rparr>)) \<and>
     (\<forall>d a. sim d a \<longrightarrow> polls a = 0 \<longrightarrow> fst (inb hw 0x1F7 d) AND 0xC0 = 0x40 \<and> fst (inb hw 0x1F7 d) AND 0x21 = 0 \<and> sim (snd (inb hw 0x1F7 d)) a) \<and>
     (\<forall>d a p v. sim d a \<longrightarrow> polls a = 0 \<longrightarrow> phase a = Idle \<longrightarrow> 0x1F2 \<le> p \<longrightarrow> p \<le> 0x1F6 \<longrightarrow> sim (outb hw p v d) (a\<lparr>ataregs := (ataregs a)(p := v)\<rparr>)) \<and>
     (\<forall>d a. sim d a \<longrightarrow> polls a = 0 \<longrightarrow> phase a = Idle \<longrightarrow>
        (\<exists>n. sim (outb hw 0x1F7 0x20 d) (a\<lparr>phase := Reading (bit (ataregs a 0x1F6) 4) (reg_lba (ataregs a)) (reg_count (ataregs a)), polls := n\<rparr>)) \<and>
        (\<exists>n. sim (outb hw 0x1F7 0x30 d) (a\<lparr>phase := Writing (bit (ataregs a 0x1F6) 4) (reg_lba (ataregs a)) (reg_count (ataregs a)), polls := n\<rparr>))) \<and>
     (\<forall>d a dr s k. sim d a \<longrightarrow> polls a = 0 \<longrightarrow> phase a = Reading dr s (Suc k) \<longrightarrow>
        fst (insw hw d) = store a dr s \<and> (\<exists>n. sim (snd (insw hw d)) (a\<lparr>phase := next_phase Reading dr s k, polls := n\<rparr>))) \<and>
     (\<forall>d a dr s k bs. sim d a \<longrightarrow> polls a = 0 \<longrightarrow> phase a = Writing dr s (Suc k) \<longrightarrow> length bs = SECTSIZE \<longrightarrow>
        (\<exists>n. sim (outsw hw bs d) (a\<lparr>store := (store a)(dr := (store a dr)(s := bs)), phase := next_phase Writing dr s k, polls := n\<rparr>)))"

section \<open>Waiting and commands\<close>

lemma ata_busy:
  "ata_law hw sim \<Longrightarrow> sim d a \<Longrightarrow> polls a = Suc n \<Longrightarrow> fst (inb hw 0x1F7 d) AND 0xC0 \<noteq> 0x40 \<and> sim (snd (inb hw 0x1F7 d)) (a\<lparr>polls := n\<rparr>)"
  by (simp add: ata_law_def)

lemma ata_ready:
  "ata_law hw sim \<Longrightarrow> sim d a \<Longrightarrow> polls a = 0 \<Longrightarrow> fst (inb hw 0x1F7 d) AND 0xC0 = 0x40 \<and> fst (inb hw 0x1F7 d) AND 0x21 = 0 \<and> sim (snd (inb hw 0x1F7 d)) a"
  by (simp add: ata_law_def)

lemma ata_reg:
  "ata_law hw sim \<Longrightarrow> sim d a \<Longrightarrow> polls a = 0 \<Longrightarrow> phase a = Idle \<Longrightarrow> 0x1F2 \<le> p \<Longrightarrow> p \<le> 0x1F6 \<Longrightarrow> sim (outb hw p v d) (a\<lparr>ataregs := (ataregs a)(p := v)\<rparr>)"
  by (simp add: ata_law_def)

lemma ata_command:
  "ata_law hw sim \<Longrightarrow> sim d a \<Longrightarrow> polls a = 0 \<Longrightarrow> phase a = Idle \<Longrightarrow>
    (\<exists>n. sim (outb hw 0x1F7 0x20 d) (a\<lparr>phase := Reading (bit (ataregs a 0x1F6) 4) (reg_lba (ataregs a)) (reg_count (ataregs a)), polls := n\<rparr>)) \<and>
    (\<exists>n. sim (outb hw 0x1F7 0x30 d) (a\<lparr>phase := Writing (bit (ataregs a 0x1F6) 4) (reg_lba (ataregs a)) (reg_count (ataregs a)), polls := n\<rparr>))"
  unfolding ata_law_def by (elim conjE) blast

lemma ata_in:
  "ata_law hw sim \<Longrightarrow> sim d a \<Longrightarrow> polls a = 0 \<Longrightarrow> phase a = Reading dr s (Suc k) \<Longrightarrow>
    fst (insw hw d) = store a dr s \<and> (\<exists>n. sim (snd (insw hw d)) (a\<lparr>phase := next_phase Reading dr s k, polls := n\<rparr>))"
  unfolding ata_law_def by (elim conjE) blast

lemma ata_out:
  "ata_law hw sim \<Longrightarrow> sim d a \<Longrightarrow> polls a = 0 \<Longrightarrow> phase a = Writing dr s (Suc k) \<Longrightarrow> length bs = SECTSIZE \<Longrightarrow>
    \<exists>n. sim (outsw hw bs d) (a\<lparr>store := (store a)(dr := (store a dr)(s := bs)), phase := next_phase Writing dr s k, polls := n\<rparr>)"
  by (simp add: ata_law_def)

lemma status_masks: "IDE_BSY OR IDE_DRDY = 0xC0" "IDE_DF OR IDE_ERR = 0x21"
  by simp_all

lemma wait_ready:
  assumes law: "ata_law hw sim"
  shows "sim d a \<Longrightarrow> \<exists>d'. ide_wait_ready hw c d = Some (0, d') \<and> sim d' (a\<lparr>polls := 0\<rparr>)"
proof (induction "polls a" arbitrary: a d)
  case 0
  note r = ata_ready [OF law 0(2) 0(1) [symmetric]]
  have "ide_wait_ready hw c d = Some (0, snd (inb hw 0x1F7 d))"
    by (subst ide_wait_ready.simps) (simp only: status_masks r Let_def case_prod_unfold simp_thms if_False)
  moreover have "a\<lparr>polls := 0\<rparr> = a" using 0(1) by simp
  ultimately show ?case using r by simp
next
  case (Suc n)
  note b = ata_busy [OF law Suc.prems Suc.hyps(2) [symmetric]]
  have "ide_wait_ready hw c d = ide_wait_ready hw c (snd (inb hw 0x1F7 d))"
    by (subst ide_wait_ready.simps) (simp only: status_masks b Let_def case_prod_unfold simp_thms if_True)
  moreover obtain d' where "ide_wait_ready hw c (snd (inb hw 0x1F7 d)) = Some (0, d')" "sim d' (a\<lparr>polls := n\<rparr>\<lparr>polls := 0\<rparr>)"
    using Suc.hyps(1) [of "a\<lparr>polls := n\<rparr>" "snd (inb hw 0x1F7 d)"] b by auto
  ultimately show ?case by simp
qed

text \<open>The sector number in the registers.\<close>

lemma byte_mod: "unat (ucast (x AND 0xFF) :: u8) = unat (x :: u32) mod 256"
proof -
  have "x AND 0xFF = take_bit 8 x" by (simp add: take_bit_eq_mask mask_eq_exp_minus_1)
  then have "unat (ucast (x AND 0xFF) :: u8) = take_bit 8 (take_bit 8 (unat x))" by (simp only: unsigned_ucast_eq unsigned_take_bit_eq) simp
  then show ?thesis by (simp add: take_bit_eq_mod)
qed

lemma unat_drop: "unat (drop_bit n (x :: u32)) = unat x div 2 ^ n"
proof -
  have "take_bit 32 (unat x) = unat x" using unsigned_less [of x, where ?'a = nat] by (simp add: take_bit_nat_eq_self)
  then show ?thesis unfolding unsigned_drop_bit_eq by (simp add: drop_bit_eq_div)
qed

lemma drive_reg:
  fixes x :: u8
  shows "(0xE0 OR push_bit 4 (d AND 1) OR (x AND 0x0F)) AND 0x0F = x AND 0x0F" "bit (0xE0 OR push_bit 4 (d AND 1) OR (x AND 0x0F)) 4 = odd (d :: u8)"
proof -
  have m: "(0x0F :: u8) = mask 4" "(0xE0 :: u8) = push_bit 5 (mask 3)" by (simp_all add: mask_eq_exp_minus_1 push_bit_eq_mult)
  show "(0xE0 OR push_bit 4 (d AND 1) OR (x AND 0x0F)) AND 0x0F = x AND 0x0F"
    unfolding m by (rule bit_eqI) (auto simp: bit_or_iff bit_and_iff bit_push_bit_iff bit_mask_iff)
  show "bit (0xE0 OR push_bit 4 (d AND 1) OR (x AND 0x0F)) 4 = odd d"
    unfolding m by (simp add: bit_or_iff bit_and_iff bit_push_bit_iff bit_mask_iff bit_0)
qed

lemma nibble: "unat (ucast (x :: u32) AND 0x0F :: u8) = unat x mod 16"
proof -
  have "(ucast x AND 0x0F :: u8) = take_bit 4 (ucast x)" by (simp add: take_bit_eq_mask mask_eq_exp_minus_1)
  then have "unat (ucast x AND 0x0F :: u8) = take_bit 4 (take_bit 8 (unat x))" by (simp only: unsigned_take_bit_eq unsigned_ucast_eq) simp
  then show ?thesis by (simp add: take_bit_eq_mod mod_mod_cancel)
qed

lemma lba_bytes: "x mod 256 + 256 * (x div 256 mod 256) + 65536 * (x div 65536 mod 256) + 16777216 * (x div 16777216 mod 16) = (x :: nat) mod 268435456"
proof -
  have "x mod 65536 = 256 * (x div 256 mod 256) + x mod 256" using mod_mult2_eq [of x 256 256] by simp
  moreover have "x mod 16777216 = 65536 * (x div 65536 mod 256) + x mod 65536" using mod_mult2_eq [of x 65536 256] by simp
  moreover have "x mod 268435456 = 16777216 * (x div 16777216 mod 16) + x mod 16777216" using mod_mult2_eq [of x 16777216 16] by simp
  ultimately show ?thesis by linarith
qed

definition lba_regs :: "(nat \<Rightarrow> u8) \<Rightarrow> int \<Rightarrow> u32 \<Rightarrow> nat \<Rightarrow> nat \<Rightarrow> u8" where
  "lba_regs r diskno secno nsecs = r(0x1F2 := of_nat nsecs, 0x1F3 := ucast (secno AND 0xFF), 0x1F4 := ucast (drop_bit 8 secno AND 0xFF),
     0x1F5 := ucast (drop_bit 16 secno AND 0xFF), 0x1F6 := 0xE0 OR push_bit 4 (of_int diskno AND 1) OR (ucast (drop_bit 24 secno) AND 0x0F))"

lemma lba_regs_fields:
  assumes "0 < n" "n \<le> 256" "diskno = 0 \<or> diskno = 1"
  shows "reg_lba (lba_regs r diskno secno n) = unat secno mod 268435456" "reg_count (lba_regs r diskno secno n) = n" "bit (lba_regs r diskno secno n 0x1F6) 4 = (diskno = 1)"
proof -
  show "reg_lba (lba_regs r diskno secno n) = unat secno mod 268435456"
  proof -
    have r: "lba_regs r diskno secno n 0x1F3 = ucast (secno AND 0xFF)" "lba_regs r diskno secno n 0x1F4 = ucast (drop_bit 8 secno AND 0xFF)"
      "lba_regs r diskno secno n 0x1F5 = ucast (drop_bit 16 secno AND 0xFF)"
      "lba_regs r diskno secno n 0x1F6 = 0xE0 OR push_bit 4 (of_int diskno AND 1) OR (ucast (drop_bit 24 secno) AND 0x0F)" by (simp_all add: lba_regs_def)
    show ?thesis unfolding reg_lba_def r drive_reg(1) nibble byte_mod unat_drop using lba_bytes [of "unat secno"] by simp
  qed
  show "reg_count (lba_regs r diskno secno n) = n"
  proof (cases "n = 256")
    case False
    then have "unat (of_nat n :: u8) = n" using assms(2) by (simp add: unat_of_nat)
    then show ?thesis using assms(1) by (auto simp: reg_count_def lba_regs_def)
  qed (simp add: reg_count_def lba_regs_def)
  show "bit (lba_regs r diskno secno n 0x1F6) 4 = (diskno = 1)" 
  proof -
    have "lba_regs r diskno secno n 0x1F6 = 0xE0 OR push_bit 4 (of_int diskno AND 1) OR (ucast (drop_bit 24 secno) AND 0x0F)" by (simp add: lba_regs_def)
    then have "bit (lba_regs r diskno secno n 0x1F6) 4 = odd (of_int diskno :: u8)" by (simp only: drive_reg(2))
    then show ?thesis using assms(3) by auto
  qed
qed

section \<open>Transfers\<close>

lemma command_spec:
  assumes law: "ata_law hw sim" and s: "sim d a" "polls a = 0" "phase a = Idle" and n: "0 < n" "n \<le> 256" "diskno = 0 \<or> diskno = 1" and r: "unat secno < 268435456"
  shows "\<exists>k. sim (ide_command hw diskno secno n 0x20 d) (a\<lparr>ataregs := lba_regs (ataregs a) diskno secno n, phase := Reading (diskno = 1) (unat secno) n, polls := k\<rparr>)"
    and "\<exists>k. sim (ide_command hw diskno secno n 0x30 d) (a\<lparr>ataregs := lba_regs (ataregs a) diskno secno n, phase := Writing (diskno = 1) (unat secno) n, polls := k\<rparr>)"
proof -
  let ?v6 = "0xE0 OR push_bit 4 (of_int diskno AND 1) OR (ucast (drop_bit 24 secno) AND 0x0F) :: u8"
  note reg = ata_reg [OF law]
  have 1: "sim (outb hw 0x1F2 (of_nat n) d) (a\<lparr>ataregs := (ataregs a)(0x1F2 := of_nat n)\<rparr>)" (is "sim ?d1 ?a1") by (rule reg [OF s]) simp_all
  have 2: "sim (outb hw 0x1F3 (ucast (secno AND 0xFF)) ?d1) (?a1\<lparr>ataregs := (ataregs ?a1)(0x1F3 := ucast (secno AND 0xFF))\<rparr>)" (is "sim ?d2 ?a2") by (rule reg [OF 1]) (use s in simp_all)
  have 3: "sim (outb hw 0x1F4 (ucast (drop_bit 8 secno AND 0xFF)) ?d2) (?a2\<lparr>ataregs := (ataregs ?a2)(0x1F4 := ucast (drop_bit 8 secno AND 0xFF))\<rparr>)" (is "sim ?d3 ?a3") by (rule reg [OF 2]) (use s in simp_all)
  have 4: "sim (outb hw 0x1F5 (ucast (drop_bit 16 secno AND 0xFF)) ?d3) (?a3\<lparr>ataregs := (ataregs ?a3)(0x1F5 := ucast (drop_bit 16 secno AND 0xFF))\<rparr>)" (is "sim ?d4 ?a4") by (rule reg [OF 3]) (use s in simp_all)
  have 5: "sim (outb hw 0x1F6 ?v6 ?d4) (?a4\<lparr>ataregs := (ataregs ?a4)(0x1F6 := ?v6)\<rparr>)" (is "sim ?d5 ?a5") by (rule reg [OF 4]) (use s in simp_all)
  have a5: "?a5 = a\<lparr>ataregs := lba_regs (ataregs a) diskno secno n\<rparr>" by (simp add: lba_regs_def)
  let ?b = "a\<lparr>ataregs := lba_regs (ataregs a) diskno secno n\<rparr>"
  have 6: "sim ?d5 ?b" using 5 unfolding a5 .
  have pb: "polls ?b = 0" "phase ?b = Idle" using s by simp_all
  have f: "reg_lba (ataregs ?b) = unat secno" "reg_count (ataregs ?b) = n" "bit (ataregs ?b 0x1F6) 4 = (diskno = 1)"
    using lba_regs_fields [OF n, of "ataregs a" secno] r by simp_all
  note c = ata_command [OF law 6 pb, unfolded f]
  show "\<exists>k. sim (ide_command hw diskno secno n 0x20 d) (a\<lparr>ataregs := lba_regs (ataregs a) diskno secno n, phase := Reading (diskno = 1) (unat secno) n, polls := k\<rparr>)"
    "\<exists>k. sim (ide_command hw diskno secno n 0x30 d) (a\<lparr>ataregs := lba_regs (ataregs a) diskno secno n, phase := Writing (diskno = 1) (unat secno) n, polls := k\<rparr>)"
    using c unfolding ide_command_def by blast+
qed

lemma read_loop_spec:
  assumes law: "ata_law hw sim"
  shows "sim d a \<Longrightarrow> n = 0 \<longrightarrow> phase a = Idle \<Longrightarrow> 0 < n \<longrightarrow> phase a = Reading dr s n \<Longrightarrow>
    \<exists>d' a'. read_loop hw n dst d = Some (0, dst @ concat (map (store a dr) [s..<s + n]), d') \<and> sim d' a' \<and> store a' = store a \<and> phase a' = Idle"
proof (induction n arbitrary: d a s dst)
  case 0
  then show ?case by (intro exI [of _ d] exI [of _ a]) simp
next
  case (Suc n)
  obtain d1 where d1: "ide_wait_ready hw True d = Some (0, d1)" "sim d1 (a\<lparr>polls := 0\<rparr>)" using wait_ready [OF law Suc.prems(1)] by blast
  have "phase (a\<lparr>polls := 0\<rparr>) = Reading dr s (Suc n)" using Suc.prems(3) by simp
  from ata_in [OF law d1(2) _ this] obtain k where k: "fst (insw hw d1) = store a dr s" "sim (snd (insw hw d1)) (a\<lparr>polls := 0, phase := next_phase Reading dr s n, polls := k\<rparr>)" by auto
  let ?a2 = "a\<lparr>polls := 0, phase := next_phase Reading dr s n, polls := k\<rparr>"
  have IH: "\<exists>d' a'. read_loop hw n (dst @ store a dr s) (snd (insw hw d1)) = Some (0, (dst @ store a dr s) @ concat (map (store ?a2 dr) [s + 1..<s + 1 + n]), d') \<and>
      sim d' a' \<and> store a' = store ?a2 \<and> phase a' = Idle"
    by (rule Suc.IH [OF k(2)]) (simp_all add: next_phase_def)
  have "read_loop hw (Suc n) dst d = read_loop hw n (dst @ store a dr s) (snd (insw hw d1))" by (simp add: d1(1) case_prod_unfold k(1))
  moreover have "[s..<s + Suc n] = s # [s + 1..<s + 1 + n]" by (simp add: upt_conv_Cons)
  ultimately show ?case using IH by simp
qed

lemma write_loop_spec:
  assumes law: "ata_law hw sim"
  shows "sim d a \<Longrightarrow> n = 0 \<longrightarrow> phase a = Idle \<Longrightarrow> 0 < n \<longrightarrow> phase a = Writing dr s n \<Longrightarrow> 512 * n \<le> length src \<Longrightarrow>
    \<exists>d' a'. write_loop hw n src d = Some (0, d') \<and> sim d' a' \<and> phase a' = Idle \<and> (\<forall>dr' s'. store a' dr' s' =
      (if dr' = dr \<and> s \<le> s' \<and> s' < s + n then take 512 (drop (512 * (s' - s)) src) else store a dr' s'))"
proof (induction n arbitrary: d a s src)
  case 0
  then show ?case by (intro exI [of _ d] exI [of _ a]) auto
next
  case (Suc n)
  obtain d1 where d1: "ide_wait_ready hw True d = Some (0, d1)" "sim d1 (a\<lparr>polls := 0\<rparr>)" using wait_ready [OF law Suc.prems(1)] by blast
  have p: "phase (a\<lparr>polls := 0\<rparr>) = Writing dr s (Suc n)" using Suc.prems(3) by simp
  have l: "length (take 512 src) = SECTSIZE" using Suc.prems(4) by simp
  from ata_out [OF law d1(2) _ p l] obtain k where k: "sim (outsw hw (take 512 src) d1)
      (a\<lparr>polls := 0, store := (store a)(dr := (store a dr)(s := take 512 src)), phase := next_phase Writing dr s n, polls := k\<rparr>)" by auto
  let ?a2 = "a\<lparr>polls := 0, store := (store a)(dr := (store a dr)(s := take 512 src)), phase := next_phase Writing dr s n, polls := k\<rparr>"
  have IH: "\<exists>d' a'. write_loop hw n (drop 512 src) (outsw hw (take 512 src) d1) = Some (0, d') \<and> sim d' a' \<and> phase a' = Idle \<and> (\<forall>dr' s'. store a' dr' s' =
      (if dr' = dr \<and> s + 1 \<le> s' \<and> s' < s + 1 + n then take 512 (drop (512 * (s' - (s + 1))) (drop 512 src)) else store ?a2 dr' s'))"
    by (rule Suc.IH [OF k]) (use Suc.prems(4) in \<open>simp_all add: next_phase_def\<close>)
  then obtain d' a' where r: "write_loop hw n (drop 512 src) (outsw hw (take 512 src) d1) = Some (0, d')" "sim d' a'" "phase a' = Idle"
    and st: "\<And>dr' s'. store a' dr' s' = (if dr' = dr \<and> s + 1 \<le> s' \<and> s' < s + 1 + n then take 512 (drop (512 * (s' - (s + 1))) (drop 512 src)) else store ?a2 dr' s')" by blast
  have "store a' dr' s' = (if dr' = dr \<and> s \<le> s' \<and> s' < s + Suc n then take 512 (drop (512 * (s' - s)) src) else store a dr' s')" for dr' s'
  proof (cases "dr' = dr \<and> s + 1 \<le> s' \<and> s' < s + 1 + n")
    case True
    then obtain j where "s' = s + 1 + j" by (auto simp: le_iff_add)
    then have "512 * (s' - (s + 1)) + 512 = 512 * (s' - s)" by simp
    then show ?thesis unfolding st using True by (simp add: add.commute)
  qed (auto simp: st)
  then show ?case using r d1(1) by (intro exI [of _ d'] exI [of _ a']) simp
qed

lemma concat_chunks: "length xs = 512 * n \<Longrightarrow> concat (map (\<lambda>i. take 512 (drop (512 * (i - s)) xs)) [s..<s + n]) = xs"
proof (induction n arbitrary: xs s)
  case (Suc n)
  have u: "[s..<s + Suc n] = s # [s + 1..<s + 1 + n]" by (simp add: upt_conv_Cons)
  have m: "map (\<lambda>i. take 512 (drop (512 * (i - s)) xs)) [s + 1..<s + 1 + n] = map (\<lambda>i. take 512 (drop (512 * (i - (s + 1))) (drop 512 xs))) [s + 1..<s + 1 + n]"
  proof (rule map_cong [OF refl])
    fix i
    assume "i \<in> set [s + 1..<s + 1 + n]"
    then obtain j where "i = s + 1 + j" by (auto simp: le_iff_add)
    then have "512 * (i - (s + 1)) + 512 = 512 * (i - s)" by simp
    then show "take 512 (drop (512 * (i - s)) xs) = take 512 (drop (512 * (i - (s + 1))) (drop 512 xs))" by (simp add: add.commute)
  qed
  have "concat (map (\<lambda>i. take 512 (drop (512 * (i - (s + 1))) (drop 512 xs))) [s + 1..<s + 1 + n]) = drop 512 xs"
    by (rule Suc.IH) (use Suc.prems in simp)
  then show ?case unfolding u list.map concat.simps m by simp
qed simp

lemma ide_write_spec:
  assumes law: "ata_law hw sim" and s: "sim d a" "phase a = Idle" and n: "0 < n" "n \<le> 256" "diskno = 0 \<or> diskno = 1" and r: "unat secno + n \<le> 268435456"
    and src: "length src = 512 * n"
  shows "\<exists>d' a'. ide_write hw diskno secno src n d = Some (0, d') \<and> sim d' a' \<and> phase a' = Idle \<and> (\<forall>dr i. store a' dr i =
    (if dr = (diskno = 1) \<and> unat secno \<le> i \<and> i < unat secno + n then take 512 (drop (512 * (i - unat secno)) src) else store a dr i))"
proof -
  obtain d1 where d1: "ide_wait_ready hw False d = Some (0, d1)" "sim d1 (a\<lparr>polls := 0\<rparr>)" using wait_ready [OF law s(1)] by blast
  have "unat secno < 268435456" using r n(1) by linarith
  from command_spec(2) [OF law d1(2) _ _ n this] s(2) obtain k where "sim (ide_command hw diskno secno n 0x30 d1)
      (a\<lparr>polls := 0, ataregs := lba_regs (ataregs a) diskno secno n, phase := Writing (diskno = 1) (unat secno) n, polls := k\<rparr>)" by auto
  then have "\<exists>d' a'. write_loop hw n src (ide_command hw diskno secno n 0x30 d1) = Some (0, d') \<and> sim d' a' \<and> phase a' = Idle \<and> (\<forall>dr i. store a' dr i =
      (if dr = (diskno = 1) \<and> unat secno \<le> i \<and> i < unat secno + n then take 512 (drop (512 * (i - unat secno)) src)
       else store (a\<lparr>polls := 0, ataregs := lba_regs (ataregs a) diskno secno n, phase := Writing (diskno = 1) (unat secno) n, polls := k\<rparr>) dr i))"
    by (rule write_loop_spec [OF law]) (use n(1) src in simp_all)
  moreover have "store (a\<lparr>polls := 0, ataregs := lba_regs (ataregs a) diskno secno n, phase := Writing (diskno = 1) (unat secno) n, polls := k\<rparr>) = store a" by simp
  moreover have "ide_write hw diskno secno src n d = write_loop hw n src (ide_command hw diskno secno n 0x30 d1)" using n(2) by (simp add: ide_write_def d1(1))
  ultimately show ?thesis by (simp only:)
qed

lemma ide_read_spec:
  assumes law: "ata_law hw sim" and s: "sim d a" "phase a = Idle" and n: "0 < n" "n \<le> 256" "diskno = 0 \<or> diskno = 1" and r: "unat secno + n \<le> 268435456"
  shows "\<exists>d' a'. ide_read hw diskno secno n d = Some (0, concat (map (store a (diskno = 1)) [unat secno..<unat secno + n]), d') \<and>
    sim d' a' \<and> store a' = store a \<and> phase a' = Idle"
proof -
  obtain d1 where d1: "ide_wait_ready hw False d = Some (0, d1)" "sim d1 (a\<lparr>polls := 0\<rparr>)" using wait_ready [OF law s(1)] by blast
  have "unat secno < 268435456" using r n(1) by linarith
  from command_spec(1) [OF law d1(2) _ _ n this] s(2) obtain k where "sim (ide_command hw diskno secno n 0x20 d1)
      (a\<lparr>polls := 0, ataregs := lba_regs (ataregs a) diskno secno n, phase := Reading (diskno = 1) (unat secno) n, polls := k\<rparr>)" by auto
  from read_loop_spec [OF law this, of n "diskno = 1" "unat secno" "[]"] n show ?thesis by (auto simp: ide_read_def d1(1))
qed

text \<open>Reading sectors gives what the drive holds there, whatever the drive makes the driver wait; the drive keeps its contents and is idle again.\<close>

theorem ide_read_sectors:
  assumes law: "ata_law hw sim" and s: "sim d a" "phase a = Idle" and n: "0 < n" "n \<le> 256" "diskno = 0 \<or> diskno = 1" and r: "unat secno + n \<le> 268435456"
  shows "\<exists>d' a'. ide_read hw diskno secno n d = Some (0, concat (map (store a (diskno = 1)) [unat secno..<unat secno + n]), d') \<and>
    sim d' a' \<and> store a' = store a \<and> phase a' = Idle"
  by (rule ide_read_spec [OF assms])

text \<open>C31: Writing sectors stores the bytes at these sectors of the chosen disk and changes nothing else; reading them gives the bytes back.\<close>

theorem ide_write_then_read:
  assumes law: "ata_law hw sim" and s: "sim d a" "phase a = Idle" and n: "0 < n" "n \<le> 256" "diskno = 0 \<or> diskno = 1" and r: "unat secno + n \<le> 268435456"
    and src: "length src = 512 * n"
  shows "\<exists>d1 a1 d2. ide_write hw diskno secno src n d = Some (0, d1) \<and> sim d1 a1 \<and>
    (\<forall>dr i. dr \<noteq> (diskno = 1) \<or> i < unat secno \<or> unat secno + n \<le> i \<longrightarrow> store a1 dr i = store a dr i) \<and> ide_read hw diskno secno n d1 = Some (0, src, d2)"
proof -
  obtain d1 a1 where w: "ide_write hw diskno secno src n d = Some (0, d1)" "sim d1 a1" "phase a1 = Idle" and st: "\<And>dr i. store a1 dr i =
    (if dr = (diskno = 1) \<and> unat secno \<le> i \<and> i < unat secno + n then take 512 (drop (512 * (i - unat secno)) src) else store a dr i)"
    using ide_write_spec [OF assms] by blast
  have m: "map (store a1 (diskno = 1)) [unat secno..<unat secno + n] = map (\<lambda>i. take 512 (drop (512 * (i - unat secno)) src)) [unat secno..<unat secno + n]"
    by (rule map_cong [OF refl]) (simp add: st)
  have "concat (map (store a1 (diskno = 1)) [unat secno..<unat secno + n]) = src" unfolding m by (rule concat_chunks [OF src])
  with ide_read_spec [OF law w(2,3) n r] obtain d2 where "ide_read hw diskno secno n d1 = Some (0, src, d2)" by auto
  with w st show ?thesis by (intro exI [of _ d1] exI [of _ a1] exI [of _ d2]) auto
qed

text \<open>A drive that must be asked twice after every command and once after every sector.\<close>

definition slow_drive :: "ata idehw" where
  "slow_drive = \<lparr>
     inb = (\<lambda>p d. if polls d = 0 then (0x40, d) else (0x80, d\<lparr>polls := polls d - 1\<rparr>)),
     outb = (\<lambda>p v d. if p \<noteq> 0x1F7 then d\<lparr>ataregs := (ataregs d)(p := v)\<rparr>
       else d\<lparr>phase := (if v = 0x20 then Reading else Writing) (bit (ataregs d 0x1F6) 4) (reg_lba (ataregs d)) (reg_count (ataregs d)), polls := 2\<rparr>),
     insw = (\<lambda>d. case phase d of Reading dr s (Suc k) \<Rightarrow> (store d dr s, d\<lparr>phase := next_phase Reading dr s k, polls := 1\<rparr>) | _ \<Rightarrow> ([], d)),
     outsw = (\<lambda>bs d. case phase d of
         Writing dr s (Suc k) \<Rightarrow> d\<lparr>store := (store d)(dr := (store d dr)(s := bs)), phase := next_phase Writing dr s k, polls := 1\<rparr> | _ \<Rightarrow> d)\<rparr>"

definition empty_disks :: ata where
  "empty_disks = \<lparr>store = (\<lambda>_ _. replicate 512 0), ataregs = (\<lambda>_. 0), phase = Idle, polls = 3\<rparr>"

lemma slow_drive_law: "ata_law slow_drive (=)"
  unfolding ata_law_def by (intro conjI allI impI) (auto simp: slow_drive_def)

theorem ide_read_sectors_witness: "\<exists>d'. ide_read slow_drive 1 5 2 empty_disks = Some (0, replicate 1024 0, d')"
proof -
  have u: "[5..<7] = [5, Suc 5]" by (simp add: upt_conv_Cons)
  have r: "replicate 512 (0 :: u8) @ replicate 512 0 = replicate 1024 0" by (simp flip: replicate_add)
  have "concat (map (store empty_disks (1 = (1 :: int))) [unat (5 :: u32)..<unat (5 :: u32) + 2]) = replicate 1024 0"
    by (simp add: empty_disks_def u r del: upt_rec_numeral)
  then show ?thesis using ide_read_sectors [OF slow_drive_law refl, of empty_disks 2 1 5] by (auto simp: empty_disks_def)
qed

theorem ide_write_then_read_witness:
  "\<exists>d1 d2. ide_write slow_drive 0 5 (replicate 512 7) 1 empty_disks = Some (0, d1) \<and> ide_read slow_drive 0 5 1 d1 = Some (0, replicate 512 7, d2)"
  using ide_write_then_read [OF slow_drive_law refl, of empty_disks 1 0 5 "replicate 512 7"] by (auto simp: empty_disks_def)

end
