(* ===== verification/User_Sh.thy ===== *)
theory User_Sh
  imports Cmd_Line
begin

text \<open>
  Running commands, \<^verbatim>\<open>user/sh.c\<close>: \<open>runcmd\<close> and the rounds of \<open>umain\<close>, over the tokens of the line, which \<open>gettoken\<close> gives one by one (theorem
  \<open>gettoken_splits_line\<close> of \<open>Cmd_Line\<close>).  The calls of the library are the record \<open>shlib\<close>, over any type \<open>'f\<close> of descriptor tables; a process leaves a
  list of what it does, and \<open>runcmd\<close> gives the lists of the process that it was called in and of those that it forks for the right-hand sides of pipes.
\<close>

section \<open>The library\<close>

record 'f shlib =
  l_open :: "u8 list \<Rightarrow> u32 \<Rightarrow> 'f \<Rightarrow> int \<times> 'f"
  l_dup :: "int \<Rightarrow> int \<Rightarrow> 'f \<Rightarrow> 'f"
  l_close :: "int \<Rightarrow> 'f \<Rightarrow> 'f"
  l_pipe :: "'f \<Rightarrow> int \<times> (int \<times> int) \<times> 'f"
  l_fork :: "'f \<Rightarrow> int \<times> 'f"
  l_stat :: "u8 list \<Rightarrow> int"
  l_spawn :: "u8 list \<Rightarrow> u8 list list \<Rightarrow> 'f \<Rightarrow> int"

text \<open>\<open>Overflow\<close> stands for a store outside an array, after which nothing is known.\<close>

datatype 'f act = Spawn "u8 list" "u8 list list" 'f | Wait int | Report | Exit | Panic | Overflow

section \<open>runcmd\<close>

abbreviation SH_MAXARGS :: nat where "SH_MAXARGS \<equiv> 16"
abbreviation BUFSIZ :: nat where "BUFSIZ \<equiv> 1024"
abbreviation READ_ONLY :: u32 where "READ_ONLY \<equiv> 0"
abbreviation WRITE_NEW :: u32 where "WRITE_NEW \<equiv> 0x301"

definition SH_PATH :: "u8 list list" where
  "SH_PATH = [[0x2F, 0x62, 0x69, 0x6E, 0x2F], [0x2F]]"

text \<open>The search of the path: the program to spawn, or \<open>None\<close> if the buffer overflows.\<close>

fun search_path :: "(u8 list \<Rightarrow> int) \<Rightarrow> u8 list list \<Rightarrow> u8 list \<Rightarrow> u8 list option" where
  "search_path stat [] name = Some name"
| "search_path stat (p # ps) name =
     (if length p + length name + 1 > BUFSIZ then None
      else if stat (p @ name) = 0 then Some (p @ name) else search_path stat ps name)"

definition program_of :: "(u8 list \<Rightarrow> int) \<Rightarrow> u8 list \<Rightarrow> u8 list option" where
  "program_of stat name = do {
     prog \<leftarrow> search_path stat SH_PATH name;
     if prog \<noteq> [] \<and> hd prog = 0x2F then Some prog
     else if length prog + 2 > BUFSIZ then None
     else Some (0x2F # prog) }"

definition runit :: "'f shlib \<Rightarrow> 'f \<Rightarrow> u8 list list \<Rightarrow> int option \<Rightarrow> 'f act list" where
  "runit lib tab argv pipe_child =
     (if argv = [] then []
      else case program_of (l_stat lib) (hd argv) of
        None \<Rightarrow> [Overflow]
      | Some prog \<Rightarrow>
          if length argv \<ge> SH_MAXARGS then [Overflow]
          else let argv1 = prog # tl argv; r = l_spawn lib prog argv1 tab in
            [Spawn prog argv1 tab] @ (if r < 0 then [Report] else []) @ (if r \<ge> 0 then [Wait r] else []) @
            (case pipe_child of None \<Rightarrow> [] | Some c \<Rightarrow> [Wait c]) @ [Exit])"

text \<open>A redirection: the file is opened and moved to the descriptor \<open>target\<close>.\<close>

definition redirect :: "'f shlib \<Rightarrow> u8 list \<Rightarrow> u32 \<Rightarrow> int \<Rightarrow> 'f \<Rightarrow> 'f option" where
  "redirect lib path mode target tab =
     (let (fd, tab1) = l_open lib path mode tab in
      if fd < 0 then None
      else Some (if fd \<noteq> target then l_close lib fd (l_dup lib fd target tab1) else tab1))"

fun sh_runcmd :: "'f shlib \<Rightarrow> 'f \<Rightarrow> u8 list list \<Rightarrow> (u8 \<times> u8 list) list \<Rightarrow> 'f act list list" where
  "sh_runcmd lib tab argv [] = [runit lib tab argv None]"
| "sh_runcmd lib tab argv ((c, t) # ts) =
     (if c = TOK_WORD then
        if length argv = SH_MAXARGS then [[Report, Exit]] else sh_runcmd lib tab (argv @ [t]) ts
      else if c = 0x3C then
        (case ts of
           (c1, t1) # ts1 \<Rightarrow>
             if c1 \<noteq> TOK_WORD then [[Report, Exit]]
             else (case redirect lib t1 READ_ONLY 0 tab of None \<Rightarrow> [[Report, Exit]] | Some tab1 \<Rightarrow> sh_runcmd lib tab1 argv ts1)
         | [] \<Rightarrow> [[Report, Exit]])
      else if c = 0x3E then
        (case ts of
           (c1, t1) # ts1 \<Rightarrow>
             if c1 \<noteq> TOK_WORD then [[Report, Exit]]
             else (case redirect lib t1 WRITE_NEW 1 tab of None \<Rightarrow> [[Report, Exit]] | Some tab1 \<Rightarrow> sh_runcmd lib tab1 argv ts1)
         | [] \<Rightarrow> [[Report, Exit]])
      else if c = 0x7C then
        (let (r, (p0, p1), tab1) = l_pipe lib tab in
         if r < 0 then [[Report, Exit]]
         else let (f, child) = l_fork lib tab1 in
           if f < 0 then [[Report, Exit]]
           else
             let child1 = l_close lib p1 (if p0 \<noteq> 0 then l_close lib p0 (l_dup lib p0 0 child) else child);
                 parent1 = l_close lib p0 (if p1 \<noteq> 1 then l_close lib p1 (l_dup lib p1 1 tab1) else tab1)
             in runit lib parent1 argv (Some f) # sh_runcmd lib child1 [] ts)
      else [[Panic]])"

section \<open>The rounds of umain\<close>

text \<open>One line: what the shell itself does, and what the processes do that it starts.\<close>

datatype round = Finish | Skip | Run int | Fail

definition umain_round :: "'f shlib \<Rightarrow> 'f \<Rightarrow> u8 list option \<Rightarrow> round \<times> 'f act list list" where
  "umain_round lib tab buf =
     (case buf of
        None \<Rightarrow> (Finish, [])
      | Some line \<Rightarrow>
          if line = [0x71, 0x75, 0x69, 0x74] then (Finish, [])
          else if line \<noteq> [] \<and> hd line = 0x23 then (Skip, [])
          else let (r, child) = l_fork lib tab in
            if r < 0 then (Fail, []) else (Run r, sh_runcmd lib child [] (toks line)))"

section \<open>Pipelines\<close>

text \<open>What a descriptor stands for, and what the library promises of it: \<open>look\<close> is the contents of a table.\<close>

datatype obj = File "u8 list" u32 | PipeRd nat | PipeWr nat | Other nat

definition sh_law :: "'f shlib \<Rightarrow> ('f \<Rightarrow> int \<Rightarrow> obj option) \<Rightarrow> bool" where
  "sh_law lib look \<longleftrightarrow>
     (\<forall>p m t n t'. l_open lib p m t = (n, t') \<longrightarrow> 0 \<le> n \<longrightarrow> look t n = None \<and> look t' = (look t)(n \<mapsto> File p m)) \<and>
     (\<forall>a b t. look t a \<noteq> None \<longrightarrow> look (l_dup lib a b t) = (look t)(b := look t a)) \<and>
     (\<forall>a t. look (l_close lib a t) = (look t)(a := None)) \<and>
     (\<forall>t r a b t'. l_pipe lib t = (r, (a, b), t') \<longrightarrow> 0 \<le> r \<longrightarrow>
        a \<noteq> b \<and> look t a = None \<and> look t b = None \<and> (\<exists>k. look t' = (look t)(a \<mapsto> PipeRd k, b \<mapsto> PipeWr k))) \<and>
     (\<forall>t r c. l_fork lib t = (r, c) \<longrightarrow> 0 \<le> r \<longrightarrow> look c = look t)"

text \<open>A command is a list of cmd_words and redirections; a line is a list of commands with bars between them.\<close>

datatype item = Word "u8 list" | In "u8 list" | Out "u8 list"

fun item_toks :: "item \<Rightarrow> (u8 \<times> u8 list) list" where
  "item_toks (Word w) = [(TOK_WORD, w)]"
| "item_toks (In f) = [(0x3C, []), (TOK_WORD, f)]"
| "item_toks (Out f) = [(0x3E, []), (TOK_WORD, f)]"

fun line_toks :: "item list list \<Rightarrow> (u8 \<times> u8 list) list" where
  "line_toks [] = []"
| "line_toks [c] = concat (map item_toks c)"
| "line_toks (c # cs) = concat (map item_toks c) @ (0x7C, []) # line_toks cs"

fun cmd_words :: "item list \<Rightarrow> u8 list list" where
  "cmd_words [] = []"
| "cmd_words (Word w # is) = w # cmd_words is"
| "cmd_words (In f # is) = cmd_words is"
| "cmd_words (Out f # is) = cmd_words is"

text \<open>The last redirection counts.\<close>

fun input_of :: "obj option \<Rightarrow> item list \<Rightarrow> obj option" where
  "input_of i [] = i"
| "input_of i (In f # is) = input_of (Some (File f READ_ONLY)) is"
| "input_of i (Word w # is) = input_of i is"
| "input_of i (Out f # is) = input_of i is"

fun output_of :: "obj option \<Rightarrow> item list \<Rightarrow> obj option" where
  "output_of i [] = i"
| "output_of i (Out f # is) = output_of (Some (File f WRITE_NEW)) is"
| "output_of i (Word w # is) = output_of i is"
| "output_of i (In f # is) = output_of i is"

text \<open>The commands of a line with their standard input and output, given the pipes between them.  The output of a command that is followed by a bar is
  the pipe, even if it is redirected; the redirection holds for the commands after it.\<close>

fun wiring :: "obj option \<Rightarrow> obj option \<Rightarrow> item list list \<Rightarrow> nat list \<Rightarrow> (u8 list list \<times> obj option \<times> obj option) list" where
  "wiring i out (c # c' # cs) (k # ks) = (cmd_words c, input_of i c, Some (PipeWr k)) # wiring (Some (PipeRd k)) (output_of out c) (c' # cs) ks"
| "wiring i out [c] ks = [(cmd_words c, input_of i c, output_of out c)]"
| "wiring i out _ _ = []"

definition item_opens :: "'f shlib \<Rightarrow> item \<Rightarrow> bool" where
  "item_opens lib x = (case x of Word w \<Rightarrow> True | In f \<Rightarrow> \<forall>t. 0 \<le> fst (l_open lib f READ_ONLY t) | Out f \<Rightarrow> \<forall>t. 0 \<le> fst (l_open lib f WRITE_NEW t))"

lemma redirect_spec:
  assumes law: "sh_law lib look" and o: "0 \<le> fst (l_open lib p m tab)" and t: "look tab target \<noteq> None"
  shows "\<exists>tab'. redirect lib p m target tab = Some tab' \<and> look tab' = (look tab)(target \<mapsto> File p m)"
proof -
  obtain fd tab1 where e: "l_open lib p m tab = (fd, tab1)" by (cases "l_open lib p m tab")
  have fd: "0 \<le> fd" "look tab fd = None" "look tab1 = (look tab)(fd \<mapsto> File p m)" using law o e by (auto simp: sh_law_def)
  then have ne: "fd \<noteq> target" using t by auto
  have d: "look (l_dup lib fd target tab1) = (look tab1)(target := look tab1 fd)" using law fd(3) by (simp add: sh_law_def)
  have c: "look (l_close lib fd (l_dup lib fd target tab1)) = (look (l_dup lib fd target tab1))(fd := None)" using law by (simp add: sh_law_def)
  have "look (l_close lib fd (l_dup lib fd target tab1)) = (look tab)(target \<mapsto> File p m)" unfolding c d fd(3) using ne fd(2) by (auto simp: fun_eq_iff)
  then show ?thesis using fd(1) ne by (simp add: redirect_def e)
qed

lemma sh_runcmd_items:
  assumes law: "sh_law lib look"
  shows "\<forall>x \<in> set c. item_opens lib x \<Longrightarrow> length argv + length (cmd_words c) \<le> 16 \<Longrightarrow> look tab 0 \<noteq> None \<Longrightarrow> look tab 1 \<noteq> None \<Longrightarrow>
    \<exists>tab'. sh_runcmd lib tab argv (concat (map item_toks c) @ rest) = sh_runcmd lib tab' (argv @ cmd_words c) rest \<and>
      look tab' = (look tab)(0 := input_of (look tab 0) c, 1 := output_of (look tab 1) c)"
proof (induction c arbitrary: tab argv)
  case Nil
  then show ?case by (intro exI [of _ tab]) simp
next
  case (Cons x c)
  show ?case
  proof (cases x)
    case (Word w)
    then show ?thesis using Cons.IH [of "argv @ [w]" tab] Cons.prems by simp
  next
    case (In f)
    have "0 \<le> fst (l_open lib f READ_ONLY tab)" using Cons.prems(1) In by (simp add: item_opens_def)
    from redirect_spec [OF law this Cons.prems(3)] obtain tab1 where r: "redirect lib f READ_ONLY 0 tab = Some tab1" "look tab1 = (look tab)(0 \<mapsto> File f READ_ONLY)" by blast
    have ih: "\<exists>tab'. sh_runcmd lib tab1 argv (concat (map item_toks c) @ rest) = sh_runcmd lib tab' (argv @ cmd_words c) rest \<and>
        look tab' = (look tab1)(0 := input_of (look tab1 0) c, 1 := output_of (look tab1 1) c)"
      by (rule Cons.IH) (use Cons.prems In r(2) in simp_all)
    then obtain tab' where "sh_runcmd lib tab1 argv (concat (map item_toks c) @ rest) = sh_runcmd lib tab' (argv @ cmd_words c) rest"
      "look tab' = (look tab1)(0 := input_of (look tab1 0) c, 1 := output_of (look tab1 1) c)" using ih In by blast
    then show ?thesis using In r by (intro exI [of _ tab']) (auto simp: fun_eq_iff)
  next
    case (Out f)
    have "0 \<le> fst (l_open lib f WRITE_NEW tab)" using Cons.prems(1) Out by (simp add: item_opens_def)
    from redirect_spec [OF law this Cons.prems(4)] obtain tab1 where r: "redirect lib f WRITE_NEW 1 tab = Some tab1" "look tab1 = (look tab)(1 \<mapsto> File f WRITE_NEW)" by blast
    have ih: "\<exists>tab'. sh_runcmd lib tab1 argv (concat (map item_toks c) @ rest) = sh_runcmd lib tab' (argv @ cmd_words c) rest \<and>
        look tab' = (look tab1)(0 := input_of (look tab1 0) c, 1 := output_of (look tab1 1) c)"
      by (rule Cons.IH) (use Cons.prems Out r(2) in simp_all)
    then obtain tab' where "sh_runcmd lib tab1 argv (concat (map item_toks c) @ rest) = sh_runcmd lib tab' (argv @ cmd_words c) rest"
      "look tab' = (look tab1)(0 := input_of (look tab1 0) c, 1 := output_of (look tab1 1) c)" using ih Out by blast
    then show ?thesis using Out r by (intro exI [of _ tab']) (auto simp: fun_eq_iff)
  qed
qed

lemma bar_spec:
  assumes law: "sh_law lib look" and ok: "\<forall>t. 0 \<le> fst (l_pipe lib t)" "\<forall>t. 0 \<le> fst (l_fork lib t)" and t: "look tab 0 \<noteq> None" "look tab 1 \<noteq> None"
  shows "\<exists>par chi f k. sh_runcmd lib tab argv ((0x7C, x) # ts) = runit lib par argv (Some f) # sh_runcmd lib chi [] ts \<and>
    look par = (look tab)(1 \<mapsto> PipeWr k) \<and> look chi = (look tab)(0 \<mapsto> PipeRd k)"
proof -
  obtain r p0 p1 tab1 where p: "l_pipe lib tab = (r, (p0, p1), tab1)" by (metis prod.exhaust)
  obtain f child where fk: "l_fork lib tab1 = (f, child)" by (cases "l_fork lib tab1")
  have r: "0 \<le> r" "0 \<le> f" using ok(1) [rule_format, of tab] ok(2) [rule_format, of tab1] p fk by simp_all
  obtain k where pk: "p0 \<noteq> p1" "look tab p0 = None" "look tab p1 = None" "look tab1 = (look tab)(p0 \<mapsto> PipeRd k, p1 \<mapsto> PipeWr k)"
    using law p r(1) unfolding sh_law_def by blast
  have ch: "look child = look tab1" using law fk r(2) unfolding sh_law_def by blast
  have ne: "p0 \<noteq> 0" "p0 \<noteq> 1" "p1 \<noteq> 0" "p1 \<noteq> 1" using pk t by auto
  have dup: "look s a \<noteq> None \<Longrightarrow> look (l_dup lib a b s) = (look s)(b := look s a)" for a b s using law by (simp add: sh_law_def)
  have close: "look (l_close lib a s) = (look s)(a := None)" for a s using law by (simp add: sh_law_def)
  let ?chi = "l_close lib p1 (l_close lib p0 (l_dup lib p0 0 child))" and ?par = "l_close lib p0 (l_close lib p1 (l_dup lib p1 1 tab1))"
  have "look ?chi = (look tab)(0 \<mapsto> PipeRd k)" using pk ne by (simp add: close dup ch) (auto simp: fun_eq_iff)
  moreover have "look ?par = (look tab)(1 \<mapsto> PipeWr k)" using pk ne by (simp add: close dup) (auto simp: fun_eq_iff)
  moreover have "sh_runcmd lib tab argv ((0x7C, x) # ts) = runit lib ?par argv (Some f) # sh_runcmd lib ?chi [] ts" using r ne by (simp add: p fk)
  ultimately show ?thesis by blast
qed

text \<open>The process runs the command with this standard input and output, and with all other descriptors as they were.\<close>

definition cmd_runs :: "'f shlib \<Rightarrow> ('f \<Rightarrow> int \<Rightarrow> obj option) \<Rightarrow> (int \<Rightarrow> obj option) \<Rightarrow> 'f act list \<Rightarrow> u8 list list \<times> obj option \<times> obj option \<Rightarrow> bool" where
  "cmd_runs lib look ds acts w = (case w of (argv, i, out) \<Rightarrow> \<exists>prog t. program_of (l_stat lib) (hd argv) = Some prog \<and>
     acts \<noteq> [] \<and> hd acts = Spawn prog (prog # tl argv) t \<and> look t = ds(0 := i, 1 := out))"

lemma search_path_short: "length name \<le> 1000 \<Longrightarrow> \<forall>p \<in> set ps. length p \<le> 5 \<Longrightarrow> \<exists>prog. search_path stat ps name = Some prog \<and> length prog \<le> 1005"
  by (induction ps) auto

lemma program_short: "length name \<le> 1000 \<Longrightarrow> \<exists>prog. program_of stat name = Some prog"
  using search_path_short [of name SH_PATH stat] by (auto simp: program_of_def SH_PATH_def)

lemma runit_runs:
  assumes "argv \<noteq> []" "length argv < 16" "length (hd argv) \<le> 1000" "look tab = ds(0 := i, 1 := out)"
  shows "cmd_runs lib look ds (runit lib tab argv c) (argv, i, out)"
proof -
  obtain prog where "program_of (l_stat lib) (hd argv) = Some prog" using program_short [OF assms(3)] by blast
  then show ?thesis using assms by (auto simp: cmd_runs_def runit_def Let_def)
qed

definition cmd_ok :: "'f shlib \<Rightarrow> item list \<Rightarrow> bool" where
  "cmd_ok lib c \<longleftrightarrow> (\<forall>x \<in> set c. item_opens lib x) \<and> cmd_words c \<noteq> [] \<and> length (cmd_words c) < 16 \<and> length (hd (cmd_words c)) \<le> 1000"

lemma input_kept: "i \<noteq> None \<Longrightarrow> input_of i c \<noteq> None"
proof (induction c arbitrary: i)
  case (Cons x c)
  then show ?case by (cases x) simp_all
qed simp

lemma output_kept: "i \<noteq> None \<Longrightarrow> output_of i c \<noteq> None"
proof (induction c arbitrary: i)
  case (Cons x c)
  then show ?case by (cases x) simp_all
qed simp

lemma line_runs:
  assumes law: "sh_law lib look" and ok: "\<forall>t. 0 \<le> fst (l_pipe lib t)" "\<forall>t. 0 \<le> fst (l_fork lib t)"
  shows "cs \<noteq> [] \<Longrightarrow> \<forall>c \<in> set cs. cmd_ok lib c \<Longrightarrow> look tab 0 \<noteq> None \<Longrightarrow> look tab 1 \<noteq> None \<Longrightarrow> ds(0 := look tab 0, 1 := look tab 1) = look tab \<Longrightarrow>
    \<exists>ks. length ks + 1 = length cs \<and> list_all2 (cmd_runs lib look ds) (sh_runcmd lib tab [] (line_toks cs)) (wiring (look tab 0) (look tab 1) cs ks)"
proof (induction cs arbitrary: tab rule: line_toks.induct)
  case (2 c)
  have c: "\<forall>x \<in> set c. item_opens lib x" "cmd_words c \<noteq> []" "length (cmd_words c) < 16" "length (hd (cmd_words c)) \<le> 1000" using 2 by (simp_all add: cmd_ok_def)
  obtain tab' where t: "sh_runcmd lib tab [] (concat (map item_toks c) @ []) = sh_runcmd lib tab' ([] @ cmd_words c) []"
    "look tab' = (look tab)(0 := input_of (look tab 0) c, 1 := output_of (look tab 1) c)"
    using sh_runcmd_items [OF law c(1), of "[]" tab "[]"] c(3) 2 by auto
  have base: "look tab = ds(0 := look tab 0, 1 := look tab 1)" using 2(5) by (rule sym)
  have "look tab' = ds(0 := input_of (look tab 0) c, 1 := output_of (look tab 1) c)" unfolding t(2) by (subst base) (auto simp: fun_eq_iff)
  then have "cmd_runs lib look ds (runit lib tab' (cmd_words c) None) (cmd_words c, input_of (look tab 0) c, output_of (look tab 1) c)"
    by (rule runit_runs [OF c(2-4)])
  then show ?case using t(1) by simp
next
  case (3 c c' cs)
  have c: "\<forall>x \<in> set c. item_opens lib x" "cmd_words c \<noteq> []" "length (cmd_words c) < 16" "length (hd (cmd_words c)) \<le> 1000" using 3(3) by (simp_all add: cmd_ok_def)
  let ?rest = "line_toks (c' # cs)"
  have "\<exists>tab'. sh_runcmd lib tab [] (concat (map item_toks c) @ (0x7C, []) # ?rest) = sh_runcmd lib tab' ([] @ cmd_words c) ((0x7C, []) # ?rest) \<and>
      look tab' = (look tab)(0 := input_of (look tab 0) c, 1 := output_of (look tab 1) c)"
    by (rule sh_runcmd_items [OF law c(1)]) (use c(3) 3(4,5) in simp_all)
  then obtain tab' where t: "sh_runcmd lib tab [] (line_toks (c # c' # cs)) = sh_runcmd lib tab' (cmd_words c) ((0x7C, []) # ?rest)"
    "look tab' = (look tab)(0 := input_of (look tab 0) c, 1 := output_of (look tab 1) c)" by auto
  have t': "look tab' 0 \<noteq> None" "look tab' 1 \<noteq> None" using input_kept [of "look tab 0" c] output_kept [of "look tab 1" c] 3(4,5) by (simp_all add: t(2))
  obtain par chi f k where b: "sh_runcmd lib tab' (cmd_words c) ((0x7C, []) # ?rest) = runit lib par (cmd_words c) (Some f) # sh_runcmd lib chi [] ?rest"
    "look par = (look tab')(1 \<mapsto> PipeWr k)" "look chi = (look tab')(0 \<mapsto> PipeRd k)" using bar_spec [OF law ok t'] by blast
  have base: "look tab = ds(0 := look tab 0, 1 := look tab 1)" using 3(6) by (rule sym)
  have ds1: "ds(0 := look chi 0, 1 := look chi 1) = look chi" unfolding b(3) t(2) by (subst (2) base) (auto simp: fun_eq_iff)
  have par: "look par = ds(0 := input_of (look tab 0) c, 1 := Some (PipeWr k))" unfolding b(2) t(2) by (subst base) (auto simp: fun_eq_iff)
  have chi: "look chi 0 = Some (PipeRd k)" "look chi 1 = output_of (look tab 1) c" by (simp_all add: b(3) t(2))
  obtain ks where ks: "length ks + 1 = length (c' # cs)" "list_all2 (cmd_runs lib look ds) (sh_runcmd lib chi [] ?rest) (wiring (look chi 0) (look chi 1) (c' # cs) ks)"
    using 3(1) [of chi, OF _ _ _ _ ds1] 3(3) chi t' by (auto simp: t(2))
  have "cmd_runs lib look ds (runit lib par (cmd_words c) (Some f)) (cmd_words c, input_of (look tab 0) c, Some (PipeWr k))" using par by (rule runit_runs [OF c(2-4)])
  then show ?case using ks unfolding t(1) b(1) chi by (intro exI [of _ "k # ks"]) simp
qed simp


text \<open>A library with unlimited tables: associations of numbers and descriptors, and the number of pipes made.\<close>

definition al_fresh :: "(int \<times> obj) list \<Rightarrow> int" where
  "al_fresh xs = 1 + sum_list (map (\<lambda>x. abs (fst x)) xs)"

definition al_look :: "(int \<times> obj) list \<times> nat \<Rightarrow> int \<Rightarrow> obj option" where
  "al_look t = map_of (fst t)"

definition al_lib :: "((int \<times> obj) list \<times> nat) shlib" where
  "al_lib = \<lparr>l_open = (\<lambda>p m t. (al_fresh (fst t), (al_fresh (fst t), File p m) # fst t, snd t)),
     l_dup = (\<lambda>a b t. case al_look t a of None \<Rightarrow> t | Some x \<Rightarrow> ((b, x) # fst t, snd t)),
     l_close = (\<lambda>a t. (filter (\<lambda>x. fst x \<noteq> a) (fst t), snd t)),
     l_pipe = (\<lambda>t. let n = al_fresh (fst t) in (0, (n, n + 1), (n, PipeRd (snd t)) # (n + 1, PipeWr (snd t)) # fst t, snd t + 1)),
     l_fork = (\<lambda>t. (1, t)), l_stat = (\<lambda>_. - 1), l_spawn = (\<lambda>_ _ _. 2)\<rparr>"

lemma al_fresh_key: "x \<in> set xs \<Longrightarrow> fst x < al_fresh xs"
proof (induction xs)
  case (Cons y xs)
  have "0 \<le> sum_list (map (\<lambda>x. abs (fst x)) xs)" by (rule sum_list_nonneg) auto
  with Cons show ?case by (auto simp: al_fresh_def)
qed simp

lemma al_fresh_none: "al_fresh xs \<le> n \<Longrightarrow> map_of xs n = None"
  by (fastforce simp: map_of_eq_None_iff dest: al_fresh_key)

lemma al_fresh_pos: "0 \<le> al_fresh xs"
proof -
  have "0 \<le> sum_list (map (\<lambda>x. abs (fst x)) xs)" by (rule sum_list_nonneg) auto
  then show ?thesis by (simp add: al_fresh_def)
qed

lemma map_of_filter_key: "map_of (filter (\<lambda>x. fst x \<noteq> a) xs) = (map_of xs)(a := None)"
  by (induction xs) (auto simp: fun_eq_iff)

lemma al_law: "sh_law al_lib al_look"
proof -
  have o: "l_open al_lib p m t = (n, t') \<Longrightarrow> al_look t n = None \<and> al_look t' = (al_look t)(n \<mapsto> File p m)" for p m t n t'
    by (auto simp: al_lib_def al_look_def al_fresh_none)
  have d: "al_look t a \<noteq> None \<Longrightarrow> al_look (l_dup al_lib a b t) = (al_look t)(b := al_look t a)" for a b t
    by (cases "al_look t a") (auto simp: al_lib_def al_look_def)
  have c: "al_look (l_close al_lib a t) = (al_look t)(a := None)" for a t by (simp add: al_lib_def al_look_def map_of_filter_key)
  have p: "a \<noteq> b \<and> al_look t a = None \<and> al_look t b = None \<and> (\<exists>k. al_look t' = (al_look t)(a \<mapsto> PipeRd k, b \<mapsto> PipeWr k))"
    if e: "l_pipe al_lib t = (r, (a, b), t')" for t r a b t'
  proof -
    have "a = al_fresh (fst t)" "b = al_fresh (fst t) + 1" "fst t' = (a, PipeRd (snd t)) # (b, PipeWr (snd t)) # fst t" using e by (auto simp: al_lib_def Let_def)
    then show ?thesis by (auto simp: al_look_def al_fresh_none fun_eq_iff intro!: exI [of _ "snd t"])
  qed
  have f: "l_fork al_lib t = (r, c) \<Longrightarrow> al_look c = al_look t" for t r c by (auto simp: al_lib_def)
  show ?thesis unfolding sh_law_def using o d c p f by blast
qed

definition two_cmds :: "item list list" where
  "two_cmds = [[Word [0x6C, 0x73]], [Word [0x6E, 0x75, 0x6D], Out [0x66]]]"

definition std_tab :: "(int \<times> obj) list \<times> nat" where
  "std_tab = ([(0, Other 0), (1, Other 1)], 0)"


text \<open>A command of sixteen words passes the check for too many arguments, but the pointer that ends the list is then stored behind the array.\<close>

theorem sixteen_words_overflow:
  assumes "length ws = 16"
  shows "sh_runcmd lib tab [] (map (\<lambda>w. (TOK_WORD, w)) ws) = [[Overflow]]"
proof -
  have "length argv + length xs \<le> 16 \<Longrightarrow> sh_runcmd lib tab argv (map (\<lambda>w. (TOK_WORD, w)) xs) = [runit lib tab (argv @ xs) None]" for argv xs
    by (induction xs arbitrary: argv) simp_all
  from this [of "[]" ws] show ?thesis using assms by (auto simp: runit_def split: option.splits)
qed

theorem sixteen_words_overflow_witness: "sh_runcmd al_lib std_tab [] (map (\<lambda>w. (TOK_WORD, w)) (replicate 16 [0x61])) = [[Overflow]]"
  using sixteen_words_overflow [of "replicate 16 [0x61]" al_lib std_tab] by simp

end
