(* ===== verification/Spec2Isabelle.thy ===== *)
theory Spec2Isabelle
  imports Kern_Trap Kern_Spinlock Kern_Mp Lib_Ipc Lib_Syscall Lib_Pipe Lib_File Lib_Fork Lib_Args Lib_Readline Cmd_Line Lib_Malloc Lib_Console Lib_Spawn Net_Mbox Lib_Sock User_Httpd Fs_Format Kern_Pci Fs_Ide User_Sh
begin

text \<open>
  Verification of JOS, a small multiprocessor operating system for x86-64 with a user-level file
  server and a network card driver.  The sources are under \<^verbatim>\<open>src/JOS-with-network\<close>; the tree
  \<^verbatim>\<open>src/JOS-with-file-system\<close> holds an earlier state of the same files, of which only the page
  fault handler of the block cache is modelled, because the later one is defective.

  \<^bold>\<open>The parts and how they interact.\<close>  The kernel keeps physical pages, page tables and a table of
  environments (processes).  A processor enters it through \<open>trap\<close>, which takes the big kernel lock,
  handles a system call, a fault or an interrupt, and leaves through the scheduler or directly
  through \<open>env_run\<close>, which releases the lock.  Everything else is a user environment: the library
  builds file descriptors, pipes and fork out of the page system calls, and the file system is a
  server that clients reach by passing it a page.

  \<^bold>\<open>Conventions.\<close>  A C function is one definition with its name; a loop of it is a second definition
  whose name ends in \<open>_loop\<close>.  A panic, a failed assertion, a fault of the code itself and a loop that never
  ends are \<open>None\<close>; error codes are negative integers as in the code.  Functions that may leave the
  kernel return a \<open>ctl\<close> value.  Machine words are words wherever the code computes with them.
  Records extend one another along the layers of the kernel, so an operation of the page
  allocator applies to the whole kernel state.  Recursion is structural or has a measure;
  searches that the code does not bound are partial functions, and the theorems about them prove that
  they return.  There is no fuel except \<open>sys_cputs\<close>, whose bound \<open>2 ^ 64\<close> is the size of the
  address space, the flag loop of \<open>argnext_yields_flags\<close>, where the number of characters is proved enough, and the depth of
  the PCI scan, for which 256 is proved enough when the bridges are numbered upwards.

  \<^bold>\<open>Theories of the kernel.\<close>
  \<^item> \<open>JOS_Prelude\<close>: types, error codes, rounding macros, byte memory, C strings.
  \<^item> \<open>Kern_Page\<close> (\<^verbatim>\<open>kern/pmap.c\<close>): the page array with its free list.  Initialisation frees exactly the
    unreserved pages, allocation takes the first one, the last reference frees.  The linked list is an
    instance of the locale \<open>linked_free_list\<close>, of which the environment table is another.
  \<^item> \<open>Kern_Pgtbl\<close> (\<^verbatim>\<open>kern/pmap.c\<close>): the four-level tables as frames of words.  The tables form a tree
    whose frames are allocated and not mapped; inserting, looking up and removing refine
    a map from addresses to pages, with exact reference counts.
  \<^item> \<open>Kern_Env\<close>, \<open>Kern_Sched\<close>, \<open>Kern_Spinlock\<close>, \<open>Kern_Syscall\<close>, \<open>Kern_Trap\<close>: environments and their
    identifiers, round-robin scheduling with its fairness, the lock as a machine of interleaved
    processors with mutual exclusion and progress, all system calls with their permission checks, and
    the trap path, where the lock is released on every way out.
  \<^item> \<open>Kern_Console\<close>, \<open>Kern_E1000\<close>: console input as a bounded queue (locale \<open>bounded_fifo\<close> of
    \<open>Ring_Fifo\<close>, also met by pipes), screen and clock; the descriptor rings of the network card.
  \<^item> \<open>Kern_Mp\<close> (\<^verbatim>\<open>kern/mpconfig.c\<close>, \<^verbatim>\<open>kern/lapic.c\<close>, \<open>boot_aps\<close> of \<^verbatim>\<open>kern/init.c\<close>): the configuration table is
    parsed from physical memory, processors are counted and numbered, and the others are started one by one; the
    local APIC is the trace of the writes to its registers.

  \<^bold>\<open>Theories of the file system.\<close>
  \<^item> \<open>Fs_Bcache\<close> (\<^verbatim>\<open>fs/bc.c\<close>): the demand-loaded disk map refines a plain memory (locale
    \<open>transparent_store\<close>).
  \<^item> \<open>Fs_File\<close>, \<open>Fs_Contents\<close> (\<^verbatim>\<open>fs/fs.c\<close>): every function; a well-formed file keeps its bytes, and what is
    written is read back.
  \<^item> \<open>Fs_Serv\<close> (\<^verbatim>\<open>fs/serv.c\<close>): the open file table and all requests, as a step relation over arbitrary
    requests; two defects of the request checks are theorems.
  \<^item> \<open>Lib_File\<close> (\<^verbatim>\<open>lib/file.c\<close>): the client; reading after writing through all layers.

  \<^bold>\<open>Theories of the user library.\<close>
  \<^item> \<open>User_Mem\<close>: the address space of an environment and its page system calls.
  \<^item> \<open>Lib_Fd\<close>, \<open>Lib_Pipe\<close>: descriptors and pipes, with all failures of the calls they make, and the pipe
    buffer as a machine of two interleaved environments.
  \<^item> \<open>Lib_Fork\<close>: copy-on-write fork, its fault handler, and the page its scan misses.
  \<^item> \<open>Lib_Malloc\<close> (\<^verbatim>\<open>lib/malloc.c\<close>): the heap with its reference counts in the pages; live blocks stay
    apart and keep their bytes.  The last theorem of this theory, \<open>heap_pages_shared_with_child\<close>, combines it with fork.
  \<^item> \<open>Lib_Spawn\<close> (\<^verbatim>\<open>lib/spawn.c\<close>): starting a program; the child finds its arguments and the shared pages.
  \<^item> \<open>Lib_Console\<close> (\<^verbatim>\<open>lib/console.c\<close> and the \<open>printf\<close> functions): buffered printing over any sink of bytes (locales
    \<open>byte_sink\<close> and \<open>total_sink\<close>), of which the console device is an instance.
  \<^item> \<open>Net_Thread\<close>, \<open>Net_Mbox\<close> (\<^verbatim>\<open>net/lwip/jos/arch\<close>): the cooperative threads of the network server over the heap
    (locale \<open>fifo_queue\<close>), semaphores and mailboxes; a mailbox is a third instance of \<open>bounded_fifo\<close>.
  \<^item> \<open>Net_Serv\<close> (\<^verbatim>\<open>net/serv.c\<close>, its helper environments and the interface \<^verbatim>\<open>net/lwip/jos/jif/jif.c\<close>): the server with its buffers and
    threads as a step relation over any TCP/IP stack, the vendored code being the record \<open>lwip\<close> of functions; packets pass unchanged in both directions.
  \<^item> \<open>Lib_Sock\<close> (\<^verbatim>\<open>lib/nsipc.c\<close>, \<^verbatim>\<open>lib/sockets.c\<close>): sockets as descriptors; the calls of a program are the calls of the stack.
  \<^item> \<open>User_Httpd\<close> (\<^verbatim>\<open>user/httpd.c\<close>): the web server over these; what a client is sent for a file, for a missing file and for a bad request.
  \<^item> \<open>Fs_Format\<close> (\<^verbatim>\<open>fs/fsformat.c\<close>): the program that builds the disk image, on the same memory that \<open>Fs_File\<close> reads; what it puts into an
    image is what the file server finds there.
  \<^item> \<open>Kern_Pci\<close> (\<^verbatim>\<open>kern/pci.c\<close>): the configuration space as a memory of registers, the scan with a bound on the depth of nested
    buses (256 are enough when the bridges are numbered upwards; no bound is enough for a bridge that leads back), the drivers and the regions.
  \<^item> \<open>Fs_Ide\<close> (\<^verbatim>\<open>fs/ide.c\<close>): the disk driver on the instructions for its ports; on a drive that keeps the ATA contract
    (\<open>ata_law\<close>) it moves the sectors that the block cache asks for.
  \<^item> \<open>User_Sh\<close> (\<^verbatim>\<open>user/sh.c\<close>): the shell on the tokens of \<open>Cmd_Line\<close>, over any library of descriptors; the processes of a pipeline and
    the descriptors that each of them has.
  \<^item> \<open>Lib_Ipc\<close> (\<^verbatim>\<open>lib/ipc.c\<close>): messages between programs, on the system calls; waiting is a sequence of turns of the sender.
  \<^item> \<open>Lib_Syscall\<close> (\<^verbatim>\<open>lib/syscall.c\<close>): the stubs; each of them reaches its function in the kernel with the arguments in their places.
  \<^item> \<open>Lib_String\<close>, \<open>Lib_Printfmt\<close>, \<open>Lib_Args\<close>, \<open>Lib_Readline\<close>, \<open>Cmd_Line\<close>: strings (with the assembler loops of
    \<open>memset\<close> and \<open>memmove\<close>), formatted output, flags, line input, and the tokenizers of shell and monitor.

  \<^bold>\<open>Not modelled.\<close>  The TCP/IP stack and the DWARF reader are vendored libraries.  The boot loader and the legacy interrupt
  controllers are port input and output and assembler.  The TLB, caches and memory
  ordering are not visible in the model.  The card, the disk and the configuration space are environments: what they store is
  a parameter or a field of the state, or a contract on the port instructions.  The commands of the kernel monitor only print.
  Test programs and the self tests of \<^verbatim>\<open>kern/pmap.c\<close> are left out.
\<close>

section \<open>The heap and fork\<close>

lemma continued_is_share: "p AND PTE_CONTINUED \<noteq> 0 \<Longrightarrow> p AND UPTE_W \<noteq> 0 \<Longrightarrow> cow_perm p AND UPTE_W \<noteq> 0"
  for p :: u32
proof -
  assume a: "p AND PTE_CONTINUED \<noteq> 0" "p AND UPTE_W \<noteq> 0"
  have "(p AND UPTE_SYSCALL) AND UPTE_SHARE = p AND PTE_CONTINUED" by (simp add: and.assoc)
  then have "cow_perm p = p AND UPTE_SYSCALL" using a(1) by (simp add: cow_perm_def Let_def)
  then show ?thesis using a(2) by (simp add: and.assoc)
qed


definition two_page_heap :: heap where
  "two_page_heap = \<lparr>upt = (\<lambda>n. if n = 32768 then Some \<lparr>pg_frame = 1, pg_perm = 0x407\<rparr> else if n = 32769 then Some \<lparr>pg_frame = 2, pg_perm = 7\<rparr> else None),
     uframe = (\<lambda>_. wr32 (\<lambda>_. 0) 4092 1), uref = (\<lambda>f. if f = 1 \<or> f = 2 then 1 else 0), ufree = [3], krets = [], mptr = 0\<rparr>"

lemma two_page_heap_inv: "heap_inv two_page_heap [(32768 * PGSIZE, PGSIZE)]"
proof -
  let ?s = two_page_heap and ?b = "(32768 * PGSIZE, PGSIZE)"
  have m: "maps_to ?s f = (if f = 1 then {32768} else if f = 2 then {32769} else {})" for f
    by (auto simp: maps_to_def two_page_heap_def split: if_splits)
  have hb: "heap_base ?s" unfolding heap_base_def umem_inv_def m by (auto simp: two_page_heap_def split: if_splits)
  have e: "endp ?s j \<longleftrightarrow> j = 32769" "contp ?s j \<longleftrightarrow> j = 32768" for j by (simp_all add: endp_def contp_def two_page_heap_def)
  have r: "refc ?s 32769 = 1" by (simp add: refc_def page_bytes_def two_page_heap_def)
  have lb: "last_pg ?b = 32769" by (simp add: last_pg_def)
  have mp: "mptr ?s = 0" by (simp add: two_page_heap_def)
  have bk: "block_ok ?s ?b" unfolding block_ok_def lb e fst_conv by (auto simp: vpn_def)
  show ?thesis unfolding heap_inv_def mp e using hb bk r lb by (auto simp: cnt_def is_open_def mp)
qed


end
